(* ===== verification/Prelude.thy ===== *)
theory Prelude
  imports Main "HOL-Library.Word"
begin

text \<open>
  The vocabulary every component shares: the widths of the machine integers, results
  that may be errors, checked arithmetic as Rust's \<open>checked_add\<close> and \<open>checked_mul\<close>
  define it, little-endian fields inside byte buffers, and the collections the component
  proofs hand to the simplifier.
\<close>

unbundle bit_operations_syntax

type_synonym u8 = "8 word"
type_synonym u16 = "16 word"
type_synonym u32 = "32 word"
type_synonym u64 = "64 word"

named_theorems byte_simps \<open>reading back what was written into a byte buffer\<close>
named_theorems res_simps \<open>propagation of errors through sequenced results\<close>
named_theorems checked_simps \<open>checked machine arithmetic\<close>

section \<open>Results\<close>

text \<open>
  A Rust \<open>Result\<close> is a sum with the error on the left. \<open>attempt r k\<close> is the
  question-mark operator: an error returns early, a value is passed on.
\<close>

definition attempt :: "'e + 'a \<Rightarrow> ('a \<Rightarrow> 'e + 'b) \<Rightarrow> 'e + 'b" where
  "attempt r k = (case r of Inl e \<Rightarrow> Inl e | Inr x \<Rightarrow> k x)"

definition require_that :: "bool \<Rightarrow> 'e \<Rightarrow> 'e + unit" where
  "require_that c e = (if c then Inr () else Inl e)"

definition map_error :: "('e \<Rightarrow> 'f) \<Rightarrow> 'e + 'a \<Rightarrow> 'f + 'a" where
  "map_error g r = (case r of Inl e \<Rightarrow> Inl (g e) | Inr x \<Rightarrow> Inr x)"

definition ok_or :: "'a option \<Rightarrow> 'e \<Rightarrow> 'e + 'a" where
  "ok_or x e = (case x of None \<Rightarrow> Inl e | Some v \<Rightarrow> Inr v)"

definition is_ok :: "'e + 'a \<Rightarrow> bool" where
  "is_ok r \<longleftrightarrow> (case r of Inl _ \<Rightarrow> False | Inr _ \<Rightarrow> True)"

lemma attempt_simps [simp, res_simps]:
  "attempt (Inl e) k = Inl e"
  "attempt (Inr x) k = k x"
  by (simp_all add: attempt_def)

lemma require_that_simps [simp, res_simps]:
  "require_that True e = Inr ()"
  "require_that False e = Inl e"
  by (simp_all add: require_that_def)

lemma require_that_Inr [simp]: "require_that c e = Inr u \<longleftrightarrow> c"
  by (simp add: require_that_def)

lemma require_that_Inl [simp]: "require_that c e = Inl e' \<longleftrightarrow> \<not> c \<and> e' = e"
  by (auto simp: require_that_def)

lemma attempt_Inr_conv [res_simps]:
  "attempt r k = Inr y \<longleftrightarrow> (\<exists>x. r = Inr x \<and> k x = Inr y)"
  by (cases r) auto

lemma attempt_Inl_conv [res_simps]:
  "attempt r k = Inl e \<longleftrightarrow> r = Inl e \<or> (\<exists>x. r = Inr x \<and> k x = Inl e)"
  by (cases r) auto

lemma map_error_simps [simp, res_simps]:
  "map_error g (Inl e) = Inl (g e)"
  "map_error g (Inr x) = Inr x"
  by (simp_all add: map_error_def)

lemma map_error_Inr [simp]: "map_error g r = Inr x \<longleftrightarrow> r = Inr x"
  by (cases r) auto

lemma ok_or_simps [simp, res_simps]:
  "ok_or None e = Inl e"
  "ok_or (Some v) e = Inr v"
  by (simp_all add: ok_or_def)

lemma ok_or_Inr [simp]: "ok_or x e = Inr v \<longleftrightarrow> x = Some v"
  by (cases x) auto

lemma is_ok_simps [simp]: "is_ok (Inr x)" "\<not> is_ok (Inl e)"
  by (simp_all add: is_ok_def)

lemma is_ok_iff: "is_ok r \<longleftrightarrow> (\<exists>x. r = Inr x)"
  by (cases r) auto

section \<open>Checked arithmetic\<close>

text \<open>\<open>None\<close> where the sum, product or difference leaves the 64-bit range.\<close>

definition checked_add :: "u64 \<Rightarrow> u64 \<Rightarrow> u64 option" where
  "checked_add a b = (if unat a + unat b < 2 ^ 64 then Some (a + b) else None)"

definition checked_mul :: "u64 \<Rightarrow> u64 \<Rightarrow> u64 option" where
  "checked_mul a b = (if unat a * unat b < 2 ^ 64 then Some (a * b) else None)"

definition checked_sub :: "u64 \<Rightarrow> u64 \<Rightarrow> u64 option" where
  "checked_sub a b = (if b \<le> a then Some (a - b) else None)"

lemma checked_add_Some [checked_simps]:
  "checked_add a b = Some c \<longleftrightarrow> unat a + unat b < 2 ^ 64 \<and> unat c = unat a + unat b"
proof
  assume "checked_add a b = Some c"
  then show "unat a + unat b < 2 ^ 64 \<and> unat c = unat a + unat b"
    by (auto simp: checked_add_def unat_word_ariths split: if_splits)
next
  assume a: "unat a + unat b < 2 ^ 64 \<and> unat c = unat a + unat b"
  then have "unat (a + b) = unat c"
    by (simp add: unat_word_ariths)
  with a show "checked_add a b = Some c"
    by (simp add: checked_add_def word_unat_eq_iff)
qed

lemma checked_mul_Some [checked_simps]:
  "checked_mul a b = Some c \<longleftrightarrow> unat a * unat b < 2 ^ 64 \<and> unat c = unat a * unat b"
proof
  assume "checked_mul a b = Some c"
  then show "unat a * unat b < 2 ^ 64 \<and> unat c = unat a * unat b"
    by (auto simp: checked_mul_def unat_word_ariths split: if_splits)
next
  assume a: "unat a * unat b < 2 ^ 64 \<and> unat c = unat a * unat b"
  then have "unat (a * b) = unat c"
    by (simp add: unat_word_ariths)
  with a show "checked_mul a b = Some c"
    by (simp add: checked_mul_def word_unat_eq_iff)
qed

lemma checked_sub_Some [checked_simps]:
  "checked_sub a b = Some c \<longleftrightarrow> unat b \<le> unat a \<and> unat c = unat a - unat b"
  by (auto simp: checked_sub_def word_le_nat_alt unat_sub word_unat_eq_iff split: if_splits)

lemma checked_mul_add_Some [checked_simps]:
  "Option.bind (checked_mul a b) (\<lambda>x. checked_add x c) = Some d \<longleftrightarrow>
     unat a * unat b + unat c < 2 ^ 64 \<and> unat d = unat a * unat b + unat c"
proof
  assume "Option.bind (checked_mul a b) (\<lambda>x. checked_add x c) = Some d"
  then show "unat a * unat b + unat c < 2 ^ 64 \<and> unat d = unat a * unat b + unat c"
    by (auto simp: bind_eq_Some_conv checked_mul_Some checked_add_Some)
next
  assume a: "unat a * unat b + unat c < 2 ^ 64 \<and> unat d = unat a * unat b + unat c"
  then have "checked_mul a b = Some (a * b)" and "unat (a * b) = unat a * unat b"
    by (simp_all add: checked_mul_def unat_word_ariths)
  with a show "Option.bind (checked_mul a b) (\<lambda>x. checked_add x c) = Some d"
    by (simp add: checked_add_Some)
qed

lemma checked_add_one:
  "checked_add a 1 = Some b \<longleftrightarrow> unat b = Suc (unat a)"
proof -
  have "unat b < 2 ^ 64" using unsigned_less [of b] by simp
  then show ?thesis by (auto simp: checked_add_Some)
qed

lemma unat_u64_less [simp]: "unat (x :: u64) < 18446744073709551616"
  using unsigned_less [of x] by simp

lemma unat_u32_less [simp]: "unat (x :: u32) < 4294967296"
  using unsigned_less [of x] by simp

lemma unat_u8_less [simp]: "unat (x :: u8) < 256"
  using unsigned_less [of x] by simp

lemma unat_u8_u32 [simp]: "unat (ucast (b :: u8) :: u32) = unat b"
proof -
  have "unat b < 4294967296" using unat_u8_less [of b] by linarith
  then show ?thesis by (simp add: unsigned_ucast_eq take_bit_eq_mod)
qed

lemma unat_u32_u64 [simp]: "unat (ucast (x :: u32) :: u64) = unat x"
proof -
  have "unat x < 18446744073709551616" using unat_u32_less [of x] by linarith
  then show ?thesis by (simp add: unsigned_ucast_eq take_bit_eq_mod)
qed

section \<open>Byte buffers\<close>

text \<open>
  \<open>slice bs off n\<close> is \<open>bytes[off..off + n]\<close> and \<open>put bs off xs\<close> is
  \<open>bytes[off..off + xs.len()].copy_from_slice(xs)\<close>, for ranges inside the buffer.
\<close>

definition slice :: "'a list \<Rightarrow> nat \<Rightarrow> nat \<Rightarrow> 'a list" where
  "slice bs off n = take n (drop off bs)"

definition put :: "'a list \<Rightarrow> nat \<Rightarrow> 'a list \<Rightarrow> 'a list" where
  "put bs off xs = take off bs @ xs @ drop (off + length xs) bs"

lemma length_put [simp, byte_simps]:
  "off + length xs \<le> length bs \<Longrightarrow> length (put bs off xs) = length bs"
  by (simp add: put_def)

lemma length_slice [simp, byte_simps]:
  "off + n \<le> length bs \<Longrightarrow> length (slice bs off n) = n"
  by (simp add: slice_def)

lemma nth_put:
  assumes "off + length xs \<le> length bs" and "i < length bs"
  shows "put bs off xs ! i =
    (if off \<le> i \<and> i < off + length xs then xs ! (i - off) else bs ! i)"
  using assms by (auto simp: put_def nth_append min_def)

lemma nth_slice: "off + n \<le> length bs \<Longrightarrow> i < n \<Longrightarrow> slice bs off n ! i = bs ! (off + i)"
  by (simp add: slice_def)

lemma slice_put_same [byte_simps]:
  assumes "off + length xs \<le> length bs" and "n = length xs"
  shows "slice (put bs off xs) off n = xs"
  using assms by (simp add: slice_def put_def)

lemma slice_put_before [byte_simps]:
  assumes "off + length xs \<le> length bs" and "o' + n \<le> off"
  shows "slice (put bs off xs) o' n = slice bs o' n"
  using assms by (intro nth_equalityI) (auto simp: nth_slice nth_put)

lemma slice_put_after [byte_simps]:
  assumes "off + length xs \<le> length bs" and "off + length xs \<le> o'" and "o' + n \<le> length bs"
  shows "slice (put bs off xs) o' n = slice bs o' n"
  using assms by (intro nth_equalityI) (auto simp: nth_slice nth_put)

lemma nth_put_outside [byte_simps]:
  assumes "off + length xs \<le> length bs" and "i < length bs" and "i < off \<or> off + length xs \<le> i"
  shows "put bs off xs ! i = bs ! i"
  using assms by (auto simp: nth_put)

lemma nth_put_single [byte_simps]: "i < length bs \<Longrightarrow> put bs i [x] ! i = x"
  by (simp add: nth_put)

lemma drop_put_after [byte_simps]:
  "off + length xs \<le> length bs \<Longrightarrow> off + length xs \<le> n \<Longrightarrow> drop n (put bs off xs) = drop n bs"
  by (rule nth_equalityI) (auto simp: nth_put)

lemma slice_replicate [byte_simps]:
  "off + n \<le> m \<Longrightarrow> slice (replicate m x) off n = replicate n x"
  by (simp add: slice_def min_def)

lemma put_slice_id:
  "off + n \<le> length bs \<Longrightarrow> put bs off (slice bs off n) = bs"
  by (intro nth_equalityI) (auto simp: nth_put nth_slice)

lemma put_put_same [byte_simps]:
  assumes "off + length xs \<le> length bs" and "length ys = length xs"
  shows "put (put bs off xs) off ys = put bs off ys"
  using assms by (intro nth_equalityI) (auto simp: nth_put)

lemma slice_put_covering:
  assumes "off + length xs \<le> length bs" and "o' \<le> off"
    and "off + length xs \<le> o' + n" and "o' + n \<le> length bs"
  shows "slice (put bs off xs) o' n = put (slice bs o' n) (off - o') xs"
  using assms by (intro nth_equalityI) (auto simp: nth_slice nth_put add.commute)

lemma slice_eq_takeI: "slice bs 0 n = take n bs"
  by (simp add: slice_def)

definition all_zero :: "u8 list \<Rightarrow> bool" where
  "all_zero bs \<longleftrightarrow> list_all (\<lambda>b. b = 0) bs"

lemma all_zero_replicate [simp, byte_simps]: "all_zero (replicate n 0)"
  by (simp add: all_zero_def list_all_iff)

lemma all_zero_iff: "all_zero bs \<longleftrightarrow> bs = replicate (length bs) 0"
proof
  assume "all_zero bs"
  then show "bs = replicate (length bs) 0"
    by (intro replicate_eqI) (auto simp: all_zero_def list_all_iff)
next
  assume "bs = replicate (length bs) 0"
  then show "all_zero bs"
    by (metis all_zero_replicate)
qed

section \<open>Little-endian integers\<close>

fun le_encode :: "nat \<Rightarrow> nat \<Rightarrow> u8 list" where
  "le_encode 0 n = []"
| "le_encode (Suc k) n = word_of_nat (n mod 256) # le_encode k (n div 256)"

fun le_decode :: "u8 list \<Rightarrow> nat" where
  "le_decode [] = 0"
| "le_decode (b # bs) = unat b + 256 * le_decode bs"

lemma length_le_encode [simp, byte_simps]: "length (le_encode k n) = k"
  by (induction k arbitrary: n) auto

lemma le_decode_encode: "le_decode (le_encode k n) = n mod 256 ^ k"
proof (induction k arbitrary: n)
  case 0
  then show ?case by simp
next
  case (Suc k)
  have "unat (word_of_nat (n mod 256) :: u8) = n mod 256"
    by (simp add: unat_of_nat)
  then show ?case
    by (simp add: Suc.IH mod_mult2_eq [of n 256 "256 ^ k"])
qed

lemma le_decode_less: "le_decode bs < 256 ^ length bs"
proof (induction bs)
  case Nil
  then show ?case by simp
next
  case (Cons b bs)
  have "unat b < 256" by simp
  with Cons.IH have "unat b + 256 * le_decode bs < 256 * 256 ^ length bs"
    by linarith
  then show ?case by simp
qed

lemma le_encode_decode: "le_encode (length bs) (le_decode bs) = bs"
proof (induction bs)
  case Nil
  then show ?case by simp
next
  case (Cons b bs)
  have "unat b < 256" by simp
  then have "(unat b + 256 * le_decode bs) mod 256 = unat b"
    and "(unat b + 256 * le_decode bs) div 256 = le_decode bs"
    by simp_all
  with Cons.IH show ?case by simp
qed

definition u32_bytes :: "u32 \<Rightarrow> u8 list" where
  "u32_bytes x = le_encode 4 (unat x)"

definition u64_bytes :: "u64 \<Rightarrow> u8 list" where
  "u64_bytes x = le_encode 8 (unat x)"

definition u32_of_bytes :: "u8 list \<Rightarrow> u32" where
  "u32_of_bytes bs = word_of_nat (le_decode bs)"

definition u64_of_bytes :: "u8 list \<Rightarrow> u64" where
  "u64_of_bytes bs = word_of_nat (le_decode bs)"

lemma length_u32_bytes [simp, byte_simps]: "length (u32_bytes x) = 4"
  by (simp add: u32_bytes_def)

lemma length_u64_bytes [simp, byte_simps]: "length (u64_bytes x) = 8"
  by (simp add: u64_bytes_def)

lemma u32_of_bytes_bytes [simp, byte_simps]: "u32_of_bytes (u32_bytes x) = x"
  by (simp add: u32_of_bytes_def u32_bytes_def le_decode_encode)

lemma u64_of_bytes_bytes [simp, byte_simps]: "u64_of_bytes (u64_bytes x) = x"
  by (simp add: u64_of_bytes_def u64_bytes_def le_decode_encode)

lemma u32_bytes_of_bytes: "length bs = 4 \<Longrightarrow> u32_bytes (u32_of_bytes bs) = bs"
  using le_decode_less [of bs] le_encode_decode [of bs]
  by (simp add: u32_of_bytes_def u32_bytes_def unat_of_nat)

lemma u64_bytes_of_bytes: "length bs = 8 \<Longrightarrow> u64_bytes (u64_of_bytes bs) = bs"
  using le_decode_less [of bs] le_encode_decode [of bs]
  by (simp add: u64_of_bytes_def u64_bytes_def unat_of_nat)

lemma le_encode_zero: "le_encode k 0 = replicate k 0"
  by (induction k) auto

lemma u32_bytes_zero [simp]: "u32_bytes 0 = [0, 0, 0, 0]"
  by (simp add: u32_bytes_def le_encode_zero numeral_eq_Suc)

lemma u64_of_bytes_zero [simp, byte_simps]: "u64_of_bytes (replicate 8 0) = 0"
  using u64_of_bytes_bytes [of 0] by (simp add: u64_bytes_def le_encode_zero)

lemma u32_of_bytes_zero [simp, byte_simps]: "u32_of_bytes (replicate 4 0) = 0"
  using u32_of_bytes_bytes [of 0] by (simp add: u32_bytes_def le_encode_zero)

section \<open>Cancellation\<close>

text \<open>
  A cancellation token is a flag that is only ever set (src/cancellation.rs). Code that
  checks it takes the flag's value at the moment of the check.
\<close>

record cancellation_token =
  requested :: bool

definition new_token :: cancellation_token where
  "new_token = \<lparr>requested = False\<rparr>"

definition cancel :: "cancellation_token \<Rightarrow> cancellation_token" where
  "cancel t = t\<lparr>requested := True\<rparr>"

definition is_cancelled :: "cancellation_token \<Rightarrow> bool" where
  "is_cancelled t = requested t"

definition check_cancel :: "'e \<Rightarrow> cancellation_token \<Rightarrow> 'e + unit" where
  "check_cancel cancelled t = (if is_cancelled t then Inl cancelled else Inr ())"

lemma check_cancel_Inr [simp]: "check_cancel e t = Inr u \<longleftrightarrow> \<not> is_cancelled t"
  by (simp add: check_cancel_def)

lemma cancel_is_sticky [simp]: "is_cancelled (cancel t)" "cancel (cancel t) = cancel t"
  by (simp_all add: cancel_def is_cancelled_def)

end
