(* ===== verification/Checksum.thy ===== *)
theory Checksum
  imports Prelude
begin

text \<open>
  The checksum crate (checksum/src/lib.rs and checksum/src/ieee.rs): CRC32C for native
  records and IEEE CRC-32 for Parquet pages, each by the portable slicing-by-eight
  tables. The specification is the bit-at-a-time division by the reflected polynomial;
  the theory shows that the table-driven update computes it, and that separate updates
  give the checksum of the concatenation. The AArch64 intrinsics (checksum/src/aarch64.rs)
  are hardware instructions outside the model: the update here is the portable one.
\<close>

section \<open>The reflected division step\<close>

definition crc32c_poly :: u32 where
  "crc32c_poly = 0x82f63b78"

definition ieee_poly :: u32 where
  "ieee_poly = 0xedb88320"

text \<open>The inner loop body of \<open>make_crc32c_tables\<close>.\<close>

definition crc32c_step :: "u32 \<Rightarrow> u32" where
  "crc32c_step value =
     (if value AND 1 = 1 then drop_bit 1 value XOR crc32c_poly else drop_bit 1 value)"

text \<open>The IEEE table masks the polynomial with \<open>0.wrapping_sub(crc & 1)\<close> instead.\<close>

definition ieee_step :: "u32 \<Rightarrow> u32" where
  "ieee_step crc = drop_bit 1 crc XOR (ieee_poly AND (0 - (crc AND 1)))"

fun iterate :: "nat \<Rightarrow> ('a \<Rightarrow> 'a) \<Rightarrow> 'a \<Rightarrow> 'a" where
  "iterate 0 f x = x"
| "iterate (Suc n) f x = iterate n f (f x)"

lemma iterate_0 [simp]: "iterate 0 f = (\<lambda>x. x)"
  by (rule ext) simp

lemma iterate_funpow: "iterate n f x = (f ^^ n) x"
  by (induction n arbitrary: x) (simp_all add: funpow_swap1)

text \<open>
  The specification: feed one byte by dividing eight times, low bit first, and a buffer
  byte by byte.
\<close>

definition crc_byte :: "(u32 \<Rightarrow> u32) \<Rightarrow> u32 \<Rightarrow> u8 \<Rightarrow> u32" where
  "crc_byte step s b = iterate 8 step (s XOR ucast b)"

definition crc_bitwise :: "(u32 \<Rightarrow> u32) \<Rightarrow> u32 \<Rightarrow> u8 list \<Rightarrow> u32" where
  "crc_bitwise step s bs = foldl (crc_byte step) s bs"

section \<open>The tables\<close>

text \<open>
  Row 0 holds the eight-step division of every byte; each later row advances the row
  before it through one more zero byte.
\<close>

definition next_row :: "u32 list \<Rightarrow> u32 list \<Rightarrow> u32 list" where
  "next_row row0 previous =
     map (\<lambda>p. drop_bit 8 p XOR (row0 ! unat (p AND 0xff))) previous"

fun table_rows :: "nat \<Rightarrow> u32 list \<Rightarrow> u32 list \<Rightarrow> u32 list list" where
  "table_rows 0 row0 row = []"
| "table_rows (Suc n) row0 row = row # table_rows n row0 (next_row row0 row)"

definition make_crc32c_tables :: "u32 list list" where
  "make_crc32c_tables =
     (let row0 = map (\<lambda>index. iterate 8 crc32c_step (word_of_nat index)) [0..<256]
      in table_rows 8 row0 row0)"

definition ieee_tables :: "u32 list list" where
  "ieee_tables =
     (let row0 = map (\<lambda>byte. iterate 8 ieee_step (word_of_nat byte)) [0..<256]
      in table_rows 8 row0 row0)"

section \<open>The table-driven update\<close>

definition le_byte :: "u32 \<Rightarrow> nat \<Rightarrow> u8" where
  "le_byte x i = ucast (drop_bit (8 * i) x)"

definition u32_from_le :: "u8 \<Rightarrow> u8 \<Rightarrow> u8 \<Rightarrow> u8 \<Rightarrow> u32" where
  "u32_from_le a b c d =
     ucast a OR push_bit 8 (ucast b) OR push_bit 16 (ucast c) OR push_bit 24 (ucast d)"

definition table_at :: "u32 list list \<Rightarrow> nat \<Rightarrow> u8 \<Rightarrow> u32" where
  "table_at tables row b = tables ! row ! unat b"

fun update_portable :: "u32 list list \<Rightarrow> u32 \<Rightarrow> u8 list \<Rightarrow> u32" where
  "update_portable tables s (b0 # b1 # b2 # b3 # b4 # b5 # b6 # b7 # rest) =
     (let first = u32_from_le b0 b1 b2 b3 XOR s
      in update_portable tables
           (table_at tables 7 (le_byte first 0) XOR table_at tables 6 (le_byte first 1)
            XOR table_at tables 5 (le_byte first 2) XOR table_at tables 4 (le_byte first 3)
            XOR table_at tables 3 b4 XOR table_at tables 2 b5
            XOR table_at tables 1 b6 XOR table_at tables 0 b7) rest)"
| "update_portable tables s (b # rest) =
     update_portable tables (table_at tables 0 (le_byte s 0 XOR b) XOR drop_bit 8 s) rest"
| "update_portable tables s [] = s"

datatype crc32c = Crc32c u32
datatype crc32_ieee = Crc32 u32

definition crc32c_new :: crc32c where
  "crc32c_new = Crc32c (- 1)"

fun crc32c_update :: "crc32c \<Rightarrow> u8 list \<Rightarrow> crc32c" where
  "crc32c_update (Crc32c s) bytes =
     (if bytes = [] then Crc32c s else Crc32c (update_portable make_crc32c_tables s bytes))"

fun crc32c_finish :: "crc32c \<Rightarrow> u32" where
  "crc32c_finish (Crc32c s) = s XOR (- 1)"

definition crc32c :: "u8 list \<Rightarrow> u32" where
  "crc32c bytes = crc32c_finish (crc32c_update crc32c_new bytes)"

definition ieee_new :: crc32_ieee where
  "ieee_new = Crc32 (- 1)"

fun ieee_update :: "crc32_ieee \<Rightarrow> u8 list \<Rightarrow> crc32_ieee" where
  "ieee_update (Crc32 s) bytes =
     (if bytes = [] then Crc32 s else Crc32 (update_portable ieee_tables s bytes))"

fun ieee_finish :: "crc32_ieee \<Rightarrow> u32" where
  "ieee_finish (Crc32 s) = NOT s"

section \<open>Division by any reflected polynomial\<close>

text \<open>
  All that slicing by eight needs of the step: it is linear over exclusive or, and it
  only shifts where the bit it consumes is clear.
\<close>

locale reflected_division =
  fixes step :: "u32 \<Rightarrow> u32"
  assumes linear: "step (x XOR y) = step x XOR step y"
    and shifts: "\<not> bit x 0 \<Longrightarrow> step x = drop_bit 1 x"
begin

definition advance :: "u32 \<Rightarrow> u32" where
  "advance = iterate 8 step"

definition row0 :: "u32 list" where
  "row0 = map (\<lambda>i. advance (word_of_nat i)) [0..<256]"

definition tables :: "u32 list list" where
  "tables = table_rows 8 row0 row0"

lemma funpow_linear: "(step ^^ n) (x XOR y) = (step ^^ n) x XOR (step ^^ n) y"
  by (induction n) (simp_all add: linear)

lemma advance_linear: "advance (x XOR y) = advance x XOR advance y"
  by (simp add: advance_def iterate_funpow funpow_linear)

lemma funpow_shifts:
  "(\<And>i. i < n \<Longrightarrow> \<not> bit x i) \<Longrightarrow> (step ^^ n) x = drop_bit n x"
proof (induction n)
  case 0
  then show ?case by simp
next
  case (Suc n)
  then have "(step ^^ n) x = drop_bit n x" by simp
  moreover have "\<not> bit (drop_bit n x) 0"
    using Suc.prems by (simp add: bit_drop_bit_eq)
  ultimately show ?case
    by (simp add: shifts)
qed

lemma advance_shifts: "(\<And>i. i < 8 \<Longrightarrow> \<not> bit x i) \<Longrightarrow> advance x = drop_bit 8 x"
  by (simp add: advance_def iterate_funpow funpow_shifts)

lemma advance_push:
  fixes b :: u8
  assumes "8 \<le> n" and "n \<le> 24"
  shows "advance (push_bit n (ucast b)) = push_bit (n - 8) (ucast b)"
proof -
  have "advance (push_bit n (ucast b)) = drop_bit 8 (push_bit n (ucast b))"
    using assms by (intro advance_shifts) (simp add: bit_push_bit_iff)
  also have "\<dots> = push_bit (n - 8) (ucast b)"
    using assms by (intro bit_eqI) (auto simp: bit_simps add.commute dest: bit_imp_le_length)
  finally show ?thesis .
qed

lemma split_low_byte: "(x :: u32) = ucast (ucast x :: u8) XOR push_bit 8 (drop_bit 8 x)"
  by (intro bit_eqI) (auto simp: bit_simps)

lemma advance_split: "advance x = advance (ucast (ucast x :: u8)) XOR drop_bit 8 x"
proof -
  have "advance (push_bit 8 (drop_bit 8 x)) = drop_bit 8 (push_bit 8 (drop_bit 8 x))"
    by (intro advance_shifts) (simp add: bit_push_bit_iff)
  also have "\<dots> = drop_bit 8 x"
    by (intro bit_eqI) (auto simp: bit_simps dest: bit_imp_le_length)
  finally have "advance (push_bit 8 (drop_bit 8 x)) = drop_bit 8 x" .
  then show ?thesis
    by (subst split_low_byte [of x]) (simp add: advance_linear)
qed

lemma row0_nth: "row0 ! unat (b :: u8) = advance (ucast b)"
proof -
  have "row0 ! unat b = advance (word_of_nat (unat b))"
    using unat_u8_less [of b] by (simp add: row0_def)
  then show ?thesis by simp
qed

lemma next_row_advances: "next_row row0 row = map advance row"
proof -
  have "drop_bit 8 p XOR (row0 ! unat (p AND 0xff)) = advance p" for p :: u32
  proof -
    have "p AND 0xff = take_bit 8 p"
      by (simp add: take_bit_eq_mask mask_numeral)
    then have "p AND 0xff = ucast (ucast p :: u8)"
      by (auto simp: bit_simps intro!: bit_eqI)
    then have "unat (p AND 0xff) = unat (ucast p :: u8)"
      by simp
    then show ?thesis
      by (simp add: row0_nth advance_split [of p] xor.commute)
  qed
  then show ?thesis by (simp add: next_row_def)
qed

lemma table_rows_nth:
  "k < n \<Longrightarrow> table_rows n row0 row ! k = map (iterate k advance) row"
  by (induction n arbitrary: row k)
    (auto simp: next_row_advances less_Suc_eq_0_disj comp_def nth_Cons split: nat.splits)

lemma table_at_tables:
  assumes "k < 8"
  shows "table_at tables k b = iterate (Suc k) advance (ucast b)"
proof -
  have "length row0 = 256" by (simp add: row0_def)
  with assms have "table_at tables k b = iterate k advance (row0 ! unat b)"
    using unat_u8_less [of b] by (simp add: table_at_def tables_def table_rows_nth)
  then show ?thesis by (simp add: row0_nth)
qed

text \<open>One byte through table 0 is one byte of division.\<close>

lemma table_step: "table_at tables 0 (le_byte s 0 XOR b) XOR drop_bit 8 s = crc_byte step s b"
proof -
  have low: "ucast (s XOR ucast b) = le_byte s 0 XOR b"
    by (intro bit_eqI) (auto simp: le_byte_def bit_simps)
  have high: "drop_bit 8 (s XOR ucast b) = drop_bit 8 s"
    by (intro bit_eqI) (auto simp: bit_simps dest: bit_imp_le_length)
  have "crc_byte step s b = advance (s XOR ucast b)"
    by (simp add: crc_byte_def advance_def)
  also have "\<dots> = advance (ucast (le_byte s 0 XOR b)) XOR drop_bit 8 s"
    by (subst advance_split) (simp only: low high)
  finally show ?thesis
    by (simp add: table_at_tables numeral_eq_Suc)
qed

text \<open>
  Feeding the low byte of a word whose state is \<open>x\<close> and then a byte \<open>b\<close> is feeding both
  positions of the little-endian word: the rest of the state has only moved down.
\<close>

lemma advance_iterate_linear:
  "iterate n advance (x XOR y) = iterate n advance x XOR iterate n advance y"
  by (induction n arbitrary: x y) (simp_all add: advance_linear)

lemma crc_byte_advance: "crc_byte step s b = advance s XOR advance (ucast b)"
  by (simp add: crc_byte_def advance_linear flip: advance_def)

lemma crc_bitwise_advance:
  "crc_bitwise step s bs = iterate (length bs) advance s XOR crc_bitwise step 0 bs"
proof (induction bs arbitrary: s)
  case Nil
  then show ?case by (simp add: crc_bitwise_def)
next
  case (Cons b bs)
  let ?k = "length bs" and ?z = "crc_bitwise step 0 bs"
  have zero: "advance 0 = 0"
    using advance_linear [of 0 0] by simp
  have "crc_bitwise step s (b # bs) = crc_bitwise step (advance s XOR advance (ucast b)) bs"
    by (simp add: crc_bitwise_def crc_byte_advance)
  also have "\<dots> = iterate ?k advance (advance s XOR advance (ucast b)) XOR ?z"
    by (rule Cons.IH)
  also have "\<dots> = iterate ?k advance (advance s) XOR
      (iterate ?k advance (advance (ucast b)) XOR ?z)"
    by (simp add: advance_iterate_linear ac_simps)
  also have "iterate ?k advance (advance (ucast b)) XOR ?z = crc_bitwise step (advance (ucast b)) bs"
    by (rule Cons.IH [symmetric])
  also have "\<dots> = crc_bitwise step 0 (b # bs)"
    by (simp add: crc_bitwise_def crc_byte_advance zero)
  finally show ?case by simp
qed

lemma word_bytes: "(x :: u32) =
  ucast (le_byte x 0) XOR push_bit 8 (ucast (le_byte x 1))
  XOR push_bit 16 (ucast (le_byte x 2)) XOR push_bit 24 (ucast (le_byte x 3))"
  (is "_ = ?bytes")
proof (rule bit_eqI)
  fix n
  assume "possible_bit TYPE(u32) n"
  then have "n < 32" by simp
  then consider "n < 8" | "8 \<le> n" "n < 16" | "16 \<le> n" "n < 24" | "24 \<le> n" "n < 32"
    by linarith
  then show "bit x n = bit ?bytes n"
    by cases (auto simp: le_byte_def bit_simps less_diff_conv2)
qed

lemma iterate_push:
  fixes b :: u8
  shows "1 \<le> n \<Longrightarrow> iterate n advance (push_bit 8 (ucast b)) = iterate (n - 1) advance (ucast b)"
    and "2 \<le> n \<Longrightarrow> iterate n advance (push_bit 16 (ucast b)) = iterate (n - 2) advance (ucast b)"
    and "3 \<le> n \<Longrightarrow> iterate n advance (push_bit 24 (ucast b)) = iterate (n - 3) advance (ucast b)"
proof -
  assume "1 \<le> n"
  then obtain k where "n = Suc k" by (cases n) auto
  then show "iterate n advance (push_bit 8 (ucast b)) = iterate (n - 1) advance (ucast b)"
    by (simp add: advance_push)
next
  assume "2 \<le> n"
  then obtain k where "n = Suc (Suc k)" by (metis add_2_eq_Suc le_Suc_ex)
  then show "iterate n advance (push_bit 16 (ucast b)) = iterate (n - 2) advance (ucast b)"
    by (simp add: advance_push)
next
  assume "3 \<le> n"
  then obtain k where "n = 3 + k" using le_Suc_ex by blast
  then have "n = Suc (Suc (Suc k))" by simp
  then show "iterate n advance (push_bit 24 (ucast b)) = iterate (n - 3) advance (ucast b)"
    by (simp add: advance_push)
qed

lemma le_byte_from_le:
  "le_byte (u32_from_le a b c d) 0 = a" "le_byte (u32_from_le a b c d) 1 = b"
  "le_byte (u32_from_le a b c d) 2 = c" "le_byte (u32_from_le a b c d) 3 = d"
  by (rule bit_eqI, auto simp: le_byte_def u32_from_le_def bit_simps dest: bit_imp_le_length)+

lemma le_byte_xor: "le_byte (x XOR y) i = le_byte x i XOR le_byte y i"
  by (rule bit_eqI) (auto simp: le_byte_def bit_simps)

lemma ucast_xor: "(ucast (x XOR y :: u8) :: u32) = ucast x XOR ucast y"
  by (rule bit_eqI) (auto simp: bit_simps)

lemma advance_word:
  "iterate 8 advance s =
     iterate 8 advance (ucast (le_byte s 0)) XOR iterate 7 advance (ucast (le_byte s 1))
     XOR iterate 6 advance (ucast (le_byte s 2)) XOR iterate 5 advance (ucast (le_byte s 3))"
proof -
  have "iterate 8 advance s =
      iterate 8 advance (ucast (le_byte s 0)) XOR iterate 8 advance (push_bit 8 (ucast (le_byte s 1)))
      XOR iterate 8 advance (push_bit 16 (ucast (le_byte s 2)))
      XOR iterate 8 advance (push_bit 24 (ucast (le_byte s 3)))"
    by (subst word_bytes [of s]) (simp only: advance_iterate_linear)
  then show ?thesis by (simp only: iterate_push) simp
qed

lemma eight_bytes:
  "crc_bitwise step 0 [b0, b1, b2, b3, b4, b5, b6, b7] =
     iterate 8 advance (ucast b0) XOR iterate 7 advance (ucast b1)
     XOR iterate 6 advance (ucast b2) XOR iterate 5 advance (ucast b3)
     XOR iterate 4 advance (ucast b4) XOR iterate 3 advance (ucast b5)
     XOR iterate 2 advance (ucast b6) XOR iterate 1 advance (ucast b7)"
proof -
  have peel: "crc_bitwise step 0 (b # bs) =
      iterate (Suc (length bs)) advance (ucast b) XOR crc_bitwise step 0 bs" for b bs
  proof -
    have "advance 0 = 0"
      using advance_linear [of 0 0] by simp
    then have "crc_bitwise step 0 (b # bs) = crc_bitwise step (advance (ucast b)) bs"
      by (simp add: crc_bitwise_def crc_byte_advance)
    then show ?thesis
      by (simp add: crc_bitwise_advance [of "advance (ucast b)"])
  qed
  have "crc_bitwise step 0 [] = 0"
    by (simp add: crc_bitwise_def)
  then show ?thesis
    by (simp add: peel numeral_eq_Suc xor.assoc)
qed

lemma group_step:
  "table_at tables 7 (le_byte first 0) XOR table_at tables 6 (le_byte first 1)
   XOR table_at tables 5 (le_byte first 2) XOR table_at tables 4 (le_byte first 3)
   XOR table_at tables 3 b4 XOR table_at tables 2 b5
   XOR table_at tables 1 b6 XOR table_at tables 0 b7 =
   crc_bitwise step s [b0, b1, b2, b3, b4, b5, b6, b7]"
  if "first = u32_from_le b0 b1 b2 b3 XOR s"
proof -
  have "crc_bitwise step s [b0, b1, b2, b3, b4, b5, b6, b7] =
      iterate 8 advance s XOR crc_bitwise step 0 [b0, b1, b2, b3, b4, b5, b6, b7]"
    using crc_bitwise_advance [of s "[b0, b1, b2, b3, b4, b5, b6, b7]"]
    by (simp add: numeral_eq_Suc)
  moreover have "table_at tables (Suc 0) b = iterate 2 advance (ucast b)"
    "table_at tables 0 b = iterate (Suc 0) advance (ucast b)" for b
    by (simp_all add: table_at_tables numeral_2_eq_2)
  moreover have "le_byte (u32_from_le b0 b1 b2 b3) (Suc 0) = b1"
    using le_byte_from_le(2) by simp
  ultimately show ?thesis
    by (simp add: that table_at_tables le_byte_xor le_byte_from_le ucast_xor
        advance_iterate_linear advance_word [of s] eight_bytes ac_simps
        flip: iterate.simps(2))
qed

lemma crc_bitwise_append: "crc_bitwise step s (xs @ ys) = crc_bitwise step (crc_bitwise step s xs) ys"
  by (simp add: crc_bitwise_def)

lemma crc_bitwise_Cons: "crc_bitwise step s (b # bs) = crc_bitwise step (crc_byte step s b) bs"
  by (simp add: crc_bitwise_def)

text \<open>The portable update is bitwise division, whatever the length of the buffer.\<close>

lemma update_portable_general:
  "T = tables \<Longrightarrow> update_portable T s bs = crc_bitwise step s bs"
proof (induction T s bs rule: update_portable.induct)
  case (1 T s b0 b1 b2 b3 b4 b5 b6 b7 rest)
  let ?group = "[b0, b1, b2, b3, b4, b5, b6, b7]"
  have "update_portable T s (?group @ rest) =
      update_portable T (crc_bitwise step s ?group) rest"
    by (simp only: append.simps update_portable.simps(1) Let_def "1.prems" group_step [OF refl])
  also have "\<dots> = crc_bitwise step (crc_bitwise step s ?group) rest"
    using 1 by (simp only: group_step [OF refl])
  also have "\<dots> = crc_bitwise step s (?group @ rest)"
    by (simp only: crc_bitwise_append)
  finally show ?case by simp
qed (simp_all add: table_step crc_bitwise_Cons, simp add: crc_bitwise_def)

lemma update_portable_bitwise: "update_portable tables s bs = crc_bitwise step s bs"
  by (rule update_portable_general) (rule refl)

lemma update_portable_append:
  "update_portable tables s (xs @ ys) = update_portable tables (update_portable tables s xs) ys"
  by (simp add: update_portable_bitwise crc_bitwise_append)

end

text \<open>
  A step that loses no state detects changes: with the polynomial's top bit set, only the
  zero state divides to zero, so the division is injective.
\<close>

lemma four_list:
  assumes "length w = 4"
  obtains b0 b1 b2 b3 where "w = [b0, b1, b2, b3]"
proof -
  have "length w = Suc (Suc (Suc (Suc 0)))" using assms by simp
  then show ?thesis using that by (auto simp only: length_Suc_conv length_0_conv)
qed

lemma xor_left_cancel: "a XOR b = a XOR c \<longleftrightarrow> b = (c :: 'a :: len word)"
proof
  assume "a XOR b = a XOR c"
  then have "a XOR (a XOR b) = a XOR (a XOR c)" by simp
  then show "b = c" by (simp flip: xor.assoc)
qed simp

lemma xor_right_cancel: "b XOR a = c XOR a \<longleftrightarrow> b = (c :: 'a :: len word)"
  by (simp only: xor.commute [of _ a] xor_left_cancel)

lemma division_kernel:
  fixes x :: u32
  assumes zero: "drop_bit 1 x XOR (if bit x 0 then poly else 0) = 0" and top: "bit poly 31"
  shows "x = 0"
proof -
  have low: "\<not> bit x 0"
  proof
    assume "bit x 0"
    then have "bit (drop_bit 1 x XOR (if bit x 0 then poly else 0)) 31 \<longleftrightarrow> True"
      using top bit_imp_le_length [of x 32] by (auto simp: bit_xor_iff bit_drop_bit_eq)
    with zero show False by simp
  qed
  then have shifted: "drop_bit 1 x = 0"
    using zero by simp
  have "\<not> bit x n" for n
  proof (cases n)
    case 0
    with low show ?thesis by simp
  next
    case (Suc m)
    have "bit (drop_bit 1 x) m = bit x (Suc m)"
      by (simp add: bit_drop_bit_eq)
    with shifted Suc show ?thesis by simp
  qed
  then show ?thesis by (simp add: bit_eq_iff)
qed

locale reflected_crc = reflected_division +
  assumes kernel: "step x = 0 \<Longrightarrow> x = 0"
begin

lemma step_injective: "step x = step y \<Longrightarrow> x = y"
proof -
  assume "step x = step y"
  then have "step (x XOR y) = 0" by (simp add: linear)
  then have "x XOR y = x XOR x" by (simp add: kernel)
  then show ?thesis by (simp only: xor_left_cancel)
qed

lemma funpow_injective: "(step ^^ n) x = (step ^^ n) y \<Longrightarrow> x = y"
  by (induction n) (auto dest: step_injective)

lemma advance_injective: "advance x = advance y \<Longrightarrow> x = y"
  by (simp add: advance_def iterate_funpow) (rule funpow_injective)

lemma iterate_advance_injective: "iterate n advance x = iterate n advance y \<Longrightarrow> x = y"
  by (induction n arbitrary: x y) (auto dest: advance_injective)

lemma crc_bitwise_state_injective: "crc_bitwise step x bs = crc_bitwise step y bs \<Longrightarrow> x = y"
proof -
  assume "crc_bitwise step x bs = crc_bitwise step y bs"
  then have "iterate (length bs) advance x XOR crc_bitwise step 0 bs
      = iterate (length bs) advance y XOR crc_bitwise step 0 bs"
    by (simp only: crc_bitwise_advance [of x] crc_bitwise_advance [of y])
  then have "iterate (length bs) advance x = iterate (length bs) advance y"
    by (simp only: xor_right_cancel)
  then show ?thesis by (rule iterate_advance_injective)
qed

lemma four_bytes:
  "crc_bitwise step s [b0, b1, b2, b3] = iterate 4 advance (s XOR u32_from_le b0 b1 b2 b3)"
proof -
  let ?w = "u32_from_le b0 b1 b2 b3"
  have one: "le_byte ?w (Suc 0) = b1"
    using le_byte_from_le(2) by simp
  have w: "?w = ucast b0 XOR push_bit 8 (ucast b1) XOR push_bit 16 (ucast b2)
      XOR push_bit 24 (ucast b3)"
    by (subst word_bytes) (simp add: le_byte_from_le one)
  have "iterate 4 advance ?w = iterate 4 advance (ucast b0)
      XOR iterate 4 advance (push_bit 8 (ucast b1)) XOR iterate 4 advance (push_bit 16 (ucast b2))
      XOR iterate 4 advance (push_bit 24 (ucast b3))"
    by (subst w) (simp only: advance_iterate_linear)
  then have "iterate 4 advance ?w = iterate 4 advance (ucast b0) XOR iterate 3 advance (ucast b1)
      XOR iterate 2 advance (ucast b2) XOR iterate 1 advance (ucast b3)"
    using iterate_push(1) [of 4 b1] iterate_push(2) [of 4 b2] iterate_push(3) [of 4 b3]
    by simp
  moreover have "advance 0 = 0"
    using advance_linear [of 0 0] by simp
  ultimately have "crc_bitwise step 0 [b0, b1, b2, b3] = iterate 4 advance ?w"
    by (simp add: crc_bitwise_def crc_byte_advance advance_linear numeral_eq_Suc xor.assoc)
  then show ?thesis
    by (simp add: crc_bitwise_advance [of s] advance_iterate_linear numeral_eq_Suc)
qed

lemma four_bytes_differ:
  assumes "length w = 4" and "length w' = 4"
    and "crc_bitwise step s (xs @ w @ ys) = crc_bitwise step s (xs @ w' @ ys)"
  shows "w = w'"
proof -
  obtain b0 b1 b2 b3 where w: "w = [b0, b1, b2, b3]"
    using assms(1) by (rule four_list)
  obtain c0 c1 c2 c3 where w': "w' = [c0, c1, c2, c3]"
    using assms(2) by (rule four_list)
  let ?s = "crc_bitwise step s xs"
  have "crc_bitwise step (crc_bitwise step ?s w) ys = crc_bitwise step (crc_bitwise step ?s w') ys"
    using assms(3) by (simp only: crc_bitwise_append)
  then have "crc_bitwise step ?s w = crc_bitwise step ?s w'"
    by (rule crc_bitwise_state_injective)
  then have "?s XOR u32_from_le b0 b1 b2 b3 = ?s XOR u32_from_le c0 c1 c2 c3"
    unfolding w w' four_bytes by (rule iterate_advance_injective)
  then have "u32_from_le b0 b1 b2 b3 = u32_from_le c0 c1 c2 c3"
    by (simp only: xor_left_cancel)
  then show ?thesis
    unfolding w w' using le_byte_from_le [of b0 b1 b2 b3] le_byte_from_le [of c0 c1 c2 c3]
    by (simp only:)
qed

end

section \<open>The two polynomials\<close>

lemma odd_bit: "(x :: u32) AND 1 = (if bit x 0 then 1 else 0)"
  by (simp add: and_one_eq mod2_eq_if bit_0)

lemma crc32c_step_bit:
  "crc32c_step x = drop_bit 1 x XOR (if bit x 0 then crc32c_poly else 0)"
  by (simp add: crc32c_step_def odd_bit)

lemma ieee_step_bit: "ieee_step x = drop_bit 1 x XOR (if bit x 0 then ieee_poly else 0)"
  by (simp add: ieee_step_def odd_bit)

lemma crc32c_step_linear: "crc32c_step (x XOR y) = crc32c_step x XOR crc32c_step y"
  by (rule bit_eqI) (auto simp: crc32c_step_bit bit_simps)

lemma crc32c_kernel: "crc32c_step x = 0 \<Longrightarrow> x = 0"
  by (rule division_kernel [where poly = crc32c_poly])
    (simp_all only: crc32c_step_bit, simp add: crc32c_poly_def)

interpretation castagnoli: reflected_crc crc32c_step
  rewrites "reflected_division.tables crc32c_step = make_crc32c_tables"
proof -
  show "reflected_crc crc32c_step"
    by unfold_locales (rule crc32c_step_linear, simp add: crc32c_step_bit, rule crc32c_kernel)
  then have division: "reflected_division crc32c_step"
    by (rule reflected_crc.axioms(1))
  show "reflected_division.tables crc32c_step = make_crc32c_tables"
    by (simp add: reflected_division.tables_def [OF division] make_crc32c_tables_def Let_def
        reflected_division.row0_def [OF division] reflected_division.advance_def [OF division])
qed

lemma ieee_step_linear: "ieee_step (x XOR y) = ieee_step x XOR ieee_step y"
  by (rule bit_eqI) (auto simp: ieee_step_bit bit_simps)

lemma ieee_kernel: "ieee_step x = 0 \<Longrightarrow> x = 0"
  by (rule division_kernel [where poly = ieee_poly])
    (simp_all only: ieee_step_bit, simp add: ieee_poly_def)

interpretation ieee: reflected_crc ieee_step
  rewrites "reflected_division.tables ieee_step = ieee_tables"
proof -
  show "reflected_crc ieee_step"
    by unfold_locales (rule ieee_step_linear, simp add: ieee_step_bit, rule ieee_kernel)
  then have division: "reflected_division ieee_step"
    by (rule reflected_crc.axioms(1))
  show "reflected_division.tables ieee_step = ieee_tables"
    by (simp add: reflected_division.tables_def [OF division] ieee_tables_def Let_def
        reflected_division.row0_def [OF division] reflected_division.advance_def [OF division])
qed

text \<open>The state behind a checksum value, and the updates over it.\<close>

lemma crc32c_update_bitwise [simp]:
  "crc32c_update (Crc32c s) bs = Crc32c (crc_bitwise crc32c_step s bs)"
  by (simp add: castagnoli.update_portable_bitwise) (simp add: crc_bitwise_def)

lemma ieee_update_bitwise [simp]:
  "ieee_update (Crc32 s) bs = Crc32 (crc_bitwise ieee_step s bs)"
  by (simp add: ieee.update_portable_bitwise) (simp add: crc_bitwise_def)

declare crc32c_update.simps [simp del] ieee_update.simps [simp del]

lemma crc32c_update_append [byte_simps]:
  "crc32c_update (crc32c_update c xs) ys = crc32c_update c (xs @ ys)"
  by (cases c) (simp add: castagnoli.crc_bitwise_append)

lemma ieee_update_append:
  "ieee_update (ieee_update c xs) ys = ieee_update c (xs @ ys)"
  by (cases c) (simp add: ieee.crc_bitwise_append)

lemma update_Nil [simp]: "crc32c_update c [] = c" "ieee_update i [] = i"
  by (cases c, simp add: crc_bitwise_def) (cases i, simp add: crc_bitwise_def)

section \<open>What callers rely on\<close>

lemma crc32c_bitwise: "crc32c bs = crc_bitwise crc32c_step (- 1) bs XOR (- 1)"
  by (simp add: crc32c_def crc32c_new_def)

text \<open>C16: The table-driven CRC32C, eight bytes at a time with a byte tail, is bit-at-a-time
  division of the whole buffer by the reflected Castagnoli polynomial.\<close>

theorem crc32c_is_polynomial_division:
  "crc32c bs = foldl (crc_byte crc32c_step) (- 1) bs XOR (- 1)"
  by (simp add: crc32c_bitwise crc_bitwise_def)

text \<open>C18: Feeding a buffer in any pieces, empty ones included, gives the checksum of the
  concatenation, for CRC32C and for the IEEE checksum of Parquet pages.\<close>

theorem crc_updates_concatenate:
  "crc32c_finish (foldl crc32c_update crc32c_new pieces) = crc32c (concat pieces)
   \<and> foldl ieee_update ieee_new pieces = ieee_update ieee_new (concat pieces)"
proof -
  have "foldl crc32c_update c pieces = crc32c_update c (concat pieces)" for c
    by (induction pieces arbitrary: c) (simp_all add: crc32c_update_append)
  moreover have "foldl ieee_update c pieces = ieee_update c (concat pieces)" for c
    by (induction pieces arbitrary: c) (simp_all add: ieee_update_append)
  ultimately show ?thesis by (simp add: crc32c_def)
qed

text \<open>C17: Damage confined to four adjacent bytes is always detected: two buffers that differ
  only inside one window of four bytes have different CRC32C checksums.\<close>

theorem crc32c_detects_window_damage:
  assumes "length w = 4" and "length w' = 4" and "w \<noteq> w'"
  shows "crc32c (xs @ w @ ys) \<noteq> crc32c (xs @ w' @ ys)"
proof
  assume "crc32c (xs @ w @ ys) = crc32c (xs @ w' @ ys)"
  then have "crc_bitwise crc32c_step (- 1) (xs @ w @ ys)
      = crc_bitwise crc32c_step (- 1) (xs @ w' @ ys)"
    by (simp only: crc32c_bitwise xor_right_cancel)
  with assms show False
    using castagnoli.four_bytes_differ by blast
qed

theorem crc32c_detects_window_damage_witness:
  "crc32c ([1] @ [2, 3, 4, 5] @ [6]) \<noteq> crc32c ([1] @ [2, 3, 4, 7] @ [6])"
  by (rule crc32c_detects_window_damage) simp_all

end
