(* ===== verification/Identity.thy ===== *)
theory Identity
  imports Prelude
begin

text \<open>
  Database and transaction identities (src/transaction.rs) and the object references of
  the catalog (src/storage/catalog.rs): a transaction token is sixteen bytes of database
  identity and a little-endian attempt number; an object is named by the attempt that
  created it and an ordinal within it, and a reference adds its length and checksum.
\<close>

section \<open>Identities\<close>

datatype identity_error = IdLength | IdZero

datatype database_id = DatabaseId (id_bytes: "u8 list")

definition new_database_id :: "u8 list \<Rightarrow> identity_error + database_id" where
  "new_database_id bytes =
     (if bytes = replicate 16 0 then Inl IdZero else Inr (DatabaseId bytes))"

definition database_id_from_slice :: "u8 list \<Rightarrow> identity_error + database_id" where
  "database_id_from_slice bytes =
     (if length bytes \<noteq> 16 then Inl IdLength else new_database_id bytes)"

text \<open>The type's invariant in the source: a \<open>[u8; 16]\<close> that is not all zero.\<close>

definition valid_database_id :: "database_id \<Rightarrow> bool" where
  "valid_database_id d \<longleftrightarrow> length (id_bytes d) = 16 \<and> id_bytes d \<noteq> replicate 16 0"

lemma database_id_from_slice_Inr [simp]:
  "database_id_from_slice bytes = Inr d \<longleftrightarrow> bytes = id_bytes d \<and> valid_database_id d"
  by (cases d)
    (auto simp: database_id_from_slice_def new_database_id_def valid_database_id_def)

datatype transaction_id = TransactionId (token_bytes: "u8 list")

definition for_attempt :: "database_id \<Rightarrow> u64 \<Rightarrow> identity_error + transaction_id" where
  "for_attempt database sequence =
     (if sequence = 0 then Inl IdZero
      else Inr (TransactionId (put (put (replicate 24 0) 0 (id_bytes database)) 16
             (u64_bytes sequence))))"

definition sequence_of :: "transaction_id \<Rightarrow> u64" where
  "sequence_of t = u64_of_bytes (slice (token_bytes t) 16 8)"

definition belongs_to :: "transaction_id \<Rightarrow> database_id \<Rightarrow> bool" where
  "belongs_to t database \<longleftrightarrow> slice (token_bytes t) 0 16 = id_bytes database"

definition decode_token :: "u8 list \<Rightarrow> identity_error + transaction_id" where
  "decode_token bytes =
     attempt (database_id_from_slice (slice bytes 0 16)) (\<lambda>_.
       let value = TransactionId bytes in
       if sequence_of value = 0 then Inl IdZero else Inr value)"

datatype token_error = InvalidTransactionId

definition transaction_from_bytes :: "u8 list \<Rightarrow> token_error + transaction_id" where
  "transaction_from_bytes bytes = map_error (\<lambda>_. InvalidTransactionId) (decode_token bytes)"

definition valid_token :: "transaction_id \<Rightarrow> bool" where
  "valid_token t \<longleftrightarrow> length (token_bytes t) = 24
     \<and> slice (token_bytes t) 0 16 \<noteq> replicate 16 0 \<and> sequence_of t \<noteq> 0"

lemma decode_token_Inr:
  "length bytes = 24 \<Longrightarrow>
     decode_token bytes = Inr t \<longleftrightarrow> t = TransactionId bytes \<and> valid_token t"
  by (cases t)
    (auto simp: decode_token_def Let_def valid_token_def attempt_Inr_conv valid_database_id_def
      database_id_from_slice_def new_database_id_def)

lemma for_attempt_facts:
  assumes "valid_database_id d" and "for_attempt d n = Inr t"
  shows "valid_token t" and "sequence_of t = n" and "belongs_to t d"
    and "token_bytes t = id_bytes d @ u64_bytes n"
proof -
  have len: "length (id_bytes d) = 16" and nz: "id_bytes d \<noteq> replicate 16 0"
    using assms(1) by (auto simp: valid_database_id_def)
  have t: "t = TransactionId (id_bytes d @ u64_bytes n)" and n: "n \<noteq> 0"
    using assms(2) len by (auto simp: for_attempt_def put_def split: if_splits)
  show "sequence_of t = n" and "belongs_to t d" and "token_bytes t = id_bytes d @ u64_bytes n"
    using len by (simp_all add: t sequence_of_def belongs_to_def slice_def)
  then show "valid_token t"
    using len nz n by (simp add: valid_token_def t slice_def)
qed

text \<open>A token is determined by its database and its attempt.\<close>

lemma token_injective:
  assumes "valid_token t" and "valid_token t'"
    and "belongs_to t d" and "belongs_to t' d" and "sequence_of t = sequence_of t'"
  shows "t = t'"
proof -
  have split: "token_bytes x = slice (token_bytes x) 0 16 @ slice (token_bytes x) 16 8"
    if "length (token_bytes x) = 24" for x
    using that by (simp add: slice_def)
  have "u64_bytes (sequence_of x) = slice (token_bytes x) 16 8"
    if "length (token_bytes x) = 24" for x
    using that by (simp add: sequence_of_def u64_bytes_of_bytes)
  from this [of t] this [of t'] have "slice (token_bytes t) 16 8 = slice (token_bytes t') 16 8"
    using assms by (simp add: valid_token_def)
  with assms have "token_bytes t = token_bytes t'"
    using split [of t] split [of t'] by (simp add: valid_token_def belongs_to_def)
  then show ?thesis by (simp add: transaction_id.expand)
qed

text \<open>A receipt and a resolved outcome.\<close>

record commit_receipt =
  receipt_transaction :: transaction_id
  receipt_generation :: u64

datatype commit_resolution = Aborted | Durable commit_receipt

end
