(* ===== verification/Format_Base.thy ===== *)
theory Format_Base
  imports Checksum Identity
begin

text \<open>
  What every persisted record shares (src/storage/format.rs): its error type, fixed-offset
  little-endian fields, reserved bytes, and a CRC32C stored inside the record and computed
  with its own field zeroed; and the geometry of the fixed-schema unit.
\<close>

section \<open>Errors\<close>

datatype format_error =
    FmtLength | FmtMagic | FmtVersion | FmtReserved | FmtChecksum | FmtIdentity
  | FmtGeneration u64 | FmtField | FmtOverflow

fun of_identity_error :: "identity_error \<Rightarrow> format_error" where
  "of_identity_error IdLength = FmtLength"
| "of_identity_error IdZero = FmtIdentity"

section \<open>Fields\<close>

definition put_u32 :: "u8 list \<Rightarrow> nat \<Rightarrow> u32 \<Rightarrow> u8 list" where
  "put_u32 bytes offset value = put bytes offset (u32_bytes value)"

definition put_u64 :: "u8 list \<Rightarrow> nat \<Rightarrow> u64 \<Rightarrow> u8 list" where
  "put_u64 bytes offset value = put bytes offset (u64_bytes value)"

definition read_u32 :: "u8 list \<Rightarrow> nat \<Rightarrow> format_error + u32" where
  "read_u32 bytes offset =
     (if offset + 4 \<le> length bytes then Inr (u32_of_bytes (slice bytes offset 4))
      else Inl FmtLength)"

definition read_u64 :: "u8 list \<Rightarrow> nat \<Rightarrow> format_error + u64" where
  "read_u64 bytes offset =
     (if offset + 8 \<le> length bytes then Inr (u64_of_bytes (slice bytes offset 8))
      else Inl FmtLength)"

definition require_length :: "u8 list \<Rightarrow> nat \<Rightarrow> format_error + unit" where
  "require_length bytes expected =
     (if length bytes \<noteq> expected then Inl FmtLength else Inr ())"

definition require_zero :: "u8 list \<Rightarrow> format_error + unit" where
  "require_zero bytes = (if list_ex (\<lambda>byte. byte \<noteq> 0) bytes then Inl FmtReserved else Inr ())"

definition require_checksum :: "u8 list \<Rightarrow> nat \<Rightarrow> format_error + unit" where
  "require_checksum bytes offset =
     attempt (read_u32 bytes offset) (\<lambda>expected.
       let crc = crc32c_update (crc32c_update (crc32c_update crc32c_new (take offset bytes))
                   [0, 0, 0, 0]) (drop (offset + 4) bytes)
       in if crc32c_finish crc \<noteq> expected then Inl FmtChecksum else Inr ())"

definition format_version :: u32 where
  "format_version = 4"

definition require_version_length :: "u8 list \<Rightarrow> nat \<Rightarrow> format_error + unit" where
  "require_version_length bytes n =
     attempt (read_u32 bytes 8) (\<lambda>version.
       if version \<noteq> format_version then Inl FmtVersion
       else attempt (read_u32 bytes 12) (\<lambda>stored.
         if stored \<noteq> word_of_nat n then Inl FmtLength else Inr ()))"

lemmas field_defs = put_u32_def put_u64_def read_u32_def read_u64_def

lemma length_put_u32 [simp, byte_simps]:
  "offset + 4 \<le> length bytes \<Longrightarrow> length (put_u32 bytes offset v) = length bytes"
  by (simp add: put_u32_def)

lemma length_put_u64 [simp, byte_simps]:
  "offset + 8 \<le> length bytes \<Longrightarrow> length (put_u64 bytes offset v) = length bytes"
  by (simp add: put_u64_def)

lemma read_u32_Inr: "offset + 4 \<le> length bytes \<Longrightarrow>
  read_u32 bytes offset = Inr (u32_of_bytes (slice bytes offset 4))"
  by (simp add: read_u32_def)

lemma read_u64_Inr: "offset + 8 \<le> length bytes \<Longrightarrow>
  read_u64 bytes offset = Inr (u64_of_bytes (slice bytes offset 8))"
  by (simp add: read_u64_def)

lemma require_length_Inr [simp]: "require_length bytes n = Inr u \<longleftrightarrow> length bytes = n"
  by (simp add: require_length_def)

lemma require_zero_Inr [simp]: "require_zero bytes = Inr u \<longleftrightarrow> all_zero bytes"
  by (auto simp: require_zero_def all_zero_def list_ex_iff list_all_iff)

lemma require_zero_replicate [simp, byte_simps]: "require_zero (replicate n 0) = Inr ()"
  by simp

lemma require_zero_cases: "require_zero bytes = (if all_zero bytes then Inr () else Inl FmtReserved)"
  by (auto simp: require_zero_def all_zero_def list_ex_iff list_all_iff)

text \<open>The checksum a record carries is that of the record with the field zeroed.\<close>

lemma require_checksum_conv:
  assumes "offset + 4 \<le> length bytes"
  shows "require_checksum bytes offset =
    (if u32_of_bytes (slice bytes offset 4) = crc32c (put bytes offset [0, 0, 0, 0])
     then Inr () else Inl FmtChecksum)"
proof -
  have "put bytes offset [0, 0, 0, 0] = take offset bytes @ [0, 0, 0, 0] @ drop (offset + 4) bytes"
    by (simp add: put_def numeral_eq_Suc)
  then have "crc32c_finish (crc32c_update (crc32c_update (crc32c_update crc32c_new
      (take offset bytes)) [0, 0, 0, 0]) (drop (offset + 4) bytes))
      = crc32c (put bytes offset [0, 0, 0, 0])"
    by (simp add: crc32c_def crc32c_update_append)
  with assms show ?thesis
    by (auto simp: require_checksum_def read_u32_def Let_def)
qed

lemma require_checksum_put:
  assumes "offset + 4 \<le> length bytes" and "slice bytes offset 4 = replicate 4 0"
  shows "require_checksum (put_u32 bytes offset (crc32c bytes)) offset = Inr ()"
proof -
  let ?stored = "put bytes offset (u32_bytes (crc32c bytes))"
  have "put ?stored offset [0, 0, 0, 0] = put bytes offset [0, 0, 0, 0]"
    using assms(1) by (simp add: put_put_same)
  also have "\<dots> = bytes"
    using assms put_slice_id [OF assms(1)] by (simp add: numeral_eq_Suc)
  finally show ?thesis
    using assms(1) by (simp add: require_checksum_conv put_u32_def slice_put_same)
qed

section \<open>The fixed-schema layout\<close>

definition max_rows :: u64 where "max_rows = 6500000"
definition double_rows_per_block :: u64 where "double_rows_per_block = 32768"
definition date_rows_per_block :: u64 where "date_rows_per_block = 65536"
definition descriptor_capacity :: nat where "descriptor_capacity = 1344"
definition payload_offset :: u64 where "payload_offset = 28672"
definition block_bytes :: u64 where "block_bytes = 262144"

lemmas layout_constants = max_rows_def double_rows_per_block_def date_rows_per_block_def
  descriptor_capacity_def payload_offset_def block_bytes_def

record unit_layout =
  layout_rows :: u64
  double_blocks :: u32
  date_blocks :: u32
  descriptor_count :: u32
  payload_bytes :: u64
  unit_bytes :: u64
  temporary_peak_bytes :: u64

text \<open>\<open>u32::try_from\<close>.\<close>

definition u32_try_from :: "u64 \<Rightarrow> format_error + u32" where
  "u32_try_from x = (if unat x < 2 ^ 32 then Inr (ucast x) else Inl FmtOverflow)"

lemma u32_try_from_Inr: "u32_try_from x = Inr y \<longleftrightarrow> unat x = unat y"
proof -
  have "unat (ucast x :: u32) = unat x" if "unat x < 4294967296"
    using that by (simp add: unsigned_ucast_eq take_bit_eq_mod)
  then show ?thesis
    using unat_u32_less [of y] by (auto simp: u32_try_from_def word_unat_eq_iff)
qed

definition ceiling_div :: "u64 \<Rightarrow> u64 \<Rightarrow> format_error + u64" where
  "ceiling_div value divisor =
     (if value = 0 then Inr 0
      else ok_or (Option.bind (checked_sub value 1) (\<lambda>v.
             Option.bind (if divisor = 0 then None else Some (v div divisor)) (\<lambda>q.
               checked_add q 1))) FmtOverflow)"

definition layout :: "u64 \<Rightarrow> format_error + unit_layout" where
  "layout rows =
     (if max_rows < rows then Inl FmtField
      else attempt (ceiling_div rows double_rows_per_block) (\<lambda>doubles.
        attempt (ceiling_div rows date_rows_per_block) (\<lambda>dates.
        attempt (ok_or (Option.bind (checked_mul doubles 6) (\<lambda>v. checked_add v dates))
                  FmtOverflow) (\<lambda>descriptors.
        if word_of_nat descriptor_capacity < descriptors then Inl FmtField
        else attempt (ok_or (checked_mul rows 38) FmtOverflow) (\<lambda>payload.
          attempt (ok_or (checked_add payload_offset payload) FmtOverflow) (\<lambda>bytes.
          attempt (ok_or (checked_add payload bytes) FmtOverflow) (\<lambda>peak.
          attempt (u32_try_from doubles) (\<lambda>doubles32.
          attempt (u32_try_from dates) (\<lambda>dates32.
          attempt (u32_try_from descriptors) (\<lambda>descriptors32.
            Inr \<lparr>layout_rows = rows, double_blocks = doubles32, date_blocks = dates32,
                 descriptor_count = descriptors32, payload_bytes = payload,
                 unit_bytes = bytes, temporary_peak_bytes = peak\<rparr>))))))))))"

lemma unat_div_u64: "unat (a div b :: u64) = unat a div unat b"
  by (simp add: unat_div)

lemma ceiling_div_value:
  assumes "d \<noteq> 0" and "unat n + unat d < 2 ^ 64"
  shows "\<exists>q. ceiling_div n d = Inr q \<and> unat q = (unat n + unat d - 1) div unat d"
proof (cases "n = 0")
  case True
  have "unat d \<noteq> 0" using assms(1) by (simp add: unat_eq_0)
  with True show ?thesis by (auto simp: ceiling_div_def)
next
  case False
  then have n: "1 \<le> unat n" by (simp add: Suc_le_eq unat_gt_0)
  then have sub: "checked_sub n 1 = Some (n - 1)" and pred: "unat (n - 1) = unat n - 1"
    by (simp_all add: checked_sub_def word_le_nat_alt unat_sub)
  have d: "0 < unat d" using assms(1) by (simp add: unat_gt_0)
  have "(unat n - 1) div unat d + 1 < 2 ^ 64"
  proof -
    have "(unat n - 1) div unat d \<le> unat n - 1" by (rule div_le_dividend)
    also have "unat n - 1 < 18446744073709551615" using n unat_u64_less [of n] by linarith
    finally show ?thesis by simp
  qed
  then obtain q where add: "checked_add ((n - 1) div d) 1 = Some q"
    and q: "unat q = (unat n - 1) div unat d + 1"
    by (simp add: checked_add_def unat_word_ariths unat_div pred)
  have round: "(unat n + unat d - 1) div unat d = (unat n - 1) div unat d + 1"
  proof -
    have "unat n + unat d - 1 = (unat n - 1) + unat d" using n by simp
    with d show ?thesis by (simp only: div_add_self2 neq0_conv)
  qed
  have "ceiling_div n d = Inr q"
    using False assms(1) sub add by (simp add: ceiling_div_def)
  then show ?thesis using q by (simp only: round) blast
qed

text \<open>Every admitted row count has a layout, and its extents are linear in the rows.\<close>

lemma layout_value:
  assumes "unat rows \<le> 6500000"
  shows "\<exists>g. layout rows = Inr g
     \<and> layout_rows g = rows
     \<and> unat (double_blocks g) = (unat rows + 32767) div 32768
     \<and> unat (date_blocks g) = (unat rows + 65535) div 65536
     \<and> unat (descriptor_count g) = 6 * ((unat rows + 32767) div 32768) + (unat rows + 65535) div 65536
     \<and> unat (payload_bytes g) = 38 * unat rows
     \<and> unat (unit_bytes g) = 28672 + 38 * unat rows
     \<and> unat (temporary_peak_bytes g) = 28672 + 76 * unat rows"
proof -
  let ?r = "unat rows"
  obtain doubles where d: "ceiling_div rows double_rows_per_block = Inr doubles"
    and dv: "unat doubles = (?r + 32767) div 32768"
    using ceiling_div_value [of double_rows_per_block rows] assms
    by (auto simp: layout_constants)
  obtain dates where t: "ceiling_div rows date_rows_per_block = Inr dates"
    and tv: "unat dates = (?r + 65535) div 65536"
    using ceiling_div_value [of date_rows_per_block rows] assms
    by (auto simp: layout_constants)
  have db: "unat doubles \<le> 199" and tb: "unat dates \<le> 100"
    using assms by (simp_all add: dv tv)
  obtain mul where m: "checked_mul doubles 6 = Some mul" and mv: "unat mul = 6 * unat doubles"
    using db by (simp add: checked_mul_def unat_word_ariths)
  obtain n where n: "checked_add mul dates = Some n" and nv: "unat n = unat mul + unat dates"
    using db tb mv by (simp add: checked_add_def unat_word_ariths)
  obtain p where p: "checked_mul rows 38 = Some p" and pv: "unat p = 38 * ?r"
    using assms by (simp add: checked_mul_def unat_word_ariths)
  obtain b where b: "checked_add payload_offset p = Some b" and bv: "unat b = 28672 + unat p"
    using assms pv by (simp add: checked_add_def unat_word_ariths layout_constants)
  obtain k where k: "checked_add p b = Some k" and kv: "unat k = unat p + unat b"
    using assms pv bv by (simp add: checked_add_def unat_word_ariths)
  have small: "\<not> max_rows < rows" and cap: "\<not> word_of_nat descriptor_capacity < n"
    using assms db tb nv mv by (simp_all add: layout_constants word_less_nat_alt)
  have u: "unat (ucast x :: u32) = unat x" if "unat x < 4294967296" for x :: u64
    using that by (simp add: unsigned_ucast_eq take_bit_eq_mod)
  show ?thesis
    using small cap db tb
    by (simp add: layout_def d t m n p b k u32_try_from_def u nv mv dv tv pv bv kv)
qed

lemma layout_bound: "layout rows = Inr g \<Longrightarrow> unat rows \<le> 6500000"
  by (auto simp: layout_def layout_constants word_less_nat_alt split: if_splits)

end
