(* ===== verification/Errors.thy ===== *)
theory Errors
  imports Format_Base
begin

text \<open>
  The errors operations return (src/error.rs, src/error/cause.rs). An I/O error keeps the
  operation it interrupted; the host's own error value is opaque and left out.
\<close>

record source_span =
  span_start :: u16
  span_end :: u16

datatype cause_kind =
    CauseInvalidPath string | CauseInvalidConfig string | CauseInvalidTransactionId
  | CauseParse string source_span | CauseBind string source_span | CauseInput string u64
  | CauseResource string u64 u64 | CauseContention string | CauseAlreadyExists | CauseNotFound
  | CauseLocked | CauseCorrupt string | CauseUnsupportedVersion u32
  | CauseUnsupportedGeneration u64 | CauseUnsupported string | CauseCancelled
  | CauseDivisionByZero source_span | CauseArithmeticOverflow string source_span
  | CauseArithmeticDomain string source_span | CauseIo string

record error_cause =
  cause :: cause_kind
  recovery_generation :: "u64 option"

datatype db_error =
    InvalidPath string | InvalidConfig string | BadTransactionId
  | ParseError string source_span | BindError string source_span | InputError string u64
  | ResourceError string u64 u64 | Contention string | AlreadyExists | NotFound
  | Locked | Corrupt string | UnsupportedVersion u32
  | UnsupportedGeneration u64 | Unsupported string | Cancelled
  | DivisionByZero source_span | ArithmeticOverflow string source_span
  | ArithmeticDomain string source_span
  | CommitAmbiguous transaction_id error_cause | IoError string
  | CleanupRequired error_cause error_cause | RecoveryRequired u64 error_cause

text \<open>
  \<open>None\<close> is the panic: an ambiguous commit and a failed cleanup are outcomes of their own
  and must not be reduced to the cause of another error.
\<close>

fun cause_of :: "db_error \<Rightarrow> error_cause option" where
  "cause_of (InvalidPath m) = Some \<lparr>cause = CauseInvalidPath m, recovery_generation = None\<rparr>"
| "cause_of (InvalidConfig m) = Some \<lparr>cause = CauseInvalidConfig m, recovery_generation = None\<rparr>"
| "cause_of BadTransactionId = Some \<lparr>cause = CauseInvalidTransactionId, recovery_generation = None\<rparr>"
| "cause_of (ParseError m s) = Some \<lparr>cause = CauseParse m s, recovery_generation = None\<rparr>"
| "cause_of (BindError m s) = Some \<lparr>cause = CauseBind m s, recovery_generation = None\<rparr>"
| "cause_of (InputError m b) = Some \<lparr>cause = CauseInput m b, recovery_generation = None\<rparr>"
| "cause_of (ResourceError w r l) = Some \<lparr>cause = CauseResource w r l, recovery_generation = None\<rparr>"
| "cause_of (Contention m) = Some \<lparr>cause = CauseContention m, recovery_generation = None\<rparr>"
| "cause_of AlreadyExists = Some \<lparr>cause = CauseAlreadyExists, recovery_generation = None\<rparr>"
| "cause_of NotFound = Some \<lparr>cause = CauseNotFound, recovery_generation = None\<rparr>"
| "cause_of Locked = Some \<lparr>cause = CauseLocked, recovery_generation = None\<rparr>"
| "cause_of (Corrupt m) = Some \<lparr>cause = CauseCorrupt m, recovery_generation = None\<rparr>"
| "cause_of (UnsupportedVersion v) = Some \<lparr>cause = CauseUnsupportedVersion v, recovery_generation = None\<rparr>"
| "cause_of (UnsupportedGeneration g) = Some \<lparr>cause = CauseUnsupportedGeneration g, recovery_generation = None\<rparr>"
| "cause_of (Unsupported m) = Some \<lparr>cause = CauseUnsupported m, recovery_generation = None\<rparr>"
| "cause_of Cancelled = Some \<lparr>cause = CauseCancelled, recovery_generation = None\<rparr>"
| "cause_of (DivisionByZero s) = Some \<lparr>cause = CauseDivisionByZero s, recovery_generation = None\<rparr>"
| "cause_of (ArithmeticOverflow m s) = Some \<lparr>cause = CauseArithmeticOverflow m s, recovery_generation = None\<rparr>"
| "cause_of (ArithmeticDomain m s) = Some \<lparr>cause = CauseArithmeticDomain m s, recovery_generation = None\<rparr>"
| "cause_of (IoError m) = Some \<lparr>cause = CauseIo m, recovery_generation = None\<rparr>"
| "cause_of (RecoveryRequired g c) =
     (if recovery_generation c = None then Some (c\<lparr>recovery_generation := Some g\<rparr>) else None)"
| "cause_of (CommitAmbiguous t c) = None"
| "cause_of (CleanupRequired p c) = None"

lemma cause_of_defined:
  "cause_of e \<noteq> None \<longleftrightarrow>
     (\<forall>t c. e \<noteq> CommitAmbiguous t c) \<and> (\<forall>p c. e \<noteq> CleanupRequired p c)
     \<and> (\<forall>g c. e = RecoveryRequired g c \<longrightarrow> recovery_generation c = None)"
  by (cases e) auto

text \<open>
  A recovery error around a failure that is not itself an ambiguous commit or a failed
  cleanup. Where the conversion panics the error is passed on unchanged.
\<close>

definition recovery_error :: "u64 \<Rightarrow> db_error \<Rightarrow> db_error" where
  "recovery_error gen e = (case cause_of e of None \<Rightarrow> e | Some c \<Rightarrow> RecoveryRequired gen c)"

definition recovery_needed :: "u64 \<Rightarrow> db_error" where
  "recovery_needed gen = RecoveryRequired gen
     \<lparr>cause = CauseUnsupported ''close and reopen for exclusive recovery'',
      recovery_generation = None\<rparr>"

definition map_format_error :: "format_error \<Rightarrow> u8 list \<Rightarrow> db_error" where
  "map_format_error e bytes =
     (case e of
        FmtVersion \<Rightarrow>
          if 12 \<le> length bytes then UnsupportedVersion (u32_of_bytes (slice bytes 8 4))
          else Corrupt ''snapshot/unit record validation failed''
      | FmtGeneration g \<Rightarrow> UnsupportedGeneration g
      | _ \<Rightarrow> Corrupt ''snapshot/unit record validation failed'')"

end
