(* ===== verification/Object_Refs.thy ===== *)
theory Object_Refs
  imports Format_Base
begin

text \<open>
  Names of and references to immutable storage objects (\<open>ObjectId\<close> and \<open>ObjectRef\<close>
  of src/storage/catalog.rs). A name spells the attempt and the ordinal as fixed-width
  lowercase hexadecimal; a reference is a 24-byte record.
\<close>

section \<open>Object identities\<close>

record object_id =
  attempt_of :: u64
  ordinal_of :: u32

definition object_id_new :: "u64 \<Rightarrow> u32 \<Rightarrow> format_error + object_id" where
  "object_id_new att ordinal =
     (if att = 0 \<or> ordinal = 0 then Inl FmtIdentity
      else Inr \<lparr>attempt_of = att, ordinal_of = ordinal\<rparr>)"

definition valid_object_id :: "object_id \<Rightarrow> bool" where
  "valid_object_id i \<longleftrightarrow> attempt_of i \<noteq> 0 \<and> ordinal_of i \<noteq> 0"

lemma object_id_new_Inr [simp]:
  "object_id_new a b = Inr i \<longleftrightarrow> attempt_of i = a \<and> ordinal_of i = b \<and> valid_object_id i"
  by (cases i) (auto simp: object_id_new_def valid_object_id_def)

text \<open>The digit table \<open>HEX\<close>, and the digits of a big-endian byte string.\<close>

definition hex_char :: "nat \<Rightarrow> u8" where
  "hex_char d = word_of_nat (if d < 10 then 48 + d else 87 + d)"

definition hex_pairs :: "u8 list \<Rightarrow> u8 list" where
  "hex_pairs bytes = concat (map (\<lambda>byte. [hex_char (unat (drop_bit 4 byte)),
                                           hex_char (unat (byte AND 15))]) bytes)"

definition object_suffix :: "u8 list" where
  "object_suffix = [46, 111, 98, 106]"

definition object_name :: "object_id \<Rightarrow> u8 list" where
  "object_name i =
     hex_pairs (rev (u64_bytes (attempt_of i))) @ [45]
     @ hex_pairs (rev (u32_bytes (ordinal_of i))) @ object_suffix"

definition hex_digit :: "u8 \<Rightarrow> u8 option" where
  "hex_digit byte =
     (if 48 \<le> byte \<and> byte \<le> 57 then Some (byte - 48)
      else if 97 \<le> byte \<and> byte \<le> 102 then Some (byte - 97 + 10) else None)"

fun hex_loop :: "u64 \<Rightarrow> u8 list \<Rightarrow> format_error + u64" where
  "hex_loop value [] = Inr value"
| "hex_loop value (byte # bytes) =
     (case hex_digit byte of
        None \<Rightarrow> Inl FmtIdentity
      | Some digit \<Rightarrow>
          attempt (ok_or (Option.bind (checked_mul value 16) (\<lambda>v. checked_add v (ucast digit)))
                    FmtOverflow) (\<lambda>value'. hex_loop value' bytes))"

definition object_from_name :: "u8 list \<Rightarrow> format_error + object_id" where
  "object_from_name name =
     (if length name \<noteq> 29 \<or> name ! 16 \<noteq> 45 \<or> drop 25 name \<noteq> object_suffix
      then Inl FmtIdentity
      else attempt (hex_loop 0 (take 16 name)) (\<lambda>att.
           attempt (hex_loop 0 (slice name 17 8)) (\<lambda>ordinal64.
           attempt (u32_try_from ordinal64) (\<lambda>ordinal.
             object_id_new att ordinal))))"

section \<open>Hexadecimal digits\<close>

text \<open>\<open>hex_digits k n\<close> is the reference spelling of \<open>n mod 16 ^ k\<close>, last digit last.\<close>

fun hex_digits :: "nat \<Rightarrow> nat \<Rightarrow> u8 list" where
  "hex_digits 0 n = []"
| "hex_digits (Suc k) n = hex_digits k (n div 16) @ [hex_char (n mod 16)]"

lemma length_hex_digits [simp]: "length (hex_digits k n) = k"
  by (induction k arbitrary: n) auto

lemma hex_digit_char: "d < 16 \<Longrightarrow> hex_digit (hex_char d) = Some (word_of_nat d)"
proof -
  have "\<forall>d \<in> set [0..<16]. hex_digit (hex_char d) = Some (word_of_nat d)"
    by (simp add: hex_digit_def hex_char_def upt_rec word_le_nat_alt)
  then show "d < 16 \<Longrightarrow> ?thesis" by simp
qed

lemma hex_digit_Some:
  assumes "hex_digit b = Some d"
  shows "unat d < 16 \<and> b = hex_char (unat d)"
proof (cases "48 \<le> b \<and> b \<le> 57")
  case True
  then have d: "d = b - 48" using assms by (simp add: hex_digit_def)
  have v: "unat d = unat b - 48"
    using True by (simp add: d unat_sub word_le_nat_alt)
  with True have "unat d < 10" by (simp add: word_le_nat_alt) linarith
  moreover from True v have "48 + unat d = unat b" by (simp add: word_le_nat_alt)
  ultimately show ?thesis by (simp add: hex_char_def)
next
  case False
  then have r: "97 \<le> b" "b \<le> 102" and d: "d = b - 97 + 10"
    using assms by (auto simp: hex_digit_def split: if_splits)
  have "d = b - 87" using d by simp
  then have "unat d = unat b - 87"
    using r by (simp add: unat_sub word_le_nat_alt)
  moreover from this r have "\<not> unat d < 10" and "87 + unat d = unat b" and "unat d < 16"
    by (auto simp: word_le_nat_alt)
  ultimately show ?thesis by (simp add: hex_char_def)
qed

lemma hex_loop_append:
  "hex_loop v (xs @ ys) = attempt (hex_loop v xs) (\<lambda>w. hex_loop w ys)"
proof (induction xs arbitrary: v)
  case Nil
  then show ?case by simp
next
  case (Cons x xs)
  show ?case
  proof (cases "hex_digit x")
    case None
    then show ?thesis by simp
  next
    case (Some d)
    then show ?thesis
      by (cases "Option.bind (checked_mul v 16) (\<lambda>v. checked_add v (ucast d))") (simp_all add: Cons.IH)
  qed
qed

lemma unat_u8_u64 [simp]: "unat (ucast (b :: u8) :: u64) = unat b"
proof -
  have "unat b < 18446744073709551616" using unat_u8_less [of b] by linarith
  then show ?thesis by (simp add: unsigned_ucast_eq take_bit_eq_mod)
qed

lemma hex_loop_one:
  "hex_loop v [b] = Inr w \<longleftrightarrow>
     (\<exists>d. hex_digit b = Some d \<and> unat v * 16 + unat d < 2 ^ 64 \<and> unat w = unat v * 16 + unat d)"
proof -
  have step: "hex_loop v [b] = Inr w \<longleftrightarrow> (\<exists>d. hex_digit b = Some d
      \<and> Option.bind (checked_mul v 16) (\<lambda>v. checked_add v (ucast d)) = Some w)"
    by (auto simp: attempt_Inr_conv simp del: bind_eq_Some_conv split: option.splits)
  show ?thesis
    unfolding step checked_mul_add_Some by simp
qed

lemma hex_loop_digits:
  assumes "n < 2 ^ 64"
  shows "hex_loop 0 (hex_digits k n) = Inr (word_of_nat (n mod 16 ^ k))"
  using assms
proof (induction k arbitrary: n)
  case 0
  then show ?case by simp
next
  case (Suc k)
  let ?m = "(n div 16) mod 16 ^ k"
  have m: "?m * 16 + n mod 16 = n mod 16 ^ Suc k"
    by (simp add: mod_mult2_eq)
  have bound: "n mod 16 ^ Suc k < 2 ^ 64"
    using Suc.prems by (meson le_less_trans mod_less_eq_dividend)
  have "?m < 2 ^ 64" using m bound by linarith
  then have um: "unat (word_of_nat ?m :: u64) = ?m"
    by (simp add: unat_of_nat)
  have ud: "unat (word_of_nat (n mod 16) :: u8) = n mod 16"
    by (simp add: unat_of_nat)
  have uw: "unat (word_of_nat (n mod 16 ^ Suc k) :: u64) = n mod 16 ^ Suc k"
    using bound by (simp add: unat_of_nat)
  have "hex_loop (word_of_nat ?m) [hex_char (n mod 16)] = Inr (word_of_nat (n mod 16 ^ Suc k))"
    unfolding hex_loop_one using m bound
    by (intro exI [of _ "word_of_nat (n mod 16)"] conjI) (simp_all only: hex_digit_char um ud uw
        mod_less_divisor zero_less_numeral)
  with Suc show ?case by (simp add: hex_loop_append)
qed

lemma hex_loop_canonical:
  assumes "hex_loop 0 bs = Inr v"
  shows "bs = hex_digits (length bs) (unat v) \<and> unat v < 16 ^ length bs"
  using assms
proof (induction bs arbitrary: v rule: rev_induct)
  case Nil
  then show ?case by simp
next
  case (snoc b bs)
  from snoc.prems obtain u where u: "hex_loop 0 bs = Inr u" and b: "hex_loop u [b] = Inr v"
    unfolding hex_loop_append attempt_Inr_conv by blast
  from b obtain d where d: "hex_digit b = Some d" and v: "unat v = unat u * 16 + unat d"
    unfolding hex_loop_one by blast
  note hex_digit_Some [OF d] and snoc.IH [OF u]
  moreover from this have "unat v div 16 = unat u" and "unat v mod 16 = unat d"
    by (simp_all add: v)
  ultimately show ?case
    by (simp add: v less_Suc_eq_le)
qed

lemma hex_pairs_append: "hex_pairs (xs @ ys) = hex_pairs xs @ hex_pairs ys"
  by (simp add: hex_pairs_def)

lemma hex_pairs_le_encode: "hex_pairs (rev (le_encode k n)) = hex_digits (2 * k) n"
proof (induction k arbitrary: n)
  case 0
  then show ?case by (simp add: hex_pairs_def)
next
  case (Suc k)
  let ?b = "word_of_nat (n mod 256) :: u8"
  have b: "unat ?b = n mod 256" by (simp add: unat_of_nat)
  have "n mod 256 = 16 * (n div 16 mod 16) + n mod 16"
    using mod_mult2_eq [of n 16 16] by simp
  then have "n mod 256 div 16 = n div 16 mod 16" by simp
  then have high: "unat (drop_bit 4 ?b) = n div 16 mod 16"
    by (simp add: drop_bit_eq_div unat_div b)
  have "?b AND 15 = take_bit 4 ?b"
    by (simp add: take_bit_eq_mask mask_numeral)
  then have low: "unat (?b AND 15) = n mod 16"
    by (simp add: take_bit_eq_mod unat_mod b mod_mod_cancel)
  have "hex_pairs [?b] = [hex_char (n div 16 mod 16), hex_char (n mod 16)]"
    by (simp add: hex_pairs_def high low)
  with Suc.IH [of "n div 256"] show ?case
    by (simp add: hex_pairs_append flip: div_mult2_eq)
qed

lemma hex_u64: "hex_pairs (rev (u64_bytes x)) = hex_digits 16 (unat x)"
  by (simp add: u64_bytes_def hex_pairs_le_encode)

lemma hex_u32: "hex_pairs (rev (u32_bytes x)) = hex_digits 8 (unat x)"
  by (simp add: u32_bytes_def hex_pairs_le_encode)

text \<open>C15: File names and object identities correspond one to one: reading a name back gives
  the identity it was made from, and a name is accepted only if it is exactly the
  fixed-width lowercase spelling of a nonzero attempt and ordinal.\<close>

theorem object_names_correspond:
  "object_from_name name = Inr i \<longleftrightarrow> name = object_name i \<and> valid_object_id i"
proof
  assume accepted: "object_from_name name = Inr i"
  then have len: "length name = 29" and dash: "name ! 16 = 45" and suffix: "drop 25 name = object_suffix"
    by (auto simp: object_from_name_def split: if_splits)
  from accepted len dash suffix obtain o64
    where a: "hex_loop 0 (take 16 name) = Inr (attempt_of i)"
      and o: "hex_loop 0 (slice name 17 8) = Inr o64"
      and n: "u32_try_from o64 = Inr (ordinal_of i)" and valid: "valid_object_id i"
    by (auto simp: object_from_name_def attempt_Inr_conv)
  have "unat o64 = unat (ordinal_of i)"
    using n by (simp add: u32_try_from_Inr)
  then have "take 16 name = hex_digits 16 (unat (attempt_of i))"
    and "slice name 17 8 = hex_digits 8 (unat (ordinal_of i))"
    using hex_loop_canonical [OF a] hex_loop_canonical [OF o] len by simp_all
  moreover have "name = take 16 name @ [name ! 16] @ slice name 17 8 @ drop 25 name"
  proof -
    have "name = take 16 name @ name ! 16 # drop 17 name"
      using id_take_nth_drop [of 16 name] len by simp
    moreover have "drop 17 name = slice name 17 8 @ drop 25 name"
      using append_take_drop_id [of 8 "drop 17 name"] by (simp add: slice_def)
    ultimately show ?thesis by simp
  qed
  ultimately have "name = object_name i"
    by (metis dash hex_u32 hex_u64 object_name_def suffix)
  with valid show "name = object_name i \<and> valid_object_id i" by simp
next
  assume r: "name = object_name i \<and> valid_object_id i"
  have "length (hex_digits 16 (unat (attempt_of i))) = 16" and "length (hex_digits 8 (unat (ordinal_of i))) = 8"
    by simp_all
  with r have shape: "length name = 29" "name ! 16 = 45" "drop 25 name = object_suffix"
    and parts: "take 16 name = hex_digits 16 (unat (attempt_of i))"
      "slice name 17 8 = hex_digits 8 (unat (ordinal_of i))"
    by (simp_all add: object_name_def hex_u64 hex_u32 object_suffix_def slice_def nth_append)
  have "hex_loop 0 (take 16 name) = Inr (attempt_of i)"
    using hex_loop_digits [of "unat (attempt_of i)" 16] unat_u64_less [of "attempt_of i"]
    by (simp add: parts)
  moreover have "hex_loop 0 (slice name 17 8) = Inr (ucast (ordinal_of i))"
    using hex_loop_digits [of "unat (ordinal_of i)" 8] unat_u32_less [of "ordinal_of i"]
    by (simp add: parts)
  moreover have "u32_try_from (ucast (ordinal_of i)) = Inr (ordinal_of i)"
    by (simp add: u32_try_from_Inr)
  ultimately show "object_from_name name = Inr i"
    using r shape by (simp add: object_from_name_def)
qed

section \<open>References\<close>

record object_ref =
  ref_object :: object_id
  ref_bytes :: u32
  ref_checksum :: u32

definition object_ref_new :: "object_id \<Rightarrow> u32 \<Rightarrow> u32 \<Rightarrow> format_error + object_ref" where
  "object_ref_new oid bytes crc =
     (if bytes < 64 then Inl FmtLength
      else Inr \<lparr>ref_object = oid, ref_bytes = bytes, ref_checksum = crc\<rparr>)"

definition valid_object_ref :: "object_ref \<Rightarrow> bool" where
  "valid_object_ref r \<longleftrightarrow> valid_object_id (ref_object r) \<and> 64 \<le> ref_bytes r"

definition encode_ref :: "object_ref \<Rightarrow> u8 list" where
  "encode_ref r =
     put (put (put (put (replicate 24 0) 0 (u64_bytes (attempt_of (ref_object r))))
       8 (u32_bytes (ordinal_of (ref_object r)))) 12 (u32_bytes (ref_bytes r)))
       16 (u32_bytes (ref_checksum r))"

definition decode_ref :: "u8 list \<Rightarrow> format_error + object_ref" where
  "decode_ref bytes =
     attempt (require_zero (drop 20 bytes)) (\<lambda>_.
     attempt (object_id_new (u64_of_bytes (slice bytes 0 8)) (u32_of_bytes (slice bytes 8 4)))
       (\<lambda>oid. object_ref_new oid (u32_of_bytes (slice bytes 12 4)) (u32_of_bytes (slice bytes 16 4))))"

lemma length_encode_ref [simp, byte_simps]: "length (encode_ref r) = 24"
  by (simp add: encode_ref_def)

lemma encode_ref_append: "encode_ref r =
  u64_bytes (attempt_of (ref_object r)) @ u32_bytes (ordinal_of (ref_object r))
  @ u32_bytes (ref_bytes r) @ u32_bytes (ref_checksum r) @ replicate 4 0"
  by (simp add: encode_ref_def put_def)

lemma decode_encode_ref: "valid_object_ref r \<Longrightarrow> decode_ref (encode_ref r) = Inr r"
  by (simp add: decode_ref_def encode_ref_append slice_def valid_object_ref_def
      object_id_new_def valid_object_id_def object_ref_new_def not_less)

lemma decode_ref_valid: "decode_ref bytes = Inr r \<Longrightarrow> valid_object_ref r"
  by (auto simp: decode_ref_def attempt_Inr_conv valid_object_ref_def object_ref_new_def
      not_less split: if_splits)

lemma encode_decode_ref:
  assumes "length bytes = 24" and "decode_ref bytes = Inr r"
  shows "encode_ref r = bytes"
proof -
  have parts: "attempt_of (ref_object r) = u64_of_bytes (slice bytes 0 8)"
    "ordinal_of (ref_object r) = u32_of_bytes (slice bytes 8 4)"
    "ref_bytes r = u32_of_bytes (slice bytes 12 4)"
    "ref_checksum r = u32_of_bytes (slice bytes 16 4)" and "all_zero (drop 20 bytes)"
    using assms(2) by (auto simp: decode_ref_def attempt_Inr_conv object_ref_new_def split: if_splits)
  then have "drop 20 bytes = replicate 4 0"
    using assms(1) by (simp add: all_zero_iff)
  moreover have "bytes = slice bytes 0 8 @ slice bytes 8 4 @ slice bytes 12 4 @ slice bytes 16 4 @ drop 20 bytes"
    using assms(1) by (intro nth_equalityI) (auto simp: nth_append slice_def)
  ultimately show ?thesis
    using assms(1) by (simp add: encode_ref_append parts u64_bytes_of_bytes u32_bytes_of_bytes)
qed

text \<open>An encoded reference is never the all-zero field that stands for no reference.\<close>

lemma encode_ref_nonzero: "valid_object_ref r \<Longrightarrow> encode_ref r \<noteq> replicate 24 0"
proof
  assume "valid_object_ref r" and z: "encode_ref r = replicate 24 0"
  then have "slice (encode_ref r) 0 8 = replicate 8 0"
    by (simp add: byte_simps)
  then have "u64_bytes (attempt_of (ref_object r)) = replicate 8 0"
    by (simp add: encode_ref_append slice_def)
  then have "attempt_of (ref_object r) = 0"
    by (metis u64_of_bytes_bytes u64_of_bytes_zero)
  with \<open>valid_object_ref r\<close> show False
    by (simp add: valid_object_ref_def valid_object_id_def)
qed

end
