(* ===== verification/Root_Format.thy ===== *)
theory Root_Format
  imports Object_Refs
begin

text \<open>
  The records that decide what is committed (src/storage/format.rs): CONTROL, the two root
  replicas and the WAL fence, their byte layouts, the publication steps one snapshot can
  take to the next, and the choice recovery makes among the surviving records.
\<close>

section \<open>Snapshots\<close>

definition catalog_format_version :: u32 where "catalog_format_version = 7"
definition control_bytes :: nat where "control_bytes = 128"
definition root_bytes :: nat where "root_bytes = 4096"
definition wal_bytes :: nat where "wal_bytes = 512"
definition max_successes :: u64 where "max_successes = 1048576"
definition max_catalog_bytes :: u64 where "max_catalog_bytes = 8256"

definition control_magic :: "u8 list" where
  "control_magic = [80, 73, 80, 69, 83, 81, 76, 0]"
definition root_magic :: "u8 list" where
  "root_magic = [80, 83, 81, 76, 82, 79, 79, 84]"
definition wal_magic :: "u8 list" where
  "wal_magic = [80, 83, 81, 76, 87, 65, 76, 0]"

lemmas root_constants = catalog_format_version_def format_version_def control_bytes_def
  root_bytes_def wal_bytes_def max_successes_def max_catalog_bytes_def

lemma length_magic [simp]:
  "length control_magic = 8" "length root_magic = 8" "length wal_magic = 8"
  by (simp_all add: control_magic_def root_magic_def wal_magic_def)

datatype replica = ReplicaA | ReplicaB

fun replica_byte :: "replica \<Rightarrow> u8" where
  "replica_byte ReplicaA = 0"
| "replica_byte ReplicaB = 1"

definition replica_from_byte :: "u8 \<Rightarrow> format_error + replica" where
  "replica_from_byte byte =
     (if byte = 0 then Inr ReplicaA else if byte = 1 then Inr ReplicaB else Inl FmtField)"

lemma replica_from_byte_byte [simp]: "replica_from_byte (replica_byte r) = Inr r"
  by (cases r) (simp_all add: replica_from_byte_def)

lemma replica_from_byte_Inr: "replica_from_byte b = Inr r \<Longrightarrow> b = replica_byte r"
  by (auto simp: replica_from_byte_def split: if_splits)

record catalog_commit =
  generation :: u64
  transaction :: transaction_id
  catalog_ref :: object_ref
  successes_ref :: object_ref

definition catalog_commit_new ::
  "database_id \<Rightarrow> u64 \<Rightarrow> transaction_id \<Rightarrow> object_ref \<Rightarrow> object_ref \<Rightarrow> format_error + catalog_commit" where
  "catalog_commit_new database gen txn catalog successes =
     (let sequence = sequence_of txn in
      if gen = 0 \<or> max_successes < gen \<or> sequence < gen \<or> \<not> belongs_to txn database
         \<or> sequence < attempt_of (ref_object catalog)
         \<or> attempt_of (ref_object successes) \<noteq> sequence
         \<or> ref_object catalog = ref_object successes
         \<or> max_catalog_bytes < ucast (ref_bytes catalog)
      then Inl FmtField
      else attempt (ok_or (Option.bind (checked_mul gen 8) (\<lambda>n. checked_add n 64)) FmtOverflow)
        (\<lambda>expected. if ucast (ref_bytes successes) \<noteq> expected then Inl FmtLength
           else Inr \<lparr>generation = gen, transaction = txn, catalog_ref = catalog,
                     successes_ref = successes\<rparr>))"

datatype root_state =
    CatalogState "catalog_commit option"
  | EmptyState
  | DataState transaction_id u64 u64 u32

record root =
  root_database :: database_id
  root_issued :: u64
  root_replica :: replica
  root_state :: root_state

record wal_record =
  database :: database_id
  issued :: u64
  state :: root_state

definition fence :: "root \<Rightarrow> wal_record" where
  "fence r = \<lparr>database = root_database r, issued = root_issued r, state = root_state r\<rparr>"

section \<open>Publication steps\<close>

datatype publication_kind = Issuance | Commit

definition commit_generation :: "catalog_commit option \<Rightarrow> u64" where
  "commit_generation c = (case c of None \<Rightarrow> 0 | Some c \<Rightarrow> generation c)"

definition transition_from :: "wal_record \<Rightarrow> wal_record \<Rightarrow> publication_kind option" where
  "transition_from self old =
     (if database self \<noteq> database old then None
      else
        let issuance = checked_add (issued old) 1 = Some (issued self) \<and> state self = state old;
            commit = issued self = issued old \<and>
              (case (state old, state self) of
                 (EmptyState, DataState txn _ _ _) \<Rightarrow> sequence_of txn = issued self
               | (CatalogState prior, CatalogState (Some next)) \<Rightarrow>
                   checked_add (commit_generation prior) 1 = Some (generation next)
                   \<and> sequence_of (transaction next) = issued self
                   \<and> (case prior of None \<Rightarrow> True
                      | Some p \<Rightarrow> sequence_of (transaction p) < issued self)
               | _ \<Rightarrow> False)
        in if issuance then Some Issuance else if commit then Some Commit else None)"

definition succeeds :: "wal_record \<Rightarrow> wal_record \<Rightarrow> bool" where
  "succeeds self old \<longleftrightarrow> transition_from self old \<noteq> None"

text \<open>
  Choosing among the decoded records: equal roots agree, adjacent roots select the newer,
  one root needs a matching WAL; and the WAL may equal the choice or be one step ahead.
\<close>

definition select_roots ::
  "root option \<Rightarrow> root option \<Rightarrow> wal_record option \<Rightarrow> (wal_record \<times> replica option) option" where
  "select_roots a b wal =
     (case (a, b) of
        (Some a, Some b) \<Rightarrow>
          if fence a = fence b then Some (fence a, None)
          else if succeeds (fence a) (fence b) then Some (fence a, Some ReplicaB)
          else if succeeds (fence b) (fence a) then Some (fence b, Some ReplicaA)
          else None
      | (Some a, None) \<Rightarrow> if wal = Some (fence a) then Some (fence a, Some ReplicaB) else None
      | (None, Some b) \<Rightarrow> if wal = Some (fence b) then Some (fence b, Some ReplicaA) else None
      | (None, None) \<Rightarrow> None)"

definition select_snapshot ::
  "root option \<Rightarrow> root option \<Rightarrow> wal_record option \<Rightarrow> format_error + wal_record \<times> replica option" where
  "select_snapshot a b wal =
     attempt (ok_or (select_roots a b wal) FmtField) (\<lambda>(selected, repair).
       case wal of
         None \<Rightarrow> Inr (selected, repair)
       | Some f \<Rightarrow> if f \<noteq> selected \<and> \<not> succeeds f selected then Inl FmtField
                   else Inr (selected, repair))"

section \<open>CONTROL\<close>

definition encode_control_version :: "database_id \<Rightarrow> u32 \<Rightarrow> u8 list" where
  "encode_control_version db version =
     (let bytes = put (replicate control_bytes 0) 0 control_magic;
          bytes = put_u32 bytes 8 version;
          bytes = put_u32 bytes 12 (word_of_nat control_bytes);
          bytes = put bytes 16 (id_bytes db)
      in put_u32 bytes 36 (crc32c bytes))"

definition encode_control :: "database_id \<Rightarrow> u8 list" where
  "encode_control db = encode_control_version db format_version"

definition encode_catalog_control :: "database_id \<Rightarrow> u8 list" where
  "encode_catalog_control db = encode_control_version db catalog_format_version"

definition decode_control :: "u8 list \<Rightarrow> format_error + database_id" where
  "decode_control bytes =
     attempt (require_length bytes control_bytes) (\<lambda>_.
     if take 8 bytes \<noteq> control_magic then Inl FmtMagic
     else attempt (read_u32 bytes 8) (\<lambda>version.
     attempt (if version = catalog_format_version
              then attempt (read_u32 bytes 12) (\<lambda>n.
                     if n \<noteq> word_of_nat control_bytes then Inl FmtLength else Inr ())
              else require_version_length bytes control_bytes) (\<lambda>_.
     attempt (require_zero (slice bytes 32 4)) (\<lambda>_.
     attempt (require_zero (drop 40 bytes)) (\<lambda>_.
     attempt (require_checksum bytes 36) (\<lambda>_.
       map_error of_identity_error (database_id_from_slice (slice bytes 16 16))))))))"

section \<open>Roots and the WAL\<close>

definition validate_data_fields ::
  "database_id \<Rightarrow> u64 \<Rightarrow> transaction_id \<Rightarrow> u64 \<Rightarrow> u64 \<Rightarrow> format_error + unit" where
  "validate_data_fields db iss txn rows unit_len =
     (if \<not> belongs_to txn db \<or> sequence_of txn = 0 \<or> iss < sequence_of txn then Inl FmtField
      else attempt (layout rows) (\<lambda>g.
        if unit_bytes g \<noteq> unit_len then Inl FmtField else Inr ()))"

text \<open>The fields both formats share, written into a zero-filled record.\<close>

definition snapshot_head :: "u32 \<Rightarrow> root \<Rightarrow> nat \<Rightarrow> u8 list \<Rightarrow> u8 list" where
  "snapshot_head version r n magic =
     (let bytes = put (replicate n 0) 0 magic;
          bytes = put_u32 bytes 8 version;
          bytes = put_u32 bytes 12 (word_of_nat n);
          bytes = put bytes 16 (id_bytes (root_database r));
          bytes = put bytes 32 [replica_byte (root_replica r)]
      in put_u64 bytes 112 (root_issued r))"

definition seal :: "u8 list \<Rightarrow> u8 list" where
  "seal bytes = put_u32 bytes 108 (crc32c bytes)"

definition encode_catalog_snapshot ::
  "root \<Rightarrow> catalog_commit option \<Rightarrow> nat \<Rightarrow> u8 list \<Rightarrow> format_error + u8 list" where
  "encode_catalog_snapshot r committed n magic =
     (if 2 ^ 32 \<le> n then Inl FmtLength
      else let bytes = snapshot_head catalog_format_version r n magic in
        case committed of
          None \<Rightarrow> Inr (seal bytes)
        | Some c \<Rightarrow>
            if \<not> belongs_to (transaction c) (root_database r)
               \<or> root_issued r < sequence_of (transaction c)
            then Inl FmtIdentity
            else
              let bytes = put_u64 bytes 40 (generation c);
                  bytes = put bytes 56 (token_bytes (transaction c));
                  bytes = put bytes 128 (encode_ref (catalog_ref c));
                  bytes = put bytes 152 (encode_ref (successes_ref c))
              in Inr (seal bytes))"

definition encode_snapshot :: "root \<Rightarrow> nat \<Rightarrow> u8 list \<Rightarrow> format_error + u8 list" where
  "encode_snapshot r n magic =
     (case root_state r of
        CatalogState committed \<Rightarrow> encode_catalog_snapshot r committed n magic
      | EmptyState \<Rightarrow>
          if 2 ^ 32 \<le> n then Inl FmtLength
          else Inr (seal (snapshot_head format_version r n magic))
      | DataState txn rows unit_len crc \<Rightarrow>
          if 2 ^ 32 \<le> n then Inl FmtLength
          else attempt (validate_data_fields (root_database r) (root_issued r) txn rows unit_len)
            (\<lambda>_.
              let bytes = snapshot_head format_version r n magic;
                  bytes = put_u64 bytes 40 1;
                  bytes = put bytes 56 (token_bytes txn);
                  bytes = put_u64 bytes 80 1;
                  bytes = put_u64 bytes 88 rows;
                  bytes = put_u64 bytes 96 unit_len;
                  bytes = put_u32 bytes 104 crc
              in Inr (seal bytes)))"

definition encode_root :: "root \<Rightarrow> format_error + u8 list" where
  "encode_root r = encode_snapshot r root_bytes root_magic"

definition encode_wal :: "wal_record \<Rightarrow> format_error + u8 list" where
  "encode_wal w =
     encode_snapshot \<lparr>root_database = database w, root_issued = issued w,
                      root_replica = ReplicaA, root_state = state w\<rparr> wal_bytes wal_magic"

definition decode_catalog_snapshot :: "u8 list \<Rightarrow> nat \<Rightarrow> u8 list \<Rightarrow> format_error + root" where
  "decode_catalog_snapshot bytes n magic =
     attempt (require_length bytes n) (\<lambda>_.
     if take 8 bytes \<noteq> magic then Inl FmtMagic
     else attempt (require_checksum bytes 108) (\<lambda>_.
     attempt (read_u32 bytes 12) (\<lambda>len.
     if len \<noteq> word_of_nat n then Inl FmtLength
     else attempt (require_zero (slice bytes 33 7)) (\<lambda>_.
     attempt (require_zero (slice bytes 48 8)) (\<lambda>_.
     attempt (require_zero (slice bytes 80 28)) (\<lambda>_.
     attempt (require_zero (slice bytes 120 8)) (\<lambda>_.
     attempt (require_zero (drop 176 bytes)) (\<lambda>_.
     attempt (map_error of_identity_error (database_id_from_slice (slice bytes 16 16))) (\<lambda>db.
     attempt (replica_from_byte (bytes ! 32)) (\<lambda>rep.
     attempt (read_u64 bytes 112) (\<lambda>iss.
     attempt (read_u64 bytes 40) (\<lambda>gen.
     attempt
       (if gen = 0 then
          attempt (require_zero (slice bytes 56 24)) (\<lambda>_.
          attempt (require_zero (slice bytes 128 48)) (\<lambda>_. Inr None))
        else
          attempt (map_error of_identity_error (decode_token (slice bytes 56 24))) (\<lambda>txn.
          attempt (decode_ref (slice bytes 128 24)) (\<lambda>catalog.
          attempt (decode_ref (slice bytes 152 24)) (\<lambda>successes.
          if iss < sequence_of txn then Inl FmtIdentity
          else attempt (catalog_commit_new db gen txn catalog successes) (\<lambda>c. Inr (Some c))))))
       (\<lambda>committed.
       Inr \<lparr>root_database = db, root_issued = iss, root_replica = rep,
            root_state = CatalogState committed\<rparr>)))))))))))))"

definition decode_data_snapshot :: "u8 list \<Rightarrow> nat \<Rightarrow> u8 list \<Rightarrow> format_error + root" where
  "decode_data_snapshot bytes n magic =
     attempt (require_length bytes n) (\<lambda>_.
     if take 8 bytes \<noteq> magic then Inl FmtMagic
     else attempt (require_checksum bytes 108) (\<lambda>_.
     attempt (read_u64 bytes 40) (\<lambda>gen.
     if 1 < gen then Inl (FmtGeneration gen)
     else attempt (read_u32 bytes 12) (\<lambda>len.
     if len \<noteq> word_of_nat n then Inl FmtField
     else attempt (require_zero (slice bytes 33 7)) (\<lambda>_.
     attempt (require_zero (slice bytes 48 8)) (\<lambda>_.
     attempt (require_zero (drop 120 bytes)) (\<lambda>_.
     attempt (map_error of_identity_error (database_id_from_slice (slice bytes 16 16))) (\<lambda>db.
     attempt (replica_from_byte (bytes ! 32)) (\<lambda>rep.
     attempt (read_u64 bytes 112) (\<lambda>iss.
     attempt
       (if gen = 0 then attempt (require_zero (slice bytes 48 60)) (\<lambda>_. Inr EmptyState)
        else
          attempt (read_u64 bytes 80) (\<lambda>one.
          if one \<noteq> 1 then Inl FmtField
          else attempt (map_error (\<lambda>_. FmtField) (decode_token (slice bytes 56 24))) (\<lambda>txn.
          attempt (read_u64 bytes 88) (\<lambda>rows.
          attempt (read_u64 bytes 96) (\<lambda>unit_len.
          attempt (validate_data_fields db iss txn rows unit_len) (\<lambda>_.
          attempt (read_u32 bytes 104) (\<lambda>crc. Inr (DataState txn rows unit_len crc))))))))
       (\<lambda>st.
       Inr \<lparr>root_database = db, root_issued = iss, root_replica = rep, root_state = st\<rparr>)))))))))))"

definition decode_snapshot :: "u8 list \<Rightarrow> nat \<Rightarrow> u8 list \<Rightarrow> format_error + root" where
  "decode_snapshot bytes n magic =
     (if 12 \<le> length bytes \<and> take 8 bytes = magic then
        attempt (read_u32 bytes 8) (\<lambda>version.
          if version = catalog_format_version then decode_catalog_snapshot bytes n magic
          else if version \<noteq> format_version then Inl FmtVersion
          else decode_data_snapshot bytes n magic)
      else decode_data_snapshot bytes n magic)"

definition decode_root :: "u8 list \<Rightarrow> format_error + root" where
  "decode_root bytes = decode_snapshot bytes root_bytes root_magic"

definition decode_wal :: "u8 list \<Rightarrow> format_error + wal_record" where
  "decode_wal bytes =
     attempt (decode_snapshot bytes wal_bytes wal_magic) (\<lambda>r.
       if root_replica r \<noteq> ReplicaA then Inl FmtField else Inr (fence r))"

section \<open>Well-formed snapshots\<close>

text \<open>
  What the private constructors guarantee of a state: every identity and reference it
  holds passed its own constructor, and the state passed the check its encoder makes.
\<close>

definition valid_state :: "database_id \<Rightarrow> u64 \<Rightarrow> root_state \<Rightarrow> bool" where
  "valid_state db iss st =
     (case st of
        CatalogState None \<Rightarrow> True
      | CatalogState (Some c) \<Rightarrow>
          valid_token (transaction c) \<and> valid_object_ref (catalog_ref c)
          \<and> valid_object_ref (successes_ref c) \<and> sequence_of (transaction c) \<le> iss
          \<and> catalog_commit_new db (generation c) (transaction c) (catalog_ref c)
               (successes_ref c) = Inr c
      | EmptyState \<Rightarrow> True
      | DataState txn rows unit_len crc \<Rightarrow>
          valid_token txn \<and> validate_data_fields db iss txn rows unit_len = Inr ())"

definition valid_record :: "wal_record \<Rightarrow> bool" where
  "valid_record w \<longleftrightarrow> valid_database_id (database w)
     \<and> valid_state (database w) (issued w) (state w)"

definition replica_of :: "wal_record \<Rightarrow> replica \<Rightarrow> root" where
  "replica_of w rep = \<lparr>root_database = database w, root_issued = issued w,
     root_replica = rep, root_state = state w\<rparr>"

lemma fence_replica_of [simp]: "fence (replica_of w rep) = w"
  by (simp add: fence_def replica_of_def)

lemma replica_of_simps [simp]:
  "root_database (replica_of w rep) = database w" "root_issued (replica_of w rep) = issued w"
  "root_replica (replica_of w rep) = rep" "root_state (replica_of w rep) = state w"
  by (simp_all add: replica_of_def)

lemma encode_wal_replica: "encode_wal w = encode_snapshot (replica_of w ReplicaA) wal_bytes wal_magic"
  by (simp add: encode_wal_def replica_of_def)

end
