(* ===== verification/Root_Codec.thy ===== *)
theory Root_Codec
  imports Root_Format
begin

text \<open>
  The codecs of CONTROL, the roots and the WAL against each other: what an encoder writes
  its decoder reads back, and a decoder accepts nothing that was not a well-formed record.
\<close>

section \<open>Reading a sealed record\<close>

lemma take_slice: "take n bs = slice bs 0 n"
  by (simp add: slice_def)

lemma drop_replicate_all_zero [simp]: "all_zero (drop n (replicate m 0))"
  by simp

text \<open>Fields away from the checksum are those of the record before sealing.\<close>

lemma seal_simps [byte_simps]:
  assumes "176 \<le> length bs"
  shows "length (seal bs) = length bs"
    and "off + n \<le> 108 \<Longrightarrow> slice (seal bs) off n = slice bs off n"
    and "112 \<le> off \<Longrightarrow> off + n \<le> length bs \<Longrightarrow> slice (seal bs) off n = slice bs off n"
    and "112 \<le> off \<Longrightarrow> drop off (seal bs) = drop off bs"
    and "i < 108 \<Longrightarrow> seal bs ! i = bs ! i"
  using assms by (simp_all add: seal_def put_u32_def byte_simps)

lemma seal_checksum:
  "176 \<le> length bs \<Longrightarrow> slice bs 108 4 = replicate 4 0 \<Longrightarrow> require_checksum (seal bs) 108 = Inr ()"
  by (simp add: seal_def require_checksum_put)

lemma snapshot_head_fields:
  assumes "176 \<le> n" and "valid_database_id (root_database r)" and "length magic = 8"
  shows "length (snapshot_head v r n magic) = n"
    and "slice (snapshot_head v r n magic) 0 8 = magic"
    and "slice (snapshot_head v r n magic) 8 4 = u32_bytes v"
    and "slice (snapshot_head v r n magic) 12 4 = u32_bytes (word_of_nat n)"
    and "slice (snapshot_head v r n magic) 16 16 = id_bytes (root_database r)"
    and "snapshot_head v r n magic ! 32 = replica_byte (root_replica r)"
    and "slice (snapshot_head v r n magic) 112 8 = u64_bytes (root_issued r)"
    and "33 \<le> off \<Longrightarrow> off + m \<le> 112 \<Longrightarrow> slice (snapshot_head v r n magic) off m = replicate m 0"
    and "120 \<le> off \<Longrightarrow> off + m \<le> n \<Longrightarrow> slice (snapshot_head v r n magic) off m = replicate m 0"
    and "120 \<le> off \<Longrightarrow> drop off (snapshot_head v r n magic) = replicate (n - off) 0"
  using assms
  by (simp_all add: snapshot_head_def Let_def put_u32_def put_u64_def valid_database_id_def byte_simps)

text \<open>A record with an intact head reaches the format's own decoder.\<close>

lemma decode_snapshot_catalog:
  assumes "176 \<le> n" and "length bs = n" and "slice bs 0 8 = magic"
    and "slice bs 8 4 = u32_bytes catalog_format_version"
  shows "decode_snapshot bs n magic = decode_catalog_snapshot bs n magic"
  using assms by (simp add: decode_snapshot_def take_slice read_u32_def)

lemma decode_snapshot_data:
  assumes "176 \<le> n" and "length bs = n" and "slice bs 0 8 = magic"
    and "slice bs 8 4 = u32_bytes format_version"
  shows "decode_snapshot bs n magic = decode_data_snapshot bs n magic"
  using assms by (simp add: decode_snapshot_def take_slice read_u32_def root_constants)

lemma valid_database_id_slice:
  "valid_database_id d \<Longrightarrow> database_id_from_slice (id_bytes d) = Inr d"
  by simp

lemma valid_token_decode:
  "valid_token t \<Longrightarrow> decode_token (token_bytes t) = Inr t"
  using decode_token_Inr [of "token_bytes t" t] by (simp add: valid_token_def)

lemma valid_token_length [byte_simps]: "valid_token t \<Longrightarrow> length (token_bytes t) = 24"
  by (simp add: valid_token_def)

lemmas decoder_steps = valid_database_id_slice valid_token_decode read_u32_def read_u64_def
  require_length_def take_slice

lemma decode_encode_catalog_none:
  assumes "176 \<le> n" and "n < 2 ^ 32" and "length magic = 8"
    and "valid_database_id (root_database r)" and "root_state r = CatalogState None"
  shows "\<exists>bs. encode_snapshot r n magic = Inr bs \<and> length bs = n
    \<and> slice bs 0 8 = magic \<and> slice bs 8 4 = u32_bytes catalog_format_version
    \<and> decode_snapshot bs n magic = Inr r"
proof -
  let ?h = "snapshot_head catalog_format_version r n magic"
  note head = snapshot_head_fields [OF assms(1,4,3), where v = catalog_format_version]
  have seal: "176 \<le> length ?h" using head(1) assms(1) by simp
  note fields = seal_simps [OF seal] head
  have sum: "require_checksum (seal ?h) 108 = Inr ()"
    using seal by (rule seal_checksum) (simp add: head)
  have "decode_catalog_snapshot (seal ?h) n magic = Inr r"
    using assms sum
    by (simp add: decode_catalog_snapshot_def decoder_steps fields)
  moreover have "slice (seal ?h) 0 8 = magic"
    and "slice (seal ?h) 8 4 = u32_bytes catalog_format_version" and "length (seal ?h) = n"
    by (simp_all add: fields)
  ultimately show ?thesis
    using assms decode_snapshot_catalog [OF assms(1), of "seal ?h" magic]
    by (simp add: encode_snapshot_def encode_catalog_snapshot_def Let_def)
qed

lemma decode_encode_catalog_some:
  assumes "176 \<le> n" and "n < 2 ^ 32" and "length magic = 8"
    and db: "valid_database_id (root_database r)" and st: "root_state r = CatalogState (Some c)"
    and vs: "valid_state (root_database r) (root_issued r) (root_state r)"
  shows "\<exists>bs. encode_snapshot r n magic = Inr bs \<and> length bs = n
    \<and> slice bs 0 8 = magic \<and> slice bs 8 4 = u32_bytes catalog_format_version
    \<and> decode_snapshot bs n magic = Inr r"
proof -
  let ?h = "snapshot_head catalog_format_version r n magic"
  let ?b = "put (put (put (put_u64 ?h 40 (generation c)) 56 (token_bytes (transaction c)))
    128 (encode_ref (catalog_ref c))) 152 (encode_ref (successes_ref c))"
  note head = snapshot_head_fields [OF assms(1) db assms(3), where v = catalog_format_version]
  have tok: "valid_token (transaction c)" and refs: "valid_object_ref (catalog_ref c)"
      "valid_object_ref (successes_ref c)" and seq: "sequence_of (transaction c) \<le> root_issued r"
    and new: "catalog_commit_new (root_database r) (generation c) (transaction c) (catalog_ref c)
               (successes_ref c) = Inr c"
    using vs st by (simp_all add: valid_state_def)
  have own: "belongs_to (transaction c) (root_database r)" and gen: "generation c \<noteq> 0"
    using new by (auto simp: catalog_commit_new_def Let_def split: if_splits)
  have len: "length ?b = n"
    using tok assms(1) by (simp add: put_u64_def byte_simps head)
  then have seal: "176 \<le> length ?b" using assms(1) by simp
  note body = put_u64_def byte_simps head tok
  have sum: "require_checksum (seal ?b) 108 = Inr ()"
    using seal by (rule seal_checksum) (use tok assms(1) in \<open>simp add: body\<close>)
  note fields = seal_simps [OF seal] body len
  have "decode_catalog_snapshot (seal ?b) n magic = Inr r"
    using assms(1-3) st seq own gen new sum
    by (simp add: decode_catalog_snapshot_def decoder_steps fields db decode_encode_ref refs not_less)
  moreover have "slice (seal ?b) 0 8 = magic"
    and "slice (seal ?b) 8 4 = u32_bytes catalog_format_version" and "length (seal ?b) = n"
    using assms(1) by (simp_all add: fields)
  ultimately show ?thesis
    using assms(1-3) st seq own decode_snapshot_catalog [OF assms(1), of "seal ?b" magic]
    by (simp add: encode_snapshot_def encode_catalog_snapshot_def Let_def not_less)
qed

lemma decode_encode_empty:
  assumes "176 \<le> n" and "n < 2 ^ 32" and "length magic = 8"
    and "valid_database_id (root_database r)" and "root_state r = EmptyState"
  shows "\<exists>bs. encode_snapshot r n magic = Inr bs \<and> length bs = n
    \<and> slice bs 0 8 = magic \<and> slice bs 8 4 = u32_bytes format_version
    \<and> decode_snapshot bs n magic = Inr r"
proof -
  let ?h = "snapshot_head format_version r n magic"
  note head = snapshot_head_fields [OF assms(1,4,3), where v = format_version]
  have seal: "176 \<le> length ?h" using head(1) assms(1) by simp
  note fields = seal_simps [OF seal] head
  have sum: "require_checksum (seal ?h) 108 = Inr ()"
    using seal by (rule seal_checksum) (simp add: head)
  have "decode_data_snapshot (seal ?h) n magic = Inr r"
    using assms sum
    by (simp add: decode_data_snapshot_def decoder_steps fields)
  moreover have "slice (seal ?h) 0 8 = magic"
    and "slice (seal ?h) 8 4 = u32_bytes format_version" and "length (seal ?h) = n"
    by (simp_all add: fields)
  ultimately show ?thesis
    using assms decode_snapshot_data [OF assms(1), of "seal ?h" magic]
    by (simp add: encode_snapshot_def)
qed

lemma decode_encode_data:
  assumes "176 \<le> n" and "n < 2 ^ 32" and "length magic = 8"
    and db: "valid_database_id (root_database r)" and st: "root_state r = DataState txn rows unit_len crc"
    and vs: "valid_state (root_database r) (root_issued r) (root_state r)"
  shows "\<exists>bs. encode_snapshot r n magic = Inr bs \<and> length bs = n
    \<and> slice bs 0 8 = magic \<and> slice bs 8 4 = u32_bytes format_version
    \<and> decode_snapshot bs n magic = Inr r"
proof -
  let ?h = "snapshot_head format_version r n magic"
  let ?b = "put_u32 (put_u64 (put_u64 (put_u64 (put (put_u64 ?h 40 1) 56 (token_bytes txn)) 80 1)
    88 rows) 96 unit_len) 104 crc"
  note head = snapshot_head_fields [OF assms(1) db assms(3), where v = format_version]
  have tok: "valid_token txn"
    and fine: "validate_data_fields (root_database r) (root_issued r) txn rows unit_len = Inr ()"
    using vs st by (simp_all add: valid_state_def)
  have len: "length ?b = n"
    using tok assms(1) by (simp add: put_u64_def put_u32_def byte_simps head)
  then have seal: "176 \<le> length ?b" using assms(1) by simp
  note body = put_u64_def put_u32_def byte_simps head tok
  have sum: "require_checksum (seal ?b) 108 = Inr ()"
    using seal by (rule seal_checksum) (use tok assms(1) in \<open>simp add: body\<close>)
  note fields = seal_simps [OF seal] body len
  have "decode_data_snapshot (seal ?b) n magic = Inr r"
    using assms(1-3) st fine sum
    by (simp add: decode_data_snapshot_def decoder_steps fields db)
  moreover have "slice (seal ?b) 0 8 = magic"
    and "slice (seal ?b) 8 4 = u32_bytes format_version" and "length (seal ?b) = n"
    using assms(1) by (simp_all add: fields)
  ultimately show ?thesis
    using assms(1-3) st fine decode_snapshot_data [OF assms(1), of "seal ?b" magic]
    by (simp add: encode_snapshot_def)
qed

definition state_version :: "root_state \<Rightarrow> u32" where
  "state_version st =
     (case st of CatalogState _ \<Rightarrow> catalog_format_version | _ \<Rightarrow> format_version)"

lemma decode_encode_snapshot:
  assumes "176 \<le> n" and "n < 2 ^ 32" and "length magic = 8"
    and "valid_database_id (root_database r)"
    and "valid_state (root_database r) (root_issued r) (root_state r)"
  shows "\<exists>bs. encode_snapshot r n magic = Inr bs \<and> length bs = n
    \<and> slice bs 0 8 = magic \<and> slice bs 8 4 = u32_bytes (state_version (root_state r))
    \<and> decode_snapshot bs n magic = Inr r"
proof (cases "root_state r")
  case (CatalogState c)
  then show ?thesis
    using decode_encode_catalog_none [OF assms(1-4)] decode_encode_catalog_some [OF assms(1-4)] assms(5)
    by (cases c) (simp_all add: state_version_def)
next
  case EmptyState
  then show ?thesis
    using decode_encode_empty [OF assms(1-4)] by (simp add: state_version_def)
next
  case (DataState txn rows unit_len crc)
  then show ?thesis
    using decode_encode_data [OF assms(1-4) DataState assms(5)] by (simp add: state_version_def)
qed

section \<open>Round trips\<close>

lemma root_roundtrip:
  assumes "valid_record w"
  obtains bs where "encode_root (replica_of w rep) = Inr bs" and "length bs = root_bytes"
    and "decode_root bs = Inr (replica_of w rep)"
  using decode_encode_snapshot [of root_bytes root_magic "replica_of w rep"] assms that
  by (auto simp: valid_record_def encode_root_def decode_root_def root_bytes_def)

lemma wal_roundtrip:
  assumes "valid_record w"
  obtains bs where "encode_wal w = Inr bs" and "length bs = wal_bytes"
    and "slice bs 0 8 = wal_magic" and "slice bs 8 4 = u32_bytes (state_version (state w))"
    and "decode_wal bs = Inr w"
  using decode_encode_snapshot [of wal_bytes wal_magic "replica_of w ReplicaA"] assms that
  by (auto simp: valid_record_def encode_wal_replica decode_wal_def wal_bytes_def)

text \<open>C11: Every well-formed snapshot survives its encoding: a root replica and the WAL
  record written for it decode to exactly that snapshot and replica, whatever the state
  (an uncommitted or committed catalog, an empty or a loaded fixed-schema database).\<close>

theorem snapshot_records_roundtrip:
  assumes "valid_record w"
  shows "\<exists>bytes wal. encode_root (replica_of w rep) = Inr bytes \<and> length bytes = root_bytes
    \<and> decode_root bytes = Inr (replica_of w rep)
    \<and> encode_wal w = Inr wal \<and> length wal = wal_bytes \<and> decode_wal wal = Inr w"
proof -
  obtain bytes where "encode_root (replica_of w rep) = Inr bytes" "length bytes = root_bytes"
    "decode_root bytes = Inr (replica_of w rep)"
    using assms by (rule root_roundtrip)
  moreover obtain wal where "encode_wal w = Inr wal" "length wal = wal_bytes" "decode_wal wal = Inr w"
    using assms by (rule wal_roundtrip)
  ultimately show ?thesis by blast
qed

text \<open>Concrete snapshots: attempt 2 of a database, before and after its first commit.\<close>

definition sample_database :: database_id where
  "sample_database = DatabaseId (1 # replicate 15 0)"

definition sample_token :: "u64 \<Rightarrow> transaction_id" where
  "sample_token n = TransactionId (id_bytes sample_database @ u64_bytes n)"

definition sample_commit :: catalog_commit where
  "sample_commit = \<lparr>generation = 1, transaction = sample_token 2,
     catalog_ref = \<lparr>ref_object = \<lparr>attempt_of = 2, ordinal_of = 2\<rparr>, ref_bytes = 192, ref_checksum = 7\<rparr>,
     successes_ref = \<lparr>ref_object = \<lparr>attempt_of = 2, ordinal_of = 1\<rparr>, ref_bytes = 72, ref_checksum = 9\<rparr>\<rparr>"

definition sample_issued :: wal_record where
  "sample_issued = \<lparr>database = sample_database, issued = 2, state = CatalogState None\<rparr>"

definition sample_committed :: wal_record where
  "sample_committed = \<lparr>database = sample_database, issued = 2, state = CatalogState (Some sample_commit)\<rparr>"

lemma sample_database_valid [simp]: "valid_database_id sample_database"
  by (simp add: sample_database_def valid_database_id_def numeral_eq_Suc)

lemma length_sample_database [simp]: "length (id_bytes sample_database) = 16"
  by (simp add: sample_database_def)

lemma sample_token_facts [simp]:
  "sequence_of (sample_token n) = n" "belongs_to (sample_token n) sample_database"
  "n \<noteq> 0 \<Longrightarrow> valid_token (sample_token n)"
  using sample_database_valid
  by (simp_all add: sample_token_def sequence_of_def belongs_to_def valid_token_def slice_def
      valid_database_id_def)

lemma sample_commit_new:
  "catalog_commit_new sample_database 1 (sample_token 2) (catalog_ref sample_commit)
     (successes_ref sample_commit) = Inr sample_commit"
  by (simp add: catalog_commit_new_def sample_commit_def root_constants checked_mul_def
      checked_add_def)

lemma sample_records_valid [simp]: "valid_record sample_issued" "valid_record sample_committed"
  using sample_commit_new
  by (simp_all add: valid_record_def sample_issued_def sample_committed_def valid_state_def
      sample_commit_def valid_object_ref_def valid_object_id_def)

theorem snapshot_records_roundtrip_witness:
  "\<exists>bytes wal. encode_root (replica_of sample_committed ReplicaB) = Inr bytes
    \<and> length bytes = root_bytes
    \<and> decode_root bytes = Inr (replica_of sample_committed ReplicaB)
    \<and> encode_wal sample_committed = Inr wal \<and> length wal = wal_bytes
    \<and> decode_wal wal = Inr sample_committed"
  by (rule snapshot_records_roundtrip) simp

section \<open>Decoders accept only well-formed records\<close>

lemma catalog_commit_new_fields:
  assumes "catalog_commit_new db gen txn catalog successes = Inr c"
  shows "generation c = gen" "transaction c = txn" "catalog_ref c = catalog" "successes_ref c = successes"
    and "gen \<noteq> 0" "gen \<le> max_successes" "gen \<le> sequence_of txn" "belongs_to txn db"
    and "unat (ref_bytes successes) = 64 + 8 * unat gen"
proof -
  from assms have neg: "\<not> (gen = 0 \<or> max_successes < gen \<or> sequence_of txn < gen \<or> \<not> belongs_to txn db
         \<or> sequence_of txn < attempt_of (ref_object catalog)
         \<or> attempt_of (ref_object successes) \<noteq> sequence_of txn
         \<or> ref_object catalog = ref_object successes
         \<or> max_catalog_bytes < ucast (ref_bytes catalog))"
    by (auto simp: catalog_commit_new_def Let_def split: if_splits)
  then show "gen \<noteq> 0" "gen \<le> max_successes" "gen \<le> sequence_of txn" "belongs_to txn db"
    by (auto simp: not_less)
  from assms neg obtain e where
      e: "Option.bind (checked_mul gen 8) (\<lambda>n. checked_add n 64) = Some e"
    and eq: "ucast (ref_bytes successes) = e"
    and c: "c = \<lparr>generation = gen, transaction = txn, catalog_ref = catalog, successes_ref = successes\<rparr>"
    by (auto simp: catalog_commit_new_def Let_def attempt_Inr_conv simp del: bind_eq_Some_conv
        split: if_splits)
  from c show "generation c = gen" "transaction c = txn" "catalog_ref c = catalog" "successes_ref c = successes"
    by simp_all
  have "unat (ucast (ref_bytes successes) :: u64) = unat gen * 8 + 64"
    using e unfolding checked_mul_add_Some eq by simp
  then show "unat (ref_bytes successes) = 64 + 8 * unat gen" by simp
qed

lemma decode_token_valid:
  "length bytes = 24 \<Longrightarrow> decode_token bytes = Inr t \<Longrightarrow> valid_token t"
  using decode_token_Inr by blast

lemma decode_catalog_valid:
  assumes "176 \<le> n" and "decode_catalog_snapshot bs n magic = Inr r"
  shows "valid_record (fence r)"
proof -
  have [simp]: "length bs = n" using assms(2)
    by (auto simp: decode_catalog_snapshot_def attempt_Inr_conv)
  from assms(2) obtain st where db: "valid_database_id (root_database r)"
    and st: "root_state r = CatalogState st"
    and some: "st = None \<or> (\<exists>txn catalog successes c gen.
        decode_token (slice bs 56 24) = Inr txn \<and> decode_ref (slice bs 128 24) = Inr catalog
        \<and> decode_ref (slice bs 152 24) = Inr successes \<and> sequence_of txn \<le> root_issued r
        \<and> catalog_commit_new (root_database r) gen txn catalog successes = Inr c \<and> st = Some c)"
    by (auto simp: decode_catalog_snapshot_def attempt_Inr_conv not_less simp del: not_None_eq
        split: if_splits) blast+
  from some have "valid_state (root_database r) (root_issued r) (CatalogState st)"
  proof
    assume "st = None"
    then show ?thesis by (simp add: valid_state_def)
  next
    assume "\<exists>txn catalog successes c gen.
        decode_token (slice bs 56 24) = Inr txn \<and> decode_ref (slice bs 128 24) = Inr catalog
        \<and> decode_ref (slice bs 152 24) = Inr successes \<and> sequence_of txn \<le> root_issued r
        \<and> catalog_commit_new (root_database r) gen txn catalog successes = Inr c \<and> st = Some c"
    then obtain txn catalog successes c gen where
        t: "decode_token (slice bs 56 24) = Inr txn" and r1: "decode_ref (slice bs 128 24) = Inr catalog"
      and r2: "decode_ref (slice bs 152 24) = Inr successes" and q: "sequence_of txn \<le> root_issued r"
      and c: "catalog_commit_new (root_database r) gen txn catalog successes = Inr c" and "st = Some c"
      by blast
    have "valid_token txn"
      using t assms(1) by (intro decode_token_valid [OF _ t]) simp
    with \<open>st = Some c\<close> show ?thesis
      using q c catalog_commit_new_fields(1-4) [OF c] decode_ref_valid [OF r1] decode_ref_valid [OF r2]
      by (simp add: valid_state_def)
  qed
  with db st show ?thesis by (simp add: valid_record_def fence_def)
qed

lemma decode_data_valid:
  assumes "176 \<le> n" and "decode_data_snapshot bs n magic = Inr r"
  shows "valid_record (fence r)"
proof -
  have len [simp]: "length bs = n" using assms(2)
    by (auto simp: decode_data_snapshot_def attempt_Inr_conv)
  from assms(2) have db: "valid_database_id (root_database r)"
    and "root_state r = EmptyState \<or> (\<exists>txn rows unit_len crc.
        decode_token (slice bs 56 24) = Inr txn
        \<and> validate_data_fields (root_database r) (root_issued r) txn rows unit_len = Inr ()
        \<and> root_state r = DataState txn rows unit_len crc)"
    by (auto simp: decode_data_snapshot_def attempt_Inr_conv split: if_splits)
  moreover have "valid_token txn" if "decode_token (slice bs 56 24) = Inr txn" for txn
    using assms(1) by (intro decode_token_valid [OF _ that]) simp
  ultimately show ?thesis
    by (auto simp: valid_record_def fence_def valid_state_def)
qed

lemma decode_snapshot_valid:
  "176 \<le> n \<Longrightarrow> decode_snapshot bs n magic = Inr r \<Longrightarrow> valid_record (fence r)"
  by (auto simp: decode_snapshot_def attempt_Inr_conv decode_catalog_valid decode_data_valid
      split: if_splits)

lemma decode_root_valid: "decode_root bs = Inr r \<Longrightarrow> valid_record (fence r)"
  by (rule decode_snapshot_valid [of root_bytes]) (simp_all add: decode_root_def root_bytes_def)

lemma decode_wal_valid: "decode_wal bs = Inr w \<Longrightarrow> valid_record w"
  using decode_snapshot_valid [of wal_bytes bs wal_magic]
  by (auto simp: decode_wal_def attempt_Inr_conv wal_bytes_def split: if_splits)

text \<open>C12: A decoder never returns an ill-formed snapshot: what \<open>decode_root\<close> or
  \<open>decode_wal\<close> accepts has a nonzero identity, a generation no later than its attempt, an
  attempt no later than the issued prefix, references of legal size, and a success history
  of exactly eight bytes per generation.\<close>

theorem decoded_snapshots_are_well_formed:
  assumes "decode_root bytes = Inr r \<or> decode_wal bytes = Inr (fence r)"
  shows "valid_record (fence r)
    \<and> (\<forall>c. root_state r = CatalogState (Some c) \<longrightarrow>
         1 \<le> unat (generation c) \<and> generation c \<le> sequence_of (transaction c)
         \<and> sequence_of (transaction c) \<le> root_issued r
         \<and> belongs_to (transaction c) (root_database r)
         \<and> unat (ref_bytes (successes_ref c)) = 64 + 8 * unat (generation c))"
proof -
  have v: "valid_record (fence r)"
    using assms decode_root_valid decode_wal_valid by blast
  moreover have "1 \<le> unat (generation c) \<and> generation c \<le> sequence_of (transaction c)
         \<and> sequence_of (transaction c) \<le> root_issued r
         \<and> belongs_to (transaction c) (root_database r)
         \<and> unat (ref_bytes (successes_ref c)) = 64 + 8 * unat (generation c)"
    if "root_state r = CatalogState (Some c)" for c
  proof -
    have new: "catalog_commit_new (root_database r) (generation c) (transaction c) (catalog_ref c)
        (successes_ref c) = Inr c" and "sequence_of (transaction c) \<le> root_issued r"
      using v that by (simp_all add: valid_record_def valid_state_def fence_def)
    with catalog_commit_new_fields [OF new] show ?thesis
      by (simp add: Suc_le_eq unat_gt_0)
  qed
  ultimately show ?thesis by blast
qed

theorem decoded_snapshots_are_well_formed_witness:
  "\<exists>r bytes. decode_root bytes = Inr r \<and> valid_record (fence r) \<and> root_state r \<noteq> EmptyState"
proof -
  obtain bytes where d: "decode_root bytes = Inr (replica_of sample_committed ReplicaA)"
    using root_roundtrip [OF sample_records_valid(2)] by blast
  with decoded_snapshots_are_well_formed [of bytes "replica_of sample_committed ReplicaA"]
  have "valid_record (fence (replica_of sample_committed ReplicaA))" by blast
  with d show ?thesis
    by (intro exI [of _ "replica_of sample_committed ReplicaA"] exI [of _ bytes])
      (simp add: sample_committed_def)
qed

section \<open>CONTROL\<close>

lemma control_body_fields:
  fixes db version
  assumes "length (id_bytes db) = 16"
  defines "b \<equiv> put (put_u32 (put_u32 (put (replicate control_bytes 0) 0 control_magic) 8 version) 12
      (word_of_nat control_bytes)) 16 (id_bytes db)"
  shows "length b = 128" and "slice b 0 8 = control_magic" and "slice b 8 4 = u32_bytes version"
    and "slice b 12 4 = u32_bytes (word_of_nat control_bytes)" and "slice b 16 16 = id_bytes db"
    and "slice b 32 4 = replicate 4 0" and "slice b 36 4 = replicate 4 0"
    and "drop 40 b = replicate 88 0"
  using assms(1) by (simp_all add: b_def put_u32_def byte_simps control_bytes_def)

lemma control_seal_fields:
  assumes "length b = 128"
  shows "length (put_u32 b 36 c) = 128" and "off + n \<le> 36 \<Longrightarrow> slice (put_u32 b 36 c) off n = slice b off n"
    and "drop 40 (put_u32 b 36 c) = drop 40 b"
  using assms by (simp_all add: put_u32_def byte_simps)

lemma decode_control_fields:
  assumes "length bs = control_bytes" and "slice bs 0 8 = control_magic"
    and "slice bs 8 4 = u32_bytes version"
    and "slice bs 12 4 = u32_bytes (word_of_nat control_bytes)"
    and "slice bs 16 16 = id_bytes db" and "slice bs 32 4 = replicate 4 0"
    and "drop 40 bs = replicate 88 0" and "require_checksum bs 36 = Inr ()"
    and "valid_database_id db" and "version = catalog_format_version \<or> version = format_version"
  shows "decode_control bs = Inr db"
proof -
  have "read_u32 bs 8 = Inr version" and "read_u32 bs 12 = Inr (word_of_nat control_bytes)"
    using assms(1,3,4) by (simp_all add: read_u32_def control_bytes_def)
  then show ?thesis
    using assms(1,2,5-9) assms(10)
    by (auto simp add: decode_control_def require_length_def take_slice require_version_length_def
        valid_database_id_slice)
qed

lemma control_roundtrip_version:
  assumes "valid_database_id db" and "version = catalog_format_version \<or> version = format_version"
  shows "decode_control (encode_control_version db version) = Inr db"
proof -
  define b where "b = put (put_u32 (put_u32 (put (replicate control_bytes 0) 0 control_magic) 8
      version) 12 (word_of_nat control_bytes)) 16 (id_bytes db)"
  have id: "length (id_bytes db) = 16" using assms(1) by (simp add: valid_database_id_def)
  note body = control_body_fields [OF id, of version, folded b_def]
  note sealed = control_seal_fields [OF body(1)]
  have "require_checksum (put_u32 b 36 (crc32c b)) 36 = Inr ()"
    using body by (intro require_checksum_put) simp_all
  then have "decode_control (put_u32 b 36 (crc32c b)) = Inr db"
    using assms by (intro decode_control_fields) (simp_all add: sealed body control_bytes_def)
  then show ?thesis by (simp add: encode_control_version_def Let_def b_def)
qed

lemma decode_control_version:
  "decode_control bytes = Inr db \<Longrightarrow>
     read_u32 bytes 8 = Inr format_version \<or> read_u32 bytes 8 = Inr catalog_format_version"
  by (auto simp: decode_control_def attempt_Inr_conv require_version_length_def split: if_splits)

text \<open>C13: CONTROL round trips for both supported versions, and no other version decodes.\<close>

theorem control_roundtrip:
  assumes "valid_database_id db"
  shows "decode_control (encode_control db) = Inr db
    \<and> decode_control (encode_catalog_control db) = Inr db
    \<and> (\<forall>bytes. decode_control bytes = Inr db \<longrightarrow>
         read_u32 bytes 8 = Inr format_version \<or> read_u32 bytes 8 = Inr catalog_format_version)"
  using assms decode_control_version
  by (simp add: encode_control_def encode_catalog_control_def control_roundtrip_version)

theorem control_roundtrip_witness:
  "decode_control (encode_catalog_control sample_database) = Inr sample_database"
  using control_roundtrip [OF sample_database_valid] by blast

end
