(* ===== verification/Selection.thy ===== *)
theory Selection
  imports Root_Codec
begin

text \<open>
  The publication steps and recovery's choice of a snapshot (src/storage/format.rs,
  \<open>transition_from\<close> and \<open>select_snapshot\<close>): a step always moves the history forward, and
  the choice never discards what an intact root committed.
\<close>

section \<open>Steps move forward\<close>

definition state_generation :: "root_state \<Rightarrow> nat" where
  "state_generation st = (case st of
     CatalogState c \<Rightarrow> unat (commit_generation c) | EmptyState \<Rightarrow> 0 | DataState _ _ _ _ \<Rightarrow> 1)"

definition snapshot_rank :: "wal_record \<Rightarrow> nat \<times> nat" where
  "snapshot_rank w = (unat (issued w), state_generation (state w))"

definition rank_before :: "nat \<times> nat \<Rightarrow> nat \<times> nat \<Rightarrow> bool" where
  "rank_before a b \<longleftrightarrow> fst a < fst b \<or> fst a = fst b \<and> snd a < snd b"

lemma checked_add_one_eq: "checked_add a 1 = Some b \<longleftrightarrow> unat b = Suc (unat a)"
proof -
  have "unat b < 2 ^ 64" using unat_u64_less [of b] by simp
  then show ?thesis unfolding checked_add_Some by (auto simp del: unat_u64_less)
qed

lemma issuance_step:
  "transition_from new old = Some Issuance \<longleftrightarrow>
     database new = database old \<and> unat (issued new) = Suc (unat (issued old)) \<and> state new = state old"
  by (auto simp: transition_from_def Let_def checked_add_one_eq)

lemma commit_step:
  assumes "transition_from new old = Some Commit"
  shows "database new = database old" and "issued new = issued old"
    and "state_generation (state new) = Suc (state_generation (state old))"
  using assms
  by (auto simp: transition_from_def Let_def state_generation_def checked_add_one_eq
      commit_generation_def split: if_splits root_state.splits option.splits)

lemma step_cases:
  assumes "succeeds new old"
  obtains "transition_from new old = Some Issuance" | "transition_from new old = Some Commit"
  using assms unfolding succeeds_def by (metis option.exhaust publication_kind.exhaust)

lemma succeeds_rank: "succeeds new old \<Longrightarrow> rank_before (snapshot_rank old) (snapshot_rank new)"
  by (elim step_cases)
    (auto simp: issuance_step rank_before_def snapshot_rank_def dest: commit_step)

lemma succeeds_database: "succeeds new old \<Longrightarrow> database new = database old"
  by (elim step_cases) (auto simp: issuance_step dest: commit_step)

lemma rank_before_irrefl [simp]: "\<not> rank_before a a"
  by (simp add: rank_before_def)

lemma succeeds_irrefl [simp]: "\<not> succeeds w w"
  using succeeds_rank [of w w] by auto

lemma succeeds_asym: "succeeds a b \<Longrightarrow> \<not> succeeds b a"
  using succeeds_rank [of a b] succeeds_rank [of b a] by (auto simp: rank_before_def)

lemma commit_transaction:
  assumes "transition_from new old = Some Commit" and "state new = CatalogState (Some c)"
  shows "sequence_of (transaction c) = issued old"
    and "state old = CatalogState (Some p) \<Longrightarrow> sequence_of (transaction p) < issued old"
    and "\<exists>prior. state old = CatalogState prior"
  using assms by (auto simp: transition_from_def Let_def split: if_splits root_state.splits)

text \<open>C14: Every publication step moves the database forward. It keeps the identity, and
  either issues exactly one attempt leaving the committed state alone, or keeps the issued
  prefix and commits exactly the next generation under the latest attempt, which no earlier
  commit used. So no step can be undone by another, and an attempt commits at most once.\<close>

theorem publication_steps_advance:
  assumes "succeeds new old"
  shows "database new = database old
    \<and> rank_before (snapshot_rank old) (snapshot_rank new) \<and> \<not> succeeds old new
    \<and> (transition_from new old = Some Issuance \<and> state new = state old
          \<and> unat (issued new) = Suc (unat (issued old))
       \<or> transition_from new old = Some Commit \<and> issued new = issued old
          \<and> state_generation (state new) = Suc (state_generation (state old))
          \<and> (\<forall>c. state new = CatalogState (Some c) \<longrightarrow>
               sequence_of (transaction c) = issued old
               \<and> (\<forall>p. state old = CatalogState (Some p) \<longrightarrow>
                    sequence_of (transaction p) < issued old)))"
proof -
  have "transition_from new old = Some Issuance \<and> state new = state old
          \<and> unat (issued new) = Suc (unat (issued old))
       \<or> transition_from new old = Some Commit \<and> issued new = issued old
          \<and> state_generation (state new) = Suc (state_generation (state old))
          \<and> (\<forall>c. state new = CatalogState (Some c) \<longrightarrow>
               sequence_of (transaction c) = issued old
               \<and> (\<forall>p. state old = CatalogState (Some p) \<longrightarrow>
                    sequence_of (transaction p) < issued old))"
    using assms by (elim step_cases) (auto simp: issuance_step dest: commit_step commit_transaction)
  then show ?thesis
    using assms succeeds_database succeeds_rank succeeds_asym by blast
qed

lemma sample_commit_succeeds: "succeeds sample_committed sample_issued"
  by (simp add: succeeds_def transition_from_def sample_committed_def sample_issued_def Let_def
      sample_commit_def commit_generation_def checked_add_def)

theorem publication_steps_advance_witness:
  "succeeds sample_committed sample_issued \<and> \<not> succeeds sample_issued sample_committed"
  using publication_steps_advance [OF sample_commit_succeeds] sample_commit_succeeds by simp

section \<open>Recovery's choice\<close>

fun other_replica :: "replica \<Rightarrow> replica" where
  "other_replica ReplicaA = ReplicaB"
| "other_replica ReplicaB = ReplicaA"

lemma select_snapshot_Inr:
  "select_snapshot a b wal = Inr (s, repair) \<longleftrightarrow>
     select_roots a b wal = Some (s, repair) \<and> (\<forall>f. wal = Some f \<longrightarrow> f = s \<or> succeeds f s)"
  by (cases wal) (auto simp: select_snapshot_def attempt_Inr_conv split: if_splits)

lemma select_roots_cases:
  assumes "select_roots a b wal = Some (s, repair)"
  obtains ra rb where "a = Some ra" "b = Some rb" "fence ra = s" "fence rb = s" "repair = None"
  | ra rb where "a = Some ra" "b = Some rb" "fence ra = s" "succeeds s (fence rb)" "repair = Some ReplicaB"
  | ra rb where "a = Some ra" "b = Some rb" "fence rb = s" "succeeds s (fence ra)" "repair = Some ReplicaA"
  | ra where "a = Some ra" "b = None" "fence ra = s" "wal = Some s" "repair = Some ReplicaB"
  | rb where "a = None" "b = Some rb" "fence rb = s" "wal = Some s" "repair = Some ReplicaA"
  using assms by (auto simp: select_roots_def split: option.splits if_splits)

lemma select_roots_swap:
  "select_roots b a wal = map_option (\<lambda>(s, rep). (s, map_option other_replica rep)) (select_roots a b wal)"
  by (auto simp: select_roots_def dest: succeeds_asym split: option.splits)

text \<open>C4: Recovery's choice is safe, and it is made whenever it is safe. A snapshot is selected
  exactly when an intact root holds it; every intact root is the selection or one publication
  step behind it, so no committed snapshot an intact root holds is discarded; an intact WAL
  is the selection or one step ahead; and, where a root is missing or damaged, the WAL is there
  and agrees with the other one, so a root that survived from before the last commit is refused.
  A replica is repaired exactly when it does not already hold the selection, the other
  replica always does, and the choice does not depend on which file is called A.\<close>

theorem selection_is_safe:
  "(select_snapshot a b wal = Inr (s, repair) \<longleftrightarrow>
      (\<exists>r. (a = Some r \<or> b = Some r) \<and> fence r = s)
      \<and> (\<forall>r. a = Some r \<or> b = Some r \<longrightarrow> fence r = s \<or> succeeds s (fence r))
      \<and> (\<forall>f. wal = Some f \<longrightarrow> f = s \<or> succeeds f s)
      \<and> (a = None \<or> b = None \<longrightarrow> wal = Some s)
      \<and> (repair = Some ReplicaA \<longleftrightarrow> map_option fence a \<noteq> Some s)
      \<and> (repair = Some ReplicaB \<longleftrightarrow> map_option fence b \<noteq> Some s))
   \<and> (select_snapshot a b wal = Inr (s, repair) \<longrightarrow>
        select_snapshot b a wal = Inr (s, map_option other_replica repair))"
proof -
  let ?safe = "(\<exists>r. (a = Some r \<or> b = Some r) \<and> fence r = s)
      \<and> (\<forall>r. a = Some r \<or> b = Some r \<longrightarrow> fence r = s \<or> succeeds s (fence r))
      \<and> (\<forall>f. wal = Some f \<longrightarrow> f = s \<or> succeeds f s)
      \<and> (a = None \<or> b = None \<longrightarrow> wal = Some s)
      \<and> (repair = Some ReplicaA \<longleftrightarrow> map_option fence a \<noteq> Some s)
      \<and> (repair = Some ReplicaB \<longleftrightarrow> map_option fence b \<noteq> Some s)"
  have swap: "select_snapshot b a wal = Inr (s, map_option other_replica repair)" and chosen: ?safe
    if "select_snapshot a b wal = Inr (s, repair)"
  proof -
    have sel: "select_roots a b wal = Some (s, repair)"
      and wal: "\<forall>f. wal = Some f \<longrightarrow> f = s \<or> succeeds f s"
      using that by (simp_all add: select_snapshot_Inr)
    then show "select_snapshot b a wal = Inr (s, map_option other_replica repair)"
      by (simp add: select_snapshot_Inr select_roots_swap [of b a])
    from sel show ?safe by (cases rule: select_roots_cases) (use wal in auto)
  qed
  have "select_snapshot a b wal = Inr (s, repair)" if safe: ?safe
  proof -
    have "repair = None \<or> repair = Some ReplicaA \<or> repair = Some ReplicaB"
      by (metis option.exhaust replica.exhaust)
    with safe have "select_roots a b wal = Some (s, repair)"
      by (cases a; cases b) (auto simp: select_roots_def dest: succeeds_asym)
    with safe show ?thesis by (simp add: select_snapshot_Inr)
  qed
  with swap chosen show ?thesis by blast
qed

text \<open>The selection of an interrupted publication, and the refusal of a root left over from before it.\<close>

theorem selection_is_safe_witness:
  "select_snapshot (Some (replica_of sample_issued ReplicaB)) (Some (replica_of sample_committed ReplicaA))
     (Some sample_committed) = Inr (sample_committed, Some ReplicaA)
   \<and> (\<forall>s repair. select_snapshot (Some (replica_of sample_issued ReplicaA)) None (Some sample_committed) \<noteq> Inr (s, repair))"
proof
  have "select_snapshot (Some (replica_of sample_committed ReplicaA))
      (Some (replica_of sample_issued ReplicaB)) (Some sample_committed)
    = Inr (sample_committed, Some ReplicaB)"
    using sample_commit_succeeds
    by (auto simp: select_snapshot_Inr select_roots_def)
  then show "select_snapshot (Some (replica_of sample_issued ReplicaB)) (Some (replica_of sample_committed ReplicaA))
     (Some sample_committed) = Inr (sample_committed, Some ReplicaA)"
    using selection_is_safe [of "Some (replica_of sample_committed ReplicaA)" "Some (replica_of sample_issued ReplicaB)"
        "Some sample_committed" sample_committed "Some ReplicaB"] by simp
  have "sample_issued \<noteq> sample_committed" using sample_commit_succeeds succeeds_irrefl [of sample_issued] by auto
  then show "\<forall>s repair. select_snapshot (Some (replica_of sample_issued ReplicaA)) None (Some sample_committed) \<noteq> Inr (s, repair)"
    by (auto simp: selection_is_safe)
qed

text \<open>What selection returns for the record pairs an interrupted publication leaves.\<close>

lemma select_both:
  assumes "\<forall>f. wal = Some f \<longrightarrow> f = s \<or> succeeds f s"
  shows "select_snapshot (Some (replica_of s ra)) (Some (replica_of s rb)) wal = Inr (s, None)"
  using assms by (simp add: select_snapshot_Inr select_roots_def)

lemma select_ahead:
  assumes "succeeds s old" and "\<forall>f. wal = Some f \<longrightarrow> f = s \<or> succeeds f s"
  shows "select_snapshot (Some (replica_of s ra)) (Some (replica_of old rb)) wal = Inr (s, Some ReplicaB)"
    and "select_snapshot (Some (replica_of old ra)) (Some (replica_of s rb)) wal = Inr (s, Some ReplicaA)"
  using assms succeeds_asym [OF assms(1)] succeeds_irrefl [of s]
  by (auto simp: select_snapshot_Inr select_roots_def)

end
