(* ===== verification/Disk.thy ===== *)
theory Disk
  imports Errors Selection
begin

text \<open>
  The files one database's commit records live in, as the storage code uses them: a file is
  every content it has had since it was last synchronized, a name is what it shows now and
  what the last directory synchronization fixed, and a crash keeps, byte by byte, any of the
  former and, name by name, either of the latter. Programs are functions of a host whose
  script decides how each call fares, and where the process stops.
\<close>

section \<open>Files and names\<close>

record disk_file =
  contents :: "u8 list list"

definition current :: "disk_file \<Rightarrow> u8 list" where
  "current f = hd (contents f)"

definition synced_file :: "u8 list \<Rightarrow> disk_file" where
  "synced_file bytes = \<lparr>contents = [bytes]\<rparr>"

definition sync_file :: "disk_file \<Rightarrow> disk_file" where
  "sync_file f = synced_file (current f)"

text \<open>A write from offset zero; what lies beyond it stays.\<close>

definition write_file :: "u8 list \<Rightarrow> disk_file \<Rightarrow> disk_file" where
  "write_file bytes f =
     f\<lparr>contents := (bytes @ drop (length bytes) (current f)) # contents f\<rparr>"

text \<open>
  A content that can be found after a crash: each byte comes from one of the contents not
  yet superseded by a synchronization, or is a zero where one of them had not reached.
\<close>

definition torn :: "u8 list list \<Rightarrow> u8 list \<Rightarrow> bool" where
  "torn cs img \<longleftrightarrow>
     (\<exists>c\<in>set cs. length img \<le> length c) \<and> (\<exists>c\<in>set cs. length c \<le> length img)
     \<and> (\<forall>i < length img. \<exists>c\<in>set cs.
          i < length c \<and> img ! i = c ! i \<or> length c \<le> i \<and> img ! i = 0)"

record entry =
  visible :: "disk_file option"
  durable :: "disk_file option"

definition settled_entry :: "disk_file option \<Rightarrow> entry" where
  "settled_entry f = \<lparr>visible = f, durable = f\<rparr>"

definition sync_entry :: "entry \<Rightarrow> entry" where
  "sync_entry e = settled_entry (visible e)"

fun crash_file :: "disk_file option \<Rightarrow> disk_file option \<Rightarrow> bool" where
  "crash_file None img \<longleftrightarrow> img = None"
| "crash_file (Some f) img \<longleftrightarrow> (\<exists>bytes. img = Some (synced_file bytes) \<and> torn (contents f) bytes)"

definition crash_entry :: "entry \<Rightarrow> entry \<Rightarrow> bool" where
  "crash_entry e e' \<longleftrightarrow> (\<exists>f. (f = visible e \<or> f = durable e)
     \<and> (\<exists>img. crash_file f img \<and> e' = settled_entry img))"

record store =
  control_file :: "u8 list"
  wal_file :: disk_file
  root_entry :: "replica \<Rightarrow> entry"
  next_entry :: "replica \<Rightarrow> entry"

definition crash :: "store \<Rightarrow> store \<Rightarrow> bool" where
  "crash d d' \<longleftrightarrow> control_file d' = control_file d
     \<and> crash_file (Some (wal_file d)) (Some (wal_file d'))
     \<and> (\<forall>r. crash_entry (root_entry d r) (root_entry d' r))
     \<and> (\<forall>r. crash_entry (next_entry d r) (next_entry d' r))"

section \<open>Programs over the host\<close>

text \<open>
  How one call fares: it works, it is refused without effect, or it takes effect in part
  (for a write, a prefix; for any other call, all of it) and still reports failure. A
  cancellation check is refused when another thread has set the token. Where the script
  ends the process stops.
\<close>

datatype outcome = Done | Refused | Partial nat

record host =
  disk :: store
  script :: "outcome list"

datatype ('e, 'a) result = Returned 'a | Raised 'e | Interrupted

type_synonym ('e, 'a) program = "host \<Rightarrow> ('e, 'a) result \<times> host"

definition return :: "'a \<Rightarrow> ('e, 'a) program" where
  "return x h = (Returned x, h)"

definition raise :: "'e \<Rightarrow> ('e, 'a) program" where
  "raise e h = (Raised e, h)"

definition andthen :: "('e, 'a) program \<Rightarrow> ('a \<Rightarrow> ('e, 'b) program) \<Rightarrow> ('e, 'b) program" where
  "andthen m k h =
     (case m h of
        (Returned x, h') \<Rightarrow> k x h'
      | (Raised e, h') \<Rightarrow> (Raised e, h')
      | (Interrupted, h') \<Rightarrow> (Interrupted, h'))"

definition lift :: "'e + 'a \<Rightarrow> ('e, 'a) program" where
  "lift r = (case r of Inl e \<Rightarrow> raise e | Inr x \<Rightarrow> return x)"

definition raising :: "('e \<Rightarrow> 'f) \<Rightarrow> ('e, 'a) program \<Rightarrow> ('f, 'a) program" where
  "raising g m h =
     (case m h of
        (Returned x, h') \<Rightarrow> (Returned x, h')
      | (Raised e, h') \<Rightarrow> (Raised (g e), h')
      | (Interrupted, h') \<Rightarrow> (Interrupted, h'))"

definition asking :: "(store \<Rightarrow> 'a) \<Rightarrow> ('e, 'a) program" where
  "asking q h = (Returned (q (disk h)), h)"

text \<open>A call that changes the disk by \<open>f\<close>, or by \<open>part n\<close> when it fails partway.\<close>

definition host_call ::
  "'e \<Rightarrow> (store \<Rightarrow> store) \<Rightarrow> (nat \<Rightarrow> store \<Rightarrow> store) \<Rightarrow> ('e, unit) program" where
  "host_call e f part h =
     (case script h of
        [] \<Rightarrow> (Interrupted, h)
      | Done # rest \<Rightarrow> (Returned (), h\<lparr>disk := f (disk h), script := rest\<rparr>)
      | Refused # rest \<Rightarrow> (Raised e, h\<lparr>script := rest\<rparr>)
      | Partial n # rest \<Rightarrow> (Raised e, h\<lparr>disk := part n (disk h), script := rest\<rparr>))"

definition host_step :: "string \<Rightarrow> (store \<Rightarrow> store) \<Rightarrow> (db_error, unit) program" where
  "host_step name f = host_call (IoError name) f (\<lambda>_. f)"

definition host_check :: "string \<Rightarrow> (db_error, unit) program" where
  "host_check name = host_step name (\<lambda>d. d)"

definition cancel_check :: "(db_error, unit) program" where
  "cancel_check = host_call Cancelled (\<lambda>d. d) (\<lambda>_ d. d)"

definition host_write :: "string \<Rightarrow> (u8 list \<Rightarrow> store \<Rightarrow> store) \<Rightarrow> u8 list \<Rightarrow> (db_error, unit) program" where
  "host_write name f bytes = host_call (IoError name) (f bytes) (\<lambda>n. f (take n bytes))"

section \<open>Reasoning about programs\<close>

text \<open>
  \<open>keeps P m Q E\<close>: from a disk satisfying \<open>P\<close>, whatever the script, \<open>m\<close> returns \<open>x\<close> on a disk
  satisfying \<open>Q x\<close>, fails with \<open>e\<close> on one satisfying \<open>E (Some e)\<close>, or is stopped on one
  satisfying \<open>E None\<close>.
\<close>

fun ends :: "('a \<Rightarrow> store \<Rightarrow> bool) \<Rightarrow> ('e option \<Rightarrow> store \<Rightarrow> bool) \<Rightarrow> ('e, 'a) result \<times> host \<Rightarrow> bool" where
  "ends Q E (Returned x, h) \<longleftrightarrow> Q x (disk h)"
| "ends Q E (Raised e, h) \<longleftrightarrow> E (Some e) (disk h)"
| "ends Q E (Interrupted, h) \<longleftrightarrow> E None (disk h)"

definition keeps ::
  "(store \<Rightarrow> bool) \<Rightarrow> ('e, 'a) program \<Rightarrow> ('a \<Rightarrow> store \<Rightarrow> bool) \<Rightarrow> ('e option \<Rightarrow> store \<Rightarrow> bool) \<Rightarrow> bool" where
  "keeps P m Q E \<longleftrightarrow> (\<forall>h. P (disk h) \<longrightarrow> ends Q E (m h))"

lemma keepsD: "keeps P m Q E \<Longrightarrow> P (disk h) \<Longrightarrow> ends Q E (m h)"
  by (simp add: keeps_def)

lemma keeps_return: "(\<And>d. P d \<Longrightarrow> Q x d) \<Longrightarrow> keeps P (return x) Q E"
  by (simp add: keeps_def return_def)

lemma keeps_raise: "(\<And>d. P d \<Longrightarrow> E (Some e) d) \<Longrightarrow> keeps P (raise e) Q E"
  by (simp add: keeps_def raise_def)

lemma keeps_asking: "(\<And>d. P d \<Longrightarrow> Q (q d) d) \<Longrightarrow> keeps P (asking q) Q E"
  by (simp add: keeps_def asking_def)

lemma keeps_andthen:
  assumes "keeps P m R E" and "\<And>x. keeps (R x) (k x) Q E"
  shows "keeps P (andthen m k) Q E"
  unfolding keeps_def
proof (intro allI impI)
  fix h :: host assume "P (disk h)"
  with assms(1) have "ends R E (m h)" by (rule keepsD)
  then show "ends Q E (andthen m k h)"
    using assms(2) unfolding andthen_def keeps_def
    by (auto split: prod.splits result.splits)
qed

lemma keeps_lift:
  "(\<And>d x. P d \<Longrightarrow> r = Inr x \<Longrightarrow> Q x d) \<Longrightarrow> (\<And>d e. P d \<Longrightarrow> r = Inl e \<Longrightarrow> E (Some e) d) \<Longrightarrow>
     keeps P (lift r) Q E"
  by (cases r) (auto simp: lift_def intro!: keeps_return keeps_raise)

lemma keeps_raising: "keeps P m Q (\<lambda>e. E (map_option g e)) \<Longrightarrow> keeps P (raising g m) Q E"
  unfolding keeps_def
proof (intro allI impI)
  fix h :: host
  assume "\<forall>h. P (disk h) \<longrightarrow> ends Q (\<lambda>e. E (map_option g e)) (m h)" and "P (disk h)"
  then have "ends Q (\<lambda>e. E (map_option g e)) (m h)" by blast
  then show "ends Q E (raising g m h)"
    by (auto simp: raising_def split: prod.splits result.splits)
qed

lemma keeps_host_call:
  assumes "\<And>d. P d \<Longrightarrow> Q () (f d)" and "\<And>d x. P d \<Longrightarrow> E x d" and "\<And>d n x. P d \<Longrightarrow> E x (part n d)"
  shows "keeps P (host_call e f part) Q E"
  using assms by (auto simp: keeps_def host_call_def split: list.splits outcome.splits)

lemma keeps_host_step:
  "(\<And>d. P d \<Longrightarrow> Q () (f d)) \<Longrightarrow> (\<And>d x. P d \<Longrightarrow> E x d) \<Longrightarrow> (\<And>d x. P d \<Longrightarrow> E x (f d)) \<Longrightarrow>
     keeps P (host_step name f) Q E"
  unfolding host_step_def by (rule keeps_host_call)

lemma keeps_host_check:
  "(\<And>d x. P d \<Longrightarrow> E x d) \<Longrightarrow> keeps P (host_check name) (\<lambda>_. P) E"
  unfolding host_check_def by (rule keeps_host_step) auto

lemma keeps_cancel_check: "(\<And>d x. P d \<Longrightarrow> E x d) \<Longrightarrow> keeps P cancel_check (\<lambda>_. P) E"
  unfolding cancel_check_def by (rule keeps_host_call) auto

lemma keeps_host_write:
  "(\<And>d. P d \<Longrightarrow> Q () (f bytes d)) \<Longrightarrow> (\<And>d x. P d \<Longrightarrow> E x d) \<Longrightarrow>
   (\<And>d n x. P d \<Longrightarrow> E x (f (take n bytes) d)) \<Longrightarrow> keeps P (host_write name f bytes) Q E"
  unfolding host_write_def by (rule keeps_host_call)

lemma ends_mono:
  "ends Q E r \<Longrightarrow> (\<And>x d. Q x d \<Longrightarrow> Q' x d) \<Longrightarrow> (\<And>x d. E x d \<Longrightarrow> E' x d) \<Longrightarrow> ends Q' E' r"
  by (cases "(Q, E, r)" rule: ends.cases) auto

lemma keeps_weaken:
  "keeps P m Q E \<Longrightarrow> (\<And>d. P' d \<Longrightarrow> P d) \<Longrightarrow> (\<And>x d. Q x d \<Longrightarrow> Q' x d) \<Longrightarrow>
   (\<And>x d. E x d \<Longrightarrow> E' x d) \<Longrightarrow> keeps P' m Q' E'"
  unfolding keeps_def by (blast intro: ends_mono)

lemma keeps_if:
  "(c \<Longrightarrow> keeps P m Q E) \<Longrightarrow> (\<not> c \<Longrightarrow> keeps P m' Q E) \<Longrightarrow> keeps P (if c then m else m') Q E"
  by simp

text \<open>
  \<open>finishes k P m Q\<close>: when no call fails, \<open>m\<close> returns after at most \<open>k\<close> calls.
\<close>

definition finishes ::
  "nat \<Rightarrow> (store \<Rightarrow> bool) \<Rightarrow> ('e, 'a) program \<Rightarrow> ('a \<Rightarrow> store \<Rightarrow> bool) \<Rightarrow> bool" where
  "finishes k P m Q \<longleftrightarrow> (\<forall>d n. P d \<longrightarrow>
     (\<exists>x d' j. j \<le> k \<and> Q x d'
        \<and> m \<lparr>disk = d, script = replicate (k + n) Done\<rparr>
            = (Returned x, \<lparr>disk = d', script = replicate (j + n) Done\<rparr>)))"

lemma finishes_weaken:
  assumes "finishes k P m Q" and "\<And>d. P' d \<Longrightarrow> P d" and "\<And>x d. Q x d \<Longrightarrow> Q' x d"
  shows "finishes k P' m Q'"
  using assms unfolding finishes_def by blast

lemma finishes_return [intro]: "(\<And>d. P d \<Longrightarrow> Q x d) \<Longrightarrow> finishes 0 P (return x) Q"
  by (auto simp: finishes_def return_def)

lemma finishes_asking [intro]: "(\<And>d. P d \<Longrightarrow> Q (q d) d) \<Longrightarrow> finishes 0 P (asking q) Q"
  by (auto simp: finishes_def asking_def)

lemma finishes_lift: "r = Inr x \<Longrightarrow> (\<And>d. P d \<Longrightarrow> Q x d) \<Longrightarrow> finishes 0 P (lift r) Q"
  by (simp add: lift_def finishes_return)

lemma finishes_host_call:
  "(\<And>d. P d \<Longrightarrow> Q () (f d)) \<Longrightarrow> finishes 1 P (host_call e f part) Q"
  unfolding finishes_def host_call_def
  by (intro allI impI exI conjI [OF _ conjI]) (auto intro: exI [of _ "0::nat"])

lemma finishes_andthen:
  assumes "finishes k P m R" and "\<And>x. finishes k' (R x) (f x) Q"
  shows "finishes (k + k') P (andthen m f) Q"
  unfolding finishes_def
proof (intro allI impI)
  fix d n assume "P d"
  with assms(1) obtain x d' j where j: "j \<le> k" and R: "R x d'"
    and m: "m \<lparr>disk = d, script = replicate (k + (k' + n)) Done\<rparr>
              = (Returned x, \<lparr>disk = d', script = replicate (j + (k' + n)) Done\<rparr>)"
    unfolding finishes_def by meson
  from assms(2) [of x] R obtain y d'' i where i: "i \<le> k'" and Q: "Q y d''"
    and f: "f x \<lparr>disk = d', script = replicate (k' + (j + n)) Done\<rparr>
              = (Returned y, \<lparr>disk = d'', script = replicate (i + (j + n)) Done\<rparr>)"
    unfolding finishes_def by meson
  have "andthen m f \<lparr>disk = d, script = replicate (k + k' + n) Done\<rparr>
      = (Returned y, \<lparr>disk = d'', script = replicate (i + j + n) Done\<rparr>)"
    using m f by (simp add: andthen_def ac_simps)
  with i j Q show "\<exists>x d' j. j \<le> k + k' \<and> Q x d'
      \<and> andthen m f \<lparr>disk = d, script = replicate (k + k' + n) Done\<rparr>
          = (Returned x, \<lparr>disk = d', script = replicate (j + n) Done\<rparr>)"
    by (intro exI [of _ y] exI [of _ d''] exI [of _ "i + j"]) simp
qed

lemma raising_Returned: "m h = (Returned x, h') \<Longrightarrow> raising g m h = (Returned x, h')"
  by (simp add: raising_def)

lemma finishes_raising: "finishes k P m Q \<Longrightarrow> finishes k P (raising g m) Q"
  unfolding finishes_def by (meson raising_Returned)

end
