(* ===== verification/Publication.thy ===== *)
theory Publication
  imports Disk
begin

text \<open>
  Committing a snapshot (src/storage/publication.rs) and recovering after an interruption
  (src/storage/recovery.rs): the WAL is rewritten first, then each root is replaced through
  its own \<open>.next\<close> file; recovery reads the three records, chooses, and repairs.
\<close>

section \<open>Changes to the disk\<close>

definition put_wal :: "u8 list \<Rightarrow> store \<Rightarrow> store" where
  "put_wal bytes d = d\<lparr>wal_file := write_file bytes (wal_file d)\<rparr>"

definition sync_wal :: "store \<Rightarrow> store" where
  "sync_wal d = d\<lparr>wal_file := sync_file (wal_file d)\<rparr>"

definition show_next :: "replica \<Rightarrow> (disk_file option \<Rightarrow> disk_file option) \<Rightarrow> store \<Rightarrow> store" where
  "show_next r f d = d\<lparr>next_entry := (next_entry d)
     (r := (next_entry d r)\<lparr>visible := f (visible (next_entry d r))\<rparr>)\<rparr>"

definition create_next :: "replica \<Rightarrow> store \<Rightarrow> store" where
  "create_next r = show_next r (\<lambda>_. Some (synced_file []))"

definition put_next :: "replica \<Rightarrow> u8 list \<Rightarrow> store \<Rightarrow> store" where
  "put_next r bytes = show_next r (map_option (write_file bytes))"

definition sync_next :: "replica \<Rightarrow> store \<Rightarrow> store" where
  "sync_next r = show_next r (map_option sync_file)"

definition remove_next :: "replica \<Rightarrow> store \<Rightarrow> store" where
  "remove_next r = show_next r (\<lambda>_. None)"

definition rename_next :: "replica \<Rightarrow> store \<Rightarrow> store" where
  "rename_next r d = remove_next r (d\<lparr>root_entry := (root_entry d)
     (r := (root_entry d r)\<lparr>visible := visible (next_entry d r)\<rparr>)\<rparr>)"

definition sync_database :: "store \<Rightarrow> store" where
  "sync_database d = d\<lparr>root_entry := (\<lambda>r. sync_entry (root_entry d r)),
                       next_entry := (\<lambda>r. sync_entry (next_entry d r))\<rparr>"

definition next_bytes :: "replica \<Rightarrow> store \<Rightarrow> u8 list" where
  "next_bytes r d = (case visible (next_entry d r) of None \<Rightarrow> [] | Some f \<Rightarrow> current f)"

definition sync_directory :: "(db_error, unit) program" where
  "sync_directory = andthen (host_check ''open directory'') (\<lambda>_.
     host_step ''sync directory'' sync_database)"

definition create_exclusive :: "string \<Rightarrow> replica \<Rightarrow> (db_error, unit) program" where
  "create_exclusive name r =
     andthen (asking (\<lambda>d. visible (next_entry d r) = None)) (\<lambda>absent.
       if absent then host_step name (create_next r) else raise (IoError name))"

section \<open>Publishing a snapshot\<close>

datatype failure_stage = BeforePublication | Uncertain

datatype publication_failure = PublicationFailure (failure: db_error) (stage: failure_stage)

abbreviation before_publication :: "db_error \<Rightarrow> publication_failure" where
  "before_publication e \<equiv> PublicationFailure e BeforePublication"

abbreviation uncertain :: "db_error \<Rightarrow> publication_failure" where
  "uncertain e \<equiv> PublicationFailure e Uncertain"

definition join_path :: "(db_error, unit) program" where
  "join_path = host_check ''construct filesystem path''"

definition write_fence :: "wal_record \<Rightarrow> (db_error, unit) program" where
  "write_fence record =
     andthen (lift (map_error (\<lambda>_. Corrupt ''WAL encoding failed'') (encode_wal record))) (\<lambda>bytes.
     andthen cancel_check (\<lambda>_.
     andthen join_path (\<lambda>_.
     andthen (host_check ''open WAL for publication'') (\<lambda>_.
     andthen cancel_check (\<lambda>_.
     andthen (host_check ''inspect WAL before write'') (\<lambda>_.
     andthen (asking (\<lambda>d. length (current (wal_file d)))) (\<lambda>n.
     if n \<noteq> wal_bytes then raise (Corrupt ''WAL fence has wrong extent before publication'')
     else andthen cancel_check (\<lambda>_.
     andthen (host_write ''write WAL'' put_wal bytes) (\<lambda>_.
     andthen cancel_check (\<lambda>_.
     andthen (host_check ''inspect WAL after write'') (\<lambda>_.
     andthen (asking (\<lambda>d. length (current (wal_file d)))) (\<lambda>n.
     if n \<noteq> wal_bytes then raise (Corrupt ''WAL length after write is invalid'')
     else andthen cancel_check (\<lambda>_.
     andthen (host_check ''read WAL'') (\<lambda>_.
     andthen (asking (\<lambda>d. take wal_bytes (current (wal_file d)))) (\<lambda>observed.
     if decode_wal observed \<noteq> Inr record then raise (Corrupt ''WAL verification failed'')
     else andthen cancel_check (\<lambda>_.
     host_step ''sync WAL'' sync_wal))))))))))))))))"

definition check_optional_cancel :: "bool \<Rightarrow> (db_error, unit) program" where
  "check_optional_cancel token = (if token then cancel_check else return ())"

definition write_root_next :: "wal_record \<Rightarrow> replica \<Rightarrow> bool \<Rightarrow> (db_error, unit) program" where
  "write_root_next record replica cancellable =
     andthen (lift (map_error (\<lambda>_. Corrupt ''root encoding failed'')
                (encode_root (replica_of record replica)))) (\<lambda>bytes.
     andthen join_path (\<lambda>_.
     andthen (check_optional_cancel cancellable) (\<lambda>_.
     andthen (create_exclusive ''create root next'' replica) (\<lambda>_.
     andthen (check_optional_cancel cancellable) (\<lambda>_.
     andthen (host_write ''write root next'' (put_next replica) bytes) (\<lambda>_.
     andthen (check_optional_cancel cancellable) (\<lambda>_.
     andthen (host_check ''inspect root next'') (\<lambda>_.
     andthen (asking (\<lambda>d. length (next_bytes replica d))) (\<lambda>n.
     if n \<noteq> root_bytes then raise (Corrupt ''root next length is invalid'')
     else andthen (check_optional_cancel cancellable) (\<lambda>_.
     andthen (host_check ''read root next'') (\<lambda>_.
     andthen (asking (\<lambda>d. take root_bytes (next_bytes replica d))) (\<lambda>observed.
     if decode_root observed \<noteq> Inr (replica_of record replica)
     then raise (Corrupt ''root next verification failed'')
     else andthen (check_optional_cancel cancellable) (\<lambda>_.
     host_step ''sync root next'' (sync_next replica))))))))))))))"

definition publish_snapshot :: "wal_record \<Rightarrow> wal_record \<Rightarrow> (publication_failure, unit) program" where
  "publish_snapshot prior record =
     (case transition_from record prior of
        None \<Rightarrow> raise (before_publication (Corrupt ''invalid publication transition''))
      | Some _ \<Rightarrow>
     andthen (raising before_publication (write_fence record)) (\<lambda>_.
     andthen (raising before_publication (write_root_next record ReplicaA True)) (\<lambda>_.
     andthen (raising before_publication cancel_check) (\<lambda>_.
     andthen (raising before_publication join_path) (\<lambda>_.
     andthen (raising before_publication join_path) (\<lambda>_.
     andthen (raising uncertain (host_step ''rename ROOT.A publication'' (rename_next ReplicaA))) (\<lambda>_.
     andthen (raising uncertain sync_directory) (\<lambda>_.
     andthen (raising uncertain (write_root_next record ReplicaB False)) (\<lambda>_.
     andthen (raising uncertain join_path) (\<lambda>_.
     andthen (raising uncertain join_path) (\<lambda>_.
     andthen (raising uncertain (host_step ''rename ROOT.B publication'' (rename_next ReplicaB))) (\<lambda>_.
     raising uncertain sync_directory))))))))))))"

section \<open>Reading the records\<close>

definition decode_root_candidate ::
  "u8 list \<Rightarrow> database_id \<Rightarrow> replica \<Rightarrow> db_error + root option" where
  "decode_root_candidate bytes db replica =
     (case decode_root bytes of
        Inr r \<Rightarrow>
          if root_database r = db \<and> root_replica r = replica then Inr (Some r)
          else Inl (Corrupt ''root replica identity is foreign'')
      | Inl e \<Rightarrow>
          (case e of
             FmtVersion \<Rightarrow> Inl (map_format_error e bytes)
           | FmtGeneration _ \<Rightarrow> Inl (map_format_error e bytes)
           | FmtChecksum \<Rightarrow> Inr None
           | FmtLength \<Rightarrow> Inr None
           | FmtMagic \<Rightarrow> Inr None
           | _ \<Rightarrow> Inl (Corrupt ''checksummed root has invalid or unsupported fields'')))"

definition read_root_file :: "u8 list \<Rightarrow> database_id \<Rightarrow> replica \<Rightarrow> db_error + root option" where
  "read_root_file content db replica =
     attempt (decode_root_candidate (take root_bytes content) db replica) (\<lambda>candidate.
       if length content \<noteq> root_bytes then Inr None else Inr candidate)"

definition read_fence :: "u8 list \<Rightarrow> database_id \<Rightarrow> db_error + wal_record option" where
  "read_fence content db =
     (if wal_bytes < length content then Inl (Corrupt ''oversized fence'')
      else case decode_wal content of
        Inr w \<Rightarrow> if database w = db then Inr (Some w) else Inl (Corrupt ''foreign fence identity'')
      | Inl e \<Rightarrow>
          (case e of
             FmtVersion \<Rightarrow> Inl (map_format_error e content)
           | FmtGeneration _ \<Rightarrow> Inl (map_format_error e content)
           | FmtChecksum \<Rightarrow> Inr None
           | FmtLength \<Rightarrow> Inr None
           | FmtMagic \<Rightarrow> Inr None
           | _ \<Rightarrow> Inl (Corrupt ''checksummed fence has invalid or unsupported fields'')))"

record namespace_authority =
  selected :: wal_record
  observed_fence :: "wal_record option"
  repair :: "replica option"
  pending_roots :: "replica \<Rightarrow> bool"
  wal_length :: nat

definition read_optional_root :: "store \<Rightarrow> database_id \<Rightarrow> replica \<Rightarrow> db_error + root option" where
  "read_optional_root d db replica =
     (case visible (root_entry d replica) of
        None \<Rightarrow> Inr None
      | Some f \<Rightarrow> read_root_file (current f) db replica)"

definition is_catalog :: "root_state \<Rightarrow> bool" where
  "is_catalog st = (case st of CatalogState _ \<Rightarrow> True | _ \<Rightarrow> False)"

definition read_namespace_authority ::
  "database_id option \<Rightarrow> store \<Rightarrow> db_error + namespace_authority" where
  "read_namespace_authority expected d =
     (let control = control_file d in
      if length control \<noteq> control_bytes then Inl (Corrupt ''metadata file has invalid length'')
      else attempt (map_error (\<lambda>e. map_format_error e control) (decode_control control)) (\<lambda>db.
      if expected \<noteq> None \<and> expected \<noteq> Some db
      then Inl (Corrupt ''namespace database identity changed'')
      else if visible (root_entry d ReplicaA) = None \<and> visible (root_entry d ReplicaB) = None
      then Inl (Corrupt ''namespace is incomplete'')
      else attempt (read_optional_root d db ReplicaA) (\<lambda>a.
      attempt (read_optional_root d db ReplicaB) (\<lambda>b.
      attempt (read_fence (current (wal_file d)) db) (\<lambda>w.
      attempt (map_error (\<lambda>_. Corrupt ''root/fence authority is inconsistent or insufficient'')
                 (select_snapshot a b w)) (\<lambda>(s, rep).
      if (u32_of_bytes (slice control 8 4) = catalog_format_version) \<noteq> is_catalog (state s)
      then Inl (Corrupt ''CONTROL and selected root formats differ'')
      else Inr \<lparr>selected = s, observed_fence = w, repair = rep,
                pending_roots = (\<lambda>r. visible (next_entry d r) \<noteq> None),
                wal_length = length (current (wal_file d))\<rparr>))))))"

definition require_settled :: "namespace_authority \<Rightarrow> bool \<Rightarrow> u64 \<Rightarrow> db_error + unit" where
  "require_settled a pending_cleanup gen =
     (if repair a \<noteq> None \<or> pending_roots a ReplicaA \<or> pending_roots a ReplicaB
         \<or> observed_fence a \<noteq> Some (selected a) \<or> pending_cleanup
      then Inl (recovery_needed gen) else Inr ())"

section \<open>Repairing them\<close>

definition repair_root :: "wal_record \<Rightarrow> replica \<Rightarrow> (db_error, unit) program" where
  "repair_root record replica =
     andthen (lift (map_error (\<lambda>_. Corrupt ''failed to encode root repair'')
                (encode_root (replica_of record replica)))) (\<lambda>bytes.
     andthen join_path (\<lambda>_.
     andthen (create_exclusive ''create root repair'' replica) (\<lambda>_.
     andthen (host_write ''write root repair'' (put_next replica) bytes) (\<lambda>_.
     andthen (host_step ''sync root repair'' (sync_next replica)) (\<lambda>_.
     andthen (host_check ''inspect namespace entry'') (\<lambda>_.
     andthen (asking (\<lambda>d. length (next_bytes replica d))) (\<lambda>n.
     if n \<noteq> root_bytes then raise (Corrupt ''invalid root repair'')
     else andthen (host_check ''read root repair'') (\<lambda>_.
     andthen (asking (next_bytes replica)) (\<lambda>observed.
     andthen (lift (map_error (\<lambda>e. map_format_error e observed) (decode_root observed))) (\<lambda>decoded.
     if decoded \<noteq> replica_of record replica
     then raise (Corrupt ''root repair does not match selected state'')
     else andthen (host_step ''rename repaired root'' (rename_next replica)) (\<lambda>_.
     sync_directory)))))))))))"

definition remove_stale_next :: "bool \<Rightarrow> replica \<Rightarrow> (db_error, unit) program" where
  "remove_stale_next present replica =
     (if present then host_step ''remove stale root next'' (remove_next replica) else return ())"

definition reconcile_roots ::
  "wal_record \<Rightarrow> replica option \<Rightarrow> (replica \<Rightarrow> bool) \<Rightarrow> (db_error, unit) program" where
  "reconcile_roots record repair_replica pending =
     andthen (remove_stale_next (pending ReplicaA) ReplicaA) (\<lambda>_.
     andthen (remove_stale_next (pending ReplicaB) ReplicaB) (\<lambda>_.
     andthen (if pending ReplicaA \<or> pending ReplicaB then sync_directory else return ()) (\<lambda>_.
     andthen (case repair_replica of None \<Rightarrow> return () | Some r \<Rightarrow> repair_root record r) (\<lambda>_.
     sync_directory))))"

definition reconcile_fence :: "nat \<Rightarrow> u8 list \<Rightarrow> (db_error, unit) program" where
  "reconcile_fence n bytes =
     andthen join_path (\<lambda>_.
     andthen (host_check ''open fence for recovery'') (\<lambda>_.
     andthen (host_check ''inspect fence for recovery'') (\<lambda>_.
     andthen (asking (\<lambda>d. length (current (wal_file d)))) (\<lambda>now.
     if now \<noteq> n \<or> wal_bytes < n then raise (Corrupt ''fence changed before recovery'')
     else andthen (host_write ''write fence'' put_wal bytes) (\<lambda>_.
     andthen (host_check ''read fence'') (\<lambda>_.
     andthen (asking (\<lambda>d. take wal_bytes (current (wal_file d)))) (\<lambda>observed.
     if observed \<noteq> bytes then raise (Corrupt ''repaired fence differs from selected snapshot'')
     else host_step ''sync repaired fence'' sync_wal)))))))"

text \<open>
  Removing unfinished objects and scratch files touches other directories; to the records
  it is a call that may fail.
\<close>

definition repair_namespace :: "namespace_authority \<Rightarrow> (db_error, unit) program" where
  "repair_namespace a =
     andthen (reconcile_roots (selected a) (repair a) (pending_roots a)) (\<lambda>_.
     andthen (host_check ''remove uncommitted recovery file'') (\<lambda>_.
     andthen (lift (map_error (\<lambda>_. Corrupt ''cannot encode selected fence'')
                (encode_wal (selected a)))) (\<lambda>bytes.
     andthen (reconcile_fence (wal_length a) bytes) (\<lambda>_.
     andthen (host_check ''sync directory'') (\<lambda>_.
     host_check ''sync directory'')))))"

text \<open>
  Opening with the database lease. The check of the catalog objects the selected snapshot
  names, which reads other files, is the parameter \<open>validate\<close>; it gives the generation.
\<close>

definition recover_namespace ::
  "(wal_record \<Rightarrow> db_error + u64) \<Rightarrow> database_id option \<Rightarrow> (db_error, namespace_authority) program" where
  "recover_namespace validate expected =
     andthen (host_check ''inspect database directory'') (\<lambda>_.
     andthen (asking (read_namespace_authority expected)) (\<lambda>r.
     andthen (lift r) (\<lambda>a.
     andthen (lift (validate (selected a))) (\<lambda>gen.
     andthen (raising (recovery_error gen) (repair_namespace a)) (\<lambda>_.
     return a)))))"

definition inspect_namespace ::
  "(wal_record \<Rightarrow> db_error + u64) \<Rightarrow> bool \<Rightarrow> store \<Rightarrow> db_error + namespace_authority" where
  "inspect_namespace validate pending_cleanup d =
     attempt (read_namespace_authority None d) (\<lambda>a.
     attempt (validate (selected a)) (\<lambda>gen.
     attempt (require_settled a pending_cleanup gen) (\<lambda>_. Inr a)))"

end
