(* ===== verification/Crash_Safety.thy ===== *)
theory Crash_Safety
  imports Publication
begin

text \<open>
  Publication and recovery against crashes: the two disk invariants every interruption
  leaves, what recovery reads from each, and that repairs keep them. The WAL is rewritten in
  place, so it can be found torn between the two records it was written from. Nothing is
  assumed about CRC32C: a mixture whose checksum happens to match is an \<open>undetected_tear\<close>, and
  what is read from such a disk, when it is read at all, is proved as well.
\<close>

section \<open>Contents between two records\<close>

definition between :: "u8 list \<Rightarrow> u8 list \<Rightarrow> u8 list \<Rightarrow> bool" where
  "between a b c \<longleftrightarrow> length c = length a
     \<and> (\<forall>i < length c. c ! i = a ! i \<or> c ! i = b ! i)"

lemma between_ends:
  "between a b a" "length a = length b \<Longrightarrow> between a b b"
  by (simp_all add: between_def)

lemma between_same: "between a a c \<Longrightarrow> c = a"
  by (simp add: between_def nth_equalityI)

lemma between_overlay:
  assumes "between a b c" and "between a b x"
  shows "between a b (take k x @ drop (length (take k x)) c)"
  using assms by (auto simp: between_def nth_append)

lemma torn_between:
  assumes "\<forall>c\<in>set cs. between a b c" and "torn cs img"
  shows "between a b img"
proof -
  from assms have "length img = length a"
    by (fastforce simp: torn_def between_def)
  moreover have "img ! i = a ! i \<or> img ! i = b ! i" if "i < length img" for i
    using assms that \<open>length img = length a\<close> by (fastforce simp: torn_def between_def)
  ultimately show ?thesis by (simp add: between_def)
qed

lemma torn_same: "\<forall>c\<in>set cs. c = a \<Longrightarrow> torn cs img \<Longrightarrow> img = a"
  using torn_between [of cs a a img] between_same by (auto simp: between_def)

lemma torn_single [simp]: "torn [a] img \<longleftrightarrow> img = a"
  using torn_same [of "[a]" a img] by (auto simp: torn_def)

lemma between_slice:
  assumes "between a b c" and "length a = length b" and "slice a off n = slice b off n"
    and "off + n \<le> length a"
  shows "slice c off n = slice a off n"
proof (rule nth_equalityI)
  show "length (slice c off n) = length (slice a off n)"
    using assms by (simp add: between_def slice_def)
  fix i assume i: "i < length (slice c off n)"
  then have n: "i < n" "off + i < length a" using assms by (auto simp: between_def slice_def)
  have "slice a off n ! i = slice b off n ! i" using assms(3) by simp
  then have "a ! (off + i) = b ! (off + i)"
    using n assms(2) by (simp add: slice_def)
  then show "slice c off n ! i = slice a off n ! i"
    using assms(1) n by (auto simp: between_def slice_def)
qed

section \<open>The encoded records\<close>

definition wal_image :: "wal_record \<Rightarrow> u8 list" where
  "wal_image w = (case encode_wal w of Inr bytes \<Rightarrow> bytes | Inl _ \<Rightarrow> [])"

definition root_image :: "wal_record \<Rightarrow> replica \<Rightarrow> u8 list" where
  "root_image w rep = (case encode_root (replica_of w rep) of Inr bytes \<Rightarrow> bytes | Inl _ \<Rightarrow> [])"

lemma wal_image:
  assumes "valid_record w"
  shows "encode_wal w = Inr (wal_image w)" and "length (wal_image w) = wal_bytes"
    and "slice (wal_image w) 0 8 = wal_magic"
    and "slice (wal_image w) 8 4 = u32_bytes (state_version (state w))"
    and "decode_wal (wal_image w) = Inr w"
proof -
  obtain bs where bs: "encode_wal w = Inr bs" "length bs = wal_bytes" "slice bs 0 8 = wal_magic"
      "slice bs 8 4 = u32_bytes (state_version (state w))" "decode_wal bs = Inr w"
    by (rule wal_roundtrip [OF assms])
  then have "wal_image w = bs" by (simp add: wal_image_def)
  with bs show "encode_wal w = Inr (wal_image w)" and "length (wal_image w) = wal_bytes"
    and "slice (wal_image w) 0 8 = wal_magic"
    and "slice (wal_image w) 8 4 = u32_bytes (state_version (state w))"
    and "decode_wal (wal_image w) = Inr w" by blast+
qed

lemma root_image:
  assumes "valid_record w"
  shows "encode_root (replica_of w rep) = Inr (root_image w rep)"
    and "length (root_image w rep) = root_bytes"
    and "decode_root (root_image w rep) = Inr (replica_of w rep)"
proof -
  obtain bs where bs: "encode_root (replica_of w rep) = Inr bs" "length bs = root_bytes"
      "decode_root bs = Inr (replica_of w rep)"
    by (rule root_roundtrip [OF assms, of rep])
  then have "root_image w rep = bs" by (simp add: root_image_def)
  with bs show "encode_root (replica_of w rep) = Inr (root_image w rep)"
    and "length (root_image w rep) = root_bytes"
    and "decode_root (root_image w rep) = Inr (replica_of w rep)" by blast+
qed

lemma damaged_record_is_dropped:
  assumes "length c = wal_bytes" and "slice c 0 8 = wal_magic"
    and "slice c 8 4 = u32_bytes (state_version st)" and "require_checksum c 108 \<noteq> Inr ()"
  shows "decode_wal c = Inl FmtChecksum"
proof -
  have "require_checksum c 108 = Inl FmtChecksum"
    using assms(1,4) by (auto simp: require_checksum_conv wal_bytes_def split: if_splits)
  moreover have "decode_snapshot c wal_bytes wal_magic = decode_catalog_snapshot c wal_bytes wal_magic
      \<or> decode_snapshot c wal_bytes wal_magic = decode_data_snapshot c wal_bytes wal_magic"
    using assms by (cases st) (simp_all add: state_version_def decode_snapshot_catalog
        decode_snapshot_data wal_bytes_def)
  ultimately show ?thesis
    using assms(1,2)
    by (auto simp: decode_wal_def decode_catalog_snapshot_def decode_data_snapshot_def
        require_length_def take_slice)
qed

lemma state_version_is_catalog:
  "state_version st = (if is_catalog st then catalog_format_version else format_version)"
  by (cases st) (simp_all add: state_version_def is_catalog_def)

lemma succeeds_is_catalog: "succeeds new old \<Longrightarrow> is_catalog (state new) = is_catalog (state old)"
  by (elim step_cases)
    (auto simp: issuance_step is_catalog_def transition_from_def Let_def
      split: if_splits root_state.splits)

section \<open>What interruptions leave\<close>

definition control_matches :: "wal_record \<Rightarrow> store \<Rightarrow> bool" where
  "control_matches w d \<longleftrightarrow> length (control_file d) = control_bytes
     \<and> decode_control (control_file d) = Inr (database w)
     \<and> (u32_of_bytes (slice (control_file d) 8 4) = catalog_format_version) = is_catalog (state w)"

definition shows_root :: "wal_record \<Rightarrow> replica \<Rightarrow> store \<Rightarrow> bool" where
  "shows_root w r d \<longleftrightarrow> visible (root_entry d r) = Some (synced_file (root_image w r))"

definition keeps_root :: "wal_record \<Rightarrow> replica \<Rightarrow> store \<Rightarrow> bool" where
  "keeps_root w r d \<longleftrightarrow> durable (root_entry d r) = Some (synced_file (root_image w r))"

definition wal_between :: "wal_record \<Rightarrow> wal_record \<Rightarrow> store \<Rightarrow> bool" where
  "wal_between p n d \<longleftrightarrow> contents (wal_file d) \<noteq> []
     \<and> (\<forall>c\<in>set (contents (wal_file d)). between (wal_image p) (wal_image n) c)"

definition wal_holds :: "wal_record \<Rightarrow> store \<Rightarrow> bool" where
  "wal_holds w d \<longleftrightarrow> contents (wal_file d) \<noteq> []
     \<and> (\<forall>c\<in>set (contents (wal_file d)). c = wal_image w)"

text \<open>Both roots durably hold the prior snapshot; the WAL is anywhere between.\<close>

definition undecided :: "wal_record \<Rightarrow> wal_record \<Rightarrow> store \<Rightarrow> bool" where
  "undecided p n d \<longleftrightarrow> control_matches p d \<and> wal_between p n d
     \<and> (\<forall>r. shows_root p r d \<and> keeps_root p r d)"

text \<open>The WAL durably holds the new snapshot and at least one root shows it.\<close>

definition decided :: "wal_record \<Rightarrow> wal_record \<Rightarrow> store \<Rightarrow> bool" where
  "decided p n d \<longleftrightarrow> control_matches n d \<and> wal_holds n d
     \<and> (\<forall>r. (shows_root p r d \<or> shows_root n r d) \<and> (keeps_root p r d \<or> keeps_root n r d))
     \<and> (\<exists>r. shows_root n r d)"

definition settled :: "wal_record \<Rightarrow> store \<Rightarrow> bool" where
  "settled w d \<longleftrightarrow> control_matches w d \<and> wal_holds w d
     \<and> (\<forall>r. shows_root w r d \<and> keeps_root w r d)"

definition publishable :: "wal_record \<Rightarrow> wal_record \<Rightarrow> bool" where
  "publishable p n \<longleftrightarrow> valid_record p \<and> valid_record n \<and> (n = p \<or> succeeds n p)"

lemma publishable_valid: "publishable p n \<Longrightarrow> valid_record p" "publishable p n \<Longrightarrow> valid_record n"
  by (simp_all add: publishable_def)

lemma publishable_lengths:
  "publishable p n \<Longrightarrow> length (wal_image p) = wal_bytes \<and> length (wal_image n) = wal_bytes"
  by (simp add: publishable_def wal_image)

lemma publishable_control:
  "publishable p n \<Longrightarrow> control_matches n d \<longleftrightarrow> control_matches p d"
  by (auto simp: publishable_def control_matches_def dest: succeeds_database succeeds_is_catalog)

lemma wal_holds_between: "publishable p n \<Longrightarrow> wal_holds n d \<Longrightarrow> wal_between p n d"
  by (auto simp: wal_holds_def wal_between_def between_ends(2) publishable_lengths)

lemma settled_undecided: "publishable p n \<Longrightarrow> settled p d \<Longrightarrow> undecided p n d"
  by (auto simp: settled_def undecided_def wal_holds_def wal_between_def between_ends(1))

lemma settled_decided: "settled n d \<Longrightarrow> decided p n d"
  by (auto simp: settled_def decided_def)

lemma replica_all: "(\<forall>r. P r) \<longleftrightarrow> P ReplicaA \<and> P ReplicaB"
  by (metis replica.exhaust)

subsection \<open>Crashes\<close>

lemma crash_root:
  assumes "crash d d'" and "shows_root w r d \<and> keeps_root w' r d"
  shows "(shows_root w r d' \<and> keeps_root w r d') \<or> (shows_root w' r d' \<and> keeps_root w' r d')"
proof -
  from assms(1) have "crash_entry (root_entry d r) (root_entry d' r)" by (simp add: crash_def)
  with assms(2) show ?thesis
    by (auto simp: crash_entry_def shows_root_def keeps_root_def synced_file_def settled_entry_def)
qed

lemma crash_wal: "crash d d' \<Longrightarrow> \<exists>img. wal_file d' = synced_file img \<and> torn (contents (wal_file d)) img"
  by (simp add: crash_def)

lemma crash_control [simp]: "crash d d' \<Longrightarrow> control_matches w d' \<longleftrightarrow> control_matches w d"
  by (simp add: crash_def control_matches_def)

lemma crash_wal_between: "crash d d' \<Longrightarrow> wal_between p n d \<Longrightarrow> wal_between p n d'"
  by (drule crash_wal) (auto simp: wal_between_def synced_file_def dest: torn_between)

lemma crash_wal_holds: "crash d d' \<Longrightarrow> wal_holds n d \<Longrightarrow> wal_holds n d'"
  by (drule crash_wal) (auto simp: wal_holds_def synced_file_def dest: torn_same)

lemma crash_undecided: "crash d d' \<Longrightarrow> undecided p n d \<Longrightarrow> undecided p n d'"
  using crash_root [of d d' p _ p] crash_wal_between [of d d' p n]
  by (simp add: undecided_def)

lemma crash_settled: "crash d d' \<Longrightarrow> settled w d \<Longrightarrow> settled w d'"
  using crash_root [of d d' w _ w] crash_wal_holds [of d d' w]
  by (simp add: settled_def)

lemma crash_decided:
  assumes "publishable p n" and "crash d d'" and "decided p n d"
  shows "decided p n d' \<or> undecided p n d'"
proof -
  have root: "(shows_root p r d' \<and> keeps_root p r d') \<or> (shows_root n r d' \<and> keeps_root n r d')" for r
    using crash_root [OF assms(2)] assms(3) unfolding decided_def by meson
  have wal: "wal_holds n d'" and "control_matches n d'"
    using assms crash_wal_holds by (auto simp: decided_def)
  show ?thesis
  proof (cases "\<exists>r. shows_root n r d'")
    case True
    with root wal \<open>control_matches n d'\<close> show ?thesis unfolding decided_def by blast
  next
    case False
    with root wal \<open>control_matches n d'\<close> assms(1) show ?thesis
      unfolding undecided_def
      using publishable_control wal_holds_between by blast
  qed
qed

section \<open>What recovery reads\<close>

lemma current_in: "contents f \<noteq> [] \<Longrightarrow> current f \<in> set (contents f)"
  by (simp add: current_def)

lemma read_optional_root_shown:
  assumes "shows_root w r d" and "valid_record w"
  shows "read_optional_root d (database w) r = Inr (Some (replica_of w r))"
  using assms root_image [OF assms(2), of r]
  by (simp add: read_optional_root_def shows_root_def current_def synced_file_def read_root_file_def
      decode_root_candidate_def)

text \<open>The WAL shows neither record whole, and yet its checksum matches.\<close>

definition undetected_tear :: "wal_record \<Rightarrow> wal_record \<Rightarrow> store \<Rightarrow> bool" where
  "undetected_tear p n d \<longleftrightarrow>
     (let bytes = current (wal_file d) in
      bytes \<noteq> wal_image p \<and> bytes \<noteq> wal_image n \<and> require_checksum bytes 108 = Inr ())"

lemma torn_wal_decodes:
  assumes "publishable p n" and "between (wal_image p) (wal_image n) c"
  shows "decode_wal c = Inr p \<or> decode_wal c = Inr n \<or> decode_wal c = Inl FmtChecksum
    \<or> c \<noteq> wal_image p \<and> c \<noteq> wal_image n \<and> require_checksum c 108 = Inr ()"
proof (cases "require_checksum c 108 = Inr ()")
  case True
  then show ?thesis
    using assms by (auto simp: publishable_def wal_image)
next
  case False
  have p: "valid_record p" and n: "valid_record n" using assms(1) by (simp_all add: publishable_def)
  have v: "state_version (state p) = state_version (state n)"
    using assms(1) by (auto simp: publishable_def state_version_is_catalog dest: succeeds_is_catalog)
  have "slice c 0 8 = wal_magic"
    using between_slice [OF assms(2), of 0 8] wal_image [OF p] wal_image [OF n]
    by (simp add: wal_bytes_def)
  moreover have "slice c 8 4 = u32_bytes (state_version (state p))"
    using between_slice [OF assms(2), of 8 4] wal_image [OF p] wal_image [OF n] v
    by (simp add: wal_bytes_def)
  moreover have "length c = wal_bytes"
    using assms(2) wal_image(2) [OF p] by (simp add: between_def)
  ultimately have "decode_wal c = Inl FmtChecksum" using damaged_record_is_dropped False by blast
  then show ?thesis by blast
qed

lemma read_fence_between:
  assumes "publishable p n" and "wal_between p n d" and "db = database p" and "\<not> undetected_tear p n d"
  obtains w where "read_fence (current (wal_file d)) db = Inr w" and "w = None \<or> w = Some p \<or> w = Some n"
proof -
  have c: "between (wal_image p) (wal_image n) (current (wal_file d))"
    using assms(2) current_in by (auto simp: wal_between_def)
  have "length (current (wal_file d)) = wal_bytes"
    using c publishable_lengths [OF assms(1)] by (simp add: between_def)
  moreover have "database n = database p"
    using assms(1) by (auto simp: publishable_def dest: succeeds_database)
  ultimately have "read_fence (current (wal_file d)) db \<in> {Inr None, Inr (Some p), Inr (Some n)}"
    using torn_wal_decodes [OF assms(1) c] assms(3,4) by (auto simp: read_fence_def undetected_tear_def Let_def)
  with that show thesis by blast
qed

lemma read_fence_holds:
  assumes "valid_record w" and "wal_holds w d"
  shows "read_fence (current (wal_file d)) (database w) = Inr (Some w)"
proof -
  have "current (wal_file d) = wal_image w"
    using assms(2) current_in by (auto simp: wal_holds_def)
  then show ?thesis using wal_image [OF assms(1)] by (simp add: read_fence_def)
qed

lemma read_authority_of:
  assumes "control_matches s d" and "expected = None \<or> expected = Some (database s)"
    and "shows_root wa ReplicaA d" and "shows_root wb ReplicaB d"
    and "valid_record wa" and "valid_record wb" and "database wa = database s" and "database wb = database s"
    and "read_fence (current (wal_file d)) (database s) = Inr w"
    and "select_snapshot (Some (replica_of wa ReplicaA)) (Some (replica_of wb ReplicaB)) w = Inr (s, rep)"
  shows "read_namespace_authority expected d =
    Inr \<lparr>selected = s, observed_fence = w, repair = rep,
         pending_roots = (\<lambda>r. visible (next_entry d r) \<noteq> None),
         wal_length = length (current (wal_file d))\<rparr>"
proof -
  have "read_optional_root d (database s) ReplicaA = Inr (Some (replica_of wa ReplicaA))"
    and "read_optional_root d (database s) ReplicaB = Inr (Some (replica_of wb ReplicaB))"
    using read_optional_root_shown assms(3-8) by metis+
  moreover have "visible (root_entry d ReplicaA) \<noteq> None"
    using assms(3) by (simp add: shows_root_def)
  ultimately show ?thesis
    using assms(1,2,9,10) by (auto simp: read_namespace_authority_def control_matches_def Let_def)
qed

lemma shows_root_unique:
  assumes "shows_root p r d" and "shows_root n r d" and "valid_record p" and "valid_record n"
  shows "p = n"
proof -
  have "root_image p r = root_image n r"
    using assms(1,2) by (simp add: shows_root_def synced_file_def)
  then have "replica_of p r = replica_of n r"
    using root_image(3) [OF assms(3), of r] root_image(3) [OF assms(4), of r] by simp
  then show ?thesis by (metis fence_replica_of)
qed

lemma read_undecided:
  assumes "publishable p n" and "undecided p n d" and "expected = None \<or> expected = Some (database p)"
    and "\<not> undetected_tear p n d"
  shows "\<exists>a. read_namespace_authority expected d = Inr a"
proof -
  have p: "valid_record p" using assms(1) by (simp add: publishable_def)
  obtain w where w: "read_fence (current (wal_file d)) (database p) = Inr w"
      "w = None \<or> w = Some p \<or> w = Some n"
    using read_fence_between [OF assms(1)] assms(2,4) unfolding undecided_def by blast
  then have "select_snapshot (Some (replica_of p ReplicaA)) (Some (replica_of p ReplicaB)) w = Inr (p, None)"
    using assms(1) by (intro select_both) (auto simp: publishable_def)
  then show ?thesis
    using read_authority_of [OF _ assms(3) _ _ p p refl refl w(1)] assms(2)
    unfolding undecided_def by fastforce
qed

text \<open>Whatever the WAL holds, two roots that agree are not overruled.\<close>

lemma read_undecided_selects:
  assumes "publishable p n" and "undecided p n d" and "expected = None \<or> expected = Some (database p)"
    and read: "read_namespace_authority expected d = Inr a"
  shows "selected a = p" and "repair a = None" and "wal_length a = wal_bytes"
    and "pending_roots a = (\<lambda>r. visible (next_entry d r) \<noteq> None)"
proof -
  have p: "valid_record p" using assms(1) by (simp add: publishable_def)
  have shown: "shows_root p r d" for r using assms(2) by (simp add: undecided_def)
  have control: "control_matches p d" using assms(2) by (simp add: undecided_def)
  have roots: "read_optional_root d (database p) r = Inr (Some (replica_of p r))" for r
    by (rule read_optional_root_shown [OF shown p])
  obtain w s rep where "select_snapshot (Some (replica_of p ReplicaA)) (Some (replica_of p ReplicaB)) w = Inr (s, rep)"
    and a: "a = \<lparr>selected = s, observed_fence = w, repair = rep,
         pending_roots = (\<lambda>r. visible (next_entry d r) \<noteq> None),
         wal_length = length (current (wal_file d))\<rparr>"
    using read control roots
    by (auto simp: read_namespace_authority_def control_matches_def Let_def attempt_Inr_conv split: if_splits)
  then have "s = p \<and> rep = None" by (auto simp: select_snapshot_Inr select_roots_def)
  moreover have "length (current (wal_file d)) = wal_bytes"
    using assms current_in [of "wal_file d"] publishable_lengths [OF assms(1)]
    by (auto simp: undecided_def wal_between_def between_def)
  ultimately show "selected a = p" "repair a = None" "wal_length a = wal_bytes"
    "pending_roots a = (\<lambda>r. visible (next_entry d r) \<noteq> None)"
    by (simp_all add: a)
qed

lemma read_decided:
  assumes "publishable p n" and "decided p n d" and "expected = None \<or> expected = Some (database n)"
  obtains a where "read_namespace_authority expected d = Inr a" and "selected a = n"
    and "wal_length a = wal_bytes" and "observed_fence a = Some n"
    and "\<And>r. repair a \<noteq> Some r \<Longrightarrow> shows_root n r d"
    and "pending_roots a = (\<lambda>r. visible (next_entry d r) \<noteq> None)"
    and "(\<forall>r. shows_root n r d) \<Longrightarrow> repair a = None"
proof -
  have v: "valid_record p" "valid_record n" using assms(1) by (simp_all add: publishable_def)
  have db: "database n = database p" using assms(1) by (auto simp: publishable_def dest: succeeds_database)
  have w: "read_fence (current (wal_file d)) (database n) = Inr (Some n)"
    using assms(2) by (auto simp: decided_def intro: read_fence_holds v)
  have len: "length (current (wal_file d)) = wal_bytes"
    using assms current_in [of "wal_file d"] publishable_lengths [OF assms(1)]
    by (auto simp: decided_def wal_holds_def)
  have c: "control_matches n d" using assms(2) by (simp add: decided_def)
  note read = read_authority_of [OF c assms(3) _ _ _ _ _ _ w]
  consider (both) "\<forall>r. shows_root n r d"
    | (a) "shows_root n ReplicaA d" "shows_root p ReplicaB d" "n \<noteq> p"
    | (b) "shows_root p ReplicaA d" "shows_root n ReplicaB d" "n \<noteq> p"
    using assms(2) unfolding decided_def replica_all by (metis (full_types) replica.exhaust)
  then show thesis
  proof cases
    case both
    then show thesis
      using len by (intro that [OF read [OF _ _ v(2) v(2) refl refl select_both [of "Some n"]]]) auto
  next
    case a
    have "succeeds n p" using a(3) assms(1) by (auto simp: publishable_def)
    moreover have "\<not> shows_root n ReplicaB d"
      using shows_root_unique [OF a(2) _ v] a(3) by blast
    moreover have "shows_root n r d" if "r \<noteq> ReplicaB" for r
      using a(1) that by (cases r) auto
    ultimately show thesis
      using len by (intro that [OF read [OF a(1,2) v(2,1) refl db [symmetric]
            select_ahead(1) [of n p "Some n"]]]) auto
  next
    case b
    have "succeeds n p" using b(3) assms(1) by (auto simp: publishable_def)
    moreover have "\<not> shows_root n ReplicaA d"
      using shows_root_unique [OF b(1) _ v] b(3) by blast
    moreover have "shows_root n r d" if "r \<noteq> ReplicaA" for r
      using b(2) that by (cases r) auto
    ultimately show thesis
      using len by (intro that [OF read [OF b(1,2) v(1,2) db [symmetric] refl
            select_ahead(2) [of n p "Some n"]]]) auto
  qed
qed

end
