(* ===== verification/Atomic_Commit.thy ===== *)
theory Atomic_Commit
  imports Crash_Safety
begin

text \<open>
  The commit protocol end to end: whatever fails and wherever the process or the machine
  stops, the disk stays within the two invariants of an interrupted publication, a
  publication that returned settles the new snapshot, recovery settles the one it read, and
  both programs finish when the host does its part.
\<close>

section \<open>One call at a time\<close>

lemma keeps_check_then:
  "(\<And>d x. P d \<Longrightarrow> E x d) \<Longrightarrow> keeps P (k ()) Q E \<Longrightarrow> keeps P (andthen (host_check s) k) Q E"
  by (rule keeps_andthen [OF keeps_host_check]) simp_all

lemma keeps_cancel_then:
  "(\<And>d x. P d \<Longrightarrow> E x d) \<Longrightarrow> keeps P (k ()) Q E \<Longrightarrow> keeps P (andthen cancel_check k) Q E"
  by (rule keeps_andthen [OF keeps_cancel_check]) simp_all

lemma keeps_optional_cancel_then:
  "(\<And>d x. P d \<Longrightarrow> E x d) \<Longrightarrow> keeps P (k ()) Q E \<Longrightarrow>
     keeps P (andthen (check_optional_cancel c) k) Q E"
  by (cases c) (simp_all add: check_optional_cancel_def keeps_cancel_then
      keeps_andthen [OF keeps_return, where R = "\<lambda>_. P"])

lemma keeps_ask_then:
  "(\<And>d. P d \<Longrightarrow> q d = v) \<Longrightarrow> keeps P (k v) Q E \<Longrightarrow> keeps P (andthen (asking q) k) Q E"
  by (simp add: keeps_def andthen_def asking_def)

lemma keeps_ask_any:
  "(\<And>v. keeps (\<lambda>d. P d \<and> q d = v) (k v) Q E) \<Longrightarrow> keeps P (andthen (asking q) k) Q E"
  by (simp add: keeps_def andthen_def asking_def)

lemma keeps_lift_then:
  "r = Inr v \<Longrightarrow> keeps P (k v) Q E \<Longrightarrow> keeps P (andthen (lift r) k) Q E"
  by (simp add: keeps_def andthen_def lift_def return_def)

lemma keeps_return_then: "keeps P (k x) Q E \<Longrightarrow> keeps P (andthen (return x) k) Q E"
  by (simp add: keeps_def andthen_def return_def)

lemma keeps_step_then:
  assumes "\<And>d. P d \<Longrightarrow> R (f d)" and "\<And>d x. P d \<Longrightarrow> E x d" and "\<And>d x. R d \<Longrightarrow> E x d"
    and "keeps R (k ()) Q E"
  shows "keeps P (andthen (host_step s f) k) Q E"
  using assms by (intro keeps_andthen [OF keeps_host_step, where R = "\<lambda>_. R"]) auto

lemma keeps_write_then:
  assumes "\<And>d. P d \<Longrightarrow> R (f bytes d)" and "\<And>d x. P d \<Longrightarrow> E x d"
    and "\<And>d n x. P d \<Longrightarrow> E x (f (take n bytes) d)" and "keeps R (k ()) Q E"
  shows "keeps P (andthen (host_write s f bytes) k) Q E"
  using assms by (intro keeps_andthen [OF keeps_host_write, where R = "\<lambda>_. R"]) auto

lemmas keeps_steps = keeps_check_then keeps_cancel_then keeps_optional_cancel_then

lemma raising_andthen: "raising g (andthen m k) = andthen (raising g m) (\<lambda>x. raising g (k x))"
  by (rule ext) (auto simp: raising_def andthen_def split: prod.splits result.splits)

section \<open>The WAL\<close>

lemma put_wal_simps [simp]:
  "control_file (put_wal b d) = control_file d" "root_entry (put_wal b d) = root_entry d"
  "next_entry (put_wal b d) = next_entry d"
  "contents (wal_file (put_wal b d)) = (b @ drop (length b) (current (wal_file d))) # contents (wal_file d)"
  by (simp_all add: put_wal_def write_file_def)

lemma sync_wal_simps [simp]:
  "control_file (sync_wal d) = control_file d" "root_entry (sync_wal d) = root_entry d"
  "next_entry (sync_wal d) = next_entry d"
  "contents (wal_file (sync_wal d)) = [current (wal_file d)]"
  by (simp_all add: sync_wal_def sync_file_def synced_file_def)

lemma wal_writes_keep_roots [simp]:
  "shows_root w r (put_wal b d) = shows_root w r d" "keeps_root w r (put_wal b d) = keeps_root w r d"
  "shows_root w r (sync_wal d) = shows_root w r d" "keeps_root w r (sync_wal d) = keeps_root w r d"
  "control_matches w (put_wal b d) = control_matches w d"
  "control_matches w (sync_wal d) = control_matches w d"
  by (simp_all add: shows_root_def keeps_root_def control_matches_def)

lemma wal_current_between:
  "wal_between p n d \<Longrightarrow> between (wal_image p) (wal_image n) (current (wal_file d))"
  using current_in by (auto simp: wal_between_def)

lemma put_wal_between:
  assumes "wal_between p n d" and "between (wal_image p) (wal_image n) x"
  shows "wal_between p n (put_wal (take k x) d)"
  using assms between_overlay [OF wal_current_between [OF assms(1)] assms(2)]
  by (simp add: wal_between_def)

lemma put_wal_whole:
  assumes "wal_between p n d" and "length x = length (wal_image p)"
  shows "current (wal_file (put_wal x d)) = x"
  using wal_current_between [OF assms(1)] assms(2) by (simp add: current_def between_def put_wal_def write_file_def)

text \<open>The fence is durable and no root has moved.\<close>

definition fenced :: "wal_record \<Rightarrow> wal_record \<Rightarrow> store \<Rightarrow> bool" where
  "fenced p n d \<longleftrightarrow> control_matches p d \<and> wal_holds n d \<and> (\<forall>r. shows_root p r d \<and> keeps_root p r d)"

lemma fenced_undecided: "publishable p n \<Longrightarrow> fenced p n d \<Longrightarrow> undecided p n d"
  by (simp add: fenced_def undecided_def wal_holds_between)

definition fence_written :: "wal_record \<Rightarrow> wal_record \<Rightarrow> wal_record \<Rightarrow> store \<Rightarrow> bool" where
  "fence_written p n w d \<longleftrightarrow> undecided p n d \<and> current (wal_file d) = wal_image w"

lemma undecided_put_wal:
  assumes "publishable p n" and "undecided p n d" and "w = p \<or> w = n"
  shows "undecided p n (put_wal (take k (wal_image w)) d)"
    and "fence_written p n w (put_wal (wal_image w) d)"
proof -
  have len: "length (wal_image p) = length (wal_image n)"
    using publishable_lengths [OF assms(1)] by simp
  have w: "between (wal_image p) (wal_image n) (wal_image w)"
    using assms(3) len by (auto intro: between_ends)
  have u: "undecided p n (put_wal (take k (wal_image w)) d)" for k
    using assms(2) put_wal_between [OF _ w] by (simp add: undecided_def)
  then show "undecided p n (put_wal (take k (wal_image w)) d)" .
  have "current (wal_file (put_wal (wal_image w) d)) = wal_image w"
    using assms(2,3) len by (intro put_wal_whole [of p n]) (auto simp: undecided_def)
  with u [of "length (wal_image w)"] show "fence_written p n w (put_wal (wal_image w) d)"
    by (simp add: fence_written_def)
qed

lemma fence_written_sync:
  "fence_written p n w d \<Longrightarrow> fenced p w (sync_wal d)"
  by (simp add: fence_written_def fenced_def undecided_def wal_holds_def)

lemma write_fence_keeps:
  assumes "publishable p n"
  shows "keeps (undecided p n) (write_fence n) (\<lambda>_. fenced p n) (\<lambda>_. undecided p n)"
proof -
  have n: "valid_record n" using assms by (simp add: publishable_def)
  have len: "length (current (wal_file d)) = wal_bytes" if "undecided p n d" for d
    using that publishable_lengths [OF assms] wal_current_between
    by (auto simp: undecided_def between_def)
  note put = undecided_put_wal [OF assms, where w = n]
  show ?thesis
    unfolding write_fence_def join_path_def wal_image(1) [OF n]
    apply (rule keeps_lift_then [where v = "wal_image n"], simp)
    apply (rule keeps_steps keeps_steps(2), assumption)+
    apply (rule keeps_ask_then [where v = wal_bytes], simp add: len, simp)
    apply (rule keeps_steps, assumption)
    apply (rule keeps_write_then [where R = "fence_written p n n"])
       apply (simp_all add: put)
    apply (rule keeps_steps, simp add: fence_written_def)+
    apply (rule keeps_ask_then [where v = wal_bytes], simp add: fence_written_def wal_image(2) [OF n], simp)
    apply (rule keeps_steps, simp add: fence_written_def)+
    apply (rule keeps_ask_then [where v = "wal_image n"])
     apply (simp add: fence_written_def wal_image(2) [OF n])
    apply (simp add: wal_image(5) [OF n])
    apply (rule keeps_steps, simp add: fence_written_def)
    apply (rule keeps_host_step)
      apply (simp_all add: fence_written_sync fenced_undecided assms)
    apply (simp add: fence_written_def)
    done
qed

section \<open>The next root\<close>

lemma show_next_keeps [simp]:
  "shows_root w r (show_next x f d) = shows_root w r d"
  "keeps_root w r (show_next x f d) = keeps_root w r d"
  "control_matches w (show_next x f d) = control_matches w d"
  "wal_holds w (show_next x f d) = wal_holds w d"
  "wal_between p n (show_next x f d) = wal_between p n d"
  by (simp_all add: shows_root_def keeps_root_def control_matches_def wal_holds_def wal_between_def
      show_next_def)

lemma visible_show_next [simp]:
  "visible (next_entry (show_next x f d) r) =
     (if r = x then f (visible (next_entry d x)) else visible (next_entry d r))"
  by (simp add: show_next_def)

text \<open>A disk predicate the temporary root files have no part in.\<close>

definition ignores_next :: "(store \<Rightarrow> bool) \<Rightarrow> bool" where
  "ignores_next F \<longleftrightarrow> (\<forall>d r f. F d \<longrightarrow> F (show_next r f d))"

lemma ignores_next_phases [intro]:
  "ignores_next (undecided p n)" "ignores_next (decided p n)" "ignores_next (fenced p n)"
  "ignores_next (settled n)" "ignores_next (\<lambda>d. decided p n d \<and> shows_root n r d)"
  by (simp_all add: ignores_next_def undecided_def decided_def fenced_def settled_def)

definition next_ready :: "wal_record \<Rightarrow> replica \<Rightarrow> store \<Rightarrow> bool" where
  "next_ready w r d \<longleftrightarrow> visible (next_entry d r) = Some (synced_file (root_image w r))"

definition next_written :: "wal_record \<Rightarrow> replica \<Rightarrow> store \<Rightarrow> bool" where
  "next_written w r d \<longleftrightarrow>
     (\<exists>f. visible (next_entry d r) = Some f \<and> current f = root_image w r)"

definition next_empty :: "replica \<Rightarrow> store \<Rightarrow> bool" where
  "next_empty r d \<longleftrightarrow> visible (next_entry d r) = Some (synced_file [])"

lemma next_steps:
  "next_empty r (create_next r d)"
  "next_empty r d \<Longrightarrow> next_written w r (put_next r (root_image w r) d)"
  "next_written w r d \<Longrightarrow> next_ready w r (sync_next r d)"
  "next_written w r d \<Longrightarrow> next_bytes r d = root_image w r"
  by (auto simp: next_empty_def next_written_def next_ready_def create_next_def put_next_def
      sync_next_def next_bytes_def write_file_def synced_file_def current_def sync_file_def)

lemma ignores_next_steps:
  assumes "ignores_next F" and "F d"
  shows "F (create_next r d)" "F (put_next r b d)" "F (sync_next r d)" "F (remove_next r d)"
  using assms by (simp_all add: ignores_next_def create_next_def put_next_def sync_next_def remove_next_def)

lemma keeps_create_then:
  assumes "ignores_next F" and "keeps (\<lambda>d. F d \<and> next_empty r d) (k ()) Q (\<lambda>_. F)"
  shows "keeps F (andthen (create_exclusive s r) k) Q (\<lambda>_. F)"
  unfolding create_exclusive_def
proof (rule keeps_andthen [where R = "\<lambda>_ d. F d \<and> next_empty r d"])
  show "keeps F (andthen (asking (\<lambda>d. visible (next_entry d r) = None))
      (\<lambda>absent. if absent then host_step s (create_next r) else raise (IoError s)))
      (\<lambda>_ d. F d \<and> next_empty r d) (\<lambda>_. F)"
    using ignores_next_steps [OF assms(1)] next_steps(1)
    by (intro keeps_ask_any keeps_if keeps_host_step keeps_raise) auto
qed (use assms(2) in simp)

lemma write_root_next_keeps:
  assumes "ignores_next F" and w: "valid_record w"
  shows "keeps F (write_root_next w r c) (\<lambda>_ d. F d \<and> next_ready w r d) (\<lambda>_. F)"
proof -
  note steps = ignores_next_steps [OF assms(1)] next_steps(1,2) next_steps(3,4) [where w = w]
  show ?thesis
    unfolding write_root_next_def join_path_def root_image(1) [OF w]
    apply (rule keeps_lift_then [where v = "root_image w r"], simp)
    apply (rule keeps_steps, assumption)+
    apply (rule keeps_create_then [OF assms(1)])
    apply (rule keeps_steps, simp)
    apply (rule keeps_write_then [where R = "\<lambda>d. F d \<and> next_written w r d"])
       apply (simp_all add: steps)
    apply (rule keeps_steps, simp)+
    apply (rule keeps_ask_then [where v = root_bytes], simp add: steps root_image(2) [OF w], simp)
    apply (rule keeps_steps, simp)+
    apply (rule keeps_ask_then [where v = "root_image w r"])
     apply (simp add: steps root_image(2) [OF w])
    apply (simp add: root_image(3) [OF w])
    apply (rule keeps_steps, simp)
    apply (rule keeps_host_step)
      apply (simp_all add: steps)
    done
qed

section \<open>Moving the roots\<close>

lemma rename_next_shows [simp]:
  "shows_root w r (rename_next x d) = (if r = x then next_ready w x d else shows_root w r d)"
  "keeps_root w r (rename_next x d) = keeps_root w r d"
  "control_matches w (rename_next x d) = control_matches w d"
  "wal_holds w (rename_next x d) = wal_holds w d"
  by (simp_all add: rename_next_def remove_next_def shows_root_def keeps_root_def control_matches_def
      wal_holds_def show_next_def next_ready_def)

lemma visible_rename_next [simp]:
  "visible (next_entry (rename_next x d) r) = (if r = x then None else visible (next_entry d r))"
  by (simp add: rename_next_def remove_next_def show_next_def)

lemma sync_database_simps [simp]:
  "visible (next_entry (sync_database d) r) = visible (next_entry d r)"
  "shows_root w r (sync_database d) = shows_root w r d"
  "keeps_root w r (sync_database d) = shows_root w r d"
  "control_matches w (sync_database d) = control_matches w d"
  "wal_holds w (sync_database d) = wal_holds w d" "wal_between p n (sync_database d) = wal_between p n d"
  by (simp_all add: sync_database_def sync_entry_def settled_entry_def shows_root_def keeps_root_def
      control_matches_def wal_holds_def wal_between_def)

lemma fenced_rename:
  assumes "publishable p n" and "fenced p n d" and "next_ready n r d"
  shows "decided p n (rename_next r d) \<and> shows_root n r (rename_next r d)"
  using assms publishable_control [OF assms(1)] by (auto simp: fenced_def decided_def)

lemma decided_rename:
  "decided p n d \<Longrightarrow> next_ready n x d \<Longrightarrow>
     decided p n (rename_next x d) \<and> shows_root n x (rename_next x d)"
  by (auto simp: decided_def)

lemma decided_sync: "decided p n d \<Longrightarrow> decided p n (sync_database d)"
  by (auto simp: decided_def)

lemma decided_all_sync: "decided p n d \<Longrightarrow> (\<forall>r. shows_root n r d) \<Longrightarrow> settled n (sync_database d)"
  by (auto simp: decided_def settled_def)

lemma keeps_sync_directory:
  assumes "\<And>d. P d \<Longrightarrow> Q () (sync_database d)" and "\<And>d x. P d \<Longrightarrow> E x d"
    and "\<And>d x. P d \<Longrightarrow> E x (sync_database d)"
  shows "keeps P sync_directory Q E"
  unfolding sync_directory_def
  using assms by (intro keeps_check_then keeps_host_step) auto

text \<open>What a publication leaves when it does not return.\<close>

definition unfinished :: "wal_record \<Rightarrow> wal_record \<Rightarrow> publication_failure option \<Rightarrow> store \<Rightarrow> bool" where
  "unfinished p n e d \<longleftrightarrow> undecided p n d \<or>
     decided p n d \<and> (\<forall>f. e = Some f \<longrightarrow> stage f = Uncertain)"

lemma keeps_before:
  assumes "keeps P m (\<lambda>_. Q) (\<lambda>_. undecided p n)"
  shows "keeps P (raising before_publication m) (\<lambda>_. Q) (unfinished p n)"
  by (rule keeps_raising, rule keeps_weaken [OF assms]) (auto simp: unfinished_def)

lemma keeps_uncertain:
  assumes "keeps P m (\<lambda>_. Q) (\<lambda>_ d. undecided p n d \<or> decided p n d)"
  shows "keeps P (raising uncertain m) (\<lambda>_. Q) (unfinished p n)"
  by (rule keeps_raising, rule keeps_weaken [OF assms]) (auto simp: unfinished_def)

lemma publish_snapshot_keeps:
  assumes "publishable p n"
  shows "keeps (settled p) (publish_snapshot p n) (\<lambda>_. settled n) (unfinished p n)"
proof (cases "transition_from n p")
  case None
  then show ?thesis
    using settled_undecided [OF assms]
    by (auto simp: publish_snapshot_def unfinished_def intro!: keeps_raise)
next
  case (Some kind)
  have n: "valid_record n" using assms by (simp add: publishable_def)
  let ?ready = "\<lambda>d. fenced p n d \<and> next_ready n ReplicaA d"
  let ?one = "\<lambda>d. decided p n d \<and> shows_root n ReplicaA d"
  have fence: "keeps (settled p) (write_fence n) (\<lambda>_. fenced p n) (\<lambda>_. undecided p n)"
    by (rule keeps_weaken [OF write_fence_keeps [OF assms]]) (auto intro: settled_undecided [OF assms])
  have root_a: "keeps (fenced p n) (write_root_next n ReplicaA True) (\<lambda>_. ?ready) (\<lambda>_. undecided p n)"
    by (rule keeps_weaken [OF write_root_next_keeps [OF ignores_next_phases(3) n]])
      (auto intro: fenced_undecided [OF assms])
  have quiet: "keeps ?ready cancel_check (\<lambda>_. ?ready) (\<lambda>_. undecided p n)"
    "keeps ?ready join_path (\<lambda>_. ?ready) (\<lambda>_. undecided p n)"
    unfolding join_path_def
    by (auto intro!: keeps_cancel_check keeps_host_check fenced_undecided [OF assms])
  have rename_a: "keeps ?ready (host_step s (rename_next ReplicaA)) (\<lambda>_. ?one)
      (\<lambda>_ d. undecided p n d \<or> decided p n d)" for s
    using fenced_rename [OF assms] fenced_undecided [OF assms] by (intro keeps_host_step) auto
  have sync_a: "keeps ?one sync_directory (\<lambda>_. ?one) (\<lambda>_ d. undecided p n d \<or> decided p n d)"
    using decided_sync by (intro keeps_sync_directory) auto
  have root_b: "keeps ?one (write_root_next n ReplicaB False) (\<lambda>_ d. ?one d \<and> next_ready n ReplicaB d)
      (\<lambda>_ d. undecided p n d \<or> decided p n d)"
    by (rule keeps_weaken [OF write_root_next_keeps [OF ignores_next_phases(5) n]]) auto
  have path_b: "keeps (\<lambda>d. ?one d \<and> next_ready n ReplicaB d) join_path
      (\<lambda>_ d. ?one d \<and> next_ready n ReplicaB d) (\<lambda>_ d. undecided p n d \<or> decided p n d)"
    unfolding join_path_def by (rule keeps_host_check) auto
  have rename_b: "keeps (\<lambda>d. ?one d \<and> next_ready n ReplicaB d) (host_step s (rename_next ReplicaB))
      (\<lambda>_ d. decided p n d \<and> (\<forall>r. shows_root n r d)) (\<lambda>_ d. undecided p n d \<or> decided p n d)" for s
    using decided_rename [of p n _ ReplicaB] by (intro keeps_host_step) (auto simp: replica_all)
  have sync_b: "keeps (\<lambda>d. decided p n d \<and> (\<forall>r. shows_root n r d)) sync_directory (\<lambda>_. settled n)
      (\<lambda>_ d. undecided p n d \<or> decided p n d)"
    using decided_all_sync decided_sync by (intro keeps_sync_directory) auto
  show ?thesis
    unfolding publish_snapshot_def Some option.case
    by (intro keeps_andthen [OF keeps_before [OF fence]] keeps_andthen [OF keeps_before [OF root_a]]
        keeps_andthen [OF keeps_before [OF quiet(1)]] keeps_andthen [OF keeps_before [OF quiet(2)]]
        keeps_andthen [OF keeps_uncertain [OF rename_a]] keeps_andthen [OF keeps_uncertain [OF sync_a]]
        keeps_andthen [OF keeps_uncertain [OF root_b]] keeps_andthen [OF keeps_uncertain [OF path_b]]
        keeps_andthen [OF keeps_uncertain [OF rename_b]] keeps_uncertain [OF sync_b])
qed

section \<open>Recovery\<close>

definition no_next :: "store \<Rightarrow> bool" where
  "no_next d \<longleftrightarrow> (\<forall>r. visible (next_entry d r) = None)"

definition stale_next :: "(replica \<Rightarrow> bool) \<Rightarrow> store \<Rightarrow> bool" where
  "stale_next pending d \<longleftrightarrow> (\<forall>r. visible (next_entry d r) \<noteq> None \<longrightarrow> pending r)"

lemma no_next_steps [simp]:
  "no_next (put_wal b d) = no_next d" "no_next (sync_wal d) = no_next d"
  "no_next (sync_database d) = no_next d"
  by (simp_all add: no_next_def sync_database_def sync_entry_def settled_entry_def)

lemma keeps_remove_then:
  assumes "ignores_next F" and E: "\<And>d x. F d \<Longrightarrow> E x d" and "present = pending r"
    and "keeps (\<lambda>d. F d \<and> stale_next (pending(r := False)) d) (k ()) Q E"
  shows "keeps (\<lambda>d. F d \<and> stale_next pending d) (andthen (remove_stale_next present r) k) Q E"
proof (cases "pending r")
  case True
  then show ?thesis
    unfolding remove_stale_next_def
    using assms(3,4) E ignores_next_steps(4) [OF assms(1)]
    by (simp, intro keeps_step_then [where R = "\<lambda>d. F d \<and> stale_next (pending(r := False)) d"])
      (auto simp: stale_next_def remove_next_def)
next
  case False
  then have "pending(r := False) = pending" by (simp add: fun_upd_idem)
  with False show ?thesis
    using assms(3,4) by (simp add: remove_stale_next_def keeps_return_then)
qed

lemma no_next_stale: "stale_next (pending(ReplicaA := False, ReplicaB := False)) d = no_next d"
  by (simp add: stale_next_def no_next_def replica_all)

lemma keeps_remove_both:
  assumes "ignores_next F" and E: "\<And>d x. F d \<Longrightarrow> E x d" and "keeps (\<lambda>d. F d \<and> no_next d) (k ()) Q E"
  shows "keeps (\<lambda>d. F d \<and> stale_next pending d)
    (andthen (remove_stale_next (pending ReplicaA) ReplicaA)
      (\<lambda>_. andthen (remove_stale_next (pending ReplicaB) ReplicaB) k)) Q E"
proof -
  have "keeps (\<lambda>d. F d \<and> stale_next (pending(ReplicaA := False)) d)
      (andthen (remove_stale_next (pending ReplicaB) ReplicaB) k) Q E"
    using assms by (intro keeps_remove_then) (simp_all add: no_next_stale)
  then show ?thesis by (intro keeps_remove_then [OF assms(1) E refl]) simp_all
qed

lemma keeps_sync_then:
  assumes "\<And>d. P d \<Longrightarrow> R (sync_database d)" and "\<And>d x. P d \<Longrightarrow> E x d" and "\<And>d x. R d \<Longrightarrow> E x d"
    and "keeps R (k ()) Q E"
  shows "keeps P (andthen sync_directory k) Q E"
  using assms by (intro keeps_andthen [OF keeps_sync_directory, where R = "\<lambda>_. R"]) auto

text \<open>A repair leaves the other replica and the WAL alone until the new root is durable.\<close>

definition repairing :: "wal_record \<Rightarrow> wal_record \<Rightarrow> replica \<Rightarrow> store \<Rightarrow> bool" where
  "repairing p n r d \<longleftrightarrow> decided p n d \<and> (\<forall>r'. r' \<noteq> r \<longrightarrow> shows_root n r' d)"

lemma ignores_next_repairing [intro]: "ignores_next (repairing p n r)"
  using ignores_next_phases(2) [of p n] by (simp add: ignores_next_def repairing_def)

lemma repair_root_keeps:
  assumes w: "valid_record n"
  shows "keeps (\<lambda>d. repairing p n r d \<and> no_next d) (repair_root n r)
    (\<lambda>_ d. settled n d \<and> no_next d) (\<lambda>_. decided p n)"
proof -
  let ?F = "\<lambda>d. repairing p n r d \<and> (\<forall>r'. r' \<noteq> r \<longrightarrow> visible (next_entry d r') = None)"
  have fold: "?F d" if "repairing p n r d \<and> no_next d" for d
    using that by (simp add: no_next_def)
  have put: "?F (create_next r d)" "?F (put_next r b d)" "?F (sync_next r d)" if "?F d" for d b
    using that ignores_next_steps [OF ignores_next_repairing]
    by (simp_all add: create_next_def put_next_def sync_next_def)
  note steps = put next_steps(1,2) next_steps(3,4) [where w = n]
  have E: "decided p n d" if "repairing p n r d" for d
    using that by (simp add: repairing_def)
  have create: "keeps (\<lambda>d. repairing p n r d \<and> no_next d) (create_exclusive s r)
      (\<lambda>_ d. ?F d \<and> next_empty r d) (\<lambda>_. decided p n)" for s
    unfolding create_exclusive_def
    using fold put(1) next_steps(1) E
    by (intro keeps_ask_any keeps_if keeps_host_step keeps_raise) auto
  have rename: "decided p n (rename_next r d)" "\<forall>r'. shows_root n r' (rename_next r d)" "no_next (rename_next r d)"
    if "?F d" "next_ready n r d" for d
    using that decided_rename [of p n d r] by (auto simp: repairing_def no_next_def)
  show ?thesis
    unfolding repair_root_def join_path_def root_image(1) [OF w]
    apply (rule keeps_lift_then [where v = "root_image n r"], simp)
    apply (rule keeps_steps, simp add: E)
    apply (rule keeps_andthen [OF create])
    apply (rule keeps_write_then [where R = "\<lambda>d. ?F d \<and> next_written n r d"])
       apply (simp_all add: steps E)
    apply (rule keeps_step_then [where R = "\<lambda>d. ?F d \<and> next_ready n r d"])
       apply (simp_all add: steps E)
    apply (rule keeps_steps, simp add: E)
    apply (rule keeps_ask_then [where v = root_bytes])
     apply (simp add: next_ready_def next_bytes_def synced_file_def current_def root_image(2) [OF w])
    apply simp
    apply (rule keeps_steps, simp add: E)
    apply (rule keeps_ask_then [where v = "root_image n r"])
     apply (simp add: next_ready_def next_bytes_def synced_file_def current_def)
    apply (simp add: root_image(3) [OF w])
    apply (rule keeps_lift_then [where v = "replica_of n r"], simp)
    apply simp
    apply (rule keeps_step_then [where R = "\<lambda>d. decided p n d \<and> (\<forall>r. shows_root n r d) \<and> no_next d"])
       apply (simp_all add: rename E)
     apply (simp add: repairing_def)
    apply (rule keeps_sync_directory)
      apply (simp_all add: decided_all_sync [of p] decided_sync)
    done
qed

lemma wal_between_self: "wal_between n n d = wal_holds n d"
proof -
  have "between (wal_image n) (wal_image n) c = (c = wal_image n)" for c
    using between_same [of "wal_image n" c] between_ends(1) [of "wal_image n" "wal_image n"] by blast
  then show ?thesis by (simp add: wal_between_def wal_holds_def)
qed

lemma settled_undecided_self: "undecided n n d \<longleftrightarrow> settled n d"
  by (simp add: undecided_def settled_def wal_between_self)

lemma publishable_self: "publishable p n \<Longrightarrow> publishable n n"
  by (simp add: publishable_def)

lemma reconcile_fence_keeps:
  assumes "publishable p n"
  shows "keeps (\<lambda>d. undecided p n d \<and> no_next d) (reconcile_fence wal_bytes (wal_image p))
    (\<lambda>_ d. settled p d \<and> no_next d) (\<lambda>_. undecided p n)"
proof -
  have len: "length (current (wal_file d)) = wal_bytes" if "undecided p n d" for d
    using that publishable_lengths [OF assms] wal_current_between
    by (auto simp: undecided_def between_def)
  have lenp: "length (wal_image p) = wal_bytes" using publishable_lengths [OF assms] by simp
  note put = undecided_put_wal [OF assms, where w = p]
  have sync: "settled p (sync_wal d)" "undecided p n (sync_wal d)" if "fence_written p n p d" for d
  proof -
    show "settled p (sync_wal d)"
      using fence_written_sync [OF that] by (simp add: fenced_def settled_def)
    then show "undecided p n (sync_wal d)" by (rule settled_undecided [OF assms])
  qed
  have E: "undecided p n d" if "fence_written p n p d" for d
    using that by (simp add: fence_written_def)
  show ?thesis
    unfolding reconcile_fence_def join_path_def
    apply (rule keeps_steps, simp)+
    apply (rule keeps_ask_then [where v = wal_bytes], simp add: len, simp)
    apply (rule keeps_write_then [where R = "\<lambda>d. fence_written p n p d \<and> no_next d"])
       apply (simp_all add: put)
    apply (rule keeps_steps, simp add: E)
    apply (rule keeps_ask_then [where v = "wal_image p"])
     apply (simp add: fence_written_def lenp)
    apply simp
    apply (rule keeps_host_step)
      apply (simp_all add: sync E)
    done
qed

lemma undecided_sync: "undecided p n d \<Longrightarrow> undecided p n (sync_database d)"
  by (simp add: undecided_def)

text \<open>Nothing is left to repair in the roots of an undecided disk.\<close>

lemma reconcile_roots_undecided:
  "keeps (\<lambda>d. undecided p n d \<and> stale_next pending d) (reconcile_roots p None pending)
    (\<lambda>_ d. undecided p n d \<and> no_next d) (\<lambda>_. undecided p n)"
proof -
  let ?P = "\<lambda>d. undecided p n d \<and> no_next d"
  have clear: "keeps ?P (if c then sync_directory else return ()) (\<lambda>_. ?P) (\<lambda>_. undecided p n)" for c
    by (auto intro!: keeps_sync_directory keeps_return simp: undecided_sync)
  have "keeps ?P (andthen (if pending ReplicaA \<or> pending ReplicaB then sync_directory else return ())
        (\<lambda>_. andthen (return ()) (\<lambda>_. sync_directory))) (\<lambda>_. ?P) (\<lambda>_. undecided p n)"
    by (rule keeps_andthen [OF clear keeps_return_then [OF keeps_sync_directory]])
      (auto simp: undecided_sync)
  then show ?thesis
    unfolding reconcile_roots_def option.case
    by (intro keeps_remove_both ignores_next_phases) simp_all
qed

lemma reconcile_roots_decided:
  assumes n: "valid_record n"
  shows "keeps (\<lambda>d. decided p n d \<and> (\<forall>r. rep \<noteq> Some r \<longrightarrow> shows_root n r d) \<and> stale_next pending d)
    (reconcile_roots n rep pending) (\<lambda>_ d. settled n d \<and> no_next d) (\<lambda>_. decided p n)"
proof -
  let ?F = "\<lambda>d. decided p n d \<and> (\<forall>r. rep \<noteq> Some r \<longrightarrow> shows_root n r d)"
  let ?P = "\<lambda>d. ?F d \<and> no_next d"
  have F: "ignores_next ?F"
    using ignores_next_phases(2) [of p n] by (simp add: ignores_next_def)
  have clear: "keeps ?P (if c then sync_directory else return ()) (\<lambda>_. ?P) (\<lambda>_. decided p n)" for c
    by (auto intro!: keeps_sync_directory keeps_return simp: decided_sync)
  have final: "keeps (\<lambda>d. decided p n d \<and> (\<forall>r. shows_root n r d) \<and> no_next d) sync_directory
      (\<lambda>_ d. settled n d \<and> no_next d) (\<lambda>_. decided p n)"
    by (rule keeps_sync_directory) (simp_all add: decided_all_sync [of p] decided_sync)
  have "keeps ?P (andthen (case rep of None \<Rightarrow> return () | Some r \<Rightarrow> repair_root n r) (\<lambda>_. sync_directory))
      (\<lambda>_ d. settled n d \<and> no_next d) (\<lambda>_. decided p n)"
  proof (cases rep)
    case None
    then show ?thesis
      by (simp add: keeps_return_then [OF keeps_weaken [OF final]])
  next
    case (Some r)
    have "keeps ?P (repair_root n r) (\<lambda>_ d. settled n d \<and> no_next d) (\<lambda>_. decided p n)"
      by (rule keeps_weaken [OF repair_root_keeps [OF n, of p r]]) (auto simp: Some repairing_def)
    moreover have "keeps (\<lambda>d. settled n d \<and> no_next d) sync_directory
        (\<lambda>_ d. settled n d \<and> no_next d) (\<lambda>_. decided p n)"
      by (rule keeps_weaken [OF final]) (auto simp: settled_decided settled_def)
    ultimately show ?thesis
      unfolding Some option.case by (rule keeps_andthen)
  qed
  then have "keeps ?P (andthen (if pending ReplicaA \<or> pending ReplicaB then sync_directory else return ())
      (\<lambda>_. andthen (case rep of None \<Rightarrow> return () | Some r \<Rightarrow> repair_root n r) (\<lambda>_. sync_directory)))
      (\<lambda>_ d. settled n d \<and> no_next d) (\<lambda>_. decided p n)"
    by (rule keeps_andthen [OF clear])
  then have "keeps (\<lambda>d. ?F d \<and> stale_next pending d) (reconcile_roots n rep pending)
      (\<lambda>_ d. settled n d \<and> no_next d) (\<lambda>_. decided p n)"
    unfolding reconcile_roots_def by (intro keeps_remove_both [OF F]) simp_all
  then show ?thesis by (simp add: conj_assoc)
qed

lemma repair_namespace_undecided:
  assumes "publishable p n" and "selected a = p" and "repair a = None" and "wal_length a = wal_bytes"
  shows "keeps (\<lambda>d. undecided p n d \<and> stale_next (pending_roots a) d) (repair_namespace a)
    (\<lambda>_ d. settled p d \<and> no_next d) (\<lambda>_. undecided p n)"
proof -
  have final: "keeps (\<lambda>d. settled p d \<and> no_next d)
      (andthen (host_check s) (\<lambda>_. host_check s')) (\<lambda>_ d. settled p d \<and> no_next d)
      (\<lambda>_. undecided p n)" for s s'
    using settled_undecided [OF assms(1)] by (intro keeps_check_then keeps_host_check) auto
  note p = publishable_valid(1) [OF assms(1)]
  show ?thesis
    unfolding repair_namespace_def assms wal_image(1) [OF p]
    by (intro keeps_andthen [OF reconcile_roots_undecided] keeps_check_then
        keeps_lift_then [OF map_error_simps(2)] keeps_andthen [OF reconcile_fence_keeps [OF assms(1)]]
        final) simp
qed

lemma repair_namespace_decided:
  assumes "publishable p n" and "selected a = n" and "wal_length a = wal_bytes"
  shows "keeps (\<lambda>d. decided p n d \<and> (\<forall>r. repair a \<noteq> Some r \<longrightarrow> shows_root n r d)
      \<and> stale_next (pending_roots a) d) (repair_namespace a)
    (\<lambda>_ d. settled n d \<and> no_next d) (\<lambda>_. decided p n)"
proof -
  have final: "keeps (\<lambda>d. settled n d \<and> no_next d)
      (andthen (host_check s) (\<lambda>_. host_check s')) (\<lambda>_ d. settled n d \<and> no_next d)
      (\<lambda>_. decided p n)" for s s'
    using settled_decided by (intro keeps_check_then keeps_host_check) auto
  note n = publishable_valid(2) [OF assms(1)]
  have fence: "keeps (\<lambda>d. settled n d \<and> no_next d) (reconcile_fence wal_bytes (wal_image n))
      (\<lambda>_ d. settled n d \<and> no_next d) (\<lambda>_. decided p n)"
    by (rule keeps_weaken [OF reconcile_fence_keeps [OF publishable_self [OF assms(1)]]])
      (auto simp: settled_undecided_self settled_decided)
  show ?thesis
    unfolding repair_namespace_def assms wal_image(1) [OF n]
    by (intro keeps_andthen [OF reconcile_roots_decided [OF n]] keeps_check_then
        keeps_lift_then [OF map_error_simps(2)] keeps_andthen [OF fence] final)
      (simp add: settled_decided)
qed

lemma keeps_lift_known:
  "(\<And>v. r = Inr v \<Longrightarrow> keeps P (k v) Q E) \<Longrightarrow> (\<And>d x. P d \<Longrightarrow> E x d) \<Longrightarrow>
     keeps P (andthen (lift r) k) Q E"
  by (cases r) (simp_all add: keeps_def andthen_def lift_def return_def raise_def)

lemma recover_undecided:
  assumes "publishable p n" and "expected = None \<or> expected = Some (database p)"
  shows "keeps (undecided p n) (recover_namespace validate expected)
    (\<lambda>a d. selected a = p \<and> settled p d \<and> no_next d) (\<lambda>_. undecided p n)"
proof -
  have "keeps (\<lambda>d. undecided p n d \<and> read_namespace_authority expected d = v)
      (andthen (lift v) (\<lambda>a. andthen (lift (validate (selected a))) (\<lambda>gen.
        andthen (raising (recovery_error gen) (repair_namespace a)) (\<lambda>_. return a))))
      (\<lambda>a d. selected a = p \<and> settled p d \<and> no_next d) (\<lambda>_. undecided p n)" for v
  proof (cases "\<exists>d. undecided p n d \<and> read_namespace_authority expected d = v")
    case False
    then show ?thesis by (auto simp: keeps_def)
  next
    case True
    show ?thesis
    proof (cases v)
      case (Inl e)
      then show ?thesis by (auto simp: keeps_def andthen_def lift_def raise_def)
    next
      case v: (Inr a)
      with True have a: "selected a = p" "repair a = None" "wal_length a = wal_bytes"
        using read_undecided_selects [OF assms(1) _ assms(2)] by blast+
      have "stale_next (pending_roots a) d"
        if "undecided p n d" "read_namespace_authority expected d = Inr a" for d
        using read_undecided_selects(4) [OF assms(1) that(1) assms(2) that(2)] by (simp add: stale_next_def)
      then have "keeps (\<lambda>d. undecided p n d \<and> read_namespace_authority expected d = Inr a)
          (repair_namespace a) (\<lambda>_ d. settled p d \<and> no_next d) (\<lambda>_. undecided p n)"
        by (intro keeps_weaken [OF repair_namespace_undecided [OF assms(1) a]]) auto
      then have "keeps (\<lambda>d. undecided p n d \<and> read_namespace_authority expected d = Inr a)
          (raising (recovery_error gen) (repair_namespace a)) (\<lambda>_ d. settled p d \<and> no_next d)
          (\<lambda>_. undecided p n)" for gen
        by (rule keeps_raising)
      then show ?thesis
        unfolding v
        by (intro keeps_lift_then [OF refl] keeps_lift_known keeps_andthen keeps_return) (simp_all add: a)
    qed
  qed
  then show ?thesis
    unfolding recover_namespace_def by (intro keeps_check_then keeps_ask_any) auto
qed

lemma recover_decided:
  assumes "publishable p n" and "expected = None \<or> expected = Some (database n)"
  shows "keeps (decided p n) (recover_namespace validate expected)
    (\<lambda>a d. selected a = n \<and> settled n d \<and> no_next d) (\<lambda>_. decided p n)"
proof -
  have "keeps (\<lambda>d. decided p n d \<and> read_namespace_authority expected d = v)
      (andthen (lift v) (\<lambda>a. andthen (lift (validate (selected a))) (\<lambda>gen.
        andthen (raising (recovery_error gen) (repair_namespace a)) (\<lambda>_. return a))))
      (\<lambda>a d. selected a = n \<and> settled n d \<and> no_next d) (\<lambda>_. decided p n)" for v
  proof (cases "\<exists>d. decided p n d \<and> read_namespace_authority expected d = v")
    case False
    then show ?thesis by (auto simp: keeps_def)
  next
    case True
    then obtain a where v: "v = Inr a" and a: "selected a = n" "wal_length a = wal_bytes"
      using read_decided [OF assms(1) _ assms(2)] by metis
    have "stale_next (pending_roots a) d \<and> (\<forall>r. repair a \<noteq> Some r \<longrightarrow> shows_root n r d)"
      if "decided p n d" "read_namespace_authority expected d = Inr a" for d
      by (rule read_decided [OF assms(1) that(1) assms(2)])
        (use that(2) in \<open>simp add: stale_next_def\<close>)
    then have "keeps (\<lambda>d. decided p n d \<and> read_namespace_authority expected d = Inr a)
        (repair_namespace a) (\<lambda>_ d. settled n d \<and> no_next d) (\<lambda>_. decided p n)"
      by (intro keeps_weaken [OF repair_namespace_decided [OF assms(1) a]]) auto
    then have "keeps (\<lambda>d. decided p n d \<and> read_namespace_authority expected d = Inr a)
        (raising (recovery_error gen) (repair_namespace a)) (\<lambda>_ d. settled n d \<and> no_next d)
        (\<lambda>_. decided p n)" for gen
      by (rule keeps_raising)
    then show ?thesis
      unfolding v
      by (intro keeps_lift_then [OF refl] keeps_lift_known keeps_andthen keeps_return) (simp_all add: a)
  qed
  then show ?thesis
    unfolding recover_namespace_def by (intro keeps_check_then keeps_ask_any) auto
qed

section \<open>Progress\<close>

lemma finishes_call_then:
  "(\<And>d. P d \<Longrightarrow> R (f d)) \<Longrightarrow> finishes k R (m ()) Q \<Longrightarrow>
     finishes (Suc k) P (andthen (host_call e f part) m) Q"
  using finishes_andthen [OF finishes_host_call, of P "\<lambda>_. R" f k m Q e part] by simp

lemma finishes_step_then:
  "(\<And>d. P d \<Longrightarrow> R (f d)) \<Longrightarrow> finishes k R (m ()) Q \<Longrightarrow>
     finishes (Suc k) P (andthen (host_step s f) m) Q"
  unfolding host_step_def by (rule finishes_call_then)

lemma finishes_write_then:
  "(\<And>d. P d \<Longrightarrow> R (f b d)) \<Longrightarrow> finishes k R (m ()) Q \<Longrightarrow>
     finishes (Suc k) P (andthen (host_write s f b) m) Q"
  unfolding host_write_def by (rule finishes_call_then)

lemma finishes_check_then:
  "finishes k P (m ()) Q \<Longrightarrow> finishes (Suc k) P (andthen (host_check s) m) Q"
  unfolding host_check_def by (rule finishes_step_then) simp_all

lemma finishes_cancel_then:
  "finishes k P (m ()) Q \<Longrightarrow> finishes (Suc k) P (andthen cancel_check m) Q"
  unfolding cancel_check_def by (rule finishes_call_then) simp_all

lemma finishes_mono: "finishes k P m Q \<Longrightarrow> finishes (k + i) P m Q"
  unfolding finishes_def
proof (intro allI impI)
  fix d n assume a: "\<forall>d n. P d \<longrightarrow> (\<exists>x d' j. j \<le> k \<and> Q x d'
        \<and> m \<lparr>disk = d, script = replicate (k + n) Done\<rparr>
            = (Returned x, \<lparr>disk = d', script = replicate (j + n) Done\<rparr>))" and "P d"
  then obtain x d' j where "j \<le> k" "Q x d'"
      "m \<lparr>disk = d, script = replicate (k + (i + n)) Done\<rparr>
         = (Returned x, \<lparr>disk = d', script = replicate (j + (i + n)) Done\<rparr>)"
    by blast
  then show "\<exists>x d' j. j \<le> k + i \<and> Q x d'
        \<and> m \<lparr>disk = d, script = replicate (k + i + n) Done\<rparr>
            = (Returned x, \<lparr>disk = d', script = replicate (j + n) Done\<rparr>)"
    by (intro exI [of _ x] exI [of _ d'] exI [of _ "j + i"]) (simp add: ac_simps)
qed

lemma finishes_optional_cancel_then:
  "finishes k P (m ()) Q \<Longrightarrow> finishes (Suc k) P (andthen (check_optional_cancel c) m) Q"
  using finishes_cancel_then [of k P m Q] finishes_mono [of k P "m ()" Q 1]
  by (simp add: check_optional_cancel_def andthen_def [abs_def] return_def [abs_def])

lemma finishes_ask_then:
  "(\<And>d. P d \<Longrightarrow> q d = v) \<Longrightarrow> finishes k P (m v) Q \<Longrightarrow> finishes k P (andthen (asking q) m) Q"
  unfolding finishes_def by (simp add: andthen_def asking_def)

lemma finishes_lift_then:
  "r = Inr v \<Longrightarrow> finishes k P (m v) Q \<Longrightarrow> finishes k P (andthen (lift r) m) Q"
  unfolding finishes_def by (simp add: andthen_def lift_def return_def)

lemma finishes_return_then: "finishes k P (m x) Q \<Longrightarrow> finishes k P (andthen (return x) m) Q"
  unfolding finishes_def by (simp add: andthen_def return_def)

lemma finishes_step:
  "(\<And>d. P d \<Longrightarrow> Q () (f d)) \<Longrightarrow> finishes 1 P (host_step s f) Q"
  unfolding host_step_def by (rule finishes_host_call)

lemma finishes_check: "finishes 1 P (host_check s) (\<lambda>_. P)"
  unfolding host_check_def by (rule finishes_step)

lemma finishes_cancel: "finishes 1 P cancel_check (\<lambda>_. P)"
  unfolding cancel_check_def by (rule finishes_host_call)

lemmas finishes_steps = finishes_check_then finishes_cancel_then finishes_optional_cancel_then

lemma finishes_sync_directory:
  assumes "\<And>d. P d \<Longrightarrow> Q () (sync_database d)"
  shows "finishes 2 P sync_directory Q"
proof -
  have "finishes (Suc 1) P sync_directory Q"
    unfolding sync_directory_def by (intro finishes_check_then finishes_step assms)
  then show ?thesis by (simp add: numeral_2_eq_2)
qed

lemma finishes_create_then:
  assumes "\<And>d. P d \<Longrightarrow> visible (next_entry d r) = None" and "\<And>d. P d \<Longrightarrow> R (create_next r d)"
    and "finishes k R (m ()) Q"
  shows "finishes (Suc k) P (andthen (create_exclusive s r) m) Q"
proof -
  have "andthen (create_exclusive s r) m = andthen (asking (\<lambda>d. visible (next_entry d r) = None))
      (\<lambda>absent. andthen (if absent then host_step s (create_next r) else raise (IoError s)) m)"
    by (rule ext) (simp add: create_exclusive_def andthen_def asking_def)
  then show ?thesis
    by (simp only:, intro finishes_ask_then [where v = True])
      (simp_all add: assms finishes_step_then [where R = R])
qed

lemma write_fence_finishes:
  assumes "publishable p n"
  shows "finishes 13 (\<lambda>d. undecided p n d \<and> no_next d) (write_fence n)
    (\<lambda>_ d. fenced p n d \<and> no_next d)"
proof -
  have n: "valid_record n" using assms by (simp add: publishable_def)
  have len: "length (current (wal_file d)) = wal_bytes" if "undecided p n d" for d
    using that publishable_lengths [OF assms] wal_current_between
    by (auto simp: undecided_def between_def)
  note put = undecided_put_wal [OF assms, where w = n]
  have "finishes (Suc (Suc (Suc (Suc (Suc (Suc (Suc (Suc (Suc (Suc (Suc (Suc 1))))))))))))
      (\<lambda>d. undecided p n d \<and> no_next d) (write_fence n) (\<lambda>_ d. fenced p n d \<and> no_next d)"
    unfolding write_fence_def join_path_def wal_image(1) [OF n]
    apply (rule finishes_lift_then [where v = "wal_image n"], simp)
    apply (rule finishes_steps)+
    apply (rule finishes_ask_then [where v = wal_bytes], simp add: len, simp)
    apply (rule finishes_steps)
    apply (rule finishes_write_then [where R = "\<lambda>d. fence_written p n n d \<and> no_next d"])
     apply (simp add: put)
    apply (rule finishes_steps)+
    apply (rule finishes_ask_then [where v = wal_bytes], simp add: fence_written_def wal_image(2) [OF n], simp)
    apply (rule finishes_steps)+
    apply (rule finishes_ask_then [where v = "wal_image n"])
     apply (simp add: fence_written_def wal_image(2) [OF n])
    apply (simp add: wal_image(5) [OF n])
    apply (rule finishes_steps)
    apply (rule finishes_step [unfolded One_nat_def])
    apply (simp add: fence_written_sync [of p n])
    done
  then show ?thesis by (simp add: eval_nat_numeral)
qed

lemma write_root_next_finishes:
  assumes F: "\<And>d f. F d \<Longrightarrow> F (show_next r f d)" and w: "valid_record w"
    and absent: "\<And>d. F d \<and> G d \<Longrightarrow> visible (next_entry d r) = None"
  shows "finishes 11 (\<lambda>d. F d \<and> G d) (write_root_next w r c) (\<lambda>_ d. F d \<and> next_ready w r d)"
proof -
  have "F (create_next r d)" "F (put_next r b d)" "F (sync_next r d)" if "F d" for d b
    using F [OF that] by (simp_all add: create_next_def put_next_def sync_next_def)
  note steps = this next_steps(1,2) next_steps(3,4) [where w = w]
  have "finishes (Suc (Suc (Suc (Suc (Suc (Suc (Suc (Suc (Suc (Suc 1))))))))))
      (\<lambda>d. F d \<and> G d) (write_root_next w r c) (\<lambda>_ d. F d \<and> next_ready w r d)"
    unfolding write_root_next_def join_path_def root_image(1) [OF w]
    apply (rule finishes_lift_then [where v = "root_image w r"], simp)
    apply (rule finishes_steps)+
    apply (rule finishes_create_then [where R = "\<lambda>d. F d \<and> next_empty r d"], simp add: absent)
     apply (simp add: steps)
    apply (rule finishes_steps)
    apply (rule finishes_write_then [where R = "\<lambda>d. F d \<and> next_written w r d"])
     apply (simp add: steps)
    apply (rule finishes_steps)+
    apply (rule finishes_ask_then [where v = root_bytes], simp add: steps root_image(2) [OF w], simp)
    apply (rule finishes_steps)+
    apply (rule finishes_ask_then [where v = "root_image w r"])
     apply (simp add: steps root_image(2) [OF w])
    apply (simp add: root_image(3) [OF w])
    apply (rule finishes_steps)
    apply (rule finishes_step [unfolded One_nat_def])
    apply (simp add: steps)
    done
  then show ?thesis by (simp add: eval_nat_numeral)
qed

lemma publish_snapshot_finishes:
  assumes "publishable p n" and "succeeds n p"
  shows "finishes 50 (\<lambda>d. settled p d \<and> no_next d) (publish_snapshot p n)
    (\<lambda>_ d. settled n d \<and> no_next d)"
proof -
  have n: "valid_record n" using assms(1) by (simp add: publishable_def)
  let ?B = "\<lambda>d. visible (next_entry d ReplicaB) = None"
  let ?A = "\<lambda>d. fenced p n d \<and> ?B d"
  let ?one = "\<lambda>d. decided p n d \<and> shows_root n ReplicaA d \<and> visible (next_entry d ReplicaA) = None"
  have fence: "finishes 13 (\<lambda>d. settled p d \<and> no_next d) (write_fence n) (\<lambda>_ d. ?A d \<and> no_next d)"
    by (rule finishes_weaken [OF write_fence_finishes [OF assms(1)]])
      (auto intro: settled_undecided [OF assms(1)] simp: no_next_def)
  have root_a: "finishes 11 (\<lambda>d. ?A d \<and> no_next d) (write_root_next n ReplicaA True)
      (\<lambda>_ d. ?A d \<and> next_ready n ReplicaA d)"
    by (rule write_root_next_finishes [OF _ n])
      (use ignores_next_phases(3) [of p n] in \<open>auto simp: ignores_next_def no_next_def\<close>)
  have rename_a: "finishes 1 (\<lambda>d. ?A d \<and> next_ready n ReplicaA d) (host_step s (rename_next ReplicaA))
      (\<lambda>_ d. ?one d \<and> ?B d)" for s
    using fenced_rename [OF assms(1)] by (intro finishes_step) auto
  have sync_a: "finishes 2 (\<lambda>d. ?one d \<and> ?B d) sync_directory (\<lambda>_ d. ?one d \<and> ?B d)"
    by (rule finishes_sync_directory) (auto simp: decided_sync)
  have root_b: "finishes 11 (\<lambda>d. ?one d \<and> ?B d) (write_root_next n ReplicaB False)
      (\<lambda>_ d. ?one d \<and> next_ready n ReplicaB d)"
    by (rule write_root_next_finishes [OF _ n])
      (use ignores_next_phases(2) [of p n] in \<open>auto simp: ignores_next_def\<close>)
  have rename_b: "finishes 1 (\<lambda>d. ?one d \<and> next_ready n ReplicaB d) (host_step s (rename_next ReplicaB))
      (\<lambda>_ d. decided p n d \<and> (\<forall>r. shows_root n r d) \<and> no_next d)" for s
    using decided_rename [of p n _ ReplicaB]
    by (intro finishes_step) (auto simp: replica_all no_next_def)
  have sync_b: "finishes 2 (\<lambda>d. decided p n d \<and> (\<forall>r. shows_root n r d) \<and> no_next d) sync_directory
      (\<lambda>_ d. settled n d \<and> no_next d)"
    by (rule finishes_sync_directory) (auto simp: decided_all_sync [of p])
  obtain kind where kind: "transition_from n p = Some kind"
    using assms(2) by (auto simp: succeeds_def)
  note f = finishes_andthen [OF finishes_raising]
  note path = finishes_check [of _ "''construct filesystem path''", folded join_path_def]
  have "finishes (13 + (11 + (1 + (1 + (1 + (1 + (2 + (11 + (1 + (1 + (1 + 2)))))))))))
      (\<lambda>d. settled p d \<and> no_next d) (publish_snapshot p n) (\<lambda>_ d. settled n d \<and> no_next d)"
    unfolding publish_snapshot_def kind option.case
    by (rule f [OF fence] f [OF root_a] f [OF finishes_cancel] f [OF path] f [OF rename_a] f [OF sync_a]
        f [OF root_b] f [OF rename_b] finishes_raising [OF sync_b])+
  then have "finishes (46 + 4) (\<lambda>d. settled p d \<and> no_next d) (publish_snapshot p n)
      (\<lambda>_ d. settled n d \<and> no_next d)"
    by (intro finishes_mono) simp
  then show ?thesis by simp
qed

definition wal_whole :: "store \<Rightarrow> bool" where
  "wal_whole d \<longleftrightarrow> length (current (wal_file d)) = wal_bytes"

lemma wal_whole_steps [simp]:
  "wal_whole (show_next r f d) = wal_whole d" "wal_whole (rename_next r d) = wal_whole d"
  "wal_whole (sync_database d) = wal_whole d"
  by (simp_all add: wal_whole_def show_next_def rename_next_def remove_next_def sync_database_def)

lemma repair_root_finishes:
  assumes w: "valid_record n"
  shows "finishes 9 (\<lambda>d. no_next d \<and> wal_whole d) (repair_root n r)
    (\<lambda>_ d. no_next d \<and> wal_whole d)"
proof -
  let ?F = "\<lambda>d. (\<forall>r'. r' \<noteq> r \<longrightarrow> visible (next_entry d r') = None) \<and> wal_whole d"
  have F: "?F (create_next r d)" "?F (put_next r b d)" "?F (sync_next r d)" if "?F d" for d b
    using that by (simp_all add: create_next_def put_next_def sync_next_def)
  note steps = F next_steps(1,2) next_steps(3,4) [where w = n]
  have "finishes (Suc (Suc (Suc (Suc (Suc (Suc (Suc (Suc (Suc 0))))))))) (\<lambda>d. no_next d \<and> wal_whole d) (repair_root n r)
      (\<lambda>_ d. no_next d \<and> wal_whole d)"
    unfolding repair_root_def join_path_def root_image(1) [OF w]
    apply (rule finishes_lift_then [where v = "root_image n r"], simp)
    apply (rule finishes_steps)
    apply (rule finishes_create_then [where R = "\<lambda>d. ?F d \<and> next_empty r d"])
      apply (simp add: no_next_def)
     apply (simp add: no_next_def steps)
    apply (rule finishes_write_then [where R = "\<lambda>d. ?F d \<and> next_written n r d"])
     apply (simp add: steps)
    apply (rule finishes_step_then [where R = "\<lambda>d. ?F d \<and> next_ready n r d"])
     apply (simp add: steps)
    apply (rule finishes_steps)
    apply (rule finishes_ask_then [where v = root_bytes])
     apply (simp add: next_ready_def next_bytes_def synced_file_def current_def root_image(2) [OF w])
    apply simp
    apply (rule finishes_steps)
    apply (rule finishes_ask_then [where v = "root_image n r"])
     apply (simp add: next_ready_def next_bytes_def synced_file_def current_def)
    apply (simp add: root_image(3) [OF w])
    apply (rule finishes_lift_then [where v = "replica_of n r"], simp)
    apply simp
    apply (rule finishes_step_then [where R = "\<lambda>d. no_next d \<and> wal_whole d"])
     apply (simp add: no_next_def)
    apply (rule finishes_sync_directory [unfolded numeral_2_eq_2])
    apply simp
    done
  then show ?thesis by (simp add: eval_nat_numeral)
qed

lemma finishes_remove_then:
  assumes "present = pending r"
    and "finishes k (\<lambda>d. stale_next (pending(r := False)) d \<and> wal_whole d) (m ()) Q"
  shows "finishes (Suc k) (\<lambda>d. stale_next pending d \<and> wal_whole d)
    (andthen (remove_stale_next present r) m) Q"
proof (cases "pending r")
  case True
  then show ?thesis
    unfolding remove_stale_next_def assms(1)
    using assms(2)
    by (simp, intro finishes_step_then
        [where R = "\<lambda>d. stale_next (pending(r := False)) d \<and> wal_whole d"])
      (auto simp: stale_next_def remove_next_def)
next
  case False
  then have "pending(r := False) = pending" by (simp add: fun_upd_idem)
  with assms(2) have "finishes (k + 1) (\<lambda>d. stale_next pending d \<and> wal_whole d)
      (andthen (return ()) m) Q"
    by (intro finishes_mono finishes_return_then) simp
  with False show ?thesis
    using assms(1) by (simp add: remove_stale_next_def)
qed

lemma reconcile_roots_finishes:
  assumes "valid_record n"
  shows "finishes 15 (\<lambda>d. stale_next pending d \<and> wal_whole d) (reconcile_roots n rep pending)
    (\<lambda>_ d. no_next d \<and> wal_whole d)"
proof -
  let ?P = "\<lambda>d. no_next d \<and> wal_whole d"
  have sync: "finishes 2 ?P sync_directory (\<lambda>_. ?P)"
    by (rule finishes_sync_directory) simp
  have ret: "finishes k ?P (return ()) (\<lambda>_. ?P)" for k
    using finishes_mono [OF finishes_return, of ?P "\<lambda>_. ?P" "()" k] by (simp del: split_paired_All)
  have clear: "finishes 2 ?P (if c then sync_directory else return ()) (\<lambda>_. ?P)" for c
    using sync ret [of 2] by (cases c) simp_all
  have "finishes 9 ?P (case rep of None \<Rightarrow> return () | Some r \<Rightarrow> repair_root n r) (\<lambda>_. ?P)"
    using ret repair_root_finishes [OF assms] by (cases rep) auto
  note body = finishes_andthen [OF clear finishes_andthen [OF this sync]]
  have "finishes (Suc (Suc (2 + (9 + 2)))) (\<lambda>d. stale_next pending d \<and> wal_whole d)
      (reconcile_roots n rep pending) (\<lambda>_. ?P)"
    unfolding reconcile_roots_def
    by (rule finishes_remove_then [OF refl], rule finishes_remove_then, simp)
      (simp only: no_next_stale body)
  then show ?thesis by (simp add: eval_nat_numeral)
qed

lemma reconcile_fence_finishes:
  assumes "length bytes = wal_bytes"
  shows "finishes 6 (\<lambda>d. no_next d \<and> wal_whole d) (reconcile_fence wal_bytes bytes) (\<lambda>_ _. True)"
proof -
  have "finishes (Suc (Suc (Suc (Suc (Suc 1))))) (\<lambda>d. no_next d \<and> wal_whole d)
      (reconcile_fence wal_bytes bytes) (\<lambda>_ _. True)"
    unfolding reconcile_fence_def join_path_def
    apply (rule finishes_steps)+
    apply (rule finishes_ask_then [where v = wal_bytes], simp add: wal_whole_def, simp)
    apply (rule finishes_write_then [where R = "\<lambda>d. current (wal_file d) = bytes"])
     apply (simp add: wal_whole_def current_def assms)
    apply (rule finishes_steps)
    apply (rule finishes_ask_then [where v = bytes], simp add: assms)
    apply simp
    apply (rule finishes_step [unfolded One_nat_def])
    apply simp
    done
  then show ?thesis by (simp add: eval_nat_numeral)
qed

lemma repair_namespace_finishes:
  assumes "valid_record (selected a)" and "wal_length a = wal_bytes"
  shows "finishes 24 (\<lambda>d. stale_next (pending_roots a) d \<and> wal_whole d) (repair_namespace a) (\<lambda>_ _. True)"
proof -
  have final: "finishes 2 (\<lambda>_. True) (andthen (host_check s) (\<lambda>_. host_check s')) (\<lambda>_ _. True)" for s s'
    using finishes_check_then [OF finishes_check, of "\<lambda>_. True"] by (simp add: numeral_2_eq_2)
  have "finishes (15 + (1 + (6 + 2))) (\<lambda>d. stale_next (pending_roots a) d \<and> wal_whole d)
      (repair_namespace a) (\<lambda>_ _. True)"
    unfolding repair_namespace_def assms(2) wal_image(1) [OF assms(1)]
    by (rule finishes_andthen [OF reconcile_roots_finishes [OF assms(1)]] finishes_andthen [OF finishes_check]
        finishes_lift_then [OF map_error_simps(2)]
        finishes_andthen [OF reconcile_fence_finishes [OF wal_image(2) [OF assms(1)]]] final)+
  then show ?thesis by simp
qed

text \<open>On any disk whose records can be read, recovery finishes if the host does its part.\<close>

lemma recover_namespace_finishes:
  assumes "read_namespace_authority expected d = Inr a" and "valid_record (selected a)"
    and "pending_roots a = (\<lambda>r. visible (next_entry d r) \<noteq> None)"
    and "wal_length a = wal_bytes" and "wal_length a = length (current (wal_file d))"
    and "validate (selected a) = Inr gen"
  shows "finishes 25 (\<lambda>d'. d' = d) (recover_namespace validate expected) (\<lambda>a' _. a' = a)"
proof -
  have "finishes (24 + 0) (\<lambda>d'. d' = d)
     (andthen (raising (recovery_error gen) (repair_namespace a)) (\<lambda>_. return a)) (\<lambda>a' _. a' = a)"
    by (rule finishes_andthen [OF finishes_raising [OF finishes_weaken
          [OF repair_namespace_finishes [OF assms(2,4)]]]])
      (use assms(3-5) in \<open>auto simp: stale_next_def wal_whole_def\<close>)
  then have "finishes (Suc 24) (\<lambda>d'. d' = d) (recover_namespace validate expected) (\<lambda>a' _. a' = a)"
    unfolding recover_namespace_def
    by (intro finishes_check_then finishes_ask_then [where v = "Inr a"] finishes_lift_then [OF refl]
        finishes_lift_then [OF assms(6)]) (simp_all add: assms(1))
  then show ?thesis by simp
qed

end
