(* ===== verification/Commit_Properties.thy ===== *)
theory Commit_Properties
  imports Atomic_Commit
begin

text \<open>
  What the commit protocol promises its callers, over any sequence of crashes and
  recoveries after a publication; with a concrete database on which every hypothesis holds.
\<close>

section \<open>Reopening\<close>

text \<open>
  What can become of a disk while nothing is published: the machine crashes, or recovery
  runs on it, to the end or not.
\<close>

inductive reopened :: "(wal_record \<Rightarrow> db_error + u64) \<Rightarrow> database_id option \<Rightarrow> store \<Rightarrow> store \<Rightarrow> bool"
  for validate expected d0 where
  untouched: "reopened validate expected d0 d0"
| crashed: "reopened validate expected d0 d \<Longrightarrow> crash d d' \<Longrightarrow> reopened validate expected d0 d'"
| recovered: "reopened validate expected d0 (disk h) \<Longrightarrow>
    recover_namespace validate expected h = (r, h') \<Longrightarrow> reopened validate expected d0 (disk h')"

lemma keeps_run: "keeps P m Q E \<Longrightarrow> P (disk h) \<Longrightarrow> m h = r \<Longrightarrow> ends Q E r"
  using keepsD by blast

lemma publishable_database: "publishable p n \<Longrightarrow> database n = database p"
  by (auto simp: publishable_def dest: succeeds_database)

lemma ends_or:
  "ends Q E (r, h) \<Longrightarrow> (\<And>x. Q x (disk h) \<Longrightarrow> P (disk h)) \<Longrightarrow> (\<And>x. E x (disk h) \<Longrightarrow> P (disk h)) \<Longrightarrow> P (disk h)"
  by (cases r) auto

lemma reopened_undecided:
  assumes "reopened validate expected d0 d" and "publishable p n" and "undecided p n d0"
    and "expected = None \<or> expected = Some (database p)"
  shows "undecided p n d"
  using assms(1)
proof (induction rule: reopened.induct)
  case untouched
  then show ?case by (rule assms(3))
next
  case (crashed d d')
  then show ?case using crash_undecided by blast
next
  case (recovered h r h')
  have "ends (\<lambda>a d. selected a = p \<and> settled p d \<and> no_next d) (\<lambda>_. undecided p n) (r, h')"
    by (rule keeps_run [OF recover_undecided [OF assms(2,4)] recovered.IH recovered.hyps(2)])
  then show ?case
    by (rule ends_or) (use settled_undecided [OF assms(2)] in auto)
qed

lemma reopened_settled:
  assumes "reopened validate expected d0 d" and "publishable p n" and "settled n d0"
    and "expected = None \<or> expected = Some (database n)"
  shows "settled n d"
  using reopened_undecided [OF assms(1) publishable_self [OF assms(2)]] assms(3,4)
  by (simp add: settled_undecided_self)

lemma reopened_unfinished:
  assumes "reopened validate expected d0 d" and "publishable p n"
    and "undecided p n d0 \<or> decided p n d0" and "expected = None \<or> expected = Some (database p)"
  shows "undecided p n d \<or> decided p n d"
  using assms(1)
proof (induction rule: reopened.induct)
  case untouched
  then show ?case by (rule assms(3))
next
  case (crashed d d')
  then show ?case using crash_undecided crash_decided [OF assms(2)] by blast
next
  case (recovered h r h')
  have db: "expected = None \<or> expected = Some (database n)"
    using assms(4) publishable_database [OF assms(2)] by simp
  from recovered.IH show ?case
  proof
    assume "undecided p n (disk h)"
    then have "undecided p n (disk h')"
      using reopened.recovered [OF reopened.untouched recovered.hyps(2)] reopened_undecided assms(2,4)
      by blast
    then show ?thesis ..
  next
    assume d: "decided p n (disk h)"
    have "ends (\<lambda>a d. selected a = n \<and> settled n d \<and> no_next d) (\<lambda>_. decided p n) (r, h')"
      by (rule keeps_run [OF recover_decided [OF assms(2) db] d recovered.hyps(2)])
    then show ?thesis
      by (rule ends_or) (use settled_decided in auto)
  qed
qed

text \<open>
  A publication that is not one step ahead is refused before any call, so that it ends as one of
  the prior snapshot onto itself would.
\<close>

lemma publish_ends:
  assumes "valid_record p" and "valid_record w" and "settled p (disk h)" and "publish_snapshot p w h = (r, h')"
  obtains n where "publishable p n" and "n = p \<or> n = w" and "r = Returned () \<Longrightarrow> n = w"
    and "ends (\<lambda>_. settled n) (unfinished p n) (r, h')"
proof (cases "succeeds w p")
  case True
  then have "publishable p w" using assms(1,2) by (simp add: publishable_def)
  from keeps_run [OF publish_snapshot_keeps [OF this] assms(3,4)] this show thesis by (intro that) auto
next
  case False
  then have "transition_from w p = None" by (cases "transition_from w p") (auto simp: succeeds_def)
  then have r: "r = Raised (before_publication (Corrupt ''invalid publication transition''))" "h' = h"
    using assms(4) by (simp_all add: publish_snapshot_def raise_def)
  have "publishable p p" using assms(1) by (simp add: publishable_def)
  then show thesis
    by (rule that) (use assms(3) r in \<open>auto simp: unfinished_def settled_undecided_self\<close>)
qed

lemma undecided_self_whole: "undecided p p d \<Longrightarrow> \<not> undetected_tear p p d"
  using current_in [of "wal_file d"]
  by (auto simp: settled_undecided_self settled_def wal_holds_def undetected_tear_def Let_def)

text \<open>What reading finds on any disk an unfinished publication can have become.\<close>

lemma aftermath_reads:
  assumes "publishable p n" and "n = p \<or> n = w" and "undecided p n d \<or> decided p n d"
    and "expected = None \<or> expected = Some (database p)"
  shows "(\<exists>a. read_namespace_authority expected d = Inr a)
      \<or> undetected_tear p w d \<and> (\<forall>r. shows_root p r d \<and> keeps_root p r d)"
    and "read_namespace_authority expected d = Inr a \<Longrightarrow>
      valid_record (selected a) \<and> pending_roots a = (\<lambda>r. visible (next_entry d r) \<noteq> None)
      \<and> wal_length a = wal_bytes \<and> wal_length a = length (current (wal_file d))
      \<and> (undecided p n d \<and> selected a = p \<or> decided p n d \<and> selected a = n)"
proof -
  have len: "length (current (wal_file d)) = wal_bytes"
    using assms(3) wal_current_between [of p n d] publishable_lengths [OF assms(1)]
      wal_holds_between [OF assms(1), of d]
    by (auto simp: undecided_def decided_def between_def)
  note valid = publishable_valid [OF assms(1)]
  have db: "expected = None \<or> expected = Some (database n)"
    using assms(4) publishable_database [OF assms(1)] by simp
  have u: "(\<exists>a. read_namespace_authority expected d = Inr a) \<or> undetected_tear p w d" if "undecided p n d"
    using read_undecided [OF assms(1) that assms(4)] undecided_self_whole that assms(2) by blast
  have "\<exists>a. read_namespace_authority expected d = Inr a" if "decided p n d"
    by (rule read_decided [OF assms(1) that db]) blast
  with u assms(3) show "(\<exists>a. read_namespace_authority expected d = Inr a)
      \<or> undetected_tear p w d \<and> (\<forall>r. shows_root p r d \<and> keeps_root p r d)"
    by (auto simp: undecided_def)
  assume a: "read_namespace_authority expected d = Inr a"
  from assms(3) show "valid_record (selected a) \<and> pending_roots a = (\<lambda>r. visible (next_entry d r) \<noteq> None)
      \<and> wal_length a = wal_bytes \<and> wal_length a = length (current (wal_file d))
      \<and> (undecided p n d \<and> selected a = p \<or> decided p n d \<and> selected a = n)"
  proof
    assume u: "undecided p n d"
    show ?thesis using read_undecided_selects [OF assms(1) u assms(4) a] valid len u by simp
  next
    assume d: "decided p n d"
    show ?thesis
      by (rule read_decided [OF assms(1) d db]) (use a valid len d in auto)
  qed
qed

text \<open>C1: A commit is atomic and durable. Take a settled database, publish any snapshot, let any
  call fail or the process stop anywhere, and then let the machine crash and recovery run,
  or be cut short itself, any number of times. A database that opens is on the prior snapshot or on
  the new one; on the new one for good if the publication returned; and on the prior one for
  good if it reported that nothing was published. It does open, unless the WAL was torn into
  a mixture of the two records whose CRC32C matches by accident: CRC32C excludes no such
  mixture, and opening is then refused while both roots still durably hold the prior snapshot.
  A publication that returned is out of reach of this too.\<close>

theorem publication_is_atomic:
  assumes "valid_record prior" and "valid_record record" and "settled prior (disk h)"
    and "publish_snapshot prior record h = (r, h')"
    and "expected = None \<or> expected = Some (database prior)"
    and "reopened validate expected (disk h') d"
  shows "(\<forall>a. read_namespace_authority expected d = Inr a \<longrightarrow>
        (selected a = prior \<or> selected a = record)
        \<and> (r = Returned () \<longrightarrow> selected a = record)
        \<and> (\<forall>e. r = Raised (PublicationFailure e BeforePublication) \<longrightarrow> selected a = prior))
    \<and> ((\<exists>a. read_namespace_authority expected d = Inr a)
       \<or> r \<noteq> Returned () \<and> undetected_tear prior record d
         \<and> (\<forall>replica. shows_root prior replica d \<and> keeps_root prior replica d))"
proof -
  obtain n where pub: "publishable prior n" and n: "n = prior \<or> n = record" "r = Returned () \<Longrightarrow> n = record"
    and end_state: "ends (\<lambda>_. settled n) (unfinished prior n) (r, h')"
    by (rule publish_ends [OF assms(1-4)]) blast
  have exp: "expected = None \<or> expected = Some (database n)"
    using assms(5) publishable_database [OF pub] by simp
  have cases: "undecided prior n d \<or> decided prior n d"
    using end_state reopened_unfinished [OF assms(6) pub _ assms(5)] settled_decided
    by (cases r) (auto simp: unfinished_def)
  note reads = aftermath_reads [OF pub n(1) cases assms(5)]
  have new: "\<exists>a. read_namespace_authority expected d = Inr a \<and> selected a = n" if "r = Returned ()"
  proof -
    have "settled n d" using end_state reopened_settled [OF assms(6) pub _ exp] that by simp
    from read_decided [OF pub settled_decided [OF this] exp] show ?thesis by metis
  qed
  have old: "undecided prior n d" if "r = Raised (PublicationFailure e BeforePublication)" for e
    using end_state reopened_undecided [OF assms(6) pub _ assms(5)] that by (simp add: unfinished_def)
  show ?thesis
  proof (intro conjI allI impI)
    fix a
    assume a: "read_namespace_authority expected d = Inr a"
    show "selected a = prior \<or> selected a = record" using reads(2) [OF a] n(1) by blast
    show "selected a = record" if "r = Returned ()" using new [OF that] n(2) [OF that] a by simp
    show "selected a = prior" if "r = Raised (PublicationFailure e BeforePublication)" for e
      by (rule read_undecided_selects(1) [OF pub old [OF that] assms(5) a])
  qed (use reads(1) new in blast)
qed

lemma finishes_run:
  assumes "finishes k P m Q" and "P (disk h)" and "script h = replicate (k + n) Done"
  shows "\<exists>x h'. m h = (Returned x, h') \<and> Q x (disk h')"
proof -
  have "h = \<lparr>disk = disk h, script = replicate (k + n) Done\<rparr>"
    using assms(3) by (cases h) simp
  moreover have "\<exists>x h'. m \<lparr>disk = disk h, script = replicate (k + n) Done\<rparr> = (Returned x, h')
      \<and> Q x (disk h')"
    using assms(1,2) unfolding finishes_def by (metis host.select_convs(1))
  ultimately show ?thesis by metis
qed

lemma settled_reads:
  assumes "valid_record w" and "settled w d" and "no_next d"
    and "expected = None \<or> expected = Some (database w)"
  obtains a where "read_namespace_authority expected d = Inr a" and "selected a = w"
    and "observed_fence a = Some w" and "repair a = None" and "\<And>r. \<not> pending_roots a r"
proof -
  have pub: "publishable w w" using assms(1) by (simp add: publishable_def)
  have "\<forall>r. shows_root w r d" using assms(2) by (simp add: settled_def)
  then show thesis
    using assms(3)
    by - (rule read_decided [OF pub settled_decided [OF assms(2)] assms(4)], erule that; simp add: no_next_def)
qed

text \<open>Recovery returns what it read, and leaves alone a disk it cannot read.\<close>

lemma recover_reads:
  assumes "recover_namespace validate expected h = (r, h')"
  shows "r = Returned a \<Longrightarrow> read_namespace_authority expected (disk h) = Inr a"
    and "read_namespace_authority expected (disk h) = Inl e \<Longrightarrow> disk h' = disk h"
  using assms
  by (auto simp: recover_namespace_def andthen_def host_check_def host_step_def host_call_def asking_def lift_def
      return_def raise_def raising_def split: list.splits outcome.splits prod.splits result.splits sum.splits)


text \<open>C3: A publication makes progress. From a settled database without temporary roots,
  fifty calls that the host completes are enough for any snapshot one step ahead to be
  published, and the database is then settled on it.\<close>

theorem publication_finishes:
  assumes "valid_record prior" and "valid_record record" and "succeeds record prior"
    and "settled prior (disk h)" and "no_next (disk h)" and "script h = replicate (50 + rest) Done"
  shows "\<exists>h'. publish_snapshot prior record h = (Returned (), h')
    \<and> settled record (disk h') \<and> no_next (disk h')"
proof -
  have "publishable prior record" using assms(1-3) by (simp add: publishable_def)
  from finishes_run [OF publish_snapshot_finishes [OF this assms(3)] _ assms(6)] assms(4,5) show ?thesis by auto
qed

section \<open>A concrete database\<close>

text \<open>Records that differ in one byte besides their checksums cannot tear into a third.\<close>

lemma sealed_tears_detected:
  assumes c: "between (seal x) (seal y) c" and sum: "require_checksum c 108 = Inr ()"
    and "176 \<le> length x" and "length y = length x"
    and "slice x 108 4 = replicate 4 0" and "slice y 108 4 = replicate 4 0"
    and "\<And>i. i < length x \<Longrightarrow> i \<noteq> k \<Longrightarrow> x ! i = y ! i"
  shows "c = seal x \<or> c = seal y"
proof -
  have len: "length c = length x" and lens: "length (seal x) = length x" "length (seal y) = length x"
    using c assms(3,4) by (simp_all add: between_def seal_simps(1))
  have away: "seal z ! i = z ! i" if "length z = length x" "i < length x" "i < 108 \<or> 112 \<le> i" for z i
    using that assms(3) by (auto simp: seal_def put_u32_def nth_put)
  have zero: "z ! i = 0" if "slice z 108 4 = replicate 4 0" "length z = length x" "108 \<le> i" "i < 112" for z i
    using nth_slice [of 108 4 z "i - 108"] that assms(3) by simp
  let ?z = "put c 108 [0, 0, 0, 0]"
  have zlen: "length ?z = length x" using len assms(3) by simp
  have zi: "?z ! i = x ! i \<or> ?z ! i = y ! i" if "i < length x" for i
  proof (cases "108 \<le> i \<and> i < 112")
    case True
    then have "?z ! i = [0, 0, 0, 0] ! (i - 108)" using len assms(3) by (simp add: nth_put)
    also have "\<dots> = 0" using True by (simp add: nth_Cons' )
    finally show ?thesis using zero [OF assms(5)] True by simp
  next
    case False
    then have "?z ! i = c ! i" using len assms(3) that by (auto simp: nth_put)
    moreover have "c ! i = seal x ! i \<or> c ! i = seal y ! i"
      using c len that by (simp add: between_def)
    ultimately show ?thesis using False that away [of x i] away [of y i] assms(4) by auto
  qed
  have "?z = x \<or> ?z = y"
  proof (cases "k < length x \<and> ?z ! k \<noteq> x ! k")
    case True
    then show ?thesis using zi assms(4,7) zlen by (metis nth_equalityI)
  next
    case False
    then show ?thesis using zi assms(7) zlen by (metis nth_equalityI)
  qed
  moreover have "c = seal ?z"
  proof -
    have "u32_of_bytes (slice c 108 4) = crc32c ?z"
      using sum len assms(3) by (simp add: require_checksum_conv split: if_splits)
    then have "slice c 108 4 = u32_bytes (crc32c ?z)"
      using u32_bytes_of_bytes [of "slice c 108 4"] len assms(3) by simp
    then show ?thesis
      using put_slice_id [of 108 4 c] len assms(3)
      by (simp add: seal_def put_u32_def put_put_same)
  qed
  ultimately show "c = seal x \<or> c = seal y" by blast
qed

definition empty_record :: "u64 \<Rightarrow> wal_record" where
  "empty_record n = \<lparr>database = sample_database, issued = n, state = CatalogState None\<rparr>"

lemma empty_record_simps [simp]:
  "database (empty_record n) = sample_database" "issued (empty_record n) = n"
  "state (empty_record n) = CatalogState None" "valid_record (empty_record n)"
  by (simp_all add: empty_record_def valid_record_def valid_state_def)

lemma empty_record_image:
  "wal_image (empty_record n) =
     seal (snapshot_head catalog_format_version (replica_of (empty_record n) ReplicaA) wal_bytes wal_magic)"
  by (simp add: wal_image_def encode_wal_replica encode_snapshot_def encode_catalog_snapshot_def
      Let_def wal_bytes_def)

lemma empty_succeeds: "succeeds (empty_record 1) (empty_record 0)"
  by (simp add: succeeds_def transition_from_def Let_def checked_add_def)

lemma empty_publishable: "publishable (empty_record 0) (empty_record 1)"
  using empty_succeeds by (simp add: publishable_def)

text \<open>Issuing the first attempt changes one byte besides the checksum, so no tear of its WAL goes unnoticed.\<close>

lemma empty_tears_noticed:
  assumes "wal_between (empty_record 0) (empty_record 1) d"
  shows "\<not> undetected_tear (empty_record 0) (empty_record 1) d"
proof -
  let ?h = "\<lambda>n. snapshot_head catalog_format_version (replica_of (empty_record n) ReplicaA) wal_bytes wal_magic"
  define b where "b = put (put (put_u32 (put_u32 (put (replicate wal_bytes 0) 0 wal_magic) 8
      catalog_format_version) 12 (word_of_nat wal_bytes)) 16 (id_bytes sample_database)) 32 [0]"
  have b: "?h n = put_u64 b 112 n" for n
    by (simp add: snapshot_head_def Let_def b_def)
  have len: "length b = 512"
    by (simp add: b_def put_u32_def wal_bytes_def)
  have z: "slice (?h n) 108 4 = replicate 4 0" for n
    using snapshot_head_fields(8) [of wal_bytes "replica_of (empty_record n) ReplicaA" wal_magic 108 4]
    by (simp add: wal_bytes_def)
  have bytes: "u64_bytes 0 = [0, 0, 0, 0, 0, 0, 0, 0]" "u64_bytes 1 = [1, 0, 0, 0, 0, 0, 0, 0]"
    by code_simp+
  have "c = seal (?h 0) \<or> c = seal (?h 1)"
    if "between (seal (?h 0)) (seal (?h 1)) c" and "require_checksum c 108 = Inr ()" for c
  proof (rule sealed_tears_detected [where k = 112, OF that])
    show "176 \<le> length (?h 0)" "length (?h 1) = length (?h 0)" by (simp_all add: b put_u64_def len)
    show "?h 0 ! i = ?h 1 ! i" if "i < length (?h 0)" "i \<noteq> 112" for i
      using that len by (auto simp: b put_u64_def bytes nth_put nth_Cons')
  qed (rule z)+
  then show ?thesis
    using wal_current_between [OF assms] by (auto simp: undetected_tear_def Let_def empty_record_image)
qed

text \<open>The files creation leaves: both roots and the WAL hold the empty snapshot.\<close>

definition created_store :: "wal_record \<Rightarrow> store" where
  "created_store w = \<lparr>control_file = encode_catalog_control (database w),
     wal_file = synced_file (wal_image w),
     root_entry = (\<lambda>r. settled_entry (Some (synced_file (root_image w r)))),
     next_entry = (\<lambda>_. settled_entry None)\<rparr>"

lemma created_store_settled:
  "settled (empty_record n) (created_store (empty_record n))" "no_next (created_store w)"
proof -
  have id: "length (id_bytes sample_database) = 16" by simp
  let ?b = "put (put_u32 (put_u32 (put (replicate control_bytes 0) 0 control_magic) 8
      catalog_format_version) 12 (word_of_nat control_bytes)) 16 (id_bytes sample_database)"
  note body = control_body_fields [OF id, of catalog_format_version]
  have "encode_catalog_control sample_database = put_u32 ?b 36 (crc32c ?b)"
    by (simp only: encode_catalog_control_def encode_control_version_def Let_def)
  moreover have "slice (put_u32 ?b 36 (crc32c ?b)) 8 4 = u32_bytes catalog_format_version"
    using control_seal_fields(2) [OF body(1), of 8 4] body(3) by simp
  moreover have "length (put_u32 ?b 36 (crc32c ?b)) = control_bytes"
    using control_seal_fields(1) [OF body(1)] by (simp add: control_bytes_def)
  moreover have "decode_control (encode_catalog_control sample_database) = Inr sample_database"
    by (simp add: encode_catalog_control_def control_roundtrip_version)
  ultimately have "control_matches (empty_record n) (created_store (empty_record n))"
    by (simp add: control_matches_def created_store_def is_catalog_def)
  then show "settled (empty_record n) (created_store (empty_record n))"
    by (simp add: settled_def created_store_def wal_holds_def synced_file_def shows_root_def
        keeps_root_def settled_entry_def)
  show "no_next (created_store w)"
    by (simp add: no_next_def created_store_def settled_entry_def)
qed

theorem publication_finishes_witness:
  "\<exists>h'. publish_snapshot (empty_record 0) (empty_record 1)
      \<lparr>disk = created_store (empty_record 0), script = replicate 50 Done\<rparr> = (Returned (), h')
    \<and> settled (empty_record 1) (disk h')"
  using publication_finishes [of "empty_record 0" "empty_record 1"
      "\<lparr>disk = created_store (empty_record 0), script = replicate 50 Done\<rparr>" 0]
    empty_succeeds created_store_settled by auto

text \<open>A crash that keeps what each file shows.\<close>

definition crashed_store :: "store \<Rightarrow> store" where
  "crashed_store d = d\<lparr>wal_file := synced_file (current (wal_file d)), next_entry := (\<lambda>_. settled_entry None)\<rparr>"

lemma crashed_store:
  assumes "contents (wal_file d) \<noteq> []" and "\<And>r. shows_root w r d \<and> keeps_root w r d" and "no_next d"
  shows "crash d (crashed_store d)"
proof -
  have "root_entry d r = settled_entry (Some (synced_file (root_image w r)))" for r
    using assms(2) [of r] by (simp add: shows_root_def keeps_root_def settled_entry_def)
  moreover have "torn (contents (wal_file d)) (current (wal_file d))"
    using current_in [OF assms(1)] by (auto simp: torn_def)
  ultimately show ?thesis
    using assms(3)
    by (auto simp: crash_def crashed_store_def crash_entry_def settled_entry_def synced_file_def no_next_def)
qed

text \<open>
  Two publications of the same record: one is stopped 110 bytes into the WAL, within the
  checksum, and one returns. Then the machine crashes; the first database opens on the prior
  snapshot, the second on the new one.
\<close>

definition torn_run :: host where
  "torn_run = \<lparr>disk = created_store (empty_record 0), script = replicate 6 Done @ [Partial 110]\<rparr>"

abbreviation torn_store :: store where
  "torn_store \<equiv> put_wal (take 110 (wal_image (empty_record 1))) (created_store (empty_record 0))"

lemma torn_run:
  "publish_snapshot (empty_record 0) (empty_record 1) torn_run
     = (Raised (before_publication (IoError ''write WAL'')),
        \<lparr>disk = torn_store, script = []\<rparr>)"
  using empty_succeeds
  by (auto simp: torn_run_def publish_snapshot_def succeeds_def write_fence_def raising_def andthen_def lift_def
      wal_image return_def cancel_check_def host_call_def join_path_def host_check_def host_step_def
      asking_def host_write_def created_store_def synced_file_def current_def eval_nat_numeral)

lemma torn_store:
  "crash torn_store (crashed_store torn_store)"
  "undecided (empty_record 0) (empty_record 1) (crashed_store torn_store)"
  "\<not> undetected_tear (empty_record 0) (empty_record 1) (crashed_store torn_store)"
proof -
  have u: "undecided (empty_record 0) (empty_record 1) torn_store"
    by (rule undecided_put_wal(1) [OF empty_publishable settled_undecided [OF empty_publishable]])
      (simp_all add: created_store_settled)
  then show crash: "crash torn_store (crashed_store torn_store)"
    by (intro crashed_store [where w = "empty_record 0"]) (simp_all add: undecided_def no_next_def created_store_def settled_entry_def)
  from crash_undecided [OF this u] show "undecided (empty_record 0) (empty_record 1) (crashed_store torn_store)" .
  then show "\<not> undetected_tear (empty_record 0) (empty_record 1) (crashed_store torn_store)"
    by (intro empty_tears_noticed) (simp add: undecided_def)
qed

theorem publication_is_atomic_witness:
  "(\<exists>e h' a. publish_snapshot (empty_record 0) (empty_record 1) torn_run = (Raised e, h')
      \<and> crash (disk h') (crashed_store (disk h'))
      \<and> read_namespace_authority None (crashed_store (disk h')) = Inr a \<and> selected a = empty_record 0)
   \<and> (\<exists>h' a. publish_snapshot (empty_record 0) (empty_record 1) (torn_run\<lparr>script := replicate 50 Done\<rparr>) = (Returned (), h')
      \<and> crash (disk h') (crashed_store (disk h'))
      \<and> read_namespace_authority None (crashed_store (disk h')) = Inr a \<and> selected a = empty_record 1)"
proof
  have "reopened (\<lambda>_. Inr 0) None torn_store (crashed_store torn_store)"
    by (rule reopened.crashed [OF reopened.untouched torn_store(1)])
  with publication_is_atomic [OF _ _ _ torn_run, of None "\<lambda>_. Inr 0" "crashed_store torn_store"] torn_store(3)
  obtain a where "read_namespace_authority None (crashed_store torn_store) = Inr a" "selected a = empty_record 0"
    by (auto simp: torn_run_def created_store_settled)
  with torn_run torn_store(1) show "\<exists>e h' a. publish_snapshot (empty_record 0) (empty_record 1) torn_run = (Raised e, h')
      \<and> crash (disk h') (crashed_store (disk h'))
      \<and> read_namespace_authority None (crashed_store (disk h')) = Inr a \<and> selected a = empty_record 0"
    by auto
next
  let ?h = "torn_run\<lparr>script := replicate 50 Done\<rparr>"
  have "publishable (empty_record 0) (empty_record 1)" by (rule empty_publishable)
  from finishes_run [OF publish_snapshot_finishes [OF this empty_succeeds], of ?h 0] obtain h' where
    run: "publish_snapshot (empty_record 0) (empty_record 1) ?h = (Returned (), h')"
    and s: "settled (empty_record 1) (disk h')" "no_next (disk h')"
    by (auto simp: torn_run_def created_store_settled)
  have crash: "crash (disk h') (crashed_store (disk h'))"
    using s by (intro crashed_store [where w = "empty_record 1"]) (auto simp: settled_def wal_holds_def)
  have "reopened (\<lambda>_. Inr 0) None (disk h') (crashed_store (disk h'))"
    by (rule reopened.crashed [OF reopened.untouched crash])
  with publication_is_atomic [OF _ _ _ run, of None "\<lambda>_. Inr 0" "crashed_store (disk h')"]
  obtain a where "read_namespace_authority None (crashed_store (disk h')) = Inr a" "selected a = empty_record 1"
    by (auto simp: torn_run_def created_store_settled)
  with run crash show "\<exists>h' a. publish_snapshot (empty_record 0) (empty_record 1) ?h = (Returned (), h')
      \<and> crash (disk h') (crashed_store (disk h'))
      \<and> read_namespace_authority None (crashed_store (disk h')) = Inr a \<and> selected a = empty_record 1"
    by auto
qed


end
