(* ===== verification/Resources.thy ===== *)
theory Resources
  imports Errors
begin

text \<open>
  Memory and temporary-file budgets (src/resources.rs): the shared total, the reservation
  loop every thread runs against it with an atomic compare-and-exchange, and the handles
  that split, move, shrink and finally return what was reserved.
\<close>

section \<open>Buffer sizes\<close>

definition buffer_allocation_unit :: u64 where "buffer_allocation_unit = 16384"

definition round_down_to_unit :: "u64 \<Rightarrow> u64" where
  "round_down_to_unit n = n AND NOT (buffer_allocation_unit - 1)"

definition buffer_capacity :: "u64 \<Rightarrow> u64 option" where
  "buffer_capacity bytes =
     (if bytes \<le> buffer_allocation_unit then Some bytes
      else case checked_add bytes (buffer_allocation_unit - 1 + 32) of
        Some rounded \<Rightarrow> Some (round_down_to_unit rounded - 32)
      | None \<Rightarrow> None)"

definition buffer_charge :: "bool \<Rightarrow> u64 \<Rightarrow> u64 option" where
  "buffer_charge macos capacity =
     (if macos \<and> 32768 < capacity
      then case checked_add capacity (buffer_allocation_unit - 1) of
        Some rounded \<Rightarrow> checked_mul (round_down_to_unit rounded) 2
      | None \<Rightarrow> None
      else Some capacity)"

lemma unat_round_down: "unat (round_down_to_unit n) = unat n div 16384 * 16384"
proof -
  have "buffer_allocation_unit - 1 = mask 14"
    by (simp add: buffer_allocation_unit_def mask_eq_exp_minus_1)
  then have "round_down_to_unit n = n AND NOT (mask 14)"
    by (simp add: round_down_to_unit_def)
  also have "\<dots> = push_bit 14 (drop_bit 14 n)"
    by (rule bit_word_eqI)
      (auto simp: bit_and_iff bit_not_iff bit_mask_iff bit_push_bit_iff bit_drop_bit_eq)
  finally have "round_down_to_unit n = push_bit 14 (drop_bit 14 n)" .
  moreover have "unat (drop_bit 14 n) = unat n div 16384"
    by (simp add: drop_bit_eq_div unat_div)
  moreover have "unat n div 16384 * 16384 < 18446744073709551616"
    using unat_u64_less [of n] by linarith
  ultimately show ?thesis
    by (simp add: push_bit_eq_mult unat_word_ariths)
qed

lemma buffer_capacity_cases:
  "buffer_capacity bytes =
     (if unat bytes \<le> 16384 then Some bytes
      else if unat bytes + 16415 < 2 ^ 64 then Some (round_down_to_unit (bytes + 16415) - 32)
      else None)"
  by (simp add: buffer_capacity_def buffer_allocation_unit_def checked_add_def word_le_nat_alt)

lemma buffer_capacity_large:
  assumes "16384 < unat bytes" and "unat bytes + 16415 < 2 ^ 64"
  shows "unat (round_down_to_unit (bytes + 16415) - 32) + 32 = (unat bytes + 16415) div 16384 * 16384"
proof -
  have "unat (bytes + 16415) = unat bytes + 16415"
    using assms(2) by (simp add: unat_word_ariths)
  then have r: "unat (round_down_to_unit (bytes + 16415)) = (unat bytes + 16415) div 16384 * 16384"
    by (simp add: unat_round_down)
  moreover have "32 \<le> (unat bytes + 16415) div 16384 * 16384" using assms(1) by linarith
  ultimately show ?thesis by (simp add: unat_sub word_le_nat_alt)
qed

lemma unit_multiple_bound: "(n + 16383) div 16384 * 16384 < 2 ^ 63 \<longleftrightarrow> n + 16383 < 2 ^ 63" for n :: nat
proof -
  have "(n + 16383) div 16384 * 16384 < 562949953421312 * 16384 \<longleftrightarrow> (n + 16383) div 16384 < 562949953421312" by simp
  also have "\<dots> \<longleftrightarrow> n + 16383 < 562949953421312 * 16384" by (rule div_less_iff_less_mult) simp
  finally show ?thesis by simp
qed

text \<open>C10: A chosen buffer capacity covers the request and wastes less than one allocation
  unit on it: a request of at most one unit keeps its size, a larger one ends 32 bytes short of
  the next unit boundary, and it is refused exactly when the rounding leaves the machine's
  range. A charge is the capacity itself, except on macOS above two units: there it is
  twice the capacity rounded up to whole units, refused exactly when that leaves the range.\<close>

theorem buffer_sizes_cover_requests:
  "(case buffer_capacity bytes of
      None \<Rightarrow> 2 ^ 64 \<le> unat bytes + 16415
    | Some c \<Rightarrow> unat bytes + 16415 < 2 ^ 64 \<and> unat bytes \<le> unat c \<and> unat c < unat bytes + 16384
        \<and> (if unat bytes \<le> 16384 then c = bytes else (unat c + 32) mod 16384 = 0))
   \<and> (case buffer_charge macos bytes of
      None \<Rightarrow> macos \<and> 2 ^ 63 \<le> unat bytes + 16383
    | Some charge \<Rightarrow>
        if macos \<and> 32768 < unat bytes
        then unat bytes + 16383 < 2 ^ 63 \<and> unat charge mod 32768 = 0
          \<and> 2 * unat bytes \<le> unat charge \<and> unat charge < 2 * unat bytes + 32768
        else charge = bytes)"
proof
  show "case buffer_capacity bytes of
      None \<Rightarrow> 2 ^ 64 \<le> unat bytes + 16415
    | Some c \<Rightarrow> unat bytes + 16415 < 2 ^ 64 \<and> unat bytes \<le> unat c \<and> unat c < unat bytes + 16384
        \<and> (if unat bytes \<le> 16384 then c = bytes else (unat c + 32) mod 16384 = 0)"
  proof (cases "16384 < unat bytes \<and> unat bytes + 16415 < 2 ^ 64")
    case True
    let ?c = "round_down_to_unit (bytes + 16415) - 32"
    have c: "unat ?c + 32 = (unat bytes + 16415) div 16384 * 16384"
      using True by (intro buffer_capacity_large) auto
    have "unat bytes + 16415 < (unat bytes + 16415) div 16384 * 16384 + 16384"
      and "(unat bytes + 16415) div 16384 * 16384 \<le> unat bytes + 16415"
      by linarith+
    with c have "unat bytes \<le> unat ?c \<and> unat ?c < unat bytes + 16384" by linarith
    moreover have "(unat ?c + 32) mod 16384 = 0" unfolding c by simp
    ultimately show ?thesis using True by (simp add: buffer_capacity_cases)
  next
    case False
    then show ?thesis by (auto simp: buffer_capacity_cases)
  qed
next
  show "case buffer_charge macos bytes of
      None \<Rightarrow> macos \<and> 2 ^ 63 \<le> unat bytes + 16383
    | Some charge \<Rightarrow>
        if macos \<and> 32768 < unat bytes
        then unat bytes + 16383 < 2 ^ 63 \<and> unat charge mod 32768 = 0
          \<and> 2 * unat bytes \<le> unat charge \<and> unat charge < 2 * unat bytes + 32768
        else charge = bytes"
  proof (cases "macos \<and> 32768 < unat bytes")
    case True
    let ?n = "(unat bytes + 16383) div 16384"
    have big: "32768 < bytes" using True by (simp add: word_less_nat_alt)
    have n: "unat bytes \<le> ?n * 16384" "?n * 16384 < unat bytes + 16384" by linarith+
    note bound = unit_multiple_bound [of "unat bytes"]
    show ?thesis
    proof (cases "unat bytes + 16383 < 2 ^ 63")
      case fits: True
      then have r: "unat (round_down_to_unit (bytes + 16383)) = ?n * 16384"
        by (simp add: unat_round_down unat_word_ariths)
      have small: "?n * 16384 < 2 ^ 63" using bound fits by blast
      have "unat (round_down_to_unit (bytes + 16383) * 2) = ?n * 16384 * 2"
        using r small by (simp add: unat_word_ariths)
      moreover have "buffer_charge macos bytes = Some (round_down_to_unit (bytes + 16383) * 2)"
        using True big fits r small
        by (simp add: buffer_charge_def buffer_allocation_unit_def checked_add_def checked_mul_def)
      moreover have "?n * 16384 * 2 mod 32768 = 0" by (simp add: mult.assoc)
      ultimately show ?thesis using True fits n by simp
    next
      case large: False
      have "buffer_charge macos bytes = None"
      proof (cases "unat bytes + 16383 < 2 ^ 64")
        case fits: True
        then have r: "unat (round_down_to_unit (bytes + 16383)) = ?n * 16384"
          by (simp add: unat_round_down unat_word_ariths)
        have "\<not> ?n * 16384 < 2 ^ 63" using bound large by blast
        then show ?thesis
          using True big fits r
          by (simp add: buffer_charge_def buffer_allocation_unit_def checked_add_def checked_mul_def)
      next
        case False
        with True big show ?thesis
          by (simp add: buffer_charge_def buffer_allocation_unit_def checked_add_def)
      qed
      then show ?thesis using True large by simp
    qed
  next
    case False
    then show ?thesis by (auto simp: buffer_charge_def word_less_nat_alt)
  qed
qed

section \<open>The account\<close>

text \<open>
  A thread inside \<open>reserve\<close> remembers what it asked for, the total it last saw and how many of
  its attempts are left; a returned handle owns its bytes. \<open>live\<close> and \<open>waiting\<close> list
  all of them. The name of the caller only labels an error.
\<close>

record pending =
  wanted :: u64
  seen :: u64
  attempts_left :: nat

record account =
  account_limit :: u64
  reserved :: u64
  live :: "u64 list"
  waiting :: "pending list"

definition reservation_attempts :: nat where "reservation_attempts = 64"

definition new_account :: "u64 \<Rightarrow> account" where
  "new_account lim = \<lparr>account_limit = lim, reserved = 0, live = [], waiting = []\<rparr>"

text \<open>One pass of the loop before its compare-and-exchange: the total it will try to store.\<close>

definition propose :: "string \<Rightarrow> u64 \<Rightarrow> u64 \<Rightarrow> u64 \<Rightarrow> db_error + u64" where
  "propose owner lim now bytes =
     attempt (ok_or (checked_add now bytes) (ResourceError owner (- 1) lim)) (\<lambda>next.
       if lim < next then Inl (ResourceError owner next lim) else Inr next)"

definition without :: "nat \<Rightarrow> 'a list \<Rightarrow> 'a list" where
  "without i xs = take i xs @ drop (Suc i) xs"

definition begin_reserve :: "u64 \<Rightarrow> account \<Rightarrow> account" where
  "begin_reserve bytes a = a\<lparr>waiting := waiting a @
     [\<lparr>wanted = bytes, seen = reserved a, attempts_left = reservation_attempts\<rparr>]\<rparr>"

text \<open>
  The \<open>i\<close>-th waiting thread runs one pass. The exchange is weak: it may also fail
  (\<open>spurious\<close>) when the total has not changed. The result is the thread's, if its loop ends.
\<close>

definition reserve_pass :: "string \<Rightarrow> nat \<Rightarrow> bool \<Rightarrow> account \<Rightarrow> (db_error + u64) option \<times> account" where
  "reserve_pass owner i spurious a =
     (let p = waiting a ! i in
      if attempts_left p = 0
      then (Some (Inl (Contention ''database memory reservation'')), a\<lparr>waiting := without i (waiting a)\<rparr>)
      else case propose owner (account_limit a) (seen p) (wanted p) of
        Inl e \<Rightarrow> (Some (Inl e), a\<lparr>waiting := without i (waiting a)\<rparr>)
      | Inr next \<Rightarrow>
          if seen p = reserved a \<and> \<not> spurious
          then (Some (Inr (wanted p)),
                a\<lparr>reserved := next, live := live a @ [wanted p], waiting := without i (waiting a)\<rparr>)
          else (None, a\<lparr>waiting := (waiting a)
                 [i := p\<lparr>seen := reserved a, attempts_left := attempts_left p - 1\<rparr>]\<rparr>))"

text \<open>\<open>None\<close> is the failed assertion.\<close>

definition release :: "u64 \<Rightarrow> account \<Rightarrow> account option" where
  "release bytes a =
     (if bytes \<le> reserved a then Some (a\<lparr>reserved := reserved a - bytes\<rparr>) else None)"

definition split_reservation :: "nat \<Rightarrow> u64 \<Rightarrow> account \<Rightarrow> db_error + account" where
  "split_reservation i bytes a =
     attempt (ok_or (checked_sub (live a ! i) bytes)
       (Corrupt ''reservation split exceeds admitted bytes''))
     (\<lambda>remaining. Inr (a\<lparr>live := (live a)[i := remaining] @ [bytes]\<rparr>))"

text \<open>Both handles belong to this account; a transfer between accounts is refused first.\<close>

definition transfer_to :: "nat \<Rightarrow> nat \<Rightarrow> u64 \<Rightarrow> account \<Rightarrow> db_error + account" where
  "transfer_to i j bytes a =
     attempt (ok_or (checked_sub (live a ! i) bytes)
       (Corrupt ''reservation transfer exceeds admitted bytes''))
     (\<lambda>remaining. attempt (ok_or (checked_add (live a ! j) bytes)
       (Corrupt ''reservation transfer overflow''))
     (\<lambda>combined. Inr (a\<lparr>live := (live a)[i := remaining, j := combined]\<rparr>)))"

definition shrink_to :: "nat \<Rightarrow> u64 \<Rightarrow> account \<Rightarrow> account option" where
  "shrink_to i bytes a =
     Option.bind (checked_sub (live a ! i) bytes) (\<lambda>unused.
     Option.bind (release unused a) (\<lambda>a'. Some (a'\<lparr>live := (live a)[i := bytes]\<rparr>)))"

definition drop_reservation :: "nat \<Rightarrow> account \<Rightarrow> account option" where
  "drop_reservation i a =
     map_option (\<lambda>a'. a'\<lparr>live := without i (live a)\<rparr>) (release (live a ! i) a)"

inductive account_step :: "account \<Rightarrow> account \<Rightarrow> bool" where
  started: "account_step a (begin_reserve bytes a)"
| pass: "i < length (waiting a) \<Longrightarrow> reserve_pass owner i spurious a = (r, a') \<Longrightarrow> account_step a a'"
| split: "i < length (live a) \<Longrightarrow> split_reservation i bytes a = Inr a' \<Longrightarrow> account_step a a'"
| transfer: "i < length (live a) \<Longrightarrow> j < length (live a) \<Longrightarrow> i \<noteq> j \<Longrightarrow>
    transfer_to i j bytes a = Inr a' \<Longrightarrow> account_step a a'"
| shrink: "i < length (live a) \<Longrightarrow> shrink_to i bytes a = Some a' \<Longrightarrow> account_step a a'"
| dropped: "i < length (live a) \<Longrightarrow> drop_reservation i a = Some a' \<Longrightarrow> account_step a a'"

inductive_cases account_stepE: "account_step a a'"

definition balanced :: "account \<Rightarrow> bool" where
  "balanced a \<longleftrightarrow> sum_list (map unat (live a)) = unat (reserved a) \<and> reserved a \<le> account_limit a"

lemma propose_Inr:
  "propose owner lim now bytes = Inr next \<longleftrightarrow>
     unat now + unat bytes < 2 ^ 64 \<and> unat next = unat now + unat bytes \<and> next \<le> lim"
  by (auto simp: propose_def attempt_Inr_conv checked_add_Some not_less split: if_splits)

lemma sum_list_update:
  "i < length xs \<Longrightarrow> sum_list (map unat (xs[i := x])) + unat (xs ! i) = sum_list (map unat xs) + unat x"
  for xs :: "u64 list"
  by (induction xs arbitrary: i) (auto split: nat.splits)

lemma sum_list_without:
  "i < length xs \<Longrightarrow> sum_list (map unat (without i xs)) + unat (xs ! i) = sum_list (map unat xs)"
  for xs :: "u64 list"
  by (subst (3) id_take_nth_drop [of i xs]) (simp_all add: without_def)

lemma member_le_total: "i < length xs \<Longrightarrow> unat (xs ! i) \<le> sum_list (map unat xs)"
  for xs :: "u64 list"
  using elem_le_sum_list [of i "map unat xs"] by simp

lemma pass_balanced:
  assumes "balanced a" and "reserve_pass owner i spurious a = (r, a')"
  shows "balanced a'" and "account_limit a' = account_limit a"
    and "r = Some (Inr b) \<Longrightarrow> live a' = live a @ [b] \<and> unat (reserved a') = unat (reserved a) + unat b"
    and "(\<forall>b. r \<noteq> Some (Inr b)) \<Longrightarrow> live a' = live a \<and> reserved a' = reserved a"
  using assms
  by (auto simp: reserve_pass_def Let_def balanced_def propose_Inr split: if_splits sum.splits)

lemma split_balanced:
  assumes "balanced a" and "i < length (live a)" and "split_reservation i bytes a = Inr a'"
  shows "balanced a' \<and> reserved a' = reserved a \<and> account_limit a' = account_limit a"
proof -
  obtain x where x: "unat bytes \<le> unat (live a ! i)" "unat x = unat (live a ! i) - unat bytes"
    and a': "a' = a\<lparr>live := (live a)[i := x] @ [bytes]\<rparr>"
    using assms(3) by (auto simp: split_reservation_def attempt_Inr_conv checked_sub_Some)
  have "sum_list (map unat ((live a)[i := x] @ [bytes])) = sum_list (map unat (live a))"
    using sum_list_update [OF assms(2), of x] x by simp
  then show ?thesis using assms(1) by (simp add: a' balanced_def)
qed

lemma transfer_balanced:
  assumes "balanced a" and "i < length (live a)" and "j < length (live a)" and "i \<noteq> j"
    and "transfer_to i j bytes a = Inr a'"
  shows "balanced a' \<and> reserved a' = reserved a \<and> account_limit a' = account_limit a"
proof -
  obtain x y where x: "unat bytes \<le> unat (live a ! i)" "unat x = unat (live a ! i) - unat bytes"
    and y: "unat y = unat (live a ! j) + unat bytes"
    and a': "a' = a\<lparr>live := (live a)[i := x, j := y]\<rparr>"
    using assms(5) by (auto simp: transfer_to_def attempt_Inr_conv checked_sub_Some checked_add_Some)
  have "sum_list (map unat ((live a)[i := x, j := y])) = sum_list (map unat (live a))"
    using sum_list_update [OF assms(2), of x] sum_list_update [of j "(live a)[i := x]" y] assms(3,4) x y
    by simp
  then show ?thesis using assms(1) by (simp add: a' balanced_def)
qed

lemma release_some:
  "release bytes a = Some a' \<longleftrightarrow> bytes \<le> reserved a \<and> a' = a\<lparr>reserved := reserved a - bytes\<rparr>"
  by (auto simp: release_def)

lemma shrink_balanced:
  assumes "balanced a" and "i < length (live a)" and "shrink_to i bytes a = Some a'"
  shows "balanced a' \<and> account_limit a' = account_limit a
    \<and> unat (reserved a') + unat (live a ! i) = unat (reserved a) + unat bytes"
proof -
  obtain unused where u: "unat bytes \<le> unat (live a ! i)" "unat unused = unat (live a ! i) - unat bytes"
    "unused \<le> reserved a" "a' = a\<lparr>reserved := reserved a - unused, live := (live a)[i := bytes]\<rparr>"
    using assms(3) by (auto simp: shrink_to_def bind_eq_Some_conv checked_sub_Some release_some)
  then have r: "unat (reserved a - unused) = unat (reserved a) - unat unused" "unat unused \<le> unat (reserved a)"
    by (simp_all add: unat_sub word_le_nat_alt)
  have "sum_list (map unat ((live a)[i := bytes])) + unat (live a ! i) = sum_list (map unat (live a)) + unat bytes"
    by (rule sum_list_update [OF assms(2)])
  then show ?thesis using assms(1) u r by (auto simp: balanced_def word_le_nat_alt)
qed

lemma drop_balanced:
  assumes "balanced a" and "i < length (live a)" and "drop_reservation i a = Some a'"
  shows "balanced a' \<and> account_limit a' = account_limit a
    \<and> unat (reserved a') + unat (live a ! i) = unat (reserved a)"
proof -
  have u: "live a ! i \<le> reserved a"
    "a' = a\<lparr>reserved := reserved a - live a ! i, live := without i (live a)\<rparr>"
    using assms(3) by (auto simp: drop_reservation_def release_some)
  then have r: "unat (reserved a - live a ! i) = unat (reserved a) - unat (live a ! i)"
    "unat (live a ! i) \<le> unat (reserved a)"
    by (simp_all add: unat_sub word_le_nat_alt)
  then show ?thesis
    using assms(1) u sum_list_without [OF assms(2)] by (auto simp: balanced_def word_le_nat_alt)
qed

lemma step_balanced: "account_step a a' \<Longrightarrow> balanced a \<Longrightarrow> balanced a' \<and> account_limit a' = account_limit a"
proof (induction rule: account_step.induct)
  case (started a bytes)
  then show ?case by (simp add: begin_reserve_def balanced_def)
next
  case (pass i a owner spurious r a')
  then show ?case using pass_balanced(1,2) by blast
next
  case (split i a bytes a')
  then show ?case using split_balanced by blast
next
  case (transfer i a j bytes a')
  then show ?case using transfer_balanced by blast
next
  case (shrink i a bytes a')
  then show ?case using shrink_balanced by blast
next
  case (dropped i a a')
  then show ?case using drop_balanced by blast
qed

text \<open>C8: However the threads interleave, the account is never overcommitted and no assertion
  in it can fail: the shared total is exactly what the live reservations hold, it never
  passes the limit, so any live reservation can be shrunk or dropped without underflow.\<close>

theorem reservations_stay_within_the_limit:
  assumes "account_step\<^sup>*\<^sup>* (new_account lim) a"
  shows "account_limit a = lim
    \<and> sum_list (map unat (live a)) = unat (reserved a) \<and> reserved a \<le> lim
    \<and> (\<forall>i < length (live a). drop_reservation i a \<noteq> None
         \<and> (\<forall>bytes \<le> live a ! i. shrink_to i bytes a \<noteq> None))"
proof -
  have "balanced a \<and> account_limit a = lim"
    using assms
  proof (induction rule: rtranclp_induct)
    case base
    then show ?case by (simp add: new_account_def balanced_def)
  next
    case (step a a')
    then show ?case using step_balanced by metis
  qed
  then have b: "balanced a" and lim: "account_limit a = lim" by simp_all
  have "live a ! i \<le> reserved a" if "i < length (live a)" for i
    using member_le_total [OF that] b by (simp add: balanced_def word_le_nat_alt)
  moreover have "live a ! i - bytes \<le> reserved a"
    if "i < length (live a)" "bytes \<le> live a ! i" for i bytes
    using calculation [OF that(1)] that(2) by (auto simp: word_le_nat_alt unat_sub)
  ultimately show ?thesis
    using b lim
    by (auto simp: balanced_def drop_reservation_def release_def shrink_to_def checked_sub_def)
qed

theorem reservations_stay_within_the_limit_witness:
  "reserved (begin_reserve 7 (new_account 10)) \<le> 10"
proof -
  have "account_step (new_account 10) (begin_reserve 7 (new_account 10))" by (rule account_step.started)
  then have "account_step\<^sup>*\<^sup>* (new_account 10) (begin_reserve 7 (new_account 10))" by simp
  from reservations_stay_within_the_limit [OF this] show ?thesis by blast
qed

section \<open>A whole reservation\<close>

text \<open>
  The \<open>i\<close>-th waiting thread runs its loop while the others do what they like to the account:
  between two of its passes the totals change to any balanced ones, as every step of another thread
  leaves them, and only what it keeps for itself stays. \<open>passes_lost owner i k a b\<close>: after \<open>k\<close> passes, all of them lost, \<open>a\<close> has become \<open>b\<close>.
\<close>

definition interference :: "nat \<Rightarrow> account \<Rightarrow> account \<Rightarrow> bool" where
  "interference i a b \<longleftrightarrow> account_limit b = account_limit a \<and> balanced b
     \<and> i < length (waiting b) \<and> waiting b ! i = waiting a ! i"

inductive passes_lost :: "string \<Rightarrow> nat \<Rightarrow> nat \<Rightarrow> account \<Rightarrow> account \<Rightarrow> bool" where
  none_lost: "passes_lost owner i 0 a a"
| one_more: "passes_lost owner i k a b \<Longrightarrow> interference i b c \<Longrightarrow> reserve_pass owner i spurious c = (None, d) \<Longrightarrow>
    passes_lost owner i (Suc k) a d"

lemma steps_interfere:
  assumes "account_step a b" and "balanced a" and "i < length (waiting b)" and "waiting b ! i = waiting a ! i"
  shows "interference i a b"
  using step_balanced [OF assms(1,2)] assms(3,4) by (simp add: interference_def)

text \<open>A thread that has lost \<open>k\<close> passes has \<open>64 - k\<close> left and knows the total as its last pass saw it.\<close>

lemma lost_pending:
  assumes "passes_lost owner i k a b" and "i < length (waiting a)"
    and "waiting a ! i = \<lparr>wanted = bytes, seen = reserved a, attempts_left = reservation_attempts\<rparr>"
  shows "k \<le> reservation_attempts \<and> account_limit b = account_limit a \<and> i < length (waiting b)
    \<and> waiting b ! i = \<lparr>wanted = bytes, seen = reserved b, attempts_left = reservation_attempts - k\<rparr>"
  using assms
proof (induction rule: passes_lost.induct)
  case (one_more owner i k a b c spurious d)
  then have b: "k \<le> reservation_attempts" "account_limit b = account_limit a"
    "waiting b ! i = \<lparr>wanted = bytes, seen = reserved b, attempts_left = reservation_attempts - k\<rparr>" by blast+
  with one_more.hyps(2) have c: "account_limit c = account_limit a" "i < length (waiting c)"
    "waiting c ! i = \<lparr>wanted = bytes, seen = reserved b, attempts_left = reservation_attempts - k\<rparr>"
    by (simp_all add: interference_def)
  with one_more.hyps(3) b(1) show ?case
    by (auto simp: reserve_pass_def Let_def split: if_splits sum.splits)
qed simp

lemma reserve_pass_pending:
  assumes "waiting c ! i = \<lparr>wanted = bytes, seen = now, attempts_left = n\<rparr>"
  shows "n = 0 \<Longrightarrow> reserve_pass owner i spurious c
      = (Some (Inl (Contention ''database memory reservation'')), c\<lparr>waiting := without i (waiting c)\<rparr>)"
    and "0 < n \<Longrightarrow> propose owner (account_limit c) now bytes = Inl e \<Longrightarrow> reserve_pass owner i spurious c
      = (Some (Inl e), c\<lparr>waiting := without i (waiting c)\<rparr>)"
    and "0 < n \<Longrightarrow> propose owner (account_limit c) now bytes = Inr next \<Longrightarrow> reserve_pass owner i spurious c
      = (if now = reserved c \<and> \<not> spurious
         then (Some (Inr bytes), c\<lparr>reserved := next, live := live c @ [bytes], waiting := without i (waiting c)\<rparr>)
         else (None, c\<lparr>waiting := (waiting c)[i := \<lparr>wanted = bytes, seen = reserved c, attempts_left = n - 1\<rparr>]\<rparr>))"
  using assms by (simp_all add: reserve_pass_def Let_def)

text \<open>C9: A reservation is decided by what the account held when the thread last looked, however the
  others interfere between its passes. Having lost \<open>k\<close> exchanges since it began, a pass of its
  loop reports contention exactly when \<open>k\<close> is sixty-four, and \<open>k\<close> is never more. Before that
  it reports a resource error, with the bytes it would need, exactly when the total its last
  lost pass left (at first, the total it began with) leaves no room within the limit; it loses
  once more exactly when there is room but that total has changed meanwhile or the exchange failed
  spuriously; and otherwise it returns the bytes asked for, with the account larger by exactly
  those bytes and within its limit. So a pass no one interferes with settles the reservation.
  Whatever is not a success leaves the total and every reservation untouched.\<close>

theorem reserve_pass_outcomes:
  assumes "passes_lost owner i k (begin_reserve bytes a) b" and "i = length (waiting a)"
    and "interference i b c" and "reserve_pass owner i spurious c = (r, c')"
  shows "k \<le> 64
    \<and> r = (if k = 64 then Some (Inl (Contention ''database memory reservation''))
           else if 2 ^ 64 \<le> unat (reserved b) + unat bytes
           then Some (Inl (ResourceError owner (- 1) (account_limit a)))
           else if unat (account_limit a) < unat (reserved b) + unat bytes
           then Some (Inl (ResourceError owner (reserved b + bytes) (account_limit a)))
           else if spurious \<or> reserved c \<noteq> reserved b then None
           else Some (Inr bytes))
    \<and> (r = Some (Inr bytes) \<longrightarrow> live c' = live c @ [bytes]
         \<and> unat (reserved c') = unat (reserved c) + unat bytes \<and> reserved c' \<le> account_limit a)
    \<and> (r \<noteq> Some (Inr bytes) \<longrightarrow> live c' = live c \<and> reserved c' = reserved c)"
proof -
  have "waiting (begin_reserve bytes a) ! i
      = \<lparr>wanted = bytes, seen = reserved (begin_reserve bytes a), attempts_left = reservation_attempts\<rparr>"
    and "i < length (waiting (begin_reserve bytes a))" "account_limit (begin_reserve bytes a) = account_limit a"
    using assms(2) by (simp_all add: begin_reserve_def)
  with lost_pending [OF assms(1)] assms(3) have k: "k \<le> reservation_attempts"
    and c: "account_limit c = account_limit a"
      "waiting c ! i = \<lparr>wanted = bytes, seen = reserved b, attempts_left = reservation_attempts - k\<rparr>"
    by (simp_all add: interference_def)
  have fits: "unat (reserved b + bytes) = unat (reserved b) + unat bytes" if "unat (reserved b) + unat bytes < 2 ^ 64"
    using that by (simp add: unat_word_ariths)
  consider "k = 64" | "k < 64" "2 ^ 64 \<le> unat (reserved b) + unat bytes"
    | "k < 64" "unat (reserved b) + unat bytes < 2 ^ 64" "account_limit a < reserved b + bytes"
    | "k < 64" "unat (reserved b) + unat bytes < 2 ^ 64" "reserved b + bytes \<le> account_limit a"
    using k unfolding reservation_attempts_def by (metis le_neq_implies_less not_le)
  then show ?thesis
  proof cases
    case 1
    with c(2) assms(4) show ?thesis
      by (auto simp: reserve_pass_pending(1) [OF c(2)] reservation_attempts_def)
  next
    case 2
    then have "propose owner (account_limit c) (reserved b) bytes = Inl (ResourceError owner (- 1) (account_limit a))"
      using c(1) by (simp add: propose_def checked_add_def)
    with 2 assms(4) show ?thesis
      by (auto simp: reserve_pass_pending(2) [OF c(2)] reservation_attempts_def)
  next
    case 3
    then have "propose owner (account_limit c) (reserved b) bytes = Inl (ResourceError owner (reserved b + bytes) (account_limit a))"
      using c(1) by (simp add: propose_def checked_add_def)
    with 3 fits assms(4) show ?thesis
      by (auto simp: reserve_pass_pending(2) [OF c(2)] reservation_attempts_def word_less_nat_alt)
  next
    case 4
    then have next_total: "propose owner (account_limit c) (reserved b) bytes = Inr (reserved b + bytes)"
      using c(1) by (simp add: propose_def checked_add_def not_less)
    have left: "0 < reservation_attempts - k" using 4 by (simp add: reservation_attempts_def)
    have room: "\<not> unat (account_limit a) < unat (reserved b) + unat bytes"
      using 4(2,3) fits by (simp add: word_le_nat_alt)
    note pass = reserve_pass_pending(3) [OF c(2) left next_total, of spurious]
    show ?thesis
    proof (cases "spurious \<or> reserved c \<noteq> reserved b")
      case True
      with pass assms(4) have "r = None" "live c' = live c" "reserved c' = reserved c" by auto
      with True 4(1,2) room show ?thesis by (simp add: not_le)
    next
      case False
      with pass assms(4) have "r = Some (Inr bytes)" "live c' = live c @ [bytes]" "reserved c' = reserved b + bytes" by auto
      with False 4 room fits show ?thesis by (simp add: not_le)
    qed
  qed
qed

text \<open>The exchange of a thread that asks for 7 is lost to another that takes 4 of 10: its next pass finds too little left.\<close>

theorem reserve_pass_outcomes_witness:
  "\<exists>d. reserve_pass ''query'' 0 False ((begin_reserve 7 (new_account 10))\<lparr>reserved := 4, live := [4]\<rparr>) = (None, d)
    \<and> fst (reserve_pass ''query'' 0 False d) = Some (Inl (ResourceError ''query'' 11 10))"
proof -
  let ?a = "begin_reserve 7 (new_account 10)"
  let ?c = "?a\<lparr>reserved := 4, live := [4]\<rparr>"
  obtain r d where pass: "reserve_pass ''query'' 0 False ?c = (r, d)" by fastforce
  have i: "0 = length (waiting (new_account 10))" by (simp add: new_account_def)
  have c: "interference 0 ?a ?c"
    by (simp add: interference_def balanced_def begin_reserve_def new_account_def)
  note first = reserve_pass_outcomes [OF passes_lost.none_lost i c pass]
  then have r: "r = None" and d: "live d = [4]" "reserved d = 4"
    by (simp_all add: begin_reserve_def new_account_def)
  have l: "passes_lost ''query'' 0 (Suc 0) ?a d" using passes_lost.one_more [OF passes_lost.none_lost c] pass r by blast
  have w: "0 < length (waiting d)" and lim: "account_limit d = 10"
    using lost_pending [OF l, of 7] by (simp_all add: begin_reserve_def new_account_def)
  obtain r' d' where again: "reserve_pass ''query'' 0 False d = (r', d')" by fastforce
  have "interference 0 d d" using d w lim by (simp add: interference_def balanced_def)
  from reserve_pass_outcomes [OF l i this again] d have "r' = Some (Inl (ResourceError ''query'' 11 10))"
    by (simp add: new_account_def)
  with pass r again show ?thesis by auto
qed

end
