(* ===== verification/Registry.thy ===== *)
theory Registry
  imports Selection Errors Resources
begin

text \<open>
  The registry of live views (src/storage/snapshot.rs): four slots, one of them current;
  readers and receipt lookups that pin a slot; one writer or one maintenance owner at a time.
  Each definition is one critical section of the registry mutex or one atomic operation; what
  happens between them (file work, publication) is an argument that gives its outcome.
  \<open>busy\<close> says the mutex was held, \<open>lost\<close> that a pin's exchange lost all its attempts.
  A poisoned or failing mutex, which only refuses the call, is left out.
\<close>

section \<open>State\<close>

definition snapshot_slots :: nat where "snapshot_slots = 4"
definition max_pins :: nat where "max_pins = 8"

datatype active = ActiveWriter (writer_slot: nat) (active_attempt: "transaction_id option") | ActiveMaintenance

record snapshot =
  snapshot_slot :: nat
  snapshot_commit :: "catalog_commit option"

record resolution_view =
  view_slot :: nat
  view_record :: wal_record
  view_active :: "transaction_id option"

record writer =
  slot_of :: nat
  prior_of :: wal_record
  issued_of :: "wal_record option"
  temporary_bytes :: u64
  published :: "wal_record option"

text \<open>
  The registry with the handles its users hold. \<open>published\<close> is where a writer is between
  publishing a record and taking the mutex to make it visible.
\<close>

record registry =
  current_slot :: nat
  slots :: "wal_record list"
  admitted :: "active option"
  data_pins :: "nat list"
  resolution_pins :: "nat list"
  live_generation :: u64
  unavailable :: bool
  temporary :: u64
  temporary_limit :: u64
  snapshots :: "snapshot list"
  views :: "resolution_view list"
  the_writer :: "writer option"
  the_maintenance :: "wal_record option"

definition is_catalog_state :: "root_state \<Rightarrow> bool" where
  "is_catalog_state st = (case st of CatalogState _ \<Rightarrow> True | _ \<Rightarrow> False)"

definition record_generation :: "wal_record \<Rightarrow> u64" where
  "record_generation w = (case state w of CatalogState c \<Rightarrow> commit_generation c | _ \<Rightarrow> 0)"

definition allocate_registry :: "u64 \<Rightarrow> wal_record \<Rightarrow> registry" where
  "allocate_registry limit w = \<lparr>current_slot = 0, slots = replicate snapshot_slots w, admitted = None,
     data_pins = replicate snapshot_slots 0, resolution_pins = replicate snapshot_slots 0,
     live_generation = record_generation w, unavailable = False, temporary = 0,
     temporary_limit = limit, snapshots = [], views = [], the_writer = None, the_maintenance = None\<rparr>"

definition current_record :: "registry \<Rightarrow> wal_record" where
  "current_record r = slots r ! current_slot r"

definition enter :: "bool \<Rightarrow> registry \<Rightarrow> db_error + unit" where
  "enter busy r =
     (if unavailable r then Inl (recovery_needed (live_generation r))
      else if busy then Inl (Contention ''catalog registry'') else Inr ())"

definition finish_owned_write :: "registry \<Rightarrow> db_error + unit" where
  "finish_owned_write r =
     (if unavailable r then Inl (recovery_needed (live_generation r)) else Inr ())"

definition increment :: "bool \<Rightarrow> nat \<Rightarrow> db_error + nat" where
  "increment lost pins =
     (if max_pins \<le> pins then Inl (ResourceError ''catalog view pins'' (word_of_nat max_pins + 1) (word_of_nat max_pins))
      else if lost then Inl (Contention ''catalog view pin'') else Inr (pins + 1))"

section \<open>Readers\<close>

definition catalog_snapshot :: "bool \<Rightarrow> bool \<Rightarrow> registry \<Rightarrow> db_error + snapshot \<times> registry" where
  "catalog_snapshot busy lost r =
     attempt (enter busy r) (\<lambda>_.
       let slot = current_slot r;
           commit = (case state (slots r ! slot) of CatalogState c \<Rightarrow> c | _ \<Rightarrow> None);
           s = \<lparr>snapshot_slot = slot, snapshot_commit = commit\<rparr>
       in attempt (increment lost (data_pins r ! slot)) (\<lambda>n.
          Inr (s, r\<lparr>data_pins := (data_pins r)[slot := n], snapshots := snapshots r @ [s]\<rparr>)))"

text \<open>A failed assertion is \<open>None\<close>.\<close>

definition drop_snapshot :: "nat \<Rightarrow> registry \<Rightarrow> registry option" where
  "drop_snapshot i r =
     (let slot = snapshot_slot (snapshots r ! i) in
      if 0 < data_pins r ! slot
      then Some (r\<lparr>data_pins := (data_pins r)[slot := data_pins r ! slot - 1],
                   snapshots := without i (snapshots r)\<rparr>)
      else None)"

definition transaction_of_active :: "active \<Rightarrow> transaction_id option" where
  "transaction_of_active a = (case a of ActiveWriter _ t \<Rightarrow> t | ActiveMaintenance \<Rightarrow> None)"

definition begin_resolution :: "bool \<Rightarrow> bool \<Rightarrow> registry \<Rightarrow> db_error + resolution_view \<times> registry" where
  "begin_resolution busy lost r =
     attempt (enter busy r) (\<lambda>_.
       let slot = current_slot r;
           v = \<lparr>view_slot = slot, view_record = slots r ! slot,
                view_active = Option.bind (admitted r) transaction_of_active\<rparr>
       in attempt (increment lost (resolution_pins r ! slot)) (\<lambda>n.
          Inr (v, r\<lparr>resolution_pins := (resolution_pins r)[slot := n], views := views r @ [v]\<rparr>)))"

text \<open>The lookup in the view's history is the parameter \<open>lookup\<close>.\<close>

definition resolve_in_view ::
  "(wal_record \<Rightarrow> transaction_id \<Rightarrow> db_error + u64 option) \<Rightarrow> resolution_view \<Rightarrow> transaction_id
     \<Rightarrow> db_error + commit_resolution" where
  "resolve_in_view lookup v txn =
     (if \<not> belongs_to txn (database (view_record v)) \<or> issued (view_record v) < sequence_of txn
      then Inl NotFound
      else if view_active v = Some txn then Inl (Contention ''transaction is active'')
      else attempt (lookup (view_record v) txn) (\<lambda>found.
        case found of
          Some gen \<Rightarrow> Inr (Durable \<lparr>receipt_transaction = txn, receipt_generation = gen\<rparr>)
        | None \<Rightarrow> Inr Aborted))"

definition drop_resolution :: "nat \<Rightarrow> registry \<Rightarrow> registry option" where
  "drop_resolution i r =
     (let slot = view_slot (views r ! i) in
      if 0 < resolution_pins r ! slot
      then Some (r\<lparr>resolution_pins := (resolution_pins r)[slot := resolution_pins r ! slot - 1],
                   views := without i (views r)\<rparr>)
      else None)"

section \<open>The writer\<close>

definition free_slot :: "registry \<Rightarrow> nat option" where
  "free_slot r = find (\<lambda>slot. slot \<noteq> current_slot r \<and> data_pins r ! slot = 0
     \<and> resolution_pins r ! slot = 0) [0..<snapshot_slots]"

definition catalog_writer :: "bool \<Rightarrow> registry \<Rightarrow> db_error + registry" where
  "catalog_writer busy r =
     attempt (enter busy r) (\<lambda>_.
     if admitted r \<noteq> None then Inl (Contention ''catalog writer'')
     else let prior = current_record r in
       if issued prior = - 1 \<or> record_generation prior = max_successes
       then Inl (Unsupported ''catalog issuance or success capacity exhausted'')
       else attempt (ok_or (free_slot r) (ResourceError ''catalog snapshot slots''
              (word_of_nat snapshot_slots + 1) (word_of_nat snapshot_slots))) (\<lambda>slot.
         Inr (r\<lparr>admitted := Some (ActiveWriter slot None),
                the_writer := Some \<lparr>slot_of = slot, prior_of = prior, issued_of = None,
                  temporary_bytes = 0, published = None\<rparr>\<rparr>)))"

definition fail_catalog :: "wal_record \<Rightarrow> db_error \<Rightarrow> registry \<Rightarrow> db_error \<times> registry" where
  "fail_catalog prior e r = (recovery_error (record_generation prior) e, r\<lparr>unavailable := True\<rparr>)"

definition reserve_construction :: "bool \<Rightarrow> bool \<Rightarrow> u64 \<Rightarrow> writer \<Rightarrow> registry \<Rightarrow> db_error + registry" where
  "reserve_construction busy lost bytes w r =
     attempt (enter busy r) (\<lambda>_.
     if issued_of w \<noteq> None then Inl (Unsupported ''construction admission precedes issuance'')
     else attempt (ok_or (checked_add (temporary_bytes w) bytes)
            (ResourceError ''catalog construction bytes'' (- 1) (temporary_limit r))) (\<lambda>next.
     attempt (propose ''database temporary storage'' (temporary_limit r) (temporary r) bytes) (\<lambda>total.
     if lost then Inl (Contention ''database temporary reservation'')
     else Inr (r\<lparr>temporary := total, the_writer := Some (w\<lparr>temporary_bytes := next\<rparr>)\<rparr>))))"

text \<open>
  Issuing an attempt, up to the publication; \<open>checked\<close> is the outcome of comparing the
  directory with the prior record, \<open>publication\<close> that of publishing the next one. \<open>None\<close>
  among the results is the failed expectation that the attempt counter has room.
\<close>

definition issue_publish ::
  "bool \<Rightarrow> db_error + unit \<Rightarrow> db_error + unit \<Rightarrow> writer \<Rightarrow> registry \<Rightarrow> ((db_error + unit) \<times> registry) option" where
  "issue_publish busy checked publication w r =
     (case enter busy r of
        Inl e \<Rightarrow> Some (Inl e, r)
      | Inr _ \<Rightarrow>
          if issued_of w \<noteq> None then Some (Inl (Unsupported ''writer attempt already issued''), r)
          else case checked of
            Inl e \<Rightarrow> Some (let (e', r') = fail_catalog (prior_of w) e r in (Inl e', r'))
          | Inr _ \<Rightarrow>
              (case checked_add (issued (prior_of w)) 1 of
                 None \<Rightarrow> None
               | Some n \<Rightarrow>
                   (case publication of
                      Inl e \<Rightarrow> Some (let (e', r') = fail_catalog (prior_of w) e r in (Inl e', r'))
                    | Inr _ \<Rightarrow> Some (Inr (),
                        r\<lparr>the_writer := Some (w\<lparr>published := Some ((prior_of w)\<lparr>issued := n\<rparr>)\<rparr>)\<rparr>))))"

definition issue_finish :: "writer \<Rightarrow> wal_record \<Rightarrow> registry \<Rightarrow> ((db_error + transaction_id) \<times> registry) option" where
  "issue_finish w next r =
     (case finish_owned_write r of
        Inl e \<Rightarrow> Some (let (e', r') = fail_catalog (prior_of w) e r in (Inl e', r'))
      | Inr _ \<Rightarrow>
          (case (admitted r, for_attempt (database next) (issued next)) of
             (Some (ActiveWriter slot _), Inr txn) \<Rightarrow>
               if slot \<noteq> slot_of w then None
               else Some (Inr txn,
                 r\<lparr>admitted := Some (ActiveWriter slot (Some txn)),
                   slots := (slots r)[current_slot r := next],
                   the_writer := Some (w\<lparr>issued_of := Some next, published := None\<rparr>)\<rparr>)
           | _ \<Rightarrow> None))"

definition drop_writer :: "registry \<Rightarrow> registry" where
  "drop_writer r = r\<lparr>unavailable := True, the_writer := None\<rparr>"

definition commit_publish ::
  "catalog_commit \<Rightarrow> db_error + unit \<Rightarrow> db_error + unit \<Rightarrow> (db_error \<times> bool) + unit
     \<Rightarrow> writer \<Rightarrow> registry \<Rightarrow> (db_error + unit) \<times> registry" where
  "commit_publish commit checked validated publication w r =
     (case issued_of w of
        None \<Rightarrow> (Inl (Unsupported ''commit requires issued attempt''), drop_writer r)
      | Some prior \<Rightarrow>
          let next = prior\<lparr>state := CatalogState (Some commit)\<rparr> in
          if transition_from next prior \<noteq> Some Commit
          then (Inl (Corrupt ''prepared graph is not the writer's next commit''), drop_writer r)
          else (case attempt checked (\<lambda>_. validated) of
            Inl e \<Rightarrow> (let (e', r') = fail_catalog (prior_of w) e r in (Inl e', drop_writer r'))
          | Inr _ \<Rightarrow>
              (case publication of
                 Inl (e, is_uncertain) \<Rightarrow>
                   (let (e', r') = fail_catalog (prior_of w) e r in
                    (Inl (if is_uncertain
                          then (case cause_of e' of Some c \<Rightarrow> CommitAmbiguous (transaction commit) c | None \<Rightarrow> e')
                          else e'), drop_writer r'))
               | Inr _ \<Rightarrow> (Inr (), r\<lparr>the_writer := Some (w\<lparr>published := Some next\<rparr>)\<rparr>))))"

definition commit_finish :: "writer \<Rightarrow> wal_record \<Rightarrow> registry \<Rightarrow> ((db_error + commit_receipt) \<times> registry) option" where
  "commit_finish w next r =
     (case state next of
        CatalogState (Some commit) \<Rightarrow>
          (case finish_owned_write r of
             Inl e \<Rightarrow> Some (let (e', r') = fail_catalog (prior_of w) e r in
               (Inl (case cause_of e' of Some c \<Rightarrow> CommitAmbiguous (transaction commit) c | None \<Rightarrow> e'), drop_writer r'))
           | Inr _ \<Rightarrow>
               if (\<exists>t. admitted r = Some (ActiveWriter (slot_of w) t))
                  \<and> data_pins r ! slot_of w = 0 \<and> resolution_pins r ! slot_of w = 0
                  \<and> temporary_bytes w \<le> temporary r
               then Some (Inr \<lparr>receipt_transaction = transaction commit, receipt_generation = generation commit\<rparr>,
                 r\<lparr>slots := (slots r)[slot_of w := next], current_slot := slot_of w, admitted := None,
                   live_generation := generation commit,
                   temporary := temporary r - temporary_bytes w, the_writer := None\<rparr>)
               else None)
      | _ \<Rightarrow> None)"

definition abort_unbuilt :: "writer \<Rightarrow> registry \<Rightarrow> ((db_error + unit) \<times> registry) option" where
  "abort_unbuilt w r =
     (case finish_owned_write r of
        Inl e \<Rightarrow> Some (Inl e, drop_writer r)
      | Inr _ \<Rightarrow>
          if (\<exists>t. admitted r = Some (ActiveWriter (slot_of w) t)) \<and> temporary_bytes w \<le> temporary r
          then Some (Inr (), r\<lparr>admitted := None, temporary := temporary r - temporary_bytes w,
                               the_writer := None\<rparr>)
          else None)"

section \<open>Maintenance\<close>

definition catalog_maintenance :: "bool \<Rightarrow> registry \<Rightarrow> db_error + registry" where
  "catalog_maintenance busy r =
     attempt (enter busy r) (\<lambda>_.
     if admitted r \<noteq> None then Inl (Contention ''catalog writer'')
     else Inr (r\<lparr>admitted := Some ActiveMaintenance, the_maintenance := Some (current_record r)\<rparr>))"

definition drop_maintenance :: "registry \<Rightarrow> registry" where
  "drop_maintenance r = r\<lparr>unavailable := True, the_maintenance := None\<rparr>"

definition finish_maintenance :: "wal_record \<Rightarrow> registry \<Rightarrow> ((db_error + unit) \<times> registry) option" where
  "finish_maintenance prior r =
     (case finish_owned_write r of
        Inl e \<Rightarrow> Some (let (e', r') = fail_catalog prior e r in (Inl e', drop_maintenance r'))
      | Inr _ \<Rightarrow>
          if admitted r = Some ActiveMaintenance
          then Some (Inr (), r\<lparr>admitted := None, the_maintenance := None\<rparr>) else None)"

section \<open>Steps\<close>

inductive registry_step :: "registry \<Rightarrow> registry \<Rightarrow> bool" where
  snapshot: "catalog_snapshot busy lost r = Inr (s, r') \<Longrightarrow> registry_step r r'"
| unpin: "i < length (snapshots r) \<Longrightarrow> drop_snapshot i r = Some r' \<Longrightarrow> registry_step r r'"
| resolve: "begin_resolution busy lost r = Inr (v, r') \<Longrightarrow> registry_step r r'"
| resolved: "i < length (views r) \<Longrightarrow> drop_resolution i r = Some r' \<Longrightarrow> registry_step r r'"
| admit: "catalog_writer busy r = Inr r' \<Longrightarrow> registry_step r r'"
| construct: "the_writer r = Some w \<Longrightarrow> published w = None \<Longrightarrow>
    reserve_construction busy lost bytes w r = Inr r' \<Longrightarrow> registry_step r r'"
| issue_p: "the_writer r = Some w \<Longrightarrow> published w = None \<Longrightarrow>
    issue_publish busy checked publication w r = Some (x, r') \<Longrightarrow> registry_step r r'"
| issue_f: "the_writer r = Some w \<Longrightarrow> published w = Some n \<Longrightarrow> issued_of w = None \<Longrightarrow>
    issue_finish w n r = Some (x', r') \<Longrightarrow> registry_step r r'"
| commit_p: "the_writer r = Some w \<Longrightarrow> published w = None \<Longrightarrow>
    commit_publish commit checked validated outcome w r = (x, r') \<Longrightarrow> registry_step r r'"
| commit_f: "the_writer r = Some w \<Longrightarrow> published w = Some n \<Longrightarrow> issued_of w \<noteq> None \<Longrightarrow>
    commit_finish w n r = Some (y, r') \<Longrightarrow> registry_step r r'"
| abort: "the_writer r = Some w \<Longrightarrow> published w = None \<Longrightarrow>
    abort_unbuilt w r = Some (x, r') \<Longrightarrow> registry_step r r'"
| abandon: "the_writer r = Some w \<Longrightarrow> registry_step r (drop_writer r)"
| maintain: "catalog_maintenance busy r = Inr r' \<Longrightarrow> registry_step r r'"
| maintained: "the_maintenance r = Some p \<Longrightarrow> finish_maintenance p r = Some (x, r') \<Longrightarrow> registry_step r r'"
| unmaintained: "the_maintenance r = Some p \<Longrightarrow> registry_step r (drop_maintenance r)"
| maintenance_failed: "the_maintenance r = Some p \<Longrightarrow> fail_catalog p e r = (e', r') \<Longrightarrow> registry_step r r'"
| elsewhere: "(\<forall>w. the_writer r = Some w \<longrightarrow> temporary_bytes w \<le> held) \<Longrightarrow> held \<le> temporary_limit r \<Longrightarrow>
    registry_step r (r\<lparr>temporary := held\<rparr>)"

section \<open>Invariants\<close>

definition pinned :: "nat \<Rightarrow> nat list \<Rightarrow> nat" where
  "pinned s xs = length (filter (\<lambda>x. x = s) xs)"

definition pins_ok :: "registry \<Rightarrow> bool" where
  "pins_ok r \<longleftrightarrow> length (slots r) = 4 \<and> length (data_pins r) = 4 \<and> length (resolution_pins r) = 4
     \<and> current_slot r < 4
     \<and> (\<forall>s < 4. data_pins r ! s = pinned s (map snapshot_slot (snapshots r)) \<and> data_pins r ! s \<le> max_pins)
     \<and> (\<forall>s < 4. resolution_pins r ! s = pinned s (map view_slot (views r)) \<and> resolution_pins r ! s \<le> max_pins)"

definition views_ok :: "registry \<Rightarrow> bool" where
  "views_ok r \<longleftrightarrow> (\<forall>s < 4. is_catalog_state (state (slots r ! s)))
     \<and> (\<forall>x \<in> set (snapshots r). snapshot_slot x < 4
          \<and> state (slots r ! snapshot_slot x) = CatalogState (snapshot_commit x))
     \<and> (\<forall>v \<in> set (views r). view_slot v < 4 \<and> state (slots r ! view_slot v) = state (view_record v))
     \<and> live_generation r = record_generation (current_record r)"

definition writer_ok :: "writer \<Rightarrow> registry \<Rightarrow> bool" where
  "writer_ok w r \<longleftrightarrow> slot_of w < 4 \<and> slot_of w \<noteq> current_slot r
     \<and> data_pins r ! slot_of w = 0 \<and> resolution_pins r ! slot_of w = 0
     \<and> temporary_bytes w \<le> temporary r \<and> issued (prior_of w) \<noteq> - 1
     \<and> (case issued_of w of
          None \<Rightarrow> admitted r = Some (ActiveWriter (slot_of w) None) \<and> current_record r = prior_of w
            \<and> (published w = None \<or> published w = Some ((prior_of w)\<lparr>issued := issued (prior_of w) + 1\<rparr>))
        | Some n \<Rightarrow> (\<exists>t. admitted r = Some (ActiveWriter (slot_of w) (Some t))) \<and> current_record r = n
            \<and> (\<forall>p. published w = Some p \<longrightarrow>
                 (\<exists>c. p = n\<lparr>state := CatalogState (Some c)\<rparr>) \<and> transition_from p n = Some Commit))"

definition owner_ok :: "registry \<Rightarrow> bool" where
  "owner_ok r \<longleftrightarrow>
     (\<forall>w. the_writer r = Some w \<longrightarrow> writer_ok w r \<and> the_maintenance r = None)
     \<and> (the_maintenance r \<noteq> None \<longrightarrow> admitted r = Some ActiveMaintenance)
     \<and> (the_writer r = None \<longrightarrow> the_maintenance r = None \<longrightarrow> \<not> unavailable r \<longrightarrow> admitted r = None)"

definition registry_ok :: "registry \<Rightarrow> bool" where
  "registry_ok r \<longleftrightarrow> pins_ok r \<and> views_ok r \<and> owner_ok r"

lemma pinned_append [simp]: "pinned s (xs @ [x]) = pinned s xs + (if x = s then 1 else 0)"
  by (simp add: pinned_def)

lemma pinned_without:
  "i < length xs \<Longrightarrow> pinned s (without i xs) + (if xs ! i = s then 1 else 0) = pinned s xs"
  by (subst (3) id_take_nth_drop [of i xs]) (simp_all add: pinned_def without_def)

lemma map_without: "map f (without i xs) = without i (map f xs)"
  by (simp add: without_def take_map drop_map)

lemma set_without: "set (without i xs) \<subseteq> set xs"
  by (auto simp: without_def dest: in_set_takeD in_set_dropD)

lemma pinned_zero: "pinned s xs = 0 \<longleftrightarrow> s \<notin> set xs"
  by (auto simp: pinned_def filter_empty_conv)

lemma increment_Inr: "increment lost n = Inr m \<longleftrightarrow> n < max_pins \<and> \<not> lost \<and> m = Suc n"
  by (auto simp: increment_def)

lemma enter_Inr: "enter busy r = Inr u \<longleftrightarrow> \<not> unavailable r \<and> \<not> busy"
  by (simp add: enter_def)

lemma finish_Inr: "finish_owned_write r = Inr u \<longleftrightarrow> \<not> unavailable r"
  by (simp add: finish_owned_write_def)

text \<open>Pins of slots other than the current one may only be released.\<close>

lemma owner_ok_pins:
  assumes "owner_ok r" and "admitted r' = admitted r" "the_writer r' = the_writer r"
    "the_maintenance r' = the_maintenance r" "unavailable r' = unavailable r"
    "temporary r' = temporary r" "current_slot r' = current_slot r" "slots r' = slots r"
    and "\<And>s. s < 4 \<Longrightarrow> s \<noteq> current_slot r \<Longrightarrow> data_pins r ! s = 0 \<Longrightarrow> data_pins r' ! s = 0"
    and "\<And>s. s < 4 \<Longrightarrow> s \<noteq> current_slot r \<Longrightarrow> resolution_pins r ! s = 0 \<Longrightarrow> resolution_pins r' ! s = 0"
  shows "owner_ok r'"
proof -
  have "writer_ok w r'" if "writer_ok w r" for w
    using that assms(9) [of "slot_of w"] assms(10) [of "slot_of w"]
    unfolding writer_ok_def current_record_def assms(2-8) by blast
  with assms(1) show ?thesis unfolding owner_ok_def assms(2-8) by blast
qed

lemma snapshot_keeps_ok:
  assumes "registry_ok r" and "catalog_snapshot busy lost r = Inr (s, r')"
  shows "registry_ok r'"
proof -
  let ?c = "current_slot r"
  let ?v = "\<lparr>snapshot_slot = ?c, snapshot_commit = (case state (slots r ! ?c) of CatalogState c \<Rightarrow> c | _ \<Rightarrow> None)\<rparr>"
  have "data_pins r ! ?c < max_pins \<and> (s, r') = (?v, r\<lparr>data_pins := (data_pins r)[?c := Suc (data_pins r ! ?c)],
      snapshots := snapshots r @ [?v]\<rparr>)"
    using assms(2) unfolding catalog_snapshot_def Let_def attempt_Inr_conv increment_Inr by auto
  then have n: "data_pins r ! ?c < max_pins" and s: "snapshot_slot s = ?c" "s = ?v"
    and r': "r' = r\<lparr>data_pins := (data_pins r)[?c := Suc (data_pins r ! ?c)], snapshots := snapshots r @ [s]\<rparr>"
    by simp_all
  have pins: "pins_ok r" and views: "views_ok r" and owner: "owner_ok r"
    using assms(1) by (simp_all add: registry_ok_def)
  have "is_catalog_state (state (slots r ! ?c))" "?c < 4"
    using views pins by (simp_all add: views_ok_def pins_ok_def)
  then obtain c0 where c: "state (slots r ! ?c) = CatalogState c0" "?c < 4"
    by (auto simp: is_catalog_state_def split: root_state.splits)
  have "pins_ok r'"
    using pins n s(1) by (auto simp: pins_ok_def r' nth_list_update)
  moreover have "views_ok r'"
    using views s(2) c by (auto simp: views_ok_def r' current_record_def)
  moreover have "owner_ok r'"
    by (rule owner_ok_pins [OF owner]) (auto simp: r')
  ultimately show ?thesis by (simp add: registry_ok_def)
qed

lemma unpin_keeps_ok:
  assumes "registry_ok r" and "i < length (snapshots r)" and "drop_snapshot i r = Some r'"
  shows "registry_ok r'"
proof -
  let ?s = "snapshot_slot (snapshots r ! i)"
  have r': "r' = r\<lparr>data_pins := (data_pins r)[?s := data_pins r ! ?s - 1], snapshots := without i (snapshots r)\<rparr>"
    using assms(3) by (auto simp: drop_snapshot_def Let_def split: if_splits)
  have pins: "pins_ok r" and views: "views_ok r" and owner: "owner_ok r"
    using assms(1) by (simp_all add: registry_ok_def)
  have count: "pinned s (map snapshot_slot (without i (snapshots r)))
      = pinned s (map snapshot_slot (snapshots r)) - (if ?s = s then 1 else 0)" for s
    using pinned_without [of i "map snapshot_slot (snapshots r)" s] assms(2) by (simp add: map_without)
  have slot: "?s < 4" using views assms(2) by (simp add: views_ok_def)
  have "pins_ok r'"
    using pins count slot by (auto simp: pins_ok_def r' nth_list_update)
  moreover have "views_ok r'"
    using views set_without [of i "snapshots r"] by (auto simp: views_ok_def r' current_record_def)
  moreover have "owner_ok r'"
    by (rule owner_ok_pins [OF owner]) (use pins slot in \<open>auto simp: r' pins_ok_def nth_list_update\<close>)
  ultimately show ?thesis by (simp add: registry_ok_def)
qed

lemma resolve_keeps_ok:
  assumes "registry_ok r" and "begin_resolution busy lost r = Inr (v, r')"
  shows "registry_ok r'"
proof -
  let ?c = "current_slot r"
  have r': "r' = r\<lparr>resolution_pins := (resolution_pins r)[?c := Suc (resolution_pins r ! ?c)],
      views := views r @ [v]\<rparr>" and v: "view_slot v = ?c" "view_record v = slots r ! ?c"
    and n: "resolution_pins r ! ?c < max_pins"
    using assms(2) by (auto simp: begin_resolution_def Let_def attempt_Inr_conv enter_Inr increment_Inr)
  have pins: "pins_ok r" and views: "views_ok r" and owner: "owner_ok r"
    using assms(1) by (simp_all add: registry_ok_def)
  have "pins_ok r'"
    using pins n v(1) by (auto simp: pins_ok_def r' nth_list_update)
  moreover have "views_ok r'"
    using views pins v by (auto simp: views_ok_def pins_ok_def r' current_record_def)
  moreover have "owner_ok r'"
    by (rule owner_ok_pins [OF owner]) (auto simp: r')
  ultimately show ?thesis by (simp add: registry_ok_def)
qed

lemma resolved_keeps_ok:
  assumes "registry_ok r" and "i < length (views r)" and "drop_resolution i r = Some r'"
  shows "registry_ok r'"
proof -
  let ?s = "view_slot (views r ! i)"
  have r': "r' = r\<lparr>resolution_pins := (resolution_pins r)[?s := resolution_pins r ! ?s - 1],
      views := without i (views r)\<rparr>"
    using assms(3) by (auto simp: drop_resolution_def Let_def split: if_splits)
  have pins: "pins_ok r" and views: "views_ok r" and owner: "owner_ok r"
    using assms(1) by (simp_all add: registry_ok_def)
  have count: "pinned s (map view_slot (without i (views r)))
      = pinned s (map view_slot (views r)) - (if ?s = s then 1 else 0)" for s
    using pinned_without [of i "map view_slot (views r)" s] assms(2) by (simp add: map_without)
  have slot: "?s < 4" using views assms(2) by (simp add: views_ok_def)
  have "pins_ok r'"
    using pins count slot by (auto simp: pins_ok_def r' nth_list_update)
  moreover have "views_ok r'"
    using views set_without [of i "views r"] by (auto simp: views_ok_def r' current_record_def)
  moreover have "owner_ok r'"
    by (rule owner_ok_pins [OF owner]) (use pins slot in \<open>auto simp: r' pins_ok_def nth_list_update\<close>)
  ultimately show ?thesis by (simp add: registry_ok_def)
qed

lemma free_slot_Some:
  "free_slot r = Some s \<Longrightarrow>
     s < 4 \<and> s \<noteq> current_slot r \<and> data_pins r ! s = 0 \<and> resolution_pins r ! s = 0"
  by (auto simp: free_slot_def find_Some_iff snapshot_slots_def)

text \<open>Steps that leave the slots, the pins and the views alone.\<close>

lemma ok_of_owner:
  assumes "registry_ok r" and "owner_ok r'"
    and "slots r' = slots r" and "current_slot r' = current_slot r"
    and "data_pins r' = data_pins r" and "resolution_pins r' = resolution_pins r"
    and "snapshots r' = snapshots r" and "views r' = views r" and "live_generation r' = live_generation r"
  shows "registry_ok r'"
  using assms(1,2) unfolding registry_ok_def pins_ok_def views_ok_def current_record_def assms(3-9)
  by blast

lemma admit_keeps_ok:
  assumes "registry_ok r" and "catalog_writer busy r = Inr r'"
  shows "registry_ok r'"
proof -
  obtain slot where f: "free_slot r = Some slot" and a: "admitted r = None" and u: "\<not> unavailable r"
    and cap: "issued (current_record r) \<noteq> - 1"
    and r': "r' = r\<lparr>admitted := Some (ActiveWriter slot None),
                the_writer := Some \<lparr>slot_of = slot, prior_of = current_record r, issued_of = None,
                  temporary_bytes = 0, published = None\<rparr>\<rparr>"
    using assms(2) by (auto simp: catalog_writer_def Let_def attempt_Inr_conv enter_Inr split: if_splits)
  have "owner_ok r" using assms(1) by (simp add: registry_ok_def)
  then have "owner_ok r'"
    using free_slot_Some [OF f] a u cap
    by (auto simp: owner_ok_def writer_ok_def r' current_record_def)
  then show ?thesis by (rule ok_of_owner [OF assms(1)]) (simp_all add: r')
qed

lemma construct_keeps_ok:
  assumes "registry_ok r" and "the_writer r = Some w"
    and "reserve_construction busy lost bytes w r = Inr r'"
  shows "registry_ok r'"
proof -
  obtain more held where n: "checked_add (temporary_bytes w) bytes = Some more"
    and h: "unat held = unat (temporary r) + unat bytes"
    and r': "r' = r\<lparr>temporary := held, the_writer := Some (w\<lparr>temporary_bytes := more\<rparr>)\<rparr>"
    using assms(3) by (auto simp: reserve_construction_def attempt_Inr_conv enter_Inr propose_Inr split: if_splits)
  have o: "owner_ok r" using assms(1) by (simp add: registry_ok_def)
  then have "writer_ok w r" using assms(2) by (simp add: owner_ok_def)
  then have "writer_ok (w\<lparr>temporary_bytes := more\<rparr>) r'"
    using n h by (simp add: writer_ok_def r' current_record_def checked_add_Some word_le_nat_alt
        split: option.splits)
  with o assms(2) have "owner_ok r'" by (simp add: owner_ok_def r')
  then show ?thesis by (rule ok_of_owner [OF assms(1)]) (simp_all add: r')
qed

lemma unavailable_keeps_ok:
  assumes "registry_ok r"
  shows "registry_ok (r\<lparr>unavailable := True\<rparr>)" "registry_ok (drop_writer r)"
    "registry_ok (drop_maintenance r)"
proof -
  have o: "owner_ok r" using assms by (simp add: registry_ok_def)
  have w: "writer_ok w (r\<lparr>unavailable := True\<rparr>) = writer_ok w r"
      "writer_ok w (r\<lparr>unavailable := True, the_maintenance := None\<rparr>) = writer_ok w r" for w
    by (simp_all add: writer_ok_def current_record_def split: option.split)
  have "owner_ok (r\<lparr>unavailable := True\<rparr>)" "owner_ok (drop_writer r)" "owner_ok (drop_maintenance r)"
    using o by (auto simp: owner_ok_def drop_writer_def drop_maintenance_def w)
  then show "registry_ok (r\<lparr>unavailable := True\<rparr>)" "registry_ok (drop_writer r)"
    "registry_ok (drop_maintenance r)"
    by (auto intro: ok_of_owner [OF assms] simp: drop_writer_def drop_maintenance_def)
qed

lemma fail_catalog_eq: "fail_catalog p e r = (recovery_error (record_generation p) e, r\<lparr>unavailable := True\<rparr>)"
  by (simp add: fail_catalog_def)

lemma issue_publish_keeps_ok:
  assumes "registry_ok r" and "the_writer r = Some w"
    and "issue_publish busy checked publication w r = Some (x, r')"
  shows "registry_ok r'"
proof -
  have o: "owner_ok r" using assms(1) by (simp add: registry_ok_def)
  then have w: "writer_ok w r" using assms(2) by (simp add: owner_ok_def)
  consider "r' = r" | "r' = r\<lparr>unavailable := True\<rparr>"
    | n where "issued_of w = None" "checked_add (issued (prior_of w)) 1 = Some n"
      "r' = r\<lparr>the_writer := Some (w\<lparr>published := Some ((prior_of w)\<lparr>issued := n\<rparr>)\<rparr>)\<rparr>"
    using assms(3) by (auto simp: issue_publish_def fail_catalog_eq split: sum.splits if_splits option.splits)
  then show ?thesis
  proof cases
    case 3
    then have "writer_ok (w\<lparr>published := Some ((prior_of w)\<lparr>issued := n\<rparr>)\<rparr>) r'"
      using w by (simp add: writer_ok_def current_record_def checked_add_def split: if_splits)
    with o assms(2) 3 have "owner_ok r'" by (simp add: owner_ok_def)
    then show ?thesis by (rule ok_of_owner [OF assms(1)]) (simp_all add: 3)
  qed (use assms(1) unavailable_keeps_ok in auto)
qed

lemma issue_finish_keeps_ok:
  assumes "registry_ok r" and "the_writer r = Some w" and "published w = Some n" and "issued_of w = None"
    and "issue_finish w n r = Some (x, r')"
  shows "registry_ok r'"
proof -
  have pins: "pins_ok r" and views: "views_ok r" and owner: "owner_ok r"
    using assms(1) by (simp_all add: registry_ok_def)
  then have w: "writer_ok w r" using assms(2) by (simp add: owner_ok_def)
  consider "r' = r\<lparr>unavailable := True\<rparr>"
    | txn where "r' = r\<lparr>admitted := Some (ActiveWriter (slot_of w) (Some txn)),
                   slots := (slots r)[current_slot r := n],
                   the_writer := Some (w\<lparr>issued_of := Some n, published := None\<rparr>)\<rparr>"
    using assms(5) by (auto simp: issue_finish_def fail_catalog_eq split: sum.splits if_splits option.splits active.splits)
  then show ?thesis
  proof cases
    case 1
    then show ?thesis using assms(1) unavailable_keeps_ok by simp
  next
    case 2
    have c: "current_slot r < 4" "length (slots r) = 4" using pins by (simp_all add: pins_ok_def)
    have n: "state n = state (slots r ! current_slot r)"
      using w assms(3,4) by (auto simp: writer_ok_def current_record_def)
    have "state ((slots r)[current_slot r := n] ! s) = state (slots r ! s)" for s
      using c n by (cases "s = current_slot r") simp_all
    then have "views_ok r'"
      using views c n by (simp add: views_ok_def 2 current_record_def record_generation_def)
    moreover have "pins_ok r'" using pins by (auto simp: pins_ok_def 2)
    moreover have "writer_ok (w\<lparr>issued_of := Some n, published := None\<rparr>) r'"
      using w c by (simp add: writer_ok_def 2 current_record_def)
    then have "owner_ok r'" using owner assms(2) by (simp add: owner_ok_def 2)
    ultimately show ?thesis by (simp add: registry_ok_def)
  qed
qed

lemma commit_publish_keeps_ok:
  assumes "registry_ok r" and "the_writer r = Some w"
    and "commit_publish commit checked validated publication w r = (x, r')"
  shows "registry_ok r'"
proof -
  have o: "owner_ok r" using assms(1) by (simp add: registry_ok_def)
  then have w: "writer_ok w r" using assms(2) by (simp add: owner_ok_def)
  consider "r' = drop_writer r" | "r' = drop_writer (r\<lparr>unavailable := True\<rparr>)"
    | p where "issued_of w = Some p"
      "transition_from (p\<lparr>state := CatalogState (Some commit)\<rparr>) p = Some Commit"
      "r' = r\<lparr>the_writer := Some (w\<lparr>published := Some (p\<lparr>state := CatalogState (Some commit)\<rparr>)\<rparr>)\<rparr>"
    using assms(3)
    by (auto simp: commit_publish_def Let_def fail_catalog_eq split: sum.splits if_splits option.splits)
  then show ?thesis
  proof cases
    case 3
    then have "writer_ok (w\<lparr>published := Some (p\<lparr>state := CatalogState (Some commit)\<rparr>)\<rparr>) r'"
      using w by (auto simp: writer_ok_def current_record_def)
    with o assms(2) 3 have "owner_ok r'" by (simp add: owner_ok_def)
    then show ?thesis by (rule ok_of_owner [OF assms(1)]) (simp_all add: 3)
  qed (use assms(1) unavailable_keeps_ok in auto)
qed

lemma commit_finish_keeps_ok:
  assumes "registry_ok r" and "the_writer r = Some w" and "published w = Some n" and "issued_of w \<noteq> None"
    and "commit_finish w n r = Some (x, r')"
  shows "registry_ok r'"
proof -
  have pins: "pins_ok r" and views: "views_ok r" and owner: "owner_ok r"
    using assms(1) by (simp_all add: registry_ok_def)
  then have w: "writer_ok w r" and m: "the_maintenance r = None"
    using assms(2) by (simp_all add: owner_ok_def)
  obtain c where st: "state n = CatalogState (Some c)"
    using assms(5) by (auto simp: commit_finish_def split: root_state.splits option.splits)
  consider "r' = drop_writer (r\<lparr>unavailable := True\<rparr>)"
    | "r' = r\<lparr>slots := (slots r)[slot_of w := n], current_slot := slot_of w, admitted := None,
                   live_generation := generation c,
                   temporary := temporary r - temporary_bytes w, the_writer := None\<rparr>"
    using assms(5) st by (auto simp: commit_finish_def fail_catalog_eq split: sum.splits if_splits)
  then show ?thesis
  proof cases
    case 1
    then show ?thesis using assms(1) unavailable_keeps_ok by simp
  next
    case 2
    have s: "slot_of w < 4" "length (slots r) = 4" using pins w by (simp_all add: pins_ok_def writer_ok_def)
    have free: "data_pins r ! slot_of w = 0" "resolution_pins r ! slot_of w = 0"
      using w by (simp_all add: writer_ok_def)
    have "slot_of w \<notin> snapshot_slot ` set (snapshots r)" "slot_of w \<notin> view_slot ` set (views r)"
      using free pins s(1) by (auto simp: pins_ok_def pinned_zero)
    then have "views_ok r'"
      using views s st by (auto simp: views_ok_def 2 current_record_def record_generation_def
          commit_generation_def is_catalog_state_def nth_list_update)
    moreover have "pins_ok r'" using pins s by (auto simp: pins_ok_def 2)
    moreover have "owner_ok r'" using m by (simp add: owner_ok_def 2)
    ultimately show ?thesis by (simp add: registry_ok_def)
  qed
qed

lemma abort_keeps_ok:
  assumes "registry_ok r" and "the_writer r = Some w" and "abort_unbuilt w r = Some (x, r')"
  shows "registry_ok r'"
proof -
  have o: "owner_ok r" and m: "the_maintenance r = None"
    using assms(1,2) by (simp_all add: registry_ok_def owner_ok_def)
  consider "r' = drop_writer r"
    | "r' = r\<lparr>admitted := None, temporary := temporary r - temporary_bytes w, the_writer := None\<rparr>"
    using assms(3) by (auto simp: abort_unbuilt_def split: sum.splits if_splits)
  then show ?thesis
  proof cases
    case 1
    then show ?thesis using assms(1) unavailable_keeps_ok by simp
  next
    case 2
    have "owner_ok r'" using m by (simp add: owner_ok_def 2)
    then show ?thesis by (rule ok_of_owner [OF assms(1)]) (simp_all add: 2)
  qed
qed

lemma maintain_keeps_ok:
  assumes "registry_ok r" and "catalog_maintenance busy r = Inr r'"
  shows "registry_ok r'"
proof -
  have o: "owner_ok r" using assms(1) by (simp add: registry_ok_def)
  have r': "r' = r\<lparr>admitted := Some ActiveMaintenance, the_maintenance := Some (current_record r)\<rparr>"
    and a: "admitted r = None"
    using assms(2) by (auto simp: catalog_maintenance_def attempt_Inr_conv split: if_splits)
  have "the_writer r = None"
  proof (rule ccontr)
    assume "the_writer r \<noteq> None"
    then obtain w where "writer_ok w r" using o by (auto simp: owner_ok_def)
    then show False using a by (auto simp: writer_ok_def split: option.splits)
  qed
  then have "owner_ok r'" by (simp add: owner_ok_def r')
  then show ?thesis by (rule ok_of_owner [OF assms(1)]) (simp_all add: r')
qed

lemma maintained_keeps_ok:
  assumes "registry_ok r" and "the_maintenance r = Some p" and "finish_maintenance p r = Some (x, r')"
  shows "registry_ok r'"
proof -
  have o: "owner_ok r" using assms(1) by (simp add: registry_ok_def)
  then have w: "the_writer r = None" using assms(2) by (cases "the_writer r") (auto simp: owner_ok_def)
  consider "r' = drop_maintenance (r\<lparr>unavailable := True\<rparr>)" | "r' = r\<lparr>admitted := None, the_maintenance := None\<rparr>"
    using assms(3) by (auto simp: finish_maintenance_def fail_catalog_eq split: sum.splits if_splits)
  then show ?thesis
  proof cases
    case 1
    then show ?thesis using assms(1) unavailable_keeps_ok by simp
  next
    case 2
    have "owner_ok r'" using w by (simp add: owner_ok_def 2)
    then show ?thesis by (rule ok_of_owner [OF assms(1)]) (simp_all add: 2)
  qed
qed

lemma elsewhere_keeps_ok:
  assumes "registry_ok r" and "\<forall>w. the_writer r = Some w \<longrightarrow> temporary_bytes w \<le> held"
  shows "registry_ok (r\<lparr>temporary := held\<rparr>)"
proof -
  have "writer_ok w (r\<lparr>temporary := held\<rparr>)" if "writer_ok w r" "temporary_bytes w \<le> held" for w
    using that by (simp add: writer_ok_def current_record_def split: option.splits)
  then have "owner_ok (r\<lparr>temporary := held\<rparr>)"
    using assms by (simp add: registry_ok_def owner_ok_def)
  then show ?thesis by (rule ok_of_owner [OF assms(1)]) simp_all
qed

lemma registry_step_ok:
  assumes "registry_step r r'" and ok: "registry_ok r"
  shows "registry_ok r'"
  using assms(1)
proof cases
  case (maintenance_failed p e e')
  then show ?thesis using unavailable_keeps_ok(1) [OF ok] by (auto simp: fail_catalog_def)
next
  case abandon
  then show ?thesis using unavailable_keeps_ok(2) [OF ok] by simp
next
  case unmaintained
  then show ?thesis using unavailable_keeps_ok(3) [OF ok] by simp
next
  case (elsewhere held)
  then show ?thesis using elsewhere_keeps_ok [OF ok] by simp
qed (rule snapshot_keeps_ok [OF ok] unpin_keeps_ok [OF ok] resolve_keeps_ok [OF ok]
    resolved_keeps_ok [OF ok] admit_keeps_ok [OF ok] construct_keeps_ok [OF ok]
    issue_publish_keeps_ok [OF ok] issue_finish_keeps_ok [OF ok] commit_publish_keeps_ok [OF ok]
    commit_finish_keeps_ok [OF ok] abort_keeps_ok [OF ok] maintain_keeps_ok [OF ok]
    maintained_keeps_ok [OF ok]; assumption)+

section \<open>What the registry promises\<close>

lemma allocate_ok:
  assumes "is_catalog_state (state w)"
  shows "registry_ok (allocate_registry lim w)"
proof -
  have "pins_ok (allocate_registry lim w)"
    by (simp add: pins_ok_def allocate_registry_def snapshot_slots_def pinned_def)
  moreover have "views_ok (allocate_registry lim w)"
    using assms by (simp add: views_ok_def allocate_registry_def snapshot_slots_def current_record_def)
  moreover have "owner_ok (allocate_registry lim w)"
    by (simp add: owner_ok_def allocate_registry_def)
  ultimately show ?thesis by (simp add: registry_ok_def)
qed

definition reachable :: "u64 \<Rightarrow> wal_record \<Rightarrow> registry \<Rightarrow> bool" where
  "reachable lim w r \<longleftrightarrow> is_catalog_state (state w) \<and> registry_step\<^sup>*\<^sup>* (allocate_registry lim w) r"

lemma reachable_ok: "reachable lim w r \<Longrightarrow> registry_ok r"
proof -
  assume "reachable lim w r"
  then have "registry_step\<^sup>*\<^sup>* (allocate_registry lim w) r" and "registry_ok (allocate_registry lim w)"
    using allocate_ok by (auto simp: reachable_def)
  then show "registry_ok r"
    by (induction rule: rtranclp_induct) (use registry_step_ok in blast)+
qed

text \<open>C5: A reader keeps its view for as long as it holds it. Whatever readers, lookups, the
  writer and maintenance do, in any order, every open snapshot's slot still holds the commit
  the snapshot captured, is counted by at least one of the slot's at most eight pins, and is
  never the slot the writer is about to fill; and the pin's release cannot underflow.\<close>

theorem readers_keep_their_view:
  assumes "reachable lim w r" and "i < length (snapshots r)"
  shows "state (slots r ! snapshot_slot (snapshots r ! i)) = CatalogState (snapshot_commit (snapshots r ! i))
    \<and> 0 < data_pins r ! snapshot_slot (snapshots r ! i)
    \<and> data_pins r ! snapshot_slot (snapshots r ! i) \<le> max_pins
    \<and> (\<forall>v. the_writer r = Some v \<longrightarrow> slot_of v \<noteq> snapshot_slot (snapshots r ! i))
    \<and> drop_snapshot i r \<noteq> None"
proof -
  let ?s = "snapshot_slot (snapshots r ! i)"
  have ok: "pins_ok r" "views_ok r" "owner_ok r"
    using reachable_ok [OF assms(1)] by (simp_all add: registry_ok_def)
  have mem: "snapshots r ! i \<in> set (snapshots r)" using assms(2) by simp
  then have s: "?s < 4" "state (slots r ! ?s) = CatalogState (snapshot_commit (snapshots r ! i))"
    using ok(2) by (auto simp: views_ok_def)
  have "pinned ?s (map snapshot_slot (snapshots r)) \<noteq> 0"
    using mem by (auto simp: pinned_zero)
  then have p: "0 < data_pins r ! ?s" "data_pins r ! ?s \<le> max_pins"
    using ok(1) s(1) by (auto simp: pins_ok_def)
  moreover have "slot_of v \<noteq> ?s" if "the_writer r = Some v" for v
    using ok(3) that p(1) by (auto simp: owner_ok_def writer_ok_def)
  ultimately show ?thesis using s(2) by (auto simp: drop_snapshot_def Let_def)
qed

lemma word_succ_fits:
  assumes "a \<noteq> - 1"
  shows "unat (a :: u64) + 1 < 2 ^ 64" and "unat (a + 1) = Suc (unat a)"
proof -
  have "unat a \<noteq> unat (- 1 :: u64)" using assms by (metis word_unat_eq_iff)
  then have "unat a \<noteq> 2 ^ 64 - 1" by (simp add: unsigned_minus_1_eq_mask mask_eq_exp_minus_1)
  then have "unat a \<noteq> 18446744073709551615" by simp
  with unat_u64_less [of a] have less: "unat a < 18446744073709551615" by linarith
  then show "unat a + 1 < 2 ^ 64" by simp
  from less show "unat (a + 1) = Suc (unat a)" by (simp add: unat_word_ariths)
qed

text \<open>C6: No assertion of the registry can fail. In every reachable state the writer, if there
  is one, holds the admission for its own slot, which is neither current nor pinned, so publishing
  an attempt or a commit, aborting and ending maintenance all find what they expect.\<close>

theorem registry_assertions_hold:
  assumes "reachable lim w r"
  shows "(\<forall>v. the_writer r = Some v \<longrightarrow>
      abort_unbuilt v r \<noteq> None
      \<and> issue_publish busy checked publication v r \<noteq> None
      \<and> (\<forall>n. published v = Some n \<longrightarrow>
           (if issued_of v = None then issue_finish v n r \<noteq> None else commit_finish v n r \<noteq> None)))
    \<and> (\<forall>p. the_maintenance r = Some p \<longrightarrow> finish_maintenance p r \<noteq> None)"
proof -
  have ok: "owner_ok r" using reachable_ok [OF assms] by (simp add: registry_ok_def)
  note more = word_succ_fits(1)
  have "abort_unbuilt v r \<noteq> None
      \<and> issue_publish busy checked publication v r \<noteq> None
      \<and> (\<forall>n. published v = Some n \<longrightarrow>
           (if issued_of v = None then issue_finish v n r \<noteq> None else commit_finish v n r \<noteq> None))"
    if "the_writer r = Some v" for v
  proof -
    have w: "writer_ok v r" using ok that by (simp add: owner_ok_def)
    then have adm: "\<exists>t. admitted r = Some (ActiveWriter (slot_of v) t)"
      and cap: "unat (issued (prior_of v)) + 1 < 2 ^ 64"
      using more by (auto simp: writer_ok_def split: option.splits)
    then have some: "checked_add (issued (prior_of v)) 1 = Some (issued (prior_of v) + 1)"
      by (simp add: checked_add_def)
    have attempt_ok: "\<exists>t. for_attempt (database n) (issued n) = Inr t"
      if "issued n = issued (prior_of v) + 1" for n
    proof -
      have "unat (issued n) \<noteq> 0" using cap that by (simp add: unat_word_ariths)
      then have "issued n \<noteq> 0" by auto
      then show ?thesis by (simp add: for_attempt_def)
    qed
    have "abort_unbuilt v r \<noteq> None"
      using w adm by (auto simp: abort_unbuilt_def writer_ok_def split: sum.splits)
    moreover have "issue_publish busy checked publication v r \<noteq> None"
      using some by (auto simp: issue_publish_def fail_catalog_eq split: sum.splits)
    moreover have "issue_finish v n r \<noteq> None" if "published v = Some n" "issued_of v = None" for n
    proof -
      have "issued n = issued (prior_of v) + 1" using w that by (auto simp: writer_ok_def)
      from attempt_ok [OF this] show ?thesis
        using w that adm by (auto simp: issue_finish_def fail_catalog_eq split: sum.splits)
    qed
    moreover have "commit_finish v n r \<noteq> None" if pub: "published v = Some n" "issued_of v \<noteq> None" for n
    proof -
      obtain c where "state n = CatalogState (Some c)"
        using w pub by (auto simp: writer_ok_def split: option.splits)
      then show ?thesis
        using w adm by (auto simp: commit_finish_def fail_catalog_eq writer_ok_def split: sum.splits)
    qed
    ultimately show ?thesis by simp
  qed
  moreover have "finish_maintenance p r \<noteq> None" if "the_maintenance r = Some p" for p
    using ok that by (auto simp: owner_ok_def finish_maintenance_def fail_catalog_eq split: sum.splits)
  ultimately show ?thesis by blast
qed

lemma current_record_steps:
  assumes "registry_step r r'" and ok: "registry_ok r"
  shows "current_record r' = current_record r \<or>
    succeeds (current_record r') (current_record r) \<and> \<not> unavailable r"
    and "unavailable r \<Longrightarrow> unavailable r'"
proof -
  have pins: "pins_ok r" and owner: "owner_ok r" using ok by (simp_all add: registry_ok_def)
  note defs = catalog_snapshot_def drop_snapshot_def begin_resolution_def drop_resolution_def
    catalog_writer_def reserve_construction_def issue_publish_def abort_unbuilt_def drop_writer_def
    catalog_maintenance_def finish_maintenance_def drop_maintenance_def fail_catalog_def
    commit_publish_def current_record_def
  have main: "(current_record r' = current_record r \<or>
    succeeds (current_record r') (current_record r) \<and> \<not> unavailable r) \<and> (unavailable r \<longrightarrow> unavailable r')"
    using assms(1)
  proof cases
    case (issue_f w n x')
    then have w: "writer_ok w r" using owner by (simp add: owner_ok_def)
    have c: "current_slot r < 4" "length (slots r) = 4" using pins by (simp_all add: pins_ok_def)
    have n: "n = (prior_of w)\<lparr>issued := issued (prior_of w) + 1\<rparr>" "current_record r = prior_of w"
      "issued (prior_of w) \<noteq> - 1"
      using w issue_f by (auto simp: writer_ok_def)
    have "unat (issued (prior_of w) + 1) = Suc (unat (issued (prior_of w)))"
      by (rule word_succ_fits(2) [OF n(3)])
    then have "transition_from n (prior_of w) = Some Issuance"
      by (simp add: issuance_step n(1))
    then have s: "succeeds n (current_record r)" by (simp add: succeeds_def n(2))
    show ?thesis
      using issue_f(4) s c
      by (auto simp: issue_finish_def fail_catalog_eq finish_owned_write_def current_record_def
          split: if_splits sum.splits option.splits active.splits)
  next
    case (commit_f w n y)
    then have w: "writer_ok w r" using owner by (simp add: owner_ok_def)
    have c: "slot_of w < 4" "length (slots r) = 4" using pins w by (simp_all add: pins_ok_def writer_ok_def)
    have "transition_from n (current_record r) = Some Commit"
      using w commit_f by (auto simp: writer_ok_def split: option.splits)
    then have s: "succeeds n (current_record r)" by (simp add: succeeds_def)
    show ?thesis
      using commit_f(4) s c
      by (auto simp: commit_finish_def fail_catalog_eq finish_owned_write_def current_record_def drop_writer_def
          split: if_splits sum.splits option.splits root_state.splits)
  qed (auto simp: defs Let_def attempt_Inr_conv finish_owned_write_def enter_def
      split: if_splits sum.splits option.splits)
  then show "current_record r' = current_record r \<or>
    succeeds (current_record r') (current_record r) \<and> \<not> unavailable r"
    and "unavailable r \<Longrightarrow> unavailable r'" by blast+
qed

lemma record_generation_state:
  "is_catalog_state (state w) \<Longrightarrow> unat (record_generation w) = state_generation (state w)"
  by (auto simp: is_catalog_state_def record_generation_def state_generation_def split: root_state.splits)

text \<open>C7: What new readers see only moves forward, one publication step at a time. Any
  step of the registry leaves the current record alone or replaces it by one that
  succeeds it, so the visible generation never falls; once the registry is unavailable it
  stays so and its current record never changes again.\<close>

theorem visible_generation_never_falls:
  assumes "reachable lim w r" and "registry_step r r'"
  shows "(current_record r' = current_record r \<or> succeeds (current_record r') (current_record r))
    \<and> live_generation r \<le> live_generation r'
    \<and> live_generation r' = record_generation (current_record r')
    \<and> (unavailable r \<longrightarrow> unavailable r' \<and> current_record r' = current_record r)"
proof -
  have ok: "registry_ok r" by (rule reachable_ok [OF assms(1)])
  have ok': "registry_ok r'" by (rule registry_step_ok [OF assms(2) ok])
  have live: "live_generation r = record_generation (current_record r)"
      "live_generation r' = record_generation (current_record r')"
    and cat: "is_catalog_state (state (current_record r))" "is_catalog_state (state (current_record r'))"
    using ok ok' by (simp_all add: registry_ok_def views_ok_def pins_ok_def current_record_def)
  note step = current_record_steps [OF assms(2) ok]
  have "state_generation (state new) \<ge> state_generation (state old)" if "succeeds new old" for new old
    using that by (elim step_cases) (auto simp: issuance_step dest: commit_step)
  then have "unat (record_generation (current_record r)) \<le> unat (record_generation (current_record r'))"
    using step(1) by (auto simp: record_generation_state cat)
  then show ?thesis using step live by (auto simp: word_le_nat_alt)
qed

section \<open>Witnesses\<close>

lemma fresh_snapshot:
  "\<exists>s r. catalog_snapshot False False (allocate_registry 0 sample_committed) = Inr (s, r)
     \<and> length (snapshots r) = 1"
  by (simp add: catalog_snapshot_def Let_def attempt_Inr_conv enter_def increment_def allocate_registry_def
      snapshot_slots_def max_pins_def)

lemma fresh_reachable: "reachable 0 sample_committed (allocate_registry 0 sample_committed)"
  by (simp add: reachable_def is_catalog_state_def sample_committed_def)

theorem readers_keep_their_view_witness:
  "\<exists>r :: registry. length (snapshots r) = 1 \<and> 0 < data_pins r ! snapshot_slot (snapshots r ! 0)"
proof -
  obtain s r where s: "catalog_snapshot False False (allocate_registry 0 sample_committed) = Inr (s, r)"
    and one: "length (snapshots r) = 1"
    using fresh_snapshot by blast
  have "reachable 0 sample_committed r"
    using fresh_reachable registry_step.snapshot [OF s] by (auto simp: reachable_def)
  from readers_keep_their_view [OF this, of 0] one
  have "length (snapshots r) = 1 \<and> 0 < data_pins r ! snapshot_slot (snapshots r ! 0)" by simp
  then show ?thesis by blast
qed

theorem registry_assertions_hold_witness:
  "\<exists>(r :: registry) v. the_writer r = Some v \<and> abort_unbuilt v r \<noteq> None"
proof -
  obtain r where r: "catalog_writer False (allocate_registry 0 sample_committed) = Inr r"
    by (simp add: catalog_writer_def Let_def attempt_Inr_conv enter_def allocate_registry_def current_record_def
        free_slot_def snapshot_slots_def upt_rec sample_committed_def record_generation_def
        commit_generation_def sample_commit_def root_constants)
  then have "the_writer r \<noteq> None"
    by (auto simp: catalog_writer_def Let_def attempt_Inr_conv split: if_splits)
  then obtain v where v: "the_writer r = Some v" by blast
  have "reachable 0 sample_committed r"
    using fresh_reachable registry_step.admit [OF r] by (auto simp: reachable_def)
  from registry_assertions_hold [OF this] v show ?thesis by blast
qed

theorem visible_generation_never_falls_witness:
  "\<exists>r :: registry. live_generation (allocate_registry 0 sample_committed) \<le> live_generation r \<and> length (snapshots r) = 1"
proof -
  obtain s r where s: "catalog_snapshot False False (allocate_registry 0 sample_committed) = Inr (s, r)"
    and one: "length (snapshots r) = 1"
    using fresh_snapshot by blast
  from visible_generation_never_falls [OF fresh_reachable registry_step.snapshot [OF s]] one
  show ?thesis by blast
qed

end
