(* ===== verification/Date_Value.thy ===== *)
theory Date_Value
  imports Prelude
begin

text \<open>
  SQL dates and calendar arithmetic (src/value/date.rs). A date is its day number from
  1970-01-01. The source computes in 64-bit integers; every intermediate of a validated
  date stays within a few million, so only the additions it checks can leave the range,
  and those are written out.
\<close>

section \<open>Definitions\<close>

datatype date_value = Date (days: int)

datatype date_part = DayPart | MonthPart | YearPart

definition in_i64 :: "int \<Rightarrow> bool" where
  "in_i64 x \<longleftrightarrow> - (2 ^ 63) \<le> x \<and> x < 2 ^ 63"

definition checked_i64 :: "int \<Rightarrow> int option" where
  "checked_i64 x = (if in_i64 x then Some x else None)"

definition from_days :: "int \<Rightarrow> date_value option" where
  "from_days n = (if - 719162 \<le> n \<and> n \<le> 2932896 then Some (Date n) else None)"

text \<open>\<open>i32::try_from\<close> followed by the constructor.\<close>

definition from_wide_days :: "int \<Rightarrow> date_value option" where
  "from_wide_days n = (if - (2 ^ 31) \<le> n \<and> n < 2 ^ 31 then from_days n else None)"

definition leap_year :: "int \<Rightarrow> bool" where
  "leap_year year \<longleftrightarrow> year mod 4 = 0 \<and> (year mod 100 \<noteq> 0 \<or> year mod 400 = 0)"

definition month_days :: "int \<Rightarrow> int \<Rightarrow> int" where
  "month_days year month =
     (if month \<in> {1, 3, 5, 7, 8, 10, 12} then 31
      else if month \<in> {4, 6, 9, 11} then 30
      else 28 + (if leap_year year then 1 else 0))"

definition civil :: "int \<Rightarrow> int \<Rightarrow> int \<Rightarrow> date_value option" where
  "civil year month day =
     (if \<not> (1 \<le> year \<and> year \<le> 9999) \<or> \<not> (1 \<le> month \<and> month \<le> 12) \<or> day < 1
         \<or> month_days year month < day
      then None
      else
        let adjusted = year - (if month \<le> 2 then 1 else 0);
            era = adjusted div 400;
            y = adjusted - era * 400;
            m = month + (if 2 < month then - 3 else 9);
            days = era * 146097 + y * 365 + y div 4 - y div 100 + (153 * m + 2) div 5 + day - 1 - 719468
        in from_wide_days days)"

definition components :: "date_value \<Rightarrow> int \<times> int \<times> int" where
  "components date =
     (let shifted = days date + 719468;
          era = shifted div 146097;
          d = shifted - era * 146097;
          y = (d - d div 1460 + d div 36524 - d div 146096) div 365;
          day = d - (365 * y + y div 4 - y div 100);
          m = (5 * day + 2) div 153;
          month = m + (if m < 10 then 3 else - 9)
      in (y + era * 400 + (if month \<le> 2 then 1 else 0), month, day - (153 * m + 2) div 5 + 1))"

definition date_year :: "date_value \<Rightarrow> int" where
  "date_year date = fst (components date)"

fun digits_value :: "int \<Rightarrow> u8 list \<Rightarrow> int option" where
  "digits_value n [] = Some n"
| "digits_value n (b # bs) =
     (if 48 \<le> b \<and> b \<le> 57 then digits_value (n * 10 + int (unat (b - 48))) bs else None)"

definition parse_date :: "u8 list \<Rightarrow> date_value option" where
  "parse_date bytes =
     (if length bytes \<noteq> 10 \<or> bytes ! 4 \<noteq> 45 \<or> bytes ! 7 \<noteq> 45 then None
      else Option.bind (digits_value 0 (take 4 bytes)) (\<lambda>year.
           Option.bind (digits_value 0 (slice bytes 5 2)) (\<lambda>month.
           Option.bind (digits_value 0 (drop 8 bytes)) (\<lambda>day. civil year month day))))"

definition shift_date :: "date_value \<Rightarrow> int \<Rightarrow> date_part \<Rightarrow> date_value option" where
  "shift_date date interval part =
     (if part = DayPart
      then Option.bind (checked_i64 (days date + interval)) from_wide_days
      else
        let (year, month, day) = components date in
        Option.bind (if part = YearPart then checked_i64 (interval * 12) else Some interval) (\<lambda>months.
        Option.bind (checked_i64 (year * 12 + month - 1 + months)) (\<lambda>shifted.
          let year = shifted div 12; month = shifted mod 12 + 1
          in civil year month (min day (month_days year month)))))"

text \<open>The fixed-width decimal fields of the display format.\<close>

fun decimal :: "nat \<Rightarrow> int \<Rightarrow> u8 list" where
  "decimal 0 n = []"
| "decimal (Suc k) n = decimal k (n div 10) @ [48 + word_of_int (n mod 10)]"

definition display_date :: "date_value \<Rightarrow> u8 list" where
  "display_date date =
     (let (year, month, day) = components date
      in decimal 4 year @ [45] @ decimal 2 month @ [45] @ decimal 2 day)"

section \<open>Years within the 400-year cycle\<close>

definition year_start :: "int \<Rightarrow> int" where
  "year_start y = (if y = 400 then 146097 else 365 * y + y div 4 - y div 100)"

definition year_of_day :: "int \<Rightarrow> int" where
  "year_of_day d = (d - d div 1460 + d div 36524 - d div 146096) div 365"

definition drift :: "int \<Rightarrow> int" where
  "drift d = d - d div 1460 + d div 36524"

lemma drift_mono_step: "drift d \<le> drift (d + 1)"
proof -
  have "(d + 1) div 1460 \<le> d div 1460 + 1"
  proof -
    have "(d + 1) div 1460 \<le> (d + 1460) div 1460" by (rule zdiv_mono1) simp_all
    then show ?thesis by simp
  qed
  moreover have "d div 36524 \<le> (d + 1) div 36524" by (simp add: zdiv_mono1)
  ultimately show ?thesis by (simp add: drift_def)
qed

lemma drift_mono:
  assumes "a \<le> b"
  shows "drift a \<le> drift b"
  using assms
proof (induction b rule: int_ge_induct)
  case (step i)
  then show ?case using drift_mono_step [of i] by linarith
qed simp

lemma year_table:
  "list_all (\<lambda>y. 365 * y \<le> drift (year_start y)
     \<and> (y < 399 \<longrightarrow> drift (year_start (y + 1) - 1) < 365 * (y + 1))) (map int [0..<400])"
  unfolding drift_def year_start_def by code_simp

lemma year_bounds:
  assumes "0 \<le> y" and "y < 400"
  shows "365 * y \<le> drift (year_start y)"
    and "y < 399 \<Longrightarrow> drift (year_start (y + 1) - 1) < 365 * (y + 1)"
proof -
  have "y \<in> set (map int [0..<400])"
    using assms by (auto simp: image_iff intro!: bexI [of _ "nat y"])
  with year_table show "365 * y \<le> drift (year_start y)"
    and "y < 399 \<Longrightarrow> drift (year_start (y + 1) - 1) < 365 * (y + 1)"
    by (auto simp: list_all_iff)
qed

text \<open>The source's formula finds the year whose days enclose the given one.\<close>

lemma year_of_day_eq:
  assumes "0 \<le> y" and "y < 400" and "year_start y \<le> d" and "d < year_start (y + 1)"
  shows "year_of_day d = y"
proof -
  have low: "365 * y \<le> drift d"
    using year_bounds(1) [OF assms(1,2)] drift_mono [OF assms(3)] by linarith
  have top: "d < 146097"
  proof (cases "y = 399")
    case True
    then show ?thesis using assms(4) by (simp add: year_start_def)
  next
    case False
    then have y: "y + 1 \<le> 399" using assms(2) by simp
    then have "(y + 1) div 4 \<le> 399 div 4" by (intro zdiv_mono1) simp_all
    moreover have "0 \<le> (y + 1) div 100" using assms(1) by (simp add: pos_imp_zdiv_nonneg_iff)
    ultimately show ?thesis using assms(4) y by (simp add: year_start_def)
  qed
  show ?thesis
  proof (cases "y < 399")
    case True
    have "drift d < 365 * (y + 1)"
      using year_bounds(2) [OF assms(1,2) True] drift_mono [of d "year_start (y + 1) - 1"] assms(4) by linarith
    moreover have "d < 146096"
    proof -
      have "(y + 1) div 4 \<le> 399 div 4" using True by (intro zdiv_mono1) simp_all
      moreover have "0 \<le> (y + 1) div 100" using assms(1) by (simp add: pos_imp_zdiv_nonneg_iff)
      ultimately show ?thesis using assms(4) True by (simp add: year_start_def)
    qed
    moreover have "0 \<le> d"
    proof -
      have "y div 100 \<le> y" using assms(1) by linarith
      moreover have "0 \<le> y div 4" using assms(1) by (simp add: pos_imp_zdiv_nonneg_iff)
      ultimately show ?thesis using assms(1-3) by (simp add: year_start_def split: if_splits)
    qed
    ultimately show ?thesis using low by (simp add: year_of_day_def drift_def)
  next
    case False
    then have y: "y = 399" using assms(2) by simp
    then have d: "145731 \<le> d" using assms(3) by (simp add: year_start_def)
    have "drift d \<le> drift 146095 \<or> d = 146096" using drift_mono [of d 146095] top by linarith
    moreover have "drift 146095 = 145998" by (simp add: drift_def)
    moreover have "d div 146096 = (if d = 146096 then 1 else 0)" using d top by auto
    ultimately show ?thesis using low y by (auto simp: year_of_day_def drift_def)
  qed
qed

lemma year_exists:
  assumes "0 \<le> d" and "d < 146097"
  obtains y where "0 \<le> y" and "y < 400" and "year_start y \<le> d" and "d < year_start (y + 1)"
proof -
  have "\<exists>y. 0 \<le> y \<and> y < int n \<and> year_start y \<le> d \<and> d < year_start (y + 1)"
    if "d < year_start (int n)" "n \<le> 400" for n
    using that
  proof (induction n)
    case 0
    then show ?case using assms(1) by (simp add: year_start_def)
  next
    case (Suc n)
    show ?case
    proof (cases "d < year_start (int n)")
      case True
      then show ?thesis using Suc.IH Suc.prems(2) by force
    next
      case False
      then show ?thesis using Suc.prems(1) by (intro exI [of _ "int n"]) (auto simp: add.commute)
    qed
  qed
  from this [of 400] that show thesis using assms(2) by (auto simp: year_start_def)
qed

lemma year_length:
  assumes "0 \<le> y" and "y < 400"
  shows "year_start (y + 1) - year_start y = (if leap_year (y + 1) then 366 else 365)"
proof -
  have "list_all (\<lambda>y. year_start (y + 1) - year_start y = (if leap_year (y + 1) then 366 else 365))
      (map int [0..<400])"
    unfolding year_start_def leap_year_def by code_simp
  moreover have "y \<in> set (map int [0..<400])"
    using assms by (auto simp: image_iff intro!: bexI [of _ "nat y"])
  ultimately show ?thesis by (auto simp: list_all_iff)
qed

lemma leap_year_era: "leap_year (y + era * 400) = leap_year y"
proof -
  have "(y + era * 400) mod 4 = y mod 4"
    using mod_mult_self1 [of y "era * 100" 4] by (simp add: ac_simps)
  moreover have "(y + era * 400) mod 100 = y mod 100"
    using mod_mult_self1 [of y "era * 4" 100] by (simp add: ac_simps)
  ultimately show ?thesis by (simp add: leap_year_def)
qed

section \<open>Months within a year that starts in March\<close>

definition month_start :: "int \<Rightarrow> int" where
  "month_start m = (153 * m + 2) div 5"

definition month_of_day :: "int \<Rightarrow> int" where
  "month_of_day day = (5 * day + 2) div 153"

lemma month_of_day_bounds:
  assumes "0 \<le> day" and "day < 366"
  shows "0 \<le> month_of_day day" and "month_of_day day < 12"
    and "month_start (month_of_day day) \<le> day" and "day < month_start (month_of_day day + 1)"
proof -
  have "0 \<le> (5 * day + 2) div 153" "(5 * day + 2) div 153 \<le> (5 * 365 + 2) div 153"
    using assms by (simp add: pos_imp_zdiv_nonneg_iff, intro zdiv_mono1) auto
  then show "0 \<le> month_of_day day" "month_of_day day < 12" by (simp_all add: month_of_day_def)
  have "153 * ((5 * day + 2) div 153) \<le> 5 * day + 2" "5 * day + 2 < 153 * ((5 * day + 2) div 153) + 153"
    by linarith+
  moreover from this have "(5 * day + 5) div 5 \<le> (153 * ((5 * day + 2) div 153 + 1) + 2) div 5"
    by (intro zdiv_mono1) auto
  ultimately show "month_start (month_of_day day) \<le> day" "day < month_start (month_of_day day + 1)"
    unfolding month_start_def month_of_day_def by linarith+
qed

lemma month_of_day_eq:
  assumes "month_start m \<le> day" and "day < month_start (m + 1)"
  shows "month_of_day day = m"
proof -
  have "153 * m \<le> 5 * day + 2" "5 * day + 2 < 153 * (m + 1)"
    using assms unfolding month_start_def by linarith+
  then show ?thesis
    unfolding month_of_day_def by (intro int_div_pos_eq [where r = "5 * day + 2 - 153 * m"]) auto
qed

text \<open>March is month zero; the length of the last month depends on the year that follows.\<close>

definition calendar_month :: "int \<Rightarrow> int" where
  "calendar_month m = m + (if m < 10 then 3 else - 9)"

lemma month_length:
  assumes "0 \<le> m" and "m < 11"
  shows "month_start (m + 1) - month_start m = month_days year (calendar_month m)"
proof -
  have "m = 0 \<or> m = 1 \<or> m = 2 \<or> m = 3 \<or> m = 4 \<or> m = 5 \<or> m = 6 \<or> m = 7 \<or> m = 8 \<or> m = 9 \<or> m = 10"
    using assms by arith
  then show ?thesis by (auto simp: month_start_def month_days_def calendar_month_def)
qed

section \<open>The two directions agree\<close>

text \<open>The day number a civil date denotes, by its position in the cycle.\<close>

definition day_number :: "int \<Rightarrow> int \<Rightarrow> int \<Rightarrow> int \<Rightarrow> int" where
  "day_number era y m day = era * 146097 + (365 * y + y div 4 - y div 100) + month_start m + day - 1 - 719468"

text \<open>
  A position in the calendar: era, year of the era, month from March, day of the month, with
  the day inside its month.
\<close>

definition calendar_position :: "int \<Rightarrow> int \<Rightarrow> int \<Rightarrow> int \<Rightarrow> bool" where
  "calendar_position era y m day \<longleftrightarrow> 0 \<le> y \<and> y < 400 \<and> 0 \<le> m \<and> m < 12 \<and> 1 \<le> day
     \<and> day \<le> month_days (y + (if m < 10 then 0 else 1)) (calendar_month m)"

lemma month_days_era:
  "month_days (y + era * 400 + k) month = month_days (y + k) month"
  using leap_year_era [of "y + k" era] by (simp add: month_days_def algebra_simps)

lemma day_of_year:
  assumes "calendar_position era y m day"
  shows "0 \<le> month_start m + day - 1"
    and "month_start m + day - 1 < year_start (y + 1) - year_start y"
    and "month_start m \<le> month_start m + day - 1" and "month_start m + day - 1 < month_start (m + 1)"
proof -
  have m: "0 \<le> m" "m < 12" and d: "1 \<le> day" and y: "0 \<le> y" "y < 400"
    using assms by (simp_all add: calendar_position_def)
  have start: "0 \<le> month_start m" using m(1) by (simp add: month_start_def pos_imp_zdiv_nonneg_iff)
  then show "0 \<le> month_start m + day - 1" "month_start m \<le> month_start m + day - 1" using d by simp_all
  show "month_start m + day - 1 < month_start (m + 1)"
  proof (cases "m < 11")
    case True
    then show ?thesis
      using month_length [OF m(1) True] assms by (auto simp: calendar_position_def split: if_splits)
  next
    case False
    then have "m = 11" using m(2) by simp
    then show ?thesis
      using assms by (auto simp: calendar_position_def month_start_def month_days_def calendar_month_def split: if_splits)
  qed
  show "month_start m + day - 1 < year_start (y + 1) - year_start y"
  proof (cases "m < 11")
    case True
    then have "month_start (m + 1) \<le> month_start 11" by (auto simp: month_start_def intro!: zdiv_mono1)
    then have "month_start m + day - 1 < 337"
      using \<open>month_start m + day - 1 < month_start (m + 1)\<close> by (simp add: month_start_def)
    then show ?thesis unfolding year_length [OF y] by auto
  next
    case False
    then have "m = 11" using m(2) by simp
    then show ?thesis
      using assms unfolding year_length [OF y]
      by (auto simp: calendar_position_def month_start_def month_days_def calendar_month_def split: if_splits)
  qed
qed

lemma components_day_number:
  assumes "calendar_position era y m day"
  shows "components (Date (day_number era y m day)) =
    (y + era * 400 + (if m < 10 then 0 else 1), calendar_month m, day)"
proof -
  let ?d = "year_start y + month_start m + day - 1"
  have y: "0 \<le> y" "y < 400" and m: "0 \<le> m" "m < 12"
    using assms by (simp_all add: calendar_position_def)
  note doy = day_of_year [OF assms]
  have ys: "year_start y = 365 * y + y div 4 - y div 100" using y by (simp add: year_start_def)
  have low: "0 \<le> year_start y"
  proof -
    have "y div 100 \<le> y" "0 \<le> y div 4" using y(1) by linarith+
    then show ?thesis using y(1) by (simp add: ys)
  qed
  have next_year: "year_start (y + 1) \<le> 146097"
  proof (cases "y = 399")
    case False
    then have "(y + 1) div 4 \<le> 399 div 4" "0 \<le> (y + 1) div 100"
      using y by (intro zdiv_mono1, auto simp: pos_imp_zdiv_nonneg_iff)
    then show ?thesis using False y by (simp add: year_start_def)
  qed (simp add: year_start_def)
  have shifted: "day_number era y m day + 719468 = era * 146097 + ?d"
    by (simp add: day_number_def ys)
  have era: "(era * 146097 + ?d) div 146097 = era"
    using doy low next_year by (intro int_div_pos_eq [where r = ?d]) auto
  have sub: "era * 146097 + ?d - era * 146097 = ?d" by simp
  have yod: "year_of_day ?d = y"
    using doy low by (intro year_of_day_eq [OF y]) auto
  have month: "month_of_day (month_start m + day - 1) = m"
    using doy by (intro month_of_day_eq) auto
  have small: "(calendar_month m \<le> 2) = (\<not> m < 10)" using m by (auto simp: calendar_month_def)
  have "components (Date (day_number era y m day)) =
     (let y' = year_of_day ?d; day' = ?d - (365 * y' + y' div 4 - y' div 100);
          m' = month_of_day day'; month = calendar_month m'
      in (y' + era * 400 + (if month \<le> 2 then 1 else 0), month, day' - month_start m' + 1))"
    unfolding components_def Let_def date_value.sel shifted era sub
    unfolding year_of_day_def month_of_day_def calendar_month_def month_start_def by (rule refl)
  also have "\<dots> = (y + era * 400 + (if m < 10 then 0 else 1), calendar_month m, day)"
  proof -
    have "?d - (365 * y + y div 4 - y div 100) = month_start m + day - 1" by (simp add: ys)
    then show ?thesis by (simp only: Let_def yod month small) simp
  qed
  finally show ?thesis .
qed

lemma civil_day_number:
  assumes "calendar_position era y m day"
    and "1 \<le> y + era * 400 + (if m < 10 then 0 else 1)"
    and "y + era * 400 + (if m < 10 then 0 else 1) \<le> 9999"
  shows "civil (y + era * 400 + (if m < 10 then 0 else 1)) (calendar_month m) day
    = from_wide_days (day_number era y m day)"
proof -
  have y: "0 \<le> y" "y < 400" and m: "0 \<le> m" "m < 12" and d: "1 \<le> day"
    using assms(1) by (simp_all add: calendar_position_def)
  have month: "1 \<le> calendar_month m" "calendar_month m \<le> 12" "(calendar_month m \<le> 2) = (\<not> m < 10)"
    "calendar_month m + (if 2 < calendar_month m then - 3 else 9) = m"
    using m by (auto simp: calendar_month_def)
  have len: "day \<le> month_days (y + era * 400 + (if m < 10 then 0 else 1)) (calendar_month m)"
    using assms(1) by (simp add: calendar_position_def month_days_era)
  have adj: "y + era * 400 + (if m < 10 then 0 else 1) - (if calendar_month m \<le> 2 then 1 else 0) = y + era * 400"
    using month(3) by simp
  have era: "(y + era * 400) div 400 = era" using y by simp
  have sub: "y + era * 400 - era * 400 = y" by simp
  have guard: "\<not> (\<not> (1 \<le> y + era * 400 + (if m < 10 then 0 else 1) \<and> y + era * 400 + (if m < 10 then 0 else 1) \<le> 9999)
      \<or> \<not> (1 \<le> calendar_month m \<and> calendar_month m \<le> 12) \<or> day < 1
      \<or> month_days (y + era * 400 + (if m < 10 then 0 else 1)) (calendar_month m) < day)"
    using assms(2,3) month d len by auto
  have "era * 146097 + y * 365 + y div 4 - y div 100 + (153 * m + 2) div 5 + day - 1 - 719468 = day_number era y m day"
    by (simp add: day_number_def month_start_def)
  then show ?thesis
    unfolding civil_def if_not_P [OF guard] Let_def adj era sub month(4) by simp
qed

text \<open>Every valid civil date has such a position.\<close>

lemma civil_position:
  assumes "1 \<le> month" and "month \<le> 12" and "1 \<le> day" and "day \<le> month_days year month"
  obtains era y m where "calendar_position era y m day"
    and "year = y + era * 400 + (if m < 10 then 0 else 1)" and "month = calendar_month m"
proof -
  define m where "m = month + (if 2 < month then - 3 else 9)"
  define a where "a = year - (if month \<le> 2 then 1 else 0)"
  have m: "0 \<le> m" "m < 12" "month = calendar_month m" "(month \<le> 2) = (\<not> m < 10)"
    using assms(1,2) by (auto simp: m_def calendar_month_def)
  have a: "year = a mod 400 + a div 400 * 400 + (if m < 10 then 0 else 1)"
    using m(4) by (simp add: a_def)
  have "day \<le> month_days (a mod 400 + (if m < 10 then 0 else 1)) (calendar_month m)"
    using assms(4) month_days_era [of "a mod 400" "a div 400"] a m(3) by metis
  then have "calendar_position (a div 400) (a mod 400) m day"
    using m assms(3) by (simp add: calendar_position_def)
  then show thesis using that a m(3) by blast
qed

text \<open>Every day number has one too.\<close>

lemma day_position:
  obtains era y m day where "calendar_position era y m day" and "n = day_number era y m day"
proof -
  define era where "era = (n + 719468) div 146097"
  define d where "d = (n + 719468) mod 146097"
  have d: "0 \<le> d" "d < 146097" by (simp_all add: d_def)
  obtain y where y: "0 \<le> y" "y < 400" "year_start y \<le> d" "d < year_start (y + 1)"
    using year_exists [OF d] by blast
  define doy where "doy = d - year_start y"
  have doy: "0 \<le> doy" "doy < year_start (y + 1) - year_start y" using y by (simp_all add: doy_def)
  have len: "year_start (y + 1) - year_start y = (if leap_year (y + 1) then 366 else 365)"
    by (rule year_length [OF y(1,2)])
  then have doy366: "doy < 366" using doy by (simp split: if_splits)
  define m where "m = month_of_day doy"
  note mb = month_of_day_bounds [OF doy(1) doy366, folded m_def]
  define day where "day = doy - month_start m + 1"
  have "day \<le> month_days (y + (if m < 10 then 0 else 1)) (calendar_month m)"
  proof (cases "m < 11")
    case True
    then show ?thesis using month_length [OF mb(1) True] mb(4) by (simp add: day_def)
  next
    case False
    then have "m = 11" using mb(2) by simp
    then show ?thesis
      using doy(2) len by (simp add: day_def month_start_def month_days_def calendar_month_def split: if_splits)
  qed
  then have "calendar_position era y m day"
    using y mb by (simp add: calendar_position_def day_def)
  moreover have "n = day_number era y m day"
  proof -
    have "n + 719468 = era * 146097 + d" by (simp add: era_def d_def)
    then show ?thesis using y by (simp add: day_number_def day_def doy_def year_start_def)
  qed
  ultimately show thesis by (rule that)
qed

lemma year_start_mono:
  assumes "0 \<le> y" and "y \<le> z" and "z \<le> 399"
  shows "year_start y \<le> year_start z"
  using assms(2,3)
proof (induction z rule: int_ge_induct)
  case (step z)
  then have "year_start (z + 1) - year_start z = (if leap_year (z + 1) then 366 else 365)"
    using assms(1) by (intro year_length) auto
  then show ?case using step by (auto split: if_splits)
qed simp

lemma supported_range:
  assumes "calendar_position era y m day"
  defines "year \<equiv> y + era * 400 + (if m < 10 then 0 else 1)"
  shows "(1 \<le> year \<and> year \<le> 9999) = (- 719162 \<le> day_number era y m day \<and> day_number era y m day \<le> 2932896)"
proof -
  have y: "0 \<le> y" "y < 400" and m: "0 \<le> m" "m < 12" and d: "1 \<le> day"
    using assms(1) by (simp_all add: calendar_position_def)
  note doy = day_of_year [OF assms(1)]
  let ?doy = "month_start m + day - 1"
  have n: "day_number era y m day = era * 146097 + year_start y + ?doy - 719468"
    using y by (simp add: day_number_def year_start_def)
  have low: "0 \<le> year_start y" using year_start_mono [of 0 y] y by (simp add: year_start_def)
  have top: "year_start y + ?doy < 146097"
    using doy(2) year_start_mono [of "y + 1" 399] y by (cases "y = 399") (auto simp: year_start_def)
  have split: "m < 10 \<longleftrightarrow> ?doy < 306"
  proof (cases "m < 10")
    case True
    then have "month_start (m + 1) \<le> month_start 10" by (auto simp: month_start_def intro!: zdiv_mono1)
    then show ?thesis using True doy(4) by (simp add: month_start_def)
  next
    case False
    then have "month_start 10 \<le> month_start m" by (auto simp: month_start_def intro!: zdiv_mono1)
    then show ?thesis using False doy(3) by (simp add: month_start_def)
  qed
  have first: "1 \<le> year \<longleftrightarrow> - 719162 \<le> day_number era y m day"
  proof -
    consider "era < 0" | "era = 0" "y = 0" | "era = 0" "1 \<le> y" | "1 \<le> era" using y by linarith
    then show ?thesis
    proof cases
      case 3
      then have "year_start 1 \<le> year_start y" using y by (intro year_start_mono) auto
      then show ?thesis using 3 n doy(1) by (auto simp: year_def year_start_def)
    qed (use n low top split y doy(1) in \<open>auto simp: year_def year_start_def\<close>)
  qed
  have last: "year \<le> 9999 \<longleftrightarrow> day_number era y m day \<le> 2932896"
  proof -
    consider "era < 24" | "era = 24" "y = 399" | "era = 24" "y < 399" | "25 \<le> era" using y by linarith
    then show ?thesis
    proof cases
      case 3
      then have "year_start (y + 1) \<le> year_start 399" using y by (intro year_start_mono) auto
      then show ?thesis using 3 n doy(2) by (auto simp: year_def year_start_def)
    qed (use n low top split y doy(1) in \<open>auto simp: year_def year_start_def\<close>)
  qed
  from first last show ?thesis by blast
qed

definition valid_date :: "date_value \<Rightarrow> bool" where
  "valid_date d \<longleftrightarrow> - 719162 \<le> days d \<and> days d \<le> 2932896"

definition valid_civil :: "int \<Rightarrow> int \<Rightarrow> int \<Rightarrow> bool" where
  "valid_civil year month day \<longleftrightarrow> 1 \<le> year \<and> year \<le> 9999 \<and> 1 \<le> month \<and> month \<le> 12
     \<and> 1 \<le> day \<and> day \<le> month_days year month"

lemma from_wide_days_valid: "from_wide_days n = Some d \<longleftrightarrow> d = Date n \<and> valid_date d"
  by (auto simp: from_wide_days_def from_days_def valid_date_def)

lemma civil_of_position:
  assumes "calendar_position era y m day" and "valid_date (Date (day_number era y m day))"
  shows "civil (y + era * 400 + (if m < 10 then 0 else 1)) (calendar_month m) day
    = Some (Date (day_number era y m day))"
  using assms civil_day_number [OF assms(1)] supported_range [OF assms(1)]
  by (simp add: from_wide_days_valid valid_date_def)

lemma components_valid:
  assumes "valid_date d" and "components d = (year, month, day)"
  shows "valid_civil year month day" and "civil year month day = Some d"
proof -
  obtain era y m day' where p: "calendar_position era y m day'" and n: "days d = day_number era y m day'"
    by (rule day_position)
  then have d: "d = Date (day_number era y m day')" by (cases d) simp
  have c: "year = y + era * 400 + (if m < 10 then 0 else 1)" "month = calendar_month m" "day = day'"
    using components_day_number [OF p] assms(2) by (simp_all add: d)
  show "civil year month day = Some d"
    using civil_of_position [OF p] assms(1) by (simp add: c d)
  then show "valid_civil year month day"
    by (auto simp: civil_def valid_civil_def split: if_splits)
qed

lemma civil_components:
  "civil year month day = Some d \<longleftrightarrow> valid_civil year month day \<and> valid_date d
     \<and> components d = (year, month, day)"
proof
  assume c: "civil year month day = Some d"
  then have v: "valid_civil year month day"
    by (auto simp: civil_def valid_civil_def split: if_splits)
  then obtain era y m where p: "calendar_position era y m day"
    and y: "year = y + era * 400 + (if m < 10 then 0 else 1)" and m: "month = calendar_month m"
    using civil_position [of month day year] unfolding valid_civil_def by blast
  have "valid_date (Date (day_number era y m day))"
    using v supported_range [OF p] y by (simp add: valid_civil_def valid_date_def)
  then have "d = Date (day_number era y m day)"
    using civil_of_position [OF p] c by (simp add: y m)
  then show "valid_civil year month day \<and> valid_date d \<and> components d = (year, month, day)"
    using v components_day_number [OF p] \<open>valid_date (Date (day_number era y m day))\<close> by (simp add: y m)
next
  assume "valid_civil year month day \<and> valid_date d \<and> components d = (year, month, day)"
  then show "civil year month day = Some d" using components_valid by blast
qed

lemma civil_defined: "valid_civil year month day \<Longrightarrow> \<exists>d. civil year month day = Some d"
proof -
  assume v: "valid_civil year month day"
  then obtain era y m where p: "calendar_position era y m day"
    and y: "year = y + era * 400 + (if m < 10 then 0 else 1)" and m: "month = calendar_month m"
    using civil_position [of month day year] unfolding valid_civil_def by blast
  have "valid_date (Date (day_number era y m day))"
    using v supported_range [OF p] y by (simp add: valid_civil_def valid_date_def)
  then show ?thesis using civil_of_position [OF p] by (simp add: y m)
qed

text \<open>C19: The two calendar conversions are inverse to each other. A civil date is accepted
  exactly when its year, month and day exist in the Gregorian calendar of years 1 to 9999, and
  then its day number decodes to it; and every day number in the supported range decodes to
  a civil date that exists and encodes back.\<close>

theorem calendar_conversions_are_inverse:
  "(civil year month day \<noteq> None \<longleftrightarrow> valid_civil year month day)
   \<and> (civil year month day = Some d \<longleftrightarrow> valid_date d \<and> components d = (year, month, day))"
  using civil_defined civil_components components_valid(1) by blast

section \<open>Text\<close>

lemma digits_value_append:
  "digits_value a (xs @ ys) = Option.bind (digits_value a xs) (\<lambda>b. digits_value b ys)"
  by (induction xs arbitrary: a) auto

lemma digit_byte:
  assumes "0 \<le> k" and "k < 10"
  shows "(48 :: u8) \<le> 48 + word_of_int k" and "48 + word_of_int k \<le> (57 :: u8)"
    and "int (unat (48 + word_of_int k - 48 :: u8)) = k"
proof -
  have "k = 0 \<or> k = 1 \<or> k = 2 \<or> k = 3 \<or> k = 4 \<or> k = 5 \<or> k = 6 \<or> k = 7 \<or> k = 8 \<or> k = 9"
    using assms by arith
  then show "(48 :: u8) \<le> 48 + word_of_int k" and "48 + word_of_int k \<le> (57 :: u8)"
    and "int (unat (48 + word_of_int k - 48 :: u8)) = k"
    by (auto simp: word_le_nat_alt)
qed

lemma byte_digit:
  assumes "(48 :: u8) \<le> b" and "b \<le> 57"
  shows "0 \<le> int (unat (b - 48))" and "int (unat (b - 48)) < 10" and "48 + word_of_int (int (unat (b - 48))) = b"
proof -
  have "unat (b - 48) = unat b - 48" using assms(1) by (simp add: unat_sub word_le_nat_alt)
  moreover have "unat b \<le> 57" using assms(2) by (simp add: word_le_nat_alt)
  ultimately show "0 \<le> int (unat (b - 48))" and "int (unat (b - 48)) < 10" by simp_all
  show "48 + word_of_int (int (unat (b - 48))) = b" by simp
qed

lemma digits_value_decimal:
  "0 \<le> n \<Longrightarrow> n < 10 ^ k \<Longrightarrow> digits_value a (decimal k n) = Some (a * 10 ^ k + n)"
proof (induction k arbitrary: n)
  case (Suc k)
  have "0 \<le> n div 10" "n div 10 < 10 ^ k" using Suc.prems by auto
  from Suc.IH [OF this] show ?case
    using digit_byte [of "n mod 10"] by (simp add: digits_value_append algebra_simps)
qed simp

lemma decimal_digits_value:
  "digits_value 0 bs = Some n \<Longrightarrow> decimal (length bs) n = bs \<and> 0 \<le> n"
proof (induction bs arbitrary: n rule: rev_induct)
  case (snoc b bs)
  then obtain m where m: "digits_value 0 bs = Some m" and b: "48 \<le> b" "b \<le> 57"
    and n: "n = m * 10 + int (unat (b - 48))"
    by (auto simp: digits_value_append bind_eq_Some_conv split: if_splits)
  note d = byte_digit [OF b]
  have "n div 10 = m" "n mod 10 = int (unat (b - 48))"
    using n d by auto
  then show ?case using snoc.IH [OF m] d n by simp
qed simp

lemma length_decimal [simp]: "length (decimal k n) = k"
  by (induction k arbitrary: n) auto

lemma ten_bytes:
  assumes "length bs = 10"
  shows "bs = take 4 bs @ [bs ! 4] @ slice bs 5 2 @ [bs ! 7] @ drop 8 bs"
proof -
  obtain a b c d e f g h i j where "bs = [a, b, c, d, e, f, g, h, i, j]"
    using assms by (auto simp: length_Suc_conv numeral_eq_Suc)
  then show ?thesis by (simp add: slice_def numeral_eq_Suc)
qed

text \<open>C20: Dates and their texts correspond one to one: every date in the supported range is read
  back from the text it is displayed as, and a text that is accepted is exactly how its date
  is displayed.\<close>

theorem date_text_corresponds:
  "parse_date text = Some d \<longleftrightarrow> valid_date d \<and> display_date d = text"
proof
  assume p: "parse_date text = Some d"
  then obtain y m dd where len: "length text = 10" and dash: "text ! 4 = 45" "text ! 7 = 45"
    and y: "digits_value 0 (take 4 text) = Some y" and m: "digits_value 0 (slice text 5 2) = Some m"
    and dd: "digits_value 0 (drop 8 text) = Some dd" and c: "civil y m dd = Some d"
    by (auto simp: parse_date_def bind_eq_Some_conv split: if_splits)
  have "decimal 4 y = take 4 text" "decimal 2 m = slice text 5 2" "decimal 2 dd = drop 8 text"
    using decimal_digits_value [OF y] decimal_digits_value [OF m] decimal_digits_value [OF dd] len
    by simp_all
  moreover have "components d = (y, m, dd)" "valid_date d" using c by (simp_all add: civil_components)
  ultimately show "valid_date d \<and> display_date d = text"
    using ten_bytes [OF len] dash by (simp add: display_date_def)
next
  assume v: "valid_date d \<and> display_date d = text"
  obtain y m dd where c: "components d = (y, m, dd)" by (cases "components d")
  then have civil: "civil y m dd = Some d" and vc: "valid_civil y m dd"
    using v components_valid [of d y m dd] by simp_all
  have shown: "text = decimal 4 y @ [45] @ decimal 2 m @ [45] @ decimal 2 dd"
    using v by (simp add: display_date_def c)
  have len: "length text = 10" by (simp add: shown)
  have "text = take 4 text @ [text ! 4] @ slice text 5 2 @ [text ! 7] @ drop 8 text"
    by (rule ten_bytes [OF len])
  then have parts: "take 4 text = decimal 4 y" "text ! 4 = 45" "slice text 5 2 = decimal 2 m"
      "text ! 7 = 45" "drop 8 text = decimal 2 dd"
    using len by (simp_all add: shown slice_def nth_append)
  have "month_days y m \<le> 31" by (simp add: month_days_def)
  then have "digits_value 0 (decimal 4 y) = Some y" "digits_value 0 (decimal 2 m) = Some m"
      "digits_value 0 (decimal 2 dd) = Some dd"
    using vc digits_value_decimal [of y 4 0] digits_value_decimal [of m 2 0] digits_value_decimal [of dd 2 0]
    by (simp_all add: valid_civil_def)
  then show "parse_date text = Some d"
    using len parts civil by (simp add: parse_date_def)
qed

section \<open>Arithmetic\<close>

text \<open>C21: Shifting by months or years lands in the month that many months away, on the same
  day of the month or on that month's last day where it is shorter, and fails only when that
  month lies outside the calendar or a 64-bit sum or product would overflow; shifting by days adds
  day numbers.\<close>

theorem date_shifts:
  assumes "valid_date d" and "components d = (year, month, day)"
  shows "shift_date d n DayPart =
      (if valid_date (Date (days d + n)) then Some (Date (days d + n)) else None)
    \<and> (let t = year * 12 + month - 1 + n; y = t div 12; m = t mod 12 + 1
       in in_i64 t \<longrightarrow>
          (case shift_date d n MonthPart of
             None \<Rightarrow> y < 1 \<or> 9999 < y
           | Some e \<Rightarrow> valid_date e \<and> components e = (y, m, min day (month_days y m))))
    \<and> (in_i64 (n * 12) \<longrightarrow> shift_date d n YearPart = shift_date d (n * 12) MonthPart)"
proof -
  have vc: "valid_civil year month day" by (rule components_valid(1) [OF assms])
  have day: "shift_date d n DayPart =
      (if valid_date (Date (days d + n)) then Some (Date (days d + n)) else None)"
  proof (cases "in_i64 (days d + n)")
    case True
    then show ?thesis
      by (auto simp: shift_date_def checked_i64_def from_wide_days_def from_days_def valid_date_def)
  next
    case False
    then have "\<not> valid_date (Date (days d + n))" by (auto simp: in_i64_def valid_date_def)
    with False show ?thesis by (simp add: shift_date_def checked_i64_def)
  qed
  define t where "t = year * 12 + month - 1 + n"
  define y where "y = t div 12"
  define m where "m = t mod 12 + 1"
  have month_case: "case shift_date d n MonthPart of
             None \<Rightarrow> y < 1 \<or> 9999 < y
           | Some e \<Rightarrow> valid_date e \<and> components e = (y, m, min day (month_days y m))"
    if t64: "in_i64 t"
  proof -
    have s: "shift_date d n MonthPart = civil y m (min day (month_days y m))"
      using t64 by (simp add: shift_date_def checked_i64_def assms(2) Let_def t_def y_def m_def)
    have "1 \<le> m" "m \<le> 12" by (simp_all add: m_def)
    moreover have "1 \<le> min day (month_days y m)"
      using vc by (simp add: valid_civil_def month_days_def)
    ultimately have "valid_civil y m (min day (month_days y m)) \<longleftrightarrow> 1 \<le> y \<and> y \<le> 9999"
      by (simp add: valid_civil_def)
    moreover have "(case e of None \<Rightarrow> \<not> valid_civil y m (min day (month_days y m))
        | Some e \<Rightarrow> valid_date e \<and> components e = (y, m, min day (month_days y m)))"
      if "e = civil y m (min day (month_days y m))" for e
    proof (cases e)
      case None
      then show ?thesis using that civil_defined [of y m "min day (month_days y m)"] by auto
    next
      case (Some c)
      then show ?thesis using that civil_components [of y m "min day (month_days y m)" c] by simp
    qed
    ultimately show ?thesis by (auto simp: s split: option.splits)
  qed
  have "in_i64 (n * 12) \<longrightarrow> shift_date d n YearPart = shift_date d (n * 12) MonthPart"
    by (simp add: shift_date_def checked_i64_def)
  with day month_case show ?thesis
    unfolding Let_def t_def [symmetric] y_def [symmetric] m_def [symmetric] by blast
qed

theorem date_shifts_witness:
  "shift_date (Date 30) 1 MonthPart = Some (Date 58) \<and> components (Date 58) = (1970, 2, 28)"
proof -
  have v30: "valid_date (Date 30)" by (simp add: valid_date_def)
  have c30: "components (Date 30) = (1970, 1, 31)" by code_simp
  from date_shifts [OF v30 c30, of 1, THEN conjunct2, THEN conjunct1]
  have "case shift_date (Date 30) 1 MonthPart of None \<Rightarrow> False
      | Some e \<Rightarrow> valid_date e \<and> components e = (1970, 2, 28)"
    by (simp add: Let_def in_i64_def month_days_def leap_year_def cong: option.case_cong)
  then obtain e where e: "shift_date (Date 30) 1 MonthPart = Some e"
      "valid_date e" "components e = (1970, 2, 28)"
    by (auto split: option.splits)
  have c58: "components (Date 58) = (1970, 2, 28)" by code_simp
  have v58: "valid_date (Date 58)" by (simp add: valid_date_def)
  from components_valid(2) [OF e(2,3)] components_valid(2) [OF v58 c58] have "e = Date 58" by simp
  with e(1) c58 show ?thesis by simp
qed

end
