(* ===== verification/Query_Types.thy ===== *)
theory Query_Types
  imports Errors Date_Value
begin

text \<open>
  The vocabulary of query plans: value types and cells (src/value.rs), doubles as their
  bits, query columns, comparisons, constants and predicates (src/query/plan.rs). A
  \<open>u64\<close> stands for an \<open>i64\<close> through \<open>sint\<close> and for an \<open>f64\<close> through
  its bits; \<open>is_nan\<close> and the order of doubles are read off the bits.
\<close>

section \<open>Types and cells\<close>

datatype data_type = DoubleType | Int64Type | StringType | DateType

datatype cell = NullCell | Int64Cell u64 | DoubleCell u64 | StringCell "u8 list" | DateCell date_value

section \<open>Doubles as bits\<close>

definition double_magnitude :: "u64 \<Rightarrow> u64" where
  "double_magnitude x = x AND 0x7FFFFFFFFFFFFFFF"

definition double_negative :: "u64 \<Rightarrow> bool" where
  "double_negative x \<longleftrightarrow> x AND 0x8000000000000000 \<noteq> 0"

definition is_nan :: "u64 \<Rightarrow> bool" where
  "is_nan x \<longleftrightarrow> 0x7FF0000000000000 < double_magnitude x"

definition is_infinite :: "u64 \<Rightarrow> bool" where
  "is_infinite x \<longleftrightarrow> double_magnitude x = 0x7FF0000000000000"

definition is_finite :: "u64 \<Rightarrow> bool" where
  "is_finite x \<longleftrightarrow> double_magnitude x < 0x7FF0000000000000"

text \<open>
  The magnitude bits of two doubles are ordered as their magnitudes are, so a signed
  magnitude orders everything that is a number; the two zeros are equal.
\<close>

definition double_rank :: "u64 \<Rightarrow> int" where
  "double_rank x =
     (if double_negative x then - int (unat (double_magnitude x)) else int (unat (double_magnitude x)))"

definition double_less :: "u64 \<Rightarrow> u64 \<Rightarrow> bool" where
  "double_less x y \<longleftrightarrow> \<not> is_nan x \<and> \<not> is_nan y \<and> double_rank x < double_rank y"

definition double_le :: "u64 \<Rightarrow> u64 \<Rightarrow> bool" where
  "double_le x y \<longleftrightarrow> \<not> is_nan x \<and> \<not> is_nan y \<and> double_rank x \<le> double_rank y"

definition double_eq :: "u64 \<Rightarrow> u64 \<Rightarrow> bool" where
  "double_eq x y \<longleftrightarrow> \<not> is_nan x \<and> \<not> is_nan y \<and> double_rank x = double_rank y"

lemma double_classes: "is_nan x \<or> is_infinite x \<or> is_finite x"
  by (auto simp: is_nan_def is_infinite_def is_finite_def)

lemma finite_not_nan [simp]: "is_finite x \<Longrightarrow> \<not> is_nan x"
  by (auto simp: is_nan_def is_finite_def)

lemma finite_not_infinite [simp]: "is_finite x \<Longrightarrow> \<not> is_infinite x"
  by (auto simp: is_infinite_def is_finite_def)

lemma infinite_not_nan [simp]: "is_infinite x \<Longrightarrow> \<not> is_nan x"
  by (auto simp: is_nan_def is_infinite_def)

lemma double_order_facts:
  assumes "\<not> is_nan x" and "\<not> is_nan y"
  shows "double_less x y \<longleftrightarrow> \<not> double_le y x" and "double_le x y \<longleftrightarrow> double_less x y \<or> double_eq x y"
  using assms by (auto simp: double_less_def double_le_def double_eq_def)

section \<open>Query columns\<close>

definition max_row_values :: nat where "max_row_values = 128"

record semantic_column =
  column_identity :: u32
  column_kind :: data_type
  column_nullable :: bool

section \<open>Comparisons\<close>

datatype ordering = OrderLess | OrderEqual | OrderGreater

definition order_of :: "int \<Rightarrow> int \<Rightarrow> ordering" where
  "order_of a b = (if a < b then OrderLess else if a = b then OrderEqual else OrderGreater)"

fun order_of_bytes :: "u8 list \<Rightarrow> u8 list \<Rightarrow> ordering" where
  "order_of_bytes [] [] = OrderEqual"
| "order_of_bytes [] (b # bs) = OrderLess"
| "order_of_bytes (a # as) [] = OrderGreater"
| "order_of_bytes (a # as) (b # bs) =
     (if a < b then OrderLess else if b < a then OrderGreater else order_of_bytes as bs)"

datatype comparison =
    Less | LessEqual | Equal | NotEqual | GreaterEqual | Greater | IsDistinct | IsNotDistinct

fun test_order :: "comparison \<Rightarrow> ordering \<Rightarrow> bool" where
  "test_order Less ord \<longleftrightarrow> ord = OrderLess"
| "test_order LessEqual ord \<longleftrightarrow> ord \<noteq> OrderGreater"
| "test_order Equal ord \<longleftrightarrow> ord = OrderEqual"
| "test_order IsNotDistinct ord \<longleftrightarrow> ord = OrderEqual"
| "test_order NotEqual ord \<longleftrightarrow> ord \<noteq> OrderEqual"
| "test_order IsDistinct ord \<longleftrightarrow> ord \<noteq> OrderEqual"
| "test_order GreaterEqual ord \<longleftrightarrow> ord \<noteq> OrderLess"
| "test_order Greater ord \<longleftrightarrow> ord = OrderGreater"

fun test_doubles :: "comparison \<Rightarrow> u64 \<Rightarrow> u64 \<Rightarrow> bool" where
  "test_doubles Less l r \<longleftrightarrow> double_less l r"
| "test_doubles LessEqual l r \<longleftrightarrow> double_le l r"
| "test_doubles Equal l r \<longleftrightarrow> double_eq l r"
| "test_doubles NotEqual l r \<longleftrightarrow> \<not> double_eq l r"
| "test_doubles GreaterEqual l r \<longleftrightarrow> double_le r l"
| "test_doubles Greater l r \<longleftrightarrow> double_less r l"
| "test_doubles IsDistinct l r \<longleftrightarrow> \<not> double_eq l r \<and> \<not> (is_nan l \<and> is_nan r)"
| "test_doubles IsNotDistinct l r \<longleftrightarrow> double_eq l r \<or> (is_nan l \<and> is_nan r)"

section \<open>Constants and predicates\<close>

definition max_literal_bytes :: nat where "max_literal_bytes = 32"

text \<open>
  A text constant keeps its bytes in a fixed array; it is valid when the used prefix is
  UTF-8 and the padding is zero. \<open>utf8\<close> decides the standard library's
  \<open>str::from_utf8\<close>: well-formed sequences of one to four bytes, without
  overlong forms, surrogates or values beyond U+10FFFF.
\<close>

definition continuation :: "u8 \<Rightarrow> bool" where
  "continuation b \<longleftrightarrow> 0x80 \<le> b \<and> b \<le> 0xBF"

fun utf8 :: "u8 list \<Rightarrow> bool" where
  "utf8 [] \<longleftrightarrow> True"
| "utf8 (a # bs) \<longleftrightarrow>
     (if a < 0x80 then utf8 bs
      else if 0xC2 \<le> a \<and> a \<le> 0xDF then (case bs of b # bs \<Rightarrow> continuation b \<and> utf8 bs | _ \<Rightarrow> False)
      else if 0xE0 \<le> a \<and> a \<le> 0xEF then
        (case bs of b # c # bs \<Rightarrow> continuation b \<and> continuation c \<and>
             (a = 0xE0 \<longrightarrow> 0xA0 \<le> b) \<and> (a = 0xED \<longrightarrow> b \<le> 0x9F) \<and> utf8 bs
         | _ \<Rightarrow> False)
      else if 0xF0 \<le> a \<and> a \<le> 0xF4 then
        (case bs of b # c # d # bs \<Rightarrow> continuation b \<and> continuation c \<and> continuation d \<and>
             (a = 0xF0 \<longrightarrow> 0x90 \<le> b) \<and> (a = 0xF4 \<longrightarrow> b \<le> 0x8F) \<and> utf8 bs
         | _ \<Rightarrow> False)
      else False)"

record text_literal =
  literal_bytes :: "u8 list"
  literal_len :: nat

definition text_literal_valid :: "text_literal \<Rightarrow> bool" where
  "text_literal_valid t \<longleftrightarrow>
     literal_len t \<le> length (literal_bytes t) \<and> utf8 (take (literal_len t) (literal_bytes t))
     \<and> all_zero (drop (literal_len t) (literal_bytes t))"

definition literal_text :: "text_literal \<Rightarrow> u8 list" where
  "literal_text t = take (literal_len t) (literal_bytes t)"

datatype filter_literal =
    LiteralNull | LiteralNullDouble | LiteralDouble u64 | LiteralInt64 u64
  | LiteralDate date_value | LiteralString text_literal

fun literal_valid_for :: "filter_literal \<Rightarrow> data_type \<Rightarrow> bool" where
  "literal_valid_for LiteralNull t \<longleftrightarrow> True"
| "literal_valid_for LiteralNullDouble t \<longleftrightarrow> t \<in> {Int64Type, DoubleType}"
| "literal_valid_for (LiteralDouble bits) t \<longleftrightarrow> t \<in> {DoubleType, Int64Type} \<and> is_finite bits"
| "literal_valid_for (LiteralInt64 n) t \<longleftrightarrow> t = Int64Type"
| "literal_valid_for (LiteralDate d) t \<longleftrightarrow> t = DateType"
| "literal_valid_for (LiteralString s) t \<longleftrightarrow> t = StringType \<and> text_literal_valid s"

datatype predicate = Compare comparison filter_literal | IsNull bool

fun predicate_valid_for :: "predicate \<Rightarrow> data_type \<Rightarrow> bool" where
  "predicate_valid_for (Compare c l) t \<longleftrightarrow>
     literal_valid_for l t \<and> (l \<noteq> LiteralNull \<or> c \<in> {Equal, IsDistinct, IsNotDistinct})"
| "predicate_valid_for (IsNull negated) t \<longleftrightarrow> True"

fun cell_type :: "cell \<Rightarrow> data_type option" where
  "cell_type NullCell = None"
| "cell_type (Int64Cell n) = Some Int64Type"
| "cell_type (DoubleCell x) = Some DoubleType"
| "cell_type (StringCell s) = Some StringType"
| "cell_type (DateCell d) = Some DateType"

lemma test_order_total:
  "test_order Less ord \<longleftrightarrow> \<not> test_order GreaterEqual ord"
  "test_order Greater ord \<longleftrightarrow> \<not> test_order LessEqual ord"
  "test_order Equal ord \<longleftrightarrow> \<not> test_order NotEqual ord"
  by (cases ord; simp)+

lemma order_of_bytes_equal [simp]: "order_of_bytes a b = OrderEqual \<longleftrightarrow> a = b"
  by (induction a b rule: order_of_bytes.induct) auto

lemma order_of_equal [simp]: "order_of a b = OrderEqual \<longleftrightarrow> a = b"
  by (simp add: order_of_def)

end
