(* ===== verification/Scalar_Program.thy ===== *)
theory Scalar_Program
  imports Query_Types
begin

text \<open>
  Numeric expressions as postfix programs (src/query/scalar.rs): the operations, the
  inference of a program's result type, its nullability and its stack depth. The stacks
  of the source are arrays with a depth; here they are lists whose head is the top.
  The expression trees the programs stand for, and their types, are the reference
  the checks are proved against.
\<close>

section \<open>Programs\<close>

definition max_ops :: nat where "max_ops = 32"

datatype op =
    OpEmpty | OpColumn semantic_column | OpInteger u64 | OpDouble u64 | OpNull
  | OpCase comparison
  | OpAdd | OpSubtract | OpMultiply | OpDivide | OpSafeDivide | OpPower | OpCoalesce | OpNullIf
  | OpMod | OpIntegerDivide
  | OpNegate | OpAbs | OpSign | OpToDouble | OpFloor | OpCeil | OpRound | OpSqrt | OpLn | OpLog10
  | OpExp

record expression =
  expr_ops :: "op list"
  expr_len :: nat
  expr_type :: data_type

definition empty_expression :: expression where
  "empty_expression = \<lparr>expr_ops = replicate max_ops OpEmpty, expr_len = 0, expr_type = DoubleType\<rparr>"

definition program :: "expression \<Rightarrow> op list" where
  "program e = take (expr_len e) (expr_ops e)"

definition to_double_ops :: "op set" where
  "to_double_ops = {OpToDouble, OpFloor, OpCeil, OpRound, OpSqrt, OpLn, OpLog10, OpExp}"

definition unary_ops :: "op set" where
  "unary_ops = {OpNegate, OpAbs, OpSign} \<union> to_double_ops"

definition binary_ops :: "op set" where
  "binary_ops = {OpAdd, OpSubtract, OpMultiply, OpDivide, OpSafeDivide, OpPower, OpCoalesce, OpNullIf,
     OpMod, OpIntegerDivide}"

definition dividing_ops :: "op set" where
  "dividing_ops = {OpDivide, OpSafeDivide, OpPower}"

definition integer_only_ops :: "op set" where
  "integer_only_ops = {OpMod, OpIntegerDivide}"

lemmas op_sets = to_double_ops_def unary_ops_def binary_ops_def dividing_ops_def integer_only_ops_def

section \<open>Inference\<close>

datatype inference_failure = ProgramFailure string | ArgumentsFailure string

definition join_types :: "data_type \<Rightarrow> data_type \<Rightarrow> data_type" where
  "join_types a b = (if a = DoubleType \<or> b = DoubleType then DoubleType else Int64Type)"

definition binary_type :: "op \<Rightarrow> data_type \<Rightarrow> data_type \<Rightarrow> data_type" where
  "binary_type op a b = (if op \<in> dividing_ops then DoubleType else join_types a b)"

definition push_type :: "semantic_column set \<Rightarrow> op \<Rightarrow> data_type list \<Rightarrow> inference_failure + data_type list" where
  "push_type visible op types =
     (case op of
        OpColumn c \<Rightarrow>
          if column_kind c \<notin> {Int64Type, DoubleType} \<or> c \<notin> visible
          then Inl (ProgramFailure ''invalid scalar input identity or type'')
          else Inr (column_kind c # types)
      | OpInteger n \<Rightarrow> Inr (Int64Type # types)
      | OpNull \<Rightarrow> Inr (Int64Type # types)
      | OpDouble bits \<Rightarrow>
          if is_finite bits then Inr (DoubleType # types)
          else Inl (ProgramFailure ''nonfinite scalar literal'')
      | OpCase comparison \<Rightarrow>
          (case types of
             fallback # selected # right # left # rest \<Rightarrow> Inr (join_types selected fallback # rest)
           | _ \<Rightarrow> Inl (ProgramFailure ''scalar CASE stack underflow''))
      | OpEmpty \<Rightarrow> Inl (ProgramFailure ''empty scalar operation'')
      | _ \<Rightarrow>
          if op \<in> unary_ops then
            (case types of
               [] \<Rightarrow> Inl (ProgramFailure ''scalar unary stack underflow'')
             | t # rest \<Rightarrow> Inr ((if op \<in> to_double_ops then DoubleType else t) # rest))
          else
            (case types of
               right # left # rest \<Rightarrow>
                 if op \<in> integer_only_ops \<and> (left \<noteq> Int64Type \<or> right \<noteq> Int64Type)
                 then Inl (ArgumentsFailure
                   (if op = OpMod then ''MOD requires INT64 arguments'' else ''DIV requires INT64 arguments''))
                 else Inr (binary_type op left right # rest)
             | _ \<Rightarrow> Inl (ProgramFailure ''scalar binary stack underflow'')))"

fun infer_ops :: "semantic_column set \<Rightarrow> op list \<Rightarrow> data_type list \<Rightarrow> inference_failure + data_type list" where
  "infer_ops visible [] types = Inr types"
| "infer_ops visible (op # ops) types = attempt (push_type visible op types) (infer_ops visible ops)"

definition infer :: "expression \<Rightarrow> semantic_column list \<Rightarrow> inference_failure + data_type" where
  "infer e visible =
     (if expr_len e = 0 \<or> max_ops < expr_len e \<or> (\<exists>op \<in> set (drop (expr_len e) (expr_ops e)). op \<noteq> OpEmpty)
      then Inl (ProgramFailure ''invalid scalar program extent'')
      else attempt (infer_ops (set visible) (program e) []) (\<lambda>types.
        case types of
          [t] \<Rightarrow> Inr t
        | _ \<Rightarrow> Inl (ProgramFailure ''scalar program does not produce one value'')))"

definition validate :: "expression \<Rightarrow> semantic_column list \<Rightarrow> db_error + unit" where
  "validate e visible =
     attempt (map_error (\<lambda>f. case f of ProgramFailure m \<Rightarrow> Corrupt m | ArgumentsFailure m \<Rightarrow> Corrupt m)
       (infer e visible))
     (\<lambda>inferred. require_that (inferred = expr_type e) (Corrupt ''scalar result type disagrees''))"

section \<open>Nullability and stack depth\<close>

text \<open>\<open>None\<close> is a stack-shape error: the source then answers that the value may be NULL.\<close>

definition push_nullable :: "op \<Rightarrow> bool list \<Rightarrow> bool list option" where
  "push_nullable op ns =
     (case op of
        OpColumn c \<Rightarrow> Some (column_nullable c # ns)
      | OpInteger n \<Rightarrow> Some (False # ns)
      | OpDouble bits \<Rightarrow> Some (False # ns)
      | OpNull \<Rightarrow> Some (True # ns)
      | OpCase comparison \<Rightarrow>
          (case ns of
             fallback # selected # right # left # rest \<Rightarrow> Some ((selected \<or> fallback) # rest)
           | _ \<Rightarrow> None)
      | OpEmpty \<Rightarrow> None
      | _ \<Rightarrow>
          if op \<in> unary_ops then (if ns = [] then None else Some ns)
          else
            (case ns of
               right # left # rest \<Rightarrow>
                 Some ((if op = OpCoalesce then left \<and> right
                        else if op \<in> {OpSafeDivide, OpNullIf} then True
                        else left \<or> right) # rest)
             | _ \<Rightarrow> None))"

fun nullable_ops :: "op list \<Rightarrow> bool list \<Rightarrow> bool list option" where
  "nullable_ops [] ns = Some ns"
| "nullable_ops (op # ops) ns = Option.bind (push_nullable op ns) (nullable_ops ops)"

definition expression_nullable :: "expression \<Rightarrow> bool" where
  "expression_nullable e =
     (if expr_len e = 0 \<or> max_ops < expr_len e then True
      else (case nullable_ops (program e) [] of Some [n] \<Rightarrow> n | _ \<Rightarrow> True))"

definition requires_ordered_evaluation :: "expression \<Rightarrow> bool" where
  "requires_ordered_evaluation e \<longleftrightarrow>
     (\<exists>op \<in> set (program e). op = OpCoalesce \<or> op = OpNullIf \<or> (case op of OpCase c \<Rightarrow> True | _ \<Rightarrow> False))"

text \<open>The depth after an operation; \<open>None\<close> is the panic on a program that was not validated.\<close>

definition step_depth :: "op \<Rightarrow> nat \<Rightarrow> nat option" where
  "step_depth op depth =
     (case op of
        OpColumn c \<Rightarrow> Some (depth + 1)
      | OpInteger n \<Rightarrow> Some (depth + 1)
      | OpDouble bits \<Rightarrow> Some (depth + 1)
      | OpNull \<Rightarrow> Some (depth + 1)
      | OpCase comparison \<Rightarrow> if depth < 3 then None else Some (depth - 3)
      | OpEmpty \<Rightarrow> None
      | _ \<Rightarrow> if op \<in> unary_ops then Some depth else if depth = 0 then None else Some (depth - 1))"

fun peak_depth :: "op list \<Rightarrow> nat \<Rightarrow> nat \<Rightarrow> nat option" where
  "peak_depth [] depth peak = Some peak"
| "peak_depth (op # ops) depth peak =
     Option.bind (step_depth op depth) (\<lambda>d. peak_depth ops d (max peak d))"

definition stack_depth :: "expression \<Rightarrow> nat option" where
  "stack_depth e = peak_depth (program e) 0 0"

section \<open>Expression trees\<close>

datatype tree =
    Leaf op
  | Unary op tree
  | Binary op tree tree
  | Cond comparison tree tree tree tree

fun flatten :: "tree \<Rightarrow> op list" where
  "flatten (Leaf op) = [op]"
| "flatten (Unary op t) = flatten t @ [op]"
| "flatten (Binary op a b) = flatten a @ flatten b @ [op]"
| "flatten (Cond c l r s f) = flatten l @ flatten r @ flatten s @ flatten f @ [OpCase c]"

fun tree_type :: "tree \<Rightarrow> data_type" where
  "tree_type (Leaf op) =
     (case op of OpColumn c \<Rightarrow> column_kind c | OpDouble bits \<Rightarrow> DoubleType | _ \<Rightarrow> Int64Type)"
| "tree_type (Unary op t) = (if op \<in> to_double_ops then DoubleType else tree_type t)"
| "tree_type (Binary op a b) = binary_type op (tree_type a) (tree_type b)"
| "tree_type (Cond c l r s f) = join_types (tree_type s) (tree_type f)"

fun well_typed :: "semantic_column set \<Rightarrow> tree \<Rightarrow> bool" where
  "well_typed visible (Leaf op) \<longleftrightarrow>
     (case op of
        OpColumn c \<Rightarrow> c \<in> visible \<and> column_kind c \<in> {Int64Type, DoubleType}
      | OpInteger n \<Rightarrow> True
      | OpDouble bits \<Rightarrow> is_finite bits
      | OpNull \<Rightarrow> True
      | _ \<Rightarrow> False)"
| "well_typed visible (Unary op t) \<longleftrightarrow> op \<in> unary_ops \<and> well_typed visible t"
| "well_typed visible (Binary op a b) \<longleftrightarrow>
     op \<in> binary_ops \<and> well_typed visible a \<and> well_typed visible b
     \<and> (op \<in> integer_only_ops \<longrightarrow> tree_type a = Int64Type \<and> tree_type b = Int64Type)"
| "well_typed visible (Cond c l r s f) \<longleftrightarrow>
     well_typed visible l \<and> well_typed visible r \<and> well_typed visible s \<and> well_typed visible f"

fun tree_nullable :: "tree \<Rightarrow> bool" where
  "tree_nullable (Leaf op) = (case op of OpColumn c \<Rightarrow> column_nullable c | OpNull \<Rightarrow> True | _ \<Rightarrow> False)"
| "tree_nullable (Unary op t) = tree_nullable t"
| "tree_nullable (Binary op a b) =
     (if op = OpCoalesce then tree_nullable a \<and> tree_nullable b
      else if op \<in> {OpSafeDivide, OpNullIf} then True
      else tree_nullable a \<or> tree_nullable b)"
| "tree_nullable (Cond c l r s f) = (tree_nullable s \<or> tree_nullable f)"

text \<open>How many values evaluating a tree from left to right keeps at once.\<close>

fun tree_depth :: "tree \<Rightarrow> nat" where
  "tree_depth (Leaf op) = 1"
| "tree_depth (Unary op t) = tree_depth t"
| "tree_depth (Binary op a b) = max (tree_depth a) (tree_depth b + 1)"
| "tree_depth (Cond c l r s f) =
     max (max (tree_depth l) (tree_depth r + 1)) (max (tree_depth s + 2) (tree_depth f + 3))"

definition tree_size :: "tree \<Rightarrow> nat" where
  "tree_size t = length (flatten t)"

lemma tree_size_simps [simp]:
  "tree_size (Leaf op) = 1"
  "tree_size (Unary op t) = tree_size t + 1"
  "tree_size (Binary op a b) = tree_size a + tree_size b + 1"
  "tree_size (Cond c l r s f) = tree_size l + tree_size r + tree_size s + tree_size f + 1"
  by (simp_all add: tree_size_def)

lemma tree_size_pos [simp]: "0 < tree_size t"
  by (cases t) simp_all

lemma tree_size_nonzero [simp]: "tree_size t \<noteq> 0"
  using tree_size_pos [of t] by simp

lemma op_cases:
  obtains (leaf) "op \<notin> unary_ops" "op \<notin> binary_ops" "\<And>c. op \<noteq> OpCase c"
  | (unary) "op \<in> unary_ops" "op \<notin> binary_ops" "\<And>c. op \<noteq> OpCase c" "op \<noteq> OpEmpty"
  | (binary) "op \<in> binary_ops" "op \<notin> unary_ops" "\<And>c. op \<noteq> OpCase c" "op \<noteq> OpEmpty"
  | (conditional) c where "op = OpCase c"
  by (cases op) (auto simp: op_sets)

lemma push_unary:
  assumes "op \<in> unary_ops"
  shows "push_type visible op (t # ts) = Inr ((if op \<in> to_double_ops then DoubleType else t) # ts)"
    and "push_type visible op [] = Inl (ProgramFailure ''scalar unary stack underflow'')"
    and "push_nullable op (n # ns) = Some (n # ns)"
    and "step_depth op d = Some d"
  using assms by (auto simp: push_type_def push_nullable_def step_depth_def op_sets)

lemma push_binary:
  assumes "op \<in> binary_ops"
  shows "push_type visible op (b # a # ts) =
      (if op \<in> integer_only_ops \<and> (a \<noteq> Int64Type \<or> b \<noteq> Int64Type)
       then Inl (ArgumentsFailure
         (if op = OpMod then ''MOD requires INT64 arguments'' else ''DIV requires INT64 arguments''))
       else Inr (binary_type op a b # ts))"
    and "push_type visible op [] = Inl (ProgramFailure ''scalar binary stack underflow'')"
    and "push_type visible op [a] = Inl (ProgramFailure ''scalar binary stack underflow'')"
    and "push_nullable op (n # m # ns) =
      Some ((if op = OpCoalesce then m \<and> n else if op \<in> {OpSafeDivide, OpNullIf} then True else m \<or> n) # ns)"
    and "step_depth op (Suc d) = Some d"
  using assms by (auto simp: push_type_def push_nullable_def step_depth_def op_sets)

lemma push_case:
  "push_type visible (OpCase c) (f # s # r # l # ts) = Inr (join_types s f # ts)"
  "push_nullable (OpCase c) (nf # ns # nr # nl # rest) = Some ((ns \<or> nf) # rest)"
  "step_depth (OpCase c) (d + 4) = Some (d + 1)"
  by (simp_all add: push_type_def push_nullable_def step_depth_def)

section \<open>A program the checks accept is a tree in postfix order\<close>

lemma well_typed_leaf:
  "well_typed visible (Leaf op) \<Longrightarrow> push_type visible op types = Inr (tree_type (Leaf op) # types)"
  by (auto simp: push_type_def split: op.splits)

lemma infer_flatten:
  "well_typed visible t \<Longrightarrow>
     infer_ops visible (flatten t @ rest) types = infer_ops visible rest (tree_type t # types)"
proof (induction t arbitrary: rest types)
  case (Leaf op)
  then show ?case by (simp add: well_typed_leaf del: well_typed.simps tree_type.simps)
qed (auto simp: push_unary push_binary push_case)

lemma nullable_flatten:
  "well_typed visible t \<Longrightarrow>
     nullable_ops (flatten t @ rest) ns = nullable_ops rest (tree_nullable t # ns)"
proof (induction t arbitrary: rest ns)
  case (Leaf op)
  then show ?case by (auto simp: push_nullable_def split: op.splits)
qed (auto simp: push_unary push_binary push_case)

lemma tree_depth_pos: "1 \<le> tree_depth t"
  by (induction t) auto

lemma depth_flatten:
  "well_typed visible t \<Longrightarrow>
     peak_depth (flatten t @ rest) d p = peak_depth rest (d + 1) (max p (d + tree_depth t))"
proof (induction t arbitrary: rest d p)
  case (Leaf op)
  then show ?case by (auto simp: step_depth_def split: op.splits)
next
  case (Unary op t)
  have "max (max p (d + tree_depth t)) (d + 1) = max p (d + tree_depth t)"
    using tree_depth_pos [of t] by (auto simp: max_def)
  with Unary show ?case by (simp add: push_unary)
next
  case (Binary op a b)
  have "max (max (max p (d + tree_depth a)) (d + 1 + tree_depth b)) (d + 1)
      = max p (d + max (tree_depth a) (tree_depth b + 1))"
    by (auto simp: max_def)
  with Binary show ?case by (simp add: push_binary)
next
  case (Cond c l r s f)
  have step: "step_depth (OpCase c) (d + 1 + 1 + 1 + 1) = Some (d + 1)"
    using push_case(3) [of c d] by (simp add: numeral_eq_Suc)
  have "max (max (max (max (max p (d + tree_depth l)) (d + 1 + tree_depth r)) (d + 1 + 1 + tree_depth s))
      (d + 1 + 1 + 1 + tree_depth f)) (d + 1) = max p (d + tree_depth (Cond c l r s f))"
    using tree_depth_pos [of l] by (auto simp: max_def)
  moreover have "well_typed visible l" "well_typed visible r" "well_typed visible s" "well_typed visible f"
    using Cond.prems by simp_all
  ultimately show ?case
    using step by (simp only: flatten.simps append_assoc Cond.IH append_Cons append_Nil peak_depth.simps bind.bind_lunit)
qed

text \<open>
  The stack of types stands for a stack of trees; a push that succeeds replaces the trees
  it consumes by the tree it builds.
\<close>

definition spell :: "tree list \<Rightarrow> op list" where
  "spell ts = concat (map flatten (rev ts))"

lemma spell_simps [simp]:
  "spell [] = []"
  "spell (t # ts) = spell ts @ flatten t"
  by (simp_all add: spell_def)

lemma push_builds_tree:
  assumes "push_type visible op (map tree_type ts) = Inr types" and "\<forall>t \<in> set ts. well_typed visible t"
  obtains ts' where "types = map tree_type ts'" and "\<forall>t \<in> set ts'. well_typed visible t"
    and "spell ts' = spell ts @ [op]"
proof (cases op rule: op_cases)
  case leaf
  then have "well_typed visible (Leaf op)" "types = tree_type (Leaf op) # map tree_type ts"
    using assms(1) by (auto simp: push_type_def op_sets split: op.splits if_splits)
  with assms(2) show thesis by (intro that [of "Leaf op # ts"]) auto
next
  case unary
  then obtain t us where ts: "ts = t # us" using assms(1) by (cases ts) (auto simp: push_unary)
  show thesis using assms unary
    by (intro that [of "Unary op t # us"]) (auto simp: ts push_unary)
next
  case binary
  then obtain b a us where ts: "ts = b # a # us"
    using assms(1) by (cases ts; cases "tl ts") (auto simp: push_binary)
  show thesis using assms binary
    by (intro that [of "Binary op a b # us"]) (auto simp: ts push_binary split: if_splits)
next
  case (conditional c)
  then obtain f s r l us where ts: "ts = f # s # r # l # us"
    using assms(1) by (auto simp: push_type_def split: list.splits)
  show thesis using assms conditional
    by (intro that [of "Cond c l r s f # us"]) (auto simp: ts push_case)
qed

lemma infer_builds_trees:
  assumes "infer_ops visible ops (map tree_type ts) = Inr types" and "\<forall>t \<in> set ts. well_typed visible t"
  obtains ts' where "types = map tree_type ts'" and "\<forall>t \<in> set ts'. well_typed visible t"
    and "spell ts' = spell ts @ ops"
  using assms
proof (induction ops arbitrary: ts thesis)
  case Nil
  then show ?case by auto
next
  case (Cons op ops)
  from Cons.prems(2) obtain types' where
    p: "push_type visible op (map tree_type ts) = Inr types'" and i: "infer_ops visible ops types' = Inr types"
    by (auto simp: attempt_Inr_conv)
  from push_builds_tree [OF p Cons.prems(3)] obtain us where us: "types' = map tree_type us"
    "\<forall>t \<in> set us. well_typed visible t" "spell us = spell ts @ [op]" .
  show ?case
    by (rule Cons.IH [of us]) (use Cons.prems(1) i us in auto)
qed

lemma inferred_program:
  assumes "infer e visible = Inr t"
  obtains tree where "program e = flatten tree" and "well_typed (set visible) tree" and "tree_type tree = t"
    and "0 < expr_len e" and "expr_len e \<le> max_ops"
proof -
  from assms have len: "0 < expr_len e" "expr_len e \<le> max_ops"
    by (auto simp: infer_def split: if_splits)
  from assms obtain types where types: "infer_ops (set visible) (program e) [] = Inr types"
      "(case types of [t] \<Rightarrow> Inr t | _ \<Rightarrow> Inl (ProgramFailure ''scalar program does not produce one value'')) = Inr t"
    by (auto simp: infer_def attempt_Inr_conv split: if_splits)
  then have "types = [t]" by (cases types; cases "tl types") auto
  with types have "infer_ops (set visible) (program e) (map tree_type []) = Inr [t]" by simp
  then obtain ts where ts: "[t] = map tree_type ts" "\<forall>t \<in> set ts. well_typed (set visible) t"
      "spell ts = spell [] @ program e"
    by (rule infer_builds_trees) auto
  then obtain tree where "ts = [tree]" by (cases ts; cases "tl ts") auto
  with ts len show thesis by (intro that [of tree]) auto
qed

lemma validated_program:
  assumes "validate e visible = Inr u"
  obtains tree where "program e = flatten tree" and "well_typed (set visible) tree"
    and "tree_type tree = expr_type e" and "0 < expr_len e" and "expr_len e \<le> max_ops"
  using assms inferred_program [of e visible "expr_type e"]
  by (auto simp: validate_def attempt_Inr_conv)

end
