(* ===== verification/Scalar_Arithmetic.thy ===== *)
theory Scalar_Arithmetic
  imports Scalar_Program "HOL-Library.Signed_Division"
begin

text \<open>
  The arithmetic both evaluators share (src/query/scalar.rs, src/query/scalar/evaluation.rs):
  checked 64-bit integers, doubles with their exceptional values decided explicitly,
  SQL NULL, coercion and comparison. What the processor and the mathematical library
  round is a parameter, \<open>float_unit\<close>; the classification of doubles, their order and
  their signs are read off the bits. \<open>None\<close> is an \<open>unreachable!\<close> that was reached.
\<close>

section \<open>Failures\<close>

datatype arithmetic_failure =
    FailAdd | FailSubtract | FailMultiply | FailDivide | FailDivideByZero | FailNegate | FailAbs
  | FailSqrtDomain | FailLnDomain | FailLog10Domain | FailPowerDomain | FailPower | FailExp

fun into_error :: "arithmetic_failure \<Rightarrow> source_span \<Rightarrow> db_error" where
  "into_error FailAdd s = ArithmeticOverflow ''addition'' s"
| "into_error FailSubtract s = ArithmeticOverflow ''subtraction'' s"
| "into_error FailMultiply s = ArithmeticOverflow ''multiplication'' s"
| "into_error FailDivide s = ArithmeticOverflow ''division'' s"
| "into_error FailNegate s = ArithmeticOverflow ''negation'' s"
| "into_error FailAbs s = ArithmeticOverflow ''absolute value'' s"
| "into_error FailExp s = ArithmeticOverflow ''exponentiation'' s"
| "into_error FailPower s = ArithmeticOverflow ''power'' s"
| "into_error FailDivideByZero s = DivisionByZero s"
| "into_error FailPowerDomain s = ArithmeticDomain ''power'' s"
| "into_error FailLog10Domain s = ArithmeticDomain ''base-ten logarithm'' s"
| "into_error FailLnDomain s = ArithmeticDomain ''natural logarithm'' s"
| "into_error FailSqrtDomain s = ArithmeticDomain ''square root'' s"

section \<open>Doubles\<close>

record float_unit =
  f_add :: "u64 \<Rightarrow> u64 \<Rightarrow> u64"
  f_sub :: "u64 \<Rightarrow> u64 \<Rightarrow> u64"
  f_mul :: "u64 \<Rightarrow> u64 \<Rightarrow> u64"
  f_div :: "u64 \<Rightarrow> u64 \<Rightarrow> u64"
  f_rem :: "u64 \<Rightarrow> u64 \<Rightarrow> u64"
  f_pow :: "u64 \<Rightarrow> u64 \<Rightarrow> u64"
  f_exp :: "u64 \<Rightarrow> u64"
  f_ln :: "u64 \<Rightarrow> u64"
  f_log10 :: "u64 \<Rightarrow> u64"
  f_sqrt :: "u64 \<Rightarrow> u64"
  f_floor :: "u64 \<Rightarrow> u64"
  f_ceil :: "u64 \<Rightarrow> u64"
  f_round :: "u64 \<Rightarrow> u64"
  f_fract :: "u64 \<Rightarrow> u64"
  f_of_int :: "u64 \<Rightarrow> u64"

definition double_zero :: u64 where "double_zero = 0"
definition double_one :: u64 where "double_one = 0x3FF0000000000000"
definition double_two :: u64 where "double_two = 0x4000000000000000"
definition double_infinity :: u64 where "double_infinity = 0x7FF0000000000000"

definition double_neg :: "u64 \<Rightarrow> u64" where
  "double_neg x = x XOR 0x8000000000000000"

definition double_abs :: "u64 \<Rightarrow> u64" where
  "double_abs x = double_magnitude x"

definition sign_double :: "u64 \<Rightarrow> u64" where
  "sign_double v =
     (if double_eq v double_zero then double_zero
      else if is_nan v then v
      else if double_negative v then double_neg double_one else double_one)"

definition double_unary :: "float_unit \<Rightarrow> op \<Rightarrow> u64 \<Rightarrow> (arithmetic_failure + u64) option" where
  "double_unary fu op v =
     (if op = OpToDouble then Some (Inr v)
      else if is_nan v then Some (Inr v)
      else if op = OpExp then
        if double_eq v double_zero then Some (Inr double_one)
        else if v = double_neg double_infinity then Some (Inr double_zero)
        else if v = double_infinity then Some (Inr v)
        else let r = f_exp fu v in Some (if is_finite r then Inr r else Inl FailExp)
      else if op = OpLn \<or> op = OpLog10 then
        if v = double_neg double_infinity then Some (Inr 0x7FF8000000000000)
        else if double_le v double_zero then Some (Inl (if op = OpLn then FailLnDomain else FailLog10Domain))
        else Some (Inr (if op = OpLn then f_ln fu v else f_log10 fu v))
      else if double_eq v double_zero then Some (Inr v)
      else if op = OpFloor then Some (Inr (f_floor fu v))
      else if op = OpCeil then Some (Inr (f_ceil fu v))
      else if op = OpRound then Some (Inr (f_round fu v))
      else if op = OpSqrt then
        if double_less v double_zero then Some (Inl FailSqrtDomain) else Some (Inr (f_sqrt fu v))
      else None)"

definition double_power :: "float_unit \<Rightarrow> u64 \<Rightarrow> u64 \<Rightarrow> arithmetic_failure + u64" where
  "double_power fu base exponent =
     (if double_eq exponent double_zero \<or> double_eq base double_one then Inr double_one
      else if is_nan base then Inr base
      else if is_nan exponent then Inr exponent
      else if is_infinite exponent then
        let m = double_abs base in
        Inr (if double_eq m double_one then double_one
             else if double_less double_one m = (\<not> double_negative exponent) then double_infinity
             else double_zero)
      else
        let negative = double_negative base
              \<and> \<not> double_eq (f_rem fu exponent double_two) double_zero
              \<and> double_eq (f_fract fu exponent) double_zero in
        if is_infinite base then
          let m = (if double_less exponent double_zero then double_zero else double_infinity) in
          Inr (if negative then double_neg m else m)
        else if double_eq base double_zero then
          if double_less exponent double_zero then Inl FailPowerDomain
          else Inr (if negative then double_neg double_zero else double_zero)
        else if double_less base double_zero \<and> \<not> double_eq (f_fract fu exponent) double_zero
        then Inl FailPowerDomain
        else let r = f_pow fu base exponent in if is_finite r then Inr r else Inl FailPower)"

definition double_binary :: "float_unit \<Rightarrow> op \<Rightarrow> u64 \<Rightarrow> u64 \<Rightarrow> (arithmetic_failure + u64) option" where
  "double_binary fu op l r =
     (if op = OpPower then Some (double_power fu l r)
      else
        let finish = (\<lambda>v failure.
          if is_finite l \<and> is_finite r \<and> \<not> is_finite v then Some (Inl failure) else Some (Inr v)) in
        if op = OpAdd then finish (f_add fu l r) FailAdd
        else if op = OpSubtract then finish (f_sub fu l r) FailSubtract
        else if op = OpMultiply then finish (f_mul fu l r) FailMultiply
        else if op = OpDivide \<or> op = OpSafeDivide then
          if double_eq r double_zero then Some (Inl FailDivideByZero)
          else finish (f_div fu l r) FailDivide
        else None)"

section \<open>Integers\<close>

text \<open>Rust's checked operations on \<open>i64\<close>, and the bits of the result.\<close>

definition i64_result :: "int \<Rightarrow> arithmetic_failure \<Rightarrow> arithmetic_failure + u64" where
  "i64_result z failure = (if in_i64 z then Inr (word_of_int z) else Inl failure)"

definition integer_binary :: "op \<Rightarrow> u64 \<Rightarrow> u64 \<Rightarrow> (arithmetic_failure + u64) option" where
  "integer_binary op l r =
     (case op of
        OpAdd \<Rightarrow> Some (i64_result (sint l + sint r) FailAdd)
      | OpSubtract \<Rightarrow> Some (i64_result (sint l - sint r) FailSubtract)
      | OpMultiply \<Rightarrow> Some (i64_result (sint l * sint r) FailMultiply)
      | OpIntegerDivide \<Rightarrow>
          if r = 0 then Some (Inl FailDivideByZero)
          else Some (i64_result (sint l sdiv sint r) FailDivide)
      | OpMod \<Rightarrow>
          if r = 0 then Some (Inl FailDivideByZero)
          else Some (Inr (if sint r = - 1 then 0 else word_of_int (sint l smod sint r)))
      | _ \<Rightarrow> None)"

definition integer_unary :: "op \<Rightarrow> u64 \<Rightarrow> (arithmetic_failure + u64) option" where
  "integer_unary op v =
     (case op of
        OpAbs \<Rightarrow> Some (i64_result \<bar>sint v\<bar> FailAbs)
      | OpNegate \<Rightarrow> Some (i64_result (- sint v) FailNegate)
      | OpSign \<Rightarrow> Some (Inr (word_of_int (sgn (sint v))))
      | _ \<Rightarrow> None)"

section \<open>SQL numbers\<close>

datatype number = Null | Integer u64 | Double u64

fun coerce :: "float_unit \<Rightarrow> number \<Rightarrow> data_type \<Rightarrow> number" where
  "coerce fu (Integer v) DoubleType = Double (f_of_int fu v)"
| "coerce fu v kind = v"

fun compare :: "float_unit \<Rightarrow> comparison \<Rightarrow> number \<Rightarrow> number \<Rightarrow> bool" where
  "compare fu c Null Null \<longleftrightarrow> c = IsNotDistinct"
| "compare fu c Null r \<longleftrightarrow> c = IsDistinct"
| "compare fu c l Null \<longleftrightarrow> c = IsDistinct"
| "compare fu c (Integer a) (Integer b) \<longleftrightarrow> test_order c (order_of (sint a) (sint b))"
| "compare fu c (Integer a) (Double b) \<longleftrightarrow> test_doubles c (f_of_int fu a) b"
| "compare fu c (Double a) (Integer b) \<longleftrightarrow> test_doubles c a (f_of_int fu b)"
| "compare fu c (Double a) (Double b) \<longleftrightarrow> test_doubles c a b"

fun as_double :: "float_unit \<Rightarrow> number \<Rightarrow> u64 option" where
  "as_double fu Null = None"
| "as_double fu (Integer v) = Some (f_of_int fu v)"
| "as_double fu (Double v) = Some v"

definition map_result :: "('a \<Rightarrow> 'b) \<Rightarrow> (arithmetic_failure + 'a) option \<Rightarrow> (arithmetic_failure + 'b) option" where
  "map_result g = map_option (map_sum id g)"

definition binary :: "float_unit \<Rightarrow> op \<Rightarrow> number \<Rightarrow> number \<Rightarrow> (arithmetic_failure + number) option" where
  "binary fu op l r =
     (if l = Null \<or> r = Null then Some (Inr Null)
      else case (l, r) of
        (Integer a, Integer b) \<Rightarrow>
          if op \<notin> dividing_ops then map_result Integer (integer_binary op a b)
          else (case double_binary fu op (f_of_int fu a) (f_of_int fu b) of
              Some (Inl failure) \<Rightarrow>
                if failure \<in> {FailDivide, FailDivideByZero} \<and> op = OpSafeDivide then Some (Inr Null)
                else Some (Inl failure)
            | d \<Rightarrow> map_result Double d)
      | _ \<Rightarrow>
          (case double_binary fu op (the (as_double fu l)) (the (as_double fu r)) of
              Some (Inl failure) \<Rightarrow>
                if failure \<in> {FailDivide, FailDivideByZero} \<and> op = OpSafeDivide then Some (Inr Null)
                else Some (Inl failure)
            | d \<Rightarrow> map_result Double d))"

definition unary :: "float_unit \<Rightarrow> op \<Rightarrow> number \<Rightarrow> (arithmetic_failure + number) option" where
  "unary fu op v =
     (if op \<in> to_double_ops then
        (case v of
           Null \<Rightarrow> Some (Inr Null)
         | Integer n \<Rightarrow> map_result Double (double_unary fu op (f_of_int fu n))
         | Double x \<Rightarrow> map_result Double (double_unary fu op x))
      else
        (case v of
           Null \<Rightarrow> Some (Inr Null)
         | Integer n \<Rightarrow> map_result Integer (integer_unary op n)
         | Double x \<Rightarrow>
             (case op of
                OpAbs \<Rightarrow> Some (Inr (Double (double_abs x)))
              | OpNegate \<Rightarrow> Some (Inr (Double (double_neg x)))
              | OpSign \<Rightarrow> Some (Inr (Double (sign_double x)))
              | _ \<Rightarrow> None)))"

text \<open>NULLIF compares after converting both operands to the call's type.\<close>

definition null_if :: "float_unit \<Rightarrow> data_type \<Rightarrow> number \<Rightarrow> number \<Rightarrow> number" where
  "null_if fu kind l r =
     (let l = coerce fu l kind; r = coerce fu r kind in
      if (case (l, r) of
            (Integer a, Integer b) \<Rightarrow> a = b
          | (Double a, Double b) \<Rightarrow> double_eq a b
          | _ \<Rightarrow> False)
      then Null else l)"

section \<open>Types of results\<close>

fun fits :: "data_type \<Rightarrow> number \<Rightarrow> bool" where
  "fits t Null \<longleftrightarrow> True"
| "fits t (Integer v) \<longleftrightarrow> t = Int64Type"
| "fits t (Double v) \<longleftrightarrow> t = DoubleType"

lemma map_result_simps [simp]:
  "map_result g None = None"
  "map_result g (Some (Inl f)) = Some (Inl f)"
  "map_result g (Some (Inr v)) = Some (Inr (g v))"
  by (simp_all add: map_result_def)

lemma fits_coerce: "fits t v \<Longrightarrow> t = kind \<or> kind = DoubleType \<Longrightarrow> fits kind (coerce fu v kind)"
  by (cases v) auto

lemma coerce_Null [simp]: "coerce fu v kind = Null \<longleftrightarrow> v = Null"
  by (cases v; cases kind) auto

lemma double_unary_defined: "op \<in> to_double_ops \<Longrightarrow> \<exists>r. double_unary fu op x = Some r"
  by (auto simp: double_unary_def to_double_ops_def Let_def)

lemma double_binary_defined:
  "op \<in> binary_ops \<Longrightarrow> op \<notin> {OpCoalesce, OpNullIf, OpMod, OpIntegerDivide} \<Longrightarrow>
     \<exists>r. double_binary fu op x y = Some r"
  by (auto simp: double_binary_def binary_ops_def Let_def)

lemma integer_binary_defined:
  "op \<in> binary_ops \<Longrightarrow> op \<notin> {OpCoalesce, OpNullIf} \<union> dividing_ops \<Longrightarrow>
     \<exists>r. integer_binary op x y = Some r"
  by (auto simp: integer_binary_def binary_ops_def dividing_ops_def)

lemma unary_sound:
  assumes "op \<in> unary_ops" and "fits t v"
  shows "\<exists>r. unary fu op v = Some r
    \<and> (\<forall>w. r = Inr w \<longrightarrow> fits (if op \<in> to_double_ops then DoubleType else t) w \<and> (w = Null \<longleftrightarrow> v = Null))"
proof (cases "op \<in> to_double_ops")
  case True
  then obtain r s where "double_unary fu op (f_of_int fu (case v of Integer n \<Rightarrow> n | _ \<Rightarrow> 0)) = Some r"
      "double_unary fu op (case v of Double x \<Rightarrow> x | _ \<Rightarrow> 0) = Some s"
    using double_unary_defined by blast
  with True show ?thesis by (cases v; cases r; cases s) (auto simp: unary_def)
next
  case False
  with assms show ?thesis
    by (cases v) (auto simp: unary_def unary_ops_def integer_unary_def i64_result_def)
qed

lemma binary_sound:
  assumes "op \<in> binary_ops" and "op \<notin> {OpCoalesce, OpNullIf}"
    and "op \<in> integer_only_ops \<longrightarrow> a = Int64Type \<and> b = Int64Type"
    and "fits a x" and "fits b y"
  shows "\<exists>r. binary fu op x y = Some r
    \<and> (\<forall>w. r = Inr w \<longrightarrow> fits (binary_type op a b) w
         \<and> (op \<noteq> OpSafeDivide \<longrightarrow> (w = Null \<longleftrightarrow> x = Null \<or> y = Null)))"
proof -
  have dbl: "\<exists>r. double_binary fu op u w = Some r" if "op \<notin> integer_only_ops" for u w
    using assms that by (intro double_binary_defined) (auto simp: integer_only_ops_def)
  have int: "\<exists>r. integer_binary op u w = Some r" if "op \<notin> dividing_ops" for u w
    using assms that by (intro integer_binary_defined) auto
  have disjoint: "op \<in> dividing_ops \<Longrightarrow> op \<notin> integer_only_ops"
    by (auto simp: dividing_ops_def integer_only_ops_def)
  consider "x = Null \<or> y = Null"
    | u w where "x = Integer u" "y = Integer w" "op \<notin> dividing_ops"
    | u w where "x \<noteq> Null" "y \<noteq> Null" "op \<notin> integer_only_ops"
        "binary_type op a b = DoubleType" "as_double fu x = Some u" "as_double fu y = Some w"
        "op \<in> dividing_ops \<or> (\<nexists>m n. x = Integer m \<and> y = Integer n)"
    using assms(3-5) disjoint
    by (cases x; cases y) (auto simp: binary_type_def join_types_def)
  then show ?thesis
  proof cases
    case 1
    then show ?thesis by (auto simp: binary_def)
  next
    case 2
    then obtain r where "integer_binary op u w = Some r" using int by blast
    with 2 assms show ?thesis
      by (cases r) (auto simp: binary_def binary_type_def join_types_def)
  next
    case 3
    then obtain r where r: "double_binary fu op u w = Some r" using dbl by blast
    have "binary fu op x y = (case Some r of
              Some (Inl failure) \<Rightarrow>
                if failure \<in> {FailDivide, FailDivideByZero} \<and> op = OpSafeDivide then Some (Inr Null)
                else Some (Inl failure)
            | d \<Rightarrow> map_result Double d)"
      using 3 r by (cases x; cases y) (auto simp: binary_def)
    with 3 show ?thesis by (cases r) auto
  qed
qed

section \<open>Integer arithmetic\<close>

text \<open>\<open>computes r z f\<close>: exactly the integer \<open>z\<close>, or the failure when 64 bits cannot hold it.\<close>

definition computes :: "(arithmetic_failure + u64) option \<Rightarrow> int \<Rightarrow> arithmetic_failure \<Rightarrow> bool" where
  "computes r z f \<longleftrightarrow>
     (if in_i64 z then \<exists>v. r = Some (Inr v) \<and> sint v = z else r = Some (Inl f))"

lemma in_i64_sint [simp]: "in_i64 (sint (w :: u64))"
  using sint_greater_eq [of w] sint_lt [of w] by (simp add: in_i64_def)

lemma sint_word_of_int_i64: "in_i64 z \<Longrightarrow> sint (word_of_int z :: u64) = z"
  by (simp add: in_i64_def signed_of_int signed_take_bit_int_eq_self)

lemma computes_i64_result: "computes (Some (i64_result z f)) z f"
  by (simp add: computes_def i64_result_def sint_word_of_int_i64)

lemma i64_quotient:
  assumes "in_i64 a" and "b \<noteq> 0"
  shows "in_i64 (a sdiv b) \<longleftrightarrow> \<not> (a = - (2 ^ 63) \<and> b = - 1)"
proof -
  have bounds: "- \<bar>a\<bar> \<le> a sdiv b" "a sdiv b \<le> \<bar>a\<bar>" using sdiv_int_range [of a b] by auto
  show ?thesis
  proof
    assume "in_i64 (a sdiv b)"
    then show "\<not> (a = - (2 ^ 63) \<and> b = - 1)" by (auto simp: in_i64_def)
  next
    assume n: "\<not> (a = - (2 ^ 63) \<and> b = - 1)"
    have "a sdiv b \<noteq> 2 ^ 63"
    proof
      assume q: "a sdiv b = 2 ^ 63"
      with bounds assms(1) have a: "a = - (2 ^ 63)" by (auto simp: in_i64_def abs_if split: if_splits)
      with q have "a sdiv b = - a" by simp
      moreover have "a \<noteq> 0" using a by simp
      ultimately have "b = - 1" using int_sdiv_negated_is_minus1 [of a b] by blast
      with a n show False by blast
    qed
    with bounds assms(1) show "in_i64 (a sdiv b)" by (auto simp: in_i64_def abs_if split: if_splits)
  qed
qed

lemma i64_remainder:
  assumes "in_i64 a" and "b \<noteq> 0" and "in_i64 b"
  shows "in_i64 (a smod b)" and "b = - 1 \<Longrightarrow> a smod b = 0"
proof -
  show "in_i64 (a smod b)"
    using smod_int_range [OF assms(2), of a] assms(3) by (auto simp: in_i64_def)
  show "a smod b = 0" if "b = - 1" using that by (simp add: signed_modulo_int_def)
qed

text \<open>C26: Integer arithmetic is exact or refused. Addition, subtraction, multiplication, negation and
  absolute value give the mathematical result whenever 64 bits can hold it and the failure of that
  operation otherwise. Integer division truncates toward zero, refuses a zero divisor and overflows
  only for the least integer divided by minus one. The remainder refuses only a zero divisor and is
  what the truncated quotient leaves.\<close>

theorem integer_arithmetic_is_exact:
  "computes (integer_binary OpAdd l r) (sint l + sint r) FailAdd
    \<and> computes (integer_binary OpSubtract l r) (sint l - sint r) FailSubtract
    \<and> computes (integer_binary OpMultiply l r) (sint l * sint r) FailMultiply
    \<and> computes (integer_unary OpNegate l) (- sint l) FailNegate
    \<and> computes (integer_unary OpAbs l) \<bar>sint l\<bar> FailAbs
    \<and> (if r = 0
       then integer_binary OpIntegerDivide l r = Some (Inl FailDivideByZero)
         \<and> integer_binary OpMod l r = Some (Inl FailDivideByZero)
       else computes (integer_binary OpIntegerDivide l r) (sint l sdiv sint r) FailDivide
         \<and> (in_i64 (sint l sdiv sint r) \<longleftrightarrow> \<not> (sint l = - (2 ^ 63) \<and> sint r = - 1))
         \<and> computes (integer_binary OpMod l r) (sint l - (sint l sdiv sint r) * sint r) FailDivide
         \<and> in_i64 (sint l - (sint l sdiv sint r) * sint r))"
proof (cases "r = 0")
  case True
  then show ?thesis by (simp add: integer_binary_def integer_unary_def computes_i64_result)
next
  case False
  then have r: "sint r \<noteq> 0" by (metis sint_0 signed_word_eqI)
  have m: "sint l - (sint l sdiv sint r) * sint r = sint l smod sint r"
    by (rule minus_sdiv_mult_eq_smod)
  have "computes (integer_binary OpMod l r) (sint l smod sint r) FailDivide"
  proof (cases "sint r = - 1")
    case True
    then have "sint l smod sint r = 0" by (simp add: signed_modulo_int_def)
    with True False show ?thesis by (simp add: integer_binary_def computes_def in_i64_def)
  next
    case minus: False
    with False i64_remainder(1) [of "sint l" "sint r"] r show ?thesis
      by (simp add: integer_binary_def computes_def sint_word_of_int_i64)
  qed
  then show ?thesis
    using False i64_quotient [of "sint l" "sint r"] i64_remainder(1) [of "sint l" "sint r"] r
    by (simp add: integer_binary_def integer_unary_def computes_i64_result m)
qed

end
