(* ===== verification/Scalar_Evaluation.thy ===== *)
theory Scalar_Evaluation
  imports Scalar_Arithmetic
begin

text \<open>
  Row-at-a-time evaluation of numeric expressions (src/query/scalar/evaluation.rs). A
  pass over the validated program notes where the operands of COALESCE and CASE start
  and end; the cursor then walks the program, jumps over what it must not evaluate and
  stops to ask for columns. The reference is a recursive evaluator of expression trees
  in which only the demanded operands are mentioned. \<open>None\<close> is a panic throughout.
\<close>

section \<open>The jump tables\<close>

record jump_tables =
  fallback_end :: "nat \<Rightarrow> nat"
  case_alternative :: "nat \<Rightarrow> nat"
  case_end :: "nat \<Rightarrow> nat"
  result_types :: "nat \<Rightarrow> data_type"

definition no_jumps :: jump_tables where
  "no_jumps = \<lparr>fallback_end = \<lambda>_. 0, case_alternative = \<lambda>_. 0, case_end = \<lambda>_. 0,
     result_types = \<lambda>_. Int64Type\<rparr>"

text \<open>An entry of the construction's stack: where an operand starts, and its type.\<close>

type_synonym operand = "nat \<times> data_type"

definition note_op :: "nat \<Rightarrow> op \<Rightarrow> operand list \<Rightarrow> jump_tables \<Rightarrow> (operand list \<times> jump_tables) option" where
  "note_op position op operands T =
     map_option (\<lambda>(operands, T).
         (operands, T\<lparr>result_types := (result_types T)(position := snd (hd operands))\<rparr>))
       (case op of
          OpColumn c \<Rightarrow> Some ((position, column_kind c) # operands, T)
        | OpDouble bits \<Rightarrow> Some ((position, DoubleType) # operands, T)
        | OpInteger n \<Rightarrow> Some ((position, Int64Type) # operands, T)
        | OpNull \<Rightarrow> Some ((position, Int64Type) # operands, T)
        | OpCase c \<Rightarrow>
            (case operands of
               (alternative, alternative_type) # (selected, selected_type) # right # (start, _) # rest \<Rightarrow>
                 Some ((start, join_types selected_type alternative_type) # rest,
                   T\<lparr>case_alternative := (case_alternative T)(selected := alternative),
                     case_end := (case_end T)(alternative := position)\<rparr>)
             | _ \<Rightarrow> None)
        | OpEmpty \<Rightarrow> None
        | _ \<Rightarrow>
            if op \<in> unary_ops then
              (case operands of
                 (start, t) # rest \<Rightarrow> Some ((start, if op \<in> to_double_ops then DoubleType else t) # rest, T)
               | _ \<Rightarrow> None)
            else
              (case operands of
                 (right, right_type) # (start, left_type) # rest \<Rightarrow>
                   Some ((start, if op \<in> dividing_ops \<or> right_type = DoubleType then DoubleType else left_type) # rest,
                     if op = OpCoalesce then T\<lparr>fallback_end := (fallback_end T)(right := position)\<rparr> else T)
               | _ \<Rightarrow> None))"

fun note_ops :: "nat \<Rightarrow> op list \<Rightarrow> operand list \<Rightarrow> jump_tables \<Rightarrow> (operand list \<times> jump_tables) option" where
  "note_ops position [] operands T = Some (operands, T)"
| "note_ops position (op # ops) operands T =
     Option.bind (note_op position op operands T) (\<lambda>(operands, T). note_ops (position + 1) ops operands T)"

definition new_tables :: "expression \<Rightarrow> jump_tables option" where
  "new_tables e = map_option snd (note_ops 0 (program e) [] no_jumps)"

section \<open>The cursor\<close>

record cursor =
  cursor_position :: nat
  cursor_stack :: "number list"

definition new_cursor :: cursor where
  "new_cursor = \<lparr>cursor_position = 0, cursor_stack = []\<rparr>"

datatype progress = Demand semantic_column cursor | Continue cursor | Stop arithmetic_failure

definition at_cursor :: "nat \<Rightarrow> number list \<Rightarrow> cursor" where
  "at_cursor p st = \<lparr>cursor_position = p, cursor_stack = st\<rparr>"

text \<open>A computed value replaces the operands; a failure stops the evaluation.\<close>

definition proceed :: "nat \<Rightarrow> number list \<Rightarrow> (arithmetic_failure + number) option \<Rightarrow> progress option" where
  "proceed p st r =
     (case r of
        None \<Rightarrow> None
      | Some (Inl failure) \<Rightarrow> Some (Stop failure)
      | Some (Inr v) \<Rightarrow> Some (Continue (at_cursor (p + 1) (v # st))))"

definition combine :: "float_unit \<Rightarrow> op \<Rightarrow> data_type \<Rightarrow> number \<Rightarrow> number \<Rightarrow> (arithmetic_failure + number) option" where
  "combine fu op kind left right =
     (if op = OpCoalesce then Some (Inr (coerce fu right kind))
      else if op = OpNullIf then Some (Inr (null_if fu kind left right))
      else binary fu op left right)"

definition execute :: "float_unit \<Rightarrow> expression \<Rightarrow> jump_tables \<Rightarrow> nat \<Rightarrow> number list \<Rightarrow> progress option" where
  "execute fu e T p st =
     (let op = program e ! p in
      case op of
        OpColumn c \<Rightarrow> Some (Demand c (at_cursor p st))
      | OpInteger n \<Rightarrow> Some (Continue (at_cursor (p + 1) (Integer n # st)))
      | OpNull \<Rightarrow> Some (Continue (at_cursor (p + 1) (Null # st)))
      | OpDouble bits \<Rightarrow> Some (Continue (at_cursor (p + 1) (Double bits # st)))
      | OpCase c \<Rightarrow>
          (case st of
             v # st \<Rightarrow> Some (Continue (at_cursor (p + 1) (coerce fu v (result_types T p) # st)))
           | [] \<Rightarrow> None)
      | OpEmpty \<Rightarrow> None
      | _ \<Rightarrow>
          if op \<in> unary_ops then
            (case st of v # st \<Rightarrow> proceed p st (unary fu op v) | [] \<Rightarrow> None)
          else
            (case st of
               right # left # st \<Rightarrow> proceed p st (combine fu op (result_types T p) left right)
             | _ \<Rightarrow> None))"

definition advance :: "float_unit \<Rightarrow> expression \<Rightarrow> jump_tables \<Rightarrow> cursor \<Rightarrow> progress option" where
  "advance fu e T c =
     (let p = cursor_position c; st = cursor_stack c in
      if case_end T p \<noteq> 0 then
        (case st of
           v # st \<Rightarrow> Some (Continue (at_cursor (case_end T p + 1) (coerce fu v (result_types T (case_end T p)) # st)))
         | [] \<Rightarrow> None)
      else if fallback_end T p \<noteq> 0 \<and> st = [] then None
      else if fallback_end T p \<noteq> 0 \<and> hd st \<noteq> Null then
        Some (Continue (at_cursor (fallback_end T p + 1)
          (coerce fu (hd st) (result_types T (fallback_end T p)) # tl st)))
      else if case_alternative T p \<noteq> 0 then
        (case (program e ! case_end T (case_alternative T p), st) of
           (OpCase comparison, right # left # st) \<Rightarrow>
             execute fu e T (if compare fu comparison left right then p else case_alternative T p) st
         | _ \<Rightarrow> None)
      else execute fu e T p st)"

partial_function (option) next_column ::
    "float_unit \<Rightarrow> expression \<Rightarrow> jump_tables \<Rightarrow> cursor \<Rightarrow> (arithmetic_failure + semantic_column option \<times> cursor) option" where
  "next_column fu e T c =
     (if cursor_position c < expr_len e
      then Option.bind (advance fu e T c) (\<lambda>r. case r of
          Continue c' \<Rightarrow> next_column fu e T c'
        | Demand column c' \<Rightarrow> Some (Inr (Some column, c'))
        | Stop failure \<Rightarrow> Some (Inl failure))
      else Some (Inr (None, c)))"

text \<open>Supplying a value; the request stays pending when the value does not suit the column.\<close>

definition supply_column :: "expression \<Rightarrow> number \<Rightarrow> cursor \<Rightarrow> (db_error + cursor) option" where
  "supply_column e v c =
     (case program e ! cursor_position c of
        OpColumn column \<Rightarrow>
          Some (if v = Null \<and> \<not> column_nullable column
                then Inl (Corrupt ''nonnull scalar input contains NULL'')
                else if fits (column_kind column) v
                then Inr (at_cursor (cursor_position c + 1) (v # cursor_stack c))
                else Inl (Corrupt ''scalar input type or row extent''))
      | _ \<Rightarrow> None)"

definition cursor_value :: "expression \<Rightarrow> cursor \<Rightarrow> number option" where
  "cursor_value e c =
     (case cursor_stack c of [v] \<Rightarrow> if cursor_position c = expr_len e then Some v else None | _ \<Rightarrow> None)"

text \<open>The loop of \<open>evaluate_conditional\<close> over one row: \<open>columns\<close> holds the row's inputs.\<close>

partial_function (option) evaluate_row ::
    "float_unit \<Rightarrow> expression \<Rightarrow> jump_tables \<Rightarrow> (semantic_column \<Rightarrow> number option) \<Rightarrow> cursor
     \<Rightarrow> (arithmetic_failure + number) option" where
  "evaluate_row fu e T columns c =
     Option.bind (next_column fu e T c) (\<lambda>r. case r of
         Inl failure \<Rightarrow> Some (Inl failure)
       | Inr (None, c') \<Rightarrow> map_option Inr (cursor_value e c')
       | Inr (Some column, c') \<Rightarrow>
           Option.bind (columns column) (\<lambda>v.
             Option.bind (supply_column e v c') (\<lambda>s. case s of
                 Inl failure \<Rightarrow> None
               | Inr c'' \<Rightarrow> evaluate_row fu e T columns c'')))"

definition evaluate_expression ::
    "float_unit \<Rightarrow> expression \<Rightarrow> (semantic_column \<Rightarrow> number option) \<Rightarrow> (arithmetic_failure + number) option" where
  "evaluate_expression fu e columns =
     Option.bind (new_tables e) (\<lambda>T. evaluate_row fu e T columns new_cursor)"

section \<open>The reference evaluator\<close>

definition sequence :: "(arithmetic_failure + number) option \<Rightarrow> (number \<Rightarrow> (arithmetic_failure + 'a) option)
    \<Rightarrow> (arithmetic_failure + 'a) option" where
  "sequence r k = (case r of None \<Rightarrow> None | Some (Inl failure) \<Rightarrow> Some (Inl failure) | Some (Inr v) \<Rightarrow> k v)"

definition read_column :: "(semantic_column \<Rightarrow> number option) \<Rightarrow> semantic_column \<Rightarrow> (arithmetic_failure + number) option" where
  "read_column columns c =
     (case columns c of
        None \<Rightarrow> None
      | Some v \<Rightarrow> if fits (column_kind c) v \<and> (v = Null \<longrightarrow> column_nullable c) then Some (Inr v) else None)"

fun eval_tree :: "float_unit \<Rightarrow> (semantic_column \<Rightarrow> number option) \<Rightarrow> tree \<Rightarrow> (arithmetic_failure + number) option" where
  "eval_tree fu columns (Leaf op) =
     (case op of
        OpColumn c \<Rightarrow> read_column columns c
      | OpInteger n \<Rightarrow> Some (Inr (Integer n))
      | OpDouble bits \<Rightarrow> Some (Inr (Double bits))
      | OpNull \<Rightarrow> Some (Inr Null)
      | _ \<Rightarrow> None)"
| "eval_tree fu columns (Unary op t) = sequence (eval_tree fu columns t) (unary fu op)"
| "eval_tree fu columns (Binary op a b) =
     sequence (eval_tree fu columns a) (\<lambda>x.
       if op = OpCoalesce \<and> x \<noteq> Null
       then Some (Inr (coerce fu x (tree_type (Binary op a b))))
       else sequence (eval_tree fu columns b) (combine fu op (tree_type (Binary op a b)) x))"
| "eval_tree fu columns (Cond c l r s f) =
     sequence (eval_tree fu columns l) (\<lambda>x.
       sequence (eval_tree fu columns r) (\<lambda>y.
         sequence (if compare fu c x y then eval_tree fu columns s else eval_tree fu columns f) (\<lambda>v.
           Some (Inr (coerce fu v (tree_type (Cond c l r s f)))))))"

lemma sequence_simps [simp]:
  "sequence None k = None"
  "sequence (Some (Inl failure)) k = Some (Inl failure)"
  "sequence (Some (Inr v)) k = k v"
  by (simp_all add: sequence_def)

lemma at_cursor_simps [simp]:
  "cursor_position (at_cursor p st) = p"
  "cursor_stack (at_cursor p st) = st"
  by (simp_all add: at_cursor_def)

lemma at_cursor_collapse [simp]: "at_cursor (cursor_position c) (cursor_stack c) = c"
  by (simp add: at_cursor_def)

section \<open>What the construction notes\<close>

definition roles :: "jump_tables \<Rightarrow> nat \<Rightarrow> nat \<times> nat \<times> nat" where
  "roles T q = (fallback_end T q, case_alternative T q, case_end T q)"

definition set_type :: "nat \<Rightarrow> data_type \<Rightarrow> jump_tables \<Rightarrow> jump_tables" where
  "set_type p t T = T\<lparr>result_types := (result_types T)(p := t)\<rparr>"

fun marks :: "tree \<Rightarrow> nat \<Rightarrow> jump_tables \<Rightarrow> jump_tables" where
  "marks (Leaf op) p T = set_type p (tree_type (Leaf op)) T"
| "marks (Unary op t) p T = set_type (p + tree_size t) (tree_type (Unary op t)) (marks t p T)"
| "marks (Binary op a b) p T =
     (let q = p + tree_size a; e = q + tree_size b; T = marks b q (marks a p T) in
      set_type e (tree_type (Binary op a b))
        (if op = OpCoalesce then T\<lparr>fallback_end := (fallback_end T)(q := e)\<rparr> else T))"
| "marks (Cond c l r s f) p T =
     (let qr = p + tree_size l; qs = qr + tree_size r; qf = qs + tree_size s; e = qf + tree_size f;
          T = marks f qf (marks s qs (marks r qr (marks l p T))) in
      set_type e (tree_type (Cond c l r s f))
        (T\<lparr>case_alternative := (case_alternative T)(qs := qf), case_end := (case_end T)(qf := e)\<rparr>))"

fun tabled :: "jump_tables \<Rightarrow> tree \<Rightarrow> nat \<Rightarrow> bool" where
  "tabled T (Leaf op) p \<longleftrightarrow> True"
| "tabled T (Unary op t) p \<longleftrightarrow> tabled T t p \<and> roles T (p + tree_size t) = (0, 0, 0)"
| "tabled T (Binary op a b) p \<longleftrightarrow>
     (let q = p + tree_size a; e = q + tree_size b in
      tabled T a p \<and> tabled T b q
      \<and> roles T q = (if op = OpCoalesce then e else 0, 0, 0) \<and> roles T e = (0, 0, 0)
      \<and> result_types T e = tree_type (Binary op a b))"
| "tabled T (Cond c l r s f) p \<longleftrightarrow>
     (let qr = p + tree_size l; qs = qr + tree_size r; qf = qs + tree_size s; e = qf + tree_size f in
      tabled T l p \<and> tabled T r qr \<and> tabled T s qs \<and> tabled T f qf
      \<and> roles T qr = (0, 0, 0) \<and> roles T qs = (0, qf, 0) \<and> roles T qf = (0, 0, e) \<and> roles T e = (0, 0, 0)
      \<and> result_types T e = tree_type (Cond c l r s f))"

lemma roles_set_type [simp]: "roles (set_type p t T) q = roles T q"
  by (simp add: roles_def set_type_def)

lemma set_type_simps [simp]:
  "fallback_end (set_type p t T) = fallback_end T"
  "case_alternative (set_type p t T) = case_alternative T"
  "case_end (set_type p t T) = case_end T"
  by (simp_all add: set_type_def)

lemma roles_update [simp]:
  "roles (T\<lparr>fallback_end := (fallback_end T)(p := e)\<rparr>) q =
     (if q = p then (e, snd (roles T q)) else roles T q)"
  "roles (T\<lparr>case_alternative := (case_alternative T)(p := a), case_end := (case_end T)(p' := e)\<rparr>) q =
     (fallback_end T q, if q = p then a else case_alternative T q, if q = p' then e else case_end T q)"
  by (auto simp: roles_def)

lemma types_update [simp]:
  "result_types (set_type p t T) q = (if q = p then t else result_types T q)"
  by (simp add: set_type_def)

lemma roles_eq:
  "roles T q = (a, b, c) \<longleftrightarrow> fallback_end T q = a \<and> case_alternative T q = b \<and> case_end T q = c"
  by (simp add: roles_def)

lemma marks_outside:
  "q \<le> p \<or> p + tree_size t \<le> q \<Longrightarrow> roles (marks t p T) q = roles T q"
  "q < p \<or> p + tree_size t \<le> q \<Longrightarrow> result_types (marks t p T) q = result_types T q"
proof (induction t arbitrary: p T)
  case (Unary op t)
  { case 1 then show ?case using Unary(1) by auto }
  { case 2 then show ?case using Unary(2) by auto }
next
  case (Binary op a b)
  have pos: "0 < tree_size a" "0 < tree_size b" by simp_all
  { case 1
    then have "q \<noteq> p + tree_size a" using pos by (auto simp del: tree_size_pos)
    with 1 show ?case using Binary(1) [of p T] Binary(3) [of "p + tree_size a" "marks a p T"]
      by (auto simp: Let_def) }
  { case 2
    then show ?case using Binary(2) [of p T] Binary(4) [of "p + tree_size a" "marks a p T"]
      by (auto simp: Let_def set_type_def) }
next
  case (Cond c l r s f)
  have pos: "0 < tree_size l" "0 < tree_size r" "0 < tree_size s" "0 < tree_size f" by simp_all
  { case 1
    let ?r = "p + tree_size l" let ?s = "?r + tree_size r" let ?f = "?s + tree_size s"
    note ih = Cond(1) [of p T] Cond(3) [of ?r "marks l p T"]
      Cond(5) [of ?s "marks r ?r (marks l p T)"] Cond(7) [of ?f "marks s ?s (marks r ?r (marks l p T))"]
    from 1 have "q \<le> p \<or> ?f + tree_size f + 1 \<le> q" by (simp add: add.assoc)
    with pos have "q \<noteq> ?s" "q \<noteq> ?f" by linarith+
    with 1 show ?case using ih by (auto simp: Let_def roles_def) }
  { case 2
    let ?r = "p + tree_size l" let ?s = "?r + tree_size r" let ?f = "?s + tree_size s"
    note ih = Cond(2) [of p T] Cond(4) [of ?r "marks l p T"]
      Cond(6) [of ?s "marks r ?r (marks l p T)"] Cond(8) [of ?f "marks s ?s (marks r ?r (marks l p T))"]
    from 2 show ?case using ih by (auto simp: Let_def set_type_def) }
qed auto

lemma tabled_cong:
  "(\<And>q. p < q \<Longrightarrow> q < p + tree_size t \<Longrightarrow> roles T q = roles T' q \<and> result_types T q = result_types T' q)
    \<Longrightarrow> tabled T t p = tabled T' t p"
proof (induction t arbitrary: p)
  case (Unary op t)
  have "0 < tree_size t" by simp
  with Unary.prems [of "p + tree_size t"] have "roles T (p + tree_size t) = roles T' (p + tree_size t)"
    by (simp del: tree_size_pos)
  moreover have "tabled T t p = tabled T' t p" by (rule Unary.IH) (use Unary.prems in simp)
  ultimately show ?case by simp
next
  case (Binary op a b)
  have pos: "0 < tree_size a" "0 < tree_size b" by simp_all
  have "tabled T a p = tabled T' a p" by (rule Binary.IH(1)) (use Binary.prems in simp)
  moreover have "tabled T b (p + tree_size a) = tabled T' b (p + tree_size a)"
    by (rule Binary.IH(2)) (use Binary.prems pos in \<open>simp del: tree_size_pos\<close>)
  moreover have "roles T q = roles T' q \<and> result_types T q = result_types T' q"
    if "q \<in> {p + tree_size a, p + tree_size a + tree_size b}" for q
    using Binary.prems [of q] that pos by (auto simp del: tree_size_pos)
  ultimately show ?case by (simp add: Let_def)
next
  case (Cond c l r s f)
  have pos: "0 < tree_size l" "0 < tree_size r" "0 < tree_size s" "0 < tree_size f" by simp_all
  let ?r = "p + tree_size l" let ?s = "?r + tree_size r" let ?f = "?s + tree_size s" let ?e = "?f + tree_size f"
  have "tabled T l p = tabled T' l p" by (rule Cond.IH(1)) (use Cond.prems in simp)
  moreover have "tabled T r ?r = tabled T' r ?r"
    by (rule Cond.IH(2)) (use Cond.prems pos in \<open>simp del: tree_size_pos\<close>)
  moreover have "tabled T s ?s = tabled T' s ?s"
    by (rule Cond.IH(3)) (use Cond.prems pos in \<open>simp del: tree_size_pos\<close>)
  moreover have "tabled T f ?f = tabled T' f ?f"
    by (rule Cond.IH(4)) (use Cond.prems pos in \<open>simp del: tree_size_pos\<close>)
  moreover have "roles T q = roles T' q \<and> result_types T q = result_types T' q"
    if "q \<in> {?r, ?s, ?f, ?e}" for q
    using Cond.prems [of q] that pos by (auto simp del: tree_size_pos)
  ultimately show ?case by (simp add: Let_def)
qed simp

lemma marks_tabled:
  "(\<And>q. p < q \<Longrightarrow> q < p + tree_size t \<Longrightarrow> roles T q = (0, 0, 0)) \<Longrightarrow> tabled (marks t p T) t p"
proof (induction t arbitrary: p T)
  case (Unary op t)
  have "0 < tree_size t" by simp
  have "tabled (marks (Unary op t) p T) t p = tabled (marks t p T) t p"
    by (rule tabled_cong) simp
  moreover have "tabled (marks t p T) t p" by (rule Unary.IH) (use Unary.prems in simp)
  moreover have "roles (marks t p T) (p + tree_size t) = (0, 0, 0)"
    using Unary.prems [of "p + tree_size t"] \<open>0 < tree_size t\<close>
    by (simp add: marks_outside del: tree_size_pos)
  ultimately show ?case by simp
next
  case (Binary op a b)
  have pos: "0 < tree_size a" "0 < tree_size b" by simp_all
  let ?q = "p + tree_size a" let ?e = "?q + tree_size b"
  let ?A = "marks a p T" let ?B = "marks b ?q ?A" let ?M = "marks (Binary op a b) p T"
  have other: "roles ?M q = roles ?B q" "result_types ?M q = result_types ?B q" if "q \<noteq> ?q" "q \<noteq> ?e" for q
    using that by (auto simp: Let_def)
  have outside: "roles ?B q = roles T q" if "p + tree_size a \<le> q" "q \<le> ?q \<or> ?e \<le> q" for q
    using that by (simp add: marks_outside)
  have "tabled ?M a p = tabled ?A a p"
  proof (rule tabled_cong)
    fix q assume "p < q" "q < p + tree_size a"
    then show "roles ?M q = roles ?A q \<and> result_types ?M q = result_types ?A q"
      using other [of q] marks_outside [of q ?q b ?A] by simp
  qed
  moreover have "tabled ?A a p" by (rule Binary.IH(1)) (use Binary.prems in simp)
  moreover have "tabled ?M b ?q = tabled ?B b ?q"
    by (rule tabled_cong) (use other in simp)
  moreover have "tabled ?B b ?q"
  proof (rule Binary.IH(2))
    fix q assume q: "?q < q" "q < ?q + tree_size b"
    then have "roles T q = (0, 0, 0)" using Binary.prems [of q] by simp
    with q show "roles ?A q = (0, 0, 0)" using marks_outside(1) [of q p a T] by simp
  qed
  moreover have "roles T ?q = (0, 0, 0)" "roles T ?e = (0, 0, 0)"
    using Binary.prems pos by (simp_all del: tree_size_pos)
  then have "roles ?B ?q = (0, 0, 0)" "roles ?B ?e = (0, 0, 0)"
    using outside [of ?q] outside [of ?e] by simp_all
  ultimately show ?case by (auto simp: Let_def)
next
  case (Cond c l r s f)
  have pos: "0 < tree_size l" "0 < tree_size r" "0 < tree_size s" "0 < tree_size f" by simp_all
  let ?r = "p + tree_size l" let ?s = "?r + tree_size r" let ?f = "?s + tree_size s" let ?e = "?f + tree_size f"
  let ?L = "marks l p T" let ?R = "marks r ?r ?L" let ?S = "marks s ?s ?R" let ?F = "marks f ?f ?S"
  let ?M = "marks (Cond c l r s f) p T"
  have other: "roles ?M q = roles ?F q" "result_types ?M q = result_types ?F q"
    if "q \<noteq> ?s" "q \<noteq> ?f" "q \<noteq> ?e" for q
    using that by (auto simp: Let_def roles_eq) (auto simp: roles_def)
  have zero: "roles T q = (0, 0, 0)" if "p < q" "q \<le> ?e" for q
    using Cond.prems [of q] that by simp
  have "tabled ?M l p = tabled ?L l p"
  proof (rule tabled_cong)
    fix q assume "p < q" "q < p + tree_size l"
    then show "roles ?M q = roles ?L q \<and> result_types ?M q = result_types ?L q"
      using other [of q] marks_outside [of q ?r r ?L] marks_outside [of q ?s s ?R] marks_outside [of q ?f f ?S]
      by simp
  qed
  moreover have "tabled ?L l p" by (rule Cond.IH(1)) (use zero in simp)
  moreover have "tabled ?M r ?r = tabled ?R r ?r"
  proof (rule tabled_cong)
    fix q assume "?r < q" "q < ?r + tree_size r"
    then show "roles ?M q = roles ?R q \<and> result_types ?M q = result_types ?R q"
      using other [of q] marks_outside [of q ?s s ?R] marks_outside [of q ?f f ?S] by simp
  qed
  moreover have "tabled ?R r ?r"
  proof (rule Cond.IH(2))
    fix q assume "?r < q" "q < ?r + tree_size r"
    then show "roles ?L q = (0, 0, 0)" using zero [of q] marks_outside(1) [of q p l T] by simp
  qed
  moreover have "tabled ?M s ?s = tabled ?S s ?s"
  proof (rule tabled_cong)
    fix q assume "?s < q" "q < ?s + tree_size s"
    then show "roles ?M q = roles ?S q \<and> result_types ?M q = result_types ?S q"
      using other [of q] marks_outside [of q ?f f ?S] by simp
  qed
  moreover have "tabled ?S s ?s"
  proof (rule Cond.IH(3))
    fix q assume "?s < q" "q < ?s + tree_size s"
    then show "roles ?R q = (0, 0, 0)"
      using zero [of q] marks_outside(1) [of q p l T] marks_outside(1) [of q ?r r ?L] by simp
  qed
  moreover have "tabled ?M f ?f = tabled ?F f ?f"
    by (rule tabled_cong) (use other in simp)
  moreover have "tabled ?F f ?f"
  proof (rule Cond.IH(4))
    fix q assume "?f < q" "q < ?f + tree_size f"
    then show "roles ?S q = (0, 0, 0)"
      using zero [of q] marks_outside(1) [of q p l T] marks_outside(1) [of q ?r r ?L]
        marks_outside(1) [of q ?s s ?R] by simp
  qed
  moreover have F: "roles ?F q = (0, 0, 0)" if "q \<in> {?r, ?s, ?f, ?e}" for q
    using that zero [of q] pos by (auto simp: marks_outside simp del: tree_size_pos)
  have "?r \<noteq> ?s" "?r \<noteq> ?f" "?s \<noteq> ?f" "?e \<noteq> ?s" "?e \<noteq> ?f" using pos by (simp_all del: tree_size_pos)
  then have "roles ?M ?r = (0, 0, 0)" "roles ?M ?s = (0, ?f, 0)" "roles ?M ?f = (0, 0, ?e)"
      "roles ?M ?e = (0, 0, 0)"
    using F [of ?r] F [of ?s] F [of ?f] F [of ?e] by (auto simp: Let_def roles_eq)
  moreover have "result_types ?M ?e = tree_type (Cond c l r s f)" by (simp add: Let_def)
  ultimately show ?case by (simp only: tabled.simps Let_def)
qed simp

lemma numeric_type: "well_typed visible t \<Longrightarrow> tree_type t = Int64Type \<or> tree_type t = DoubleType"
  by (induction t) (auto simp: join_types_def binary_type_def split: op.splits)

lemma note_unary:
  "op \<in> unary_ops \<Longrightarrow> note_op p op ((q, t) # os) T =
     Some ((q, if op \<in> to_double_ops then DoubleType else t) # os,
           set_type p (if op \<in> to_double_ops then DoubleType else t) T)"
  by (auto simp: note_op_def set_type_def op_sets)

lemma note_binary:
  "op \<in> binary_ops \<Longrightarrow> a = Int64Type \<or> a = DoubleType \<Longrightarrow>
     note_op p op ((q, b) # (q', a) # os) T =
     Some ((q', binary_type op a b) # os,
           set_type p (binary_type op a b)
             (if op = OpCoalesce then T\<lparr>fallback_end := (fallback_end T)(q := p)\<rparr> else T))"
  by (auto simp: note_op_def set_type_def op_sets binary_type_def join_types_def)

lemma note_leaf:
  "well_typed visible (Leaf op) \<Longrightarrow> note_op p op os T =
     Some ((p, tree_type (Leaf op)) # os, set_type p (tree_type (Leaf op)) T)"
  by (auto simp: note_op_def set_type_def split: op.splits)

lemma note_flatten:
  "well_typed visible t \<Longrightarrow>
     note_ops p (flatten t @ rest) os T = note_ops (p + tree_size t) rest ((p, tree_type t) # os) (marks t p T)"
proof (induction t arbitrary: p rest os T)
  case (Leaf op)
  then show ?case by (simp add: note_leaf del: well_typed.simps tree_type.simps)
next
  case (Unary op t)
  then show ?case by (simp add: note_unary)
next
  case (Binary op a b)
  then have "tree_type a = Int64Type \<or> tree_type a = DoubleType" using numeric_type [of visible a] by auto
  with Binary show ?case by (simp add: note_binary Let_def add.assoc)
next
  case (Cond c l r s f)
  then show ?case by (simp add: note_op_def set_type_def Let_def add.assoc)
qed

lemma new_tables_marks:
  assumes "program e = flatten t" and "well_typed visible t"
  shows "new_tables e = Some (marks t 0 no_jumps)" and "tabled (marks t 0 no_jumps) t 0"
    and "roles (marks t 0 no_jumps) 0 = (0, 0, 0)"
proof -
  show "new_tables e = Some (marks t 0 no_jumps)"
    using note_flatten [OF assms(2), of 0 "[]" "[]" no_jumps] by (simp add: new_tables_def assms(1))
  have "roles no_jumps q = (0, 0, 0)" for q by (simp add: roles_def no_jumps_def)
  then show "tabled (marks t 0 no_jumps) t 0" "roles (marks t 0 no_jumps) 0 = (0, 0, 0)"
    by (simp_all add: marks_tabled marks_outside)
qed

section \<open>Walking a subexpression\<close>

definition at_program :: "expression \<Rightarrow> nat \<Rightarrow> op list \<Rightarrow> bool" where
  "at_program e p ops \<longleftrightarrow>
     p + length ops \<le> length (program e) \<and> (\<forall>i<length ops. program e ! (p + i) = ops ! i)"

lemma at_program_append:
  "at_program e p (xs @ ys) \<longleftrightarrow> at_program e p xs \<and> at_program e (p + length xs) ys"
proof
  assume a: "at_program e p (xs @ ys)"
  then show "at_program e p xs \<and> at_program e (p + length xs) ys"
    unfolding at_program_def
    by (auto simp: nth_append add.assoc dest: spec [of _ "length xs + i" for i])
next
  assume a: "at_program e p xs \<and> at_program e (p + length xs) ys"
  have "program e ! (p + i) = (xs @ ys) ! i" if "i < length (xs @ ys)" for i
  proof (cases "i < length xs")
    case True
    with a show ?thesis by (simp add: at_program_def nth_append)
  next
    case False
    have "\<forall>j<length ys. program e ! (p + length xs + j) = ys ! j"
      using a by (simp add: at_program_def)
    moreover have "i - length xs < length ys" using False that by auto
    ultimately have "program e ! (p + length xs + (i - length xs)) = ys ! (i - length xs)" by blast
    with False show ?thesis by (simp add: nth_append)
  qed
  with a show "at_program e p (xs @ ys)" by (simp add: at_program_def)
qed

lemma at_program_single: "at_program e p [op] \<longleftrightarrow> p < length (program e) \<and> program e ! p = op"
  by (auto simp: at_program_def)

lemma at_program_tree:
  "at_program e p (flatten (Unary op t)) \<longleftrightarrow>
     at_program e p (flatten t) \<and> at_program e (p + tree_size t) [op]"
  "at_program e p (flatten (Binary op a b)) \<longleftrightarrow>
     at_program e p (flatten a) \<and> at_program e (p + tree_size a) (flatten b)
     \<and> at_program e (p + tree_size a + tree_size b) [op]"
  "at_program e p (flatten (Cond c l r s f)) \<longleftrightarrow>
     at_program e p (flatten l) \<and> at_program e (p + tree_size l) (flatten r)
     \<and> at_program e (p + tree_size l + tree_size r) (flatten s)
     \<and> at_program e (p + tree_size l + tree_size r + tree_size s) (flatten f)
     \<and> at_program e (p + tree_size l + tree_size r + tree_size s + tree_size f) [OpCase c]"
  by (simp_all add: at_program_append tree_size_def add.assoc)

lemma at_program_start:
  "at_program e p (flatten t) \<Longrightarrow> p < length (program e)"
  using tree_size_pos [of t] by (cases "flatten t") (auto simp: at_program_def tree_size_def simp del: tree_size_pos)

text \<open>What the loop does with the outcome of one operation.\<close>

definition resume ::
    "float_unit \<Rightarrow> expression \<Rightarrow> jump_tables \<Rightarrow> (semantic_column \<Rightarrow> number option) \<Rightarrow> progress option
     \<Rightarrow> (arithmetic_failure + number) option" where
  "resume fu e T columns r =
     Option.bind r (\<lambda>r. case r of
         Stop failure \<Rightarrow> Some (Inl failure)
       | Continue c \<Rightarrow> evaluate_row fu e T columns c
       | Demand column c \<Rightarrow>
           Option.bind (columns column) (\<lambda>v.
             Option.bind (supply_column e v c) (\<lambda>s. case s of
                 Inl failure \<Rightarrow> None
               | Inr c' \<Rightarrow> evaluate_row fu e T columns c')))"

lemma evaluate_row_step:
  "evaluate_row fu e T columns c =
     (if cursor_position c < expr_len e then resume fu e T columns (advance fu e T c)
      else map_option Inr (cursor_value e c))"
proof (cases "cursor_position c < expr_len e")
  case True
  show ?thesis
  proof (cases "advance fu e T c")
    case None
    with True show ?thesis
      by (simp add: evaluate_row.simps [of _ _ _ _ c] next_column.simps [of _ _ _ c] resume_def)
  next
    case (Some r)
    with True show ?thesis
    proof (cases r)
      case (Continue c')
      with Some True show ?thesis
        by (simp add: evaluate_row.simps [of _ _ _ _ c] next_column.simps [of _ _ _ c] resume_def
            evaluate_row.simps [of _ _ _ _ c', symmetric])
    qed (simp_all add: evaluate_row.simps [of _ _ _ _ c] next_column.simps [of _ _ _ c] resume_def)
  qed
next
  case False
  then show ?thesis
    by (simp add: evaluate_row.simps [of _ _ _ _ c] next_column.simps [of _ _ _ c])
qed

lemma advance_plain:
  "roles T p = (0, 0, 0) \<Longrightarrow> advance fu e T (at_cursor p st) = execute fu e T p st"
  by (simp add: advance_def roles_eq)

lemma resume_proceed:
  "resume fu e T columns (proceed p st r) =
     sequence r (\<lambda>v. evaluate_row fu e T columns (at_cursor (p + 1) (v # st)))"
  by (auto simp: resume_def proceed_def sequence_def split: option.split sum.split)

lemma execute_unary:
  "program e ! p = op \<Longrightarrow> op \<in> unary_ops \<Longrightarrow> execute fu e T p (v # st) = proceed p st (unary fu op v)"
  by (auto simp: execute_def op_sets)

lemma execute_binary:
  "program e ! p = op \<Longrightarrow> op \<in> binary_ops \<Longrightarrow>
     execute fu e T p (r # l # st) = proceed p st (combine fu op (result_types T p) l r)"
  by (auto simp: execute_def op_sets)

lemma sequence_assoc:
  "sequence (sequence r k) k' = sequence r (\<lambda>v. sequence (k v) k')"
  by (auto simp: sequence_def split: option.split sum.split)

lemma sequence_cong:
  "r = r' \<Longrightarrow> (\<And>v. r' = Some (Inr v) \<Longrightarrow> k v = k' v) \<Longrightarrow> sequence r k = sequence r' k'"
  by (auto simp: sequence_def split: option.split sum.split)

lemma walk_tree:
  assumes len: "expr_len e = length (program e)"
  shows "well_typed visible t \<Longrightarrow> tabled T t p \<Longrightarrow> at_program e p (flatten t) \<Longrightarrow>
    resume fu e T columns (execute fu e T p st) =
      sequence (eval_tree fu columns t) (\<lambda>v. evaluate_row fu e T columns (at_cursor (p + tree_size t) (v # st)))"
proof (induction t arbitrary: p st)
  case (Leaf op)
  then have op: "program e ! p = op" by (simp add: at_program_single)
  show ?case
  proof (cases op)
    case (OpColumn c)
    then show ?thesis
      using op by (auto simp: execute_def resume_def supply_column_def read_column_def split: option.split)
  qed (use Leaf op in \<open>simp_all add: execute_def resume_def\<close>)
next
  case (Unary op t)
  let ?q = "p + tree_size t"
  from Unary.prems have op: "?q < expr_len e" "program e ! ?q = op" "op \<in> unary_ops"
    by (simp_all add: at_program_tree at_program_single len del: flatten.simps)
  have "evaluate_row fu e T columns (at_cursor ?q (v # st)) =
      sequence (unary fu op v) (\<lambda>w. evaluate_row fu e T columns (at_cursor (?q + 1) (w # st)))" for v
    using op Unary.prems(2)
    by (simp add: evaluate_row_step [of _ _ _ _ "at_cursor ?q (v # st)"] advance_plain execute_unary resume_proceed)
  then show ?case
    using Unary.prems by (simp add: Unary.IH at_program_tree sequence_assoc del: flatten.simps)
next
  case (Binary op a b)
  let ?q = "p + tree_size a" let ?e = "?q + tree_size b" let ?k = "tree_type (Binary op a b)"
  let ?E = "\<lambda>q st. evaluate_row fu e T columns (at_cursor q st)"
  from Binary.prems have at: "at_program e p (flatten a)" "at_program e ?q (flatten b)"
    and op: "?e < expr_len e" "program e ! ?e = op" "op \<in> binary_ops"
    by (simp_all add: at_program_tree at_program_single len del: flatten.simps)
  have q: "?q < expr_len e" using at_program_start [OF at(2)] len by simp
  from Binary.prems have T: "tabled T a p" "tabled T b ?q" "roles T ?e = (0, 0, 0)" "result_types T ?e = ?k"
      "roles T ?q = (if op = OpCoalesce then ?e else 0, 0, 0)"
    and wt: "well_typed visible a" "well_typed visible b"
    by (simp_all add: Let_def)
  have fin: "?E ?e (y # x # st) = sequence (combine fu op ?k x y) (\<lambda>w. ?E (?e + 1) (w # st))" for x y
    using op T(3,4)
    by (simp add: evaluate_row_step [of _ _ _ _ "at_cursor ?e (y # x # st)"] advance_plain execute_binary
        resume_proceed)
  have second: "resume fu e T columns (execute fu e T ?q (x # st)) =
      sequence (sequence (eval_tree fu columns b) (combine fu op ?k x)) (\<lambda>w. ?E (?e + 1) (w # st))" for x
    using Binary.IH(2) [OF wt(2) T(2) at(2), of "x # st"] by (simp add: fin sequence_assoc)
  have "?E ?q (x # st) = sequence (if op = OpCoalesce \<and> x \<noteq> Null then Some (Inr (coerce fu x ?k))
      else sequence (eval_tree fu columns b) (combine fu op ?k x)) (\<lambda>w. ?E (?e + 1) (w # st))" for x
  proof -
    have "advance fu e T (at_cursor ?q (x # st)) =
        (if op = OpCoalesce \<and> x \<noteq> Null then Some (Continue (at_cursor (?e + 1) (coerce fu x ?k # st)))
         else execute fu e T ?q (x # st))"
      using T(4,5) by (auto simp: advance_def roles_eq split: if_splits)
    then show ?thesis
      using q second by (simp add: evaluate_row_step [of _ _ _ _ "at_cursor ?q (x # st)"] resume_def
          del: tree_type.simps)
  qed
  moreover have "?E (p + tree_size (Binary op a b)) st' = ?E (?e + 1) st'" for st' by (simp add: add.assoc)
  ultimately show ?case
    using Binary.IH(1) [OF wt(1) T(1) at(1), of st]
    by (simp add: sequence_assoc del: tree_type.simps tree_size_simps)
next
  case (Cond c l r s f)
  let ?qr = "p + tree_size l" let ?qs = "?qr + tree_size r" let ?qf = "?qs + tree_size s"
  let ?e = "?qf + tree_size f" let ?k = "tree_type (Cond c l r s f)"
  let ?E = "\<lambda>q st. evaluate_row fu e T columns (at_cursor q st)"
  from Cond.prems have at: "at_program e p (flatten l)" "at_program e ?qr (flatten r)"
      "at_program e ?qs (flatten s)" "at_program e ?qf (flatten f)"
    and op: "?e < expr_len e" "program e ! ?e = OpCase c"
    by (simp_all add: at_program_tree at_program_single len del: flatten.simps)
  have q: "?qr < expr_len e" "?qs < expr_len e" "?qf < expr_len e"
    using at_program_start at(2-4) len by simp_all
  from Cond.prems have T: "tabled T l p" "tabled T r ?qr" "tabled T s ?qs" "tabled T f ?qf"
      "roles T ?qr = (0, 0, 0)" "roles T ?qs = (0, ?qf, 0)" "roles T ?qf = (0, 0, ?e)"
      "roles T ?e = (0, 0, 0)" "result_types T ?e = ?k"
    and wt: "well_typed visible l" "well_typed visible r" "well_typed visible s" "well_typed visible f"
    by (simp_all add: Let_def)
  have fin: "?E ?e (v # st) = ?E (?e + 1) (coerce fu v ?k # st)" for v
    using op T(8,9)
    by (simp add: evaluate_row_step [of _ _ _ _ "at_cursor ?e (v # st)"] advance_plain execute_def resume_def
        del: tree_type.simps)
  have skip: "?E ?qf (v # st) = ?E (?e + 1) (coerce fu v ?k # st)" for v
  proof -
    have "0 < ?e" by simp
    then have "advance fu e T (at_cursor ?qf (v # st)) = Some (Continue (at_cursor (?e + 1) (coerce fu v ?k # st)))"
      using T(7,9) by (simp add: advance_def roles_eq)
    then show ?thesis
      using q by (simp add: evaluate_row_step [of _ _ _ _ "at_cursor ?qf (v # st)"] resume_def del: tree_type.simps)
  qed
  have choose: "?E ?qs (y # x # st) = sequence (if compare fu c x y then eval_tree fu columns s else eval_tree fu columns f)
      (\<lambda>v. ?E (?e + 1) (coerce fu v ?k # st))" for x y
  proof -
    have "0 < ?qf" "case_end T ?qf = ?e" using T(7) by (simp_all add: roles_eq)
    then have "advance fu e T (at_cursor ?qs (y # x # st)) =
        execute fu e T (if compare fu c x y then ?qs else ?qf) st"
      using T(6) op by (simp add: advance_def roles_eq)
    then show ?thesis
      using q Cond.IH(3) [OF wt(3) T(3) at(3), of st] Cond.IH(4) [OF wt(4) T(4) at(4), of st]
      by (simp add: evaluate_row_step [of _ _ _ _ "at_cursor ?qs (y # x # st)"] fin skip del: tree_type.simps)
  qed
  have right: "?E ?qr (x # st) = sequence (eval_tree fu columns r) (\<lambda>y. ?E ?qs (y # x # st))" for x
    using q T(5) Cond.IH(2) [OF wt(2) T(2) at(2), of "x # st"]
    by (simp add: evaluate_row_step [of _ _ _ _ "at_cursor ?qr (x # st)"] advance_plain)
  have "?E (p + tree_size (Cond c l r s f)) st' = ?E (?e + 1) st'" for st' by (simp add: add.assoc)
  then show ?case
    using Cond.IH(1) [OF wt(1) T(1) at(1), of st]
    by (simp add: right choose sequence_assoc del: tree_type.simps tree_size_simps)
qed

section \<open>Evaluation of validated programs\<close>

lemma evaluate_tree:
  assumes "program e = flatten t" and "well_typed visible t" and "expr_len e = length (program e)"
  shows "evaluate_expression fu e columns = eval_tree fu columns t"
proof -
  let ?T = "marks t 0 no_jumps"
  note T = new_tables_marks [OF assms(1,2)]
  have at: "at_program e 0 (flatten t)" by (simp add: at_program_def assms(1))
  have start: "new_cursor = at_cursor 0 []" by (simp add: new_cursor_def at_cursor_def)
  have "evaluate_row fu e ?T columns new_cursor = resume fu e ?T columns (execute fu e ?T 0 [])"
    using at_program_start [OF at] assms(3) T(3)
    by (simp add: evaluate_row_step [of _ _ _ _ "at_cursor 0 []"] start advance_plain)
  also have "\<dots> = sequence (eval_tree fu columns t) (\<lambda>v. evaluate_row fu e ?T columns (at_cursor (tree_size t) [v]))"
    using walk_tree [OF assms(3,2) T(2) at, of fu columns "[]"] by simp
  also have "\<dots> = eval_tree fu columns t"
    using assms(1,3) by (simp add: evaluate_row_step [of _ _ _ _ "at_cursor _ _"] cursor_value_def tree_size_def
        sequence_def split: option.split sum.split)
  finally show ?thesis by (simp add: evaluate_expression_def T(1))
qed

lemma validated_evaluation:
  assumes "validate e visible = Inr u" and "length (expr_ops e) = max_ops"
  obtains t where "program e = flatten t" and "well_typed (set visible) t" and "tree_type t = expr_type e"
    and "\<And>columns. evaluate_expression fu e columns = eval_tree fu columns t"
    and "expression_nullable e = tree_nullable t" and "stack_depth e = Some (tree_depth t)"
proof -
  obtain t where t: "program e = flatten t" "well_typed (set visible) t" "tree_type t = expr_type e"
    "0 < expr_len e" "expr_len e \<le> max_ops"
    using validated_program [OF assms(1)] .
  have len: "expr_len e = length (program e)" using t(5) assms(2) by (simp add: program_def)
  have "expression_nullable e = tree_nullable t"
    using nullable_flatten [OF t(2), of "[]" "[]"] t(4,5) by (simp add: expression_nullable_def t(1))
  moreover have "stack_depth e = Some (tree_depth t)"
    using depth_flatten [OF t(2), of "[]" 0 0] by (simp add: stack_depth_def t(1))
  ultimately show thesis using that [OF t(1,2,3) evaluate_tree [OF t(1,2) len]] by simp
qed

lemma combine_sound:
  assumes "op \<in> binary_ops" and "op \<in> integer_only_ops \<longrightarrow> a = Int64Type \<and> b = Int64Type"
    and "fits a x" and "fits b y" and "a = Int64Type \<or> a = DoubleType" and "b = Int64Type \<or> b = DoubleType"
    and "op = OpCoalesce \<longrightarrow> x = Null"
  shows "\<exists>r. combine fu op (binary_type op a b) x y = Some r
    \<and> (\<forall>w. r = Inr w \<longrightarrow> fits (binary_type op a b) w
         \<and> (w = Null \<longrightarrow> (if op = OpCoalesce then x = Null \<and> y = Null
              else op = OpSafeDivide \<or> op = OpNullIf \<or> x = Null \<or> y = Null)))"
proof -
  have joined: "b = binary_type op a b \<or> binary_type op a b = DoubleType"
      "a = binary_type op a b \<or> binary_type op a b = DoubleType"
    using assms(5,6) by (auto simp: binary_type_def join_types_def)
  consider "op = OpCoalesce" | "op = OpNullIf" | "op \<notin> {OpCoalesce, OpNullIf}" by blast
  then show ?thesis
  proof cases
    case 1
    then show ?thesis using assms joined fits_coerce by (auto simp: combine_def)
  next
    case 2
    have "fits (binary_type op a b) (coerce fu x (binary_type op a b))"
      using assms(3) joined fits_coerce by auto
    with 2 show ?thesis by (auto simp: combine_def null_if_def Let_def)
  next
    case 3
    then show ?thesis using binary_sound [OF assms(1) _ assms(2,3,4), of fu] by (auto simp: combine_def)
  qed
qed

lemma eval_tree_sound:
  assumes "\<forall>c \<in> visible. read_column columns c \<noteq> None"
  shows "well_typed visible t \<Longrightarrow> \<exists>r. eval_tree fu columns t = Some r
    \<and> (\<forall>v. r = Inr v \<longrightarrow> fits (tree_type t) v \<and> (\<not> tree_nullable t \<longrightarrow> v \<noteq> Null))"
proof (induction t)
  case (Leaf op)
  show ?case
  proof (cases op)
    case (OpColumn c)
    with Leaf assms have "read_column columns c \<noteq> None" by auto
    with OpColumn show ?thesis by (auto simp: read_column_def split: option.splits if_splits)
  qed (use Leaf in auto)
next
  case (Unary op t)
  then obtain r where r: "eval_tree fu columns t = Some r"
    "\<And>v. r = Inr v \<Longrightarrow> fits (tree_type t) v \<and> (\<not> tree_nullable t \<longrightarrow> v \<noteq> Null)" by auto
  show ?case
  proof (cases r)
    case (Inr v)
    with r(2) Unary.prems unary_sound [of op "tree_type t" v fu] show ?thesis by (auto simp: r(1))
  qed (simp add: r(1))
next
  case (Binary op a b)
  then have wt: "well_typed visible a" "well_typed visible b" by auto
  from Binary.IH(1) [OF wt(1)] obtain r where r: "eval_tree fu columns a = Some r"
    "\<And>v. r = Inr v \<Longrightarrow> fits (tree_type a) v \<and> (\<not> tree_nullable a \<longrightarrow> v \<noteq> Null)" by auto
  from Binary.IH(2) [OF wt(2)] obtain r' where r': "eval_tree fu columns b = Some r'"
    "\<And>v. r' = Inr v \<Longrightarrow> fits (tree_type b) v \<and> (\<not> tree_nullable b \<longrightarrow> v \<noteq> Null)" by auto
  show ?case
  proof (cases r)
    case (Inl failure)
    then show ?thesis by (simp add: r(1))
  next
    case x: (Inr x)
    show ?thesis
    proof (cases "op = OpCoalesce \<and> x \<noteq> Null")
      case True
      have "tree_type a = binary_type op (tree_type a) (tree_type b) \<or> binary_type op (tree_type a) (tree_type b) = DoubleType"
        using numeric_type [OF wt(1)] by (auto simp: binary_type_def join_types_def)
      with True x r fits_coerce show ?thesis by auto
    next
      case False
      show ?thesis
      proof (cases r')
        case (Inl failure)
        with False x show ?thesis by (auto simp: r(1) r'(1))
      next
        case (Inr y)
        have "\<exists>s. combine fu op (binary_type op (tree_type a) (tree_type b)) x y = Some s
            \<and> (\<forall>w. s = Inr w \<longrightarrow> fits (binary_type op (tree_type a) (tree_type b)) w
               \<and> (w = Null \<longrightarrow> (if op = OpCoalesce then x = Null \<and> y = Null
                    else op = OpSafeDivide \<or> op = OpNullIf \<or> x = Null \<or> y = Null)))"
          using Binary.prems x Inr False r(2) r'(2) numeric_type [OF wt(1)] numeric_type [OF wt(2)]
          by (intro combine_sound) auto
        then obtain s where s: "combine fu op (binary_type op (tree_type a) (tree_type b)) x y = Some s"
          "\<And>w. s = Inr w \<Longrightarrow> fits (binary_type op (tree_type a) (tree_type b)) w
             \<and> (w = Null \<longrightarrow> (if op = OpCoalesce then x = Null \<and> y = Null
                  else op = OpSafeDivide \<or> op = OpNullIf \<or> x = Null \<or> y = Null))" by blast
        have "eval_tree fu columns (Binary op a b) = Some s"
          using False x Inr by (auto simp: r(1) r'(1) s(1))
        moreover have "fits (tree_type (Binary op a b)) w \<and> (\<not> tree_nullable (Binary op a b) \<longrightarrow> w \<noteq> Null)"
          if "s = Inr w" for w
          using s(2) [OF that] r(2) [OF x] r'(2) [OF Inr] by (auto split: if_splits)
        ultimately show ?thesis by blast
      qed
    qed
  qed
next
  case (Cond c l r s f)
  then have wt: "well_typed visible l" "well_typed visible r" "well_typed visible s" "well_typed visible f" by auto
  from Cond.IH(1) [OF wt(1)] obtain rl where l: "eval_tree fu columns l = Some rl" by auto
  from Cond.IH(2) [OF wt(2)] obtain rr where rr: "eval_tree fu columns r = Some rr" by auto
  show ?case
  proof (cases "\<exists>x y. rl = Inr x \<and> rr = Inr y")
    case True
    then obtain x y where xy: "rl = Inr x" "rr = Inr y" by blast
    let ?k = "join_types (tree_type s) (tree_type f)" and ?t = "if compare fu c x y then s else f"
    have "\<exists>r. eval_tree fu columns ?t = Some r
        \<and> (\<forall>v. r = Inr v \<longrightarrow> fits (tree_type ?t) v \<and> (\<not> tree_nullable ?t \<longrightarrow> v \<noteq> Null))"
      using Cond.IH(3) [OF wt(3)] Cond.IH(4) [OF wt(4)] by simp
    then obtain q where q: "eval_tree fu columns ?t = Some q"
      "\<And>v. q = Inr v \<Longrightarrow> fits (tree_type ?t) v \<and> (\<not> tree_nullable ?t \<longrightarrow> v \<noteq> Null)" by blast
    have k: "tree_type ?t = ?k \<or> ?k = DoubleType"
      using numeric_type [OF wt(3)] numeric_type [OF wt(4)] by (auto simp: join_types_def)
    have ev: "eval_tree fu columns (Cond c l r s f) = sequence (Some q) (\<lambda>v. Some (Inr (coerce fu v ?k)))"
      using q(1) by (auto simp: l rr xy)
    show ?thesis
    proof (cases q)
      case (Inl failure)
      with ev show ?thesis by simp
    next
      case (Inr v)
      with ev q(2) [OF Inr] k fits_coerce show ?thesis by auto
    qed
  next
    case False
    then show ?thesis by (cases rl; cases rr) (auto simp: l rr)
  qed
qed

end
