(* ===== verification/Scalar_Batch.thy ===== *)
theory Scalar_Batch
  imports Scalar_Evaluation
begin

text \<open>
  Batch evaluation of numeric expressions (src/query/scalar.rs). Inputs borrow a column's
  values and a bitmap of validity bits; programs without COALESCE, NULLIF and CASE run one
  operation at a time over all rows, the others run the cursor row by row. A stack slot
  is a type and one lane per row, the lane's validity beside its bits; the bits of an
  invalid lane mean nothing.
\<close>

section \<open>Inputs and outputs\<close>

definition max_rows_per_batch :: nat where "max_rows_per_batch = 256"

datatype numeric_values = Int64Values "u64 list" | DoubleValues "u64 list" | BitsValues "u64 list" data_type

fun values_of :: "numeric_values \<Rightarrow> u64 list" where
  "values_of (Int64Values vs) = vs"
| "values_of (DoubleValues vs) = vs"
| "values_of (BitsValues vs k) = vs"

fun kind_of :: "numeric_values \<Rightarrow> data_type" where
  "kind_of (Int64Values vs) = Int64Type"
| "kind_of (DoubleValues vs) = DoubleType"
| "kind_of (BitsValues vs k) = k"

record numeric_input =
  input_column :: semantic_column
  input_values :: numeric_values
  input_valid :: "u64 list option"

definition input_len :: "numeric_input \<Rightarrow> nat" where
  "input_len i = length (values_of (input_values i))"

definition valid_bit :: "u64 list \<Rightarrow> nat \<Rightarrow> bool" where
  "valid_bit words row = bit (words ! (row div 64)) (row mod 64)"

definition all_rows_valid :: "nat \<Rightarrow> u64 list \<Rightarrow> bool" where
  "all_rows_valid rows words =
     list_all (\<lambda>i. let used = min (rows - i * 64) 64; m = drop_bit (64 - used) (- 1) in words ! i AND m = m)
       [0..<length words]"

definition numeric_input_new ::
    "semantic_column \<Rightarrow> numeric_values \<Rightarrow> u64 list option \<Rightarrow> db_error + numeric_input" where
  "numeric_input_new column vs valid =
     (let kind = kind_of vs; rows = length (values_of vs) in
      if kind \<notin> {Int64Type, DoubleType} \<or> column_kind column \<noteq> kind \<or> max_rows_per_batch < rows
      then Inl (Corrupt ''scalar input type or row extent'')
      else if (case valid of None \<Rightarrow> False | Some words \<Rightarrow> length words \<noteq> (rows + 63) div 64)
      then Inl (Corrupt ''scalar validity extent'')
      else
        let all_valid = (case valid of None \<Rightarrow> True | Some words \<Rightarrow> all_rows_valid rows words) in
        if \<not> column_nullable column \<and> \<not> all_valid
        then Inl (Corrupt ''nonnull scalar input contains NULL'')
        else Inr \<lparr>input_column = column, input_values = vs,
               input_valid = (if all_valid then None else valid)\<rparr>)"

type_synonym lane = "bool \<times> u64"

record numeric_output =
  out_values :: "u64 list"
  out_valid :: "bool list"

definition output_from_bits :: "u64 list \<Rightarrow> bool list \<Rightarrow> db_error + numeric_output" where
  "output_from_bits vs valid =
     (if max_rows_per_batch < length vs then Inl (Corrupt ''numeric output row bound'')
      else Inr \<lparr>out_values = vs, out_valid = valid\<rparr>)"

text \<open>\<open>None\<close> is the failed assertion on a row outside the output.\<close>

definition output_value :: "numeric_output \<Rightarrow> nat \<Rightarrow> u64 option option" where
  "output_value out row =
     (if row < length (out_values out)
      then Some (if out_valid out ! row then Some (out_values out ! row) else None) else None)"

definition number_of :: "data_type \<Rightarrow> lane \<Rightarrow> number" where
  "number_of kind l = (if fst l then (if kind = Int64Type then Integer (snd l) else Double (snd l)) else Null)"

section \<open>Row inputs\<close>

definition input_row_valid :: "numeric_input \<Rightarrow> nat \<Rightarrow> bool" where
  "input_row_valid i row = (case input_valid i of None \<Rightarrow> True | Some words \<Rightarrow> valid_bit words row)"

definition input_number :: "numeric_input \<Rightarrow> nat \<Rightarrow> number" where
  "input_number i row =
     (if \<not> input_row_valid i row then Null
      else (case input_values i of
              Int64Values vs \<Rightarrow> Integer (vs ! row)
            | DoubleValues vs \<Rightarrow> Double (vs ! row)
            | BitsValues vs k \<Rightarrow> if k = Int64Type then Integer (vs ! row) else Double (vs ! row)))"

definition find_input :: "numeric_input option list \<Rightarrow> semantic_column \<Rightarrow> numeric_input option" where
  "find_input columns c = List.find (\<lambda>i. input_column i = c) (List.map_filter id columns)"

definition row_columns :: "numeric_input option list \<Rightarrow> nat \<Rightarrow> semantic_column \<Rightarrow> number option" where
  "row_columns columns row c = map_option (\<lambda>i. input_number i row) (find_input columns c)"

section \<open>Operations over lanes\<close>

fun map_lanes :: "('a \<Rightarrow> (arithmetic_failure + 'b) option) \<Rightarrow> 'a list \<Rightarrow> (arithmetic_failure + 'b list) option" where
  "map_lanes g [] = Some (Inr [])"
| "map_lanes g (x # xs) =
     (case g x of
        None \<Rightarrow> None
      | Some (Inl failure) \<Rightarrow> Some (Inl failure)
      | Some (Inr y) \<Rightarrow> map_result (\<lambda>ys. y # ys) (map_lanes g xs))"

definition lane_unary :: "float_unit \<Rightarrow> op \<Rightarrow> data_type \<Rightarrow> lane \<Rightarrow> (arithmetic_failure + lane) option" where
  "lane_unary fu op kind l =
     (if \<not> fst l then Some (Inr l)
      else if op \<in> to_double_ops then
        map_result (Pair True)
          (double_unary fu op (if kind = Int64Type then f_of_int fu (snd l) else snd l))
      else if kind = Int64Type then map_result (Pair True) (integer_unary op (snd l))
      else if kind = DoubleType then
        (case op of
           OpAbs \<Rightarrow> Some (Inr (True, double_abs (snd l)))
         | OpNegate \<Rightarrow> Some (Inr (True, double_neg (snd l)))
         | OpSign \<Rightarrow> Some (Inr (True, sign_double (snd l)))
         | _ \<Rightarrow> None)
      else None)"

definition lane_binary :: "float_unit \<Rightarrow> op \<Rightarrow> data_type \<Rightarrow> data_type \<Rightarrow> lane \<times> lane \<Rightarrow> (arithmetic_failure + lane) option" where
  "lane_binary fu op left_kind right_kind p =
     (let l = fst p; r = snd p in
      if \<not> (fst l \<and> fst r) then Some (Inr (False, 0))
      else if op \<notin> dividing_ops \<and> left_kind = Int64Type \<and> right_kind = Int64Type
      then map_result (Pair True) (integer_binary op (snd l) (snd r))
      else
        (let a = (if left_kind = Int64Type then f_of_int fu (snd l) else snd l);
             b = (if right_kind = Int64Type then f_of_int fu (snd r) else snd r) in
         case double_binary fu op a b of
           Some (Inl failure) \<Rightarrow>
             if failure \<in> {FailDivide, FailDivideByZero} \<and> op = OpSafeDivide then Some (Inr (False, 0))
             else Some (Inl failure)
         | d \<Rightarrow> map_result (Pair True) d))"

type_synonym slot = "data_type \<times> lane list"

definition run_op ::
    "float_unit \<Rightarrow> numeric_input option list \<Rightarrow> nat list \<Rightarrow> op \<Rightarrow> slot list \<Rightarrow> (arithmetic_failure + slot list) option" where
  "run_op fu columns rows op slots =
     (case op of
        OpColumn c \<Rightarrow>
          (case find_input columns c of
             None \<Rightarrow> None
           | Some i \<Rightarrow> Some (Inr ((column_kind c,
               map (\<lambda>row. if input_row_valid i row then (True, values_of (input_values i) ! row) else (False, 0)) rows)
               # slots)))
      | OpInteger n \<Rightarrow> Some (Inr ((Int64Type, map (\<lambda>_. (True, n)) rows) # slots))
      | OpNull \<Rightarrow> Some (Inr ((Int64Type, map (\<lambda>_. (False, 0)) rows) # slots))
      | OpDouble bits \<Rightarrow> Some (Inr ((DoubleType, map (\<lambda>_. (True, bits)) rows) # slots))
      | _ \<Rightarrow>
          if op \<in> unary_ops then
            (case slots of
               (kind, lanes) # rest \<Rightarrow>
                 map_result (\<lambda>lanes. (if op \<in> to_double_ops then DoubleType else kind, lanes) # rest)
                   (map_lanes (lane_unary fu op kind) lanes)
             | [] \<Rightarrow> None)
          else if op \<in> binary_ops - {OpCoalesce, OpNullIf} then
            (case slots of
               (right_kind, right) # (left_kind, left) # rest \<Rightarrow>
                 map_result (\<lambda>lanes.
                     (if op \<notin> dividing_ops \<and> left_kind = Int64Type \<and> right_kind = Int64Type
                      then left_kind else DoubleType, lanes) # rest)
                   (map_lanes (lane_binary fu op left_kind right_kind) (zip left right))
             | _ \<Rightarrow> None)
          else None)"

fun run_ops ::
    "float_unit \<Rightarrow> numeric_input option list \<Rightarrow> nat list \<Rightarrow> op list \<Rightarrow> slot list \<Rightarrow> (arithmetic_failure + slot list) option" where
  "run_ops fu columns rows [] slots = Some (Inr slots)"
| "run_ops fu columns rows (op # ops) slots =
     (case run_op fu columns rows op slots of
        None \<Rightarrow> None
      | Some (Inl failure) \<Rightarrow> Some (Inl failure)
      | Some (Inr slots) \<Rightarrow> run_ops fu columns rows ops slots)"

section \<open>Batches\<close>

definition lane_of_number :: "number \<Rightarrow> lane" where
  "lane_of_number v = (case v of Null \<Rightarrow> (False, 0) | Integer n \<Rightarrow> (True, n) | Double x \<Rightarrow> (True, x))"

definition evaluate_conditional ::
    "float_unit \<Rightarrow> expression \<Rightarrow> numeric_input option list \<Rightarrow> nat list \<Rightarrow> (arithmetic_failure + lane list) option" where
  "evaluate_conditional fu e columns rows =
     map_lanes (\<lambda>row. map_result lane_of_number (evaluate_expression fu e (row_columns columns row))) rows"

definition unique_inputs :: "numeric_input option list \<Rightarrow> bool" where
  "unique_inputs columns = distinct (map input_column (List.map_filter id columns))"

definition evaluate_batch ::
    "float_unit \<Rightarrow> expression \<Rightarrow> numeric_input option list \<Rightarrow> nat \<Rightarrow> nat \<Rightarrow> nat \<Rightarrow> (arithmetic_failure + numeric_output) option" where
  "evaluate_batch fu e columns start end_row scratch =
     (if \<not> (start < end_row \<and> end_row \<le> max_rows_per_batch) then None
      else if \<not> (length columns \<le> max_row_values
          \<and> (case stack_depth e of None \<Rightarrow> False | Some d \<Rightarrow> d \<le> scratch div (end_row - start))) then None
      else if \<not> (list_all (\<lambda>i. end_row \<le> input_len i) (List.map_filter id columns) \<and> unique_inputs columns) then None
      else
        map_result (\<lambda>lanes. \<lparr>out_values = map snd lanes, out_valid = map fst lanes\<rparr>)
          (if requires_ordered_evaluation e then evaluate_conditional fu e columns [start..<end_row]
           else (case run_ops fu columns [start..<end_row] (program e) [] of
                   None \<Rightarrow> None
                 | Some (Inl failure) \<Rightarrow> Some (Inl failure)
                 | Some (Inr [(kind, lanes)]) \<Rightarrow> if kind = expr_type e then Some (Inr lanes) else None
                 | Some (Inr _) \<Rightarrow> None)))"

definition evaluate_constant :: "float_unit \<Rightarrow> expression \<Rightarrow> (arithmetic_failure + number) option" where
  "evaluate_constant fu e =
     (case evaluate_batch fu e [] 0 1 max_ops of
        None \<Rightarrow> None
      | Some (Inl failure) \<Rightarrow> Some (Inl failure)
      | Some (Inr out) \<Rightarrow>
          map_option (\<lambda>v. Inr (case v of
              None \<Rightarrow> Null
            | Some bits \<Rightarrow> if expr_type e = Int64Type then Integer bits else Double bits))
            (output_value out 0))"

section \<open>Lanes are numbers\<close>

lemma map_result_comp: "map_result f (map_result g r) = map_result (\<lambda>x. f (g x)) r"
  by (cases r; cases "the r") (auto simp: map_result_def)

lemma map_result_cong: "(\<And>x. f x = g x) \<Longrightarrow> map_result f r = map_result g r"
  by presburger

lemma lane_unary_number:
  assumes "op \<in> unary_ops" and "kind = Int64Type \<or> kind = DoubleType"
  shows "map_result (number_of (if op \<in> to_double_ops then DoubleType else kind)) (lane_unary fu op kind l)
    = unary fu op (number_of kind l)"
  using assms
  by (auto simp: lane_unary_def unary_def number_of_def map_result_comp unary_ops_def)

text \<open>SAFE_DIVIDE turns its own division failure into NULL, in a lane as in a number.\<close>

lemma double_lane:
  "map_result (number_of DoubleType) (case d of
       Some (Inl failure) \<Rightarrow>
         if failure \<in> {FailDivide, FailDivideByZero} \<and> op = OpSafeDivide then Some (Inr (False, 0))
         else Some (Inl failure)
     | d \<Rightarrow> map_result (Pair True) d)
   = (case d of
       Some (Inl failure) \<Rightarrow>
         if failure \<in> {FailDivide, FailDivideByZero} \<and> op = OpSafeDivide then Some (Inr Null)
         else Some (Inl failure)
     | d \<Rightarrow> map_result Double d)"
  by (cases d; cases "the d") (auto simp: number_of_def)

lemma lane_binary_number:
  assumes "op \<in> binary_ops - {OpCoalesce, OpNullIf}"
    and "a = Int64Type \<or> a = DoubleType" and "b = Int64Type \<or> b = DoubleType"
  shows "map_result (number_of (if op \<notin> dividing_ops \<and> a = Int64Type \<and> b = Int64Type then a else DoubleType))
      (lane_binary fu op a b (l, r))
    = binary fu op (number_of a l) (number_of b r)"
proof (cases "fst l \<and> fst r")
  case False
  then show ?thesis by (auto simp: lane_binary_def binary_def number_of_def)
next
  case True
  let ?d = "double_binary fu op (if a = Int64Type then f_of_int fu (snd l) else snd l)
      (if b = Int64Type then f_of_int fu (snd r) else snd r)"
  show ?thesis
  proof (cases "op \<notin> dividing_ops \<and> a = Int64Type \<and> b = Int64Type")
    case i: True
    with True show ?thesis by (simp add: lane_binary_def binary_def number_of_def map_result_comp)
  next
    case d: False
    show ?thesis
      using True d assms(2,3) double_lane
      by (auto simp: lane_binary_def binary_def number_of_def Let_def)
  qed
qed

lemma map_lanes_Inr:
  "map_lanes g xs = Some (Inr ys) \<longleftrightarrow>
     length ys = length xs \<and> (\<forall>i<length xs. g (xs ! i) = Some (Inr (ys ! i)))"
proof (induction xs arbitrary: ys)
  case Nil
  then show ?case by auto
next
  case (Cons x xs)
  show ?case
  proof
    assume "map_lanes g (x # xs) = Some (Inr ys)"
    then obtain y zs where "g x = Some (Inr y)" "map_lanes g xs = Some (Inr zs)" "ys = y # zs"
      by (auto simp: map_result_def split: option.splits sum.splits) (metis map_sum.simps old.sum.exhaust sum.inject(2) sum.distinct(1))
    then show "length ys = length (x # xs) \<and> (\<forall>i<length (x # xs). g ((x # xs) ! i) = Some (Inr (ys ! i)))"
      using Cons.IH [of zs] by (auto simp: nth_Cons split: nat.split)
  next
    assume a: "length ys = length (x # xs) \<and> (\<forall>i<length (x # xs). g ((x # xs) ! i) = Some (Inr (ys ! i)))"
    then obtain y zs where ys: "ys = y # zs" by (cases ys) auto
    from a have "g x = Some (Inr y)" by (auto simp: ys)
    moreover have "\<forall>i<length xs. g (xs ! i) = Some (Inr (zs ! i))"
    proof (intro allI impI)
      fix i assume "i < length xs"
      then show "g (xs ! i) = Some (Inr (zs ! i))" using a [THEN conjunct2, THEN spec, of "Suc i"] by (simp add: ys)
    qed
    ultimately show "map_lanes g (x # xs) = Some (Inr ys)" using Cons.IH [of zs] a by (simp add: ys)
  qed
qed

lemma map_lanes_outcome:
  assumes "\<And>i. i < length xs \<Longrightarrow> \<exists>r. g (xs ! i) = Some r"
  obtains (lanes) ys where "map_lanes g xs = Some (Inr ys)" and "length ys = length xs"
      and "\<And>i. i < length xs \<Longrightarrow> g (xs ! i) = Some (Inr (ys ! i))"
  | (failed) f i where "map_lanes g xs = Some (Inl f)" and "i < length xs" and "g (xs ! i) = Some (Inl f)"
proof -
  have "(\<exists>ys. map_lanes g xs = Some (Inr ys)) \<or> (\<exists>f i. map_lanes g xs = Some (Inl f) \<and> i < length xs \<and> g (xs ! i) = Some (Inl f))"
    using assms
  proof (induction xs)
    case (Cons x xs)
    from Cons.prems [of 0] obtain r where r: "g x = Some r" by auto
    have "\<exists>r. g (xs ! i) = Some r" if "i < length xs" for i using Cons.prems [of "Suc i"] that by simp
    note ih = Cons.IH [OF this]
    show ?case
    proof (cases r)
      case (Inl f)
      then have "map_lanes g (x # xs) = Some (Inl f) \<and> 0 < length (x # xs) \<and> g ((x # xs) ! 0) = Some (Inl f)"
        by (simp add: r)
      then show ?thesis by blast
    next
      case (Inr y)
      from ih consider ys where "map_lanes g xs = Some (Inr ys)"
        | f i where "map_lanes g xs = Some (Inl f)" "i < length xs" "g (xs ! i) = Some (Inl f)" by blast
      then show ?thesis
      proof cases
        case 1
        with Inr show ?thesis by (simp add: r)
      next
        case 2
        with Inr have "map_lanes g (x # xs) = Some (Inl f) \<and> Suc i < length (x # xs) \<and> g ((x # xs) ! Suc i) = Some (Inl f)"
          by (simp add: r)
        then show ?thesis by blast
      qed
    qed
  qed simp
  then show thesis using lanes failed map_lanes_Inr by metis
qed

section \<open>Inputs that are ready\<close>

text \<open>What \<open>numeric_input_new\<close> establishes.\<close>

definition input_good :: "numeric_input \<Rightarrow> bool" where
  "input_good i \<longleftrightarrow>
     kind_of (input_values i) \<in> {Int64Type, DoubleType}
     \<and> column_kind (input_column i) = kind_of (input_values i)
     \<and> input_len i \<le> max_rows_per_batch
     \<and> (\<not> column_nullable (input_column i) \<longrightarrow> input_valid i = None)"

lemma numeric_input_new_good:
  "numeric_input_new column vs valid = Inr i \<Longrightarrow> input_good i \<and> input_column i = column \<and> input_values i = vs"
  by (auto simp: numeric_input_new_def input_good_def input_len_def Let_def split: if_splits)

definition inputs_ready :: "numeric_input option list \<Rightarrow> semantic_column set \<Rightarrow> nat \<Rightarrow> bool" where
  "inputs_ready columns visible end_row \<longleftrightarrow>
     (\<forall>c \<in> visible. \<exists>i. find_input columns c = Some i)
     \<and> (\<forall>i. Some i \<in> set columns \<longrightarrow> input_good i \<and> end_row \<le> input_len i)"

lemma find_input_member:
  assumes "find_input columns c = Some i"
  shows "Some i \<in> set columns" and "input_column i = c"
proof -
  from assms have "i \<in> set (List.map_filter id columns)" "input_column i = c"
    by (auto simp: find_input_def find_Some_iff)
  then show "Some i \<in> set columns" "input_column i = c"
    by (auto simp: List.map_filter_def)
qed

lemma ready_column:
  assumes "inputs_ready columns visible end_row" and "c \<in> visible"
  obtains i where "find_input columns c = Some i" and "input_good i" and "input_column i = c"
    and "\<And>row. read_column (row_columns columns row) c = Some (Inr (input_number i row))"
    and "\<And>row. input_number i row = number_of (column_kind c)
      (if input_row_valid i row then (True, values_of (input_values i) ! row) else (False, 0))"
proof -
  obtain i where i: "find_input columns c = Some i" using assms by (auto simp: inputs_ready_def)
  note m = find_input_member [OF i]
  have good: "input_good i" using assms(1) m by (auto simp: inputs_ready_def)
  have number: "input_number i row = number_of (column_kind c)
      (if input_row_valid i row then (True, values_of (input_values i) ! row) else (False, 0))" for row
    using good m(2) by (cases "input_values i") (auto simp: input_number_def number_of_def input_good_def)
  have "read_column (row_columns columns row) c = Some (Inr (input_number i row))" for row
  proof -
    have "fits (column_kind c) (input_number i row)"
      using good m(2) by (auto simp: number number_of_def input_good_def)
    moreover have "input_number i row = Null \<longrightarrow> column_nullable c"
      using good m(2) by (auto simp: number number_of_def input_good_def input_row_valid_def split: if_splits option.splits)
    ultimately show ?thesis by (simp add: read_column_def row_columns_def i)
  qed
  with i good m(2) number show thesis by (intro that)
qed

section \<open>A batch computes its rows\<close>

fun unordered :: "tree \<Rightarrow> bool" where
  "unordered (Leaf op) \<longleftrightarrow> True"
| "unordered (Unary op t) \<longleftrightarrow> unordered t"
| "unordered (Binary op a b) \<longleftrightarrow> op \<notin> {OpCoalesce, OpNullIf} \<and> unordered a \<and> unordered b"
| "unordered (Cond c l r s f) \<longleftrightarrow> False"

lemma unordered_flatten:
  "well_typed visible t \<Longrightarrow>
     (\<forall>op \<in> set (flatten t). op \<noteq> OpCoalesce \<and> op \<noteq> OpNullIf \<and> (\<forall>c. op \<noteq> OpCase c)) \<Longrightarrow> unordered t"
  by (induction t) auto

lemma unordered_program:
  assumes "program e = flatten t" and "well_typed visible t" and "\<not> requires_ordered_evaluation e"
  shows "unordered t"
  using assms by (intro unordered_flatten) (auto simp: requires_ordered_evaluation_def split: op.splits)

definition slot_agrees :: "float_unit \<Rightarrow> numeric_input option list \<Rightarrow> nat list \<Rightarrow> tree \<Rightarrow> slot \<Rightarrow> bool" where
  "slot_agrees fu columns rows t s \<longleftrightarrow>
     fst s = tree_type t \<and> length (snd s) = length rows
     \<and> (\<forall>i<length rows. eval_tree fu (row_columns columns (rows ! i)) t = Some (Inr (number_of (fst s) (snd s ! i))))"

definition row_fails :: "float_unit \<Rightarrow> numeric_input option list \<Rightarrow> nat list \<Rightarrow> tree \<Rightarrow> arithmetic_failure \<Rightarrow> bool" where
  "row_fails fu columns rows t f \<longleftrightarrow>
     (\<exists>i<length rows. eval_tree fu (row_columns columns (rows ! i)) t = Some (Inl f))"

text \<open>Running a subexpression leaves its slot on the stack, or stops where some row fails.\<close>

definition runs ::
    "float_unit \<Rightarrow> numeric_input option list \<Rightarrow> nat list \<Rightarrow> tree \<Rightarrow> bool" where
  "runs fu columns rows t \<longleftrightarrow>
     (\<exists>s. slot_agrees fu columns rows t s
        \<and> (\<forall>rest slots. run_ops fu columns rows (flatten t @ rest) slots = run_ops fu columns rows rest (s # slots)))
     \<or> (\<exists>f. row_fails fu columns rows t f
        \<and> (\<forall>rest slots. run_ops fu columns rows (flatten t @ rest) slots = Some (Inl f)))"

lemma runsI_slot:
  assumes "slot_agrees fu columns rows t s"
    and "\<And>rest slots. run_ops fu columns rows (flatten t @ rest) slots = run_ops fu columns rows rest (s # slots)"
  shows "runs fu columns rows t"
  unfolding runs_def using assms by blast

lemma runsI_fails:
  assumes "row_fails fu columns rows t f"
    and "\<And>rest slots. run_ops fu columns rows (flatten t @ rest) slots = Some (Inl f)"
  shows "runs fu columns rows t"
  unfolding runs_def using assms by blast

lemma runsE:
  assumes "runs fu columns rows t"
  obtains (slot) kind lanes where "kind = tree_type t" and "length lanes = length rows"
      and "\<And>i. i < length rows \<Longrightarrow> eval_tree fu (row_columns columns (rows ! i)) t = Some (Inr (number_of kind (lanes ! i)))"
      and "\<And>rest slots. run_ops fu columns rows (flatten t @ rest) slots = run_ops fu columns rows rest ((kind, lanes) # slots)"
  | (fails) f i where "i < length rows" and "eval_tree fu (row_columns columns (rows ! i)) t = Some (Inl f)"
      and "\<And>rest slots. run_ops fu columns rows (flatten t @ rest) slots = Some (Inl f)"
  using assms unfolding runs_def slot_agrees_def row_fails_def by (metis prod.collapse)

lemma fits_number_of: "kind = Int64Type \<or> kind = DoubleType \<Longrightarrow> fits kind (number_of kind l)"
  by (auto simp: number_of_def)

lemma run_unary:
  "op \<in> unary_ops \<Longrightarrow> run_op fu columns rows op ((kind, lanes) # rest) =
     map_result (\<lambda>lanes. (if op \<in> to_double_ops then DoubleType else kind, lanes) # rest)
       (map_lanes (lane_unary fu op kind) lanes)"
  by (auto simp: run_op_def op_sets)

lemma run_binary:
  "op \<in> binary_ops \<Longrightarrow> op \<notin> {OpCoalesce, OpNullIf} \<Longrightarrow>
     run_op fu columns rows op ((right_kind, right) # (left_kind, left) # rest) =
     map_result (\<lambda>lanes.
         (if op \<notin> dividing_ops \<and> left_kind = Int64Type \<and> right_kind = Int64Type
          then left_kind else DoubleType, lanes) # rest)
       (map_lanes (lane_binary fu op left_kind right_kind) (zip left right))"
  by (auto simp: run_op_def op_sets)

lemma map_result_Inr: "map_result g r = Some (Inr w) \<Longrightarrow> \<exists>v. r = Some (Inr v) \<and> w = g v"
  by (cases r; cases "the r") (auto simp: map_result_def)

lemma map_result_Inl [simp]: "map_result g r = Some (Inl f) \<longleftrightarrow> r = Some (Inl f)"
  by (cases r; cases "the r") (auto simp: map_result_def)

lemma map_result_None [simp]: "map_result g r = None \<longleftrightarrow> r = None"
  by (simp add: map_result_def)

lemma leaf_runs:
  assumes "inputs_ready columns visible end_row" and "well_typed visible (Leaf op)"
  shows "runs fu columns rows (Leaf op)"
proof (cases op)
  case (OpColumn c)
  with assms(2) have "c \<in> visible" by simp
  obtain i where i: "find_input columns c = Some i" "input_good i" "input_column i = c"
      "\<And>row. read_column (row_columns columns row) c = Some (Inr (input_number i row))"
      "\<And>row. input_number i row = number_of (column_kind c)
        (if input_row_valid i row then (True, values_of (input_values i) ! row) else (False, 0))"
    by (rule ready_column [OF assms(1) \<open>c \<in> visible\<close>]) (rule that)
  let ?s = "(column_kind c, map (\<lambda>row. if input_row_valid i row then (True, values_of (input_values i) ! row) else (False, 0)) rows)"
  show ?thesis
    by (rule runsI_slot [where s = ?s]) (auto simp: OpColumn slot_agrees_def i run_op_def)
next
  case (OpInteger n)
  show ?thesis
    by (rule runsI_slot [where s = "(Int64Type, map (\<lambda>_. (True, n)) rows)"])
      (auto simp: OpInteger slot_agrees_def run_op_def number_of_def)
next
  case (OpDouble bits)
  show ?thesis
    by (rule runsI_slot [where s = "(DoubleType, map (\<lambda>_. (True, bits)) rows)"])
      (auto simp: OpDouble slot_agrees_def run_op_def number_of_def)
next
  case OpNull
  show ?thesis
    by (rule runsI_slot [where s = "(Int64Type, map (\<lambda>_. (False, 0)) rows)"])
      (auto simp: OpNull slot_agrees_def run_op_def number_of_def)
qed (use assms(2) in auto)

lemma unary_runs:
  assumes "runs fu columns rows t" and "op \<in> unary_ops" and "well_typed visible t"
  shows "runs fu columns rows (Unary op t)"
  using assms(1)
proof (cases rule: runsE)
  case (slot kind lanes)
  let ?k = "if op \<in> to_double_ops then DoubleType else kind"
  have k: "kind = Int64Type \<or> kind = DoubleType" using numeric_type [OF assms(3)] slot(1) by simp
  have number: "unary fu op (number_of kind l) = map_result (number_of ?k) (lane_unary fu op kind l)" for l
    by (rule lane_unary_number [OF assms(2) k, symmetric])
  have "\<exists>r. lane_unary fu op kind (lanes ! i) = Some r" for i
  proof -
    have "fits kind (number_of kind (lanes ! i))" using k by (rule fits_number_of)
    then obtain r where "unary fu op (number_of kind (lanes ! i)) = Some r"
      using unary_sound [OF assms(2)] by blast
    then have "map_result (number_of ?k) (lane_unary fu op kind (lanes ! i)) \<noteq> None" by (simp add: number)
    then show ?thesis by auto
  qed
  note total = this
  have kind: "?k = tree_type (Unary op t)" using slot(1) by simp
  have combined: "eval_tree fu (row_columns columns (rows ! i)) (Unary op t) =
      map_result (number_of ?k) (lane_unary fu op kind (lanes ! i))" if "i < length rows" for i
    using that slot(3) by (simp add: number)
  from total show ?thesis
  proof (cases rule: map_lanes_outcome [of lanes "lane_unary fu op kind"])
    case out: (lanes ys)
    show ?thesis
    proof (rule runsI_slot [where s = "(?k, ys)"])
      show "slot_agrees fu columns rows (Unary op t) (?k, ys)"
        using slot(2) out kind by (auto simp: slot_agrees_def combined simp del: eval_tree.simps tree_type.simps)
    qed (simp add: slot(4) run_unary assms(2) out(1))
  next
    case (failed f i)
    have "row_fails fu columns rows (Unary op t) f"
      using slot(2) failed by (auto simp: row_fails_def combined simp del: eval_tree.simps intro!: exI [of _ i])
    then show ?thesis by (rule runsI_fails) (simp add: slot(4) run_unary assms(2) failed(1))
  qed
next
  case (fails f i)
  then have "row_fails fu columns rows (Unary op t) f" by (auto simp: row_fails_def)
  then show ?thesis by (rule runsI_fails) (simp add: fails(3))
qed

lemma binary_runs:
  assumes "runs fu columns rows a" and "runs fu columns rows b"
    and "op \<in> binary_ops" and "op \<notin> {OpCoalesce, OpNullIf}"
    and "well_typed visible a" and "well_typed visible b"
    and "op \<in> integer_only_ops \<longrightarrow> tree_type a = Int64Type \<and> tree_type b = Int64Type"
  shows "runs fu columns rows (Binary op a b)"
  using assms(1)
proof (cases rule: runsE)
  case fa: (fails f i)
  then have "row_fails fu columns rows (Binary op a b) f" by (auto simp: row_fails_def)
  then show ?thesis by (rule runsI_fails) (simp add: fa(3))
next
  case sa: (slot ka la)
  from assms(2) show ?thesis
  proof (cases rule: runsE)
    case fb: (fails f i)
    with sa assms(4) have "row_fails fu columns rows (Binary op a b) f" by (auto simp: row_fails_def)
    then show ?thesis by (rule runsI_fails) (simp add: sa(4) fb(3))
  next
    case sb: (slot kb lb)
    let ?k = "if op \<notin> dividing_ops \<and> ka = Int64Type \<and> kb = Int64Type then ka else DoubleType"
    have k: "ka = Int64Type \<or> ka = DoubleType" "kb = Int64Type \<or> kb = DoubleType"
      using numeric_type assms(5,6) sa(1) sb(1) by simp_all
    have kind: "?k = tree_type (Binary op a b)"
      using k sa(1) sb(1) by (auto simp: binary_type_def join_types_def)
    have number: "binary fu op (number_of ka l) (number_of kb r) = map_result (number_of ?k) (lane_binary fu op ka kb (l, r))" for l r
      using assms(3,4) k by (intro lane_binary_number [symmetric]) auto
    have total: "\<exists>r. lane_binary fu op ka kb (zip la lb ! i) = Some r" for i
    proof -
      obtain l r where lr: "zip la lb ! i = (l, r)" by (cases "zip la lb ! i")
      have "\<exists>s. binary fu op (number_of ka l) (number_of kb r) = Some s"
        using binary_sound [OF assms(3,4) _ fits_number_of [OF k(1)] fits_number_of [OF k(2)], of fu l r]
          assms(7) sa(1) sb(1) by blast
      then show ?thesis by (auto simp: number lr map_result_def)
    qed
    have combined: "eval_tree fu (row_columns columns (rows ! i)) (Binary op a b) =
        map_result (number_of ?k) (lane_binary fu op ka kb (zip la lb ! i))" if "i < length rows" for i
      using that sa(2,3) sb(2,3) assms(4) by (simp add: number combine_def)
    from total show ?thesis
    proof (cases rule: map_lanes_outcome [of "zip la lb" "lane_binary fu op ka kb"])
      case (lanes ys)
      show ?thesis
      proof (rule runsI_slot [where s = "(?k, ys)"])
        show "slot_agrees fu columns rows (Binary op a b) (?k, ys)"
          using sa(2) sb(2) lanes kind by (auto simp: slot_agrees_def combined simp del: eval_tree.simps tree_type.simps)
      qed (simp add: sa(4) sb(4) run_binary [OF assms(3,4)] lanes(1))
    next
      case (failed f i)
      have "row_fails fu columns rows (Binary op a b) f"
        using sa(2) sb(2) failed by (auto simp: row_fails_def combined simp del: eval_tree.simps intro!: exI [of _ i])
      then show ?thesis by (rule runsI_fails) (simp add: sa(4) sb(4) run_binary [OF assms(3,4)] failed(1))
    qed
  qed
qed

lemma tree_runs:
  assumes "inputs_ready columns visible end_row"
  shows "well_typed visible t \<Longrightarrow> unordered t \<Longrightarrow> runs fu columns rows t"
proof (induction t)
  case (Leaf op)
  then show ?case using leaf_runs [OF assms] by blast
next
  case (Unary op t)
  then show ?case using unary_runs [of fu columns rows t op visible] by simp
next
  case (Binary op a b)
  then show ?case using binary_runs [of fu columns rows a b op visible] by simp
qed simp

section \<open>Properties of expressions\<close>

definition number_of_output :: "data_type \<Rightarrow> u64 option \<Rightarrow> number" where
  "number_of_output kind v =
     (case v of None \<Rightarrow> Null | Some bits \<Rightarrow> if kind = Int64Type then Integer bits else Double bits)"

lemma conditional_rows:
  assumes "\<And>row. row \<in> set rows \<Longrightarrow> \<exists>r. evaluate_expression fu e (row_columns columns row) = Some r
      \<and> (\<forall>v. r = Inr v \<longrightarrow> fits kind v)"
    and "kind = Int64Type \<or> kind = DoubleType"
  obtains (lanes) lanes where "evaluate_conditional fu e columns rows = Some (Inr lanes)" and "length lanes = length rows"
      and "\<And>i. i < length rows \<Longrightarrow> evaluate_expression fu e (row_columns columns (rows ! i)) = Some (Inr (number_of kind (lanes ! i)))"
  | (failed) f i where "evaluate_conditional fu e columns rows = Some (Inl f)" and "i < length rows"
      and "evaluate_expression fu e (row_columns columns (rows ! i)) = Some (Inl f)"
proof -
  let ?g = "\<lambda>row. map_result lane_of_number (evaluate_expression fu e (row_columns columns row))"
  have inverse: "number_of kind (lane_of_number v) = v" if "fits kind v" for v
    using that assms(2) by (cases v) (auto simp: number_of_def lane_of_number_def)
  have "\<exists>r. ?g (rows ! i) = Some r" if "i < length rows" for i
    using assms(1) [of "rows ! i"] that by (auto simp: map_result_def)
  then consider (ok) ys where "map_lanes ?g rows = Some (Inr ys)" "length ys = length rows"
      "\<forall>i<length rows. ?g (rows ! i) = Some (Inr (ys ! i))"
    | (bad) f i where "map_lanes ?g rows = Some (Inl f)" "i < length rows" "?g (rows ! i) = Some (Inl f)"
    by (rule map_lanes_outcome [of rows ?g]) auto
  then show thesis
  proof cases
    case out: (ok ys)
    show thesis
    proof (rule lanes)
      fix i assume i: "i < length rows"
      have "?g (rows ! i) = Some (Inr (ys ! i))" using out(3) i by blast
      from map_result_Inr [OF this] obtain v where
        v: "evaluate_expression fu e (row_columns columns (rows ! i)) = Some (Inr v)" "ys ! i = lane_of_number v"
        by blast
      moreover have "fits kind v" using assms(1) [of "rows ! i"] i v(1) by auto
      ultimately show "evaluate_expression fu e (row_columns columns (rows ! i)) = Some (Inr (number_of kind (ys ! i)))"
        by (simp add: inverse)
    qed (use out in \<open>simp_all add: evaluate_conditional_def\<close>)
  next
    case out: (bad f i)
    then show thesis by (intro failed [of f i]) (simp_all add: evaluate_conditional_def)
  qed
qed

text \<open>What \<open>evaluate_batch\<close> asserts, and what its callers bind before they call it.\<close>

definition batch_ready ::
    "expression \<Rightarrow> semantic_column list \<Rightarrow> numeric_input option list \<Rightarrow> nat \<Rightarrow> nat \<Rightarrow> nat \<Rightarrow> bool" where
  "batch_ready e visible columns start end_row scratch \<longleftrightarrow>
     validate e visible = Inr () \<and> length (expr_ops e) = max_ops
     \<and> start < end_row \<and> end_row \<le> max_rows_per_batch \<and> length columns \<le> max_row_values
     \<and> (case stack_depth e of None \<Rightarrow> False | Some d \<Rightarrow> d * (end_row - start) \<le> scratch)
     \<and> unique_inputs columns \<and> inputs_ready columns (set visible) end_row"

lemma ready_inputs_long:
  "inputs_ready columns visible end_row \<Longrightarrow> list_all (\<lambda>i. end_row \<le> input_len i) (List.map_filter id columns)"
  by (auto simp: inputs_ready_def list_all_iff List.map_filter_def)

lemma ready_supplied:
  "inputs_ready columns visible end_row \<Longrightarrow> \<forall>c \<in> visible. read_column (row_columns columns row) c \<noteq> None"
  by (auto elim: ready_column)

lemma batch_lanes:
  assumes "batch_ready e visible columns start end_row scratch"
  shows "(\<exists>lanes. evaluate_batch fu e columns start end_row scratch =
            Some (Inr \<lparr>out_values = map snd lanes, out_valid = map fst lanes\<rparr>)
          \<and> length lanes = end_row - start
          \<and> (\<forall>i<end_row - start. evaluate_expression fu e (row_columns columns (start + i)) =
               Some (Inr (number_of (expr_type e) (lanes ! i)))))
       \<or> (\<exists>f i. evaluate_batch fu e columns start end_row scratch = Some (Inl f) \<and> i < end_row - start
          \<and> evaluate_expression fu e (row_columns columns (start + i)) = Some (Inl f))"
proof -
  let ?rows = "[start..<end_row]"
  from assms have v: "validate e visible = Inr ()" "length (expr_ops e) = max_ops"
    and ready: "inputs_ready columns (set visible) end_row" and rows: "start < end_row"
    by (simp_all add: batch_ready_def)
  obtain t where t: "program e = flatten t" "well_typed (set visible) t" "tree_type t = expr_type e"
    and ev: "\<And>columns. evaluate_expression fu e columns = eval_tree fu columns t"
    and depth: "stack_depth e = Some (tree_depth t)"
    using validated_evaluation [OF v, of fu] by metis
  have "tree_depth t * (end_row - start) div (end_row - start) \<le> scratch div (end_row - start)"
    using assms by (intro div_le_mono) (simp add: batch_ready_def depth)
  then have batch: "evaluate_batch fu e columns start end_row scratch =
      map_result (\<lambda>lanes. \<lparr>out_values = map snd lanes, out_valid = map fst lanes\<rparr>)
          (if requires_ordered_evaluation e then evaluate_conditional fu e columns ?rows
           else (case run_ops fu columns ?rows (program e) [] of
                   None \<Rightarrow> None
                 | Some (Inl failure) \<Rightarrow> Some (Inl failure)
                 | Some (Inr [(kind, lanes)]) \<Rightarrow> if kind = expr_type e then Some (Inr lanes) else None
                 | Some (Inr _) \<Rightarrow> None))"
    using assms ready_inputs_long [OF ready] rows
    by (simp add: evaluate_batch_def batch_ready_def depth)
  show ?thesis
  proof (cases "requires_ordered_evaluation e")
    case True
    have sound: "\<exists>r. evaluate_expression fu e (row_columns columns row) = Some r
        \<and> (\<forall>v. r = Inr v \<longrightarrow> fits (expr_type e) v)" for row
      using eval_tree_sound [OF ready_supplied [OF ready, of row] t(2), of fu] t(3) by (auto simp: ev)
    have "expr_type e = Int64Type \<or> expr_type e = DoubleType" using numeric_type [OF t(2)] t(3) by simp
    then show ?thesis
      by (rule conditional_rows [of ?rows fu e columns "expr_type e", OF sound])
        (use True batch in auto)
  next
    case False
    have "unordered t" by (rule unordered_program [OF t(1,2) False])
    from tree_runs [OF ready t(2) this] have "runs fu columns ?rows t" .
    then show ?thesis
    proof (cases rule: runsE)
      case (slot kind lanes)
      from slot(4) [of "[]" "[]"] t(1,3) slot(1) have
        "run_ops fu columns ?rows (program e) [] = Some (Inr [(expr_type e, lanes)])" by simp
      then show ?thesis using batch False slot(2,3) t(3) slot(1) by (auto simp: ev)
    next
      case (fails f i)
      from fails(3) [of "[]" "[]"] t(1) have "run_ops fu columns ?rows (program e) [] = Some (Inl f)" by simp
      then show ?thesis using batch False fails(1,2) by (auto simp: ev)
    qed
  qed
qed

end
