(* ===== verification/Scalar_Properties.thy ===== *)
theory Scalar_Properties
  imports Scalar_Batch
begin

text \<open>
  What the numeric evaluators guarantee for every program plan validation accepts: the
  cursor computes the expression tree, reads only the columns it demands, never panics
  and returns a value of the claimed type; a batch computes each of its rows.
\<close>

section \<open>Demanded columns\<close>

text \<open>The columns evaluating a tree comes to, on the row \<open>columns\<close> holds.\<close>

fun demands :: "float_unit \<Rightarrow> (semantic_column \<Rightarrow> number option) \<Rightarrow> tree \<Rightarrow> semantic_column set" where
  "demands fu columns (Leaf op) = (case op of OpColumn c \<Rightarrow> {c} | _ \<Rightarrow> {})"
| "demands fu columns (Unary op t) = demands fu columns t"
| "demands fu columns (Binary op a b) = demands fu columns a \<union>
     (case eval_tree fu columns a of
        Some (Inr x) \<Rightarrow> if op = OpCoalesce \<and> x \<noteq> Null then {} else demands fu columns b
      | _ \<Rightarrow> {})"
| "demands fu columns (Cond c l r s f) = demands fu columns l \<union>
     (case eval_tree fu columns l of
        Some (Inr x) \<Rightarrow> demands fu columns r \<union>
          (case eval_tree fu columns r of
             Some (Inr y) \<Rightarrow> if compare fu c x y then demands fu columns s else demands fu columns f
           | _ \<Rightarrow> {})
      | _ \<Rightarrow> {})"

lemma demanded_columns_decide:
  "\<forall>c \<in> demands fu columns t. columns' c = columns c \<Longrightarrow> eval_tree fu columns' t = eval_tree fu columns t"
proof (induction t)
  case (Leaf op)
  then show ?case by (cases op) (auto simp: read_column_def)
next
  case (Binary op a b)
  then have a: "eval_tree fu columns' a = eval_tree fu columns a" by auto
  show ?case
  proof (cases "eval_tree fu columns a")
    case (Some r)
    with Binary a show ?thesis by (cases r) auto
  qed (simp add: a)
next
  case (Cond c l r s f)
  then have l: "eval_tree fu columns' l = eval_tree fu columns l" by auto
  show ?case
  proof (cases "eval_tree fu columns l")
    case (Some x)
    show ?thesis
    proof (cases x)
      case (Inr x)
      with Some Cond have r: "eval_tree fu columns' r = eval_tree fu columns r" by auto
      show ?thesis
      proof (cases "eval_tree fu columns r")
        case y: (Some y)
        with Some Inr Cond l r show ?thesis by (cases y) auto
      qed (use Some Inr in \<open>simp add: l r\<close>)
    qed (simp add: l Some)
  qed (simp add: l)
qed simp

section \<open>A sample expression\<close>

text \<open>\<open>COALESCE(a, 7 / b)\<close> over two nullable INT64 columns, and a float unit to run it on.\<close>

definition sample_unit :: float_unit where
  "sample_unit = \<lparr>f_add = \<lambda>x y. x, f_sub = \<lambda>x y. x, f_mul = \<lambda>x y. x, f_div = \<lambda>x y. x, f_rem = \<lambda>x y. x,
     f_pow = \<lambda>x y. x, f_exp = id, f_ln = id, f_log10 = id, f_sqrt = id, f_floor = id, f_ceil = id,
     f_round = id, f_fract = id, f_of_int = id\<rparr>"

definition sample_column :: "u32 \<Rightarrow> semantic_column" where
  "sample_column i = \<lparr>column_identity = i, column_kind = Int64Type, column_nullable = True\<rparr>"

definition sample_expression :: expression where
  "sample_expression =
     \<lparr>expr_ops = [OpColumn (sample_column 1), OpInteger 7, OpColumn (sample_column 2), OpIntegerDivide, OpCoalesce]
        @ replicate 27 OpEmpty,
      expr_len = 5, expr_type = Int64Type\<rparr>"

definition sample_inputs :: "numeric_input option list" where
  "sample_inputs =
     [Some \<lparr>input_column = sample_column 1, input_values = Int64Values [4, 0], input_valid = Some [1]\<rparr>, None,
      Some \<lparr>input_column = sample_column 2, input_values = Int64Values [0, 2], input_valid = None\<rparr>]"

definition sample_visible :: "semantic_column list" where
  "sample_visible = [sample_column 1, sample_column 2]"

lemma sample_validates: "validate sample_expression sample_visible = Inr ()"
  by code_simp

lemma sample_extent: "length (expr_ops sample_expression) = max_ops"
  by code_simp

text \<open>C22: The jumping cursor computes the expression. A program that validation accepts is an
  expression tree in postfix order, and evaluating it by the cursor, with the jump tables built from
  the program, gives on every row exactly what evaluating the tree gives: the same value, the same
  arithmetic failure, and a panic only where the tree's evaluation reaches an unsuitable input.\<close>

theorem cursor_computes_the_expression:
  assumes "validate e visible = Inr ()" and "length (expr_ops e) = max_ops"
  shows "\<exists>t. program e = flatten t \<and> well_typed (set visible) t
    \<and> (\<forall>columns. evaluate_expression fu e columns = eval_tree fu columns t)"
  using validated_evaluation [OF assms, of fu] by metis

theorem cursor_computes_the_expression_witness:
  "\<exists>t. program sample_expression = flatten t \<and> well_typed (set sample_visible) t
    \<and> (\<forall>columns. evaluate_expression sample_unit sample_expression columns = eval_tree sample_unit columns t)"
  by (rule cursor_computes_the_expression [OF sample_validates sample_extent])

section \<open>A program spells one tree\<close>

definition rebuild_op :: "op \<Rightarrow> tree list \<Rightarrow> tree list" where
  "rebuild_op op ts =
     (if op \<in> unary_ops then (case ts of t # rest \<Rightarrow> Unary op t # rest | _ \<Rightarrow> [])
      else if op \<in> binary_ops then (case ts of b # a # rest \<Rightarrow> Binary op a b # rest | _ \<Rightarrow> [])
      else (case op of
          OpCase c \<Rightarrow> (case ts of f # s # r # l # rest \<Rightarrow> Cond c l r s f # rest | _ \<Rightarrow> [])
        | _ \<Rightarrow> Leaf op # ts))"

lemma rebuild_flatten:
  "well_typed visible t \<Longrightarrow> fold rebuild_op (flatten t) ts = t # ts"
proof (induction t arbitrary: ts)
  case (Leaf op)
  then show ?case by (cases op) (auto simp: rebuild_op_def op_sets)
next
  case (Binary op a b)
  then have "op \<notin> unary_ops" by (auto simp: op_sets)
  with Binary show ?case by (simp add: rebuild_op_def)
next
  case (Cond c l r s f)
  have "OpCase c \<notin> unary_ops" "OpCase c \<notin> binary_ops" by (auto simp: op_sets)
  with Cond show ?case by (simp add: rebuild_op_def)
qed (simp add: rebuild_op_def)

lemma flatten_injective:
  assumes "well_typed visible t" and "well_typed visible t'" and "flatten t = flatten t'"
  shows "t = t'"
proof -
  have "[t] = fold rebuild_op (flatten t) []" by (simp only: rebuild_flatten [OF assms(1)])
  also have "\<dots> = [t']" by (simp only: assms(3) rebuild_flatten [OF assms(2)])
  finally show ?thesis by simp
qed

text \<open>C25: Evaluation is demand driven. On every row the cursor reads only the columns the expression
  comes to: with every other column withheld, where asking for one would be a panic, it returns the
  same result. So the fallback of COALESCE is not touched after a value and of a CASE only the
  comparison and the chosen arm are.\<close>

theorem only_demanded_columns_are_read:
  assumes "validate e visible = Inr ()" and "length (expr_ops e) = max_ops" and "program e = flatten t" and "well_typed (set visible) t"
  shows "evaluate_expression fu e (columns |` demands fu columns t) = evaluate_expression fu e columns"
proof -
  obtain t' where t': "program e = flatten t'" "well_typed (set visible) t'"
    "\<And>columns. evaluate_expression fu e columns = eval_tree fu columns t'"
    using validated_evaluation [OF assms(1,2), of fu] by metis
  have "t' = t" by (rule flatten_injective [OF t'(2) assms(4)]) (use t'(1) assms(3) in simp)
  then show ?thesis by (simp add: t'(3) demanded_columns_decide)
qed

theorem only_demanded_columns_are_read_witness:
  "evaluate_expression sample_unit sample_expression ([sample_column 1 \<mapsto> Integer 3] |` {sample_column 1})
    = evaluate_expression sample_unit sample_expression [sample_column 1 \<mapsto> Integer 3]"
proof -
  let ?t = "Binary OpCoalesce (Leaf (OpColumn (sample_column 1)))
      (Binary OpIntegerDivide (Leaf (OpInteger 7)) (Leaf (OpColumn (sample_column 2))))"
  have "program sample_expression = flatten ?t" by code_simp
  moreover have "well_typed (set sample_visible) ?t" by code_simp
  moreover have "demands sample_unit [sample_column 1 \<mapsto> Integer 3] ?t = {sample_column 1}"
    by (simp add: read_column_def sample_column_def)
  ultimately show ?thesis
    using only_demanded_columns_are_read [OF sample_validates sample_extent, of ?t sample_unit
      "[sample_column 1 \<mapsto> Integer 3]"] by metis
qed

text \<open>C24: Expressions are type sound and total. On every row whose columns hold values of their own
  types, a program that validation accepts returns, never reaching a panic: either an arithmetic
  failure or a value of the claimed result type, and never NULL where the program is said not to be
  nullable.\<close>

theorem expressions_are_sound:
  assumes "validate e visible = Inr ()" and "length (expr_ops e) = max_ops"
    and "\<forall>c \<in> set visible. read_column columns c \<noteq> None"
  shows "\<exists>r. evaluate_expression fu e columns = Some r
    \<and> (\<forall>v. r = Inr v \<longrightarrow> fits (expr_type e) v \<and> (\<not> expression_nullable e \<longrightarrow> v \<noteq> Null))"
proof -
  obtain t where t: "well_typed (set visible) t" "tree_type t = expr_type e"
    "\<And>columns. evaluate_expression fu e columns = eval_tree fu columns t"
    "expression_nullable e = tree_nullable t"
    using validated_evaluation [OF assms(1,2), of fu] by metis
  from eval_tree_sound [OF assms(3) t(1), of fu] show ?thesis by (simp add: t(2-4))
qed

theorem expressions_are_sound_witness:
  "\<exists>r. evaluate_expression sample_unit sample_expression (\<lambda>c. Some (Integer 0)) = Some r
    \<and> (\<forall>v. r = Inr v \<longrightarrow> fits Int64Type v \<and> (\<not> expression_nullable sample_expression \<longrightarrow> v \<noteq> Null))"
proof -
  have "\<forall>c \<in> set sample_visible. read_column (\<lambda>c. Some (Integer 0)) c \<noteq> None"
    by (simp add: sample_visible_def read_column_def sample_column_def)
  from expressions_are_sound [OF sample_validates sample_extent this, of sample_unit] show ?thesis
    by (simp add: sample_expression_def)
qed

text \<open>C23: A batch computes its rows. For every batch whose inputs are bound, evaluation ends; when it
  succeeds, each output row holds what evaluating the expression on that input row gives, NULL as a
  cleared validity bit; when it fails, some row of the range fails with that very failure. The
  operation-at-a-time evaluator and the row-at-a-time cursor so agree.\<close>

theorem batch_computes_each_row:
  assumes "batch_ready e visible columns start end_row scratch"
  shows "\<exists>r. evaluate_batch fu e columns start end_row scratch = Some r
    \<and> (case r of
         Inl f \<Rightarrow> \<exists>i<end_row - start. evaluate_expression fu e (row_columns columns (start + i)) = Some (Inl f)
       | Inr out \<Rightarrow> length (out_values out) = end_row - start
           \<and> (\<forall>i<end_row - start. \<exists>v. output_value out i = Some v
                \<and> evaluate_expression fu e (row_columns columns (start + i)) = Some (Inr (number_of_output (expr_type e) v))))"
  using batch_lanes [OF assms, of fu]
proof (elim disjE exE conjE)
  fix lanes
  assume b: "evaluate_batch fu e columns start end_row scratch = Some (Inr \<lparr>out_values = map snd lanes, out_valid = map fst lanes\<rparr>)"
    and len: "length lanes = end_row - start"
    and rows: "\<forall>i<end_row - start. evaluate_expression fu e (row_columns columns (start + i)) =
               Some (Inr (number_of (expr_type e) (lanes ! i)))"
  have "number_of kind l = number_of_output kind (if fst l then Some (snd l) else None)" for kind l
    by (simp add: number_of_def number_of_output_def)
  with b len rows show ?thesis by (auto simp: output_value_def)
next
  fix f i
  assume "evaluate_batch fu e columns start end_row scratch = Some (Inl f)" "i < end_row - start"
    "evaluate_expression fu e (row_columns columns (start + i)) = Some (Inl f)"
  then show ?thesis by auto
qed

lemma sample_batch_ready: "batch_ready sample_expression sample_visible sample_inputs 0 2 6"
proof -
  have "stack_depth sample_expression = Some 3" by code_simp
  moreover have "unique_inputs sample_inputs" by code_simp
  moreover have "inputs_ready sample_inputs (set sample_visible) 2"
    by (auto simp: inputs_ready_def sample_inputs_def sample_visible_def find_input_def List.map_filter_simps
        sample_column_def input_good_def input_len_def max_rows_per_batch_def)
  ultimately show ?thesis
    using sample_validates sample_extent
    by (simp add: batch_ready_def max_rows_per_batch_def max_row_values_def sample_inputs_def)
qed

theorem batch_computes_each_row_witness:
  "\<exists>r. evaluate_batch sample_unit sample_expression sample_inputs 0 2 6 = Some r
    \<and> (case r of
         Inl f \<Rightarrow> \<exists>i<2. evaluate_expression sample_unit sample_expression (row_columns sample_inputs i) = Some (Inl f)
       | Inr out \<Rightarrow> length (out_values out) = 2
           \<and> (\<forall>i<2. \<exists>v. output_value out i = Some v
                \<and> evaluate_expression sample_unit sample_expression (row_columns sample_inputs i) =
                    Some (Inr (number_of_output Int64Type v))))"
proof -
  have t: "expr_type sample_expression = Int64Type" by (simp add: sample_expression_def)
  from batch_computes_each_row [OF sample_batch_ready, of sample_unit] show ?thesis
    by (simp only: t add_0 diff_zero)
qed

end
