(* ===== verification/Boolean_Filter.thy ===== *)
theory Boolean_Filter
  imports Scalar_Arithmetic
begin

text \<open>
  WHERE expressions (src/query/parser/boolean.rs, src/execution/predicate.rs,
  src/execution/computed.rs, src/execution/scan.rs): the operator and value stacks the
  parser builds an expression with, its compilation into forward branches between
  comparisons, and the two ways rows follow those branches. A \<open>u8\<close> index or offset
  is a \<open>nat\<close>; none exceeds the 160 tokens or 16 stages of a query, and 255 is the
  sentinel the source writes \<open>u8::MAX\<close>.
\<close>

section \<open>Building the tree\<close>

definition max_tokens :: nat where "max_tokens = 160"
definition max_stages :: nat where "max_stages = 16"
definition no_target :: nat where "no_target = 255"

datatype operator = LeftOperator | OrOperator | AndOperator | NotOperator | LeafOperator

fun precedence :: "operator \<Rightarrow> nat" where
  "precedence LeftOperator = 0"
| "precedence OrOperator = 1"
| "precedence AndOperator = 2"
| "precedence NotOperator = 3"
| "precedence LeafOperator = 4"

record node =
  node_kind :: operator
  node_left :: nat
  node_right :: nat
  node_first :: nat

text \<open>The two stacks have their tops at the head.\<close>

record syntax_state =
  nodes :: "node list"
  value_stack :: "nat list"
  operator_stack :: "operator list"

definition new_syntax :: syntax_state where
  "new_syntax = \<lparr>nodes = [], value_stack = [], operator_stack = []\<rparr>"

definition push_node :: "node \<Rightarrow> syntax_state \<Rightarrow> db_error + syntax_state" where
  "push_node n s =
     (if length (nodes s) = max_tokens \<or> length (value_stack s) = max_tokens
      then Inl (Corrupt ''Boolean nodes exceed lexical bound'')
      else Inr (s\<lparr>nodes := nodes s @ [n], value_stack := length (nodes s) # value_stack s\<rparr>))"

definition push_leaf :: "nat \<Rightarrow> syntax_state \<Rightarrow> db_error + syntax_state" where
  "push_leaf stage s =
     push_node \<lparr>node_kind = LeafOperator, node_left = 0, node_right = 0, node_first = stage\<rparr> s"

definition push_operator :: "operator \<Rightarrow> syntax_state \<Rightarrow> db_error + syntax_state" where
  "push_operator op s =
     (if length (operator_stack s) = max_tokens then Inl (Corrupt ''Boolean operators exceed lexical bound'')
      else Inr (s\<lparr>operator_stack := op # operator_stack s\<rparr>))"

text \<open>\<open>None\<close> is the underflow of an empty operator stack, which no caller reaches.\<close>

definition reduce :: "source_span \<Rightarrow> syntax_state \<Rightarrow> (db_error + syntax_state) option" where
  "reduce span s =
     (case operator_stack s of
        [] \<Rightarrow> None
      | kind # operators \<Rightarrow> Some (
          let needed = (if kind = NotOperator then 1 else 2); vs = value_stack s in
          if kind = LeftOperator \<or> length vs < needed
          then Inl (ParseError ''incomplete Boolean expression'' span)
          else
            let left = vs ! (needed - 1); right = vs ! 0 in
            push_node \<lparr>node_kind = kind, node_left = left, node_right = right,
                       node_first = node_first (nodes s ! left)\<rparr>
              (s\<lparr>operator_stack := operators, value_stack := drop needed vs\<rparr>)))"

section \<open>Compiling to branches\<close>

record filter_control =
  matched :: nat
  other :: nat
  region_end :: nat
  negated :: bool

definition linear_control :: filter_control where
  "linear_control = \<lparr>matched = 1, other = 0, region_end = 1, negated = False\<rparr>"

definition relative :: "nat \<Rightarrow> nat \<Rightarrow> db_error + nat" where
  "relative first target =
     (if target = no_target then Inr 0
      else if target \<le> first then Inl (Corrupt ''Boolean decision is not forward'')
      else Inr (target - first))"

text \<open>
  What the left operand of AND or OR must do: when both operands are needed it goes on to the
  right one by matching, otherwise by not matching.
\<close>

definition left_request :: "operator \<Rightarrow> nat \<Rightarrow> filter_control \<Rightarrow> filter_control" where
  "left_request kind right control =
     (let both = ((kind = AndOperator) \<noteq> negated control) in
      control\<lparr>matched := if both then right else matched control,
              other := if both then other control else right\<rparr>)"

text \<open>One node, visited after its parent: a leaf is resolved, an operator passes requests down.\<close>

definition place_node ::
    "node list \<Rightarrow> nat \<Rightarrow> nat \<Rightarrow> filter_control list \<times> filter_control list \<Rightarrow> db_error + filter_control list \<times> filter_control list" where
  "place_node ns len index cs =
     (let (controls, parsed) = cs; node = ns ! index; control = controls ! index in
      case node_kind node of
        LeafOperator \<Rightarrow>
          attempt (relative (node_first node) (matched control)) (\<lambda>m.
          attempt (relative (node_first node) (other control)) (\<lambda>n.
            Inr (controls, parsed[node_first node :=
              \<lparr>matched = m, other = n, region_end = len - node_first node, negated = negated control\<rparr>])))
      | NotOperator \<Rightarrow>
          Inr (controls[node_left node := control\<lparr>negated := \<not> negated control\<rparr>], parsed)
      | LeftOperator \<Rightarrow> Inl (Corrupt ''parenthesis in Boolean tree'')
      | kind \<Rightarrow>
          Inr (controls[node_right node := control,
                 node_left node := left_request kind (node_first (ns ! node_right node)) control], parsed))"

fun place_nodes ::
    "node list \<Rightarrow> nat \<Rightarrow> nat \<Rightarrow> filter_control list \<times> filter_control list \<Rightarrow> db_error + filter_control list \<times> filter_control list" where
  "place_nodes ns len 0 cs = Inr cs"
| "place_nodes ns len (Suc index) cs = attempt (place_node ns len index cs) (place_nodes ns len index)"

fun reduce_all :: "nat \<Rightarrow> source_span \<Rightarrow> syntax_state \<Rightarrow> (db_error + syntax_state) option" where
  "reduce_all fuel span s =
     (if operator_stack s = [] then Some (Inr s)
      else case fuel of
          0 \<Rightarrow> None
        | Suc fuel \<Rightarrow> Option.bind (reduce span s) (\<lambda>r. case r of
              Inl e \<Rightarrow> Some (Inl e)
            | Inr s \<Rightarrow> reduce_all fuel span s))"

text \<open>\<open>parsed\<close> holds the controls of the parsed stages, \<open>len\<close> of them in use.\<close>

definition finish_filter ::
    "syntax_state \<Rightarrow> nat \<Rightarrow> source_span \<Rightarrow> filter_control list \<Rightarrow> (db_error + filter_control list) option" where
  "finish_filter s len span parsed =
     map_option (\<lambda>r. attempt r (\<lambda>s.
         if length (value_stack s) \<noteq> 1 then Inl (ParseError ''incomplete Boolean expression'' span)
         else map_sum id snd (place_nodes (nodes s) len (length (nodes s))
           ((replicate max_tokens linear_control)[hd (value_stack s) :=
               \<lparr>matched = len, other = no_target, region_end = 0, negated = False\<rparr>], parsed))))
       (reduce_all (length (operator_stack s)) span s)"

section \<open>Testing a row\<close>

text \<open>\<open>PhysicalFilter::matches\<close>: whether the predicate has the requested truth value.\<close>

definition literal_is_null :: "filter_literal \<Rightarrow> bool" where
  "literal_is_null l \<longleftrightarrow> l = LiteralNull \<or> l = LiteralNullDouble"

definition filter_matches :: "float_unit \<Rightarrow> predicate \<Rightarrow> bool \<Rightarrow> cell \<Rightarrow> db_error + bool" where
  "filter_matches fu p neg v =
     (case p of
        IsNull is_not \<Rightarrow> Inr (((v = NullCell) \<noteq> is_not) \<noteq> neg)
      | Compare comparison literal \<Rightarrow>
          if v = NullCell \<or> literal_is_null literal then
            let distinct = ((v = NullCell) \<noteq> literal_is_null literal) in
            Inr (case comparison of
                IsDistinct \<Rightarrow> distinct \<noteq> neg
              | IsNotDistinct \<Rightarrow> (\<not> distinct) \<noteq> neg
              | _ \<Rightarrow> False)
          else
            attempt
              (case (v, literal) of
                 (DoubleCell x, LiteralDouble bits) \<Rightarrow> Inr (test_doubles comparison x bits)
               | (Int64Cell n, LiteralDouble bits) \<Rightarrow> Inr (test_doubles comparison (f_of_int fu n) bits)
               | (Int64Cell n, LiteralInt64 m) \<Rightarrow> Inr (test_order comparison (order_of (sint n) (sint m)))
               | (DateCell d, LiteralDate e) \<Rightarrow> Inr (test_order comparison (order_of (days d) (days e)))
               | (StringCell s, LiteralString t) \<Rightarrow> Inr (test_order comparison (order_of_bytes s (literal_text t)))
               | _ \<Rightarrow> Inl (Corrupt ''filter input type disagrees''))
              (\<lambda>b. Inr (b \<noteq> neg)))"

record physical_filter =
  filter_column :: nat
  filter_predicate :: predicate
  filter_control :: filter_control

text \<open>
  The two executors see a row through the value of a column, which may fail to compute.
  \<open>retains\<close> follows one row's branches; a scan moves a block of rows past one filter at a
  time, each row remembering the filter it waits for.
\<close>

definition test_filter :: "float_unit \<Rightarrow> (nat \<Rightarrow> db_error + cell) \<Rightarrow> physical_filter \<Rightarrow> db_error + bool" where
  "test_filter fu value_at f =
     attempt (value_at (filter_column f))
       (filter_matches fu (filter_predicate f) (negated (filter_control f)))"

fun retains_loop ::
    "float_unit \<Rightarrow> (nat \<Rightarrow> db_error + cell) \<Rightarrow> physical_filter list \<Rightarrow> nat \<Rightarrow> nat \<Rightarrow> db_error + bool" where
  "retains_loop fu value_at filters 0 index = Inr True"
| "retains_loop fu value_at filters (Suc fuel) index =
     (if index = length filters then Inr True
      else
        attempt (test_filter fu value_at (filters ! index)) (\<lambda>m.
          let c = filter_control (filters ! index); offset = (if m then matched c else other c) in
          if offset = 0 then Inr False
          else if length filters < index + offset then Inl (Corrupt ''filter decision outside pipeline'')
          else retains_loop fu value_at filters fuel (index + offset)))"

definition retains :: "float_unit \<Rightarrow> (nat \<Rightarrow> db_error + cell) \<Rightarrow> physical_filter list \<Rightarrow> db_error + bool" where
  "retains fu value_at filters = retains_loop fu value_at filters (length filters) 0"

text \<open>
  \<open>filter_source\<close> keeps the rows that match, in order. Columns of the legacy row format have a
  kernel of their own with the same comparisons (src/execution/scan/legacy.rs), which is not
  modelled: here they are matched row by row like the others.
\<close>

fun filter_source ::
    "float_unit \<Rightarrow> (nat \<Rightarrow> nat \<Rightarrow> db_error + cell) \<Rightarrow> physical_filter \<Rightarrow> nat list \<Rightarrow> db_error + nat list" where
  "filter_source fu rows f [] = Inr []"
| "filter_source fu rows f (row # selection) =
     attempt (test_filter fu (rows row) f) (\<lambda>m.
       attempt (filter_source fu rows f selection) (\<lambda>kept. Inr (if m then row # kept else kept)))"

text \<open>The merge of the surviving subset back into the selection.\<close>

fun merge_branches ::
    "physical_filter list \<Rightarrow> nat \<Rightarrow> nat list \<Rightarrow> nat list \<Rightarrow> nat list \<Rightarrow> db_error + nat list \<times> nat list" where
  "merge_branches filters index (row # selection) (n # next_filters) selected =
     (if n \<noteq> index then
        map_sum id (\<lambda>(ns, rest). (n # ns, rest)) (merge_branches filters index selection next_filters selected)
      else
        let keep = (selected \<noteq> [] \<and> hd selected = row);
            c = filter_control (filters ! index);
            offset = (if keep then matched c else other c);
            target = index + offset in
        if offset \<noteq> 0 \<and> length filters < target then Inl (Corrupt ''scan branch outside pipeline'')
        else map_sum id (\<lambda>(ns, rest). ((if offset = 0 then no_target else target) # ns, rest))
               (merge_branches filters index selection next_filters (if keep then tl selected else selected)))"
| "merge_branches filters index selection next_filters selected = Inr ([], selected)"

text \<open>\<open>None\<close> is the assertion that the merge used every survivor.\<close>

definition filter_branch ::
    "float_unit \<Rightarrow> (nat \<Rightarrow> nat \<Rightarrow> db_error + cell) \<Rightarrow> physical_filter list \<Rightarrow> nat \<Rightarrow> nat list \<Rightarrow> nat list
     \<Rightarrow> (db_error + nat list) option" where
  "filter_branch fu rows filters index selection next_filters =
     (let waiting = map fst (filter (\<lambda>(row, n). n = index) (zip selection next_filters)) in
      if waiting = [] then Some (Inr next_filters)
      else
        case filter_source fu rows (filters ! index) waiting of
          Inl e \<Rightarrow> Some (Inl e)
        | Inr selected \<Rightarrow>
            (case merge_branches filters index selection next_filters selected of
               Inl e \<Rightarrow> Some (Inl e)
             | Inr (ns, rest) \<Rightarrow> if rest = [] then Some (Inr ns) else None))"

fun branch_phases ::
    "float_unit \<Rightarrow> (nat \<Rightarrow> nat \<Rightarrow> db_error + cell) \<Rightarrow> physical_filter list \<Rightarrow> nat \<Rightarrow> nat \<Rightarrow> nat list \<Rightarrow> nat list
     \<Rightarrow> (db_error + nat list) option" where
  "branch_phases fu rows filters 0 index selection next_filters = Some (Inr next_filters)"
| "branch_phases fu rows filters (Suc k) index selection next_filters =
     Option.bind (filter_branch fu rows filters index selection next_filters) (\<lambda>r. case r of
         Inl e \<Rightarrow> Some (Inl e)
       | Inr ns \<Rightarrow> branch_phases fu rows filters k (index + 1) selection ns)"

fun linear_phases ::
    "float_unit \<Rightarrow> (nat \<Rightarrow> nat \<Rightarrow> db_error + cell) \<Rightarrow> physical_filter list \<Rightarrow> nat list \<Rightarrow> db_error + nat list" where
  "linear_phases fu rows [] selection = Inr selection"
| "linear_phases fu rows (f # filters) selection =
     attempt (filter_source fu rows f selection) (\<lambda>selection.
       if selection = [] then Inr [] else linear_phases fu rows filters selection)"

definition needs_branches :: "physical_filter list \<Rightarrow> bool" where
  "needs_branches filters \<longleftrightarrow>
     (\<exists>f \<in> set filters. matched (filter_control f) \<noteq> 1 \<or> other (filter_control f) \<noteq> 0)"

text \<open>The rows of a block that pass every filter.\<close>

definition scan_filters ::
    "float_unit \<Rightarrow> (nat \<Rightarrow> nat \<Rightarrow> db_error + cell) \<Rightarrow> physical_filter list \<Rightarrow> nat list \<Rightarrow> (db_error + nat list) option" where
  "scan_filters fu rows filters selection =
     (if needs_branches filters then
        map_option (map_sum id (\<lambda>ns. map fst (filter (\<lambda>(row, n). n = length filters) (zip selection ns))))
          (branch_phases fu rows filters (length filters) 0 selection (replicate (length selection) 0))
      else Some (linear_phases fu rows filters selection))"

section \<open>Validation\<close>

text \<open>
  What plan validation (src/query/validation.rs) asks of one stage's branches before anything
  runs: \<open>stages\<close> gives each stage's input relation and its control when it is a WHERE.
\<close>

record plan_stage =
  stage_input :: nat
  stage_filter :: "filter_control option"

fun region_agrees :: "plan_stage list \<Rightarrow> nat \<Rightarrow> nat \<Rightarrow> nat list \<Rightarrow> db_error + unit" where
  "region_agrees stages index region [] = Inr ()"
| "region_agrees stages index region (offset # offsets) =
     (case stage_filter (stages ! (index + offset)) of
        None \<Rightarrow> Inl (Corrupt ''filter branch crosses relational stage'')
      | Some c \<Rightarrow>
          if region_end c \<noteq> region - offset
             \<or> (0 < offset \<and> stage_input (stages ! (index + offset)) \<noteq> index + offset)
          then Inl (Corrupt ''filter branch region disagrees'')
          else region_agrees stages index region offsets)"

definition validate_branches :: "plan_stage list \<Rightarrow> nat \<Rightarrow> nat \<Rightarrow> filter_control \<Rightarrow> db_error + unit" where
  "validate_branches stages count index c =
     (let region = region_end c in
      if region = 0 \<or> count < index + region \<or> region < matched c \<or> region < other c
         \<or> (matched c = 0 \<and> other c = 0)
      then Inl (Corrupt ''invalid filter control bounds'')
      else region_agrees stages index region [0..<region])"

end
