(* ===== verification/Boolean_Properties.thy ===== *)
theory Boolean_Properties
  imports Boolean_Filter
begin

text \<open>
  What WHERE filters mean. A Boolean tree has a truth value in Kleene's three-valued
  logic; the parser's stacks build a tree in postorder, compiling it gives branches that
  decide it, and both executors keep exactly the rows on which it is TRUE.
\<close>

section \<open>Trees and their truth\<close>

datatype bool_tree = BLeaf nat | BNot bool_tree | BAnd bool_tree bool_tree | BOr bool_tree bool_tree

fun leaves :: "bool_tree \<Rightarrow> nat list" where
  "leaves (BLeaf s) = [s]"
| "leaves (BNot t) = leaves t"
| "leaves (BAnd a b) = leaves a @ leaves b"
| "leaves (BOr a b) = leaves a @ leaves b"

fun first_leaf :: "bool_tree \<Rightarrow> nat" where
  "first_leaf (BLeaf s) = s"
| "first_leaf (BNot t) = first_leaf t"
| "first_leaf (BAnd a b) = first_leaf a"
| "first_leaf (BOr a b) = first_leaf a"

text \<open>Kleene's connectives; \<open>None\<close> is UNKNOWN.\<close>

definition and3 :: "bool option \<Rightarrow> bool option \<Rightarrow> bool option" where
  "and3 a b =
     (if a = Some False \<or> b = Some False then Some False
      else if a = Some True \<and> b = Some True then Some True else None)"

definition or3 :: "bool option \<Rightarrow> bool option \<Rightarrow> bool option" where
  "or3 a b =
     (if a = Some True \<or> b = Some True then Some True
      else if a = Some False \<and> b = Some False then Some False else None)"

fun truth :: "(nat \<Rightarrow> bool option) \<Rightarrow> bool_tree \<Rightarrow> bool option" where
  "truth leaf (BLeaf s) = leaf s"
| "truth leaf (BNot t) = map_option Not (truth leaf t)"
| "truth leaf (BAnd a b) = and3 (truth leaf a) (truth leaf b)"
| "truth leaf (BOr a b) = or3 (truth leaf a) (truth leaf b)"

lemma three_cases: obtains "x = None" | "x = Some True" | "x = Some False"
  by (cases x) auto

lemma leaves_nonempty [simp]: "leaves t \<noteq> []"
  by (induction t) auto

lemma hd_leaves: "hd (leaves t) = first_leaf t"
  by (induction t) auto

section \<open>The stacks hold trees in postorder\<close>

fun bsize :: "bool_tree \<Rightarrow> nat" where
  "bsize (BLeaf s) = 1"
| "bsize (BNot t) = bsize t + 1"
| "bsize (BAnd a b) = bsize a + bsize b + 1"
| "bsize (BOr a b) = bsize a + bsize b + 1"

fun postorder :: "bool_tree \<Rightarrow> nat \<Rightarrow> node list" where
  "postorder (BLeaf s) off =
     [\<lparr>node_kind = LeafOperator, node_left = 0, node_right = 0, node_first = s\<rparr>]"
| "postorder (BNot t) off = postorder t off @
     [\<lparr>node_kind = NotOperator, node_left = off + bsize t - 1, node_right = off + bsize t - 1,
       node_first = first_leaf t\<rparr>]"
| "postorder (BAnd a b) off = postorder a off @ postorder b (off + bsize a) @
     [\<lparr>node_kind = AndOperator, node_left = off + bsize a - 1, node_right = off + bsize a + bsize b - 1,
       node_first = first_leaf a\<rparr>]"
| "postorder (BOr a b) off = postorder a off @ postorder b (off + bsize a) @
     [\<lparr>node_kind = OrOperator, node_left = off + bsize a - 1, node_right = off + bsize a + bsize b - 1,
       node_first = first_leaf a\<rparr>]"

lemma length_postorder [simp]: "length (postorder t off) = bsize t"
  by (induction t arbitrary: off) auto

lemma bsize_pos [simp]: "0 < bsize t" "bsize t \<noteq> 0"
  by (cases t; simp)+

lemma postorder_nonempty [simp]: "postorder t off \<noteq> []"
  by (metis bsize_pos(2) length_postorder list.size(3))

lemma last_postorder_first: "node_first (last (postorder t off)) = first_leaf t"
  by (cases t) auto

text \<open>Stacks of trees, the top first, and the state they stand for.\<close>

fun layouts :: "bool_tree list \<Rightarrow> node list" where
  "layouts [] = []"
| "layouts (t # ts) = layouts ts @ postorder t (length (layouts ts))"

fun roots :: "bool_tree list \<Rightarrow> nat list" where
  "roots [] = []"
| "roots (t # ts) = (length (layouts ts) + bsize t - 1) # roots ts"

definition represents :: "syntax_state \<Rightarrow> bool_tree list \<Rightarrow> bool" where
  "represents s ts \<longleftrightarrow> nodes s = layouts ts \<and> value_stack s = roots ts"

lemma length_roots [simp]: "length (roots ts) = length ts"
  by (induction ts) auto

fun apply_operator :: "operator \<Rightarrow> bool_tree list \<Rightarrow> bool_tree list option" where
  "apply_operator NotOperator (t # ts) = Some (BNot t # ts)"
| "apply_operator AndOperator (b # a # ts) = Some (BAnd a b # ts)"
| "apply_operator OrOperator (b # a # ts) = Some (BOr a b # ts)"
| "apply_operator op ts = None"

lemma represents_new: "represents new_syntax []"
  by (simp add: represents_def new_syntax_def)

lemma represents_leaf:
  assumes "represents s ts" and "push_leaf stage s = Inr s'"
  shows "represents s' (BLeaf stage # ts)" and "operator_stack s' = operator_stack s"
  using assms by (auto simp: represents_def push_leaf_def push_node_def split: if_splits)

lemma represents_operator:
  assumes "represents s ts" and "push_operator op s = Inr s'"
  shows "represents s' ts" and "operator_stack s' = op # operator_stack s"
  using assms by (auto simp: represents_def push_operator_def split: if_splits)

lemma layouts_root: "layouts (t # ts) ! (length (layouts ts) + bsize t - 1) = last (postorder t (length (layouts ts)))"
proof -
  have "length (layouts ts) + bsize t - 1 = length (layouts ts) + (bsize t - 1)"
    using bsize_pos(1) [of t] by linarith
  then show ?thesis by (simp only: layouts.simps nth_append_length_plus) (simp add: last_conv_nth)
qed

lemma represents_reduce:
  assumes "represents s ts" and "reduce span s = Some (Inr s')" and "LeafOperator \<notin> set (operator_stack s)"
  obtains op ops ts' where "operator_stack s = op # ops" and "operator_stack s' = ops"
    and "apply_operator op ts = Some ts'" and "represents s' ts'"
proof -
  from assms(2) obtain op ops where ops: "operator_stack s = op # ops"
    by (auto simp: reduce_def split: list.splits)
  have vs: "value_stack s = roots ts" and ns: "nodes s = layouts ts"
    using assms(1) by (simp_all add: represents_def)
  have len: "length (layouts (b # a # us)) = length (layouts us) + bsize a + bsize b" for a b us by simp
  have op: "op \<in> {NotOperator, AndOperator, OrOperator}"
    using assms(2,3) ops by (cases op) (auto simp: reduce_def)
  show thesis
  proof (cases "op = NotOperator")
    case True
    with assms(2) ops vs obtain t us where ts: "ts = t # us"
      by (cases ts) (auto simp: reduce_def Let_def)
    let ?n = "\<lparr>node_kind = NotOperator, node_left = length (layouts us) + bsize t - 1,
      node_right = length (layouts us) + bsize t - 1, node_first = first_leaf t\<rparr>"
    have first: "node_first (nodes s ! (length (layouts us) + bsize t - 1)) = first_leaf t"
      unfolding ns ts layouts_root by (rule last_postorder_first)
    have p: "push_node ?n (s\<lparr>operator_stack := ops, value_stack := roots us\<rparr>) = Inr s'"
      using assms(2) first by (simp add: reduce_def ops True vs ts Let_def)
    have "apply_operator op ts = Some (BNot t # us)" by (simp add: True ts)
    moreover have "represents s' (BNot t # us)" "operator_stack s' = ops"
      using p ns by (auto simp: push_node_def represents_def ts split: if_splits)
    ultimately show thesis using ops that by blast
  next
    case False
    with assms(2) ops vs obtain b a us where ts: "ts = b # a # us"
      by (cases ts; cases "tl ts") (auto simp: reduce_def Let_def split: if_splits)
    let ?n = "\<lparr>node_kind = op, node_left = length (layouts us) + bsize a - 1,
      node_right = length (layouts us) + bsize a + bsize b - 1, node_first = first_leaf a\<rparr>"
    have "nodes s ! (length (layouts us) + bsize a - 1) = layouts (a # us) ! (length (layouts us) + bsize a - 1)"
      unfolding ns ts layouts.simps(2) [of b] by (subst nth_append) simp
    then have first: "node_first (nodes s ! (length (layouts us) + bsize a - 1)) = first_leaf a"
      unfolding layouts_root by (simp only: last_postorder_first)
    have p: "push_node ?n (s\<lparr>operator_stack := ops, value_stack := roots us\<rparr>) = Inr s'"
      using assms(2) first False op by (auto simp: reduce_def ops vs ts Let_def)
    define t where "t = (if op = AndOperator then BAnd a b else BOr a b)"
    have "apply_operator op ts = Some (t # us)" using op False by (auto simp: ts t_def)
    moreover have "represents s' (t # us)" "operator_stack s' = ops"
      using p ns op False by (auto simp: push_node_def represents_def ts t_def split: if_splits)
    ultimately show thesis using ops that by blast
  qed
qed

section \<open>Compiling a tree\<close>

text \<open>The requests a tree's root passes down, in the order the backward walk resolves them.\<close>

fun assign :: "bool_tree \<Rightarrow> nat \<Rightarrow> filter_control \<Rightarrow> filter_control list \<Rightarrow> db_error + filter_control list" where
  "assign (BLeaf s) len c parsed =
     attempt (relative s (matched c)) (\<lambda>m. attempt (relative s (other c)) (\<lambda>n.
       Inr (parsed[s := \<lparr>matched = m, other = n, region_end = len - s, negated = negated c\<rparr>])))"
| "assign (BNot t) len c parsed = assign t len (c\<lparr>negated := \<not> negated c\<rparr>) parsed"
| "assign (BAnd a b) len c parsed =
     attempt (assign b len c parsed)
       (assign a len (left_request AndOperator (first_leaf b) c))"
| "assign (BOr a b) len c parsed =
     attempt (assign b len c parsed)
       (assign a len (left_request OrOperator (first_leaf b) c))"

definition at_nodes :: "node list \<Rightarrow> nat \<Rightarrow> bool_tree \<Rightarrow> bool" where
  "at_nodes ns off t \<longleftrightarrow> (\<forall>i<bsize t. ns ! (off + i) = postorder t off ! i)"

lemma at_nodes_root: "at_nodes ns off t \<Longrightarrow> ns ! (off + bsize t - 1) = last (postorder t off)"
proof -
  assume a: "at_nodes ns off t"
  have "bsize t - 1 < bsize t" by simp
  with a have "ns ! (off + (bsize t - 1)) = postorder t off ! (bsize t - 1)" by (simp only: at_nodes_def)
  moreover have "off + bsize t - 1 = off + (bsize t - 1)" using bsize_pos(1) [of t] by linarith
  ultimately show ?thesis by (simp add: last_conv_nth)
qed

lemma at_nodes_split:
  assumes "postorder t off = postorder a off @ postorder b (off + bsize a) @ [n]" and "at_nodes ns off t"
    and "bsize t = bsize a + bsize b + 1"
  shows "at_nodes ns off a" and "at_nodes ns (off + bsize a) b" and "ns ! (off + bsize a + bsize b) = n"
proof -
  have all: "ns ! (off + i) = (postorder a off @ postorder b (off + bsize a) @ [n]) ! i" if "i < bsize a + bsize b + 1" for i
    using assms that by (simp add: at_nodes_def)
  show "at_nodes ns off a" using all by (auto simp: at_nodes_def nth_append)
  show "at_nodes ns (off + bsize a) b"
    unfolding at_nodes_def
  proof (intro allI impI)
    fix i assume "i < bsize b"
    then show "ns ! (off + bsize a + i) = postorder b (off + bsize a) ! i"
      using all [of "bsize a + i"] by (simp add: nth_append add.assoc)
  qed
  show "ns ! (off + bsize a + bsize b) = n"
    using all [of "bsize a + bsize b"] by (simp add: nth_append add.assoc)
qed

definition places :: "bool_tree \<Rightarrow> node list \<Rightarrow> nat \<Rightarrow> nat \<Rightarrow> bool" where
  "places t ns len off \<longleftrightarrow>
     (\<forall>controls c parsed. off + bsize t \<le> length controls \<longrightarrow> controls ! (off + bsize t - 1) = c \<longrightarrow>
       (\<exists>controls'. length controls' = length controls \<and> (\<forall>j<off. controls' ! j = controls ! j)
        \<and> place_nodes ns len (off + bsize t) (controls, parsed) =
            attempt (assign t len c parsed) (\<lambda>parsed'. place_nodes ns len off (controls', parsed'))))"

lemma placesE:
  assumes "places t ns len off" and "off + bsize t \<le> length controls" and "controls ! (off + bsize t - 1) = c"
  obtains controls' where "length controls' = length controls" and "\<And>j. j < off \<Longrightarrow> controls' ! j = controls ! j"
    and "place_nodes ns len (off + bsize t) (controls, parsed) =
      attempt (assign t len c parsed) (\<lambda>parsed'. place_nodes ns len off (controls', parsed'))"
  using assms unfolding places_def by blast

lemma place_binary:
  assumes "kind \<in> {AndOperator, OrOperator}"
    and n: "ns ! (off + bsize a + bsize b) =
      \<lparr>node_kind = kind, node_left = off + bsize a - 1, node_right = off + bsize a + bsize b - 1,
       node_first = first_leaf a\<rparr>"
    and right: "node_first (ns ! (off + bsize a + bsize b - 1)) = first_leaf b"
    and pa: "places a ns len off" and pb: "places b ns len (off + bsize a)"
    and len: "off + bsize a + bsize b < length controls" and root: "controls ! (off + bsize a + bsize b) = c"
  shows "\<exists>controls'. length controls' = length controls \<and> (\<forall>j<off. controls' ! j = controls ! j)
    \<and> place_nodes ns len (Suc (off + bsize a + bsize b)) (controls, parsed) =
        attempt (attempt (assign b len c parsed) (assign a len (left_request kind (first_leaf b) c)))
          (\<lambda>parsed'. place_nodes ns len off (controls', parsed'))"
proof -
  let ?q = "off + bsize a" let ?r = "?q + bsize b" let ?c = "left_request kind (first_leaf b) c"
  let ?C = "controls[?r - 1 := c, ?q - 1 := ?c]"
  have pos: "0 < bsize a" "0 < bsize b" by simp_all
  have step: "place_nodes ns len (Suc ?r) (controls, parsed) = place_nodes ns len ?r (?C, parsed)"
    using assms(1) by (auto simp: place_node_def n root right [unfolded One_nat_def])
  have Cb: "?C ! (?q + bsize b - 1) = c" "?C ! (?q - 1) = ?c"
    using len pos by (auto simp: nth_list_update simp del: bsize_pos)
  have "?q + bsize b \<le> length ?C" using len by simp
  from placesE [OF pb this Cb(1)] obtain C1 where C1: "length C1 = length ?C" "\<And>j. j < ?q \<Longrightarrow> C1 ! j = ?C ! j"
    "place_nodes ns len ?r (?C, parsed) = attempt (assign b len c parsed) (\<lambda>p. place_nodes ns len ?q (C1, p))"
    by metis
  have C1q: "C1 ! (off + bsize a - 1) = ?c" using C1(2) [of "?q - 1"] Cb(2) pos by (simp del: bsize_pos)
  have C1l: "off + bsize a \<le> length C1" using C1(1) len by simp
  show ?thesis
  proof (cases "assign b len c parsed")
    case (Inl e)
    then show ?thesis using step C1(3) by (intro exI [of _ controls]) (simp del: place_nodes.simps)
  next
    case (Inr p)
    from placesE [OF pa C1l C1q] obtain C2 where C2: "length C2 = length C1" "\<And>j. j < off \<Longrightarrow> C2 ! j = C1 ! j"
      "place_nodes ns len ?q (C1, p) = attempt (assign a len ?c p) (\<lambda>p. place_nodes ns len off (C2, p))" by metis
    have "C2 ! j = controls ! j" if "j < off" for j
      using that C2(2) C1(2) pos by (simp add: nth_list_update del: bsize_pos)
    then show ?thesis using step C1 C2 Inr by (intro exI [of _ C2]) (simp del: place_nodes.simps)
  qed
qed

lemma place_tree: "at_nodes ns off t \<Longrightarrow> places t ns len off"
proof (induction t arbitrary: off)
  case (BLeaf s)
  from BLeaf.prems have n: "ns ! off = \<lparr>node_kind = LeafOperator, node_left = 0, node_right = 0, node_first = s\<rparr>"
    by (simp add: at_nodes_def)
  show ?case
    unfolding places_def
    by (intro allI impI, rule exI) (auto simp: place_node_def n attempt_def split: sum.split)
next
  case (BNot t)
  let ?r = "off + bsize t"
  have "at_nodes ns off t" using BNot.prems by (auto simp: at_nodes_def nth_append)
  note p = BNot.IH [OF this]
  have n: "ns ! ?r = \<lparr>node_kind = NotOperator, node_left = ?r - 1, node_right = ?r - 1, node_first = first_leaf t\<rparr>"
    using at_nodes_root [OF BNot.prems] by simp
  have pos: "0 < bsize t" by simp
  show ?case
    unfolding places_def
  proof (intro allI impI)
    fix controls :: "filter_control list" and c parsed
    assume len: "off + bsize (BNot t) \<le> length controls" and root: "controls ! (off + bsize (BNot t) - 1) = c"
    let ?c = "c\<lparr>negated := \<not> negated c\<rparr>" let ?C = "controls[?r - 1 := ?c]"
    have "?C ! (off + bsize t - 1) = ?c" "off + bsize t \<le> length ?C" using len by (simp_all add: nth_list_update)
    from placesE [OF p this(2,1)] obtain C' where C': "length C' = length ?C" "\<And>j. j < off \<Longrightarrow> C' ! j = ?C ! j"
      "place_nodes ns len ?r (?C, parsed) = attempt (assign t len ?c parsed) (\<lambda>p. place_nodes ns len off (C', p))"
      by metis
    have "C' ! j = controls ! j" if "j < off" for j
      using that C'(2) pos by (simp add: nth_list_update del: bsize_pos)
    moreover have "place_nodes ns len (off + bsize (BNot t)) (controls, parsed) = place_nodes ns len ?r (?C, parsed)"
      using root by (simp add: place_node_def n)
    ultimately show "\<exists>controls'. length controls' = length controls \<and> (\<forall>j<off. controls' ! j = controls ! j)
        \<and> place_nodes ns len (off + bsize (BNot t)) (controls, parsed) =
            attempt (assign (BNot t) len c parsed) (\<lambda>parsed'. place_nodes ns len off (controls', parsed'))"
      using C'(1,3) by (intro exI [of _ C']) simp
  qed
next
  case (BAnd a b)
  note parts = at_nodes_split [OF _ BAnd.prems, of a b, simplified]
  have right: "node_first (ns ! (off + bsize a + bsize b - 1)) = first_leaf b"
    using at_nodes_root [OF parts(2)] last_postorder_first [of b "off + bsize a"] by simp
  show ?case
    unfolding places_def
    using place_binary [of AndOperator ns off a b len, OF _ parts(3) right BAnd.IH(1) [OF parts(1)] BAnd.IH(2) [OF parts(2)]]
    by (simp add: add.assoc)
next
  case (BOr a b)
  note parts = at_nodes_split [OF _ BOr.prems, of a b, simplified]
  have right: "node_first (ns ! (off + bsize a + bsize b - 1)) = first_leaf b"
    using at_nodes_root [OF parts(2)] last_postorder_first [of b "off + bsize a"] by simp
  show ?case
    unfolding places_def
    using place_binary [of OrOperator ns off a b len, OF _ parts(3) right BOr.IH(1) [OF parts(1)] BOr.IH(2) [OF parts(2)]]
    by (simp add: add.assoc)
qed

lemma postorder_at: "nodes s = postorder t 0 \<Longrightarrow> at_nodes (nodes s) 0 t"
  by (simp add: at_nodes_def)

lemma finish_filter_assigns:
  assumes "represents s [t]" and "operator_stack s = []" and "bsize t \<le> max_tokens"
  shows "finish_filter s len span parsed =
    Some (assign t len \<lparr>matched = len, other = no_target, region_end = 0, negated = False\<rparr> parsed)"
proof -
  let ?c = "\<lparr>matched = len, other = no_target, region_end = 0, negated = False\<rparr>"
  let ?C = "(replicate max_tokens linear_control)[bsize t - 1 := ?c]"
  have s: "nodes s = postorder t 0" "value_stack s = [bsize t - 1]"
    using assms(1) by (simp_all add: represents_def)
  have pos: "0 < bsize t" by simp
  have "0 + bsize t \<le> length ?C" "?C ! (0 + bsize t - 1) = ?c" using assms(3) pos by (simp_all del: bsize_pos)
  from placesE [OF place_tree [OF postorder_at [OF s(1)]] this] obtain C where
    "place_nodes (nodes s) len (0 + bsize t) (?C, parsed) =
      attempt (assign t len ?c parsed) (\<lambda>p. place_nodes (nodes s) len 0 (C, p))" by metis
  then have "place_nodes (nodes s) len (bsize t) (?C, parsed) = map_sum id (Pair C) (assign t len ?c parsed)"
    by (cases "assign t len ?c parsed") simp_all
  then show ?thesis
    using assms(2) s by (cases "assign t len ?c parsed") (simp_all add: finish_filter_def)
qed

text \<open>\<open>finish_filter\<close> first applies the operators still pending.\<close>

fun apply_all :: "operator list \<Rightarrow> bool_tree list \<Rightarrow> bool_tree list option" where
  "apply_all [] ts = Some ts"
| "apply_all (op # ops) ts = Option.bind (apply_operator op ts) (apply_all ops)"

lemma reduce_room:
  "reduce span s = Some (Inr s') \<Longrightarrow> length (nodes s) \<le> max_tokens \<Longrightarrow> length (nodes s') \<le> max_tokens"
  by (auto simp: reduce_def push_node_def Let_def split: list.splits if_splits)

lemma reduce_all_step:
  assumes "reduce_all (Suc fuel) span s = Some (Inr s')" and "operator_stack s \<noteq> []"
  obtains u where "reduce span s = Some (Inr u)" and "reduce_all fuel span u = Some (Inr s')"
proof -
  from assms have "Option.bind (reduce span s) (\<lambda>r. case r of Inl e \<Rightarrow> Some (Inl e) | Inr s \<Rightarrow> reduce_all fuel span s) = Some (Inr s')"
    by (subst (asm) reduce_all.simps) simp
  then show thesis using that by (cases "reduce span s"; cases "the (reduce span s)") simp_all
qed

lemma represents_reduce_all:
  assumes "represents s ts" and "LeafOperator \<notin> set (operator_stack s)" and "length (nodes s) \<le> max_tokens"
    and "reduce_all fuel span s = Some (Inr s')"
  shows "\<exists>ts'. apply_all (operator_stack s) ts = Some ts' \<and> represents s' ts' \<and> operator_stack s' = []
    \<and> length (nodes s') \<le> max_tokens"
  using assms
proof (induction fuel arbitrary: s ts)
  case 0
  then show ?case by (auto split: if_splits)
next
  case (Suc fuel)
  show ?case
  proof (cases "operator_stack s = []")
    case True
    with Suc.prems show ?thesis by auto
  next
    case False
    from reduce_all_step [OF Suc.prems(4) False] obtain u where
      u: "reduce span s = Some (Inr u)" "reduce_all fuel span u = Some (Inr s')" .
    show ?thesis
    proof (rule represents_reduce [OF Suc.prems(1) u(1) Suc.prems(2)])
      fix op ops us
      assume o: "operator_stack s = op # ops" "operator_stack u = ops" "apply_operator op ts = Some us" "represents u us"
      with Suc.IH [OF o(4) _ reduce_room [OF u(1) Suc.prems(3)] u(2)] Suc.prems(2) show ?thesis by simp
    qed
  qed
qed

lemma finish_filter_reduces:
  assumes "represents s ts" and "LeafOperator \<notin> set (operator_stack s)" and "length (nodes s) \<le> max_tokens"
    and "finish_filter s len span parsed = Some (Inr cs)"
  obtains t where "apply_all (operator_stack s) ts = Some [t]" and "bsize t \<le> max_tokens"
    and "assign t len \<lparr>matched = len, other = no_target, region_end = 0, negated = False\<rparr> parsed = Inr cs"
proof -
  from assms(4) obtain u where u: "reduce_all (length (operator_stack s)) span s = Some (Inr u)"
      "length (value_stack u) = 1"
    by (auto simp: finish_filter_def attempt_Inr_conv split: if_splits)
  from represents_reduce_all [OF assms(1-3) u(1)] obtain us where
    us: "apply_all (operator_stack s) ts = Some us" "represents u us" "operator_stack u = []" "length (nodes u) \<le> max_tokens"
    by blast
  with u(2) obtain t where t: "us = [t]" by (cases us) (auto simp: represents_def)
  with us have "bsize t \<le> max_tokens" by (simp add: represents_def)
  moreover have "finish_filter s len span parsed = finish_filter u len span parsed"
    using u(1) us(3) by (simp add: finish_filter_def)
  ultimately show thesis
    using that us t finish_filter_assigns [of u t len span parsed] assms(4) by simp
qed

section \<open>Branches decide the tree\<close>

text \<open>One decision at a leaf: the absolute target it leads to.\<close>

definition decision :: "filter_control list \<Rightarrow> (nat \<Rightarrow> bool option) \<Rightarrow> nat \<Rightarrow> nat" where
  "decision cs leaf i =
     (let c = cs ! i; offset = (if leaf i = Some (\<not> negated c) then matched c else other c)
      in if offset = 0 then no_target else i + offset)"

inductive leads :: "filter_control list \<Rightarrow> (nat \<Rightarrow> bool option) \<Rightarrow> nat \<Rightarrow> nat \<Rightarrow> nat \<Rightarrow> nat \<Rightarrow> bool"
  for cs leaf lo hi where
  arrive: "lo \<le> i \<Longrightarrow> i < hi \<Longrightarrow> decision cs leaf i = j \<Longrightarrow> leads cs leaf lo hi i j"
| onward: "lo \<le> i \<Longrightarrow> i < hi \<Longrightarrow> decision cs leaf i = k \<Longrightarrow> k \<noteq> no_target \<Longrightarrow>
    leads cs leaf lo hi k j \<Longrightarrow> leads cs leaf lo hi i j"

lemma leads_trans:
  "leads cs leaf lo hi i k \<Longrightarrow> k \<noteq> no_target \<Longrightarrow> leads cs leaf lo hi k j \<Longrightarrow> leads cs leaf lo hi i j"
  by (induction rule: leads.induct) (auto intro: leads.intros)

lemma leads_mono:
  "leads cs leaf lo hi i j \<Longrightarrow> lo' \<le> lo \<Longrightarrow> hi \<le> hi' \<Longrightarrow> (\<And>k. lo \<le> k \<Longrightarrow> k < hi \<Longrightarrow> cs' ! k = cs ! k) \<Longrightarrow>
     leads cs' leaf lo' hi' i j"
proof (induction rule: leads.induct)
  case (arrive i j)
  then have "decision cs' leaf i = j" by (simp add: decision_def)
  with arrive show ?case by (intro leads.arrive) auto
next
  case (onward i k j)
  then have "decision cs' leaf i = k" by (simp add: decision_def)
  moreover have "lo' \<le> i" "i < hi'" "leads cs' leaf lo' hi' k j" using onward by simp_all
  ultimately show ?case using onward(4) by (intro leads.onward [of lo' i hi' cs' leaf k j])
qed

lemma leaves_upt_split:
  assumes "xs @ ys = [f..<e]" and "xs \<noteq> []" and "ys \<noteq> []"
  shows "xs = [f..<hd ys] \<and> ys = [hd ys..<e] \<and> f < hd ys \<and> hd ys < e"
proof -
  have len: "length xs + length ys = e - f" using arg_cong [OF assms(1), of length] by simp
  have pos: "0 < length xs" "0 < length ys" using assms(2,3) by simp_all
  have "take (length xs) [f..<e] = [f..<f + length xs]" using len pos by (intro take_upt) linarith
  moreover have "drop (length xs) [f..<e] = [f + length xs..<e]" by simp
  ultimately have x: "xs = [f..<f + length xs]" and y: "ys = [f + length xs..<e]"
    using assms(1) by (metis append_eq_conv_conj)+
  have m: "f + length xs < e" using len pos by linarith
  have "hd ys = f + length xs" by (subst y, rule hd_upt) (rule m)
  with x y m pos(1) show ?thesis by simp
qed

definition target_ok :: "nat \<Rightarrow> nat \<Rightarrow> nat \<Rightarrow> bool" where
  "target_ok len e t \<longleftrightarrow> t = no_target \<or> e \<le> t \<and> t \<le> len"

text \<open>A request has somewhere to go, and so has a placed decision, never past the WHERE's end.\<close>

definition request_ok :: "nat \<Rightarrow> nat \<Rightarrow> filter_control \<Rightarrow> bool" where
  "request_ok len e c \<longleftrightarrow>
     target_ok len e (matched c) \<and> target_ok len e (other c) \<and> (matched c \<noteq> no_target \<or> other c \<noteq> no_target)"

definition branch_ok :: "nat \<Rightarrow> nat \<Rightarrow> filter_control \<Rightarrow> bool" where
  "branch_ok len i c \<longleftrightarrow>
     region_end c = len - i \<and> matched c \<le> len - i \<and> other c \<le> len - i \<and> (matched c \<noteq> 0 \<or> other c \<noteq> 0)"

lemma relative_ok: "s < t \<or> t = no_target \<Longrightarrow> relative s t = Inr (if t = no_target then 0 else t - s)"
  by (auto simp: relative_def)

definition connective :: "operator \<Rightarrow> bool option \<Rightarrow> bool option \<Rightarrow> bool option" where
  "connective kind = (if kind = AndOperator then and3 else or3)"

lemma binary_decides:
  assumes "kind \<in> {AndOperator, OrOperator}" and "f < m" and "m < e" and "e < no_target"
    and a: "leads cs leaf f m f
      (if ta = Some (\<not> negated c) then matched (left_request kind m c) else other (left_request kind m c))"
    and b: "leads csb leaf m e m (if tb = Some (\<not> negated c) then matched c else other c)"
    and same: "\<And>i. m \<le> i \<Longrightarrow> cs ! i = csb ! i"
  shows "leads cs leaf f e f (if connective kind ta tb = Some (\<not> negated c) then matched c else other c)"
proof -
  let ?ta = "if ta = Some (\<not> negated c) then matched (left_request kind m c) else other (left_request kind m c)"
  let ?tb = "if tb = Some (\<not> negated c) then matched c else other c"
  let ?t = "if connective kind ta tb = Some (\<not> negated c) then matched c else other c"
  have a': "leads cs leaf f e f ?ta" using leads_mono [OF a, of f e cs] assms(3) by simp
  have b': "leads cs leaf f e m ?tb" using leads_mono [OF b, of f e cs] assms(2) same by simp
  have "?ta = m \<and> ?t = ?tb \<or> ?t = ?ta"
    using assms(1)
    by (cases ta rule: three_cases; cases tb rule: three_cases; cases "negated c")
      (auto simp: left_request_def connective_def and3_def or3_def Let_def)
  moreover have "leads cs leaf f e f z" if "x = m \<and> z = y \<or> z = x" "leads cs leaf f e f x" "leads cs leaf f e m y" for x y z
  proof -
    have "m \<noteq> no_target" using assms(3,4) by simp
    with that leads_trans [of cs leaf f e f m y] show ?thesis by auto
  qed
  ultimately show ?thesis using a' b' by blast
qed

definition decided_by ::
    "bool_tree \<Rightarrow> nat \<Rightarrow> nat \<Rightarrow> nat \<Rightarrow> filter_control \<Rightarrow> filter_control list \<Rightarrow> filter_control list \<Rightarrow> bool" where
  "decided_by t f e len c parsed cs \<longleftrightarrow>
     assign t len c parsed = Inr cs \<and> length cs = length parsed
    \<and> (\<forall>i. i < f \<or> e \<le> i \<longrightarrow> cs ! i = parsed ! i)
    \<and> (\<forall>i. f \<le> i \<longrightarrow> i < e \<longrightarrow> branch_ok len i (cs ! i))
    \<and> (\<forall>leaf. leads cs leaf f e f (if truth leaf t = Some (\<not> negated c) then matched c else other c))"

lemma left_request_targets:
  "request_ok len e c \<Longrightarrow> m \<le> e \<Longrightarrow> m \<le> len \<Longrightarrow> m < no_target \<Longrightarrow> request_ok len m (left_request kind m c)"
  by (auto simp: request_ok_def target_ok_def left_request_def Let_def)

lemma binary_decided:
  assumes kind: "kind \<in> {AndOperator, OrOperator}" and "f < m" and "m < e" and "e < no_target"
    and b: "decided_by b m e len c parsed csb"
    and a: "decided_by a f m len (left_request kind m c) csb cs"
    and t: "\<And>leaf. truth leaf t = connective kind (truth leaf a) (truth leaf b)"
    and as: "assign t len c parsed = attempt (assign b len c parsed) (assign a len (left_request kind m c))"
  shows "decided_by t f e len c parsed cs"
proof -
  have neg: "negated (left_request kind m c) = negated c" by (simp add: left_request_def Let_def)
  have "leads cs leaf f e f (if truth leaf t = Some (\<not> negated c) then matched c else other c)" for leaf
    unfolding t
    using a b by (intro binary_decides [OF kind assms(2,3,4), where csb = csb]) (simp_all add: decided_by_def neg)
  with a b as assms(2,3) show ?thesis
    by (auto simp: decided_by_def)
qed

lemma assign_decides:
  assumes "leaves t = [f..<e]" and "e \<le> length parsed" and "e < no_target"
    and "request_ok len e c" and "e \<le> len"
  shows "\<exists>cs. decided_by t f e len c parsed cs"
  using assms
proof (induction t arbitrary: f e c parsed)
  case (BLeaf s)
  then have "f < e" by (cases "f < e") auto
  with BLeaf.prems(1) have s: "s = f" "e = Suc f" by (auto simp: upt_conv_Cons dest: sym [of "[]"])
  let ?abs = "\<lambda>t. if t = no_target then 0 else t - s"
  let ?d = "\<lparr>matched = ?abs (matched c), other = ?abs (other c), region_end = len - s, negated = negated c\<rparr>"
  have "s < matched c \<or> matched c = no_target" "s < other c \<or> other c = no_target"
    using BLeaf.prems(4) s by (auto simp: request_ok_def target_ok_def)
  then have a: "assign (BLeaf s) len c parsed = Inr (parsed[s := ?d])" by (simp add: relative_ok)
  have "leads (parsed[s := ?d]) leaf f e f (if truth leaf (BLeaf s) = Some (\<not> negated c) then matched c else other c)" for leaf
  proof (rule leads.arrive)
    have "parsed[s := ?d] ! f = ?d" using s BLeaf.prems(2) by simp
    then show "decision (parsed[s := ?d]) leaf f = (if truth leaf (BLeaf s) = Some (\<not> negated c) then matched c else other c)"
      using BLeaf.prems(3,4) s by (auto simp: decision_def request_ok_def target_ok_def)
  qed (use s in auto)
  moreover have "branch_ok len s ?d"
    using BLeaf.prems(3,4,5) s by (auto simp: branch_ok_def request_ok_def target_ok_def)
  ultimately have "decided_by (BLeaf s) f e len c parsed (parsed[s := ?d])"
    using a BLeaf.prems(2) s
    by (auto simp: decided_by_def less_Suc_eq)
  then show ?case ..
next
  case (BNot t)
  have "request_ok len e (c\<lparr>negated := \<not> negated c\<rparr>)"
    using BNot.prems(4) by (simp add: request_ok_def)
  from BNot.IH [OF _ BNot.prems(2,3) this BNot.prems(5)] BNot.prems(1) obtain cs where
    cs: "decided_by t f e len (c\<lparr>negated := \<not> negated c\<rparr>) parsed cs" by auto
  have "(truth leaf (BNot t) = Some (\<not> negated c)) = (truth leaf t = Some (negated c))" for leaf
    by (cases "truth leaf t") auto
  with cs have "decided_by (BNot t) f e len c parsed cs" by (auto simp: decided_by_def cong: if_cong)
  then show ?case ..
next
  case (BAnd a b)
  from leaves_upt_split [of "leaves a" "leaves b" f e] BAnd.prems(1) have
    m: "leaves a = [f..<first_leaf b]" "leaves b = [first_leaf b..<e]" "f < first_leaf b" "first_leaf b < e"
    by (simp_all add: hd_leaves)
  from BAnd.IH(2) [OF m(2) BAnd.prems(2-5)] obtain csb where b: "decided_by b (first_leaf b) e len c parsed csb" ..
  have "first_leaf b \<le> length csb" "first_leaf b < no_target"
    using b m(4) BAnd.prems(2,3) by (simp_all add: decided_by_def)
  moreover have "first_leaf b \<le> len" using m(4) BAnd.prems(5) by simp
  moreover have "request_ok len (first_leaf b) (left_request AndOperator (first_leaf b) c)"
    using calculation m(4) by (intro left_request_targets [OF BAnd.prems(4)]) auto
  ultimately obtain cs where
    a: "decided_by a f (first_leaf b) len (left_request AndOperator (first_leaf b) c) csb cs"
    using BAnd.IH(1) [OF m(1)] by blast
  have "decided_by (BAnd a b) f e len c parsed cs"
    by (rule binary_decided [OF _ m(3,4) BAnd.prems(3) b a]) (simp_all add: connective_def)
  then show ?case ..
next
  case (BOr a b)
  from leaves_upt_split [of "leaves a" "leaves b" f e] BOr.prems(1) have
    m: "leaves a = [f..<first_leaf b]" "leaves b = [first_leaf b..<e]" "f < first_leaf b" "first_leaf b < e"
    by (simp_all add: hd_leaves)
  from BOr.IH(2) [OF m(2) BOr.prems(2-5)] obtain csb where b: "decided_by b (first_leaf b) e len c parsed csb" ..
  have "first_leaf b \<le> length csb" "first_leaf b < no_target"
    using b m(4) BOr.prems(2,3) by (simp_all add: decided_by_def)
  moreover have "first_leaf b \<le> len" using m(4) BOr.prems(5) by simp
  moreover have "request_ok len (first_leaf b) (left_request OrOperator (first_leaf b) c)"
    using calculation m(4) by (intro left_request_targets [OF BOr.prems(4)]) auto
  ultimately obtain cs where
    a: "decided_by a f (first_leaf b) len (left_request OrOperator (first_leaf b) c) csb cs"
    using BOr.IH(1) [OF m(1)] by blast
  have "decided_by (BOr a b) f e len c parsed cs"
    by (rule binary_decided [OF _ m(3,4) BOr.prems(3) b a]) (simp_all add: connective_def)
  then show ?case ..
qed

section \<open>One row\<close>

text \<open>SQL's truth of a predicate on a cell: a comparison with NULL is UNKNOWN.\<close>

definition predicate_truth :: "float_unit \<Rightarrow> predicate \<Rightarrow> cell \<Rightarrow> bool option" where
  "predicate_truth fu p v =
     (case p of
        IsNull is_not \<Rightarrow> Some ((v = NullCell) \<noteq> is_not)
      | Compare IsDistinct l \<Rightarrow>
          if v = NullCell \<or> literal_is_null l then Some ((v = NullCell) \<noteq> literal_is_null l)
          else (case filter_matches fu p False v of Inl e \<Rightarrow> None | Inr b \<Rightarrow> Some b)
      | Compare IsNotDistinct l \<Rightarrow>
          if v = NullCell \<or> literal_is_null l then Some ((v = NullCell) = literal_is_null l)
          else (case filter_matches fu p False v of Inl e \<Rightarrow> None | Inr b \<Rightarrow> Some b)
      | Compare c l \<Rightarrow>
          if v = NullCell \<or> literal_is_null l then None
          else (case filter_matches fu p False v of Inl e \<Rightarrow> None | Inr b \<Rightarrow> Some b))"

lemma matches_truth:
  "filter_matches fu p neg v = Inr m \<Longrightarrow> m \<longleftrightarrow> predicate_truth fu p v = Some (\<not> neg)"
proof (cases p)
  case (IsNull is_not)
  assume "filter_matches fu p neg v = Inr m"
  with IsNull show ?thesis by (auto simp: filter_matches_def predicate_truth_def)
next
  case (Compare c l)
  assume m: "filter_matches fu p neg v = Inr m"
  show ?thesis
  proof (cases "v = NullCell \<or> literal_is_null l")
    case True
    with m Compare show ?thesis by (cases c) (auto simp: filter_matches_def predicate_truth_def)
  next
    case False
    with m Compare obtain b where "m = (b \<noteq> neg)" "filter_matches fu p False v = Inr b"
      by (auto simp: filter_matches_def attempt_Inr_conv)
    with False Compare show ?thesis by (cases c) (auto simp: predicate_truth_def)
  qed
qed

definition row_truth :: "float_unit \<Rightarrow> (nat \<Rightarrow> db_error + cell) \<Rightarrow> physical_filter \<Rightarrow> bool option" where
  "row_truth fu value_at f =
     (case value_at (filter_column f) of Inl e \<Rightarrow> None | Inr v \<Rightarrow> predicate_truth fu (filter_predicate f) v)"

definition row_ok :: "float_unit \<Rightarrow> (nat \<Rightarrow> db_error + cell) \<Rightarrow> physical_filter list \<Rightarrow> bool" where
  "row_ok fu value_at filters \<longleftrightarrow> (\<forall>f \<in> set filters. is_ok (test_filter fu value_at f))"

lemma test_filter_truth:
  assumes "row_ok fu value_at filters" and "f \<in> set filters"
  shows "test_filter fu value_at f = Inr (row_truth fu value_at f = Some (\<not> negated (filter_control f)))"
proof -
  from assms obtain m where m: "test_filter fu value_at f = Inr m" by (auto simp: row_ok_def is_ok_iff)
  then obtain v where v: "value_at (filter_column f) = Inr v"
      "filter_matches fu (filter_predicate f) (negated (filter_control f)) v = Inr m"
    by (auto simp: test_filter_def attempt_Inr_conv)
  from matches_truth [OF v(2)] m v(1) show ?thesis by (simp add: row_truth_def)
qed

text \<open>One decision of the row loop, and the loop from any filter on.\<close>

definition row_offset :: "float_unit \<Rightarrow> (nat \<Rightarrow> db_error + cell) \<Rightarrow> physical_filter \<Rightarrow> nat" where
  "row_offset fu value_at f =
     (if row_truth fu value_at f = Some (\<not> negated (filter_control f)) then matched (filter_control f)
      else other (filter_control f))"

definition retains_from :: "float_unit \<Rightarrow> (nat \<Rightarrow> db_error + cell) \<Rightarrow> physical_filter list \<Rightarrow> nat \<Rightarrow> db_error + bool" where
  "retains_from fu value_at filters i = retains_loop fu value_at filters (length filters - i) i"

lemma retains_fuel:
  "length filters - i \<le> n \<Longrightarrow> length filters - i \<le> m \<Longrightarrow> i \<le> length filters \<Longrightarrow>
     retains_loop fu value_at filters n i = retains_loop fu value_at filters m i"
proof (induction n arbitrary: i m)
  case 0
  then show ?case by (cases m) simp_all
next
  case (Suc n)
  show ?case
  proof (cases "i = length filters")
    case True
    then show ?thesis by (cases m) simp_all
  next
    case False
    with Suc.prems obtain k where m: "m = Suc k" by (cases m) auto
    have "retains_loop fu value_at filters n (i + d) = retains_loop fu value_at filters k (i + d)"
      if "d \<noteq> 0" "\<not> length filters < i + d" for d
      using Suc.prems m that by (intro Suc.IH) auto
    then show ?thesis using False by (auto simp: m attempt_def Let_def split: sum.split)
  qed
qed

lemma retains_from_end [simp]: "retains_from fu value_at filters (length filters) = Inr True"
  by (simp add: retains_from_def)

lemma retains_from_step:
  assumes ok: "row_ok fu value_at filters" and i: "i < length filters"
    and inside: "i + row_offset fu value_at (filters ! i) \<le> length filters"
  shows "retains_from fu value_at filters i =
    (if row_offset fu value_at (filters ! i) = 0 then Inr False
     else retains_from fu value_at filters (i + row_offset fu value_at (filters ! i)))"
proof -
  obtain k where k: "length filters - i = Suc k" using i by (metis Suc_diff_Suc)
  let ?d = "row_offset fu value_at (filters ! i)"
  have t: "test_filter fu value_at (filters ! i) =
      Inr (row_truth fu value_at (filters ! i) = Some (\<not> negated (filter_control (filters ! i))))"
    using test_filter_truth [OF ok] i by simp
  have "retains_from fu value_at filters i =
      (if ?d = 0 then Inr False
       else if length filters < i + ?d then Inl (Corrupt ''filter decision outside pipeline'')
       else retains_loop fu value_at filters k (i + ?d))"
    using i by (simp add: retains_from_def k t Let_def row_offset_def)
  moreover have "retains_loop fu value_at filters k (i + ?d) = retains_from fu value_at filters (i + ?d)"
    if "?d \<noteq> 0"
    unfolding retains_from_def using k that inside by (intro retains_fuel) auto
  ultimately show ?thesis using inside by simp
qed

section \<open>A compiled WHERE\<close>

text \<open>
  \<open>compiled t f fs\<close>: the parser's stacks hold exactly the tree \<open>t\<close>, whose leaves are the
  stages from \<open>f\<close> on, and the filters \<open>fs\<close> carry the branches \<open>finish_filter\<close> gave them.
\<close>

definition compiled :: "bool_tree \<Rightarrow> nat \<Rightarrow> physical_filter list \<Rightarrow> bool" where
  "compiled t f fs \<longleftrightarrow>
     (\<exists>s ts span parsed cs. represents s ts \<and> LeafOperator \<notin> set (operator_stack s)
        \<and> length (nodes s) \<le> max_tokens \<and> apply_all (operator_stack s) ts = Some [t]
        \<and> leaves t = [f..<f + length fs] \<and> f + length fs \<le> length parsed \<and> length parsed = max_stages
        \<and> finish_filter s (f + length fs) span parsed = Some (Inr cs)
        \<and> map filter_control fs = map ((!) cs) [f..<f + length fs])"

definition region_truth :: "float_unit \<Rightarrow> (nat \<Rightarrow> db_error + cell) \<Rightarrow> bool_tree \<Rightarrow> nat \<Rightarrow> physical_filter list \<Rightarrow> bool option" where
  "region_truth fu value_at t f fs = truth (\<lambda>i. row_truth fu value_at (fs ! (i - f))) t"

lemma compiledI:
  assumes "represents s ts" and "apply_all (operator_stack s) ts = Some [t]"
    and "finish_filter s (f + length fs) span parsed = Some (Inr cs)"
    and "LeafOperator \<notin> set (operator_stack s)" and "length (nodes s) \<le> max_tokens"
    and "leaves t = [f..<f + length fs]" and "f + length fs \<le> length parsed" and "length parsed = max_stages"
    and "map filter_control fs = map ((!) cs) [f..<f + length fs]"
  shows "compiled t f fs"
  using assms unfolding compiled_def by blast

lemma compiled_leads:
  assumes "compiled t f fs"
  obtains cs where "map filter_control fs = map ((!) cs) [f..<f + length fs]"
    and "f + length fs \<le> max_stages" and "0 < length fs"
    and "\<And>leaf. leads cs leaf f (f + length fs) f (if truth leaf t = Some True then f + length fs else no_target)"
    and "\<And>i. f \<le> i \<Longrightarrow> i < f + length fs \<Longrightarrow> branch_ok (f + length fs) i (cs ! i)"
proof -
  let ?e = "f + length fs" let ?c = "\<lparr>matched = ?e, other = no_target, region_end = 0, negated = False\<rparr>"
  from assms obtain s ts span parsed cs where
    s: "represents s ts" "LeafOperator \<notin> set (operator_stack s)" "length (nodes s) \<le> max_tokens"
      "apply_all (operator_stack s) ts = Some [t]" and l: "leaves t = [f..<?e]"
    and len: "?e \<le> length parsed" "length parsed = max_stages"
    and fin: "finish_filter s ?e span parsed = Some (Inr cs)" and cs: "map filter_control fs = map ((!) cs) [f..<?e]"
    unfolding compiled_def by blast
  have small: "?e < no_target" using len by (simp add: max_stages_def no_target_def)
  have "request_ok ?e ?e ?c" using small by (simp add: request_ok_def target_ok_def)
  from assign_decides [OF l len(1) small this] obtain cs' where "decided_by t f ?e ?e ?c parsed cs'" by auto
  moreover have "assign t ?e ?c parsed = Inr cs"
    by (rule finish_filter_reduces [OF s(1-3) fin]) (use s(4) in simp)
  ultimately have d: "decided_by t f ?e ?e ?c parsed cs" by (simp add: decided_by_def)
  have "fs \<noteq> []" using l leaves_nonempty [of t] by auto
  then have pos: "0 < length fs" by simp
  have small': "?e \<le> max_stages" using len by simp
  have go: "leads cs leaf f ?e f (if truth leaf t = Some True then ?e else no_target)" for leaf
    using d by (simp add: decided_by_def cong: if_cong)
  have ok: "branch_ok ?e i (cs ! i)" if "f \<le> i" "i < ?e" for i using d that by (simp add: decided_by_def)
  show thesis by (rule that [OF cs small' pos go ok])
qed

lemma region_step:
  assumes ok: "row_ok fu value_at filters"
    and at: "\<And>k. k < length fs \<Longrightarrow> filters ! (p + k) = fs ! k" and fit: "p + length fs \<le> length filters"
    and cs: "map filter_control fs = map ((!) cs) [f..<f + length fs]" and small: "f + length fs < no_target"
    and i: "f \<le> i" "i < f + length fs" and branch: "branch_ok (f + length fs) i (cs ! i)"
    and k: "decision cs (\<lambda>i. row_truth fu value_at (fs ! (i - f))) i = k"
  shows "retains_from fu value_at filters (p + (i - f)) =
      (if k = no_target then Inr False else retains_from fu value_at filters (p + (k - f)))"
proof -
  let ?d = "row_offset fu value_at (fs ! (i - f))"
  have c: "filter_control (fs ! (i - f)) = cs ! i"
    using arg_cong [OF cs, of "\<lambda>xs. xs ! (i - f)"] i by simp
  have f: "filters ! (p + (i - f)) = fs ! (i - f)" using at [of "i - f"] i by simp
  have d: "i + ?d \<le> f + length fs" using branch i by (auto simp: branch_ok_def row_offset_def c)
  have kd: "k = (if ?d = 0 then no_target else i + ?d)"
    using k unfolding decision_def row_offset_def c Let_def by (rule sym)
  have "retains_from fu value_at filters (p + (i - f)) =
      (if ?d = 0 then Inr False else retains_from fu value_at filters (p + (i - f) + ?d))"
    using retains_from_step [OF ok, of "p + (i - f)"] i fit d unfolding f by (simp del: add_diff_assoc)
  moreover have "p + (i - f) + ?d = p + (i + ?d - f)" and "i + ?d \<noteq> no_target" using d i small by auto
  ultimately show ?thesis unfolding kd by (simp only: split: if_split) simp
qed

lemma leads_follows:
  assumes ok: "row_ok fu value_at filters"
    and at: "\<And>k. k < length fs \<Longrightarrow> filters ! (p + k) = fs ! k" and fit: "p + length fs \<le> length filters"
    and cs: "map filter_control fs = map ((!) cs) [f..<f + length fs]" and small: "f + length fs < no_target"
    and branch: "\<And>i. f \<le> i \<Longrightarrow> i < f + length fs \<Longrightarrow> branch_ok (f + length fs) i (cs ! i)"
  shows "leads cs (\<lambda>i. row_truth fu value_at (fs ! (i - f))) f (f + length fs) i j \<Longrightarrow>
    retains_from fu value_at filters (p + (i - f)) =
      (if j = no_target then Inr False else retains_from fu value_at filters (p + (j - f)))"
proof (induction rule: leads.induct)
  case (arrive i j)
  show ?case by (rule region_step [OF ok at fit cs small arrive(1,2) branch [OF arrive(1,2)] arrive(3)])
next
  case (onward i k j)
  from region_step [OF ok at fit cs small onward(1,2) branch [OF onward(1,2)] onward(3)] onward(4,6)
  show ?case by simp
qed

lemma region_decides:
  assumes "row_ok fu value_at filters"
    and "filters = pre @ fs @ post" and "compiled t f fs"
  shows "retains_from fu value_at filters (length pre) =
    (if region_truth fu value_at t f fs = Some True
     then retains_from fu value_at filters (length pre + length fs) else Inr False)"
proof -
  obtain cs where cs: "map filter_control fs = map ((!) cs) [f..<f + length fs]"
    and small: "f + length fs \<le> max_stages"
    and leads: "\<And>leaf. leads cs leaf f (f + length fs) f (if truth leaf t = Some True then f + length fs else no_target)"
    and branch: "\<And>i. f \<le> i \<Longrightarrow> i < f + length fs \<Longrightarrow> branch_ok (f + length fs) i (cs ! i)"
    using compiled_leads [OF assms(3)] by metis
  have lt: "f + length fs < no_target" using small by (simp add: max_stages_def no_target_def)
  have at: "filters ! (length pre + k) = fs ! k" if "k < length fs" for k
    using that by (simp add: assms(2) nth_append)
  have fit: "length pre + length fs \<le> length filters" by (simp add: assms(2))
  from leads_follows [OF assms(1) at fit cs lt branch leads [of "\<lambda>i. row_truth fu value_at (fs ! (i - f))"]]
  show ?thesis using lt by (auto simp: region_truth_def)
qed

lemma regions_decide:
  assumes "row_ok fu value_at (pre @ concat fss)"
    and "list_all2 (\<lambda>(t, f) fs. compiled t f fs) ts fss"
  shows "retains_from fu value_at (pre @ concat fss) (length pre) =
    Inr (list_all2 (\<lambda>(t, f) fs. region_truth fu value_at t f fs = Some True) ts fss)"
  using assms(2,1)
proof (induction arbitrary: pre rule: list_all2_induct)
  case Nil
  then show ?case using retains_from_end [of fu value_at pre] by simp
next
  case (Cons tf ts fs fss)
  obtain t f where tf: "tf = (t, f)" by (cases tf)
  have "retains_from fu value_at (pre @ concat (fs # fss)) (length pre) =
    (if region_truth fu value_at t f fs = Some True
     then retains_from fu value_at (pre @ concat (fs # fss)) (length pre + length fs) else Inr False)"
    by (rule region_decides [OF Cons.prems(1), of pre fs "concat fss"]) (use Cons.hyps(1) tf in auto)
  moreover have "retains_from fu value_at ((pre @ fs) @ concat fss) (length (pre @ fs)) =
      Inr (list_all2 (\<lambda>(t, f) fs. region_truth fu value_at t f fs = Some True) ts fss)"
    by (rule Cons.IH) (use Cons.prems in simp_all)
  ultimately show ?case by (simp add: tf)
qed

section \<open>A scan of many rows\<close>

text \<open>Where a row waits once the filters before \<open>k\<close> have run.\<close>

fun waits_at :: "(physical_filter \<Rightarrow> nat) \<Rightarrow> physical_filter list \<Rightarrow> nat \<Rightarrow> nat" where
  "waits_at offset filters 0 = 0"
| "waits_at offset filters (Suc k) =
     (let n = waits_at offset filters k in
      if n \<noteq> k then n else if offset (filters ! k) = 0 then no_target else k + offset (filters ! k))"

definition branches_inside :: "physical_filter list \<Rightarrow> bool" where
  "branches_inside filters \<longleftrightarrow>
     (\<forall>i < length filters. i + matched (filter_control (filters ! i)) \<le> length filters
        \<and> i + other (filter_control (filters ! i)) \<le> length filters)"

lemma branches_insideD:
  "branches_inside filters \<Longrightarrow> i < length filters \<Longrightarrow> i + row_offset fu value_at (filters ! i) \<le> length filters"
  by (auto simp: branches_inside_def row_offset_def)

lemma waits_at_bounds:
  assumes "branches_inside filters" and "length filters < no_target" and "k \<le> length filters"
  shows "waits_at (row_offset fu value_at) filters k = no_target
    \<or> k \<le> waits_at (row_offset fu value_at) filters k \<and> waits_at (row_offset fu value_at) filters k \<le> length filters"
  using assms(3)
proof (induction k)
  case (Suc k)
  with branches_insideD [OF assms(1), of k fu value_at] show ?case by (auto simp: Let_def)
qed simp

lemma waits_at_retains:
  assumes "row_ok fu value_at filters" and "branches_inside filters" and "length filters < no_target"
    and "k \<le> length filters"
  shows "retains_from fu value_at filters 0 =
    (if waits_at (row_offset fu value_at) filters k = no_target then Inr False
     else retains_from fu value_at filters (waits_at (row_offset fu value_at) filters k))"
  using assms(4)
proof (induction k)
  case 0
  then show ?case by (simp add: no_target_def)
next
  case (Suc k)
  let ?n = "waits_at (row_offset fu value_at) filters k" and ?d = "row_offset fu value_at (filters ! k)"
  show ?case
  proof (cases "?n = k")
    case True
    have in_range: "k + ?d \<le> length filters" using branches_insideD [OF assms(2)] Suc.prems by simp
    have "retains_from fu value_at filters k = (if ?d = 0 then Inr False else retains_from fu value_at filters (k + ?d))"
      using retains_from_step [OF assms(1) _ in_range] Suc.prems by simp
    moreover have "k + ?d \<noteq> no_target" "k \<noteq> no_target" using in_range assms(3) by auto
    ultimately show ?thesis using Suc True by (simp add: Let_def)
  next
    case False
    then show ?thesis using Suc by (simp add: Let_def)
  qed
qed

definition passes :: "float_unit \<Rightarrow> (nat \<Rightarrow> nat \<Rightarrow> db_error + cell) \<Rightarrow> physical_filter \<Rightarrow> nat \<Rightarrow> bool" where
  "passes fu rows f row \<longleftrightarrow> row_truth fu (rows row) f = Some (\<not> negated (filter_control f))"

lemma row_offset_passes:
  "row_offset fu (rows row) f = (if passes fu rows f row then matched (filter_control f) else other (filter_control f))"
  by (simp add: row_offset_def passes_def)

lemma filter_source_passes:
  assumes "\<And>row. row \<in> set selection \<Longrightarrow> test_filter fu (rows row) f = Inr (passes fu rows f row)"
  shows "filter_source fu rows f selection = Inr (filter (passes fu rows f) selection)"
  using assms by (induction selection) auto

definition row_waits :: "float_unit \<Rightarrow> (nat \<Rightarrow> nat \<Rightarrow> db_error + cell) \<Rightarrow> physical_filter list \<Rightarrow> nat \<Rightarrow> nat \<Rightarrow> nat" where
  "row_waits fu rows filters k row = waits_at (row_offset fu (rows row)) filters k"

lemma row_waits_Suc:
  "row_waits fu rows filters (Suc k) row =
     (if row_waits fu rows filters k row \<noteq> k then row_waits fu rows filters k row
      else if row_offset fu (rows row) (filters ! k) = 0 then no_target
      else k + row_offset fu (rows row) (filters ! k))"
  by (simp add: row_waits_def Let_def)

lemma merge_branches_moves:
  fixes fu rows filters
  assumes "distinct selection" and "branches_inside filters" and "k < length filters"
  shows "merge_branches filters k selection (map (row_waits fu rows filters k) selection)
      (filter (passes fu rows (filters ! k)) (filter (\<lambda>row. row_waits fu rows filters k row = k) selection))
    = Inr (map (row_waits fu rows filters (Suc k)) selection, [])"
  using assms(1)
proof (induction selection)
  case (Cons row selection)
  let ?w = "row_waits fu rows filters k" and ?P = "passes fu rows (filters ! k)"
  define S where "S = filter ?P (filter (\<lambda>row. ?w row = k) selection)"
  have IH: "merge_branches filters k selection (map ?w selection) S = Inr (map (row_waits fu rows filters (Suc k)) selection, [])"
    unfolding S_def using Cons by simp
  have fresh: "hd S \<noteq> row" if "S \<noteq> []"
    using that Cons.prems hd_in_set [OF that] by (auto simp: S_def)
  have inside: "\<not> length filters < k + row_offset fu (rows row) (filters ! k)"
    using branches_insideD [OF assms(2,3)] by (simp add: not_less)
  have S: "filter ?P (filter (\<lambda>row. ?w row = k) (row # selection)) = (if ?w row = k \<and> ?P row then row # S else S)"
    by (simp add: S_def)
  show ?case
  proof (cases "?w row = k")
    case False
    then show ?thesis unfolding S using IH by (simp add: row_waits_Suc)
  next
    case at: True
    show ?thesis
      unfolding S using IH inside at fresh
      by (cases "?P row") (auto simp: row_waits_Suc row_offset_passes Let_def)
  qed
qed simp

lemma filter_branch_moves:
  assumes "distinct selection" and "\<And>row. row \<in> set selection \<Longrightarrow> row_ok fu (rows row) filters"
    and "branches_inside filters" and "k < length filters"
  shows "filter_branch fu rows filters k selection (map (row_waits fu rows filters k) selection) =
    Some (Inr (map (row_waits fu rows filters (Suc k)) selection))"
proof -
  let ?w = "row_waits fu rows filters k"
  have waiting: "map fst (filter (\<lambda>(row, n). n = k) (zip xs (map ?w xs))) = filter (\<lambda>row. ?w row = k) xs" for xs
    by (induction xs) auto
  show ?thesis
  proof (cases "filter (\<lambda>row. ?w row = k) selection = []")
    case True
    then have "\<forall>row \<in> set selection. ?w row \<noteq> k" by (simp add: filter_empty_conv)
    then have "map ?w selection = map (row_waits fu rows filters (Suc k)) selection" by (simp add: row_waits_Suc)
    then show ?thesis using True by (simp add: filter_branch_def waiting)
  next
    case False
    have source: "filter_source fu rows (filters ! k) (filter (\<lambda>row. ?w row = k) selection) =
        Inr (filter (passes fu rows (filters ! k)) (filter (\<lambda>row. ?w row = k) selection))"
      by (rule filter_source_passes) (use assms(2,4) in \<open>auto simp: passes_def intro!: test_filter_truth [where filters = filters]\<close>)
    show ?thesis
      using False source merge_branches_moves [OF assms(1,3,4), of fu rows]
      by (simp add: filter_branch_def waiting del: filter_filter)
  qed
qed

lemma branch_phases_move:
  assumes "distinct selection" and "\<And>row. row \<in> set selection \<Longrightarrow> row_ok fu (rows row) filters"
    and "branches_inside filters"
  shows "k + index = length filters \<Longrightarrow>
    branch_phases fu rows filters k index selection (map (row_waits fu rows filters index) selection) =
      Some (Inr (map (row_waits fu rows filters (length filters)) selection))"
proof (induction k arbitrary: index)
  case (Suc k)
  then have "filter_branch fu rows filters index selection (map (row_waits fu rows filters index) selection) =
      Some (Inr (map (row_waits fu rows filters (Suc index)) selection))"
    by (intro filter_branch_moves assms) simp_all
  then show ?case using Suc by simp
qed simp

lemma linear_phases_retain:
  assumes "\<not> needs_branches filters" and "\<And>row. row \<in> set selection \<Longrightarrow> row_ok fu (rows row) filters"
    and "filters = pre @ fs"
  shows "linear_phases fu rows fs selection =
    Inr (filter (\<lambda>row. retains_from fu (rows row) filters (length pre) = Inr True) selection)"
  using assms(2,3)
proof (induction fs arbitrary: pre selection)
  case Nil
  then show ?case by simp
next
  case (Cons f fs)
  have c: "matched (filter_control f) = 1" "other (filter_control f) = 0"
    using assms(1) Cons.prems(2) by (auto simp: needs_branches_def)
  have f: "filters ! length pre = f" and f': "f \<in> set filters" using Cons.prems(2) by simp_all
  have step: "retains_from fu (rows row) filters (length pre) =
      (if passes fu rows f row then retains_from fu (rows row) filters (Suc (length pre)) else Inr False)"
    if "row \<in> set selection" for row
    using retains_from_step [OF Cons.prems(1) [OF that], of "length pre"] Cons.prems(2)
    by (simp add: f row_offset_passes c)
  have source: "filter_source fu rows f selection = Inr (filter (passes fu rows f) selection)"
    by (rule filter_source_passes) (use Cons.prems(1) f' in \<open>auto simp: passes_def intro!: test_filter_truth [where filters = filters]\<close>)
  have rest: "linear_phases fu rows fs (filter (passes fu rows f) selection) =
      Inr (filter (\<lambda>row. retains_from fu (rows row) filters (length (pre @ [f])) = Inr True) (filter (passes fu rows f) selection))"
    by (rule Cons.IH) (use Cons.prems in auto)
  have "filter (\<lambda>row. retains_from fu (rows row) filters (length pre) = Inr True) selection =
      filter (\<lambda>row. retains_from fu (rows row) filters (Suc (length pre)) = Inr True) (filter (passes fu rows f) selection)"
    unfolding filter_filter by (rule filter_cong) (auto simp: step)
  then show ?case using source rest by (simp del: filter_filter)
qed

lemma scan_filters_retain:
  assumes "distinct selection" and "\<And>row. row \<in> set selection \<Longrightarrow> row_ok fu (rows row) filters"
    and "branches_inside filters" and "length filters < no_target"
  shows "scan_filters fu rows filters selection =
    Some (Inr (filter (\<lambda>row. retains fu (rows row) filters = Inr True) selection))"
proof (cases "needs_branches filters")
  case True
  let ?n = "length filters"
  have start: "replicate (length selection) 0 = map (row_waits fu rows filters 0) selection"
    by (induction selection) (simp_all add: row_waits_def)
  have kept: "map fst (filter (\<lambda>(row, n). n = ?n) (zip xs (map (row_waits fu rows filters ?n) xs))) =
      filter (\<lambda>row. row_waits fu rows filters ?n row = ?n) xs" for xs
    by (induction xs) auto
  have at: "(row_waits fu rows filters ?n row = ?n) = (retains fu (rows row) filters = Inr True)" if "row \<in> set selection" for row
  proof -
    have "retains fu (rows row) filters = retains_from fu (rows row) filters 0"
      by (simp add: retains_def retains_from_def)
    with waits_at_retains [OF assms(2) [OF that] assms(3,4) order_refl]
      waits_at_bounds [OF assms(3,4) order_refl, of fu "rows row"] assms(4)
    show ?thesis by (auto simp: row_waits_def)
  qed
  have "scan_filters fu rows filters selection =
      Some (Inr (filter (\<lambda>row. row_waits fu rows filters ?n row = ?n) selection))"
    using branch_phases_move [where k = "length filters" and index = 0, OF assms(1-3)] True
    by (simp add: scan_filters_def start kept)
  moreover have "filter (\<lambda>row. row_waits fu rows filters ?n row = ?n) selection =
      filter (\<lambda>row. retains fu (rows row) filters = Inr True) selection"
    using at by (rule filter_cong [OF refl])
  ultimately show ?thesis by simp
next
  case False
  then show ?thesis
    using linear_phases_retain [where pre = "[]", OF False assms(2)]
    by (simp add: scan_filters_def retains_def retains_from_def)
qed

section \<open>Compilation succeeds\<close>

lemma reduce_succeeds:
  assumes "represents s ts" and "operator_stack s = op # ops" and "apply_operator op ts = Some us"
    and "length (nodes s) < max_tokens" and "length ts \<le> max_tokens"
  shows "\<exists>s'. reduce span s = Some (Inr s') \<and> length (nodes s') = Suc (length (nodes s)) \<and> length us \<le> max_tokens"
proof -
  have v: "length (value_stack s) = length ts" using assms(1) by (simp add: represents_def)
  show ?thesis
  proof (cases "op = NotOperator")
    case True
    with assms(3) have "0 < length ts" "length us = length ts" by (auto elim!: apply_operator.elims)
    with True v assms(2,4,5) show ?thesis by (simp add: reduce_def push_node_def Let_def)
  next
    case False
    with assms(3) have "op \<noteq> LeftOperator" "2 \<le> length ts" "length us \<le> length ts" by (auto elim!: apply_operator.elims)
    with False v assms(2,4,5) show ?thesis by (simp add: reduce_def push_node_def Let_def)
  qed
qed

lemma reduce_all_succeeds:
  assumes "represents s ts" and "LeafOperator \<notin> set (operator_stack s)"
    and "apply_all (operator_stack s) ts = Some us"
    and "length (nodes s) + length (operator_stack s) \<le> max_tokens" and "length ts \<le> max_tokens"
    and "length (operator_stack s) \<le> fuel"
  shows "\<exists>s'. reduce_all fuel span s = Some (Inr s') \<and> represents s' us \<and> operator_stack s' = []"
  using assms
proof (induction fuel arbitrary: s ts)
  case 0
  then show ?case by simp
next
  case (Suc fuel)
  show ?case
  proof (cases "operator_stack s")
    case Nil
    with Suc.prems show ?thesis by simp
  next
    case (Cons op ops)
    with Suc.prems(3) obtain vs where vs: "apply_operator op ts = Some vs" "apply_all ops vs = Some us"
      by (auto simp: bind_eq_Some_conv)
    have room: "length (nodes s) < max_tokens" using Suc.prems(4) Cons by simp
    from reduce_succeeds [OF Suc.prems(1) Cons vs(1) room Suc.prems(5)] obtain u where
      u: "reduce span s = Some (Inr u)" "length (nodes u) = Suc (length (nodes s))" "length vs \<le> max_tokens" by blast
    have r: "represents u vs \<and> operator_stack u = ops"
      by (rule represents_reduce [OF Suc.prems(1) u(1) Suc.prems(2)]) (use Cons vs(1) in simp)
    have "\<exists>s'. reduce_all fuel span u = Some (Inr s') \<and> represents s' us \<and> operator_stack s' = []"
      by (rule Suc.IH [OF r [THEN conjunct1]]) (use Suc.prems Cons vs u r in simp_all)
    then show ?thesis
      by (subst reduce_all.simps) (simp add: Cons u(1))
  qed
qed

lemma finish_filter_succeeds:
  assumes "represents s ts" and "LeafOperator \<notin> set (operator_stack s)"
    and "apply_all (operator_stack s) ts = Some [t]" and "leaves t = [f..<len]"
    and "length (nodes s) + length (operator_stack s) \<le> max_tokens" and "length ts \<le> max_tokens"
    and "len \<le> length parsed" and "len < no_target"
  shows "\<exists>cs. finish_filter s len span parsed = Some (Inr cs) \<and> (\<forall>i. f \<le> i \<longrightarrow> i < len \<longrightarrow> branch_ok len i (cs ! i))"
proof -
  from reduce_all_succeeds [OF assms(1,2,3,5,6) order_refl] obtain u where
    u: "reduce_all (length (operator_stack s)) span s = Some (Inr u)" "represents u [t]" "operator_stack u = []" by blast
  have room: "length (nodes s) \<le> max_tokens" using assms(5) by simp
  from represents_reduce_all [OF assms(1,2) room u(1)] u(2)
  have size: "bsize t \<le> max_tokens" by (auto simp: represents_def)
  let ?c = "\<lparr>matched = len, other = no_target, region_end = 0, negated = False\<rparr>"
  have "request_ok len len ?c" using assms(8) by (simp add: request_ok_def target_ok_def)
  from assign_decides [OF assms(4,7,8) this order_refl] obtain cs where
    d: "decided_by t f len len ?c parsed cs" ..
  have cs: "assign t len ?c parsed = Inr cs" "\<forall>i. f \<le> i \<longrightarrow> i < len \<longrightarrow> branch_ok len i (cs ! i)"
    using d unfolding decided_by_def by blast+
  have "finish_filter s len span parsed = finish_filter u len span parsed"
    using u(1,3) by (simp add: finish_filter_def)
  with cs finish_filter_assigns [OF u(2,3) size] show ?thesis by auto
qed

lemma region_agrees_all:
  assumes "\<And>offset. offset \<in> set offsets \<Longrightarrow> \<exists>c. stage_filter (stages ! (index + offset)) = Some c
      \<and> region_end c = region - offset \<and> (0 < offset \<longrightarrow> stage_input (stages ! (index + offset)) = index + offset)"
  shows "region_agrees stages index region offsets = Inr ()"
  using assms
proof (induction offsets)
  case (Cons offset offsets)
  from Cons.prems [of offset] obtain c where
    c: "stage_filter (stages ! (index + offset)) = Some c" "region_end c = region - offset"
      "0 < offset \<longrightarrow> stage_input (stages ! (index + offset)) = index + offset" by auto
  have "region_agrees stages index region offsets = Inr ()" using Cons by simp
  with c show ?case by auto
qed simp

lemma branches_validate:
  assumes ok: "\<And>i. f \<le> i \<Longrightarrow> i < len \<Longrightarrow> branch_ok len i (cs ! i)"
    and stages: "\<And>i. f \<le> i \<Longrightarrow> i < len \<Longrightarrow> stage_filter (stages ! i) = Some (cs ! i)"
    and inputs: "\<And>i. f < i \<Longrightarrow> i < len \<Longrightarrow> stage_input (stages ! i) = i"
    and i: "f \<le> i" "i < len" and count: "len \<le> count"
  shows "validate_branches stages count i (cs ! i) = Inr ()"
proof -
  have b: "branch_ok len i (cs ! i)" by (rule ok [OF i])
  then have region: "region_end (cs ! i) = len - i" by (simp add: branch_ok_def)
  have "region_agrees stages i (len - i) [0..<len - i] = Inr ()"
  proof (rule region_agrees_all)
    fix offset assume "offset \<in> set [0..<len - i]"
    then have o: "i + offset < len" by simp
    then have "branch_ok len (i + offset) (cs ! (i + offset))" using i by (intro ok) simp_all
    then have "region_end (cs ! (i + offset)) = len - i - offset" by (simp add: branch_ok_def)
    then show "\<exists>c. stage_filter (stages ! (i + offset)) = Some c \<and> region_end c = len - i - offset
        \<and> (0 < offset \<longrightarrow> stage_input (stages ! (i + offset)) = i + offset)"
      using o i stages [of "i + offset"] inputs [of "i + offset"] by simp
  qed
  then show ?thesis using b i count by (auto simp: validate_branches_def branch_ok_def region Let_def)
qed

text \<open>The state after \<open>a IS NULL OR NOT b IS NULL\<close>, with both operators pending.\<close>

definition either_state :: syntax_state where
  "either_state =
     \<lparr>nodes = [\<lparr>node_kind = LeafOperator, node_left = 0, node_right = 0, node_first = 0\<rparr>,
        \<lparr>node_kind = LeafOperator, node_left = 0, node_right = 0, node_first = 1\<rparr>],
      value_stack = [1, 0], operator_stack = [NotOperator, OrOperator]\<rparr>"

definition either_filters :: "physical_filter list" where
  "either_filters =
     [\<lparr>filter_column = 0, filter_predicate = IsNull False,
        filter_control = \<lparr>matched = 2, other = 1, region_end = 2, negated = False\<rparr>\<rparr>,
      \<lparr>filter_column = 1, filter_predicate = IsNull False,
        filter_control = \<lparr>matched = 1, other = 0, region_end = 1, negated = True\<rparr>\<rparr>]"

definition either_row :: "nat \<Rightarrow> db_error + cell" where
  "either_row column = Inr (if column = 0 then Int64Cell 5 else NullCell)"

lemma either_represents: "represents either_state [BLeaf 1, BLeaf 0]"
  by (simp add: represents_def either_state_def)

lemma either_applies:
  "apply_all (operator_stack either_state) [BLeaf 1, BLeaf 0] = Some [BOr (BLeaf 0) (BNot (BLeaf 1))]"
  by (simp add: either_state_def)

lemma either_finishes:
  "finish_filter either_state 2 span (replicate max_stages linear_control) =
     Some (Inr (map filter_control either_filters @ replicate 14 linear_control))"
  by (simp add: finish_filter_def either_state_def either_filters_def reduce_def push_node_def max_tokens_def max_stages_def no_target_def linear_control_def place_node_def relative_def left_request_def Let_def numeral_2_eq_2 numeral_nat)

lemma either_compiled: "compiled (BOr (BLeaf 0) (BNot (BLeaf 1))) 0 either_filters"
proof -
  have l: "length either_filters = 2" by (simp add: either_filters_def)
  have "map filter_control either_filters =
      map ((!) (map filter_control either_filters @ replicate 14 linear_control)) [0..<2]"
    by (simp add: either_filters_def upt_rec)
  then have cs: "map filter_control either_filters =
      map ((!) (map filter_control either_filters @ replicate 14 linear_control)) [0..<0 + length either_filters]"
    by (simp only: l add_0)
  have fin: "finish_filter either_state (0 + length either_filters) span (replicate max_stages linear_control) =
      Some (Inr (map filter_control either_filters @ replicate 14 linear_control))" for span
    by (simp only: l add_0 either_finishes)
  show ?thesis
    by (rule compiledI [OF either_represents either_applies fin _ _ _ _ _ cs])
      (simp_all add: l either_state_def max_tokens_def max_stages_def upt_rec)
qed

lemma either_row_ok: "row_ok fu either_row either_filters"
  by (simp add: row_ok_def either_filters_def test_filter_def either_row_def filter_matches_def)

section \<open>Properties\<close>

text \<open>C27: WHERE keeps exactly the rows for which every WHERE expression is TRUE in SQL's
  three-valued logic: following the branches the parser compiled, the row loop of a pipeline
  whose filters are consecutive compiled WHERE clauses answers true when Kleene evaluation of
  each clause's tree over the row's comparisons is TRUE, and false when one is FALSE or
  UNKNOWN. It never leaves the pipeline and never runs out of steps.\<close>

theorem where_keeps_true_rows:
  assumes "list_all2 (\<lambda>(t, f) fs. compiled t f fs) ts fss"
    and "row_ok fu value_at (concat fss)"
  shows "retains fu value_at (concat fss) =
    Inr (list_all2 (\<lambda>(t, f) fs. region_truth fu value_at t f fs = Some True) ts fss)"
  using regions_decide [of fu value_at "[]" fss ts] assms
  by (simp add: retains_def retains_from_def)

theorem where_keeps_true_rows_witness:
  "\<forall>fu. retains fu either_row (concat [either_filters]) =
    Inr (list_all2 (\<lambda>(t, f) fs. region_truth fu either_row t f fs = Some True)
      [(BOr (BLeaf 0) (BNot (BLeaf 1)), 0)] [either_filters])"
proof
  fix fu
  show "retains fu either_row (concat [either_filters]) =
    Inr (list_all2 (\<lambda>(t, f) fs. region_truth fu either_row t f fs = Some True)
      [(BOr (BLeaf 0) (BNot (BLeaf 1)), 0)] [either_filters])"
    by (rule where_keeps_true_rows) (use either_compiled either_row_ok in simp_all)
qed

lemma compiled_branches_inside:
  assumes "list_all2 (\<lambda>(t, f) fs. compiled t f fs) ts fss"
  shows "branches_inside (concat fss)"
  using assms
proof (induction rule: list_all2_induct)
  case Nil
  then show ?case by (simp add: branches_inside_def)
next
  case (Cons tf ts fs fss)
  obtain t f where tf: "tf = (t, f)" by (cases tf)
  with Cons.hyps(1) have "compiled t f fs" by simp
  then obtain cs where cs: "map filter_control fs = map ((!) cs) [f..<f + length fs]"
    and ok: "\<And>i. f \<le> i \<Longrightarrow> i < f + length fs \<Longrightarrow> branch_ok (f + length fs) i (cs ! i)"
    using compiled_leads by metis
  let ?in = "\<lambda>xs i. i + matched (filter_control (xs ! i)) \<le> length xs \<and> i + other (filter_control (xs ! i)) \<le> length xs"
  have first: "?in fs i" if "i < length fs" for i
  proof -
    have "filter_control (fs ! i) = cs ! (f + i)" using arg_cong [OF cs, of "\<lambda>xs. xs ! i"] that by simp
    then show ?thesis using ok [of "f + i"] that by (auto simp: branch_ok_def)
  qed
  have rest: "?in (concat fss) k" if "k < length (concat fss)" for k
    using Cons.IH that by (simp add: branches_inside_def)
  have "?in (fs @ concat fss) i" if "i < length (fs @ concat fss)" for i
  proof (cases "i < length fs")
    case True
    with first [OF True] show ?thesis by (auto simp: nth_append simp del: length_concat)
  next
    case False
    with that have "i - length fs < length (concat fss)" by (simp del: length_concat)
    from rest [OF this] False show ?thesis by (auto simp: nth_append simp del: length_concat)
  qed
  then show ?case by (simp add: branches_inside_def del: length_concat)
qed

text \<open>C28: A scan that moves a block of rows past one filter at a time selects the same rows, in
  the same order, as testing each row by itself: for compiled WHERE clauses whose comparisons
  can be made, the block loop (with branch destinations per row, or with the plain selection
  when no filter branches) yields the rows \<open>retains\<close> accepts, its merge uses every survivor
  and no branch leaves the pipeline.\<close>

theorem scan_keeps_retained_rows:
  assumes "list_all2 (\<lambda>(t, f) fs. compiled t f fs) ts fss" and "length (concat fss) \<le> max_stages"
    and "distinct selection" and "\<forall>row \<in> set selection. row_ok fu (rows row) (concat fss)"
  shows "scan_filters fu rows (concat fss) selection =
    Some (Inr (filter (\<lambda>row. retains fu (rows row) (concat fss) = Inr True) selection))"
proof (rule scan_filters_retain)
  show "length (concat fss) < no_target" using assms(2) by (simp add: max_stages_def no_target_def)
qed (use assms compiled_branches_inside in auto)

theorem scan_keeps_retained_rows_witness:
  "\<forall>fu. scan_filters fu (\<lambda>_. either_row) (concat [either_filters]) [3, 5] =
    Some (Inr (filter (\<lambda>row. retains fu either_row (concat [either_filters]) = Inr True) [3, 5]))"
proof
  fix fu
  show "scan_filters fu (\<lambda>_. either_row) (concat [either_filters]) [3, 5] =
    Some (Inr (filter (\<lambda>row. retains fu either_row (concat [either_filters]) = Inr True) [3, 5]))"
    by (rule scan_keeps_retained_rows [where ts = "[(BOr (BLeaf 0) (BNot (BLeaf 1)), 0)]"])
      (use either_compiled either_row_ok in \<open>simp_all add: either_filters_def max_stages_def\<close>)
qed

text \<open>C29: Every complete WHERE expression compiles, and to branches that plan validation accepts:
  when the pending operators reduce the parsed operands to one tree over the stages from \<open>f\<close> to
  \<open>len\<close>, \<open>finish\<close> returns controls for which each of those stages passes the validator's
  checks, in any plan that holds them at these positions as consecutive WHERE stages.\<close>

theorem where_compiles_to_valid_branches:
  assumes "represents s ts" and "LeafOperator \<notin> set (operator_stack s)"
    and "apply_all (operator_stack s) ts = Some [t]" and "leaves t = [f..<len]"
    and "length (nodes s) + length (operator_stack s) \<le> max_tokens" and "length ts \<le> max_tokens"
    and "len \<le> max_stages" and "length parsed = max_stages"
  shows "\<exists>cs. finish_filter s len span parsed = Some (Inr cs)
    \<and> (\<forall>stages count i. (\<forall>j. f \<le> j \<longrightarrow> j < len \<longrightarrow> stage_filter (stages ! j) = Some (cs ! j))
          \<longrightarrow> (\<forall>j. f < j \<longrightarrow> j < len \<longrightarrow> stage_input (stages ! j) = j) \<longrightarrow> len \<le> count \<longrightarrow> f \<le> i \<longrightarrow> i < len
          \<longrightarrow> validate_branches stages count i (cs ! i) = Inr ())"
proof -
  have "len < no_target" using assms(7) by (simp add: max_stages_def no_target_def)
  with finish_filter_succeeds [OF assms(1-6), of parsed span] assms(7,8) obtain cs where
    "finish_filter s len span parsed = Some (Inr cs)" "\<forall>i. f \<le> i \<longrightarrow> i < len \<longrightarrow> branch_ok len i (cs ! i)"
    by auto
  then show ?thesis by (intro exI [of _ cs] conjI allI impI branches_validate [of f len]) auto
qed

theorem where_compiles_to_valid_branches_witness:
  "\<forall>span. \<exists>cs. finish_filter either_state 2 span (replicate max_stages linear_control) = Some (Inr cs)
    \<and> (\<forall>stages count i. (\<forall>j. 0 \<le> j \<longrightarrow> j < 2 \<longrightarrow> stage_filter (stages ! j) = Some (cs ! j))
          \<longrightarrow> (\<forall>j. 0 < j \<longrightarrow> j < 2 \<longrightarrow> stage_input (stages ! j) = j) \<longrightarrow> 2 \<le> count \<longrightarrow> 0 \<le> i \<longrightarrow> i < 2
          \<longrightarrow> validate_branches stages count i (cs ! i) = Inr ())"
proof
  fix span
  have "leaves (BOr (BLeaf 0) (BNot (BLeaf 1))) = [0..<2]" by (simp add: upt_rec)
  from where_compiles_to_valid_branches [OF either_represents _ either_applies this,
      of "replicate max_stages linear_control" span]
  show "\<exists>cs. finish_filter either_state 2 span (replicate max_stages linear_control) = Some (Inr cs)
    \<and> (\<forall>stages count i. (\<forall>j. 0 \<le> j \<longrightarrow> j < 2 \<longrightarrow> stage_filter (stages ! j) = Some (cs ! j))
          \<longrightarrow> (\<forall>j. 0 < j \<longrightarrow> j < 2 \<longrightarrow> stage_input (stages ! j) = j) \<longrightarrow> 2 \<le> count \<longrightarrow> 0 \<le> i \<longrightarrow> i < 2
          \<longrightarrow> validate_branches stages count i (cs ! i) = Inr ())"
    by (simp add: either_state_def max_tokens_def max_stages_def)
qed

end
