(* ===== verification/Sort_Order.thy ===== *)
theory Sort_Order
  imports Query_Types "HOL-Library.Multiset"
begin

text \<open>
  What sorting asks of a comparison. A \<open>comparison_order\<close> answers with an \<open>ordering\<close> on the
  values it may be asked about, reverses its answer when the arguments are swapped and is
  transitive; it may call different values equal. The lemmas here are shared by the row
  comparison of src/execution/blocking/record.rs, which is built from column comparisons, and
  by the sort and merge of src/execution/blocking.rs, which only compare.
\<close>

section \<open>Orderings\<close>

fun reverse_order :: "ordering \<Rightarrow> ordering" where
  "reverse_order OrderLess = OrderGreater"
| "reverse_order OrderEqual = OrderEqual"
| "reverse_order OrderGreater = OrderLess"

text \<open>\<open>Ordering::then_with\<close>: the second comparison breaks a tie of the first.\<close>

definition and_then :: "ordering \<Rightarrow> ordering \<Rightarrow> ordering" where
  "and_then a b = (if a = OrderEqual then b else a)"

lemma reverse_reverse [simp]: "reverse_order (reverse_order a) = a"
  by (cases a) simp_all

lemma reverse_order_eq [simp]:
  "reverse_order a = OrderEqual \<longleftrightarrow> a = OrderEqual"
  "reverse_order a = OrderLess \<longleftrightarrow> a = OrderGreater"
  "reverse_order a = OrderGreater \<longleftrightarrow> a = OrderLess"
  by (cases a; simp)+

lemma reverse_and_then [simp]: "reverse_order (and_then a b) = and_then (reverse_order a) (reverse_order b)"
  by (simp add: and_then_def)

lemma and_then_simps [simp]:
  "and_then OrderEqual b = b" "and_then OrderLess b = OrderLess" "and_then OrderGreater b = OrderGreater"
  "and_then a OrderEqual = a"
  by (simp_all add: and_then_def)

lemma and_then_assoc: "and_then (and_then a b) c = and_then a (and_then b c)"
  by (simp add: and_then_def)

lemma order_of_reverse: "order_of b a = reverse_order (order_of a b)"
  by (simp add: order_of_def)

lemma order_of_not_greater: "order_of a b \<noteq> OrderGreater \<longleftrightarrow> a \<le> b"
  by (simp add: order_of_def)

lemma order_of_bytes_reverse: "order_of_bytes b a = reverse_order (order_of_bytes a b)"
  by (induction a b rule: order_of_bytes.induct) auto

lemma order_of_bytes_trans:
  "order_of_bytes a b \<noteq> OrderGreater \<Longrightarrow> order_of_bytes b c \<noteq> OrderGreater \<Longrightarrow> order_of_bytes a c \<noteq> OrderGreater"
proof (induction a b arbitrary: c rule: order_of_bytes.induct)
  case (4 x xs y ys)
  show ?case
  proof (cases c)
    case Nil
    with 4 show ?thesis by simp
  next
    case (Cons z zs)
    with 4 show ?thesis by (auto split: if_splits)
  qed
next
  case (1)
  then show ?case by simp
next
  case (2 b bs)
  then show ?case by (cases c) auto
qed simp

section \<open>The interface\<close>

locale comparison_order =
  fixes cmp :: "'a \<Rightarrow> 'a \<Rightarrow> ordering" and ok :: "'a \<Rightarrow> bool"
  assumes swap: "ok a \<Longrightarrow> ok b \<Longrightarrow> cmp b a = reverse_order (cmp a b)"
    and trans: "ok a \<Longrightarrow> ok b \<Longrightarrow> ok c \<Longrightarrow> cmp a b \<noteq> OrderGreater \<Longrightarrow> cmp b c \<noteq> OrderGreater \<Longrightarrow> cmp a c \<noteq> OrderGreater"
begin

definition le :: "'a \<Rightarrow> 'a \<Rightarrow> bool" where
  "le a b \<longleftrightarrow> cmp a b \<noteq> OrderGreater"

lemma refl: "ok a \<Longrightarrow> cmp a a = OrderEqual"
  using swap [of a a] by (cases "cmp a a") auto

lemma le_total: "ok a \<Longrightarrow> ok b \<Longrightarrow> le a b \<or> le b a"
  using swap [of a b] by (auto simp: le_def)

lemma equal_iff: "ok a \<Longrightarrow> ok b \<Longrightarrow> cmp a b = OrderEqual \<longleftrightarrow> le a b \<and> le b a"
  using swap [of a b] by (cases "cmp a b") (auto simp: le_def)

lemma less_iff: "ok a \<Longrightarrow> ok b \<Longrightarrow> cmp a b = OrderLess \<longleftrightarrow> le a b \<and> \<not> le b a"
  using swap [of a b] by (cases "cmp a b") (auto simp: le_def)

lemma equal_trans:
  "ok a \<Longrightarrow> ok b \<Longrightarrow> ok c \<Longrightarrow> cmp a b = OrderEqual \<Longrightarrow> cmp b c = OrderEqual \<Longrightarrow> cmp a c = OrderEqual"
  using trans [of a b c] trans [of c b a] by (simp add: equal_iff le_def)

lemma less_trans:
  "ok a \<Longrightarrow> ok b \<Longrightarrow> ok c \<Longrightarrow> cmp a b = OrderLess \<Longrightarrow> cmp b c \<noteq> OrderGreater \<Longrightarrow> cmp a c = OrderLess"
  using trans [of a b c] trans [of b c a] by (auto simp: less_iff le_def)

lemma on:
  assumes "\<And>x. ok' x \<Longrightarrow> ok (f x)"
  shows "comparison_order (\<lambda>a b. cmp (f a) (f b)) ok'"
  using assms swap trans by unfold_locales blast+

text \<open>Ties of one comparison broken by another.\<close>

lemma tie_break:
  assumes "comparison_order cmp2 ok"
  shows "comparison_order (\<lambda>a b. and_then (cmp a b) (cmp2 a b)) ok"
proof
  fix a b assume "ok a" "ok b"
  then show "and_then (cmp b a) (cmp2 b a) = reverse_order (and_then (cmp a b) (cmp2 a b))"
    by (simp add: swap [of a b] comparison_order.swap [OF assms, of a b])
next
  fix a b c assume a: "ok a" "ok b" "ok c"
    and o: "and_then (cmp a b) (cmp2 a b) \<noteq> OrderGreater" "and_then (cmp b c) (cmp2 b c) \<noteq> OrderGreater"
  have e: "cmp a b \<noteq> OrderGreater" "cmp b c \<noteq> OrderGreater" using o by (auto simp: and_then_def split: if_splits)
  show "and_then (cmp a c) (cmp2 a c) \<noteq> OrderGreater"
  proof (cases "cmp a c = OrderEqual")
    case True
    have "cmp a b = OrderEqual"
      using True a e less_trans [of a b c] by (cases "cmp a b") simp_all
    moreover have "cmp b c = OrderEqual"
      using True a e trans [of c a b] swap [of a c] swap [of b c] by (cases "cmp b c") simp_all
    ultimately show ?thesis
      using True o comparison_order.trans [OF assms a] by simp
  next
    case False
    then show ?thesis using trans [OF a e] by (simp add: and_then_def)
  qed
qed

text \<open>Sorted lists, and the merge of two of them.\<close>

fun merge_lists :: "'a list \<Rightarrow> 'a list \<Rightarrow> 'a list" where
  "merge_lists [] ys = ys"
| "merge_lists xs [] = xs"
| "merge_lists (x # xs) (y # ys) =
     (if cmp x y \<noteq> OrderGreater then x # merge_lists xs (y # ys) else y # merge_lists (x # xs) ys)"

lemma mset_merge [simp]: "mset (merge_lists xs ys) = mset xs + mset ys"
  by (induction xs ys rule: merge_lists.induct) simp_all

lemma set_merge [simp]: "set (merge_lists xs ys) = set xs \<union> set ys"
  by (metis mset_merge set_mset_mset set_mset_union)

lemma length_merge [simp]: "length (merge_lists xs ys) = length xs + length ys"
  by (metis mset_merge size_mset size_union)

lemma sorted_merge:
  "\<forall>x \<in> set xs \<union> set ys. ok x \<Longrightarrow> sorted_wrt le xs \<Longrightarrow> sorted_wrt le ys \<Longrightarrow> sorted_wrt le (merge_lists xs ys)"
proof (induction xs ys rule: merge_lists.induct)
  case (3 x xs y ys)
  show ?case
  proof (cases "cmp x y \<noteq> OrderGreater")
    case True
    then have "le x y" by (simp add: le_def)
    moreover have "le x z" if "z \<in> set ys" for z
      using 3(3,5) that True trans [of x y z] by (simp add: le_def)
    ultimately show ?thesis using 3 True by auto
  next
    case False
    then have "le y x" using 3(3) le_total [of x y] by (auto simp: le_def)
    moreover have "le y z" if "z \<in> set xs" for z
      using 3(3,4) that \<open>le y x\<close> trans [of y x z] by (simp add: le_def)
    ultimately show ?thesis using 3 False by auto
  qed
qed simp_all

end

end
