(* ===== verification/Sort_Row.thy ===== *)
theory Sort_Row
  imports Sort_Order
begin

text \<open>
  Rows in the sorter's scratch files (src/execution/blocking/record.rs): how a value is
  written and read back, how a layout puts the sort columns first and keeps each input
  column once, and how two encoded rows compare and hash.
  A \<open>Vec\<close> that never grows past its admitted capacity is its bytes and that capacity;
  \<open>usize\<close> sums carry their overflow check. \<open>None\<close> is a failed assertion.
\<close>

section \<open>Values\<close>

definition max_text_bytes :: nat where "max_text_bytes = 65536"
definition max_order_items :: nat where "max_order_items = 80"

definition usize_or :: "nat \<Rightarrow> db_error \<Rightarrow> db_error + nat" where
  "usize_or n e = (if n < 2 ^ 64 then Inr n else Inl e)"

definition append_bytes :: "nat \<Rightarrow> u8 list \<Rightarrow> u8 list \<Rightarrow> db_error + u8 list" where
  "append_bytes capacity out bytes =
     attempt (usize_or (length out + length bytes) (Corrupt ''group buffer length'')) (\<lambda>end_at.
       if capacity < end_at
       then Inl (ResourceError ''group record buffer'' (word_of_nat end_at) (word_of_nat capacity))
       else Inr (out @ bytes))"

definition i32_bytes :: "int \<Rightarrow> u8 list" where
  "i32_bytes n = u32_bytes (word_of_int n)"

definition append_value :: "nat \<Rightarrow> u8 list \<Rightarrow> cell \<Rightarrow> data_type \<Rightarrow> bool \<Rightarrow> db_error + u8 list" where
  "append_value capacity out v kind nullable =
     (if v = NullCell then
        if \<not> nullable then Inl (Corrupt ''NULL in required group value'')
        else append_bytes capacity out [0]
      else
        attempt (append_bytes capacity out [1]) (\<lambda>out.
          case (kind, v) of
            (Int64Type, Int64Cell n) \<Rightarrow> append_bytes capacity out (u64_bytes n)
          | (DoubleType, DoubleCell x) \<Rightarrow> append_bytes capacity out (u64_bytes x)
          | (DateType, DateCell d) \<Rightarrow> append_bytes capacity out (i32_bytes (days d))
          | (StringType, StringCell s) \<Rightarrow>
              if max_text_bytes < length s then Inl (Corrupt ''group text bound'')
              else attempt (append_bytes capacity out (u32_bytes (word_of_nat (length s)))) (\<lambda>out.
                append_bytes capacity out s)
          | _ \<Rightarrow> Inl (Corrupt ''group value type'')))"

definition take_bytes :: "u8 list \<Rightarrow> nat \<Rightarrow> db_error + u8 list \<times> u8 list" where
  "take_bytes bytes n =
     (if length bytes < n then Inl (Corrupt ''truncated group record'')
      else Inr (take n bytes, drop n bytes))"

definition read_value :: "u8 list \<Rightarrow> data_type \<Rightarrow> bool \<Rightarrow> db_error + cell \<times> u8 list" where
  "read_value bytes kind nullable =
     attempt (take_bytes bytes 1) (\<lambda>(tag, bytes).
       if hd tag = 0 \<and> nullable then Inr (NullCell, bytes)
       else if hd tag \<noteq> 1 then Inl (Corrupt ''group value validity'')
       else
         (case kind of
            Int64Type \<Rightarrow> attempt (take_bytes bytes 8) (\<lambda>(n, bytes). Inr (Int64Cell (u64_of_bytes n), bytes))
          | DoubleType \<Rightarrow> attempt (take_bytes bytes 8) (\<lambda>(x, bytes). Inr (DoubleCell (u64_of_bytes x), bytes))
          | DateType \<Rightarrow> attempt (take_bytes bytes 4) (\<lambda>(d, bytes).
              case from_days (sint (u32_of_bytes d)) of
                None \<Rightarrow> Inl (Corrupt ''group date range'')
              | Some d \<Rightarrow> Inr (DateCell d, bytes))
          | StringType \<Rightarrow> attempt (take_bytes bytes 4) (\<lambda>(n, bytes).
              let len = unat (u32_of_bytes n) in
              if max_text_bytes < len then Inl (Corrupt ''group text extent'')
              else attempt (take_bytes bytes len) (\<lambda>(s, bytes).
                if utf8 s then Inr (StringCell s, bytes) else Inl (Corrupt ''group UTF-8'')))))"

section \<open>Layouts\<close>

datatype direction = Ascending | Descending
datatype null_placement = NullsFirst | NullsLast

record key_column =
  key_input :: nat
  key_kind :: data_type
  key_nullable :: bool
  key_direction :: direction
  key_nulls :: null_placement

record order_column =
  order_input :: nat
  order_direction :: direction
  order_nulls :: null_placement

text \<open>The array of columns is the list of the columns in use.\<close>

record row_layout =
  layout_columns :: "key_column list"
  layout_keys :: nat
  layout_max_bytes :: nat
  layout_key_max_bytes :: nat
  layout_tag :: u32

definition field_bytes :: "data_type \<Rightarrow> nat" where
  "field_bytes kind =
     (case kind of Int64Type \<Rightarrow> 9 | DoubleType \<Rightarrow> 9 | DateType \<Rightarrow> 5 | StringType \<Rightarrow> 5 + max_text_bytes)"

fun place_inputs :: "semantic_column list \<Rightarrow> key_column list \<Rightarrow> nat \<Rightarrow> db_error + key_column list \<times> nat" where
  "place_inputs [] columns bytes = Inr (columns, bytes)"
| "place_inputs (c # cs) columns bytes =
     (if length columns = max_row_values then Inl (Corrupt ''sorted row column bound'')
      else
        attempt (usize_or (bytes + field_bytes (column_kind c)) (Corrupt ''sorted row byte bound'')) (\<lambda>bytes.
          place_inputs cs
            (columns @ [\<lparr>key_input = length columns, key_kind = column_kind c, key_nullable = column_nullable c,
               key_direction = Ascending, key_nulls = NullsFirst\<rparr>]) bytes))"

fun position :: "('a \<Rightarrow> bool) \<Rightarrow> 'a list \<Rightarrow> nat option" where
  "position p [] = None"
| "position p (x # xs) = (if p x then Some 0 else map_option Suc (position p xs))"

definition swap_at :: "nat \<Rightarrow> nat \<Rightarrow> 'a list \<Rightarrow> 'a list" where
  "swap_at i j xs = xs[i := xs ! j, j := xs ! i]"

fun place_keys ::
    "order_column list \<Rightarrow> key_column list \<Rightarrow> nat \<Rightarrow> nat \<Rightarrow> db_error + key_column list \<times> nat \<times> nat" where
  "place_keys [] columns keys bytes = Inr (columns, keys, bytes)"
| "place_keys (k # ks) columns keys bytes =
     (if length columns \<le> order_input k then Inl (Corrupt ''sort key outside input'')
      else if \<exists>c \<in> set (take keys columns). key_input c = order_input k then place_keys ks columns keys bytes
      else
        case position (\<lambda>c. key_input c = order_input k) (drop keys columns) of
          None \<Rightarrow> Inl (Corrupt ''sort field permutation'')
        | Some i \<Rightarrow>
            let moved = swap_at keys (keys + i) columns;
                key = (moved ! keys)\<lparr>key_direction := order_direction k, key_nulls := order_nulls k\<rparr>
            in attempt (usize_or (bytes + field_bytes (key_kind key)) (Corrupt ''sorted key byte bound''))
                 (place_keys ks (moved[keys := key]) (keys + 1)))"

definition kind_byte :: "data_type \<Rightarrow> u8" where
  "kind_byte kind = (case kind of Int64Type \<Rightarrow> 1 | DoubleType \<Rightarrow> 2 | DateType \<Rightarrow> 3 | StringType \<Rightarrow> 4)"

definition column_bytes :: "key_column \<Rightarrow> u8 list" where
  "column_bytes c =
     [word_of_nat (key_input c), kind_byte (key_kind c), of_bool (key_nullable c),
      of_bool (key_direction c = Descending), of_bool (key_nulls c = NullsLast)]"

definition with_keys :: "semantic_column list \<Rightarrow> order_column list \<Rightarrow> db_error + row_layout" where
  "with_keys inputs order =
     attempt (place_inputs inputs [] 0) (\<lambda>(columns, max_bytes).
       if max_order_items < length order then Inl (Corrupt ''sorted key count'')
       else
         attempt (place_keys order columns 0 0) (\<lambda>(columns, keys, key_max_bytes).
           let body = [word_of_nat (length columns), word_of_nat keys] @ concat (map column_bytes columns);
               tag = body @ replicate (2 + max_row_values * 5 - length body) 0
           in Inr \<lparr>layout_columns = columns, layout_keys = keys, layout_max_bytes = max_bytes,
                layout_key_max_bytes = key_max_bytes, layout_tag = crc32c tag\<rparr>))"

definition for_order :: "semantic_column list \<Rightarrow> order_column list \<Rightarrow> db_error + row_layout" where
  "for_order inputs order =
     (if order = [] then Inl (Corrupt ''sorted key count'') else with_keys inputs order)"

definition for_partition :: "semantic_column list \<Rightarrow> db_error + row_layout" where
  "for_partition inputs = with_keys inputs []"

definition for_join :: "semantic_column list \<Rightarrow> nat \<Rightarrow> db_error + row_layout" where
  "for_join inputs key =
     attempt (if key < 256 then Inr key else Inl (Corrupt ''join key position'')) (\<lambda>key.
       for_order inputs [\<lparr>order_input = key, order_direction = Ascending, order_nulls = NullsFirst\<rparr>])"

section \<open>Rows\<close>

text \<open>\<open>cells\<close> is the batch's row: the value of an input position, if the batch has it.\<close>

fun append_columns :: "nat \<Rightarrow> key_column list \<Rightarrow> (nat \<Rightarrow> cell option) \<Rightarrow> u8 list \<Rightarrow> db_error + u8 list" where
  "append_columns capacity [] cells out = Inr out"
| "append_columns capacity (c # cs) cells out =
     attempt (ok_or (cells (key_input c)) (Corrupt ''group input row absent'')) (\<lambda>v.
       attempt (append_value capacity out v (key_kind c) (key_nullable c)) (append_columns capacity cs cells))"

definition append_row :: "nat \<Rightarrow> row_layout \<Rightarrow> (nat \<Rightarrow> cell option) \<Rightarrow> u8 list \<Rightarrow> (db_error + u8 list) option" where
  "append_row capacity lay cells out =
     (case append_columns capacity (layout_columns lay) cells out of
        Inl e \<Rightarrow> Some (Inl e)
      | Inr bytes \<Rightarrow> if length bytes - length out \<le> layout_max_bytes lay then Some (Inr bytes) else None)"

fun skip_values :: "key_column list \<Rightarrow> u8 list \<Rightarrow> db_error + u8 list" where
  "skip_values [] bytes = Inr bytes"
| "skip_values (c # cs) bytes =
     attempt (read_value bytes (key_kind c) (key_nullable c)) (\<lambda>(v, bytes). skip_values cs bytes)"

definition validate_row :: "row_layout \<Rightarrow> u8 list \<Rightarrow> db_error + unit" where
  "validate_row lay bytes =
     (if layout_max_bytes lay < length bytes then Inl (Corrupt ''group key exceeds byte bound'')
      else
        attempt (skip_values (layout_columns lay) bytes) (\<lambda>rest.
          if rest \<noteq> [] then Inl (Corrupt ''group key trailing bytes'') else Inr ()))"

text \<open>The value at a position of the encoded row.\<close>

fun value_from :: "key_column list \<Rightarrow> nat \<Rightarrow> u8 list \<Rightarrow> (db_error + cell) option" where
  "value_from [] column bytes = None"
| "value_from (c # cs) column bytes =
     (case read_value bytes (key_kind c) (key_nullable c) of
        Inl e \<Rightarrow> Some (Inl e)
      | Inr (v, bytes) \<Rightarrow> (case column of 0 \<Rightarrow> Some (Inr v) | Suc column \<Rightarrow> value_from cs column bytes))"

definition row_value :: "row_layout \<Rightarrow> u8 list \<Rightarrow> nat \<Rightarrow> (db_error + cell) option" where
  "row_value lay bytes column =
     (if length (layout_columns lay) \<le> column then Some (Inl (Corrupt ''group key column bound''))
      else value_from (layout_columns lay) column bytes)"

text \<open>\<open>read_values\<close> of src/execution/blocking.rs puts the columns back in input order.\<close>

fun read_columns :: "key_column list \<Rightarrow> u8 list \<Rightarrow> cell list \<Rightarrow> db_error + cell list" where
  "read_columns [] bytes values =
     (if bytes \<noteq> [] then Inl (Corrupt ''sorted row trailing bytes'') else Inr values)"
| "read_columns (c # cs) bytes values =
     attempt (read_value bytes (key_kind c) (key_nullable c)) (\<lambda>(v, bytes).
       read_columns cs bytes (values[key_input c := v]))"

section \<open>Comparison\<close>

fun compare_values :: "cell \<Rightarrow> cell \<Rightarrow> ordering option" where
  "compare_values NullCell NullCell = Some OrderEqual"
| "compare_values NullCell r = Some OrderLess"
| "compare_values l NullCell = Some OrderGreater"
| "compare_values (Int64Cell l) (Int64Cell r) = Some (order_of (sint l) (sint r))"
| "compare_values (DateCell l) (DateCell r) = Some (order_of (days l) (days r))"
| "compare_values (StringCell l) (StringCell r) = Some (order_of_bytes l r)"
| "compare_values (DoubleCell l) (DoubleCell r) =
     (case (is_nan l, is_nan r) of
        (True, True) \<Rightarrow> Some OrderEqual
      | (True, False) \<Rightarrow> Some OrderLess
      | (False, True) \<Rightarrow> Some OrderGreater
      | (False, False) \<Rightarrow> Some (if double_less l r then OrderLess else if double_less r l then OrderGreater else OrderEqual))"
| "compare_values l r = None"

definition reverses :: "key_column \<Rightarrow> cell \<Rightarrow> cell \<Rightarrow> bool" where
  "reverses c l r \<longleftrightarrow>
     (if l = NullCell \<or> r = NullCell then key_nulls c = NullsLast else key_direction c = Descending)"

fun compare_columns :: "key_column list \<Rightarrow> u8 list \<Rightarrow> u8 list \<Rightarrow> (db_error + ordering) option" where
  "compare_columns [] left right = Some (Inr OrderEqual)"
| "compare_columns (c # cs) left right =
     (case read_value left (key_kind c) (key_nullable c) of
        Inl e \<Rightarrow> Some (Inl e)
      | Inr (l, left) \<Rightarrow>
          (case read_value right (key_kind c) (key_nullable c) of
             Inl e \<Rightarrow> Some (Inl e)
           | Inr (r, right) \<Rightarrow>
               Option.bind (compare_values l r) (\<lambda>ord.
                 let ord = (if reverses c l r then reverse_order ord else ord) in
                 if ord \<noteq> OrderEqual then Some (Inr ord) else compare_columns cs left right)))"

definition compare_prefix :: "row_layout \<Rightarrow> u8 list \<Rightarrow> u8 list \<Rightarrow> nat \<Rightarrow> (db_error + ordering) option" where
  "compare_prefix lay left right keys =
     (if layout_keys lay < keys then Some (Inl (Corrupt ''sort comparison prefix''))
      else compare_columns (take keys (layout_columns lay)) left right)"

definition compare_rows :: "row_layout \<Rightarrow> u8 list \<Rightarrow> u8 list \<Rightarrow> (db_error + ordering) option" where
  "compare_rows lay left right = compare_prefix lay left right (layout_keys lay)"

definition sort_prefix :: "row_layout \<Rightarrow> u8 list \<Rightarrow> db_error + u8 list" where
  "sort_prefix lay bytes =
     (if layout_keys lay = length (layout_columns lay) then Inr bytes
      else
        attempt (skip_values (take (layout_keys lay) (layout_columns lay)) bytes) (\<lambda>rest.
          Inr (take (length bytes - length rest) bytes)))"

section \<open>Hashing\<close>

fun hash_bytes :: "u64 \<Rightarrow> u8 list \<Rightarrow> u64" where
  "hash_bytes h [] = h"
| "hash_bytes h (b # bs) = hash_bytes ((h XOR ucast b) * 0x100000001b3) bs"

definition canonical_bits :: "u64 \<Rightarrow> u64" where
  "canonical_bits x = (if is_nan x then 0x7FF8000000000000 else if double_eq x 0 then 0 else x)"

definition hash_cell :: "u64 \<Rightarrow> cell \<Rightarrow> u64" where
  "hash_cell h v =
     (let h = hash_bytes h [of_bool (v \<noteq> NullCell)] in
      case v of
        NullCell \<Rightarrow> h
      | Int64Cell n \<Rightarrow> hash_bytes h (u64_bytes n)
      | DateCell d \<Rightarrow> hash_bytes h (i32_bytes (days d))
      | DoubleCell x \<Rightarrow> hash_bytes h (u64_bytes (canonical_bits x))
      | StringCell s \<Rightarrow> hash_bytes (hash_bytes h (u32_bytes (word_of_nat (length s)))) s)"

fun hash_columns :: "key_column list \<Rightarrow> u8 list \<Rightarrow> u64 \<Rightarrow> db_error + u64" where
  "hash_columns [] bytes h = Inr h"
| "hash_columns (c # cs) bytes h =
     attempt (read_value bytes (key_kind c) (key_nullable c)) (\<lambda>(v, bytes). hash_columns cs bytes (hash_cell h v))"

definition hash_row :: "row_layout \<Rightarrow> u8 list \<Rightarrow> db_error + u64" where
  "hash_row lay bytes = hash_columns (take (layout_keys lay) (layout_columns lay)) bytes 0xcbf29ce484222325"

end
