(* ===== verification/Row_Properties.thy ===== *)
theory Row_Properties
  imports Sort_Row
begin

text \<open>
  What the sorter's rows promise: every row that fits its columns is encoded within the
  layout's bound and read back unchanged, valid encodings are canonical, comparing two valid
  encodings is a total preorder that follows the requested keys, and rows equal on their keys
  hash alike.
\<close>

section \<open>Values\<close>

fun cell_fits :: "data_type \<Rightarrow> bool \<Rightarrow> cell \<Rightarrow> bool" where
  "cell_fits kind nullable NullCell \<longleftrightarrow> nullable"
| "cell_fits kind nullable (Int64Cell n) \<longleftrightarrow> kind = Int64Type"
| "cell_fits kind nullable (DoubleCell x) \<longleftrightarrow> kind = DoubleType"
| "cell_fits kind nullable (DateCell d) \<longleftrightarrow> kind = DateType \<and> from_days (days d) = Some d"
| "cell_fits kind nullable (StringCell s) \<longleftrightarrow> kind = StringType \<and> length s \<le> max_text_bytes \<and> utf8 s"

fun cell_bytes :: "cell \<Rightarrow> u8 list" where
  "cell_bytes NullCell = [0]"
| "cell_bytes (Int64Cell n) = 1 # u64_bytes n"
| "cell_bytes (DoubleCell x) = 1 # u64_bytes x"
| "cell_bytes (DateCell d) = 1 # i32_bytes (days d)"
| "cell_bytes (StringCell s) = 1 # u32_bytes (word_of_nat (length s)) @ s"

lemma length_i32_bytes [simp]: "length (i32_bytes n) = 4"
  by (simp add: i32_bytes_def)

lemma from_days_range: "from_days n = Some d \<Longrightarrow> days d = n \<and> - (2 ^ 31) \<le> n \<and> n < 2 ^ 31"
  by (auto simp: from_days_def split: if_splits)

lemma sint_of_i32: "- (2 ^ 31) \<le> n \<Longrightarrow> n < 2 ^ 31 \<Longrightarrow> sint (word_of_int n :: u32) = n"
  by (simp add: sint_sbintrunc' signed_take_bit_int_eq_self)

lemma text_length: "n \<le> max_text_bytes \<Longrightarrow> unat (word_of_nat n :: u32) = n"
  by (simp add: max_text_bytes_def unat_of_nat)

lemma cell_bytes_bound: "cell_fits kind nullable v \<Longrightarrow> length (cell_bytes v) \<le> field_bytes kind"
  by (cases v; cases kind) (auto simp: field_bytes_def)

lemma cell_bytes_nonempty [simp]: "cell_bytes v \<noteq> []"
  by (cases v) simp_all

lemma append_bytes_room:
  "length out + length bytes \<le> capacity \<Longrightarrow> capacity < 2 ^ 64 \<Longrightarrow> append_bytes capacity out bytes = Inr (out @ bytes)"
  by (simp add: append_bytes_def usize_or_def)

lemma append_value_fits:
  assumes "cell_fits kind nullable v" and "length out + length (cell_bytes v) \<le> capacity" and "capacity < 2 ^ 64"
  shows "append_value capacity out v kind nullable = Inr (out @ cell_bytes v)"
  using assms by (cases v) (auto simp: append_value_def append_bytes_room not_less)

lemma take_bytes_append [simp]: "length xs = n \<Longrightarrow> take_bytes (xs @ rest) n = Inr (xs, rest)"
  by (simp add: take_bytes_def)

lemma take_bytes_Inr: "take_bytes bytes n = Inr (xs, rest) \<longleftrightarrow> bytes = xs @ rest \<and> length xs = n"
  by (auto simp: take_bytes_def)

lemma take_bytes_one [simp]: "take_bytes (b # rest) (Suc 0) = Inr ([b], rest)"
  by (simp add: take_bytes_def)

lemma read_cell:
  assumes "cell_fits kind nullable v"
  shows "read_value (cell_bytes v @ rest) kind nullable = Inr (v, rest)"
proof (cases v)
  case (DateCell d)
  with assms have d: "kind = DateType" "from_days (days d) = Some d" by simp_all
  then have "sint (word_of_int (days d) :: u32) = days d"
    using from_days_range [OF d(2)] sint_of_i32 by simp
  then show ?thesis using d by (simp add: DateCell read_value_def i32_bytes_def)
next
  case (StringCell s)
  with assms show ?thesis by (simp add: read_value_def text_length Let_def)
qed (use assms in \<open>simp_all add: read_value_def\<close>)

lemma read_value_Inr:
  assumes "read_value bytes kind nullable = Inr (v, rest)"
  shows "cell_fits kind nullable v \<and> bytes = cell_bytes v @ rest"
proof -
  from assms obtain tag bs where b: "bytes = tag # bs"
    by (cases bytes) (auto simp: read_value_def take_bytes_def)
  show ?thesis
  proof (cases "tag = 0 \<and> nullable")
    case True
    with assms b show ?thesis by (simp add: read_value_def)
  next
    case False
    with assms b have tag: "tag = 1" by (auto simp: read_value_def split: if_splits)
    show ?thesis
    proof (cases kind)
      case Int64Type
      with assms b tag show ?thesis
        by (auto simp: read_value_def take_bytes_Inr attempt_Inr_conv u64_bytes_of_bytes)
    next
      case DoubleType
      with assms b tag show ?thesis
        by (auto simp: read_value_def take_bytes_Inr attempt_Inr_conv u64_bytes_of_bytes)
    next
      case DateType
      with assms b tag obtain w d where w: "bs = w @ rest" "length w = 4"
          "from_days (sint (u32_of_bytes w)) = Some d" "v = DateCell d"
        by (auto simp: read_value_def take_bytes_Inr attempt_Inr_conv split: option.splits)
      from from_days_range [OF w(3)] have "days d = sint (u32_of_bytes w)" by simp
      with w DateType b tag show ?thesis by (simp add: i32_bytes_def u32_bytes_of_bytes)
    next
      case StringType
      with assms b tag obtain n s where n: "bs = n @ s @ rest" "length n = 4"
          "length s = unat (u32_of_bytes n)" "length s \<le> max_text_bytes" "utf8 s" "v = StringCell s"
        by (auto simp: read_value_def take_bytes_Inr attempt_Inr_conv Let_def split: if_splits)
      then have "u32_bytes (word_of_nat (length s)) = n" by (simp add: u32_bytes_of_bytes)
      with n StringType b tag show ?thesis by simp
    qed
  qed
qed

section \<open>Rows\<close>

text \<open>The values of a row in the order of its columns.\<close>

definition values_fit :: "key_column list \<Rightarrow> cell list \<Rightarrow> bool" where
  "values_fit cs vs \<longleftrightarrow> list_all2 (\<lambda>c v. cell_fits (key_kind c) (key_nullable c) v) cs vs"

definition values_bytes :: "cell list \<Rightarrow> u8 list" where
  "values_bytes vs = concat (map cell_bytes vs)"

lemma values_fit_simps [simp]:
  "values_fit [] vs \<longleftrightarrow> vs = []"
  "values_fit (c # cs) vs \<longleftrightarrow> (\<exists>w ws. vs = w # ws \<and> cell_fits (key_kind c) (key_nullable c) w \<and> values_fit cs ws)"
  by (auto simp: values_fit_def list_all2_Cons1)

lemma values_bytes_simps [simp]:
  "values_bytes [] = []" "values_bytes (v # vs) = cell_bytes v @ values_bytes vs"
  by (simp_all add: values_bytes_def)

lemma values_fit_length: "values_fit cs vs \<Longrightarrow> length vs = length cs"
  by (auto simp: values_fit_def dest: list_all2_lengthD)

lemma values_fit_take: "values_fit cs vs \<Longrightarrow> values_fit (take n cs) (take n vs)"
  by (auto simp: values_fit_def intro: list_all2_takeI)

lemma values_bytes_split: "values_bytes vs = values_bytes (take n vs) @ values_bytes (drop n vs)"
  unfolding values_bytes_def by (metis append_take_drop_id concat_append map_append)

lemma values_bytes_bound: "values_fit cs vs \<Longrightarrow> length (values_bytes vs) \<le> sum_list (map (field_bytes \<circ> key_kind) cs)"
proof (induction cs arbitrary: vs)
  case (Cons c cs)
  then obtain w ws where vs: "vs = w # ws" "cell_fits (key_kind c) (key_nullable c) w" "values_fit cs ws" by auto
  from cell_bytes_bound [OF vs(2)] Cons.IH [OF vs(3)] show ?case by (simp add: vs(1))
qed simp

lemma skip_values_fit: "values_fit cs vs \<Longrightarrow> skip_values cs (values_bytes vs @ rest) = Inr rest"
  by (induction cs arbitrary: vs) (auto simp: read_cell)

lemma skip_values_Inr:
  "skip_values cs bytes = Inr rest \<Longrightarrow> \<exists>vs. values_fit cs vs \<and> bytes = values_bytes vs @ rest"
proof (induction cs arbitrary: bytes)
  case Nil
  then show ?case by (auto intro: exI [of _ "[]"])
next
  case (Cons c cs)
  then obtain v bs where v: "read_value bytes (key_kind c) (key_nullable c) = Inr (v, bs)" "skip_values cs bs = Inr rest"
    by (auto simp: attempt_Inr_conv)
  from Cons.IH [OF v(2)] obtain vs where "values_fit cs vs" "bs = values_bytes vs @ rest" by blast
  with read_value_Inr [OF v(1)] show ?case by (intro exI [of _ "v # vs"]) simp
qed

lemma validate_row_Inr:
  "validate_row lay bytes = Inr () \<longleftrightarrow>
     length bytes \<le> layout_max_bytes lay \<and> (\<exists>vs. values_fit (layout_columns lay) vs \<and> bytes = values_bytes vs)"
proof
  assume "validate_row lay bytes = Inr ()"
  then show "length bytes \<le> layout_max_bytes lay \<and> (\<exists>vs. values_fit (layout_columns lay) vs \<and> bytes = values_bytes vs)"
    using skip_values_Inr [of "layout_columns lay" bytes "[]"]
    by (auto simp: validate_row_def attempt_Inr_conv split: if_splits)
next
  assume "length bytes \<le> layout_max_bytes lay \<and> (\<exists>vs. values_fit (layout_columns lay) vs \<and> bytes = values_bytes vs)"
  then show "validate_row lay bytes = Inr ()"
    using skip_values_fit [of "layout_columns lay" _ "[]"] by (auto simp: validate_row_def)
qed

lemma value_from_fit:
  "values_fit cs vs \<Longrightarrow> i < length cs \<Longrightarrow> value_from cs i (values_bytes vs @ rest) = Some (Inr (vs ! i))"
proof (induction cs arbitrary: vs i)
  case (Cons c cs)
  then obtain w ws where vs: "vs = w # ws" "cell_fits (key_kind c) (key_nullable c) w" "values_fit cs ws" by auto
  then show ?case using Cons.IH [OF vs(3), of "i - 1"] Cons.prems(2) by (cases i) (simp_all add: read_cell)
qed simp

definition row_values :: "key_column list \<Rightarrow> (nat \<Rightarrow> cell option) \<Rightarrow> cell list" where
  "row_values cs cells = map (\<lambda>c. the (cells (key_input c))) cs"

definition cells_fit :: "key_column list \<Rightarrow> (nat \<Rightarrow> cell option) \<Rightarrow> bool" where
  "cells_fit cs cells \<longleftrightarrow> (\<forall>c \<in> set cs. \<exists>v. cells (key_input c) = Some v \<and> cell_fits (key_kind c) (key_nullable c) v)"

lemma cells_fit_values: "cells_fit cs cells \<Longrightarrow> values_fit cs (row_values cs cells)"
  by (induction cs) (auto simp: cells_fit_def row_values_def)

lemma append_columns_fit:
  "cells_fit cs cells \<Longrightarrow> length out + length (values_bytes (row_values cs cells)) \<le> capacity \<Longrightarrow> capacity < 2 ^ 64 \<Longrightarrow>
     append_columns capacity cs cells out = Inr (out @ values_bytes (row_values cs cells))"
proof (induction cs arbitrary: out)
  case (Cons c cs)
  from Cons.prems(1) obtain v where v: "cells (key_input c) = Some v" "cell_fits (key_kind c) (key_nullable c) v"
    by (auto simp: cells_fit_def)
  have rest: "cells_fit cs cells" using Cons.prems(1) by (simp add: cells_fit_def)
  have "append_value capacity out v (key_kind c) (key_nullable c) = Inr (out @ cell_bytes v)"
    by (rule append_value_fits [OF v(2)]) (use Cons.prems v(1) in \<open>simp_all add: row_values_def\<close>)
  then show ?case using Cons.IH [OF rest, of "out @ cell_bytes v"] Cons.prems v(1) by (simp add: row_values_def)
qed (simp add: row_values_def)

section \<open>Comparing values\<close>

text \<open>
  The order of values, independently of the code: NULL first, numbers by value, doubles by
  their signed magnitude with every NaN before them, text by its bytes.
\<close>

definition double_key :: "u64 \<Rightarrow> int" where
  "double_key x = (if is_nan x then - (2 ^ 64) else double_rank x)"

fun value_order :: "cell \<Rightarrow> cell \<Rightarrow> ordering" where
  "value_order (Int64Cell a) (Int64Cell b) = order_of (sint a) (sint b)"
| "value_order (DoubleCell a) (DoubleCell b) = order_of (double_key a) (double_key b)"
| "value_order (DateCell d) (DateCell e) = order_of (days d) (days e)"
| "value_order (StringCell s) (StringCell t) = order_of_bytes s t"
| "value_order l r = (if l = r then OrderEqual else if l = NullCell then OrderLess else OrderGreater)"

text \<open>A key places NULLs where it was asked to and turns the values around when descending.\<close>

definition key_order :: "key_column \<Rightarrow> cell \<Rightarrow> cell \<Rightarrow> ordering" where
  "key_order c l r =
     (if l = NullCell \<and> r = NullCell then OrderEqual
      else if l = NullCell then (if key_nulls c = NullsLast then OrderGreater else OrderLess)
      else if r = NullCell then (if key_nulls c = NullsLast then OrderLess else OrderGreater)
      else if key_direction c = Descending then value_order r l
      else value_order l r)"

lemma double_rank_range: "- (2 ^ 64) < double_rank x"
  using uint_bounded [of "double_magnitude x"] order_less_le_trans [OF _ uint_ge_0 [of "double_magnitude x"], of "- (2 ^ 64)"]
  by (auto simp: double_rank_def)

lemma value_order_null_left [simp]: "r \<noteq> NullCell \<Longrightarrow> value_order NullCell r = OrderLess"
  by (cases r) simp_all

lemma value_order_null_right [simp]: "l \<noteq> NullCell \<Longrightarrow> value_order l NullCell = OrderGreater"
  by (cases l) simp_all

lemma compare_values_doubles:
  "compare_values (DoubleCell l) (DoubleCell r) = Some (order_of (double_key l) (double_key r))"
  using double_rank_range [of l] double_rank_range [of r]
  by (auto simp: double_key_def order_of_def double_less_def split: bool.splits)

lemma compare_values_defined:
  assumes "cell_fits kind n1 l" and "cell_fits kind n2 r"
  shows "compare_values l r = Some (value_order l r)"
proof (cases "\<exists>x y. l = DoubleCell x \<and> r = DoubleCell y")
  case True
  then show ?thesis by (auto simp only: compare_values_doubles value_order.simps)
next
  case False
  with assms show ?thesis by (cases l; cases r) simp_all
qed

lemma order_of_bytes_refl [simp]: "order_of_bytes s s = OrderEqual"
  by simp

lemma order_of_trans:
  "order_of a b \<noteq> OrderGreater \<Longrightarrow> order_of b c \<noteq> OrderGreater \<Longrightarrow> order_of a c \<noteq> OrderGreater"
  by (simp add: order_of_not_greater)

interpretation present: comparison_order value_order "\<lambda>v. v \<noteq> NullCell \<and> cell_fits kind True v" for kind
proof
  fix a b assume "a \<noteq> NullCell \<and> cell_fits kind True a" "b \<noteq> NullCell \<and> cell_fits kind True b"
  then show "value_order b a = reverse_order (value_order a b)"
    by (cases a; cases b) (simp_all, (rule order_of_reverse | rule order_of_bytes_reverse)+)
next
  fix a b c
  assume a: "a \<noteq> NullCell \<and> cell_fits kind True a" "b \<noteq> NullCell \<and> cell_fits kind True b"
      "c \<noteq> NullCell \<and> cell_fits kind True c"
    and o: "value_order a b \<noteq> OrderGreater" "value_order b c \<noteq> OrderGreater"
  show "value_order a c \<noteq> OrderGreater"
  proof (cases a)
    case (Int64Cell x)
    with a obtain y z where "b = Int64Cell y" "c = Int64Cell z" by (cases b; cases c) auto
    with o Int64Cell show ?thesis by (simp add: order_of_not_greater)
  next
    case (DoubleCell x)
    with a obtain y z where "b = DoubleCell y" "c = DoubleCell z" by (cases b; cases c) auto
    with o DoubleCell show ?thesis by (simp add: order_of_not_greater)
  next
    case (DateCell x)
    with a obtain y z where "b = DateCell y" "c = DateCell z" by (cases b; cases c) auto
    with o DateCell show ?thesis by (simp add: order_of_not_greater)
  next
    case (StringCell x)
    with a obtain y z where "b = StringCell y" "c = StringCell z" by (cases b; cases c) auto
    with o StringCell show ?thesis by (simp add: order_of_bytes_trans [of x y z])
  qed (use a in simp)
qed

lemma cell_fits_True: "cell_fits kind nullable v \<Longrightarrow> cell_fits kind True v"
  by (cases v) simp_all

lemma value_order_swap:
  "cell_fits kind n l \<Longrightarrow> cell_fits kind n r \<Longrightarrow> value_order r l = reverse_order (value_order l r)"
  using present.swap [of l kind r] cell_fits_True by (cases "l = NullCell"; cases "r = NullCell") auto

lemma key_order_null [simp]:
  "key_order c NullCell NullCell = OrderEqual"
  "r \<noteq> NullCell \<Longrightarrow> key_order c NullCell r = (if key_nulls c = NullsLast then OrderGreater else OrderLess)"
  "l \<noteq> NullCell \<Longrightarrow> key_order c l NullCell = (if key_nulls c = NullsLast then OrderLess else OrderGreater)"
  by (simp_all add: key_order_def)

text \<open>The code compares first and reverses the answer.\<close>

lemma reversed_comparison:
  assumes "cell_fits kind n l" and "cell_fits kind n r"
  shows "(if reverses c l r then reverse_order (value_order l r) else value_order l r) = key_order c l r"
  using value_order_swap [OF assms]
  by (cases "l = NullCell"; cases "r = NullCell") (auto simp: key_order_def reverses_def)

lemma key_order_present:
  assumes "cell_fits kind n l" and "cell_fits kind n r" and "l \<noteq> NullCell" and "r \<noteq> NullCell"
  shows "key_order c l r = (if key_direction c = Descending then reverse_order (value_order l r) else value_order l r)"
  using value_order_swap [OF assms(1,2)] assms(3,4) by (simp add: key_order_def)

lemma value_order_equal_swap: "value_order l r = OrderEqual \<longleftrightarrow> value_order r l = OrderEqual"
  by (cases l; cases r) auto

lemma key_order_equal: "key_order c l r = OrderEqual \<longleftrightarrow> value_order l r = OrderEqual"
  using value_order_equal_swap [of l r] by (cases "l = NullCell"; cases "r = NullCell") (auto simp: key_order_def)

lemma key_order_swap:
  assumes "cell_fits kind n l" and "cell_fits kind n r"
  shows "key_order c r l = reverse_order (key_order c l r)"
proof (cases "l = NullCell \<or> r = NullCell")
  case True
  then show ?thesis by (cases "l = NullCell"; cases "r = NullCell") auto
next
  case False
  then show ?thesis
    using value_order_swap [OF assms] assms by (simp add: key_order_def)
qed

lemma key_order_trans:
  assumes "cell_fits kind n a" and "cell_fits kind n b" and "cell_fits kind n d"
    and "key_order c a b \<noteq> OrderGreater" and "key_order c b d \<noteq> OrderGreater"
  shows "key_order c a d \<noteq> OrderGreater"
proof (cases "a = NullCell \<or> b = NullCell \<or> d = NullCell")
  case True
  then show ?thesis
    using assms(4,5) by (cases "a = NullCell"; cases "b = NullCell"; cases "d = NullCell") (auto split: if_splits)
next
  case False
  with assms cell_fits_True have f: "a \<noteq> NullCell \<and> cell_fits kind True a" "b \<noteq> NullCell \<and> cell_fits kind True b"
      "d \<noteq> NullCell \<and> cell_fits kind True d" by blast+
  show ?thesis
  proof (cases "key_direction c = Descending")
    case False
    then show ?thesis using assms(4,5) f present.trans [OF f] by (simp add: key_order_present [OF assms(1,2)] key_order_present [OF assms(2,3)] key_order_present [OF assms(1,3)])
  next
    case True
    with assms(4,5) f have "value_order d b \<noteq> OrderGreater" "value_order b a \<noteq> OrderGreater"
      using present.swap [OF f(2,1)] present.swap [OF f(3,2)] by (simp_all add: key_order_present [OF assms(1,2)] key_order_present [OF assms(2,3)])
    from present.trans [OF f(3,2,1) this] present.swap [OF f(3,1)] True f
    show ?thesis by (simp add: key_order_present [OF assms(1,2)] key_order_present [OF assms(2,3)] key_order_present [OF assms(1,3)])
  qed
qed

interpretation key: comparison_order "key_order c" "cell_fits (key_kind c) (key_nullable c)" for c
proof
  fix a b assume "cell_fits (key_kind c) (key_nullable c) a" "cell_fits (key_kind c) (key_nullable c) b"
  then show "key_order c b a = reverse_order (key_order c a b)" by (rule key_order_swap)
next
  fix a b d
  assume "cell_fits (key_kind c) (key_nullable c) a" "cell_fits (key_kind c) (key_nullable c) b"
    "cell_fits (key_kind c) (key_nullable c) d" "key_order c a b \<noteq> OrderGreater" "key_order c b d \<noteq> OrderGreater"
  then show "key_order c a d \<noteq> OrderGreater" by (rule key_order_trans)
qed

section \<open>Comparing rows\<close>

text \<open>Column by column, the first difference decides.\<close>

fun rows_order :: "key_column list \<Rightarrow> cell list \<Rightarrow> cell list \<Rightarrow> ordering" where
  "rows_order [] vs ws = OrderEqual"
| "rows_order (c # cs) vs ws = and_then (key_order c (hd vs) (hd ws)) (rows_order cs (tl vs) (tl ws))"

lemma compare_columns_fit:
  "values_fit cs vs \<Longrightarrow> values_fit cs ws \<Longrightarrow>
     compare_columns cs (values_bytes vs @ left) (values_bytes ws @ right) = Some (Inr (rows_order cs vs ws))"
proof (induction cs arbitrary: vs ws)
  case (Cons c cs)
  then obtain v vs' w ws' where vs: "vs = v # vs'" "cell_fits (key_kind c) (key_nullable c) v" "values_fit cs vs'"
    and ws: "ws = w # ws'" "cell_fits (key_kind c) (key_nullable c) w" "values_fit cs ws'" by auto
  have "compare_values v w = Some (value_order v w)" by (rule compare_values_defined [OF vs(2) ws(2)])
  then show ?case
    using Cons.IH [OF vs(3) ws(3)] vs ws by (simp add: read_cell reversed_comparison [OF vs(2) ws(2)] and_then_def)
qed simp

lemma rows_order_comparison: "comparison_order (rows_order cs) (values_fit cs)"
proof (induction cs)
  case Nil
  show ?case by unfold_locales simp_all
next
  case (Cons c cs)
  have "comparison_order (\<lambda>v w. key_order c (hd v) (hd w)) (values_fit (c # cs))"
    by (rule key.on) auto
  moreover have "comparison_order (\<lambda>v w. rows_order cs (tl v) (tl w)) (values_fit (c # cs))"
    by (rule comparison_order.on [OF Cons.IH]) auto
  ultimately show ?case
    unfolding rows_order.simps by (rule comparison_order.tie_break)
qed

interpretation rows: comparison_order "rows_order cs" "values_fit cs" for cs
  by (rule rows_order_comparison)

section \<open>Hashing\<close>

lemma double_bits_eqI:
  assumes "double_magnitude x = double_magnitude y" and "double_negative x = double_negative y"
  shows "x = y"
proof (rule bit_word_eqI)
  fix n assume "n < LENGTH(64)"
  then have n: "n < 63 \<or> n = 63" by auto
  have m: "(0x7FFFFFFFFFFFFFFF :: u64) = mask 63" "(0x8000000000000000 :: u64) = 2 ^ 63"
    by (simp_all add: mask_eq_exp_minus_1)
  have "bit x n = bit y n" if "n < 63"
    using arg_cong [OF assms(1), of "\<lambda>w. bit w n"] that
    unfolding double_magnitude_def m(1) by (simp add: bit_and_iff bit_mask_iff del: of_nat_numeral)
  moreover have "bit x 63 = bit y 63"
    using assms(2) unfolding double_negative_def m(2) and_exp_eq_0_iff_not_bit by simp
  ultimately show "bit x n = bit y n" using n by auto
qed

lemma double_key_equal:
  assumes "double_key x = double_key y"
  shows "canonical_bits x = canonical_bits y"
proof (cases "is_nan x \<or> is_nan y")
  case True
  then show ?thesis
    using assms double_rank_range [of x] double_rank_range [of y]
    by (auto simp: double_key_def canonical_bits_def split: if_splits)
next
  case False
  with assms have r: "double_rank x = double_rank y" by (simp add: double_key_def)
  have z: "\<not> is_nan 0" "double_rank 0 = 0" by (simp_all add: is_nan_def double_rank_def double_magnitude_def double_negative_def)
  show ?thesis
  proof (cases "double_rank x = 0")
    case True
    then show ?thesis using r z False by (simp add: canonical_bits_def double_eq_def)
  next
    case nonzero: False
    define a b where ab: "a = uint (double_magnitude x)" "b = uint (double_magnitude y)"
    have "0 \<le> a" "0 \<le> b" by (simp_all add: ab)
    moreover have "double_rank x = (if double_negative x then - a else a)"
        "double_rank y = (if double_negative y then - b else b)"
      by (simp_all add: double_rank_def ab)
    ultimately have "a = b \<and> double_negative x = double_negative y"
      using r nonzero by (auto split: if_splits)
    then have "double_magnitude x = double_magnitude y \<and> double_negative x = double_negative y"
      unfolding ab word_uint_eq_iff .
    then have "x = y" by (blast intro: double_bits_eqI [of x y])
    then show ?thesis by simp
  qed
qed

lemma hash_cell_equal:
  assumes "cell_fits kind n l" and "cell_fits kind n r" and "value_order l r = OrderEqual"
  shows "hash_cell h l = hash_cell h r"
proof (cases "l = NullCell \<or> r = NullCell")
  case True
  with assms(3) show ?thesis by (cases "l = NullCell"; cases "r = NullCell") auto
next
  case False
  with assms show ?thesis
    by (cases l; cases r)
      (auto simp: hash_cell_def date_value.expand dest!: double_key_equal signed_word_eqI)
qed

lemma hash_columns_fit:
  "values_fit cs vs \<Longrightarrow> hash_columns cs (values_bytes vs @ rest) h = Inr (foldl hash_cell h vs)"
  by (induction cs arbitrary: vs h) (auto simp: read_cell)

lemma hash_rows_equal:
  "values_fit cs vs \<Longrightarrow> values_fit cs ws \<Longrightarrow> rows_order cs vs ws = OrderEqual \<Longrightarrow> foldl hash_cell h vs = foldl hash_cell h ws"
proof (induction cs arbitrary: vs ws h)
  case (Cons c cs)
  then obtain v vs' w ws' where vs: "vs = v # vs'" "cell_fits (key_kind c) (key_nullable c) v" "values_fit cs vs'"
    and ws: "ws = w # ws'" "cell_fits (key_kind c) (key_nullable c) w" "values_fit cs ws'" by auto
  with Cons.prems(3) have e: "key_order c v w = OrderEqual" "rows_order cs vs' ws' = OrderEqual"
    by (auto simp: and_then_def split: if_splits)
  have "hash_cell h v = hash_cell h w"
    by (rule hash_cell_equal [OF vs(2) ws(2)]) (use e(1) in \<open>simp add: key_order_equal\<close>)
  then show ?case using Cons.IH [OF vs(3) ws(3) e(2)] by (simp add: vs ws)
qed simp

section \<open>Building a layout\<close>

definition input_column :: "semantic_column list \<Rightarrow> nat \<Rightarrow> key_column" where
  "input_column inputs i =
     \<lparr>key_input = i, key_kind = column_kind (inputs ! i), key_nullable = column_nullable (inputs ! i),
      key_direction = Ascending, key_nulls = NullsFirst\<rparr>"

definition requested :: "semantic_column list \<Rightarrow> order_column \<Rightarrow> key_column" where
  "requested inputs k =
     (input_column inputs (order_input k))\<lparr>key_direction := order_direction k, key_nulls := order_nulls k\<rparr>"

lemma place_inputs_Inr:
  assumes "place_inputs cs columns bytes = Inr (columns', bytes')" and "length columns \<le> max_row_values"
  shows "columns' = columns @ map (\<lambda>i. (input_column cs i)\<lparr>key_input := length columns + i\<rparr>) [0..<length cs]
    \<and> bytes' = bytes + sum_list (map (field_bytes \<circ> column_kind) cs) \<and> length columns' \<le> max_row_values"
  using assms
proof (induction cs arbitrary: columns bytes)
  case (Cons c cs)
  let ?k = "\<lparr>key_input = length columns, key_kind = column_kind c, key_nullable = column_nullable c,
      key_direction = Ascending, key_nulls = NullsFirst\<rparr>"
  from Cons.prems have "place_inputs cs (columns @ [?k]) (bytes + field_bytes (column_kind c)) = Inr (columns', bytes')"
      "length (columns @ [?k]) \<le> max_row_values"
    by (auto simp: attempt_Inr_conv usize_or_def split: if_splits)
  from Cons.IH [OF this] show ?case
    using Cons.prems(2) by (auto simp add: upt_conv_Cons map_Suc_upt [symmetric] input_column_def simp del: upt_Suc)
qed simp

text \<open>The columns stay the inputs, in some order, and the keyed ones come first.\<close>

definition placed :: "semantic_column list \<Rightarrow> key_column list \<Rightarrow> bool" where
  "placed inputs columns \<longleftrightarrow>
     distinct (map key_input columns) \<and> set (map key_input columns) = {0..<length inputs}
     \<and> (\<forall>c \<in> set columns. key_kind c = column_kind (inputs ! key_input c)
          \<and> key_nullable c = column_nullable (inputs ! key_input c))"

lemma position_Some: "position p xs = Some i \<Longrightarrow> i < length xs \<and> p (xs ! i)"
  by (induction xs arbitrary: i) (auto split: if_splits)

lemma position_None: "position p xs = None \<longleftrightarrow> (\<forall>x \<in> set xs. \<not> p x)"
  by (induction xs) auto

lemma length_swap_at [simp]: "length (swap_at i j xs) = length xs"
  by (simp add: swap_at_def)

lemma mset_swap_at: "i < length xs \<Longrightarrow> j < length xs \<Longrightarrow> mset (swap_at i j xs) = mset xs"
  by (simp add: swap_at_def mset_swap)

lemma nth_swap_at: "i < length xs \<Longrightarrow> j < length xs \<Longrightarrow> swap_at i j xs ! i = xs ! j"
  by (simp add: swap_at_def nth_list_update)

lemma take_swap_at: "i \<le> j \<Longrightarrow> take i (swap_at i j xs) = take i xs"
  by (simp add: swap_at_def)

lemma placed_mset: "mset xs = mset ys \<Longrightarrow> placed inputs xs \<Longrightarrow> placed inputs ys"
  unfolding placed_def by (metis mset_map mset_eq_imp_distinct_iff mset_eq_setD)

lemma placed_update:
  assumes "placed inputs columns" and "i < length columns"
  shows "placed inputs (columns[i := (columns ! i)\<lparr>key_direction := d, key_nulls := n\<rparr>])"
proof -
  have "map key_input (columns[i := (columns ! i)\<lparr>key_direction := d, key_nulls := n\<rparr>]) = map key_input columns"
    using assms(2) by (simp add: map_update)
      (metis list_update_id map_update nth_map)
  moreover have "c \<in> set columns \<or> c = (columns ! i)\<lparr>key_direction := d, key_nulls := n\<rparr>"
    if "c \<in> set (columns[i := (columns ! i)\<lparr>key_direction := d, key_nulls := n\<rparr>])" for c
    using that set_update_subset_insert by fastforce
  ultimately show ?thesis
    using assms nth_mem [OF assms(2)] unfolding placed_def by fastforce
qed

text \<open>
  Comparing by a list of keys, read off two rows by input position. A key whose column an
  earlier key already compared cannot break a tie that key left.
\<close>

definition cells_order :: "key_column list \<Rightarrow> (nat \<Rightarrow> cell option) \<Rightarrow> (nat \<Rightarrow> cell option) \<Rightarrow> ordering" where
  "cells_order cs a b = rows_order cs (row_values cs a) (row_values cs b)"

lemma cells_order_simps [simp]:
  "cells_order [] a b = OrderEqual"
  "cells_order (c # cs) a b =
     and_then (key_order c (the (a (key_input c))) (the (b (key_input c)))) (cells_order cs a b)"
  by (simp_all add: cells_order_def row_values_def)

lemma cells_order_append: "cells_order (cs @ ds) a b = and_then (cells_order cs a b) (cells_order ds a b)"
  by (induction cs) (simp_all add: and_then_assoc)

lemma cells_order_equal:
  "cells_order cs a b = OrderEqual \<Longrightarrow> c \<in> set cs \<Longrightarrow> value_order (the (a (key_input c))) (the (b (key_input c))) = OrderEqual"
  by (induction cs) (auto simp: and_then_def key_order_equal split: if_splits)

lemma cells_order_repeated:
  assumes "c \<in> set cs" and "key_input k = key_input c"
  shows "and_then (cells_order cs a b) (cells_order (k # ks) a b) = and_then (cells_order cs a b) (cells_order ks a b)"
  using cells_order_equal [OF _ assms(1), of a b] assms(2)
  by (cases "cells_order cs a b = OrderEqual") (simp_all add: key_order_equal [of k] and_then_def)

lemma place_keys_Inr:
  assumes "place_keys ks columns keys bytes = Inr (columns', keys', bytes')"
    and "placed inputs columns" and "keys \<le> length columns"
  shows "placed inputs columns' \<and> length columns' = length columns \<and> keys' \<le> length columns'
    \<and> cells_order (take keys' columns') a b =
        and_then (cells_order (take keys columns) a b) (cells_order (map (requested inputs) ks) a b)"
  using assms
proof (induction ks arbitrary: columns keys bytes)
  case Nil
  then show ?case by simp
next
  case (Cons k ks)
  have inside: "order_input k < length columns" using Cons.prems(1) by (auto split: if_splits)
  show ?case
  proof (cases "\<exists>c \<in> set (take keys columns). key_input c = order_input k")
    case True
    then obtain c where c: "c \<in> set (take keys columns)" "key_input c = order_input k" by blast
    have "place_keys ks columns keys bytes = Inr (columns', keys', bytes')"
      using Cons.prems(1) True inside by simp
    from Cons.IH [OF this Cons.prems(2,3)] show ?thesis
      using cells_order_repeated [OF c(1), of "requested inputs k" a b] c(2)
      by (simp add: requested_def input_column_def)
  next
    case False
    with Cons.prems(1) inside obtain i where i: "position (\<lambda>c. key_input c = order_input k) (drop keys columns) = Some i"
      by (auto split: option.splits)
    from position_Some [OF i] have j: "keys + i < length columns" "key_input (columns ! (keys + i)) = order_input k"
      using Cons.prems(3) by auto
    define moved where "moved = swap_at keys (keys + i) columns"
    define key where "key = (moved ! keys)\<lparr>key_direction := order_direction k, key_nulls := order_nulls k\<rparr>"
    have keys: "keys < length columns" using j(1) by simp
    have at: "moved ! keys = columns ! (keys + i)" unfolding moved_def by (rule nth_swap_at [OF keys j(1)])
    have "mset moved = mset columns" unfolding moved_def by (rule mset_swap_at [OF keys j(1)])
    from placed_mset [OF this [symmetric] Cons.prems(2)] have "placed inputs moved" .
    then have p: "placed inputs (moved[keys := key])"
      unfolding key_def by (rule placed_update) (simp add: moved_def keys)
    have "columns ! (keys + i) \<in> set columns" using j(1) by simp
    with Cons.prems(2) j(2) have "key_kind (columns ! (keys + i)) = column_kind (inputs ! order_input k)"
        "key_nullable (columns ! (keys + i)) = column_nullable (inputs ! order_input k)"
      by (auto simp: placed_def)
    then have key: "key = requested inputs k"
      unfolding key_def at requested_def input_column_def using j(2) by simp
    have go: "place_keys ks (moved[keys := key]) (keys + 1) (bytes + field_bytes (key_kind key)) = Inr (columns', keys', bytes')"
      using Cons.prems(1) False inside i
      by (simp add: moved_def [symmetric] key_def [symmetric] Let_def attempt_Inr_conv usize_or_def split: if_splits)
    have len: "length (moved[keys := key]) = length columns" by (simp add: moved_def)
    have "take (keys + 1) (moved[keys := key]) = take keys columns @ [key]"
      using keys by (simp add: take_Suc_conv_app_nth moved_def take_swap_at)
    then show ?thesis
      using Cons.IH [OF go p] keys len key by (simp add: cells_order_append and_then_assoc)
  qed
qed

lemma with_keys_Inr:
  assumes "with_keys inputs order = Inr lay"
  shows "placed inputs (layout_columns lay)" and "length (layout_columns lay) = length inputs"
    and "layout_keys lay \<le> length inputs"
    and "layout_max_bytes lay = sum_list (map (field_bytes \<circ> column_kind) inputs)"
    and "cells_order (take (layout_keys lay) (layout_columns lay)) a b = cells_order (map (requested inputs) order) a b"
proof -
  from assms obtain columns max_bytes columns' keys key_bytes where
    p: "place_inputs inputs [] 0 = Inr (columns, max_bytes)"
      "place_keys order columns 0 0 = Inr (columns', keys, key_bytes)"
    and lay: "layout_columns lay = columns'" "layout_keys lay = keys" "layout_max_bytes lay = max_bytes"
    by (auto simp: with_keys_def attempt_Inr_conv Let_def split: if_splits)
  from place_inputs_Inr [OF p(1)] have c: "columns = map (input_column inputs) [0..<length inputs]"
      "max_bytes = sum_list (map (field_bytes \<circ> column_kind) inputs)"
    by (simp_all add: input_column_def)
  have "placed inputs columns" by (auto simp: placed_def c(1) input_column_def comp_def)
  from place_keys_Inr [OF p(2) this, of a b] c lay show "placed inputs (layout_columns lay)"
    "length (layout_columns lay) = length inputs" "layout_keys lay \<le> length inputs"
    "layout_max_bytes lay = sum_list (map (field_bytes \<circ> column_kind) inputs)"
    "cells_order (take (layout_keys lay) (layout_columns lay)) a b = cells_order (map (requested inputs) order) a b"
    by simp_all
qed

section \<open>Whole rows\<close>

definition inputs_fit :: "semantic_column list \<Rightarrow> (nat \<Rightarrow> cell option) \<Rightarrow> bool" where
  "inputs_fit inputs cells \<longleftrightarrow>
     (\<forall>i < length inputs. \<exists>v. cells i = Some v \<and> cell_fits (column_kind (inputs ! i)) (column_nullable (inputs ! i)) v)"

definition layout_row :: "row_layout \<Rightarrow> (nat \<Rightarrow> cell option) \<Rightarrow> u8 list" where
  "layout_row lay cells = values_bytes (row_values (layout_columns lay) cells)"

lemma placed_fit: "placed inputs cs \<Longrightarrow> inputs_fit inputs cells \<Longrightarrow> cells_fit cs cells"
  unfolding placed_def inputs_fit_def cells_fit_def
proof (elim conjE, intro ballI)
  fix c
  assume c: "c \<in> set cs" and inputs: "set (map key_input cs) = {0..<length inputs}"
    and fit: "\<forall>i<length inputs. \<exists>v. cells i = Some v \<and> cell_fits (column_kind (inputs ! i)) (column_nullable (inputs ! i)) v"
    and kinds: "\<forall>c\<in>set cs. key_kind c = column_kind (inputs ! key_input c) \<and> key_nullable c = column_nullable (inputs ! key_input c)"
  from c inputs have "key_input c < length inputs" by auto
  with fit kinds c show "\<exists>v. cells (key_input c) = Some v \<and> cell_fits (key_kind c) (key_nullable c) v" by simp
qed

lemma placed_bytes:
  assumes "placed inputs cs"
  shows "sum_list (map (field_bytes \<circ> key_kind) cs) = sum_list (map (field_bytes \<circ> column_kind) inputs)"
proof -
  let ?g = "\<lambda>i. field_bytes (column_kind (inputs ! i))"
  have "map (field_bytes \<circ> key_kind) cs = map ?g (map key_input cs)" using assms by (simp add: placed_def)
  moreover have "sum_list (map ?g (map key_input cs)) = sum ?g {0..<length inputs}"
    using assms sum_list_distinct_conv_sum_set [of "map key_input cs" ?g] by (simp only: placed_def)
  moreover have "sum_list (map (field_bytes \<circ> column_kind) inputs) = sum ?g {0..<length inputs}"
    by (simp add: sum_list_sum_nth)
  ultimately show ?thesis by (simp only:)
qed

lemma layout_row_facts:
  assumes "with_keys inputs order = Inr lay" and "inputs_fit inputs cells"
  shows "values_fit (layout_columns lay) (row_values (layout_columns lay) cells)"
    and "length (layout_row lay cells) \<le> layout_max_bytes lay"
    and "\<lbrakk>length out + layout_max_bytes lay \<le> capacity; capacity < 2 ^ 64\<rbrakk> \<Longrightarrow>
      append_row capacity lay cells out = Some (Inr (out @ layout_row lay cells))"
proof -
  note w = with_keys_Inr [OF assms(1)]
  from placed_fit [OF w(1) assms(2)] have fit: "cells_fit (layout_columns lay) cells" .
  from cells_fit_values [OF this] show vf: "values_fit (layout_columns lay) (row_values (layout_columns lay) cells)" .
  from values_bytes_bound [OF this] show len: "length (layout_row lay cells) \<le> layout_max_bytes lay"
    by (simp add: layout_row_def w(4) placed_bytes [OF w(1)])
  show "append_row capacity lay cells out = Some (Inr (out @ layout_row lay cells))"
    if "length out + layout_max_bytes lay \<le> capacity" "capacity < 2 ^ 64"
    using append_columns_fit [OF fit, of out capacity] that len
    by (simp add: append_row_def layout_row_def)
qed

lemma read_columns_values:
  assumes "cells_fit cs cells" and "\<forall>c \<in> set cs. key_input c < length found"
  shows "read_columns cs (values_bytes (row_values cs cells)) found =
    Inr (map (\<lambda>i. if i \<in> key_input ` set cs then the (cells i) else found ! i) [0..<length found])"
  using assms
proof (induction cs arbitrary: found)
  case Nil
  then show ?case by (simp add: row_values_def map_nth)
next
  case (Cons c cs)
  then obtain v where v: "cells (key_input c) = Some v" "cell_fits (key_kind c) (key_nullable c) v" "cells_fit cs cells"
    by (auto simp: cells_fit_def)
  let ?found = "found[key_input c := v]"
  have "read_columns (c # cs) (values_bytes (row_values (c # cs) cells)) found =
      read_columns cs (values_bytes (row_values cs cells)) ?found"
    using v by (simp add: row_values_def read_cell)
  also have "\<dots> = Inr (map (\<lambda>i. if i \<in> key_input ` set cs then the (cells i) else ?found ! i) [0..<length found])"
    using Cons.IH [OF v(3), of ?found] Cons.prems(2) by simp
  also have "map (\<lambda>i. if i \<in> key_input ` set cs then the (cells i) else ?found ! i) [0..<length found] =
      map (\<lambda>i. if i \<in> key_input ` set (c # cs) then the (cells i) else found ! i) [0..<length found]"
    using Cons.prems(2) v(1) by (auto simp: nth_list_update)
  finally show ?case .
qed

lemma compare_layout_rows:
  assumes "with_keys inputs order = Inr lay" and "inputs_fit inputs a" and "inputs_fit inputs b"
  shows "compare_rows lay (layout_row lay a) (layout_row lay b) = Some (Inr (cells_order (map (requested inputs) order) a b))"
proof -
  note w = with_keys_Inr [OF assms(1)]
  let ?cs = "take (layout_keys lay) (layout_columns lay)"
  have split: "layout_row lay r = values_bytes (row_values ?cs r) @ values_bytes (row_values (drop (layout_keys lay) (layout_columns lay)) r)" for r
    using values_bytes_split [of "row_values (layout_columns lay) r" "layout_keys lay"]
    by (simp add: layout_row_def row_values_def take_map drop_map)
  have fit: "values_fit ?cs (row_values ?cs r)" if "inputs_fit inputs r" for r
    using values_fit_take [OF layout_row_facts(1) [OF assms(1) that], of "layout_keys lay"]
    by (simp add: row_values_def take_map)
  show ?thesis
    unfolding compare_rows_def compare_prefix_def split
    using compare_columns_fit [OF fit [OF assms(2)] fit [OF assms(3)]] w(5) [of a b]
    by (simp add: cells_order_def)
qed

text \<open>C30: A row survives the sorter's files. Any batch row whose values fit their columns' types is
  appended without error to a buffer with room for one maximum row, takes no more bytes than the
  layout admits (so the encoder's assertion holds), passes the validation a reader applies, and
  is read back value for value in the original column order, whatever order the layout stored
  the columns in. Doubles keep their exact bits.\<close>

theorem sorted_rows_roundtrip:
  assumes "with_keys inputs order = Inr lay" and "inputs_fit inputs cells"
    and "length out + layout_max_bytes lay \<le> capacity" and "capacity < 2 ^ 64"
  shows "\<exists>bytes. append_row capacity lay cells out = Some (Inr (out @ bytes))
    \<and> validate_row lay bytes = Inr ()
    \<and> read_columns (layout_columns lay) bytes (replicate (length inputs) NullCell) =
        Inr (map (\<lambda>i. the (cells i)) [0..<length inputs])"
proof -
  note w = with_keys_Inr [OF assms(1)] and f = layout_row_facts [OF assms(1,2)]
  have fit: "cells_fit (layout_columns lay) cells" by (rule placed_fit [OF w(1) assms(2)])
  have inputs: "key_input ` set (layout_columns lay) = {0..<length inputs}"
    using w(1) by (simp add: placed_def)
  then have "\<forall>c \<in> set (layout_columns lay). key_input c < length (replicate (length inputs) NullCell)" by auto
  from read_columns_values [OF fit this] have
    "read_columns (layout_columns lay) (layout_row lay cells) (replicate (length inputs) NullCell) =
      Inr (map (\<lambda>i. the (cells i)) [0..<length inputs])"
    by (simp add: layout_row_def inputs cong: map_cong)
  moreover have "validate_row lay (layout_row lay cells) = Inr ()"
    using f(1,2) by (auto simp: validate_row_Inr layout_row_def)
  ultimately show ?thesis using f(3) [OF assms(3,4)] by blast
qed

definition sample_inputs2 :: "semantic_column list" where
  "sample_inputs2 =
     [\<lparr>column_identity = 1, column_kind = Int64Type, column_nullable = True\<rparr>,
      \<lparr>column_identity = 2, column_kind = StringType, column_nullable = False\<rparr>]"

definition sample_order :: "order_column list" where
  "sample_order = [\<lparr>order_input = 1, order_direction = Descending, order_nulls = NullsLast\<rparr>,
     \<lparr>order_input = 1, order_direction = Ascending, order_nulls = NullsFirst\<rparr>]"

definition sample_cells :: "nat \<Rightarrow> cell option" where
  "sample_cells i = (if i = 0 then Some NullCell else if i = 1 then Some (StringCell [65, 66]) else None)"

definition sample_cells2 :: "nat \<Rightarrow> cell option" where
  "sample_cells2 i = (if i = 0 then Some (Int64Cell 5) else if i = 1 then Some (StringCell [65]) else None)"

lemma sample_inputs_fit: "inputs_fit sample_inputs2 sample_cells" "inputs_fit sample_inputs2 sample_cells2"
  by (auto simp: inputs_fit_def sample_inputs2_def sample_cells_def sample_cells2_def max_text_bytes_def less_Suc_eq)

lemma sample_layout: "\<exists>lay. with_keys sample_inputs2 sample_order = Inr lay \<and> layout_max_bytes lay = 65550"
  by (simp add: with_keys_def sample_inputs2_def sample_order_def usize_or_def field_bytes_def max_text_bytes_def
      max_row_values_def max_order_items_def swap_at_def Let_def)

theorem sorted_rows_roundtrip_witness:
  "\<exists>lay bytes. with_keys sample_inputs2 sample_order = Inr lay
    \<and> append_row 65600 lay sample_cells [] = Some (Inr ([] @ bytes)) \<and> validate_row lay bytes = Inr ()
    \<and> read_columns (layout_columns lay) bytes (replicate (length sample_inputs2) NullCell) =
        Inr (map (\<lambda>i. the (sample_cells i)) [0..<length sample_inputs2])"
proof -
  from sample_layout obtain lay where lay: "with_keys sample_inputs2 sample_order = Inr lay" "layout_max_bytes lay = 65550"
    by blast
  have "length [] + layout_max_bytes lay \<le> 65600" "(65600 :: nat) < 2 ^ 64" using lay(2) by simp_all
  from sorted_rows_roundtrip [OF lay(1) sample_inputs_fit(1) this] lay(1) show ?thesis by blast
qed

text \<open>C31: Sorting follows the request. The order of two encoded rows is the lexicographic order of
  the requested keys, in the order requested and with each key's direction and NULL placement,
  read off the original columns; a key whose column was already requested changes nothing, though
  the layout stores and compares that column once. NULLs compare equal to each other, NaNs equal
  to each other and before every number, and the two zeros equal.\<close>

theorem sorting_follows_the_request:
  assumes "with_keys inputs order = Inr lay" and "inputs_fit inputs a" and "inputs_fit inputs b"
  shows "compare_rows lay (layout_row lay a) (layout_row lay b) = Some (Inr (cells_order (map (requested inputs) order) a b))"
  using assms by (rule compare_layout_rows)

theorem sorting_follows_the_request_witness:
  "\<exists>lay. with_keys sample_inputs2 sample_order = Inr lay
    \<and> compare_rows lay (layout_row lay sample_cells) (layout_row lay sample_cells2) =
        Some (Inr (cells_order (map (requested sample_inputs2) sample_order) sample_cells sample_cells2))"
  using sample_layout sorting_follows_the_request [OF _ sample_inputs_fit] by blast

text \<open>C32: Comparing valid encoded rows never fails and is a total preorder: swapping the rows
  reverses the answer, and being no greater is transitive. So any comparison sort of valid rows
  is well defined.\<close>

theorem row_comparison_is_an_order:
  assumes "layout_keys lay \<le> length (layout_columns lay)"
    and "validate_row lay x = Inr ()" and "validate_row lay y = Inr ()" and "validate_row lay z = Inr ()"
  shows "\<exists>xy yz xz. compare_rows lay x y = Some (Inr xy) \<and> compare_rows lay y x = Some (Inr (reverse_order xy))
    \<and> compare_rows lay y z = Some (Inr yz) \<and> compare_rows lay x z = Some (Inr xz)
    \<and> (xy = OrderGreater \<or> yz = OrderGreater \<or> xz \<noteq> OrderGreater)"
proof -
  let ?cs = "take (layout_keys lay) (layout_columns lay)"
  have decode: "\<exists>vs rest. values_fit ?cs vs \<and> r = values_bytes vs @ rest" if valid: "validate_row lay r = Inr ()" for r
  proof -
    from valid obtain ws where ws: "values_fit (layout_columns lay) ws" "r = values_bytes ws"
      by (auto simp: validate_row_Inr)
    then show ?thesis using values_fit_take [OF ws(1)] values_bytes_split [of ws "layout_keys lay"] by metis
  qed
  from decode [OF assms(2)] obtain vx rx where x: "values_fit ?cs vx" "x = values_bytes vx @ rx" by blast
  from decode [OF assms(3)] obtain vy ry where y: "values_fit ?cs vy" "y = values_bytes vy @ ry" by blast
  from decode [OF assms(4)] obtain vz rz where z: "values_fit ?cs vz" "z = values_bytes vz @ rz" by blast
  have "compare_rows lay x y = Some (Inr (rows_order ?cs vx vy))" "compare_rows lay y x = Some (Inr (rows_order ?cs vy vx))"
    "compare_rows lay y z = Some (Inr (rows_order ?cs vy vz))" "compare_rows lay x z = Some (Inr (rows_order ?cs vx vz))"
    using x y z compare_columns_fit by (simp_all add: compare_rows_def compare_prefix_def)
  then show ?thesis
    using rows.swap [OF x(1) y(1)] rows.trans [OF x(1) y(1) z(1)] by auto
qed

theorem row_comparison_is_an_order_witness:
  "\<exists>lay. with_keys sample_inputs2 sample_order = Inr lay
    \<and> (\<exists>xy yz xz. compare_rows lay (layout_row lay sample_cells) (layout_row lay sample_cells2) = Some (Inr xy)
        \<and> compare_rows lay (layout_row lay sample_cells2) (layout_row lay sample_cells) = Some (Inr (reverse_order xy))
        \<and> compare_rows lay (layout_row lay sample_cells2) (layout_row lay sample_cells) = Some (Inr yz)
        \<and> compare_rows lay (layout_row lay sample_cells) (layout_row lay sample_cells) = Some (Inr xz)
        \<and> (xy = OrderGreater \<or> yz = OrderGreater \<or> xz \<noteq> OrderGreater))"
proof -
  from sample_layout obtain lay where lay: "with_keys sample_inputs2 sample_order = Inr lay" by blast
  have valid: "validate_row lay (layout_row lay c) = Inr ()" if "inputs_fit sample_inputs2 c" for c
    using layout_row_facts(1,2) [OF lay that] by (auto simp: validate_row_Inr layout_row_def)
  have "layout_keys lay \<le> length (layout_columns lay)" using with_keys_Inr(2,3) [OF lay] by simp
  from row_comparison_is_an_order [OF this valid valid valid, OF sample_inputs_fit(1) sample_inputs_fit(2) sample_inputs_fit(1)]
  show ?thesis using lay by blast
qed

text \<open>C33: Rows that grouping calls equal hash alike: when two valid encoded rows compare equal on
  the layout's keys, their hashes agree, although the stored bytes may differ in NaN payloads or
  the sign of zero.\<close>

theorem equal_rows_hash_alike:
  assumes "layout_keys lay \<le> length (layout_columns lay)"
    and "validate_row lay x = Inr ()" and "validate_row lay y = Inr ()"
    and "compare_rows lay x y = Some (Inr OrderEqual)"
  shows "\<exists>h. hash_row lay x = Inr h \<and> hash_row lay y = Inr h"
proof -
  let ?cs = "take (layout_keys lay) (layout_columns lay)"
  from assms(2) obtain vx where x: "values_fit (layout_columns lay) vx" "x = values_bytes vx"
    by (auto simp: validate_row_Inr)
  from assms(3) obtain vy where y: "values_fit (layout_columns lay) vy" "y = values_bytes vy"
    by (auto simp: validate_row_Inr)
  let ?x = "take (layout_keys lay) vx" and ?y = "take (layout_keys lay) vy"
  have fx: "values_fit ?cs ?x" and fy: "values_fit ?cs ?y" by (rule values_fit_take [OF x(1)], rule values_fit_take [OF y(1)])
  have bx: "x = values_bytes ?x @ values_bytes (drop (layout_keys lay) vx)"
    and b_y: "y = values_bytes ?y @ values_bytes (drop (layout_keys lay) vy)"
    unfolding x(2) y(2) by (rule values_bytes_split)+
  have "rows_order ?cs ?x ?y = OrderEqual"
    using assms(4) compare_columns_fit [OF fx fy] bx b_y by (simp add: compare_rows_def compare_prefix_def)
  from hash_rows_equal [OF fx fy this] hash_columns_fit [OF fx] hash_columns_fit [OF fy] show ?thesis
    by (subst bx, subst b_y) (simp add: hash_row_def)
qed

theorem equal_rows_hash_alike_witness:
  "\<exists>lay. with_keys sample_inputs2 sample_order = Inr lay
    \<and> (\<exists>h. hash_row lay (layout_row lay sample_cells) = Inr h \<and> hash_row lay (layout_row lay sample_cells) = Inr h)"
proof -
  from sample_layout obtain lay where lay: "with_keys sample_inputs2 sample_order = Inr lay" by blast
  have valid: "validate_row lay (layout_row lay sample_cells) = Inr ()"
    using layout_row_facts(1,2) [OF lay sample_inputs_fit(1)] by (auto simp: validate_row_Inr layout_row_def)
  have keys: "layout_keys lay \<le> length (layout_columns lay)" using with_keys_Inr(2,3) [OF lay] by simp
  have "compare_rows lay (layout_row lay sample_cells) (layout_row lay sample_cells) = Some (Inr OrderEqual)"
    unfolding compare_layout_rows [OF lay sample_inputs_fit(1) sample_inputs_fit(1)]
    by (simp add: sample_order_def requested_def input_column_def sample_cells_def key_order_def reverses_def)
  from equal_rows_hash_alike [OF keys valid valid this] show ?thesis using lay by blast
qed

end
