(* ===== verification/Sort_Io.thy ===== *)
theory Sort_Io
  imports Sort_Row
begin

text \<open>
  The sorter's files (src/storage/scratch.rs, src/execution/blocking/io.rs): two scratch
  files, read and written through one buffer each. The host decides, call by call, whether a
  transfer succeeds (\<open>io_faults\<close>) and whether a poll finds the query cancelled
  (\<open>io_polls\<close>); a list that has run out stands for success. \<open>None\<close> is a failed
  assertion. Every caller treats an error as terminal, so an error drops the state.
\<close>

section \<open>Scratch files\<close>

record scratch_io =
  io_files :: "u8 list list"
  io_budget :: nat
  io_polls :: "bool list"
  io_faults :: "bool list"

type_synonym 'a io = "scratch_io \<Rightarrow> db_error + 'a \<times> scratch_io"

definition poll :: "scratch_io \<Rightarrow> db_error + scratch_io" where
  "poll io =
     (case io_polls io of
        [] \<Rightarrow> Inr io
      | cancelled # polls \<Rightarrow> if cancelled then Inl Cancelled else Inr (io\<lparr>io_polls := polls\<rparr>))"

definition host_transfer :: "string \<Rightarrow> scratch_io \<Rightarrow> db_error + scratch_io" where
  "host_transfer what io =
     (case io_faults io of
        [] \<Rightarrow> Inr io
      | fails # faults \<Rightarrow> if fails then Inl (IoError what) else Inr (io\<lparr>io_faults := faults\<rparr>))"

definition scratch_read :: "nat \<Rightarrow> nat \<Rightarrow> nat \<Rightarrow> u8 list io" where
  "scratch_read slot n offset io =
     attempt (poll io) (\<lambda>io.
     attempt (usize_or (offset + n) (Corrupt ''scratch offset overflow'')) (\<lambda>end_at.
       if length (io_files io ! slot) < end_at then Inl (Corrupt ''scratch read exceeds admitted extent'')
       else attempt (host_transfer ''read staging file'' io) (\<lambda>io.
         Inr (slice (io_files io ! slot) offset n, io))))"

text \<open>A file grows by what the temporary-space authority grants; a gap reads as zeros.\<close>

definition extend_to :: "nat \<Rightarrow> u8 list \<Rightarrow> u8 list" where
  "extend_to n bytes = bytes @ replicate (n - length bytes) 0"

definition scratch_write :: "nat \<Rightarrow> nat \<Rightarrow> u8 list \<Rightarrow> unit io" where
  "scratch_write slot offset bytes io =
     attempt (poll io) (\<lambda>io.
     attempt (usize_or (offset + length bytes) (Corrupt ''scratch offset overflow'')) (\<lambda>end_at.
       let file = io_files io ! slot; grown = end_at - length file in
       if io_budget io < grown
       then Inl (ResourceError ''temporary bytes'' (word_of_nat grown) (word_of_nat (io_budget io)))
       else attempt (host_transfer ''write staging file'' io) (\<lambda>io.
         Inr ((), io\<lparr>io_files := (io_files io)[slot := put (extend_to end_at file) offset bytes],
                     io_budget := io_budget io - grown\<rparr>))))"

definition scratch_reset :: "nat \<Rightarrow> unit io" where
  "scratch_reset slot io =
     attempt (poll io) (\<lambda>io.
       if length (io_files io) \<le> slot then Inl (Corrupt ''scratch reset file slot'')
       else attempt (host_transfer ''reset query scratch file'' io) (\<lambda>io.
         Inr ((), io\<lparr>io_files := (io_files io)[slot := []],
                     io_budget := io_budget io + length (io_files io ! slot)\<rparr>)))"

section \<open>Reading\<close>

definition record_header :: nat where "record_header = 32"
definition max_frame_bytes :: nat where
  "max_frame_bytes = record_header + max_row_values * (5 + max_text_bytes)"

text \<open>The transfer size of GNU/Linux.\<close>

definition io_bytes :: nat where "io_bytes = 65536"

record read_buffer =
  rb_bytes :: "u8 list"
  rb_start :: nat
  rb_used :: nat
  rb_slot :: "nat option"
  rb_ahead :: nat

definition new_reader :: read_buffer where
  "new_reader = \<lparr>rb_bytes = replicate io_bytes 0, rb_start = 0, rb_used = 0, rb_slot = None, rb_ahead = 0\<rparr>"

definition clear_reader :: "read_buffer \<Rightarrow> read_buffer" where
  "clear_reader r = r\<lparr>rb_used := 0, rb_ahead := 0\<rparr>"

definition reread_until :: "nat \<Rightarrow> read_buffer \<Rightarrow> read_buffer" where
  "reread_until end_at r = (clear_reader r)\<lparr>rb_ahead := end_at\<rparr>"

definition limit_read_ahead :: "nat \<Rightarrow> read_buffer \<Rightarrow> read_buffer" where
  "limit_read_ahead end_at r = r\<lparr>rb_ahead := end_at\<rparr>"

text \<open>One turn of the transfer loop: refill the buffer unless it holds the offset.\<close>

definition refill :: "nat \<Rightarrow> nat \<Rightarrow> nat \<Rightarrow> read_buffer \<Rightarrow> read_buffer io" where
  "refill slot offset limit r io =
     (if rb_start r \<le> offset \<and> offset < rb_start r + rb_used r then Inr (r, io)
      else
        let read_end = (if offset < rb_ahead r then min limit (rb_ahead r) else limit);
            used = min (read_end - offset) io_bytes
        in attempt (scratch_read slot used offset io) (\<lambda>(bytes, io).
             Inr (r\<lparr>rb_bytes := put (rb_bytes r) 0 bytes, rb_start := offset, rb_used := used\<rparr>, io)))"

fun fill_output ::
    "nat \<Rightarrow> nat \<Rightarrow> nat \<Rightarrow> nat \<Rightarrow> read_buffer \<Rightarrow> scratch_io \<Rightarrow> (db_error + (u8 list \<times> read_buffer) \<times> scratch_io) option" where
  "fill_output slot offset limit n r io =
     (if n = 0 then Some (Inr (([], r), io))
      else
        case attempt (poll io) (refill slot offset limit r) of
          Inl e \<Rightarrow> Some (Inl e)
        | Inr (r, io) \<Rightarrow>
            let at = offset - rb_start r; taken = min n (rb_used r - at); chunk = slice (rb_bytes r) at taken in
            if taken = 0 then None
            else map_option (map_sum id (\<lambda>((bytes, r), io). ((chunk @ bytes, r), io)))
                   (fill_output slot (offset + taken) limit (n - taken) r io))"

declare fill_output.simps [simp del]

definition buffered_read ::
    "nat \<Rightarrow> nat \<Rightarrow> nat \<Rightarrow> nat \<Rightarrow> read_buffer \<Rightarrow> scratch_io \<Rightarrow> (db_error + (u8 list \<times> read_buffer) \<times> scratch_io) option" where
  "buffered_read slot offset limit n r io =
     (if 2 \<le> slot then Some (Inl (Corrupt ''group input file slot''))
      else
        let r = (if rb_slot r \<noteq> Some slot then (clear_reader r)\<lparr>rb_slot := Some slot\<rparr> else r) in
        case usize_or (offset + n) (Corrupt ''group buffered read extent'') of
          Inl e \<Rightarrow> Some (Inl e)
        | Inr end_at \<Rightarrow>
            if limit < end_at \<or> max_frame_bytes < n
            then Some (Inl (Corrupt ''group read exceeds run boundary''))
            else fill_output slot offset limit n r io)"

section \<open>Writing\<close>

record write_buffer =
  wb_bytes :: "u8 list"
  wb_offset :: nat

definition new_writer :: write_buffer where
  "new_writer = \<lparr>wb_bytes = [], wb_offset = 0\<rparr>"

definition write_position :: "write_buffer \<Rightarrow> db_error + nat" where
  "write_position w = usize_or (wb_offset w + length (wb_bytes w)) (Corrupt ''group write position'')"

definition flush_writer :: "nat \<Rightarrow> write_buffer \<Rightarrow> write_buffer io" where
  "flush_writer slot w io =
     (if wb_bytes w = [] then Inr (w, io)
      else
        attempt (write_position w) (\<lambda>next.
        attempt (scratch_write slot (wb_offset w) (wb_bytes w) io) (\<lambda>(_, io).
          Inr (w\<lparr>wb_bytes := [], wb_offset := next\<rparr>, io))))"

text \<open>A buffer filled past its capacity, which the code never makes, would panic.\<close>

function append_loop ::
    "nat \<Rightarrow> u8 list \<Rightarrow> write_buffer \<Rightarrow> scratch_io \<Rightarrow> (db_error + write_buffer \<times> scratch_io) option" where
  "append_loop slot input w io =
     (if input = [] then Some (Inr (w, io))
      else
        case attempt (poll io) (\<lambda>io. if length (wb_bytes w) = io_bytes then flush_writer slot w io else Inr (w, io)) of
          Inl e \<Rightarrow> Some (Inl e)
        | Inr (w, io) \<Rightarrow>
            let taken = min (length input) (io_bytes - length (wb_bytes w)) in
            if taken = 0 then None
            else append_loop slot (drop taken input) (w\<lparr>wb_bytes := wb_bytes w @ take taken input\<rparr>) io)"
  by pat_completeness auto
termination
  by (relation "measure (\<lambda>(slot, input, w, io). length input)") auto

declare append_loop.simps [simp del]

definition append_output ::
    "nat \<Rightarrow> u8 list \<Rightarrow> write_buffer \<Rightarrow> scratch_io \<Rightarrow> (db_error + write_buffer \<times> scratch_io) option" where
  "append_output slot input w io =
     (if 2 \<le> slot then Some (Inl (Corrupt ''group output file slot''))
      else if max_frame_bytes < length input then Some (Inl (Corrupt ''group write work bound''))
      else append_loop slot input w io)"

text \<open>\<open>None\<close> is the assertion that nothing is pending.\<close>

definition begin_file :: "write_buffer \<Rightarrow> write_buffer option" where
  "begin_file w = (if wb_bytes w = [] then Some (w\<lparr>wb_offset := 0\<rparr>) else None)"

end
