(* ===== verification/Io_Properties.thy ===== *)
theory Io_Properties
  imports Sort_Io
begin

text \<open>
  What buffered transfers promise their callers: a read returns the file's bytes whatever the
  buffer held before, and what is appended is the file's content once it is flushed.
\<close>

section \<open>Reading\<close>

text \<open>The cached extent repeats the file.\<close>

definition reader_ok :: "scratch_io \<Rightarrow> read_buffer \<Rightarrow> bool" where
  "reader_ok io r \<longleftrightarrow>
     length (rb_bytes r) = io_bytes \<and> rb_used r \<le> io_bytes
     \<and> (rb_used r \<noteq> 0 \<longrightarrow> (\<exists>slot. rb_slot r = Some slot
          \<and> rb_start r + rb_used r \<le> length (io_files io ! slot)
          \<and> take (rb_used r) (rb_bytes r) = slice (io_files io ! slot) (rb_start r) (rb_used r)))"

text \<open>A host that grants every request.\<close>

definition quiet :: "scratch_io \<Rightarrow> bool" where
  "quiet io \<longleftrightarrow> io_polls io = [] \<and> io_faults io = []"

lemma quiet_calls [simp]: "quiet io \<Longrightarrow> poll io = Inr io" "quiet io \<Longrightarrow> host_transfer what io = Inr io"
  by (simp_all add: quiet_def poll_def host_transfer_def)

lemma quiet_update [simp]:
  "quiet (io\<lparr>io_files := f\<rparr>) = quiet io" "quiet (io\<lparr>io_budget := b\<rparr>) = quiet io"
  by (simp_all add: quiet_def)

lemma poll_Inr: "poll io = Inr io' \<Longrightarrow> io_files io' = io_files io \<and> io_budget io' = io_budget io"
  by (auto simp: poll_def split: list.splits if_splits)

lemma host_transfer_Inr: "host_transfer what io = Inr io' \<Longrightarrow> io_files io' = io_files io \<and> io_budget io' = io_budget io"
  by (auto simp: host_transfer_def split: list.splits if_splits)

lemma reader_ok_new [simp]: "reader_ok io new_reader"
  by (simp add: reader_ok_def new_reader_def)

lemma reader_ok_files: "io_files io' = io_files io \<Longrightarrow> reader_ok io' r = reader_ok io r"
  by (simp add: reader_ok_def)

lemma scratch_read_Inr:
  "scratch_read slot n offset io = Inr (bytes, io') \<Longrightarrow>
     io_files io' = io_files io \<and> offset + n \<le> length (io_files io ! slot) \<and> bytes = slice (io_files io ! slot) offset n"
  by (auto simp: scratch_read_def attempt_Inr_conv usize_or_def not_less dest!: poll_Inr host_transfer_Inr split: if_splits)

lemma slice_slice: "i + n \<le> m \<Longrightarrow> slice (slice bs off m) i n = slice bs (off + i) n"
  by (simp add: slice_def drop_take min_def add.commute)

lemma slice_extend: "k \<le> n \<Longrightarrow> slice bs off k @ slice bs (off + k) (n - k) = slice bs off n"
  using take_add [of k "n - k" "drop off bs"] by (simp add: slice_def add.commute)

lemma refill_Inr:
  assumes "refill slot offset limit r io = Inr (r', io')" and "reader_ok io r" and "rb_slot r = Some slot"
    and "offset < limit" and "limit \<le> length (io_files io ! slot)"
  shows "io_files io' = io_files io \<and> reader_ok io' r' \<and> rb_slot r' = Some slot
    \<and> rb_start r' \<le> offset \<and> offset < rb_start r' + rb_used r'"
proof (cases "rb_start r \<le> offset \<and> offset < rb_start r + rb_used r")
  case True
  with assms show ?thesis by (simp add: refill_def)
next
  case False
  let ?read_end = "if offset < rb_ahead r then min limit (rb_ahead r) else limit"
  let ?used = "min (?read_end - offset) io_bytes"
  from assms(1) False obtain bytes where s: "scratch_read slot ?used offset io = Inr (bytes, io')"
      and r': "r' = r\<lparr>rb_bytes := put (rb_bytes r) 0 bytes, rb_start := offset, rb_used := ?used\<rparr>"
    by (auto simp: refill_def attempt_Inr_conv Let_def)
  from scratch_read_Inr [OF s] have b: "io_files io' = io_files io" "offset + ?used \<le> length (io_files io ! slot)"
      "bytes = slice (io_files io ! slot) offset ?used" by blast+
  have pos: "0 < ?used" using assms(4) by (simp add: io_bytes_def)
  have len: "length bytes = ?used" using b(2,3) by simp
  have cap: "length (rb_bytes r) = io_bytes" using assms(2) by (simp add: reader_ok_def)
  have "take ?used (put (rb_bytes r) 0 bytes) = bytes"
    using len by (simp add: put_def)
  then show ?thesis
    using b pos len cap assms(3) unfolding r' by (auto simp: reader_ok_def)
qed

lemma fill_output_step:
  assumes "n \<noteq> 0" and "poll io = Inr io1" and "refill slot offset limit r io1 = Inr (u, io2)"
    and "taken = min n (rb_used u - (offset - rb_start u))" and "taken \<noteq> 0"
  shows "fill_output slot offset limit n r io =
    map_option (map_sum id (\<lambda>((bytes, r), io). ((slice (rb_bytes u) (offset - rb_start u) taken @ bytes, r), io)))
      (fill_output slot (offset + taken) limit (n - taken) u io2)"
  using assms(1,5) by (subst fill_output.simps) (simp add: assms(2,3) Let_def assms(4) [symmetric])

lemma map_result_SomeD:
  "map_option (map_sum id (\<lambda>((b, r), io). ((c @ b, r), io))) x = Some (Inr ((bytes, r'), io')) \<Longrightarrow>
     \<exists>more. x = Some (Inr ((more, r'), io')) \<and> bytes = c @ more"
  by (cases x; cases "the x") auto

lemma fill_output_Inr:
  assumes "reader_ok io r" and "rb_slot r = Some slot" and "offset + n \<le> limit" and "limit \<le> length (io_files io ! slot)"
    and "fill_output slot offset limit n r io = Some (Inr ((bytes, r'), io'))"
  shows "bytes = slice (io_files io ! slot) offset n \<and> io_files io' = io_files io \<and> reader_ok io' r' \<and> rb_slot r' = Some slot"
  using assms
proof (induction slot offset limit n r io arbitrary: bytes rule: fill_output.induct)
  case (1 slot offset limit n r io)
  show ?case
  proof (cases "n = 0")
    case True
    with 1 show ?thesis by (subst (asm) fill_output.simps) (simp add: slice_def)
  next
    case False
    from 1(6) False obtain io1 u io2 where p: "poll io = Inr io1" "refill slot offset limit r io1 = Inr (u, io2)"
      by (subst (asm) fill_output.simps) (auto split: sum.splits simp: attempt_Inr_conv)
    have f1: "io_files io1 = io_files io" using poll_Inr [OF p(1)] by simp
    have "reader_ok io1 r" "limit \<le> length (io_files io1 ! slot)" "offset < limit"
      using 1(2,4,5) False reader_ok_files [OF f1] f1 by simp_all
    from refill_Inr [OF p(2) this(1) 1(3) this(3,2)] have u: "io_files io2 = io_files io" "reader_ok io2 u"
        "rb_slot u = Some slot" "rb_start u \<le> offset" "offset < rb_start u + rb_used u"
      using f1 by simp_all
    let ?at = "offset - rb_start u"
    let ?taken = "min n (rb_used u - ?at)"
    have taken: "?taken \<noteq> 0" using False u(4,5) by auto
    from map_result_SomeD [OF 1(6) [unfolded fill_output_step [OF False p refl taken]]] obtain more where
      m: "fill_output slot (offset + ?taken) limit (n - ?taken) u io2 = Some (Inr ((more, r'), io'))"
        "bytes = slice (rb_bytes u) ?at ?taken @ more"
      by blast
    have p': "attempt (poll io) (refill slot offset limit r) = Inr (u, io2)" using p by simp
    have "offset + ?taken + (n - ?taken) \<le> limit" "limit \<le> length (io_files io2 ! slot)" using 1(4,5) u(1) by auto
    from 1(1) [OF False p' refl refl refl refl taken u(2,3) this m(1)]
    have IH: "more = slice (io_files io2 ! slot) (offset + ?taken) (n - ?taken) \<and> io_files io' = io_files io2
        \<and> reader_ok io' r' \<and> rb_slot r' = Some slot" .
    have cached: "take (rb_used u) (rb_bytes u) = slice (io_files io ! slot) (rb_start u) (rb_used u)"
      using u taken by (auto simp: reader_ok_def)
    have inside: "?at + ?taken \<le> rb_used u" using u(4,5) by auto
    have "slice (rb_bytes u) ?at ?taken = slice (take (rb_used u) (rb_bytes u)) ?at ?taken"
      using inside by (simp add: slice_def drop_take min_def)
    also have "\<dots> = slice (io_files io ! slot) offset ?taken"
      unfolding cached using inside u(4) by (simp add: slice_slice)
    finally have "bytes = slice (io_files io ! slot) offset ?taken @ slice (io_files io ! slot) (offset + ?taken) (n - ?taken)"
      using m(2) IH u(1) by simp
    also have "\<dots> = slice (io_files io ! slot) offset n"
      by (rule slice_extend) simp
    finally show ?thesis using IH u(1) by simp
  qed
qed

text \<open>On a quiet host the loop ends with the bytes.\<close>

lemma refill_quiet:
  assumes "quiet io" and "reader_ok io r" and "rb_slot r = Some slot" and "offset < limit"
    and "limit \<le> length (io_files io ! slot)" and "length (io_files io ! slot) < 2 ^ 64"
  obtains r' where "refill slot offset limit r io = Inr (r', io)"
proof (cases "rb_start r \<le> offset \<and> offset < rb_start r + rb_used r")
  case False
  have "offset + min ((if offset < rb_ahead r then min limit (rb_ahead r) else limit) - offset) io_bytes
      \<le> length (io_files io ! slot)"
    using assms(4,5) by auto
  then show thesis
    using that False assms(1,6) by (simp add: refill_def scratch_read_def usize_or_def Let_def)
qed (use that in \<open>simp add: refill_def\<close>)

lemma fill_output_quiet:
  assumes "quiet io" and "reader_ok io r" and "rb_slot r = Some slot" and "offset + n \<le> limit"
    and "limit \<le> length (io_files io ! slot)" and "length (io_files io ! slot) < 2 ^ 64"
  shows "\<exists>r'. fill_output slot offset limit n r io = Some (Inr ((slice (io_files io ! slot) offset n, r'), io))"
  using assms
proof (induction n arbitrary: offset r rule: less_induct)
  case (less n)
  show ?case
  proof (cases "n = 0")
    case True
    then show ?thesis by (subst fill_output.simps) (simp add: slice_def)
  next
    case False
    with less.prems(4) have o: "offset < limit" by simp
    from refill_quiet [OF less.prems(1-3) o less.prems(5,6)] obtain u where u: "refill slot offset limit r io = Inr (u, io)" .
    from refill_Inr [OF u less.prems(2,3) o less.prems(5)] have f: "reader_ok io u" "rb_slot u = Some slot"
        "rb_start u \<le> offset" "offset < rb_start u + rb_used u" by simp_all
    define taken where taken: "taken = min n (rb_used u - (offset - rb_start u))"
    have pos: "taken \<noteq> 0" using False f(3,4) by (auto simp: taken)
    have p: "poll io = Inr io" using less.prems(1) by simp
    have small: "n - taken < n" "offset + taken + (n - taken) \<le> limit"
      using pos False less.prems(4) by (auto simp: taken)
    from less.IH [OF small(1) less.prems(1) f(1,2) small(2) less.prems(5,6)] obtain r' where
      "fill_output slot (offset + taken) limit (n - taken) u io =
        Some (Inr ((slice (io_files io ! slot) (offset + taken) (n - taken), r'), io))" by blast
    then have all: "fill_output slot offset limit n r io =
        Some (Inr ((slice (rb_bytes u) (offset - rb_start u) taken @ slice (io_files io ! slot) (offset + taken) (n - taken), r'), io))"
      unfolding fill_output_step [OF False p u taken pos] by simp
    from fill_output_Inr [OF less.prems(2-5) all] all show ?thesis by auto
  qed
qed

lemma fill_output_not_None:
  assumes "reader_ok io r" and "rb_slot r = Some slot" and "offset + n \<le> limit" and "limit \<le> length (io_files io ! slot)"
  shows "fill_output slot offset limit n r io \<noteq> None"
  using assms
proof (induction n arbitrary: offset r io rule: less_induct)
  case (less n)
  show ?case
  proof (cases "n = 0")
    case True
    then show ?thesis by (subst fill_output.simps) simp
  next
    case False
    with less.prems(3) have o: "offset < limit" by simp
    show ?thesis
    proof (cases "attempt (poll io) (refill slot offset limit r)")
      case (Inl e)
      then show ?thesis using False by (subst fill_output.simps) simp
    next
      case (Inr b)
      then obtain io1 u io2 where p: "poll io = Inr io1" "refill slot offset limit r io1 = Inr (u, io2)"
        by (cases b) (auto simp: attempt_Inr_conv)
      have f1: "io_files io1 = io_files io" using poll_Inr [OF p(1)] by simp
      have "reader_ok io1 r" "limit \<le> length (io_files io1 ! slot)"
        using less.prems reader_ok_files [OF f1] f1 by simp_all
      from refill_Inr [OF p(2) this(1) less.prems(2) o this(2)] have u: "io_files io2 = io_files io1" "reader_ok io2 u"
        "rb_slot u = Some slot" "rb_start u \<le> offset" "offset < rb_start u + rb_used u" by simp_all
      define taken where taken: "taken = min n (rb_used u - (offset - rb_start u))"
      have pos: "taken \<noteq> 0" using False u(4,5) by (auto simp: taken)
      have "n - taken < n" "offset + taken + (n - taken) \<le> limit" "limit \<le> length (io_files io2 ! slot)"
        using pos False less.prems(3,4) u(1) f1 by (auto simp: taken)
      from less.IH [OF this(1) u(2,3) this(2,3)] show ?thesis
        unfolding fill_output_step [OF False p taken pos] by simp
    qed
  qed
qed

lemma buffered_read_slot:
  assumes "reader_ok io r"
  shows "reader_ok io (if rb_slot r \<noteq> Some slot then (clear_reader r)\<lparr>rb_slot := Some slot\<rparr> else r)"
    and "rb_slot (if rb_slot r \<noteq> Some slot then (clear_reader r)\<lparr>rb_slot := Some slot\<rparr> else r) = Some slot"
  using assms by (auto simp: reader_ok_def clear_reader_def)

lemma buffered_read_quiet:
  assumes "quiet io" and "reader_ok io r" and "slot < 2" and "offset + n \<le> limit" and "n \<le> max_frame_bytes"
    and "limit \<le> length (io_files io ! slot)" and "length (io_files io ! slot) < 2 ^ 64"
  shows "\<exists>r'. buffered_read slot offset limit n r io = Some (Inr ((slice (io_files io ! slot) offset n, r'), io)) \<and> reader_ok io r'"
proof -
  note s = buffered_read_slot [OF assms(2), of slot]
  from fill_output_quiet [OF assms(1) s assms(4,6,7)] obtain r' where
    f: "fill_output slot offset limit n (if rb_slot r \<noteq> Some slot then (clear_reader r)\<lparr>rb_slot := Some slot\<rparr> else r) io
      = Some (Inr ((slice (io_files io ! slot) offset n, r'), io))" by blast
  from fill_output_Inr [OF s assms(4,6) f] have "reader_ok io r'" by simp
  with f show ?thesis using assms(3-7) by (simp add: buffered_read_def usize_or_def)
qed

text \<open>C34: Buffered reads return the file. Whatever the buffer cached before and however the host
  behaves, a read of a run inside its file either fails or returns exactly the file's bytes at
  the requested offset, leaves the file alone and keeps the cache consistent with it, and its
  assertion that each turn advances holds; on a host that grants every request it succeeds for
  every extent inside the run that is no larger than a frame.\<close>

theorem buffered_reads_return_the_file:
  assumes "reader_ok io r" and "limit \<le> length (io_files io ! slot)" and "length (io_files io ! slot) < 2 ^ 64"
  shows "case buffered_read slot offset limit n r io of
      None \<Rightarrow> False
    | Some (Inl e) \<Rightarrow> \<not> (quiet io \<and> slot < 2 \<and> offset + n \<le> limit \<and> n \<le> max_frame_bytes)
    | Some (Inr ((bytes, r'), io')) \<Rightarrow> bytes = slice (io_files io ! slot) offset n \<and> offset + n \<le> limit
        \<and> io_files io' = io_files io \<and> reader_ok io' r'"
proof (cases "slot < 2 \<and> offset + n \<le> limit \<and> n \<le> max_frame_bytes")
  case True
  let ?r = "if rb_slot r \<noteq> Some slot then (clear_reader r)\<lparr>rb_slot := Some slot\<rparr> else r"
  note s = buffered_read_slot [OF assms(1), of slot]
  have b: "buffered_read slot offset limit n r io = fill_output slot offset limit n ?r io"
    using True assms(2,3) by (simp add: buffered_read_def usize_or_def)
  show ?thesis
  proof (cases "fill_output slot offset limit n ?r io")
    case None
    with fill_output_not_None [OF s] True assms(2) show ?thesis by blast
  next
    case (Some x)
    show ?thesis
    proof (cases x)
      case (Inl e)
      with Some b True fill_output_quiet [OF _ s, of offset n limit] assms show ?thesis by auto
    next
      case (Inr y)
      obtain bytes r' io' where y: "y = ((bytes, r'), io')" by (cases y) auto
      have "bytes = slice (io_files io ! slot) offset n \<and> io_files io' = io_files io \<and> reader_ok io' r' \<and> rb_slot r' = Some slot"
        by (rule fill_output_Inr [OF s]) (use True assms(2) Some Inr y in auto)
      with Some b Inr y True show ?thesis by simp
    qed
  qed
next
  case False
  then show ?thesis by (auto simp: buffered_read_def usize_or_def not_le)
qed

definition sample_io :: scratch_io where
  "sample_io = \<lparr>io_files = [[1, 2, 3, 4], []], io_budget = 100, io_polls = [], io_faults = []\<rparr>"

theorem buffered_reads_return_the_file_witness:
  "case buffered_read 0 1 4 2 new_reader sample_io of
      None \<Rightarrow> False
    | Some (Inl e) \<Rightarrow> \<not> (quiet sample_io \<and> (0 :: nat) < 2 \<and> (1 :: nat) + 2 \<le> 4 \<and> 2 \<le> max_frame_bytes)
    | Some (Inr ((bytes, r'), io')) \<Rightarrow> bytes = slice (io_files sample_io ! 0) 1 2 \<and> (1 :: nat) + 2 \<le> 4
        \<and> io_files io' = io_files sample_io \<and> reader_ok io' r'"
  by (rule buffered_reads_return_the_file) (simp_all add: sample_io_def)

section \<open>Writing\<close>

text \<open>What the file will hold once the buffer is flushed, and a buffer at the file's end.\<close>

definition content :: "nat \<Rightarrow> write_buffer \<Rightarrow> scratch_io \<Rightarrow> u8 list" where
  "content slot w io = io_files io ! slot @ wb_bytes w"

definition writer_ok :: "nat \<Rightarrow> write_buffer \<Rightarrow> scratch_io \<Rightarrow> bool" where
  "writer_ok slot w io \<longleftrightarrow>
     length (wb_bytes w) \<le> io_bytes \<and> wb_offset w = length (io_files io ! slot) \<and> slot < length (io_files io)"

text \<open>Only the slot's file may differ.\<close>

definition only_slot :: "nat \<Rightarrow> scratch_io \<Rightarrow> scratch_io \<Rightarrow> bool" where
  "only_slot slot io io' \<longleftrightarrow>
     length (io_files io') = length (io_files io) \<and> (\<forall>j. j \<noteq> slot \<longrightarrow> io_files io' ! j = io_files io ! j)"

lemma only_slot_refl [simp]: "only_slot slot io io"
  by (simp add: only_slot_def)

lemma only_slot_trans: "only_slot slot a b \<Longrightarrow> only_slot slot b c \<Longrightarrow> only_slot slot a c"
  by (simp add: only_slot_def)

lemma put_at_end: "put (extend_to (length file + length bytes) file) (length file) bytes = file @ bytes"
  by (simp add: put_def extend_to_def)

lemma scratch_write_Inr:
  assumes "scratch_write slot (length (io_files io ! slot)) bytes io = Inr (u, io')" and "slot < length (io_files io)"
  shows "io_files io' = (io_files io)[slot := io_files io ! slot @ bytes]"
  using assms
  by (auto simp: scratch_write_def attempt_Inr_conv usize_or_def put_at_end Let_def dest!: poll_Inr host_transfer_Inr split: if_splits)

lemma flush_writer_Inr:
  assumes "flush_writer slot w io = Inr (w', io')" and "writer_ok slot w io"
  shows "wb_bytes w' = [] \<and> writer_ok slot w' io' \<and> content slot w' io' = content slot w io \<and> only_slot slot io io'"
proof (cases "wb_bytes w = []")
  case True
  with assms show ?thesis by (simp add: flush_writer_def)
next
  case False
  with assms obtain u where w: "scratch_write slot (length (io_files io ! slot)) (wb_bytes w) io = Inr (u, io')"
      "w' = w\<lparr>wb_bytes := [], wb_offset := wb_offset w + length (wb_bytes w)\<rparr>"
    by (auto simp: flush_writer_def writer_ok_def attempt_Inr_conv write_position_def usize_or_def split: if_splits)
  have slot: "slot < length (io_files io)" using assms(2) by (simp add: writer_ok_def)
  from scratch_write_Inr [OF w(1) slot] show ?thesis
    using assms(2) w(2) by (simp add: writer_ok_def content_def only_slot_def)
qed

lemma append_loop_step:
  assumes "input \<noteq> []"
    and "attempt (poll io) (\<lambda>io. if length (wb_bytes w) = io_bytes then flush_writer slot w io else Inr (w, io)) = Inr (v, io1)"
    and "taken = min (length input) (io_bytes - length (wb_bytes v))" and "taken \<noteq> 0"
  shows "append_loop slot input w io =
    append_loop slot (drop taken input) (v\<lparr>wb_bytes := wb_bytes v @ take taken input\<rparr>) io1"
  using assms(1,4) by (subst append_loop.simps) (simp add: assms(2) Let_def assms(3) [symmetric])

lemma append_loop_Inr:
  assumes "append_loop slot input w io = Some (Inr (w', io'))" and "writer_ok slot w io"
  shows "writer_ok slot w' io' \<and> content slot w' io' = content slot w io @ input \<and> only_slot slot io io'"
  using assms
proof (induction slot input w io rule: append_loop.induct)
  case (1 slot input w io)
  show ?case
  proof (cases "input = []")
    case True
    with 1 show ?thesis by (subst (asm) append_loop.simps) simp
  next
    case False
    let ?f = "attempt (poll io) (\<lambda>io. if length (wb_bytes w) = io_bytes then flush_writer slot w io else Inr (w, io))"
    show ?thesis
    proof (cases ?f)
      case (Inl e)
      with 1(2) False show ?thesis by (subst (asm) append_loop.simps) simp
    next
      case (Inr b)
      obtain v io1 where f: "?f = Inr (v, io1)" using Inr by (cases b) simp
      then obtain io0 where p: "poll io = Inr io0"
          "(if length (wb_bytes w) = io_bytes then flush_writer slot w io0 else Inr (w, io0)) = Inr (v, io1)"
        by (auto simp: attempt_Inr_conv)
      from poll_Inr [OF p(1)] have f0: "io_files io0 = io_files io" by simp
      have w0: "writer_ok slot w io0" using 1(3) f0 by (simp add: writer_ok_def)
      have v: "writer_ok slot v io1 \<and> content slot v io1 = content slot w io \<and> only_slot slot io io1 \<and> length (wb_bytes v) < io_bytes"
      proof (cases "length (wb_bytes w) = io_bytes")
        case True
        then have "flush_writer slot w io0 = Inr (v, io1)" using p(2) by simp
        from flush_writer_Inr [OF this w0] f0 show ?thesis
          by (auto simp: content_def only_slot_def io_bytes_def)
      next
        case False
        with p(2) w0 f0 show ?thesis by (auto simp: content_def only_slot_def writer_ok_def)
      qed
      define taken where taken: "taken = min (length input) (io_bytes - length (wb_bytes v))"
      have pos: "taken \<noteq> 0" using v False by (auto simp: taken)
      let ?v = "v\<lparr>wb_bytes := wb_bytes v @ take taken input\<rparr>"
      have next_w: "writer_ok slot ?v io1" using v by (auto simp: writer_ok_def taken)
      have go: "append_loop slot (drop taken input) ?v io1 = Some (Inr (w', io'))"
        using 1(2) unfolding append_loop_step [OF False f taken pos] .
      from 1(1) [OF False f refl taken pos go next_w] v show ?thesis
        by (auto simp: content_def intro: only_slot_trans)
    qed
  qed
qed

lemma append_loop_not_None:
  assumes "writer_ok slot w io"
  shows "append_loop slot input w io \<noteq> None"
  using assms
proof (induction slot input w io rule: append_loop.induct)
  case (1 slot input w io)
  show ?case
  proof (cases "input = []")
    case True
    then show ?thesis by (subst append_loop.simps) simp
  next
    case False
    let ?f = "attempt (poll io) (\<lambda>io. if length (wb_bytes w) = io_bytes then flush_writer slot w io else Inr (w, io))"
    show ?thesis
    proof (cases ?f)
      case (Inl e)
      with False show ?thesis by (subst append_loop.simps) simp
    next
      case (Inr b)
      obtain v io1 where f: "?f = Inr (v, io1)" using Inr by (cases b) simp
      then obtain io0 where p: "poll io = Inr io0"
          "(if length (wb_bytes w) = io_bytes then flush_writer slot w io0 else Inr (w, io0)) = Inr (v, io1)"
        by (auto simp: attempt_Inr_conv)
      have w0: "writer_ok slot w io0" using 1(2) poll_Inr [OF p(1)] by (simp add: writer_ok_def)
      have v: "writer_ok slot v io1 \<and> length (wb_bytes v) < io_bytes"
        using p(2) w0 flush_writer_Inr [of slot w io0 v io1]
        by (cases "length (wb_bytes w) = io_bytes") (auto simp: io_bytes_def writer_ok_def)
      define taken where taken: "taken = min (length input) (io_bytes - length (wb_bytes v))"
      have pos: "taken \<noteq> 0" using v False by (auto simp: taken)
      have "writer_ok slot (v\<lparr>wb_bytes := wb_bytes v @ take taken input\<rparr>) io1" using v by (auto simp: writer_ok_def taken)
      from 1(1) [OF False f refl taken pos this] show ?thesis
        unfolding append_loop_step [OF False f taken pos] .
    qed
  qed
qed

lemma scratch_write_quiet:
  assumes "quiet io" and "slot < length (io_files io)" and "length (io_files io ! slot) + length bytes < 2 ^ 64"
    and "length bytes \<le> io_budget io"
  shows "\<exists>io'. scratch_write slot (length (io_files io ! slot)) bytes io = Inr ((), io') \<and> quiet io'
    \<and> io_budget io' = io_budget io - length bytes"
  using assms by (simp add: scratch_write_def usize_or_def Let_def)

lemma flush_writer_quiet:
  assumes "quiet io" and "writer_ok slot w io" and "length (content slot w io) < 2 ^ 64" and "length (wb_bytes w) \<le> io_budget io"
  shows "\<exists>w' io'. flush_writer slot w io = Inr (w', io') \<and> quiet io' \<and> io_budget io' = io_budget io - length (wb_bytes w)"
proof (cases "wb_bytes w = []")
  case False
  have "length (io_files io ! slot) + length (wb_bytes w) < 2 ^ 64" "slot < length (io_files io)"
    "wb_offset w = length (io_files io ! slot)" using assms(2,3) by (simp_all add: content_def writer_ok_def)
  with scratch_write_quiet [OF assms(1) this(2,1) assms(4)] False show ?thesis
    by (auto simp: flush_writer_def write_position_def usize_or_def)
qed (use assms in \<open>simp add: flush_writer_def\<close>)

lemma append_loop_quiet:
  assumes "quiet io" and "writer_ok slot w io" and "length (content slot w io) + length input < 2 ^ 64"
    and "length (wb_bytes w) + length input \<le> io_budget io"
  shows "\<exists>w' io'. append_loop slot input w io = Some (Inr (w', io')) \<and> quiet io'
    \<and> io_budget io' + length (content slot w io) + length input = io_budget io + length (io_files io ! slot) + length (wb_bytes w')"
  using assms
proof (induction slot input w io rule: append_loop.induct)
  case (1 slot input w io)
  show ?case
  proof (cases "input = []")
    case True
    with 1(2) show ?thesis by (subst append_loop.simps) (simp add: content_def)
  next
    case False
    let ?f = "attempt (poll io) (\<lambda>io. if length (wb_bytes w) = io_bytes then flush_writer slot w io else Inr (w, io))"
    have flush: "\<exists>w' io'. flush_writer slot w io = Inr (w', io') \<and> quiet io' \<and> io_budget io' = io_budget io - length (wb_bytes w)"
      by (rule flush_writer_quiet [OF 1(2,3)]) (use 1(4,5) in simp_all)
    obtain v io1 where f: "?f = Inr (v, io1)" and v: "quiet io1" "writer_ok slot v io1" "length (wb_bytes v) < io_bytes"
      and c: "content slot v io1 = content slot w io"
      and b: "io_budget io1 + length (io_files io1 ! slot) = io_budget io + length (io_files io ! slot)"
    proof (cases "length (wb_bytes w) = io_bytes")
      case True
      from flush obtain v io1 where g: "flush_writer slot w io = Inr (v, io1)" "quiet io1"
          "io_budget io1 = io_budget io - length (wb_bytes w)" by blast
      from flush_writer_Inr [OF g(1) 1(3)] have h: "wb_bytes v = []" "writer_ok slot v io1" "content slot v io1 = content slot w io"
        by blast+
      from arg_cong [OF h(3), of length] h(1) have "length (io_files io1 ! slot) = length (io_files io ! slot) + length (wb_bytes w)"
        by (simp add: content_def)
      with g(3) 1(5) have "io_budget io1 + length (io_files io1 ! slot) = io_budget io + length (io_files io ! slot)" by simp
      with that [of v io1] True g h 1(2) show thesis by (simp add: io_bytes_def)
    next
      case False
      then show thesis using that [of w io] 1(2,3) by (simp add: writer_ok_def)
    qed
    define taken where taken: "taken = min (length input) (io_bytes - length (wb_bytes v))"
    have pos: "taken \<noteq> 0" using v False by (auto simp: taken)
    let ?v = "v\<lparr>wb_bytes := wb_bytes v @ take taken input\<rparr>"
    have len: "length (take taken input) = taken" "length (drop taken input) + taken = length input" by (auto simp: taken)
    have "content slot ?v io1 = content slot w io @ take taken input" using c by (simp add: content_def)
    then have cv: "length (content slot ?v io1) = length (content slot w io) + taken" using len by simp
    have "writer_ok slot ?v io1" using v by (auto simp: writer_ok_def taken)
    moreover have "length (content slot ?v io1) + length (drop taken input) < 2 ^ 64" using 1(4) cv len(2) by simp
    moreover have "length (wb_bytes ?v) + length (drop taken input) \<le> io_budget io1"
      using 1(5) b arg_cong [OF c, of length] len by (simp add: content_def)
    ultimately obtain w' io' where r: "append_loop slot (drop taken input) ?v io1 = Some (Inr (w', io'))" "quiet io'"
        "io_budget io' + length (content slot ?v io1) + length (drop taken input)
          = io_budget io1 + length (io_files io1 ! slot) + length (wb_bytes w')"
      using 1(1) [OF False f refl taken pos v(1)] by blast
    have "append_loop slot input w io = Some (Inr (w', io'))"
      using r(1) unfolding append_loop_step [OF False f taken pos] .
    moreover have "io_budget io' + length (content slot w io) + length input
        = io_budget io + length (io_files io ! slot) + length (wb_bytes w')"
      using r(3) b cv len(2) by linarith
    ultimately show ?thesis using r(2) by blast
  qed
qed

text \<open>C35: Appended bytes reach the file in order. For a buffer positioned at its file's end, appending
  never fails its assertions, and when it succeeds the pending content is the old content
  followed by the input, whatever was flushed on the way; a flush that succeeds leaves exactly
  that content in the file and nothing pending; the other scratch file is untouched. On a host
  that grants every request and enough temporary space both succeed.\<close>

theorem appended_bytes_reach_the_file:
  assumes "writer_ok slot w io" and "slot < 2" and "length input \<le> max_frame_bytes"
  shows "case append_output slot input w io of
      None \<Rightarrow> False
    | Some (Inl e) \<Rightarrow> \<not> (quiet io \<and> length (content slot w io) + length input < 2 ^ 64
        \<and> length (wb_bytes w) + length input \<le> io_budget io)
    | Some (Inr (w', io')) \<Rightarrow> content slot w' io' = content slot w io @ input \<and> writer_ok slot w' io'
        \<and> only_slot slot io io'
        \<and> (case flush_writer slot w' io' of
              Inl e \<Rightarrow> \<not> (quiet io' \<and> length (content slot w' io') < 2 ^ 64 \<and> length (wb_bytes w') \<le> io_budget io')
            | Inr (v, io'') \<Rightarrow> wb_bytes v = [] \<and> io_files io'' ! slot = content slot w io @ input \<and> only_slot slot io io'')"
proof (cases "append_loop slot input w io")
  case None
  with append_loop_not_None [OF assms(1)] show ?thesis by blast
next
  case (Some x)
  have a: "append_output slot input w io = Some x" using Some assms(2,3) by (simp add: append_output_def)
  show ?thesis
  proof (cases x)
    case (Inl e)
    with Some a append_loop_quiet [OF _ assms(1), of input] show ?thesis by auto
  next
    case (Inr y)
    obtain w' io' where y: "y = (w', io')" by (cases y)
    from append_loop_Inr [of slot input w io w' io'] Some Inr y assms(1)
    have r: "writer_ok slot w' io'" "content slot w' io' = content slot w io @ input" "only_slot slot io io'" by simp_all
    have f: "case flush_writer slot w' io' of
        Inl e \<Rightarrow> \<not> (quiet io' \<and> length (content slot w' io') < 2 ^ 64 \<and> length (wb_bytes w') \<le> io_budget io')
      | Inr (v, io'') \<Rightarrow> wb_bytes v = [] \<and> io_files io'' ! slot = content slot w io @ input \<and> only_slot slot io io''"
    proof (cases "flush_writer slot w' io'")
      case (Inl e)
      with flush_writer_quiet [OF _ r(1)] show ?thesis by auto
    next
      case (Inr z)
      obtain v io'' where z: "z = (v, io'')" by (cases z)
      from flush_writer_Inr [of slot w' io' v io''] Inr z r(1)
      have g: "wb_bytes v = []" "content slot v io'' = content slot w' io'" "only_slot slot io' io''" by simp_all
      with r show ?thesis unfolding Inr z by (simp add: content_def only_slot_trans [OF r(3)])
    qed
    show ?thesis using a Inr y r f by simp
  qed
qed

theorem appended_bytes_reach_the_file_witness:
  "case append_output 1 [7, 8] \<lparr>wb_bytes = [5], wb_offset = 0\<rparr> sample_io of
      None \<Rightarrow> False
    | Some (Inl e) \<Rightarrow> \<not> (quiet sample_io \<and> length (content 1 \<lparr>wb_bytes = [5], wb_offset = 0\<rparr> sample_io) + length [7 :: u8, 8] < 2 ^ 64
        \<and> length (wb_bytes \<lparr>wb_bytes = [5], wb_offset = 0\<rparr>) + length [7 :: u8, 8] \<le> io_budget sample_io)
    | Some (Inr (w', io')) \<Rightarrow> content 1 w' io' = content 1 \<lparr>wb_bytes = [5], wb_offset = 0\<rparr> sample_io @ [7, 8]
        \<and> writer_ok 1 w' io' \<and> only_slot 1 sample_io io'
        \<and> (case flush_writer 1 w' io' of
              Inl e \<Rightarrow> \<not> (quiet io' \<and> length (content 1 w' io') < 2 ^ 64 \<and> length (wb_bytes w') \<le> io_budget io')
            | Inr (v, io'') \<Rightarrow> wb_bytes v = []
                \<and> io_files io'' ! 1 = content 1 \<lparr>wb_bytes = [5], wb_offset = 0\<rparr> sample_io @ [7, 8] \<and> only_slot 1 sample_io io'')"
  by (rule appended_bytes_reach_the_file) (simp_all add: sample_io_def writer_ok_def io_bytes_def max_frame_bytes_def record_header_def)

end
