(* ===== verification/Checked_Calls.thy ===== *)
theory Checked_Calls
  imports Errors
begin

text \<open>
  Calls in sequence, and the shape of what is proved about them: no assertion fails, an error
  means that something was refused, and a result satisfies a postcondition (\<open>answers\<close>).
\<close>

section \<open>Calls\<close>

type_synonym 'a checked = "(db_error + 'a) option"

text \<open>Calls that may fail their assertions, in sequence.\<close>

definition following :: "'a checked \<Rightarrow> ('a \<Rightarrow> 'b checked) \<Rightarrow> 'b checked" where
  "following m k = Option.bind m (\<lambda>res. case res of Inl e \<Rightarrow> Some (Inl e) | Inr x \<Rightarrow> k x)"

definition answers :: "bool \<Rightarrow> 'a checked \<Rightarrow> ('a \<Rightarrow> bool) \<Rightarrow> bool" where
  "answers granted m post \<longleftrightarrow>
     (case m of None \<Rightarrow> False | Some (Inl e) \<Rightarrow> \<not> granted | Some (Inr x) \<Rightarrow> post x)"

lemma answers_simps [simp]:
  "answers granted (Some (Inr x)) post = post x" "answers granted (Some (Inl e)) post = (\<not> granted)"
  "answers granted None post = False"
  by (simp_all add: answers_def)

lemma answers_following:
  assumes "answers granted m mid" and "\<And>x. mid x \<Longrightarrow> answers granted (k x) post"
  shows "answers granted (following m k) post"
proof -
  from assms(1) obtain x where "(\<exists>e. m = Some (Inl e) \<and> \<not> granted) \<or> m = Some (Inr x) \<and> mid x"
    by (auto simp: answers_def split: option.splits sum.splits)
  with assms(2) [of x] show ?thesis by (auto simp: following_def)
qed

lemma answers_weaken:
  assumes "answers granted m mid" and "granted' \<Longrightarrow> granted" and "\<And>x. mid x \<Longrightarrow> post x"
  shows "answers granted' m post"
  using assms by (auto simp: answers_def split: option.splits sum.splits)

lemma answersE:
  assumes "answers granted m post"
  obtains (refused) e where "m = Some (Inl e)" "\<not> granted" | (answer) x where "m = Some (Inr x)" "post x"
  using assms by (auto simp: answers_def split: option.splits sum.splits)

lemma following_simps [simp]:
  "following (Some (Inr x)) k = k x" "following (Some (Inl e)) k = Some (Inl e)" "following None k = None"
  by (simp_all add: following_def)

lemma answers_if:
  assumes "b \<Longrightarrow> answers granted x post" and "\<not> b \<Longrightarrow> answers granted y post"
  shows "answers granted (if b then x else y) post"
  using assms by simp

end
