(* ===== verification/Calls.thy ===== *)
theory Calls
  imports Io_Properties Checked_Calls
begin

text \<open>
  The sorter's calls on the host: polls, reads through a buffer, and what they leave alone.
\<close>

section \<open>Calls\<close>

lemma poll_quiet: "poll io = Inl e \<Longrightarrow> \<not> quiet io"
  by (auto simp: poll_def quiet_def split: list.splits)

text \<open>A call that only reads.\<close>

definition same_host :: "scratch_io \<Rightarrow> scratch_io \<Rightarrow> bool" where
  "same_host io io' \<longleftrightarrow> io_files io' = io_files io \<and> (quiet io \<longrightarrow> io' = io)"

lemma same_host_refl [simp]: "same_host io io"
  by (simp add: same_host_def)

lemma same_host_trans: "same_host a b \<Longrightarrow> same_host b c \<Longrightarrow> same_host a c"
  by (auto simp: same_host_def)

lemma same_host_quiet: "same_host io io' \<Longrightarrow> quiet io \<Longrightarrow> quiet io'"
  by (simp add: same_host_def)

lemma answers_poll:
  assumes "granted \<longrightarrow> quiet io" and "\<And>io'. same_host io io' \<Longrightarrow> answers granted (k io') post"
  shows "answers granted (case poll io of Inl e \<Rightarrow> Some (Inl e) | Inr io' \<Rightarrow> k io') post"
proof (cases "poll io")
  case (Inl e)
  with assms(1) poll_quiet [OF Inl] show ?thesis by auto
next
  case (Inr io')
  then have "same_host io io'" by (auto simp: same_host_def poll_def quiet_def split: list.splits if_splits)
  with assms(2) Inr show ?thesis by simp
qed

section \<open>Reading\<close>

text \<open>A cache that may serve a file.\<close>

definition reads_at :: "nat \<Rightarrow> scratch_io \<Rightarrow> read_buffer \<Rightarrow> bool" where
  "reads_at slot io r \<longleftrightarrow> reader_ok io r \<and> (rb_used r \<noteq> 0 \<longrightarrow> rb_slot r = Some slot)"

lemma reads_at_same: "reads_at slot io r \<Longrightarrow> io_files io' ! slot = io_files io ! slot \<Longrightarrow> reads_at slot io' r"
  by (auto simp: reads_at_def reader_ok_def)

lemma reads_at_host: "same_host io io' \<Longrightarrow> reads_at slot io r \<Longrightarrow> reads_at slot io' r"
  by (auto simp: same_host_def intro: reads_at_same)

text \<open>A cache whose content may be stale, until it is cleared.\<close>

definition reader_sound :: "read_buffer \<Rightarrow> bool" where
  "reader_sound r \<longleftrightarrow> length (rb_bytes r) = io_bytes"

lemma reader_sound_ok: "reader_ok io r \<Longrightarrow> reader_sound r"
  by (simp add: reader_ok_def reader_sound_def)

lemma reads_at_clear: "reader_sound r \<Longrightarrow> reads_at slot io (clear_reader r)"
  by (simp add: reads_at_def reader_ok_def reader_sound_def clear_reader_def)

lemma reads_at_ok: "reads_at slot io r \<Longrightarrow> reader_ok io r"
  by (simp add: reads_at_def)

lemma buffered_read_answers:
  assumes "granted \<longrightarrow> quiet io" and "reader_ok io r" and "slot < 2" and "offset + n \<le> limit" and "n \<le> max_frame_bytes"
    and "limit \<le> length (io_files io ! slot)" and "length (io_files io ! slot) < 2 ^ 64"
  shows "answers granted (buffered_read slot offset limit n r io)
    (\<lambda>((bytes, r'), io'). bytes = slice (io_files io ! slot) offset n \<and> same_host io io' \<and> reads_at slot io' r')"
proof -
  let ?r = "if rb_slot r \<noteq> Some slot then (clear_reader r)\<lparr>rb_slot := Some slot\<rparr> else r"
  note s = buffered_read_slot [OF assms(2), of slot]
  have eq: "buffered_read slot offset limit n r io = fill_output slot offset limit n ?r io"
    using assms(3-7) by (simp add: buffered_read_def usize_or_def)
  show ?thesis
  proof (cases "fill_output slot offset limit n ?r io")
    case None
    with fill_output_not_None [OF s assms(4,6)] show ?thesis by blast
  next
    case (Some res)
    show ?thesis
    proof (cases res)
      case (Inl e)
      with Some fill_output_quiet [OF _ s assms(4,6,7)] assms(1) show ?thesis unfolding eq by auto
    next
      case (Inr y)
      obtain bytes r' io' where y: "y = ((bytes, r'), io')" by (cases y) auto
      have f: "fill_output slot offset limit n ?r io = Some (Inr ((bytes, r'), io'))" using Some Inr y by simp
      have q: "quiet io \<Longrightarrow> io' = io" using fill_output_quiet [OF _ s assms(4,6,7)] f by auto
      from fill_output_Inr [OF s assms(4,6) f] q show ?thesis
        unfolding eq f by (auto simp: same_host_def reads_at_def reader_ok_def)
    qed
  qed
qed

end
