(* ===== verification/Sort_Record.thy ===== *)
theory Sort_Record
  imports Calls Resources
begin

text \<open>
  The frames of the sorter's files (src/execution/blocking/record.rs): a checksummed header,
  the encoded row, one word per aggregate argument and the argument text. A frame under
  construction is its bytes, the capacity of its \<open>Vec\<close> and the limit on a complete
  frame. \<open>None\<close> is a failed assertion or an index outside the frame.
\<close>

section \<open>Arguments\<close>

definition max_aggregate_columns :: nat where "max_aggregate_columns = 10"
definition max_aggregate_rows :: nat where "max_aggregate_rows = 4096 * 32768"

record argument_shape =
  shape_count :: nat
  shape_nonnull :: u16
  shape_integers :: u16
  shape_presence :: u16
  shape_dates :: u16
  shape_text :: u16

definition row_arguments :: argument_shape where
  "row_arguments =
     \<lparr>shape_count = 0, shape_nonnull = 0, shape_integers = 0, shape_presence = 0, shape_dates = 0, shape_text = 0\<rparr>"

definition u16_bytes :: "u16 \<Rightarrow> u8 list" where
  "u16_bytes x = le_encode 2 (unat x)"

definition u16_of_bytes :: "u8 list \<Rightarrow> u16" where
  "u16_of_bytes bs = word_of_nat (le_decode bs)"

definition shape_text_bytes :: "argument_shape \<Rightarrow> nat" where
  "shape_text_bytes shape = length (filter (bit (shape_text shape)) [0..<16]) * max_text_bytes"

definition max_payload_bytes :: "argument_shape \<Rightarrow> nat" where
  "max_payload_bytes shape = shape_count shape * 8 + shape_text_bytes shape"

text \<open>The tag a reader compares covers the row layout and the masks in use.\<close>

definition shape_layout :: "argument_shape \<Rightarrow> row_layout \<Rightarrow> u32 option" where
  "shape_layout shape keys =
     (if max_aggregate_columns < shape_count shape then None
      else
        let bytes = u32_bytes (layout_tag keys) @ [word_of_nat (shape_count shape)]
              @ u16_bytes (shape_nonnull shape) @ u16_bytes (shape_integers shape)
              @ u16_bytes (shape_presence shape) @ u16_bytes (shape_dates shape) @ u16_bytes (shape_text shape)
        in Some (crc32c
             (if shape_text shape \<noteq> 0 then bytes
              else if shape_dates shape \<noteq> 0 then take 13 bytes
              else if shape_presence shape = 0 then take 9 bytes
              else take 11 bytes)))"

definition shape_invalid :: "argument_shape \<Rightarrow> bool" where
  "shape_invalid shape \<longleftrightarrow>
     max_aggregate_columns < shape_count shape
     \<or> drop_bit (shape_count shape)
         (shape_nonnull shape OR shape_integers shape OR shape_presence shape OR shape_dates shape OR shape_text shape) \<noteq> 0
     \<or> shape_dates shape AND (NOT (shape_integers shape) OR shape_presence shape) \<noteq> 0
     \<or> shape_text shape AND (shape_integers shape OR shape_presence shape OR shape_dates shape) \<noteq> 0"

section \<open>Fields of a frame\<close>

definition record_magic :: "u8 list" where
  "record_magic = [0x50, 0x47, 0x52, 0x50, 0x30, 0x30, 0x30, 0x31]"

definition frame_ordinal :: "u8 list \<Rightarrow> u64" where
  "frame_ordinal bytes = u64_of_bytes (slice bytes 8 8)"

definition frame_key_len :: "u8 list \<Rightarrow> nat" where
  "frame_key_len bytes = unat (u32_of_bytes (slice bytes 16 4))"

definition frame_key :: "u8 list \<Rightarrow> u8 list" where
  "frame_key bytes = slice bytes record_header (frame_key_len bytes)"

definition frame_valid :: "u8 list \<Rightarrow> u16" where
  "frame_valid bytes = u16_of_bytes (slice bytes 24 2)"

definition frame_bits :: "u8 list \<Rightarrow> nat \<Rightarrow> u64" where
  "frame_bits bytes state = u64_of_bytes (slice bytes (record_header + frame_key_len bytes + state * 8) 8)"

definition frame_text :: "u8 list \<Rightarrow> nat \<Rightarrow> argument_shape \<Rightarrow> db_error + u8 list" where
  "frame_text bytes state shape =
     (if shape_count shape \<le> state \<or> \<not> bit (shape_text shape) state then Inl (Corrupt ''group text argument slot'')
      else
        let start = foldl (\<lambda>at prior. if bit (shape_text shape) prior then at + unat (frame_bits bytes prior) else at)
              (record_header + frame_key_len bytes + shape_count shape * 8) [0..<state];
            end_at = start + unat (frame_bits bytes state)
        in if 2 ^ 64 \<le> start then Inl (Corrupt ''group text argument offset'')
           else if 2 ^ 64 \<le> end_at \<or> length bytes < end_at then Inl (Corrupt ''group text argument extent'')
           else let text = slice bytes start (unat (frame_bits bytes state)) in
             if utf8 text then Inr text else Inl (Corrupt ''group text argument UTF-8''))"

section \<open>Writing\<close>

record sort_record =
  rec_bytes :: "u8 list"
  rec_capacity :: nat
  rec_limit :: nat

definition new_record :: "nat \<Rightarrow> db_error + sort_record" where
  "new_record capacity =
     (if capacity < record_header \<or> max_frame_bytes < capacity then Inl (Corrupt ''argument record capacity'')
      else
        attempt (ok_or (buffer_capacity (word_of_nat capacity)) (Corrupt ''blocking buffer allocation capacity'')) (\<lambda>allocated.
          Inr \<lparr>rec_bytes = [], rec_capacity = unat allocated, rec_limit = capacity\<rparr>))"

fun append_arguments :: "nat \<Rightarrow> u8 list \<Rightarrow> u64 option list \<Rightarrow> db_error + u8 list" where
  "append_arguments capacity out [] = Inr out"
| "append_arguments capacity out (a # arguments) =
     attempt (append_bytes capacity out (u64_bytes (case a of None \<Rightarrow> 0 | Some w \<Rightarrow> w)))
       (\<lambda>out. append_arguments capacity out arguments)"

fun append_texts :: "nat \<Rightarrow> u8 list \<Rightarrow> u8 list list \<Rightarrow> db_error + u8 list" where
  "append_texts capacity out [] = Inr out"
| "append_texts capacity out (t # texts) =
     (if max_text_bytes < length t then Inl (Corrupt ''group text argument length'')
      else attempt (append_bytes capacity out t) (\<lambda>out. append_texts capacity out texts))"

fun validity_mask :: "nat \<Rightarrow> u64 option list \<Rightarrow> u16" where
  "validity_mask index [] = 0"
| "validity_mask index (a # arguments) = push_bit index (of_bool (a \<noteq> None)) OR validity_mask (index + 1) arguments"

definition frame_header :: "u64 \<Rightarrow> nat \<Rightarrow> u32 \<Rightarrow> u16 \<Rightarrow> nat \<Rightarrow> u8 list" where
  "frame_header ordinal key_len tag valid arguments =
     record_magic @ u64_bytes ordinal @ u32_bytes (word_of_nat key_len) @ u32_bytes tag
     @ u16_bytes valid @ [word_of_nat arguments]"

text \<open>The header's reserved byte and checksum field come zeroed from the caller.\<close>

definition finish_with_text ::
    "u32 \<Rightarrow> nat \<Rightarrow> u64 \<Rightarrow> u64 option list \<Rightarrow> u8 list list \<Rightarrow> sort_record \<Rightarrow> (db_error + sort_record) option" where
  "finish_with_text tag key_len ordinal arguments texts r =
     (if length (rec_bytes r) \<noteq> record_header + key_len \<or> max_aggregate_columns < length arguments
         \<or> max_aggregate_rows \<le> unat ordinal then None
      else Some (
        attempt (append_arguments (rec_capacity r) (rec_bytes r) arguments) (\<lambda>bytes.
        attempt (append_texts (rec_capacity r) bytes texts) (\<lambda>bytes.
          if rec_limit r < length bytes
          then Inl (ResourceError ''group record buffer'' (word_of_nat (length bytes)) (word_of_nat (rec_limit r)))
          else
            let bytes = put bytes 0 (frame_header ordinal key_len tag (validity_mask 0 arguments) (length arguments))
            in Inr (r\<lparr>rec_bytes := put bytes 28 (u32_bytes (crc32c bytes))\<rparr>)))))"

definition finish_record ::
    "u32 \<Rightarrow> nat \<Rightarrow> u64 \<Rightarrow> u64 option list \<Rightarrow> sort_record \<Rightarrow> (db_error + sort_record) option" where
  "finish_record tag key_len ordinal arguments r = finish_with_text tag key_len ordinal arguments [] r"

text \<open>The batch's row, or the columns a list of positions picks from it.\<close>

definition positioned :: "nat list \<Rightarrow> (nat \<Rightarrow> cell option) \<Rightarrow> nat \<Rightarrow> db_error + cell" where
  "positioned positions cells input =
     (if length positions \<le> input then Inl (Corrupt ''sorted positional input absent'')
      else ok_or (cells (positions ! input)) (Corrupt ''sorted positional row absent''))"

fun append_positioned ::
    "nat \<Rightarrow> key_column list \<Rightarrow> nat list \<Rightarrow> (nat \<Rightarrow> cell option) \<Rightarrow> u8 list \<Rightarrow> db_error + u8 list" where
  "append_positioned capacity [] positions cells out = Inr out"
| "append_positioned capacity (c # cs) positions cells out =
     attempt (positioned positions cells (key_input c)) (\<lambda>v.
     attempt (append_value capacity out v (key_kind c) (key_nullable c)) (append_positioned capacity cs positions cells))"

definition encode_row ::
    "row_layout \<Rightarrow> (nat \<Rightarrow> cell option) \<Rightarrow> u64 \<Rightarrow> nat list option \<Rightarrow> sort_record \<Rightarrow> (db_error + sort_record) option" where
  "encode_row keys cells ordinal positions r =
     (if unat ordinal + 1 \<ge> 2 ^ 64 then Some (Inl (Corrupt ''sort input ordinal overflow''))
      else if max_aggregate_rows < unat ordinal + 1
      then Some (Inl (ResourceError ''sorted input rows'' (ordinal + 1) (word_of_nat max_aggregate_rows)))
      else
        case append_bytes (rec_capacity r) [] (replicate record_header 0) of
          Inl e \<Rightarrow> Some (Inl e)
        | Inr header \<Rightarrow>
            (case (case positions of
                Some positions \<Rightarrow> Some (append_positioned (rec_capacity r) (layout_columns keys) positions cells header)
              | None \<Rightarrow> append_row (rec_capacity r) keys cells header) of
               None \<Rightarrow> None
             | Some (Inl e) \<Rightarrow> Some (Inl e)
             | Some (Inr bytes) \<Rightarrow>
                 Option.bind (shape_layout row_arguments keys) (\<lambda>tag.
                   finish_record tag (length bytes - record_header) ordinal [] (r\<lparr>rec_bytes := bytes\<rparr>))))"

section \<open>Reading\<close>

text \<open>The text lengths bound the frame before its checksum can be checked.\<close>

fun text_total :: "u8 list \<Rightarrow> argument_shape \<Rightarrow> nat \<Rightarrow> nat list \<Rightarrow> nat \<Rightarrow> db_error + nat" where
  "text_total bytes shape limit [] total_bytes = Inr total_bytes"
| "text_total bytes shape limit (state # states) total_bytes =
     (if bit (shape_text shape) state then
        let len = unat (frame_bits bytes state) in
        if max_text_bytes < len then Inl (Corrupt ''group text argument length'')
        else if limit < total_bytes + len then Inl (Corrupt ''group text argument extent'')
        else text_total bytes shape limit states (total_bytes + len)
      else text_total bytes shape limit states total_bytes)"

fun check_arguments :: "u8 list \<Rightarrow> argument_shape \<Rightarrow> nat list \<Rightarrow> db_error + unit" where
  "check_arguments bytes shape [] = Inr ()"
| "check_arguments bytes shape (state # states) =
     (let bits = frame_bits bytes state; valid = bit (frame_valid bytes) state in
      if \<not> valid \<and> bits \<noteq> 0 then Inl (Corrupt ''NULL group argument payload'')
      else if bit (shape_dates shape) state \<and> valid \<and> from_wide_days (sint bits) = None
      then Inl (Corrupt ''group DATE argument range'')
      else
        attempt (if bit (shape_text shape) state then map_sum id (\<lambda>_. ()) (frame_text bytes state shape) else Inr ()) (\<lambda>_.
          if bit (shape_presence shape) state \<and> bits \<noteq> 0 then Inl (Corrupt ''count-only group argument payload'')
          else check_arguments bytes shape states))"

definition check_frame :: "row_layout \<Rightarrow> argument_shape \<Rightarrow> u8 list \<Rightarrow> db_error + unit" where
  "check_frame keys shape bytes =
     (if u32_of_bytes (slice bytes 28 4) \<noteq> crc32c (put bytes 28 [0, 0, 0, 0])
      then Inl (Corrupt ''group argument checksum'')
      else
        attempt (validate_row keys (frame_key bytes)) (\<lambda>_.
          let valid = frame_valid bytes in
          if valid AND shape_nonnull shape \<noteq> shape_nonnull shape then Inl (Corrupt ''required group argument is NULL'')
          else if drop_bit (shape_count shape) valid \<noteq> 0 then Inl (Corrupt ''group argument validity tail'')
          else check_arguments bytes shape [0..<shape_count shape]))"

definition header_invalid :: "u32 \<Rightarrow> argument_shape \<Rightarrow> u8 list \<Rightarrow> bool" where
  "header_invalid tag shape bytes \<longleftrightarrow>
     take 8 bytes \<noteq> record_magic \<or> bytes ! 27 \<noteq> 0 \<or> u32_of_bytes (slice bytes 20 4) \<noteq> tag
     \<or> unat (bytes ! 26) \<noteq> shape_count shape \<or> max_aggregate_columns < shape_count shape
     \<or> max_aggregate_rows \<le> unat (frame_ordinal bytes)"

text \<open>The frame without its text, then the text its words announce.\<close>

definition read_texts ::
    "nat \<Rightarrow> nat \<Rightarrow> nat \<Rightarrow> row_layout \<Rightarrow> argument_shape \<Rightarrow> sort_record \<Rightarrow> u8 list \<Rightarrow> nat \<Rightarrow> read_buffer \<Rightarrow> scratch_io
     \<Rightarrow> ((sort_record \<times> read_buffer) \<times> scratch_io) checked" where
  "read_texts slot offset limit keys shape r bytes total_bytes reader io =
     (if total_bytes = length bytes
      then Some (attempt (check_frame keys shape bytes) (\<lambda>_. Inr ((r\<lparr>rec_bytes := bytes\<rparr>, reader), io)))
      else if 2 ^ 64 \<le> offset + length bytes then Some (Inl (Corrupt ''group text read offset''))
      else
        following (buffered_read slot (offset + length bytes) limit (total_bytes - length bytes) reader io) (\<lambda>((text, reader), io).
          let bytes = bytes @ text in
          Some (attempt (check_frame keys shape bytes) (\<lambda>_. Inr ((r\<lparr>rec_bytes := bytes\<rparr>, reader), io)))))"

definition read_body ::
    "nat \<Rightarrow> nat \<Rightarrow> nat \<Rightarrow> row_layout \<Rightarrow> argument_shape \<Rightarrow> sort_record \<Rightarrow> u8 list \<Rightarrow> read_buffer \<Rightarrow> scratch_io
     \<Rightarrow> ((sort_record \<times> read_buffer) \<times> scratch_io) checked" where
  "read_body slot offset limit keys shape r header reader io =
     (let key_len = frame_key_len header; end_at = record_header + key_len + shape_count shape * 8 in
      if layout_max_bytes keys < key_len \<or> rec_limit r < end_at
      then Some (Inl (Corrupt ''group argument exceeds admitted buffer''))
      else if 2 ^ 64 \<le> offset + record_header then Some (Inl (Corrupt ''group read offset''))
      else
        following (buffered_read slot (offset + record_header) limit (end_at - record_header) reader io) (\<lambda>((body, reader), io).
          case text_total (header @ body) shape (rec_limit r) [0..<shape_count shape] end_at of
            Inl e \<Rightarrow> Some (Inl e)
          | Inr total_bytes \<Rightarrow> read_texts slot offset limit keys shape r (header @ body) total_bytes reader io))"

definition read_record ::
    "nat \<Rightarrow> nat \<Rightarrow> nat \<Rightarrow> row_layout \<Rightarrow> argument_shape \<Rightarrow> sort_record \<Rightarrow> read_buffer \<Rightarrow> scratch_io
     \<Rightarrow> ((sort_record \<times> read_buffer) \<times> scratch_io) checked" where
  "read_record slot offset limit keys shape r reader io =
     (if shape_invalid shape then Some (Inl (Corrupt ''group argument type shape''))
      else
        following (buffered_read slot offset limit record_header reader io) (\<lambda>((header, reader), io).
        Option.bind (shape_layout shape keys) (\<lambda>tag.
        if header_invalid tag shape header then Some (Inl (Corrupt ''group argument header''))
        else read_body slot offset limit keys shape r header reader io)))"

section \<open>Comparing\<close>

text \<open>Row numbers break ties, so that records of one sort are strictly ordered.\<close>

definition compare_encoded :: "row_layout \<Rightarrow> u8 list \<Rightarrow> u8 list \<Rightarrow> (db_error + ordering) option" where
  "compare_encoded keys left right =
     (if length left < record_header + frame_key_len left \<or> length right < record_header + frame_key_len right
         \<or> length left < record_header \<or> length right < record_header then None
      else map_option (map_sum id (\<lambda>ord. and_then ord (order_of (int (unat (frame_ordinal left))) (int (unat (frame_ordinal right))))))
             (compare_rows keys (frame_key left) (frame_key right)))"

end
