(* ===== verification/Record_Properties.thy ===== *)
theory Record_Properties
  imports Sort_Record Row_Properties
begin

text \<open>
  A frame written by the sorter reads back as the same bytes, and two frames of one sort
  compare as their rows do, with the row number deciding ties.
\<close>

section \<open>Fields\<close>

lemma length_u16_bytes [simp]: "length (u16_bytes x) = 2"
  by (simp add: u16_bytes_def)

lemma u16_of_bytes_bytes [simp]: "u16_of_bytes (u16_bytes x) = x"
proof -
  have "unat x < 65536" using unsigned_less [of x] by simp
  then show ?thesis by (simp add: u16_bytes_def u16_of_bytes_def le_decode_encode)
qed

lemma length_frame_header [simp]: "length (frame_header ordinal key_len tag valid arguments) = 27"
  by (simp add: frame_header_def record_magic_def)

lemma slice_append_left: "off + n \<le> length xs \<Longrightarrow> slice (xs @ ys) off n = slice xs off n"
  by (simp add: slice_def)

lemma slice_append_right: "length xs \<le> off \<Longrightarrow> slice (xs @ ys) off n = slice ys (off - length xs) n"
  by (simp add: slice_def)

text \<open>A complete header: the fields, the reserved byte and the checksum.\<close>

definition full_header :: "u64 \<Rightarrow> nat \<Rightarrow> u32 \<Rightarrow> u16 \<Rightarrow> nat \<Rightarrow> u32 \<Rightarrow> u8 list" where
  "full_header ordinal key_len tag valid arguments crc =
     frame_header ordinal key_len tag valid arguments @ [0] @ u32_bytes crc"

lemma length_full_header [simp]: "length (full_header ordinal key_len tag valid arguments crc) = record_header"
  by (simp add: full_header_def record_header_def)

lemma full_header_fields:
  assumes "key_len < 2 ^ 32"
  shows "take 8 (full_header ordinal key_len tag valid n crc @ body) = record_magic"
    and "(full_header ordinal key_len tag valid n crc @ body) ! 27 = 0"
    and "(full_header ordinal key_len tag valid n crc @ body) ! 26 = word_of_nat n"
    and "slice (full_header ordinal key_len tag valid n crc @ body) 20 4 = u32_bytes tag"
    and "slice (full_header ordinal key_len tag valid n crc @ body) 28 4 = u32_bytes crc"
    and "frame_ordinal (full_header ordinal key_len tag valid n crc @ body) = ordinal"
    and "frame_key_len (full_header ordinal key_len tag valid n crc @ body) = key_len"
    and "frame_valid (full_header ordinal key_len tag valid n crc @ body) = valid"
proof -
  have m: "length record_magic = 8" by (simp add: record_magic_def)
  note d = full_header_def frame_header_def
  show "take 8 (full_header ordinal key_len tag valid n crc @ body) = record_magic" by (simp add: d m)
  show "(full_header ordinal key_len tag valid n crc @ body) ! 27 = 0" by (simp add: d m nth_append)
  show "(full_header ordinal key_len tag valid n crc @ body) ! 26 = word_of_nat n" by (simp add: d m nth_append)
  show "slice (full_header ordinal key_len tag valid n crc @ body) 20 4 = u32_bytes tag" by (simp add: d m slice_def)
  show "slice (full_header ordinal key_len tag valid n crc @ body) 28 4 = u32_bytes crc" by (simp add: d m slice_def)
  show "frame_ordinal (full_header ordinal key_len tag valid n crc @ body) = ordinal"
    by (simp add: frame_ordinal_def d m slice_def)
  show "frame_key_len (full_header ordinal key_len tag valid n crc @ body) = key_len"
    using assms by (simp add: frame_key_len_def d m slice_def unat_of_nat)
  show "frame_valid (full_header ordinal key_len tag valid n crc @ body) = valid"
    by (simp add: frame_valid_def d m slice_def)
qed

lemma full_header_crc:
  "put (full_header ordinal key_len tag valid n crc @ body) 28 [0, 0, 0, 0] = full_header ordinal key_len tag valid n 0 @ body"
  "put (full_header ordinal key_len tag valid n 0 @ body) 28 (u32_bytes crc) = full_header ordinal key_len tag valid n crc @ body"
  by (simp_all add: full_header_def put_def)

section \<open>Writing\<close>

definition argument_words :: "u64 option list \<Rightarrow> u8 list" where
  "argument_words arguments = concat (map (\<lambda>a. u64_bytes (case a of None \<Rightarrow> 0 | Some w \<Rightarrow> w)) arguments)"

lemma append_bytes_Inr: "append_bytes capacity out bytes = Inr out' \<longleftrightarrow>
    out' = out @ bytes \<and> length out + length bytes \<le> capacity \<and> length out + length bytes < 2 ^ 64"
  by (auto simp: append_bytes_def usize_or_def attempt_Inr_conv not_less)

lemma append_arguments_Inr:
  "append_arguments capacity out arguments = Inr out' \<Longrightarrow> out' = out @ argument_words arguments"
proof (induction arguments arbitrary: out)
  case (Cons a arguments)
  let ?w = "u64_bytes (case a of None \<Rightarrow> 0 | Some w \<Rightarrow> w)"
  have "append_arguments capacity (out @ ?w) arguments = Inr out'"
    using Cons.prems by (auto simp: attempt_Inr_conv append_bytes_Inr)
  from Cons.IH [OF this] show ?case by (simp add: argument_words_def)
qed (simp add: argument_words_def)

lemma append_texts_Inr: "append_texts capacity out texts = Inr out' \<Longrightarrow> out' = out @ concat texts"
proof (induction texts arbitrary: out)
  case (Cons t texts)
  have "append_texts capacity (out @ t) texts = Inr out'"
    using Cons.prems by (auto simp: attempt_Inr_conv append_bytes_Inr split: if_splits)
  from Cons.IH [OF this] show ?case by simp
qed simp

lemma finish_with_text_Inr:
  assumes "finish_with_text tag key_len ordinal arguments texts r = Some (Inr r')"
    and "rec_bytes r = replicate record_header 0 @ key"
  shows "\<exists>crc. rec_bytes r' = full_header ordinal key_len tag (validity_mask 0 arguments) (length arguments) crc
      @ key @ argument_words arguments @ concat texts
    \<and> crc = crc32c (full_header ordinal key_len tag (validity_mask 0 arguments) (length arguments) 0
      @ key @ argument_words arguments @ concat texts)
    \<and> key_len = length key \<and> length (rec_bytes r') \<le> rec_limit r \<and> rec_limit r' = rec_limit r
    \<and> unat ordinal < max_aggregate_rows \<and> length arguments \<le> max_aggregate_columns"
proof -
  let ?body = "key @ argument_words arguments @ concat texts"
  let ?h = "frame_header ordinal key_len tag (validity_mask 0 arguments) (length arguments)"
  from assms(1) obtain b1 b2 where b: "append_arguments (rec_capacity r) (rec_bytes r) arguments = Inr b1"
      "append_texts (rec_capacity r) b1 texts = Inr b2" "length b2 \<le> rec_limit r"
    and r': "r' = r\<lparr>rec_bytes := put (put b2 0 ?h) 28 (u32_bytes (crc32c (put b2 0 ?h)))\<rparr>"
    and g: "length (rec_bytes r) = record_header + key_len" "length arguments \<le> max_aggregate_columns"
      "unat ordinal < max_aggregate_rows"
    by (auto simp: finish_with_text_def attempt_Inr_conv Let_def not_less split: if_splits)
  have b2: "b2 = replicate 32 0 @ ?body"
    using append_arguments_Inr [OF b(1)] append_texts_Inr [OF b(2)] assms(2) by (simp add: record_header_def)
  have replicate_eq: "replicate 5 (0 :: u8) = [0, 0, 0, 0, 0]" by (simp add: numeral_eq_Suc)
  have h: "put b2 0 ?h = full_header ordinal key_len tag (validity_mask 0 arguments) (length arguments) 0 @ ?body"
    unfolding b2 by (simp add: put_def full_header_def replicate_eq)
  have key: "key_len = length key" using g(1) assms(2) by simp
  show ?thesis
    using b(3) g(2,3) key unfolding r' h by (simp add: full_header_crc b2 record_header_def)
qed

section \<open>Reading\<close>

lemma bit_validity_mask:
  "length arguments + index \<le> 16 \<Longrightarrow>
     bit (validity_mask index arguments) n \<longleftrightarrow> index \<le> n \<and> n < index + length arguments \<and> arguments ! (n - index) \<noteq> None"
proof (induction arguments arbitrary: index)
  case (Cons a arguments)
  have "bit (push_bit index (of_bool (a \<noteq> None)) :: u16) n \<longleftrightarrow> n = index \<and> a \<noteq> None"
    using Cons.prems by (auto simp: bit_push_bit_iff bit_1_iff)
  then show ?case
    using Cons.IH [of "index + 1"] Cons.prems
    by (cases "n = index") (auto simp: bit_or_iff nth_Cons' Suc_le_eq)
qed simp

lemma length_argument_words [simp]: "length (argument_words arguments) = length arguments * 8"
  by (induction arguments) (simp_all add: argument_words_def)

lemma slice_argument_words:
  "i < length arguments \<Longrightarrow>
     slice (argument_words arguments @ rest) (i * 8) 8 = u64_bytes (case arguments ! i of None \<Rightarrow> 0 | Some w \<Rightarrow> w)"
proof (induction arguments arbitrary: i)
  case (Cons a arguments)
  show ?case
  proof (cases i)
    case 0
    then show ?thesis by (simp add: argument_words_def slice_def)
  next
    case (Suc j)
    have "slice (argument_words (a # arguments) @ rest) (i * 8) 8 = slice (argument_words arguments @ rest) (j * 8) 8"
      by (simp add: argument_words_def Suc slice_append_right)
    with Cons Suc show ?thesis by simp
  qed
qed simp

definition argument_word :: "u64 option list \<Rightarrow> nat \<Rightarrow> u64" where
  "argument_word arguments i = (case arguments ! i of None \<Rightarrow> 0 | Some w \<Rightarrow> w)"

definition texts_before :: "argument_shape \<Rightarrow> (nat \<Rightarrow> u8 list) \<Rightarrow> nat \<Rightarrow> u8 list list" where
  "texts_before shape txts n = map txts (filter (bit (shape_text shape)) [0..<n])"

text \<open>What the encoder's caller owes: words, presence and text that obey the masks.\<close>

definition arguments_fit :: "argument_shape \<Rightarrow> u64 option list \<Rightarrow> (nat \<Rightarrow> u8 list) \<Rightarrow> bool" where
  "arguments_fit shape arguments txts \<longleftrightarrow>
     length arguments = shape_count shape
     \<and> (\<forall>i < shape_count shape.
          (arguments ! i = None \<longrightarrow> \<not> bit (shape_nonnull shape) i)
        \<and> (bit (shape_presence shape) i \<longrightarrow> argument_word arguments i = 0)
        \<and> (bit (shape_dates shape) i \<longrightarrow> arguments ! i \<noteq> None \<longrightarrow> from_wide_days (sint (argument_word arguments i)) \<noteq> None)
        \<and> (bit (shape_text shape) i \<longrightarrow> length (txts i) = unat (argument_word arguments i)
             \<and> length (txts i) \<le> max_text_bytes \<and> utf8 (txts i)))"

lemma texts_before_Suc:
  "texts_before shape txts (Suc n) = texts_before shape txts n @ (if bit (shape_text shape) n then [txts n] else [])"
  by (simp add: texts_before_def)

lemma texts_before_prefix:
  "n \<le> m \<Longrightarrow> \<exists>more. concat (texts_before shape txts m) = concat (texts_before shape txts n) @ more"
proof (induction m)
  case (Suc m)
  show ?case
  proof (cases "n = Suc m")
    case False
    with Suc obtain more where "concat (texts_before shape txts m) = concat (texts_before shape txts n) @ more" by auto
    then show ?thesis by (simp add: texts_before_Suc)
  qed simp
qed simp

lemma frame_bits_word:
  assumes "key_len = length key" and "key_len < 2 ^ 32" and "i < length arguments"
  shows "frame_bits (full_header ordinal key_len tag valid n crc @ key @ argument_words arguments @ rest) i = argument_word arguments i"
proof -
  let ?b = "full_header ordinal key_len tag valid n crc @ key @ argument_words arguments @ rest"
  have "slice ?b (record_header + length key + i * 8) 8 = slice (argument_words arguments @ rest) (i * 8) 8"
    by (simp add: slice_append_right)
  with slice_argument_words [OF assms(3)] full_header_fields(7) [OF assms(2)] assms(1) show ?thesis
    by (simp add: frame_bits_def argument_word_def)
qed

lemma frame_text_reads:
  assumes fit: "arguments_fit shape arguments txts" and key: "key_len = length key" "key_len < 2 ^ 32"
    and state: "state < shape_count shape" "bit (shape_text shape) state"
    and bytes: "bytes = full_header ordinal key_len tag valid n crc @ key @ argument_words arguments
      @ concat (texts_before shape txts (shape_count shape))"
    and small: "length bytes < 2 ^ 64"
  shows "frame_text bytes state shape = Inr (txts state)"
proof -
  let ?base = "record_header + key_len + shape_count shape * 8"
  have len: "length arguments = shape_count shape" using fit by (simp add: arguments_fit_def)
  have bits: "frame_bits bytes i = argument_word arguments i" if "i < shape_count shape" for i
    unfolding bytes using frame_bits_word [OF key] that len by simp
  have start: "foldl (\<lambda>at prior. if bit (shape_text shape) prior then at + unat (frame_bits bytes prior) else at) ?base [0..<m]
      = ?base + length (concat (texts_before shape txts m))" if "m \<le> state" for m
    using that
  proof (induction m)
    case (Suc m)
    then have "m < shape_count shape" using state(1) by simp
    with Suc fit bits [of m] show ?case
      by (simp add: texts_before_Suc arguments_fit_def)
  qed (simp add: texts_before_def)
  have t: "length (txts state) = unat (argument_word arguments state)" "utf8 (txts state)"
    using fit state by (simp_all add: arguments_fit_def)
  obtain more where more: "concat (texts_before shape txts (shape_count shape)) = concat (texts_before shape txts state) @ txts state @ more"
    using texts_before_prefix [of "Suc state" "shape_count shape" shape txts] state by (auto simp: texts_before_Suc)
  have total: "?base + length (concat (texts_before shape txts state)) + length (txts state) \<le> length bytes"
    unfolding bytes more using key(1) len by simp
  have "slice bytes (?base + length (concat (texts_before shape txts state))) (length (txts state)) = txts state"
    unfolding bytes more using key(1) len by (simp add: slice_append_right) (simp add: slice_def)
  moreover have "frame_key_len bytes = key_len"
    unfolding bytes by (rule full_header_fields(7) [OF key(2)])
  ultimately show ?thesis
    using state t total small
    by (simp add: frame_text_def start [OF order_refl] bits [OF state(1)] Let_def)
qed

lemma text_total_reads:
  assumes fit: "arguments_fit shape arguments txts"
    and bits: "\<And>i. i < shape_count shape \<Longrightarrow> frame_bits bytes i = argument_word arguments i"
    and small: "base + length (concat (texts_before shape txts (shape_count shape))) \<le> limit"
    and m: "m \<le> shape_count shape"
  shows "text_total bytes shape limit [m..<shape_count shape] (base + length (concat (texts_before shape txts m)))
    = Inr (base + length (concat (texts_before shape txts (shape_count shape))))"
  using m
proof (induction m rule: inc_induct)
  case (step m)
  have list: "[m..<shape_count shape] = m # [Suc m..<shape_count shape]" using step.hyps by (simp add: upt_conv_Cons)
  show ?case
  proof (cases "bit (shape_text shape) m")
    case True
    then have t: "length (txts m) = unat (argument_word arguments m)" "length (txts m) \<le> max_text_bytes"
      using fit step.hyps by (auto simp: arguments_fit_def)
    obtain more where "concat (texts_before shape txts (shape_count shape))
        = concat (texts_before shape txts m) @ txts m @ more"
      using texts_before_prefix [of "Suc m" "shape_count shape" shape txts] step.hyps True
      by (auto simp: texts_before_Suc)
    with small have "base + length (concat (texts_before shape txts m)) + length (txts m) \<le> limit" by simp
    with True t step.IH bits [of m] step.hyps show ?thesis
      unfolding list by (simp add: texts_before_Suc Let_def add.assoc)
  next
    case False
    with step.IH show ?thesis unfolding list by (simp add: texts_before_Suc)
  qed
qed simp

lemma check_arguments_pass:
  assumes fit: "arguments_fit shape arguments txts"
    and bits: "\<And>i. i < shape_count shape \<Longrightarrow> frame_bits bytes i = argument_word arguments i"
    and valid: "\<And>i. i < shape_count shape \<Longrightarrow> bit (frame_valid bytes) i = (arguments ! i \<noteq> None)"
    and reads: "\<And>i. i < shape_count shape \<Longrightarrow> bit (shape_text shape) i \<Longrightarrow> frame_text bytes i shape = Inr (txts i)"
    and m: "set states \<subseteq> {..<shape_count shape}"
  shows "check_arguments bytes shape states = Inr ()"
  using m
proof (induction states)
  case (Cons state states)
  then have s: "state < shape_count shape" by simp
  have none: "arguments ! state = None \<Longrightarrow> argument_word arguments state = 0" by (simp add: argument_word_def)
  show ?case
    using Cons fit s bits [OF s] valid [OF s] reads [OF s] none
    by (auto simp: arguments_fit_def Let_def)
qed simp

lemma shape_valid_tail:
  assumes "\<not> shape_invalid shape" and "bit (shape_nonnull shape) i"
  shows "i < shape_count shape"
proof (rule ccontr)
  assume "\<not> i < shape_count shape"
  then have i: "shape_count shape \<le> i" by simp
  have zero: "drop_bit (shape_count shape)
      (shape_nonnull shape OR shape_integers shape OR shape_presence shape OR shape_dates shape OR shape_text shape) = (0 :: u16)"
    using assms(1) by (auto simp: shape_invalid_def)
  have "bit (drop_bit (shape_count shape)
      (shape_nonnull shape OR shape_integers shape OR shape_presence shape OR shape_dates shape OR shape_text shape)) (i - shape_count shape)"
    using assms(2) i by (simp add: bit_drop_bit_eq bit_or_iff)
  then show False unfolding zero by simp
qed

lemma check_frame_pass:
  assumes fit: "arguments_fit shape arguments txts" and shape: "\<not> shape_invalid shape"
    and key: "key_len = length key" "key_len < 2 ^ 32" "validate_row keys key = Inr ()"
    and bytes: "bytes = full_header ordinal key_len tag (validity_mask 0 arguments) n crc @ key @ argument_words arguments
      @ concat (texts_before shape txts (shape_count shape))"
    and crc: "crc = crc32c (full_header ordinal key_len tag (validity_mask 0 arguments) n 0 @ key @ argument_words arguments
      @ concat (texts_before shape txts (shape_count shape)))"
    and small: "length bytes < 2 ^ 64"
  shows "check_frame keys shape bytes = Inr ()"
proof -
  have len: "length arguments = shape_count shape" using fit by (simp add: arguments_fit_def)
  have count: "shape_count shape \<le> 10" using shape by (simp add: shape_invalid_def max_aggregate_columns_def)
  note fields = full_header_fields [OF key(2)]
  have valid_eq: "frame_valid bytes = validity_mask 0 arguments" unfolding bytes by (rule fields(8))
  have mask: "bit (frame_valid bytes) i \<longleftrightarrow> i < shape_count shape \<and> arguments ! i \<noteq> None" for i
    unfolding valid_eq using bit_validity_mask [of arguments 0 i] len count by simp
  have bits: "frame_bits bytes i = argument_word arguments i" if "i < shape_count shape" for i
    unfolding bytes using frame_bits_word [OF key(1,2)] that len by simp
  have reads: "frame_text bytes i shape = Inr (txts i)" if "i < shape_count shape" "bit (shape_text shape) i" for i
    using frame_text_reads [OF fit key(1,2) that bytes small] .
  have crc_ok: "u32_of_bytes (slice bytes 28 4) = crc32c (put bytes 28 [0, 0, 0, 0])"
    unfolding bytes fields(5) full_header_crc(1) by (simp add: crc)
  have kl: "frame_key_len bytes = length key" unfolding bytes fields(7) by (rule key(1))
  have "frame_key bytes = key"
    unfolding frame_key_def kl unfolding bytes by (simp add: slice_append_right) (simp add: slice_def)
  moreover have "frame_valid bytes AND shape_nonnull shape = shape_nonnull shape"
  proof (rule bit_eqI)
    fix i
    show "bit (frame_valid bytes AND shape_nonnull shape) i = bit (shape_nonnull shape) i"
      using fit shape_valid_tail [OF shape, of i] mask [of i] by (auto simp: bit_and_iff arguments_fit_def)
  qed
  moreover have "drop_bit (shape_count shape) (frame_valid bytes) = 0"
    by (rule bit_eqI) (use mask in \<open>simp add: bit_drop_bit_eq\<close>)
  moreover have "check_arguments bytes shape [0..<shape_count shape] = Inr ()"
  proof (rule check_arguments_pass [OF fit])
    fix i
    assume i: "i < shape_count shape"
    from bits [OF i] show "frame_bits bytes i = argument_word arguments i" .
    from mask [of i] i show "bit (frame_valid bytes) i = (arguments ! i \<noteq> None)" by simp
    from reads [OF i] show "bit (shape_text shape) i \<Longrightarrow> frame_text bytes i shape = Inr (txts i)" .
  qed auto
  ultimately show ?thesis
    using key(3) crc_ok by (simp add: check_frame_def Let_def)
qed

lemma slice_prefix:
  assumes "slice file offset (length (xs @ ys)) = xs @ ys"
  shows "slice file offset (length xs) = xs" and "slice file (offset + length xs) (length ys) = ys"
proof -
  have "take (length xs) (slice file offset (length (xs @ ys))) = xs" unfolding assms by simp
  then show "slice file offset (length xs) = xs" by (simp add: slice_def min_absorb1)
  have "drop (length xs) (slice file offset (length (xs @ ys))) = ys" unfolding assms by simp
  then show "slice file (offset + length xs) (length ys) = ys" by (simp add: slice_def drop_take add.commute)
qed

section \<open>Frames in files\<close>

text \<open>A frame the encoder could have written for these arguments.\<close>

definition frame_of :: "row_layout \<Rightarrow> argument_shape \<Rightarrow> u64 option list \<Rightarrow> (nat \<Rightarrow> u8 list) \<Rightarrow> u8 list \<Rightarrow> u64 \<Rightarrow> u8 list \<Rightarrow> bool" where
  "frame_of keys shape arguments txts key ordinal bytes \<longleftrightarrow>
     (\<exists>tag crc. shape_layout shape keys = Some tag
        \<and> bytes = full_header ordinal (length key) tag (validity_mask 0 arguments) (length arguments) crc
            @ key @ argument_words arguments @ concat (texts_before shape txts (shape_count shape))
        \<and> crc = crc32c (full_header ordinal (length key) tag (validity_mask 0 arguments) (length arguments) 0
            @ key @ argument_words arguments @ concat (texts_before shape txts (shape_count shape))))
     \<and> \<not> shape_invalid shape \<and> arguments_fit shape arguments txts \<and> validate_row keys key = Inr ()
     \<and> length key \<le> layout_max_bytes keys \<and> unat ordinal < max_aggregate_rows \<and> length bytes \<le> max_frame_bytes"

lemma max_frame_small: "max_frame_bytes < 2 ^ 32"
  by (simp add: max_frame_bytes_def record_header_def max_row_values_def max_text_bytes_def)

lemma finish_frame_of:
  assumes "finish_with_text tag (length key) ordinal arguments (texts_before shape txts (shape_count shape)) w = Some (Inr r)"
    and "rec_bytes w = replicate record_header 0 @ key" and "shape_layout shape keys = Some tag"
    and "\<not> shape_invalid shape" and "arguments_fit shape arguments txts" and "validate_row keys key = Inr ()"
    and "length key \<le> layout_max_bytes keys" and "rec_limit w \<le> max_frame_bytes"
  shows "frame_of keys shape arguments txts key ordinal (rec_bytes r)"
  using finish_with_text_Inr [OF assms(1,2)] assms(3-8) unfolding frame_of_def by auto

text \<open>A frame as the reader meets it: a header that fixes the body's length, then the text.\<close>

lemma frame_parts:
  assumes frame: "frame_of keys shape arguments txts key ordinal bytes"
  obtains tag header body texts where "bytes = header @ body @ texts" and "length header = record_header"
    and "\<not> shape_invalid shape" and "shape_layout shape keys = Some tag" and "\<not> header_invalid tag shape header"
    and "frame_key_len header + shape_count shape * 8 = length body" and "frame_key_len header \<le> layout_max_bytes keys"
    and "\<forall>limit \<ge> length bytes.
      text_total (header @ body) shape limit [0..<shape_count shape] (record_header + length body) = Inr (length bytes)"
    and "check_frame keys shape bytes = Inr ()" and "length bytes \<le> max_frame_bytes"
proof -
  let ?count = "shape_count shape" and ?texts = "concat (texts_before shape txts (shape_count shape))"
  from frame obtain tag crc where f: "shape_layout shape keys = Some tag"
      "bytes = full_header ordinal (length key) tag (validity_mask 0 arguments) (length arguments) crc
            @ key @ argument_words arguments @ ?texts"
      "crc = crc32c (full_header ordinal (length key) tag (validity_mask 0 arguments) (length arguments) 0
            @ key @ argument_words arguments @ ?texts)"
    and g: "\<not> shape_invalid shape" "arguments_fit shape arguments txts" "validate_row keys key = Inr ()"
      "length key \<le> layout_max_bytes keys" "unat ordinal < max_aggregate_rows" "length bytes \<le> max_frame_bytes"
    by (auto simp: frame_of_def)
  define header where "header = full_header ordinal (length key) tag (validity_mask 0 arguments) (length arguments) crc"
  define body where "body = key @ argument_words arguments"
  have len: "length arguments = ?count" using g(2) by (simp add: arguments_fit_def)
  have count: "?count \<le> 10" using g(1) by (simp add: shape_invalid_def max_aggregate_columns_def)
  have whole: "bytes = header @ body @ ?texts" by (simp add: f(2) header_def body_def)
  have lengths: "length header = record_header" "length body = length key + ?count * 8"
    by (simp_all add: header_def body_def len)
  have key: "length key < 2 ^ 32" using g(6) max_frame_small unfolding whole body_def by simp
  have small: "length bytes < 2 ^ 64" using g(6) max_frame_small by simp
  note fields = full_header_fields [OF key, of ordinal tag "validity_mask 0 arguments" "length arguments" crc]
  have valid: "\<not> header_invalid tag shape header"
    using fields(1-4) [of "[]"] fields(6) [of "[]"] count g(5)
    by (simp add: header_invalid_def header_def len max_aggregate_columns_def unat_of_nat)
  have kl: "frame_key_len header = length key" using fields(7) [of "[]"] by (simp add: header_def)
  have bits: "frame_bits (header @ body) i = argument_word arguments i" if "i < ?count" for i
    using frame_bits_word [OF refl key, of i arguments _ _ _ _ _ "[]"] that len by (simp add: header_def body_def)
  have total: "record_header + length body + length ?texts = length bytes" unfolding whole lengths(1) [symmetric] by simp
  have text_sum: "\<forall>limit \<ge> length bytes.
      text_total (header @ body) shape limit [0..<?count] (record_header + length body) = Inr (length bytes)"
    using text_total_reads [OF g(2) bits, of "record_header + length body" _ 0] total
    by (simp add: texts_before_def)
  have pass: "check_frame keys shape bytes = Inr ()"
    by (rule check_frame_pass [OF g(2,1) refl key g(3) f(2,3) small])
  show thesis
    by (rule that [OF whole lengths(1) g(1) f(1) valid _ _ text_sum pass g(6)]) (simp_all add: kl lengths(2) g(4))
qed

text \<open>The checking reader, on any host.\<close>

lemma read_record_answers:
  assumes frame: "frame_of keys shape arguments txts key ordinal bytes"
    and io: "granted \<longrightarrow> quiet io" "reader_ok io reader" "slot < 2"
    and at: "slice (io_files io ! slot) offset (length bytes) = bytes" "offset + length bytes \<le> limit"
      "limit \<le> length (io_files io ! slot)" "length (io_files io ! slot) < 2 ^ 64" "length bytes \<le> rec_limit r"
  shows "answers granted (read_record slot offset limit keys shape r reader io)
    (\<lambda>((r', reader'), io'). r' = r\<lparr>rec_bytes := bytes\<rparr> \<and> same_host io io' \<and> reads_at slot io' reader')"
proof -
  obtain tag header body texts where p: "bytes = header @ body @ texts" "length header = record_header"
      "\<not> shape_invalid shape" "shape_layout shape keys = Some tag" "\<not> header_invalid tag shape header"
      "frame_key_len header + shape_count shape * 8 = length body" "frame_key_len header \<le> layout_max_bytes keys"
    and total: "\<forall>limit \<ge> length bytes.
      text_total (header @ body) shape limit [0..<shape_count shape] (record_header + length body) = Inr (length bytes)"
    and pass: "check_frame keys shape bytes = Inr ()" "length bytes \<le> max_frame_bytes"
    using frame_parts [OF frame] by metis
  let ?file = "io_files io ! slot"
  have end_at: "record_header + frame_key_len header + shape_count shape * 8 = record_header + length body" using p(6) by simp
  have len: "length bytes = record_header + length body + length texts" by (simp add: p(1,2))
  note s1 = slice_prefix [OF at(1) [unfolded p(1)]]
  have s2: "slice ?file (offset + record_header) (length body) = body"
      "slice ?file (offset + (record_header + length body)) (length texts) = texts"
    using slice_prefix [OF s1(2)] p(2) by (simp_all add: add.assoc)
  have bounds: "\<not> layout_max_bytes keys < frame_key_len header" "\<not> rec_limit r < record_header + length body"
      "\<not> 18446744073709551616 \<le> offset + record_header" "\<not> 18446744073709551616 \<le> offset + (record_header + length body)"
    using p(7) at(2-5) len by simp_all
  let ?post = "\<lambda>((r', reader'), io'). r' = r\<lparr>rec_bytes := bytes\<rparr> \<and> same_host io io' \<and> reads_at slot io' reader'"
  have same: "same_host io io' \<Longrightarrow> io_files io' ! slot = ?file" "same_host io io' \<Longrightarrow> granted \<longrightarrow> quiet io'" for io'
    using io(1) by (auto simp: same_host_def)
  have part: "answers granted (buffered_read slot start limit n reader' io')
      (\<lambda>((b, reader''), io''). b = slice ?file start n \<and> same_host io io'' \<and> reads_at slot io'' reader'')"
    if h: "same_host io io'" "reader_ok io' reader'" and start: "start + n \<le> offset + length bytes" "n \<le> length bytes"
    for reader' io' start n
  proof -
    have "answers granted (buffered_read slot start limit n reader' io')
      (\<lambda>((b, reader''), io''). b = slice (io_files io' ! slot) start n \<and> same_host io' io'' \<and> reads_at slot io'' reader'')"
      by (rule buffered_read_answers [OF same(2) [OF h(1)] h(2) io(3)]) (use start at(2-4) pass(2) same(1) [OF h(1)] in simp_all)
    then show ?thesis by (rule answers_weaken) (auto simp: same [OF h(1)] intro: same_host_trans [OF h(1)])
  qed
  have texts: "answers granted (read_texts slot offset limit keys shape r (header @ body) (length bytes) reader' io') ?post"
    if h: "same_host io io'" "reads_at slot io' reader'" for reader' io'
  proof (cases "texts = []")
    case True
    with h pass(1) p(1) show ?thesis by (simp add: read_texts_def)
  next
    case False
    have "\<not> length bytes = length (header @ body)" using False p(1) by simp
    moreover have "length bytes - length (header @ body) = length texts" "length (header @ body) = record_header + length body"
      using p(1,2) by simp_all
    moreover have "answers granted (buffered_read slot (offset + (record_header + length body)) limit (length texts) reader' io')
        (\<lambda>((b, reader''), io''). b = texts \<and> same_host io io'' \<and> reads_at slot io'' reader'')"
      using part [OF h(1) reads_at_ok [OF h(2)], of "offset + (record_header + length body)" "length texts"] s2(2) len by simp
    ultimately show ?thesis
      unfolding read_texts_def if_not_P [OF bounds(4)] using pass(1) bounds(4) p(1)
      by (auto intro!: answers_following)
  qed
  have body: "answers granted (read_body slot offset limit keys shape r header reader' io') ?post"
    if h: "same_host io io'" "reads_at slot io' reader'" for reader' io'
  proof -
    have "answers granted (buffered_read slot (offset + record_header) limit (length body) reader' io')
        (\<lambda>((b, reader''), io''). b = body \<and> same_host io io'' \<and> reads_at slot io'' reader'')"
      using part [OF h(1) reads_at_ok [OF h(2)], of "offset + record_header" "length body"] s2(1) len by simp
    with bounds spec [OF total, of "rec_limit r"] at(5) texts show ?thesis
      by (auto simp: read_body_def Let_def end_at intro!: answers_following)
  qed
  have "answers granted (buffered_read slot offset limit record_header reader io)
      (\<lambda>((b, reader'), io'). b = header \<and> same_host io io' \<and> reads_at slot io' reader')"
    using part [OF same_host_refl io(2), of offset record_header] s1(1) p(2) len by simp
  with p(3-5) body show ?thesis
    by (auto simp: read_record_def intro!: answers_following)
qed

section \<open>Comparing\<close>

text \<open>A complete frame of a layout, and the order of two such frames.\<close>

definition frame_ok :: "row_layout \<Rightarrow> u8 list \<Rightarrow> bool" where
  "frame_ok keys bytes \<longleftrightarrow>
     layout_keys keys \<le> length (layout_columns keys) \<and> record_header + frame_key_len bytes \<le> length bytes
     \<and> validate_row keys (frame_key bytes) = Inr ()"

definition frame_order :: "row_layout \<Rightarrow> u8 list \<Rightarrow> u8 list \<Rightarrow> ordering" where
  "frame_order keys left right =
     (case compare_encoded keys left right of Some (Inr ord) \<Rightarrow> ord | _ \<Rightarrow> OrderEqual)"

lemma valid_row_columns:
  assumes "validate_row keys row = Inr ()"
  obtains vs rest where "values_fit (take (layout_keys keys) (layout_columns keys)) vs" "row = values_bytes vs @ rest"
proof -
  from assms obtain ws where ws: "values_fit (layout_columns keys) ws" "row = values_bytes ws"
    by (auto simp: validate_row_Inr)
  from that [OF values_fit_take [OF ws(1)]] values_bytes_split [of ws "layout_keys keys"] ws(2) show thesis by metis
qed

lemma frame_columns:
  assumes "frame_ok keys bytes"
  shows "\<exists>vs. values_fit (take (layout_keys keys) (layout_columns keys)) vs \<and> (\<exists>rest. frame_key bytes = values_bytes vs @ rest)"
  using assms valid_row_columns [of keys "frame_key bytes"] unfolding frame_ok_def by metis

lemma ordinal_order: "comparison_order (\<lambda>a b. order_of (int (unat (frame_ordinal a))) (int (unat (frame_ordinal b)))) ok"
  by unfold_locales (auto simp: order_of_def split: if_splits)

lemma compare_frames:
  assumes "frame_ok keys a" and "frame_ok keys b"
    and "values_fit (take (layout_keys keys) (layout_columns keys)) va" "frame_key a = values_bytes va @ ra"
    and "values_fit (take (layout_keys keys) (layout_columns keys)) vb" "frame_key b = values_bytes vb @ rb"
  shows "compare_encoded keys a b = Some (Inr (and_then (rows_order (take (layout_keys keys) (layout_columns keys)) va vb)
    (order_of (int (unat (frame_ordinal a))) (int (unat (frame_ordinal b))))))"
proof -
  have "compare_rows keys (frame_key a) (frame_key b) = Some (Inr (rows_order (take (layout_keys keys) (layout_columns keys)) va vb))"
    using compare_columns_fit [OF assms(3,5)] by (simp add: compare_rows_def compare_prefix_def assms(4,6))
  with assms(1,2) show ?thesis by (simp add: compare_encoded_def frame_ok_def)
qed

lemma frame_order_ok:
  assumes "frame_ok keys a" and "frame_ok keys b"
  shows "compare_encoded keys a b = Some (Inr (frame_order keys a b))"
proof -
  from frame_columns [OF assms(1)] frame_columns [OF assms(2)] compare_frames [OF assms]
  obtain ord where "compare_encoded keys a b = Some (Inr ord)" by blast
  then show ?thesis by (simp add: frame_order_def)
qed

lemma frames_comparison: "comparison_order (frame_order keys) (frame_ok keys)"
proof -
  let ?cs = "take (layout_keys keys) (layout_columns keys)"
  obtain dec where dec: "values_fit ?cs (dec a)" "\<exists>rest. frame_key a = values_bytes (dec a) @ rest" if "frame_ok keys a" for a
    using frame_columns [of keys] by metis
  have "comparison_order (\<lambda>a b. rows_order ?cs (dec a) (dec b)) (frame_ok keys)"
    using dec(1) by (rule rows.on)
  from comparison_order.tie_break [OF this ordinal_order]
  have tie: "comparison_order (\<lambda>a b. and_then (rows_order ?cs (dec a) (dec b))
      (order_of (int (unat (frame_ordinal a))) (int (unat (frame_ordinal b))))) (frame_ok keys)" .
  have eq: "frame_order keys a b = and_then (rows_order ?cs (dec a) (dec b))
      (order_of (int (unat (frame_ordinal a))) (int (unat (frame_ordinal b))))" if "frame_ok keys a" "frame_ok keys b" for a b
    using compare_frames [OF that] dec [OF that(1)] dec [OF that(2)] frame_order_ok [OF that] by auto
  show ?thesis
  proof
    fix a b assume "frame_ok keys a" "frame_ok keys b"
    then show "frame_order keys b a = reverse_order (frame_order keys a b)"
      using comparison_order.swap [OF tie] by (simp add: eq)
  next
    fix a b c assume "frame_ok keys a" "frame_ok keys b" "frame_ok keys c"
      "frame_order keys a b \<noteq> OrderGreater" "frame_order keys b c \<noteq> OrderGreater"
    then show "frame_order keys a c \<noteq> OrderGreater"
      using comparison_order.trans [OF tie, of a b c] by (simp add: eq)
  qed
qed

interpretation frames: comparison_order "frame_order keys" "frame_ok keys" for keys
  by (rule frames_comparison)

text \<open>Frames with different row numbers are never equal.\<close>

lemma frame_order_strict:
  assumes "frame_ok keys a" and "frame_ok keys b" and "frame_ordinal a \<noteq> frame_ordinal b"
  shows "frame_order keys a b \<noteq> OrderEqual"
proof -
  from frame_columns [OF assms(1)] frame_columns [OF assms(2)] obtain va ra vb rb where
    "values_fit (take (layout_keys keys) (layout_columns keys)) va" "frame_key a = values_bytes va @ ra"
    "values_fit (take (layout_keys keys) (layout_columns keys)) vb" "frame_key b = values_bytes vb @ rb" by blast
  from compare_frames [OF assms(1,2) this] frame_order_ok [OF assms(1,2)] assms(3) show ?thesis
    unfolding word_uint_eq_iff by (auto simp: and_then_def order_of_def split: if_splits)
qed

lemma frame_of_facts:
  assumes "frame_of keys shape arguments txts key ordinal bytes" and "layout_keys keys \<le> length (layout_columns keys)"
  shows "frame_ok keys bytes" and "frame_ordinal bytes = ordinal" and "frame_key bytes = key"
    and "length bytes \<le> max_frame_bytes" and "record_header \<le> length bytes"
proof -
  from assms(1) obtain tag crc where b: "bytes = full_header ordinal (length key) tag (validity_mask 0 arguments) (length arguments) crc
            @ key @ argument_words arguments @ concat (texts_before shape txts (shape_count shape))"
    and g: "validate_row keys key = Inr ()" "length bytes \<le> max_frame_bytes" by (auto simp: frame_of_def)
  have key: "length key < 2 ^ 32" using g(2) max_frame_small unfolding b by simp
  have kl: "frame_key_len bytes = length key" unfolding b by (rule full_header_fields(7) [OF key])
  show fk: "frame_key bytes = key"
    unfolding frame_key_def kl unfolding b by (simp add: slice_append_right) (simp add: slice_def)
  show "frame_ordinal bytes = ordinal" unfolding b by (rule full_header_fields(6) [OF key])
  show "length bytes \<le> max_frame_bytes" "record_header \<le> length bytes" using g(2) by (simp_all add: b)
  have "record_header + frame_key_len bytes \<le> length bytes" unfolding kl unfolding b by simp
  then show "frame_ok keys bytes" using g(1) assms(2) by (simp add: frame_ok_def fk)
qed

text \<open>C36: A frame written by the sorter reads back. A record finished by the encoder over a zeroed
  header and a valid row, with aggregate words, validity and text that obey the shape's masks,
  and found at any offset of a run file, is read by the checking reader as exactly the same
  bytes: magic, layout tag, checksum, row, masks, DATE range and text lengths all pass, the file
  is left alone and the read cache stays consistent.\<close>

theorem written_frames_read_back:
  assumes "finish_with_text tag (length key) ordinal arguments (texts_before shape txts (shape_count shape)) w = Some (Inr r)"
    and "rec_bytes w = replicate record_header 0 @ key" and "shape_layout shape keys = Some tag"
    and "\<not> shape_invalid shape" and "arguments_fit shape arguments txts" and "validate_row keys key = Inr ()"
    and "length key \<le> layout_max_bytes keys" and "rec_limit w \<le> max_frame_bytes"
    and "quiet io" and "reader_ok io reader" and "slot < 2"
    and "slice (io_files io ! slot) offset (length (rec_bytes r)) = rec_bytes r"
    and "offset + length (rec_bytes r) \<le> limit" and "limit \<le> length (io_files io ! slot)"
    and "length (io_files io ! slot) < 2 ^ 64" and "length (rec_bytes r) \<le> rec_limit out"
  shows "\<exists>reader'. read_record slot offset limit keys shape out reader io =
      Some (Inr ((out\<lparr>rec_bytes := rec_bytes r\<rparr>, reader'), io)) \<and> reader_ok io reader'"
proof -
  have "answers True (read_record slot offset limit keys shape out reader io)
    (\<lambda>((r', reader'), io'). r' = out\<lparr>rec_bytes := rec_bytes r\<rparr> \<and> same_host io io' \<and> reads_at slot io' reader')"
    by (rule read_record_answers [OF finish_frame_of [OF assms(1-8)]]) (use assms(9-16) in simp_all)
  then show ?thesis
    using assms(9) by (auto simp: answers_def same_host_def reads_at_def split: option.splits sum.splits)
qed

text \<open>A file that holds one frame and nothing else.\<close>

definition frame_file :: "u8 list \<Rightarrow> scratch_io" where
  "frame_file bytes = \<lparr>io_files = [bytes, []], io_budget = 0, io_polls = [], io_faults = []\<rparr>"

definition row_record :: "u8 list \<Rightarrow> nat \<Rightarrow> sort_record" where
  "row_record bytes limit = \<lparr>rec_bytes = bytes, rec_capacity = limit, rec_limit = limit\<rparr>"

lemma row_arguments_fit [simp]: "arguments_fit row_arguments [] txts" "\<not> shape_invalid row_arguments"
  "texts_before row_arguments txts n = []"
  by (simp_all add: arguments_fit_def shape_invalid_def texts_before_def row_arguments_def)

theorem written_frames_read_back_witness:
  "\<exists>lay tag r. with_keys sample_inputs2 sample_order = Inr lay
    \<and> finish_with_text tag (length (layout_row lay sample_cells)) 7 [] (texts_before row_arguments (\<lambda>_. []) (shape_count row_arguments))
        (row_record (replicate record_header 0 @ layout_row lay sample_cells) 65600) = Some (Inr r)
    \<and> (\<exists>reader'. read_record 0 0 (length (rec_bytes r)) lay row_arguments (row_record [] 65600) new_reader (frame_file (rec_bytes r)) =
        Some (Inr ((row_record [] 65600\<lparr>rec_bytes := rec_bytes r\<rparr>, reader'), frame_file (rec_bytes r)))
      \<and> reader_ok (frame_file (rec_bytes r)) reader')"
proof -
  from sample_layout obtain lay where lay: "with_keys sample_inputs2 sample_order = Inr lay" "layout_max_bytes lay = 65550" by blast
  note facts = layout_row_facts [OF lay(1) sample_inputs_fit(1)]
  let ?key = "layout_row lay sample_cells"
  let ?w = "row_record (replicate record_header 0 @ ?key) 65600"
  obtain tag where tag: "shape_layout row_arguments lay = Some tag" by (simp add: shape_layout_def row_arguments_def)
  have valid: "validate_row lay ?key = Inr ()" using facts(1,2) by (auto simp: validate_row_Inr layout_row_def)
  obtain r where r: "finish_with_text tag (length ?key) 7 [] (texts_before row_arguments (\<lambda>_. []) (shape_count row_arguments)) ?w = Some (Inr r)"
    using facts(2) lay(2)
    by (simp add: finish_with_text_def row_record_def max_aggregate_rows_def record_header_def Let_def)
  have w: "rec_bytes ?w = replicate record_header 0 @ ?key" "rec_limit ?w = 65600" by (simp_all add: row_record_def)
  have fit: "length (rec_bytes r) \<le> 65600" using finish_with_text_Inr [OF r w(1)] w(2) by auto
  have "\<exists>reader'. read_record 0 0 (length (rec_bytes r)) lay row_arguments (row_record [] 65600) new_reader (frame_file (rec_bytes r)) =
        Some (Inr ((row_record [] 65600\<lparr>rec_bytes := rec_bytes r\<rparr>, reader'), frame_file (rec_bytes r)))
      \<and> reader_ok (frame_file (rec_bytes r)) reader'"
    by (rule written_frames_read_back [OF r w(1) tag])
      (use facts(2) lay(2) fit valid in \<open>simp_all add: w(2) frame_file_def quiet_def slice_def row_record_def max_frame_bytes_def
        record_header_def max_row_values_def max_text_bytes_def\<close>)
  with lay(1) r show ?thesis by blast
qed

end
