(* ===== verification/Run_Buffer.thy ===== *)
theory Run_Buffer
  imports Record_Properties
begin

text \<open>
  Initial runs of the external sort (src/execution/blocking.rs): records collect in one arena,
  a bottom-up merge sort reorders spans of it, and the sorted records are appended to the first
  scratch file behind a checksummed header. A step does a bounded amount of work and leaves the
  buffer failed unless it succeeds. \<open>None\<close> is a failed assertion or an index out of bounds.
\<close>

section \<open>Run headers\<close>

record run_id =
  id_pass :: nat
  id_index :: nat

text \<open>The bits of the largest row number.\<close>

definition max_merge_passes :: nat where "max_merge_passes = 27"
definition run_header_bytes :: nat where "run_header_bytes = 40"

definition run_magic :: "u8 list" where
  "run_magic = [0x50, 0x47, 0x52, 0x55, 0x4E, 0x30, 0x30, 0x31]"

definition run_header :: "run_id \<Rightarrow> nat \<Rightarrow> nat \<Rightarrow> db_error + u8 list" where
  "run_header ident rows bytes =
     (if max_merge_passes < id_pass ident \<or> max_aggregate_rows \<le> id_index ident \<or> rows = 0 \<or> max_aggregate_rows < rows
         \<or> bytes < rows * record_header \<or> rows * max_frame_bytes < bytes
      then Inl (Corrupt ''group run shape'')
      else
        let header = run_magic @ u32_bytes (word_of_nat (id_pass ident)) @ u32_bytes (word_of_nat (id_index ident))
              @ u64_bytes (word_of_nat rows) @ u64_bytes (word_of_nat bytes) @ replicate 8 0
        in Inr (put header 32 (u32_bytes (crc32c header))))"

section \<open>The buffer\<close>

record record_span =
  span_start :: nat
  span_end :: nat

datatype run_phase = RunCollect | RunSort | RunHeader | RunWrite | RunDone | RunReleased | RunFailed

record run_buffer =
  run_arena :: "u8 list"
  run_capacity :: nat
  run_spans :: "record_span list"
  run_work :: "record_span list"
  run_byte_limit :: nat
  run_row_limit :: nat
  run_last :: "u64 option"
  run_state :: run_phase
  run_ident :: run_id
  run_width :: nat
  run_left :: nat
  run_middle :: nat
  run_right :: nat
  run_end :: nat
  run_output :: nat

text \<open>The memory of a buffer is admitted by the account before this allocates it.\<close>

definition new_run :: "nat \<Rightarrow> nat \<Rightarrow> db_error + run_buffer" where
  "new_run bytes rows =
     (if bytes < record_header \<or> rows = 0 \<or> max_aggregate_rows < rows then Inl (Corrupt ''group run buffer bounds'')
      else
        attempt (ok_or (buffer_capacity (word_of_nat bytes)) (Corrupt ''blocking buffer allocation capacity'')) (\<lambda>capacity.
          Inr \<lparr>run_arena = [], run_capacity = unat capacity, run_spans = [], run_work = [], run_byte_limit = bytes,
            run_row_limit = rows, run_last = None, run_state = RunCollect, run_ident = \<lparr>id_pass = 0, id_index = 0\<rparr>,
            run_width = 1, run_left = 0, run_middle = 0, run_right = 0, run_end = 0, run_output = 0\<rparr>))"

definition push_run :: "u8 list \<Rightarrow> run_buffer \<Rightarrow> (db_error + bool \<times> run_buffer) option" where
  "push_run bytes r =
     (if run_state r \<noteq> RunCollect then None
      else Some (
        attempt (usize_or (length (run_arena r) + length bytes) (Corrupt ''group run byte growth'')) (\<lambda>end_at.
          if length (run_spans r) = run_row_limit r \<or> run_byte_limit r < end_at then Inr (False, r)
          else if (case run_last r of None \<Rightarrow> False | Some previous \<Rightarrow> frame_ordinal bytes \<le> previous)
          then Inl (Corrupt ''group input ordinal does not advance'')
          else
            attempt (append_bytes (run_capacity r) (run_arena r) bytes) (\<lambda>arena.
              let span = \<lparr>span_start = length (run_arena r), span_end = end_at\<rparr> in
              Inr (True, r\<lparr>run_arena := arena, run_spans := run_spans r @ [span], run_work := run_work r @ [span],
                run_last := Some (frame_ordinal bytes)\<rparr>)))))"

definition start_pair :: "nat \<Rightarrow> run_buffer \<Rightarrow> run_buffer" where
  "start_pair start r =
     (let middle = min (start + run_width r) (length (run_spans r)) in
      r\<lparr>run_left := start, run_middle := middle, run_right := middle,
        run_end := min (middle + run_width r) (length (run_spans r)), run_output := start\<rparr>)"

definition begin_run :: "nat \<Rightarrow> run_buffer \<Rightarrow> (db_error + run_buffer) option" where
  "begin_run index r =
     (if run_state r \<noteq> RunCollect then None
      else
        let r = r\<lparr>run_state := RunFailed, run_ident := \<lparr>id_pass = 0, id_index = index\<rparr>\<rparr> in
        Some (attempt (run_header (run_ident r) (length (run_spans r)) (length (run_arena r))) (\<lambda>_.
          let r = start_pair 0 (r\<lparr>run_width := 1\<rparr>) in
          Inr (r\<lparr>run_state := (if length (run_spans r) = 1 then RunHeader else RunSort)\<rparr>))))"

section \<open>Sorting\<close>

definition span_slice :: "u8 list \<Rightarrow> record_span \<Rightarrow> u8 list option" where
  "span_slice bytes s =
     (if span_start s \<le> span_end s \<and> span_end s \<le> length bytes
      then Some (slice bytes (span_start s) (span_end s - span_start s)) else None)"

definition compare_spans :: "row_layout \<Rightarrow> run_buffer \<Rightarrow> record_span \<Rightarrow> record_span \<Rightarrow> (db_error + ordering) option" where
  "compare_spans keys r a b =
     Option.bind (span_slice (run_arena r) a) (\<lambda>left. Option.bind (span_slice (run_arena r) b) (\<lambda>right.
       compare_encoded keys left right))"

definition batch_rows :: nat where "batch_rows = 256"
definition comparison_budget :: nat where "comparison_budget = 65536"

text \<open>
  Which side the next move takes and the comparison bytes left after it; \<open>Inr None\<close> yields
  to the caller because the next comparison would pass the budget.
\<close>

definition choose_left ::
    "row_layout \<Rightarrow> nat \<Rightarrow> run_buffer \<Rightarrow> (db_error + (bool \<times> nat) option) option" where
  "choose_left keys remaining r =
     (if run_left r < run_middle r \<and> run_right r < run_end r
      then
        if length (run_spans r) \<le> run_left r \<or> length (run_spans r) \<le> run_right r then None
        else
          let left = run_spans r ! run_left r; right = run_spans r ! run_right r;
              input_limit = record_header + layout_key_max_bytes keys;
              bytes = min input_limit (span_end left - span_start left) + min input_limit (span_end right - span_start right)
          in if remaining < bytes \<and> remaining \<noteq> comparison_budget then Some (Inr None)
             else map_option (map_sum id (\<lambda>ord. Some (ord \<noteq> OrderGreater, remaining - bytes))) (compare_spans keys r left right)
      else Some (Inr (Some (run_left r < run_middle r, remaining))))"

definition move_span :: "bool \<Rightarrow> run_buffer \<Rightarrow> run_buffer option" where
  "move_span take_left r =
     (let at = (if take_left then run_left r else run_right r) in
      if length (run_spans r) \<le> at \<or> length (run_work r) \<le> run_output r then None
      else Some ((if take_left then r\<lparr>run_left := run_left r + 1\<rparr> else r\<lparr>run_right := run_right r + 1\<rparr>)
             \<lparr>run_work := (run_work r)[run_output r := run_spans r ! at], run_output := run_output r + 1\<rparr>))"

definition finish_pair :: "run_buffer \<Rightarrow> run_buffer" where
  "finish_pair r =
     (if run_output r \<noteq> run_end r then r
      else if run_end r = length (run_spans r)
      then start_pair 0 (r\<lparr>run_spans := run_work r, run_work := run_spans r, run_width := run_width r * 2\<rparr>)
      else start_pair (run_end r) r)"

fun sort_moves :: "row_layout \<Rightarrow> nat \<Rightarrow> nat \<Rightarrow> run_buffer \<Rightarrow> scratch_io \<Rightarrow> (run_buffer \<times> (db_error + scratch_io)) option" where
  "sort_moves keys 0 remaining r io = Some (r, Inr io)"
| "sort_moves keys (Suc moves) remaining r io =
     (case poll io of
        Inl e \<Rightarrow> Some (r, Inl e)
      | Inr io \<Rightarrow>
          Option.bind (choose_left keys remaining r) (\<lambda>choice.
            case choice of
              Inl e \<Rightarrow> Some (r, Inl e)
            | Inr None \<Rightarrow> Some (r, Inr io)
            | Inr (Some (take_left, remaining)) \<Rightarrow>
                Option.bind (move_span take_left r) (\<lambda>r.
                  let r = finish_pair r in
                  if length (run_spans r) \<le> run_width r then Some (r, Inr io)
                  else sort_moves keys moves remaining r io)))"

section \<open>Steps\<close>

type_synonym run_result = "run_buffer \<times> (db_error + bool \<times> write_buffer \<times> scratch_io)"

text \<open>An append, continued with the phase it leads to; an error leaves the buffer failed.\<close>

definition appending ::
    "(db_error + write_buffer \<times> scratch_io) option \<Rightarrow> run_buffer \<Rightarrow> run_buffer \<Rightarrow> run_result option" where
  "appending result failed r =
     map_option (\<lambda>res. case res of
       Inl e \<Rightarrow> (failed, Inl e)
     | Inr (w, io) \<Rightarrow> (r, Inr (run_state r = RunDone, w, io))) result"

definition step_run :: "row_layout \<Rightarrow> run_buffer \<Rightarrow> write_buffer \<Rightarrow> scratch_io \<Rightarrow> run_result option" where
  "step_run keys r w io =
     (if run_state r = RunDone then Some (r, Inr (True, w, io))
      else
        let failed = r\<lparr>run_state := RunFailed\<rparr> in
        case poll io of
          Inl e \<Rightarrow> Some (failed, Inl e)
        | Inr io \<Rightarrow>
            (case run_state r of
               RunSort \<Rightarrow>
                 map_option (\<lambda>(r, res). case res of
                   Inl e \<Rightarrow> (r, Inl e)
                 | Inr io \<Rightarrow>
                     (r\<lparr>run_state := (if length (run_spans r) \<le> run_width r then RunHeader else RunSort)\<rparr>, Inr (False, w, io)))
                   (sort_moves keys batch_rows comparison_budget failed io)
             | RunHeader \<Rightarrow>
                 (case run_header (run_ident r) (length (run_spans r)) (length (run_arena r)) of
                    Inl e \<Rightarrow> Some (failed, Inl e)
                  | Inr header \<Rightarrow> appending (append_output 0 header w io) failed (r\<lparr>run_output := 0, run_state := RunWrite\<rparr>))
             | RunWrite \<Rightarrow>
                 if length (run_spans r) \<le> run_output r then None
                 else
                   Option.bind (span_slice (run_arena r) (run_spans r ! run_output r)) (\<lambda>bytes.
                     appending (append_output 0 bytes w io) failed
                       (r\<lparr>run_output := run_output r + 1,
                         run_state := (if run_output r + 1 = length (run_spans r) then RunDone else RunWrite)\<rparr>))
             | _ \<Rightarrow> Some (failed, Inl (Corrupt ''run sorting is not active''))))"

definition clear_run :: "run_buffer \<Rightarrow> run_buffer option" where
  "clear_run r =
     (if run_state r \<noteq> RunDone then None
      else Some (r\<lparr>run_arena := [], run_spans := [], run_work := [], run_last := None, run_state := RunCollect\<rparr>))"

definition release_run :: "run_buffer \<Rightarrow> run_buffer option" where
  "release_run r =
     (if run_state r \<noteq> RunCollect \<or> run_spans r \<noteq> [] then None
      else Some (r\<lparr>run_arena := [], run_capacity := 0, run_spans := [], run_work := [], run_state := RunReleased\<rparr>))"

section \<open>Growth\<close>

datatype run_growth = GrowBytes nat | GrowRows nat nat

definition growth_after_write :: "run_buffer \<Rightarrow> db_error + run_growth option" where
  "growth_after_write r =
     (if run_state r \<noteq> RunWrite \<or> run_output r + 1 \<noteq> length (run_spans r) then Inr None
      else
        let rows = length (run_spans r); width = (length (run_arena r) + rows - 1) div rows in
        if run_row_limit r div 2 < rows
        then
          if run_row_limit r < 4096 \<or> 16384 \<le> run_row_limit r then Inr None
          else
            attempt (usize_or (width * (run_row_limit r * 2)) (Corrupt ''optional run row target'')) (\<lambda>bytes.
              Inr (Some (GrowRows (max bytes (run_byte_limit r)) (run_row_limit r * 2))))
        else
          attempt (usize_or (width * run_row_limit r) (Corrupt ''optional run byte target'')) (\<lambda>target.
            Inr (if run_byte_limit r < target then Some (GrowBytes target) else None)))"

end
