(* ===== verification/Merge_Sort.thy ===== *)
theory Merge_Sort
  imports Sort_Order
begin

text \<open>
  Bottom-up merge sort over a comparison: one pass merges neighbouring sorted chunks, and passes
  repeat with doubled chunks until one chunk is left. The state of a pass in progress is the part
  already merged, the pair of chunks under way and the chunks still to come. The run buffer and
  the merge of run files in src/execution/blocking.rs follow it.
\<close>

section \<open>Cost\<close>

text \<open>The moves that are left when chunks have width \<open>w\<close>.\<close>

function sort_cost :: "nat \<Rightarrow> nat \<Rightarrow> nat" where
  "sort_cost w n = (if w = 0 \<or> n \<le> w then 0 else n + sort_cost (2 * w) n)"
  by pat_completeness auto
termination
  by (relation "measure (\<lambda>(w, n). n - w)") auto

declare sort_cost.simps [simp del]

lemma sort_cost_done: "n \<le> w \<Longrightarrow> sort_cost w n = 0"
  by (subst sort_cost.simps) simp

lemma sort_cost_step: "0 < w \<Longrightarrow> w < n \<Longrightarrow> sort_cost w n = n + sort_cost (2 * w) n"
  by (subst sort_cost.simps) simp

lemma sort_cost_bound: "n \<le> w * 2 ^ k \<Longrightarrow> sort_cost w n \<le> n * k"
proof (induction k arbitrary: w)
  case (Suc k)
  show ?case
  proof (cases "0 < w \<and> w < n")
    case True
    with Suc.IH [of "2 * w"] Suc.prems show ?thesis by (simp add: sort_cost_step)
  next
    case False
    then show ?thesis by (subst sort_cost.simps) auto
  qed
qed (simp add: sort_cost_done)

section \<open>Pieces of a list\<close>

definition piece :: "'a list \<Rightarrow> nat \<Rightarrow> nat \<Rightarrow> 'a list" where
  "piece xs i j = take (j - i) (drop i xs)"

lemma piece_Nil [simp]: "j \<le> i \<Longrightarrow> piece xs i j = []"
  by (simp add: piece_def)

lemma piece_Cons: "i < j \<Longrightarrow> j \<le> length xs \<Longrightarrow> piece xs i j = xs ! i # piece xs (Suc i) j"
  by (simp add: piece_def Cons_nth_drop_Suc [symmetric] take_Cons' del: take_Suc_Cons)

lemma take_update_next: "i < length xs \<Longrightarrow> take (Suc i) (xs[i := x]) = take i xs @ [x]"
  by (simp add: take_Suc_conv_app_nth)

section \<open>Passes\<close>

context comparison_order
begin

lemma merge_Nil2 [simp]: "merge_lists xs [] = xs"
  by (cases xs) simp_all

function merge_pass :: "nat \<Rightarrow> 'a list \<Rightarrow> 'a list" where
  "merge_pass w xs =
     (if w = 0 \<or> length xs \<le> w then xs
      else merge_lists (take w xs) (take w (drop w xs)) @ merge_pass w (drop (2 * w) xs))"
  by pat_completeness auto
termination
  by (relation "measure (\<lambda>(w, xs). length xs)") auto

declare merge_pass.simps [simp del]

lemma merge_pass_done: "length xs \<le> w \<Longrightarrow> merge_pass w xs = xs"
  by (subst merge_pass.simps) simp

lemma merge_pass_step:
  "0 < w \<Longrightarrow> w < length xs \<Longrightarrow>
     merge_pass w xs = merge_lists (take w xs) (take w (drop w xs)) @ merge_pass w (drop (2 * w) xs)"
  by (subst merge_pass.simps) simp

lemma mset_merge_pass: "mset (merge_pass w xs) = mset xs"
proof (induction w xs rule: merge_pass.induct)
  case (1 w xs)
  show ?case
  proof (cases "w = 0 \<or> length xs \<le> w")
    case True
    then show ?thesis by (subst merge_pass.simps) simp
  next
    case False
    have "xs = take w xs @ take w (drop w xs) @ drop (2 * w) xs"
      by (metis append_take_drop_id drop_drop mult_2)
    then have "mset xs = mset (take w xs) + mset (take w (drop w xs)) + mset (drop (2 * w) xs)"
      by (metis mset_append add.assoc)
    with False 1 show ?thesis by (simp add: merge_pass_step)
  qed
qed

lemma length_merge_pass [simp]: "length (merge_pass w xs) = length xs"
  by (metis mset_merge_pass size_mset)

lemma set_merge_pass [simp]: "set (merge_pass w xs) = set xs"
  by (metis mset_merge_pass set_mset_mset)

definition chunks_sorted :: "nat \<Rightarrow> 'a list \<Rightarrow> bool" where
  "chunks_sorted w xs \<longleftrightarrow> (\<forall>k. sorted_wrt le (take w (drop (k * w) xs)))"

lemma chunks_sorted_one: "chunks_sorted 1 xs"
proof -
  have "sorted_wrt le (take 1 (drop k xs))" for k by (cases "drop k xs") simp_all
  then show ?thesis by (simp add: chunks_sorted_def)
qed

lemma chunks_sorted_drop: "chunks_sorted w xs \<Longrightarrow> chunks_sorted w (drop (m * w) xs)"
  unfolding chunks_sorted_def by (metis add_mult_distrib drop_drop)

lemma chunks_sorted_whole: "chunks_sorted w xs \<Longrightarrow> length xs \<le> w \<Longrightarrow> sorted_wrt le xs"
  by (force simp: chunks_sorted_def dest: spec [of _ 0])

lemma chunks_sorted_append:
  assumes "sorted_wrt le xs" and "length xs = w \<or> ys = []" and "length xs \<le> w" and "chunks_sorted w ys"
  shows "chunks_sorted w (xs @ ys)"
  unfolding chunks_sorted_def
proof
  fix k
  show "sorted_wrt le (take w (drop (k * w) (xs @ ys)))"
  proof (cases k)
    case 0
    with assms show ?thesis by auto
  next
    case (Suc j)
    have "sorted_wrt le (take w (drop (j * w) ys))" using assms(4) by (simp add: chunks_sorted_def)
    with assms(2,3) Suc show ?thesis by auto
  qed
qed

lemma chunks_sorted_merge_pass:
  "0 < w \<Longrightarrow> \<forall>x \<in> set xs. ok x \<Longrightarrow> chunks_sorted w xs \<Longrightarrow> chunks_sorted (2 * w) (merge_pass w xs)"
proof (induction w xs rule: merge_pass.induct)
  case (1 w xs)
  show ?case
  proof (cases "length xs \<le> w")
    case True
    have "sorted_wrt le xs" using chunks_sorted_whole 1(4) True by blast
    from chunks_sorted_append [OF this, of "2 * w" "[]"] True show ?thesis
      by (simp add: merge_pass_done chunks_sorted_def)
  next
    case False
    let ?a = "take w xs" and ?b = "take w (drop w xs)" and ?rest = "drop (2 * w) xs"
    have sorted: "sorted_wrt le ?a" "sorted_wrt le ?b"
      using 1(4) chunks_sorted_def [of w xs] by (force dest: spec [of _ 0], force dest: spec [of _ 1])
    have ok_ab: "\<forall>x \<in> set ?a \<union> set ?b. ok x" "\<forall>x \<in> set ?rest. ok x"
      using 1(3) by (auto dest: in_set_takeD in_set_dropD)
    from False 1(2) have guard: "\<not> (w = 0 \<or> length xs \<le> w)" by simp
    have "chunks_sorted (2 * w) (merge_pass w ?rest)"
      using 1(1) [OF guard 1(2) ok_ab(2)] chunks_sorted_drop [OF 1(4), of 2] by simp
    moreover have "length (merge_lists ?a ?b) = 2 * w \<or> merge_pass w ?rest = []"
    proof (cases "2 * w \<le> length xs")
      case False
      then have "?rest = []" by simp
      then show ?thesis by (simp add: merge_pass_done)
    qed auto
    moreover have "length (merge_lists ?a ?b) \<le> 2 * w" by simp
    ultimately show ?thesis
      using False 1(2) chunks_sorted_append [OF sorted_merge [OF ok_ab(1) sorted]] by (simp add: merge_pass_step)
  qed
qed

function sort_result :: "nat \<Rightarrow> 'a list \<Rightarrow> 'a list" where
  "sort_result w xs = (if w = 0 \<or> length xs \<le> w then xs else sort_result (2 * w) (merge_pass w xs))"
  by pat_completeness auto
termination
  by (relation "measure (\<lambda>(w, xs). length xs - w)") auto

declare sort_result.simps [simp del]

lemma sort_result_done: "length xs \<le> w \<Longrightarrow> sort_result w xs = xs"
  by (subst sort_result.simps) simp

lemma sort_result_step: "0 < w \<Longrightarrow> w < length xs \<Longrightarrow> sort_result w xs = sort_result (2 * w) (merge_pass w xs)"
  by (subst sort_result.simps) simp

lemma sort_result_sorts:
  "0 < w \<Longrightarrow> \<forall>x \<in> set xs. ok x \<Longrightarrow> chunks_sorted w xs \<Longrightarrow>
     sorted_wrt le (sort_result w xs) \<and> mset (sort_result w xs) = mset xs"
proof (induction w xs rule: sort_result.induct)
  case (1 w xs)
  show ?case
  proof (cases "length xs \<le> w")
    case True
    with 1(4) show ?thesis by (simp add: sort_result_done chunks_sorted_whole)
  next
    case False
    then have guard: "\<not> (w = 0 \<or> length xs \<le> w)" using 1(2) by simp
    from 1(1) [OF guard] 1(2-4) False show ?thesis
      by (simp add: sort_result_step chunks_sorted_merge_pass mset_merge_pass)
  qed
qed

section \<open>A pass in progress\<close>

definition pair_state ::
    "nat \<Rightarrow> 'a list \<Rightarrow> 'a list \<Rightarrow> nat \<Rightarrow> nat \<Rightarrow> nat \<Rightarrow> nat \<Rightarrow> nat \<Rightarrow> bool" where
  "pair_state w xs merged left middle right stop output \<longleftrightarrow>
     left \<le> middle \<and> middle \<le> right \<and> right \<le> stop \<and> stop \<le> length xs \<and> length merged = length xs
     \<and> output + middle = left + right
     \<and> take output merged @ merge_lists (piece xs left middle) (piece xs right stop) @ merge_pass w (drop stop xs)
         = merge_pass w xs"

lemma pair_state_start:
  assumes "0 < w" and "at < length xs" and "length merged = length xs"
    and "take at merged @ merge_pass w (drop at xs) = merge_pass w xs"
  shows "pair_state w xs merged at (min (at + w) (length xs)) (min (at + w) (length xs))
    (min (min (at + w) (length xs) + w) (length xs)) at"
proof -
  have "merge_lists (piece xs at (min (at + w) (length xs)))
      (piece xs (min (at + w) (length xs)) (min (min (at + w) (length xs) + w) (length xs)))
      @ merge_pass w (drop (min (min (at + w) (length xs) + w) (length xs)) xs) = merge_pass w (drop at xs)"
  proof (cases "at + w < length xs")
    case True
    show ?thesis
    proof (cases "at + w + w < length xs")
      case fits: True
      with True assms(1) show ?thesis
        by (simp add: piece_def merge_pass_step add.commute add.left_commute mult_2)
    next
      case False
      with True assms(1) show ?thesis
        by (simp add: piece_def merge_pass_step merge_pass_done add.commute add.left_commute mult_2)
    qed
  next
    case False
    with assms(2) show ?thesis by (simp add: piece_def merge_pass_done)
  qed
  with assms show ?thesis by (simp add: pair_state_def)
qed

lemma pair_state_left:
  assumes "pair_state w xs merged left middle right stop output" and "left < middle"
    and "right < stop \<Longrightarrow> cmp (xs ! left) (xs ! right) \<noteq> OrderGreater"
  shows "pair_state w xs (merged[output := xs ! left]) (Suc left) middle right stop (Suc output)"
proof -
  note p = assms(1) [unfolded pair_state_def]
  have out: "output < length merged" using p assms(2) by linarith
  have "merge_lists (piece xs left middle) (piece xs right stop)
      = xs ! left # merge_lists (piece xs (Suc left) middle) (piece xs right stop)"
  proof (cases "right < stop")
    case True
    then show ?thesis using p assms(2,3) by (simp add: piece_Cons)
  qed (use p assms(2) in \<open>simp add: piece_Cons\<close>)
  with p assms(2) out show ?thesis by (simp add: pair_state_def take_update_next)
qed

lemma pair_state_right:
  assumes "pair_state w xs merged left middle right stop output" and "right < stop"
    and "left < middle \<Longrightarrow> cmp (xs ! left) (xs ! right) = OrderGreater"
  shows "pair_state w xs (merged[output := xs ! right]) left middle (Suc right) stop (Suc output)"
proof -
  note p = assms(1) [unfolded pair_state_def]
  have out: "output < length merged" using p assms(2) by linarith
  have "merge_lists (piece xs left middle) (piece xs right stop)
      = xs ! right # merge_lists (piece xs left middle) (piece xs (Suc right) stop)"
  proof (cases "left < middle")
    case True
    then show ?thesis using p assms(2,3) by (simp add: piece_Cons)
  qed (use p assms(2) in \<open>simp add: piece_Cons\<close>)
  with p assms(2) out show ?thesis by (simp add: pair_state_def take_update_next)
qed

lemma pair_state_end:
  assumes "pair_state w xs merged left middle right stop stop"
  shows "take stop merged @ merge_pass w (drop stop xs) = merge_pass w xs"
proof -
  have "left = middle" "right = stop" using assms by (auto simp: pair_state_def)
  with assms show ?thesis by (simp add: pair_state_def)
qed

end

end
