(* ===== verification/Run_Sort.thy ===== *)
theory Run_Sort
  imports Run_Buffer Merge_Sort
begin

text \<open>
  The run buffer sorts its records: every step keeps the spans a stage of the bottom-up merge sort
  and the output a prefix of the finished run, whatever the host does, and on a host that
  grants every request the steps end after a number bounded by the rows and their logarithm.
\<close>

section \<open>Appending\<close>

text \<open>The temporary space one file could use, counting what it already holds.\<close>

definition space :: "nat \<Rightarrow> scratch_io \<Rightarrow> nat" where
  "space slot io = io_budget io + length (io_files io ! slot)"

lemma space_update [simp]: "space slot (io\<lparr>io_polls := ps\<rparr>) = space slot io"
  by (simp add: space_def)

lemma append_output_Inr:
  assumes "append_output slot input w io = Some (Inr (w', io'))" and "writer_ok slot w io"
  shows "writer_ok slot w' io' \<and> content slot w' io' = content slot w io @ input \<and> only_slot slot io io'"
  using assms append_loop_Inr [of slot input w io w' io'] by (simp add: append_output_def split: if_splits)

lemma append_output_not_None: "writer_ok slot w io \<Longrightarrow> append_output slot input w io \<noteq> None"
  using append_loop_not_None [of slot w io input] by (simp add: append_output_def)

lemma append_output_quiet:
  assumes "quiet io" and "writer_ok slot w io" and "slot < 2" and "length input \<le> max_frame_bytes"
    and "length (content slot w io) + length input \<le> space slot io" and "space slot io < 2 ^ 64"
  shows "\<exists>w' io'. append_output slot input w io = Some (Inr (w', io')) \<and> quiet io' \<and> space slot io' = space slot io"
proof -
  have "length (content slot w io) + length input < 2 ^ 64" "length (wb_bytes w) + length input \<le> io_budget io"
    using assms(5,6) by (simp_all add: space_def content_def)
  from append_loop_quiet [OF assms(1,2) this] obtain w' io' where
    a: "append_loop slot input w io = Some (Inr (w', io'))" "quiet io'"
      "io_budget io' + length (content slot w io) + length input = io_budget io + length (io_files io ! slot) + length (wb_bytes w')"
    by blast
  have "content slot w' io' = content slot w io @ input" using append_loop_Inr [OF a(1) assms(2)] by simp
  then have "length (io_files io' ! slot) + length (wb_bytes w') = length (content slot w io) + length input"
    by (metis content_def length_append)
  then have "space slot io' = space slot io" using a(3) by (simp add: space_def)
  with a assms(3,4) show ?thesis by (simp add: append_output_def)
qed

section \<open>Spans\<close>

definition span_bytes :: "u8 list \<Rightarrow> record_span \<Rightarrow> u8 list" where
  "span_bytes bytes s = slice bytes (span_start s) (span_end s - span_start s)"

definition span_ok :: "row_layout \<Rightarrow> u8 list \<Rightarrow> record_span \<Rightarrow> bool" where
  "span_ok keys bytes s \<longleftrightarrow>
     span_start s \<le> span_end s \<and> span_end s \<le> length bytes \<and> frame_ok keys (span_bytes bytes s)
     \<and> length (span_bytes bytes s) \<le> max_frame_bytes"

definition span_order :: "row_layout \<Rightarrow> u8 list \<Rightarrow> record_span \<Rightarrow> record_span \<Rightarrow> ordering" where
  "span_order keys bytes a b = frame_order keys (span_bytes bytes a) (span_bytes bytes b)"

lemma spans_comparison: "comparison_order (span_order keys bytes) (span_ok keys bytes)"
  unfolding span_order_def by (rule comparison_order.on [OF frames_comparison]) (simp add: span_ok_def)

interpretation spans: comparison_order "span_order keys bytes" "span_ok keys bytes" for keys bytes
  by (rule spans_comparison)

lemma span_slice_ok: "span_ok keys bytes s \<Longrightarrow> span_slice bytes s = Some (span_bytes bytes s)"
  by (simp add: span_ok_def span_slice_def span_bytes_def)

lemma compare_spans_ok:
  "span_ok keys (run_arena r) a \<Longrightarrow> span_ok keys (run_arena r) b \<Longrightarrow>
     compare_spans keys r a b = Some (Inr (span_order keys (run_arena r) a b))"
  using frame_order_ok [of keys "span_bytes (run_arena r) a" "span_bytes (run_arena r) b"]
  by (simp add: compare_spans_def span_slice_ok span_order_def) (simp add: span_ok_def)

section \<open>Sorting\<close>

text \<open>The spans in the order the sort will leave them.\<close>

definition sort_inv :: "row_layout \<Rightarrow> record_span list \<Rightarrow> run_buffer \<Rightarrow> bool" where
  "sort_inv keys final r \<longleftrightarrow>
     run_spans r \<noteq> [] \<and> length (run_work r) = length (run_spans r) \<and> 0 < run_width r
     \<and> (\<forall>s \<in> set (run_spans r). span_ok keys (run_arena r) s)
     \<and> spans.sort_result keys (run_arena r) (run_width r) (run_spans r) = final
     \<and> (run_width r < length (run_spans r) \<longrightarrow>
          run_output r < run_end r
          \<and> spans.pair_state keys (run_arena r) (run_width r) (run_spans r) (run_work r)
              (run_left r) (run_middle r) (run_right r) (run_end r) (run_output r))"

definition moves_left :: "run_buffer \<Rightarrow> nat" where
  "moves_left r = sort_cost (run_width r) (length (run_spans r)) - run_output r"

lemma moves_left_state [simp]: "moves_left (r\<lparr>run_state := st\<rparr>) = moves_left r"
  by (simp add: moves_left_def)

text \<open>A move keeps everything but the positions and the spans.\<close>

definition same_run :: "run_buffer \<Rightarrow> run_buffer \<Rightarrow> bool" where
  "same_run r r' \<longleftrightarrow>
     run_arena r' = run_arena r \<and> run_ident r' = run_ident r \<and> run_state r' = run_state r
     \<and> length (run_spans r') = length (run_spans r)"

lemma same_run_refl [simp]: "same_run r r"
  by (simp add: same_run_def)

lemma same_run_trans: "same_run a b \<Longrightarrow> same_run b c \<Longrightarrow> same_run a c"
  by (simp add: same_run_def)

lemma start_pair_inv:
  assumes "run_spans r \<noteq> []" and "length (run_work r) = length (run_spans r)" and "0 < run_width r"
    and "\<forall>s \<in> set (run_spans r). span_ok keys (run_arena r) s"
    and "spans.sort_result keys (run_arena r) (run_width r) (run_spans r) = final"
    and "at < length (run_spans r)"
    and "take at (run_work r) @ spans.merge_pass keys (run_arena r) (run_width r) (drop at (run_spans r))
      = spans.merge_pass keys (run_arena r) (run_width r) (run_spans r)"
  shows "sort_inv keys final (start_pair at r)"
proof -
  have "at < min (at + run_width r) (length (run_spans r)) + run_width r" using assms(3,6) by linarith
  with spans.pair_state_start [OF assms(3,6,2,7)] assms show ?thesis
    by (simp add: sort_inv_def start_pair_def Let_def)
qed

lemma move_span_inv:
  assumes inv: "sort_inv keys final r" and width: "run_width r < length (run_spans r)"
    and side: "take_left = (run_left r < run_middle r \<and> (run_right r < run_end r \<longrightarrow>
      span_order keys (run_arena r) (run_spans r ! run_left r) (run_spans r ! run_right r) \<noteq> OrderGreater))"
  shows "\<exists>r'. move_span take_left r = Some r' \<and> same_run r r' \<and> run_spans r' = run_spans r \<and> run_width r' = run_width r
    \<and> run_output r' = Suc (run_output r) \<and> run_end r' = run_end r
    \<and> spans.pair_state keys (run_arena r) (run_width r) (run_spans r) (run_work r')
        (run_left r') (run_middle r') (run_right r') (run_end r) (run_output r')"
proof -
  let ?p = "spans.pair_state keys (run_arena r) (run_width r) (run_spans r)"
  have p: "?p (run_work r) (run_left r) (run_middle r) (run_right r) (run_end r) (run_output r)" "run_output r < run_end r"
    using inv width by (simp_all add: sort_inv_def)
  note b = p(1) [unfolded spans.pair_state_def]
  have room: "run_output r < length (run_work r)" "run_end r \<le> length (run_spans r)" using b p(2) by simp_all
  have some: "run_left r < run_middle r \<or> run_right r < run_end r" using b p(2) by linarith
  show ?thesis
  proof (cases take_left)
    case True
    with side have left: "run_left r < run_middle r" by simp
    have "?p ((run_work r)[run_output r := run_spans r ! run_left r]) (Suc (run_left r)) (run_middle r) (run_right r)
        (run_end r) (Suc (run_output r))"
      by (rule spans.pair_state_left [OF p(1) left]) (use side True in simp)
    with True left b room show ?thesis by (simp add: move_span_def same_run_def Let_def)
  next
    case False
    with side some have right: "run_right r < run_end r" by auto
    have "?p ((run_work r)[run_output r := run_spans r ! run_right r]) (run_left r) (run_middle r) (Suc (run_right r))
        (run_end r) (Suc (run_output r))"
      by (rule spans.pair_state_right [OF p(1) right]) (use side False right in auto)
    with False right b room show ?thesis by (simp add: move_span_def same_run_def Let_def)
  qed
qed

lemma finish_pair_inv:
  assumes inv: "sort_inv keys final r" and width: "run_width r < length (run_spans r)"
    and same: "same_run r r'" "run_spans r' = run_spans r" "run_width r' = run_width r"
      "run_output r' = Suc (run_output r)" "run_end r' = run_end r"
    and pair: "spans.pair_state keys (run_arena r) (run_width r) (run_spans r) (run_work r')
        (run_left r') (run_middle r') (run_right r') (run_end r) (run_output r')"
  shows "sort_inv keys final (finish_pair r') \<and> same_run r (finish_pair r')
    \<and> moves_left r = Suc (moves_left (finish_pair r'))"
proof -
  let ?n = "length (run_spans r)" and ?w = "run_width r"
  let ?pass = "spans.merge_pass keys (run_arena r) ?w"
  note i = inv [unfolded sort_inv_def] and b = pair [unfolded spans.pair_state_def]
  have arena: "run_arena r' = run_arena r" and work: "length (run_work r') = ?n" using same(1) b by (simp_all add: same_run_def)
  have out: "run_output r < run_end r" "run_end r \<le> ?n" using i width b by simp_all
  have cost: "sort_cost ?w ?n = ?n + sort_cost (2 * ?w) ?n" by (rule sort_cost_step) (use i width in simp_all)
  consider "run_output r' \<noteq> run_end r" | "run_output r' = run_end r" "run_end r < ?n" | "run_output r' = run_end r" "run_end r = ?n"
    using out(2) by linarith
  then show ?thesis
  proof cases
    case 1
    with same pair i out width cost show ?thesis
      by (simp add: finish_pair_def sort_inv_def moves_left_def same_run_def arena work)
  next
    case 2
    have eq: "take (run_end r) (run_work r') @ ?pass (drop (run_end r) (run_spans r)) = ?pass (run_spans r)"
      using pair unfolding 2(1) by (rule spans.pair_state_end)
    have "sort_inv keys final (start_pair (run_end r) r')"
      by (rule start_pair_inv) (use i 2 eq same arena work in simp_all)
    with 2 same out cost width show ?thesis
      by (simp add: finish_pair_def moves_left_def same_run_def start_pair_def Let_def)
  next
    case 3
    have eq: "run_work r' = ?pass (run_spans r)"
      using spans.pair_state_end [of keys "run_arena r" ?w "run_spans r" "run_work r'" "run_left r'" "run_middle r'"
          "run_right r'" "run_end r"] pair 3 work by (simp add: spans.merge_pass_done)
    let ?s = "r'\<lparr>run_spans := run_work r', run_work := run_spans r', run_width := run_width r' * 2\<rparr>"
    have final: "spans.sort_result keys (run_arena r) (2 * ?w) (run_work r') = final"
      using i width spans.sort_result_step [of ?w "run_spans r" keys "run_arena r"] by (simp add: eq)
    have "run_work r' \<noteq> []" using work i by (cases "run_work r'") auto
    then have "sort_inv keys final (start_pair 0 ?s)"
      by (intro start_pair_inv) (use i final same arena work eq in \<open>simp_all add: mult.commute\<close>)
    with 3 same out cost width work show ?thesis
      by (simp add: finish_pair_def moves_left_def same_run_def start_pair_def Let_def mult.commute)
  qed
qed

section \<open>Bounded steps\<close>

lemma poll_facts: "poll io = Inr io' \<Longrightarrow>
    io_files io' = io_files io \<and> space slot io' = space slot io \<and> (quiet io \<longrightarrow> io' = io)"
  by (auto simp: poll_def quiet_def split: list.splits if_splits)

lemma sort_inv_span:
  assumes "sort_inv keys final r" and "at < length (run_spans r)"
  shows "span_ok keys (run_arena r) (run_spans r ! at)"
  using assms by (simp add: sort_inv_def)

text \<open>A choice never fails; it yields only when some comparison was already paid for.\<close>

lemma choose_left_inv:
  assumes inv: "sort_inv keys final r" and width: "run_width r < length (run_spans r)"
  shows "(choose_left keys remaining r = Some (Inr None) \<and> remaining \<noteq> comparison_budget)
    \<or> (\<exists>remaining'. choose_left keys remaining r = Some (Inr (Some
        (run_left r < run_middle r \<and> (run_right r < run_end r \<longrightarrow>
          span_order keys (run_arena r) (run_spans r ! run_left r) (run_spans r ! run_right r) \<noteq> OrderGreater), remaining'))))"
proof (cases "run_left r < run_middle r \<and> run_right r < run_end r")
  case True
  have p: "spans.pair_state keys (run_arena r) (run_width r) (run_spans r) (run_work r)
      (run_left r) (run_middle r) (run_right r) (run_end r) (run_output r)"
    using inv width by (simp add: sort_inv_def)
  then have at: "run_left r < length (run_spans r)" "run_right r < length (run_spans r)"
    using True by (auto simp: spans.pair_state_def)
  from compare_spans_ok [OF sort_inv_span [OF inv at(1)] sort_inv_span [OF inv at(2)]] True at show ?thesis
    by (simp add: choose_left_def Let_def)
next
  case False
  then show ?thesis by (auto simp: choose_left_def)
qed

lemma sort_moves_inv:
  assumes "sort_inv keys final r" and "run_width r < length (run_spans r)"
  shows "case sort_moves keys moves remaining r io of
      None \<Rightarrow> False
    | Some (r', res) \<Rightarrow> sort_inv keys final r' \<and> same_run r r' \<and> moves_left r' \<le> moves_left r
        \<and> (case res of
             Inl e \<Rightarrow> \<not> quiet io
           | Inr io' \<Rightarrow> io_files io' = io_files io \<and> space 0 io' = space 0 io \<and> (quiet io \<longrightarrow> io' = io)
               \<and> (0 < moves \<and> remaining = comparison_budget \<longrightarrow> moves_left r' < moves_left r))"
  using assms
proof (induction moves arbitrary: r io remaining)
  case 0
  then show ?case by simp
next
  case (Suc moves)
  show ?case
  proof (cases "poll io")
    case (Inl e)
    with Suc.prems show ?thesis by (simp add: poll_quiet)
  next
    case (Inr io1)
    note p = poll_facts [OF Inr, of 0]
    show ?thesis
    proof (cases "choose_left keys remaining r = Some (Inr None)")
      case True
      with choose_left_inv [OF Suc.prems, of remaining] Inr p Suc.prems show ?thesis by simp
    next
      case False
      let ?left = "run_left r < run_middle r \<and> (run_right r < run_end r \<longrightarrow>
          span_order keys (run_arena r) (run_spans r ! run_left r) (run_spans r ! run_right r) \<noteq> OrderGreater)"
      from choose_left_inv [OF Suc.prems, of remaining] False obtain remaining' where
        c: "choose_left keys remaining r = Some (Inr (Some (?left, remaining')))" by blast
      from move_span_inv [OF Suc.prems refl] obtain r1 where m: "move_span ?left r = Some r1"
        and f: "same_run r r1" "run_spans r1 = run_spans r" "run_width r1 = run_width r"
          "run_output r1 = Suc (run_output r)" "run_end r1 = run_end r"
          "spans.pair_state keys (run_arena r) (run_width r) (run_spans r) (run_work r1)
            (run_left r1) (run_middle r1) (run_right r1) (run_end r) (run_output r1)" by blast
      let ?r = "finish_pair r1"
      have n: "sort_inv keys final ?r" "same_run r ?r" "moves_left r = Suc (moves_left ?r)"
        using finish_pair_inv [OF Suc.prems f] by simp_all
      have step: "sort_moves keys (Suc moves) remaining r io =
          (if length (run_spans ?r) \<le> run_width ?r then Some (?r, Inr io1) else sort_moves keys moves remaining' ?r io1)"
        by (simp add: Inr c m)
      show ?thesis
      proof (cases "length (run_spans ?r) \<le> run_width ?r")
        case True
        with n p show ?thesis unfolding step by simp
      next
        case False
        then have "run_width ?r < length (run_spans ?r)" by simp
        from Suc.IH [OF n(1) this, of io1 remaining'] obtain r' res where
          i: "sort_moves keys moves remaining' ?r io1 = Some (r', res)" "sort_inv keys final r'" "same_run ?r r'"
            "moves_left r' \<le> moves_left ?r"
            "case res of Inl e \<Rightarrow> \<not> quiet io1
             | Inr io' \<Rightarrow> io_files io' = io_files io1 \<and> space 0 io' = space 0 io1 \<and> (quiet io1 \<longrightarrow> io' = io1)
                 \<and> (0 < moves \<and> remaining' = comparison_budget \<longrightarrow> moves_left r' < moves_left ?r)"
          by (auto split: option.splits prod.splits)
        have "sort_moves keys (Suc moves) remaining r io = Some (r', res)" unfolding step using False i(1) by simp
        with i n p show ?thesis by (auto split: sum.splits intro: same_run_trans)
      qed
    qed
  qed
qed

section \<open>The buffer's steps\<close>

lemma run_header_Inr:
  assumes "run_header ident rows bytes = Inr header"
  shows "length header = run_header_bytes" and "0 < rows" and "rows \<le> max_aggregate_rows"
    and "id_pass ident \<le> max_merge_passes" and "id_index ident < max_aggregate_rows"
    and "rows * record_header \<le> bytes" and "bytes \<le> rows * max_frame_bytes"
  using assms by (auto simp: run_header_def run_header_bytes_def run_magic_def Let_def split: if_splits)

definition run_output_bytes :: "u8 list \<Rightarrow> u8 list \<Rightarrow> record_span list \<Rightarrow> u8 list" where
  "run_output_bytes header arena spans = header @ concat (map (span_bytes arena) spans)"

definition run_ready ::
    "row_layout \<Rightarrow> record_span list \<Rightarrow> u8 list \<Rightarrow> u8 list \<Rightarrow> run_buffer \<Rightarrow> write_buffer \<Rightarrow> scratch_io \<Rightarrow> bool" where
  "run_ready keys final header before r w io \<longleftrightarrow>
     writer_ok 0 w io \<and> run_header (run_ident r) (length (run_spans r)) (length (run_arena r)) = Inr header
     \<and> (\<forall>s \<in> set (run_spans r). span_ok keys (run_arena r) s)
     \<and> (case run_state r of
          RunSort \<Rightarrow> sort_inv keys final r \<and> run_width r < length (run_spans r) \<and> content 0 w io = before
        | RunHeader \<Rightarrow> run_spans r = final \<and> content 0 w io = before
        | RunWrite \<Rightarrow> run_spans r = final \<and> run_output r < length final
            \<and> content 0 w io = before @ run_output_bytes header (run_arena r) (take (run_output r) final)
        | RunDone \<Rightarrow> run_spans r = final \<and> content 0 w io = before @ run_output_bytes header (run_arena r) final
        | _ \<Rightarrow> False)"

definition steps_left :: "run_buffer \<Rightarrow> nat" where
  "steps_left r =
     (case run_state r of
        RunSort \<Rightarrow> moves_left r + length (run_spans r) + 1
      | RunHeader \<Rightarrow> length (run_spans r) + 1
      | RunWrite \<Rightarrow> length (run_spans r) - run_output r
      | _ \<Rightarrow> 0)"

text \<open>Room in the file for everything the run will have written.\<close>

definition run_fits :: "record_span list \<Rightarrow> u8 list \<Rightarrow> u8 list \<Rightarrow> run_buffer \<Rightarrow> scratch_io \<Rightarrow> bool" where
  "run_fits final header before r io \<longleftrightarrow>
     length before + length (run_output_bytes header (run_arena r) final) \<le> space 0 io \<and> space 0 io < 2 ^ 64"

lemma output_prefix:
  "at < length final \<Longrightarrow>
     run_output_bytes header arena (take (Suc at) final) = run_output_bytes header arena (take at final) @ span_bytes arena (final ! at)"
  by (simp add: run_output_bytes_def take_Suc_conv_app_nth)

lemma output_prefix_length: "length (run_output_bytes header arena (take at final)) \<le> length (run_output_bytes header arena final)"
proof -
  have "map (span_bytes arena) final = map (span_bytes arena) (take at final) @ map (span_bytes arena) (drop at final)"
    by (metis append_take_drop_id map_append)
  then show ?thesis by (simp add: run_output_bytes_def)
qed

text \<open>What every step owes: the next state, or a failed buffer on a host that refused something.\<close>

definition step_promise ::
    "row_layout \<Rightarrow> record_span list \<Rightarrow> u8 list \<Rightarrow> u8 list \<Rightarrow> run_buffer \<Rightarrow> scratch_io \<Rightarrow> run_result \<Rightarrow> bool" where
  "step_promise keys final header before r io result \<longleftrightarrow>
     (case result of
        (r', Inl e) \<Rightarrow> run_state r' = RunFailed \<and> \<not> (quiet io \<and> run_fits final header before r io)
      | (r', Inr (finished, w', io')) \<Rightarrow>
          run_ready keys final header before r' w' io' \<and> only_slot 0 io io' \<and> run_arena r' = run_arena r
          \<and> finished = (run_state r' = RunDone) \<and> (run_state r \<noteq> RunDone \<longrightarrow> steps_left r' < steps_left r)
          \<and> (quiet io \<and> run_fits final header before r io \<longrightarrow> quiet io' \<and> space 0 io' = space 0 io \<and> run_fits final header before r' io'))"

lemma only_slot_files: "io_files io' = io_files io \<Longrightarrow> only_slot slot io io'"
  by (simp add: only_slot_def)

lemma content_files: "io_files io' = io_files io \<Longrightarrow> content slot w io' = content slot w io"
  by (simp add: content_def)

lemma writer_ok_files: "io_files io' = io_files io \<Longrightarrow> writer_ok slot w io' = writer_ok slot w io"
  by (simp add: writer_ok_def)

lemma quiet_polled: "poll io = Inr io1 \<Longrightarrow> quiet io \<Longrightarrow> io1 = io"
  using poll_facts by blast

text \<open>A step that appends a prefix of the output.\<close>

lemma appending_promise:
  assumes ok: "writer_ok 0 w io1" and poll: "poll io = Inr io1"
    and next_state: "run_arena r' = run_arena r" "run_state r' \<noteq> RunDone \<longrightarrow> run_state r' = RunWrite"
      "steps_left r' < steps_left r" "run_state failed = RunFailed"
    and small: "length input \<le> max_frame_bytes"
      "length (content 0 w io1) + length input \<le> length before + length (run_output_bytes header (run_arena r) final)"
    and ready: "\<And>w' io'. writer_ok 0 w' io' \<Longrightarrow> content 0 w' io' = content 0 w io1 @ input \<Longrightarrow>
      run_ready keys final header before r' w' io'"
  shows "\<exists>result. appending (append_output 0 input w io1) failed r' = Some result \<and> step_promise keys final header before r io result"
proof (cases "append_output 0 input w io1")
  case None
  with append_output_not_None [OF ok] show ?thesis by blast
next
  case (Some res)
  have q: "\<exists>w' io'. append_output 0 input w io1 = Some (Inr (w', io')) \<and> quiet io' \<and> space 0 io' = space 0 io1 \<and> io1 = io"
    if "quiet io" "run_fits final header before r io"
    using append_output_quiet [of io1 0 w input] quiet_polled [OF poll] that ok small by (auto simp: run_fits_def)
  show ?thesis
  proof (cases res)
    case (Inl e)
    with Some q next_state show ?thesis by (auto simp: appending_def step_promise_def)
  next
    case (Inr y)
    obtain w' io' where y: "y = (w', io')" by (cases y)
    have a: "append_output 0 input w io1 = Some (Inr (w', io'))" using Some Inr y by simp
    have g: "writer_ok 0 w' io'" "content 0 w' io' = content 0 w io1 @ input" "only_slot 0 io1 io'"
      using append_output_Inr [OF a ok] by simp_all
    have "only_slot 0 io io'"
      using only_slot_trans [OF only_slot_files g(3)] poll_facts [OF poll] by blast
    moreover have "quiet io \<and> run_fits final header before r io \<longrightarrow> quiet io' \<and> space 0 io' = space 0 io \<and> run_fits final header before r' io'"
      using q a next_state(1) by (auto simp: run_fits_def)
    ultimately show ?thesis
      using a ready [OF g(1,2)] next_state by (auto simp: appending_def step_promise_def)
  qed
qed

lemma step_run_promise:
  assumes "run_ready keys final header before r w io"
  shows "\<exists>result. step_run keys r w io = Some result \<and> step_promise keys final header before r io result"
proof (cases "run_state r = RunDone")
  case True
  with assms show ?thesis by (simp add: step_run_def step_promise_def)
next
  case active: False
  let ?failed = "r\<lparr>run_state := RunFailed\<rparr>"
  note ready = assms [unfolded run_ready_def]
  show ?thesis
  proof (cases "poll io")
    case (Inl e)
    with active poll_quiet [OF Inl] show ?thesis by (simp add: step_run_def step_promise_def)
  next
    case (Inr io1)
    note p = poll_facts [OF Inr, of 0]
    have ok1: "writer_ok 0 w io1" using ready p writer_ok_files by blast
    have content1: "content 0 w io1 = content 0 w io" using p content_files by blast
    have n: "0 < length (run_spans r)" "length header = run_header_bytes" using run_header_Inr ready by blast+
    consider (sorting) "run_state r = RunSort" | (heading) "run_state r = RunHeader" | (writing) "run_state r = RunWrite"
      using active ready by (cases "run_state r") simp_all
    then show ?thesis
    proof cases
      case sorting
      then have inv: "sort_inv keys final ?failed" and width: "run_width ?failed < length (run_spans ?failed)"
        and c: "content 0 w io = before"
        using ready by (simp_all add: sort_inv_def)
      from sort_moves_inv [OF inv width, where moves = batch_rows and remaining = comparison_budget and io = io1] obtain r' res where
        m: "sort_moves keys batch_rows comparison_budget ?failed io1 = Some (r', res)" "sort_inv keys final r'" "same_run ?failed r'"
          "case res of Inl e \<Rightarrow> \<not> quiet io1
           | Inr io' \<Rightarrow> io_files io' = io_files io1 \<and> space 0 io' = space 0 io1 \<and> (quiet io1 \<longrightarrow> io' = io1)
               \<and> (0 < batch_rows \<and> comparison_budget = comparison_budget \<longrightarrow> moves_left r' < moves_left ?failed)"
        by (auto split: option.splits prod.splits)
      have same: "run_arena r' = run_arena r" "run_ident r' = run_ident r" "run_state r' = RunFailed"
          "length (run_spans r') = length (run_spans r)"
        using m(3) by (simp_all add: same_run_def)
      have inv': "\<forall>s \<in> set (run_spans r'). span_ok keys (run_arena r) s" "length (run_spans r') \<le> run_width r' \<Longrightarrow> run_spans r' = final"
        using m(2) same spans.sort_result_done [of "run_spans r'" "run_width r'" keys "run_arena r"] by (auto simp: sort_inv_def)
      show ?thesis
      proof (cases res)
        case (Inl e)
        with m same sorting Inr p show ?thesis by (auto simp: step_run_def step_promise_def)
      next
        case io2: (Inr io2)
        let ?r = "r'\<lparr>run_state := (if length (run_spans r') \<le> run_width r' then RunHeader else RunSort)\<rparr>"
        have f: "io_files io2 = io_files io" "space 0 io2 = space 0 io" "quiet io \<longrightarrow> io2 = io" "moves_left r' < moves_left r"
          using m(4) io2 p by (auto simp: batch_rows_def)
        have inv'': "sort_inv keys final (r'\<lparr>run_state := st\<rparr>)" for st using m(2) by (simp add: sort_inv_def)
        have w2: "writer_ok 0 w io2" "content 0 w io2 = before"
          using ready f(1) c writer_ok_files content_files by metis+
        have "run_ready keys final header before ?r w io2"
          using ready same inv' inv'' w2 by (simp add: run_ready_def)
        moreover have "steps_left ?r < steps_left r"
          using f(4) sorting same by (simp add: steps_left_def)
        ultimately have "step_promise keys final header before r io (?r, Inr (False, w, io2))"
          using f same only_slot_files [OF f(1), of 0] by (auto simp: step_promise_def run_fits_def)
        with m(1) io2 sorting Inr show ?thesis by (simp add: step_run_def)
      qed
    next
      case heading
      let ?r = "r\<lparr>run_output := 0, run_state := RunWrite\<rparr>"
      have h: "run_header (run_ident r) (length (run_spans r)) (length (run_arena r)) = Inr header" "run_spans r = final"
          "content 0 w io1 = before"
        using ready heading content1 by auto
      have "\<exists>result. appending (append_output 0 header w io1) ?failed ?r = Some result \<and> step_promise keys final header before r io result"
        by (rule appending_promise [OF ok1 Inr])
          (use n h heading ready in \<open>simp_all add: steps_left_def run_header_bytes_def max_frame_bytes_def record_header_def max_row_values_def max_text_bytes_def
            run_output_bytes_def run_ready_def\<close>)
      with h(1) heading Inr show ?thesis by (simp add: step_run_def)
    next
      case writing
      let ?last = "run_output r + 1 = length (run_spans r)"
      let ?r = "r\<lparr>run_output := run_output r + 1, run_state := (if ?last then RunDone else RunWrite)\<rparr>"
      let ?span = "run_spans r ! run_output r"
      have h: "run_spans r = final" "run_output r < length final"
          "content 0 w io1 = before @ run_output_bytes header (run_arena r) (take (run_output r) final)"
        using ready writing content1 by auto
      have ok: "span_ok keys (run_arena r) ?span" using ready h by simp
      have total: "length (content 0 w io1) + length (span_bytes (run_arena r) ?span)
          \<le> length before + length (run_output_bytes header (run_arena r) final)"
        using output_prefix_length [of header "run_arena r" "Suc (run_output r)" final] h by (simp add: output_prefix)
      have "\<exists>result. appending (append_output 0 (span_bytes (run_arena r) ?span) w io1) ?failed ?r = Some result
          \<and> step_promise keys final header before r io result"
      proof (rule appending_promise [OF ok1 Inr])
        fix w' io'
        assume "writer_ok 0 w' io'" "content 0 w' io' = content 0 w io1 @ span_bytes (run_arena r) ?span"
        with h ready show "run_ready keys final header before ?r w' io'"
          using output_prefix [OF h(2), of header "run_arena r"] by (auto simp: run_ready_def)
      qed (use h writing ok total in \<open>auto simp: steps_left_def span_ok_def\<close>)
      with span_slice_ok [OF ok] h writing Inr show ?thesis by (simp add: step_run_def)
    qed
  qed
qed

end
