(* ===== verification/Run_Merge.thy ===== *)
theory Run_Merge
  imports Run_Sort
begin

text \<open>
  Merging sorted runs (src/execution/blocking.rs): a cursor per run, the merge of two runs into
  the other scratch file, and the passes that repeat it until one run is left. Any error leaves
  the owner failed and drops the state. \<open>None\<close> is a failed assertion or an index out of bounds.
\<close>

section \<open>Runs in files\<close>

record file_run =
  extent_start :: nat
  extent_end :: nat
  extent_rows :: nat

definition read_run ::
    "nat \<Rightarrow> nat \<Rightarrow> nat \<Rightarrow> run_id \<Rightarrow> read_buffer \<Rightarrow> scratch_io \<Rightarrow> (file_run \<times> read_buffer \<times> scratch_io) checked" where
  "read_run slot offset limit ident reader io =
     following (buffered_read slot offset limit run_header_bytes reader io) (\<lambda>((header, reader), io).
       let rows = unat (u64_of_bytes (slice header 16 8)); bytes = unat (u64_of_bytes (slice header 24 8)) in
       Some (
         attempt (run_header ident rows bytes) (\<lambda>expected.
         if header \<noteq> expected then Inl (Corrupt ''group run identity or checksum'')
         else
           attempt (usize_or (offset + run_header_bytes) (Corrupt ''run start offset'')) (\<lambda>start.
           attempt (usize_or (start + bytes) (Corrupt ''run end offset'')) (\<lambda>end_at.
             if limit < end_at then Inl (Corrupt ''group run exceeds file'')
             else Inr (\<lparr>extent_start = start, extent_end = end_at, extent_rows = rows\<rparr>, reader, io))))))"

section \<open>Cursors\<close>

record run_cursor =
  cur_run :: "file_run option"
  cur_offset :: nat
  cur_remaining :: nat
  cur_loaded :: bool
  cur_record :: sort_record
  cur_reader :: read_buffer

record cursor_position =
  position_offset :: nat
  position_remaining :: nat

definition new_run_cursor :: "nat \<Rightarrow> db_error + run_cursor" where
  "new_run_cursor record_bytes =
     attempt (new_record record_bytes) (\<lambda>r.
       Inr \<lparr>cur_run = None, cur_offset = 0, cur_remaining = 0, cur_loaded = False, cur_record = r, cur_reader = new_reader\<rparr>)"

definition cursor_finished :: "run_cursor \<Rightarrow> bool" where
  "cursor_finished c \<longleftrightarrow> cur_remaining c = 0"

definition ends_short :: "run_cursor \<Rightarrow> bool" where
  "ends_short c \<longleftrightarrow> (case cur_run c of None \<Rightarrow> False | Some run \<Rightarrow> cur_offset c \<noteq> extent_end run)"

definition needs_load :: "run_cursor \<Rightarrow> db_error + bool" where
  "needs_load c =
     (if cur_remaining c = 0
      then if ends_short c then Inl (Corrupt ''sorted run row count disagrees with bytes'') else Inr False
      else Inr (\<not> cur_loaded c))"

definition cursor_position :: "run_cursor \<Rightarrow> cursor_position option" where
  "cursor_position c =
     (if cur_loaded c \<and> cur_remaining c \<noteq> 0
      then Some \<lparr>position_offset = cur_offset c, position_remaining = cur_remaining c\<rparr> else None)"

definition cursor_read_ahead :: "nat \<Rightarrow> run_cursor \<Rightarrow> run_cursor" where
  "cursor_read_ahead bytes c =
     c\<lparr>cur_reader := limit_read_ahead (min (cur_offset c + bytes) (2 ^ 64 - 1)) (cur_reader c)\<rparr>"

definition rewind :: "cursor_position \<Rightarrow> run_cursor \<Rightarrow> db_error + run_cursor" where
  "rewind place c =
     attempt (ok_or (cur_run c) (Corrupt ''join rewind has no run'')) (\<lambda>run.
       if position_offset place < extent_start run \<or> extent_end run \<le> position_offset place
          \<or> position_remaining place = 0 \<or> extent_rows run < position_remaining place
       then Inl (Corrupt ''join rewind is outside its run'')
       else
         attempt (if cur_loaded c
             then let end_at = cur_offset c + length (rec_bytes (cur_record c)) in
               if 2 ^ 64 \<le> end_at \<or> extent_end run < end_at then Inl (Corrupt ''replayed row exceeds its run'') else Inr end_at
             else Inr (cur_offset c)) (\<lambda>ahead.
           Inr (c\<lparr>cur_offset := position_offset place, cur_remaining := position_remaining place,
             cur_loaded := False, cur_reader := reread_until ahead (cur_reader c)\<rparr>)))"

definition cursor_record :: "run_cursor \<Rightarrow> sort_record option" where
  "cursor_record c = (if cur_loaded c then Some (cur_record c) else None)"

text \<open>A cursor whose record storage was released cannot restart.\<close>

definition begin_cursor :: "file_run option \<Rightarrow> run_cursor \<Rightarrow> run_cursor option" where
  "begin_cursor run c =
     (if rec_capacity (cur_record c) < record_header then None
      else Some (c\<lparr>cur_run := run, cur_offset := (case run of None \<Rightarrow> 0 | Some run \<Rightarrow> extent_start run),
        cur_remaining := (case run of None \<Rightarrow> 0 | Some run \<Rightarrow> extent_rows run), cur_loaded := False,
        cur_reader := clear_reader (cur_reader c)\<rparr>))"

definition load_cursor ::
    "nat \<Rightarrow> row_layout \<Rightarrow> argument_shape \<Rightarrow> run_cursor \<Rightarrow> scratch_io \<Rightarrow> (run_cursor \<times> scratch_io) checked" where
  "load_cursor slot keys shape c io =
     (if cur_remaining c = 0
      then Some (if ends_short c then Inl (Corrupt ''group run row count disagrees with bytes'') else Inr (c, io))
      else if cur_loaded c then Some (Inr (c, io))
      else
        Option.bind (cur_run c) (\<lambda>run.
        following (read_record slot (cur_offset c) (extent_end run) keys shape (cur_record c) (cur_reader c) io)
          (\<lambda>((r, reader), io). Some (Inr (c\<lparr>cur_record := r, cur_reader := reader, cur_loaded := True\<rparr>, io)))))"

definition consume_cursor :: "run_cursor \<Rightarrow> run_cursor checked" where
  "consume_cursor c =
     (if \<not> cur_loaded c \<or> cur_remaining c = 0 then None
      else Some (attempt (usize_or (cur_offset c + length (rec_bytes (cur_record c))) (Corrupt ''group record cursor'')) (\<lambda>offset.
        Inr (c\<lparr>cur_offset := offset, cur_remaining := cur_remaining c - 1, cur_loaded := False\<rparr>))))"

section \<open>Merging a pair\<close>

record pair_merge =
  pair_left :: run_cursor
  pair_right :: run_cursor
  pair_key :: "u8 list"
  pair_key_capacity :: nat
  pair_ordinal :: "u64 option"
  pair_expected_end :: nat
  pair_input :: nat
  pair_finished :: bool
  pair_remaining :: nat
  pair_shape :: argument_shape

definition buffer_capacity_or :: "nat \<Rightarrow> db_error + nat" where
  "buffer_capacity_or bytes =
     attempt (ok_or (buffer_capacity (word_of_nat bytes)) (Corrupt ''blocking buffer allocation capacity'')) (\<lambda>c. Inr (unat c))"

definition new_pair :: "row_layout \<Rightarrow> argument_shape \<Rightarrow> db_error + pair_merge" where
  "new_pair keys shape =
     (if shape_invalid shape then Inl (Corrupt ''merge argument width'')
      else
        let record_bytes = record_header + layout_max_bytes keys + max_payload_bytes shape in
        attempt (buffer_capacity_or (layout_key_max_bytes keys)) (\<lambda>key_capacity.
        attempt (new_run_cursor record_bytes) (\<lambda>left.
        attempt (new_run_cursor record_bytes) (\<lambda>right.
          Inr \<lparr>pair_left = left, pair_right = right, pair_key = [], pair_key_capacity = key_capacity, pair_ordinal = None,
            pair_expected_end = 0, pair_input = 0, pair_finished = True, pair_remaining = 0, pair_shape = shape\<rparr>))))"

text \<open>\<open>slot ^ 1\<close>\<close>

definition other_slot :: "nat \<Rightarrow> nat" where
  "other_slot slot = (if even slot then slot + 1 else slot - 1)"

definition extent_bytes :: "file_run \<Rightarrow> string \<Rightarrow> db_error + nat" where
  "extent_bytes run what =
     (if extent_end run < extent_start run then Inl (Corrupt what) else Inr (extent_end run - extent_start run))"

text \<open>The rows, header and end of the merged run, before anything is written.\<close>

definition plan_pair :: "file_run \<Rightarrow> file_run option \<Rightarrow> run_id \<Rightarrow> write_buffer \<Rightarrow> db_error + nat \<times> u8 list \<times> nat" where
  "plan_pair left right ident w =
     attempt (extent_bytes left ''left run extent'') (\<lambda>left_bytes.
     attempt (case right of None \<Rightarrow> Inr 0 | Some run \<Rightarrow> extent_bytes run ''right run extent'') (\<lambda>right_bytes.
     attempt (usize_or (extent_rows left + (case right of None \<Rightarrow> 0 | Some run \<Rightarrow> extent_rows run)) (Corrupt ''merged row count'')) (\<lambda>rows.
     attempt (usize_or (left_bytes + right_bytes) (Corrupt ''merged byte count'')) (\<lambda>bytes.
     attempt (run_header ident rows bytes) (\<lambda>header.
     attempt (write_position w) (\<lambda>at.
     attempt (usize_or (at + run_header_bytes + bytes) (Corrupt ''merged output end'')) (\<lambda>end_at.
       Inr (rows, header, end_at))))))))"

definition begin_pair ::
    "file_run \<Rightarrow> file_run option \<Rightarrow> run_id \<Rightarrow> nat \<Rightarrow> pair_merge \<Rightarrow> write_buffer \<Rightarrow> scratch_io
     \<Rightarrow> (pair_merge \<times> write_buffer \<times> scratch_io) checked" where
  "begin_pair left right ident slot p w io =
     (case poll io of
        Inl e \<Rightarrow> Some (Inl e)
      | Inr io \<Rightarrow>
          if 2 \<le> slot then Some (Inl (Corrupt ''merge input file slot''))
          else if \<not> pair_finished p then None
          else
            following (Some (plan_pair left right ident w)) (\<lambda>(rows, header, end_at).
            following (append_output (other_slot slot) header w io) (\<lambda>(w, io).
              Option.bind (begin_cursor (Some left) (pair_left p)) (\<lambda>left.
              Option.bind (begin_cursor right (pair_right p)) (\<lambda>right.
                Some (Inr (p\<lparr>pair_expected_end := end_at, pair_left := left, pair_right := right, pair_remaining := rows,
                  pair_input := slot, pair_finished := False, pair_ordinal := None, pair_key := []\<rparr>, w, io)))))))"

definition loaded_bytes :: "run_cursor \<Rightarrow> nat" where
  "loaded_bytes c = (if cur_loaded c then length (rec_bytes (cur_record c)) else 0)"

text \<open>Is the left record next? Equal records go left.\<close>

definition takes_left :: "row_layout \<Rightarrow> pair_merge \<Rightarrow> bool checked" where
  "takes_left keys p =
     (if \<not> cur_loaded (pair_left p) then Some (Inr False)
      else if \<not> cur_loaded (pair_right p) then Some (Inr True)
      else following (compare_encoded keys (rec_bytes (cur_record (pair_left p))) (rec_bytes (cur_record (pair_right p))))
             (\<lambda>ord. Some (Inr (ord \<noteq> OrderGreater))))"

text \<open>The record must follow the one written before it.\<close>

definition check_order :: "row_layout \<Rightarrow> pair_merge \<Rightarrow> u8 list \<Rightarrow> unit checked" where
  "check_order keys p bytes =
     (case pair_ordinal p of
        None \<Rightarrow> Some (Inr ())
      | Some previous \<Rightarrow>
          following (compare_rows keys (pair_key p) (frame_key bytes)) (\<lambda>ord.
            Some (if and_then ord (order_of (int (unat previous)) (int (unat (frame_ordinal bytes)))) \<noteq> OrderLess
                  then Inl (Corrupt ''group run is not strictly ordered'') else Inr ())))"

text \<open>Write the selected record, remember its sort key and move its cursor.\<close>

definition emit_record ::
    "row_layout \<Rightarrow> bool \<Rightarrow> pair_merge \<Rightarrow> write_buffer \<Rightarrow> scratch_io \<Rightarrow> (pair_merge \<times> write_buffer \<times> scratch_io) checked" where
  "emit_record keys take_left p w io =
     (let selected = (if take_left then pair_left p else pair_right p); bytes = rec_bytes (cur_record selected) in
      if \<not> cur_loaded selected then Some (Inl (Corrupt ''merge exhausted before declared rows''))
      else
        following (check_order keys p bytes) (\<lambda>_.
        following (append_output (other_slot (pair_input p)) bytes w io) (\<lambda>(w, io).
        following (Some (attempt (sort_prefix keys (frame_key bytes)) (append_bytes (pair_key_capacity p) []))) (\<lambda>key.
        following (consume_cursor selected) (\<lambda>c.
          Some (Inr ((if take_left then p\<lparr>pair_left := c\<rparr> else p\<lparr>pair_right := c\<rparr>)
            \<lparr>pair_key := key, pair_ordinal := Some (frame_ordinal bytes), pair_remaining := pair_remaining p - 1\<rparr>, w, io)))))))"

text \<open>
  One turn: complete the run, yield, or move a record. The first component says whether the
  loop ends, and then whether the pair is finished; only a step's first record may pass the
  byte budget.
\<close>

definition merge_loaded ::
    "row_layout \<Rightarrow> bool \<Rightarrow> nat \<Rightarrow> pair_merge \<Rightarrow> write_buffer \<Rightarrow> scratch_io
     \<Rightarrow> (bool option \<times> nat \<times> pair_merge \<times> write_buffer \<times> scratch_io) checked" where
  "merge_loaded keys moved budget p w io =
     (if pair_remaining p = 0
      then
        if cur_remaining (pair_left p) \<noteq> 0 \<or> cur_remaining (pair_right p) \<noteq> 0
        then Some (Inl (Corrupt ''merged run completion differs''))
        else Some (attempt (write_position w) (\<lambda>at.
          if at \<noteq> pair_expected_end p then Inl (Corrupt ''merged run completion differs'')
          else Inr (Some True, budget, p\<lparr>pair_finished := True\<rparr>, w, io)))
      else
        let bytes = loaded_bytes (pair_left p) + loaded_bytes (pair_right p) in
        if budget < bytes \<and> moved then Some (Inr (Some False, budget, p, w, io))
        else
          following (takes_left keys p) (\<lambda>take_left.
          following (emit_record keys take_left p w io) (\<lambda>(p, w, io).
            Some (Inr (if budget \<le> bytes then Some False else None, budget - bytes, p, w, io)))))"

definition pair_turn ::
    "row_layout \<Rightarrow> bool \<Rightarrow> nat \<Rightarrow> pair_merge \<Rightarrow> write_buffer \<Rightarrow> scratch_io
     \<Rightarrow> (bool option \<times> nat \<times> pair_merge \<times> write_buffer \<times> scratch_io) checked" where
  "pair_turn keys moved budget p w io =
     following (load_cursor (pair_input p) keys (pair_shape p) (pair_left p) io) (\<lambda>(left, io).
     following (load_cursor (pair_input p) keys (pair_shape p) (pair_right p) io) (\<lambda>(right, io).
       merge_loaded keys moved budget (p\<lparr>pair_left := left, pair_right := right\<rparr>) w io))"

fun pair_moves ::
    "row_layout \<Rightarrow> nat \<Rightarrow> bool \<Rightarrow> nat \<Rightarrow> pair_merge \<Rightarrow> write_buffer \<Rightarrow> scratch_io
     \<Rightarrow> (bool \<times> pair_merge \<times> write_buffer \<times> scratch_io) checked" where
  "pair_moves keys 0 moved budget p w io = Some (Inr (False, p, w, io))"
| "pair_moves keys (Suc moves) moved budget p w io =
     (case poll io of
        Inl e \<Rightarrow> Some (Inl e)
      | Inr io \<Rightarrow>
          following (pair_turn keys moved budget p w io) (\<lambda>(stop, budget, p, w, io).
            case stop of
              Some finished \<Rightarrow> Some (Inr (finished, p, w, io))
            | None \<Rightarrow> pair_moves keys moves True budget p w io))"

definition pair_step ::
    "row_layout \<Rightarrow> pair_merge \<Rightarrow> write_buffer \<Rightarrow> scratch_io \<Rightarrow> (bool \<times> pair_merge \<times> write_buffer \<times> scratch_io) checked" where
  "pair_step keys p w io = pair_moves keys batch_rows False comparison_budget p w io"

end
