(* ===== verification/Run_Properties.thy ===== *)
theory Run_Properties
  imports Run_Sort
begin

text \<open>
  Initial runs as a whole: pushed records are collected, the steps end, and the file receives a
  valid header followed by the same records in strictly increasing order.
\<close>

section \<open>Collecting\<close>

lemma buffer_capacity_covers:
  assumes "buffer_capacity n = Some c"
  shows "unat n \<le> unat c" and "unat c \<le> unat n + 16383"
proof -
  have "unat n \<le> unat c \<and> unat c \<le> unat n + 16383"
  proof (cases "16384 < unat n \<and> unat n + 16415 < 2 ^ 64")
    case True
    then have c: "c = round_down_to_unit (n + 16415) - 32" using assms by (simp add: buffer_capacity_cases split: if_splits)
    have "unat c + 32 = (unat n + 16415) div 16384 * 16384" unfolding c using True by (intro buffer_capacity_large) auto
    then show ?thesis by linarith
  next
    case False
    with assms show ?thesis by (auto simp: buffer_capacity_cases split: if_splits)
  qed
  then show "unat n \<le> unat c" "unat c \<le> unat n + 16383" by simp_all
qed

text \<open>The buffer holds exactly these frames, in increasing row number.\<close>

definition collected :: "row_layout \<Rightarrow> u8 list list \<Rightarrow> run_buffer \<Rightarrow> bool" where
  "collected keys frames r \<longleftrightarrow>
     run_state r = RunCollect \<and> run_arena r = concat frames \<and> map (span_bytes (run_arena r)) (run_spans r) = frames
     \<and> (\<forall>s \<in> set (run_spans r). span_ok keys (run_arena r) s) \<and> run_work r = run_spans r
     \<and> length frames \<le> run_row_limit r \<and> run_row_limit r \<le> max_aggregate_rows
     \<and> length (concat frames) \<le> run_byte_limit r \<and> run_byte_limit r \<le> run_capacity r \<and> run_capacity r + max_frame_bytes < 2 ^ 64
     \<and> sorted_wrt (<) (map frame_ordinal frames)
     \<and> run_last r = (if frames = [] then None else Some (frame_ordinal (last frames)))"

text \<open>What a pusher owes: a complete frame of the layout.\<close>

definition pushable :: "row_layout \<Rightarrow> u8 list \<Rightarrow> bool" where
  "pushable keys bytes \<longleftrightarrow> frame_ok keys bytes \<and> record_header \<le> length bytes \<and> length bytes \<le> max_frame_bytes"

lemma new_run_collected:
  assumes "new_run bytes rows = Inr r" and "bytes < 2 ^ 63"
  shows "collected keys [] r \<and> run_byte_limit r = bytes \<and> run_row_limit r = rows"
proof -
  from assms(1) obtain c where c: "buffer_capacity (word_of_nat bytes) = Some c" and rows: "rows \<le> max_aggregate_rows"
    and r: "r = \<lparr>run_arena = [], run_capacity = unat c, run_spans = [], run_work = [], run_byte_limit = bytes,
            run_row_limit = rows, run_last = None, run_state = RunCollect, run_ident = \<lparr>id_pass = 0, id_index = 0\<rparr>,
            run_width = 1, run_left = 0, run_middle = 0, run_right = 0, run_end = 0, run_output = 0\<rparr>"
    by (auto simp: new_run_def attempt_Inr_conv ok_or_Inr split: if_splits)
  have "unat (word_of_nat bytes :: u64) = bytes" using assms(2) by (simp add: unat_of_nat)
  with buffer_capacity_covers [OF c] assms(2) max_frame_small rows show ?thesis by (simp add: collected_def r)
qed

lemma span_bytes_append:
  "span_end s \<le> length xs \<Longrightarrow> span_start s \<le> span_end s \<Longrightarrow> span_bytes (xs @ ys) s = span_bytes xs s"
  by (simp add: span_bytes_def slice_append_left)

text \<open>A push stores the frame, or reports a full buffer and changes nothing.\<close>

lemma push_run_collected:
  assumes "collected keys frames r" and "pushable keys bytes"
    and "\<forall>f \<in> set frames. frame_ordinal f < frame_ordinal bytes"
  shows "(\<exists>r'. push_run bytes r = Some (Inr (True, r')) \<and> collected keys (frames @ [bytes]) r'
      \<and> run_byte_limit r' = run_byte_limit r \<and> run_row_limit r' = run_row_limit r)
    \<or> (push_run bytes r = Some (Inr (False, r))
      \<and> (length frames = run_row_limit r \<or> run_byte_limit r < length (concat frames) + length bytes))"
proof -
  note c = assms(1) [unfolded collected_def] and p = assms(2) [unfolded pushable_def]
  have len: "length (run_arena r) = length (concat frames)" "length (run_spans r) = length frames"
    using c by (simp, metis length_map)
  have small: "length (concat frames) + length bytes < 2 ^ 64" using c p by linarith
  show ?thesis
  proof (cases "length frames = run_row_limit r \<or> run_byte_limit r < length (concat frames) + length bytes")
    case True
    with c len small show ?thesis by (auto simp: push_run_def usize_or_def)
  next
    case False
    let ?span = "\<lparr>span_start = length (run_arena r), span_end = length (run_arena r) + length bytes\<rparr>"
    let ?r = "r\<lparr>run_arena := run_arena r @ bytes, run_spans := run_spans r @ [?span], run_work := run_work r @ [?span],
      run_last := Some (frame_ordinal bytes)\<rparr>"
    have advances: "\<not> (case run_last r of None \<Rightarrow> False | Some previous \<Rightarrow> frame_ordinal bytes \<le> previous)"
      using c assms(3) by (auto simp: not_le split: if_splits)
    have "append_bytes (run_capacity r) (run_arena r) bytes = Inr (run_arena r @ bytes)"
      using False c small by (simp add: append_bytes_Inr)
    then have push: "push_run bytes r = Some (Inr (True, ?r))"
      using c False len small advances by (simp add: push_run_def usize_or_def Let_def)
    have new_span: "span_bytes (run_arena r @ bytes) ?span = bytes" by (simp add: span_bytes_def slice_def)
    have old: "span_ok keys (run_arena r @ bytes) s \<and> span_bytes (run_arena r @ bytes) s = span_bytes (run_arena r) s"
      if "s \<in> set (run_spans r)" for s
      using that c span_bytes_append [of s "run_arena r" bytes] by (auto simp: span_ok_def)
    have "span_ok keys (run_arena r @ bytes) ?span" using p new_span by (simp add: span_ok_def)
    moreover have "map (span_bytes (run_arena r @ bytes)) (run_spans r) = frames"
      using c old by (metis (no_types, lifting) map_eq_conv)
    moreover have "sorted_wrt (<) (map frame_ordinal (frames @ [bytes]))"
      using c assms(3) by (auto simp: sorted_wrt_append)
    ultimately have "collected keys (frames @ [bytes]) ?r"
      using c False len old new_span by (auto simp: collected_def)
    with push show ?thesis by simp
  qed
qed

lemma length_concat_bounds:
  "\<forall>f \<in> set frames. a \<le> length f \<and> length f \<le> b \<Longrightarrow>
     length frames * a \<le> length (concat frames) \<and> length (concat frames) \<le> length frames * b"
  by (induction frames) auto

lemma begin_run_collected:
  assumes "collected keys frames r" and "\<forall>f \<in> set frames. pushable keys f" and "frames \<noteq> []" and "index < max_aggregate_rows"
    and "writer_ok 0 w io"
  shows "\<exists>r' header. begin_run index r = Some (Inr r')
    \<and> run_header \<lparr>id_pass = 0, id_index = index\<rparr> (length frames) (length (concat frames)) = Inr header
    \<and> run_ready keys (spans.sort_result keys (concat frames) 1 (run_spans r)) header (content 0 w io) r' w io
    \<and> run_arena r' = concat frames \<and> length (run_spans r') = length frames
    \<and> run_byte_limit r' = run_byte_limit r \<and> run_row_limit r' = run_row_limit r \<and> run_capacity r' = run_capacity r
    \<and> steps_left r' \<le> sort_cost 1 (length frames) + length frames + 1"
proof -
  note c = assms(1) [unfolded collected_def]
  have len: "length (run_spans r) = length frames" using c by (metis length_map)
  have bounds: "length frames * record_header \<le> length (concat frames)" "length (concat frames) \<le> length frames * max_frame_bytes"
    using length_concat_bounds [of frames record_header max_frame_bytes] assms(2) by (simp_all add: pushable_def)
  obtain header where header: "run_header \<lparr>id_pass = 0, id_index = index\<rparr> (length frames) (length (concat frames)) = Inr header"
    using bounds assms(3,4) c by (auto simp: run_header_def max_merge_passes_def Let_def)
  let ?s = "start_pair 0 (r\<lparr>run_state := RunFailed, run_ident := \<lparr>id_pass = 0, id_index = index\<rparr>, run_width := 1\<rparr>)"
  let ?r = "?s\<lparr>run_state := (if length frames = 1 then RunHeader else RunSort)\<rparr>"
  have b: "begin_run index r = Some (Inr ?r)"
    using c len header by (simp add: begin_run_def Let_def start_pair_def)
  have inv: "sort_inv keys (spans.sort_result keys (concat frames) 1 (run_spans r)) ?s"
    by (rule start_pair_inv) (use c len assms(3) in auto)
  then have inv': "sort_inv keys (spans.sort_result keys (concat frames) 1 (run_spans r)) (?s\<lparr>run_state := st\<rparr>)" for st
    by (simp add: sort_inv_def)
  have one: "length frames = 1 \<Longrightarrow> spans.sort_result keys (concat frames) 1 (run_spans r) = run_spans r"
    using len by (simp add: spans.sort_result_done)
  have fields: "run_spans ?r = run_spans r" "run_arena ?r = concat frames" "run_ident ?r = \<lparr>id_pass = 0, id_index = index\<rparr>"
      "run_width ?r = 1" "run_output ?r = 0" "run_byte_limit ?r = run_byte_limit r" "run_row_limit ?r = run_row_limit r"
      "run_capacity ?r = run_capacity r" "run_state ?r = (if length frames = 1 then RunHeader else RunSort)"
    using c by (simp_all add: start_pair_def Let_def)
  have ready: "run_ready keys (spans.sort_result keys (concat frames) 1 (run_spans r)) header (content 0 w io) ?r w io"
    using c len header one inv' assms(3,5) unfolding run_ready_def fields
    by (cases "length frames = 1") (auto simp: fields Suc_lessI)
  have steps: "steps_left ?r \<le> sort_cost 1 (length frames) + length frames + 1"
    unfolding steps_left_def moves_left_def fields len by simp
  show ?thesis
    by (intro exI [of _ ?r] exI [of _ header] conjI b header ready steps fields(2,6,7,8)) (simp only: fields(1) len)
qed

section \<open>Running to the end\<close>

fun run_steps :: "row_layout \<Rightarrow> nat \<Rightarrow> run_buffer \<Rightarrow> write_buffer \<Rightarrow> scratch_io \<Rightarrow> run_result option" where
  "run_steps keys 0 r w io = Some (r, Inr (run_state r = RunDone, w, io))"
| "run_steps keys (Suc steps) r w io =
     Option.bind (step_run keys r w io) (\<lambda>result. case result of
       (r, Inl e) \<Rightarrow> Some (r, Inl e)
     | (r, Inr (finished, w, io)) \<Rightarrow> run_steps keys steps r w io)"

lemma run_steps_finish:
  assumes "run_ready keys final header before r w io" and "steps_left r \<le> steps"
  shows "\<exists>r' res. run_steps keys steps r w io = Some (r', res) \<and>
    (case res of
       Inl e \<Rightarrow> run_state r' = RunFailed \<and> \<not> (quiet io \<and> run_fits final header before r io)
     | Inr (finished, w', io') \<Rightarrow> finished \<and> run_state r' = RunDone \<and> run_arena r' = run_arena r
         \<and> run_ready keys final header before r' w' io' \<and> only_slot 0 io io')"
  using assms
proof (induction steps arbitrary: r w io)
  case 0
  have "0 < length (run_spans r)" using 0 run_header_Inr(2) by (auto simp: run_ready_def)
  then have "run_state r = RunDone"
    using 0 by (cases "run_state r") (auto simp: run_ready_def steps_left_def)
  with 0 show ?case by simp
next
  case (Suc steps)
  from step_run_promise [OF Suc.prems(1)] obtain r1 res where
    s: "step_run keys r w io = Some (r1, res)" "step_promise keys final header before r io (r1, res)" by fast
  show ?case
  proof (cases res)
    case (Inl e)
    with s show ?thesis by (simp add: step_promise_def)
  next
    case (Inr y)
    obtain finished w1 io1 where y: "y = (finished, w1, io1)" by (cases y)
    have p: "run_ready keys final header before r1 w1 io1" "only_slot 0 io io1" "run_arena r1 = run_arena r"
        "run_state r \<noteq> RunDone \<longrightarrow> steps_left r1 < steps_left r"
        "quiet io \<and> run_fits final header before r io \<longrightarrow> quiet io1 \<and> run_fits final header before r1 io1"
      using s(2) Inr y by (simp_all add: step_promise_def)
    have "steps_left r1 \<le> steps"
    proof (cases "run_state r = RunDone")
      case True
      with s(1) Inr y show ?thesis by (auto simp: step_run_def steps_left_def)
    next
      case False
      with p(4) Suc.prems(2) show ?thesis by simp
    qed
    from Suc.IH [OF p(1) this] obtain r' res' where i: "run_steps keys steps r1 w1 io1 = Some (r', res')"
      "case res' of
       Inl e \<Rightarrow> run_state r' = RunFailed \<and> \<not> (quiet io1 \<and> run_fits final header before r1 io1)
     | Inr (finished, w', io') \<Rightarrow> finished \<and> run_state r' = RunDone \<and> run_arena r' = run_arena r1
         \<and> run_ready keys final header before r' w' io' \<and> only_slot 0 io1 io'" by blast
    have "run_steps keys (Suc steps) r w io = Some (r', res')" using s(1) Inr y i(1) by simp
    with i(2) p show ?thesis
      by (cases res') (auto intro: only_slot_trans)
  qed
qed

section \<open>Whole runs\<close>

fun pushes :: "u8 list list \<Rightarrow> run_buffer \<Rightarrow> run_buffer option" where
  "pushes [] r = Some r"
| "pushes (f # fs) r = (case push_run f r of Some (Inr (True, r)) \<Rightarrow> pushes fs r | _ \<Rightarrow> None)"

lemma push_advances:
  assumes "collected keys frames r" and "push_run f r = Some (Inr (True, r'))" and "g \<in> set frames"
  shows "frame_ordinal g < frame_ordinal f"
proof -
  note c = assms(1) [unfolded collected_def]
  have nonempty: "frames \<noteq> []" using assms(3) by auto
  have "frame_ordinal (last frames) < frame_ordinal f"
    using assms(2) c nonempty by (auto simp: push_run_def attempt_Inr_conv not_le split: if_splits)
  moreover have "frame_ordinal g \<le> frame_ordinal (last frames)"
  proof (cases "g = last frames")
    case False
    with assms(3) nonempty have "g \<in> set (butlast frames)" by (metis append_butlast_last_id rotate1.simps(2) set_ConsD set_rotate1)
    moreover have "sorted_wrt (<) (map frame_ordinal (butlast frames @ [last frames]))" using c nonempty by simp
    ultimately show ?thesis by (force simp: sorted_wrt_append)
  qed simp
  ultimately show ?thesis by simp
qed

lemma pushes_collected:
  assumes "collected keys frames r" and "pushes new r = Some r'" and "\<forall>f \<in> set new. pushable keys f"
  shows "collected keys (frames @ new) r'"
  using assms
proof (induction new arbitrary: frames r)
  case (Cons f new)
  from Cons.prems(2) obtain r1 where p: "push_run f r = Some (Inr (True, r1))" "pushes new r1 = Some r'"
    by (auto split: option.splits sum.splits bool.splits)
  have "\<forall>g \<in> set frames. frame_ordinal g < frame_ordinal f" using push_advances [OF Cons.prems(1) p(1)] by blast
  from push_run_collected [OF Cons.prems(1) _ this] Cons.prems(3) p(1) have "collected keys (frames @ [f]) r1" by auto
  from Cons.IH [OF this p(2)] Cons.prems(3) show ?case by simp
qed simp

text \<open>Strictly sorted frames: no two of one sort are equal.\<close>

definition frames_sorted :: "row_layout \<Rightarrow> u8 list list \<Rightarrow> bool" where
  "frames_sorted keys = sorted_wrt (\<lambda>a b. frame_order keys a b = OrderLess)"

lemma frames_sorted_le:
  assumes "sorted_wrt (\<lambda>a b. frame_order keys a b \<noteq> OrderGreater) xs" and "distinct (map frame_ordinal xs)"
    and "\<forall>f \<in> set xs. frame_ok keys f"
  shows "frames_sorted keys xs"
  using assms
proof (induction xs)
  case (Cons x xs)
  have "frame_order keys x y = OrderLess" if "y \<in> set xs" for y
    using Cons.prems that frame_order_strict [of keys x y] by (cases "frame_order keys x y") auto
  with Cons show ?case by (simp add: frames_sorted_def)
qed (simp add: frames_sorted_def)

lemma final_frames:
  assumes "collected keys frames r"
  shows "mset (map (span_bytes (concat frames)) (spans.sort_result keys (concat frames) 1 (run_spans r))) = mset frames"
    and "frames_sorted keys (map (span_bytes (concat frames)) (spans.sort_result keys (concat frames) 1 (run_spans r)))"
proof -
  note c = assms [unfolded collected_def]
  let ?final = "spans.sort_result keys (concat frames) 1 (run_spans r)"
  have ok: "\<forall>s \<in> set (run_spans r). span_ok keys (concat frames) s"
    and map: "map (span_bytes (concat frames)) (run_spans r) = frames" using c by metis+
  have s: "sorted_wrt (spans.le keys (concat frames)) ?final" "mset ?final = mset (run_spans r)"
    using spans.sort_result_sorts [OF _ ok spans.chunks_sorted_one] by simp_all
  have "mset (map (span_bytes (concat frames)) ?final) = mset (map (span_bytes (concat frames)) (run_spans r))"
    by (simp only: mset_map s(2))
  then show m: "mset (map (span_bytes (concat frames)) ?final) = mset frames" by (simp only: map)
  show "frames_sorted keys (map (span_bytes (concat frames)) ?final)"
  proof (rule frames_sorted_le)
    show "sorted_wrt (\<lambda>a b. frame_order keys a b \<noteq> OrderGreater) (map (span_bytes (concat frames)) ?final)"
      using s(1) unfolding sorted_wrt_map spans.le_def [abs_def] span_order_def .
    have "distinct (map frame_ordinal frames)" using c strict_sorted_iff by blast
    then show "distinct (map frame_ordinal (map (span_bytes (concat frames)) ?final))"
      by (metis m mset_eq_imp_distinct_iff mset_map)
    have "set ?final = set (run_spans r)" using s(2) by (rule mset_eq_setD)
    with ok show "\<forall>f \<in> set (map (span_bytes (concat frames)) ?final). frame_ok keys f" by (auto simp: span_ok_def)
  qed
qed

text \<open>C37: Initial runs are sorted and end. Records pushed into a new buffer until it begins its run
  are sorted and written in at most \<open>n * k + n + 1\<close> bounded steps when \<open>n \<le> 2 ^ k\<close> rows were
  collected, whatever the host does: no assertion or index fails, and either some call was
  refused and the buffer is left failed, or the first scratch file has received a valid header
  followed by exactly the pushed records in strictly increasing order of their keys and then row
  number. On a host that grants every request and has room for the run the steps succeed.\<close>

theorem initial_runs_are_sorted:
  assumes "new_run bytes rows = Inr r0" and "bytes < 2 ^ 63" and "pushes frames r0 = Some r"
    and "\<forall>f \<in> set frames. pushable keys f" and "frames \<noteq> []" and "index < max_aggregate_rows"
    and "writer_ok 0 w io" and "length frames \<le> 2 ^ k"
  shows "\<exists>r1 header r2 res. begin_run index r = Some (Inr r1)
    \<and> run_header \<lparr>id_pass = 0, id_index = index\<rparr> (length frames) (length (concat frames)) = Inr header
    \<and> run_steps keys (length frames * k + length frames + 1) r1 w io = Some (r2, res)
    \<and> (case res of
         Inl e \<Rightarrow> run_state r2 = RunFailed
           \<and> \<not> (quiet io \<and> length (content 0 w io) + length header + length (concat frames) \<le> space 0 io \<and> space 0 io < 2 ^ 64)
       | Inr (finished, w', io') \<Rightarrow> finished \<and> run_state r2 = RunDone
           \<and> (\<exists>sorted. mset sorted = mset frames \<and> frames_sorted keys sorted
               \<and> content 0 w' io' = content 0 w io @ header @ concat sorted))"
proof -
  have "collected keys [] r0" using new_run_collected [OF assms(1,2)] by simp
  from pushes_collected [OF this assms(3,4)] have c: "collected keys frames r" by simp
  let ?final = "spans.sort_result keys (concat frames) 1 (run_spans r)"
  let ?sorted = "map (span_bytes (concat frames)) ?final"
  from begin_run_collected [OF c assms(4-7)] obtain r1 header where b: "begin_run index r = Some (Inr r1)"
      "run_header \<lparr>id_pass = 0, id_index = index\<rparr> (length frames) (length (concat frames)) = Inr header"
      "run_ready keys ?final header (content 0 w io) r1 w io" "run_arena r1 = concat frames"
      "steps_left r1 \<le> sort_cost 1 (length frames) + length frames + 1" by blast
  have "steps_left r1 \<le> length frames * k + length frames + 1"
    using b(5) sort_cost_bound [of "length frames" 1 k] assms(8) by simp
  from run_steps_finish [OF b(3) this] obtain r2 res where r: "run_steps keys (length frames * k + length frames + 1) r1 w io = Some (r2, res)"
    "case res of
       Inl e \<Rightarrow> run_state r2 = RunFailed \<and> \<not> (quiet io \<and> run_fits ?final header (content 0 w io) r1 io)
     | Inr (finished, w', io') \<Rightarrow> finished \<and> run_state r2 = RunDone \<and> run_arena r2 = run_arena r1
         \<and> run_ready keys ?final header (content 0 w io) r2 w' io' \<and> only_slot 0 io io'" by blast
  note f = final_frames [OF c]
  have "length (concat ?sorted) = length (concat frames)"
    unfolding length_concat using f(1) by (metis mset_map sum_mset_sum_list)
  then have fits: "run_fits ?final header (content 0 w io) r1 io \<longleftrightarrow>
      length (content 0 w io) + length header + length (concat frames) \<le> space 0 io \<and> space 0 io < 2 ^ 64"
    by (simp add: run_fits_def run_output_bytes_def b(4) add.assoc)
  show ?thesis
  proof (cases res)
    case (Inl e)
    with r fits b show ?thesis by auto
  next
    case (Inr y)
    obtain finished w' io' where y: "y = (finished, w', io')" by (cases y)
    have out: "content 0 w' io' = content 0 w io @ header @ concat ?sorted" and "finished" "run_state r2 = RunDone"
      using r(2) Inr y b(4) by (auto simp: run_ready_def run_output_bytes_def)
    moreover have "\<exists>sorted. mset sorted = mset frames \<and> frames_sorted keys sorted
        \<and> content 0 w' io' = content 0 w io @ header @ concat sorted"
      by (rule exI [of _ ?sorted]) (intro conjI f out)
    ultimately show ?thesis using r(1) b(1,2) Inr y by auto
  qed
qed

lemma sample_frames:
  assumes "with_keys sample_inputs2 sample_order = Inr lay" and "layout_max_bytes lay = 65550"
    and "inputs_fit sample_inputs2 cells" and "unat ordinal < max_aggregate_rows"
  shows "\<exists>bytes. frame_of lay row_arguments [] (\<lambda>_. []) (layout_row lay cells) ordinal bytes
    \<and> pushable lay bytes \<and> frame_ordinal bytes = ordinal \<and> length bytes \<le> 65600"
proof -
  note facts = layout_row_facts [OF assms(1,3)]
  let ?key = "layout_row lay cells"
  let ?w = "row_record (replicate record_header 0 @ ?key) 65600"
  obtain tag where tag: "shape_layout row_arguments lay = Some tag" by (simp add: shape_layout_def row_arguments_def)
  have valid: "validate_row lay ?key = Inr ()" using facts(1,2) by (auto simp: validate_row_Inr layout_row_def)
  obtain r where r: "finish_with_text tag (length ?key) ordinal [] (texts_before row_arguments (\<lambda>_. []) (shape_count row_arguments)) ?w = Some (Inr r)"
    using facts(2) assms(2,4)
    by (simp add: finish_with_text_def row_record_def record_header_def Let_def not_le)
  have w: "rec_bytes ?w = replicate record_header 0 @ ?key" "rec_limit ?w = 65600" by (simp_all add: row_record_def)
  have small: "65600 \<le> max_frame_bytes"
    by (simp add: max_frame_bytes_def record_header_def max_row_values_def max_text_bytes_def)
  have f: "frame_of lay row_arguments [] (\<lambda>_. []) ?key ordinal (rec_bytes r)"
    by (rule finish_frame_of [OF r w(1) tag]) (use facts(2) w(2) small valid in simp_all)
  have "layout_keys lay \<le> length (layout_columns lay)" using with_keys_Inr(2,3) [OF assms(1)] by simp
  note facts' = frame_of_facts [OF f this]
  have "length (rec_bytes r) \<le> 65600" using finish_with_text_Inr [OF r w(1)] w(2) by auto
  with f facts' show ?thesis by (auto simp: pushable_def)
qed

lemma sample_pushed:
  "\<exists>lay f g r0 r. with_keys sample_inputs2 sample_order = Inr lay \<and> new_run 200000 4 = Inr r0 \<and> pushes [f, g] r0 = Some r
    \<and> (\<forall>x \<in> set [f, g]. pushable lay x)"
proof -
  from sample_layout obtain lay where lay: "with_keys sample_inputs2 sample_order = Inr lay" "layout_max_bytes lay = 65550" by blast
  have "unat (0 :: u64) < max_aggregate_rows" "unat (1 :: u64) < max_aggregate_rows" by (simp_all add: max_aggregate_rows_def)
  with sample_frames [OF lay sample_inputs_fit(1), of 0] sample_frames [OF lay sample_inputs_fit(2), of 1]
  obtain f g where f: "pushable lay f" "frame_ordinal f = 0" "length f \<le> 65600"
    and g: "pushable lay g" "frame_ordinal g = 1" "length g \<le> 65600" by blast
  have "16384 < unat (200000 :: u64)" by simp
  then obtain r0 where r0: "new_run 200000 4 = Inr r0"
    by (simp add: new_run_def record_header_def max_aggregate_rows_def buffer_capacity_cases)
  from new_run_collected [OF r0] have c: "collected lay [] r0" "run_byte_limit r0 = 200000" "run_row_limit r0 = 4" by simp_all
  from push_run_collected [OF c(1) f(1)] c(2,3) f(3) obtain r1 where
    r1: "push_run f r0 = Some (Inr (True, r1))" "collected lay [f] r1" "run_byte_limit r1 = 200000" "run_row_limit r1 = 4" by auto
  from push_run_collected [OF r1(2) g(1)] r1(3,4) f g obtain r2 where "push_run g r1 = Some (Inr (True, r2))" by auto
  with r1(1) have "pushes [f, g] r0 = Some r2" by simp
  with lay(1) r0 f(1) g(1) show ?thesis by fastforce
qed

definition sort_files :: scratch_io where
  "sort_files = \<lparr>io_files = [[], []], io_budget = 300000, io_polls = [], io_faults = []\<rparr>"

theorem initial_runs_are_sorted_witness:
  "\<exists>lay f g r0 r. with_keys sample_inputs2 sample_order = Inr lay \<and> new_run 200000 4 = Inr r0 \<and> pushes [f, g] r0 = Some r
    \<and> (\<exists>r1 header r2 res. begin_run 0 r = Some (Inr r1)
      \<and> run_header \<lparr>id_pass = 0, id_index = 0\<rparr> (length [f, g]) (length (concat [f, g])) = Inr header
      \<and> run_steps lay (length [f, g] * 1 + length [f, g] + 1) r1 new_writer sort_files = Some (r2, res)
      \<and> (case res of
           Inl e \<Rightarrow> run_state r2 = RunFailed
             \<and> \<not> (quiet sort_files \<and> length (content 0 new_writer sort_files) + length header + length (concat [f, g]) \<le> space 0 sort_files
                \<and> space 0 sort_files < 2 ^ 64)
         | Inr (finished, w', io') \<Rightarrow> finished \<and> run_state r2 = RunDone
             \<and> (\<exists>sorted. mset sorted = mset [f, g] \<and> frames_sorted lay sorted
                 \<and> content 0 w' io' = content 0 new_writer sort_files @ header @ concat sorted)))"
proof -
  from sample_pushed obtain lay f g r0 r where s: "with_keys sample_inputs2 sample_order = Inr lay" "new_run 200000 4 = Inr r0"
    "pushes [f, g] r0 = Some r" "\<forall>x \<in> set [f, g]. pushable lay x" by blast
  have w: "writer_ok 0 new_writer sort_files" by (simp add: writer_ok_def new_writer_def sort_files_def)
  have "\<exists>r1 header r2 res. begin_run 0 r = Some (Inr r1)
      \<and> run_header \<lparr>id_pass = 0, id_index = 0\<rparr> (length [f, g]) (length (concat [f, g])) = Inr header
      \<and> run_steps lay (length [f, g] * 1 + length [f, g] + 1) r1 new_writer sort_files = Some (r2, res)
      \<and> (case res of
           Inl e \<Rightarrow> run_state r2 = RunFailed
             \<and> \<not> (quiet sort_files \<and> length (content 0 new_writer sort_files) + length header + length (concat [f, g]) \<le> space 0 sort_files
                \<and> space 0 sort_files < 2 ^ 64)
         | Inr (finished, w', io') \<Rightarrow> finished \<and> run_state r2 = RunDone
             \<and> (\<exists>sorted. mset sorted = mset [f, g] \<and> frames_sorted lay sorted
                 \<and> content 0 w' io' = content 0 new_writer sort_files @ header @ concat sorted))"
    by (rule initial_runs_are_sorted [OF s(2) _ s(3,4) _ _ w]) (simp_all add: max_aggregate_rows_def)
  with s(1-3) show ?thesis by blast
qed

end
