(* ===== verification/Merge_Cursors.thy ===== *)
theory Merge_Cursors
  imports Run_Merge Run_Properties
begin

text \<open>
  A cursor delivers the frames of its run in order, and two cursors over sorted runs are merged
  into one sorted run, whatever the host does between the calls.
\<close>

section \<open>Frames of a sort\<close>

definition stored :: "row_layout \<Rightarrow> argument_shape \<Rightarrow> u8 list \<Rightarrow> bool" where
  "stored keys shape bytes \<longleftrightarrow> (\<exists>arguments txts key ordinal. frame_of keys shape arguments txts key ordinal bytes)"

text \<open>What the planner's layouts satisfy.\<close>

definition layout_sound :: "row_layout \<Rightarrow> bool" where
  "layout_sound keys \<longleftrightarrow>
     layout_keys keys \<le> length (layout_columns keys)
     \<and> sum_list (map (field_bytes \<circ> key_kind) (take (layout_keys keys) (layout_columns keys))) \<le> layout_key_max_bytes keys
     \<and> layout_key_max_bytes keys < 2 ^ 32"

lemma length_texts_before:
  assumes "arguments_fit shape arguments txts" and "n \<le> shape_count shape"
  shows "length (concat (texts_before shape txts n)) \<le> length (filter (bit (shape_text shape)) [0..<n]) * max_text_bytes"
  using assms(2)
proof (induction n)
  case (Suc n)
  have "bit (shape_text shape) n \<Longrightarrow> length (txts n) \<le> max_text_bytes"
    using assms(1) Suc.prems unfolding arguments_fit_def by (metis Suc_le_lessD)
  with Suc show ?case by (auto simp: texts_before_Suc)
qed (simp add: texts_before_def)

lemma stored_facts:
  assumes "stored keys shape bytes" and "layout_sound keys"
  shows "pushable keys bytes" and "length bytes \<le> record_header + layout_max_bytes keys + max_payload_bytes shape"
proof -
  from assms(1) obtain arguments txts key ordinal where f: "frame_of keys shape arguments txts key ordinal bytes"
    by (auto simp: stored_def)
  have keys: "layout_keys keys \<le> length (layout_columns keys)" using assms(2) by (simp add: layout_sound_def)
  show "pushable keys bytes" using frame_of_facts [OF f keys] by (simp add: pushable_def)
  from f have g: "arguments_fit shape arguments txts" "length key \<le> layout_max_bytes keys" "\<not> shape_invalid shape"
    and len: "length bytes = record_header + length key + length arguments * 8 + length (concat (texts_before shape txts (shape_count shape)))"
    by (auto simp: frame_of_def)
  have count: "shape_count shape \<le> 16" using g(3) by (simp add: shape_invalid_def max_aggregate_columns_def)
  then have "[0..<16] = [0..<shape_count shape] @ [shape_count shape..<16]" by (metis le_add_diff_inverse upt_add_eq_append zero_le)
  then have "length (filter (bit (shape_text shape)) [0..<shape_count shape]) \<le> length (filter (bit (shape_text shape)) [0..<16])"
    by simp
  then have "length (filter (bit (shape_text shape)) [0..<shape_count shape]) * max_text_bytes \<le> shape_text_bytes shape"
    unfolding shape_text_bytes_def by (rule mult_le_mono1)
  with length_texts_before [OF g(1) order_refl] g(1,2) len
  show "length bytes \<le> record_header + layout_max_bytes keys + max_payload_bytes shape"
    by (simp add: max_payload_bytes_def arguments_fit_def)
qed

section \<open>Cursors\<close>

text \<open>The buffers of a cursor between runs.\<close>

definition cursor_store :: "row_layout \<Rightarrow> argument_shape \<Rightarrow> run_cursor \<Rightarrow> bool" where
  "cursor_store keys shape c \<longleftrightarrow>
     rec_limit (cur_record c) = record_header + layout_max_bytes keys + max_payload_bytes shape
     \<and> record_header \<le> rec_capacity (cur_record c) \<and> reader_sound (cur_reader c)"

lemma reader_sound_clear [simp]: "reader_sound (clear_reader r) = reader_sound r"
  by (simp add: reader_sound_def clear_reader_def)

text \<open>The cursor is about to deliver these frames.\<close>

definition cursor_at :: "row_layout \<Rightarrow> argument_shape \<Rightarrow> nat \<Rightarrow> scratch_io \<Rightarrow> u8 list list \<Rightarrow> run_cursor \<Rightarrow> bool" where
  "cursor_at keys shape slot io frames c \<longleftrightarrow>
     cur_remaining c = length frames \<and> (\<forall>f \<in> set frames. stored keys shape f)
     \<and> cursor_store keys shape c \<and> reads_at slot io (cur_reader c)
     \<and> (case cur_run c of
          None \<Rightarrow> frames = []
        | Some run \<Rightarrow> cur_offset c + length (concat frames) = extent_end run
            \<and> extent_end run \<le> length (io_files io ! slot) \<and> length (io_files io ! slot) < 2 ^ 64
            \<and> slice (io_files io ! slot) (cur_offset c) (length (concat frames)) = concat frames)
     \<and> (cur_loaded c \<longrightarrow> frames \<noteq> [] \<and> rec_bytes (cur_record c) = hd frames)"

lemma cursor_at_same:
  "cursor_at keys shape slot io frames c \<Longrightarrow> io_files io' ! slot = io_files io ! slot \<Longrightarrow> cursor_at keys shape slot io' frames c"
  using reads_at_same [of slot io "cur_reader c" io'] by (simp add: cursor_at_def split: option.splits)

lemma cursor_at_only:
  "cursor_at keys shape slot io frames c \<Longrightarrow> only_slot out io io' \<Longrightarrow> slot \<noteq> out \<Longrightarrow> cursor_at keys shape slot io' frames c"
  by (rule cursor_at_same) (auto simp: only_slot_def)

lemma load_cursor_answers:
  assumes c: "cursor_at keys shape slot io frames c" and slot: "slot < 2" and quiet: "granted \<longrightarrow> quiet io"
    and layout: "layout_sound keys"
  shows "answers granted (load_cursor slot keys shape c io)
    (\<lambda>(c', io'). same_host io io' \<and> cursor_at keys shape slot io' frames c' \<and> (cur_loaded c' \<longleftrightarrow> frames \<noteq> []))"
proof (cases "frames = [] \<or> cur_loaded c")
  case True
  with c show ?thesis
    by (auto simp: load_cursor_def cursor_at_def ends_short_def split: option.splits)
next
  case False
  then obtain f fs where frames: "frames = f # fs" by (cases frames) auto
  note d = c [unfolded cursor_at_def]
  from d frames obtain run where run: "cur_run c = Some run" "cur_offset c + length (concat frames) = extent_end run"
      "extent_end run \<le> length (io_files io ! slot)" "length (io_files io ! slot) < 2 ^ 64"
      "slice (io_files io ! slot) (cur_offset c) (length (concat frames)) = concat frames"
    by (auto split: option.splits)
  have stored: "stored keys shape f" using d frames by simp
  then obtain arguments txts key ordinal where fr: "frame_of keys shape arguments txts key ordinal f" by (auto simp: stored_def)
  have at: "slice (io_files io ! slot) (cur_offset c) (length f) = f" "cur_offset c + length f \<le> extent_end run"
    using run(2,5) slice_prefix(1) [of "io_files io ! slot" "cur_offset c" f "concat fs"] unfolding frames by simp_all
  have limit: "length f \<le> rec_limit (cur_record c)" using stored_facts(2) [OF stored layout] d by (simp add: cursor_store_def)
  have "reader_ok io (cur_reader c)" using d reads_at_ok by blast
  from read_record_answers [OF fr quiet this slot at run(3,4) limit]
  have r: "answers granted (read_record slot (cur_offset c) (extent_end run) keys shape (cur_record c) (cur_reader c) io)
    (\<lambda>((r', reader'), io'). r' = cur_record c\<lparr>rec_bytes := f\<rparr> \<and> same_host io io' \<and> reads_at slot io' reader')" .
  have keep: "cursor_at keys shape slot io' frames (c\<lparr>cur_record := cur_record c\<lparr>rec_bytes := f\<rparr>, cur_reader := reader', cur_loaded := True\<rparr>)"
    if "same_host io io'" "reads_at slot io' reader'" for reader' io'
    using d that frames run reader_sound_ok [OF reads_at_ok [OF that(2)]]
    by (simp add: cursor_at_def same_host_def cursor_store_def)
  have "load_cursor slot keys shape c io =
      following (read_record slot (cur_offset c) (extent_end run) keys shape (cur_record c) (cur_reader c) io)
          (\<lambda>((r, reader), io). Some (Inr (c\<lparr>cur_record := r, cur_reader := reader, cur_loaded := True\<rparr>, io)))"
    using False d run by (simp add: load_cursor_def)
  then show ?thesis using keep frames by (auto intro!: answers_following [OF r])
qed

lemma consume_cursor_next:
  assumes "cursor_at keys shape slot io (f # frames) c" and "cur_loaded c"
  shows "\<exists>c'. consume_cursor c = Some (Inr c') \<and> cursor_at keys shape slot io frames c' \<and> \<not> cur_loaded c'"
proof -
  note d = assms(1) [unfolded cursor_at_def]
  from d obtain run where run: "cur_run c = Some run" "cur_offset c + length (concat (f # frames)) = extent_end run"
      "extent_end run \<le> length (io_files io ! slot)" "length (io_files io ! slot) < 2 ^ 64"
      "slice (io_files io ! slot) (cur_offset c) (length (concat (f # frames))) = concat (f # frames)"
    by (auto split: option.splits)
  have bytes: "rec_bytes (cur_record c) = f" "cur_remaining c = Suc (length frames)" using d assms(2) by simp_all
  have "slice (io_files io ! slot) (cur_offset c + length f) (length (concat frames)) = concat frames"
    using slice_prefix(2) [of "io_files io ! slot" "cur_offset c" f "concat frames"] run(5) by simp
  with d run bytes assms(2) show ?thesis
    by (simp add: consume_cursor_def usize_or_def cursor_at_def cursor_store_def)
qed

lemma begin_cursor_at:
  assumes "cursor_store keys shape c"
    and "\<forall>f \<in> set frames. stored keys shape f"
    and "case run of
        None \<Rightarrow> frames = []
      | Some run \<Rightarrow> extent_rows run = length frames \<and> extent_start run + length (concat frames) = extent_end run
          \<and> extent_end run \<le> length (io_files io ! slot) \<and> length (io_files io ! slot) < 2 ^ 64
          \<and> slice (io_files io ! slot) (extent_start run) (length (concat frames)) = concat frames"
  shows "\<exists>c'. begin_cursor run c = Some c' \<and> cursor_at keys shape slot io frames c'"
  using assms reads_at_clear [of "cur_reader c" slot io]
  by (auto simp: begin_cursor_def cursor_store_def cursor_at_def split: option.splits)

section \<open>Run headers\<close>

text \<open>A run as the file holds it: its header, then its frames.\<close>

definition run_image :: "nat \<Rightarrow> nat \<Rightarrow> u8 list list \<Rightarrow> u8 list" where
  "run_image pass index frames =
     (case run_header \<lparr>id_pass = pass, id_index = index\<rparr> (length frames) (length (concat frames)) of
        Inr header \<Rightarrow> header @ concat frames
      | Inl e \<Rightarrow> [])"

lemma run_header_fields:
  assumes "run_header ident rows bytes = Inr header" and "bytes < 2 ^ 64"
  shows "slice header 16 8 = u64_bytes (word_of_nat rows)" and "slice header 24 8 = u64_bytes (word_of_nat bytes)"
    and "unat (u64_of_bytes (slice header 16 8)) = rows" and "unat (u64_of_bytes (slice header 24 8)) = bytes"
proof -
  have magic: "length run_magic = 8" by (simp add: run_magic_def)
  from assms(1) have rows: "rows \<le> max_aggregate_rows" and h: "header = put (run_magic @ u32_bytes (word_of_nat (id_pass ident)) @ u32_bytes (word_of_nat (id_index ident))
      @ u64_bytes (word_of_nat rows) @ u64_bytes (word_of_nat bytes) @ replicate 8 0) 32 (u32_bytes (crc32c (run_magic
      @ u32_bytes (word_of_nat (id_pass ident)) @ u32_bytes (word_of_nat (id_index ident))
      @ u64_bytes (word_of_nat rows) @ u64_bytes (word_of_nat bytes) @ replicate 8 0)))"
    by (auto simp: run_header_def Let_def split: if_splits)
  show s: "slice header 16 8 = u64_bytes (word_of_nat rows)" "slice header 24 8 = u64_bytes (word_of_nat bytes)"
    unfolding h by (simp_all add: slice_def put_def magic)
  have "rows < 2 ^ 64" using rows by (simp add: max_aggregate_rows_def)
  then show "unat (u64_of_bytes (slice header 16 8)) = rows" unfolding s by (simp add: unat_of_nat)
  show "unat (u64_of_bytes (slice header 24 8)) = bytes" unfolding s using assms(2) by (simp add: unat_of_nat)
qed

lemma read_run_answers:
  assumes quiet: "granted \<longrightarrow> quiet io" and reader: "reader_ok io reader" and slot: "slot < 2"
    and header: "run_header ident (length frames) (length (concat frames)) = Inr header"
    and at: "slice (io_files io ! slot) offset (length (header @ concat frames)) = header @ concat frames"
      "offset + length (header @ concat frames) \<le> limit" "limit \<le> length (io_files io ! slot)" "length (io_files io ! slot) < 2 ^ 64"
  shows "answers granted (read_run slot offset limit ident reader io)
    (\<lambda>(run, reader', io'). same_host io io' \<and> reads_at slot io' reader'
      \<and> run = \<lparr>extent_start = offset + run_header_bytes, extent_end = offset + run_header_bytes + length (concat frames),
               extent_rows = length frames\<rparr>)"
proof -
  have len: "length header = run_header_bytes" by (rule run_header_Inr(1) [OF header])
  have small: "length (concat frames) < 2 ^ 64" using at(2-4) by simp
  note fields = run_header_fields [OF header small]
  note s = slice_prefix [OF at(1)]
  have "answers granted (buffered_read slot offset limit run_header_bytes reader io)
      (\<lambda>((b, reader'), io'). b = slice (io_files io ! slot) offset run_header_bytes \<and> same_host io io' \<and> reads_at slot io' reader')"
    by (rule buffered_read_answers [OF quiet reader slot _ _ at(3,4)])
      (use at(2) len in \<open>simp_all add: run_header_bytes_def max_frame_bytes_def record_header_def max_row_values_def max_text_bytes_def\<close>)
  then have r: "answers granted (buffered_read slot offset limit run_header_bytes reader io)
      (\<lambda>((b, reader'), io'). b = header \<and> same_host io io' \<and> reads_at slot io' reader')"
    using s(1) len by simp
  show ?thesis
    unfolding read_run_def
    by (rule answers_following [OF r]) (use fields(3,4) header at(2-4) len in \<open>auto simp: usize_or_def\<close>)
qed

end
