(* ===== verification/Merge_Pairs.thy ===== *)
theory Merge_Pairs
  imports Merge_Cursors
begin

text \<open>
  Two sorted runs become one: every step of a pair merge writes a prefix of the merged list of
  frames and leaves the rest to the cursors, and each step writes a record or finishes.
\<close>

section \<open>The check on the written order\<close>

lemma sort_prefix_compare:
  assumes "frame_ok keys a" and "frame_ok keys b" and "layout_sound keys"
  shows "\<exists>prefix. sort_prefix keys (frame_key a) = Inr prefix \<and> length prefix \<le> layout_key_max_bytes keys
    \<and> compare_rows keys prefix (frame_key b) = compare_rows keys (frame_key a) (frame_key b)"
proof -
  let ?cs = "take (layout_keys keys) (layout_columns keys)"
  from frame_columns [OF assms(1)] obtain va ra where a: "values_fit ?cs va" "frame_key a = values_bytes va @ ra" by blast
  from frame_columns [OF assms(2)] obtain vb rb where b: "values_fit ?cs vb" "frame_key b = values_bytes vb @ rb" by blast
  have bound: "length (values_bytes va) \<le> layout_key_max_bytes keys"
    using values_bytes_bound [OF a(1)] assms(3) by (simp add: layout_sound_def)
  show ?thesis
  proof (cases "layout_keys keys = length (layout_columns keys)")
    case True
    from assms(1) obtain ws where "values_fit (layout_columns keys) ws" "frame_key a = values_bytes ws"
      by (auto simp: frame_ok_def validate_row_Inr)
    then have "length (frame_key a) \<le> layout_key_max_bytes keys"
      using values_bytes_bound [of "layout_columns keys" ws] assms(3) True by (simp add: layout_sound_def)
    with True show ?thesis by (simp add: sort_prefix_def)
  next
    case False
    have "skip_values ?cs (frame_key a) = Inr ra" using skip_values_fit [OF a(1)] a(2) by simp
    then have "sort_prefix keys (frame_key a) = Inr (values_bytes va)" using False a(2) by (simp add: sort_prefix_def)
    moreover have "compare_rows keys (values_bytes va) (frame_key b) = compare_rows keys (frame_key a) (frame_key b)"
      using compare_columns_fit [OF a(1) b(1), of "[]" rb] compare_columns_fit [OF a(1) b(1), of ra rb]
      by (simp add: compare_rows_def compare_prefix_def a(2) b(2))
    ultimately show ?thesis using bound by simp
  qed
qed

lemma check_order_passes:
  assumes "frame_ok keys a" and "frame_ok keys b" and "layout_sound keys"
    and "pair_ordinal p = Some (frame_ordinal a)" and "sort_prefix keys (frame_key a) = Inr (pair_key p)"
    and "frame_order keys a b = OrderLess"
  shows "check_order keys p b = Some (Inr ())"
proof -
  from sort_prefix_compare [OF assms(1-3)] assms(5)
  have c: "compare_rows keys (pair_key p) (frame_key b) = compare_rows keys (frame_key a) (frame_key b)" by auto
  from frame_order_ok [OF assms(1,2)] obtain ord where
    "compare_rows keys (frame_key a) (frame_key b) = Some (Inr ord)"
    "and_then ord (order_of (int (unat (frame_ordinal a))) (int (unat (frame_ordinal b)))) = OrderLess"
    using assms(6) by (auto simp: compare_encoded_def split: if_splits sum.splits) (metis id_apply map_sum.simps old.sum.exhaust sum.inject(2) sum.distinct(1))
  with c assms(4) show ?thesis by (simp add: check_order_def)
qed

section \<open>Writing to the other file\<close>

lemma other_slot_facts:
  assumes "slot < 2"
  shows "other_slot slot < 2" and "other_slot slot \<noteq> slot" and "other_slot (other_slot slot) = slot"
  using assms by (auto simp: other_slot_def less_2_cases_iff)

text \<open>A granting host with room for a file of this size beside the other one.\<close>

definition roomy :: "bool \<Rightarrow> nat \<Rightarrow> nat \<Rightarrow> scratch_io \<Rightarrow> bool" where
  "roomy granted slot need io \<longleftrightarrow> (granted \<longrightarrow> quiet io \<and> need \<le> space slot io \<and> space slot io < 2 ^ 64)"

lemma roomy_quiet: "roomy granted slot need io \<Longrightarrow> granted \<longrightarrow> quiet io"
  by (simp add: roomy_def)

lemma roomy_host: "roomy granted slot need io \<Longrightarrow> same_host io io' \<Longrightarrow> roomy granted slot need io'"
  by (auto simp: roomy_def same_host_def)

lemma append_output_answers:
  assumes "writer_ok out w io" and "out < 2" and "length input \<le> max_frame_bytes" and "roomy granted out need io"
    and "length (content out w io) + length input \<le> need"
  shows "answers granted (append_output out input w io)
    (\<lambda>(w', io'). writer_ok out w' io' \<and> content out w' io' = content out w io @ input \<and> only_slot out io io'
      \<and> roomy granted out need io' \<and> (granted \<longrightarrow> space out io' = space out io))"
proof (cases "append_output out input w io")
  case None
  with append_output_not_None [OF assms(1)] show ?thesis by blast
next
  case (Some res)
  have q: "\<exists>w' io'. append_output out input w io = Some (Inr (w', io')) \<and> quiet io' \<and> space out io' = space out io" if granted
    using append_output_quiet [OF _ assms(1-3)] assms(4,5) that by (simp add: roomy_def)
  show ?thesis
  proof (cases res)
    case (Inl e)
    with Some q show ?thesis by auto
  next
    case (Inr y)
    obtain w' io' where y: "y = (w', io')" by (cases y)
    have a: "append_output out input w io = Some (Inr (w', io'))" using Some Inr y by simp
    with append_output_Inr [OF a assms(1)] q assms(4) show ?thesis by (auto simp: roomy_def)
  qed
qed

lemma writer_position: "writer_ok slot w io \<Longrightarrow> length (content slot w io) < 2 ^ 64 \<Longrightarrow>
    write_position w = Inr (length (content slot w io))"
  by (simp add: write_position_def usize_or_def writer_ok_def content_def)

section \<open>The pair\<close>

definition pair_idle :: "row_layout \<Rightarrow> argument_shape \<Rightarrow> pair_merge \<Rightarrow> bool" where
  "pair_idle keys shape p \<longleftrightarrow>
     pair_finished p \<and> pair_shape p = shape \<and> layout_key_max_bytes keys \<le> pair_key_capacity p
     \<and> cursor_store keys shape (pair_left p) \<and> cursor_store keys shape (pair_right p)"

text \<open>Part of the merged run is written; the cursors hold the rest.\<close>

definition pair_inv ::
    "bool \<Rightarrow> row_layout \<Rightarrow> argument_shape \<Rightarrow> nat \<Rightarrow> u8 list \<Rightarrow> u8 list list \<Rightarrow> pair_merge \<Rightarrow> write_buffer \<Rightarrow> scratch_io \<Rightarrow> bool" where
  "pair_inv granted keys shape slot before merged p w io \<longleftrightarrow>
     (\<exists>left right written.
        merged = written @ frames.merge_lists keys left right
        \<and> cursor_at keys shape slot io left (pair_left p) \<and> cursor_at keys shape slot io right (pair_right p)
        \<and> pair_remaining p = length left + length right
        \<and> content (other_slot slot) w io = before @ concat written
        \<and> (case pair_ordinal p of
             None \<Rightarrow> written = []
           | Some ordinal \<Rightarrow> written \<noteq> [] \<and> ordinal = frame_ordinal (last written)
               \<and> sort_prefix keys (frame_key (last written)) = Inr (pair_key p)))
     \<and> pair_input p = slot \<and> pair_shape p = shape \<and> layout_key_max_bytes keys \<le> pair_key_capacity p
     \<and> pair_expected_end p = length (before @ concat merged)
     \<and> writer_ok (other_slot slot) w io \<and> roomy granted (other_slot slot) (length (before @ concat merged)) io"

definition merge_target :: "row_layout \<Rightarrow> argument_shape \<Rightarrow> nat \<Rightarrow> u8 list \<Rightarrow> u8 list list \<Rightarrow> bool" where
  "merge_target keys shape slot before merged \<longleftrightarrow>
     layout_sound keys \<and> slot < 2 \<and> frames_sorted keys merged \<and> (\<forall>f \<in> set merged. stored keys shape f)
     \<and> length (before @ concat merged) < 2 ^ 64"

lemma frames_sorted_last:
  assumes "frames_sorted keys (written @ f # rest)" and "written \<noteq> []"
  shows "frame_order keys (last written) f = OrderLess"
  using assms by (auto simp: frames_sorted_def sorted_wrt_append)

text \<open>Writing the next frame, whichever side holds it.\<close>

lemma emit_record_answers:
  assumes target: "merge_target keys shape slot before merged"
    and merged: "merged = written @ f # rest"
    and selected: "cursor_at keys shape slot io (f # fs) (if take_left then pair_left p else pair_right p)"
      "cur_loaded (if take_left then pair_left p else pair_right p)"
    and p: "pair_input p = slot" "pair_shape p = shape" "layout_key_max_bytes keys \<le> pair_key_capacity p"
    and previous: "case pair_ordinal p of
        None \<Rightarrow> written = []
      | Some ordinal \<Rightarrow> written \<noteq> [] \<and> ordinal = frame_ordinal (last written)
          \<and> sort_prefix keys (frame_key (last written)) = Inr (pair_key p)"
    and w: "writer_ok (other_slot slot) w io" "roomy granted (other_slot slot) (length (before @ concat merged)) io"
      "content (other_slot slot) w io = before @ concat written"
  shows "answers granted (emit_record keys take_left p w io) (\<lambda>(p', w', io').
    (\<exists>c key. p' = (if take_left then p\<lparr>pair_left := c\<rparr> else p\<lparr>pair_right := c\<rparr>)
        \<lparr>pair_key := key, pair_ordinal := Some (frame_ordinal f), pair_remaining := pair_remaining p - 1\<rparr>
      \<and> cursor_at keys shape slot io' fs c \<and> \<not> cur_loaded c \<and> sort_prefix keys (frame_key f) = Inr key)
    \<and> writer_ok (other_slot slot) w' io' \<and> roomy granted (other_slot slot) (length (before @ concat merged)) io'
    \<and> content (other_slot slot) w' io' = before @ concat (written @ [f]) \<and> only_slot (other_slot slot) io io'
    \<and> (granted \<longrightarrow> space (other_slot slot) io' = space (other_slot slot) io))"
proof -
  let ?c = "if take_left then pair_left p else pair_right p" and ?out = "other_slot slot"
  have layout: "layout_sound keys" and slot: "slot < 2" using target by (simp_all add: merge_target_def)
  note other = other_slot_facts [OF slot]
  have bytes: "rec_bytes (cur_record ?c) = f" using selected by (simp add: cursor_at_def)
  have ok: "pushable keys g" if "g \<in> set merged" for g
    using that target stored_facts(1) by (auto simp: merge_target_def)
  then have f_ok: "frame_ok keys f" "length f \<le> max_frame_bytes" by (auto simp: merged pushable_def)
  have check: "check_order keys p f = Some (Inr ())"
  proof (cases "pair_ordinal p")
    case None
    then show ?thesis by (simp add: check_order_def)
  next
    case (Some ordinal)
    then have s: "written \<noteq> []" "pair_ordinal p = Some (frame_ordinal (last written))"
        "sort_prefix keys (frame_key (last written)) = Inr (pair_key p)" using previous by simp_all
    have "frame_ok keys (last written)" using ok [of "last written"] s(1) by (simp add: merged pushable_def)
    moreover have "frames_sorted keys (written @ f # rest)" using target by (simp add: merge_target_def merged)
    from frames_sorted_last [OF this s(1)] have "frame_order keys (last written) f = OrderLess" .
    ultimately show ?thesis using check_order_passes [OF _ f_ok(1) layout s(2,3)] by blast
  qed
  from sort_prefix_compare [OF f_ok(1) f_ok(1) layout] obtain key where
    key: "sort_prefix keys (frame_key f) = Inr key" "length key \<le> layout_key_max_bytes keys" by blast
  have append_key: "append_bytes (pair_key_capacity p) [] key = Inr key"
    using key(2) p(3) layout by (simp add: append_bytes_Inr layout_sound_def)
  have room: "length (content ?out w io) + length f \<le> length (before @ concat merged)" unfolding w(3) merged by simp
  have emit: "emit_record keys take_left p w io =
      following (append_output ?out f w io) (\<lambda>(w, io).
        following (consume_cursor ?c) (\<lambda>c.
          Some (Inr ((if take_left then p\<lparr>pair_left := c\<rparr> else p\<lparr>pair_right := c\<rparr>)
            \<lparr>pair_key := key, pair_ordinal := Some (frame_ordinal f), pair_remaining := pair_remaining p - 1\<rparr>, w, io))))"
    unfolding emit_record_def Let_def bytes if_not_P [OF iffD2 [OF not_not selected(2)]] using selected(2)
    by (simp add: check p(1) key(1) append_key del: if_split)
  show ?thesis
    unfolding emit
  proof (rule answers_following [OF append_output_answers [OF w(1) other(1) f_ok(2) w(2) room]])
    fix x
    assume "case x of (w', io') \<Rightarrow> writer_ok ?out w' io' \<and> content ?out w' io' = content ?out w io @ f \<and> only_slot ?out io io'
      \<and> roomy granted ?out (length (before @ concat merged)) io' \<and> (granted \<longrightarrow> space ?out io' = space ?out io)"
    then obtain w' io' where x: "x = (w', io')" and a: "writer_ok ?out w' io'" "content ?out w' io' = content ?out w io @ f"
        "only_slot ?out io io'" "roomy granted ?out (length (before @ concat merged)) io'" "granted \<longrightarrow> space ?out io' = space ?out io"
      by (cases x) auto
    have "cursor_at keys shape slot io' (f # fs) ?c"
      using cursor_at_only [OF selected(1) a(3)] other(2) by metis
    from consume_cursor_next [OF this selected(2)] obtain c' where
      "consume_cursor ?c = Some (Inr c')" "cursor_at keys shape slot io' fs c'" "\<not> cur_loaded c'" by blast
    with a w(3) key(1) show "answers granted (case x of (w, io) \<Rightarrow> following (consume_cursor ?c) (\<lambda>c.
          Some (Inr ((if take_left then p\<lparr>pair_left := c\<rparr> else p\<lparr>pair_right := c\<rparr>)
            \<lparr>pair_key := key, pair_ordinal := Some (frame_ordinal f), pair_remaining := pair_remaining p - 1\<rparr>, w, io))))
      (\<lambda>(p', w', io').
    (\<exists>c key. p' = (if take_left then p\<lparr>pair_left := c\<rparr> else p\<lparr>pair_right := c\<rparr>)
        \<lparr>pair_key := key, pair_ordinal := Some (frame_ordinal f), pair_remaining := pair_remaining p - 1\<rparr>
      \<and> cursor_at keys shape slot io' fs c \<and> \<not> cur_loaded c \<and> sort_prefix keys (frame_key f) = Inr key)
    \<and> writer_ok (other_slot slot) w' io' \<and> roomy granted (other_slot slot) (length (before @ concat merged)) io'
    \<and> content (other_slot slot) w' io' = before @ concat (written @ [f]) \<and> only_slot (other_slot slot) io io'
    \<and> (granted \<longrightarrow> space (other_slot slot) io' = space (other_slot slot) io))"
      unfolding x by (auto simp del: if_split)
  qed
qed

text \<open>The side that holds the next frame of the merge.\<close>

lemma takes_left_next:
  assumes "cursor_at keys shape slot io left (pair_left p)" and "cur_loaded (pair_left p) \<longleftrightarrow> left \<noteq> []"
    and "cursor_at keys shape slot io right (pair_right p)" and "cur_loaded (pair_right p) \<longleftrightarrow> right \<noteq> []"
    and "left \<noteq> [] \<or> right \<noteq> []" and "layout_sound keys"
  shows "\<exists>take_left f fs rest. takes_left keys p = Some (Inr take_left)
    \<and> (if take_left then left else right) = f # fs
    \<and> frames.merge_lists keys left right = f # rest
    \<and> rest = (if take_left then frames.merge_lists keys fs right else frames.merge_lists keys left fs)"
proof (cases left)
  case Nil
  with assms(2,5) show ?thesis by (cases right) (auto simp: takes_left_def)
next
  case left: (Cons l ls)
  show ?thesis
  proof (cases right)
    case Nil
    with left assms(2,4) show ?thesis by (cases ls) (auto simp: takes_left_def)
  next
    case right: (Cons r rs)
    have ok: "frame_ok keys l" "frame_ok keys r"
      using assms(1,3,6) stored_facts(1) unfolding left right by (auto simp: cursor_at_def pushable_def)
    have "rec_bytes (cur_record (pair_left p)) = l" "rec_bytes (cur_record (pair_right p)) = r"
      using assms(1-4) by (simp_all add: cursor_at_def left right)
    then have "takes_left keys p = Some (Inr (frame_order keys l r \<noteq> OrderGreater))"
      using assms(2,4) frame_order_ok [OF ok] by (simp add: takes_left_def left right)
    then show ?thesis
      by (intro exI [of _ "frame_order keys l r \<noteq> OrderGreater"]) (simp add: left right)
  qed
qed

lemma same_host_slot: "same_host io io' \<Longrightarrow> only_slot slot io io'" "same_host io io' \<Longrightarrow> content slot w io' = content slot w io"
    "same_host io io' \<Longrightarrow> writer_ok slot w io' = writer_ok slot w io" "same_host io io' \<Longrightarrow> quiet io \<Longrightarrow> space slot io' = space slot io"
  by (simp_all add: same_host_def only_slot_def content_def writer_ok_def)

text \<open>Calls that leave the input file and the room for the output alone.\<close>

definition output_only :: "bool \<Rightarrow> nat \<Rightarrow> scratch_io \<Rightarrow> scratch_io \<Rightarrow> bool" where
  "output_only granted out io io' \<longleftrightarrow> only_slot out io io' \<and> (granted \<longrightarrow> space out io' = space out io)"

lemma output_only_refl [simp]: "output_only granted out io io"
  by (simp add: output_only_def)

lemma output_only_trans: "output_only granted out a b \<Longrightarrow> output_only granted out b c \<Longrightarrow> output_only granted out a c"
  using only_slot_trans by (auto simp: output_only_def)

lemma output_only_host: "same_host io io' \<Longrightarrow> granted \<longrightarrow> quiet io \<Longrightarrow> output_only granted out io io'"
  by (simp add: output_only_def same_host_slot)

definition pair_progress ::
    "bool \<Rightarrow> row_layout \<Rightarrow> argument_shape \<Rightarrow> nat \<Rightarrow> u8 list \<Rightarrow> u8 list list \<Rightarrow> scratch_io
     \<Rightarrow> bool \<Rightarrow> pair_merge \<Rightarrow> write_buffer \<Rightarrow> scratch_io \<Rightarrow> bool" where
  "pair_progress granted keys shape slot before merged io finished p w io' \<longleftrightarrow>
     output_only granted (other_slot slot) io io'
     \<and> (if finished
        then writer_ok (other_slot slot) w io' \<and> content (other_slot slot) w io' = before @ concat merged
          \<and> roomy granted (other_slot slot) (length (before @ concat merged)) io' \<and> pair_idle keys shape p
          \<and> reads_at slot io' (cur_reader (pair_left p))
        else pair_inv granted keys shape slot before merged p w io')"

lemma pair_progress_trans:
  assumes "pair_progress granted keys shape slot before merged io2 finished p w io3"
    and "output_only granted (other_slot slot) io io2"
  shows "pair_progress granted keys shape slot before merged io finished p w io3"
  using assms output_only_trans by (auto simp: pair_progress_def)

text \<open>The same state with the cursors' contents shown.\<close>

definition pair_parts ::
    "bool \<Rightarrow> row_layout \<Rightarrow> argument_shape \<Rightarrow> nat \<Rightarrow> u8 list \<Rightarrow> u8 list list \<Rightarrow> u8 list list \<Rightarrow> u8 list list \<Rightarrow> u8 list list
     \<Rightarrow> pair_merge \<Rightarrow> write_buffer \<Rightarrow> scratch_io \<Rightarrow> bool" where
  "pair_parts granted keys shape slot before merged written left right p w io \<longleftrightarrow>
     merged = written @ frames.merge_lists keys left right
     \<and> cursor_at keys shape slot io left (pair_left p) \<and> cursor_at keys shape slot io right (pair_right p)
     \<and> pair_remaining p = length left + length right
     \<and> content (other_slot slot) w io = before @ concat written
     \<and> (case pair_ordinal p of
          None \<Rightarrow> written = []
        | Some ordinal \<Rightarrow> written \<noteq> [] \<and> ordinal = frame_ordinal (last written)
            \<and> sort_prefix keys (frame_key (last written)) = Inr (pair_key p))
     \<and> pair_input p = slot \<and> pair_shape p = shape \<and> layout_key_max_bytes keys \<le> pair_key_capacity p
     \<and> pair_expected_end p = length (before @ concat merged)
     \<and> writer_ok (other_slot slot) w io \<and> roomy granted (other_slot slot) (length (before @ concat merged)) io"

lemma pair_inv_parts:
  "pair_inv granted keys shape slot before merged p w io \<longleftrightarrow>
     (\<exists>written left right. pair_parts granted keys shape slot before merged written left right p w io)"
  unfolding pair_inv_def pair_parts_def by blast

lemma pair_parts_load:
  assumes "pair_parts granted keys shape slot before merged written left right p w io" and "same_host io io'"
    and "cursor_at keys shape slot io' left cl" and "cursor_at keys shape slot io' right cr"
  shows "pair_parts granted keys shape slot before merged written left right (p\<lparr>pair_left := cl, pair_right := cr\<rparr>) w io'"
  using assms(1,3,4) same_host_slot [OF assms(2)] roomy_host [OF _ assms(2)]
  by (auto simp: pair_parts_def split: option.splits)

text \<open>Moving the next frame keeps the parts.\<close>

lemma emit_keeps_parts:
  assumes target: "merge_target keys shape slot before merged"
    and parts: "pair_parts granted keys shape slot before merged written left right p w io"
    and sides: "(if take_left then left else right) = f # fs" "frames.merge_lists keys left right = f # rest"
      "rest = (if take_left then frames.merge_lists keys fs right else frames.merge_lists keys left fs)"
    and loaded: "cur_loaded (if take_left then pair_left p else pair_right p)"
  shows "answers granted (emit_record keys take_left p w io) (\<lambda>(p', w', io').
    pair_inv granted keys shape slot before merged p' w' io' \<and> output_only granted (other_slot slot) io io'
    \<and> pair_remaining p' < pair_remaining p)"
proof -
  let ?out = "other_slot slot"
  note d = parts [unfolded pair_parts_def]
  have slot: "slot < 2" using target by (simp add: merge_target_def)
  have sel: "cursor_at keys shape slot io (f # fs) (if take_left then pair_left p else pair_right p)"
    using d sides(1) by (auto split: if_splits)
  have merged: "merged = written @ f # rest" using d sides(2) by simp
  have remaining: "0 < pair_remaining p" using d sides(1) by (auto split: if_splits)
  show ?thesis
  proof (rule answers_weaken [OF emit_record_answers [OF target merged sel loaded]])
    fix x :: "pair_merge \<times> write_buffer \<times> scratch_io"
    assume "case x of (p', w', io') \<Rightarrow>
      (\<exists>c key. p' = (if take_left then p\<lparr>pair_left := c\<rparr> else p\<lparr>pair_right := c\<rparr>)
          \<lparr>pair_key := key, pair_ordinal := Some (frame_ordinal f), pair_remaining := pair_remaining p - 1\<rparr>
        \<and> cursor_at keys shape slot io' fs c \<and> \<not> cur_loaded c \<and> sort_prefix keys (frame_key f) = Inr key)
      \<and> writer_ok ?out w' io' \<and> roomy granted ?out (length (before @ concat merged)) io'
      \<and> content ?out w' io' = before @ concat (written @ [f]) \<and> only_slot ?out io io'
      \<and> (granted \<longrightarrow> space ?out io' = space ?out io)"
    then obtain p' w' io' c key where x: "x = (p', w', io')"
      and p': "p' = (if take_left then p\<lparr>pair_left := c\<rparr> else p\<lparr>pair_right := c\<rparr>)
          \<lparr>pair_key := key, pair_ordinal := Some (frame_ordinal f), pair_remaining := pair_remaining p - 1\<rparr>"
      and e: "cursor_at keys shape slot io' fs c" "sort_prefix keys (frame_key f) = Inr key"
        "writer_ok ?out w' io'" "roomy granted ?out (length (before @ concat merged)) io'"
        "content ?out w' io' = before @ concat (written @ [f])" "only_slot ?out io io'"
        "granted \<longrightarrow> space ?out io' = space ?out io"
      by (cases x) blast
    have kept: "cursor_at keys shape slot io' left (pair_left p)" "cursor_at keys shape slot io' right (pair_right p)"
      using cursor_at_only [OF _ e(6)] d other_slot_facts(2) [OF slot] by metis+
    have "pair_parts granted keys shape slot before merged (written @ [f])
        (if take_left then fs else left) (if take_left then right else fs) p' w' io'"
      using d e kept sides merged by (cases take_left) (simp_all add: pair_parts_def p')
    then have "pair_inv granted keys shape slot before merged p' w' io'" by (auto simp: pair_inv_parts)
    moreover have "pair_remaining p' < pair_remaining p" using remaining by (simp add: p')
    ultimately show "case x of (p', w', io') \<Rightarrow> pair_inv granted keys shape slot before merged p' w' io'
      \<and> output_only granted ?out io io' \<and> pair_remaining p' < pair_remaining p"
      using e(6,7) by (simp add: x output_only_def)
  qed (insert d, blast+)
qed

lemma merge_loaded_answers:
  assumes target: "merge_target keys shape slot before merged"
    and parts: "pair_parts granted keys shape slot before merged written left right p w io"
    and loaded: "cur_loaded (pair_left p) \<longleftrightarrow> left \<noteq> []" "cur_loaded (pair_right p) \<longleftrightarrow> right \<noteq> []"
  shows "answers granted (merge_loaded keys moved budget p w io) (\<lambda>(stop, budget', p', w', io').
    pair_progress granted keys shape slot before merged io (stop = Some True) p' w' io'
    \<and> (stop = Some True \<or> pair_remaining p' \<le> pair_remaining p \<and> (\<not> moved \<longrightarrow> pair_remaining p' < pair_remaining p)))"
proof (cases "left = [] \<and> right = []")
  case True
  note d = parts [unfolded pair_parts_def]
  have all: "written = merged" using d True by simp
  have out: "content (other_slot slot) w io = before @ concat merged" "writer_ok (other_slot slot) w io"
      "pair_expected_end p = length (before @ concat merged)" "roomy granted (other_slot slot) (length (before @ concat merged)) io"
    using d unfolding all by blast+
  have p: "cursor_at keys shape slot io left (pair_left p)" "cursor_at keys shape slot io right (pair_right p)"
      "pair_shape p = shape" "layout_key_max_bytes keys \<le> pair_key_capacity p" "pair_remaining p = 0"
    using d True by auto
  have "length (before @ concat merged) < 2 ^ 64" using target by (simp add: merge_target_def)
  then have "write_position w = Inr (pair_expected_end p)"
    using writer_position [OF out(2)] out(1,3) by simp
  moreover have "pair_idle keys shape (p\<lparr>pair_finished := True\<rparr>)" "reads_at slot io (cur_reader (pair_left p))"
      "cur_remaining (pair_left p) = 0" "cur_remaining (pair_right p) = 0"
    using p True by (simp_all add: pair_idle_def cursor_at_def)
  ultimately show ?thesis
    using p(5) out by (simp add: merge_loaded_def pair_progress_def)
next
  case False
  note d = parts [unfolded pair_parts_def]
  have remaining: "pair_remaining p \<noteq> 0" using d False by auto
  have inv: "pair_inv granted keys shape slot before merged p w io" using parts by (auto simp: pair_inv_parts)
  have layout: "layout_sound keys" using target by (simp add: merge_target_def)
  show ?thesis
  proof (cases "budget < loaded_bytes (pair_left p) + loaded_bytes (pair_right p) \<and> moved")
    case True
    with remaining inv show ?thesis by (simp add: merge_loaded_def pair_progress_def)
  next
    case spend: False
    from takes_left_next [of keys shape slot io left p right] d loaded False layout obtain take_left f fs rest where
      k: "takes_left keys p = Some (Inr take_left)" "(if take_left then left else right) = f # fs"
        "frames.merge_lists keys left right = f # rest"
        "rest = (if take_left then frames.merge_lists keys fs right else frames.merge_lists keys left fs)"
      by auto
    have "cur_loaded (if take_left then pair_left p else pair_right p)" using k(2) loaded by (auto split: if_splits)
    note emit = emit_keeps_parts [OF target parts k(2-4) this]
    let ?bytes = "loaded_bytes (pair_left p) + loaded_bytes (pair_right p)"
    have eq: "merge_loaded keys moved budget p w io = following (emit_record keys take_left p w io) (\<lambda>(p, w, io).
        Some (Inr (if budget \<le> ?bytes then Some False else None, budget - ?bytes, p, w, io)))"
      unfolding merge_loaded_def if_not_P [OF remaining] Let_def if_not_P [OF spend] k(1) by simp
    show ?thesis
      unfolding eq by (rule answers_following [OF emit]) (auto simp: pair_progress_def)
  qed
qed

lemma pair_turn_answers:
  assumes target: "merge_target keys shape slot before merged"
    and inv: "pair_inv granted keys shape slot before merged p w io"
  shows "answers granted (pair_turn keys moved budget p w io) (\<lambda>(stop, budget', p', w', io').
    pair_progress granted keys shape slot before merged io (stop = Some True) p' w' io'
    \<and> (stop = Some True \<or> pair_remaining p' \<le> pair_remaining p \<and> (\<not> moved \<longrightarrow> pair_remaining p' < pair_remaining p)))"
proof -
  from inv obtain written left right where parts: "pair_parts granted keys shape slot before merged written left right p w io"
    by (auto simp: pair_inv_parts)
  note d = parts [unfolded pair_parts_def]
  have t: "layout_sound keys" "slot < 2" using target by (simp_all add: merge_target_def)
  have quiet: "granted \<longrightarrow> quiet io" using d roomy_quiet by blast
  have input: "pair_input p = slot" "pair_shape p = shape" using d by simp_all
  have l: "cursor_at keys shape slot io left (pair_left p)" and r: "cursor_at keys shape slot io right (pair_right p)" using d by simp_all
  have after: "answers granted (merge_loaded keys moved budget (p\<lparr>pair_left := cl, pair_right := cr\<rparr>) w io2)
      (\<lambda>(stop, budget', p', w', io'). pair_progress granted keys shape slot before merged io (stop = Some True) p' w' io'
        \<and> (stop = Some True \<or> pair_remaining p' \<le> pair_remaining p \<and> (\<not> moved \<longrightarrow> pair_remaining p' < pair_remaining p)))"
    if h: "same_host io io2" "cursor_at keys shape slot io2 left cl" "cur_loaded cl \<longleftrightarrow> left \<noteq> []"
      "cursor_at keys shape slot io2 right cr" "cur_loaded cr \<longleftrightarrow> right \<noteq> []" for cl cr io2
  proof (rule answers_weaken [OF merge_loaded_answers [OF target pair_parts_load [OF parts h(1,2,4)]]])
    have "output_only granted (other_slot slot) io io2" using output_only_host [OF h(1)] quiet by blast
    then show "case x of (stop, budget', p', w', io') \<Rightarrow> pair_progress granted keys shape slot before merged io (stop = Some True) p' w' io'
        \<and> (stop = Some True \<or> pair_remaining p' \<le> pair_remaining p \<and> (\<not> moved \<longrightarrow> pair_remaining p' < pair_remaining p))"
      if "case x of (stop, budget', p', w', io') \<Rightarrow> pair_progress granted keys shape slot before merged io2 (stop = Some True) p' w' io'
        \<and> (stop = Some True \<or> pair_remaining p' \<le> pair_remaining (p\<lparr>pair_left := cl, pair_right := cr\<rparr>)
            \<and> (\<not> moved \<longrightarrow> pair_remaining p' < pair_remaining (p\<lparr>pair_left := cl, pair_right := cr\<rparr>)))" for x
      using that pair_progress_trans by (cases x) auto
  qed (use h in simp_all)
  show ?thesis
    unfolding pair_turn_def input
  proof (rule answers_following [OF load_cursor_answers [OF l t(2) quiet t(1)]], goal_cases)
    case (1 x)
    then obtain cl io1 where x: "x = (cl, io1)" "same_host io io1" "cursor_at keys shape slot io1 left cl" "cur_loaded cl \<longleftrightarrow> left \<noteq> []"
      by (cases x) auto
    have r1: "cursor_at keys shape slot io1 right (pair_right p)" using r x(2) cursor_at_same by (auto simp: same_host_def)
    have q1: "granted \<longrightarrow> quiet io1" using same_host_quiet [OF x(2)] quiet by blast
    show ?case
      unfolding x(1) prod.case
    proof (rule answers_following [OF load_cursor_answers [OF r1 t(2) q1 t(1)]], goal_cases)
      case (1 y)
      then obtain cr io2 where y: "y = (cr, io2)" "same_host io1 io2" "cursor_at keys shape slot io2 right cr" "cur_loaded cr \<longleftrightarrow> right \<noteq> []"
        by (cases y) auto
      have "cursor_at keys shape slot io2 left cl" using x(3) y(2) cursor_at_same by (auto simp: same_host_def)
      from after [OF same_host_trans [OF x(2) y(2)] this x(4) y(3,4)] show ?case unfolding y(1) prod.case .
    qed
  qed
qed

lemma pair_inv_host:
  assumes "pair_inv granted keys shape slot before merged p w io" and "same_host io io'"
  shows "pair_inv granted keys shape slot before merged p w io'"
proof -
  from assms(1) obtain written left right where parts: "pair_parts granted keys shape slot before merged written left right p w io"
    by (auto simp: pair_inv_parts)
  have "io_files io' ! slot = io_files io ! slot" using assms(2) by (simp add: same_host_def)
  then have "cursor_at keys shape slot io' left (pair_left p)" "cursor_at keys shape slot io' right (pair_right p)"
    using parts cursor_at_same by (auto simp: pair_parts_def)
  from pair_parts_load [OF parts assms(2) this] show ?thesis by (auto simp: pair_inv_parts)
qed

lemma pair_moves_answers:
  assumes target: "merge_target keys shape slot before merged"
    and "pair_inv granted keys shape slot before merged p w io"
  shows "answers granted (pair_moves keys moves moved budget p w io) (\<lambda>(finished, p', w', io').
    pair_progress granted keys shape slot before merged io finished p' w' io'
    \<and> (finished \<or> pair_remaining p' \<le> pair_remaining p \<and> (0 < moves \<and> \<not> moved \<longrightarrow> pair_remaining p' < pair_remaining p)))"
  using assms(2)
proof (induction moves arbitrary: moved budget p w io)
  case 0
  then show ?case by (simp add: pair_progress_def)
next
  case (Suc moves)
  have quiet: "granted \<longrightarrow> quiet io" using Suc.prems roomy_quiet unfolding pair_inv_def by blast
  show ?case
    unfolding pair_moves.simps
  proof (rule answers_poll [OF quiet])
    fix io1
    assume h: "same_host io io1"
    have only: "output_only granted (other_slot slot) io io1" using output_only_host [OF h] quiet by blast
    show "answers granted (following (pair_turn keys moved budget p w io1) (\<lambda>(stop, budget, p, w, io).
            case stop of Some finished \<Rightarrow> Some (Inr (finished, p, w, io)) | None \<Rightarrow> pair_moves keys moves True budget p w io))
      (\<lambda>(finished, p', w', io'). pair_progress granted keys shape slot before merged io finished p' w' io'
        \<and> (finished \<or> pair_remaining p' \<le> pair_remaining p \<and> (0 < Suc moves \<and> \<not> moved \<longrightarrow> pair_remaining p' < pair_remaining p)))"
    proof (rule answers_following [OF pair_turn_answers [OF target pair_inv_host [OF Suc.prems h]]], goal_cases)
      case (1 x)
      obtain stop b p2 w2 io2 where x: "x = (stop, b, p2, w2, io2)" by (cases x) auto
      have p2: "pair_progress granted keys shape slot before merged io1 (stop = Some True) p2 w2 io2"
          "stop = Some True \<or> pair_remaining p2 \<le> pair_remaining p \<and> (\<not> moved \<longrightarrow> pair_remaining p2 < pair_remaining p)"
        using 1 by (simp_all add: x)
      have p2': "pair_progress granted keys shape slot before merged io (stop = Some True) p2 w2 io2"
        by (rule pair_progress_trans [OF p2(1) only])
      show ?case
      proof (cases stop)
        case (Some finished)
        with p2(2) p2' show ?thesis by (cases finished) (simp_all add: x)
      next
        case None
        then have inv2: "pair_inv granted keys shape slot before merged p2 w2 io2" "output_only granted (other_slot slot) io io2"
          using p2' by (simp_all add: pair_progress_def)
        have "answers granted (pair_moves keys moves True b p2 w2 io2) (\<lambda>(finished, p', w', io').
            pair_progress granted keys shape slot before merged io finished p' w' io'
            \<and> (finished \<or> pair_remaining p' \<le> pair_remaining p \<and> (0 < Suc moves \<and> \<not> moved \<longrightarrow> pair_remaining p' < pair_remaining p)))"
          by (rule answers_weaken [OF Suc.IH [OF inv2(1)]]) (use p2(2) None pair_progress_trans [OF _ inv2(2)] in auto)
        with None show ?thesis by (simp add: x)
      qed
    qed
  qed
qed

end
