(* ===== verification/Row_Sort.thy ===== *)
theory Row_Sort
  imports Run_Merge
begin

text \<open>
  The external sort (src/execution/blocking.rs): the merge passes over a file of runs and the
  controller that alternates between collecting records, writing runs and merging them. Errors
  are terminal and drop the state. \<open>None\<close> is a failed assertion or an index out of bounds.
\<close>

section \<open>Merge passes\<close>

record run_file =
  file_slot :: nat
  file_pass :: nat
  file_runs :: nat
  file_rows :: nat
  file_end :: nat

datatype merge_phase = MergeIdle | MergePrepare | MergeNextPair | MergePair | MergeFlush | MergeFinal | MergeDone | MergeFailed

record merge_passes =
  merge_pair :: pair_merge
  merge_writer :: write_buffer
  merge_input :: run_file
  merge_state :: merge_phase
  merge_index :: nat
  merge_offset :: nat
  merge_checked :: nat
  merge_output_runs :: nat
  merge_result :: "file_run option"

definition new_merge :: "row_layout \<Rightarrow> argument_shape \<Rightarrow> db_error + merge_passes" where
  "new_merge keys shape =
     attempt (new_pair keys shape) (\<lambda>p.
       Inr \<lparr>merge_pair = p, merge_writer = new_writer,
         merge_input = \<lparr>file_slot = 0, file_pass = 0, file_runs = 0, file_rows = 0, file_end = 0\<rparr>, merge_state = MergeIdle,
         merge_index = 0, merge_offset = 0, merge_checked = 0, merge_output_runs = 0, merge_result = None\<rparr>)"

definition begin_merge :: "nat \<Rightarrow> nat \<Rightarrow> nat \<Rightarrow> merge_passes \<Rightarrow> merge_passes checked" where
  "begin_merge runs rows end_at m =
     (if merge_state m \<noteq> MergeIdle then None
      else
        let headers = runs * run_header_bytes in
        if end_at < headers then Some (Inl (Corrupt ''initial run file extent''))
        else if max_aggregate_rows < rows \<or> rows < runs \<or> (runs = 0) \<noteq> (rows = 0)
          \<or> end_at - headers < rows * record_header \<or> rows * max_frame_bytes < end_at - headers
        then Some (Inl (Corrupt ''initial run file shape''))
        else if wb_bytes (merge_writer m) \<noteq> [] then None
        else Some (Inr (m\<lparr>
          merge_input := \<lparr>file_slot = 0, file_pass = 0, file_runs = runs, file_rows = rows, file_end = end_at\<rparr>,
          merge_state := (if runs \<le> 1 then MergeFinal else MergePrepare)\<rparr>)))"

text \<open>The left cursor's buffer reads the headers.\<close>

definition update_left :: "(run_cursor \<Rightarrow> run_cursor) \<Rightarrow> merge_passes \<Rightarrow> merge_passes" where
  "update_left f m = m\<lparr>merge_pair := merge_pair m\<lparr>pair_left := f (pair_left (merge_pair m))\<rparr>\<rparr>"

definition next_run :: "merge_passes \<Rightarrow> scratch_io \<Rightarrow> (file_run \<times> merge_passes \<times> scratch_io) checked" where
  "next_run m io =
     (let input = merge_input m in
      if file_runs input \<le> merge_index m then None
      else
        following (read_run (file_slot input) (merge_offset m) (file_end input)
            \<lparr>id_pass = file_pass input, id_index = merge_index m\<rparr> (cur_reader (pair_left (merge_pair m))) io)
          (\<lambda>(run, reader, io).
            Some (
              attempt (usize_or (merge_checked m + extent_rows run) (Corrupt ''merge pass row count'')) (\<lambda>rows.
                if file_rows input < rows then Inl (Corrupt ''merge pass exceeds input rows'')
                else Inr (run, update_left (\<lambda>c. c\<lparr>cur_reader := reader\<rparr>) m
                  \<lparr>merge_checked := rows, merge_offset := extent_end run, merge_index := merge_index m + 1\<rparr>, io)))))"

definition clear_readers :: "pair_merge \<Rightarrow> pair_merge" where
  "clear_readers p =
     p\<lparr>pair_left := (pair_left p)\<lparr>cur_reader := clear_reader (cur_reader (pair_left p))\<rparr>,
       pair_right := (pair_right p)\<lparr>cur_reader := clear_reader (cur_reader (pair_right p))\<rparr>\<rparr>"

definition prepare_pass :: "merge_passes \<Rightarrow> scratch_io \<Rightarrow> (merge_passes \<times> scratch_io) checked" where
  "prepare_pass m io =
     (let input = merge_input m in
      if max_merge_passes \<le> file_pass input \<or> file_runs input \<le> 1 then Some (Inl (Corrupt ''merge pass bound''))
      else
        following (Some (scratch_reset (other_slot (file_slot input)) io)) (\<lambda>(_, io).
          Option.bind (begin_file (merge_writer m)) (\<lambda>w.
            Some (Inr (m\<lparr>merge_writer := w, merge_pair := clear_readers (merge_pair m), merge_index := 0, merge_offset := 0,
              merge_checked := 0, merge_output_runs := 0, merge_state := MergeNextPair\<rparr>, io)))))"

definition next_pair :: "merge_passes \<Rightarrow> scratch_io \<Rightarrow> (merge_passes \<times> scratch_io) checked" where
  "next_pair m io =
     (let input = merge_input m in
      if merge_index m = file_runs input
      then Some (
        if merge_offset m \<noteq> file_end input \<or> merge_checked m \<noteq> file_rows input
           \<or> merge_output_runs m \<noteq> (file_runs input + 1) div 2
        then Inl (Corrupt ''merge pass completion differs'') else Inr (m\<lparr>merge_state := MergeFlush\<rparr>, io))
      else
        following (next_run m io) (\<lambda>(left, m, io).
        following (if merge_index m < file_runs input
          then following (next_run m io) (\<lambda>(right, m, io). Some (Inr (Some right, m, io)))
          else Some (Inr (None, m, io))) (\<lambda>(right, m, io).
        following (begin_pair left right \<lparr>id_pass = file_pass input + 1, id_index = merge_output_runs m\<rparr> (file_slot input)
            (merge_pair m) (merge_writer m) io) (\<lambda>(p, w, io).
          Some (Inr (m\<lparr>merge_pair := p, merge_writer := w, merge_state := MergePair\<rparr>, io))))))"

definition merge_current_pair :: "row_layout \<Rightarrow> merge_passes \<Rightarrow> scratch_io \<Rightarrow> (merge_passes \<times> scratch_io) checked" where
  "merge_current_pair keys m io =
     following (pair_step keys (merge_pair m) (merge_writer m) io) (\<lambda>(finished, p, w, io).
       Some (Inr (m\<lparr>merge_pair := p, merge_writer := w,
         merge_output_runs := (if finished then merge_output_runs m + 1 else merge_output_runs m),
         merge_state := (if finished then MergeNextPair else MergePair)\<rparr>, io)))"

definition finish_pass :: "merge_passes \<Rightarrow> scratch_io \<Rightarrow> (merge_passes \<times> scratch_io) checked" where
  "finish_pass m io =
     (let input = merge_input m in
      following (Some (flush_writer (other_slot (file_slot input)) (merge_writer m) io)) (\<lambda>(w, io).
        if file_runs input \<le> merge_output_runs m then None
        else Some (attempt (write_position w) (\<lambda>end_at.
          Inr (m\<lparr>merge_writer := w,
            merge_input := \<lparr>file_slot = other_slot (file_slot input), file_pass = file_pass input + 1,
              file_runs = merge_output_runs m, file_rows = file_rows input, file_end = end_at\<rparr>,
            merge_state := (if merge_output_runs m = 1 then MergeFinal else MergePrepare)\<rparr>, io)))))"

definition finish_merge :: "merge_passes \<Rightarrow> scratch_io \<Rightarrow> (merge_passes \<times> scratch_io) checked" where
  "finish_merge m io =
     following (Some (scratch_reset (other_slot (file_slot (merge_input m))) io)) (\<lambda>(_, io).
       let m = update_left (\<lambda>c. c\<lparr>cur_reader := clear_reader (cur_reader c)\<rparr>) m
             \<lparr>merge_index := 0, merge_offset := 0, merge_checked := 0\<rparr> in
       following (if file_runs (merge_input m) = 0 then Some (Inr (None, m, io))
         else following (next_run m io) (\<lambda>(run, m, io). Some (Inr (Some run, m, io)))) (\<lambda>(run, m, io).
         if merge_offset m \<noteq> file_end (merge_input m) \<or> merge_checked m \<noteq> file_rows (merge_input m)
         then Some (Inl (Corrupt ''final run file completion differs''))
         else Some (Inr (m\<lparr>merge_result := run, merge_state := MergeDone\<rparr>, io))))"

definition merge_step :: "row_layout \<Rightarrow> merge_passes \<Rightarrow> scratch_io \<Rightarrow> (bool \<times> merge_passes \<times> scratch_io) checked" where
  "merge_step keys m io =
     (if merge_state m = MergeDone then Some (Inr (True, m, io))
      else
        case poll io of
          Inl e \<Rightarrow> Some (Inl e)
        | Inr io \<Rightarrow>
            following
              (case merge_state m of
                 MergePrepare \<Rightarrow> prepare_pass m io
               | MergeNextPair \<Rightarrow> next_pair m io
               | MergePair \<Rightarrow> merge_current_pair keys m io
               | MergeFlush \<Rightarrow> finish_pass m io
               | MergeFinal \<Rightarrow> finish_merge m io
               | _ \<Rightarrow> Some (Inl (Corrupt ''merge controller is not active'')))
              (\<lambda>(m, io). Some (Inr (merge_state m = MergeDone, m, io))))"

section \<open>The sorter\<close>

datatype sort_phase = SortCollect | SortRun | SortFlush | SortMerge | SortDone | SortFailed

record row_sort =
  sort_buffer :: run_buffer
  sort_merge :: merge_passes
  sort_state :: sort_phase
  sort_finishing :: bool
  sort_rows :: nat
  sort_runs :: nat
  sort_last :: "u64 option"

definition new_sort :: "row_layout \<Rightarrow> argument_shape \<Rightarrow> nat \<Rightarrow> nat \<Rightarrow> db_error + row_sort" where
  "new_sort keys shape bytes rows =
     (let minimum = record_header + layout_max_bytes keys + max_payload_bytes shape in
      if bytes < minimum
      then Inl (ResourceError ''group sort record'' (word_of_nat minimum) (word_of_nat bytes))
      else
        attempt (new_run bytes rows) (\<lambda>r.
        attempt (new_merge keys shape) (\<lambda>m.
          Inr \<lparr>sort_buffer = r, sort_merge = m, sort_state = SortCollect, sort_finishing = False, sort_rows = 0,
            sort_runs = 0, sort_last = None\<rparr>)))"

definition push_sort :: "u8 list \<Rightarrow> row_sort \<Rightarrow> (bool \<times> row_sort) checked" where
  "push_sort bytes s =
     (if sort_state s \<noteq> SortCollect then None
      else if sort_rows s = max_aggregate_rows
      then Some (Inl (ResourceError ''aggregate input rows'' (word_of_nat (sort_rows s + 1)) (word_of_nat max_aggregate_rows)))
      else if (case sort_last s of None \<Rightarrow> False | Some previous \<Rightarrow> frame_ordinal bytes \<le> previous)
      then Some (Inl (Corrupt ''sort input ordinal does not advance''))
      else
        following (push_run bytes (sort_buffer s)) (\<lambda>(pushed, r).
          if pushed
          then Some (Inr (True, s\<lparr>sort_buffer := r, sort_rows := sort_rows s + 1, sort_last := Some (frame_ordinal bytes)\<rparr>))
          else if run_spans r = [] then None
          else following (begin_run (sort_runs s) r) (\<lambda>r. Some (Inr (False, s\<lparr>sort_buffer := r, sort_state := SortRun\<rparr>)))))"

definition finish_sort :: "row_sort \<Rightarrow> row_sort checked" where
  "finish_sort s =
     (if sort_state s \<noteq> SortCollect then None
      else if run_spans (sort_buffer s) = [] then Some (Inr (s\<lparr>sort_finishing := True, sort_state := SortFlush\<rparr>))
      else following (begin_run (sort_runs s) (sort_buffer s)) (\<lambda>r.
        Some (Inr (s\<lparr>sort_finishing := True, sort_buffer := r, sort_state := SortRun\<rparr>))))"

definition step_active_run :: "row_layout \<Rightarrow> row_sort \<Rightarrow> scratch_io \<Rightarrow> (row_sort \<times> scratch_io) checked" where
  "step_active_run keys s io =
     Option.bind (step_run keys (sort_buffer s) (merge_writer (sort_merge s)) io) (\<lambda>(r, res).
     following (Some res) (\<lambda>(finished, w, io).
       let s = s\<lparr>sort_merge := sort_merge s\<lparr>merge_writer := w\<rparr>\<rparr> in
       if finished
       then
         following (Some (if sort_runs s + 1 < 2 ^ 32 then Inr (sort_runs s + 1) else Inl (Corrupt ''initial run count''))) (\<lambda>runs.
         Option.bind (clear_run r) (\<lambda>r.
           Some (Inr (s\<lparr>sort_runs := runs, sort_buffer := r,
             sort_state := (if sort_finishing s then SortFlush else SortCollect)\<rparr>, io))))
       else Some (Inr (s\<lparr>sort_buffer := r, sort_state := SortRun\<rparr>, io))))"

definition flush_runs :: "row_sort \<Rightarrow> scratch_io \<Rightarrow> (row_sort \<times> scratch_io) checked" where
  "flush_runs s io =
     following (Some (flush_writer 0 (merge_writer (sort_merge s)) io)) (\<lambda>(w, io).
     following (Some (write_position w)) (\<lambda>end_at.
     following (begin_merge (sort_runs s) (sort_rows s) end_at (sort_merge s\<lparr>merge_writer := w\<rparr>)) (\<lambda>m.
     Option.bind (release_run (sort_buffer s)) (\<lambda>r.
       Some (Inr (s\<lparr>sort_merge := m, sort_buffer := r, sort_state := SortMerge\<rparr>, io))))))"

definition sort_step :: "row_layout \<Rightarrow> row_sort \<Rightarrow> scratch_io \<Rightarrow> (row_sort \<times> scratch_io) checked" where
  "sort_step keys s io =
     (if sort_state s = SortDone then Some (Inr (s, io))
      else
        case poll io of
          Inl e \<Rightarrow> Some (Inl e)
        | Inr io \<Rightarrow>
            (case sort_state s of
               SortCollect \<Rightarrow> Some (Inr (s, io))
             | SortRun \<Rightarrow> step_active_run keys s io
             | SortFlush \<Rightarrow> flush_runs s io
             | SortMerge \<Rightarrow>
                 following (merge_step keys (sort_merge s) io) (\<lambda>(finished, m, io).
                   Some (Inr (s\<lparr>sort_merge := m, sort_state := (if finished then SortDone else SortMerge)\<rparr>, io)))
             | _ \<Rightarrow> Some (Inl (Corrupt ''argument sort is not active''))))"

end
