(* ===== verification/Merge_Files.thy ===== *)
theory Merge_Files
  imports Merge_Pairs Row_Sort
begin

text \<open>
  Files of runs: their images, the runs a merge pass makes of them, and the start of a pair
  merge on two runs of a file.
\<close>

section \<open>Runs\<close>

definition run_ok :: "row_layout \<Rightarrow> argument_shape \<Rightarrow> u8 list list \<Rightarrow> bool" where
  "run_ok keys shape r \<longleftrightarrow> r \<noteq> [] \<and> frames_sorted keys r \<and> (\<forall>f \<in> set r. stored keys shape f)"

definition runs_ok :: "row_layout \<Rightarrow> argument_shape \<Rightarrow> u8 list list list \<Rightarrow> bool" where
  "runs_ok keys shape rs \<longleftrightarrow>
     (\<forall>r \<in> set rs. run_ok keys shape r) \<and> distinct (map frame_ordinal (concat rs)) \<and> length (concat rs) \<le> max_aggregate_rows"

fun pair_runs :: "row_layout \<Rightarrow> u8 list list list \<Rightarrow> u8 list list list" where
  "pair_runs keys [] = []"
| "pair_runs keys [a] = [a]"
| "pair_runs keys (a # b # rs) = frames.merge_lists keys a b # pair_runs keys rs"

lemma merge_frames_Nil2 [simp]: "frames.merge_lists keys xs [] = xs"
  by (cases xs) simp_all

lemma length_concat_concat: "length (concat (concat rs)) = sum_list (map (\<lambda>r. length (concat r)) rs)"
  by (induction rs) auto

lemma mset_length_concat: "mset xs = mset ys \<Longrightarrow> length (concat xs) = length (concat ys)"
  unfolding length_concat by (metis mset_map sum_mset_sum_list)

lemma mset_pair_runs: "mset (concat (pair_runs keys rs)) = mset (concat rs)"
  by (induction keys rs rule: pair_runs.induct) simp_all

lemma length_pair_runs: "length (pair_runs keys rs) = (length rs + 1) div 2"
  by (induction keys rs rule: pair_runs.induct) simp_all

lemma length_concat_pair_runs [simp]: "length (concat (pair_runs keys rs)) = length (concat rs)"
  using mset_pair_runs by (metis size_mset)

lemma bytes_pair_runs [simp]: "length (concat (concat (pair_runs keys rs))) = length (concat (concat rs))"
  by (rule mset_length_concat [OF mset_pair_runs])

lemma merge_run_ok:
  assumes "run_ok keys shape a" and "run_ok keys shape b" and "distinct (map frame_ordinal (a @ b))" and "layout_sound keys"
  shows "run_ok keys shape (frames.merge_lists keys a b)"
proof -
  have frames: "\<forall>f \<in> set a \<union> set b. stored keys shape f" using assms(1,2) by (auto simp: run_ok_def)
  then have ok: "\<forall>f \<in> set a \<union> set b. frame_ok keys f" using stored_facts(1) [OF _ assms(4)] by (auto simp: pushable_def)
  have le: "sorted_wrt (frames.le keys) xs" if "frames_sorted keys xs" for xs
    using that unfolding frames_sorted_def by (rule sorted_wrt_mono_rel [rotated]) (simp add: frames.le_def)
  have "sorted_wrt (frames.le keys) (frames.merge_lists keys a b)"
    using frames.sorted_merge [OF ok] le assms(1,2) by (simp add: run_ok_def)
  then have "sorted_wrt (\<lambda>x y. frame_order keys x y \<noteq> OrderGreater) (frames.merge_lists keys a b)"
    unfolding frames.le_def [abs_def] .
  moreover have "mset (map frame_ordinal (frames.merge_lists keys a b)) = mset (map frame_ordinal (a @ b))" by simp
  then have "distinct (map frame_ordinal (frames.merge_lists keys a b))" using assms(3) mset_eq_imp_distinct_iff by blast
  moreover have "\<forall>f \<in> set (frames.merge_lists keys a b). frame_ok keys f" using ok by simp
  ultimately have "frames_sorted keys (frames.merge_lists keys a b)" by (rule frames_sorted_le)
  moreover have "length (frames.merge_lists keys a b) = length a + length b" by simp
  then have "frames.merge_lists keys a b \<noteq> []" using assms(1) by (auto simp: run_ok_def simp del: frames.length_merge)
  ultimately show ?thesis using frames by (simp add: run_ok_def)
qed

lemma runs_ok_append: "runs_ok keys shape (as @ bs) \<Longrightarrow> runs_ok keys shape as \<and> runs_ok keys shape bs"
  by (auto simp: runs_ok_def)

lemma pair_runs_members:
  assumes "runs_ok keys shape rs" and "layout_sound keys" and "r \<in> set (pair_runs keys rs)"
  shows "run_ok keys shape r"
  using assms
proof (induction keys rs rule: pair_runs.induct)
  case (3 keys a b rs)
  have "runs_ok keys shape ([a, b] @ rs)" using 3(2) by simp
  then have ab: "runs_ok keys shape [a, b]" and rs: "runs_ok keys shape rs" using runs_ok_append by blast+
  from 3(4) consider "r = frames.merge_lists keys a b" | "r \<in> set (pair_runs keys rs)" by auto
  then show ?case
  proof cases
    case 1
    with ab 3(3) merge_run_ok [of keys shape a b] show ?thesis by (simp add: runs_ok_def)
  next
    case 2
    with 3(1) rs 3(3) show ?thesis by blast
  qed
qed (auto simp: runs_ok_def)

lemma runs_ok_pair_runs:
  assumes "runs_ok keys shape rs" and "layout_sound keys"
  shows "runs_ok keys shape (pair_runs keys rs)"
proof -
  have "mset (map frame_ordinal (concat (pair_runs keys rs))) = mset (map frame_ordinal (concat rs))"
    by (simp only: mset_map mset_pair_runs)
  then have "distinct (map frame_ordinal (concat (pair_runs keys rs)))"
    using assms(1) mset_eq_imp_distinct_iff unfolding runs_ok_def by blast
  with assms pair_runs_members [OF assms] show ?thesis by (simp add: runs_ok_def)
qed

lemma runs_count: "runs_ok keys shape rs \<Longrightarrow> length rs \<le> length (concat rs)"
proof (induction rs)
  case (Cons r rs)
  have "runs_ok keys shape ([r] @ rs)" using Cons.prems by simp
  then have "length rs \<le> length (concat rs)" "r \<noteq> []" using Cons.IH runs_ok_append by (blast, auto simp: runs_ok_def run_ok_def)
  then show ?case by (cases r) simp_all
qed simp

section \<open>Images\<close>

fun images :: "nat \<Rightarrow> nat \<Rightarrow> u8 list list list \<Rightarrow> u8 list" where
  "images pass index [] = []"
| "images pass index (r # rs) = run_image pass index r @ images pass (Suc index) rs"

lemma images_append: "images pass index (as @ bs) = images pass index as @ images pass (index + length as) bs"
  by (induction as arbitrary: index) simp_all

lemma run_image_header:
  assumes "run_ok keys shape r" and "layout_sound keys" and "length r \<le> max_aggregate_rows" and "pass \<le> max_merge_passes"
    and "index < max_aggregate_rows"
  obtains header where "run_header \<lparr>id_pass = pass, id_index = index\<rparr> (length r) (length (concat r)) = Inr header"
    and "run_image pass index r = header @ concat r" and "length header = run_header_bytes"
proof -
  have "\<forall>f \<in> set r. record_header \<le> length f \<and> length f \<le> max_frame_bytes"
    using assms(1,2) stored_facts(1) by (auto simp: run_ok_def pushable_def)
  from length_concat_bounds [OF this] assms obtain header where
    h: "run_header \<lparr>id_pass = pass, id_index = index\<rparr> (length r) (length (concat r)) = Inr header"
    by (auto simp: run_header_def run_ok_def Let_def)
  from that [OF h _ run_header_Inr(1) [OF h]] h show thesis by (simp add: run_image_def)
qed

lemma length_images:
  assumes "runs_ok keys shape rs" and "layout_sound keys" and "pass \<le> max_merge_passes"
    and "index + length rs \<le> max_aggregate_rows"
  shows "length (images pass index rs) = length rs * run_header_bytes + length (concat (concat rs))"
  using assms
proof (induction rs arbitrary: index)
  case (Cons r rs)
  have split: "runs_ok keys shape ([r] @ rs)" using Cons.prems(1) by simp
  have r: "run_ok keys shape r" "length r \<le> max_aggregate_rows" using Cons.prems(1) by (auto simp: runs_ok_def)
  have i: "index < max_aggregate_rows" using Cons.prems(4) by simp
  obtain header where "run_image pass index r = header @ concat r" "length header = run_header_bytes"
    using run_image_header [OF r(1) Cons.prems(2) r(2) Cons.prems(3) i] by metis
  moreover have "length (images pass (Suc index) rs) = length rs * run_header_bytes + length (concat (concat rs))"
    by (rule Cons.IH) (use Cons.prems runs_ok_append [OF split] in auto)
  ultimately show ?case by simp
qed simp

lemma images_small:
  assumes "runs_ok keys shape rs" and "layout_sound keys" and "pass \<le> max_merge_passes"
  shows "length (images pass 0 rs) < 2 ^ 62"
proof -
  have rows: "length (concat rs) \<le> max_aggregate_rows" using assms(1) by (simp add: runs_ok_def)
  have n: "length rs \<le> max_aggregate_rows" using runs_count [OF assms(1)] rows by simp
  have "\<forall>f \<in> set (concat rs). record_header \<le> length f \<and> length f \<le> max_frame_bytes"
    using assms(1,2) stored_facts(1) by (fastforce simp: runs_ok_def run_ok_def pushable_def)
  from length_concat_bounds [OF this] have "length (concat (concat rs)) \<le> length (concat rs) * max_frame_bytes" by simp
  also have "\<dots> \<le> max_aggregate_rows * max_frame_bytes" using rows by simp
  finally have bytes: "length (concat (concat rs)) \<le> max_aggregate_rows * max_frame_bytes" .
  have "length rs * run_header_bytes \<le> max_aggregate_rows * run_header_bytes" using n by simp
  then have "length (images pass 0 rs) \<le> max_aggregate_rows * run_header_bytes + max_aggregate_rows * max_frame_bytes"
    using length_images [OF assms, of 0] n bytes by linarith
  also have "\<dots> < 2 ^ 62"
    by (simp add: max_aggregate_rows_def run_header_bytes_def max_frame_bytes_def record_header_def max_row_values_def max_text_bytes_def)
  finally show ?thesis .
qed

section \<open>Starting a pair\<close>

text \<open>The extent of a run found at an offset of a file.\<close>

definition extent_at :: "nat \<Rightarrow> u8 list list \<Rightarrow> file_run" where
  "extent_at offset r =
     \<lparr>extent_start = offset + run_header_bytes, extent_end = offset + run_header_bytes + length (concat r), extent_rows = length r\<rparr>"

definition holds_run :: "nat \<Rightarrow> scratch_io \<Rightarrow> nat \<Rightarrow> u8 list list \<Rightarrow> bool" where
  "holds_run slot io offset r \<longleftrightarrow>
     slice (io_files io ! slot) (offset + run_header_bytes) (length (concat r)) = concat r
     \<and> offset + run_header_bytes + length (concat r) \<le> length (io_files io ! slot) \<and> length (io_files io ! slot) < 2 ^ 64"

lemma begin_extent:
  assumes "cursor_store keys shape c" and "holds_run slot io offset r" and "\<forall>f \<in> set r. stored keys shape f"
  shows "\<exists>c'. begin_cursor (Some (extent_at offset r)) c = Some c' \<and> cursor_at keys shape slot io r c'"
  using begin_cursor_at [OF assms(1,3), where run = "Some (extent_at offset r)" and slot = slot and io = io] assms(2)
  by (simp add: extent_at_def holds_run_def)

lemma begin_no_run:
  assumes "cursor_store keys shape c"
  shows "\<exists>c'. begin_cursor None c = Some c' \<and> cursor_at keys shape slot io [] c'"
  using begin_cursor_at [OF assms, where frames = "[]" and run = None and slot = slot and io = io] by simp

lemma holds_run_same: "holds_run slot io offset r \<Longrightarrow> io_files io' ! slot = io_files io ! slot \<Longrightarrow> holds_run slot io' offset r"
  by (simp add: holds_run_def)

text \<open>The right run is absent when the number of runs is odd.\<close>

lemma begin_pair_answers:
  assumes target: "merge_target keys shape slot (before @ header) (frames.merge_lists keys a b)"
    and header: "run_header ident (length a + length b) (length (concat a) + length (concat b)) = Inr header"
    and right: "case right of None \<Rightarrow> b = [] | Some run \<Rightarrow> \<exists>at. run = extent_at at b \<and> holds_run slot io at b"
    and left: "holds_run slot io offset a"
    and idle: "pair_idle keys shape p"
    and w: "writer_ok (other_slot slot) w io" "content (other_slot slot) w io = before"
      "roomy granted (other_slot slot) (length (before @ header @ concat (frames.merge_lists keys a b))) io"
  shows "answers granted (begin_pair (extent_at offset a) right ident slot p w io) (\<lambda>(p', w', io').
    pair_inv granted keys shape slot (before @ header) (frames.merge_lists keys a b) p' w' io'
    \<and> output_only granted (other_slot slot) io io' \<and> pair_remaining p' = length a + length b)"
proof -
  let ?out = "other_slot slot" and ?merged = "frames.merge_lists keys a b"
  have slot: "slot < 2" using target by (simp add: merge_target_def)
  note other = other_slot_facts [OF slot]
  have len: "length header = run_header_bytes" using run_header_Inr(1) [OF header] .
  have bytes: "length (concat ?merged) = length (concat a) + length (concat b)"
    using mset_length_concat [of ?merged "a @ b"] by simp
  have small: "length before + run_header_bytes + length (concat ?merged) < 2 ^ 64"
    using target len by (simp add: merge_target_def)
  have frames: "\<forall>f \<in> set a. stored keys shape f" "\<forall>f \<in> set b. stored keys shape f"
    using target by (auto simp: merge_target_def)
  let ?stop = "length (before @ header @ concat ?merged)"
  have "write_position w = Inr (length before)" using writer_position [OF w(1)] w(2) small by simp
  moreover have "length a + length b < 2 ^ 64" using run_header_Inr(3) [OF header] by (simp add: max_aggregate_rows_def)
  moreover have "length before + run_header_bytes + (length (concat a) + length (concat b)) < 2 ^ 64" using small bytes by simp
  ultimately have plan: "plan_pair (extent_at offset a) right ident w = Inr (length a + length b, header, ?stop)"
    using header right len bytes
    by (auto simp: plan_pair_def extent_bytes_def extent_at_def usize_or_def add.assoc split: option.splits)
  let ?k = "\<lambda>io. following (append_output ?out header w io) (\<lambda>(w, io).
      Option.bind (begin_cursor (Some (extent_at offset a)) (pair_left p)) (\<lambda>left.
      Option.bind (begin_cursor right (pair_right p)) (\<lambda>right.
        Some (Inr (p\<lparr>pair_expected_end := ?stop, pair_left := left, pair_right := right, pair_remaining := length a + length b,
          pair_input := slot, pair_finished := False, pair_ordinal := None, pair_key := []\<rparr>, w, io)))))"
  have shape: "begin_pair (extent_at offset a) right ident slot p w io = (case poll io of Inl e \<Rightarrow> Some (Inl e) | Inr io1 \<Rightarrow> ?k io1)"
    using slot idle by (simp add: begin_pair_def plan pair_idle_def cong: sum.case_cong)
  show ?thesis
    unfolding shape
  proof (rule answers_poll)
    show "granted \<longrightarrow> quiet io" by (rule roomy_quiet [OF w(3)])
    fix io1
    assume h: "same_host io io1"
    have w1: "writer_ok ?out w io1" "content ?out w io1 = before" "roomy granted ?out (length (before @ header @ concat ?merged)) io1"
      using w same_host_slot [OF h] roomy_host [OF w(3) h] by simp_all
    have frame: "length header \<le> max_frame_bytes"
      by (simp add: len run_header_bytes_def max_frame_bytes_def record_header_def max_row_values_def max_text_bytes_def)
    have room: "length (content ?out w io1) + length header \<le> length (before @ header @ concat ?merged)" unfolding w1(2) by simp
    have h_only: "output_only granted ?out io io1" using output_only_host [OF h] roomy_quiet [OF w(3)] by blast
    show "answers granted (?k io1)
      (\<lambda>(p', w', io'). pair_inv granted keys shape slot (before @ header) ?merged p' w' io'
        \<and> output_only granted ?out io io' \<and> pair_remaining p' = length a + length b)"
    proof (rule answers_following [OF append_output_answers [OF w1(1) other(1) frame w1(3) room]], goal_cases)
      case (1 x)
      then obtain w2 io2 where x: "x = (w2, io2)" and a2: "writer_ok ?out w2 io2" "content ?out w2 io2 = before @ header"
          "only_slot ?out io1 io2" "roomy granted ?out (length (before @ header @ concat ?merged)) io2"
          "granted \<longrightarrow> space ?out io2 = space ?out io1"
        using w1(2) by (cases x) auto
      have only: "output_only granted ?out io io2"
        by (rule output_only_trans [OF h_only]) (use a2(3,5) in \<open>simp add: output_only_def\<close>)
      have input: "io_files io2 ! slot = io_files io ! slot" using a2(3) h other(2) by (auto simp: only_slot_def same_host_def)
      have stores: "cursor_store keys shape (pair_left p)" "cursor_store keys shape (pair_right p)" "pair_shape p = shape"
          "layout_key_max_bytes keys \<le> pair_key_capacity p"
        using idle by (simp_all add: pair_idle_def)
      from begin_extent [OF stores(1) holds_run_same [OF left input] frames(1)] obtain cl where
        l: "begin_cursor (Some (extent_at offset a)) (pair_left p) = Some cl" "cursor_at keys shape slot io2 a cl" by blast
      obtain cr where r: "begin_cursor right (pair_right p) = Some cr" "cursor_at keys shape slot io2 b cr"
      proof (cases right)
        case None
        with begin_no_run [OF stores(2), of slot io2] right that show ?thesis by auto
      next
        case (Some run)
        with right obtain at where "run = extent_at at b" "holds_run slot io at b" by auto
        with begin_extent [OF stores(2) holds_run_same [OF _ input] frames(2)] Some that show ?thesis by auto
      qed
      let ?p = "p\<lparr>pair_expected_end := length (before @ header @ concat ?merged), pair_left := cl, pair_right := cr,
          pair_remaining := length a + length b, pair_input := slot, pair_finished := False, pair_ordinal := None, pair_key := []\<rparr>"
      have "pair_parts granted keys shape slot (before @ header) ?merged [] a b ?p w2 io2"
        using l(2) r(2) a2 stores(3,4) by (simp add: pair_parts_def)
      then have "pair_inv granted keys shape slot (before @ header) ?merged ?p w2 io2" by (auto simp: pair_inv_parts)
      with l(1) r(1) only show ?case by (simp add: x)
    qed
  qed
qed

end
