(* ===== verification/Merge_Steps.thy ===== *)
theory Merge_Steps
  imports Merge_Files
begin

text \<open>
  The merge passes: between steps the files hold the runs of the current pass and a prefix of
  the next one, each step advances a measure, and the passes end with one run that holds every
  frame in order.
\<close>

section \<open>Room\<close>

definition capacity :: "scratch_io \<Rightarrow> nat" where
  "capacity io = io_budget io + length (io_files io ! 0) + length (io_files io ! 1)"

lemma capacity_space: "slot < 2 \<Longrightarrow> capacity io = space (other_slot slot) io + length (io_files io ! slot)"
  by (auto simp: capacity_def space_def other_slot_def less_2_cases_iff)

text \<open>A granting host with room for two files of this size.\<close>

definition affords :: "bool \<Rightarrow> nat \<Rightarrow> scratch_io \<Rightarrow> bool" where
  "affords granted need io \<longleftrightarrow> (granted \<longrightarrow> quiet io \<and> 2 * need \<le> capacity io \<and> capacity io < 2 ^ 64)"

lemma affords_roomy:
  assumes "affords granted need io" and "slot < 2" and "length (io_files io ! slot) \<le> need"
  shows "roomy granted (other_slot slot) need io"
  using assms capacity_space [OF assms(2), of io] by (auto simp: affords_def roomy_def)

lemma affords_quiet: "affords granted need io \<Longrightarrow> granted \<longrightarrow> quiet io"
  by (simp add: affords_def)

lemma affords_host: "affords granted need io \<Longrightarrow> same_host io io' \<Longrightarrow> affords granted need io'"
  by (auto simp: affords_def same_host_def)

lemma affords_output:
  assumes "affords granted need io" and "output_only granted (other_slot slot) io io'" and "granted \<longrightarrow> quiet io'" and "slot < 2"
  shows "affords granted need io'"
proof -
  have "io_files io' ! slot = io_files io ! slot"
    using assms(2) other_slot_facts(2) [OF assms(4)] by (auto simp: output_only_def only_slot_def)
  with assms capacity_space [OF assms(4)] show ?thesis by (auto simp: affords_def output_only_def)
qed

lemma scratch_reset_Inr:
  assumes "scratch_reset slot io = Inr (u, io')"
  shows "io_files io' = (io_files io)[slot := []]"
proof -
  from assms obtain a b where "poll io = Inr a" "host_transfer ''reset query scratch file'' a = Inr b"
    and "io_files io' = (io_files b)[slot := []]"
    by (auto simp: scratch_reset_def attempt_Inr_conv split: if_splits)
  with poll_Inr [of io a] host_transfer_Inr [of _ a b] show ?thesis by simp
qed

lemma scratch_reset_answers:
  assumes "affords granted need io" and "slot < 2" and "length (io_files io) = 2"
  shows "answers granted (Some (scratch_reset (other_slot slot) io)) (\<lambda>(_, io').
    io_files io' = (io_files io)[other_slot slot := []] \<and> affords granted need io')"
proof -
  have lt: "other_slot slot < 2" using other_slot_facts(1) [OF assms(2)] .
  have cap: "capacity (x\<lparr>io_files := (io_files io)[other_slot slot := []], io_budget := io_budget io + length (io_files io ! other_slot slot)\<rparr>)
      = capacity io" for x
    using assms(2,3) by (auto simp: capacity_def other_slot_def less_2_cases_iff)
  show ?thesis
  proof (cases granted)
    case True
    then have q: "quiet io" using assms(1) by (simp add: affords_def)
    with assms lt cap True show ?thesis by (simp add: scratch_reset_def affords_def)
  next
    case False
    with scratch_reset_Inr show ?thesis by (auto simp: answers_def affords_def split: sum.splits)
  qed
qed

section \<open>A pass over a file of runs\<close>

definition input_slot :: "merge_passes \<Rightarrow> nat" where
  "input_slot m = file_slot (merge_input m)"

definition output_slot :: "merge_passes \<Rightarrow> nat" where
  "output_slot m = other_slot (input_slot m)"

definition next_images :: "row_layout \<Rightarrow> merge_passes \<Rightarrow> u8 list list list \<Rightarrow> u8 list" where
  "next_images keys m rs = images (Suc (file_pass (merge_input m))) 0 rs"

text \<open>The input of the pass: these runs, all of the sort's frames.\<close>

definition pass_data :: "bool \<Rightarrow> row_layout \<Rightarrow> argument_shape \<Rightarrow> u8 list list list \<Rightarrow> merge_passes \<Rightarrow> scratch_io \<Rightarrow> bool" where
  "pass_data granted keys shape rs m io \<longleftrightarrow>
     input_slot m < 2 \<and> length (io_files io) = 2 \<and> layout_sound keys \<and> runs_ok keys shape rs
     \<and> file_pass (merge_input m) \<le> max_merge_passes \<and> length rs \<le> 2 ^ (max_merge_passes - file_pass (merge_input m))
     \<and> file_runs (merge_input m) = length rs \<and> file_rows (merge_input m) = length (concat rs)
     \<and> io_files io ! input_slot m = images (file_pass (merge_input m)) 0 rs
     \<and> file_end (merge_input m) = length (images (file_pass (merge_input m)) 0 rs)
     \<and> affords granted (length (images (file_pass (merge_input m)) 0 rs)) io"

text \<open>How far the pass has read.\<close>

definition read_up_to :: "u8 list list list \<Rightarrow> u8 list list list \<Rightarrow> merge_passes \<Rightarrow> bool" where
  "read_up_to rs rest m \<longleftrightarrow>
     (\<exists>before. rs = before @ rest \<and> merge_index m = length before
        \<and> merge_offset m = length (images (file_pass (merge_input m)) 0 before) \<and> merge_checked m = length (concat before))"

lemma pass_data_host:
  assumes "pass_data granted keys shape rs m io" and "same_host io io'"
  shows "pass_data granted keys shape rs m io'"
  using assms affords_host [OF _ assms(2)] by (auto simp: pass_data_def same_host_def)

lemma pass_data_output:
  assumes "pass_data granted keys shape rs m io" and "output_only granted (output_slot m) io io'" and "granted \<longrightarrow> quiet io'"
  shows "pass_data granted keys shape rs m io'"
proof -
  have slot: "input_slot m < 2" using assms(1) by (simp add: pass_data_def)
  have "io_files io' ! input_slot m = io_files io ! input_slot m" "length (io_files io') = length (io_files io)"
    using assms(2) other_slot_facts(2) [OF slot] by (auto simp: output_only_def only_slot_def output_slot_def)
  with assms affords_output [OF _ assms(2) [unfolded output_slot_def] assms(3) slot] show ?thesis by (simp add: pass_data_def)
qed

lemma pass_data_cong:
  "merge_input m' = merge_input m \<Longrightarrow> pass_data granted keys shape rs m' io = pass_data granted keys shape rs m io"
  by (simp add: pass_data_def input_slot_def)

lemma slice_middle: "slice (xs @ ys @ zs) (length xs) (length ys) = ys"
  by (simp add: slice_def)

text \<open>Reading the next header moves on by one run.\<close>

definition next_run_post ::
    "bool \<Rightarrow> row_layout \<Rightarrow> argument_shape \<Rightarrow> u8 list list list \<Rightarrow> u8 list list \<Rightarrow> u8 list list list \<Rightarrow> merge_passes \<Rightarrow> scratch_io
     \<Rightarrow> file_run \<times> merge_passes \<times> scratch_io \<Rightarrow> bool" where
  "next_run_post granted keys shape rs r rest m io =
     (\<lambda>(run, m', io'). same_host io io'
        \<and> run = extent_at (merge_offset m) r \<and> holds_run (input_slot m) io' (merge_offset m) r \<and> read_up_to rs rest m'
        \<and> reads_at (input_slot m) io' (cur_reader (pair_left (merge_pair m')))
        \<and> (\<exists>reader i c off. m' = update_left (\<lambda>c. c\<lparr>cur_reader := reader\<rparr>) m
              \<lparr>merge_checked := c, merge_offset := off, merge_index := i\<rparr>))"

lemma next_run_answers:
  assumes data: "pass_data granted keys shape rs m io" and at: "read_up_to rs (r # rest) m"
    and reader: "reader_ok io (cur_reader (pair_left (merge_pair m)))"
  shows "answers granted (next_run m io) (next_run_post granted keys shape rs r rest m io)"
proof -
  let ?pass = "file_pass (merge_input m)" and ?slot = "input_slot m"
  let ?file = "io_files io ! ?slot"
  note d = data [unfolded pass_data_def]
  from at obtain before where b: "rs = before @ r # rest" "merge_index m = length before"
      "merge_offset m = length (images ?pass 0 before)" "merge_checked m = length (concat before)"
    by (auto simp: read_up_to_def)
  have r: "run_ok keys shape r" using d b(1) by (auto simp: runs_ok_def)
  have rows: "length (concat rs) \<le> max_aggregate_rows" "length rs \<le> length (concat rs)"
    using d runs_count by (auto simp: runs_ok_def)
  have index: "length before < max_aggregate_rows" "length r \<le> max_aggregate_rows" using rows b(1) by simp_all
  obtain header where h: "run_header \<lparr>id_pass = ?pass, id_index = length before\<rparr> (length r) (length (concat r)) = Inr header"
      "run_image ?pass (length before) r = header @ concat r" "length header = run_header_bytes"
    using run_image_header [OF r _ index(2) _ index(1)] d by metis
  have split: "images ?pass 0 rs = images ?pass 0 before @ (header @ concat r) @ images ?pass (Suc (length before)) rest"
    unfolding b(1) images_append by (simp add: h(2))
  have held: "slice ?file (merge_offset m) (length (header @ concat r)) = header @ concat r"
      "merge_offset m + length (header @ concat r) \<le> file_end (merge_input m)" "file_end (merge_input m) \<le> length ?file"
    using d b(3) slice_middle [of "images ?pass 0 before" "header @ concat r"] by (simp_all add: split)
  have small: "length ?file < 2 ^ 64" using d images_small [of keys shape rs ?pass] by simp
  have quiet: "granted \<longrightarrow> quiet io" using d affords_quiet by blast
  have slot: "?slot < 2" using d by simp
  have later: "merge_offset m + run_header_bytes + length (concat r) = length (images ?pass 0 (before @ [r]))"
    by (simp add: images_append h(2,3) b(3))
  have rows': "length (concat before) + length r \<le> file_rows (merge_input m)" "length (concat before) + length r < 2 ^ 64"
    using d b(1) rows(1) by (simp_all add: max_aggregate_rows_def)
  have guard: "\<not> file_runs (merge_input m) \<le> merge_index m" using d b(1,2) by simp
  show ?thesis
    unfolding next_run_def Let_def if_not_P [OF guard] input_slot_def [symmetric]
  proof (rule answers_following [OF read_run_answers [OF quiet reader slot _ held small]], goal_cases)
    case 1
    show ?case using h(1) b(2) by simp
  next
    case (2 x)
    then obtain reader' io' where x: "x = (extent_at (merge_offset m) r, reader', io')" "same_host io io'" "reads_at ?slot io' reader'"
      by (cases x) (auto simp: extent_at_def)
    let ?m = "update_left (\<lambda>c. c\<lparr>cur_reader := reader'\<rparr>) m\<lparr>merge_checked := length (concat before) + length r,
      merge_offset := extent_end (extent_at (merge_offset m) r), merge_index := merge_index m + 1\<rparr>"
    have same: "io_files io' ! ?slot = ?file" using x(2) by (simp add: same_host_def)
    have "slice ?file (merge_offset m + run_header_bytes) (length (concat r)) = concat r"
      using slice_prefix(2) [OF held(1)] h(3) by simp
    then have holds: "holds_run ?slot io' (merge_offset m) r"
      using held(2,3) small h(3) by (simp add: holds_run_def same)
    have "read_up_to rs rest ?m"
      unfolding read_up_to_def
      by (rule exI [of _ "before @ [r]"]) (use b later in \<open>simp add: update_left_def extent_at_def\<close>)
    moreover have "reads_at ?slot io' (cur_reader (pair_left (merge_pair ?m)))" using x(3) by (simp add: update_left_def)
    ultimately have "next_run_post granted keys shape rs r rest m io (extent_at (merge_offset m) r, ?m, io')"
      using x(2) holds unfolding next_run_post_def prod.case by blast
    then show ?case
      using rows' by (simp add: x(1) b(4) extent_at_def usize_or_def not_less)
  qed
qed

section \<open>Progress\<close>

text \<open>The passes that are left for this many runs.\<close>

function halvings :: "nat \<Rightarrow> nat" where
  "halvings n = (if n \<le> 1 then 0 else Suc (halvings ((n + 1) div 2)))"
  by pat_completeness auto
termination
  by (relation "measure id") auto

declare halvings.simps [simp del]

lemma halvings_one: "n \<le> 1 \<Longrightarrow> halvings n = 0"
  by (subst halvings.simps) simp

lemma halvings_step: "2 \<le> n \<Longrightarrow> halvings n = Suc (halvings ((n + 1) div 2))"
  by (subst halvings.simps) simp

definition pass_left :: "merge_passes \<Rightarrow> nat" where
  "pass_left m = (file_rows (merge_input m) - merge_checked m) + 2 * (file_runs (merge_input m) - merge_index m) + 1"

definition merge_left :: "merge_passes \<Rightarrow> nat" where
  "merge_left m =
     halvings (file_runs (merge_input m)) * (3 * file_rows (merge_input m) + 4)
     + (case merge_state m of
          MergePrepare \<Rightarrow> 3 * file_rows (merge_input m) + 2
        | MergeNextPair \<Rightarrow> pass_left m
        | MergePair \<Rightarrow> pair_remaining (merge_pair m) + 1 + pass_left m
        | MergeFinal \<Rightarrow> 1
        | _ \<Rightarrow> 0)"

section \<open>The invariant\<close>

text \<open>Between two pairs: whole runs of the next pass are written.\<close>

definition pass_between ::
    "row_layout \<Rightarrow> argument_shape \<Rightarrow> u8 list list list \<Rightarrow> u8 list list list \<Rightarrow> merge_passes \<Rightarrow> scratch_io \<Rightarrow> bool" where
  "pass_between keys shape rs rest m io \<longleftrightarrow>
     2 \<le> length rs \<and> file_pass (merge_input m) < max_merge_passes
     \<and> read_up_to rs rest m \<and> pair_idle keys shape (merge_pair m)
     \<and> reads_at (input_slot m) io (cur_reader (pair_left (merge_pair m)))
     \<and> writer_ok (output_slot m) (merge_writer m) io
     \<and> (\<exists>outs. outs @ pair_runs keys rest = pair_runs keys rs \<and> merge_output_runs m = length outs
          \<and> content (output_slot m) (merge_writer m) io = next_images keys m outs)"

text \<open>Inside a pair: its header and some of its frames are written too.\<close>

definition pass_pair ::
    "bool \<Rightarrow> row_layout \<Rightarrow> argument_shape \<Rightarrow> u8 list list list \<Rightarrow> u8 list list list \<Rightarrow> merge_passes \<Rightarrow> scratch_io \<Rightarrow> bool" where
  "pass_pair granted keys shape rs rest m io \<longleftrightarrow>
     2 \<le> length rs \<and> file_pass (merge_input m) < max_merge_passes
     \<and> read_up_to rs rest m
     \<and> (\<exists>outs merged header. outs @ merged # pair_runs keys rest = pair_runs keys rs \<and> merge_output_runs m = length outs
          \<and> next_images keys m (outs @ [merged]) = next_images keys m outs @ header @ concat merged
          \<and> merge_target keys shape (input_slot m) (next_images keys m outs @ header) merged
          \<and> pair_inv granted keys shape (input_slot m) (next_images keys m outs @ header) merged (merge_pair m) (merge_writer m) io)"

definition merge_outcome :: "u8 list list list \<Rightarrow> file_run option" where
  "merge_outcome rs = (case rs of [] \<Rightarrow> None | r # _ \<Rightarrow> Some (extent_at 0 r))"

definition phase_inv ::
    "bool \<Rightarrow> row_layout \<Rightarrow> argument_shape \<Rightarrow> u8 list list list \<Rightarrow> merge_passes \<Rightarrow> scratch_io \<Rightarrow> bool" where
  "phase_inv granted keys shape rs m io \<longleftrightarrow>
     pass_data granted keys shape rs m io
     \<and> (case merge_state m of
          MergePrepare \<Rightarrow> 2 \<le> length rs \<and> wb_bytes (merge_writer m) = [] \<and> pair_idle keys shape (merge_pair m)
        | MergeNextPair \<Rightarrow> \<exists>rest. pass_between keys shape rs rest m io
        | MergePair \<Rightarrow> \<exists>rest. pass_pair granted keys shape rs rest m io
        | MergeFlush \<Rightarrow> pass_between keys shape rs [] m io
        | MergeFinal \<Rightarrow> length rs \<le> 1 \<and> pair_idle keys shape (merge_pair m)
        | MergeDone \<Rightarrow> length rs \<le> 1 \<and> pair_idle keys shape (merge_pair m) \<and> merge_result m = merge_outcome rs
        | _ \<Rightarrow> False)"

definition merge_ready ::
    "bool \<Rightarrow> row_layout \<Rightarrow> argument_shape \<Rightarrow> u8 list multiset \<Rightarrow> merge_passes \<Rightarrow> scratch_io \<Rightarrow> bool" where
  "merge_ready granted keys shape all m io \<longleftrightarrow> (\<exists>rs. mset (concat rs) = all \<and> phase_inv granted keys shape rs m io)"

lemma idle_parts:
  assumes "pair_idle keys shape p"
  shows "pair_idle keys shape (clear_readers p)"
  using assms by (simp add: pair_idle_def clear_readers_def cursor_store_def)

lemma read_up_to_rest: "read_up_to rs rest m \<Longrightarrow> length rest = length rs - merge_index m \<and> merge_index m \<le> length rs
    \<and> merge_checked m + length (concat rest) = length (concat rs)"
  by (auto simp: read_up_to_def)

lemma pass_left_rest:
  assumes "pass_data granted keys shape rs m io" and "read_up_to rs rest m"
  shows "pass_left m = length (concat rest) + 2 * length rest + 1"
proof -
  note d = assms(1) [unfolded pass_data_def]
  from assms(2) obtain before where "rs = before @ rest" "merge_index m = length before" "merge_checked m = length (concat before)"
    by (auto simp: read_up_to_def)
  with d show ?thesis by (simp add: pass_left_def)
qed

section \<open>The phases\<close>

lemma prepare_pass_answers:
  assumes "phase_inv granted keys shape rs m io" and "merge_state m = MergePrepare"
  shows "answers granted (prepare_pass m io) (\<lambda>(m', io'). phase_inv granted keys shape rs m' io' \<and> merge_left m' < merge_left m)"
proof -
  have data: "pass_data granted keys shape rs m io" and p: "2 \<le> length rs" "wb_bytes (merge_writer m) = []"
      "pair_idle keys shape (merge_pair m)"
    using assms by (simp_all add: phase_inv_def)
  note d = data [unfolded pass_data_def]
  let ?pass = "file_pass (merge_input m)"
  have pass: "?pass < max_merge_passes"
  proof (rule ccontr)
    assume "\<not> ?pass < max_merge_passes"
    with d p(1) show False by simp
  qed
  have guard: "\<not> (max_merge_passes \<le> file_pass (merge_input m) \<or> file_runs (merge_input m) \<le> 1)" using pass d p(1) by simp
  have slot: "input_slot m < 2" "length (io_files io) = 2" using d by simp_all
  note other = other_slot_facts [OF slot(1)]
  have afford: "affords granted (length (images ?pass 0 rs)) io" using d by blast
  show ?thesis
    unfolding prepare_pass_def Let_def if_not_P [OF guard] input_slot_def [symmetric]
  proof (rule answers_following [OF scratch_reset_answers [OF afford slot]], goal_cases)
    case (1 x)
    then obtain u io' where x: "x = (u, io')" "io_files io' = (io_files io)[other_slot (input_slot m) := []]"
        "affords granted (length (images ?pass 0 rs)) io'"
      by (cases x) auto
    let ?w = "merge_writer m\<lparr>wb_offset := 0\<rparr>"
    let ?m = "m\<lparr>merge_writer := ?w, merge_pair := clear_readers (merge_pair m), merge_index := 0, merge_offset := 0,
              merge_checked := 0, merge_output_runs := 0, merge_state := MergeNextPair\<rparr>"
    have opened: "begin_file (merge_writer m) = Some ?w" using p(2) by (simp add: begin_file_def)
    have data': "pass_data granted keys shape rs ?m io'"
      using d x(2,3) other(2) by (simp add: pass_data_def input_slot_def)
    have "reads_at (input_slot m) io' (cur_reader (pair_left (clear_readers (merge_pair m))))"
      using p(3) by (simp add: clear_readers_def reads_at_clear pair_idle_def cursor_store_def)
    moreover have "content (other_slot (input_slot m)) ?w io' = []" "writer_ok (other_slot (input_slot m)) ?w io'"
      using x(2) slot other(1) p(2) by (simp_all add: content_def writer_ok_def)
    ultimately have "pass_between keys shape rs rs ?m io'"
      using p idle_parts [OF p(3)] pass
      by (simp add: pass_between_def read_up_to_def input_slot_def output_slot_def next_images_def)
    moreover have "length rs \<le> length (concat rs)" using d runs_count by blast
    then have "merge_left ?m < merge_left m" using assms(2) d by (simp add: merge_left_def pass_left_def)
    ultimately show ?case using data' opened by (auto simp: x(1) phase_inv_def)
  qed
qed

lemma affords_pass:
  assumes "pass_data granted keys shape rs m io" and "outs @ later = pair_runs keys rs" and "file_pass (merge_input m) < max_merge_passes"
  shows "length (next_images keys m outs) \<le> length (images (file_pass (merge_input m)) 0 rs)"
    and "length (next_images keys m outs) < 2 ^ 62"
    and "roomy granted (output_slot m) (length (next_images keys m outs)) io"
proof -
  note d = assms(1) [unfolded pass_data_def]
  let ?pass = "file_pass (merge_input m)"
  have ok: "runs_ok keys shape (pair_runs keys rs)" using runs_ok_pair_runs d by blast
  have n: "length rs \<le> max_aggregate_rows" "length (pair_runs keys rs) \<le> length rs"
    using d runs_count [of keys shape rs] by (auto simp: runs_ok_def length_pair_runs)
  have "length (images (Suc ?pass) 0 (pair_runs keys rs))
      = length (pair_runs keys rs) * run_header_bytes + length (concat (concat rs))"
    using length_images [OF ok, of "Suc ?pass" 0] d assms(3) n by simp
  also have "\<dots> \<le> length rs * run_header_bytes + length (concat (concat rs))" using n(2) by simp
  also have "\<dots> = length (images ?pass 0 rs)" using length_images [of keys shape rs ?pass 0] d n(1) by simp
  finally have "length (images (Suc ?pass) 0 (pair_runs keys rs)) \<le> length (images ?pass 0 rs)" .
  then show le: "length (next_images keys m outs) \<le> length (images ?pass 0 rs)"
    unfolding next_images_def assms(2) [symmetric] images_append by simp
  have "length (images ?pass 0 rs) < 2 ^ 62" using images_small d by blast
  with le show "length (next_images keys m outs) < 2 ^ 62" by simp
  have "roomy granted (other_slot (input_slot m)) (length (images ?pass 0 rs)) io"
    by (rule affords_roomy) (use d in simp_all)
  with le show "roomy granted (output_slot m) (length (next_images keys m outs)) io"
    by (auto simp: roomy_def output_slot_def)
qed

text \<open>The states a header read leads to.\<close>

definition next_run_kept ::
    "row_layout \<Rightarrow> argument_shape \<Rightarrow> u8 list list list \<Rightarrow> u8 list list \<Rightarrow> u8 list list list \<Rightarrow> merge_passes \<Rightarrow> scratch_io
     \<Rightarrow> file_run \<Rightarrow> merge_passes \<Rightarrow> scratch_io \<Rightarrow> bool" where
  "next_run_kept keys shape rs r rest m io run m' io' \<longleftrightarrow>
     same_host io io' \<and> run = extent_at (merge_offset m) r \<and> holds_run (input_slot m) io' (merge_offset m) r
     \<and> read_up_to rs rest m' \<and> reads_at (input_slot m) io' (cur_reader (pair_left (merge_pair m')))
     \<and> pair_idle keys shape (merge_pair m') \<and> merge_input m' = merge_input m \<and> merge_writer m' = merge_writer m
     \<and> merge_output_runs m' = merge_output_runs m \<and> merge_state m' = merge_state m"

lemma next_run_keeps:
  assumes "pass_data granted keys shape rs m io" and "read_up_to rs (r # rest) m"
    and "reader_ok io (cur_reader (pair_left (merge_pair m)))" and "pair_idle keys shape (merge_pair m)"
  shows "answers granted (next_run m io) (\<lambda>(run, m', io'). next_run_kept keys shape rs r rest m io run m' io')"
proof (rule answers_weaken [OF next_run_answers [OF assms(1-3)]])
  fix x
  assume post: "next_run_post granted keys shape rs r rest m io x"
  obtain run m' io' where x: "x = (run, m', io')" by (cases x)
  from post obtain reader i c off where m': "m' = update_left (\<lambda>c. c\<lparr>cur_reader := reader\<rparr>) m
      \<lparr>merge_checked := c, merge_offset := off, merge_index := i\<rparr>"
    by (auto simp: next_run_post_def x)
  have "reads_at (input_slot m) io' reader" using post by (simp add: next_run_post_def x m' update_left_def)
  then have "reader_sound reader" using reads_at_ok reader_sound_ok by blast
  then have "pair_idle keys shape (merge_pair m')"
    using assms(4) by (simp add: m' update_left_def pair_idle_def cursor_store_def)
  moreover have "merge_input m' = merge_input m" "merge_writer m' = merge_writer m"
      "merge_output_runs m' = merge_output_runs m" "merge_state m' = merge_state m"
    by (simp_all add: m' update_left_def)
  ultimately show "case x of (run, m', io') \<Rightarrow> next_run_kept keys shape rs r rest m io run m' io'"
    using post by (simp add: next_run_post_def next_run_kept_def x)
qed simp

lemma next_run_kept_data:
  assumes "next_run_kept keys shape rs r rest m io run m' io'" and "pass_data granted keys shape rs m io"
  shows "pass_data granted keys shape rs m' io'"
  using pass_data_host [OF assms(2)] assms(1) pass_data_cong [of m' m granted keys shape rs io']
  by (simp add: next_run_kept_def)

text \<open>Writing a pair's header: the two runs, or the odd one out, and their merge.\<close>

lemma start_pair_answers:
  assumes data: "pass_data granted keys shape rs m io" and rest: "read_up_to rs rest m"
    and outs: "outs @ frames.merge_lists keys a b # pair_runs keys rest = pair_runs keys rs" "merge_output_runs m = length outs"
    and pass: "2 \<le> length rs" "file_pass (merge_input m) < max_merge_passes"
    and left: "holds_run (input_slot m) io offset a"
    and right: "case right of None \<Rightarrow> b = [] | Some run \<Rightarrow> \<exists>at. run = extent_at at b \<and> holds_run (input_slot m) io at b"
    and idle: "pair_idle keys shape (merge_pair m)"
    and w: "writer_ok (output_slot m) (merge_writer m) io" "content (output_slot m) (merge_writer m) io = next_images keys m outs"
  shows "answers granted
     (following (begin_pair (extent_at offset a) right \<lparr>id_pass = file_pass (merge_input m) + 1, id_index = merge_output_runs m\<rparr>
         (file_slot (merge_input m)) (merge_pair m) (merge_writer m) io) (\<lambda>(p, w, io).
       Some (Inr (m\<lparr>merge_pair := p, merge_writer := w, merge_state := MergePair\<rparr>, io))))
     (\<lambda>(m', io'). phase_inv granted keys shape rs m' io'
       \<and> merge_left m' = halvings (length rs) * (3 * length (concat rs) + 4) + (length a + length b) + 1 + pass_left m)"
proof -
  let ?merged = "frames.merge_lists keys a b" and ?slot = "input_slot m" and ?pass = "file_pass (merge_input m)"
  note d = data [unfolded pass_data_def]
  have member: "?merged \<in> set (pair_runs keys rs)" by (subst outs(1) [symmetric]) simp
  have ok: "run_ok keys shape ?merged" using pair_runs_members [OF _ _ member] d by blast
  have rows: "length (concat rs) \<le> max_aggregate_rows" "length rs \<le> length (concat rs)"
    using d runs_count by (auto simp: runs_ok_def)
  have "length (concat (pair_runs keys rs)) = length (concat outs) + length ?merged + length (concat (pair_runs keys rest))"
    by (subst outs(1) [symmetric]) simp
  then have len: "length ?merged \<le> max_aggregate_rows" using rows(1) by simp
  have "length outs < length (pair_runs keys rs)" by (subst outs(1) [symmetric]) simp
  then have index: "length outs < max_aggregate_rows" using rows pass(1) by (simp add: length_pair_runs)
  have bytes: "length (concat ?merged) = length (concat a) + length (concat b)"
    using mset_length_concat [of ?merged "a @ b"] by simp
  obtain header where h: "run_header \<lparr>id_pass = Suc ?pass, id_index = length outs\<rparr> (length ?merged) (length (concat ?merged)) = Inr header"
      "run_image (Suc ?pass) (length outs) ?merged = header @ concat ?merged" "length header = run_header_bytes"
    using run_image_header [OF ok _ len _ index, of "Suc ?pass"] d pass(2) by (metis Suc_leI)
  have next_image: "next_images keys m (outs @ [?merged]) = next_images keys m outs @ header @ concat ?merged"
    by (simp add: next_images_def images_append h(2))
  have "(outs @ [?merged]) @ pair_runs keys rest = pair_runs keys rs" using outs(1) by simp
  note room = affords_pass [OF data this pass(2)]
  have target: "merge_target keys shape ?slot (next_images keys m outs @ header) ?merged"
    using d ok room(2) by (simp add: merge_target_def run_ok_def next_image)
  have header: "run_header \<lparr>id_pass = ?pass + 1, id_index = merge_output_runs m\<rparr> (length a + length b) (length (concat a) + length (concat b)) = Inr header"
    using h(1) bytes outs(2) by simp
  have roomy: "roomy granted (other_slot ?slot) (length (next_images keys m outs @ header @ concat ?merged)) io"
    using room(3) by (simp add: next_image output_slot_def)
  show ?thesis
    unfolding input_slot_def [symmetric]
  proof (rule answers_following [OF begin_pair_answers [OF target header right left idle w [unfolded output_slot_def] roomy]], goal_cases)
    case (1 x)
    then obtain p' w' io' where x: "x = (p', w', io')"
      and b: "pair_inv granted keys shape ?slot (next_images keys m outs @ header) ?merged p' w' io'"
        "output_only granted (output_slot m) io io'" "pair_remaining p' = length a + length b"
      by (cases x) (auto simp: output_slot_def)
    let ?m = "m\<lparr>merge_pair := p', merge_writer := w', merge_state := MergePair\<rparr>"
    have quiet: "granted \<longrightarrow> quiet io'" using b(1) roomy_quiet unfolding pair_inv_def by blast
    have "pass_data granted keys shape rs ?m io'"
      using pass_data_output [OF data b(2) quiet] pass_data_cong [of ?m m granted keys shape rs io'] by simp
    moreover have "read_up_to rs rest ?m" using rest by (simp add: read_up_to_def)
    moreover have same: "next_images keys ?m = next_images keys m" "input_slot ?m = ?slot"
      by (simp_all add: next_images_def input_slot_def fun_eq_iff)
    ultimately have rest': "read_up_to rs rest ?m" and data': "pass_data granted keys shape rs ?m io'" by blast+
    have "pass_pair granted keys shape rs rest ?m io'"
      unfolding pass_pair_def same
      by (intro conjI exI [of _ outs] exI [of _ ?merged] exI [of _ header])
        (use pass outs rest' next_image target b(1) in simp_all)
    with data' have "phase_inv granted keys shape rs ?m io'" by (auto simp: phase_inv_def)
    moreover have "merge_left ?m = halvings (length rs) * (3 * length (concat rs) + 4) + (length a + length b) + 1 + pass_left m"
      using d b(3) by (simp add: merge_left_def pass_left_def)
    ultimately show ?case by (simp add: x)
  qed
qed

lemma next_pair_answers:
  assumes "phase_inv granted keys shape rs m io" and "merge_state m = MergeNextPair"
  shows "answers granted (next_pair m io) (\<lambda>(m', io'). phase_inv granted keys shape rs m' io' \<and> merge_left m' < merge_left m)"
proof -
  from assms obtain rest where data: "pass_data granted keys shape rs m io" and b: "pass_between keys shape rs rest m io"
    by (auto simp: phase_inv_def)
  note d = data [unfolded pass_data_def] and p = b [unfolded pass_between_def]
  from p obtain outs where outs: "outs @ pair_runs keys rest = pair_runs keys rs" "merge_output_runs m = length outs"
      "content (output_slot m) (merge_writer m) io = next_images keys m outs" by blast
  have at: "read_up_to rs rest m" and idle: "pair_idle keys shape (merge_pair m)"
    and reader: "reader_ok io (cur_reader (pair_left (merge_pair m)))"
    using p reads_at_ok by blast+
  note r = read_up_to_rest [OF at]
  show ?thesis
  proof (cases rest)
    case Nil
    from at Nil have "merge_offset m = length (images (file_pass (merge_input m)) 0 rs)" by (auto simp: read_up_to_def)
    moreover have "length (pair_runs keys rs) = length outs" using outs(1) Nil by (metis append_Nil2 pair_runs.simps(1))
    ultimately have checks: "merge_offset m = file_end (merge_input m)" "merge_checked m = file_rows (merge_input m)"
        "merge_output_runs m = (file_runs (merge_input m) + 1) div 2" "merge_index m = file_runs (merge_input m)"
      using r Nil d outs(2) by (simp_all add: length_pair_runs)
    let ?m = "m\<lparr>merge_state := MergeFlush\<rparr>"
    have "pass_between keys shape rs [] ?m io"
      using b Nil by (simp add: pass_between_def read_up_to_def input_slot_def output_slot_def next_images_def)
    moreover have "pass_data granted keys shape rs ?m io" using data pass_data_cong [of ?m m] by simp
    ultimately have "phase_inv granted keys shape rs ?m io" by (simp add: phase_inv_def)
    moreover have "merge_left ?m < merge_left m" using assms(2) by (simp add: merge_left_def pass_left_def)
    ultimately show ?thesis using checks by (simp add: next_pair_def)
  next
    case (Cons a rest1)
    have at_a: "read_up_to rs (a # rest1) m" using at Cons by simp
    have "length rest \<noteq> 0" using Cons by simp
    then have guard: "merge_index m \<noteq> file_runs (merge_input m)" using r d by linarith
    have left_m: "merge_left m = halvings (length rs) * (3 * length (concat rs) + 4) + pass_left m"
      using assms(2) d by (simp add: merge_left_def)
    show ?thesis
      unfolding next_pair_def Let_def if_not_P [OF guard]
    proof (rule answers_following [OF next_run_keeps [OF data at_a reader idle]], goal_cases)
      case (1 x)
      then obtain left m1 io1 where x: "x = (left, m1, io1)" and k1: "next_run_kept keys shape rs a rest1 m io left m1 io1"
        by (cases x) auto
      note k1' = k1 [unfolded next_run_kept_def]
      note data1 = next_run_kept_data [OF k1 data]
      have same1: "input_slot m1 = input_slot m" "output_slot m1 = output_slot m" "next_images keys m1 = next_images keys m"
        using k1' by (simp_all add: input_slot_def output_slot_def next_images_def fun_eq_iff)
      from k1' obtain offset where ext: "left = extent_at offset a" "holds_run (input_slot m1) io1 offset a" using same1 by auto
      have w1: "writer_ok (output_slot m1) (merge_writer m1) io1" "content (output_slot m1) (merge_writer m1) io1 = next_images keys m1 outs"
        using p outs(3) k1' same_host_slot [of io io1] same1 by simp_all
      have pass1: "2 \<le> length rs" "file_pass (merge_input m1) < max_merge_passes" "merge_output_runs m1 = length outs"
        using p k1' outs(2) by simp_all
      have "read_up_to rs rest1 m1" using k1' by blast
      note r1 = read_up_to_rest [OF this]
      show ?case
      proof (cases rest1)
        case Nil
        have "outs @ frames.merge_lists keys a [] # pair_runs keys [] = pair_runs keys rs" using outs(1) Cons Nil by simp
        from start_pair_answers [OF data1 _ this pass1(3,1,2) ext(2), where right = None] k1' Nil w1
        have s: "answers granted
           (following (begin_pair (extent_at offset a) None \<lparr>id_pass = file_pass (merge_input m1) + 1, id_index = merge_output_runs m1\<rparr>
               (file_slot (merge_input m1)) (merge_pair m1) (merge_writer m1) io1) (\<lambda>(p, w, io).
             Some (Inr (m1\<lparr>merge_pair := p, merge_writer := w, merge_state := MergePair\<rparr>, io))))
           (\<lambda>(m', io'). phase_inv granted keys shape rs m' io'
             \<and> merge_left m' = halvings (length rs) * (3 * length (concat rs) + 4) + (length a + length ([] :: u8 list list)) + 1 + pass_left m1)"
          by simp
        have at1: "read_up_to rs [] m1" using k1' Nil by simp
        have "merge_index m1 = file_runs (merge_input m)" using r1 k1' Nil d by simp
        moreover have "length a + 1 + pass_left m1 < pass_left m"
          unfolding pass_left_rest [OF data at] pass_left_rest [OF data1 at1] by (simp add: Cons Nil)
        ultimately have less: "length a + 1 + pass_left m1 < pass_left m" and index: "\<not> merge_index m1 < file_runs (merge_input m)" by simp_all
        from answers_weaken [OF s, of granted "\<lambda>(m', io'). phase_inv granted keys shape rs m' io' \<and> merge_left m' < merge_left m"]
          left_m less
        show ?thesis
          using k1' ext(1) index by (simp add: x split_beta)
      next
        case rest1: (Cons b rest2)
        have at_b: "read_up_to rs (b # rest2) m1" using k1' rest1 by simp
        have reader1: "reader_ok io1 (cur_reader (pair_left (merge_pair m1)))" and idle1: "pair_idle keys shape (merge_pair m1)"
          using k1' reads_at_ok by blast+
        have "length rest1 \<noteq> 0" using rest1 by simp
        then have guard1: "merge_index m1 < file_runs (merge_input m)" using r1 d by linarith
        have "answers granted
          (following (next_run m1 io1) (\<lambda>(right, m, io). Some (Inr (Some right, m, io))))
          (\<lambda>(right, m2, io2). \<exists>run. right = Some run \<and> next_run_kept keys shape rs b rest2 m1 io1 run m2 io2)"
          by (rule answers_following [OF next_run_keeps [OF data1 at_b reader1 idle1]]) auto
        then have second: "answers granted
          (if merge_index m1 < file_runs (merge_input m)
          then following (next_run m1 io1) (\<lambda>(right, m, io). Some (Inr (Some right, m, io)))
          else Some (Inr (None, m1, io1)))
          (\<lambda>(right, m2, io2). \<exists>run. right = Some run \<and> next_run_kept keys shape rs b rest2 m1 io1 run m2 io2)"
          using guard1 by simp
        show ?thesis
          unfolding x prod.case
        proof (rule answers_following [OF second], goal_cases)
          case (1 y)
          then obtain run m2 io2 where y: "y = (Some run, m2, io2)" and k2: "next_run_kept keys shape rs b rest2 m1 io1 run m2 io2"
            by (cases y) auto
          note k2' = k2 [unfolded next_run_kept_def]
          note data2 = next_run_kept_data [OF k2 data1]
          have same2: "input_slot m2 = input_slot m1" "output_slot m2 = output_slot m1" "next_images keys m2 = next_images keys m1"
            using k2' by (simp_all add: input_slot_def output_slot_def next_images_def fun_eq_iff)
          have "io_files io2 ! input_slot m1 = io_files io1 ! input_slot m1" using k2' by (simp add: same_host_def)
          from holds_run_same [OF ext(2) this] have held: "holds_run (input_slot m2) io2 offset a" by (simp add: same2)
          have w2: "writer_ok (output_slot m2) (merge_writer m2) io2" "content (output_slot m2) (merge_writer m2) io2 = next_images keys m2 outs"
            using w1 k2' same_host_slot [of io1 io2] same2 by simp_all
          have pass2: "file_pass (merge_input m2) < max_merge_passes" "merge_output_runs m2 = length outs"
            using pass1 k2' by simp_all
          have joined: "outs @ frames.merge_lists keys a b # pair_runs keys rest2 = pair_runs keys rs" using outs(1) Cons rest1 by simp
          have s: "answers granted
             (following (begin_pair (extent_at offset a) (Some run) \<lparr>id_pass = file_pass (merge_input m2) + 1, id_index = merge_output_runs m2\<rparr>
                 (file_slot (merge_input m2)) (merge_pair m2) (merge_writer m2) io2) (\<lambda>(p, w, io).
               Some (Inr (m2\<lparr>merge_pair := p, merge_writer := w, merge_state := MergePair\<rparr>, io))))
             (\<lambda>(m', io'). phase_inv granted keys shape rs m' io'
               \<and> merge_left m' = halvings (length rs) * (3 * length (concat rs) + 4) + (length a + length b) + 1 + pass_left m2)"
            by (rule start_pair_answers [OF data2 _ joined pass2(2) pass1(1) pass2(1) held])
              (use k2' w2 same2 in auto)
          have at2: "read_up_to rs rest2 m2" using k2' by simp
          have "length a + length b + 1 + pass_left m2 < pass_left m"
            unfolding pass_left_rest [OF data at] pass_left_rest [OF data2 at2] by (simp add: Cons rest1)
          with answers_weaken [OF s, of granted "\<lambda>(m', io'). phase_inv granted keys shape rs m' io' \<and> merge_left m' < merge_left m"]
            left_m
          show ?case using k1' k2' ext(1) by (simp add: y split_beta)
        qed
      qed
    qed
  qed
qed

end
