(* ===== verification/Merge_Passes.thy ===== *)
theory Merge_Passes
  imports Merge_Steps
begin

text \<open>
  The rest of the phases, and the whole controller: every step keeps the invariant and
  advances the measure, and the passes end with one run that holds every frame in order.
\<close>

section \<open>Moving frames\<close>

lemma merge_current_pair_answers:
  assumes "phase_inv granted keys shape rs m io" and "merge_state m = MergePair"
  shows "answers granted (merge_current_pair keys m io) (\<lambda>(m', io'). phase_inv granted keys shape rs m' io' \<and> merge_left m' < merge_left m)"
proof -
  from assms obtain rest where data: "pass_data granted keys shape rs m io" and b: "pass_pair granted keys shape rs rest m io"
    by (auto simp: phase_inv_def)
  note d = data [unfolded pass_data_def]
  from b obtain outs merged header where p: "2 \<le> length rs" "file_pass (merge_input m) < max_merge_passes" "read_up_to rs rest m"
      "outs @ merged # pair_runs keys rest = pair_runs keys rs" "merge_output_runs m = length outs"
      "next_images keys m (outs @ [merged]) = next_images keys m outs @ header @ concat merged"
      "merge_target keys shape (input_slot m) (next_images keys m outs @ header) merged"
      "pair_inv granted keys shape (input_slot m) (next_images keys m outs @ header) merged (merge_pair m) (merge_writer m) io"
    by (auto simp: pass_pair_def)
  have batch: "0 < batch_rows" by (simp add: batch_rows_def)
  show ?thesis
    unfolding merge_current_pair_def pair_step_def
  proof (rule answers_following [OF pair_moves_answers [OF p(7,8)]], goal_cases)
    case (1 x)
    obtain finished q w io' where x: "x = (finished, q, w, io')" by (cases x)
    with 1 have pr: "pair_progress granted keys shape (input_slot m) (next_images keys m outs @ header) merged io finished q w io'"
      and less: "finished \<or> pair_remaining q < pair_remaining (merge_pair m)"
      using batch by auto
    note pr' = pr [unfolded pair_progress_def]
    have only: "output_only granted (output_slot m) io io'" using pr' by (simp add: output_slot_def)
    have quiet: "granted \<longrightarrow> quiet io'"
      using pr' roomy_quiet unfolding pair_inv_def by (metis (no_types, lifting))
    let ?m = "m\<lparr>merge_pair := q, merge_writer := w,
         merge_output_runs := (if finished then merge_output_runs m + 1 else merge_output_runs m),
         merge_state := (if finished then MergeNextPair else MergePair)\<rparr>"
    have data': "pass_data granted keys shape rs ?m io'"
      using pass_data_output [OF data only quiet] pass_data_cong [of ?m m granted keys shape rs io'] by simp
    have at: "read_up_to rs rest ?m" using p(3) by (simp add: read_up_to_def)
    have same: "next_images keys ?m = next_images keys m" "input_slot ?m = input_slot m" "output_slot ?m = output_slot m"
      by (simp_all add: next_images_def input_slot_def output_slot_def fun_eq_iff)
    have "phase_inv granted keys shape rs ?m io' \<and> merge_left ?m < merge_left m"
    proof (cases finished)
      case True
      have "(outs @ [merged]) @ pair_runs keys rest = pair_runs keys rs" using p(4) by simp
      moreover have "content (output_slot m) w io' = next_images keys m (outs @ [merged])"
        using pr' True p(6) by (simp add: output_slot_def)
      ultimately have outs': "\<exists>outs. outs @ pair_runs keys rest = pair_runs keys rs \<and> merge_output_runs ?m = length outs
          \<and> content (output_slot ?m) (merge_writer ?m) io' = next_images keys ?m outs"
        unfolding same using True p(5) by (intro exI [of _ "outs @ [merged]"]) simp
      have "pass_between keys shape rs rest ?m io'"
        unfolding pass_between_def
        using outs' p(1,2) at pr' True by (simp add: input_slot_def output_slot_def next_images_def)
      moreover have "merge_left ?m < merge_left m" using assms(2) True by (simp add: merge_left_def pass_left_def)
      ultimately show ?thesis using data' True by (auto simp: phase_inv_def)
    next
      case False
      have "pass_pair granted keys shape rs rest ?m io'"
        unfolding pass_pair_def same
        by (intro conjI exI [of _ outs] exI [of _ merged] exI [of _ header]) (use p at pr' False in simp_all)
      moreover have "merge_left ?m < merge_left m" using assms(2) False less by (simp add: merge_left_def pass_left_def)
      ultimately show ?thesis using data' False by (auto simp: phase_inv_def)
    qed
    then show ?case by (simp add: x)
  qed
qed

section \<open>Ending a pass\<close>

lemma flush_writer_answers:
  assumes "writer_ok out w io" and "out < 2" and "roomy granted out need io" and "length (content out w io) \<le> need"
  shows "answers granted (Some (flush_writer out w io)) (\<lambda>(w', io'). wb_bytes w' = [] \<and> writer_ok out w' io'
    \<and> content out w' io' = content out w io \<and> output_only granted out io io' \<and> (granted \<longrightarrow> quiet io'))"
proof (cases granted)
  case True
  with assms(3) have q: "quiet io" "need \<le> space out io" "space out io < 2 ^ 64" by (auto simp: roomy_def)
  have small: "length (content out w io) < 2 ^ 64" "length (wb_bytes w) \<le> io_budget io"
    using assms(4) q(2,3) by (simp_all add: content_def space_def)
  from flush_writer_quiet [OF q(1) assms(1) small] obtain w' io' where
    f: "flush_writer out w io = Inr (w', io')" "quiet io'" "io_budget io' = io_budget io - length (wb_bytes w)" by blast
  note g = flush_writer_Inr [OF f(1) assms(1)]
  have "length (io_files io' ! out) = length (io_files io ! out) + length (wb_bytes w)"
    using g by (metis content_def append_Nil2 length_append)
  with f(3) small(2) have "space out io' = space out io" by (simp add: space_def)
  with f g show ?thesis by (simp add: output_only_def)
next
  case False
  then show ?thesis
    using flush_writer_Inr [OF _ assms(1)] by (cases "flush_writer out w io") (auto simp: output_only_def)
qed

lemma affords_less: "affords granted need io \<Longrightarrow> need' \<le> need \<Longrightarrow> affords granted need' io"
  by (auto simp: affords_def)

lemma finish_pass_answers:
  assumes "phase_inv granted keys shape rs m io" and "merge_state m = MergeFlush"
  shows "answers granted (finish_pass m io)
    (\<lambda>(m', io'). phase_inv granted keys shape (pair_runs keys rs) m' io' \<and> merge_left m' < merge_left m)"
proof -
  let ?rs = "pair_runs keys rs" and ?pass = "file_pass (merge_input m)" and ?out = "output_slot m"
  from assms have data: "pass_data granted keys shape rs m io" and b: "pass_between keys shape rs [] m io"
    by (auto simp: phase_inv_def)
  note d = data [unfolded pass_data_def] and p = b [unfolded pass_between_def]
  have pass: "?pass < max_merge_passes" and n: "2 \<le> length rs" and runs: "merge_output_runs m = length ?rs"
    and written: "content ?out (merge_writer m) io = next_images keys m ?rs" and w: "writer_ok ?out (merge_writer m) io"
    and idle: "pair_idle keys shape (merge_pair m)"
    using p by auto
  have slot: "input_slot m < 2" using d by simp
  note other = other_slot_facts [OF slot, folded output_slot_def]
  note room = affords_pass [OF data append_Nil2 pass]
  have half: "length ?rs = (length rs + 1) div 2" "1 \<le> length ?rs" "length ?rs < length rs" using n by (auto simp: length_pair_runs)
  have need: "length (content ?out (merge_writer m) io) \<le> length (next_images keys m ?rs)" unfolding written ..
  show ?thesis
    unfolding finish_pass_def Let_def input_slot_def [symmetric] output_slot_def [symmetric]
  proof (rule answers_following [OF flush_writer_answers [OF w other(1) room(3) need]], goal_cases)
    case (1 x)
    then obtain w' io' where x: "x = (w', io')" and f: "wb_bytes w' = []" "writer_ok ?out w' io'"
        "content ?out w' io' = next_images keys m ?rs" "output_only granted ?out io io'" "granted \<longrightarrow> quiet io'"
      using written by (cases x) auto
    have held: "io_files io' ! ?out = images (Suc ?pass) 0 ?rs" using f(1,3) by (simp add: content_def next_images_def)
    have place: "write_position w' = Inr (length (images (Suc ?pass) 0 ?rs))"
      using writer_position [OF f(2)] f(3) room(2) by (simp add: next_images_def)
    let ?m = "m\<lparr>merge_writer := w',
            merge_input := \<lparr>file_slot = ?out, file_pass = ?pass + 1,
              file_runs = merge_output_runs m, file_rows = file_rows (merge_input m), file_end = length (images (Suc ?pass) 0 ?rs)\<rparr>,
            merge_state := (if merge_output_runs m = 1 then MergeFinal else MergePrepare)\<rparr>"
    have "affords granted (length (images ?pass 0 rs)) io'"
      by (rule affords_output [OF _ f(4) [unfolded output_slot_def] f(5) slot]) (use d in blast)
    then have afford: "affords granted (length (images (Suc ?pass) 0 ?rs)) io'"
      using affords_less room(1) unfolding next_images_def by blast
    have "length rs \<le> 2 * 2 ^ (max_merge_passes - Suc ?pass)"
      using d pass by (metis Suc_diff_Suc power_Suc)
    then have count: "length ?rs \<le> 2 ^ (max_merge_passes - Suc ?pass)" using half(1) by linarith
    have files: "length (io_files io') = 2" using d f(4) by (simp add: output_only_def only_slot_def)
    have data': "pass_data granted keys shape ?rs ?m io'"
      unfolding pass_data_def
      using d other(1) runs_ok_pair_runs [of keys shape rs] pass runs held afford count files
      by (simp add: input_slot_def)
    have "phase_inv granted keys shape ?rs ?m io'"
      using data' half runs idle f(1) by (simp add: phase_inv_def)
    moreover have "halvings (length rs) = Suc (halvings (length ?rs))" using halvings_step [OF n] half(1) by simp
    then have "merge_left ?m < merge_left m"
      using assms(2) d runs by (simp add: merge_left_def)
    moreover have guard: "\<not> file_runs (merge_input m) \<le> merge_output_runs m" using d runs half(3) by simp
    ultimately show ?case using place guard by (simp add: x)
  qed
qed

section \<open>The last run\<close>

lemma finish_merge_answers:
  assumes "phase_inv granted keys shape rs m io" and "merge_state m = MergeFinal"
  shows "answers granted (finish_merge m io) (\<lambda>(m', io'). phase_inv granted keys shape rs m' io' \<and> merge_state m' = MergeDone
    \<and> merge_left m' < merge_left m)"
proof -
  from assms have data: "pass_data granted keys shape rs m io" and n: "length rs \<le> 1" and idle: "pair_idle keys shape (merge_pair m)"
    by (auto simp: phase_inv_def)
  note d = data [unfolded pass_data_def]
  let ?pass = "file_pass (merge_input m)"
  have slot: "input_slot m < 2" "length (io_files io) = 2" using d by simp_all
  have afford: "affords granted (length (images ?pass 0 rs)) io" using d by blast
  show ?thesis
    unfolding finish_merge_def Let_def input_slot_def [symmetric]
  proof (rule answers_following [OF scratch_reset_answers [OF afford slot]], goal_cases)
    case (1 x)
    then obtain u io1 where x: "x = (u, io1)" "io_files io1 = (io_files io)[other_slot (input_slot m) := []]"
        "affords granted (length (images ?pass 0 rs)) io1"
      by (cases x) auto
    let ?m = "update_left (\<lambda>c. c\<lparr>cur_reader := clear_reader (cur_reader c)\<rparr>) m\<lparr>merge_index := 0, merge_offset := 0, merge_checked := 0\<rparr>"
    have data1: "pass_data granted keys shape rs ?m io1"
      using d x(2,3) other_slot_facts(2) [OF slot(1)] by (simp add: pass_data_def input_slot_def update_left_def)
    have idle1: "pair_idle keys shape (merge_pair ?m)" using idle by (simp add: update_left_def pair_idle_def cursor_store_def)
    have reader: "reader_ok io1 (cur_reader (pair_left (merge_pair ?m)))"
      using reads_at_ok [OF reads_at_clear [of _ "0::nat"]] idle by (simp add: update_left_def pair_idle_def cursor_store_def)
    have at: "read_up_to rs rs ?m" by (simp add: read_up_to_def)
    have left: "merge_left m = 1" using assms(2) n d by (simp add: merge_left_def halvings_one)
    show ?case
    proof (cases rs)
      case Nil
      let ?d = "?m\<lparr>merge_result := None, merge_state := MergeDone\<rparr>"
      have "phase_inv granted keys shape rs ?d io1"
        using data1 idle1 Nil pass_data_cong [of ?d ?m granted keys shape rs io1] by (simp add: phase_inv_def merge_outcome_def update_left_def)
      moreover have "merge_left ?d = 0" using d Nil by (simp add: merge_left_def halvings_one update_left_def)
      ultimately show ?thesis using d Nil left by (simp add: x(1) update_left_def)
    next
      case (Cons r rest)
      with n have one: "rs = [r]" by simp
      have at': "read_up_to rs (r # []) ?m" using at by (simp add: one)
      have "answers granted
        (following (next_run ?m io1) (\<lambda>(run, m, io). Some (Inr (Some run, m, io))))
        (\<lambda>(run, m2, io2). run = merge_outcome rs \<and> pass_data granted keys shape rs m2 io2 \<and> pair_idle keys shape (merge_pair m2)
          \<and> merge_input m2 = merge_input m \<and> merge_offset m2 = file_end (merge_input m) \<and> merge_checked m2 = file_rows (merge_input m))"
      proof (rule answers_following [OF next_run_keeps [OF data1 at' reader idle1]], goal_cases)
        case (1 y)
        then obtain run m2 io2 where y: "y = (run, m2, io2)" and k: "next_run_kept keys shape rs r [] ?m io1 run m2 io2"
          by (cases y) auto
        note k' = k [unfolded next_run_kept_def]
        have "read_up_to rs [] m2" using k' by blast
        then have "merge_offset m2 = length (images (file_pass (merge_input m2)) 0 rs)" "merge_checked m2 = length (concat rs)"
          by (auto simp: read_up_to_def)
        moreover have "run = extent_at 0 r" "merge_input m2 = merge_input m" using k' by (simp_all add: update_left_def)
        ultimately show ?case using next_run_kept_data [OF k data1] k' d by (simp add: y one merge_outcome_def)
      qed
      then have s: "answers granted
        (if file_runs (merge_input ?m) = 0 then Some (Inr (None, ?m, io1))
         else following (next_run ?m io1) (\<lambda>(run, m, io). Some (Inr (Some run, m, io))))
        (\<lambda>(run, m2, io2). run = merge_outcome rs \<and> pass_data granted keys shape rs m2 io2 \<and> pair_idle keys shape (merge_pair m2)
          \<and> merge_input m2 = merge_input m \<and> merge_offset m2 = file_end (merge_input m) \<and> merge_checked m2 = file_rows (merge_input m))"
        using d one by (simp add: update_left_def)
      show ?thesis
        unfolding x(1) prod.case
      proof (rule answers_following [OF s], goal_cases)
        case (1 y)
        then obtain run m2 io2 where y: "y = (run, m2, io2)" and k: "run = merge_outcome rs" "pass_data granted keys shape rs m2 io2"
            "pair_idle keys shape (merge_pair m2)" "merge_input m2 = merge_input m" "merge_offset m2 = file_end (merge_input m)"
            "merge_checked m2 = file_rows (merge_input m)"
          by (cases y) auto
        let ?d = "m2\<lparr>merge_result := run, merge_state := MergeDone\<rparr>"
        have "phase_inv granted keys shape rs ?d io2"
          using k n pass_data_cong [of ?d m2 granted keys shape rs io2] by (simp add: phase_inv_def)
        moreover have "merge_left ?d = 0" using d n k(4) by (simp add: merge_left_def halvings_one)
        ultimately show ?case using k(4-6) left by (simp add: y)
      qed
    qed
  qed
qed

section \<open>Steps\<close>

lemma phase_inv_host:
  assumes "phase_inv granted keys shape rs m io" and "same_host io io'"
  shows "phase_inv granted keys shape rs m io'"
proof -
  note data = pass_data_host [OF _ assms(2)]
  note between = same_host_slot(2,3) [OF assms(2)] reads_at_host [OF assms(2)]
  have "pass_between keys shape rs rest m io \<Longrightarrow> pass_between keys shape rs rest m io'" for rest
    using between by (simp add: pass_between_def)
  moreover have "pass_pair granted keys shape rs rest m io \<Longrightarrow> pass_pair granted keys shape rs rest m io'" for rest
    unfolding pass_pair_def using pair_inv_host [OF _ assms(2)] by blast
  ultimately show ?thesis
    using assms(1) data unfolding phase_inv_def by (cases "merge_state m") (simp_all only: merge_phase.case, blast+)
qed

text \<open>Every step of an unfinished merge keeps the frames and advances.\<close>

definition merge_advances ::
    "bool \<Rightarrow> row_layout \<Rightarrow> argument_shape \<Rightarrow> u8 list multiset \<Rightarrow> nat \<Rightarrow> merge_passes \<times> scratch_io \<Rightarrow> bool" where
  "merge_advances granted keys shape all left = (\<lambda>(m', io'). merge_ready granted keys shape all m' io' \<and> merge_left m' < left)"

lemma merge_advancing:
  assumes "answers granted x (\<lambda>(m', io'). phase_inv granted keys shape rs m' io' \<and> merge_left m' < left)"
    and "mset (concat rs) = all"
  shows "answers granted x (merge_advances granted keys shape all left)"
  by (rule answers_weaken [OF assms(1)]) (use assms(2) in \<open>auto simp: merge_advances_def merge_ready_def\<close>)

lemma merge_step_answers:
  assumes "merge_ready granted keys shape all m io" and "merge_state m \<noteq> MergeDone"
  shows "answers granted (merge_step keys m io) (\<lambda>(finished, m', io').
    merge_ready granted keys shape all m' io' \<and> merge_left m' < merge_left m \<and> (finished \<longleftrightarrow> merge_state m' = MergeDone))"
proof -
  from assms(1) obtain rs where rs: "mset (concat rs) = all" "phase_inv granted keys shape rs m io"
    by (auto simp: merge_ready_def)
  let ?phase = "\<lambda>io. case merge_state m of
                 MergePrepare \<Rightarrow> prepare_pass m io
               | MergeNextPair \<Rightarrow> next_pair m io
               | MergePair \<Rightarrow> merge_current_pair keys m io
               | MergeFlush \<Rightarrow> finish_pass m io
               | MergeFinal \<Rightarrow> finish_merge m io
               | _ \<Rightarrow> Some (Inl (Corrupt ''merge controller is not active''))"
  have phase: "answers granted (?phase io1) (merge_advances granted keys shape all (merge_left m))" if "phase_inv granted keys shape rs m io1" for io1
  proof (cases "merge_state m")
    case MergePrepare
    with merge_advancing [OF prepare_pass_answers [OF that MergePrepare] rs(1)] show ?thesis by simp
  next
    case MergeNextPair
    with merge_advancing [OF next_pair_answers [OF that MergeNextPair] rs(1)] show ?thesis by simp
  next
    case MergePair
    with merge_advancing [OF merge_current_pair_answers [OF that MergePair] rs(1)] show ?thesis by simp
  next
    case MergeFlush
    have "mset (concat (pair_runs keys rs)) = all" using rs(1) mset_pair_runs by metis
    with MergeFlush merge_advancing [OF finish_pass_answers [OF that MergeFlush]] show ?thesis by simp
  next
    case MergeFinal
    have "answers granted (finish_merge m io1) (\<lambda>(m', io'). phase_inv granted keys shape rs m' io' \<and> merge_left m' < merge_left m)"
      by (rule answers_weaken [OF finish_merge_answers [OF that MergeFinal]]) auto
    from MergeFinal merge_advancing [OF this rs(1)] show ?thesis by simp
  qed (use that assms(2) in \<open>simp_all add: phase_inv_def\<close>)
  have quiet: "granted \<longrightarrow> quiet io" using rs(2) affords_quiet unfolding phase_inv_def pass_data_def by blast
  have step: "merge_step keys m io = (case poll io of Inl e \<Rightarrow> Some (Inl e) | Inr io1 \<Rightarrow>
      following (?phase io1) (\<lambda>(m, io). Some (Inr (merge_state m = MergeDone, m, io))))"
    using assms(2) by (simp add: merge_step_def)
  show ?thesis
    unfolding step
  proof (rule answers_poll [OF quiet])
    fix io1
    assume "same_host io io1"
    note inv = phase_inv_host [OF rs(2) this]
    show "answers granted (following (?phase io1) (\<lambda>(m, io). Some (Inr (merge_state m = MergeDone, m, io)))) (\<lambda>(finished, m', io').
      merge_ready granted keys shape all m' io' \<and> merge_left m' < merge_left m \<and> (finished \<longleftrightarrow> merge_state m' = MergeDone))"
      by (rule answers_following [OF phase [OF inv]]) (auto simp: merge_advances_def)
  qed
qed

end
