(* ===== verification/External_Sort.thy ===== *)
theory External_Sort
  imports Merge_Passes
begin

text \<open>
  The external sort as a whole: a client pushes records, writes a run whenever the buffer is
  full and steps the sorter until it is done, whatever the host does between the calls.
\<close>

section \<open>Limits of the run buffer\<close>

text \<open>Sorting and writing a run leave the buffer's limits alone.\<close>

definition same_limits :: "run_buffer \<Rightarrow> run_buffer \<Rightarrow> bool" where
  "same_limits r r' \<longleftrightarrow>
     run_byte_limit r' = run_byte_limit r \<and> run_row_limit r' = run_row_limit r \<and> run_capacity r' = run_capacity r"

lemma same_limits_trans: "same_limits a b \<Longrightarrow> same_limits b c \<Longrightarrow> same_limits a c"
  by (simp add: same_limits_def)

lemma start_pair_limits: "same_limits r (start_pair start r')  = same_limits r r'"
  by (simp add: start_pair_def same_limits_def Let_def)

lemma finish_pair_limits: "same_limits r r' \<Longrightarrow> same_limits r (finish_pair r')"
  by (simp add: finish_pair_def start_pair_limits) (simp add: same_limits_def)

lemma move_span_limits: "move_span take_left r = Some r' \<Longrightarrow> same_limits r r'"
  by (auto simp: move_span_def Let_def same_limits_def split: if_splits)

lemma sort_moves_limits: "sort_moves keys moves remaining r io = Some (r', res) \<Longrightarrow> same_limits r r'"
proof (induction moves arbitrary: remaining r io)
  case (Suc moves)
  show ?case
  proof (cases "poll io")
    case (Inr io1)
    with Suc.prems obtain choice where c: "choose_left keys remaining r = Some choice" by (auto split: bind_splits)
    consider (stop) "r' = r" | (move) left rem r1 where "choice = Inr (Some (left, rem))" "move_span left r = Some r1"
      using Suc.prems Inr c by (auto split: sum.splits option.splits bind_splits)
    then show ?thesis
    proof cases
      case move
      have m: "same_limits r (finish_pair r1)" using finish_pair_limits move_span_limits [OF move(2)] .
      from Suc.prems Inr c move consider "r' = finish_pair r1" | "sort_moves keys moves rem (finish_pair r1) io1 = Some (r', res)"
        by (auto simp: Let_def split: if_splits)
      then show ?thesis using Suc.IH m same_limits_trans by cases blast+
    qed (simp add: same_limits_def)
  qed (use Suc.prems in \<open>simp add: same_limits_def\<close>)
qed (simp add: same_limits_def)

lemma appending_limits: "appending x failed r = Some (r', res) \<Longrightarrow> same_limits a failed \<Longrightarrow> same_limits a r \<Longrightarrow> same_limits a r'"
  by (cases x; cases "the x") (auto simp: appending_def)

lemma step_run_limits:
  assumes "step_run keys r w io = Some (r', res)"
  shows "same_limits r r'"
proof (cases "run_state r = RunDone")
  case False
  have failed: "same_limits r (r\<lparr>run_state := st\<rparr>)" for st by (simp add: same_limits_def)
  show ?thesis
  proof (cases "poll io")
    case (Inl e)
    with False assms failed show ?thesis by (auto simp: step_run_def)
  next
    case (Inr io1)
    show ?thesis
    proof (cases "run_state r")
      case RunSort
      with assms Inr obtain r1 res1 where m: "sort_moves keys batch_rows comparison_budget (r\<lparr>run_state := RunFailed\<rparr>) io1 = Some (r1, res1)"
        by (cases "sort_moves keys batch_rows comparison_budget (r\<lparr>run_state := RunFailed\<rparr>) io1") (auto simp: step_run_def)
      with assms Inr RunSort have "r' = r1 \<or> (\<exists>st. r' = r1\<lparr>run_state := st\<rparr>)"
        by (cases res1) (auto simp: step_run_def)
      with same_limits_trans [OF failed sort_moves_limits [OF m]] show ?thesis by (auto simp: same_limits_def)
    next
      case RunHeader
      let ?h = "run_header (run_ident r) (length (run_spans r)) (length (run_arena r))"
      have limits: "same_limits r r'" if "appending x (r\<lparr>run_state := RunFailed\<rparr>) (r\<lparr>run_output := 0, run_state := RunWrite\<rparr>) = Some (r', res)" for x
        by (rule appending_limits [OF that]) (simp_all add: same_limits_def)
      show ?thesis
      proof (cases ?h)
        case (Inl e)
        with RunHeader assms Inr failed show ?thesis by (auto simp: step_run_def)
      next
        case (Inr header)
        with RunHeader assms \<open>poll io = Inr io1\<close> show ?thesis by (auto simp: step_run_def Let_def intro: limits)
      qed
    next
      case RunWrite
      have limits: "same_limits r r'" if "appending x (r\<lparr>run_state := RunFailed\<rparr>) (r\<lparr>run_output := n, run_state := st\<rparr>) = Some (r', res)" for x n st
        by (rule appending_limits [OF that]) (simp_all add: same_limits_def)
      from RunWrite assms Inr show ?thesis
        by (auto simp: step_run_def Let_def split: if_splits bind_splits intro: limits)
    qed (use assms Inr failed False in \<open>auto simp: step_run_def\<close>)
  qed
qed (use assms in \<open>auto simp: step_run_def same_limits_def\<close>)

section \<open>What the sorter holds\<close>

definition buffer_room :: "row_layout \<Rightarrow> argument_shape \<Rightarrow> run_buffer \<Rightarrow> bool" where
  "buffer_room keys shape r \<longleftrightarrow>
     record_header + layout_max_bytes keys + max_payload_bytes shape \<le> run_byte_limit r
     \<and> 1 \<le> run_row_limit r \<and> run_row_limit r \<le> max_aggregate_rows
     \<and> run_byte_limit r \<le> run_capacity r \<and> run_capacity r + max_frame_bytes < 2 ^ 64"

lemma buffer_room_same: "buffer_room keys shape r \<Longrightarrow> same_limits r r' \<Longrightarrow> buffer_room keys shape r'"
  by (simp add: buffer_room_def same_limits_def)

text \<open>The input of a sort, with room for its runs in a file.\<close>

definition sort_input :: "row_layout \<Rightarrow> argument_shape \<Rightarrow> nat \<Rightarrow> u8 list list \<Rightarrow> bool" where
  "sort_input keys shape need all \<longleftrightarrow>
     layout_sound keys \<and> (\<forall>f \<in> set all. stored keys shape f) \<and> sorted_wrt (<) (map frame_ordinal all)
     \<and> length all \<le> max_aggregate_rows \<and> length (concat all) + run_header_bytes * length all \<le> need"

lemma sort_input_prefix:
  assumes "sort_input keys shape need (as @ bs)"
  shows "sort_input keys shape need as"
  using assms by (auto simp: sort_input_def sorted_wrt_append add_mult_distrib2)

definition runs_written ::
    "bool \<Rightarrow> row_layout \<Rightarrow> argument_shape \<Rightarrow> nat \<Rightarrow> u8 list list list \<Rightarrow> row_sort \<Rightarrow> scratch_io \<Rightarrow> bool" where
  "runs_written granted keys shape need rs s io \<longleftrightarrow>
     (\<forall>r \<in> set rs. run_ok keys shape r) \<and> sort_runs s = length rs
     \<and> merge_state (sort_merge s) = MergeIdle \<and> pair_idle keys shape (merge_pair (sort_merge s))
     \<and> length (io_files io) = 2 \<and> io_files io ! 1 = [] \<and> affords granted need io \<and> buffer_room keys shape (sort_buffer s)"

text \<open>Written runs end where the writer continues.\<close>

definition runs_flushed :: "u8 list list list \<Rightarrow> row_sort \<Rightarrow> scratch_io \<Rightarrow> bool" where
  "runs_flushed rs s io \<longleftrightarrow>
     writer_ok 0 (merge_writer (sort_merge s)) io \<and> content 0 (merge_writer (sort_merge s)) io = images 0 0 rs"

definition sorting_run ::
    "row_layout \<Rightarrow> argument_shape \<Rightarrow> u8 list multiset \<Rightarrow> u8 list list list \<Rightarrow> row_sort \<Rightarrow> scratch_io \<Rightarrow> bool" where
  "sorting_run keys shape all rs s io \<longleftrightarrow>
     (\<exists>final header r.
        run_ready keys final header (images 0 0 rs) (sort_buffer s) (merge_writer (sort_merge s)) io
        \<and> r = map (span_bytes (run_arena (sort_buffer s))) final \<and> run_ok keys shape r \<and> mset (concat (rs @ [r])) = all
        \<and> images 0 0 (rs @ [r]) = images 0 0 rs @ header @ concat r)
     \<and> run_state (sort_buffer s) \<noteq> RunDone"

definition sorting ::
    "bool \<Rightarrow> row_layout \<Rightarrow> argument_shape \<Rightarrow> nat \<Rightarrow> u8 list list \<Rightarrow> row_sort \<Rightarrow> scratch_io \<Rightarrow> bool" where
  "sorting granted keys shape need all s io \<longleftrightarrow>
     sort_input keys shape need all \<and> sort_rows s = length all
     \<and> sort_last s = (if all = [] then None else Some (frame_ordinal (last all)))
     \<and> (case sort_state s of
          SortCollect \<Rightarrow> \<not> sort_finishing s \<and> (\<exists>rs frames. runs_written granted keys shape need rs s io
            \<and> collected keys frames (sort_buffer s) \<and> mset (concat rs @ frames) = mset all \<and> runs_flushed rs s io)
        | SortRun \<Rightarrow> \<exists>rs. runs_written granted keys shape need rs s io \<and> sorting_run keys shape (mset all) rs s io
        | SortFlush \<Rightarrow> sort_finishing s \<and> (\<exists>rs. runs_written granted keys shape need rs s io
            \<and> collected keys [] (sort_buffer s) \<and> mset (concat rs) = mset all \<and> runs_flushed rs s io)
        | SortMerge \<Rightarrow> sort_finishing s \<and> merge_ready granted keys shape (mset all) (sort_merge s) io
            \<and> merge_state (sort_merge s) \<noteq> MergeDone
        | SortDone \<Rightarrow> sort_finishing s \<and> merge_ready granted keys shape (mset all) (sort_merge s) io
            \<and> merge_state (sort_merge s) = MergeDone
        | SortFailed \<Rightarrow> False)"

lemma written_runs:
  assumes "sort_input keys shape need all" and "\<forall>r \<in> set rs. run_ok keys shape r" and "mset (concat rs @ frames) = mset all"
  shows "runs_ok keys shape rs" and "length (images 0 0 rs) \<le> need" and "length rs + length frames \<le> length all"
proof -
  note d = assms(1) [unfolded sort_input_def]
  have m: "mset (map frame_ordinal (concat rs @ frames)) = mset (map frame_ordinal all)" by (simp only: mset_map assms(3))
  have "distinct (map frame_ordinal all)" using d strict_sorted_iff by blast
  with m have dist: "distinct (map frame_ordinal (concat rs @ frames))" using mset_eq_imp_distinct_iff by blast
  have len: "length (concat rs) + length frames = length all" using assms(3) by (metis length_append size_mset)
  show ok: "runs_ok keys shape rs" using assms(2) dist len d by (simp add: runs_ok_def)
  note n = runs_count [OF ok]
  then show "length rs + length frames \<le> length all" using len by simp
  have "length (concat (concat rs @ frames)) = length (concat all)" by (rule mset_length_concat [OF assms(3)])
  moreover have "length rs * run_header_bytes \<le> run_header_bytes * length all"
    using n len by (simp add: mult.commute)
  moreover have "length (images 0 0 rs) = length rs * run_header_bytes + length (concat (concat rs))"
    by (rule length_images [OF ok]) (use d n len in simp_all)
  moreover have "length (concat all) + run_header_bytes * length all \<le> need" using d by blast
  ultimately show "length (images 0 0 rs) \<le> need" unfolding concat_append length_append by linarith
qed

lemma sort_poll:
  assumes "sorting granted keys shape need all s io" and "same_host io io'"
  shows "sorting granted keys shape need all s io'"
proof -
  have f: "io_files io' = io_files io" using assms(2) by (simp add: same_host_def)
  have w: "runs_written granted keys shape need rs s io \<Longrightarrow> runs_written granted keys shape need rs s io'" for rs
    using affords_host [OF _ assms(2)] by (simp add: runs_written_def f)
  have fl: "runs_flushed rs s io' = runs_flushed rs s io" for rs using same_host_slot(2,3) [OF assms(2)] by (simp add: runs_flushed_def)
  have r: "run_ready keys final header before r w io' = run_ready keys final header before r w io" for final header before r w
    using same_host_slot(2,3) [OF assms(2)] by (cases "run_state r") (simp_all add: run_ready_def)
  have sr: "sorting_run keys shape m rs s io' = sorting_run keys shape m rs s io" for m rs by (simp add: sorting_run_def r)
  have m: "merge_ready granted keys shape m p io \<Longrightarrow> merge_ready granted keys shape m p io'" for m p
    using phase_inv_host [OF _ assms(2)] by (auto simp: merge_ready_def)
  show ?thesis
    using assms(1) w m unfolding sorting_def fl sr
    by (cases "sort_state s") (simp_all only: sort_phase.case, blast+)
qed

section \<open>Runs\<close>

lemma sorting_collect:
  assumes "sorting granted keys shape need all s io" and "sort_state s = SortCollect"
  obtains rs frames where "runs_written granted keys shape need rs s io" and "collected keys frames (sort_buffer s)"
    and "mset (concat rs @ frames) = mset all" and "runs_flushed rs s io" and "sort_input keys shape need all"
    and "\<forall>f \<in> set frames. pushable keys f" and "sort_rows s = length all" and "set frames \<subseteq> set all"
    and "length (run_spans (sort_buffer s)) = length frames"
proof -
  from assms obtain rs frames where r: "runs_written granted keys shape need rs s io" "collected keys frames (sort_buffer s)"
      "mset (concat rs @ frames) = mset all" "runs_flushed rs s io" "sort_input keys shape need all" "sort_rows s = length all"
    by (auto simp: sorting_def)
  have sub: "set frames \<subseteq> set all" using r(3) by (metis Un_upper2 set_append set_mset_mset)
  moreover have "\<forall>f \<in> set frames. pushable keys f" using sub r(5) stored_facts(1) by (fastforce simp: sort_input_def)
  moreover have "length (run_spans (sort_buffer s)) = length frames" using r(2) unfolding collected_def by (metis length_map)
  ultimately show thesis using that r by blast
qed

lemma begin_sort_run:
  assumes "sorting granted keys shape need all s io" and "sort_state s = SortCollect" and "run_spans (sort_buffer s) \<noteq> []"
  shows "\<exists>r'. begin_run (sort_runs s) (sort_buffer s) = Some (Inr r')
    \<and> sorting granted keys shape need all (s\<lparr>sort_finishing := fin, sort_buffer := r', sort_state := SortRun\<rparr>) io
    \<and> (let n = length (run_spans (sort_buffer s)) in steps_left r' \<le> sort_cost 1 n + n + 1)"
proof -
  obtain rs frames where c: "runs_written granted keys shape need rs s io" "collected keys frames (sort_buffer s)"
      "mset (concat rs @ frames) = mset all" "runs_flushed rs s io" "sort_input keys shape need all" "\<forall>f \<in> set frames. pushable keys f"
      "sort_rows s = length all" "set frames \<subseteq> set all" "length (run_spans (sort_buffer s)) = length frames"
    by (rule sorting_collect [OF assms(1,2)]) (rule that)
  have frames: "frames \<noteq> []" using c(9) assms(3) by auto
  have written: "\<forall>r \<in> set rs. run_ok keys shape r" "sort_runs s = length rs" using c(1) by (auto simp: runs_written_def)
  note w = written_runs [OF c(5) written(1) c(3)]
  have max: "length all \<le> max_aggregate_rows" "layout_sound keys" using c(5) by (auto simp: sort_input_def)
  have "0 < length frames" using frames by simp
  then have index: "sort_runs s < max_aggregate_rows" using w(3) max(1) written(2) by linarith
  have flushed: "writer_ok 0 (merge_writer (sort_merge s)) io" "content 0 (merge_writer (sort_merge s)) io = images 0 0 rs"
    using c(4) by (auto simp: runs_flushed_def)
  let ?final = "spans.sort_result keys (concat frames) 1 (run_spans (sort_buffer s))"
  from begin_run_collected [OF c(2,6) frames index flushed(1)] obtain r' header where
    b: "begin_run (sort_runs s) (sort_buffer s) = Some (Inr r')"
      "run_header \<lparr>id_pass = 0, id_index = sort_runs s\<rparr> (length frames) (length (concat frames)) = Inr header"
      "run_ready keys ?final header (images 0 0 rs) r' (merge_writer (sort_merge s)) io"
      "run_arena r' = concat frames" "length (run_spans r') = length frames" "same_limits (sort_buffer s) r'"
      "steps_left r' \<le> sort_cost 1 (length frames) + length frames + 1"
    unfolding flushed(2) same_limits_def by blast
  let ?r = "map (span_bytes (concat frames)) ?final"
  note f = final_frames [OF c(2)]
  have same: "length ?r = length frames" "length (concat ?r) = length (concat frames)" "set ?r = set frames"
    using f(1) size_mset mset_length_concat [OF f(1)] by (metis, simp, metis set_mset_mset)
  have stored: "\<forall>x \<in> set ?r. stored keys shape x" unfolding same(3) using c(5,8) by (auto simp: sort_input_def)
  have ok: "run_ok keys shape ?r"
    unfolding run_ok_def using f(2) stored same(1) frames by (metis length_0_conv)
  have "run_image 0 (length rs) ?r = header @ concat ?r" using b(2) same written(2) by (simp add: run_image_def)
  then have image: "images 0 0 (rs @ [?r]) = images 0 0 rs @ header @ concat ?r" by (simp add: images_append)
  have all: "mset (concat (rs @ [?r])) = mset all" using f(1) c(3) by simp
  have active: "run_state r' \<noteq> RunDone"
    using b(1) by (auto simp: begin_run_def attempt_Inr_conv Let_def split: if_splits)
  let ?s = "s\<lparr>sort_finishing := fin, sort_buffer := r', sort_state := SortRun\<rparr>"
  have "sorting_run keys shape (mset all) rs ?s io"
    unfolding sorting_run_def using b(3,4) ok all image active by auto
  moreover have "runs_written granted keys shape need rs ?s io" using c(1) buffer_room_same [OF _ b(6)] by (simp add: runs_written_def)
  ultimately have "sorting granted keys shape need all ?s io" using assms(1) by (auto simp: sorting_def)
  with b(1,7) c(9) show ?thesis by (auto simp: Let_def)
qed

section \<open>Pushing and finishing\<close>

text \<open>What is left to do: a bound on the calls until the sort is done.\<close>

definition merge_budget :: "nat \<Rightarrow> nat \<Rightarrow> nat" where
  "merge_budget k n = k * (3 * n + 4) + 3 * n + 3"

definition sort_left :: "nat \<Rightarrow> nat \<Rightarrow> nat \<Rightarrow> row_sort \<Rightarrow> nat" where
  "sort_left k n rest s =
     (case sort_state s of
        SortCollect \<Rightarrow> (k + 3) * length (run_spans (sort_buffer s)) + (k + 5) * rest + merge_budget k n + 2
      | SortRun \<Rightarrow> steps_left (sort_buffer s) + (k + 5) * rest + merge_budget k n + (if sort_finishing s then 1 else 2)
      | SortFlush \<Rightarrow> merge_budget k n + 1
      | SortMerge \<Rightarrow> merge_left (sort_merge s)
      | _ \<Rightarrow> 0)"

lemma run_cost:
  assumes "0 < n" and "n \<le> 2 ^ k"
  shows "sort_cost 1 n + n + 1 < (k + 3) * n"
proof -
  have "sort_cost 1 n \<le> n * k" using sort_cost_bound [of n 1 k] assms(2) by simp
  then show ?thesis using assms(1) by (simp add: algebra_simps)
qed

lemma sorting_spans:
  assumes "sorting granted keys shape need all s io" and "sort_state s = SortCollect"
  shows "length (run_spans (sort_buffer s)) \<le> length all"
proof -
  obtain rs frames where "mset (concat rs @ frames) = mset all" "length (run_spans (sort_buffer s)) = length frames"
    by (rule sorting_collect [OF assms]) (rule that)
  then show ?thesis by (metis le_add2 length_append size_mset)
qed

text \<open>A push stores the frame, or starts writing a run and leaves the frame to the client.\<close>

lemma push_sort_sorting:
  assumes "sorting granted keys shape need all s io" and "sort_state s = SortCollect"
    and "sort_input keys shape need (all @ [f])" and "length all \<le> 2 ^ k"
  shows "\<exists>pushed s'. push_sort f s = Some (Inr (pushed, s')) \<and> \<not> sort_finishing s'
    \<and> sorting granted keys shape need (if pushed then all @ [f] else all) s' io
    \<and> sort_left k n (if pushed then rest else Suc rest) s' < sort_left k n (Suc rest) s"
proof -
  obtain rs frames where c: "runs_written granted keys shape need rs s io" "collected keys frames (sort_buffer s)"
      "mset (concat rs @ frames) = mset all" "runs_flushed rs s io" "sort_input keys shape need all" "\<forall>f \<in> set frames. pushable keys f"
      "sort_rows s = length all" "set frames \<subseteq> set all" "length (run_spans (sort_buffer s)) = length frames"
    by (rule sorting_collect [OF assms(1,2)]) (rule that)
  note new = assms(3) [unfolded sort_input_def]
  have finishing: "\<not> sort_finishing s" using assms(1,2) by (simp add: sorting_def)
  have later: "\<forall>g \<in> set all. frame_ordinal g < frame_ordinal f" using new by (simp add: sorted_wrt_append)
  have last: "sort_last s = (if all = [] then None else Some (frame_ordinal (last all)))" using assms(1) by (simp add: sorting_def)
  have guard: "sort_rows s \<noteq> max_aggregate_rows" "\<not> (case sort_last s of None \<Rightarrow> False | Some previous \<Rightarrow> frame_ordinal f \<le> previous)"
    using c(7) new last later by (auto simp: not_le)
  have stored: "stored keys shape f" "layout_sound keys" using new by simp_all
  note f = stored_facts [OF stored]
  have later': "\<forall>g \<in> set frames. frame_ordinal g < frame_ordinal f" using later c(8) by blast
  from push_run_collected [OF c(2) f(1) later']
  consider (pushed) r' where "push_run f (sort_buffer s) = Some (Inr (True, r'))" "collected keys (frames @ [f]) r'"
      "run_byte_limit r' = run_byte_limit (sort_buffer s)" "run_row_limit r' = run_row_limit (sort_buffer s)"
    | (full) "push_run f (sort_buffer s) = Some (Inr (False, sort_buffer s))"
      "length frames = run_row_limit (sort_buffer s) \<or> run_byte_limit (sort_buffer s) < length (concat frames) + length f"
    by blast
  then show ?thesis
  proof cases
    case p: pushed
    let ?s = "s\<lparr>sort_buffer := r', sort_rows := sort_rows s + 1, sort_last := Some (frame_ordinal f)\<rparr>"
    have "run_capacity r' = run_capacity (sort_buffer s)" using p(1) by (auto simp: push_run_def attempt_Inr_conv Let_def split: if_splits)
    with p(3,4) have "same_limits (sort_buffer s) r'" by (simp add: same_limits_def)
    then have "buffer_room keys shape r'" using c(1) buffer_room_same unfolding runs_written_def by blast
    with c(1) have w: "runs_written granted keys shape need rs ?s io" by (simp add: runs_written_def)
    have all: "mset (concat rs @ (frames @ [f])) = mset (all @ [f])" using c(3) by simp
    have "runs_flushed rs ?s io" using c(4) by (simp add: runs_flushed_def)
    with w all p(2) have "\<exists>rs frames. runs_written granted keys shape need rs ?s io \<and> collected keys frames (sort_buffer ?s)
        \<and> mset (concat rs @ frames) = mset (all @ [f]) \<and> runs_flushed rs ?s io"
      by (intro exI [of _ rs] exI [of _ "frames @ [f]"]) simp
    then have "sorting granted keys shape need (all @ [f]) ?s io"
      using assms(2,3) c(7) finishing by (simp add: sorting_def)
    moreover have "length (run_spans r') = Suc (length frames)" using p(2) unfolding collected_def by (metis length_append_singleton length_map)
    then have "sort_left k n rest ?s < sort_left k n (Suc rest) s" using assms(2) c(9) by (simp add: sort_left_def)
    moreover have "push_sort f s = Some (Inr (True, ?s))"
      using assms(2) guard p(1) by (simp add: push_sort_def)
    ultimately show ?thesis using finishing by (intro exI [of _ True] exI [of _ ?s]) simp
  next
    case p: full
    have "frames \<noteq> []" using p(2) f(2) c(1) by (auto simp: runs_written_def buffer_room_def)
    then have spans: "run_spans (sort_buffer s) \<noteq> []" using c(9) by auto
    from begin_sort_run [OF assms(1,2) spans, of False] obtain r' where
      b: "begin_run (sort_runs s) (sort_buffer s) = Some (Inr r')"
        "sorting granted keys shape need all (s\<lparr>sort_finishing := False, sort_buffer := r', sort_state := SortRun\<rparr>) io"
        "steps_left r' \<le> sort_cost 1 (length frames) + length frames + 1"
      using c(9) by (auto simp: Let_def)
    have same: "s\<lparr>sort_finishing := False, sort_buffer := r', sort_state := SortRun\<rparr> = s\<lparr>sort_buffer := r', sort_state := SortRun\<rparr>"
      using finishing by simp
    have "length frames \<le> 2 ^ k" using sorting_spans [OF assms(1,2)] c(9) assms(4) by simp
    with \<open>frames \<noteq> []\<close> run_cost [of "length frames" k] b(3) have "steps_left r' < (k + 3) * length frames" by simp
    then have "sort_left k n (Suc rest) (s\<lparr>sort_buffer := r', sort_state := SortRun\<rparr>) < sort_left k n (Suc rest) s"
      using assms(2) c(9) finishing by (simp add: sort_left_def)
    moreover have "push_sort f s = Some (Inr (False, s\<lparr>sort_buffer := r', sort_state := SortRun\<rparr>))"
      using assms(2) guard p(1) spans b(1) by (simp add: push_sort_def)
    ultimately show ?thesis using b(2) [unfolded same] finishing by (intro exI [of _ False] exI [of _ "s\<lparr>sort_buffer := r', sort_state := SortRun\<rparr>"]) simp
  qed
qed

lemma finish_sort_sorting:
  assumes "sorting granted keys shape need all s io" and "sort_state s = SortCollect" and "length all \<le> 2 ^ k"
  shows "\<exists>s'. finish_sort s = Some (Inr s') \<and> sort_finishing s' \<and> sorting granted keys shape need all s' io
    \<and> sort_left k n 0 s' < sort_left k n 0 s"
proof -
  obtain rs frames where c: "runs_written granted keys shape need rs s io" "collected keys frames (sort_buffer s)"
      "mset (concat rs @ frames) = mset all" "runs_flushed rs s io" "length (run_spans (sort_buffer s)) = length frames"
    by (rule sorting_collect [OF assms(1,2)]) (rule that)
  have finishing: "\<not> sort_finishing s" using assms(1,2) by (simp add: sorting_def)
  show ?thesis
  proof (cases "run_spans (sort_buffer s) = []")
    case True
    then have frames: "frames = []" using c(5) by simp
    let ?s = "s\<lparr>sort_finishing := True, sort_state := SortFlush\<rparr>"
    have "runs_written granted keys shape need rs ?s io" "runs_flushed rs ?s io"
      using c(1,4) by (simp_all add: runs_written_def runs_flushed_def)
    then have "sorting granted keys shape need all ?s io" using assms(1) c(2,3) frames by (auto simp: sorting_def)
    moreover have "sort_left k n 0 ?s < sort_left k n 0 s" using assms(2) by (simp add: sort_left_def)
    ultimately show ?thesis using assms(2) True by (simp add: finish_sort_def)
  next
    case False
    from begin_sort_run [OF assms(1,2) False, of True] obtain r' where
      b: "begin_run (sort_runs s) (sort_buffer s) = Some (Inr r')"
        "sorting granted keys shape need all (s\<lparr>sort_finishing := True, sort_buffer := r', sort_state := SortRun\<rparr>) io"
        "steps_left r' \<le> sort_cost 1 (length frames) + length frames + 1"
      using c(5) by (auto simp: Let_def)
    have "length frames \<le> 2 ^ k" using sorting_spans [OF assms(1,2)] c(5) assms(3) by simp
    moreover have "0 < length frames" unfolding c(5) [symmetric] using False by simp
    ultimately have "steps_left r' < (k + 3) * length frames" using run_cost b(3) by (metis le_less_trans)
    then have "sort_left k n 0 (s\<lparr>sort_finishing := True, sort_buffer := r', sort_state := SortRun\<rparr>) < sort_left k n 0 s"
      using assms(2) c(5) finishing by (simp add: sort_left_def)
    then show ?thesis using assms(2) False b(1,2) by (simp add: finish_sort_def)
  qed
qed

section \<open>Steps\<close>

lemma capacity_output:
  assumes "affords granted need io" and "only_slot 0 io io'" and "granted \<longrightarrow> quiet io' \<and> space 0 io' = space 0 io"
    and "length (io_files io) = 2"
  shows "affords granted need io'"
proof -
  have "io_files io' ! 1 = io_files io ! 1" using assms(2) by (simp add: only_slot_def)
  with assms capacity_space [of 1] show ?thesis by (auto simp: affords_def other_slot_def)
qed

lemma clear_run_collected:
  assumes "buffer_room keys shape r" and "run_state r = RunDone"
  shows "\<exists>r'. clear_run r = Some r' \<and> collected keys [] r' \<and> buffer_room keys shape r'"
  using assms by (simp add: clear_run_def collected_def buffer_room_def)

lemma step_active_run_answers:
  assumes "sorting granted keys shape need all s io" and "sort_state s = SortRun"
  shows "answers granted (step_active_run keys s io) (\<lambda>(s', io'). sorting granted keys shape need all s' io'
    \<and> sort_finishing s' = sort_finishing s \<and> sort_left k n rest s' < sort_left k n rest s)"
proof -
  let ?w = "merge_writer (sort_merge s)" and ?b = "sort_buffer s"
  from assms obtain rs where input: "sort_input keys shape need all" and w: "runs_written granted keys shape need rs s io"
    and run: "sorting_run keys shape (mset all) rs s io"
    by (auto simp: sorting_def)
  from run obtain final header r where r: "run_ready keys final header (images 0 0 rs) ?b ?w io"
      "r = map (span_bytes (run_arena ?b)) final" "run_ok keys shape r" "mset (concat (rs @ [r])) = mset all"
      "images 0 0 (rs @ [r]) = images 0 0 rs @ header @ concat r" "run_state ?b \<noteq> RunDone"
    by (auto simp: sorting_run_def)
  note wr = w [unfolded runs_written_def]
  have ok: "\<forall>x \<in> set (rs @ [r]). run_ok keys shape x" using wr r(3) by auto
  have "mset (concat (rs @ [r]) @ []) = mset all" using r(4) by simp
  note done' = written_runs [OF input ok this]
  have out: "run_output_bytes header (run_arena ?b) final = header @ concat r" using r(2) by (simp add: run_output_bytes_def)
  have fits: "granted \<longrightarrow> quiet io \<and> run_fits final header (images 0 0 rs) ?b io"
  proof
    assume granted
    with wr have a: "quiet io" "2 * need \<le> capacity io" "capacity io < 2 ^ 64" by (auto simp: affords_def)
    have "capacity io = space 0 io" using capacity_space [of 1 io] wr by (simp add: other_slot_def)
    moreover have "length (images 0 0 rs @ header @ concat r) \<le> need" using done'(2) r(5) by simp
    ultimately show "quiet io \<and> run_fits final header (images 0 0 rs) ?b io" using a by (simp add: run_fits_def out)
  qed
  from step_run_promise [OF r(1)] obtain r1 res where
    s: "step_run keys ?b ?w io = Some (r1, res)" "step_promise keys final header (images 0 0 rs) ?b io (r1, res)" by fast
  have room: "buffer_room keys shape r1" using buffer_room_same [OF _ step_run_limits [OF s(1)]] wr by blast
  show ?thesis
  proof (cases res)
    case (Inl e)
    with s fits show ?thesis by (auto simp: step_active_run_def step_promise_def)
  next
    case (Inr y)
    obtain finished w1 io1 where y: "y = (finished, w1, io1)" by (cases y)
    have p: "run_ready keys final header (images 0 0 rs) r1 w1 io1" "only_slot 0 io io1" "run_arena r1 = run_arena ?b"
        "finished = (run_state r1 = RunDone)" "steps_left r1 < steps_left ?b"
        "granted \<longrightarrow> quiet io1 \<and> space 0 io1 = space 0 io"
      using s(2) Inr y fits r(6) by (auto simp: step_promise_def)
    have files: "length (io_files io1) = 2" "io_files io1 ! 1 = []" using p(2) wr by (auto simp: only_slot_def)
    have afford: "affords granted need io1" using capacity_output [OF _ p(2,6)] wr by blast
    let ?s = "s\<lparr>sort_merge := (sort_merge s)\<lparr>merge_writer := w1\<rparr>\<rparr>"
    have base: "runs_written granted keys shape need rs' t io1"
      if "\<forall>x \<in> set rs'. run_ok keys shape x" "buffer_room keys shape (sort_buffer t)" "sort_runs t = length rs'"
        "sort_merge t = (sort_merge s)\<lparr>merge_writer := w1\<rparr>" for rs' t
      using that wr files afford by (simp add: runs_written_def pair_idle_def)
    have same: "sort_runs s = length rs" using wr by blast
    show ?thesis
    proof (cases finished)
      case False
      let ?t = "?s\<lparr>sort_buffer := r1, sort_state := SortRun\<rparr>"
      have "runs_written granted keys shape need rs ?t io1"
        by (rule base) (use wr room in simp_all)
      moreover have "sorting_run keys shape (mset all) rs ?t io1"
        unfolding sorting_run_def using p False r by auto
      ultimately have "sorting granted keys shape need all ?t io1" using assms(1) by (auto simp: sorting_def)
      moreover have "sort_left k n rest ?t < sort_left k n rest s" using assms(2) p(5) by (simp add: sort_left_def)
      ultimately show ?thesis using s(1) Inr y False by (simp add: step_active_run_def Let_def)
    next
      case True
      then have state: "run_state r1 = RunDone" using p(4) by simp
      from clear_run_collected [OF room state] obtain b where
        b: "clear_run r1 = Some b" "collected keys [] b" "buffer_room keys shape b" by blast
      let ?st = "if sort_finishing s then SortFlush else SortCollect"
      let ?t = "?s\<lparr>sort_runs := length (rs @ [r]), sort_buffer := b, sort_state := ?st\<rparr>"
      have "length (rs @ [r]) \<le> max_aggregate_rows" using done'(3) input by (simp add: sort_input_def)
      then have count: "sort_runs s + 1 < 2 ^ 32" "sort_runs s + 1 = length (rs @ [r])" using same by (simp_all add: max_aggregate_rows_def)
      have "writer_ok 0 w1 io1" "content 0 w1 io1 = images 0 0 (rs @ [r])"
        using p(1,3) state out r(5) by (auto simp: run_ready_def)
      then have "runs_flushed (rs @ [r]) ?t io1" by (simp add: runs_flushed_def)
      moreover have "runs_written granted keys shape need (rs @ [r]) ?t io1" by (rule base [OF ok]) (use b(3) in simp_all)
      moreover have "mset (concat (rs @ [r]) @ []) = mset all" using r(4) by simp
      ultimately have ex: "\<exists>rs. runs_written granted keys shape need rs ?t io1 \<and> collected keys [] (sort_buffer ?t)
          \<and> mset (concat rs @ []) = mset all \<and> runs_flushed rs ?t io1"
        using b(2) by (intro exI [of _ "rs @ [r]"]) simp
      then have "sorting granted keys shape need all ?t io1"
        using assms(1) by (cases "sort_finishing s") (auto simp: sorting_def)
      moreover have "run_spans b = []" using b(1) state by (auto simp: clear_run_def)
      then have "sort_left k n rest ?t < sort_left k n rest s" using assms(2) p(5) by (simp add: sort_left_def)
      ultimately show ?thesis using s(1) Inr y True count b(1) by (simp add: step_active_run_def Let_def)
    qed
  qed
qed

lemma halvings_le: "n \<le> 2 ^ k \<Longrightarrow> halvings n \<le> k"
proof (induction k arbitrary: n)
  case (Suc k)
  show ?case
  proof (cases "2 \<le> n")
    case True
    have "(n + 1) div 2 \<le> 2 ^ k" using Suc.prems by simp
    then have "halvings ((n + 1) div 2) \<le> k" by (rule Suc.IH)
    then show ?thesis using halvings_step [OF True] by simp
  qed (simp add: halvings_one)
qed (simp add: halvings_one)

lemma merge_budget_mono:
  assumes "h \<le> k" and "m \<le> n" and "left \<le> 3 * m + 2"
  shows "h * (3 * m + 4) + left < merge_budget k n"
proof -
  have "h * (3 * m + 4) \<le> k * (3 * n + 4)" by (rule mult_le_mono) (use assms in simp_all)
  with assms show ?thesis by (simp add: merge_budget_def)
qed

text \<open>The runs that begin the merge.\<close>

lemma begin_merge_answers:
  assumes input: "sort_input keys shape need all" and ok: "\<forall>r \<in> set rs. run_ok keys shape r" and all: "mset (concat rs) = mset all"
    and idle: "merge_state m = MergeIdle" "pair_idle keys shape (merge_pair m)" "wb_bytes (merge_writer m) = []"
    and files: "length (io_files io) = 2" "io_files io ! 0 = images 0 0 rs" and afford: "affords granted need io"
    and k: "length all \<le> 2 ^ k" "length all \<le> n"
  shows "\<exists>m'. begin_merge (length rs) (length all) (length (images 0 0 rs)) m = Some (Inr m')
    \<and> merge_ready granted keys shape (mset all) m' io \<and> merge_state m' \<noteq> MergeDone \<and> merge_left m' < merge_budget k n"
proof -
  have all': "mset (concat rs @ []) = mset all" using all by simp
  note runs = written_runs [OF input ok all'] and d = input [unfolded sort_input_def]
  have rows: "length (concat rs) = length all" using all by (metis size_mset)
  have len: "length (images 0 0 rs) = length rs * run_header_bytes + length (concat (concat rs))"
    by (rule length_images [OF runs(1)]) (use d runs(3) in simp_all)
  have "\<forall>f \<in> set (concat rs). record_header \<le> length f \<and> length f \<le> max_frame_bytes"
    using ok d stored_facts(1) by (fastforce simp: run_ok_def pushable_def)
  note bytes = length_concat_bounds [OF this, unfolded rows]
  have empty: "rs = [] \<longleftrightarrow> all = []"
  proof
    assume "all = []"
    then have "length rs = 0" using runs(3) by simp
    then show "rs = []" by simp
  qed (use all in simp)
  let ?m = "m\<lparr>merge_input := \<lparr>file_slot = 0, file_pass = 0, file_runs = length rs, file_rows = length all, file_end = length (images 0 0 rs)\<rparr>,
      merge_state := (if length rs \<le> 1 then MergeFinal else MergePrepare)\<rparr>"
  have "begin_merge (length rs) (length all) (length (images 0 0 rs)) m = Some (Inr ?m)"
    using idle(1,3) len bytes d runs(3) empty by (simp add: begin_merge_def Let_def)
  moreover have "length rs \<le> 2 ^ max_merge_passes" using runs(3) d by (simp add: max_merge_passes_def max_aggregate_rows_def)
  then have "pass_data granted keys shape rs ?m io"
    using runs(1,2) d files rows affords_less [OF afford runs(2)] by (simp add: pass_data_def input_slot_def)
  then have "phase_inv granted keys shape rs ?m io"
    using idle(2,3) by (simp add: phase_inv_def)
  then have "merge_ready granted keys shape (mset all) ?m io" using all by (auto simp: merge_ready_def)
  moreover have "halvings (length rs) \<le> k" using halvings_le runs(3) k(1) by simp
  then have "merge_left ?m < merge_budget k n"
    using merge_budget_mono [of "halvings (length rs)" k "length all" n] k(2) by (simp add: merge_left_def)
  ultimately show ?thesis by (intro exI [of _ ?m]) simp
qed

lemma flush_runs_answers:
  assumes "sorting granted keys shape need all s io" and "sort_state s = SortFlush" and "length all \<le> 2 ^ k" and "length all \<le> n"
  shows "answers granted (flush_runs s io) (\<lambda>(s', io'). sorting granted keys shape need all s' io'
    \<and> sort_finishing s' = sort_finishing s \<and> sort_left k n rest s' < sort_left k n rest s)"
proof -
  let ?w = "merge_writer (sort_merge s)"
  from assms obtain rs where input: "sort_input keys shape need all" and w: "runs_written granted keys shape need rs s io"
    and r: "collected keys [] (sort_buffer s)" "mset (concat rs) = mset all" "runs_flushed rs s io" "sort_finishing s" "sort_rows s = length all"
    by (auto simp: sorting_def)
  note wr = w [unfolded runs_written_def] and fl = r(3) [unfolded runs_flushed_def]
  have ok: "\<forall>x \<in> set rs. run_ok keys shape x" and all': "mset (concat rs @ []) = mset all" using wr r(2) by simp_all
  note runs = written_runs [OF input ok all']
  have afford: "affords granted need io" using wr by blast
  have "roomy granted (other_slot 1) need io" by (rule affords_roomy [OF afford]) (use wr in simp_all)
  then have roomy: "roomy granted 0 need io" by (simp add: other_slot_def)
  have writer: "writer_ok 0 ?w io" and small: "length (content 0 ?w io) \<le> need" using fl runs(2) by simp_all
  have size: "length (images 0 0 rs) < 2 ^ 64"
    using images_small [OF runs(1), of 0] input by (simp add: sort_input_def)
  show ?thesis
    unfolding flush_runs_def
  proof (rule answers_following [OF flush_writer_answers [OF writer _ roomy small]], goal_cases)
    case 1
    show ?case by simp
  next
    case (2 x)
    then obtain w' io' where x: "x = (w', io')" and f: "wb_bytes w' = []" "writer_ok 0 w' io'" "content 0 w' io' = images 0 0 rs"
        "output_only granted 0 io io'" "granted \<longrightarrow> quiet io'"
      using fl by (cases x) auto
    have only: "only_slot 0 io io'" "granted \<longrightarrow> quiet io' \<and> space 0 io' = space 0 io" using f(4,5) by (auto simp: output_only_def)
    have files: "length (io_files io') = 2" "io_files io' ! 0 = images 0 0 rs" using only(1) wr f(1,3) by (auto simp: only_slot_def content_def)
    have "affords granted need io'" using capacity_output [OF afford only] wr by blast
    let ?m = "(sort_merge s)\<lparr>merge_writer := w'\<rparr>"
    have idle: "merge_state ?m = MergeIdle" "pair_idle keys shape (merge_pair ?m)" "wb_bytes (merge_writer ?m) = []" using wr f(1) by simp_all
    from begin_merge_answers [OF input ok r(2) idle files \<open>affords granted need io'\<close> assms(3,4)] obtain m' where
      m: "begin_merge (length rs) (length all) (length (images 0 0 rs)) ?m = Some (Inr m')"
        "merge_ready granted keys shape (mset all) m' io'" "merge_state m' \<noteq> MergeDone" "merge_left m' < merge_budget k n" by blast
    have place: "write_position w' = Inr (length (images 0 0 rs))" using writer_position [OF f(2)] f(3) size by simp
    obtain b where b: "release_run (sort_buffer s) = Some b" using r(1) by (auto simp: release_run_def collected_def)
    let ?s = "s\<lparr>sort_merge := m', sort_buffer := b, sort_state := SortMerge\<rparr>"
    have "sorting granted keys shape need all ?s io'" using assms(1) m(2,3) r(4) by (simp add: sorting_def)
    moreover have "sort_left k n rest ?s < sort_left k n rest s" using assms(2) m(4) by (simp add: sort_left_def)
    ultimately show ?case using place m(1) b wr r(5) by (simp add: x)
  qed
qed

lemma sort_step_answers:
  assumes "sorting granted keys shape need all s io" and "sort_state s \<in> {SortRun, SortFlush, SortMerge}"
    and "length all \<le> 2 ^ k" and "length all \<le> n"
  shows "answers granted (sort_step keys s io) (\<lambda>(s', io'). sorting granted keys shape need all s' io'
    \<and> sort_finishing s' = sort_finishing s \<and> sort_left k n rest s' < sort_left k n rest s)"
proof -
  let ?phase = "\<lambda>io. case sort_state s of
               SortCollect \<Rightarrow> Some (Inr (s, io))
             | SortRun \<Rightarrow> step_active_run keys s io
             | SortFlush \<Rightarrow> flush_runs s io
             | SortMerge \<Rightarrow>
                 following (merge_step keys (sort_merge s) io) (\<lambda>(finished, m, io).
                   Some (Inr (s\<lparr>sort_merge := m, sort_state := (if finished then SortDone else SortMerge)\<rparr>, io)))
             | _ \<Rightarrow> Some (Inl (Corrupt ''argument sort is not active''))"
  have step: "sort_step keys s io = (case poll io of Inl e \<Rightarrow> Some (Inl e) | Inr io1 \<Rightarrow> ?phase io1)"
    using assms(2) by (auto simp: sort_step_def)
  have quiet: "granted \<longrightarrow> quiet io"
    using assms(1,2) affords_quiet
    by (auto simp: sorting_def runs_written_def merge_ready_def phase_inv_def pass_data_def)
  show ?thesis
    unfolding step
  proof (rule answers_poll [OF quiet])
    fix io1
    assume "same_host io io1"
    note inv = sort_poll [OF assms(1) this]
    consider "sort_state s = SortRun" | "sort_state s = SortFlush" | (merge) "sort_state s = SortMerge" using assms(2) by blast
    then show "answers granted (?phase io1) (\<lambda>(s', io'). sorting granted keys shape need all s' io'
        \<and> sort_finishing s' = sort_finishing s \<and> sort_left k n rest s' < sort_left k n rest s)"
    proof cases
      case 1
      with step_active_run_answers [OF inv 1] show ?thesis by simp
    next
      case 2
      with flush_runs_answers [OF inv 2 assms(3,4)] show ?thesis by simp
    next
      case merge
      with inv have m: "merge_ready granted keys shape (mset all) (sort_merge s) io1" "merge_state (sort_merge s) \<noteq> MergeDone"
        by (simp_all add: sorting_def)
      have "answers granted (following (merge_step keys (sort_merge s) io1) (\<lambda>(finished, m, io).
                   Some (Inr (s\<lparr>sort_merge := m, sort_state := (if finished then SortDone else SortMerge)\<rparr>, io))))
          (\<lambda>(s', io'). sorting granted keys shape need all s' io'
        \<and> sort_finishing s' = sort_finishing s \<and> sort_left k n rest s' < sort_left k n rest s)"
      proof (rule answers_following [OF merge_step_answers [OF m]], goal_cases)
        case (1 x)
        then show ?case using inv merge by (cases x) (auto simp: sorting_def sort_left_def)
      qed
      with merge show ?thesis by simp
    qed
  qed
qed

end
