(* ===== verification/Sort_Delivery.thy ===== *)
theory Sort_Delivery
  imports External_Sort
begin

text \<open>
  The sorter with a client, as the blocking operators drive it: every record is pushed, refused
  records are pushed again after the run is written, the input is finished and the sorter is
  stepped until it is done; then a cursor delivers the rows.
\<close>

section \<open>The client\<close>

fun drive_sort :: "row_layout \<Rightarrow> nat \<Rightarrow> u8 list list \<Rightarrow> row_sort \<Rightarrow> scratch_io \<Rightarrow> (row_sort \<times> scratch_io) checked" where
  "drive_sort keys 0 frames s io = Some (Inr (s, io))"
| "drive_sort keys (Suc n) frames s io =
     (case sort_state s of
        SortDone \<Rightarrow> Some (Inr (s, io))
      | SortCollect \<Rightarrow>
          (case frames of
             [] \<Rightarrow> following (finish_sort s) (\<lambda>s. drive_sort keys n [] s io)
           | f # fs \<Rightarrow> following (push_sort f s) (\<lambda>(pushed, s). drive_sort keys n (if pushed then fs else f # fs) s io))
      | _ \<Rightarrow> following (sort_step keys s io) (\<lambda>(s, io). drive_sort keys n frames s io))"

fun read_frames ::
    "nat \<Rightarrow> row_layout \<Rightarrow> argument_shape \<Rightarrow> nat \<Rightarrow> run_cursor \<Rightarrow> scratch_io \<Rightarrow> (u8 list list \<times> run_cursor \<times> scratch_io) checked" where
  "read_frames slot keys shape 0 c io = Some (Inr ([], c, io))"
| "read_frames slot keys shape (Suc n) c io =
     following (Some (needs_load c)) (\<lambda>needed.
     following (if needed then load_cursor slot keys shape c io else Some (Inr (c, io))) (\<lambda>(c, io).
       if cursor_finished c then Some (Inr ([], c, io))
       else
         following (consume_cursor c) (\<lambda>c'.
         following (read_frames slot keys shape n c' io) (\<lambda>(frames, c'', io).
           Some (Inr (rec_bytes (cur_record c) # frames, c'', io))))))"

definition read_sorted :: "row_layout \<Rightarrow> nat \<Rightarrow> row_sort \<Rightarrow> scratch_io \<Rightarrow> (u8 list list \<times> run_cursor \<times> scratch_io) checked" where
  "read_sorted keys n s io =
     (let m = sort_merge s; p = merge_pair m in
      Option.bind (begin_cursor (merge_result m) (pair_left p)) (\<lambda>c.
        read_frames (file_slot (merge_input m)) keys (pair_shape p) n c io))"

section \<open>Driving\<close>

lemma drive_sort_answers:
  assumes "sorting granted keys shape need pushed s io" and "sort_input keys shape need (pushed @ rest)"
    and "sort_finishing s \<longrightarrow> rest = []" and "length (pushed @ rest) \<le> 2 ^ k" and "length (pushed @ rest) = n"
    and "sort_left k n (length rest) s < fuel"
  shows "answers granted (drive_sort keys fuel rest s io)
    (\<lambda>(s', io'). sorting granted keys shape need (pushed @ rest) s' io' \<and> sort_state s' = SortDone)"
  using assms
proof (induction fuel arbitrary: pushed rest s io)
  case (Suc fuel)
  have bounds: "length pushed \<le> 2 ^ k" "length pushed \<le> n" using Suc.prems(4,5) by simp_all
  consider (finished) "sort_state s = SortDone" | (collect) "sort_state s = SortCollect"
    | (step) "sort_state s \<in> {SortRun, SortFlush, SortMerge}"
    using Suc.prems(1) by (cases "sort_state s") (auto simp: sorting_def)
  then show ?case
  proof cases
    case finished
    then have "sort_finishing s" using Suc.prems(1) by (simp add: sorting_def)
    with finished Suc.prems(1,3) show ?thesis by simp
  next
    case collect
    show ?thesis
    proof (cases rest)
      case Nil
      from finish_sort_sorting [OF Suc.prems(1) collect bounds(1)] obtain s' where
        f: "finish_sort s = Some (Inr s')" "sort_finishing s'" "sorting granted keys shape need pushed s' io"
          "sort_left k n 0 s' < sort_left k n 0 s" by blast
      have "answers granted (drive_sort keys fuel [] s' io)
          (\<lambda>(s', io'). sorting granted keys shape need (pushed @ []) s' io' \<and> sort_state s' = SortDone)"
        by (rule Suc.IH) (use f Suc.prems Nil in simp_all)
      with f(1) collect Nil show ?thesis by simp
    next
      case (Cons x rest')
      have "sort_input keys shape need (pushed @ [x])" using Suc.prems(2) sort_input_prefix [of keys shape need "pushed @ [x]" rest'] Cons by simp
      from push_sort_sorting [OF Suc.prems(1) collect this bounds(1)] obtain moved s' where
        p: "push_sort x s = Some (Inr (moved, s'))" "\<not> sort_finishing s'"
          "sorting granted keys shape need (if moved then pushed @ [x] else pushed) s' io"
          "sort_left k n (if moved then length rest' else Suc (length rest')) s' < sort_left k n (Suc (length rest')) s" by blast
      have "answers granted (drive_sort keys fuel (if moved then rest' else x # rest') s' io)
          (\<lambda>(s', io'). sorting granted keys shape need (pushed @ rest) s' io' \<and> sort_state s' = SortDone)"
      proof (cases moved)
        case True
        have "answers granted (drive_sort keys fuel rest' s' io)
          (\<lambda>(s', io'). sorting granted keys shape need ((pushed @ [x]) @ rest') s' io' \<and> sort_state s' = SortDone)"
          by (rule Suc.IH) (use p Suc.prems Cons True in simp_all)
        with True Cons show ?thesis by simp
      next
        case False
        have "answers granted (drive_sort keys fuel (x # rest') s' io)
          (\<lambda>(s', io'). sorting granted keys shape need (pushed @ (x # rest')) s' io' \<and> sort_state s' = SortDone)"
          by (rule Suc.IH) (use p Suc.prems Cons False in simp_all)
        with False Cons show ?thesis by simp
      qed
      with p(1) collect Cons show ?thesis by simp
    qed
  next
    case step
    have "answers granted (following (sort_step keys s io) (\<lambda>(s, io). drive_sort keys fuel rest s io))
      (\<lambda>(s', io'). sorting granted keys shape need (pushed @ rest) s' io' \<and> sort_state s' = SortDone)"
    proof (rule answers_following [OF sort_step_answers [OF Suc.prems(1) step bounds, where rest = "length rest"]], goal_cases)
      case (1 x)
      then obtain s' io' where x: "x = (s', io')" "sorting granted keys shape need pushed s' io'" "sort_finishing s' = sort_finishing s"
        "sort_left k n (length rest) s' < sort_left k n (length rest) s" by (cases x) auto
      have "answers granted (drive_sort keys fuel rest s' io')
          (\<lambda>(s', io'). sorting granted keys shape need (pushed @ rest) s' io' \<and> sort_state s' = SortDone)"
        by (rule Suc.IH) (use x Suc.prems in simp_all)
      with x(1) show ?case by simp
    qed
    with step show ?thesis by auto
  qed
qed simp

section \<open>Delivery\<close>

lemma cursor_at_ends: "cursor_at keys shape slot io [] c \<Longrightarrow> needs_load c = Inr False \<and> cursor_finished c"
  by (auto simp: cursor_at_def needs_load_def ends_short_def cursor_finished_def split: option.splits)

lemma cursor_at_needs: "cursor_at keys shape slot io (f # frames) c \<Longrightarrow> needs_load c = Inr (\<not> cur_loaded c) \<and> \<not> cursor_finished c"
  by (simp add: cursor_at_def needs_load_def cursor_finished_def)

lemma read_frames_answers:
  assumes "cursor_at keys shape slot io frames c" and "slot < 2" and "granted \<longrightarrow> quiet io" and "layout_sound keys"
    and "length frames < n"
  shows "answers granted (read_frames slot keys shape n c io) (\<lambda>(out, c', io'). out = frames \<and> cursor_finished c' \<and> same_host io io')"
  using assms(1,3,5)
proof (induction n arbitrary: frames c io)
  case (Suc n)
  show ?case
  proof (cases frames)
    case Nil
    with cursor_at_ends Suc.prems(1) show ?thesis by auto
  next
    case (Cons f rest)
    note needs = cursor_at_needs [OF Suc.prems(1) [unfolded Cons]]
    have load: "answers granted (if \<not> cur_loaded c then load_cursor slot keys shape c io else Some (Inr (c, io)))
        (\<lambda>(c', io'). same_host io io' \<and> cursor_at keys shape slot io' frames c' \<and> cur_loaded c')"
      using load_cursor_answers [OF Suc.prems(1) assms(2) Suc.prems(2) assms(4)] Suc.prems(1) Cons by simp
    show ?thesis
      unfolding read_frames.simps following_simps conjunct1 [OF needs]
    proof (rule answers_following [OF load], goal_cases)
      case (1 x)
      then obtain c1 io1 where x: "x = (c1, io1)" "same_host io io1" "cursor_at keys shape slot io1 (f # rest) c1" "cur_loaded c1"
        using Cons by (cases x) auto
      from consume_cursor_next [OF x(3,4)] obtain c2 where
        c2: "consume_cursor c1 = Some (Inr c2)" "cursor_at keys shape slot io1 rest c2" by blast
      have "granted \<longrightarrow> quiet io1" using Suc.prems(2) x(2) same_host_quiet by blast
      from Suc.IH [OF c2(2) this] Suc.prems(3) Cons
      have rec: "answers granted (read_frames slot keys shape n c2 io1) (\<lambda>(out, c', io'). out = rest \<and> cursor_finished c' \<and> same_host io1 io')"
        by simp
      have bytes: "rec_bytes (cur_record c1) = f" using x(3,4) by (simp add: cursor_at_def)
      have "answers granted (following (read_frames slot keys shape n c2 io1) (\<lambda>(frames, c'', io).
           Some (Inr (rec_bytes (cur_record c1) # frames, c'', io))))
        (\<lambda>(out, c', io'). out = frames \<and> cursor_finished c' \<and> same_host io io')"
        by (rule answers_following [OF rec]) (use bytes Cons x(2) same_host_trans in auto)
      with c2(1) cursor_at_needs [OF x(3)] show ?case by (simp add: x(1))
    qed
  qed
qed simp

lemma read_sorted_answers:
  assumes "sorting granted keys shape need all s io" and "sort_state s = SortDone" and "length all < n"
  shows "answers granted (read_sorted keys n s io) (\<lambda>(out, c, io'). mset out = mset all \<and> frames_sorted keys out \<and> cursor_finished c)"
proof -
  let ?m = "sort_merge s"
  from assms obtain rs where input: "sort_input keys shape need all" and rs: "mset (concat rs) = mset all"
    and inv: "phase_inv granted keys shape rs ?m io" and state: "merge_state ?m = MergeDone"
    by (auto simp: sorting_def merge_ready_def)
  from inv state have data: "pass_data granted keys shape rs ?m io" and one: "length rs \<le> 1"
    and idle: "pair_idle keys shape (merge_pair ?m)" and result: "merge_result ?m = merge_outcome rs"
    by (simp_all add: phase_inv_def)
  note d = data [unfolded pass_data_def]
  let ?pass = "file_pass (merge_input ?m)"
  have store: "cursor_store keys shape (pair_left (merge_pair ?m))" and shape: "pair_shape (merge_pair ?m) = shape"
    using idle by (simp_all add: pair_idle_def)
  have slot: "input_slot ?m < 2" "layout_sound keys" and quiet: "granted \<longrightarrow> quiet io" using d affords_quiet by blast+
  have "\<exists>c. begin_cursor (merge_result ?m) (pair_left (merge_pair ?m)) = Some c
      \<and> cursor_at keys shape (input_slot ?m) io (concat rs) c \<and> frames_sorted keys (concat rs)"
  proof (cases rs)
    case Nil
    with begin_no_run [OF store, of "input_slot ?m" io] result show ?thesis by (auto simp: merge_outcome_def frames_sorted_def)
  next
    case (Cons r rest)
    with one have rs1: "rs = [r]" by simp
    have ok: "run_ok keys shape r" and rows: "length r \<le> max_aggregate_rows" using d rs1 by (auto simp: runs_ok_def)
    have "?pass \<le> max_merge_passes" "0 < max_aggregate_rows" using d by (simp_all add: max_aggregate_rows_def)
    note pass0 = this
    obtain header where h: "run_image ?pass 0 r = header @ concat r" "length header = run_header_bytes"
      using run_image_header [OF ok slot(2) rows pass0] by metis
    have "io_files io ! input_slot ?m = header @ concat r" using d rs1 h(1) by simp
    moreover have "length (header @ concat r) < 2 ^ 64" using images_small [of keys shape rs ?pass] d rs1 h(1) by simp
    ultimately have "holds_run (input_slot ?m) io 0 r" using h(2) by (simp add: holds_run_def slice_def)
    from begin_extent [OF store this] ok result rs1 show ?thesis by (auto simp: merge_outcome_def run_ok_def)
  qed
  then obtain c where c: "begin_cursor (merge_result ?m) (pair_left (merge_pair ?m)) = Some c"
      "cursor_at keys shape (input_slot ?m) io (concat rs) c" "frames_sorted keys (concat rs)" by blast
  have "length (concat rs) = length all" using rs by (metis size_mset)
  then have n: "length (concat rs) < n" using assms(3) by simp
  have "answers granted (read_frames (input_slot ?m) keys shape n c io)
      (\<lambda>(out, c, io'). mset out = mset all \<and> frames_sorted keys out \<and> cursor_finished c)"
    by (rule answers_weaken [OF read_frames_answers [OF c(2) slot(1) quiet slot(2) n]]) (use rs c(3) in auto)
  then show ?thesis using c(1) shape by (simp add: read_sorted_def Let_def input_slot_def)
qed

section \<open>Layouts\<close>

lemma place_keys_bytes:
  assumes "place_keys ks columns keys bytes = Inr (columns', keys', bytes')" and "keys \<le> length columns"
    and "bytes = sum_list (map (field_bytes \<circ> key_kind) (take keys columns))"
  shows "bytes' = sum_list (map (field_bytes \<circ> key_kind) (take keys' columns'))"
  using assms
proof (induction ks arbitrary: columns keys bytes)
  case (Cons k ks)
  have inside: "order_input k < length columns" using Cons.prems(1) by (auto split: if_splits)
  show ?case
  proof (cases "\<exists>c \<in> set (take keys columns). key_input c = order_input k")
    case True
    have "place_keys ks columns keys bytes = Inr (columns', keys', bytes')" using Cons.prems(1) True inside by simp
    from Cons.IH [OF this Cons.prems(2,3)] show ?thesis .
  next
    case False
    with Cons.prems(1) inside obtain i where i: "position (\<lambda>c. key_input c = order_input k) (drop keys columns) = Some i"
      by (auto split: option.splits)
    from position_Some [OF i] have j: "keys + i < length columns" using Cons.prems(2) by auto
    define moved where "moved = swap_at keys (keys + i) columns"
    define key where "key = (moved ! keys)\<lparr>key_direction := order_direction k, key_nulls := order_nulls k\<rparr>"
    have keys: "keys < length columns" using j by simp
    have len: "length (moved[keys := key]) = length columns" by (simp add: moved_def)
    have go: "place_keys ks (moved[keys := key]) (keys + 1) (bytes + field_bytes (key_kind key)) = Inr (columns', keys', bytes')"
      using Cons.prems(1) False inside i
      by (simp add: moved_def [symmetric] key_def [symmetric] Let_def attempt_Inr_conv usize_or_def split: if_splits)
    have "take (keys + 1) (moved[keys := key]) = take keys columns @ [key]"
      using keys by (simp add: take_Suc_conv_app_nth moved_def take_swap_at)
    with Cons.IH [OF go] keys len Cons.prems(3) show ?thesis by simp
  qed
qed simp

lemma with_keys_sound:
  assumes "with_keys inputs order = Inr lay"
  shows "layout_sound lay"
proof -
  from assms obtain columns max_bytes columns' keys key_bytes where
    p: "place_inputs inputs [] 0 = Inr (columns, max_bytes)" "place_keys order columns 0 0 = Inr (columns', keys, key_bytes)"
    and lay: "layout_columns lay = columns'" "layout_keys lay = keys" "layout_key_max_bytes lay = key_bytes"
    by (auto simp: with_keys_def attempt_Inr_conv Let_def split: if_splits)
  note w = with_keys_Inr [OF assms]
  have bytes: "key_bytes = sum_list (map (field_bytes \<circ> key_kind) (take keys columns'))"
    using place_keys_bytes [OF p(2)] by simp
  have count: "length inputs \<le> max_row_values" using place_inputs_Inr [OF p(1)] by auto
  have field: "field_bytes kind \<le> 5 + max_text_bytes" for kind
    by (simp add: field_bytes_def max_text_bytes_def split: data_type.split)
  have "sum_list (map (field_bytes \<circ> key_kind) cs) \<le> length cs * (5 + max_text_bytes)" for cs
    by (induction cs) (auto intro: add_mono field)
  then have "key_bytes \<le> length (take keys columns') * (5 + max_text_bytes)" unfolding bytes by blast
  also have "\<dots> \<le> max_row_values * (5 + max_text_bytes)"
    by (rule mult_le_mono1) (use count w(2) lay in simp)
  also have "\<dots> < 2 ^ 32" by (simp add: max_row_values_def max_text_bytes_def)
  finally have "key_bytes < 2 ^ 32" .
  with w(2,3) lay bytes show ?thesis by (simp add: layout_sound_def)
qed

section \<open>A new sorter\<close>

lemma new_record_Inr:
  assumes "new_record n = Inr r"
  shows "rec_limit r = n" and "record_header \<le> rec_capacity r"
proof -
  from assms obtain c where c: "buffer_capacity (word_of_nat n) = Some c" "r = \<lparr>rec_bytes = [], rec_capacity = unat c, rec_limit = n\<rparr>"
    and n: "record_header \<le> n" "n \<le> max_frame_bytes"
    by (auto simp: new_record_def attempt_Inr_conv ok_or_Inr split: if_splits)
  show "rec_limit r = n" by (simp add: c)
  have "max_frame_bytes < 2 ^ 64" using max_frame_small by simp
  with n have "unat (word_of_nat n :: u64) = n" by (simp add: unat_of_nat)
  with buffer_capacity_covers(1) [OF c(1)] n show "record_header \<le> rec_capacity r" by (simp add: c)
qed

lemma new_run_cursor_store:
  assumes "new_run_cursor (record_header + layout_max_bytes keys + max_payload_bytes shape) = Inr c"
  shows "cursor_store keys shape c"
  using assms new_record_Inr
  by (auto simp: new_run_cursor_def attempt_Inr_conv cursor_store_def reader_sound_def new_reader_def)

lemma new_merge_idle:
  assumes "new_merge keys shape = Inr m" and "layout_sound keys"
  shows "merge_state m = MergeIdle" and "merge_writer m = new_writer" and "pair_idle keys shape (merge_pair m)"
proof -
  from assms(1) obtain p where p: "new_pair keys shape = Inr p" and m: "merge_state m = MergeIdle" "merge_writer m = new_writer" "merge_pair m = p"
    by (auto simp: new_merge_def attempt_Inr_conv)
  then show "merge_state m = MergeIdle" "merge_writer m = new_writer" by simp_all
  from p obtain capacity left right where q: "buffer_capacity_or (layout_key_max_bytes keys) = Inr capacity"
      "new_run_cursor (record_header + layout_max_bytes keys + max_payload_bytes shape) = Inr left"
      "new_run_cursor (record_header + layout_max_bytes keys + max_payload_bytes shape) = Inr right"
      "pair_left p = left" "pair_right p = right" "pair_key_capacity p = capacity" "pair_finished p" "pair_shape p = shape"
    by (auto simp: new_pair_def attempt_Inr_conv Let_def split: if_splits)
  from q(1) obtain c where c: "buffer_capacity (word_of_nat (layout_key_max_bytes keys)) = Some c" "capacity = unat c"
    by (auto simp: buffer_capacity_or_def attempt_Inr_conv ok_or_Inr)
  have "unat (word_of_nat (layout_key_max_bytes keys) :: u64) = layout_key_max_bytes keys"
    using assms(2) by (simp add: layout_sound_def unat_of_nat)
  with buffer_capacity_covers(1) [OF c(1)] q c(2) new_run_cursor_store
  show "pair_idle keys shape (merge_pair m)" by (simp add: m pair_idle_def)
qed

lemma new_sort_sorting:
  assumes "new_sort keys shape bytes rows = Inr s" and "bytes < 2 ^ 63" and "sort_input keys shape need []"
    and "io_files io = [[], []]" and "affords granted need io"
  shows "sorting granted keys shape need [] s io \<and> sort_state s = SortCollect \<and> \<not> sort_finishing s \<and> run_spans (sort_buffer s) = []"
proof -
  from assms(1) obtain r m where s: "s = \<lparr>sort_buffer = r, sort_merge = m, sort_state = SortCollect, sort_finishing = False, sort_rows = 0,
            sort_runs = 0, sort_last = None\<rparr>"
    and r: "new_run bytes rows = Inr r" and m: "new_merge keys shape = Inr m"
    and room: "record_header + layout_max_bytes keys + max_payload_bytes shape \<le> bytes"
    by (auto simp: new_sort_def attempt_Inr_conv Let_def split: if_splits)
  have sound: "layout_sound keys" using assms(3) by (simp add: sort_input_def)
  note idle = new_merge_idle [OF m sound] and c = new_run_collected [OF r assms(2), of keys]
  have "1 \<le> rows" using r by (auto simp: new_run_def split: if_splits)
  then have "buffer_room keys shape r" using c room unfolding buffer_room_def collected_def by blast
  then have "runs_written granted keys shape need [] s io" using assms(4,5) idle by (simp add: runs_written_def s)
  moreover have "runs_flushed [] s io" using assms(4) idle by (simp add: runs_flushed_def s writer_ok_def content_def new_writer_def)
  moreover have "collected keys [] (sort_buffer s)" using c by (simp add: s)
  ultimately have "\<exists>rs frames. runs_written granted keys shape need rs s io \<and> collected keys frames (sort_buffer s)
      \<and> mset (concat rs @ frames) = mset [] \<and> runs_flushed rs s io"
    by (intro exI [of _ "[]"]) simp
  then have "sorting granted keys shape need [] s io" using assms(3) by (simp add: sorting_def s)
  moreover have "run_spans r = []" using r by (auto simp: new_run_def attempt_Inr_conv split: if_splits)
  ultimately show ?thesis by (simp add: s)
qed

section \<open>The whole sort\<close>

text \<open>C38: The external sort sorts. A client pushes records with increasing row numbers into a new sorter,
  pushes a refused record again once the sorter has written a run, finishes the input, steps the
  sorter until it is done and reads the rows through the sorter's cursor. Whatever the host does
  between the calls, no assertion fails, and rows that are delivered are exactly the pushed
  records, strictly sorted by the layout's keys and then by row number. On a host that refuses
  nothing and has room for two files of the records and one header each, they are delivered, after
  at most \<open>(k + 5) n\<close> calls of pushing and run writing and \<open>k (3 n + 4) + 3 n + 5\<close> of merging, for
  \<open>n \<le> 2^k\<close> records: no pass repeats and no step spins.\<close>

theorem external_sort_delivers:
  assumes "with_keys inputs order = Inr keys" and "new_sort keys shape bytes rows = Inr s" and "bytes < 2 ^ 63"
    and "\<forall>f \<in> set frames. stored keys shape f" and "sorted_wrt (<) (map frame_ordinal frames)"
    and "length frames \<le> max_aggregate_rows" and "length frames \<le> 2 ^ k" and "io_files io = [[], []]"
    and "(k + 5) * length frames + merge_budget k (length frames) + 2 < fuel"
  shows "answers (quiet io \<and> 2 * (length (concat frames) + run_header_bytes * length frames) \<le> io_budget io \<and> io_budget io < 2 ^ 64)
    (following (drive_sort keys fuel frames s io) (\<lambda>(s, io). read_sorted keys fuel s io))
    (\<lambda>(out, c, io). mset out = mset frames \<and> frames_sorted keys out \<and> cursor_finished c)"
proof -
  let ?need = "length (concat frames) + run_header_bytes * length frames"
  let ?granted = "quiet io \<and> 2 * ?need \<le> io_budget io \<and> io_budget io < 2 ^ 64"
  have afford: "affords ?granted ?need io" using assms(8) by (simp add: affords_def capacity_def)
  have sound: "layout_sound keys" by (rule with_keys_sound [OF assms(1)])
  have input: "sort_input keys shape ?need ([] @ frames)" using assms(4-6) sound by (simp add: sort_input_def)
  have start: "sort_input keys shape ?need []" using sound by (simp add: sort_input_def)
  note new = new_sort_sorting [OF assms(2,3) start assms(8) afford]
  have left: "sort_left k (length frames) (length frames) s < fuel" using new assms(9) by (simp add: sort_left_def)
  have "length frames \<le> (k + 5) * length frames" by simp
  then have n: "length frames < fuel" using assms(9) by linarith
  have "answers ?granted (drive_sort keys fuel frames s io)
      (\<lambda>(s', io'). sorting ?granted keys shape ?need ([] @ frames) s' io' \<and> sort_state s' = SortDone)"
    by (rule drive_sort_answers [OF _ input]) (use new assms(7) left in simp_all)
  then show ?thesis
    by (rule answers_following) (use read_sorted_answers [OF _ _ n] in auto)
qed

definition sort_host :: scratch_io where
  "sort_host = \<lparr>io_files = [[], []], io_budget = 300000, io_polls = [], io_faults = []\<rparr>"

lemma buffer_capacity_Some: "unat n + 16415 < 2 ^ 64 \<Longrightarrow> \<exists>c. buffer_capacity n = Some c"
  by (auto simp: buffer_capacity_cases)

lemma sample_sort:
  "\<exists>lay f g s. with_keys sample_inputs2 sample_order = Inr lay \<and> new_sort lay row_arguments 200000 4 = Inr s
    \<and> (\<forall>x \<in> set [f, g]. stored lay row_arguments x \<and> length x \<le> 65600) \<and> frame_ordinal f = 0 \<and> frame_ordinal g = 1"
proof -
  from sample_layout obtain lay where lay: "with_keys sample_inputs2 sample_order = Inr lay" "layout_max_bytes lay = 65550" by blast
  have "unat (0 :: u64) < max_aggregate_rows" "unat (1 :: u64) < max_aggregate_rows" by (simp_all add: max_aggregate_rows_def)
  with sample_frames [OF lay sample_inputs_fit(1), of 0] sample_frames [OF lay sample_inputs_fit(2), of 1]
  obtain f g where f: "stored lay row_arguments f" "frame_ordinal f = 0" "length f \<le> 65600"
    and g: "stored lay row_arguments g" "frame_ordinal g = 1" "length g \<le> 65600"
    unfolding stored_def by blast
  have payload: "max_payload_bytes row_arguments = 0" "\<not> shape_invalid row_arguments"
    by (simp_all add: max_payload_bytes_def shape_text_bytes_def shape_invalid_def row_arguments_def)
  obtain c1 where c1: "buffer_capacity (200000 :: u64) = Some c1" using buffer_capacity_Some [of 200000] by auto
  obtain c2 where c2: "buffer_capacity (65582 :: u64) = Some c2" using buffer_capacity_Some [of 65582] by auto
  have "layout_key_max_bytes lay < 2 ^ 32" using with_keys_sound [OF lay(1)] by (simp add: layout_sound_def)
  then obtain c3 where c3: "buffer_capacity (word_of_nat (layout_key_max_bytes lay) :: u64) = Some c3"
    using buffer_capacity_Some [of "word_of_nat (layout_key_max_bytes lay)"] by (auto simp: unat_of_nat)
  have frame: "65582 \<le> max_frame_bytes" by (simp add: max_frame_bytes_def record_header_def max_row_values_def max_text_bytes_def)
  have "\<exists>s. new_sort lay row_arguments 200000 4 = Inr s"
    using payload lay(2) c1 c2 c3 frame
    by (simp add: new_sort_def new_run_def new_merge_def new_pair_def new_run_cursor_def new_record_def buffer_capacity_or_def
        record_header_def max_aggregate_rows_def Let_def)
  with lay f g show ?thesis by auto
qed

theorem external_sort_delivers_witness:
  "\<exists>lay f g s. with_keys sample_inputs2 sample_order = Inr lay \<and> new_sort lay row_arguments 200000 4 = Inr s
    \<and> answers (quiet sort_host \<and> 2 * (length (concat [f, g]) + run_header_bytes * length [f, g]) \<le> io_budget sort_host \<and> io_budget sort_host < 2 ^ 64)
      (following (drive_sort lay 100 [f, g] s sort_host) (\<lambda>(s, io). read_sorted lay 100 s io))
      (\<lambda>(out, c, io). mset out = mset [f, g] \<and> frames_sorted lay out \<and> cursor_finished c)
    \<and> quiet sort_host \<and> 2 * (length (concat [f, g]) + run_header_bytes * length [f, g]) \<le> io_budget sort_host"
proof -
  from sample_sort obtain lay f g s where s: "with_keys sample_inputs2 sample_order = Inr lay"
      "new_sort lay row_arguments 200000 4 = Inr s" "\<forall>x \<in> set [f, g]. stored lay row_arguments x \<and> length x \<le> 65600"
      "frame_ordinal f = 0" "frame_ordinal g = 1" by blast
  have "answers (quiet sort_host \<and> 2 * (length (concat [f, g]) + run_header_bytes * length [f, g]) \<le> io_budget sort_host \<and> io_budget sort_host < 2 ^ 64)
      (following (drive_sort lay 100 [f, g] s sort_host) (\<lambda>(s, io). read_sorted lay 100 s io))
      (\<lambda>(out, c, io). mset out = mset [f, g] \<and> frames_sorted lay out \<and> cursor_finished c)"
    by (rule external_sort_delivers [OF s(1,2), where k = 1])
      (use s(3-5) in \<open>simp_all add: max_aggregate_rows_def sort_host_def merge_budget_def\<close>)
  moreover have "quiet sort_host" by (simp add: quiet_def sort_host_def)
  moreover have "2 * (length (concat [f, g]) + run_header_bytes * length [f, g]) \<le> io_budget sort_host"
    using s(3) by (simp add: sort_host_def run_header_bytes_def)
  ultimately show ?thesis using s(1,2) by blast
qed

end
