(* ===== verification/Column_Names.thy ===== *)
theory Column_Names
  imports Prelude
begin

text \<open>The name grammar that declarations, stored schemas and input headers share (src/schema.rs).\<close>

definition ascii_alphabetic :: "u8 \<Rightarrow> bool" where
  "ascii_alphabetic b \<longleftrightarrow> 65 \<le> b \<and> b \<le> 90 \<or> 97 \<le> b \<and> b \<le> 122"

definition ascii_digit :: "u8 \<Rightarrow> bool" where
  "ascii_digit b \<longleftrightarrow> 48 \<le> b \<and> b \<le> 57"

definition valid_name :: "u8 list \<Rightarrow> bool" where
  "valid_name name \<longleftrightarrow>
     name \<noteq> [] \<and> length name \<le> 32 \<and> (ascii_alphabetic (hd name) \<or> hd name = 95)
     \<and> (\<forall>b \<in> set name. ascii_alphabetic b \<or> ascii_digit b \<or> b = 95)"

definition ascii_lower :: "u8 \<Rightarrow> u8" where
  "ascii_lower b = (if 65 \<le> b \<and> b \<le> 90 then b + 32 else b)"

definition same_name :: "u8 list \<Rightarrow> u8 list \<Rightarrow> bool" where
  "same_name a b \<longleftrightarrow> map ascii_lower a = map ascii_lower b"

end
