(* ===== verification/Csv_Decoder.thy ===== *)
theory Csv_Decoder
  imports Query_Types Resources Checked_Calls Column_Names
begin

text \<open>
  The streaming CSV decoder (src/csv.rs and src/csv/): records are framed byte by byte from a
  reader that delivers what it likes, fields are decoded, the header maps them to the declared
  columns, and typed rows are lent in bounded batches. Byte positions are \<open>nat\<close>: every one is at
  most the admitted number of input bytes. \<open>None\<close> is an index out of bounds.
\<close>

section \<open>Schema and limits\<close>

record column_declaration =
  decl_name :: "u8 list"
  decl_type :: data_type
  decl_nullable :: bool

definition max_columns :: nat where "max_columns = 64"
definition max_field_bytes :: nat where "max_field_bytes = 65536"
definition max_csv_record_bytes :: nat where "max_csv_record_bytes = 64 * (2 * max_field_bytes + 2) + 65"
definition csv_read_bytes :: nat where "csv_read_bytes = 4096"

record csv_limits =
  limit_input :: nat
  limit_rows :: nat
  limit_record :: nat
  limit_field :: nat
  limit_batch_rows :: nat
  limit_batch_text :: nat

fun check_names :: "column_declaration list \<Rightarrow> column_declaration list \<Rightarrow> db_error + unit" where
  "check_names before [] = Inr ()"
| "check_names before (c # cs) =
     (if \<not> valid_name (decl_name c) then Inl (InvalidConfig ''invalid CSV column name'')
      else if \<exists>other \<in> set before. same_name (decl_name other) (decl_name c) then Inl (InvalidConfig ''duplicate CSV column name'')
      else check_names (before @ [c]) cs)"

definition limits_invalid :: "csv_limits \<Rightarrow> bool" where
  "limits_invalid l \<longleftrightarrow>
     limit_input l = 0 \<or> limit_rows l = 0 \<or> limit_record l = 0 \<or> limit_field l = 0 \<or> max_field_bytes < limit_field l
     \<or> max_csv_record_bytes < limit_record l \<or> 64 * max_field_bytes < limit_batch_text l \<or> limit_record l < limit_field l
     \<or> limit_batch_rows l = 0 \<or> 256 < limit_batch_rows l \<or> limit_batch_text l = 0"

text \<open>The sizes of the decoder object and of a cell are the compiler's.\<close>

fun sum_charges :: "bool \<Rightarrow> u64 \<Rightarrow> u64 list \<Rightarrow> db_error + u64" where
  "sum_charges macos total_bytes [] = Inr total_bytes"
| "sum_charges macos total_bytes (c # cs) =
     (case Option.bind (buffer_charge macos c) (checked_add total_bytes) of
        None \<Rightarrow> Inl (InvalidConfig ''CSV memory size overflow'')
      | Some total_bytes \<Rightarrow> sum_charges macos total_bytes cs)"

definition required_memory :: "bool \<Rightarrow> nat \<Rightarrow> nat \<Rightarrow> column_declaration list \<Rightarrow> csv_limits \<Rightarrow> db_error + u64" where
  "required_memory macos object_size cell_size schema l =
     (if schema = [] \<or> max_columns < length schema then Inl (InvalidConfig ''CSV requires 1 through 64 columns'')
      else
        attempt (check_names [] schema) (\<lambda>_.
        if limits_invalid l then Inl (InvalidConfig ''invalid CSV limits'')
        else sum_charges macos (word_of_nat (object_size + 4 * 16384))
          (map word_of_nat [limit_record l, limit_record l, length schema * limit_batch_rows l * cell_size, limit_batch_text l])))"

section \<open>The reader\<close>

text \<open>
  The caller's reader: the bytes it still holds, how each call answers, and the cancellation
  token's answers. \<open>ReadUpTo n\<close> delivers at most \<open>n + 1\<close> bytes; when the list is over, calls
  deliver all they are asked for. Zero bytes mean the end of the input.
\<close>

datatype read_event = ReadUpTo nat | ReadInterrupted | ReadFailed | ReadOverrun

record csv_source =
  src_bytes :: "u8 list"
  src_reads :: "read_event list"
  src_polls :: "bool list"

definition csv_poll :: "csv_source \<Rightarrow> db_error + csv_source" where
  "csv_poll src =
     (case src_polls src of
        [] \<Rightarrow> Inr src
      | cancelled # polls \<Rightarrow> if cancelled then Inl Cancelled else Inr (src\<lparr>src_polls := polls\<rparr>))"

datatype read_result = ReadBytes "u8 list" | ReadAgain | ReadError | ReadInvalid

definition read_once :: "nat \<Rightarrow> csv_source \<Rightarrow> read_result \<times> csv_source" where
  "read_once n src =
     (case src_reads src of
        [] \<Rightarrow> (ReadBytes (take n (src_bytes src)), src\<lparr>src_bytes := drop n (src_bytes src)\<rparr>)
      | event # events \<Rightarrow>
          let src = src\<lparr>src_reads := events\<rparr> in
          case event of
            ReadUpTo m \<Rightarrow> let n = min n (Suc m) in (ReadBytes (take n (src_bytes src)), src\<lparr>src_bytes := drop n (src_bytes src)\<rparr>)
          | ReadInterrupted \<Rightarrow> (ReadAgain, src)
          | ReadFailed \<Rightarrow> (ReadError, src)
          | ReadOverrun \<Rightarrow> (ReadInvalid, src))"

text \<open>At most 16 interruptions are retried.\<close>

fun read_input :: "nat \<Rightarrow> nat \<Rightarrow> nat \<Rightarrow> csv_source \<Rightarrow> db_error + u8 list \<times> csv_source" where
  "read_input retries n offset src =
     attempt (csv_poll src) (\<lambda>src.
       case read_once n src of
         (ReadBytes bytes, src) \<Rightarrow> Inr (bytes, src)
       | (ReadAgain, src) \<Rightarrow> if retries = 0 then Inl (IoError ''read CSV'') else read_input (retries - 1) n offset src
       | (ReadError, src) \<Rightarrow> Inl (IoError ''read CSV'')
       | (ReadInvalid, src) \<Rightarrow> Inl (InputError ''CSV reader returned an invalid byte count'' (word_of_nat offset)))"

declare read_input.simps [simp del]

section \<open>The decoder\<close>

record csv_field =
  csv_offset :: nat
  csv_start :: nat
  csv_end :: nat
  csv_quoted :: bool

datatype input_cell = NullInput | Int64Input u64 | DoubleInput u64 | DateInput date_value | TextInput nat nat

text \<open>The unread part of the input buffer; the arrays of fields and columns are their used prefixes.\<close>

record csv_decoder =
  dec_source :: csv_source
  dec_schema :: "column_declaration list"
  dec_limits :: csv_limits
  dec_memory :: u64
  dec_buffer :: "u8 list"
  dec_input_finished :: bool
  dec_offset :: nat
  dec_record_start :: nat
  dec_raw :: "u8 list"
  dec_decoded :: "u8 list"
  dec_fields :: "csv_field list"
  dec_mapping :: "nat list"
  dec_row :: "input_cell list"
  dec_row_text :: nat
  dec_cells :: "input_cell list"
  dec_text :: "u8 list"
  dec_rows :: nat
  dec_header :: bool
  dec_pending :: bool
  dec_finished :: bool
  dec_failed :: bool

text \<open>The allocator is the parameter \<open>grant\<close>: the capacity it gives for a number of items, or a failure.\<close>

definition allocate_buffer :: "(nat \<Rightarrow> nat option) \<Rightarrow> nat \<Rightarrow> nat \<Rightarrow> nat \<Rightarrow> string \<Rightarrow> u64 \<Rightarrow> db_error + unit" where
  "allocate_buffer grant item items at_most owner l =
     (if 2 ^ 64 \<le> at_most * item then Inl (Corrupt ''allocation geometry overflow'')
      else
        let bytes = word_of_nat (at_most * item); size_of = (\<lambda>n. if 2 ^ 64 \<le> n * item then - 1 else word_of_nat (n * item)) in
        if at_most < items then Inl (ResourceError owner (size_of items) bytes)
        else
          case grant items of
            None \<Rightarrow> Inl (ResourceError owner bytes l)
          | Some capacity \<Rightarrow>
              if capacity < items \<or> at_most < capacity then Inl (ResourceError owner (size_of capacity) bytes) else Inr ())"

definition new_decoder ::
    "(nat \<Rightarrow> nat option) \<Rightarrow> bool \<Rightarrow> nat \<Rightarrow> nat \<Rightarrow> csv_source \<Rightarrow> column_declaration list \<Rightarrow> csv_limits \<Rightarrow> u64
      \<Rightarrow> db_error + csv_decoder" where
  "new_decoder grant macos object_size cell_size src schema l memory_limit =
     attempt (csv_poll src) (\<lambda>src.
     attempt (required_memory macos object_size cell_size schema l) (\<lambda>bytes.
     if memory_limit < bytes then Inl (ResourceError ''CSV decoder'' bytes memory_limit)
     else
       let records = limit_record l; cells = length schema * limit_batch_rows l; text_bytes = limit_batch_text l in
       attempt (allocate_buffer grant 1 records records ''CSV record'' memory_limit) (\<lambda>_.
       attempt (allocate_buffer grant 1 records records ''CSV decoded record'' memory_limit) (\<lambda>_.
       attempt (allocate_buffer grant cell_size cells cells ''CSV cells'' memory_limit) (\<lambda>_.
       attempt (allocate_buffer grant 1 text_bytes text_bytes ''CSV batch text'' memory_limit) (\<lambda>_.
       attempt (csv_poll src) (\<lambda>src.
         Inr \<lparr>dec_source = src, dec_schema = schema, dec_limits = l, dec_memory = bytes, dec_buffer = [],
           dec_input_finished = False, dec_offset = 0, dec_record_start = 0, dec_raw = [], dec_decoded = [], dec_fields = [],
           dec_mapping = replicate (length schema) 0, dec_row = replicate (length schema) NullInput, dec_row_text = 0,
           dec_cells = [], dec_text = [], dec_rows = 0, dec_header = False, dec_pending = False, dec_finished = False,
           dec_failed = False\<rparr>)))))))"

definition input_error :: "string \<Rightarrow> nat \<Rightarrow> db_error" where
  "input_error message offset = InputError message (word_of_nat offset)"

definition csv_check :: "csv_decoder \<Rightarrow> db_error + csv_decoder" where
  "csv_check d = attempt (csv_poll (dec_source d)) (\<lambda>src. Inr (d\<lparr>dec_source := src\<rparr>))"

text \<open>One byte past the limit is asked for, to tell the end of the input from excess input.\<close>

definition fill_input :: "csv_decoder \<Rightarrow> db_error + csv_decoder" where
  "fill_input d =
     (let n = min (limit_input (dec_limits d) - dec_offset d) (csv_read_bytes - 1) + 1 in
      attempt (read_input 16 n (dec_offset d) (dec_source d)) (\<lambda>(bytes, src).
      attempt (csv_poll src) (\<lambda>src.
        Inr (d\<lparr>dec_source := src, dec_buffer := bytes, dec_input_finished := (bytes = [])\<rparr>))))"

definition next_byte :: "csv_decoder \<Rightarrow> db_error + u8 option \<times> csv_decoder" where
  "next_byte d =
     attempt (csv_check d) (\<lambda>d.
     if dec_input_finished d then Inr (None, d)
     else
       attempt (if dec_buffer d = [] then fill_input d else Inr d) (\<lambda>d.
       case dec_buffer d of
         [] \<Rightarrow> Inr (None, d)
       | byte # buffer \<Rightarrow>
           if dec_offset d = limit_input (dec_limits d) then Inl (input_error ''CSV input byte limit'' (dec_offset d))
           else Inr (Some byte, d\<lparr>dec_buffer := buffer, dec_offset := dec_offset d + 1\<rparr>)))"

section \<open>Records\<close>

datatype scan_state = ScanStart | ScanPlain | ScanQuoted | ScanClosed | ScanReturn

definition finish_field :: "nat \<Rightarrow> nat \<Rightarrow> bool \<Rightarrow> csv_decoder \<Rightarrow> db_error + csv_decoder" where
  "finish_field start stop quoted d =
     (if length (dec_fields d) = length (dec_schema d)
      then Inl (input_error ''too many CSV fields'' (dec_record_start d + start))
      else Inr (d\<lparr>dec_fields := dec_fields d @
        [\<lparr>csv_offset = dec_record_start d + start, csv_start = start, csv_end = stop, csv_quoted = quoted\<rparr>]\<rparr>))"

text \<open>The length of the longest valid UTF-8 prefix made of whole characters.\<close>

function valid_up_to :: "u8 list \<Rightarrow> nat" where
  "valid_up_to bytes =
     (if bytes = [] then 0
      else if utf8 (take 1 bytes) then 1 + valid_up_to (drop 1 bytes)
      else if 2 \<le> length bytes \<and> utf8 (take 2 bytes) then 2 + valid_up_to (drop 2 bytes)
      else if 3 \<le> length bytes \<and> utf8 (take 3 bytes) then 3 + valid_up_to (drop 3 bytes)
      else if 4 \<le> length bytes \<and> utf8 (take 4 bytes) then 4 + valid_up_to (drop 4 bytes)
      else 0)"
  by pat_completeness auto
termination
  by (relation "measure length") auto

declare valid_up_to.simps [simp del]

definition finish_csv_record :: "nat \<Rightarrow> csv_decoder \<Rightarrow> db_error + csv_decoder" where
  "finish_csv_record stop d =
     (if length (dec_fields d) \<noteq> length (dec_schema d)
      then Inl (input_error ''too few CSV fields'' (dec_record_start d + stop))
      else
        let raw = take stop (dec_raw d) in
        if \<not> utf8 raw then Inl (input_error ''invalid CSV UTF-8'' (dec_record_start d + valid_up_to raw))
        else Inr (d\<lparr>dec_raw := raw\<rparr>))"

definition adds_byte :: "scan_state \<Rightarrow> u8 \<Rightarrow> bool" where
  "adds_byte state byte =
     (case state of
        ScanQuoted \<Rightarrow> byte \<noteq> 34
      | ScanClosed \<Rightarrow> byte = 34
      | ScanReturn \<Rightarrow> False
      | _ \<Rightarrow> byte \<notin> {44, 13, 10, 34})"

text \<open>What a byte does: the next state, the end of a field, or the end of the record there.\<close>

datatype scan_effect = ScanTo scan_state | ScanField | ScanRecord nat | ScanError string

definition scan_action :: "scan_state \<Rightarrow> u8 \<Rightarrow> scan_effect" where
  "scan_action state byte =
     (if state = ScanReturn then if byte = 10 then ScanRecord 1 else ScanError ''expected LF after CR''
      else if state = ScanQuoted then ScanTo (if byte = 34 then ScanClosed else ScanQuoted)
      else if byte = 34 \<and> state = ScanClosed then ScanTo ScanQuoted
      else if byte = 34 \<and> state = ScanStart then ScanTo ScanQuoted
      else if byte = 44 then ScanField
      else if byte = 10 then ScanRecord 0
      else if byte = 13 then ScanTo ScanReturn
      else if state = ScanClosed \<or> byte = 34 then ScanError ''invalid CSV quote''
      else ScanTo ScanPlain)"

definition finish_scan :: "nat \<Rightarrow> nat \<Rightarrow> bool \<Rightarrow> csv_decoder \<Rightarrow> (bool \<times> csv_decoder) checked" where
  "finish_scan field_start stop quoted d =
     Some (attempt (finish_field field_start stop quoted d) (\<lambda>d.
       attempt (finish_csv_record stop d) (\<lambda>d. Inr (True, d))))"

definition scan_end :: "scan_state \<Rightarrow> nat \<Rightarrow> bool \<Rightarrow> csv_decoder \<Rightarrow> (bool \<times> csv_decoder) checked" where
  "scan_end state field_start quoted d =
     (if state = ScanQuoted \<or> state = ScanReturn then Some (Inl (input_error ''incomplete CSV record'' (dec_offset d)))
      else if dec_raw d = [] then Some (Inr (False, d))
      else finish_scan field_start (length (dec_raw d)) quoted d)"

text \<open>A byte within the limits joins the record.\<close>

definition accept_byte :: "scan_state \<Rightarrow> nat \<Rightarrow> u8 \<Rightarrow> csv_decoder \<Rightarrow> db_error + nat \<times> csv_decoder" where
  "accept_byte state field_bytes byte d =
     (if length (dec_raw d) = limit_record (dec_limits d) then Inl (input_error ''CSV record byte limit'' (dec_offset d - 1))
      else if adds_byte state byte \<and> field_bytes = limit_field (dec_limits d)
      then Inl (input_error ''CSV field byte limit'' (dec_offset d - (if state = ScanClosed then 2 else 1)))
      else Inr (if adds_byte state byte then field_bytes + 1 else field_bytes, d\<lparr>dec_raw := dec_raw d @ [byte]\<rparr>))"

fun scan_record :: "nat \<Rightarrow> scan_state \<Rightarrow> nat \<Rightarrow> bool \<Rightarrow> nat \<Rightarrow> csv_decoder \<Rightarrow> (bool \<times> csv_decoder) checked" where
  "scan_record 0 state field_start quoted field_bytes d = None"
| "scan_record (Suc n) state field_start quoted field_bytes d =
     following (Some (next_byte d)) (\<lambda>(input, d).
       case input of
         None \<Rightarrow> scan_end state field_start quoted d
       | Some byte \<Rightarrow>
           let position = length (dec_raw d) in
           following (Some (accept_byte state field_bytes byte d)) (\<lambda>(field_bytes, d).
             case scan_action state byte of
               ScanError what \<Rightarrow> Some (Inl (input_error what (dec_offset d - 1)))
             | ScanTo next_state \<Rightarrow> scan_record n next_state field_start (quoted \<or> state = ScanStart \<and> byte = 34) field_bytes d
             | ScanField \<Rightarrow>
                 following (Some (finish_field field_start position quoted d)) (\<lambda>d. scan_record n ScanStart (position + 1) False 0 d)
             | ScanRecord back \<Rightarrow>
                 if position < back then None else finish_scan field_start (position - back) quoted d))"

text \<open>A record that is not refused has at most the admitted bytes.\<close>

definition read_csv_record :: "csv_decoder \<Rightarrow> (bool \<times> csv_decoder) checked" where
  "read_csv_record d =
     scan_record (limit_record (dec_limits d) + 2) ScanStart 0 False 0
       (d\<lparr>dec_raw := [], dec_fields := [], dec_record_start := dec_offset d\<rparr>)"

section \<open>Fields\<close>

function decode_bytes :: "bool \<Rightarrow> u8 list \<Rightarrow> u8 list \<Rightarrow> csv_source \<Rightarrow> db_error + u8 list \<times> csv_source" where
  "decode_bytes quoted bytes decoded src =
     (if bytes = [] then Inr (decoded, src)
      else
        attempt (csv_poll src) (\<lambda>src.
        if quoted \<and> hd bytes = 34 then decode_bytes quoted (drop 2 bytes) (decoded @ [34]) src
        else
          let chunk = take csv_read_bytes bytes;
              piece = (if quoted then takeWhile (\<lambda>b. b \<noteq> 34) chunk else chunk)
          in decode_bytes quoted (drop (length piece) bytes) (decoded @ piece) src))"
  by pat_completeness auto
termination
proof (relation "measure (\<lambda>(_, bytes, _, _). length bytes)", goal_cases)
  case (3 quoted bytes decoded src x chunk piece)
  then show ?case by (cases bytes) (auto simp: csv_read_bytes_def take_Cons')
qed auto

declare decode_bytes.simps [simp del]

text \<open>An index outside the record would panic.\<close>

fun decode_each :: "csv_field list \<Rightarrow> u8 list \<Rightarrow> u8 list \<Rightarrow> csv_source \<Rightarrow> (csv_field list \<times> u8 list \<times> csv_source) checked" where
  "decode_each [] raw decoded src = Some (Inr ([], decoded, src))"
| "decode_each (f # fs) raw decoded src =
     (let position = csv_start f + of_bool (csv_quoted f); stop = csv_end f - of_bool (csv_quoted f) in
      if csv_end f < of_bool (csv_quoted f) \<or> length raw < stop then None
      else
        following (Some (decode_bytes (csv_quoted f) (take (stop - position) (drop position raw)) decoded src)) (\<lambda>(decoded', src).
        following (decode_each fs raw decoded' src) (\<lambda>(fs, all, src).
          Some (Inr (f\<lparr>csv_start := length decoded, csv_end := length decoded'\<rparr> # fs, all, src)))))"

definition decode_fields :: "csv_decoder \<Rightarrow> csv_decoder checked" where
  "decode_fields d =
     following (decode_each (dec_fields d) (dec_raw d) [] (dec_source d)) (\<lambda>(fs, decoded, src).
       Some (Inr (d\<lparr>dec_fields := fs, dec_decoded := decoded, dec_source := src\<rparr>)))"

definition field_bytes_of :: "csv_decoder \<Rightarrow> csv_field \<Rightarrow> u8 list" where
  "field_bytes_of d f = take (csv_end f - csv_start f) (drop (csv_start f) (dec_decoded d))"

section \<open>The header\<close>

fun find_column :: "(column_declaration \<Rightarrow> bool) \<Rightarrow> column_declaration list \<Rightarrow> nat option" where
  "find_column p [] = None"
| "find_column p (c # cs) = (if p c then Some 0 else map_option Suc (find_column p cs))"

fun map_columns :: "csv_decoder \<Rightarrow> csv_field list \<Rightarrow> nat list \<Rightarrow> db_error + nat list" where
  "map_columns d [] used = Inr used"
| "map_columns d (f # fs) used =
     (case find_column (\<lambda>c. same_name (decl_name c) (field_bytes_of d f)) (dec_schema d) of
        None \<Rightarrow> Inl (input_error ''unknown CSV header column'' (csv_offset f))
      | Some column \<Rightarrow>
          if column \<in> set used then Inl (input_error ''duplicate CSV header column'' (csv_offset f))
          else map_columns d fs (used @ [column]))"

definition map_header :: "csv_decoder \<Rightarrow> db_error + csv_decoder" where
  "map_header d = attempt (map_columns d (dec_fields d) []) (\<lambda>mapping. Inr (d\<lparr>dec_mapping := mapping\<rparr>))"

section \<open>Typed rows\<close>

definition decimal_nat :: "u8 list \<Rightarrow> nat" where
  "decimal_nat digits = foldl (\<lambda>n b. 10 * n + (unat b - 48)) 0 digits"

definition strip_sign :: "u8 list \<Rightarrow> u8 list" where
  "strip_sign bytes = (case bytes of b # bs \<Rightarrow> if b = 43 \<or> b = 45 then bs else bytes | [] \<Rightarrow> [])"

definition negative_text :: "u8 list \<Rightarrow> bool" where
  "negative_text bytes \<longleftrightarrow> bytes \<noteq> [] \<and> hd bytes = 45"

definition parse_i64 :: "u8 list \<Rightarrow> u64 option" where
  "parse_i64 bytes =
     (let digits = strip_sign bytes in
      if digits = [] \<or> \<not> list_all ascii_digit digits then None
      else
        let value = (if negative_text bytes then - int (decimal_nat digits) else int (decimal_nat digits)) in
        if - (2 ^ 63) \<le> value \<and> value < 2 ^ 63 then Some (word_of_int value) else None)"

text \<open>
  The double nearest to a positive fraction, ties to even, as its bits: the exponent is that of
  the fraction's magnitude but not below the subnormals', and a carry of the significand moves
  into the exponent. Too large fractions give infinity or more.
\<close>

fun bit_length :: "nat \<Rightarrow> nat" where
  "bit_length n = (if n = 0 then 0 else Suc (bit_length (n div 2)))"

declare bit_length.simps [simp del]

definition floor_log2 :: "nat \<Rightarrow> nat \<Rightarrow> int" where
  "floor_log2 num den =
     (let guess = int (bit_length num) - int (bit_length den) in
      if (if 0 \<le> guess then den * 2 ^ nat guess \<le> num else den \<le> num * 2 ^ nat (- guess)) then guess else guess - 1)"

definition nearest_double :: "nat \<Rightarrow> nat \<Rightarrow> nat" where
  "nearest_double num den =
     (if num = 0 then 0
      else
        let e = max (- 1074) (floor_log2 num den - 52);
            n = (if e < 0 then num * 2 ^ nat (- e) else num);
            d = (if e < 0 then den else den * 2 ^ nat e);
            q = n div d; r = n mod d;
            m = (if d < 2 * r \<or> 2 * r = d \<and> odd q then q + 1 else q)
        in nat (e + 1074) * 2 ^ 52 + m)"

definition decimal_double :: "bool \<Rightarrow> nat \<Rightarrow> int \<Rightarrow> u64 option" where
  "decimal_double negative digits exponent =
     (let bits = (if 0 \<le> exponent then nearest_double (digits * 10 ^ nat exponent) 1
                  else nearest_double digits (10 ^ nat (- exponent))) in
      if 0x7FF0000000000000 \<le> bits then None
      else Some (word_of_nat bits OR (if negative then 0x8000000000000000 else 0)))"

definition digits_of :: "u8 list \<Rightarrow> u8 list" where
  "digits_of bytes = takeWhile ascii_digit bytes"

definition after_digits :: "u8 list \<Rightarrow> u8 list" where
  "after_digits bytes = dropWhile ascii_digit bytes"

definition csv_double :: "u8 list \<Rightarrow> u64 option" where
  "csv_double bytes =
     (if bytes = [78, 97, 78] then Some 0x7FF8000000000000
      else if bytes = [73, 110, 102, 105, 110, 105, 116, 121] then Some 0x7FF0000000000000
      else if bytes = [45, 73, 110, 102, 105, 110, 105, 116, 121] then Some 0xFFF0000000000000
      else
        let unsigned = strip_sign bytes; whole = digits_of unsigned; rest = after_digits unsigned;
            point = (rest \<noteq> [] \<and> hd rest = 46);
            fraction = (if point then digits_of (tl rest) else []);
            rest = (if point then after_digits (tl rest) else rest);
            marked = (rest \<noteq> [] \<and> (hd rest = 101 \<or> hd rest = 69));
            power = (if marked then strip_sign (tl rest) else [])
        in
          if whole @ fraction = [] \<or> (if marked then power = [] \<or> \<not> list_all ascii_digit power else rest \<noteq> []) then None
          else
            let exponent = (if marked \<and> negative_text (tl rest) then - int (decimal_nat power) else int (decimal_nat power))
            in decimal_double (negative_text bytes) (decimal_nat (whole @ fraction)) (exponent - int (length fraction)))"

definition null_text :: "u8 list" where "null_text = [92, 78]"

definition type_field :: "column_declaration \<Rightarrow> csv_decoder \<Rightarrow> csv_field \<Rightarrow> db_error + input_cell \<times> nat" where
  "type_field column d f =
     (let bytes = field_bytes_of d f in
      if \<not> csv_quoted f \<and> bytes = null_text
      then if decl_nullable column then Inr (NullInput, 0) else Inl (input_error ''NULL in nonnullable CSV column'' (csv_offset f))
      else
        case decl_type column of
          Int64Type \<Rightarrow> attempt (ok_or (parse_i64 bytes) (input_error ''invalid CSV INT64'' (csv_offset f))) (\<lambda>v. Inr (Int64Input v, 0))
        | DoubleType \<Rightarrow> attempt (ok_or (csv_double bytes) (input_error ''invalid CSV DOUBLE'' (csv_offset f))) (\<lambda>v. Inr (DoubleInput v, 0))
        | DateType \<Rightarrow> attempt (ok_or (parse_date bytes) (input_error ''invalid CSV DATE'' (csv_offset f))) (\<lambda>v. Inr (DateInput v, 0))
        | StringType \<Rightarrow> Inr (TextInput (csv_start f) (csv_end f), length bytes))"

text \<open>A column out of bounds or a field that is not UTF-8 would panic.\<close>

fun type_fields :: "csv_field list \<Rightarrow> nat list \<Rightarrow> csv_decoder \<Rightarrow> csv_decoder checked" where
  "type_fields [] mapping d = Some (Inr d)"
| "type_fields (f # fs) [] d = None"
| "type_fields (f # fs) (column # mapping) d =
     (if length (dec_schema d) \<le> column \<or> length (dec_row d) \<le> column \<or> \<not> utf8 (field_bytes_of d f) then None
      else
        following (Some (type_field (dec_schema d ! column) d f)) (\<lambda>(v, text_bytes).
          type_fields fs mapping (d\<lparr>dec_row := (dec_row d)[column := v], dec_row_text := dec_row_text d + text_bytes\<rparr>)))"

definition type_row :: "csv_decoder \<Rightarrow> csv_decoder checked" where
  "type_row d = type_fields (dec_fields d) (dec_mapping d) (d\<lparr>dec_row_text := 0\<rparr>)"

section \<open>Batches\<close>

definition push_cell :: "csv_decoder \<Rightarrow> input_cell list \<times> u8 list \<Rightarrow> input_cell \<Rightarrow> input_cell list \<times> u8 list" where
  "push_cell d out v =
     (case v of
        TextInput start stop \<Rightarrow>
          let text = snd out @ take (stop - start) (drop start (dec_decoded d)) in (fst out @ [TextInput (length (snd out)) (length text)], text)
      | _ \<Rightarrow> (fst out @ [v], snd out))"

definition publish_row :: "csv_decoder \<Rightarrow> csv_decoder" where
  "publish_row d =
     (let out = foldl (push_cell d) (dec_cells d, dec_text d) (take (length (dec_schema d)) (dec_row d)) in
      d\<lparr>dec_cells := fst out, dec_text := snd out, dec_rows := dec_rows d + 1, dec_pending := False\<rparr>)"

text \<open>The next row, read unless the last batch left it pending; \<open>False\<close> ends the input.\<close>

definition load_row :: "csv_decoder \<Rightarrow> (bool \<times> csv_decoder) checked" where
  "load_row d =
     (if dec_pending d then Some (Inr (True, d))
      else
        following (read_csv_record d) (\<lambda>(found, d).
          if \<not> found then Some (Inr (False, d\<lparr>dec_finished := True\<rparr>))
          else if dec_rows d = limit_rows (dec_limits d) then Some (Inl (input_error ''CSV row limit'' (dec_record_start d)))
          else
            following (decode_fields d) (\<lambda>d.
            following (type_row d) (\<lambda>d. Some (Inr (True, d))))))"

fun fill_rows :: "nat \<Rightarrow> csv_decoder \<Rightarrow> csv_decoder checked" where
  "fill_rows 0 d = Some (Inr d)"
| "fill_rows (Suc n) d =
     following (load_row d) (\<lambda>(found, d).
       if \<not> found then Some (Inr d)
       else if limit_batch_text (dec_limits d) < dec_row_text d
       then Some (Inl (input_error ''CSV row exceeds batch text limit'' (dec_record_start d)))
       else if limit_batch_text (dec_limits d) < length (dec_text d) + dec_row_text d then Some (Inr (d\<lparr>dec_pending := True\<rparr>))
       else fill_rows n (publish_row d))"

definition read_header :: "csv_decoder \<Rightarrow> csv_decoder checked" where
  "read_header d =
     (if dec_header d then Some (Inr d)
      else
        following (read_csv_record d) (\<lambda>(found, d).
          if \<not> found then Some (Inl (input_error ''missing CSV header'' (dec_offset d)))
          else
            following (decode_fields d) (\<lambda>d.
            following (Some (map_header d)) (\<lambda>d. Some (Inr (d\<lparr>dec_header := True\<rparr>))))))"

text \<open>Every row adds the same number of cells, so the loop runs once for each row of a batch.\<close>

definition fill_batch :: "csv_decoder \<Rightarrow> csv_decoder checked" where
  "fill_batch d =
     following (Some (csv_check d)) (\<lambda>d.
       let d = d\<lparr>dec_cells := [], dec_text := []\<rparr> in
       if dec_finished d then Some (Inr d)
       else following (read_header d) (fill_rows (limit_batch_rows (dec_limits d))))"

record input_batch =
  batch_cells :: "input_cell list"
  batch_text :: "u8 list"
  batch_columns :: nat

definition next_batch :: "csv_decoder \<Rightarrow> (input_batch option \<times> csv_decoder) checked" where
  "next_batch d =
     (if dec_failed d then Some (Inl (Unsupported ''CSV decoder already failed''))
      else
        following (fill_batch (d\<lparr>dec_failed := True\<rparr>)) (\<lambda>d.
        following (Some (csv_check d)) (\<lambda>d.
          Some (Inr (if dec_cells d = [] then None
              else Some \<lparr>batch_cells = dec_cells d, batch_text = dec_text d, batch_columns = length (dec_schema d)\<rparr>,
            d\<lparr>dec_failed := False\<rparr>)))))"

definition batch_row_count :: "input_batch \<Rightarrow> nat" where
  "batch_row_count b = length (batch_cells b) div batch_columns b"

definition input_value :: "u8 list \<Rightarrow> input_cell \<Rightarrow> cell" where
  "input_value text v =
     (case v of
        NullInput \<Rightarrow> NullCell
      | Int64Input w \<Rightarrow> Int64Cell w
      | DoubleInput w \<Rightarrow> DoubleCell w
      | DateInput date \<Rightarrow> DateCell date
      | TextInput start stop \<Rightarrow> StringCell (take (stop - start) (drop start text)))"

text \<open>The outer \<open>None\<close> is the panic on a text that is not UTF-8.\<close>

definition batch_value :: "input_batch \<Rightarrow> nat \<Rightarrow> nat \<Rightarrow> cell option option" where
  "batch_value b row column =
     (if batch_row_count b \<le> row \<or> batch_columns b \<le> column then Some None
      else
        case input_value (batch_text b) (batch_cells b ! (row * batch_columns b + column)) of
          StringCell s \<Rightarrow> if utf8 s then Some (Some (StringCell s)) else None
        | c \<Rightarrow> Some (Some c))"

definition batch_text_bytes :: "input_batch \<Rightarrow> nat \<Rightarrow> nat \<Rightarrow> nat option" where
  "batch_text_bytes b row column =
     (if batch_row_count b \<le> row \<or> batch_columns b \<le> column then None
      else case batch_cells b ! (row * batch_columns b + column) of TextInput start stop \<Rightarrow> Some (stop - start) | _ \<Rightarrow> None)"

end
