(* ===== verification/Utf8_Texts.thy ===== *)
theory Utf8_Texts
  imports Query_Types
begin

text \<open>UTF-8 texts are sequences of characters, so they can be cut at ASCII bytes.\<close>

definition utf8_char :: "u8 list \<Rightarrow> bool" where
  "utf8_char ch \<longleftrightarrow>
     (\<exists>a. ch = [a] \<and> a < 0x80)
     \<or> (\<exists>a b. ch = [a, b] \<and> (0xC2 \<le> a \<and> a \<le> 0xDF) \<and> continuation b)
     \<or> (\<exists>a b c. ch = [a, b, c] \<and> (0xE0 \<le> a \<and> a \<le> 0xEF)
          \<and> continuation b \<and> continuation c \<and> (a = 0xE0 \<longrightarrow> 0xA0 \<le> b) \<and> (a = 0xED \<longrightarrow> b \<le> 0x9F))
     \<or> (\<exists>a b c d. ch = [a, b, c, d] \<and> (0xF0 \<le> a \<and> a \<le> 0xF4)
          \<and> continuation b \<and> continuation c \<and> continuation d \<and> (a = 0xF0 \<longrightarrow> 0x90 \<le> b) \<and> (a = 0xF4 \<longrightarrow> b \<le> 0x8F))"

lemma utf8_first:
  assumes "utf8 (a # bs)"
  shows "\<exists>ch rest. a # bs = ch @ rest \<and> utf8_char ch \<and> utf8 rest"
proof -
  consider (one) "a < 0x80" | (two) "\<not> a < 0x80" "0xC2 \<le> a \<and> a \<le> 0xDF" | (three) "\<not> a < 0x80" "\<not> (0xC2 \<le> a \<and> a \<le> 0xDF)" "0xE0 \<le> a \<and> a \<le> 0xEF"
    | (four) "\<not> a < 0x80" "\<not> (0xC2 \<le> a \<and> a \<le> 0xDF)" "\<not> (0xE0 \<le> a \<and> a \<le> 0xEF)" "0xF0 \<le> a \<and> a \<le> 0xF4"
    | (none) "\<not> a < 0x80" "\<not> (0xC2 \<le> a \<and> a \<le> 0xDF)" "\<not> (0xE0 \<le> a \<and> a \<le> 0xEF)" "\<not> (0xF0 \<le> a \<and> a \<le> 0xF4)"
    by blast
  then show ?thesis
  proof cases
    case one
    with assms show ?thesis by (intro exI [of _ "[a]"] exI [of _ bs]) (simp add: utf8_char_def)
  next
    case two
    then obtain b rest where "bs = b # rest" "continuation b" "utf8 rest" using assms unfolding utf8.simps by (cases bs) simp_all
    with two(2) show ?thesis by (intro exI [of _ "[a, b]"] exI [of _ rest]) (simp add: utf8_char_def)
  next
    case three
    then have "case bs of b # c # bs \<Rightarrow> continuation b \<and> continuation c \<and> (a = 0xE0 \<longrightarrow> 0xA0 \<le> b) \<and> (a = 0xED \<longrightarrow> b \<le> 0x9F) \<and> utf8 bs
        | _ \<Rightarrow> False" using assms unfolding utf8.simps by (simp only: if_False if_True)
    then obtain b c rest where "bs = b # c # rest" "continuation b \<and> continuation c \<and> (a = 0xE0 \<longrightarrow> 0xA0 \<le> b) \<and> (a = 0xED \<longrightarrow> b \<le> 0x9F) \<and> utf8 rest"
      by (simp only: split: list.split_asm) blast
    with three(3) show ?thesis by (intro exI [of _ "[a, b, c]"] exI [of _ rest]) (simp add: utf8_char_def)
  next
    case four
    then have body: "case bs of b # c # d # bs \<Rightarrow> continuation b \<and> continuation c \<and> continuation d \<and> (a = 0xF0 \<longrightarrow> 0x90 \<le> b)
          \<and> (a = 0xF4 \<longrightarrow> b \<le> 0x8F) \<and> utf8 bs
        | _ \<Rightarrow> False" using assms unfolding utf8.simps by (simp only: if_False if_True)
    obtain b bs1 where bs: "bs = b # bs1" using body by (cases bs) simp_all
    obtain c bs2 where bs1: "bs1 = c # bs2" using body unfolding bs by (cases bs1) simp_all
    obtain d rest where "bs2 = d # rest" using body unfolding bs bs1 by (cases bs2) simp_all
    then have whole: "bs = b # c # d # rest" using bs bs1 by simp
    have parts: "continuation b \<and> continuation c \<and> continuation d \<and> (a = 0xF0 \<longrightarrow> 0x90 \<le> b) \<and> (a = 0xF4 \<longrightarrow> b \<le> 0x8F) \<and> utf8 rest"
      using body unfolding whole list.case .
    have "utf8_char [a, b, c, d]" unfolding utf8_char_def using four(4) parts by blast
    moreover have "a # bs = [a, b, c, d] @ rest" by (simp only: whole append.simps)
    ultimately show ?thesis using parts by blast
  next
    case none
    with assms show ?thesis unfolding utf8.simps by simp
  qed
qed

lemma utf8_char_cases:
  assumes "utf8_char ch"
  obtains a where "ch = [a]" "a < 0x80"
  | a b where "ch = [a, b]" "0xC2 \<le> a" "a \<le> 0xDF" "continuation b"
  | a b c where "ch = [a, b, c]" "0xE0 \<le> a" "a \<le> 0xEF" "continuation b" "continuation c" "a = 0xE0 \<longrightarrow> 0xA0 \<le> b" "a = 0xED \<longrightarrow> b \<le> 0x9F"
  | a b c d where "ch = [a, b, c, d]" "0xF0 \<le> a" "a \<le> 0xF4" "continuation b" "continuation c" "continuation d"
      "a = 0xF0 \<longrightarrow> 0x90 \<le> b" "a = 0xF4 \<longrightarrow> b \<le> 0x8F"
  using assms unfolding utf8_char_def by blast

lemma utf8_char_append: "utf8_char ch \<Longrightarrow> utf8 (ch @ rest) \<longleftrightarrow> utf8 rest"
proof (erule utf8_char_cases, goal_cases)
  case (2 a b)
  have "\<not> a < 0x80" using 2(2) by unat_arith
  with 2 show ?case by simp
next
  case (3 a b c)
  have "\<not> a < 0x80" "\<not> a \<le> 0xDF" using 3(2) by unat_arith+
  with 3 show ?case by simp
next
  case (4 a b c d)
  have "\<not> a < 0x80" "\<not> a \<le> 0xDF" "\<not> a \<le> 0xEF" using 4(2) by unat_arith+
  with 4 show ?case by simp
qed simp

lemma utf8_chars: "utf8 bs \<longleftrightarrow> (\<exists>chs. list_all utf8_char chs \<and> bs = concat chs)"
proof
  show "utf8 bs \<Longrightarrow> \<exists>chs. list_all utf8_char chs \<and> bs = concat chs"
  proof (induction bs rule: length_induct)
    case (1 bs)
    show ?case
    proof (cases bs)
      case Nil
      then show ?thesis by (intro exI [of _ "[]"]) simp
    next
      case (Cons a as)
      with 1(2) utf8_first obtain ch rest where c: "bs = ch @ rest" "utf8_char ch" "utf8 rest" by metis
      then have "ch \<noteq> []" by (auto simp: utf8_char_def)
      then have "length rest < length bs" using c(1) by simp
      with c(3) 1(1) obtain chs where "list_all utf8_char chs" "rest = concat chs" by blast
      with c show ?thesis by (intro exI [of _ "ch # chs"]) simp
    qed
  qed
  show "\<exists>chs. list_all utf8_char chs \<and> bs = concat chs \<Longrightarrow> utf8 bs"
  proof (elim exE conjE)
    fix chs
    assume "list_all utf8_char chs" "bs = concat chs"
    then show "utf8 bs" by (induction chs arbitrary: bs) (auto simp: utf8_char_append)
  qed
qed

lemma utf8_concat: "utf8 as \<Longrightarrow> utf8 bs \<Longrightarrow> utf8 (as @ bs)"
  unfolding utf8_chars by (metis concat_append list_all_append)

text \<open>An ASCII byte is a character of its own.\<close>

lemma utf8_char_ascii:
  assumes "utf8_char ch" and "c \<in> set ch" and "c < 0x80"
  shows "ch = [c]"
proof -
  have big: "\<not> c < 0x80" if "x \<le> c" "0x80 \<le> x" for x :: u8 using that by (meson leD order.trans)
  have "\<not> continuation c" using assms(3) by (auto simp: continuation_def)
  with assms(1,2) show ?thesis
    by (elim utf8_char_cases) (use assms(3) big [of "0xC2"] big [of "0xE0"] big [of "0xF0"] in auto)
qed

lemma utf8_cut:
  assumes "utf8 (as @ c # bs)" and "c < 0x80"
  shows "utf8 as" and "utf8 bs"
proof -
  have cut: "utf8 as \<and> utf8 bs" if "list_all utf8_char chs" "as @ c # bs = concat chs" for chs
    using that
  proof (induction chs arbitrary: as)
    case (Cons ch chs)
    have ch: "utf8_char ch" and chs: "list_all utf8_char chs" using Cons.prems(1) by simp_all
    have prefix: "as @ c # bs = ch @ concat chs" using Cons.prems(2) by simp
    then consider us where "as = ch @ us" "us @ c # bs = concat chs" | us where "ch = as @ us" "c # bs = us @ concat chs"
      by (auto simp: append_eq_append_conv2)
    then show ?case
    proof cases
      case 1
      with Cons.IH [OF chs 1(2)] ch show ?thesis by (simp add: utf8_char_append)
    next
      case 2
      show ?thesis
      proof (cases us)
        case Nil
        with 2 have "[] @ c # bs = concat chs" "as = ch" by simp_all
        with Cons.IH [OF chs this(1)] ch utf8_char_append [OF ch, of "[]"] show ?thesis by simp
      next
        case (Cons b us')
        with 2 have "c \<in> set ch" "bs = us' @ concat chs" by simp_all
        with utf8_char_ascii [OF ch _ assms(2)] 2 Cons have "ch = [c]" by simp
        with 2 Cons have "[c] = as @ b # us'" by simp
        then have "as = []" "us' = []" by (cases as; simp)+
        with \<open>bs = us' @ concat chs\<close> have "as = []" "bs = concat chs" by simp_all
        moreover have "utf8 (concat chs)" using chs utf8_chars by blast
        ultimately show ?thesis by simp
      qed
    qed
  qed simp
  from assms(1) obtain chs where "list_all utf8_char chs" "as @ c # bs = concat chs" by (auto simp: utf8_chars)
  from cut [OF this] show "utf8 as" "utf8 bs" by simp_all
qed

end
