(* ===== verification/Csv_Text.thy ===== *)
theory Csv_Text
  imports Csv_Decoder Utf8_Texts
begin

text \<open>
  The documented CSV format (docs/formats.md) as texts and their renderings, and the scanner's
  states as a function on bytes: it accepts exactly the renderings.
\<close>

section \<open>Renderings\<close>

datatype csv_text = PlainText "u8 list" | QuotedText "u8 list"

fun csv_content :: "csv_text \<Rightarrow> u8 list" where
  "csv_content (PlainText c) = c"
| "csv_content (QuotedText c) = c"

fun quoted_text :: "csv_text \<Rightarrow> bool" where
  "quoted_text (PlainText c) = False"
| "quoted_text (QuotedText c) = True"

text \<open>A plain field has no comma, line ending or quote; a quoted one doubles its quotes.\<close>

fun text_ok :: "csv_text \<Rightarrow> bool" where
  "text_ok (PlainText c) \<longleftrightarrow> (\<forall>b \<in> set c. b \<notin> {44, 13, 10, 34})"
| "text_ok (QuotedText c) \<longleftrightarrow> True"

fun escape_quotes :: "u8 list \<Rightarrow> u8 list" where
  "escape_quotes [] = []"
| "escape_quotes (b # bs) = (if b = 34 then [34, 34] else [b]) @ escape_quotes bs"

fun render_text :: "csv_text \<Rightarrow> u8 list" where
  "render_text (PlainText c) = c"
| "render_text (QuotedText c) = 34 # escape_quotes c @ [34]"

fun render_line :: "csv_text list \<Rightarrow> u8 list" where
  "render_line [] = []"
| "render_line [f] = render_text f"
| "render_line (f # fs) = render_text f @ 44 # render_line fs"

definition line_endings :: "u8 list set" where
  "line_endings = {[], [10], [13, 10]}"

lemma escape_append: "escape_quotes (as @ bs) = escape_quotes as @ escape_quotes bs"
  by (induction as) simp_all

definition render_before :: "csv_text list \<Rightarrow> u8 list" where
  "render_before fs = concat (map (\<lambda>f. render_text f @ [44]) fs)"

lemma render_before_simps [simp]:
  "render_before [] = []" "render_before (fs @ [f]) = render_before fs @ render_text f @ [44]"
  by (simp_all add: render_before_def)

lemma render_line_snoc: "render_line (fs @ [f]) = render_before fs @ render_text f"
  by (induction fs rule: render_line.induct) (simp_all add: render_before_def)

lemma render_line_append: "gs \<noteq> [] \<Longrightarrow> render_line (fs @ gs) = render_before fs @ render_line gs"
  by (induction fs rule: render_line.induct) (cases gs; simp add: render_before_def)+

section \<open>Scanning bytes\<close>

text \<open>The text read so far grows by the bytes that count; an opening quote makes it a quoted one.\<close>

fun add_content :: "u8 \<Rightarrow> csv_text \<Rightarrow> csv_text" where
  "add_content b (PlainText c) = PlainText (c @ [b])"
| "add_content b (QuotedText c) = QuotedText (c @ [b])"

definition extend_text :: "scan_state \<Rightarrow> u8 \<Rightarrow> csv_text \<Rightarrow> csv_text" where
  "extend_text state b f =
     (if adds_byte state b then add_content b f else if state = ScanStart \<and> b = 34 then QuotedText [] else f)"

fun scan_bytes :: "scan_state \<Rightarrow> csv_text \<Rightarrow> csv_text list \<Rightarrow> u8 list \<Rightarrow> (csv_text list \<times> u8 list \<times> u8 list) option" where
  "scan_bytes state f fs [] = (if state = ScanQuoted \<or> state = ScanReturn then None else Some (fs @ [f], [], []))"
| "scan_bytes state f fs (b # bs) =
     (case scan_action state b of
        ScanError what \<Rightarrow> None
      | ScanTo next_state \<Rightarrow> scan_bytes next_state (extend_text state b f) fs bs
      | ScanField \<Rightarrow> scan_bytes ScanStart (PlainText []) (fs @ [f]) bs
      | ScanRecord back \<Rightarrow> Some (fs @ [f], if back = 0 then [10] else [13, 10], bs))"

text \<open>What the scanner has seen of the current field.\<close>

definition shown :: "scan_state \<Rightarrow> csv_text \<Rightarrow> u8 list" where
  "shown state f =
     (case state of
        ScanQuoted \<Rightarrow> 34 # escape_quotes (csv_content f)
      | ScanReturn \<Rightarrow> render_text f @ [13]
      | _ \<Rightarrow> render_text f)"

definition state_fits :: "scan_state \<Rightarrow> csv_text \<Rightarrow> bool" where
  "state_fits state f \<longleftrightarrow>
     text_ok f
     \<and> (case state of
          ScanStart \<Rightarrow> f = PlainText []
        | ScanPlain \<Rightarrow> \<not> quoted_text f
        | ScanQuoted \<Rightarrow> quoted_text f
        | ScanClosed \<Rightarrow> quoted_text f
        | ScanReturn \<Rightarrow> True)"

lemma scan_step_to:
  assumes "scan_action state b = ScanTo next_state" and "state_fits state f"
  shows "state_fits next_state (extend_text state b f)"
    and "shown next_state (extend_text state b f) = shown state f @ [b]"
    and "length (csv_content (extend_text state b f)) = length (csv_content f) + of_bool (adds_byte state b)"
    and "quoted_text (extend_text state b f) = (quoted_text f \<or> state = ScanStart \<and> b = 34)"
  using assms
  by (cases state; cases f; auto simp: scan_action_def state_fits_def extend_text_def adds_byte_def shown_def escape_append split: if_splits)+

lemma scan_step_field:
  assumes "scan_action state b = ScanField" and "state_fits state f"
  shows "b = 44" and "shown state f = render_text f" and "\<not> adds_byte state b"
  using assms by (cases state; cases f; auto simp: scan_action_def state_fits_def shown_def adds_byte_def split: if_splits)+

lemma scan_step_record:
  assumes "scan_action state b = ScanRecord back" and "state_fits state f"
  shows "b = 10" and "\<not> adds_byte state b" and "back \<le> 1"
    and "shown state f @ [b] = render_text f @ (if back = 0 then [10] else [13, 10])"
  using assms by (cases state; cases f; auto simp: scan_action_def state_fits_def shown_def adds_byte_def split: if_splits)+

lemma shown_end: "state \<noteq> ScanQuoted \<Longrightarrow> state \<noteq> ScanReturn \<Longrightarrow> shown state f = render_text f"
  by (cases state) (simp_all add: shown_def)

text \<open>What is accepted is a rendering; the current field only grows.\<close>

lemma scan_bytes_sound:
  assumes "scan_bytes state f fs bytes = Some (gs, e, later)" and "state_fits state f" and "\<forall>g \<in> set fs. text_ok g"
  shows "render_before fs @ shown state f @ bytes = render_line gs @ e @ later"
    and "\<forall>g \<in> set gs. text_ok g" and "e \<in> line_endings" and "e = [] \<longrightarrow> later = []"
    and "\<exists>g hs. gs = fs @ g # hs \<and> length (csv_content f) \<le> length (csv_content g)"
    and "bytes \<noteq> [] \<longrightarrow> length later < length bytes"
proof -
  have "render_before fs @ shown state f @ bytes = render_line gs @ e @ later \<and> (\<forall>g \<in> set gs. text_ok g) \<and> e \<in> line_endings
    \<and> (e = [] \<longrightarrow> later = []) \<and> (\<exists>g hs. gs = fs @ g # hs \<and> length (csv_content f) \<le> length (csv_content g))
    \<and> (bytes \<noteq> [] \<longrightarrow> length later < length bytes)"
    using assms
  proof (induction bytes arbitrary: state f fs)
    case Nil
    then show ?case
      by (auto simp: line_endings_def render_line_snoc shown_end state_fits_def split: if_splits)
  next
    case (Cons b bs)
    have ok: "text_ok f" using Cons.prems(2) by (simp add: state_fits_def)
    show ?case
    proof (cases "scan_action state b")
      case (ScanTo next_state)
      note s = scan_step_to [OF ScanTo Cons.prems(2)]
      have go: "scan_bytes next_state (extend_text state b f) fs bs = Some (gs, e, later)" using Cons.prems(1) ScanTo by simp
      note ih = Cons.IH [OF go s(1) Cons.prems(3)]
      have "length later \<le> length bs" using ih go by (cases bs) (auto split: if_splits)
      with ih s(2,3) show ?thesis by auto
    next
      case ScanField
      note s = scan_step_field [OF ScanField Cons.prems(2)]
      have go: "scan_bytes ScanStart (PlainText []) (fs @ [f]) bs = Some (gs, e, later)" using Cons.prems(1) ScanField by simp
      have "state_fits ScanStart (PlainText [])" "\<forall>g \<in> set (fs @ [f]). text_ok g" using Cons.prems(3) ok by (auto simp: state_fits_def)
      note ih = Cons.IH [OF go this]
      have "length later \<le> length bs" using ih go by (cases bs) auto
      with ih s(1,2) show ?thesis by (auto simp: shown_def)
    next
      case (ScanRecord k)
      note s = scan_step_record [OF ScanRecord Cons.prems(2)]
      have "gs = fs @ [f]" "e = (if k = 0 then [10] else [13, 10])" "later = bs" using Cons.prems(1) ScanRecord by simp_all
      moreover have "render_before fs @ shown state f @ b # bs = render_before fs @ (shown state f @ [b]) @ bs" by simp
      ultimately show ?thesis
        using s(4) Cons.prems(3) ok by (auto simp: line_endings_def render_line_snoc simp del: append_assoc)
    qed (use Cons.prems(1) in simp)
  qed
  then show "render_before fs @ shown state f @ bytes = render_line gs @ e @ later" "\<forall>g \<in> set gs. text_ok g" "e \<in> line_endings"
    "e = [] \<longrightarrow> later = []" "\<exists>g hs. gs = fs @ g # hs \<and> length (csv_content f) \<le> length (csv_content g)"
    "bytes \<noteq> [] \<longrightarrow> length later < length bytes" by blast+
qed

section \<open>Every rendering is accepted\<close>

definition end_state :: "csv_text \<Rightarrow> scan_state" where
  "end_state f = (if quoted_text f then ScanClosed else if csv_content f = [] then ScanStart else ScanPlain)"

lemma scan_plain: "\<forall>b \<in> set c. b \<notin> {44, 13, 10, 34} \<Longrightarrow> state \<in> {ScanStart, ScanPlain} \<Longrightarrow>
    scan_bytes state (PlainText p) fs (c @ bs) = scan_bytes (if c = [] then state else ScanPlain) (PlainText (p @ c)) fs bs"
proof (induction c arbitrary: state p)
  case (Cons b c)
  then have "scan_action state b = ScanTo ScanPlain" "extend_text state b (PlainText p) = PlainText (p @ [b])"
    by (auto simp: scan_action_def extend_text_def adds_byte_def)
  with Cons.IH [of ScanPlain "p @ [b]"] Cons.prems show ?case by simp
qed simp

lemma scan_quoted: "scan_bytes ScanQuoted (QuotedText p) fs (escape_quotes c @ 34 # bs) = scan_bytes ScanClosed (QuotedText (p @ c)) fs bs"
proof (induction c arbitrary: p)
  case Nil
  show ?case by (simp add: scan_action_def extend_text_def adds_byte_def)
next
  case (Cons b c)
  show ?case
    using Cons.IH [of "p @ [b]"]
    by (cases "b = 34") (simp_all add: scan_action_def extend_text_def adds_byte_def)
qed

lemma scan_text:
  assumes "text_ok f"
  shows "scan_bytes ScanStart (PlainText []) fs (render_text f @ bs) = scan_bytes (end_state f) f fs bs"
proof (cases f)
  case (PlainText c)
  with assms scan_plain [of c ScanStart "[]" fs bs] show ?thesis by (simp add: end_state_def)
next
  case (QuotedText c)
  have "scan_action ScanStart 34 = ScanTo ScanQuoted" "extend_text ScanStart 34 (PlainText []) = QuotedText []"
    by (simp_all add: scan_action_def extend_text_def adds_byte_def)
  with QuotedText scan_quoted [of "[]" fs c bs] show ?thesis by (simp add: end_state_def)
qed

lemma scan_after_text:
  shows "scan_bytes (end_state f) f fs (44 # bs) = scan_bytes ScanStart (PlainText []) (fs @ [f]) bs"
    and "e \<in> line_endings \<Longrightarrow> (e = [] \<longrightarrow> bs = []) \<Longrightarrow> scan_bytes (end_state f) f fs (e @ bs) = Some (fs @ [f], e, bs)"
  by (cases "quoted_text f"; cases "csv_content f = []"; auto simp: end_state_def scan_action_def line_endings_def extend_text_def adds_byte_def)+

lemma scan_bytes_complete:
  assumes "gs \<noteq> []" and "\<forall>g \<in> set gs. text_ok g" and "e \<in> line_endings" and "e = [] \<longrightarrow> later = []"
  shows "scan_bytes ScanStart (PlainText []) fs (render_line gs @ e @ later) = Some (fs @ gs, e, later)"
  using assms(1,2)
proof (induction gs arbitrary: fs rule: render_line.induct)
  case (2 f)
  with scan_text [of f fs "e @ later"] scan_after_text(2) [OF assms(3,4)] show ?case by simp
next
  case (3 f g gs)
  have "scan_bytes ScanStart (PlainText []) fs (render_text f @ 44 # render_line (g # gs) @ e @ later) =
      scan_bytes ScanStart (PlainText []) (fs @ [f]) (render_line (g # gs) @ e @ later)"
    using scan_text [of f fs "44 # render_line (g # gs) @ e @ later"] scan_after_text(1) 3(3) by simp
  with 3 show ?case by simp
qed simp

text \<open>A first record of a stream is determined by its bytes.\<close>

definition first_record :: "u8 list \<Rightarrow> csv_text list \<Rightarrow> u8 list \<Rightarrow> u8 list \<Rightarrow> bool" where
  "first_record bytes fs e later \<longleftrightarrow>
     fs \<noteq> [] \<and> (\<forall>f \<in> set fs. text_ok f) \<and> e \<in> line_endings \<and> (e = [] \<longrightarrow> later = []) \<and> bytes = render_line fs @ e @ later"

lemma first_record_scan: "first_record bytes fs e later \<longleftrightarrow> scan_bytes ScanStart (PlainText []) [] bytes = Some (fs, e, later)"
proof
  assume "first_record bytes fs e later"
  then show "scan_bytes ScanStart (PlainText []) [] bytes = Some (fs, e, later)"
    using scan_bytes_complete [of fs e later "[]"] by (auto simp: first_record_def)
next
  assume s: "scan_bytes ScanStart (PlainText []) [] bytes = Some (fs, e, later)"
  have "state_fits ScanStart (PlainText [])" by (simp add: state_fits_def)
  from scan_bytes_sound [OF s this] show "first_record bytes fs e later" by (auto simp: first_record_def shown_def)
qed

lemma first_record_unique:
  "first_record bytes fs e later \<Longrightarrow> first_record bytes fs' e' later' \<Longrightarrow> fs' = fs \<and> e' = e \<and> later' = later"
  by (simp add: first_record_scan)

section \<open>Contents are UTF-8\<close>

lemma escape_prefix: "escape_quotes c = p @ q \<Longrightarrow> 34 \<notin> set p \<Longrightarrow> \<exists>c'. c = p @ c' \<and> q = escape_quotes c'"
proof (induction p arbitrary: c)
  case (Cons b p)
  from Cons.prems obtain c1 where "c = b # c1" "escape_quotes c1 = p @ q" by (cases c) (auto split: if_splits)
  with Cons.IH [of c1] Cons.prems(2) show ?case by auto
qed simp

lemma utf8_escape: "utf8 (escape_quotes c) \<Longrightarrow> utf8 c"
proof (induction c rule: length_induct)
  case (1 c)
  show ?case
  proof (cases c)
    case (Cons b bs)
    show ?thesis
    proof (cases "b = 34")
      case True
      have "utf8 (escape_quotes bs)" using 1(2) Cons True utf8_cut(2) [of "[34]" 34 "escape_quotes bs"] by simp
      with 1(1) Cons have "utf8 bs" by simp
      with Cons True show ?thesis by simp
    next
      case False
      then have esc: "escape_quotes c = b # escape_quotes bs" using Cons by simp
      from 1(2) [unfolded esc] utf8_first obtain ch rest where ch: "escape_quotes c = ch @ rest" "utf8_char ch" "utf8 rest"
        unfolding esc by blast
      have nonempty: "ch \<noteq> []" using ch(2) by (auto simp: utf8_char_def)
      have "34 \<notin> set ch" using utf8_char_ascii [OF ch(2), of 34] ch(1) False esc by auto
      from escape_prefix [OF ch(1) this] obtain c' where c': "c = ch @ c'" "rest = escape_quotes c'" by blast
      with nonempty 1(1) ch(3) have "utf8 c'" by simp
      with c' ch(2) show ?thesis by (simp add: utf8_char_append)
    qed
  qed simp
qed

lemma utf8_text: "utf8 (render_text f) \<Longrightarrow> utf8 (csv_content f)"
proof (cases f)
  case (QuotedText c)
  assume "utf8 (render_text f)"
  then have "utf8 (escape_quotes c @ 34 # [])" using QuotedText utf8_cut(2) [of "[]" 34] by simp
  from utf8_cut(1) [OF this] show ?thesis using QuotedText by (simp add: utf8_escape)
qed simp

lemma utf8_line: "utf8 (render_line fs) \<Longrightarrow> f \<in> set fs \<Longrightarrow> utf8 (csv_content f)"
proof (induction fs rule: render_line.induct)
  case (3 g h fs)
  from 3(2) have "utf8 (render_text g)" "utf8 (render_line (h # fs))"
    using utf8_cut [of "render_text g" 44 "render_line (h # fs)"] by simp_all
  with 3 show ?case by (auto simp: utf8_text)
qed (auto simp: utf8_text)

end
