(* ===== verification/Csv_Reading.thy ===== *)
theory Csv_Reading
  imports Csv_Text
begin

text \<open>
  Framing a record: over a reader that is steady, the decoder reads exactly the first record of
  the remaining bytes and marks its fields.
\<close>

section \<open>Steady readers\<close>

text \<open>A steady reader does not fail, interrupts at most 16 times in a row and is not cancelled.\<close>

fun calm_reads :: "nat \<Rightarrow> read_event list \<Rightarrow> bool" where
  "calm_reads n [] = True"
| "calm_reads n (ReadUpTo m # events) = calm_reads 16 events"
| "calm_reads n (ReadInterrupted # events) = (0 < n \<and> calm_reads (n - 1) events)"
| "calm_reads n (ReadFailed # events) = False"
| "calm_reads n (ReadOverrun # events) = False"

definition calm :: "nat \<Rightarrow> csv_source \<Rightarrow> bool" where
  "calm n src \<longleftrightarrow> calm_reads n (src_reads src) \<and> True \<notin> set (src_polls src)"

definition steady :: "csv_source \<Rightarrow> bool" where
  "steady src \<longleftrightarrow> calm 16 src"

lemma csv_poll_answers:
  "answers (calm n src) (Some (csv_poll src)) (\<lambda>src'. src_bytes src' = src_bytes src \<and> (calm n src \<longrightarrow> calm n src'))"
  by (auto simp: csv_poll_def calm_def split: list.splits)

lemma answers_grant: "answers granted m post \<Longrightarrow> (granted' \<Longrightarrow> granted) \<Longrightarrow> answers granted' m post"
  by (rule answers_weaken)

lemma attempt_following: "Some (attempt m k) = following (Some m) (\<lambda>x. Some (k x))"
  by (cases m) simp_all

lemma read_once_result:
  assumes "read_once n src = (r, src')" and "0 < n"
  shows "case r of
      ReadBytes bytes \<Rightarrow> src_bytes src = bytes @ src_bytes src' \<and> (bytes = [] \<longrightarrow> src_bytes src = []) \<and> (calm k src \<longrightarrow> calm 16 src')
    | ReadAgain \<Rightarrow> src_bytes src' = src_bytes src \<and> (calm k src \<longrightarrow> 0 < k \<and> calm (k - 1) src')
    | _ \<Rightarrow> \<not> calm k src"
  using assms by (cases "src_reads src"; cases "hd (src_reads src)") (auto simp: read_once_def calm_def Let_def)

lemma read_input_answers:
  assumes "0 < n"
  shows "answers (calm retries src) (Some (read_input retries n offset src))
    (\<lambda>(bytes, src'). src_bytes src = bytes @ src_bytes src' \<and> (bytes = [] \<longrightarrow> src_bytes src = []) \<and> (calm retries src \<longrightarrow> steady src'))"
proof (induction retries arbitrary: src rule: less_induct)
  case (less retries)
  show ?case
    unfolding read_input.simps [of retries] attempt_following
  proof (rule answers_following [OF csv_poll_answers], goal_cases)
    case (1 mid)
    obtain r src' where once: "read_once n mid = (r, src')" by (cases "read_once n mid")
    note result = read_once_result [OF once assms, of retries]
    show ?case
    proof (cases r)
      case ReadAgain
      show ?thesis
      proof (cases "retries = 0")
        case False
        then have "retries - 1 < retries" by simp
        note less.IH [OF this, of src']
        then show ?thesis
          using False 1 once ReadAgain result by (auto elim: answers_weaken)
      qed (use 1 once ReadAgain result in auto)
    qed (use 1 once result in \<open>auto simp: steady_def\<close>)
  qed
qed

section \<open>Bytes\<close>

definition csv_rest :: "csv_decoder \<Rightarrow> u8 list" where
  "csv_rest d = dec_buffer d @ src_bytes (dec_source d)"

text \<open>What framing a record leaves alone.\<close>

definition csv_kept :: "csv_decoder \<Rightarrow> csv_decoder" where
  "csv_kept d = d\<lparr>dec_source := undefined, dec_buffer := [], dec_input_finished := False, dec_offset := 0, dec_raw := [], dec_fields := []\<rparr>"

lemma csv_kept_simps [simp]:
  "csv_kept (d\<lparr>dec_source := src\<rparr>) = csv_kept d" "csv_kept (d\<lparr>dec_buffer := bytes\<rparr>) = csv_kept d"
  "csv_kept (d\<lparr>dec_input_finished := b\<rparr>) = csv_kept d" "csv_kept (d\<lparr>dec_offset := n\<rparr>) = csv_kept d"
  "csv_kept (d\<lparr>dec_raw := bytes\<rparr>) = csv_kept d" "csv_kept (d\<lparr>dec_fields := fs\<rparr>) = csv_kept d"
  by (simp_all add: csv_kept_def)

lemma csv_kept_fields:
  assumes "csv_kept d' = csv_kept d"
  shows "dec_schema d' = dec_schema d" "dec_limits d' = dec_limits d" "dec_record_start d' = dec_record_start d"
    "dec_decoded d' = dec_decoded d" "dec_mapping d' = dec_mapping d" "dec_row d' = dec_row d" "dec_row_text d' = dec_row_text d"
    "dec_cells d' = dec_cells d" "dec_text d' = dec_text d" "dec_rows d' = dec_rows d" "dec_header d' = dec_header d"
    "dec_pending d' = dec_pending d" "dec_finished d' = dec_finished d" "dec_failed d' = dec_failed d"
  using assms by (cases d; cases d'; simp add: csv_kept_def)+

definition input_ok :: "csv_decoder \<Rightarrow> bool" where
  "input_ok d \<longleftrightarrow> (dec_input_finished d \<longrightarrow> csv_rest d = []) \<and> dec_offset d \<le> limit_input (dec_limits d)"

definition input_fits :: "csv_decoder \<Rightarrow> bool" where
  "input_fits d \<longleftrightarrow> steady (dec_source d) \<and> dec_offset d + length (csv_rest d) \<le> limit_input (dec_limits d)"

lemma csv_rest_simps [simp]:
  "csv_rest (d\<lparr>dec_raw := bytes\<rparr>) = csv_rest d" "csv_rest (d\<lparr>dec_fields := fs\<rparr>) = csv_rest d"
  "input_ok (d\<lparr>dec_raw := bytes\<rparr>) = input_ok d" "input_ok (d\<lparr>dec_fields := fs\<rparr>) = input_ok d"
  "input_fits (d\<lparr>dec_raw := bytes\<rparr>) = input_fits d" "input_fits (d\<lparr>dec_fields := fs\<rparr>) = input_fits d"
  by (simp_all add: csv_rest_def input_ok_def input_fits_def)

text \<open>The next byte of the remaining ones, which are the buffer and what the reader still holds.\<close>

definition byte_read :: "csv_decoder \<Rightarrow> u8 option \<times> csv_decoder \<Rightarrow> bool" where
  "byte_read d r \<longleftrightarrow>
     csv_kept (snd r) = csv_kept d \<and> input_ok (snd r) \<and> (input_fits d \<longrightarrow> input_fits (snd r))
     \<and> dec_raw (snd r) = dec_raw d \<and> dec_fields (snd r) = dec_fields d
     \<and> dec_offset (snd r) = dec_offset d + length (csv_rest d) - length (csv_rest (snd r))
     \<and> csv_rest d = (case fst r of None \<Rightarrow> [] | Some b \<Rightarrow> b # csv_rest (snd r))
     \<and> (fst r = None \<longrightarrow> csv_rest (snd r) = [])"

lemma csv_check_answers:
  "answers (steady (dec_source d)) (Some (csv_check d))
    (\<lambda>d'. d' = d\<lparr>dec_source := dec_source d'\<rparr> \<and> src_bytes (dec_source d') = src_bytes (dec_source d)
      \<and> (steady (dec_source d) \<longrightarrow> steady (dec_source d')))"
  using csv_poll_answers [of 16 "dec_source d"]
  by (cases "csv_poll (dec_source d)") (auto simp: csv_check_def steady_def)

lemma fill_input_answers:
  assumes "input_ok d" and "dec_buffer d = []"
  shows "answers (steady (dec_source d)) (Some (fill_input d))
    (\<lambda>d'. d' = d\<lparr>dec_source := dec_source d', dec_buffer := dec_buffer d', dec_input_finished := (dec_buffer d' = [])\<rparr>
      \<and> csv_rest d' = csv_rest d \<and> (dec_buffer d' = [] \<longrightarrow> csv_rest d = []) \<and> (steady (dec_source d) \<longrightarrow> steady (dec_source d')))"
  unfolding fill_input_def Let_def attempt_following
proof (rule answers_following [OF read_input_answers [of _ 16, folded steady_def]], goal_cases)
  case (2 r)
  obtain bytes mid where r: "r = (bytes, mid)" by (cases r)
  show ?case
    using csv_poll_answers [of 16 mid] 2 assms(2)
    by (cases "csv_poll mid") (auto simp: r steady_def csv_rest_def)
qed simp

lemma next_byte_answers:
  assumes "input_ok d"
  shows "answers (input_fits d) (Some (next_byte d)) (byte_read d)"
  unfolding next_byte_def attempt_following
proof (rule answers_following)
  show "answers (input_fits d) (Some (csv_check d)) (\<lambda>d'. d' = d\<lparr>dec_source := dec_source d'\<rparr>
      \<and> src_bytes (dec_source d') = src_bytes (dec_source d) \<and> (steady (dec_source d) \<longrightarrow> steady (dec_source d')))"
    using answers_weaken [OF csv_check_answers] by (simp add: input_fits_def)
next
  fix d1
  assume post: "d1 = d\<lparr>dec_source := dec_source d1\<rparr> \<and> src_bytes (dec_source d1) = src_bytes (dec_source d)
      \<and> (steady (dec_source d) \<longrightarrow> steady (dec_source d1))"
  then obtain src where d1: "d1 = d\<lparr>dec_source := src\<rparr>" "src_bytes src = src_bytes (dec_source d)" "steady (dec_source d) \<Longrightarrow> steady src"
    by metis
  have ok1: "input_ok d1" using assms d1 by (simp add: input_ok_def csv_rest_def)
  define mid where "mid = (if dec_buffer d1 = [] then fill_input d1 else Inr d1)"
  have mid: "answers (steady (dec_source d)) (Some mid) (\<lambda>d2. csv_kept d2 = csv_kept d \<and> input_ok d2 \<and> csv_rest d2 = csv_rest d
      \<and> dec_raw d2 = dec_raw d \<and> dec_fields d2 = dec_fields d \<and> dec_offset d2 = dec_offset d
      \<and> (dec_buffer d2 = [] \<longrightarrow> csv_rest d = []) \<and> (steady (dec_source d) \<longrightarrow> steady (dec_source d2)))"
  proof (cases "dec_buffer d1 = []")
    case True
    then have mid: "mid = fill_input d1" by (simp add: mid_def)
    note filled = fill_input_answers [OF ok1 True]
    show ?thesis
    proof (cases "fill_input d1")
      case (Inr d2)
      with filled have f: "d2 = d1\<lparr>dec_source := dec_source d2, dec_buffer := dec_buffer d2, dec_input_finished := (dec_buffer d2 = [])\<rparr>"
        "csv_rest d2 = csv_rest d1" "dec_buffer d2 = [] \<Longrightarrow> csv_rest d1 = []" "steady (dec_source d1) \<Longrightarrow> steady (dec_source d2)"
        by simp_all
      obtain src2 buf where d2: "d2 = d1\<lparr>dec_source := src2, dec_buffer := buf, dec_input_finished := (buf = [])\<rparr>"
        "src2 = dec_source d2" "buf = dec_buffer d2" using f(1) by blast
      have "csv_rest d1 = csv_rest d" by (simp add: d1 csv_rest_def)
      have k1: "csv_kept d1 = csv_kept d" "dec_raw d1 = dec_raw d" "dec_fields d1 = dec_fields d" "dec_offset d1 = dec_offset d"
        "dec_limits d1 = dec_limits d" using d1(1) by simp_all
      have k2: "csv_kept d2 = csv_kept d1" "dec_raw d2 = dec_raw d1" "dec_fields d2 = dec_fields d1" "dec_offset d2 = dec_offset d1"
        "dec_limits d2 = dec_limits d1" "dec_input_finished d2 = (buf = [])" using d2(1) by simp_all
      have "input_ok d2" using k1 k2 f(2,3) d2(3) assms \<open>csv_rest d1 = csv_rest d\<close> unfolding input_ok_def by auto
      moreover have "steady (dec_source d) \<Longrightarrow> steady (dec_source d2)" using f(4) d1(1,3) by simp
      ultimately show ?thesis using mid Inr k1 k2 f(2,3) \<open>csv_rest d1 = csv_rest d\<close> by simp
    qed (use filled mid d1 in auto)
  next
    case False
    with d1 assms show ?thesis by (simp add: mid_def) (simp add: input_ok_def csv_rest_def)
  qed
  show "answers (input_fits d) (Some (if dec_input_finished d1 then Inr (None, d1)
      else attempt (if dec_buffer d1 = [] then fill_input d1 else Inr d1) (\<lambda>d. case dec_buffer d of [] \<Rightarrow> Inr (None, d)
        | byte # buffer \<Rightarrow> if dec_offset d = limit_input (dec_limits d) then Inl (input_error ''CSV input byte limit'' (dec_offset d))
          else Inr (Some byte, d\<lparr>dec_buffer := buffer, dec_offset := dec_offset d + 1\<rparr>)))) (byte_read d)"
  proof (cases "dec_input_finished d1")
    case True
    with d1 assms show ?thesis by (auto simp: byte_read_def input_ok_def csv_rest_def input_fits_def)
  next
    case False
    have "answers (input_fits d) (Some (case mid of Inl e \<Rightarrow> Inl e | Inr d2 \<Rightarrow> (case dec_buffer d2 of [] \<Rightarrow> Inr (None, d2)
        | byte # buffer \<Rightarrow> if dec_offset d2 = limit_input (dec_limits d2) then Inl (input_error ''CSV input byte limit'' (dec_offset d2))
          else Inr (Some byte, d2\<lparr>dec_buffer := buffer, dec_offset := dec_offset d2 + 1\<rparr>)))) (byte_read d)"
    proof (cases mid)
      case (Inr d2)
      with mid have d2: "csv_kept d2 = csv_kept d" "input_ok d2" "csv_rest d2 = csv_rest d" "dec_raw d2 = dec_raw d" "dec_fields d2 = dec_fields d"
        "dec_offset d2 = dec_offset d" "dec_buffer d2 = [] \<Longrightarrow> csv_rest d = []" "steady (dec_source d) \<Longrightarrow> steady (dec_source d2)" by auto
      note l = csv_kept_fields(2) [OF d2(1)]
      have rest: "csv_rest d = dec_buffer d2 @ src_bytes (dec_source d2)" by (simp only: d2(3) [symmetric] csv_rest_def [of d2])
      have after: "csv_rest (d2\<lparr>dec_buffer := b, dec_offset := n\<rparr>) = b @ src_bytes (dec_source d2)" for b n by (simp add: csv_rest_def)
      show ?thesis
      proof (cases "dec_buffer d2")
        case Nil
        with Inr d2 l show ?thesis by (auto simp: byte_read_def input_ok_def input_fits_def)
      next
        case (Cons a list)
        with Inr d2 l rest show ?thesis by (auto simp: byte_read_def input_ok_def input_fits_def after)
      qed
    qed (use mid in \<open>auto simp: input_fits_def\<close>)
    with False show ?thesis by (simp add: attempt_following mid_def attempt_def)
  qed
qed

end
