(* ===== verification/Csv_Scanning.thy ===== *)
theory Csv_Scanning
  imports Csv_Reading
begin

text \<open>
  The record scanner is the scanner of bytes: it accepts exactly the records within the limits
  and marks their fields.
\<close>

section \<open>Marked fields\<close>

fun field_marks :: "nat \<Rightarrow> nat \<Rightarrow> csv_text list \<Rightarrow> csv_field list" where
  "field_marks r s [] = []"
| "field_marks r s (f # fs) =
     \<lparr>csv_offset = r + s, csv_start = s, csv_end = s + length (render_text f), csv_quoted = quoted_text f\<rparr>
     # field_marks r (s + length (render_text f) + 1) fs"

lemma field_marks_snoc:
  "field_marks r s (fs @ [f]) = field_marks r s fs @
     [\<lparr>csv_offset = r + (s + length (render_before fs)), csv_start = s + length (render_before fs),
       csv_end = s + length (render_before fs) + length (render_text f), csv_quoted = quoted_text f\<rparr>]"
  by (induction fs arbitrary: s) (simp_all add: render_before_def add.assoc)

lemma length_field_marks [simp]: "length (field_marks r s fs) = length fs"
  by (induction fs arbitrary: s) simp_all

definition record_fits :: "csv_limits \<Rightarrow> nat \<Rightarrow> csv_text list \<Rightarrow> u8 list \<Rightarrow> bool" where
  "record_fits l n fs e \<longleftrightarrow>
     length fs = n \<and> length (render_line fs @ e) \<le> limit_record l \<and> (\<forall>f \<in> set fs. length (csv_content f) \<le> limit_field l)
     \<and> utf8 (render_line fs)"

lemma finish_scan_answers:
  assumes "dec_fields d = field_marks (dec_record_start d) 0 fs" and "length fs \<le> length (dec_schema d)"
    and "take (length (render_before fs) + length (render_text f)) (dec_raw d) = render_before fs @ render_text f"
  shows "answers (length (fs @ [f]) = length (dec_schema d) \<and> utf8 (render_line (fs @ [f])))
    (finish_scan (length (render_before fs)) (length (render_before fs) + length (render_text f)) (quoted_text f) d)
    (\<lambda>(found, d'). found \<and> length (fs @ [f]) = length (dec_schema d) \<and> utf8 (render_line (fs @ [f]))
      \<and> d' = d\<lparr>dec_fields := field_marks (dec_record_start d) 0 (fs @ [f]), dec_raw := render_line (fs @ [f])\<rparr>)"
  using assms
  by (auto simp: finish_scan_def finish_field_def finish_csv_record_def attempt_def Let_def field_marks_snoc render_line_snoc split: if_splits sum.splits)

section \<open>The scanner\<close>

text \<open>The state of the scanner before a byte: the texts of the fields so far and of the current one.\<close>

definition scanning :: "csv_decoder \<Rightarrow> scan_state \<Rightarrow> csv_text \<Rightarrow> csv_text list \<Rightarrow> bool" where
  "scanning d state f fs \<longleftrightarrow>
     input_ok d \<and> state_fits state f \<and> (\<forall>g \<in> set fs. text_ok g) \<and> dec_raw d = render_before fs @ shown state f
     \<and> dec_fields d = field_marks (dec_record_start d) 0 fs \<and> length (dec_raw d) \<le> limit_record (dec_limits d)
     \<and> (\<forall>g \<in> set (f # fs). length (csv_content g) \<le> limit_field (dec_limits d)) \<and> length fs \<le> length (dec_schema d)"

definition scan_granted :: "csv_decoder \<Rightarrow> scan_state \<Rightarrow> csv_text \<Rightarrow> csv_text list \<Rightarrow> bool" where
  "scan_granted d state f fs \<longleftrightarrow>
     input_fits d
     \<and> (csv_rest d = [] \<and> dec_raw d = []
        \<or> (\<exists>gs e later. scan_bytes state f fs (csv_rest d) = Some (gs, e, later) \<and> record_fits (dec_limits d) (length (dec_schema d)) gs e))"

definition scan_result :: "csv_decoder \<Rightarrow> scan_state \<Rightarrow> csv_text \<Rightarrow> csv_text list \<Rightarrow> bool \<times> csv_decoder \<Rightarrow> bool" where
  "scan_result d state f fs r \<longleftrightarrow>
     csv_kept (snd r) = csv_kept d \<and> input_ok (snd r) \<and> (input_fits d \<longrightarrow> input_fits (snd r))
     \<and> dec_offset (snd r) + length (csv_rest (snd r)) = dec_offset d + length (csv_rest d)
     \<and> (if fst r
        then (csv_rest d \<noteq> [] \<or> dec_raw d \<noteq> [])
          \<and> (\<exists>gs e. scan_bytes state f fs (csv_rest d) = Some (gs, e, csv_rest (snd r))
              \<and> record_fits (dec_limits d) (length (dec_schema d)) gs e
              \<and> dec_raw (snd r) = render_line gs \<and> dec_fields (snd r) = field_marks (dec_record_start d) 0 gs)
        else csv_rest d = [] \<and> csv_rest (snd r) = [] \<and> dec_raw d = [])"

lemma adds_byte_action: "adds_byte state b \<Longrightarrow> (\<exists>s. scan_action state b = ScanTo s) \<or> (\<exists>w. scan_action state b = ScanError w)"
  by (cases state) (auto simp: adds_byte_def scan_action_def)

text \<open>A byte that the limits refuse is in a record that they refuse.\<close>

lemma refused_byte:
  assumes "scanning d state f fs" and "csv_rest d = b # bs" and "scan_bytes state f fs (b # bs) = Some (gs, e, later)"
    and "record_fits (dec_limits d) (length (dec_schema d)) gs e"
  shows "length (dec_raw d) \<noteq> limit_record (dec_limits d)"
    and "adds_byte state b \<Longrightarrow> length (csv_content f) \<noteq> limit_field (dec_limits d)"
    and "length fs \<noteq> length (dec_schema d)"
proof -
  have sf: "state_fits state f" "\<forall>g \<in> set fs. text_ok g" using assms(1) by (simp_all add: scanning_def)
  note s = scan_bytes_sound [OF assms(3) sf]
  have "length (dec_raw d) + length (b # bs) = length (render_line gs @ e) + length later"
    using arg_cong [OF s(1), of length] assms(1) by (simp add: scanning_def)
  with s(6) assms(4) show "length (dec_raw d) \<noteq> limit_record (dec_limits d)" by (auto simp: record_fits_def)
  from s(5) assms(4) show "length fs \<noteq> length (dec_schema d)" by (auto simp: record_fits_def)
  assume adds: "adds_byte state b"
  then consider s' where "scan_action state b = ScanTo s'" | w where "scan_action state b = ScanError w" using adds_byte_action by blast
  then show "length (csv_content f) \<noteq> limit_field (dec_limits d)"
  proof cases
    case 1
    note step = scan_step_to [OF 1 sf(1)]
    have "scan_bytes s' (extend_text state b f) fs bs = Some (gs, e, later)" using assms(3) 1 by simp
    from scan_bytes_sound(5) [OF this step(1) sf(2)] step(3) adds assms(4) show ?thesis by (auto simp: record_fits_def)
  qed (use assms(3) in simp)
qed

lemma shown_nonempty: "state = ScanQuoted \<or> state = ScanReturn \<Longrightarrow> shown state f \<noteq> []"
  by (auto simp: shown_def)

text \<open>At the end of the input.\<close>

lemma scan_end_answers:
  assumes "scanning d state f fs" and "csv_rest d = []"
  shows "answers (scan_granted d state f fs) (scan_end state (length (render_before fs)) (quoted_text f) d) (scan_result d state f fs)"
proof (cases "state = ScanQuoted \<or> state = ScanReturn")
  case True
  with assms shown_nonempty [OF True] show ?thesis by (auto simp: scan_end_def scan_granted_def scanning_def)
next
  case False
  then have sb: "scan_bytes state f fs [] = Some (fs @ [f], [], [])" and raw: "dec_raw d = render_before fs @ render_text f"
    using assms(1) by (simp_all add: scanning_def shown_end)
  show ?thesis
  proof (cases "dec_raw d = []")
    case True
    with False assms show ?thesis by (auto simp: scan_end_def scan_result_def scanning_def)
  next
    case nonempty: False
    have fin: "answers (length (fs @ [f]) = length (dec_schema d) \<and> utf8 (render_line (fs @ [f])))
        (finish_scan (length (render_before fs)) (length (render_before fs) + length (render_text f)) (quoted_text f) d)
        (\<lambda>(found, d'). found \<and> length (fs @ [f]) = length (dec_schema d) \<and> utf8 (render_line (fs @ [f]))
          \<and> d' = d\<lparr>dec_fields := field_marks (dec_record_start d) 0 (fs @ [f]), dec_raw := render_line (fs @ [f])\<rparr>)"
      by (rule finish_scan_answers) (use assms(1) raw in \<open>simp_all add: scanning_def\<close>)
    have stop: "length (dec_raw d) = length (render_before fs) + length (render_text f)" using raw by simp
    show ?thesis
      unfolding scan_end_def using False nonempty stop
      by (simp, intro answers_weaken [OF fin])
        (use assms sb raw nonempty in \<open>auto simp: scan_granted_def scan_result_def record_fits_def scanning_def input_ok_def input_fits_def csv_rest_def render_line_snoc\<close>)
  qed
qed

section \<open>A byte\<close>

lemma scan_step_transfer:
  assumes "byte_read d (Some b, d1)" and "csv_kept d2 = csv_kept d1" and "csv_rest d2 = csv_rest d1" and "input_fits d2 = input_fits d1"
    and "dec_offset d2 = dec_offset d1" and "dec_raw d2 \<noteq> []"
    and "scan_bytes state f fs (b # csv_rest d1) = scan_bytes state' f' fs' (csv_rest d1)"
  shows "scan_granted d state f fs \<Longrightarrow> scan_granted d2 state' f' fs'"
    and "scan_result d2 state' f' fs' r \<Longrightarrow> scan_result d state f fs r"
proof -
  have kept: "csv_kept d2 = csv_kept d" using assms(1,2) by (simp add: byte_read_def)
  note same = csv_kept_fields [OF kept]
  have rest: "csv_rest d = b # csv_rest d2" and fits: "input_fits d \<Longrightarrow> input_fits d2"
    and offset: "dec_offset d2 + length (csv_rest d2) = dec_offset d + length (csv_rest d)"
    using assms(1,3,4,5) by (simp_all add: byte_read_def)
  have scan: "scan_bytes state f fs (csv_rest d) = scan_bytes state' f' fs' (csv_rest d2)" using assms(7) rest assms(3) by simp
  show "scan_granted d2 state' f' fs'" if "scan_granted d state f fs"
    using that fits rest unfolding scan_granted_def scan same by auto
  show "scan_result d state f fs r" if "scan_result d2 state' f' fs' r"
    using that fits kept offset rest assms(6) unfolding scan_result_def scan same by (auto split: if_splits)
qed

lemma accept_byte_answers:
  assumes "scanning d state f fs" and "byte_read d (Some b, d1)"
  shows "answers (scan_granted d state f fs) (Some (accept_byte state (length (csv_content f)) b d1))
    (\<lambda>(c, d2). d2 = d1\<lparr>dec_raw := dec_raw d @ [b]\<rparr> \<and> c = length (csv_content f) + of_bool (adds_byte state b)
      \<and> length (dec_raw d) < limit_record (dec_limits d) \<and> (adds_byte state b \<longrightarrow> length (csv_content f) < limit_field (dec_limits d)))"
proof -
  have rest: "csv_rest d = b # csv_rest d1" and raw: "dec_raw d1 = dec_raw d" and limits: "dec_limits d1 = dec_limits d"
    using assms(2) csv_kept_fields(2) [of d1 d] by (simp_all add: byte_read_def)
  have bounds: "length (dec_raw d) \<le> limit_record (dec_limits d)" "length (csv_content f) \<le> limit_field (dec_limits d)"
    using assms(1) unfolding scanning_def by (blast, simp)
  have "\<exists>gs e later. scan_bytes state f fs (b # csv_rest d1) = Some (gs, e, later) \<and> record_fits (dec_limits d) (length (dec_schema d)) gs e"
    if "scan_granted d state f fs" using that rest by (auto simp: scan_granted_def)
  with refused_byte [OF assms(1) rest] bounds show ?thesis
    by (auto simp: accept_byte_def raw limits)
qed

lemma finish_field_answers:
  assumes "scanning d state f fs" and "byte_read d (Some b, d1)" and "d2 = d1\<lparr>dec_raw := dec_raw d @ [b]\<rparr>"
    and "scan_action state b = ScanField"
  shows "answers (scan_granted d state f fs) (Some (finish_field (length (render_before fs)) (length (dec_raw d)) (quoted_text f) d2))
    (\<lambda>d3. d3 = d2\<lparr>dec_fields := field_marks (dec_record_start d) 0 (fs @ [f])\<rparr> \<and> length fs < length (dec_schema d))"
proof -
  have sf: "state_fits state f" using assms(1) by (simp add: scanning_def)
  have raw: "dec_raw d = render_before fs @ render_text f" using assms(1) scan_step_field(2) [OF assms(4) sf] by (simp add: scanning_def)
  have rest: "csv_rest d = b # csv_rest d1" and same: "dec_schema d1 = dec_schema d" "dec_record_start d1 = dec_record_start d"
    and fields: "dec_fields d1 = dec_fields d" using assms(2) csv_kept_fields [of d1 d] by (simp_all add: byte_read_def)
  have "\<exists>gs e later. scan_bytes state f fs (b # csv_rest d1) = Some (gs, e, later) \<and> record_fits (dec_limits d) (length (dec_schema d)) gs e"
    if "scan_granted d state f fs" using that rest by (auto simp: scan_granted_def)
  with refused_byte(3) [OF assms(1) rest] assms(1) show ?thesis
    by (auto simp: finish_field_def assms(3) same fields field_marks_snoc raw scanning_def)
qed

lemma scan_record_end:
  assumes "scanning d state f fs" and "byte_read d (Some b, d1)" and "d2 = d1\<lparr>dec_raw := dec_raw d @ [b]\<rparr>"
    and "scan_action state b = ScanRecord k" and "length (dec_raw d) < limit_record (dec_limits d)"
  shows "k \<le> length (dec_raw d)"
    and "answers (scan_granted d state f fs)
      (finish_scan (length (render_before fs)) (length (dec_raw d) - k) (quoted_text f) d2) (scan_result d state f fs)"
proof -
  have sf: "state_fits state f" and ok: "length fs \<le> length (dec_schema d)" using assms(1) by (simp_all add: scanning_def)
  note step = scan_step_record [OF assms(4) sf]
  have raw: "dec_raw d = render_before fs @ shown state f" and raw2: "dec_raw d2 = dec_raw d @ [b]"
    using assms(1,3) by (simp_all add: scanning_def)
  have stop: "length (dec_raw d) = length (render_before fs) + length (render_text f) + k"
    using arg_cong [OF step(4), of length] step(3) raw by (auto split: if_splits)
  then show "k \<le> length (dec_raw d)" by simp
  have kept: "csv_kept d2 = csv_kept d" using assms(2,3) by (simp add: byte_read_def)
  note same = csv_kept_fields [OF kept]
  have rest: "csv_rest d = b # csv_rest d1" using assms(2) by (simp add: byte_read_def)
  define e :: "u8 list" where "e = (if k = 0 then [10] else [13, 10])"
  have all: "dec_raw d @ [b] = render_before fs @ render_text f @ e" using step(4) raw by (simp add: e_def)
  have sb: "scan_bytes state f fs (csv_rest d) = Some (fs @ [f], e, csv_rest d1)" using assms(4) rest by (simp add: e_def)
  have fits: "record_fits (dec_limits d) (length (dec_schema d)) (fs @ [f]) e \<longleftrightarrow>
      length (fs @ [f]) = length (dec_schema d) \<and> utf8 (render_line (fs @ [f]))"
  proof -
    have "length (render_line (fs @ [f]) @ e) = Suc (length (dec_raw d))"
      using arg_cong [OF all, of length] by (simp add: render_line_snoc)
    then show ?thesis using assms(1,5) by (auto simp: record_fits_def scanning_def)
  qed
  have "answers (length (fs @ [f]) = length (dec_schema d2) \<and> utf8 (render_line (fs @ [f])))
      (finish_scan (length (render_before fs)) (length (render_before fs) + length (render_text f)) (quoted_text f) d2)
      (\<lambda>(found, d'). found \<and> length (fs @ [f]) = length (dec_schema d2) \<and> utf8 (render_line (fs @ [f]))
        \<and> d' = d2\<lparr>dec_fields := field_marks (dec_record_start d2) 0 (fs @ [f]), dec_raw := render_line (fs @ [f])\<rparr>)"
  proof (rule finish_scan_answers)
    show "dec_fields d2 = field_marks (dec_record_start d2) 0 fs"
      using assms(1,2,3) same(3) by (simp add: scanning_def byte_read_def)
    show "length fs \<le> length (dec_schema d2)" using ok same(1) by simp
    show "take (length (render_before fs) + length (render_text f)) (dec_raw d2) = render_before fs @ render_text f"
      unfolding raw2 all by simp
  qed
  then show "answers (scan_granted d state f fs)
      (finish_scan (length (render_before fs)) (length (dec_raw d) - k) (quoted_text f) d2) (scan_result d state f fs)"
    unfolding stop add_diff_cancel_right'
  proof (rule answers_weaken)
    assume "scan_granted d state f fs"
    then show "length (fs @ [f]) = length (dec_schema d2) \<and> utf8 (render_line (fs @ [f]))"
      using sb rest fits same(1) by (simp add: scan_granted_def)
  next
    fix r :: "bool \<times> csv_decoder"
    assume "case r of (found, d') \<Rightarrow> found \<and> length (fs @ [f]) = length (dec_schema d2) \<and> utf8 (render_line (fs @ [f]))
        \<and> d' = d2\<lparr>dec_fields := field_marks (dec_record_start d2) 0 (fs @ [f]), dec_raw := render_line (fs @ [f])\<rparr>"
    then have r: "fst r" "length (fs @ [f]) = length (dec_schema d)" "utf8 (render_line (fs @ [f]))"
      "snd r = d2\<lparr>dec_fields := field_marks (dec_record_start d) 0 (fs @ [f]), dec_raw := render_line (fs @ [f])\<rparr>"
      using same(1,3) by auto
    have after: "input_ok (snd r)" "input_fits d \<Longrightarrow> input_fits (snd r)" "csv_rest (snd r) = csv_rest d1"
      "dec_offset (snd r) = dec_offset d + length (csv_rest d) - length (csv_rest d1)"
      using assms(2,3) unfolding r(4) byte_read_def by simp_all
    with r sb rest fits kept show "scan_result d state f fs r" by (simp add: scan_result_def)
  qed
qed

lemma scanning_next:
  assumes "scanning d state f fs" and "byte_read d (Some b, d1)" and "d2 = d1\<lparr>dec_raw := dec_raw d @ [b]\<rparr>"
    and "scan_action state b = ScanTo next_state" and "length (dec_raw d) < limit_record (dec_limits d)"
    and "adds_byte state b \<longrightarrow> length (csv_content f) < limit_field (dec_limits d)"
  shows "scanning d2 next_state (extend_text state b f) fs"
proof -
  have sf: "state_fits state f" using assms(1) by (simp add: scanning_def)
  have kept: "csv_kept d2 = csv_kept d" using assms(2,3) by (simp add: byte_read_def)
  have "length (csv_content (extend_text state b f)) \<le> limit_field (dec_limits d)"
    using assms(1,6) scan_step_to(3) [OF assms(4) sf] by (auto simp: scanning_def)
  with assms csv_kept_fields [OF kept] scan_step_to(1,2) [OF assms(4) sf] show ?thesis
    by (simp add: scanning_def byte_read_def)
qed

lemma scanning_field:
  assumes "scanning d state f fs" and "byte_read d (Some b, d1)"
    and "d3 = d1\<lparr>dec_raw := dec_raw d @ [b], dec_fields := field_marks (dec_record_start d) 0 (fs @ [f])\<rparr>"
    and "scan_action state b = ScanField" and "length (dec_raw d) < limit_record (dec_limits d)" and "length fs < length (dec_schema d)"
  shows "scanning d3 ScanStart (PlainText []) (fs @ [f])" and "length (render_before (fs @ [f])) = length (dec_raw d) + 1"
proof -
  have sf: "state_fits state f" using assms(1) by (simp add: scanning_def)
  have kept: "csv_kept d3 = csv_kept d" using assms(2,3) by (simp add: byte_read_def)
  note step = scan_step_field [OF assms(4) sf]
  have "dec_raw d @ [b] = render_before (fs @ [f])" using assms(1) step by (simp add: scanning_def)
  with assms csv_kept_fields [OF kept] sf show "scanning d3 ScanStart (PlainText []) (fs @ [f])"
    by (auto simp: scanning_def byte_read_def state_fits_def shown_def)
  show "length (render_before (fs @ [f])) = length (dec_raw d) + 1"
    using arg_cong [OF \<open>dec_raw d @ [b] = render_before (fs @ [f])\<close>, of length] by simp
qed

section \<open>A record\<close>

lemma scanning_input_end:
  assumes "scanning d state f fs" and "byte_read d (None, d1)"
  shows "scanning d1 state f fs" and "csv_rest d1 = []"
    and "scan_granted d state f fs \<Longrightarrow> scan_granted d1 state f fs" and "scan_result d1 state f fs r \<Longrightarrow> scan_result d state f fs r"
proof -
  have kept: "csv_kept d1 = csv_kept d" and b: "input_ok d1" "dec_raw d1 = dec_raw d" "dec_fields d1 = dec_fields d"
    "csv_rest d = []" "csv_rest d1 = []" "dec_offset d1 = dec_offset d" "input_fits d \<Longrightarrow> input_fits d1"
    using assms(2) by (simp_all add: byte_read_def)
  note same = csv_kept_fields [OF kept]
  show "csv_rest d1 = []" by (rule b)
  show "scanning d1 state f fs" using assms(1) b(1) unfolding scanning_def same b(2,3) by blast
  show "scan_granted d1 state f fs" if "scan_granted d state f fs"
    using that b unfolding scan_granted_def same by auto
  show "scan_result d state f fs r" if "scan_result d1 state f fs r"
    using that b kept unfolding scan_result_def same by (auto split: if_splits)
qed

lemma scan_record_answers:
  assumes "scanning d state f fs" and "limit_record (dec_limits d) + 2 \<le> n + length (dec_raw d)"
  shows "answers (scan_granted d state f fs)
    (scan_record n state (length (render_before fs)) (quoted_text f) (length (csv_content f)) d) (scan_result d state f fs)"
  using assms
proof (induction n arbitrary: d state f fs)
  case 0
  then show ?case by (auto simp only: scanning_def)
next
  case (Suc n)
  have sf: "state_fits state f" and ok: "input_ok d" using Suc.prems(1) by (simp_all add: scanning_def)
  have read: "answers (scan_granted d state f fs) (Some (next_byte d)) (byte_read d)"
    by (rule answers_weaken [OF next_byte_answers [OF ok]]) (simp_all add: scan_granted_def)
  show ?case
    unfolding scan_record.simps
  proof (rule answers_following [OF read], goal_cases)
    case (1 r)
    obtain input d1 where r: "r = (input, d1)" by (cases r)
    show ?case
    proof (cases input)
      case None
      note e = scanning_input_end [OF Suc.prems(1) 1 [unfolded r None]]
      show ?thesis
        using answers_weaken [OF scan_end_answers [OF e(1,2)] e(3) e(4)] by (simp add: r None)
    next
      case (Some b)
      note got = 1 [unfolded r Some]
      have raw1: "dec_raw d1 = dec_raw d" using got by (simp add: byte_read_def)
      show ?thesis
        unfolding r Some prod.case option.case Let_def raw1
      proof (rule answers_following [OF accept_byte_answers [OF Suc.prems(1) got]], goal_cases)
        case (1 x)
        obtain c d2 where x: "x = (c, d2)" by (cases x)
        have d2: "d2 = d1\<lparr>dec_raw := dec_raw d @ [b]\<rparr>" and c: "c = length (csv_content f) + of_bool (adds_byte state b)"
          and below: "length (dec_raw d) < limit_record (dec_limits d)"
          and room: "adds_byte state b \<longrightarrow> length (csv_content f) < limit_field (dec_limits d)" using 1 by (simp_all add: x)
        have limits: "dec_limits d2 = dec_limits d" using got d2 csv_kept_fields(2) [of d1 d] by (simp add: byte_read_def)
        have after: "csv_kept d2 = csv_kept d1" "csv_rest d2 = csv_rest d1" "input_fits d2 = input_fits d1" "dec_offset d2 = dec_offset d1"
          "dec_raw d2 \<noteq> []" using d2 by simp_all
        have rest: "csv_rest d = b # csv_rest d1" using got by (simp add: byte_read_def)
        show ?case
        proof (cases "scan_action state b")
          case (ScanTo next_state)
          have "scan_bytes state f fs (b # csv_rest d1) = scan_bytes next_state (extend_text state b f) fs (csv_rest d1)" using ScanTo by simp
          note t = scan_step_transfer [OF got after this]
          have "limit_record (dec_limits d2) + 2 \<le> n + length (dec_raw d2)" using Suc.prems(2) limits d2 by simp
          note ih = Suc.IH [OF scanning_next [OF Suc.prems(1) got d2 ScanTo below room] this]
          have "answers (scan_granted d state f fs) (scan_record n next_state (length (render_before fs))
              (quoted_text f \<or> state = ScanStart \<and> b = 34) c d2) (scan_result d state f fs)"
            using answers_weaken [OF ih t] scan_step_to(3,4) [OF ScanTo sf] c by simp
          with ScanTo show ?thesis by (simp add: x)
        next
          case ScanField
          have position: "length (dec_raw d) = length (render_before fs) + length (render_text f)"
            using Suc.prems(1) scan_step_field(2) [OF ScanField sf] by (simp add: scanning_def)
          have "answers (scan_granted d state f fs) (following (Some (finish_field (length (render_before fs)) (length (dec_raw d)) (quoted_text f) d2))
              (\<lambda>d. scan_record n ScanStart (length (dec_raw d1) + 1) False 0 d)) (scan_result d state f fs)"
          proof (rule answers_following [OF finish_field_answers [OF Suc.prems(1) got d2 ScanField]], goal_cases)
            case (1 d3)
            have d3: "d3 = d1\<lparr>dec_raw := dec_raw d @ [b], dec_fields := field_marks (dec_record_start d) 0 (fs @ [f])\<rparr>"
              and room: "length fs < length (dec_schema d)" using 1 d2 by simp_all
            note s3 = scanning_field [OF Suc.prems(1) got d3 ScanField below room]
            have after3: "csv_kept d3 = csv_kept d1" "csv_rest d3 = csv_rest d1" "input_fits d3 = input_fits d1" "dec_offset d3 = dec_offset d1"
              "dec_raw d3 \<noteq> []" using d3 by simp_all
            have "scan_bytes state f fs (b # csv_rest d1) = scan_bytes ScanStart (PlainText []) (fs @ [f]) (csv_rest d1)" using ScanField by simp
            note t = scan_step_transfer [OF got after3 this]
            have "limit_record (dec_limits d3) + 2 \<le> n + length (dec_raw d3)"
              using Suc.prems(2) d3 got csv_kept_fields(2) [of d1 d] by (simp add: byte_read_def)
            from answers_weaken [OF Suc.IH [OF s3(1) this] t] s3(2) show ?case by (simp add: raw1)
          qed
          with ScanField show ?thesis by (simp add: x raw1)
        next
          case (ScanRecord k)
          note e = scan_record_end [OF Suc.prems(1) got d2 ScanRecord below]
          then show ?thesis by (simp add: x ScanRecord)
        next
          case (ScanError what)
          then show ?thesis by (simp add: x scan_granted_def rest)
        qed
      qed
    qed
  qed
qed

text \<open>Reading a record of a decoder: the first one of the remaining bytes, or their end.\<close>

definition record_read :: "csv_decoder \<Rightarrow> bool \<times> csv_decoder \<Rightarrow> bool" where
  "record_read d r \<longleftrightarrow>
     csv_kept (snd r) = csv_kept (d\<lparr>dec_record_start := dec_offset d\<rparr>) \<and> input_ok (snd r) \<and> (input_fits d \<longrightarrow> input_fits (snd r))
     \<and> dec_offset (snd r) + length (csv_rest (snd r)) = dec_offset d + length (csv_rest d)
     \<and> (if fst r
        then csv_rest d \<noteq> []
          \<and> (\<exists>fs e. first_record (csv_rest d) fs e (csv_rest (snd r)) \<and> record_fits (dec_limits d) (length (dec_schema d)) fs e
              \<and> dec_raw (snd r) = render_line fs \<and> dec_fields (snd r) = field_marks (dec_offset d) 0 fs)
        else csv_rest d = [] \<and> csv_rest (snd r) = [])"

lemma read_csv_record_answers:
  assumes "input_ok d"
  shows "answers (input_fits d \<and> (csv_rest d = []
        \<or> (\<exists>fs e later. first_record (csv_rest d) fs e later \<and> record_fits (dec_limits d) (length (dec_schema d)) fs e)))
      (read_csv_record d) (record_read d)"
proof -
  define d0 where "d0 = d\<lparr>dec_raw := [], dec_fields := [], dec_record_start := dec_offset d\<rparr>"
  have start: "scanning d0 ScanStart (PlainText []) []"
    using assms by (simp add: scanning_def state_fits_def shown_def d0_def input_ok_def csv_rest_def)
  have same: "csv_rest d0 = csv_rest d" "input_fits d0 = input_fits d" "dec_raw d0 = []" "dec_offset d0 = dec_offset d"
    "dec_limits d0 = dec_limits d" "dec_schema d0 = dec_schema d" "dec_record_start d0 = dec_offset d"
    "csv_kept d0 = csv_kept (d\<lparr>dec_record_start := dec_offset d\<rparr>)"
    by (simp_all add: d0_def csv_rest_def input_fits_def csv_kept_def)
  have "answers (scan_granted d0 ScanStart (PlainText []) []) (scan_record (limit_record (dec_limits d0) + 2) ScanStart
      (length (render_before [])) (quoted_text (PlainText [])) (length (csv_content (PlainText []))) d0)
      (scan_result d0 ScanStart (PlainText []) [])"
    by (rule scan_record_answers [OF start]) simp
  then have scan: "answers (scan_granted d0 ScanStart (PlainText []) []) (read_csv_record d) (scan_result d0 ScanStart (PlainText []) [])"
    by (simp add: read_csv_record_def d0_def)
  show ?thesis
    by (rule answers_weaken [OF scan])
      (auto simp: scan_granted_def scan_result_def record_read_def same first_record_scan split: if_splits)
qed

end
