(* ===== verification/Csv_Fields.thy ===== *)
theory Csv_Fields
  imports Csv_Scanning
begin

text \<open>Decoding the marked fields gives the contents of their texts; typing them gives the cells.\<close>

section \<open>Contents\<close>

lemma csv_source_poll:
  "answers (steady src) (Some (csv_poll src)) (\<lambda>src'. src_bytes src' = src_bytes src \<and> (steady src \<longrightarrow> steady src'))"
  using csv_poll_answers [of 16 src] by (simp add: steady_def)

definition decoded_to :: "u8 list \<Rightarrow> u8 list \<Rightarrow> csv_source \<Rightarrow> u8 list \<times> csv_source \<Rightarrow> bool" where
  "decoded_to decoded c src r \<longleftrightarrow>
     fst r = decoded @ c \<and> src_bytes (snd r) = src_bytes src \<and> (steady src \<longrightarrow> steady (snd r))"

lemma decode_step:
  assumes "\<And>mid. src_bytes mid = src_bytes src \<Longrightarrow> (steady src \<longrightarrow> steady mid) \<Longrightarrow>
      answers (steady mid) (Some (decode_bytes quoted bs (decoded @ p) mid)) (decoded_to (decoded @ p) c mid)"
  shows "answers (steady src) (Some (attempt (csv_poll src) (decode_bytes quoted bs (decoded @ p)))) (decoded_to decoded (p @ c) src)"
  unfolding attempt_following
proof (rule answers_following [OF csv_source_poll], goal_cases)
  case (1 mid)
  with assms [of mid] show ?case by (auto elim!: answers_weaken simp: decoded_to_def)
qed

lemma decode_plain: "answers (steady src) (Some (decode_bytes False c decoded src)) (decoded_to decoded c src)"
proof (induction c arbitrary: decoded src rule: length_induct)
  case (1 c)
  show ?case
  proof (cases "c = []")
    case True
    then show ?thesis by (simp add: decode_bytes.simps [of _ "[]"] decoded_to_def)
  next
    case False
    define p where "p = take csv_read_bytes c"
    have "length (drop (length p) c) < length c" using False by (cases c) (simp_all add: p_def csv_read_bytes_def)
    note ih = 1 [rule_format, OF this]
    have c: "c = p @ drop (length p) c" by (simp add: p_def min_def)
    have "answers (steady src) (Some (attempt (csv_poll src) (decode_bytes False (drop (length p) c) (decoded @ p))))
        (decoded_to decoded (p @ drop (length p) c) src)"
      by (rule decode_step) (rule ih)
    with c False show ?thesis
      by (subst decode_bytes.simps) (simp add: Let_def p_def [symmetric])
  qed
qed

lemma decode_quoted: "answers (steady src) (Some (decode_bytes True (escape_quotes c) decoded src)) (decoded_to decoded c src)"
proof (induction c arbitrary: decoded src rule: length_induct)
  case (1 c)
  show ?case
  proof (cases c)
    case Nil
    then show ?thesis by (simp add: decode_bytes.simps [of _ "[]"] decoded_to_def)
  next
    case (Cons b bs)
    show ?thesis
    proof (cases "b = 34")
      case True
      have "answers (steady src) (Some (attempt (csv_poll src) (decode_bytes True (escape_quotes bs) (decoded @ [34]))))
          (decoded_to decoded ([34] @ bs) src)"
        by (rule decode_step) (use 1 Cons in simp)
      with True Cons show ?thesis by (subst decode_bytes.simps) simp
    next
      case False
      define p where "p = takeWhile (\<lambda>b. b \<noteq> 34) (take csv_read_bytes (escape_quotes c))"
      have pre: "escape_quotes c = p @ drop (length p) (escape_quotes c)" and nq: "34 \<notin> set p"
      proof -
        have "take csv_read_bytes (escape_quotes c) = p @ dropWhile (\<lambda>b. b \<noteq> 34) (take csv_read_bytes (escape_quotes c))"
          unfolding p_def by simp
        then have "escape_quotes c = p @ dropWhile (\<lambda>b. b \<noteq> 34) (take csv_read_bytes (escape_quotes c)) @ drop csv_read_bytes (escape_quotes c)"
          by (metis append_assoc append_take_drop_id)
        then show "escape_quotes c = p @ drop (length p) (escape_quotes c)" by (metis append_eq_conv_conj)
        show "34 \<notin> set p" unfolding p_def by (auto dest: set_takeWhileD)
      qed
      then obtain c' where c': "c = p @ c'" "drop (length p) (escape_quotes c) = escape_quotes c'" using escape_prefix by metis
      have "p \<noteq> []" using False Cons by (simp add: p_def csv_read_bytes_def)
      then have "length c' < length c" using c'(1) by simp
      note ih = 1 [rule_format, OF this]
      have "answers (steady src) (Some (attempt (csv_poll src) (decode_bytes True (escape_quotes c') (decoded @ p))))
          (decoded_to decoded (p @ c') src)"
        by (rule decode_step) (rule ih)
      moreover have "decode_bytes True (escape_quotes c) decoded src = attempt (csv_poll src) (decode_bytes True (escape_quotes c') (decoded @ p))"
      proof -
        have "hd (escape_quotes c) \<noteq> 34" "escape_quotes c \<noteq> []" using False Cons by simp_all
        then show ?thesis by (subst decode_bytes.simps) (simp add: Let_def p_def [symmetric] c'(2))
      qed
      ultimately show ?thesis using c'(1) by simp
    qed
  qed
qed

section \<open>Fields\<close>

definition field_holds :: "u8 list \<Rightarrow> csv_field \<Rightarrow> csv_text \<Rightarrow> bool" where
  "field_holds all f t \<longleftrightarrow>
     csv_start f \<le> csv_end f \<and> csv_end f \<le> length all \<and> take (csv_end f - csv_start f) (drop (csv_start f) all) = csv_content t
     \<and> csv_quoted f = quoted_text t \<and> utf8 (csv_content t)"

lemma decode_text:
  "answers (steady src) (Some (decode_bytes (quoted_text f)
      (take (length (render_text f) - of_bool (quoted_text f) - of_bool (quoted_text f)) (drop (of_bool (quoted_text f)) (render_text f @ raw)))
      decoded src)) (decoded_to decoded (csv_content f) src)"
  using decode_plain decode_quoted by (cases f) simp_all

text \<open>Every field is cut out of the record at its marks, and its content joins the decoded bytes.\<close>

lemma decode_each_answers:
  assumes "raw = before @ render_line fs" and "\<forall>f \<in> set fs. utf8 (csv_content f)"
  shows "answers (steady src) (decode_each (field_marks r (length before) fs) raw decoded src)
    (\<lambda>(marks, all, src'). all = decoded @ concat (map csv_content fs) \<and> list_all2 (field_holds all) marks fs
      \<and> map csv_offset marks = map csv_offset (field_marks r (length before) fs)
      \<and> src_bytes src' = src_bytes src \<and> (steady src \<longrightarrow> steady src'))"
  using assms
proof (induction fs arbitrary: before decoded src)
  case Nil
  then show ?case by simp
next
  case (Cons f fs)
  define tail where "tail = drop (length (render_text f)) (render_line (f # fs))"
  have line: "render_line (f # fs) = render_text f @ tail" unfolding tail_def by (cases fs) simp_all
  have quotes: "2 * of_bool (quoted_text f) \<le> length (render_text f)" by (cases f) simp_all
  define mark where "mark = \<lparr>csv_offset = r + length before, csv_start = length before,
    csv_end = length before + length (render_text f), csv_quoted = quoted_text f\<rparr>"
  have piece: "take (csv_end mark - of_bool (csv_quoted mark) - (csv_start mark + of_bool (csv_quoted mark)))
      (drop (csv_start mark + of_bool (csv_quoted mark)) raw) =
      take (length (render_text f) - of_bool (quoted_text f) - of_bool (quoted_text f)) (drop (of_bool (quoted_text f)) (render_text f @ tail))"
    by (simp add: Cons.prems line mark_def add.commute diff_diff_eq)
  have inside: "\<not> (csv_end mark < of_bool (csv_quoted mark) \<or> length raw < csv_end mark - of_bool (csv_quoted mark))"
    using quotes by (simp add: Cons.prems line mark_def)
  have tail_ok: "answers (steady mid) (decode_each (field_marks r (length before + length (render_text f) + 1) fs) raw decoded' mid)
    (\<lambda>(marks, all, src'). all = decoded' @ concat (map csv_content fs) \<and> list_all2 (field_holds all) marks fs
      \<and> map csv_offset marks = map csv_offset (field_marks r (length before + length (render_text f) + 1) fs)
      \<and> src_bytes src' = src_bytes mid \<and> (steady mid \<longrightarrow> steady src'))" for mid decoded'
  proof (cases fs)
    case (Cons g gs)
    have "raw = (before @ render_text f @ [44]) @ render_line fs" by (simp add: \<open>raw = before @ render_line (f # fs)\<close> Cons)
    from Cons.IH [OF this] Cons.prems(2) show ?thesis by simp
  qed simp
  have marks: "field_marks r (length before) (f # fs) = mark # field_marks r (length before + length (render_text f) + 1) fs"
    by (simp add: mark_def)
  have cut: "answers (steady src) (Some (decode_bytes (csv_quoted mark) (take (csv_end mark - of_bool (csv_quoted mark)
      - (csv_start mark + of_bool (csv_quoted mark))) (drop (csv_start mark + of_bool (csv_quoted mark)) raw)) decoded src))
      (decoded_to decoded (csv_content f) src)"
    using decode_text [of src f tail decoded] unfolding piece by (simp add: mark_def)
  show ?case
    unfolding marks decode_each.simps Let_def if_not_P [OF inside]
  proof (rule answers_following [OF cut], goal_cases)
    case (1 x)
    obtain decoded' mid where x: "x = (decoded', mid)" by (cases x)
    with 1 have d': "decoded' = decoded @ csv_content f" "src_bytes mid = src_bytes src" "steady src \<Longrightarrow> steady mid"
      by (auto simp: decoded_to_def)
    show ?case
      unfolding x prod.case
    proof (rule answers_following [OF answers_grant [OF tail_ok [of mid decoded'] d'(3)]], goal_cases)
      case (2 y)
      obtain ms all src' where y: "y = (ms, all, src')" by (cases y)
      with 2 have ms: "all = decoded' @ concat (map csv_content fs)" "list_all2 (field_holds all) ms fs"
        "map csv_offset ms = map csv_offset (field_marks r (length before + length (render_text f) + 1) fs)"
        "src_bytes src' = src_bytes mid" "steady mid \<longrightarrow> steady src'" by auto
      have "field_holds all (mark\<lparr>csv_start := length decoded, csv_end := length decoded'\<rparr>) f"
        using Cons.prems(2) by (simp add: field_holds_def mark_def ms(1) d'(1))
      with ms d' show ?case by (auto simp: y mark_def)
    qed auto
  qed
qed

text \<open>The decoded record: its fields hold the texts, in order.\<close>

definition record_decoded :: "csv_decoder \<Rightarrow> csv_text list \<Rightarrow> csv_decoder \<Rightarrow> bool" where
  "record_decoded d fs d' \<longleftrightarrow>
     d' = d\<lparr>dec_fields := dec_fields d', dec_decoded := dec_decoded d', dec_source := dec_source d'\<rparr>
     \<and> list_all2 (field_holds (dec_decoded d')) (dec_fields d') fs
     \<and> src_bytes (dec_source d') = src_bytes (dec_source d) \<and> (steady (dec_source d) \<longrightarrow> steady (dec_source d'))"

lemma decode_fields_answers:
  assumes "dec_raw d = render_line fs" and "dec_fields d = field_marks r 0 fs" and "utf8 (render_line fs)"
  shows "answers (steady (dec_source d)) (decode_fields d) (record_decoded d fs)"
proof -
  have "dec_raw d = [] @ render_line fs" using assms(1) by simp
  note each = decode_each_answers [OF this ballI [OF utf8_line [OF assms(3)]], of "dec_source d" r "[]"]
  show ?thesis
    unfolding decode_fields_def assms(2)
    by (rule answers_following, rule each [simplified]) (auto simp: record_decoded_def)
qed

end
