(* ===== verification/Csv_Rows.thy ===== *)
theory Csv_Rows
  imports Csv_Fields
begin

text \<open>Typed rows: the cells of a record under the header's mapping, and their places in a batch.\<close>

section \<open>Typed texts\<close>

text \<open>An unquoted \<open>\N\<close> is the null of a nullable column; other texts are read by the column's type.\<close>

definition typed_text :: "column_declaration \<Rightarrow> csv_text \<Rightarrow> cell option" where
  "typed_text c t =
     (if t = PlainText null_text then if decl_nullable c then Some NullCell else None
      else
        case decl_type c of
          Int64Type \<Rightarrow> map_option Int64Cell (parse_i64 (csv_content t))
        | DoubleType \<Rightarrow> map_option DoubleCell (csv_double (csv_content t))
        | DateType \<Rightarrow> map_option DateCell (parse_date (csv_content t))
        | StringType \<Rightarrow> Some (StringCell (csv_content t)))"

definition cell_inside :: "u8 list \<Rightarrow> input_cell \<Rightarrow> bool" where
  "cell_inside text v \<longleftrightarrow> (case v of TextInput start stop \<Rightarrow> start \<le> stop \<and> stop \<le> length text \<and> utf8 (take (stop - start) (drop start text)) | _ \<Rightarrow> True)"

definition input_text :: "input_cell \<Rightarrow> nat" where
  "input_text v = (case v of TextInput start stop \<Rightarrow> stop - start | _ \<Rightarrow> 0)"

definition cell_text :: "cell \<Rightarrow> nat" where
  "cell_text c = (case c of StringCell s \<Rightarrow> length s | _ \<Rightarrow> 0)"

lemma cell_text_input: "cell_inside text v \<Longrightarrow> cell_text (input_value text v) = input_text v"
  by (cases v) (auto simp: cell_inside_def input_text_def cell_text_def input_value_def)

lemma input_value_append: "cell_inside text v \<Longrightarrow> input_value (text @ t) v = input_value text v"
  by (cases v) (auto simp: cell_inside_def input_value_def)

lemma cell_inside_append: "cell_inside text v \<Longrightarrow> cell_inside (text @ t) v"
  by (cases v) (auto simp: cell_inside_def)

lemma type_field_typed:
  assumes "field_holds (dec_decoded d) f t"
  shows "case type_field c d f of Inl e \<Rightarrow> typed_text c t = None
    | Inr (v, n) \<Rightarrow> typed_text c t = Some (input_value (dec_decoded d) v) \<and> cell_inside (dec_decoded d) v \<and> n = input_text v"
proof -
  have bytes: "field_bytes_of d f = csv_content t" "csv_quoted f = quoted_text t"
    using assms by (simp_all add: field_bytes_of_def field_holds_def)
  have null: "t = PlainText null_text \<longleftrightarrow> \<not> quoted_text t \<and> csv_content t = null_text" by (cases t) simp_all
  have string: "take (csv_end f - csv_start f) (drop (csv_start f) (dec_decoded d)) = csv_content t"
    "csv_start f \<le> csv_end f" "csv_end f \<le> length (dec_decoded d)" "utf8 (csv_content t)"
    using assms by (simp_all add: field_holds_def)
  have "length (csv_content t) = csv_end f - csv_start f" using string(3) by (simp add: string(1) [symmetric])
  with bytes string show ?thesis
    by (auto simp: type_field_def typed_text_def null Let_def attempt_def ok_or_def input_value_def cell_inside_def input_text_def
        split: data_type.splits option.splits)
qed

section \<open>Rows\<close>

text \<open>The fields of a record typed into the columns the header gave them.\<close>

definition row_typed :: "csv_decoder \<Rightarrow> nat list \<Rightarrow> csv_text list \<Rightarrow> csv_decoder \<Rightarrow> bool" where
  "row_typed d mapping ts d' \<longleftrightarrow>
     d' = d\<lparr>dec_row := dec_row d', dec_row_text := dec_row_text d'\<rparr> \<and> length (dec_row d') = length (dec_row d)
     \<and> (\<forall>j. j \<notin> set mapping \<longrightarrow> dec_row d' ! j = dec_row d ! j)
     \<and> list_all2 (\<lambda>m t. typed_text (dec_schema d ! m) t = Some (input_value (dec_decoded d) (dec_row d' ! m))
          \<and> cell_inside (dec_decoded d) (dec_row d' ! m)) mapping ts
     \<and> dec_row_text d' = dec_row_text d + (\<Sum>m \<leftarrow> mapping. input_text (dec_row d' ! m))"

lemma type_fields_answers:
  assumes "list_all2 (field_holds (dec_decoded d)) fs ts" and "length mapping = length ts" and "distinct mapping"
    and "\<forall>m \<in> set mapping. m < length (dec_schema d) \<and> m < length (dec_row d)"
  shows "answers (list_all2 (\<lambda>m t. typed_text (dec_schema d ! m) t \<noteq> None) mapping ts) (type_fields fs mapping d) (row_typed d mapping ts)"
  using assms
proof (induction fs arbitrary: ts mapping d)
  case Nil
  then show ?case by (simp add: row_typed_def)
next
  case (Cons f fs)
  obtain t ts' where ts: "ts = t # ts'" "field_holds (dec_decoded d) f t" "list_all2 (field_holds (dec_decoded d)) fs ts'"
    using Cons.prems(1) by (cases ts) auto
  obtain m ms where mapping: "mapping = m # ms" "length ms = length ts'" "distinct ms" "m \<notin> set ms"
    "m < length (dec_schema d)" "m < length (dec_row d)" "\<forall>m \<in> set ms. m < length (dec_schema d) \<and> m < length (dec_row d)"
    using Cons.prems(2,3,4) ts(1) by (cases mapping) auto
  note typed = type_field_typed [OF ts(2), of "dec_schema d ! m"]
  show ?case
  proof (cases "type_field (dec_schema d ! m) d f")
    case (Inl e)
    moreover have "utf8 (field_bytes_of d f)" using ts(2) by (simp add: field_bytes_of_def field_holds_def)
    ultimately show ?thesis using typed mapping by (simp add: ts(1))
  next
    case (Inr x)
    obtain v n where x: "x = (v, n)" by (cases x)
    with typed Inr have v: "typed_text (dec_schema d ! m) t = Some (input_value (dec_decoded d) v)" "cell_inside (dec_decoded d) v"
      "n = input_text v" by simp_all
    define d1 where "d1 = d\<lparr>dec_row := (dec_row d)[m := v], dec_row_text := dec_row_text d + n\<rparr>"
    have prems1: "list_all2 (field_holds (dec_decoded d1)) fs ts'" "\<forall>m \<in> set ms. m < length (dec_schema d1) \<and> m < length (dec_row d1)"
      using ts(3) mapping(7) by (simp_all add: d1_def)
    note ih = Cons.IH [OF prems1(1) mapping(2,3) prems1(2)]
    have "utf8 (field_bytes_of d f)" using ts(2) by (simp add: field_bytes_of_def field_holds_def)
    then have "type_fields (f # fs) mapping d = type_fields fs ms d1"
      using mapping Inr x by (simp add: d1_def)
    moreover have "row_typed d mapping ts d'" if typed1: "row_typed d1 ms ts' d'" for d'
    proof -
      have "d' = d1\<lparr>dec_row := dec_row d', dec_row_text := dec_row_text d'\<rparr>" using typed1 unfolding row_typed_def by blast
      also have "\<dots> = d\<lparr>dec_row := dec_row d', dec_row_text := dec_row_text d'\<rparr>" by (simp add: d1_def)
      finally have frame: "d' = d\<lparr>dec_row := dec_row d', dec_row_text := dec_row_text d'\<rparr>" .
      have "dec_row d' ! m = v" using typed1 mapping(4,6) by (simp add: row_typed_def d1_def)
      moreover have "\<forall>j. j \<notin> set mapping \<longrightarrow> dec_row d' ! j = dec_row d ! j" "length (dec_row d') = length (dec_row d)"
        using typed1 mapping(1) by (auto simp: row_typed_def d1_def)
      ultimately show ?thesis using typed1 frame v mapping(1) ts(1) unfolding row_typed_def by (simp add: d1_def)
    qed
    ultimately show ?thesis
      using answers_weaken [OF ih] mapping(1) ts(1) by (simp add: d1_def)
  qed
qed

section \<open>Columns\<close>

text \<open>The header's mapping is an order of the columns, so a record has at most one row.\<close>

definition column_order :: "nat \<Rightarrow> nat list \<Rightarrow> bool" where
  "column_order n mapping \<longleftrightarrow> distinct mapping \<and> set mapping = {0..<n}"

definition csv_row :: "column_declaration list \<Rightarrow> nat list \<Rightarrow> csv_text list \<Rightarrow> cell list \<Rightarrow> bool" where
  "csv_row schema mapping ts row \<longleftrightarrow>
     length row = length schema \<and> list_all2 (\<lambda>m t. typed_text (schema ! m) t = Some (row ! m)) mapping ts"

lemma column_order_length: "column_order n mapping \<Longrightarrow> length mapping = n"
  by (metis column_order_def card_atLeastLessThan diff_zero distinct_card)

lemma list_all2_columns:
  assumes "list_all2 P mapping ts" and "m \<in> set mapping"
  obtains t where "t \<in> set ts" "P m t"
  using assms by (metis in_set_conv_nth list_all2_conv_all_nth)

lemma csv_row_unique:
  assumes "column_order (length schema) mapping" and "csv_row schema mapping ts row" and "csv_row schema mapping ts row'"
  shows "row' = row"
proof (rule nth_equalityI)
  show "length row' = length row" using assms(2,3) by (simp add: csv_row_def)
  fix i
  assume "i < length row'"
  then have "i \<in> set mapping" using assms(1,3) by (simp add: column_order_def csv_row_def)
  then obtain k where "k < length mapping" "mapping ! k = i" by (auto simp: in_set_conv_nth)
  with assms(2,3) show "row' ! i = row ! i" by (auto simp: csv_row_def list_all2_conv_all_nth)
qed

definition row_held :: "csv_decoder \<Rightarrow> cell list \<Rightarrow> bool" where
  "row_held d row \<longleftrightarrow>
     length (dec_row d) = length (dec_schema d) \<and> row = map (input_value (dec_decoded d)) (dec_row d)
     \<and> list_all (cell_inside (dec_decoded d)) (dec_row d) \<and> dec_row_text d = sum_list (map cell_text row)"

lemma sum_columns:
  fixes g :: "'a \<Rightarrow> nat"
  assumes "column_order (length row) mapping"
  shows "(\<Sum>m \<leftarrow> mapping. g (row ! m)) = sum_list (map g row)"
proof -
  have "(\<Sum>m \<leftarrow> mapping. g (row ! m)) = (\<Sum>m \<in> {0..<length row}. g (row ! m))"
    using assms by (simp add: column_order_def sum_list_distinct_conv_sum_set)
  also have "\<dots> = (\<Sum>m \<leftarrow> [0..<length row]. g (row ! m))" by (simp add: sum_list_distinct_conv_sum_set)
  also have "\<dots> = sum_list (map g (map ((!) row) [0..<length row]))" by (simp add: comp_def)
  finally show ?thesis by (simp only: map_nth)
qed

lemma row_typed_held:
  assumes "row_typed (d\<lparr>dec_row_text := 0\<rparr>) (dec_mapping d) ts d'" and "column_order (length (dec_schema d)) (dec_mapping d)"
    and "length (dec_row d) = length (dec_schema d)"
  shows "row_held d' (map (input_value (dec_decoded d)) (dec_row d'))"
    and "csv_row (dec_schema d) (dec_mapping d) ts (map (input_value (dec_decoded d)) (dec_row d'))"
    and "d' = d\<lparr>dec_row := dec_row d', dec_row_text := dec_row_text d'\<rparr>"
proof -
  let ?row = "dec_row d'"
  show frame: "d' = d\<lparr>dec_row := dec_row d', dec_row_text := dec_row_text d'\<rparr>"
  proof -
    have "d' = (d\<lparr>dec_row_text := 0\<rparr>)\<lparr>dec_row := dec_row d', dec_row_text := dec_row_text d'\<rparr>"
      using assms(1) unfolding row_typed_def by blast
    then show ?thesis by simp
  qed
  have len: "length ?row = length (dec_schema d)" using assms(1,3) by (simp add: row_typed_def)
  have cells: "list_all2 (\<lambda>m t. typed_text (dec_schema d ! m) t = Some (input_value (dec_decoded d) (?row ! m))
      \<and> cell_inside (dec_decoded d) (?row ! m)) (dec_mapping d) ts"
    using assms(1) by (simp add: row_typed_def)
  have same: "dec_schema d' = dec_schema d" "dec_decoded d' = dec_decoded d" by (subst frame, simp)+
  have order: "column_order (length ?row) (dec_mapping d)" using assms(2) len by simp
  have inside: "list_all (cell_inside (dec_decoded d)) ?row"
    unfolding list_all_length
  proof (intro allI impI)
    fix i
    assume "i < length ?row"
    then have "i \<in> set (dec_mapping d)" using order by (simp add: column_order_def)
    from list_all2_columns [OF cells this] show "cell_inside (dec_decoded d) (?row ! i)" by auto
  qed
  have "dec_row_text d' = sum_list (map input_text ?row)"
    using assms(1) sum_columns [OF order, of input_text] by (simp add: row_typed_def)
  also have "map input_text ?row = map cell_text (map (input_value (dec_decoded d)) ?row)"
    using inside by (auto simp: list_all_iff cell_text_input)
  finally show "row_held d' (map (input_value (dec_decoded d)) ?row)" using len inside same by (simp add: row_held_def)
  have "set (dec_mapping d) = {0..<length ?row}" using order by (simp add: column_order_def)
  with cells show "csv_row (dec_schema d) (dec_mapping d) ts (map (input_value (dec_decoded d)) ?row)"
    unfolding csv_row_def by (auto simp: len list_all2_conv_all_nth) (metis atLeastLessThan_iff len nth_map nth_mem)
qed

lemma type_row_answers:
  assumes "list_all2 (field_holds (dec_decoded d)) (dec_fields d) ts" and "length ts = length (dec_schema d)"
    and "column_order (length (dec_schema d)) (dec_mapping d)" and "length (dec_row d) = length (dec_schema d)"
  shows "answers (\<exists>row. csv_row (dec_schema d) (dec_mapping d) ts row) (type_row d)
    (\<lambda>d'. d' = d\<lparr>dec_row := dec_row d', dec_row_text := dec_row_text d'\<rparr>
      \<and> row_held d' (map (input_value (dec_decoded d)) (dec_row d'))
      \<and> csv_row (dec_schema d) (dec_mapping d) ts (map (input_value (dec_decoded d)) (dec_row d')))"
proof -
  have "answers (list_all2 (\<lambda>m t. typed_text (dec_schema (d\<lparr>dec_row_text := 0\<rparr>) ! m) t \<noteq> None) (dec_mapping d) ts)
      (type_fields (dec_fields d) (dec_mapping d) (d\<lparr>dec_row_text := 0\<rparr>)) (row_typed (d\<lparr>dec_row_text := 0\<rparr>) (dec_mapping d) ts)"
    by (rule type_fields_answers)
      (use assms column_order_length [OF assms(3)] in \<open>auto simp: column_order_def\<close>)
  then show ?thesis
    unfolding type_row_def
  proof (rule answers_weaken)
    assume "\<exists>row. csv_row (dec_schema d) (dec_mapping d) ts row"
    then show "list_all2 (\<lambda>m t. typed_text (dec_schema (d\<lparr>dec_row_text := 0\<rparr>) ! m) t \<noteq> None) (dec_mapping d) ts"
      by (auto simp: csv_row_def elim!: list_all2_mono)
  qed (use row_typed_held [OF _ assms(3,4)] in blast)
qed

end
