(* ===== verification/Csv_Table.thy ===== *)
theory Csv_Table
  imports Csv_Rows
begin

text \<open>The rows of a document, and the batch that publishing rows fills.\<close>

section \<open>Lines and rows\<close>

fun render_lines :: "(csv_text list \<times> u8 list) list \<Rightarrow> u8 list" where
  "render_lines [] = []"
| "render_lines ((ts, e) # lines) = render_line ts @ e @ render_lines lines"

text \<open>Only the last line may lack its ending, and then it is not empty.\<close>

fun lines_ok :: "(csv_text list \<times> u8 list) list \<Rightarrow> bool" where
  "lines_ok [] \<longleftrightarrow> True"
| "lines_ok ((ts, e) # lines) \<longleftrightarrow>
     ts \<noteq> [] \<and> (\<forall>t \<in> set ts. text_ok t) \<and> e \<in> line_endings \<and> (e = [] \<longrightarrow> lines = [] \<and> render_line ts \<noteq> []) \<and> lines_ok lines"

lemma lines_ok_first:
  assumes "lines_ok ((ts, e) # lines)"
  shows "first_record (render_lines ((ts, e) # lines)) ts e (render_lines lines)" and "render_lines ((ts, e) # lines) \<noteq> []"
  using assms by (auto simp: first_record_def)

lemma lines_ok_empty: "lines_ok lines \<Longrightarrow> render_lines lines = [] \<Longrightarrow> lines = []"
  by (metis lines_ok_first(2) list.exhaust surj_pair)

definition row_fits ::
    "column_declaration list \<Rightarrow> csv_limits \<Rightarrow> nat list \<Rightarrow> csv_text list \<times> u8 list \<Rightarrow> cell list \<Rightarrow> bool" where
  "row_fits schema l mapping line row \<longleftrightarrow>
     record_fits l (length schema) (fst line) (snd line) \<and> csv_row schema mapping (fst line) row
     \<and> sum_list (map cell_text row) \<le> limit_batch_text l"

definition csv_rows :: "column_declaration list \<Rightarrow> csv_limits \<Rightarrow> nat list \<Rightarrow> u8 list \<Rightarrow> cell list list \<Rightarrow> bool" where
  "csv_rows schema l mapping bytes rows \<longleftrightarrow>
     (\<exists>lines. bytes = render_lines lines \<and> lines_ok lines \<and> list_all2 (row_fits schema l mapping) lines rows)"

lemma csv_rows_end: "csv_rows schema l mapping [] rows \<longleftrightarrow> rows = []"
proof
  assume "csv_rows schema l mapping [] rows"
  then obtain lines where "render_lines lines = []" "lines_ok lines" "list_all2 (row_fits schema l mapping) lines rows"
    by (metis csv_rows_def)
  with lines_ok_empty show "rows = []" by auto
qed (auto simp: csv_rows_def intro!: exI [of _ "[]"])

text \<open>The first line of the bytes is the first record, and gives the first row.\<close>

lemma csv_rows_first:
  assumes "first_record bytes ts e later" and "bytes \<noteq> []" and "column_order (length schema) mapping"
    and "csv_row schema mapping ts row"
  shows "csv_rows schema l mapping bytes rows \<longleftrightarrow>
    (\<exists>rest. rows = row # rest \<and> row_fits schema l mapping (ts, e) row \<and> csv_rows schema l mapping later rest)"
proof
  assume "csv_rows schema l mapping bytes rows"
  then obtain lines where lines: "bytes = render_lines lines" "lines_ok lines" "list_all2 (row_fits schema l mapping) lines rows"
    by (auto simp: csv_rows_def)
  with assms(2) obtain ts' e' lines' where cons: "lines = (ts', e') # lines'" by (cases lines) auto
  with lines have "first_record bytes ts' e' (render_lines lines')" using lines_ok_first(1) by simp
  with assms(1) have same: "ts' = ts" "e' = e" "render_lines lines' = later" using first_record_unique by blast+
  from lines(3) cons obtain row' rest where rows: "rows = row' # rest" "row_fits schema l mapping (ts', e') row'"
    "list_all2 (row_fits schema l mapping) lines' rest" by (auto simp: list_all2_Cons1)
  have "row' = row" using csv_row_unique [OF assms(3,4)] rows(2) same(1) by (simp add: row_fits_def)
  with rows same lines(2) cons show "\<exists>rest. rows = row # rest \<and> row_fits schema l mapping (ts, e) row \<and> csv_rows schema l mapping later rest"
    by (auto simp: csv_rows_def)
next
  assume "\<exists>rest. rows = row # rest \<and> row_fits schema l mapping (ts, e) row \<and> csv_rows schema l mapping later rest"
  then obtain rest lines where r: "rows = row # rest" "row_fits schema l mapping (ts, e) row" "later = render_lines lines"
    "lines_ok lines" "list_all2 (row_fits schema l mapping) lines rest" by (auto simp: csv_rows_def)
  have "lines = []" "render_line ts \<noteq> []" if "e = []"
  proof -
    from that assms(1) have "later = []" "bytes = render_line ts" by (simp_all add: first_record_def)
    with assms(2) r(3,4) lines_ok_empty show "lines = []" "render_line ts \<noteq> []" by auto
  qed
  with r assms(1) show "csv_rows schema l mapping bytes rows"
    unfolding csv_rows_def by (intro exI [of _ "(ts, e) # lines"]) (auto simp: first_record_def)
qed

section \<open>Publishing a row\<close>

definition cells_held :: "u8 list \<Rightarrow> input_cell list \<Rightarrow> nat \<Rightarrow> cell list list \<Rightarrow> bool" where
  "cells_held text cells n rows \<longleftrightarrow>
     list_all (cell_inside text) cells \<and> map (input_value text) cells = concat rows \<and> (\<forall>row \<in> set rows. length row = n)"

lemma push_cells:
  assumes "list_all (cell_inside (dec_decoded d)) vs"
  shows "\<exists>new t. foldl (push_cell d) (cs, txs) vs = (cs @ new, txs @ t) \<and> list_all (cell_inside (txs @ t)) new
    \<and> map (input_value (txs @ t)) new = map (input_value (dec_decoded d)) vs \<and> length t = sum_list (map input_text vs)"
  using assms
proof (induction vs arbitrary: cs txs)
  case (Cons v vs)
  have v: "cell_inside (dec_decoded d) v" and vs: "list_all (cell_inside (dec_decoded d)) vs" using Cons.prems by simp_all
  have "\<exists>w t. push_cell d (cs, txs) v = (cs @ [w], txs @ t) \<and> cell_inside (txs @ t) w
      \<and> input_value (txs @ t) w = input_value (dec_decoded d) v \<and> length t = input_text v"
    using v by (cases v) (auto simp: push_cell_def cell_inside_def input_value_def input_text_def Let_def)
  then obtain w t where w: "push_cell d (cs, txs) v = (cs @ [w], txs @ t)" "cell_inside (txs @ t) w"
    "input_value (txs @ t) w = input_value (dec_decoded d) v" "length t = input_text v" by blast
  from Cons.IH [OF vs, of "cs @ [w]" "txs @ t"] obtain new t' where ih:
    "foldl (push_cell d) (cs @ [w], txs @ t) vs = ((cs @ [w]) @ new, (txs @ t) @ t')" "list_all (cell_inside ((txs @ t) @ t')) new"
    "map (input_value ((txs @ t) @ t')) new = map (input_value (dec_decoded d)) vs" "length t' = sum_list (map input_text vs)" by blast
  show ?case
    by (intro exI [of _ "w # new"] exI [of _ "t @ t'"])
      (use ih w cell_inside_append [OF w(2), of t'] input_value_append [OF w(2), of t'] in auto)
qed simp

lemma publish_row_held:
  assumes "cells_held (dec_text d) (dec_cells d) (length (dec_schema d)) rows" and "row_held d row"
  shows "cells_held (dec_text (publish_row d)) (dec_cells (publish_row d)) (length (dec_schema d)) (rows @ [row])"
    and "length (dec_text (publish_row d)) = length (dec_text d) + dec_row_text d"
    and "publish_row d = d\<lparr>dec_cells := dec_cells (publish_row d), dec_text := dec_text (publish_row d), dec_rows := dec_rows d + 1,
      dec_pending := False\<rparr>"
proof -
  have row: "list_all (cell_inside (dec_decoded d)) (dec_row d)" "row = map (input_value (dec_decoded d)) (dec_row d)"
    "length (dec_row d) = length (dec_schema d)" "dec_row_text d = sum_list (map cell_text row)"
    using assms(2) by (simp_all add: row_held_def)
  have sums: "sum_list (map cell_text row) = sum_list (map input_text (dec_row d))"
    using row(1) unfolding row(2) by (induction "dec_row d" rule: list.induct) (simp_all add: cell_text_input list_all_iff comp_def cong: map_cong)
  obtain new t where push: "foldl (push_cell d) (dec_cells d, dec_text d) (dec_row d) = (dec_cells d @ new, dec_text d @ t)"
    "list_all (cell_inside (dec_text d @ t)) new" "map (input_value (dec_text d @ t)) new = row"
    "length t = sum_list (map input_text (dec_row d))"
    using push_cells [OF row(1), of "dec_cells d" "dec_text d"] row(2) by auto
  have pub: "publish_row d = d\<lparr>dec_cells := dec_cells d @ new, dec_text := dec_text d @ t, dec_rows := dec_rows d + 1, dec_pending := False\<rparr>"
    by (simp add: publish_row_def Let_def row(3) [symmetric] push(1))
  have old: "\<forall>v \<in> set (dec_cells d). cell_inside (dec_text d) v" using assms(1) by (simp add: cells_held_def list_all_iff)
  then have "map (input_value (dec_text d @ t)) (dec_cells d) = map (input_value (dec_text d)) (dec_cells d)"
    by (intro map_cong refl) (simp add: input_value_append)
  then have "map (input_value (dec_text d @ t)) (dec_cells d) = concat rows"
    using assms(1) by (simp add: cells_held_def del: map_eq_conv)
  moreover have "list_all (cell_inside (dec_text d @ t)) (dec_cells d)" using old by (simp add: list_all_iff cell_inside_append)
  ultimately
  show "cells_held (dec_text (publish_row d)) (dec_cells (publish_row d)) (length (dec_schema d)) (rows @ [row])"
    using assms(1) push row(2,3) by (simp add: pub cells_held_def del: map_eq_conv)
  show "length (dec_text (publish_row d)) = length (dec_text d) + dec_row_text d" by (simp add: pub push(4) row(4) sums)
  show "publish_row d = d\<lparr>dec_cells := dec_cells (publish_row d), dec_text := dec_text (publish_row d), dec_rows := dec_rows d + 1,
      dec_pending := False\<rparr>" by (simp add: pub)
qed

end
