(* ===== verification/Csv_Loading.thy ===== *)
theory Csv_Loading
  imports Csv_Table
begin

text \<open>Loading the next row and filling a batch take the rows that are left in the bytes, in order.\<close>

section \<open>The rows left\<close>

definition current_row :: "csv_decoder \<Rightarrow> cell list" where
  "current_row d = map (input_value (dec_decoded d)) (dec_row d)"

text \<open>Between batches, with the header read; a row that is pending fits a batch of its own.\<close>

definition decoder_ok :: "csv_decoder \<Rightarrow> bool" where
  "decoder_ok d \<longleftrightarrow>
     input_ok d \<and> dec_schema d \<noteq> [] \<and> column_order (length (dec_schema d)) (dec_mapping d) \<and> length (dec_row d) = length (dec_schema d)
     \<and> dec_rows d + of_bool (dec_pending d) \<le> limit_rows (dec_limits d)
     \<and> (dec_pending d \<longrightarrow> row_held d (current_row d) \<and> dec_row_text d \<le> limit_batch_text (dec_limits d))
     \<and> (dec_finished d \<longrightarrow> csv_rest d = [] \<and> \<not> dec_pending d)"

definition rows_left :: "csv_decoder \<Rightarrow> cell list list \<Rightarrow> bool" where
  "rows_left d rows \<longleftrightarrow>
     (\<exists>rest. rows = (if dec_pending d then [current_row d] else []) @ rest
        \<and> csv_rows (dec_schema d) (dec_limits d) (dec_mapping d) (csv_rest d) rest)
     \<and> dec_rows d + length rows \<le> limit_rows (dec_limits d)"

definition input_total :: "csv_decoder \<Rightarrow> nat" where
  "input_total d = dec_offset d + length (csv_rest d)"

text \<open>What loading a row leaves alone.\<close>

definition load_kept :: "csv_decoder \<Rightarrow> csv_decoder \<Rightarrow> bool" where
  "load_kept d d' \<longleftrightarrow>
     dec_schema d' = dec_schema d \<and> dec_limits d' = dec_limits d \<and> dec_mapping d' = dec_mapping d \<and> dec_cells d' = dec_cells d
     \<and> dec_text d' = dec_text d \<and> dec_rows d' = dec_rows d \<and> dec_header d' = dec_header d \<and> dec_pending d' = dec_pending d
     \<and> dec_failed d' = dec_failed d \<and> input_total d' = input_total d \<and> (input_fits d \<longrightarrow> input_fits d')"

definition row_loaded :: "csv_decoder \<Rightarrow> bool \<times> csv_decoder \<Rightarrow> bool" where
  "row_loaded d r \<longleftrightarrow>
     load_kept d (snd r) \<and> input_ok (snd r) \<and> length (dec_row (snd r)) = length (dec_schema d)
     \<and> (if fst r
        then row_held (snd r) (current_row (snd r)) \<and> dec_finished (snd r) = dec_finished d
          \<and> length (csv_rest (snd r)) + 1 \<le> length (csv_rest d) + of_bool (dec_pending d)
          \<and> dec_rows d < limit_rows (dec_limits d)
          \<and> (\<forall>rows. rows_left d rows \<longleftrightarrow>
              (\<exists>rest. rows = current_row (snd r) # rest \<and> dec_row_text (snd r) \<le> limit_batch_text (dec_limits d)
                \<and> csv_rows (dec_schema d) (dec_limits d) (dec_mapping d) (csv_rest (snd r)) rest
                \<and> dec_rows d + length rows \<le> limit_rows (dec_limits d)))
        else dec_finished (snd r) \<and> \<not> dec_pending (snd r) \<and> csv_rest (snd r) = [] \<and> csv_rest d = [])"

section \<open>Loading\<close>

lemma record_read_parts:
  assumes "record_read d (found, d1)"
  shows "dec_schema d1 = dec_schema d" "dec_limits d1 = dec_limits d" "dec_mapping d1 = dec_mapping d" "dec_cells d1 = dec_cells d"
    "dec_text d1 = dec_text d" "dec_rows d1 = dec_rows d" "dec_header d1 = dec_header d" "dec_pending d1 = dec_pending d"
    "dec_failed d1 = dec_failed d" "dec_row d1 = dec_row d" "dec_finished d1 = dec_finished d"
    and "load_kept d d1" and "input_ok d1"
proof -
  have "csv_kept d1 = csv_kept (d\<lparr>dec_record_start := dec_offset d\<rparr>)" using assms by (simp add: record_read_def)
  note same = csv_kept_fields [OF this]
  from same show "dec_schema d1 = dec_schema d" "dec_limits d1 = dec_limits d" "dec_mapping d1 = dec_mapping d" "dec_cells d1 = dec_cells d"
    "dec_text d1 = dec_text d" "dec_rows d1 = dec_rows d" "dec_header d1 = dec_header d" "dec_pending d1 = dec_pending d"
    "dec_failed d1 = dec_failed d" "dec_row d1 = dec_row d" "dec_finished d1 = dec_finished d" by simp_all
  with assms show "load_kept d d1" "input_ok d1" by (simp_all add: load_kept_def record_read_def input_total_def)
qed

lemma record_decoded_parts:
  assumes "record_decoded d fs d'" and "input_ok d"
  shows "load_kept d d'" "input_ok d'" "csv_rest d' = csv_rest d" "dec_row d' = dec_row d" "dec_finished d' = dec_finished d"
    "dec_schema d' = dec_schema d" "dec_limits d' = dec_limits d" "dec_mapping d' = dec_mapping d" "dec_offset d' = dec_offset d"
proof -
  obtain marks all src where d': "d' = d\<lparr>dec_fields := marks, dec_decoded := all, dec_source := src\<rparr>"
    and src: "src_bytes src = src_bytes (dec_source d)" "steady (dec_source d) \<longrightarrow> steady src"
  proof
    show "d' = d\<lparr>dec_fields := dec_fields d', dec_decoded := dec_decoded d', dec_source := dec_source d'\<rparr>"
      "src_bytes (dec_source d') = src_bytes (dec_source d)" "steady (dec_source d) \<longrightarrow> steady (dec_source d')"
      using assms(1) unfolding record_decoded_def by blast+
  qed
  show rest: "csv_rest d' = csv_rest d" using src(1) by (simp add: d' csv_rest_def)
  show "load_kept d d'"
    using src rest by (simp add: load_kept_def input_total_def input_fits_def) (simp add: d')
  show "input_ok d'" using assms(2) rest by (simp add: input_ok_def) (simp add: d')
  show "dec_row d' = dec_row d" "dec_finished d' = dec_finished d" "dec_schema d' = dec_schema d" "dec_limits d' = dec_limits d"
    "dec_mapping d' = dec_mapping d" "dec_offset d' = dec_offset d" by (simp_all add: d')
qed

lemma load_kept_trans: "load_kept d1 d2 \<Longrightarrow> load_kept d2 d3 \<Longrightarrow> load_kept d1 d3"
  by (auto simp: load_kept_def)

lemma csv_rows_cons:
  assumes "csv_rows schema l mapping bytes rows" and "bytes \<noteq> []"
  obtains ts e later row rest where "first_record bytes ts e later" "rows = row # rest" "row_fits schema l mapping (ts, e) row"
proof -
  from assms(1) obtain lines where lines: "bytes = render_lines lines" "lines_ok lines" "list_all2 (row_fits schema l mapping) lines rows"
    unfolding csv_rows_def by blast
  with assms(2) obtain ts e lines' where cons: "lines = (ts, e) # lines'" by (cases lines) auto
  with lines(3) obtain row rest where "rows = row # rest" "row_fits schema l mapping (ts, e) row" by (auto simp: list_all2_Cons1)
  with that lines_ok_first(1) lines(1,2) cons show thesis by metis
qed

lemma row_loaded_typed:
  assumes "decoder_ok d" and "\<not> dec_pending d" and "record_read d (True, d1)" and "first_record (csv_rest d) ts e (csv_rest d1)"
    and "record_fits (dec_limits d) (length (dec_schema d)) ts e" and "record_decoded d1 ts d2" and "dec_rows d < limit_rows (dec_limits d)"
    and "d3 = d2\<lparr>dec_row := dec_row d3, dec_row_text := dec_row_text d3\<rparr>" and "row_held d3 (map (input_value (dec_decoded d2)) (dec_row d3))"
    and "csv_row (dec_schema d2) (dec_mapping d2) ts (map (input_value (dec_decoded d2)) (dec_row d3))"
  shows "row_loaded d (True, d3)"
proof -
  note p1 = record_read_parts [OF assms(3)]
  note p2 = record_decoded_parts [OF assms(6) p1(13)]
  obtain row n where d3: "d3 = d2\<lparr>dec_row := row, dec_row_text := n\<rparr>" using assms(8) by blast
  have rest3: "csv_rest d3 = csv_rest d2" and decoded: "dec_decoded d3 = dec_decoded d2" by (simp_all add: d3 csv_rest_def)
  have kept3: "load_kept d2 d3" by (simp add: d3 load_kept_def input_total_def input_fits_def csv_rest_def)
  have kept: "load_kept d d3" using load_kept_trans [OF load_kept_trans [OF p1(12) p2(1)] kept3] .
  have ok3: "input_ok d3" using p2(2) by (simp add: d3 input_ok_def csv_rest_def)
  have held: "row_held d3 (current_row d3)" using assms(9) by (simp add: current_row_def decoded)
  have typed: "csv_row (dec_schema d) (dec_mapping d) ts (current_row d3)"
    using assms(10) by (simp add: current_row_def decoded p1(1,3) p2(6,8))
  have rest: "csv_rest d3 = csv_rest d1" using rest3 p2(3) by simp
  have nonempty: "csv_rest d \<noteq> []" using assms(3) by (simp add: record_read_def)
  have order: "column_order (length (dec_schema d)) (dec_mapping d)" using assms(1) by (simp add: decoder_ok_def)
  have text_sum: "dec_row_text d3 = sum_list (map cell_text (current_row d3))" using held by (simp add: row_held_def)
  have shorter: "length (csv_rest d3) + 1 \<le> length (csv_rest d)"
  proof -
    have "scan_bytes ScanStart (PlainText []) [] (csv_rest d) = Some (ts, e, csv_rest d1)" using assms(4) by (simp add: first_record_scan)
    from scan_bytes_sound(6) [OF this] nonempty rest show ?thesis by (simp add: state_fits_def)
  qed
  have fits: "row_fits (dec_schema d) (dec_limits d) (dec_mapping d) (ts, e) (current_row d3) \<longleftrightarrow> dec_row_text d3 \<le> limit_batch_text (dec_limits d)"
    using assms(5) typed by (simp add: row_fits_def text_sum)
  have "rows_left d rows \<longleftrightarrow> (\<exists>rest. rows = current_row d3 # rest \<and> dec_row_text d3 \<le> limit_batch_text (dec_limits d)
      \<and> csv_rows (dec_schema d) (dec_limits d) (dec_mapping d) (csv_rest d3) rest \<and> dec_rows d + length rows \<le> limit_rows (dec_limits d))" for rows
    using csv_rows_first [OF assms(4) nonempty order typed, of "dec_limits d" rows] assms(2)
    by (auto simp: rows_left_def fits rest)
  moreover have "length (dec_row d3) = length (dec_schema d)" "dec_finished d3 = dec_finished d"
    using held kept p1(11) p2(5) by (simp_all add: row_held_def load_kept_def d3)
  ultimately show ?thesis
    using kept ok3 held shorter assms(7) by (simp add: row_loaded_def)
qed

lemma utf8_record: "record_fits l n ts e \<Longrightarrow> utf8 (render_line ts)"
  by (simp add: record_fits_def)

lemma load_row_answers:
  assumes "decoder_ok d"
  shows "answers (input_fits d \<and> (\<exists>rows. rows_left d rows)) (load_row d) (row_loaded d)"
proof (cases "dec_pending d")
  case True
  with assms show ?thesis
    by (auto simp: load_row_def row_loaded_def load_kept_def decoder_ok_def rows_left_def)
next
  case False
  have ok: "input_ok d" using assms by (simp add: decoder_ok_def)
  have read: "answers (input_fits d \<and> (\<exists>rows. rows_left d rows)) (read_csv_record d) (record_read d)"
  proof (rule answers_grant [OF read_csv_record_answers [OF ok]])
    assume g: "input_fits d \<and> (\<exists>rows. rows_left d rows)"
    then obtain rows where "csv_rows (dec_schema d) (dec_limits d) (dec_mapping d) (csv_rest d) rows"
      using False by (auto simp: rows_left_def)
    with g show "input_fits d \<and> (csv_rest d = [] \<or> (\<exists>fs e later. first_record (csv_rest d) fs e later
        \<and> record_fits (dec_limits d) (length (dec_schema d)) fs e))"
      by (metis csv_rows_cons row_fits_def fst_conv snd_conv)
  qed
  show ?thesis
    unfolding load_row_def if_not_P [OF False]
  proof (rule answers_following [OF read], goal_cases)
    case (1 r)
    obtain found d1 where r: "r = (found, d1)" by (cases r)
    note got = 1 [unfolded r]
    note p1 = record_read_parts [OF got]
    show ?case
    proof (cases found)
      case False
      have "row_loaded d (False, d1\<lparr>dec_finished := True\<rparr>)"
        using got False p1(12,13) p1(8) \<open>\<not> dec_pending d\<close> p1(10) assms
        by (simp add: row_loaded_def record_read_def load_kept_def input_ok_def csv_rest_def input_total_def input_fits_def decoder_ok_def)
      then show ?thesis by (simp add: r False)
    next
      case True
      have got: "record_read d (True, d1)" using got True by simp
      obtain ts e where ts: "first_record (csv_rest d) ts e (csv_rest d1)" "record_fits (dec_limits d) (length (dec_schema d)) ts e"
        "dec_raw d1 = render_line ts" "dec_fields d1 = field_marks (dec_offset d) 0 ts" and nonempty: "csv_rest d \<noteq> []"
        using got by (auto simp: record_read_def)
      have granted: "\<exists>row. csv_row (dec_schema d) (dec_mapping d) ts row" "dec_rows d < limit_rows (dec_limits d)" "steady (dec_source d1)"
        if g: "input_fits d \<and> (\<exists>rows. rows_left d rows)"
      proof -
        from g obtain rows where rows: "csv_rows (dec_schema d) (dec_limits d) (dec_mapping d) (csv_rest d) rows"
          "dec_rows d + length rows \<le> limit_rows (dec_limits d)"
          using \<open>\<not> dec_pending d\<close> by (auto simp: rows_left_def)
        from csv_rows_cons [OF rows(1) nonempty] obtain ts' e' later row rest where c: "first_record (csv_rest d) ts' e' later"
          "rows = row # rest" "row_fits (dec_schema d) (dec_limits d) (dec_mapping d) (ts', e') row" .
        then have "ts' = ts" using first_record_unique ts(1) by blast
        with c(3) show "\<exists>row. csv_row (dec_schema d) (dec_mapping d) ts row" by (auto simp: row_fits_def)
        show "dec_rows d < limit_rows (dec_limits d)" using rows(2) c(2) by simp
        show "steady (dec_source d1)" using g got by (simp add: record_read_def input_fits_def)
      qed
      show ?thesis
      proof (cases "dec_rows d = limit_rows (dec_limits d)")
        case True
        with granted(2) show ?thesis by (auto simp: r \<open>found\<close> p1(2,6))
      next
        case False
        with assms have below: "dec_rows d < limit_rows (dec_limits d)" by (simp add: decoder_ok_def)
        have "answers (input_fits d \<and> (\<exists>rows. rows_left d rows)) (following (decode_fields d1) (\<lambda>d. following (type_row d) (\<lambda>d. Some (Inr (True, d)))))
            (row_loaded d)"
        proof (rule answers_following [OF answers_grant [OF decode_fields_answers [OF ts(3,4) utf8_record [OF ts(2)]] granted(3)]], goal_cases)
          case (2 d2)
          note p2 = record_decoded_parts [OF 2 p1(13)]
          have schema: "dec_schema d2 = dec_schema d" "dec_mapping d2 = dec_mapping d" "dec_row d2 = dec_row d"
            using p1 p2 by simp_all
          have "answers (\<exists>row. csv_row (dec_schema d2) (dec_mapping d2) ts row) (type_row d2)
            (\<lambda>d'. d' = d2\<lparr>dec_row := dec_row d', dec_row_text := dec_row_text d'\<rparr>
              \<and> row_held d' (map (input_value (dec_decoded d2)) (dec_row d'))
              \<and> csv_row (dec_schema d2) (dec_mapping d2) ts (map (input_value (dec_decoded d2)) (dec_row d')))"
            by (rule type_row_answers) (use 2 ts(2) assms schema in \<open>auto simp: record_decoded_def record_fits_def decoder_ok_def\<close>)
          then have "answers (input_fits d \<and> (\<exists>rows. rows_left d rows)) (type_row d2) (\<lambda>d3. row_loaded d (True, d3))"
          proof (rule answers_weaken)
            show "\<exists>row. csv_row (dec_schema d2) (dec_mapping d2) ts row" if "input_fits d \<and> (\<exists>rows. rows_left d rows)"
              using granted(1) [OF that] by (simp add: schema)
          qed (use row_loaded_typed [OF assms \<open>\<not> dec_pending d\<close> got ts(1,2) 2 below] in blast)
          then show ?case by (rule answers_following) simp
        qed simp
        with False show ?thesis by (simp add: r \<open>found\<close> p1(2,6))
      qed
    qed
  qed
qed

end
