(* ===== verification/Csv_Filling.thy ===== *)
theory Csv_Filling
  imports Csv_Loading
begin

text \<open>A batch takes the next rows, and nothing else.\<close>

section \<open>Filling a batch\<close>

definition fill_kept :: "csv_decoder \<Rightarrow> csv_decoder \<Rightarrow> bool" where
  "fill_kept d d' \<longleftrightarrow>
     dec_schema d' = dec_schema d \<and> dec_limits d' = dec_limits d \<and> dec_mapping d' = dec_mapping d \<and> dec_header d' = dec_header d
     \<and> dec_failed d' = dec_failed d \<and> input_total d' = input_total d \<and> (input_fits d \<longrightarrow> input_fits d')"

definition rows_to_read :: "csv_decoder \<Rightarrow> nat" where
  "rows_to_read d = length (csv_rest d) + of_bool (dec_pending d)"

text \<open>The batch holds the rows \<open>taken\<close>; the rows taken now are the next ones that were left.\<close>

definition batch_holds :: "csv_decoder \<Rightarrow> cell list list \<Rightarrow> bool" where
  "batch_holds d taken \<longleftrightarrow> cells_held (dec_text d) (dec_cells d) (length (dec_schema d)) taken \<and> (taken = [] \<longrightarrow> dec_text d = [])"

definition rows_filled :: "nat \<Rightarrow> csv_decoder \<Rightarrow> cell list list \<Rightarrow> csv_decoder \<Rightarrow> bool" where
  "rows_filled n d taken d' \<longleftrightarrow>
     decoder_ok d' \<and> fill_kept d d'
     \<and> (\<exists>fresh. batch_holds d' (taken @ fresh) \<and> (\<forall>rows. rows_left d rows \<longleftrightarrow> (\<exists>rest. rows = fresh @ rest \<and> rows_left d' rest))
          \<and> rows_to_read d' + length fresh \<le> rows_to_read d \<and> (taken @ fresh = [] \<and> 0 < n \<longrightarrow> dec_finished d'))"

lemma rows_filled_none:
  assumes "decoder_ok d'" and "fill_kept d d'" and "batch_holds d' taken" and "\<And>rows. rows_left d rows \<longleftrightarrow> rows_left d' rows"
    and "rows_to_read d' \<le> rows_to_read d" and "taken = [] \<Longrightarrow> 0 < n \<Longrightarrow> dec_finished d'"
  shows "rows_filled n d taken d'"
  unfolding rows_filled_def by (intro conjI exI [of _ "[]"]) (use assms in simp_all)

lemma rows_filled_one:
  assumes "rows_filled n d2 (taken @ [row]) d'" and "fill_kept d d2"
    and "\<And>rows. rows_left d rows \<longleftrightarrow> (\<exists>rest. rows = row # rest \<and> rows_left d2 rest)" and "rows_to_read d2 + 1 \<le> rows_to_read d"
  shows "rows_filled m d taken d'"
proof -
  from assms(1) obtain fresh where f: "batch_holds d' ((taken @ [row]) @ fresh)"
    "\<And>rows. rows_left d2 rows \<longleftrightarrow> (\<exists>rest. rows = fresh @ rest \<and> rows_left d' rest)" "rows_to_read d' + length fresh \<le> rows_to_read d2"
    "decoder_ok d'" "fill_kept d2 d'"
    by (auto simp: rows_filled_def)
  have "fill_kept d d'" using assms(2) f(5) by (auto simp: fill_kept_def)
  moreover have "batch_holds d' (taken @ row # fresh)" using f(1) by simp
  moreover have "\<forall>rows. rows_left d rows \<longleftrightarrow> (\<exists>rest. rows = (row # fresh) @ rest \<and> rows_left d' rest)" using assms(3) f(2) by auto
  ultimately show ?thesis
    unfolding rows_filled_def by (intro conjI exI [of _ "row # fresh"]) (use f(3,4) assms(4) in simp_all)
qed

lemma row_loaded_end:
  assumes "decoder_ok d" and "row_loaded d (False, d1)" and "batch_holds d taken"
  shows "rows_filled n d taken d1"
proof (rule rows_filled_none)
  have kept: "load_kept d d1" and d1: "input_ok d1" "length (dec_row d1) = length (dec_schema d)" "dec_finished d1" "\<not> dec_pending d1"
    "csv_rest d1 = []" "csv_rest d = []" using assms(2) by (simp_all add: row_loaded_def)
  have same: "dec_schema d1 = dec_schema d" "dec_limits d1 = dec_limits d" "dec_mapping d1 = dec_mapping d" "dec_rows d1 = dec_rows d"
    "dec_pending d1 = dec_pending d" "dec_text d1 = dec_text d" "dec_cells d1 = dec_cells d"
    using kept by (simp_all add: load_kept_def)
  show "decoder_ok d1" using assms(1) d1 same by (simp add: decoder_ok_def)
  show "fill_kept d d1" using kept by (simp add: load_kept_def fill_kept_def)
  show "batch_holds d1 taken" using assms(3) same by (simp add: batch_holds_def)
  show "rows_left d rows \<longleftrightarrow> rows_left d1 rows" for rows using d1 same by (simp add: rows_left_def)
  show "rows_to_read d1 \<le> rows_to_read d" using d1 same by (simp add: rows_to_read_def)
  show "dec_finished d1" by (rule d1)
qed

lemma row_loaded_pending:
  assumes "decoder_ok d" and "row_loaded d (True, d1)" and "batch_holds d taken" and "dec_row_text d1 \<le> limit_batch_text (dec_limits d)"
    and "limit_batch_text (dec_limits d) < length (dec_text d1) + dec_row_text d1"
  shows "rows_filled n d taken (d1\<lparr>dec_pending := True\<rparr>)"
proof (rule rows_filled_none)
  have kept: "load_kept d d1" and d1: "input_ok d1" "length (dec_row d1) = length (dec_schema d)" "row_held d1 (current_row d1)"
    "dec_finished d1 = dec_finished d" "length (csv_rest d1) + 1 \<le> rows_to_read d" "dec_rows d < limit_rows (dec_limits d)"
    and left: "\<And>rows. rows_left d rows \<longleftrightarrow> (\<exists>rest. rows = current_row d1 # rest \<and> dec_row_text d1 \<le> limit_batch_text (dec_limits d)
      \<and> csv_rows (dec_schema d) (dec_limits d) (dec_mapping d) (csv_rest d1) rest \<and> dec_rows d + length rows \<le> limit_rows (dec_limits d))"
    using assms(2) by (simp_all add: row_loaded_def rows_to_read_def)
  have same: "dec_schema d1 = dec_schema d" "dec_limits d1 = dec_limits d" "dec_mapping d1 = dec_mapping d" "dec_rows d1 = dec_rows d"
    "dec_text d1 = dec_text d" "dec_cells d1 = dec_cells d"
    using kept by (simp_all add: load_kept_def)
  have rest: "csv_rest (d1\<lparr>dec_pending := True\<rparr>) = csv_rest d1" "current_row (d1\<lparr>dec_pending := True\<rparr>) = current_row d1"
    "row_held (d1\<lparr>dec_pending := True\<rparr>) (current_row d1)" "input_ok (d1\<lparr>dec_pending := True\<rparr>)"
    "input_fits (d1\<lparr>dec_pending := True\<rparr>) = input_fits d1" "input_total (d1\<lparr>dec_pending := True\<rparr>) = input_total d1"
    using d1(1,3) by (simp_all add: csv_rest_def current_row_def row_held_def input_ok_def input_fits_def input_total_def)
  have unfinished: "\<not> dec_finished d1"
    using assms(1) d1(4,5) by (auto simp: decoder_ok_def rows_to_read_def)
  show "decoder_ok (d1\<lparr>dec_pending := True\<rparr>)" using assms(1,4) d1 same rest unfinished by (simp add: decoder_ok_def)
  show "fill_kept d (d1\<lparr>dec_pending := True\<rparr>)" using kept rest by (simp add: load_kept_def fill_kept_def)
  show "batch_holds (d1\<lparr>dec_pending := True\<rparr>) taken" using assms(3) same by (simp add: batch_holds_def)
  show "rows_left d rows \<longleftrightarrow> rows_left (d1\<lparr>dec_pending := True\<rparr>) rows" for rows
    unfolding left using same rest assms(4) by (auto simp: rows_left_def)
  show "rows_to_read (d1\<lparr>dec_pending := True\<rparr>) \<le> rows_to_read d" using d1(5) rest by (simp add: rows_to_read_def [of "d1\<lparr>dec_pending := True\<rparr>"])
  show "dec_finished (d1\<lparr>dec_pending := True\<rparr>)" if "taken = []"
    using that assms(3,4,5) same by (simp add: batch_holds_def)
qed

lemma row_loaded_published:
  assumes "decoder_ok d" and "row_loaded d (True, d1)" and "batch_holds d taken" and "dec_row_text d1 \<le> limit_batch_text (dec_limits d)"
  shows "decoder_ok (publish_row d1)" and "batch_holds (publish_row d1) (taken @ [current_row d1])" and "fill_kept d (publish_row d1)"
    and "rows_left d rows \<longleftrightarrow> (\<exists>rest. rows = current_row d1 # rest \<and> rows_left (publish_row d1) rest)"
    and "rows_to_read (publish_row d1) + 1 \<le> rows_to_read d"
proof -
  have kept: "load_kept d d1" and d1: "input_ok d1" "length (dec_row d1) = length (dec_schema d)" "row_held d1 (current_row d1)"
    "dec_finished d1 = dec_finished d" "length (csv_rest d1) + 1 \<le> rows_to_read d" "dec_rows d < limit_rows (dec_limits d)"
    and left: "\<And>rows. rows_left d rows \<longleftrightarrow> (\<exists>rest. rows = current_row d1 # rest \<and> dec_row_text d1 \<le> limit_batch_text (dec_limits d)
      \<and> csv_rows (dec_schema d) (dec_limits d) (dec_mapping d) (csv_rest d1) rest \<and> dec_rows d + length rows \<le> limit_rows (dec_limits d))"
    using assms(2) by (simp_all add: row_loaded_def rows_to_read_def)
  have same: "dec_schema d1 = dec_schema d" "dec_limits d1 = dec_limits d" "dec_mapping d1 = dec_mapping d" "dec_rows d1 = dec_rows d"
    "dec_text d1 = dec_text d" "dec_cells d1 = dec_cells d"
    using kept by (simp_all add: load_kept_def)
  have "cells_held (dec_text d1) (dec_cells d1) (length (dec_schema d1)) taken" using assms(3) same by (simp add: batch_holds_def)
  note pub = publish_row_held [OF this d1(3)]
  obtain cs txs where p: "publish_row d1 = d1\<lparr>dec_cells := cs, dec_text := txs, dec_rows := dec_rows d1 + 1, dec_pending := False\<rparr>"
    using pub(3) by blast
  have after: "csv_rest (publish_row d1) = csv_rest d1" "input_ok (publish_row d1)" "input_fits (publish_row d1) = input_fits d1"
    "input_total (publish_row d1) = input_total d1"
    using d1(1) by (simp_all add: p csv_rest_def input_ok_def input_fits_def input_total_def)
  have unfinished: "\<not> dec_finished d1"
    using assms(1) d1(4,5) by (auto simp: decoder_ok_def rows_to_read_def)
  show "decoder_ok (publish_row d1)"
    using assms(1) d1 same after unfinished by (simp add: decoder_ok_def) (simp add: p)
  show "batch_holds (publish_row d1) (taken @ [current_row d1])" using pub(1) by (simp add: batch_holds_def) (simp add: p)
  show "fill_kept d (publish_row d1)" using kept after by (simp add: load_kept_def fill_kept_def) (simp add: p)
  show "rows_left d rows \<longleftrightarrow> (\<exists>rest. rows = current_row d1 # rest \<and> rows_left (publish_row d1) rest)"
    unfolding left rows_left_def [of "publish_row d1"] after using assms(4) by (auto simp: p same)
  show "rows_to_read (publish_row d1) + 1 \<le> rows_to_read d" using d1(5) by (simp add: rows_to_read_def [of "publish_row d1"] after) (simp add: p)
qed

lemma fill_rows_answers:
  assumes "decoder_ok d" and "batch_holds d taken"
  shows "answers (input_fits d \<and> (\<exists>rows. rows_left d rows)) (fill_rows n d) (rows_filled n d taken)"
  using assms
proof (induction n arbitrary: d taken)
  case 0
  then show ?case by (simp add: rows_filled_none fill_kept_def)
next
  case (Suc n)
  show ?case
    unfolding fill_rows.simps
  proof (rule answers_following [OF load_row_answers [OF Suc.prems(1)]], goal_cases)
    case (1 r)
    obtain found d1 where r: "r = (found, d1)" by (cases r)
    note got = 1 [unfolded r]
    show ?case
    proof (cases found)
      case False
      with row_loaded_end [OF Suc.prems(1) _ Suc.prems(2)] got show ?thesis by (simp add: r)
    next
      case True
      have got: "row_loaded d (True, d1)" using got True by simp
      have limits: "dec_limits d1 = dec_limits d" and fits: "input_fits d \<Longrightarrow> input_fits d1"
        and same: "dec_schema d1 = dec_schema d" using got by (simp_all add: row_loaded_def load_kept_def)
      have within: "dec_row_text d1 \<le> limit_batch_text (dec_limits d)" if "\<exists>rows. rows_left d rows"
        using that got by (auto simp: row_loaded_def)
      show ?thesis
      proof (cases "dec_row_text d1 \<le> limit_batch_text (dec_limits d)")
        case False
        with within show ?thesis by (auto simp: r True limits)
      next
        case small: True
        show ?thesis
        proof (cases "limit_batch_text (dec_limits d) < length (dec_text d1) + dec_row_text d1")
          case full: True
          with row_loaded_pending [OF Suc.prems(1) got Suc.prems(2) small full] small show ?thesis by (simp add: r True limits)
        next
          case room: False
          note pub = row_loaded_published [OF Suc.prems(1) got Suc.prems(2) small]
          have "answers (input_fits d \<and> (\<exists>rows. rows_left d rows)) (fill_rows n (publish_row d1)) (rows_filled (Suc n) d taken)"
          proof (rule answers_weaken [OF Suc.IH [OF pub(1,2)]])
            show "input_fits (publish_row d1) \<and> (\<exists>rows. rows_left (publish_row d1) rows)" if "input_fits d \<and> (\<exists>rows. rows_left d rows)"
              using that pub(3,4) by (auto simp: fill_kept_def)
          qed (use rows_filled_one [OF _ pub(3,4,5)] in blast)
          with room small show ?thesis by (simp add: r True limits)
        qed
      qed
    qed
  qed
qed

end
