(* ===== verification/Csv_Decoding.thy ===== *)
theory Csv_Decoding
  imports Csv_Filling
begin

text \<open>
  The whole decoder: the header gives the columns, the batches give the rows, and together they
  are the document's.
\<close>

section \<open>Documents\<close>

definition names_distinct :: "column_declaration list \<Rightarrow> bool" where
  "names_distinct schema \<longleftrightarrow> distinct (map (\<lambda>c. map ascii_lower (decl_name c)) schema)"

definition column_named :: "column_declaration list \<Rightarrow> nat \<Rightarrow> csv_text \<Rightarrow> bool" where
  "column_named schema m t \<longleftrightarrow> m < length schema \<and> same_name (decl_name (schema ! m)) (csv_content t)"

definition header_maps :: "column_declaration list \<Rightarrow> nat list \<Rightarrow> csv_text list \<Rightarrow> bool" where
  "header_maps schema mapping ts \<longleftrightarrow> distinct mapping \<and> length ts = length schema \<and> list_all2 (column_named schema) mapping ts"

text \<open>A document: a header that names every column once, and lines that hold the rows.\<close>

definition csv_document :: "column_declaration list \<Rightarrow> csv_limits \<Rightarrow> u8 list \<Rightarrow> cell list list \<Rightarrow> bool" where
  "csv_document schema l bytes rows \<longleftrightarrow>
     (\<exists>header e lines mapping.
        bytes = render_lines ((header, e) # lines) \<and> lines_ok ((header, e) # lines) \<and> record_fits l (length schema) header e
        \<and> header_maps schema mapping header \<and> list_all2 (row_fits schema l mapping) lines rows \<and> length rows \<le> limit_rows l)"

section \<open>The header\<close>

lemma find_column_none: "find_column p cs = None \<longleftrightarrow> (\<forall>c \<in> set cs. \<not> p c)"
  by (induction cs) auto

lemma find_column_some: "find_column p cs = Some i \<Longrightarrow> i < length cs \<and> p (cs ! i)"
  by (induction cs arbitrary: i) (auto split: if_splits)

lemma column_named_unique:
  assumes "names_distinct schema" and "column_named schema m t" and "column_named schema m' t"
  shows "m' = m"
proof (rule ccontr)
  assume "m' \<noteq> m"
  with assms show False by (simp add: names_distinct_def column_named_def same_name_def distinct_conv_nth) metis
qed

lemma columns_named_unique:
  assumes "names_distinct schema" and "list_all2 (column_named schema) ms ts" and "list_all2 (column_named schema) ms' ts"
  shows "ms' = ms"
proof (rule nth_equalityI)
  show "length ms' = length ms" using assms(2,3) by (simp add: list_all2_lengthD)
  show "ms' ! i = ms ! i" if "i < length ms'" for i
    using that assms(2,3) column_named_unique [OF assms(1), of "ms ! i" "ts ! i"] by (simp add: list_all2_conv_all_nth)
qed

lemma map_columns_maps:
  assumes "list_all2 (field_holds (dec_decoded d)) fs ts" and "names_distinct (dec_schema d)"
  shows "case map_columns d fs used of
      Inl e \<Rightarrow> \<not> (\<exists>ms. distinct (used @ ms) \<and> list_all2 (column_named (dec_schema d)) ms ts)
    | Inr mapping \<Rightarrow> \<exists>ms. mapping = used @ ms \<and> (distinct used \<longrightarrow> distinct (used @ ms)) \<and> list_all2 (column_named (dec_schema d)) ms ts"
  using assms(1)
proof (induction fs arbitrary: ts used)
  case (Cons f fs)
  obtain t ts' where ts: "ts = t # ts'" "field_holds (dec_decoded d) f t" "list_all2 (field_holds (dec_decoded d)) fs ts'"
    using Cons.prems by (cases ts) auto
  have bytes: "field_bytes_of d f = csv_content t" using ts(2) by (simp add: field_bytes_of_def field_holds_def)
  let ?p = "\<lambda>c. same_name (decl_name c) (field_bytes_of d f)"
  show ?case
  proof (cases "find_column ?p (dec_schema d)")
    case None
    then have "\<not> column_named (dec_schema d) m t" for m
      using bytes nth_mem [of m "dec_schema d"] by (auto simp: find_column_none column_named_def)
    then show ?thesis using None ts(1) by (auto simp: list_all2_Cons2)
  next
    case (Some column)
    then have named: "column_named (dec_schema d) column t"
      using find_column_some [OF Some] bytes by (simp add: column_named_def)
    note only = column_named_unique [OF assms(2) named]
    show ?thesis
    proof (cases "column \<in> set used")
      case True
      with only show ?thesis by (auto simp: Some ts(1) list_all2_Cons2)
    next
      case False
      note ih = Cons.IH [OF ts(3), of "used @ [column]"]
      show ?thesis
      proof (cases "map_columns d fs (used @ [column])")
        case (Inl e)
        have "\<not> (distinct (used @ ms) \<and> list_all2 (column_named (dec_schema d)) ms (t # ts'))" for ms
        proof
          assume ms: "distinct (used @ ms) \<and> list_all2 (column_named (dec_schema d)) ms (t # ts')"
          then obtain m ms' where "ms = m # ms'" "column_named (dec_schema d) m t" "list_all2 (column_named (dec_schema d)) ms' ts'"
            by (auto simp: list_all2_Cons2)
          with only ms have "distinct ((used @ [column]) @ ms')" by auto
          with ih Inl \<open>list_all2 (column_named (dec_schema d)) ms' ts'\<close> show False by auto
        qed
        with Inl False show ?thesis by (simp add: Some ts(1))
      next
        case (Inr mapping)
        with ih obtain ms where "mapping = used @ column # ms" "distinct (used @ [column]) \<longrightarrow> distinct (used @ column # ms)"
          "list_all2 (column_named (dec_schema d)) ms ts'" by auto
        with Inr False named show ?thesis by (auto simp: Some ts(1))
      qed
    qed
  qed
qed simp

lemma header_maps_order: "header_maps schema mapping ts \<Longrightarrow> column_order (length schema) mapping"
proof -
  assume h: "header_maps schema mapping ts"
  have sub: "set mapping \<subseteq> {0..<length schema}"
    using h by (auto simp: header_maps_def column_named_def list_all2_conv_all_nth in_set_conv_nth)
  have "card (set mapping) = length schema" using h list_all2_lengthD by (fastforce simp: header_maps_def distinct_card)
  then have "set mapping = {0..<length schema}" using card_subset_eq [OF _ sub] by simp
  with h show ?thesis by (simp add: column_order_def header_maps_def)
qed

section \<open>The table left\<close>

definition decoder_ready :: "csv_decoder \<Rightarrow> bool" where
  "decoder_ready d \<longleftrightarrow>
     names_distinct (dec_schema d) \<and> 0 < limit_batch_rows (dec_limits d)
     \<and> (if dec_header d then decoder_ok d
        else input_ok d \<and> dec_schema d \<noteq> [] \<and> length (dec_row d) = length (dec_schema d) \<and> dec_rows d = 0 \<and> \<not> dec_pending d \<and> \<not> dec_finished d)"

definition table_left :: "csv_decoder \<Rightarrow> cell list list \<Rightarrow> bool" where
  "table_left d rows \<longleftrightarrow>
     (if dec_header d then rows_left d rows else csv_document (dec_schema d) (dec_limits d) (csv_rest d) rows)"

definition header_read :: "csv_decoder \<Rightarrow> csv_decoder \<Rightarrow> bool" where
  "header_read d d' \<longleftrightarrow>
     decoder_ok d' \<and> dec_header d' \<and> dec_schema d' = dec_schema d \<and> dec_limits d' = dec_limits d \<and> dec_failed d' = dec_failed d
     \<and> dec_cells d' = dec_cells d \<and> dec_text d' = dec_text d \<and> input_total d' = input_total d \<and> (input_fits d \<longrightarrow> input_fits d')
     \<and> (\<forall>rows. table_left d rows \<longleftrightarrow> rows_left d' rows) \<and> rows_to_read d' \<le> rows_to_read d"

text \<open>A document whose first record is known.\<close>

lemma csv_document_header:
  assumes "first_record bytes ts e later" and "bytes \<noteq> []" and "record_fits l (length schema) ts e" and "header_maps schema mapping ts"
    and "names_distinct schema"
  shows "csv_document schema l bytes rows \<longleftrightarrow> csv_rows schema l mapping later rows \<and> length rows \<le> limit_rows l"
proof
  assume "csv_document schema l bytes rows"
  then obtain ts' e' lines mapping' where doc: "bytes = render_lines ((ts', e') # lines)" "lines_ok ((ts', e') # lines)"
    "header_maps schema mapping' ts'" "list_all2 (row_fits schema l mapping') lines rows" "length rows \<le> limit_rows l"
    unfolding csv_document_def by blast
  from lines_ok_first(1) [OF doc(2)] doc(1) have "first_record bytes ts' e' (render_lines lines)" by simp
  with assms(1) have same: "ts' = ts" "render_lines lines = later" using first_record_unique by blast+
  have "mapping' = mapping" using columns_named_unique [OF assms(5)] assms(4) doc(3) same(1) by (auto simp: header_maps_def)
  with doc same show "csv_rows schema l mapping later rows \<and> length rows \<le> limit_rows l" by (auto simp: csv_rows_def)
next
  assume r: "csv_rows schema l mapping later rows \<and> length rows \<le> limit_rows l"
  then obtain lines where lines: "later = render_lines lines" "lines_ok lines" "list_all2 (row_fits schema l mapping) lines rows"
    by (auto simp: csv_rows_def)
  have "lines = [] \<and> render_line ts \<noteq> []" if "e = []"
  proof -
    from that assms(1) have "later = []" "bytes = render_line ts" by (simp_all add: first_record_def)
    with assms(2) lines(1,2) lines_ok_empty show ?thesis by auto
  qed
  with lines assms(1) have "bytes = render_lines ((ts, e) # lines)" "lines_ok ((ts, e) # lines)" by (auto simp: first_record_def)
  with lines(3) assms(3,4) r show "csv_document schema l bytes rows" unfolding csv_document_def by blast
qed

end
