(* ===== verification/Csv_Delivery.thy ===== *)
theory Csv_Delivery
  imports Csv_Decoding
begin

text \<open>Reading the header, drawing batches until the input ends, and what they hold.\<close>

section \<open>Reading the header\<close>

lemma read_header_done:
  assumes "decoder_ready d" and "\<not> dec_header d" and "record_read d (True, d1)" and "first_record (csv_rest d) ts e (csv_rest d1)"
    and "record_fits (dec_limits d) (length (dec_schema d)) ts e" and "record_decoded d1 ts d2"
    and "header_maps (dec_schema d) mapping ts"
  shows "header_read d (d2\<lparr>dec_mapping := mapping, dec_header := True\<rparr>)"
proof -
  let ?d = "d2\<lparr>dec_mapping := mapping, dec_header := True\<rparr>"
  have ready: "names_distinct (dec_schema d)" "input_ok d" "dec_schema d \<noteq> []" "length (dec_row d) = length (dec_schema d)" "dec_rows d = 0"
    "\<not> dec_pending d" "\<not> dec_finished d" using assms(1,2) by (simp_all add: decoder_ready_def)
  note p1 = record_read_parts [OF assms(3)]
  note p2 = record_decoded_parts [OF assms(6) p1(13)]
  have kept: "load_kept d d2" by (rule load_kept_trans [OF p1(12) p2(1)])
  have rest: "csv_rest ?d = csv_rest d1" "input_total ?d = input_total d2" "input_fits ?d = input_fits d2" "input_ok ?d"
    using p2(2,3) by (simp_all add: csv_rest_def input_total_def input_fits_def input_ok_def)
  have nonempty: "csv_rest d \<noteq> []" using assms(3) by (simp add: record_read_def)
  have "scan_bytes ScanStart (PlainText []) [] (csv_rest d) = Some (ts, e, csv_rest d1)" using assms(4) by (simp add: first_record_scan)
  from scan_bytes_sound(6) [OF this] nonempty have shorter: "length (csv_rest d1) \<le> length (csv_rest d)" by (simp add: state_fits_def)
  have order: "column_order (length (dec_schema d)) mapping" by (rule header_maps_order [OF assms(7)])
  have ok: "decoder_ok ?d"
    using ready order kept rest(4) p1 p2 by (simp add: decoder_ok_def load_kept_def)
  have left: "table_left d rows \<longleftrightarrow> rows_left ?d rows" for rows
    using csv_document_header [OF assms(4) nonempty assms(5,7) ready(1), of rows] assms(2) ready kept
    by (simp add: table_left_def rows_left_def rest(1) load_kept_def)
  have "rows_to_read ?d \<le> rows_to_read d"
    using shorter kept by (simp add: rows_to_read_def rest(1) load_kept_def)
  with ok left kept rest show ?thesis by (simp add: header_read_def load_kept_def)
qed

lemma csv_document_first:
  assumes "csv_document schema l bytes rows"
  obtains ts e later mapping where "first_record bytes ts e later" "bytes \<noteq> []" "record_fits l (length schema) ts e" "header_maps schema mapping ts"
  using assms lines_ok_first unfolding csv_document_def by metis

lemma read_header_answers:
  assumes "decoder_ready d"
  shows "answers (input_fits d \<and> (\<exists>rows. table_left d rows)) (read_header d) (header_read d)"
proof (cases "dec_header d")
  case True
  with assms show ?thesis by (simp add: read_header_def header_read_def decoder_ready_def table_left_def)
next
  case False
  have ready: "names_distinct (dec_schema d)" "input_ok d" "dec_schema d \<noteq> []"
    using assms False by (simp_all add: decoder_ready_def)
  have doc: "csv_document (dec_schema d) (dec_limits d) (csv_rest d) rows" if "table_left d rows" for rows
    using that False by (simp add: table_left_def)
  have read: "answers (input_fits d \<and> (\<exists>rows. table_left d rows)) (read_csv_record d) (record_read d)"
    by (rule answers_grant [OF read_csv_record_answers [OF ready(2)]]) (metis doc csv_document_first)
  show ?thesis
    unfolding read_header_def if_not_P [OF False]
  proof (rule answers_following [OF read], goal_cases)
    case (1 r)
    obtain found d1 where r: "r = (found, d1)" by (cases r)
    note got = 1 [unfolded r]
    note p1 = record_read_parts [OF got]
    show ?case
    proof (cases found)
      case False
      with got have "csv_rest d = []" by (simp add: record_read_def)
      with doc csv_document_first have "\<not> (\<exists>rows. table_left d rows)" by metis
      then show ?thesis by (simp add: r False)
    next
      case True
      have got: "record_read d (True, d1)" using got True by simp
      obtain ts e where ts: "first_record (csv_rest d) ts e (csv_rest d1)" "record_fits (dec_limits d) (length (dec_schema d)) ts e"
        "dec_raw d1 = render_line ts" "dec_fields d1 = field_marks (dec_offset d) 0 ts"
        using got by (auto simp: record_read_def)
      have granted: "\<exists>mapping. header_maps (dec_schema d) mapping ts" "steady (dec_source d1)"
        if g: "input_fits d \<and> (\<exists>rows. table_left d rows)"
      proof -
        from g doc obtain rows where "csv_document (dec_schema d) (dec_limits d) (csv_rest d) rows" by blast
        from csv_document_first [OF this] obtain ts' e' later mapping where "first_record (csv_rest d) ts' e' later"
          "header_maps (dec_schema d) mapping ts'" by metis
        with first_record_unique ts(1) show "\<exists>mapping. header_maps (dec_schema d) mapping ts" by blast
        show "steady (dec_source d1)" using g got by (simp add: record_read_def input_fits_def)
      qed
      have "answers (input_fits d \<and> (\<exists>rows. table_left d rows)) (following (decode_fields d1) (\<lambda>d. following (Some (map_header d))
          (\<lambda>d. Some (Inr (d\<lparr>dec_header := True\<rparr>))))) (header_read d)"
      proof (rule answers_following [OF answers_grant [OF decode_fields_answers [OF ts(3,4) utf8_record [OF ts(2)]] granted(2)]], goal_cases)
        case (2 d2)
        note p2 = record_decoded_parts [OF 2 p1(13)]
        have schema: "dec_schema d2 = dec_schema d" using p1 p2 by simp
        have holds: "list_all2 (field_holds (dec_decoded d2)) (dec_fields d2) ts" using 2 by (simp add: record_decoded_def)
        have len: "length ts = length (dec_schema d)" using ts(2) by (simp add: record_fits_def)
        note maps = map_columns_maps [OF holds, of "[]", unfolded schema, OF ready(1)]
        show ?case
        proof (cases "map_columns d2 (dec_fields d2) []")
          case (Inl x)
          with maps have "\<not> (\<exists>mapping. header_maps (dec_schema d) mapping ts)" by (auto simp: header_maps_def)
          with granted(1) Inl show ?thesis by (auto simp: map_header_def attempt_def)
        next
          case (Inr mapping)
          with maps len have "header_maps (dec_schema d) mapping ts" by (auto simp: header_maps_def)
          from read_header_done [OF assms \<open>\<not> dec_header d\<close> got ts(1,2) 2 this] Inr show ?thesis by (simp add: map_header_def attempt_def)
        qed
      qed simp
      then show ?thesis by (simp add: r True)
    qed
  qed
qed

section \<open>A batch\<close>

definition rows_of_batch :: "input_batch \<Rightarrow> cell option option list list" where
  "rows_of_batch b = map (\<lambda>row. map (batch_value b row) [0..<batch_columns b]) [0..<batch_row_count b]"

lemma length_concat_rows: "\<forall>row \<in> set rows. length row = n \<Longrightarrow> length (concat rows) = n * length rows"
  by (induction rows) auto

lemma nth_concat_rows:
  "\<forall>row \<in> set rows. length row = n \<Longrightarrow> r < length rows \<Longrightarrow> c < n \<Longrightarrow> concat rows ! (r * n + c) = rows ! r ! c"
proof (induction rows arbitrary: r)
  case (Cons row rows)
  then show ?case by (cases r) (auto simp: nth_append)
qed simp

lemma rows_of_batch_held:
  assumes "cells_held txs cells n rows" and "0 < n"
  shows "rows_of_batch \<lparr>batch_cells = cells, batch_text = txs, batch_columns = n\<rparr> = map (map (\<lambda>c. Some (Some c))) rows"
proof -
  let ?b = "\<lparr>batch_cells = cells, batch_text = txs, batch_columns = n\<rparr>"
  have uniform: "\<forall>row \<in> set rows. length row = n" and held: "map (input_value txs) cells = concat rows"
    using assms(1) by (simp_all add: cells_held_def)
  have len: "length cells = n * length rows" using length_concat_rows [OF uniform] arg_cong [OF held, of length] by simp
  then have rows_counted: "batch_row_count ?b = length rows" using assms(2) by (simp add: batch_row_count_def)
  show ?thesis
  proof (rule nth_equalityI)
    show "length (rows_of_batch ?b) = length (map (map (\<lambda>c. Some (Some c))) rows)" by (simp add: rows_of_batch_def rows_counted)
    fix r
    assume "r < length (rows_of_batch ?b)"
    then have r: "r < length rows" by (simp add: rows_of_batch_def rows_counted)
    have row: "length (rows ! r) = n" using uniform r by simp
    show "rows_of_batch ?b ! r = map (map (\<lambda>c. Some (Some c))) rows ! r"
    proof (rule nth_equalityI)
      show "length (rows_of_batch ?b ! r) = length (map (map (\<lambda>c. Some (Some c))) rows ! r)" using r row by (simp add: rows_of_batch_def rows_counted)
      fix c
      assume "c < length (rows_of_batch ?b ! r)"
      then have c: "c < n" using r by (simp add: rows_of_batch_def rows_counted)
      have "r * n + c < n * length rows"
      proof -
        have "r * n + c < Suc r * n" using c by simp
        also have "\<dots> \<le> length rows * n" using r by (intro mult_le_mono1) simp
        finally show ?thesis by (simp add: mult.commute)
      qed
      then have v: "input_value txs (cells ! (r * n + c)) = rows ! r ! c" and "cell_inside txs (cells ! (r * n + c))"
        using nth_concat_rows [OF uniform r c] len assms(1) by (simp_all add: held [symmetric] cells_held_def list_all_length)
      then have "input_value txs (cells ! (r * n + c)) = StringCell s \<Longrightarrow> utf8 s" for s
        by (cases "cells ! (r * n + c)") (auto simp: cell_inside_def input_value_def)
      then show "rows_of_batch ?b ! r ! c = map (map (\<lambda>c. Some (Some c))) rows ! r ! c"
        using r c row v by (auto simp: rows_of_batch_def rows_counted batch_value_def split: cell.splits)
    qed
  qed
qed

text \<open>What drawing a batch does: its rows are the next ones, and without a batch none is left.\<close>

definition batch_drawn :: "csv_decoder \<Rightarrow> input_batch option \<times> csv_decoder \<Rightarrow> bool" where
  "batch_drawn d r \<longleftrightarrow>
     decoder_ready (snd r) \<and> \<not> dec_failed (snd r) \<and> dec_schema (snd r) = dec_schema d \<and> dec_limits (snd r) = dec_limits d
     \<and> input_total (snd r) = input_total d \<and> (input_fits d \<longrightarrow> input_fits (snd r))
     \<and> (\<exists>fresh. (\<forall>rows. table_left d rows \<longleftrightarrow> (\<exists>rest. rows = fresh @ rest \<and> table_left (snd r) rest))
          \<and> rows_to_read (snd r) + length fresh \<le> rows_to_read d
          \<and> (case fst r of
               None \<Rightarrow> fresh = [] \<and> dec_header (snd r) \<and> dec_finished (snd r)
             | Some b \<Rightarrow> fresh \<noteq> [] \<and> rows_of_batch b = map (map (\<lambda>c. Some (Some c))) fresh))"

lemma checked_same:
  assumes "d' = d\<lparr>dec_source := dec_source d'\<rparr>" and "src_bytes (dec_source d') = src_bytes (dec_source d)"
    and "steady (dec_source d) \<longrightarrow> steady (dec_source d')"
  obtains src where "d' = d\<lparr>dec_source := src\<rparr>" "src_bytes src = src_bytes (dec_source d)" "steady (dec_source d) \<longrightarrow> steady src"
  using assms by blast

text \<open>Starting a batch and checking for cancellation change nothing that is left.\<close>

definition same_left :: "csv_decoder \<Rightarrow> csv_decoder \<Rightarrow> bool" where
  "same_left d d' \<longleftrightarrow>
     (decoder_ready d \<longrightarrow> decoder_ready d') \<and> dec_schema d' = dec_schema d \<and> dec_limits d' = dec_limits d \<and> input_total d' = input_total d
     \<and> (input_fits d \<longrightarrow> input_fits d') \<and> (\<forall>rows. table_left d' rows \<longleftrightarrow> table_left d rows) \<and> rows_to_read d' = rows_to_read d
     \<and> dec_header d' = dec_header d \<and> dec_finished d' = dec_finished d"

lemma same_left_update:
  assumes "src_bytes src = src_bytes (dec_source d)" and "steady (dec_source d) \<longrightarrow> steady src"
  shows "same_left d (d\<lparr>dec_source := src, dec_failed := failed, dec_cells := cells, dec_text := txs\<rparr>)"
proof -
  let ?d = "d\<lparr>dec_source := src, dec_failed := failed, dec_cells := cells, dec_text := txs\<rparr>"
  have rest: "csv_rest ?d = csv_rest d" "current_row ?d = current_row d" "\<And>row. row_held ?d row = row_held d row"
    using assms(1) by (simp_all add: csv_rest_def current_row_def row_held_def)
  have "decoder_ok d \<Longrightarrow> decoder_ok ?d" by (simp add: decoder_ok_def input_ok_def rest)
  moreover have "decoder_ready d \<Longrightarrow> decoder_ok d \<longrightarrow> decoder_ok ?d \<Longrightarrow> decoder_ready ?d"
    by (auto simp: decoder_ready_def input_ok_def rest split: if_splits)
  moreover have "table_left ?d rows \<longleftrightarrow> table_left d rows" for rows by (simp add: table_left_def rows_left_def rest)
  ultimately show ?thesis
    using assms(2) by (simp add: same_left_def input_total_def input_fits_def rest rows_to_read_def)
qed

lemma checked_left:
  "answers (input_fits d) (Some (csv_check d))
    (\<lambda>d'. same_left d d' \<and> dec_cells d' = dec_cells d \<and> dec_text d' = dec_text d \<and> dec_failed d' = dec_failed d)"
proof (rule answers_weaken [OF csv_check_answers])
  fix d'
  assume c: "d' = d\<lparr>dec_source := dec_source d'\<rparr> \<and> src_bytes (dec_source d') = src_bytes (dec_source d)
      \<and> (steady (dec_source d) \<longrightarrow> steady (dec_source d'))"
  then obtain src where d': "d' = d\<lparr>dec_source := src\<rparr>" "src_bytes src = src_bytes (dec_source d)" "steady (dec_source d) \<longrightarrow> steady src"
    by (metis checked_same)
  with same_left_update [OF d'(2,3), where failed = "dec_failed d" and cells = "dec_cells d" and txs = "dec_text d"]
  show "same_left d d' \<and> dec_cells d' = dec_cells d \<and> dec_text d' = dec_text d \<and> dec_failed d' = dec_failed d" by simp
qed (simp add: input_fits_def)

lemma fill_batch_answers:
  assumes "decoder_ready d"
  shows "answers (input_fits d \<and> (\<exists>rows. table_left d rows)) (fill_batch d)
    (\<lambda>d'. decoder_ready d' \<and> dec_header d' \<and> dec_schema d' = dec_schema d \<and> dec_limits d' = dec_limits d
      \<and> input_total d' = input_total d \<and> (input_fits d \<longrightarrow> input_fits d')
      \<and> (\<exists>fresh. cells_held (dec_text d') (dec_cells d') (length (dec_schema d)) fresh
          \<and> (\<forall>rows. table_left d rows \<longleftrightarrow> (\<exists>rest. rows = fresh @ rest \<and> table_left d' rest))
          \<and> rows_to_read d' + length fresh \<le> rows_to_read d \<and> (fresh = [] \<longrightarrow> dec_finished d')))"
  (is "answers ?granted _ ?post")
  unfolding fill_batch_def
proof (rule answers_following [OF answers_grant [OF checked_left]], goal_cases)
  case (2 d1)
  define d2 where "d2 = d1\<lparr>dec_cells := [], dec_text := []\<rparr>"
  have "same_left d1 d2"
    using same_left_update [of "dec_source d1" d1, where failed = "dec_failed d1" and cells = "[]" and txs = "[]"] by (simp add: d2_def)
  with 2 have s: "same_left d d2" by (auto simp: same_left_def)
  have ready: "decoder_ready d2" using s assms by (simp add: same_left_def)
  have empty: "dec_cells d2 = []" "dec_text d2 = []" by (simp_all add: d2_def)
  have "answers ?granted (if dec_finished d2 then Some (Inr d2) else following (read_header d2) (fill_rows (limit_batch_rows (dec_limits d2)))) ?post"
  proof (rule answers_if)
    assume fin: "dec_finished d2"
    then have "dec_header d2" using ready by (auto simp: decoder_ready_def split: if_splits)
    with fin s ready empty show "answers ?granted (Some (Inr d2)) ?post"
      by (auto simp: same_left_def cells_held_def intro!: exI [of _ "[]"])
  next
    assume "\<not> dec_finished d2"
    have granted: "?granted \<Longrightarrow> input_fits d2 \<and> (\<exists>rows. table_left d2 rows)" using s by (simp add: same_left_def)
    show "answers ?granted (following (read_header d2) (fill_rows (limit_batch_rows (dec_limits d2)))) ?post"
    proof (rule answers_following [OF answers_grant [OF read_header_answers [OF ready] granted]], goal_cases)
      case (2 d3)
      have ok: "decoder_ok d3" and h: "dec_header d3" "dec_schema d3 = dec_schema d" "dec_limits d3 = dec_limits d"
        "input_total d3 = input_total d" "input_fits d \<Longrightarrow> input_fits d3" "dec_cells d3 = []" "dec_text d3 = []"
        "\<And>rows. table_left d rows \<longleftrightarrow> rows_left d3 rows" "rows_to_read d3 \<le> rows_to_read d"
        using 2 s empty by (simp_all add: header_read_def same_left_def)
      have "batch_holds d3 []" by (simp add: batch_holds_def cells_held_def h)
      note fill = fill_rows_answers [OF ok this, of "limit_batch_rows (dec_limits d2)"]
      show ?case
      proof (rule answers_weaken [OF fill])
        show "input_fits d3 \<and> (\<exists>rows. rows_left d3 rows)" if ?granted using that h by auto
        fix d'
        assume "rows_filled (limit_batch_rows (dec_limits d2)) d3 [] d'"
        then obtain fresh where f: "decoder_ok d'" "fill_kept d3 d'" "batch_holds d' fresh"
          "\<And>rows. rows_left d3 rows \<longleftrightarrow> (\<exists>rest. rows = fresh @ rest \<and> rows_left d' rest)" "rows_to_read d' + length fresh \<le> rows_to_read d3"
          "fresh = [] \<Longrightarrow> 0 < limit_batch_rows (dec_limits d2) \<Longrightarrow> dec_finished d'"
          by (auto simp: rows_filled_def)
        have k: "dec_header d'" "dec_schema d' = dec_schema d" "dec_limits d' = dec_limits d" "input_total d' = input_total d"
          "input_fits d \<Longrightarrow> input_fits d'" using f(2) h by (simp_all add: fill_kept_def)
        have r2: "names_distinct (dec_schema d)" "0 < limit_batch_rows (dec_limits d)" using assms by (simp_all add: decoder_ready_def)
        have ready': "decoder_ready d'" using f(1) k r2 by (simp add: decoder_ready_def)
        have "table_left d' rest \<longleftrightarrow> rows_left d' rest" for rest using k(1) by (simp add: table_left_def)
        moreover have "dec_limits d2 = dec_limits d" using s by (simp add: same_left_def)
        ultimately show "?post d'"
          using ready' k f h(8,9) r2 by (auto simp: batch_holds_def intro!: exI [of _ fresh])
      qed
    qed
  qed
  then show ?case by (simp only: d2_def Let_def)
qed simp

lemma next_batch_answers:
  assumes "decoder_ready d" and "\<not> dec_failed d"
  shows "answers (input_fits d \<and> (\<exists>rows. table_left d rows)) (next_batch d) (batch_drawn d)"
proof -
  define d0 where "d0 = d\<lparr>dec_failed := True\<rparr>"
  have "same_left d d0" using same_left_update [of "dec_source d" d, where failed = True and cells = "dec_cells d" and txs = "dec_text d"]
    by (simp add: d0_def)
  then have s0: "same_left d d0" .
  have ready: "decoder_ready d0" using s0 assms(1) by (simp add: same_left_def)
  have granted: "input_fits d \<and> (\<exists>rows. table_left d rows) \<Longrightarrow> input_fits d0 \<and> (\<exists>rows. table_left d0 rows)"
    using s0 by (simp add: same_left_def)
  show ?thesis
    unfolding next_batch_def if_not_P [OF assms(2)] d0_def [symmetric]
  proof (rule answers_following [OF answers_grant [OF fill_batch_answers [OF ready] granted]], goal_cases)
    case (2 d1)
    then obtain fresh where f: "cells_held (dec_text d1) (dec_cells d1) (length (dec_schema d0)) fresh"
      "\<And>rows. table_left d0 rows \<longleftrightarrow> (\<exists>rest. rows = fresh @ rest \<and> table_left d1 rest)"
      "rows_to_read d1 + length fresh \<le> rows_to_read d0" "fresh = [] \<Longrightarrow> dec_finished d1"
      and d1: "decoder_ready d1" "dec_header d1" "dec_schema d1 = dec_schema d0" "dec_limits d1 = dec_limits d0"
      "input_total d1 = input_total d0" "input_fits d0 \<Longrightarrow> input_fits d1" by blast
    have granted1: "input_fits d1" if "input_fits d \<and> (\<exists>rows. table_left d rows)" using that s0 d1(6) by (simp add: same_left_def)
    show ?case
    proof (rule answers_following [OF answers_grant [OF checked_left granted1]], goal_cases)
      case (2 d2)
      then have c: "same_left d1 d2" "dec_cells d2 = dec_cells d1" "dec_text d2 = dec_text d1" by simp_all
      define d3 where "d3 = d2\<lparr>dec_failed := False\<rparr>"
      have "same_left d2 d3" using same_left_update [of "dec_source d2" d2, where failed = False and cells = "dec_cells d2" and txs = "dec_text d2"] by (simp add: d3_def)
      with c(1) have s3: "same_left d1 d3" by (auto simp: same_left_def)
      define n where "n = length (dec_schema d)"
      have schema: "dec_schema d0 = dec_schema d" "dec_schema d2 = dec_schema d" using s0 c(1) d1(3) by (simp_all add: same_left_def)
      have columns: "0 < n"
        using assms(1) by (auto simp: decoder_ready_def n_def decoder_ok_def split: if_splits)
      have held: "cells_held (dec_text d2) (dec_cells d2) n fresh" using f(1) c(2,3) schema by (simp add: n_def)
      have empty: "dec_cells d2 = [] \<longleftrightarrow> fresh = []"
      proof -
        have "length (dec_cells d2) = n * length fresh"
          using held length_concat_rows [of fresh n] by (metis cells_held_def length_map)
        then show ?thesis using columns by auto
      qed
      define b where "b = (if dec_cells d2 = [] then None else Some \<lparr>batch_cells = dec_cells d2, batch_text = dec_text d2, batch_columns = n\<rparr>)"
      have "case b of None \<Rightarrow> fresh = [] \<and> dec_header d3 \<and> dec_finished d3 | Some b \<Rightarrow> fresh \<noteq> [] \<and> rows_of_batch b = map (map (\<lambda>c. Some (Some c))) fresh"
        using empty rows_of_batch_held [OF held columns] f(4) s3 d1(2) by (auto simp: b_def same_left_def)
      then have "batch_drawn d (b, d3)"
      proof -
        have "\<forall>rows. table_left d rows \<longleftrightarrow> (\<exists>rest. rows = fresh @ rest \<and> table_left d3 rest)"
          using f(2) s0 s3 by (simp add: same_left_def)
        moreover have "rows_to_read d3 + length fresh \<le> rows_to_read d" using f(3) s0 s3 by (simp add: same_left_def)
        moreover have "decoder_ready d3" "dec_schema d3 = dec_schema d" "dec_limits d3 = dec_limits d" "input_total d3 = input_total d"
          "input_fits d \<longrightarrow> input_fits d3" using s0 s3 d1 by (simp_all add: same_left_def)
        moreover have "\<not> dec_failed d3" by (simp add: d3_def)
        ultimately show "batch_drawn d (b, d3)"
          unfolding batch_drawn_def fst_conv snd_conv
          using \<open>case b of None \<Rightarrow> fresh = [] \<and> dec_header d3 \<and> dec_finished d3
            | Some b \<Rightarrow> fresh \<noteq> [] \<and> rows_of_batch b = map (map (\<lambda>c. Some (Some c))) fresh\<close> by blast
      qed
      then show ?case by (simp add: b_def d3_def n_def schema split: if_splits)
    qed
  qed
qed

section \<open>Decoding a document\<close>

text \<open>A caller that draws batches until there is none; fuel bounds their number.\<close>

fun decode_all :: "nat \<Rightarrow> csv_decoder \<Rightarrow> input_batch list checked" where
  "decode_all 0 d = None"
| "decode_all (Suc n) d =
     following (next_batch d) (\<lambda>(b, d).
       case b of
         None \<Rightarrow> Some (Inr [])
       | Some b \<Rightarrow> following (decode_all n d) (\<lambda>bs. Some (Inr (b # bs))))"

lemma decode_all_answers:
  assumes "decoder_ready d" and "\<not> dec_failed d" and "rows_to_read d < n"
  shows "answers (input_fits d \<and> (\<exists>rows. table_left d rows)) (decode_all n d)
    (\<lambda>bs. input_total d \<le> limit_input (dec_limits d)
      \<and> (\<exists>rows. concat (map rows_of_batch bs) = map (map (\<lambda>c. Some (Some c))) rows \<and> (\<forall>rows'. table_left d rows' \<longleftrightarrow> rows' = rows)))"
  using assms
proof (induction n arbitrary: d)
  case (Suc n)
  show ?case
    unfolding decode_all.simps
  proof (rule answers_following [OF next_batch_answers [OF Suc.prems(1,2)]], goal_cases)
    case (1 r)
    obtain b d1 where r: "r = (b, d1)" by (cases r)
    obtain fresh where d1: "decoder_ready d1" "\<not> dec_failed d1" "dec_limits d1 = dec_limits d" "input_total d1 = input_total d"
      "input_fits d \<Longrightarrow> input_fits d1" and left: "\<And>rows. table_left d rows \<longleftrightarrow> (\<exists>rest. rows = fresh @ rest \<and> table_left d1 rest)"
      and fewer: "rows_to_read d1 + length fresh \<le> rows_to_read d"
      and b: "case b of None \<Rightarrow> fresh = [] \<and> dec_header d1 \<and> dec_finished d1 | Some b \<Rightarrow> fresh \<noteq> [] \<and> rows_of_batch b = map (map (\<lambda>c. Some (Some c))) fresh"
      using 1 unfolding r batch_drawn_def fst_conv snd_conv by blast
    show ?case
    proof (cases b)
      case None
      with b d1(1) have ok: "decoder_ok d1" "dec_header d1" "dec_finished d1" "fresh = []" by (auto simp: decoder_ready_def)
      then have "table_left d1 rest \<longleftrightarrow> rest = []" for rest
        by (auto simp: table_left_def rows_left_def decoder_ok_def csv_rows_end)
      moreover have "input_total d1 \<le> limit_input (dec_limits d1)" using ok by (simp add: decoder_ok_def input_ok_def input_total_def)
      ultimately show ?thesis using left ok(4) d1(3,4) by (auto simp: r None)
    next
      case (Some batch)
      with b have fresh: "fresh \<noteq> []" "rows_of_batch batch = map (map (\<lambda>c. Some (Some c))) fresh" by simp_all
      then have "rows_to_read d1 < n" using fewer Suc.prems(3) by (cases fresh) simp_all
      note ih = Suc.IH [OF d1(1,2) this]
      have granted: "input_fits d1 \<and> (\<exists>rows. table_left d1 rows)" if "input_fits d \<and> (\<exists>rows. table_left d rows)"
        using that d1(5) left by auto
      have "answers (input_fits d \<and> (\<exists>rows. table_left d rows)) (following (decode_all n d1) (\<lambda>bs. Some (Inr (batch # bs))))
          (\<lambda>bs. input_total d \<le> limit_input (dec_limits d)
            \<and> (\<exists>rows. concat (map rows_of_batch bs) = map (map (\<lambda>c. Some (Some c))) rows \<and> (\<forall>rows'. table_left d rows' \<longleftrightarrow> rows' = rows)))"
      proof (rule answers_following [OF answers_grant [OF ih granted]], goal_cases)
        case (2 bs)
        then obtain rows where "concat (map rows_of_batch bs) = map (map (\<lambda>c. Some (Some c))) rows" "\<And>rows'. table_left d1 rows' \<longleftrightarrow> rows' = rows"
          "input_total d \<le> limit_input (dec_limits d)" using d1(3,4) by auto
        then show ?case using fresh(2) left by (auto intro!: exI [of _ "fresh @ rows"])
      qed
      then show ?thesis by (simp add: r Some)
    qed
  qed
qed simp

end
