(* ===== verification/Csv_Correct.thy ===== *)
theory Csv_Correct
  imports Csv_Delivery
begin

text \<open>
  A new decoder delivers exactly the rows of a document in the declared format, for every reader
  and every way it cuts the bytes.
\<close>

section \<open>A new decoder\<close>

lemma check_names_distinct:
  "check_names before cs = Inr u \<Longrightarrow> distinct (map (\<lambda>c. map ascii_lower (decl_name c)) before) \<Longrightarrow>
    distinct (map (\<lambda>c. map ascii_lower (decl_name c)) (before @ cs))"
proof (induction before cs rule: check_names.induct)
  case (2 before c cs)
  have parts: "check_names (before @ [c]) cs = Inr u" "valid_name (decl_name c)"
    "\<not> (\<exists>other \<in> set before. same_name (decl_name other) (decl_name c))" using 2(2) by (auto split: if_splits)
  have "distinct (map (\<lambda>c. map ascii_lower (decl_name c)) (before @ [c]))"
    using 2(3) parts(3) by (auto simp: same_name_def)
  with 2(1) parts show ?case by simp
qed simp

lemma new_decoder_ready:
  assumes "new_decoder grant macos object_size cell_size src schema l memory_limit = Inr d"
  shows "decoder_ready d" and "\<not> dec_failed d" and "dec_schema d = schema" and "dec_limits d = l" and "csv_rest d = src_bytes src"
    and "dec_offset d = 0" and "\<not> dec_header d" and "\<not> dec_pending d" and "steady src \<Longrightarrow> steady (dec_source d)"
proof -
  obtain src1 bytes src2 where polls: "csv_poll src = Inr src1" "csv_poll src1 = Inr src2"
    and memory: "required_memory macos object_size cell_size schema l = Inr bytes"
    and d: "d = \<lparr>dec_source = src2, dec_schema = schema, dec_limits = l, dec_memory = bytes, dec_buffer = [], dec_input_finished = False,
           dec_offset = 0, dec_record_start = 0, dec_raw = [], dec_decoded = [], dec_fields = [],
           dec_mapping = replicate (length schema) 0, dec_row = replicate (length schema) NullInput, dec_row_text = 0,
           dec_cells = [], dec_text = [], dec_rows = 0, dec_header = False, dec_pending = False, dec_finished = False,
           dec_failed = False\<rparr>"
    using assms by (auto simp: new_decoder_def attempt_def Let_def split: sum.splits if_splits)
  have src: "src_bytes src2 = src_bytes src" "steady src \<Longrightarrow> steady src2"
    using csv_source_poll [of src] csv_source_poll [of src1] polls by simp_all
  obtain u where schema: "schema \<noteq> []" "check_names [] schema = Inr u" "\<not> limits_invalid l"
    using memory by (auto simp: required_memory_def attempt_def split: sum.splits if_splits)
  have "names_distinct schema" using check_names_distinct [OF schema(2)] by (simp add: names_distinct_def)
  moreover have "0 < limit_batch_rows l" using schema(3) by (simp add: limits_invalid_def)
  ultimately show "decoder_ready d" using schema(1) by (simp add: d decoder_ready_def input_ok_def)
  show "\<not> dec_failed d" "dec_schema d = schema" "dec_limits d = l" "dec_offset d = 0" "\<not> dec_header d" "\<not> dec_pending d"
    "csv_rest d = src_bytes src" by (simp_all add: d csv_rest_def src(1))
  show "steady (dec_source d)" if "steady src" using src(2) that by (simp add: d)
qed

text \<open>C39: For every allocator and reader, however it cuts the bytes and interrupts, the batches of a new CSV decoder hold exactly the rows of the
  document that the bytes render, which is then the only one, or the decoder reports an error; it never fails an assertion, it
  ends, and over a steady reader it reports an error only when the bytes exceed the input limit or are no document of the
  declared schema within the limits.\<close>

theorem csv_decoder_decodes:
  assumes "new_decoder grant macos object_size cell_size src schema l memory_limit = Inr d"
  shows "answers (steady src \<and> length (src_bytes src) \<le> limit_input l \<and> (\<exists>rows. csv_document schema l (src_bytes src) rows))
    (decode_all (length (src_bytes src) + 1) d)
    (\<lambda>bs. length (src_bytes src) \<le> limit_input l
      \<and> (\<exists>rows. concat (map rows_of_batch bs) = map (map (\<lambda>c. Some (Some c))) rows
          \<and> (\<forall>rows'. csv_document schema l (src_bytes src) rows' \<longleftrightarrow> rows' = rows)))"
proof -
  note d = new_decoder_ready [OF assms]
  have "rows_to_read d < length (src_bytes src) + 1" using d(5,8) by (simp add: rows_to_read_def)
  note all = decode_all_answers [OF d(1,2) this]
  have total: "input_total d = length (src_bytes src)" using d(5,6) by (simp add: input_total_def)
  have left: "table_left d rows \<longleftrightarrow> csv_document schema l (src_bytes src) rows" for rows using d(3,4,5,7) by (simp add: table_left_def)
  have fits: "input_fits d" if "steady src" "length (src_bytes src) \<le> limit_input l"
    using that d(4,5,6,9) by (simp add: input_fits_def)
  show ?thesis
    by (rule answers_weaken [OF all]) (use fits total left d(4) in auto)
qed

definition csv_sample_source :: csv_source where
  "csv_sample_source = \<lparr>src_bytes = [97, 10, 55, 10], src_reads = [ReadInterrupted, ReadUpTo 1], src_polls = [False]\<rparr>"

definition csv_sample_column :: column_declaration where
  "csv_sample_column = \<lparr>decl_name = [65], decl_type = Int64Type, decl_nullable = False\<rparr>"

definition csv_sample_limits :: csv_limits where
  "csv_sample_limits =
     \<lparr>limit_input = 4, limit_rows = 1, limit_record = 8, limit_field = 8, limit_batch_rows = 2, limit_batch_text = 8\<rparr>"

lemma csv_sample_decoder: "\<exists>d. new_decoder Some False 1000 24 csv_sample_source [csv_sample_column] csv_sample_limits 1000000 = Inr d"
proof -
  have "check_names [] [csv_sample_column] = Inr ()" by code_simp
  moreover have "\<not> limits_invalid csv_sample_limits"
    by (simp add: limits_invalid_def csv_sample_limits_def max_field_bytes_def max_csv_record_bytes_def)
  ultimately have memory: "required_memory False 1000 24 [csv_sample_column] csv_sample_limits = Inr 66608"
    by (simp add: required_memory_def attempt_def max_columns_def buffer_charge_def checked_add_def csv_sample_limits_def del: check_names.simps)
  have "allocate_buffer Some item n n owner l = Inr ()" if "n * item < 2 ^ 64" for item n owner l
    using that by (simp add: allocate_buffer_def)
  moreover have "limit_record csv_sample_limits = 8" "limit_batch_rows csv_sample_limits = 2" "limit_batch_text csv_sample_limits = 8"
    by (simp_all add: csv_sample_limits_def)
  ultimately show ?thesis
    by (simp add: new_decoder_def attempt_def memory csv_poll_def csv_sample_source_def Let_def)
qed

lemma csv_sample_document: "csv_document [csv_sample_column] csv_sample_limits [97, 10, 55, 10] [[Int64Cell 7]]"
proof -
  have "utf8 [97]" "utf8 [55]" by code_simp+
  moreover have "parse_i64 [55] = Some 7" by code_simp
  ultimately show ?thesis
    unfolding csv_document_def
    by (intro exI [of _ "[PlainText [97]]"] exI [of _ "[10]"] exI [of _ "[([PlainText [55]], [10])]"] exI [of _ "[0]"])
      (simp add: line_endings_def record_fits_def header_maps_def column_named_def same_name_def row_fits_def csv_row_def typed_text_def
        null_text_def cell_text_def csv_sample_column_def csv_sample_limits_def ascii_lower_def)
qed

theorem csv_decoder_decodes_witness:
  "\<exists>d bs. new_decoder Some False 1000 24 csv_sample_source [csv_sample_column] csv_sample_limits 1000000 = Inr d
    \<and> decode_all 5 d = Some (Inr bs) \<and> concat (map rows_of_batch bs) = [[Some (Some (Int64Cell 7))]]"
proof -
  from csv_sample_decoder obtain d where d: "new_decoder Some False 1000 24 csv_sample_source [csv_sample_column] csv_sample_limits 1000000 = Inr d" by blast
  have "steady csv_sample_source" by (simp add: csv_sample_source_def steady_def calm_def)
  moreover have bytes: "src_bytes csv_sample_source = [97, 10, 55, 10]" "length [97, 10, 55, 10 :: u8] + 1 = 5" by (simp_all add: csv_sample_source_def)
  moreover have "length [97, 10, 55, 10 :: u8] \<le> limit_input csv_sample_limits" by (simp add: csv_sample_limits_def)
  moreover note csv_sample_document csv_decoder_decodes [OF d, unfolded bytes]
  ultimately show ?thesis using d by (auto elim!: answersE simp del: decode_all.simps)
qed

end
