(* ===== verification/Storage_Schema.thy ===== *)
theory Storage_Schema
  imports Query_Types Format_Base Column_Names Checked_Calls
begin

text \<open>
  A declared table's column definitions as stored bytes (src/storage/schema.rs): the encoder,
  the decoder that checks a record before lending it, and the view that decodes a column at a
  time. \<open>None\<close> is a panic.
\<close>

section \<open>Columns\<close>

record column_spec =
  spec_id :: u32
  spec_name :: "u8 list"
  spec_type :: data_type
  spec_nullable :: bool

definition schema_max_columns :: nat where "schema_max_columns = 64"
definition schema_max_name :: nat where "schema_max_name = 32"
definition schema_header :: nat where "schema_header = 64"
definition schema_column_bytes :: nat where "schema_column_bytes = 48"
definition schema_magic :: "u8 list" where "schema_magic = [80, 83, 81, 76, 83, 67, 72, 77]"
definition schema_format :: u32 where "schema_format = 6"
definition schema_max_bytes :: nat where "schema_max_bytes = schema_header + schema_max_columns * schema_column_bytes"

definition table_id_new :: "u64 \<Rightarrow> format_error + u64" where
  "table_id_new n = (if n = 0 then Inl FmtIdentity else Inr n)"

definition column_id_new :: "u32 \<Rightarrow> format_error + u32" where
  "column_id_new n = (if n = 0 then Inl FmtIdentity else Inr n)"

definition validate_name :: "u8 list \<Rightarrow> format_error + unit" where
  "validate_name name = (if valid_name name then Inr () else Inl FmtField)"

definition column_spec_new :: "u32 \<Rightarrow> u8 list \<Rightarrow> data_type \<Rightarrow> bool \<Rightarrow> format_error + column_spec" where
  "column_spec_new i name kind nullable =
     attempt (validate_name name) (\<lambda>_. Inr \<lparr>spec_id = i, spec_name = name, spec_type = kind, spec_nullable = nullable\<rparr>)"

definition valid_extent :: "nat \<Rightarrow> bool" where
  "valid_extent n \<longleftrightarrow>
     schema_header + schema_column_bytes \<le> n \<and> n \<le> schema_max_bytes \<and> (n - schema_header) mod schema_column_bytes = 0"

definition schema_extent :: "nat \<Rightarrow> format_error + nat" where
  "schema_extent n =
     (if n = 0 \<or> schema_max_columns < n then Inl FmtField else Inr (n * schema_column_bytes + schema_header))"

fun type_tag :: "data_type \<Rightarrow> u8" where
  "type_tag Int64Type = 1"
| "type_tag DoubleType = 2"
| "type_tag StringType = 3"
| "type_tag DateType = 4"

definition type_of_tag :: "u8 \<Rightarrow> format_error + data_type" where
  "type_of_tag tag =
     (if tag = 1 then Inr Int64Type else if tag = 2 then Inr DoubleType else if tag = 3 then Inr StringType
      else if tag = 4 then Inr DateType else Inl FmtField)"

section \<open>Encoding\<close>

definition repeats :: "column_spec list \<Rightarrow> column_spec \<Rightarrow> bool" where
  "repeats earlier c \<longleftrightarrow> (\<exists>p \<in> set earlier. spec_id c = spec_id p \<or> same_name (spec_name c) (spec_name p))"

fun check_columns :: "column_spec list \<Rightarrow> column_spec list \<Rightarrow> format_error + unit" where
  "check_columns earlier [] = Inr ()"
| "check_columns earlier (c # cs) = (if repeats earlier c then Inl FmtField else check_columns (earlier @ [c]) cs)"

definition encode_column :: "column_spec \<Rightarrow> u8 list \<Rightarrow> u8 list" where
  "encode_column c bytes =
     (let bytes = put bytes 0 (u32_bytes (spec_id c));
          bytes = put bytes 4 [type_tag (spec_type c)];
          bytes = put bytes 5 [of_bool (spec_nullable c)];
          bytes = put bytes 6 [word_of_nat (length (spec_name c))]
      in put bytes 8 (spec_name c))"

fun encode_columns :: "nat \<Rightarrow> column_spec list \<Rightarrow> u8 list \<Rightarrow> u8 list" where
  "encode_columns at [] bytes = bytes"
| "encode_columns at (c # cs) bytes =
     encode_columns (at + schema_column_bytes) cs (put bytes at (encode_column c (slice bytes at schema_column_bytes)))"

text \<open>The encoded length and the caller's buffer.\<close>

definition encode_schema ::
    "u8 list \<Rightarrow> database_id \<Rightarrow> u64 \<Rightarrow> column_spec list \<Rightarrow> format_error + nat \<times> u8 list" where
  "encode_schema out db table cs =
     attempt (schema_extent (length cs)) (\<lambda>n.
     if length out < n then Inl FmtLength
     else
       attempt (check_columns [] cs) (\<lambda>_.
         let bytes = replicate n 0;
             bytes = put bytes 0 schema_magic;
             bytes = put_u32 bytes 8 schema_format;
             bytes = put_u32 bytes 12 (word_of_nat (length cs));
             bytes = put bytes 16 (id_bytes db);
             bytes = put_u64 bytes 32 table
         in Inr (n, put out 0 (encode_columns schema_header cs bytes))))"

section \<open>Decoding\<close>

definition decode_column :: "u8 list \<Rightarrow> format_error + column_spec" where
  "decode_column bytes =
     attempt (column_id_new (u32_of_bytes (slice bytes 0 4))) (\<lambda>i.
     attempt (type_of_tag (bytes ! 4)) (\<lambda>kind.
     if 1 < bytes ! 5 \<or> bytes ! 7 \<noteq> 0 \<or> \<not> all_zero (drop 40 bytes) then Inl FmtField
     else
       let n = unat (bytes ! 6) in
       if n = 0 \<or> schema_max_name < n then Inl FmtField
       else if \<not> all_zero (slice bytes (8 + n) (32 - n)) then Inl FmtReserved
       else if \<not> utf8 (slice bytes 8 n) then Inl FmtField
       else column_spec_new i (slice bytes 8 n) kind (bytes ! 5 \<noteq> 0)))"

fun decode_columns :: "column_spec list \<Rightarrow> u8 list list \<Rightarrow> format_error + unit" where
  "decode_columns earlier [] = Inr ()"
| "decode_columns earlier (b # bs) =
     attempt (decode_column b) (\<lambda>c. if repeats earlier c then Inl FmtField else decode_columns (earlier @ [c]) bs)"

record storage_schema =
  schema_bytes :: "u8 list"
  schema_table :: u64
  schema_columns :: nat

definition column_record :: "u8 list \<Rightarrow> nat \<Rightarrow> u8 list" where
  "column_record bytes i = slice bytes (schema_header + schema_column_bytes * i) schema_column_bytes"

definition decode_schema :: "u8 list \<Rightarrow> database_id \<Rightarrow> u64 \<Rightarrow> u32 \<Rightarrow> format_error + storage_schema" where
  "decode_schema bytes db table expected_crc =
     (if length bytes < 12 then Inl FmtLength
      else if slice bytes 0 8 \<noteq> schema_magic then Inl FmtMagic
      else if u32_of_bytes (slice bytes 8 4) \<noteq> schema_format then Inl FmtVersion
      else if length bytes < schema_header \<or> schema_max_bytes < length bytes then Inl FmtLength
      else if crc32c bytes \<noteq> expected_crc then Inl FmtChecksum
      else if slice bytes 16 16 \<noteq> id_bytes db \<or> u64_of_bytes (slice bytes 32 8) \<noteq> table then Inl FmtIdentity
      else if \<not> all_zero (slice bytes 40 24) then Inl FmtReserved
      else
        let n = unat (u32_of_bytes (slice bytes 12 4)) in
        attempt (schema_extent n) (\<lambda>m.
        if length bytes \<noteq> m then Inl FmtLength
        else
          attempt (decode_columns [] (map (column_record bytes) [0..<n])) (\<lambda>_.
            Inr \<lparr>schema_bytes = bytes, schema_table = table, schema_columns = n\<rparr>)))"

section \<open>The view\<close>

definition schema_database :: "storage_schema \<Rightarrow> database_id option" where
  "schema_database s =
     (case new_database_id (slice (schema_bytes s) 16 16) of Inl e \<Rightarrow> None | Inr db \<Rightarrow> Some db)"

text \<open>The outer \<open>None\<close> is the panic on a record that does not decode.\<close>

definition schema_column :: "storage_schema \<Rightarrow> nat \<Rightarrow> column_spec option option" where
  "schema_column s ordinal =
     (if schema_columns s \<le> ordinal then Some None
      else case decode_column (column_record (schema_bytes s) ordinal) of Inl e \<Rightarrow> None | Inr c \<Rightarrow> Some (Some c))"

end
