(* ===== verification/Native_Unit.thy ===== *)
theory Native_Unit
  imports Storage_Schema Object_Refs Date_Value Checked_Calls
begin

text \<open>
  A unit file stores a batch of rows column by column (src/storage/unit.rs): a checksummed
  metadata block with a descriptor for each column, then the columns' payloads. The definitions
  cover the writer, which reads back what it wrote, the reader of the metadata and of one column,
  and the typed accessors. \<open>None\<close> is a panic; sizes are \<open>nat\<close>.
\<close>

section \<open>Values\<close>

datatype unit_values =
    Int64Slice "u64 list" | DoubleSlice "u64 list" | StringSlice "u8 list list" | DateSlice "date_value list"

fun values_len :: "unit_values \<Rightarrow> nat" where
  "values_len (Int64Slice v) = length v"
| "values_len (DoubleSlice v) = length v"
| "values_len (StringSlice v) = length v"
| "values_len (DateSlice v) = length v"

fun values_kind :: "unit_values \<Rightarrow> data_type" where
  "values_kind (Int64Slice v) = Int64Type"
| "values_kind (DoubleSlice v) = DoubleType"
| "values_kind (StringSlice v) = StringType"
| "values_kind (DateSlice v) = DateType"

record unit_column =
  in_id :: u32
  in_values :: unit_values
  in_validity :: "u8 list"

definition unit_header :: nat where "unit_header = 64"
definition descriptor_bytes :: nat where "descriptor_bytes = 32"
definition unit_magic :: "u8 list" where "unit_magic = [80, 83, 81, 76, 68, 65, 84, 65]"
definition unit_format :: u32 where "unit_format = 6"
definition max_unit_rows :: nat where "max_unit_rows = 32768"
definition max_column_bytes :: nat where "max_column_bytes = 524288"
definition max_value_bytes :: nat where "max_value_bytes = 65536"
definition max_metadata_bytes :: nat where "max_metadata_bytes = unit_header + descriptor_bytes * schema_max_columns"
definition max_unit_bytes :: nat where "max_unit_bytes = max_metadata_bytes + schema_max_columns * max_column_bytes"

record unit_ref =
  unit_object :: object_id
  unit_rows :: u32
  unit_extent :: u32
  unit_crc :: u32

definition unit_ref_new :: "object_id \<Rightarrow> u32 \<Rightarrow> u32 \<Rightarrow> u32 \<Rightarrow> format_error + unit_ref" where
  "unit_ref_new i rows bytes crc =
     (if rows = 0 \<or> max_unit_rows < unat rows \<or> unat bytes < unit_header + descriptor_bytes \<or> max_unit_bytes < unat bytes
      then Inl FmtField
      else Inr \<lparr>unit_object = i, unit_rows = rows, unit_extent = bytes, unit_crc = crc\<rparr>)"

section \<open>Payload sizes\<close>

definition bitmap_bytes :: "nat \<Rightarrow> nat" where
  "bitmap_bytes rows = (rows + 7) div 8"

definition row_valid :: "u8 list \<Rightarrow> nat \<Rightarrow> bool" where
  "row_valid bits row = bit (bits ! (row div 8)) (row mod 8)"

definition check_bitmap :: "u8 list \<Rightarrow> nat \<Rightarrow> bool \<Rightarrow> format_error + unit" where
  "check_bitmap bits rows nullable =
     (if length bits \<noteq> bitmap_bytes rows then Inl FmtLength
      else if rows mod 8 \<noteq> 0 \<and> drop_bit (rows mod 8) (bits ! (length bits - 1)) \<noteq> 0 then Inl FmtReserved
      else if \<not> nullable \<and> (\<exists>row < rows. \<not> row_valid bits row) then Inl FmtField
      else Inr ())"

fun find_spec :: "storage_schema \<Rightarrow> u32 \<Rightarrow> nat list \<Rightarrow> (format_error + column_spec) option" where
  "find_spec s i [] = Some (Inl FmtIdentity)"
| "find_spec s i (ordinal # ordinals) =
     (case schema_column s ordinal of
        None \<Rightarrow> None
      | Some None \<Rightarrow> find_spec s i ordinals
      | Some (Some c) \<Rightarrow> if spec_id c = i then Some (Inr c) else find_spec s i ordinals)"

definition schema_spec :: "storage_schema \<Rightarrow> u32 \<Rightarrow> (format_error + column_spec) option" where
  "schema_spec s i = find_spec s i [0..<schema_columns s]"

definition fixed_width :: "data_type \<Rightarrow> nat option" where
  "fixed_width kind = (case kind of Int64Type \<Rightarrow> Some 8 | DoubleType \<Rightarrow> Some 8 | DateType \<Rightarrow> Some 4 | StringType \<Rightarrow> None)"

definition column_capacity :: "data_type \<Rightarrow> nat" where
  "column_capacity kind =
     (case fixed_width kind of None \<Rightarrow> max_column_bytes | Some w \<Rightarrow> bitmap_bytes max_unit_rows + max_unit_rows * w)"

definition invalid_input :: "format_error \<Rightarrow> db_error" where
  "invalid_input e = Corrupt ''native unit construction input is invalid''"

definition within :: "nat \<Rightarrow> nat \<Rightarrow> string \<Rightarrow> db_error + unit" where
  "within needed most owner =
     (if most < needed then Inl (ResourceError owner (word_of_nat needed) (word_of_nat most)) else Inr ())"

definition unit_size :: "nat \<Rightarrow> db_error + nat" where
  "unit_size n = (if n < 2 ^ 64 then Inr n else Inl (invalid_input FmtOverflow))"

fun unit_text_total :: "u8 list \<Rightarrow> nat \<Rightarrow> nat \<Rightarrow> nat \<Rightarrow> u8 list list \<Rightarrow> db_error + nat" where
  "unit_text_total bits rows row bytes [] = Inr bytes"
| "unit_text_total bits rows row bytes (t # ts) =
     (if row_valid bits row then
        attempt (within (length t) max_value_bytes ''native text value bytes'') (\<lambda>_.
        attempt (unit_size (bytes + length t)) (\<lambda>bytes.
        attempt (within (bitmap_bytes rows + bytes) max_column_bytes ''native column bytes'') (\<lambda>_.
          unit_text_total bits rows (row + 1) bytes ts)))
      else unit_text_total bits rows (row + 1) bytes ts)"

definition payload_length :: "unit_column \<Rightarrow> column_spec \<Rightarrow> nat \<Rightarrow> db_error + nat" where
  "payload_length c spec rows =
     (if values_len (in_values c) \<noteq> rows \<or> values_kind (in_values c) \<noteq> spec_type spec then Inl (invalid_input FmtField)
      else
        attempt (map_error invalid_input (check_bitmap (in_validity c) rows (spec_nullable spec))) (\<lambda>_.
        attempt (case in_values c of
            StringSlice texts \<Rightarrow> attempt (unit_size ((rows + 1) * 4)) (\<lambda>n. unit_text_total (in_validity c) rows 0 n texts)
          | _ \<Rightarrow> unit_size (rows * the (fixed_width (spec_type spec)))) (\<lambda>values_bytes.
        attempt (unit_size (bitmap_bytes rows + values_bytes)) (\<lambda>n.
        attempt (within n max_column_bytes ''native column bytes'') (\<lambda>_. Inr n)))))"

section \<open>Payloads\<close>

text \<open>The end offsets of the texts and their bytes; a null text is empty.\<close>

fun text_slots :: "u8 list \<Rightarrow> nat \<Rightarrow> nat \<Rightarrow> u8 list list \<Rightarrow> (u8 list \<times> u8 list) option" where
  "text_slots bits row offset [] = Some ([], [])"
| "text_slots bits row offset (t # ts) =
     (let piece = (if row_valid bits row then t else []); offset = offset + length piece in
      if 2 ^ 32 \<le> offset then None
      else map_option (\<lambda>(offsets, bytes). (u32_bytes (word_of_nat offset) @ offsets, piece @ bytes)) (text_slots bits (row + 1) offset ts))"

fun fixed_slots :: "u8 list \<Rightarrow> nat \<Rightarrow> nat \<Rightarrow> u8 list list \<Rightarrow> u8 list" where
  "fixed_slots bits width row [] = []"
| "fixed_slots bits width row (v # vs) =
     (if row_valid bits row then v else replicate width 0) @ fixed_slots bits width (row + 1) vs"

definition date_bytes :: "date_value \<Rightarrow> u8 list" where
  "date_bytes d = u32_bytes (word_of_int (days d))"

text \<open>The payload of \<open>n\<close> bytes; another length would fail the assertion or a copy.\<close>

definition encode_payload :: "nat \<Rightarrow> unit_column \<Rightarrow> u8 list option" where
  "encode_payload n c =
     (let bits = in_validity c;
          bytes = (case in_values c of
              StringSlice v \<Rightarrow> map_option (\<lambda>(offsets, texts). bits @ u32_bytes 0 @ offsets @ texts) (text_slots bits 0 0 v)
            | Int64Slice v \<Rightarrow> Some (bits @ fixed_slots bits 8 0 (map u64_bytes v))
            | DoubleSlice v \<Rightarrow> Some (bits @ fixed_slots bits 8 0 (map u64_bytes v))
            | DateSlice v \<Rightarrow> Some (bits @ fixed_slots bits 4 0 (map date_bytes v)))
      in case bytes of None \<Rightarrow> None | Some bytes \<Rightarrow> if length bytes = n then Some bytes else None)"

section \<open>Columns\<close>

text \<open>
  Bytes under the layout of their kind. A payload too short for its slots panics: at once here, at
  the row it does not reach in the source. The descriptors that were checked exclude it.
\<close>

record column_view =
  col_bytes :: "u8 list"
  col_rows :: nat
  col_kind :: data_type

definition u32_at :: "u8 list \<Rightarrow> nat \<Rightarrow> u32" where
  "u32_at bytes at = u32_of_bytes (slice bytes at 4)"

definition u64_at :: "u8 list \<Rightarrow> nat \<Rightarrow> u64" where
  "u64_at bytes at = u64_of_bytes (slice bytes at 8)"

fun check_texts :: "u8 list \<Rightarrow> nat \<Rightarrow> u8 list \<Rightarrow> nat list \<Rightarrow> nat \<Rightarrow> format_error + nat" where
  "check_texts bytes validity strings [] prior = Inr prior"
| "check_texts bytes validity strings (row # rows) prior =
     (let stop = unat (u32_at bytes (validity + (row + 1) * 4)) in
      if stop < prior \<or> length strings < stop \<or> max_value_bytes < stop - prior then Inl FmtField
      else if \<not> row_valid bytes row \<and> stop \<noteq> prior then Inl FmtField
      else if \<not> utf8 (slice strings prior (stop - prior)) then Inl FmtField
      else check_texts bytes validity strings rows stop)"

definition date_at :: "u8 list \<Rightarrow> nat \<Rightarrow> date_value option" where
  "date_at bytes at = from_days (sint (u32_at bytes at))"

fun check_slots :: "u8 list \<Rightarrow> nat \<Rightarrow> nat \<Rightarrow> bool \<Rightarrow> nat list \<Rightarrow> format_error + unit" where
  "check_slots bytes validity width is_date [] = Inr ()"
| "check_slots bytes validity width is_date (row # rows) =
     (if \<not> row_valid bytes row then
        if all_zero (slice bytes (validity + row * width) width) then check_slots bytes validity width is_date rows else Inl FmtReserved
      else if is_date \<and> date_at bytes (validity + row * width) = None then Inl FmtField
      else check_slots bytes validity width is_date rows)"

definition column_validate :: "bool \<Rightarrow> column_view \<Rightarrow> (format_error + unit) option" where
  "column_validate nullable v =
     (let bytes = col_bytes v; rows = col_rows v; validity = bitmap_bytes rows in
      if length bytes < validity then None
      else
        case check_bitmap (take validity bytes) rows nullable of
          Inl e \<Rightarrow> Some (Inl e)
        | Inr _ \<Rightarrow>
            case fixed_width (col_kind v) of
              None \<Rightarrow>
                let base = validity + (rows + 1) * 4; strings = drop base bytes in
                if length bytes < base then None
                else if u32_at bytes validity \<noteq> 0 then Some (Inl FmtField)
                else Some (attempt (check_texts bytes validity strings [0..<rows] 0) (\<lambda>prior.
                  if prior \<noteq> length strings then Inl FmtLength else Inr ()))
            | Some width \<Rightarrow>
                if length bytes < validity + rows * width then None
                else Some (check_slots bytes validity width (col_kind v = DateType) [0..<rows]))"

definition column_present :: "column_view \<Rightarrow> nat \<Rightarrow> data_type \<Rightarrow> format_error + bool" where
  "column_present v row kind =
     (if col_kind v \<noteq> kind \<or> col_rows v \<le> row then Inl FmtField else Inr (row_valid (col_bytes v) row))"

definition column_int64 :: "column_view \<Rightarrow> nat \<Rightarrow> format_error + u64 option" where
  "column_int64 v row =
     attempt (column_present v row Int64Type) (\<lambda>present.
       Inr (if present then Some (u64_at (col_bytes v) (bitmap_bytes (col_rows v) + row * 8)) else None))"

definition column_double :: "column_view \<Rightarrow> nat \<Rightarrow> format_error + u64 option" where
  "column_double v row =
     attempt (column_present v row DoubleType) (\<lambda>present.
       Inr (if present then Some (u64_at (col_bytes v) (bitmap_bytes (col_rows v) + row * 8)) else None))"

text \<open>An accessor of a date or a text panics on bytes that were not validated.\<close>

definition column_date :: "column_view \<Rightarrow> nat \<Rightarrow> (format_error + date_value option) option" where
  "column_date v row =
     (case column_present v row DateType of
        Inl e \<Rightarrow> Some (Inl e)
      | Inr present \<Rightarrow>
          if present then
            (case date_at (col_bytes v) (bitmap_bytes (col_rows v) + row * 4) of None \<Rightarrow> None | Some d \<Rightarrow> Some (Inr (Some d)))
          else Some (Inr None))"

definition column_string :: "column_view \<Rightarrow> nat \<Rightarrow> (format_error + u8 list option) option" where
  "column_string v row =
     (case column_present v row StringType of
        Inl e \<Rightarrow> Some (Inl e)
      | Inr present \<Rightarrow>
          if present then
            let validity = bitmap_bytes (col_rows v); base = validity + (col_rows v + 1) * 4;
                start = unat (u32_at (col_bytes v) (validity + row * 4)); stop = unat (u32_at (col_bytes v) (validity + (row + 1) * 4));
                txs = slice (col_bytes v) (base + start) (stop - start)
            in if stop < start \<or> length (col_bytes v) < base + stop \<or> \<not> utf8 txs then None else Some (Inr (Some txs))
          else Some (Inr None))"

end
