(* ===== verification/Unit_File.thy ===== *)
theory Unit_File
  imports Native_Unit
begin

text \<open>
  Writing a unit into an empty private file and reading it back (src/storage/unit.rs). Calls on
  the file and cancellation checks take their outcomes from lists; when a list is over, calls
  succeed and nothing cancels.
\<close>

section \<open>The file\<close>

record unit_host =
  uh_file :: "u8 list"
  uh_regular :: bool
  uh_links :: nat
  uh_calls :: "bool list"
  uh_polls :: "bool list"

definition unit_poll :: "unit_host \<Rightarrow> db_error + unit_host" where
  "unit_poll h =
     (case uh_polls h of
        [] \<Rightarrow> Inr h
      | cancelled # polls \<Rightarrow> if cancelled then Inl Cancelled else Inr (h\<lparr>uh_polls := polls\<rparr>))"

definition unit_call :: "string \<Rightarrow> unit_host \<Rightarrow> db_error + unit_host" where
  "unit_call what h =
     (case uh_calls h of
        [] \<Rightarrow> Inr h
      | fails # calls \<Rightarrow> if fails then Inl (IoError what) else Inr (h\<lparr>uh_calls := calls\<rparr>))"

definition file_put :: "u8 list \<Rightarrow> nat \<Rightarrow> u8 list \<Rightarrow> u8 list" where
  "file_put content off bytes =
     (let content = content @ replicate (off + length bytes - length content) 0 in put content off bytes)"

definition write_all_at :: "unit_host \<Rightarrow> u8 list \<Rightarrow> nat \<Rightarrow> db_error + unit_host" where
  "write_all_at h bytes off =
     attempt (unit_call ''write catalog object'' h) (\<lambda>h.
       if 2 ^ 63 \<le> off + length bytes then Inl (IoError ''write catalog object'')
       else Inr (h\<lparr>uh_file := file_put (uh_file h) off bytes\<rparr>))"

definition read_exact_at :: "unit_host \<Rightarrow> nat \<Rightarrow> nat \<Rightarrow> db_error + u8 list \<times> unit_host" where
  "read_exact_at h n off =
     attempt (unit_call ''read catalog object'' h) (\<lambda>h.
       if 2 ^ 63 \<le> off + n \<or> length (uh_file h) < off + n then Inl (IoError ''read catalog object'')
       else Inr (slice (uh_file h) off n, h))"

section \<open>Requirements\<close>

record unit_needs =
  need_rows :: nat
  need_metadata :: nat
  need_column :: nat
  need_unit :: nat

definition checked_spec :: "storage_schema \<Rightarrow> u32 \<Rightarrow> column_spec checked" where
  "checked_spec s i = map_option (map_error invalid_input) (schema_spec s i)"

fun require_columns ::
    "storage_schema \<Rightarrow> nat \<Rightarrow> u32 list \<Rightarrow> unit_column list \<Rightarrow> nat \<Rightarrow> nat \<Rightarrow> unit_host \<Rightarrow> (nat \<times> nat \<times> unit_host) checked" where
  "require_columns s rows earlier [] column_bytes used_bytes h = Some (Inr (column_bytes, used_bytes, h))"
| "require_columns s rows earlier (c # cs) column_bytes used_bytes h =
     following (Some (unit_poll h)) (\<lambda>h.
     if in_id c \<in> set earlier then Some (Inl (invalid_input FmtIdentity))
     else
       following (checked_spec s (in_id c)) (\<lambda>spec.
       following (Some (payload_length c spec rows)) (\<lambda>n.
       following (Some (unit_size (used_bytes + n))) (\<lambda>used_bytes.
         require_columns s rows (earlier @ [in_id c]) cs (max column_bytes n) used_bytes h))))"

definition requirements :: "storage_schema \<Rightarrow> unit_column list \<Rightarrow> unit_host \<Rightarrow> (unit_needs \<times> unit_host) checked" where
  "requirements s cs h =
     following (Some (unit_poll h)) (\<lambda>h.
     if length cs \<noteq> schema_columns s \<or> cs = [] then Some (Inl (invalid_input FmtField))
     else
       let rows = values_len (in_values (hd cs)) in
       if rows = 0 then Some (Inl (invalid_input FmtField))
       else
         following (Some (within rows max_unit_rows ''native unit rows'')) (\<lambda>_.
         let metadata_bytes = unit_header + descriptor_bytes * length cs in
         following (require_columns s rows [] cs 0 metadata_bytes h) (\<lambda>(column_bytes, used_bytes, h).
         following (Some (unit_poll h)) (\<lambda>h.
           Some (Inr (\<lparr>need_rows = rows, need_metadata = metadata_bytes, need_column = column_bytes, need_unit = used_bytes\<rparr>, h))))))"

section \<open>Metadata\<close>

definition metadata_start :: "nat \<Rightarrow> storage_schema \<Rightarrow> database_id \<Rightarrow> object_id \<Rightarrow> nat \<Rightarrow> nat \<Rightarrow> u8 list" where
  "metadata_start k s db i rows n =
     (let bytes = replicate n 0;
          bytes = put bytes 0 unit_magic;
          bytes = put_u32 bytes 8 unit_format;
          bytes = put_u32 bytes 12 (word_of_nat k);
          bytes = put bytes 16 (id_bytes db);
          bytes = put_u64 bytes 32 (schema_table s);
          bytes = put_u64 bytes 40 (attempt_of i);
          bytes = put_u32 bytes 48 (ordinal_of i);
          bytes = put_u32 bytes 52 (word_of_nat rows)
      in put_u32 bytes 56 (word_of_nat n))"

definition put_descriptor :: "column_spec \<Rightarrow> u32 \<Rightarrow> nat \<Rightarrow> nat \<Rightarrow> u32 \<Rightarrow> u8 list \<Rightarrow> u8 list" where
  "put_descriptor spec i off n crc entry =
     (let entry = put_u32 entry 0 i;
          entry = put entry 4 [type_tag (spec_type spec)];
          entry = put entry 5 [of_bool (spec_nullable spec)];
          entry = put_u64 entry 8 (word_of_nat off);
          entry = put_u32 entry 16 (word_of_nat n)
      in put_u32 entry 20 crc)"

fun check_descriptors ::
    "storage_schema \<Rightarrow> nat \<Rightarrow> u32 list \<Rightarrow> nat \<Rightarrow> u8 list list \<Rightarrow> (format_error + nat) option" where
  "check_descriptors s rows earlier offset [] = Some (Inr offset)"
| "check_descriptors s rows earlier offset (entry # entries) =
     (case column_id_new (u32_at entry 0) of
        Inl e \<Rightarrow> Some (Inl e)
      | Inr i \<Rightarrow>
          if i \<in> set earlier then Some (Inl FmtIdentity)
          else
            case schema_spec s i of
              None \<Rightarrow> None
            | Some (Inl e) \<Rightarrow> Some (Inl e)
            | Some (Inr spec) \<Rightarrow>
                if entry ! 4 \<noteq> type_tag (spec_type spec) \<or> entry ! 5 \<noteq> of_bool (spec_nullable spec) \<or> unat (u64_at entry 8) \<noteq> offset
                then Some (Inl FmtField)
                else if \<not> all_zero (slice entry 6 2) \<or> \<not> all_zero (drop 24 entry) then Some (Inl FmtReserved)
                else
                  let n = unat (u32_at entry 16);
                      least = bitmap_bytes rows + (case fixed_width (spec_type spec) of Some w \<Rightarrow> rows * w | None \<Rightarrow> (rows + 1) * 4)
                  in if n < least \<or> max_column_bytes < n \<or> spec_type spec \<noteq> StringType \<and> n \<noteq> least then Some (Inl FmtLength)
                  else if 2 ^ 64 \<le> offset + n then Some (Inl FmtOverflow)
                  else check_descriptors s rows (earlier @ [i]) (offset + n) entries)"

definition descriptors :: "nat \<Rightarrow> u8 list \<Rightarrow> u8 list list" where
  "descriptors k bytes = map (\<lambda>i. slice bytes (unit_header + descriptor_bytes * i) descriptor_bytes) [0..<k]"

definition validate_metadata ::
    "u8 list \<Rightarrow> database_id \<Rightarrow> unit_ref \<Rightarrow> storage_schema \<Rightarrow> (format_error + unit) option" where
  "validate_metadata bytes db r s =
     (case schema_database s of
        None \<Rightarrow> None
      | Some stored \<Rightarrow>
          if stored \<noteq> db then Some (Inl FmtIdentity)
          else if length bytes < 12 then Some (Inl FmtLength)
          else if slice bytes 0 8 \<noteq> unit_magic then Some (Inl FmtMagic)
          else if u32_at bytes 8 \<noteq> unit_format then Some (Inl FmtVersion)
          else if length bytes \<noteq> unit_header + schema_columns s * descriptor_bytes then Some (Inl FmtLength)
          else if crc32c bytes \<noteq> unit_crc r then Some (Inl FmtChecksum)
          else if slice bytes 16 16 \<noteq> id_bytes db \<or> u64_at bytes 32 \<noteq> schema_table s then Some (Inl FmtIdentity)
          else
            case object_id_new (u64_at bytes 40) (u32_at bytes 48) of
              Inl e \<Rightarrow> Some (Inl e)
            | Inr i \<Rightarrow>
                if i \<noteq> unit_object r then Some (Inl FmtIdentity)
                else if unat (u32_at bytes 12) \<noteq> schema_columns s \<or> u32_at bytes 52 \<noteq> unit_rows r \<or> unat (u32_at bytes 56) \<noteq> length bytes
                then Some (Inl FmtField)
                else if \<not> all_zero (slice bytes 60 4) then Some (Inl FmtReserved)
                else
                  case check_descriptors s (unat (unit_rows r)) [] (length bytes) (descriptors (schema_columns s) bytes) of
                    None \<Rightarrow> None
                  | Some (Inl e) \<Rightarrow> Some (Inl e)
                  | Some (Inr offset) \<Rightarrow> if offset \<noteq> unat (unit_extent r) then Some (Inl FmtLength) else Some (Inr ()))"

section \<open>Writing\<close>

fun write_columns ::
    "storage_schema \<Rightarrow> nat \<Rightarrow> nat \<Rightarrow> nat \<Rightarrow> unit_column list \<Rightarrow> u8 list \<Rightarrow> unit_host \<Rightarrow> (nat \<times> u8 list \<times> unit_host) checked" where
  "write_columns s rows index offset [] metadata h = Some (Inr (offset, metadata, h))"
| "write_columns s rows index offset (c # cs) metadata h =
     following (Some (unit_poll h)) (\<lambda>h.
     case schema_spec s (in_id c) of
       Some (Inr spec) \<Rightarrow>
         (case payload_length c spec rows of
            Inl e \<Rightarrow> None
          | Inr n \<Rightarrow>
              (case encode_payload n c of
                 None \<Rightarrow> None
               | Some bytes \<Rightarrow>
                   following (Some (write_all_at h bytes offset)) (\<lambda>h.
                   following (Some (unit_poll h)) (\<lambda>h.
                   following (Some (read_exact_at h n offset)) (\<lambda>(found, h).
                   if crc32c found \<noteq> crc32c bytes then Some (Inl (Corrupt ''native column readback differs''))
                   else if 2 ^ 32 \<le> n \<or> 2 ^ 64 \<le> offset + n then None
                   else
                     let at = unit_header + index * descriptor_bytes;
                         entry = put_descriptor spec (in_id c) offset n (crc32c bytes) (slice metadata at descriptor_bytes)
                     in write_columns s rows (index + 1) (offset + n) cs (put metadata at entry) h)))))
     | _ \<Rightarrow> None)"

definition write_unit ::
    "object_id \<Rightarrow> storage_schema \<Rightarrow> unit_column list \<Rightarrow> nat \<Rightarrow> nat \<Rightarrow> unit_host \<Rightarrow> (unit_ref \<times> unit_host) checked" where
  "write_unit i s cs metadata_room column_room h =
     (case schema_database s of
        None \<Rightarrow> None
      | Some db \<Rightarrow>
          following (requirements s cs h) (\<lambda>(needs, h).
          let rows = need_rows needs; n = need_metadata needs in
          following (Some (within n metadata_room ''unit metadata buffer'')) (\<lambda>_.
          following (Some (within (need_column needs) column_room ''unit column buffer'')) (\<lambda>_.
          following (Some (unit_poll h)) (\<lambda>h.
          following (Some (unit_call ''inspect private native unit'' h)) (\<lambda>h.
          if \<not> uh_regular h \<or> uh_file h \<noteq> [] \<or> uh_links h \<noteq> 1
          then Some (Inl (Corrupt ''native unit construction requires an empty private file''))
          else
            following (write_columns s rows 0 n cs (metadata_start (length cs) s db i rows n) h) (\<lambda>(offset, metadata, h).
            if offset \<noteq> need_unit needs \<or> 2 ^ 32 \<le> offset then None
            else
              following (Some (map_error invalid_input (unit_ref_new i (word_of_nat rows) (word_of_nat offset) (crc32c metadata)))) (\<lambda>r.
              following (Some (unit_poll h)) (\<lambda>h.
              following (Some (write_all_at h metadata 0)) (\<lambda>h.
              following (Some (unit_poll h)) (\<lambda>h.
              following (Some (read_exact_at h n 0)) (\<lambda>(found, h).
              following (map_option (map_error (\<lambda>e. map_format_error e found)) (validate_metadata found db r s)) (\<lambda>_.
              following (Some (unit_poll h)) (\<lambda>h.
              following (Some (unit_call ''inspect constructed unit'' h)) (\<lambda>h.
              if length (uh_file h) \<noteq> unat (unit_extent r) then Some (Inl (Corrupt ''constructed unit extent differs''))
              else following (Some (unit_poll h)) (\<lambda>h. Some (Inr (r, h))))))))))))))))))"

section \<open>Reading\<close>

record open_unit =
  open_metadata :: "u8 list"
  open_rows :: nat

text \<open>Opening checks the path and the opened file; their comparison is part of the calls' outcomes.\<close>

definition open_object :: "unit_host \<Rightarrow> db_error + nat \<times> unit_host" where
  "open_object h =
     attempt (unit_poll h) (\<lambda>h.
     attempt (unit_call ''inspect namespace entry'' h) (\<lambda>h.
     if \<not> uh_regular h then Inl (Corrupt ''catalog object is not a regular file'')
     else
       attempt (unit_poll h) (\<lambda>h.
       attempt (unit_call ''open catalog object'' h) (\<lambda>h.
       attempt (unit_call ''inspect open catalog object'' h) (\<lambda>h. Inr (length (uh_file h), h))))))"

definition read_unit :: "database_id \<Rightarrow> unit_ref \<Rightarrow> storage_schema \<Rightarrow> unit_host \<Rightarrow> (open_unit \<times> unit_host) checked" where
  "read_unit db r s h =
     following (Some (unit_poll h)) (\<lambda>h.
     let n = unit_header + schema_columns s * descriptor_bytes in
     following (Some (open_object h)) (\<lambda>(bytes, h).
     if bytes \<noteq> unat (unit_extent r) then Some (Inl (Corrupt ''native unit extent differs''))
     else
       following (Some (unit_poll h)) (\<lambda>h.
       following (Some (read_exact_at h n 0)) (\<lambda>(metadata, h).
       following (map_option (map_error (\<lambda>e. map_format_error e metadata)) (validate_metadata metadata db r s)) (\<lambda>_.
       following (Some (unit_poll h)) (\<lambda>h.
         Some (Inr (\<lparr>open_metadata = metadata, open_rows = unat (unit_rows r)\<rparr>, h))))))))"

definition read_unit_column :: "open_unit \<Rightarrow> u32 \<Rightarrow> nat \<Rightarrow> unit_host \<Rightarrow> (column_view \<times> unit_host) checked" where
  "read_unit_column u i room h =
     following (Some (unit_poll h)) (\<lambda>h.
     case find (\<lambda>entry. u32_at entry 0 = i)
         (descriptors ((length (open_metadata u) - unit_header) div descriptor_bytes) (open_metadata u)) of
       None \<Rightarrow> Some (Inl (Corrupt ''unit column identity absent''))
     | Some entry \<Rightarrow>
         let n = unat (u32_at entry 16) in
         following (Some (within n room ''unit column buffer'')) (\<lambda>_.
         following (Some (read_exact_at h n (unat (u64_at entry 8)))) (\<lambda>(bytes, h).
         following (Some (unit_poll h)) (\<lambda>h.
         if crc32c bytes \<noteq> u32_at entry 20 then Some (Inl (Corrupt ''native column checksum differs''))
         else
           case type_of_tag (entry ! 4) of
             Inl e \<Rightarrow> None
           | Inr kind \<Rightarrow>
               let v = \<lparr>col_bytes = bytes, col_rows = open_rows u, col_kind = kind\<rparr> in
               following (map_option (map_error (\<lambda>_. Corrupt ''native column values are invalid'')) (column_validate (entry ! 5 \<noteq> 0) v)) (\<lambda>_.
               following (Some (unit_poll h)) (\<lambda>h. Some (Inr (v, h))))))))"

end
