(* ===== verification/Unit_Payload.thy ===== *)
theory Unit_Payload
  imports Native_Unit
begin

text \<open>A payload that is encoded validates, and the accessors find the values that were given.\<close>

section \<open>Slots\<close>

fun picked :: "u8 list \<Rightarrow> 'a \<Rightarrow> nat \<Rightarrow> 'a list \<Rightarrow> 'a list" where
  "picked bits absent row [] = []"
| "picked bits absent row (v # vs) = (if row_valid bits row then v else absent) # picked bits absent (row + 1) vs"

lemma length_picked [simp]: "length (picked bits absent row vs) = length vs"
  by (induction vs arbitrary: row) simp_all

lemma nth_picked: "k < length vs \<Longrightarrow> picked bits absent row vs ! k = (if row_valid bits (row + k) then vs ! k else absent)"
proof (induction vs arbitrary: row k)
  case (Cons v vs)
  then show ?case by (cases k) simp_all
qed simp

lemma fixed_slots_picked: "fixed_slots bits w row vs = concat (picked bits (replicate w 0) row vs)"
  by (induction vs arbitrary: row) simp_all

lemma slice_concat_uniform:
  assumes "\<forall>x \<in> set xs. length x = w" and "k < length xs"
  shows "slice (concat xs) (k * w) w = xs ! k" and "length (concat xs) = length xs * w"
  using assms
proof (induction xs arbitrary: k)
  case (Cons x xs)
  { case 1
    show ?case
    proof (cases k)
      case 0
      with 1 show ?thesis by (simp add: slice_def)
    next
      case (Suc j)
      have "slice (concat (x # xs)) (Suc j * w) w = slice (concat xs) (j * w) w" using 1(1) by (simp add: slice_def)
      with Cons.IH(1) [of j] 1 Suc show ?thesis by simp
    qed
  next
    case 2
    then have "length (concat xs) = length xs * w" using Cons.IH(2) [of 0] by (cases xs) simp_all
    with 2 show ?case by simp }
qed simp_all

text \<open>Where piece \<open>k\<close> starts.\<close>

definition piece_start :: "'a list list \<Rightarrow> nat \<Rightarrow> nat" where
  "piece_start ps k = length (concat (take k ps))"

lemma piece_start_simps [simp]: "piece_start ps 0 = 0" "k < length ps \<Longrightarrow> piece_start ps (Suc k) = piece_start ps k + length (ps ! k)"
  by (simp_all add: piece_start_def take_Suc_conv_app_nth)

lemma piece_start_all: "piece_start ps (length ps) = length (concat ps)"
  by (simp add: piece_start_def)

lemma piece_start_le: "piece_start ps k \<le> length (concat ps)"
proof -
  have "length (concat ps) = length (concat (take k ps)) + length (concat (drop k ps))"
    by (metis append_take_drop_id concat_append length_append)
  then show ?thesis by (simp add: piece_start_def)
qed

lemma slice_piece: "k < length ps \<Longrightarrow> slice (concat ps) (piece_start ps k) (length (ps ! k)) = ps ! k"
proof -
  assume k: "k < length ps"
  have "concat ps = concat (take k ps) @ ps ! k @ concat (drop (Suc k) ps)"
    by (metis (no_types, lifting) k append_take_drop_id concat.simps(2) concat_append Cons_nth_drop_Suc)
  then show ?thesis by (simp add: slice_def piece_start_def)
qed

lemma text_slots_picked:
  assumes "offset + length (concat (picked bits [] row ts)) < 2 ^ 32"
  shows "text_slots bits row offset ts = Some (concat (map (\<lambda>k. u32_bytes (word_of_nat (offset + piece_start (picked bits [] row ts) (Suc k)))) [0..<length ts]),
    concat (picked bits [] row ts))"
  using assms
proof (induction ts arbitrary: row offset)
  case (Cons t ts)
  define p where "p = (if row_valid bits row then t else [])"
  define ps where "ps = picked bits [] (row + 1) ts"
  have fits: "offset + length p + length (concat ps) < 2 ^ 32" using Cons.prems by (simp add: p_def ps_def)
  note ih = Cons.IH [OF fits [unfolded ps_def], folded ps_def]
  have "text_slots bits row offset (t # ts) = Some (u32_bytes (word_of_nat (offset + length p)) @
      concat (map (\<lambda>k. u32_bytes (word_of_nat (offset + length p + piece_start ps (Suc k)))) [0..<length ts]), p @ concat ps)"
    using ih fits by (simp add: Let_def p_def [symmetric])
  moreover have "[0..<length (t # ts)] = 0 # map Suc [0..<length ts]" by (metis length_Cons upt_rec map_Suc_upt zero_less_Suc)
  moreover have "piece_start (p # ps) (Suc (Suc k)) = length p + piece_start ps (Suc k)" for k by (simp add: piece_start_def)
  moreover have "piece_start (p # ps) (Suc 0) = length p" by (simp add: piece_start_def)
  moreover have "picked bits [] row (t # ts) = p # ps" by (simp add: p_def ps_def)
  ultimately show ?case by (simp add: comp_def add.assoc del: picked.simps text_slots.simps)
qed simp

lemma text_total_picked:
  assumes "unit_text_total bits rows row bytes ts = Inr n"
  shows "n = bytes + length (concat (picked bits [] row ts))"
    and "p \<in> set (picked bits [] row ts) \<Longrightarrow> length p \<le> max_value_bytes"
  using assms
proof (induction ts arbitrary: row bytes)
  case (Cons t ts)
  { case 1
    show ?case
    proof (cases "row_valid bits row")
      case True
      with 1 have "unit_text_total bits rows (row + 1) (bytes + length t) ts = Inr n"
        by (auto simp: attempt_Inr_conv unit_size_def split: if_splits)
      from Cons.IH(1) [OF this] True show ?thesis by simp
    next
      case False
      with 1 Cons.IH(1) show ?thesis by simp
    qed
  next
    case 2 with Cons.IH(2) show ?case by (auto simp: attempt_Inr_conv unit_size_def within_def split: if_splits) }
qed simp_all

section \<open>Bitmaps\<close>

lemma row_byte: "row < rows \<Longrightarrow> row div 8 < bitmap_bytes rows"
  by (simp add: bitmap_bytes_def)

lemma row_valid_prefix: "row < rows \<Longrightarrow> length bits = bitmap_bytes rows \<Longrightarrow> row_valid (bits @ rest) row = row_valid bits row"
  using row_byte by (simp add: row_valid_def nth_append)

lemma check_bitmap_length: "check_bitmap bits rows nullable = Inr () \<Longrightarrow> length bits = bitmap_bytes rows"
  by (auto simp: check_bitmap_def split: if_splits)

section \<open>Fixed-width payloads\<close>

definition slots_hold :: "u8 list \<Rightarrow> nat \<Rightarrow> u8 list \<Rightarrow> u8 list list \<Rightarrow> bool" where
  "slots_hold bytes width bits vs \<longleftrightarrow>
     (\<forall>row < length vs. slice bytes (length bits + row * width) width = (if row_valid bits row then vs ! row else replicate width 0))"

lemma fixed_payload:
  assumes "length bits = bitmap_bytes (length vs)" and "\<forall>v \<in> set vs. length v = width"
  shows "slots_hold (bits @ fixed_slots bits width 0 vs) width bits vs"
    and "length (bits @ fixed_slots bits width 0 vs) = bitmap_bytes (length vs) + length vs * width"
proof -
  let ?ps = "picked bits (replicate width 0) 0 vs"
  have uniform: "\<forall>p \<in> set ?ps. length p = width"
    using assms(2) nth_mem [of _ vs] by (fastforce simp: in_set_conv_nth nth_picked)
  show "slots_hold (bits @ fixed_slots bits width 0 vs) width bits vs"
    unfolding slots_hold_def fixed_slots_picked
  proof (intro allI impI)
    fix row
    assume row: "row < length vs"
    have "slice (bits @ concat ?ps) (length bits + row * width) width = slice (concat ?ps) (row * width) width"
      by (simp add: slice_def)
    then show "slice (bits @ concat ?ps) (length bits + row * width) width = (if row_valid bits row then vs ! row else replicate width 0)"
      using slice_concat_uniform(1) [OF uniform] row by (simp add: nth_picked)
  qed
  show "length (bits @ fixed_slots bits width 0 vs) = bitmap_bytes (length vs) + length vs * width"
  proof (cases vs)
    case (Cons v ws)
    then show ?thesis
      using slice_concat_uniform(2) [OF uniform, of 0] assms(1) by (simp add: fixed_slots_picked)
  qed (use assms(1) in simp)
qed

lemma check_slots_hold:
  assumes "slots_hold bytes width bits vs" and "\<And>row. row < length vs \<Longrightarrow> row_valid bytes row = row_valid bits row"
    and "is_date \<Longrightarrow> width = 4" and "is_date \<Longrightarrow> \<forall>v \<in> set vs. from_days (sint (u32_of_bytes v)) \<noteq> None" and "set rows \<subseteq> {0..<length vs}"
  shows "check_slots bytes (length bits) width is_date rows = Inr ()"
  using assms(5)
proof (induction rows)
  case (Cons row rows)
  then have row: "row < length vs" by simp
  have slot: "slice bytes (length bits + row * width) width = (if row_valid bits row then vs ! row else replicate width 0)"
    using assms(1) row by (simp add: slots_hold_def)
  have "date_at bytes (length bits + row * width) \<noteq> None" if "row_valid bits row" "is_date"
    using assms(3,4) slot that row by (simp add: date_at_def u32_at_def)
  with Cons assms(2) [OF row] slot show ?case by auto
qed simp

section \<open>Text payloads\<close>

definition texts_hold :: "u8 list \<Rightarrow> nat \<Rightarrow> u8 list list \<Rightarrow> bool" where
  "texts_hold bytes validity ps \<longleftrightarrow>
     drop (validity + (length ps + 1) * 4) bytes = concat ps \<and> validity + (length ps + 1) * 4 \<le> length bytes
     \<and> (\<forall>row \<le> length ps. unat (u32_at bytes (validity + row * 4)) = piece_start ps row)"

lemma text_payload:
  assumes "text_slots bits 0 0 ts = Some (offsets, strings)" and "ps = picked bits [] 0 ts" and "length (concat ps) < 2 ^ 32"
  shows "texts_hold (bits @ u32_bytes 0 @ offsets @ strings) (length bits) ps"
    and "length (bits @ u32_bytes 0 @ offsets @ strings) = length bits + (length ts + 1) * 4 + length (concat ps)"
proof -
  let ?f = "\<lambda>k. u32_bytes (word_of_nat (piece_start ps k))"
  have slots: "offsets = concat (map (\<lambda>k. ?f (Suc k)) [0..<length ts])" "strings = concat ps"
    using text_slots_picked [of 0 bits 0 ts] assms by simp_all
  define all where "all = map ?f [0..<Suc (length ts)]"
  have "[0..<Suc (length ts)] = 0 # map Suc [0..<length ts]" by (metis upt_rec map_Suc_upt zero_less_Suc)
  then have whole: "u32_bytes 0 @ offsets = concat all" by (simp add: all_def slots(1) comp_def del: upt_Suc)
  have uniform: "\<forall>x \<in> set all. length x = 4" by (simp add: all_def)
  have len_all: "length all = length ts + 1" by (simp add: all_def)
  have len: "length (concat all) = (length ts + 1) * 4" using slice_concat_uniform(2) [OF uniform, of 0] len_all by simp
  have len_ps: "length ps = length ts" using assms(2) by simp
  have bytes: "bits @ u32_bytes 0 @ offsets @ strings = bits @ concat all @ concat ps" using whole slots(2) by (metis append_assoc)
  have at: "unat (u32_at (bits @ concat all @ concat ps) (length bits + row * 4)) = piece_start ps row" if "row \<le> length ts" for row
  proof -
    have fits: "row * 4 + 4 \<le> length (concat all)" using that len by simp
    then have "slice (bits @ concat all @ concat ps) (length bits + row * 4) 4 = slice (concat all) (row * 4) 4"
      by (simp add: slice_def)
    also have "\<dots> = all ! row" using slice_concat_uniform(1) [OF uniform, of row] len_all that by simp
    also have "\<dots> = ?f row" using that by (simp add: all_def nth_append less_Suc_eq_le del: upt_Suc)
    finally have "u32_at (bits @ concat all @ concat ps) (length bits + row * 4) = word_of_nat (piece_start ps row)"
      by (simp add: u32_at_def)
    moreover have "piece_start ps row < 2 ^ 32" using piece_start_le [of ps row] assms(3) by linarith
    ultimately show ?thesis by (simp add: unat_of_nat)
  qed
  show "texts_hold (bits @ u32_bytes 0 @ offsets @ strings) (length bits) ps"
    unfolding bytes texts_hold_def using at len len_ps by simp
  show "length (bits @ u32_bytes 0 @ offsets @ strings) = length bits + (length ts + 1) * 4 + length (concat ps)"
    unfolding bytes using len by simp
qed

lemma check_texts_hold:
  assumes "texts_hold bytes validity ps" and "\<forall>p \<in> set ps. length p \<le> max_value_bytes \<and> utf8 p"
    and "\<And>row. row < length ps \<Longrightarrow> \<not> row_valid bytes row \<Longrightarrow> ps ! row = []" and "k \<le> length ps"
  shows "check_texts bytes validity (concat ps) [k..<length ps] (piece_start ps k) = Inr (length (concat ps))"
  using assms(4)
proof (induction "length ps - k" arbitrary: k)
  case 0
  then show ?case using piece_start_all [of ps] by simp
next
  case (Suc n)
  then have k: "k < length ps" by simp
  then have p: "length (ps ! k) \<le> max_value_bytes" "utf8 (ps ! k)" using assms(2) by simp_all
  have stop: "unat (u32_at bytes (validity + (k + 1) * 4)) = piece_start ps (Suc k)"
    using assms(1) k unfolding texts_hold_def by (metis Suc_eq_plus1 Suc_leI)
  have bounds: "piece_start ps (Suc k) \<le> length (concat ps)" by (rule piece_start_le)
  have ih: "check_texts bytes validity (concat ps) [Suc k..<length ps] (piece_start ps (Suc k)) = Inr (length (concat ps))"
    using Suc(1) [of "Suc k"] Suc(2) k by simp
  have "[k..<length ps] = k # [Suc k..<length ps]" using k by (simp add: upt_conv_Cons)
  then show ?case
    using stop bounds ih p assms(3) [OF k] slice_piece [OF k] k by (auto simp: Let_def)
qed

end
