(* ===== verification/Unit_Cells.thy ===== *)
theory Unit_Cells
  imports Unit_Payload
begin

text \<open>The cells of a payload: what was given, and that a validated column can be read anywhere.\<close>

section \<open>Cells\<close>

definition cell_or :: "('a \<Rightarrow> cell) \<Rightarrow> 'a option \<Rightarrow> cell" where
  "cell_or f x = (case x of None \<Rightarrow> NullCell | Some a \<Rightarrow> f a)"

text \<open>The accessor of the column's kind.\<close>

definition column_cell :: "column_view \<Rightarrow> nat \<Rightarrow> (format_error + cell) option" where
  "column_cell v row =
     (case col_kind v of
        Int64Type \<Rightarrow> Some (attempt (column_int64 v row) (\<lambda>x. Inr (cell_or Int64Cell x)))
      | DoubleType \<Rightarrow> Some (attempt (column_double v row) (\<lambda>x. Inr (cell_or DoubleCell x)))
      | DateType \<Rightarrow> map_option (\<lambda>r. attempt r (\<lambda>x. Inr (cell_or DateCell x))) (column_date v row)
      | StringType \<Rightarrow> map_option (\<lambda>r. attempt r (\<lambda>x. Inr (cell_or StringCell x))) (column_string v row))"

definition stored_cell :: "unit_column \<Rightarrow> nat \<Rightarrow> cell" where
  "stored_cell c row =
     (if row_valid (in_validity c) row then
        (case in_values c of
           Int64Slice v \<Rightarrow> Int64Cell (v ! row)
         | DoubleSlice v \<Rightarrow> DoubleCell (v ! row)
         | StringSlice v \<Rightarrow> StringCell (v ! row)
         | DateSlice v \<Rightarrow> DateCell (v ! row))
      else NullCell)"

text \<open>What the types of the source's values say.\<close>

definition unit_input_ok :: "unit_column \<Rightarrow> bool" where
  "unit_input_ok c \<longleftrightarrow>
     (case in_values c of
        StringSlice v \<Rightarrow> \<forall>t \<in> set v. utf8 t
      | DateSlice v \<Rightarrow> \<forall>d \<in> set v. from_days (days d) = Some d
      | _ \<Rightarrow> True)"

lemma date_of_bytes: "from_days (days d) = Some d \<Longrightarrow> from_days (sint (u32_of_bytes (date_bytes d))) = Some d"
proof -
  assume d: "from_days (days d) = Some d"
  then have "- (2 ^ 31) \<le> days d" "days d < 2 ^ 31" by (auto simp: from_days_def split: if_splits)
  then have "sint (word_of_int (days d) :: u32) = days d"
    by (simp add: sint_sbintrunc' signed_take_bit_int_eq_self)
  with d show ?thesis by (simp add: date_bytes_def)
qed

section \<open>What was encoded\<close>

definition payload_holds :: "unit_column \<Rightarrow> column_spec \<Rightarrow> nat \<Rightarrow> nat \<Rightarrow> u8 list \<Rightarrow> bool" where
  "payload_holds c spec rows n bytes \<longleftrightarrow>
     encode_payload n c = Some bytes \<and> length bytes = n
     \<and> column_validate (spec_nullable spec) \<lparr>col_bytes = bytes, col_rows = rows, col_kind = spec_type spec\<rparr> = Some (Inr ())
     \<and> (\<forall>row < rows. column_cell \<lparr>col_bytes = bytes, col_rows = rows, col_kind = spec_type spec\<rparr> row = Some (Inr (stored_cell c row)))"

text \<open>The fixed-width kinds share their proof: bits, then one slot for each row.\<close>

lemma fixed_validates:
  assumes "length bits = bitmap_bytes (length vs)" and "\<forall>v \<in> set vs. length v = width" and "fixed_width kind = Some width"
    and "check_bitmap bits (length vs) nullable = Inr ()" and "kind = DateType \<Longrightarrow> \<forall>v \<in> set vs. from_days (sint (u32_of_bytes v)) \<noteq> None"
  shows "column_validate nullable \<lparr>col_bytes = bits @ fixed_slots bits width 0 vs, col_rows = length vs, col_kind = kind\<rparr> = Some (Inr ())"
proof -
  let ?bytes = "bits @ fixed_slots bits width 0 vs"
  note payload = fixed_payload [OF assms(1,2)]
  have "check_slots ?bytes (length bits) width (kind = DateType) [0..<length vs] = Inr ()"
  proof (rule check_slots_hold [OF payload(1)])
    show "row_valid ?bytes row = row_valid bits row" if "row < length vs" for row by (rule row_valid_prefix [OF that assms(1)])
    show "width = 4" if "kind = DateType" using that assms(3) by (simp add: fixed_width_def)
  qed (use assms(5) in auto)
  with assms(1,3,4) payload(2) show ?thesis by (simp add: column_validate_def Let_def del: length_append)
qed

lemma fixed_present:
  assumes "length bits = bitmap_bytes (length vs)" and "row < length vs"
  shows "column_present \<lparr>col_bytes = bits @ fixed_slots bits width 0 vs, col_rows = length vs, col_kind = kind\<rparr> row kind = Inr (row_valid bits row)"
  using assms row_valid_prefix [OF assms(2,1)] by (simp add: column_present_def)

lemma fixed_slot:
  assumes "length bits = bitmap_bytes (length vs)" and "\<forall>v \<in> set vs. length v = width" and "row < length vs" and "row_valid bits row"
  shows "slice (bits @ fixed_slots bits width 0 vs) (bitmap_bytes (length vs) + row * width) width = vs ! row"
  using fixed_payload(1) [OF assms(1,2)] assms by (simp add: slots_hold_def)

lemma payload_int64:
  assumes "length bits = bitmap_bytes (length vs)" and "check_bitmap bits (length vs) nullable = Inr ()" and "kind \<in> {Int64Type, DoubleType}"
  shows "column_validate nullable \<lparr>col_bytes = bits @ fixed_slots bits 8 0 (map u64_bytes vs), col_rows = length vs, col_kind = kind\<rparr> = Some (Inr ())"
    and "row < length vs \<Longrightarrow> column_cell \<lparr>col_bytes = bits @ fixed_slots bits 8 0 (map u64_bytes vs), col_rows = length vs, col_kind = kind\<rparr> row
      = Some (Inr (if row_valid bits row then (if kind = Int64Type then Int64Cell else DoubleCell) (vs ! row) else NullCell))"
proof -
  have b: "length bits = bitmap_bytes (length (map u64_bytes vs))" and w: "\<forall>v \<in> set (map u64_bytes vs). length v = 8" using assms(1) by auto
  show "column_validate nullable \<lparr>col_bytes = bits @ fixed_slots bits 8 0 (map u64_bytes vs), col_rows = length vs, col_kind = kind\<rparr> = Some (Inr ())"
    using fixed_validates [OF b w, of kind nullable] assms(2,3) by (auto simp: fixed_width_def)
  assume row: "row < length vs"
  show "column_cell \<lparr>col_bytes = bits @ fixed_slots bits 8 0 (map u64_bytes vs), col_rows = length vs, col_kind = kind\<rparr> row
      = Some (Inr (if row_valid bits row then (if kind = Int64Type then Int64Cell else DoubleCell) (vs ! row) else NullCell))"
    using fixed_present [OF b, of row 8] fixed_slot [OF b w, of row] row assms(3)
    by (auto simp: column_cell_def column_int64_def column_double_def attempt_def cell_or_def u64_at_def)
qed

lemma payload_date:
  assumes "length bits = bitmap_bytes (length vs)" and "check_bitmap bits (length vs) nullable = Inr ()" and "\<forall>d \<in> set vs. from_days (days d) = Some d"
  shows "column_validate nullable \<lparr>col_bytes = bits @ fixed_slots bits 4 0 (map date_bytes vs), col_rows = length vs, col_kind = DateType\<rparr> = Some (Inr ())"
    and "row < length vs \<Longrightarrow> column_cell \<lparr>col_bytes = bits @ fixed_slots bits 4 0 (map date_bytes vs), col_rows = length vs, col_kind = DateType\<rparr> row
      = Some (Inr (if row_valid bits row then DateCell (vs ! row) else NullCell))"
proof -
  have b: "length bits = bitmap_bytes (length (map date_bytes vs))" and w: "\<forall>v \<in> set (map date_bytes vs). length v = 4"
    using assms(1) by (auto simp: date_bytes_def)
  have d: "\<forall>v \<in> set (map date_bytes vs). from_days (sint (u32_of_bytes v)) \<noteq> None" using assms(3) date_of_bytes by auto
  show "column_validate nullable \<lparr>col_bytes = bits @ fixed_slots bits 4 0 (map date_bytes vs), col_rows = length vs, col_kind = DateType\<rparr> = Some (Inr ())"
    using fixed_validates [OF b w, of DateType nullable] assms(2) d by (auto simp: fixed_width_def)
  assume row: "row < length vs"
  then have "from_days (days (vs ! row)) = Some (vs ! row)" using assms(3) by simp
  then show "column_cell \<lparr>col_bytes = bits @ fixed_slots bits 4 0 (map date_bytes vs), col_rows = length vs, col_kind = DateType\<rparr> row
      = Some (Inr (if row_valid bits row then DateCell (vs ! row) else NullCell))"
    using fixed_present [OF b, of row 4 DateType] fixed_slot [OF b w, of row] row date_of_bytes
    by (auto simp: column_cell_def column_date_def attempt_def cell_or_def date_at_def u32_at_def)
qed

lemma payload_text:
  assumes "length bits = bitmap_bytes (length vs)" and "check_bitmap bits (length vs) nullable = Inr ()" and "\<forall>t \<in> set vs. utf8 t"
    and "text_slots bits 0 0 vs = Some (offsets, strings)" and "length (concat (picked bits [] 0 vs)) < 2 ^ 32"
    and "\<forall>p \<in> set (picked bits [] 0 vs). length p \<le> max_value_bytes"
  shows "column_validate nullable \<lparr>col_bytes = bits @ u32_bytes 0 @ offsets @ strings, col_rows = length vs, col_kind = StringType\<rparr> = Some (Inr ())"
    and "row < length vs \<Longrightarrow> column_cell \<lparr>col_bytes = bits @ u32_bytes 0 @ offsets @ strings, col_rows = length vs, col_kind = StringType\<rparr> row
      = Some (Inr (if row_valid bits row then StringCell (vs ! row) else NullCell))"
proof -
  let ?bytes = "bits @ u32_bytes 0 @ offsets @ strings"
  define ps where "ps = picked bits [] 0 vs"
  have len: "length ps = length vs" by (simp add: ps_def)
  note payload = text_payload [OF assms(4) ps_def assms(5) [folded ps_def]]
  have valid: "row_valid ?bytes row = row_valid bits row" if "row < length vs" for row by (rule row_valid_prefix [OF that assms(1)])
  have nth: "ps ! row = (if row_valid bits row then vs ! row else [])" if "row < length vs" for row
    using that by (simp add: ps_def nth_picked)
  have pieces: "\<forall>p \<in> set ps. length p \<le> max_value_bytes \<and> utf8 p"
  proof
    fix p
    assume p: "p \<in> set ps"
    then obtain row where row: "row < length vs" "p = ps ! row" using len by (auto simp: in_set_conv_nth)
    have "utf8 p" using assms(3) nth [OF row(1)] row nth_mem [OF row(1)] by simp
    with p assms(6) show "length p \<le> max_value_bytes \<and> utf8 p" by (simp add: ps_def)
  qed
  have hold: "drop (length bits + (length vs + 1) * 4) ?bytes = concat ps" "length bits + (length vs + 1) * 4 \<le> length ?bytes"
    and at: "\<And>row. row \<le> length vs \<Longrightarrow> unat (u32_at ?bytes (length bits + row * 4)) = piece_start ps row"
    using payload(1) unfolding texts_hold_def len by blast+
  have absent: "ps ! row = []" if "row < length ps" "\<not> row_valid ?bytes row" for row
    using that nth [of row] valid [of row] len by simp
  have zero: "u32_at ?bytes (length bits) = 0" using at [of 0] by (simp add: word_unat_eq_iff)
  have checked: "check_texts ?bytes (length bits) (concat ps) [0..<length vs] 0 = Inr (length (concat ps))"
    using check_texts_hold [OF payload(1) pieces absent, of 0] len by simp
  have bound: "\<not> length ?bytes < length bits + (length vs + 1) * 4" using hold(2) by linarith
  have bits: "take (length bits) ?bytes = bits" "\<not> length ?bytes < length bits" by simp_all
  show "column_validate nullable \<lparr>col_bytes = ?bytes, col_rows = length vs, col_kind = StringType\<rparr> = Some (Inr ())"
    unfolding column_validate_def column_view.simps Let_def assms(1) [symmetric] bits(1) if_not_P [OF bits(2)] assms(2)
      sum.case fixed_width_def data_type.case option.case if_not_P [OF bound] zero hold(1) checked
    by (simp add: attempt_def)
  assume row: "row < length vs"
  have start: "unat (u32_at ?bytes (length bits + row * 4)) = piece_start ps row"
    and stop: "unat (u32_at ?bytes (length bits + (row + 1) * 4)) = piece_start ps row + length (ps ! row)"
    using at [of row] at [of "row + 1"] row len by simp_all
  have "slice ?bytes (length bits + (length vs + 1) * 4 + piece_start ps row) (length (ps ! row)) = slice (concat ps) (piece_start ps row) (length (ps ! row))"
    unfolding hold(1) [symmetric] by (simp add: slice_def add.commute)
  then have txs: "slice ?bytes (length bits + (length vs + 1) * 4 + piece_start ps row) (length (ps ! row)) = ps ! row"
    using slice_piece [of row ps] row len by simp
  have inside: "length bits + (length vs + 1) * 4 + (piece_start ps row + length (ps ! row)) \<le> length ?bytes"
  proof -
    have "piece_start ps row + length (ps ! row) \<le> length (concat ps)" using piece_start_le [of ps "Suc row"] row len by simp
    then show ?thesis using payload(2) by linarith
  qed
  have present: "column_present \<lparr>col_bytes = ?bytes, col_rows = length vs, col_kind = StringType\<rparr> row StringType = Inr (row_valid bits row)"
    using row valid by (simp add: column_present_def)
  have string: "column_string \<lparr>col_bytes = ?bytes, col_rows = length vs, col_kind = StringType\<rparr> row
      = Some (Inr (if row_valid bits row then Some (vs ! row) else None))"
  proof (cases "row_valid bits row")
    case True
    have "utf8 (ps ! row)" using pieces row len by simp
    with True inside show ?thesis
      unfolding column_string_def present sum.case column_view.simps Let_def assms(1) [symmetric] start stop
      by (simp add: txs nth [OF row] not_less del: length_append mult_Suc) (use txs nth [OF row] in \<open>simp add: add.assoc\<close>)
  next
    case False
    then show ?thesis unfolding column_string_def present by simp
  qed
  show "column_cell \<lparr>col_bytes = ?bytes, col_rows = length vs, col_kind = StringType\<rparr> row
      = Some (Inr (if row_valid bits row then StringCell (vs ! row) else NullCell))"
    unfolding column_cell_def column_view.simps data_type.case string by (simp add: attempt_def cell_or_def)
qed

text \<open>What an admitted length says.\<close>

lemma payload_length_parts:
  assumes "payload_length c spec rows = Inr n"
  shows "values_len (in_values c) = rows" and "values_kind (in_values c) = spec_type spec"
    and "check_bitmap (in_validity c) rows (spec_nullable spec) = Inr ()" and "n \<le> max_column_bytes"
    and "fixed_width (spec_type spec) = Some w \<Longrightarrow> n = bitmap_bytes rows + rows * w"
    and "in_values c = StringSlice ts \<Longrightarrow> \<exists>m. unit_text_total (in_validity c) rows 0 ((rows + 1) * 4) ts = Inr m \<and> n = bitmap_bytes rows + m"
proof -
  show "values_len (in_values c) = rows" "values_kind (in_values c) = spec_type spec"
    and bitmap: "check_bitmap (in_validity c) rows (spec_nullable spec) = Inr ()" and "n \<le> max_column_bytes"
    using assms by (auto simp: payload_length_def attempt_Inr_conv map_error_Inr unit_size_def within_def split: if_splits)
  { assume "fixed_width (spec_type spec) = Some w"
    with assms show "n = bitmap_bytes rows + rows * w"
      by (cases "in_values c") (auto simp: payload_length_def attempt_Inr_conv unit_size_def within_def fixed_width_def split: if_splits) }
  { assume "in_values c = StringSlice ts"
    with assms show "\<exists>m. unit_text_total (in_validity c) rows 0 ((rows + 1) * 4) ts = Inr m \<and> n = bitmap_bytes rows + m"
      by (auto simp: payload_length_def attempt_Inr_conv unit_size_def within_def split: if_splits) }
qed

text \<open>A payload whose length was admitted is encoded at that length, and holds the cells.\<close>

lemma payload_correct:
  assumes n: "payload_length c spec rows = Inr n" and ok: "unit_input_ok c"
  shows "\<exists>bytes. payload_holds c spec rows n bytes"
proof -
  note parts = payload_length_parts [OF n]
  let ?bits = "in_validity c"
  have bits: "length ?bits = bitmap_bytes rows" using check_bitmap_length [OF parts(3)] .
  have rows: "rows = values_len (in_values c)" using parts(1) by simp
  show ?thesis
  proof (cases "in_values c")
    case (Int64Slice vs)
    have kind: "spec_type spec = Int64Type" and len: "rows = length vs" using parts(2) rows Int64Slice by simp_all
    have "length (?bits @ fixed_slots ?bits 8 0 (map u64_bytes vs)) = n"
      using fixed_payload(2) [of ?bits "map u64_bytes vs" 8] bits len parts(5) [of 8] kind by (simp add: fixed_width_def)
    with payload_int64 [of ?bits vs "spec_nullable spec" Int64Type] bits parts(3) show ?thesis
      by (auto simp: payload_holds_def encode_payload_def Let_def stored_cell_def Int64Slice kind len)
  next
    case (DoubleSlice vs)
    have kind: "spec_type spec = DoubleType" and len: "rows = length vs" using parts(2) rows DoubleSlice by simp_all
    have "length (?bits @ fixed_slots ?bits 8 0 (map u64_bytes vs)) = n"
      using fixed_payload(2) [of ?bits "map u64_bytes vs" 8] bits len parts(5) [of 8] kind by (simp add: fixed_width_def)
    with payload_int64 [of ?bits vs "spec_nullable spec" DoubleType] bits parts(3) show ?thesis
      by (auto simp: payload_holds_def encode_payload_def Let_def stored_cell_def DoubleSlice kind len)
  next
    case (DateSlice vs)
    have kind: "spec_type spec = DateType" and len: "rows = length vs" using parts(2) rows DateSlice by simp_all
    have "length (?bits @ fixed_slots ?bits 4 0 (map date_bytes vs)) = n"
      using fixed_payload(2) [of ?bits "map date_bytes vs" 4] bits len parts(5) [of 4] kind by (simp add: fixed_width_def date_bytes_def)
    with payload_date [of ?bits vs "spec_nullable spec"] bits parts(3) ok show ?thesis
      by (auto simp: payload_holds_def encode_payload_def Let_def stored_cell_def unit_input_ok_def DateSlice kind len)
  next
    case (StringSlice vs)
    have kind: "spec_type spec = StringType" and len: "rows = length vs" using parts(2) rows StringSlice by simp_all
    from parts(6) [OF StringSlice] obtain m where m: "unit_text_total ?bits rows 0 ((rows + 1) * 4) vs = Inr m" "n = bitmap_bytes rows + m" by blast
    let ?ps = "picked ?bits [] 0 vs"
    have total: "m = (rows + 1) * 4 + length (concat ?ps)" by (rule text_total_picked(1) [OF m(1)])
    have short: "\<forall>p \<in> set ?ps. length p \<le> max_value_bytes" using text_total_picked(2) [OF m(1)] by blast
    have fits: "length (concat ?ps) < 2 ^ 32" using total m(2) parts(4) by (simp add: max_column_bytes_def)
    from text_slots_picked [of 0 ?bits 0 vs] fits obtain offsets strings where slots: "text_slots ?bits 0 0 vs = Some (offsets, strings)" by auto
    have size: "length (?bits @ u32_bytes 0 @ offsets @ strings) = n"
      using text_payload(2) [OF slots refl fits] bits total m(2) len by simp
    have utf: "\<forall>t \<in> set vs. utf8 t" using ok by (simp add: unit_input_ok_def StringSlice)
    note holds = payload_text [OF bits [unfolded len] parts(3) [unfolded len] utf slots fits short]
    have "encode_payload n c = Some (?bits @ u32_bytes 0 @ offsets @ strings)"
      using size by (simp add: encode_payload_def Let_def StringSlice slots)
    with holds size show ?thesis
      by (intro exI [of _ "?bits @ u32_bytes 0 @ offsets @ strings"]) (simp add: payload_holds_def stored_cell_def StringSlice kind len)
  qed
qed

end
