(* ===== verification/Schema_Properties.thy ===== *)
theory Schema_Properties
  imports Storage_Schema Utf8_Texts
begin

text \<open>A schema that decodes can be viewed column by column; what is encoded decodes to the same columns.\<close>

section \<open>Decoded schemas\<close>

definition schema_of :: "storage_schema \<Rightarrow> database_id \<Rightarrow> column_spec list \<Rightarrow> bool" where
  "schema_of s db specs \<longleftrightarrow>
     schema_columns s = length specs \<and> specs \<noteq> [] \<and> length specs \<le> schema_max_columns \<and> schema_database s = Some db
     \<and> distinct (map spec_id specs) \<and> (\<forall>i < length specs. schema_column s i = Some (Some (specs ! i)))
     \<and> (\<forall>c \<in> set specs. spec_id c \<noteq> 0)"

lemma decode_columns_decoded:
  assumes "decode_columns earlier bs = Inr u" and "distinct (map spec_id earlier)"
  shows "\<exists>cs. list_all2 (\<lambda>b c. decode_column b = Inr c) bs cs \<and> distinct (map spec_id (earlier @ cs))"
  using assms
proof (induction earlier bs rule: decode_columns.induct)
  case (2 earlier b bs)
  from 2(2) obtain c where c: "decode_column b = Inr c" "\<not> repeats earlier c" "decode_columns (earlier @ [c]) bs = Inr u"
    by (auto simp: attempt_Inr_conv split: if_splits)
  have "distinct (map spec_id (earlier @ [c]))" using 2(3) c(2) by (auto simp: repeats_def)
  from 2(1) [OF c(2,3) this] obtain cs where "list_all2 (\<lambda>b c. decode_column b = Inr c) bs cs" "distinct (map spec_id (earlier @ c # cs))"
    by auto
  with c(1) show ?case by (intro exI [of _ "c # cs"]) simp
qed auto

lemma decode_column_id: "decode_column bytes = Inr c \<Longrightarrow> spec_id c \<noteq> 0"
  by (auto simp: decode_column_def attempt_Inr_conv column_id_new_def column_spec_new_def Let_def split: if_splits)

lemma decode_schema_of:
  assumes "decode_schema bytes db table crc = Inr s" and "valid_database_id db"
  shows "\<exists>specs. schema_of s db specs" and "schema_table s = table"
proof -
  have s: "slice bytes 16 16 = id_bytes db" "s = \<lparr>schema_bytes = bytes, schema_table = table, schema_columns = unat (u32_of_bytes (slice bytes 12 4))\<rparr>"
    "\<exists>u. decode_columns [] (map (column_record bytes) [0..<unat (u32_of_bytes (slice bytes 12 4))]) = Inr u"
    "unat (u32_of_bytes (slice bytes 12 4)) \<noteq> 0" "unat (u32_of_bytes (slice bytes 12 4)) \<le> schema_max_columns"
    using assms(1) by (auto simp: decode_schema_def Let_def attempt_Inr_conv schema_extent_def split: if_splits)
  let ?n = "unat (u32_of_bytes (slice bytes 12 4))"
  from s(3) decode_columns_decoded [of "[]"] obtain cs where
    cs: "list_all2 (\<lambda>b c. decode_column b = Inr c) (map (column_record bytes) [0..<?n]) cs" "distinct (map spec_id cs)" by fastforce
  have len: "length cs = ?n" using list_all2_lengthD [OF cs(1)] by simp
  have at: "decode_column (column_record bytes i) = Inr (cs ! i)" if "i < ?n" for i
    using cs(1) that by (simp add: list_all2_conv_all_nth)
  have "spec_id c \<noteq> 0" if "c \<in> set cs" for c using that at len by (auto simp: in_set_conv_nth dest!: decode_column_id)
  moreover have "new_database_id (id_bytes db) = Inr db" using assms(2) by (cases db) (simp add: new_database_id_def valid_database_id_def)
  ultimately have "schema_of s db cs"
    using s(1,4,5) len cs(2) at by (auto simp: s(2) schema_of_def schema_database_def schema_column_def)
  then show "\<exists>specs. schema_of s db specs" by blast
  show "schema_table s = table" by (simp add: s(2))
qed

section \<open>The round trip\<close>

definition spec_ok :: "column_spec \<Rightarrow> bool" where
  "spec_ok c \<longleftrightarrow> spec_id c \<noteq> 0 \<and> valid_name (spec_name c)"

lemma valid_name_utf8: "valid_name name \<Longrightarrow> utf8 name"
proof -
  assume "valid_name name"
  then have "\<forall>b \<in> set name. b < 128"
    by (fastforce simp: valid_name_def ascii_alphabetic_def ascii_digit_def word_less_nat_alt word_le_nat_alt unat_of_nat word_unat_eq_iff)
  then show "utf8 name" by (induction name) simp_all
qed

lemma type_tag_of [simp]: "type_of_tag (type_tag k) = Inr k"
  by (cases k) (simp_all add: type_of_tag_def)

lemma decode_encode_column:
  assumes "spec_ok c"
  shows "decode_column (encode_column c (replicate 48 0)) = Inr c" and "length (encode_column c (replicate 48 0)) = 48"
proof -
  have name: "valid_name (spec_name c)" "0 < length (spec_name c)" "length (spec_name c) \<le> 32"
    using assms by (simp_all add: spec_ok_def valid_name_def)
  let ?n = "length (spec_name c)"
  have unat: "unat (word_of_nat ?n :: u8) = ?n" using name by (simp add: unat_of_nat)
  let ?e = "encode_column c (replicate 48 0)"
  show len: "length ?e = 48" using name by (simp add: encode_column_def Let_def)
  have parts: "slice ?e 0 4 = u32_bytes (spec_id c)" "?e ! 4 = type_tag (spec_type c)" "?e ! 5 = of_bool (spec_nullable c)"
    "?e ! 6 = word_of_nat ?n" "?e ! 7 = 0" "slice ?e 8 ?n = spec_name c"
    "slice ?e (8 + ?n) (32 - ?n) = replicate (32 - ?n) 0" "drop 40 ?e = replicate 8 0"
    using name by (simp_all add: encode_column_def Let_def byte_simps)
  have "utf8 (spec_name c)" using valid_name_utf8 name(1) by blast
  then show "decode_column ?e = Inr c"
    using assms name unfolding decode_column_def parts Let_def unat
    by (simp add: attempt_def column_id_new_def spec_ok_def schema_max_name_def column_spec_new_def validate_name_def)
qed

text \<open>Every record is written in its own place.\<close>

lemma encode_columns_slices:
  assumes "at + 48 * length cs \<le> length bytes" and "\<forall>c \<in> set cs. length (spec_name c) \<le> 32"
  shows "length (encode_columns at cs bytes) = length bytes"
    and "k + n \<le> at \<Longrightarrow> slice (encode_columns at cs bytes) k n = slice bytes k n"
    and "i < length cs \<Longrightarrow> slice (encode_columns at cs bytes) (at + 48 * i) 48 = encode_column (cs ! i) (slice bytes (at + 48 * i) 48)"
proof -
  have "length (encode_columns at cs bytes) = length bytes
    \<and> (k + n \<le> at \<longrightarrow> slice (encode_columns at cs bytes) k n = slice bytes k n)
    \<and> (i < length cs \<longrightarrow> slice (encode_columns at cs bytes) (at + 48 * i) 48 = encode_column (cs ! i) (slice bytes (at + 48 * i) 48))"
    using assms
  proof (induction cs arbitrary: at bytes i k n)
    case (Cons c cs)
    let ?b = "put bytes at (encode_column c (slice bytes at 48))"
    have e: "length (encode_column c (slice bytes at 48)) = 48"
      using Cons.prems by (simp add: encode_column_def Let_def)
    have room: "at + 48 + 48 * length cs \<le> length ?b" and len: "length ?b = length bytes" using Cons.prems(1) e by simp_all
    note ih = Cons.IH [OF room] 
    have "slice (encode_columns (at + 48) cs ?b) (at + 48 * i) 48 = encode_column ((c # cs) ! i) (slice bytes (at + 48 * i) 48)"
      if "i < length (c # cs)"
    proof (cases i)
      case 0
      with ih [of at 48 0] Cons.prems e show ?thesis by (simp add: byte_simps)
    next
      case (Suc j)
      with that have j: "j < length cs" by simp
      with Cons.prems have fits: "at + 48 + 48 * j + 48 \<le> length bytes" by simp
      then have "slice ?b (at + 48 + 48 * j) 48 = slice bytes (at + 48 + 48 * j) 48" using e by (intro slice_put_after) simp_all
      with ih [of 0 0 j] Cons.prems(2) j Suc show ?thesis by (simp add: add.assoc)
    qed
    moreover have "slice (encode_columns (at + 48) cs ?b) k n = slice bytes k n" if "k + n \<le> at"
      using ih [of k n 0] Cons.prems that e by (simp add: byte_simps)
    ultimately show ?case using ih [of 0 0 0] Cons.prems(2) len by (simp add: schema_column_bytes_def)
  qed simp
  then show "length (encode_columns at cs bytes) = length bytes"
    "k + n \<le> at \<Longrightarrow> slice (encode_columns at cs bytes) k n = slice bytes k n"
    "i < length cs \<Longrightarrow> slice (encode_columns at cs bytes) (at + 48 * i) 48 = encode_column (cs ! i) (slice bytes (at + 48 * i) 48)" by blast+
qed

lemma decode_columns_encoded:
  assumes "check_columns earlier cs = Inr u" and "list_all2 (\<lambda>b c. decode_column b = Inr c) bs cs"
  shows "decode_columns earlier bs = Inr ()"
  using assms
proof (induction earlier cs arbitrary: bs rule: check_columns.induct)
  case (2 earlier c cs)
  from 2(3) obtain b bs' where bs: "bs = b # bs'" "decode_column b = Inr c" "list_all2 (\<lambda>b c. decode_column b = Inr c) bs' cs"
    by (auto simp: list_all2_Cons2)
  with 2 show ?case by (auto simp: attempt_def split: if_splits)
qed simp

lemma encoded_schema_decodes:
  assumes "encode_schema out db table cs = Inr (n, out')" and "\<forall>c \<in> set cs. spec_ok c" and "valid_database_id db"
  shows "\<exists>s. decode_schema (take n out') db table (crc32c (take n out')) = Inr s \<and> schema_of s db cs"
proof -
  let ?k = "length cs"
  define bytes0 where "bytes0 = put_u64 (put (put_u32 (put_u32 (put (replicate (?k * 48 + 64) 0) 0 schema_magic) 8 schema_format) 12 (word_of_nat ?k)) 16 (id_bytes db)) 32 table"
  have parts: "0 < ?k" "?k \<le> 64" "n = ?k * 48 + 64" "\<not> length out < n" "\<exists>u. check_columns [] cs = Inr u"
    "out' = put out 0 (encode_columns 64 cs bytes0)"
    using assms(1) by (auto simp: encode_schema_def attempt_Inr_conv schema_extent_def Let_def schema_header_def schema_column_bytes_def
        schema_max_columns_def bytes0_def split: if_splits)
  define bytes where "bytes = encode_columns 64 cs bytes0"
  have db: "length (id_bytes db) = 16" using assms(3) by (simp add: valid_database_id_def)
  have len0: "length bytes0 = n" using db by (simp add: bytes0_def put_u32_def put_u64_def parts(3) schema_magic_def)
  have names: "\<forall>c \<in> set cs. length (spec_name c) \<le> 32" using assms(2) by (auto simp: spec_ok_def valid_name_def)
  have room: "64 + 48 * ?k \<le> length bytes0" by (simp add: len0 parts(3))
  note enc = encode_columns_slices [OF room names, folded bytes_def]
  have len: "length bytes = n" using enc(1) len0 by simp
  have taken: "take n out' = bytes" using parts(4) len by (simp add: parts(6) bytes_def [symmetric] put_def)
  have header: "slice bytes 0 8 = schema_magic" "slice bytes 8 4 = u32_bytes schema_format" "slice bytes 12 4 = u32_bytes (word_of_nat ?k)"
    "slice bytes 16 16 = id_bytes db" "slice bytes 32 8 = u64_bytes table" "slice bytes 40 24 = replicate 24 0"
    using db by (simp_all add: enc(2), simp_all add: bytes0_def put_u32_def put_u64_def schema_magic_def byte_simps)
  have slot: "slice bytes (64 + 48 * i) 48 = encode_column (cs ! i) (replicate 48 0)" if "i < ?k" for i
  proof -
    have "64 + 48 * i + 48 \<le> 48 * ?k + 64" using that by simp
    then have "slice bytes0 (64 + 48 * i) 48 = replicate 48 0"
      using db by (simp add: bytes0_def put_u32_def put_u64_def schema_magic_def byte_simps)
    with enc(3) [OF that] show ?thesis by simp
  qed
  have column: "decode_column (column_record bytes i) = Inr (cs ! i)" if "i < ?k" for i
    using that assms(2) by (simp add: column_record_def schema_header_def schema_column_bytes_def slot decode_encode_column(1))
  have count: "unat (word_of_nat ?k :: u32) = ?k" using parts(2) by (simp add: unat_of_nat)
  have "list_all2 (\<lambda>b c. decode_column b = Inr c) (map (column_record bytes) [0..<?k]) cs"
    by (simp add: list_all2_conv_all_nth column)
  with parts(5) have decoded: "decode_columns [] (map (column_record bytes) [0..<?k]) = Inr ()" using decode_columns_encoded by blast
  have "decode_schema bytes db table (crc32c bytes) = Inr \<lparr>schema_bytes = bytes, schema_table = table, schema_columns = ?k\<rparr>"
    using parts(1-3) len decoded
    by (simp add: decode_schema_def header count schema_extent_def schema_max_bytes_def schema_header_def schema_column_bytes_def
        schema_max_columns_def attempt_def)
  moreover from decode_schema_of(1) [OF this assms(3)] obtain specs where specs: "schema_of \<lparr>schema_bytes = bytes, schema_table = table, schema_columns = ?k\<rparr> db specs" by blast
  moreover have "specs = cs"
  proof (rule nth_equalityI)
    show "length specs = length cs" using specs by (simp add: schema_of_def)
    fix i
    assume "i < length specs"
    then have "i < ?k" using specs by (simp add: schema_of_def)
    moreover have "schema_column \<lparr>schema_bytes = bytes, schema_table = table, schema_columns = ?k\<rparr> i = Some (Some (specs ! i))"
      using specs \<open>i < length specs\<close> unfolding schema_of_def by blast
    ultimately show "specs ! i = cs ! i" using column by (simp add: schema_column_def)
  qed
  ultimately show ?thesis by (auto simp: taken)
qed

end
