(* ===== verification/Unit_Writing.thy ===== *)
theory Unit_Writing
  imports Unit_File Unit_Cells Schema_Properties
begin

text \<open>
  Writing the columns: requirements that are met name a payload for every column, and the writer
  leaves a file of metadata followed by the payloads, with a descriptor for each.
\<close>

section \<open>The host\<close>

definition unit_quiet :: "unit_host \<Rightarrow> bool" where
  "unit_quiet h \<longleftrightarrow> True \<notin> set (uh_calls h) \<and> True \<notin> set (uh_polls h)"

text \<open>The file as it is, on a host that refuses nothing more if \<open>granted\<close>.\<close>

definition holds_file :: "bool \<Rightarrow> u8 list \<Rightarrow> bool \<Rightarrow> nat \<Rightarrow> unit_host \<Rightarrow> bool" where
  "holds_file granted f regular links h \<longleftrightarrow>
     uh_file h = f \<and> uh_regular h = regular \<and> uh_links h = links \<and> (granted \<longrightarrow> unit_quiet h)"

lemma answers_check:
  assumes "holds_file granted f regular links h"
  shows "answers granted (Some (unit_poll h)) (holds_file granted f regular links)"
  using assms by (cases "uh_polls h") (auto simp: unit_poll_def holds_file_def unit_quiet_def)

lemma answers_call:
  assumes "holds_file granted f regular links h"
  shows "answers granted (Some (unit_call what h)) (holds_file granted f regular links)"
  using assms by (cases "uh_calls h") (auto simp: unit_call_def holds_file_def unit_quiet_def)

lemma answers_write:
  assumes "holds_file granted f regular links h" and "off + length bytes < 2 ^ 63"
  shows "answers granted (Some (write_all_at h bytes off)) (holds_file granted (file_put f off bytes) regular links)"
  using assms by (cases "uh_calls h") (auto simp: write_all_at_def attempt_def unit_call_def holds_file_def unit_quiet_def)

lemma answers_read:
  assumes "holds_file granted f regular links h" and "off + n \<le> length f" and "length f < 2 ^ 63"
  shows "answers granted (Some (read_exact_at h n off)) (\<lambda>(found, h'). found = slice f off n \<and> holds_file granted f regular links h')"
  using assms by (cases "uh_calls h") (auto simp: read_exact_at_def attempt_def unit_call_def holds_file_def unit_quiet_def)

lemma file_put_end: "length f \<le> off \<Longrightarrow> file_put f off bytes = f @ replicate (off - length f) 0 @ bytes"
  by (cases bytes) (simp_all add: file_put_def Let_def put_def)

lemma file_put_start: "length bytes = length f \<Longrightarrow> file_put (f @ rest) 0 bytes = bytes @ rest"
  by (simp add: file_put_def Let_def put_def)

section \<open>What a decoded schema says\<close>

lemma find_spec_total:
  assumes "\<forall>k \<in> set ks. \<exists>c. schema_column s k = Some c"
  shows "\<exists>r. find_spec s i ks = Some r \<and> (\<forall>c. r = Inr c \<longrightarrow> spec_id c = i \<and> (\<exists>k \<in> set ks. schema_column s k = Some (Some c)))"
  using assms
proof (induction ks)
  case (Cons k ks)
  from Cons.prems obtain c where "schema_column s k = Some c" by auto
  with Cons show ?case by (cases c) auto
qed simp

lemma schema_spec_total:
  assumes "schema_of s db specs"
  shows "\<exists>r. schema_spec s i = Some r" and "schema_spec s i = Some (Inr c) \<Longrightarrow> spec_id c = i \<and> i \<noteq> 0"
proof -
  have "\<forall>k \<in> set [0..<schema_columns s]. \<exists>c. schema_column s k = Some c"
    using assms by (auto simp: schema_of_def)
  from find_spec_total [OF this, of i] obtain r where
    r: "schema_spec s i = Some r" "\<And>c. r = Inr c \<Longrightarrow> spec_id c = i \<and> (\<exists>k \<in> {0..<schema_columns s}. schema_column s k = Some (Some c))"
    by (auto simp: schema_spec_def)
  then show "\<exists>r. schema_spec s i = Some r" by blast
  assume "schema_spec s i = Some (Inr c)"
  with r(1) r(2) [of c] obtain k where k: "spec_id c = i" "k < length specs" "schema_column s k = Some (Some c)"
    using assms by (auto simp: schema_of_def)
  then have "c = specs ! k" using assms by (simp add: schema_of_def)
  with k assms show "spec_id c = i \<and> i \<noteq> 0" by (auto simp: schema_of_def)
qed

section \<open>Requirements\<close>

text \<open>A column with the declaration it was matched with and its payload.\<close>

type_synonym unit_part = "column_spec \<times> unit_column \<times> u8 list"

abbreviation part_column :: "unit_part \<Rightarrow> unit_column" where "part_column p \<equiv> fst (snd p)"
abbreviation part_bytes :: "unit_part \<Rightarrow> u8 list" where "part_bytes p \<equiv> snd (snd p)"

definition part_ok :: "storage_schema \<Rightarrow> nat \<Rightarrow> unit_part \<Rightarrow> bool" where
  "part_ok s rows p \<longleftrightarrow>
     schema_spec s (in_id (part_column p)) = Some (Inr (fst p))
     \<and> payload_length (part_column p) (fst p) rows = Inr (length (part_bytes p))
     \<and> payload_holds (part_column p) (fst p) rows (length (part_bytes p)) (part_bytes p)"

definition parts_bytes :: "unit_part list \<Rightarrow> nat" where
  "parts_bytes ps = length (concat (map part_bytes ps))"

lemma parts_bytes_simps [simp]: "parts_bytes [] = 0" "parts_bytes (p # ps) = length (part_bytes p) + parts_bytes ps"
  by (simp_all add: parts_bytes_def)

lemma answers_require_columns:
  assumes "schema_of s db specs" and "\<forall>c \<in> set cs. unit_input_ok c" and "holds_file granted f regular links h"
  shows "answers False (require_columns s rows earlier cs widest used h)
    (\<lambda>(widest', used', h'). holds_file granted f regular links h' \<and> (\<exists>ps. cs = map part_column ps \<and> list_all (part_ok s rows) ps
       \<and> used' = used + parts_bytes ps \<and> (distinct earlier \<longrightarrow> distinct (earlier @ map in_id cs))))"
  using assms(2,3)
proof (induction cs arbitrary: earlier widest used h)
  case (Cons c cs)
  show ?case
    unfolding require_columns.simps
  proof (rule answers_following [where mid = "holds_file granted f regular links"], goal_cases)
    case 1
    show ?case by (rule answers_weaken [OF answers_check [OF Cons.prems(2)]]) simp_all
  next
    case (2 h)
    show ?case
    proof (rule answers_if)
      assume new: "in_id c \<notin> set earlier"
      obtain r where r: "schema_spec s (in_id c) = Some r" using schema_spec_total(1) [OF assms(1)] by blast
      show "answers False (following (checked_spec s (in_id c)) (\<lambda>spec. following (Some (payload_length c spec rows)) (\<lambda>n.
          following (Some (unit_size (used + n))) (\<lambda>used. require_columns s rows (earlier @ [in_id c]) cs (max widest n) used h))))
        (\<lambda>(widest', used', h'). holds_file granted f regular links h' \<and> (\<exists>ps. c # cs = map part_column ps \<and> list_all (part_ok s rows) ps
          \<and> used' = used + parts_bytes ps \<and> (distinct earlier \<longrightarrow> distinct (earlier @ map in_id (c # cs)))))"
      proof (cases r)
        case (Inl e)
        then show ?thesis by (simp add: checked_spec_def r)
      next
        case spec: (Inr spec)
        show ?thesis
        proof (cases "payload_length c spec rows")
          case (Inl e)
          then show ?thesis by (simp add: checked_spec_def r spec)
        next
          case n: (Inr n)
          obtain bytes where bytes: "payload_holds c spec rows n bytes" using payload_correct [OF n] Cons.prems(1) by auto
          then have len: "n = length bytes" by (simp add: payload_holds_def)
          show ?thesis
          proof (cases "used + n < 2 ^ 64")
            case True
            have part: "part_ok s rows (spec, c, bytes)" using r spec n bytes len by (simp add: part_ok_def)
            have "answers False (require_columns s rows (earlier @ [in_id c]) cs (max widest n) (used + n) h)
                (\<lambda>(widest', used', h'). holds_file granted f regular links h' \<and> (\<exists>ps. c # cs = map part_column ps \<and> list_all (part_ok s rows) ps
                  \<and> used' = used + parts_bytes ps \<and> (distinct earlier \<longrightarrow> distinct (earlier @ map in_id (c # cs)))))"
            proof (rule answers_weaken [OF Cons.IH [OF _ 2]], goal_cases)
              case (3 x)
              obtain w u h' where x: "x = (w, u, h')" by (cases x)
              from 3 obtain ps where ps: "holds_file granted f regular links h'" "cs = map part_column ps" "list_all (part_ok s rows) ps"
                "u = used + n + parts_bytes ps" "distinct (earlier @ [in_id c]) \<longrightarrow> distinct ((earlier @ [in_id c]) @ map in_id cs)"
                unfolding x by blast
              with part len new show ?case
                unfolding x by (auto intro!: exI [of _ "(spec, c, bytes) # ps"])
            qed (use Cons.prems(1) in simp_all)
            with True show ?thesis by (simp add: checked_spec_def r spec n unit_size_def)
          next
            case False
            then show ?thesis by (simp add: checked_spec_def r spec n unit_size_def)
          qed
        qed
      qed
    qed simp
  qed
qed auto

end
