(* ===== verification/Unit_Metadata.thy ===== *)
theory Unit_Metadata
  imports Unit_Writing
begin

text \<open>The metadata of a written unit: one descriptor after another, and a header that validates.\<close>

section \<open>Descriptors\<close>

definition descriptor :: "nat \<Rightarrow> unit_part \<Rightarrow> u8 list" where
  "descriptor off p =
     put_descriptor (fst p) (in_id (part_column p)) off (length (part_bytes p)) (crc32c (part_bytes p)) (replicate descriptor_bytes 0)"

fun entries :: "nat \<Rightarrow> unit_part list \<Rightarrow> u8 list list" where
  "entries off [] = []"
| "entries off (p # ps) = descriptor off p # entries (off + length (part_bytes p)) ps"

lemma length_entries [simp]: "length (entries off ps) = length ps"
  by (induction ps arbitrary: off) simp_all

lemma descriptor_fields:
  "length (descriptor off p) = 32" "u32_at (descriptor off p) 0 = in_id (part_column p)"
  "descriptor off p ! 4 = type_tag (spec_type (fst p))" "descriptor off p ! 5 = of_bool (spec_nullable (fst p))"
  "slice (descriptor off p) 6 2 = replicate 2 0" "u64_at (descriptor off p) 8 = word_of_nat off"
  "u32_at (descriptor off p) 16 = word_of_nat (length (part_bytes p))" "u32_at (descriptor off p) 20 = crc32c (part_bytes p)"
  "drop 24 (descriptor off p) = replicate 8 0"
  by (simp_all add: descriptor_def put_descriptor_def Let_def descriptor_bytes_def u32_at_def u64_at_def put_u32_def put_u64_def byte_simps)

lemma entries_uniform: "\<forall>e \<in> set (entries off ps). length e = descriptor_bytes"
  by (induction ps arbitrary: off) (simp_all add: descriptor_fields(1) descriptor_bytes_def)

lemma length_concat_entries: "length (concat (entries off ps)) = descriptor_bytes * length ps"
proof (cases ps)
  case (Cons p qs)
  then show ?thesis using slice_concat_uniform(2) [OF entries_uniform, of 0 off ps] by simp
qed simp

lemma nth_entries: "j < length ps \<Longrightarrow> entries off ps ! j = descriptor (off + parts_bytes (take j ps)) (ps ! j)"
  by (induction ps arbitrary: off j) (auto simp: nth_Cons' add.assoc take_Cons')

section \<open>Writing the columns\<close>

definition with_payloads :: "u8 list \<Rightarrow> nat \<Rightarrow> unit_part list \<Rightarrow> u8 list" where
  "with_payloads f off ps = (if ps = [] then f else f @ replicate (off - length f) 0 @ concat (map part_bytes ps))"

lemma put_first: "length pre = at \<Longrightarrow> length x = n \<Longrightarrow> put (pre @ replicate n 0 @ rest) at x = pre @ x @ rest"
  by (simp add: put_def)

lemma slice_first: "length pre = at \<Longrightarrow> length x = n \<Longrightarrow> slice (pre @ x @ rest) at n = x"
  by (simp add: slice_def)

lemma answers_write_columns:
  assumes "list_all (part_ok s rows) ps" and "off + parts_bytes ps < 2 ^ 32"
    and "holds_file granted f regular links h" and "length f \<le> off" and "length pre = unit_header + index * descriptor_bytes"
  shows "answers granted (write_columns s rows index off (map part_column ps) (pre @ replicate (descriptor_bytes * length ps) 0) h)
    (\<lambda>(off', m, h'). off' = off + parts_bytes ps \<and> m = pre @ concat (entries off ps)
       \<and> holds_file granted (with_payloads f off ps) regular links h')"
  using assms
proof (induction ps arbitrary: index off f h pre)
  case Nil
  then show ?case by (simp add: with_payloads_def)
next
  case (Cons p ps)
  let ?f = "f @ replicate (off - length f) 0 @ part_bytes p"
  let ?n = "length (part_bytes p)"
  have p: "schema_spec s (in_id (part_column p)) = Some (Inr (fst p))" "payload_length (part_column p) (fst p) rows = Inr ?n"
    "encode_payload ?n (part_column p) = Some (part_bytes p)"
    using Cons.prems(1) by (simp_all add: part_ok_def payload_holds_def)
  have fits: "\<not> (2 ^ 32 \<le> ?n \<or> 2 ^ 64 \<le> off + ?n)" "off + ?n < 2 ^ 63" "off + ?n + parts_bytes ps < 2 ^ 32" using Cons.prems(2) by simp_all
  have put: "file_put f off (part_bytes p) = ?f" using Cons.prems(4) by (rule file_put_end)
  have len: "length ?f = off + ?n" using Cons.prems(4) by simp
  have found: "slice ?f off ?n = part_bytes p" using Cons.prems(4) by (simp add: slice_def)
  have room: "replicate (descriptor_bytes * length (p # ps)) 0 = replicate descriptor_bytes 0 @ replicate (descriptor_bytes * length ps) (0 :: u8)"
    by (simp add: replicate_add)
  have at: "slice (pre @ replicate (descriptor_bytes * length (p # ps)) 0) (unit_header + index * descriptor_bytes) descriptor_bytes
      = replicate descriptor_bytes 0"
    unfolding room by (rule slice_first) (simp_all add: Cons.prems(5))
  have entry: "put (pre @ replicate (descriptor_bytes * length (p # ps)) 0) (unit_header + index * descriptor_bytes) (descriptor off p)
      = (pre @ descriptor off p) @ replicate (descriptor_bytes * length ps) 0"
    unfolding room by (subst put_first) (simp_all add: Cons.prems(5) descriptor_fields(1) descriptor_bytes_def)
  have length_pre: "length (pre @ descriptor off p) = unit_header + (index + 1) * descriptor_bytes"
    using Cons.prems(5) by (simp add: descriptor_fields(1) descriptor_bytes_def)
  have files: "with_payloads ?f (off + ?n) ps = with_payloads f off (p # ps)" using len by (simp add: with_payloads_def)
  show ?case
    unfolding list.map write_columns.simps p(1,2,3) option.case sum.case
  proof (rule answers_following [OF answers_check [OF Cons.prems(3)]], goal_cases)
    case (1 h)
    have w: "answers granted (Some (write_all_at h (part_bytes p) off)) (holds_file granted ?f regular links)"
      using answers_write [OF 1, of off "part_bytes p"] fits(2) unfolding put by simp
    show ?case
    proof (rule answers_following [OF w], rule answers_following [OF answers_check], assumption, goal_cases)
      case (1 h1 h)
      have r: "answers granted (Some (read_exact_at h ?n off)) (\<lambda>(found, h'). found = part_bytes p \<and> holds_file granted ?f regular links h')"
        using answers_read [OF 1(2), of off ?n] fits(2) len found by simp
      show ?case
      proof (rule answers_following [OF r], goal_cases)
        case (1 x)
        then obtain h2 where x: "x = (part_bytes p, h2)" "holds_file granted ?f regular links h2" by (cases x) auto
        note ih = Cons.IH [OF _ fits(3) x(2) _ length_pre]
        show ?case
          unfolding x(1) prod.case if_not_P [OF fits(1)] Let_def at descriptor_def [symmetric] entry
          using ih Cons.prems(1) len files by (simp add: add.assoc)
      qed
    qed
  qed
qed

section \<open>The header\<close>

lemma metadata_start_parts:
  assumes "n = unit_header + descriptor_bytes * k" and "valid_database_id db"
  shows "metadata_start k s db i rows n = take 64 (metadata_start k s db i rows n) @ replicate (descriptor_bytes * k) 0"
    and "length (metadata_start k s db i rows n) = n"
proof -
  have db: "length (id_bytes db) = 16" using assms(2) by (simp add: valid_database_id_def)
  have n: "64 \<le> n" "n - 64 = descriptor_bytes * k" using assms(1) by (simp_all add: unit_header_def)
  show "length (metadata_start k s db i rows n) = n"
    using db n(1) by (simp add: metadata_start_def Let_def put_u32_def put_u64_def unit_magic_def)
  have "drop 64 (metadata_start k s db i rows n) = replicate (n - 64) 0"
    using db n(1) by (simp add: metadata_start_def Let_def put_u32_def put_u64_def unit_magic_def byte_simps)
  then show "metadata_start k s db i rows n = take 64 (metadata_start k s db i rows n) @ replicate (descriptor_bytes * k) 0"
    by (metis append_take_drop_id n(2))
qed

lemma metadata_start_fields:
  assumes "64 \<le> n" and "valid_database_id db"
  shows "slice (metadata_start k s db i rows n) 0 8 = unit_magic" "slice (metadata_start k s db i rows n) 8 4 = u32_bytes unit_format"
    "slice (metadata_start k s db i rows n) 12 4 = u32_bytes (word_of_nat k)" "slice (metadata_start k s db i rows n) 16 16 = id_bytes db"
    "slice (metadata_start k s db i rows n) 32 8 = u64_bytes (schema_table s)" "slice (metadata_start k s db i rows n) 40 8 = u64_bytes (attempt_of i)"
    "slice (metadata_start k s db i rows n) 48 4 = u32_bytes (ordinal_of i)" "slice (metadata_start k s db i rows n) 52 4 = u32_bytes (word_of_nat rows)"
    "slice (metadata_start k s db i rows n) 56 4 = u32_bytes (word_of_nat n)" "slice (metadata_start k s db i rows n) 60 4 = replicate 4 0"
  using assms
  by (simp_all add: valid_database_id_def metadata_start_def Let_def put_u32_def put_u64_def unit_magic_def byte_simps)

end
