(* ===== verification/Unit_Properties.thy ===== *)
theory Unit_Properties
  imports Unit_Metadata
begin

text \<open>A written unit validates, is accepted by the reader, and gives every value back.\<close>

section \<open>Validation\<close>

lemma unat_small: "n < 2 ^ 32 \<Longrightarrow> unat (word_of_nat n :: u32) = n"
  by (simp add: unat_of_nat)

lemma part_bounds:
  assumes "part_ok s rows p"
  shows "length (part_bytes p) \<le> max_column_bytes"
    and "bitmap_bytes rows + (case fixed_width (spec_type (fst p)) of Some w \<Rightarrow> rows * w | None \<Rightarrow> (rows + 1) * 4) \<le> length (part_bytes p)"
    and "spec_type (fst p) \<noteq> StringType \<Longrightarrow>
      length (part_bytes p) = bitmap_bytes rows + (case fixed_width (spec_type (fst p)) of Some w \<Rightarrow> rows * w | None \<Rightarrow> (rows + 1) * 4)"
proof -
  have n: "payload_length (part_column p) (fst p) rows = Inr (length (part_bytes p))" using assms by (simp add: part_ok_def)
  note parts = payload_length_parts [OF n]
  show "length (part_bytes p) \<le> max_column_bytes" by (rule parts(4))
  have fixed: "length (part_bytes p) = bitmap_bytes rows + (case fixed_width (spec_type (fst p)) of Some w \<Rightarrow> rows * w | None \<Rightarrow> (rows + 1) * 4)"
    if "spec_type (fst p) \<noteq> StringType"
    using that parts(5) by (cases "spec_type (fst p)") (simp_all add: fixed_width_def)
  then show "spec_type (fst p) \<noteq> StringType \<Longrightarrow>
      length (part_bytes p) = bitmap_bytes rows + (case fixed_width (spec_type (fst p)) of Some w \<Rightarrow> rows * w | None \<Rightarrow> (rows + 1) * 4)" .
  show "bitmap_bytes rows + (case fixed_width (spec_type (fst p)) of Some w \<Rightarrow> rows * w | None \<Rightarrow> (rows + 1) * 4) \<le> length (part_bytes p)"
  proof (cases "spec_type (fst p) = StringType")
    case True
    with parts(2) obtain ts where ts: "in_values (part_column p) = StringSlice ts" by (cases "in_values (part_column p)") simp_all
    from parts(6) [OF this] obtain m where "unit_text_total (in_validity (part_column p)) rows 0 ((rows + 1) * 4) ts = Inr m"
      "length (part_bytes p) = bitmap_bytes rows + m" by blast
    with text_total_picked(1) [OF this(1)] True show ?thesis by (simp add: fixed_width_def)
  qed (use fixed in simp)
qed

lemma check_descriptors_entries:
  assumes "list_all (part_ok s rows) ps" and "schema_of s db specs" and "off + parts_bytes ps < 2 ^ 32"
    and "distinct (earlier @ map (\<lambda>p. in_id (part_column p)) ps)"
  shows "check_descriptors s rows earlier off (entries off ps) = Some (Inr (off + parts_bytes ps))"
  using assms(1,3,4)
proof (induction ps arbitrary: earlier off)
  case (Cons p ps)
  let ?n = "length (part_bytes p)" and ?i = "in_id (part_column p)"
  have p: "part_ok s rows p" and spec: "schema_spec s ?i = Some (Inr (fst p))" using Cons.prems(1) by (simp_all add: part_ok_def)
  have i: "column_id_new ?i = Inr ?i" using schema_spec_total(2) [OF assms(2) spec] by (simp add: column_id_new_def)
  have small: "off < 2 ^ 32" "?n < 2 ^ 32" "off + ?n + parts_bytes ps < 2 ^ 32" using Cons.prems(2) by simp_all
  then have whole: "unat (word_of_nat off :: u64) = off" "unat (word_of_nat ?n :: u32) = ?n"
    using unat_small [OF small(2)] by (simp_all add: unat_of_nat)
  note bounds = part_bounds [OF p]
  have ih: "check_descriptors s rows (earlier @ [?i]) (off + ?n) (entries (off + ?n) ps) = Some (Inr (off + ?n + parts_bytes ps))"
    using Cons.IH [of "off + ?n" "earlier @ [?i]"] Cons.prems small(3) by simp
  have new: "?i \<notin> set earlier" using Cons.prems(3) by simp
  have length_ok: "\<not> (?n < bitmap_bytes rows + (case fixed_width (spec_type (fst p)) of Some w \<Rightarrow> rows * w | None \<Rightarrow> (rows + 1) * 4)
      \<or> max_column_bytes < ?n \<or> spec_type (fst p) \<noteq> StringType
        \<and> ?n \<noteq> bitmap_bytes rows + (case fixed_width (spec_type (fst p)) of Some w \<Rightarrow> rows * w | None \<Rightarrow> (rows + 1) * 4))"
    using bounds by (auto simp: not_less)
  have no_overflow: "\<not> 2 ^ 64 \<le> off + ?n" using small(3) by simp
  show ?case
    unfolding entries.simps check_descriptors.simps descriptor_fields(2) i sum.case if_not_P [OF new] spec option.case
      descriptor_fields(3-9) whole Let_def if_not_P [OF length_ok] if_not_P [OF no_overflow] ih
    by simp
qed simp

lemma descriptors_entries:
  assumes "length pre = unit_header" and "k = length es" and "\<forall>e \<in> set es. length e = descriptor_bytes"
  shows "descriptors k (pre @ concat es) = es"
proof (rule nth_equalityI)
  show "length (descriptors k (pre @ concat es)) = length es" using assms(2) by (simp add: descriptors_def)
  fix j
  assume "j < length (descriptors k (pre @ concat es))"
  then have j: "j < length es" using assms(2) by (simp add: descriptors_def)
  have "slice (pre @ concat es) (unit_header + descriptor_bytes * j) descriptor_bytes = slice (concat es) (j * descriptor_bytes) descriptor_bytes"
    using assms(1) by (simp add: slice_def mult.commute)
  also have "\<dots> = es ! j" by (rule slice_concat_uniform(1) [OF assms(3) j])
  finally show "descriptors k (pre @ concat es) ! j = es ! j" using j assms(2) by (simp add: descriptors_def)
qed

text \<open>The file of a unit.\<close>

definition unit_metadata :: "storage_schema \<Rightarrow> database_id \<Rightarrow> object_id \<Rightarrow> nat \<Rightarrow> unit_part list \<Rightarrow> u8 list" where
  "unit_metadata s db i rows ps =
     (let n = unit_header + descriptor_bytes * length ps in take 64 (metadata_start (length ps) s db i rows n) @ concat (entries n ps))"

definition unit_image :: "storage_schema \<Rightarrow> database_id \<Rightarrow> object_id \<Rightarrow> nat \<Rightarrow> unit_part list \<Rightarrow> u8 list" where
  "unit_image s db i rows ps = unit_metadata s db i rows ps @ concat (map part_bytes ps)"

definition unit_reference :: "storage_schema \<Rightarrow> database_id \<Rightarrow> object_id \<Rightarrow> nat \<Rightarrow> unit_part list \<Rightarrow> unit_ref" where
  "unit_reference s db i rows ps = \<lparr>unit_object = i, unit_rows = word_of_nat rows,
     unit_extent = word_of_nat (unit_header + descriptor_bytes * length ps + parts_bytes ps), unit_crc = crc32c (unit_metadata s db i rows ps)\<rparr>"

definition unit_parts :: "storage_schema \<Rightarrow> nat \<Rightarrow> unit_part list \<Rightarrow> bool" where
  "unit_parts s rows ps \<longleftrightarrow>
     list_all (part_ok s rows) ps \<and> distinct (map (\<lambda>p. in_id (part_column p)) ps) \<and> length ps = schema_columns s
     \<and> ps \<noteq> [] \<and> 0 < rows \<and> rows \<le> max_unit_rows"

lemma unit_extent:
  assumes "unit_parts s rows ps" and "schema_of s db specs"
  shows "unit_header + descriptor_bytes * length ps + parts_bytes ps \<le> max_unit_bytes"
    and "unit_header + descriptor_bytes * length ps + parts_bytes ps < 2 ^ 32"
proof -
  have "parts_bytes qs \<le> length qs * max_column_bytes" if "list_all (part_ok s rows) qs" for qs
    using that
  proof (induction qs)
    case (Cons q qs)
    then have "length (part_bytes q) \<le> max_column_bytes" using part_bounds(1) [of s rows q] by simp
    with Cons show ?case by simp
  qed simp
  from this [of ps] have bytes: "parts_bytes ps \<le> length ps * max_column_bytes" using assms(1) by (simp add: unit_parts_def)
  have "length ps \<le> schema_max_columns" using assms by (simp add: unit_parts_def schema_of_def)
  then have "length ps * max_column_bytes \<le> schema_max_columns * max_column_bytes" "descriptor_bytes * length ps \<le> descriptor_bytes * schema_max_columns"
    by simp_all
  with bytes show all: "unit_header + descriptor_bytes * length ps + parts_bytes ps \<le> max_unit_bytes"
    unfolding max_unit_bytes_def max_metadata_bytes_def by linarith
  then show "unit_header + descriptor_bytes * length ps + parts_bytes ps < 2 ^ 32"
    by (simp add: max_unit_bytes_def max_metadata_bytes_def unit_header_def descriptor_bytes_def schema_max_columns_def max_column_bytes_def)
qed

lemma unit_metadata_slices:
  assumes "valid_database_id db" and "off + n \<le> 64"
  shows "slice (unit_metadata s db i rows ps) off n
      = slice (metadata_start (length ps) s db i rows (unit_header + descriptor_bytes * length ps)) off n"
    and "length (unit_metadata s db i rows ps) = unit_header + descriptor_bytes * length ps"
proof -
  let ?m = "metadata_start (length ps) s db i rows (unit_header + descriptor_bytes * length ps)"
  have len: "length ?m = unit_header + descriptor_bytes * length ps"
    by (rule metadata_start_parts(2) [OF refl assms(1)])
  then have "take 64 ?m @ drop 64 ?m = ?m" "length (take 64 ?m) = 64" by (simp_all add: unit_header_def)
  moreover have "slice (x @ y) off n = slice x off n" if "off + n \<le> length x" for x y :: "u8 list"
    using that by (simp add: slice_def)
  ultimately show "slice (unit_metadata s db i rows ps) off n = slice ?m off n"
    unfolding unit_metadata_def Let_def using assms(2) by metis
  show "length (unit_metadata s db i rows ps) = unit_header + descriptor_bytes * length ps"
    using len by (simp add: unit_metadata_def Let_def length_concat_entries unit_header_def)
qed

lemma unit_metadata_validates:
  assumes "unit_parts s rows ps" and "schema_of s db specs" and "valid_database_id db" and "valid_object_id i"
  shows "validate_metadata (unit_metadata s db i rows ps) db (unit_reference s db i rows ps) s = Some (Inr ())"
    and "unit_ref_new i (word_of_nat rows) (word_of_nat (unit_header + descriptor_bytes * length ps + parts_bytes ps))
      (crc32c (unit_metadata s db i rows ps)) = Inr (unit_reference s db i rows ps)"
    and "unat (unit_extent (unit_reference s db i rows ps)) = unit_header + descriptor_bytes * length ps + parts_bytes ps"
    and "unat (unit_rows (unit_reference s db i rows ps)) = rows"
proof -
  let ?n = "unit_header + descriptor_bytes * length ps" and ?b = "unit_metadata s db i rows ps" and ?r = "unit_reference s db i rows ps"
  note extent = unit_extent [OF assms(1,2)]
  have rows: "0 < rows" "rows \<le> 32768" using assms(1) by (simp_all add: unit_parts_def max_unit_rows_def)
  have k: "length ps = schema_columns s" "length ps \<le> 64" "ps \<noteq> []"
    using assms(1,2) by (simp_all add: unit_parts_def schema_of_def schema_max_columns_def)
  have small: "?n < 2 ^ 32" "length ps < 2 ^ 32" using extent(2) k(2) by simp_all
  show whole: "unat (unit_extent ?r) = ?n + parts_bytes ps" unfolding unit_reference_def unit_ref.simps by (rule unat_small [OF extent(2)])
  show rows_back: "unat (unit_rows ?r) = rows" using rows by (simp add: unit_reference_def unat_of_nat)
  have least: "unit_header + descriptor_bytes \<le> ?n + parts_bytes ps" using k(3) by (cases ps) simp_all
  have r32: "unat (word_of_nat rows :: u32) = rows" "(word_of_nat rows :: u32) \<noteq> 0"
    using rows by (simp_all add: unat_of_nat word_unat_eq_iff)
  have b32: "unat (word_of_nat (?n + parts_bytes ps) :: u32) = ?n + parts_bytes ps" by (rule unat_small [OF extent(2)])
  show "unit_ref_new i (word_of_nat rows) (word_of_nat (?n + parts_bytes ps)) (crc32c ?b) = Inr ?r"
    unfolding unit_ref_new_def r32(1) b32
    using r32(2) rows extent(1) least by (simp add: unit_reference_def max_unit_rows_def)
  have len: "length ?b = ?n" by (rule unit_metadata_slices(2) [OF assms(3), of 0 0]) simp
  have fields: "slice ?b 0 8 = unit_magic" "slice ?b 8 4 = u32_bytes unit_format" "slice ?b 12 4 = u32_bytes (word_of_nat (length ps))"
    "slice ?b 16 16 = id_bytes db" "slice ?b 32 8 = u64_bytes (schema_table s)" "slice ?b 40 8 = u64_bytes (attempt_of i)"
    "slice ?b 48 4 = u32_bytes (ordinal_of i)" "slice ?b 52 4 = u32_bytes (word_of_nat rows)" "slice ?b 56 4 = u32_bytes (word_of_nat ?n)"
    "slice ?b 60 4 = replicate 4 0"
    using unit_metadata_slices(1) [OF assms(3)] metadata_start_fields [OF _ assms(3), of ?n] by (simp_all add: unit_header_def)
  have ds: "descriptors (schema_columns s) ?b = entries ?n ps"
    unfolding unit_metadata_def Let_def
    using metadata_start_parts(2) [OF refl assms(3), where k = "length ps"] k(1)
    by (intro descriptors_entries entries_uniform) (simp_all add: unit_header_def)
  have checks: "check_descriptors s rows [] ?n (entries ?n ps) = Some (Inr (?n + parts_bytes ps))"
    using assms(1) extent(2) by (intro check_descriptors_entries [OF _ assms(2)]) (simp_all add: unit_parts_def)
  have object: "object_id_new (attempt_of i) (ordinal_of i) = Inr i" using assms(4) by (simp add: object_id_new_Inr)
  have database: "schema_database s = Some db" using assms(2) by (simp add: schema_of_def)
  have counts: "unat (word_of_nat (length ps) :: u32) = schema_columns s" "unat (word_of_nat ?n :: u32) = ?n"
    using unat_small [OF small(1)] unat_small [OF small(2)] k(1) by simp_all
  have extents: "\<not> ?n < 12" "unit_header + schema_columns s * descriptor_bytes = ?n"
    using k(1) by (simp_all add: unit_header_def mult.commute)
  have refs: "unit_crc ?r = crc32c ?b" "unit_object ?r = i" "unit_rows ?r = word_of_nat rows" by (simp_all add: unit_reference_def)
  show "validate_metadata ?b db ?r s = Some (Inr ())"
    unfolding validate_metadata_def database option.case len u32_at_def u64_at_def fields refs if_not_P [OF extents(1)] extents(2)
      u32_of_bytes_bytes u64_of_bytes_bytes object sum.case ds counts r32(1) checks whole
    by simp
qed

end
