(* ===== verification/Unit_Roundtrip.thy ===== *)
theory Unit_Roundtrip
  imports Unit_Properties
begin

text \<open>Writing a unit and reading its columns back.\<close>

section \<open>Writing\<close>

lemma answers_requirements:
  assumes "schema_of s db specs" and "\<forall>c \<in> set cs. unit_input_ok c" and "holds_file granted f regular links h"
  shows "answers False (requirements s cs h) (\<lambda>(needs, h'). holds_file granted f regular links h'
    \<and> (\<exists>ps. cs = map part_column ps \<and> unit_parts s (need_rows needs) ps
       \<and> need_metadata needs = unit_header + descriptor_bytes * length ps \<and> need_unit needs = need_metadata needs + parts_bytes ps))"
proof -
  let ?rows = "values_len (in_values (hd cs))" and ?n = "unit_header + descriptor_bytes * length cs"
  have poll: "answers False (Some (unit_poll h)) (holds_file granted f regular links)" if "holds_file granted f regular links h" for h
    by (rule answers_weaken [OF answers_check [OF that]]) simp_all
  show ?thesis
    unfolding requirements_def Let_def
  proof (rule answers_following [OF poll [OF assms(3)]], rule answers_if, simp, rule answers_if, simp, goal_cases)
    case (1 h)
    show ?case
    proof (rule answers_following [where mid = "\<lambda>_. ?rows \<le> max_unit_rows"], goal_cases)
      case 1
      show ?case by (simp add: within_def)
    next
      case 2
      show ?case
      proof (rule answers_following [OF answers_require_columns [OF assms(1,2) 1(1)]], goal_cases)
        case (1 x)
        then obtain w u h' ps where x: "x = (w, u, h')" "holds_file granted f regular links h'" "cs = map part_column ps"
          "list_all (part_ok s ?rows) ps" "u = ?n + parts_bytes ps" "distinct (map in_id cs)"
          by (cases x) auto
        have "unit_parts s ?rows ps"
          using x(3,4,6) 2 \<open>\<not> (length cs \<noteq> schema_columns s \<or> cs = [])\<close> \<open>?rows \<noteq> 0\<close>
          by (simp add: unit_parts_def comp_def)
        moreover have "length cs = length ps" using x(3) by simp
        ultimately show ?case
          unfolding x(1) prod.case
          by (intro answers_following [OF poll [OF x(2)]]) (use x(3,5) in auto)
      qed
    qed
  qed
qed

lemma answers_granting:
  assumes "answers False m mid" and "granted \<Longrightarrow> \<exists>x. m = Some (Inr x) \<and> fits x"
  shows "answers granted m (\<lambda>x. mid x \<and> (granted \<longrightarrow> fits x))"
  using assms by (cases granted) (auto simp: answers_def split: option.splits sum.splits)

text \<open>The file is private and empty, and the buffers hold what the inputs require.\<close>

definition unit_granted :: "storage_schema \<Rightarrow> unit_column list \<Rightarrow> nat \<Rightarrow> nat \<Rightarrow> unit_host \<Rightarrow> bool" where
  "unit_granted s cs metadata_room column_room h \<longleftrightarrow>
     unit_quiet h \<and> uh_file h = [] \<and> uh_regular h \<and> uh_links h = 1
     \<and> (\<exists>needs h'. requirements s cs h = Some (Inr (needs, h')) \<and> need_metadata needs \<le> metadata_room \<and> need_column needs \<le> column_room)"

definition unit_written :: "storage_schema \<Rightarrow> database_id \<Rightarrow> object_id \<Rightarrow> unit_column list \<Rightarrow> unit_ref \<Rightarrow> u8 list \<Rightarrow> bool" where
  "unit_written s db i cs r f \<longleftrightarrow>
     (\<exists>rows ps. unit_parts s rows ps \<and> cs = map part_column ps \<and> r = unit_reference s db i rows ps \<and> f = unit_image s db i rows ps)"

lemma unit_image_length:
  assumes "valid_database_id db"
  shows "length (unit_image s db i rows ps) = unit_header + descriptor_bytes * length ps + parts_bytes ps"
    and "slice (unit_image s db i rows ps) 0 (unit_header + descriptor_bytes * length ps) = unit_metadata s db i rows ps"
  using unit_metadata_slices(2) [OF assms, of 0 0] by (simp_all add: unit_image_def parts_bytes_def slice_def)

text \<open>From the private file on: the columns, the metadata, and the check of what was written.\<close>

lemma answers_write_unit:
  assumes s: "schema_of s db specs" and db: "valid_database_id db" and i: "valid_object_id i" and ok: "\<forall>c \<in> set cs. unit_input_ok c"
  shows "answers (unit_granted s cs metadata_room column_room h) (write_unit i s cs metadata_room column_room h)
    (\<lambda>(r, h'). unit_written s db i cs r (uh_file h'))"
proof -
  let ?g = "unit_granted s cs metadata_room column_room h"
  define f regular links where "f = uh_file h" and "regular = uh_regular h" and "links = uh_links h"
  have h: "holds_file ?g f regular links h" by (simp add: holds_file_def f_def regular_def links_def unit_granted_def)
  have unused: "?g \<Longrightarrow> regular \<and> f = [] \<and> links = 1" by (simp add: f_def regular_def links_def unit_granted_def)
  have database: "schema_database s = Some db" using s by (simp add: schema_of_def)
  have needs: "answers ?g (requirements s cs h) (\<lambda>x. (case x of (needs, h') \<Rightarrow> holds_file ?g f regular links h'
      \<and> (\<exists>ps. cs = map part_column ps \<and> unit_parts s (need_rows needs) ps
         \<and> need_metadata needs = unit_header + descriptor_bytes * length ps \<and> need_unit needs = need_metadata needs + parts_bytes ps))
      \<and> (?g \<longrightarrow> need_metadata (fst x) \<le> metadata_room \<and> need_column (fst x) \<le> column_room))"
    by (rule answers_granting [OF answers_requirements [OF s ok h]]) (auto simp: unit_granted_def)
  show ?thesis
    unfolding write_unit_def database option.case
  proof (rule answers_following [OF needs], goal_cases)
    case (1 x)
    obtain needs h0 where x: "x = (needs, h0)" by (cases x)
    from 1 obtain ps where h0: "holds_file ?g f regular links h0"
      and ps: "cs = map part_column ps" "unit_parts s (need_rows needs) ps"
      and n: "need_metadata needs = unit_header + descriptor_bytes * length ps" "need_unit needs = need_metadata needs + parts_bytes ps"
      and rooms: "?g \<longrightarrow> need_metadata needs \<le> metadata_room \<and> need_column needs \<le> column_room"
      unfolding x prod.case fst_conv by blast
    let ?rows = "need_rows needs" and ?n = "unit_header + descriptor_bytes * length ps"
    let ?m = "unit_metadata s db i ?rows ps" and ?r = "unit_reference s db i ?rows ps"
    note extent = unit_extent [OF ps(2) s]
    note valid = unit_metadata_validates [OF ps(2) s db i]
    note image = unit_image_length [OF db, of s i ?rows ps]
    have m: "length ?m = ?n" by (rule unit_metadata_slices(2) [OF db, of 0 0]) simp
    have k: "length cs = length ps" using ps(1) by simp
    have start: "metadata_start (length cs) s db i ?rows ?n
        = take 64 (metadata_start (length cs) s db i ?rows ?n) @ replicate (descriptor_bytes * length ps) 0"
      using metadata_start_parts(1) [OF refl db] unfolding k .
    have pre: "length (take 64 (metadata_start (length cs) s db i ?rows ?n)) = unit_header + 0 * descriptor_bytes"
      using metadata_start_parts(2) [OF refl db, of "length ps" s i ?rows] by (simp add: k unit_header_def)
    have whole: "take 64 (metadata_start (length cs) s db i ?rows ?n) @ concat (entries ?n ps) = ?m"
      by (simp add: unit_metadata_def Let_def k)
    have parts: "list_all (part_ok s ?rows) ps" "ps \<noteq> []" using ps(2) by (simp_all add: unit_parts_def)
    have small: "?n + parts_bytes ps < 2 ^ 32" by (rule extent(2))
    have payloads: "with_payloads [] ?n ps = replicate ?n 0 @ concat (map part_bytes ps)" using parts(2) by (simp add: with_payloads_def)
    have overwritten: "file_put (replicate ?n 0 @ concat (map part_bytes ps)) 0 ?m = unit_image s db i ?rows ps"
      unfolding unit_image_def by (rule file_put_start) (simp add: m)
    show ?case
      unfolding x prod.case Let_def n(1)
    proof (rule answers_following [where mid = "\<lambda>_. True"], goal_cases)
      case 1
      show ?case using rooms n(1) by (auto simp: within_def)
    next
      case 2
      show ?case
      proof (rule answers_following [where mid = "\<lambda>_. True"], goal_cases)
        case 1
        show ?case using rooms by (auto simp: within_def)
      next
        case 2
        show ?case
        proof (rule answers_following [OF answers_check [OF h0]], rule answers_following [OF answers_call], assumption, rule answers_if, goal_cases)
          case (1 h1 h2)
          then show ?case using unused by (auto simp: holds_file_def)
        next
          case (2 h1 h2)
          then have f: "f = []" by (simp add: holds_file_def)
          have columns: "answers ?g (write_columns s ?rows 0 ?n cs (metadata_start (length cs) s db i ?rows ?n) h2)
              (\<lambda>(off, m, h'). off = ?n + parts_bytes ps \<and> m = ?m
                 \<and> holds_file ?g (replicate ?n 0 @ concat (map part_bytes ps)) regular links h')"
            using answers_write_columns [OF parts(1) small 2(2) _ pre] unfolding f payloads whole start [symmetric] ps(1) [symmetric] by simp
          show ?case
          proof (rule answers_following [OF columns], goal_cases)
            case (1 y)
            then obtain h3 where y: "y = (?n + parts_bytes ps, ?m, h3)"
              and h3: "holds_file ?g (replicate ?n 0 @ concat (map part_bytes ps)) regular links h3" by (cases y) auto
            have ready: "\<not> (?n + parts_bytes ps \<noteq> need_unit needs \<or> 2 ^ 32 \<le> ?n + parts_bytes ps)" using n small by simp
            have rewrite_head: "answers ?g (Some (write_all_at h ?m 0)) (holds_file ?g (unit_image s db i ?rows ps) regular links)"
              if "holds_file ?g (replicate ?n 0 @ concat (map part_bytes ps)) regular links h" for h
              using answers_write [OF that, of 0 ?m] small m unfolding overwritten by simp
            have reread: "answers ?g (Some (read_exact_at h ?n 0))
                (\<lambda>(found, h'). found = ?m \<and> holds_file ?g (unit_image s db i ?rows ps) regular links h')"
              if "holds_file ?g (unit_image s db i ?rows ps) regular links h" for h
              using answers_read [OF that, of 0 ?n] image small by simp
            show ?case
              unfolding y prod.case if_not_P [OF ready] valid(2) map_error_simps following_simps
            proof (rule answers_following [OF answers_check [OF h3]], rule answers_following [OF rewrite_head], assumption,
                rule answers_following [OF answers_check], assumption, rule answers_following [OF reread], assumption, goal_cases)
              case (1 h4 h5 h6 z)
              then obtain h7 where z: "z = (?m, h7)" and h7: "holds_file ?g (unit_image s db i ?rows ps) regular links h7" by (cases z) auto
              show ?case
                unfolding z prod.case valid(1) option.map map_error_simps following_simps
              proof (rule answers_following [OF answers_check [OF h7]], rule answers_following [OF answers_call], assumption, rule answers_if, goal_cases)
                case (1 h8 h9)
                then show ?case using image(1) valid(3) by (simp add: holds_file_def)
              next
                case (2 h8 h9)
                show ?case
                proof (rule answers_following [OF answers_check [OF 2(2)]], goal_cases)
                  case (1 h10)
                  then have "uh_file h10 = unit_image s db i ?rows ps" by (simp add: holds_file_def)
                  then show ?case using ps by (auto simp: unit_written_def)
                qed
              qed
            qed
          qed
        qed
      qed
    qed
  qed
qed

end
