(* ===== verification/Unit_Reading.thy ===== *)
theory Unit_Reading
  imports Unit_Roundtrip
begin

text \<open>Opening a written unit and reading one column of it.\<close>

lemma answers_open_object:
  assumes "holds_file granted f regular links h" and "granted \<Longrightarrow> regular"
  shows "answers granted (Some (open_object h)) (\<lambda>(n, h'). n = length f \<and> holds_file granted f regular links h')"
proof -
  have opened: "Some (open_object h) = following (Some (unit_poll h)) (\<lambda>h. following (Some (unit_call ''inspect namespace entry'' h)) (\<lambda>h.
      if \<not> uh_regular h then Some (Inl (Corrupt ''catalog object is not a regular file''))
      else following (Some (unit_poll h)) (\<lambda>h. following (Some (unit_call ''open catalog object'' h)) (\<lambda>h.
        following (Some (unit_call ''inspect open catalog object'' h)) (\<lambda>h. Some (Inr (length (uh_file h), h)))))))"
    by (simp add: open_object_def attempt_def following_def split: sum.split)
  show ?thesis
    unfolding opened
  proof (rule answers_following [OF answers_check [OF assms(1)]], rule answers_following [OF answers_call], assumption, rule answers_if, goal_cases)
    case (1 h1 h2)
    then show ?case using assms(2) by (auto simp: holds_file_def)
  next
    case (2 h1 h2)
    show ?case
      by (rule answers_following [OF answers_check [OF 2(2)]], rule answers_following [OF answers_call], assumption,
          rule answers_following [OF answers_call], assumption) (simp add: holds_file_def)
  qed
qed

lemma answers_read_unit:
  assumes "unit_parts s rows ps" and "schema_of s db specs" and "valid_database_id db" and "valid_object_id i"
    and "holds_file granted (unit_image s db i rows ps) regular links h" and "granted \<Longrightarrow> regular"
  shows "answers granted (read_unit db (unit_reference s db i rows ps) s h)
    (\<lambda>(u, h'). u = \<lparr>open_metadata = unit_metadata s db i rows ps, open_rows = rows\<rparr>
       \<and> holds_file granted (unit_image s db i rows ps) regular links h')"
proof -
  let ?n = "unit_header + descriptor_bytes * length ps" and ?f = "unit_image s db i rows ps"
  note valid = unit_metadata_validates [OF assms(1-4)]
  note image = unit_image_length [OF assms(3), of s i rows ps]
  have n: "unit_header + schema_columns s * descriptor_bytes = ?n" using assms(1) by (simp add: unit_parts_def mult.commute)
  show ?thesis
    unfolding read_unit_def Let_def n
  proof (rule answers_following [OF answers_check [OF assms(5)]], rule answers_following [OF answers_open_object [OF _ assms(6)]], assumption, assumption, goal_cases)
    case (1 h1 x)
    then obtain h2 where x: "x = (length ?f, h2)" "holds_file granted ?f regular links h2" by (cases x) auto
    have extent: "\<not> length ?f \<noteq> unat (unit_extent (unit_reference s db i rows ps))" using valid(3) image(1) by simp
    have reread: "answers granted (Some (read_exact_at h ?n 0)) (\<lambda>(found, h'). found = unit_metadata s db i rows ps \<and> holds_file granted ?f regular links h')"
      if "holds_file granted ?f regular links h" for h
      using answers_read [OF that, of 0 ?n] image unit_extent(2) [OF assms(1,2)] by simp
    show ?case
      unfolding x(1) prod.case if_not_P [OF extent]
    proof (rule answers_following [OF answers_check [OF x(2)]], rule answers_following [OF reread], assumption, goal_cases)
      case (1 h3 z)
      then obtain h4 where z: "z = (unit_metadata s db i rows ps, h4)" "holds_file granted ?f regular links h4" by (cases z) auto
      show ?case
        unfolding z(1) prod.case valid(1) option.map map_error_simps following_simps valid(4)
        by (rule answers_following [OF answers_check [OF z(2)]]) simp
    qed
  qed
qed

lemma find_entry:
  assumes "distinct (map (\<lambda>p. in_id (part_column p)) ps)" and "j < length ps"
  shows "find (\<lambda>entry. u32_at entry 0 = in_id (part_column (ps ! j))) (entries off ps) = Some (entries off ps ! j)"
proof -
  have at: "u32_at (entries off ps ! k) 0 = in_id (part_column (ps ! k))" if "k < length ps" for k
    using that by (simp add: nth_entries descriptor_fields(2))
  have "in_id (part_column (ps ! k)) \<noteq> in_id (part_column (ps ! j))" if "k < j" for k
    using that assms nth_eq_iff_index_eq [OF assms(1), of k j] by simp
  then show ?thesis using assms(2) by (auto simp: find_Some_iff at intro!: exI [of _ j])
qed

lemma answers_read_column:
  assumes "unit_parts s rows ps" and "schema_of s db specs" and "valid_database_id db" and "p \<in> set ps"
    and "holds_file granted (unit_image s db i rows ps) regular links h" and "granted \<Longrightarrow> max_column_bytes \<le> room"
  shows "answers granted (read_unit_column \<lparr>open_metadata = unit_metadata s db i rows ps, open_rows = rows\<rparr> (in_id (part_column p)) room h)
    (\<lambda>(v, _). v = \<lparr>col_bytes = part_bytes p, col_rows = rows, col_kind = spec_type (fst p)\<rparr>)"
proof -
  let ?n = "unit_header + descriptor_bytes * length ps" and ?f = "unit_image s db i rows ps" and ?m = "unit_metadata s db i rows ps"
  obtain j where j: "j < length ps" "p = ps ! j" using assms(4) by (auto simp: in_set_conv_nth)
  have distinct: "distinct (map (\<lambda>p. in_id (part_column p)) ps)" and part: "part_ok s rows p"
    using assms(1,4) by (simp_all add: unit_parts_def list_all_iff)
  have m: "length ?m = ?n" by (rule unit_metadata_slices(2) [OF assms(3), of 0 0]) simp
  have "descriptors (length ps) ?m = entries ?n ps"
    unfolding unit_metadata_def Let_def
    using metadata_start_parts(2) [OF refl assms(3), where k = "length ps"]
    by (intro descriptors_entries entries_uniform) (simp_all add: unit_header_def)
  moreover have "(length ?m - unit_header) div descriptor_bytes = length ps" using m by (simp add: descriptor_bytes_def)
  ultimately have found: "find (\<lambda>entry. u32_at entry 0 = in_id (part_column p)) (descriptors ((length ?m - unit_header) div descriptor_bytes) ?m)
      = Some (descriptor (?n + parts_bytes (take j ps)) p)"
    using find_entry [OF distinct j(1), of ?n] j by (simp add: nth_entries)
  let ?off = "?n + parts_bytes (take j ps)" and ?k = "length (part_bytes p)"
  have pieces: "parts_bytes (take j ps) = piece_start (map part_bytes ps) j" by (simp add: parts_bytes_def piece_start_def take_map)
  have inside: "?off + ?k \<le> length ?f"
    using piece_start_le [of "map part_bytes ps" "Suc j"] j m by (simp add: pieces unit_image_def)
  have extent: "length ?f < 2 ^ 32" using unit_image_length(1) [OF assms(3), of s i rows ps] unit_extent(2) [OF assms(1,2)] by simp
  have "slice ?f ?off ?k = slice (concat (map part_bytes ps)) (piece_start (map part_bytes ps) j) (length (map part_bytes ps ! j))"
    using m j by (simp add: unit_image_def slice_def pieces)
  then have payload: "slice ?f ?off ?k = part_bytes p" using slice_piece [of j "map part_bytes ps"] j by simp
  have k: "?k < 2 ^ 32" "?off < 2 ^ 64" using inside extent by simp_all
  have places: "unat (word_of_nat ?k :: u32) = ?k" "unat (word_of_nat ?off :: u64) = ?off"
    using unat_small [OF k(1)] k(2) by (simp_all add: unat_of_nat del: of_nat_add)
  have wide: "\<not> room < ?k" if granted using assms(6) [OF that] part_bounds(1) [OF part] by simp
  have valid: "column_validate (spec_nullable (fst p)) \<lparr>col_bytes = part_bytes p, col_rows = rows, col_kind = spec_type (fst p)\<rparr> = Some (Inr ())"
    using part by (simp add: part_ok_def payload_holds_def)
  have nullable: "((of_bool (spec_nullable (fst p)) :: u8) \<noteq> 0) = spec_nullable (fst p)" by simp
  show ?thesis
    unfolding read_unit_column_def open_unit.select_convs
  proof (rule answers_following [OF answers_check [OF assms(5)]], goal_cases)
    case (1 h)
    have read: "answers granted (Some (read_exact_at h ?k ?off)) (\<lambda>(found, h'). found = part_bytes p \<and> holds_file granted ?f regular links h')"
      using answers_read [OF 1, of ?off ?k] inside extent payload by simp
    show ?case
      unfolding found option.case Let_def descriptor_fields(3,4,6,7,8) places
    proof (rule answers_following [where mid = "\<lambda>_. True"], goal_cases)
      case 1
      show ?case using wide by (auto simp: within_def)
    next
      case 2
      show ?case
      proof (rule answers_following [OF read], goal_cases)
        case (1 x)
        then obtain h1 where x: "x = (part_bytes p, h1)" "holds_file granted ?f regular links h1" by (cases x) auto
        show ?case
          unfolding x(1) prod.case
        proof (rule answers_following [OF answers_check [OF x(2)]], goal_cases)
          case (1 h2)
          show ?case
            unfolding type_tag_of sum.case nullable valid option.map map_error_simps following_simps
            by simp (rule answers_following [OF answers_check [OF 1]], simp)
        qed
      qed
    qed
  qed
qed

end
