(* ===== verification/Unit_Safety.thy ===== *)
theory Unit_Safety
  imports Unit_Reading
begin

text \<open>
  Reading a file that anyone may have written: no assertion fails, and every row of a column that
  was accepted can be read.
\<close>

section \<open>Validated columns\<close>

lemma check_slots_date:
  assumes "check_slots bytes validity width True rows = Inr ()" and "row \<in> set rows" and "row_valid bytes row"
  shows "date_at bytes (validity + row * width) \<noteq> None"
  using assms by (induction rows) (auto split: if_splits)

lemma check_texts_row:
  assumes "check_texts bytes validity strings [k..<rows] prior = Inr stop" and "k \<le> row" and "row < rows"
    and "prior = unat (u32_at bytes (validity + k * 4))"
  shows "unat (u32_at bytes (validity + row * 4)) \<le> unat (u32_at bytes (validity + (row + 1) * 4))
    \<and> unat (u32_at bytes (validity + (row + 1) * 4)) \<le> length strings
    \<and> utf8 (slice strings (unat (u32_at bytes (validity + row * 4)))
        (unat (u32_at bytes (validity + (row + 1) * 4)) - unat (u32_at bytes (validity + row * 4))))"
  using assms
proof (induction "row - k" arbitrary: k prior)
  case 0
  then have "[k..<rows] = row # [Suc row..<rows]" "k = row" by (simp_all add: upt_conv_Cons)
  with 0 show ?case by (auto simp: Let_def split: if_splits)
next
  case (Suc n)
  then have "[k..<rows] = k # [Suc k..<rows]" by (simp add: upt_conv_Cons)
  with Suc.prems(1) have "check_texts bytes validity strings [Suc k..<rows] (unat (u32_at bytes (validity + (k + 1) * 4))) = Inr stop"
    by (auto simp: Let_def split: if_splits)
  with Suc(1) [of "Suc k"] Suc(2) Suc.prems(2,3) show ?case by simp
qed

lemma validated_cell:
  assumes "column_validate nullable v = Some (Inr ())" and "row < col_rows v"
  shows "\<exists>cell. column_cell v row = Some (Inr cell)"
proof (cases "col_kind v")
  case Int64Type
  with assms(2) show ?thesis by (simp add: column_cell_def column_int64_def column_present_def attempt_def)
next
  case DoubleType
  with assms(2) show ?thesis by (simp add: column_cell_def column_double_def column_present_def attempt_def)
next
  case DateType
  with assms(1) have "check_slots (col_bytes v) (bitmap_bytes (col_rows v)) 4 True [0..<col_rows v] = Inr ()"
    by (auto simp: column_validate_def Let_def fixed_width_def split: if_splits sum.splits)
  from check_slots_date [OF this, of row] assms(2) DateType show ?thesis
    by (auto simp: column_cell_def column_date_def column_present_def attempt_def)
next
  case StringType
  let ?bytes = "col_bytes v" and ?validity = "bitmap_bytes (col_rows v)"
  let ?base = "?validity + (col_rows v + 1) * 4"
  from assms(1) StringType obtain prior where texts: "check_texts ?bytes ?validity (drop ?base ?bytes) [0..<col_rows v] 0 = Inr prior"
    and zero: "u32_at ?bytes ?validity = 0" and len: "?base \<le> length ?bytes"
    by (auto simp: column_validate_def Let_def fixed_width_def attempt_Inr_conv not_less split: if_splits sum.splits)
  note row = check_texts_row [OF texts _ assms(2)]
  have row: "unat (u32_at ?bytes (?validity + row * 4)) \<le> unat (u32_at ?bytes (?validity + (row + 1) * 4))"
    "unat (u32_at ?bytes (?validity + (row + 1) * 4)) \<le> length (drop ?base ?bytes)"
    "utf8 (slice (drop ?base ?bytes) (unat (u32_at ?bytes (?validity + row * 4)))
        (unat (u32_at ?bytes (?validity + (row + 1) * 4)) - unat (u32_at ?bytes (?validity + row * 4))))"
    using row zero by simp_all
  have inside: "\<not> length ?bytes < ?base + unat (u32_at ?bytes (?validity + (row + 1) * 4))"
    using row(2) len by simp
  have text_slice: "slice ?bytes (?base + unat (u32_at ?bytes (?validity + row * 4))) n = slice (drop ?base ?bytes) (unat (u32_at ?bytes (?validity + row * 4))) n" for n
    by (simp add: slice_def add.commute)
  have "\<exists>x. column_string v row = Some (Inr x)"
    using assms(2) StringType inside row(1,3)
    unfolding column_string_def column_present_def Let_def text_slice by (auto simp: not_less)
  with StringType show ?thesis by (auto simp: column_cell_def attempt_def)
qed

lemma column_validate_runs:
  assumes "bitmap_bytes (col_rows v) + (case fixed_width (col_kind v) of Some w \<Rightarrow> col_rows v * w | None \<Rightarrow> (col_rows v + 1) * 4) \<le> length (col_bytes v)"
  shows "column_validate nullable v \<noteq> None"
  using assms by (auto simp: column_validate_def Let_def split: sum.split option.split)

section \<open>Descriptors that were checked\<close>

lemma check_descriptors_runs:
  assumes "schema_of s db specs"
  shows "check_descriptors s rows earlier off es \<noteq> None"
proof (induction es arbitrary: earlier off)
  case (Cons e es)
  define spec where "spec = (\<lambda>i. the (schema_spec s i))"
  define rest where "rest = (\<lambda>earlier off. the (check_descriptors s rows earlier off es))"
  have "schema_spec s i = Some (spec i)" for i
    using schema_spec_total(1) [OF assms, of i] by (auto simp: spec_def)
  moreover have "check_descriptors s rows earlier off es = Some (rest earlier off)" for earlier off
    using Cons [of earlier off] by (auto simp: rest_def)
  ultimately show ?case by (simp add: Let_def split: sum.split)
qed simp

lemma check_descriptors_each:
  assumes "check_descriptors s rows earlier off es = Some (Inr stop)" and "e \<in> set es"
  shows "\<exists>kind. e ! 4 = type_tag kind
    \<and> bitmap_bytes rows + (case fixed_width kind of Some w \<Rightarrow> rows * w | None \<Rightarrow> (rows + 1) * 4) \<le> unat (u32_at e 16)"
  using assms
proof (induction es arbitrary: earlier off)
  case (Cons x es)
  from Cons.prems(1) obtain i spec where i: "column_id_new (u32_at x 0) = Inr i" and spec: "schema_spec s i = Some (Inr spec)"
    by (auto split: sum.splits option.splits if_splits)
  have checked: "x ! 4 = type_tag (spec_type spec)"
    "bitmap_bytes rows + (case fixed_width (spec_type spec) of Some w \<Rightarrow> rows * w | None \<Rightarrow> (rows + 1) * 4) \<le> unat (u32_at x 16)"
    "check_descriptors s rows (earlier @ [i]) (off + unat (u32_at x 16)) es = Some (Inr stop)"
    using Cons.prems(1) unfolding check_descriptors.simps i spec sum.case option.case Let_def
    by (simp_all only: not_less de_Morgan_disj split: if_splits) simp_all
  from Cons.prems(2) show ?case
  proof (cases "e = x")
    case False
    with Cons.IH [OF checked(3)] Cons.prems(2) show ?thesis by simp
  qed (use checked(1,2) in blast)
qed simp

lemma if_some: "x \<noteq> None \<Longrightarrow> y \<noteq> None \<Longrightarrow> (if b then x else y) \<noteq> None"
  by simp

lemma validate_metadata_runs:
  assumes "schema_of s db' specs"
  shows "validate_metadata bytes db r s \<noteq> None"
proof -
  obtain res where res: "check_descriptors s (unat (unit_rows r)) [] (length bytes) (descriptors (schema_columns s) bytes) = Some res"
    using check_descriptors_runs [OF assms] by blast
  have database: "schema_database s = Some db'" using assms by (simp add: schema_of_def)
  show ?thesis
    unfolding validate_metadata_def database res option.case
  proof (intro if_some option.distinct(2))
    show "(case object_id_new (u64_at bytes 40) (u32_at bytes 48) of Inl e \<Rightarrow> Some (Inl e)
        | Inr i \<Rightarrow> if i \<noteq> unit_object r then Some (Inl FmtIdentity)
            else if unat (u32_at bytes 12) \<noteq> schema_columns s \<or> u32_at bytes 52 \<noteq> unit_rows r \<or> unat (u32_at bytes 56) \<noteq> length bytes
            then Some (Inl FmtField)
            else if \<not> all_zero (slice bytes 60 4) then Some (Inl FmtReserved)
            else case res of Inl e \<Rightarrow> Some (Inl e) | Inr offset \<Rightarrow> if offset \<noteq> unat (unit_extent r) then Some (Inl FmtLength) else Some (Inr ())) \<noteq> None"
      by (simp split: sum.split)
  qed
qed

lemma validate_metadata_checks:
  assumes "validate_metadata bytes db r s = Some (Inr ())" and "e \<in> set (descriptors (schema_columns s) bytes)"
  shows "\<exists>kind. e ! 4 = type_tag kind
    \<and> bitmap_bytes (unat (unit_rows r)) + (case fixed_width kind of Some w \<Rightarrow> unat (unit_rows r) * w | None \<Rightarrow> (unat (unit_rows r) + 1) * 4)
        \<le> unat (u32_at e 16)"
proof -
  define checked where "checked = check_descriptors s (unat (unit_rows r)) [] (length bytes) (descriptors (schema_columns s) bytes)"
  have "\<exists>stop. checked = Some (Inr stop)"
    using assms(1) unfolding validate_metadata_def checked_def [symmetric]
    by (simp split: option.splits sum.splits if_split_asm)
  then obtain stop where
    "check_descriptors s (unat (unit_rows r)) [] (length bytes) (descriptors (schema_columns s) bytes) = Some (Inr stop)"
    by (auto simp: checked_def)
  from check_descriptors_each [OF this assms(2)] show ?thesis .
qed

section \<open>Reading any file\<close>

lemma answers_any: "m \<noteq> None \<Longrightarrow> answers False m (\<lambda>_. True)"
  by (auto simp: answers_def split: sum.split)

lemma answers_some: "(\<And>x. r = Inr x \<Longrightarrow> post x) \<Longrightarrow> answers False (Some r) post"
  by (cases r) simp_all

lemma read_unit_any:
  assumes "schema_of s db specs"
  shows "answers False (read_unit db r s h) (\<lambda>(u, _). open_rows u = unat (unit_rows r)
    \<and> length (open_metadata u) = unit_header + schema_columns s * descriptor_bytes \<and> validate_metadata (open_metadata u) db r s = Some (Inr ()))"
  unfolding read_unit_def Let_def
proof (rule answers_following [OF answers_any], simp, rule answers_following [OF answers_any], simp, goal_cases)
  case (1 h1 x)
  show ?case
  proof (cases x)
    case (Pair n h2)
    show ?thesis
      unfolding Pair prod.case
    proof (rule answers_if, simp, rule answers_following [OF answers_any], simp, goal_cases)
      case (1 h3)
      have "answers False (Some (read_exact_at h3 (unit_header + schema_columns s * descriptor_bytes) 0))
          (\<lambda>(m, _). length m = unit_header + schema_columns s * descriptor_bytes)"
        by (rule answers_some) (auto simp: read_exact_at_def attempt_Inr_conv not_less split: if_splits)
      then show ?case
      proof (rule answers_following, goal_cases)
        case (1 y)
        obtain m h4 where y: "y = (m, h4)" by (cases y)
        with 1 have m: "length m = unit_header + schema_columns s * descriptor_bytes" by simp
        obtain res where res: "validate_metadata m db r s = Some res" using validate_metadata_runs [OF assms] by blast
        show ?case
        proof (cases res)
          case (Inl e)
          then show ?thesis by (simp add: y res)
        next
          case (Inr u)
          then show ?thesis
            unfolding y prod.case res
            using m res by (simp, intro answers_following [OF answers_any]) simp_all
        qed
      qed
    qed
  qed
qed

lemma read_column_any:
  assumes "length (open_metadata u) = unit_header + schema_columns s * descriptor_bytes" and "open_rows u = unat (unit_rows r)"
    and "validate_metadata (open_metadata u) db r s = Some (Inr ())"
  shows "answers False (read_unit_column u i room h) (\<lambda>(v, _). \<forall>row < col_rows v. \<exists>cell. column_cell v row = Some (Inr cell))"
proof -
  have k: "(length (open_metadata u) - unit_header) div descriptor_bytes = schema_columns s"
    using assms(1) by (simp add: descriptor_bytes_def)
  show ?thesis
    unfolding read_unit_column_def k
  proof (rule answers_following [OF answers_any], simp, goal_cases)
    case (1 h1)
    show ?case
    proof (cases "find (\<lambda>entry. u32_at entry 0 = i) (descriptors (schema_columns s) (open_metadata u))")
      case (Some e)
      then have "e \<in> set (descriptors (schema_columns s) (open_metadata u))" by (auto simp: find_Some_iff)
      from validate_metadata_checks [OF assms(3) this, folded assms(2)] obtain kind where kind: "e ! 4 = type_tag kind"
        and least: "bitmap_bytes (open_rows u) + (case fixed_width kind of Some w \<Rightarrow> open_rows u * w | None \<Rightarrow> (open_rows u + 1) * 4) \<le> unat (u32_at e 16)"
        by blast
      have read: "answers False (Some (read_exact_at h1 (unat (u32_at e 16)) (unat (u64_at e 8)))) (\<lambda>(bytes, _). length bytes = unat (u32_at e 16))"
        by (rule answers_some) (auto simp: read_exact_at_def attempt_Inr_conv not_less split: if_splits)
      show ?thesis
        unfolding Some option.case Let_def
      proof (rule answers_following [OF answers_any], simp, rule answers_following [OF read], goal_cases)
        case (1 _ x)
        obtain bytes h2 where x: "x = (bytes, h2)" by (cases x)
        with 1 have len: "length bytes = unat (u32_at e 16)" by simp
        let ?v = "\<lparr>col_bytes = bytes, col_rows = open_rows u, col_kind = kind\<rparr>"
        obtain res where res: "column_validate (e ! 5 \<noteq> 0) ?v = Some res"
          using column_validate_runs [of ?v, unfolded column_view.simps, OF least [folded len]] by blast
        have cells: "\<forall>row < col_rows ?v. \<exists>cell. column_cell ?v row = Some (Inr cell)" if "res = Inr ()"
          using validated_cell [of _ ?v] res that by blast
        show ?case
          unfolding x prod.case
        proof (rule answers_following [OF answers_any], simp, rule answers_if, simp, goal_cases)
          case (1 h3)
          show ?case
          proof (cases res)
            case (Inl e')
            then show ?thesis by (simp add: kind res)
          next
            case (Inr w)
            with cells show ?thesis
              unfolding kind type_tag_of sum.case res option.map by (simp, intro answers_following [OF answers_any]) simp_all
          qed
        qed
      qed
    qed simp
  qed
qed

end
