(* ===== verification/Unit_Correct.thy ===== *)
theory Unit_Correct
  imports Unit_Safety Root_Codec
begin

text \<open>Native units end to end: what is written is read, and what is read never fails an assertion.\<close>

text \<open>C40: A native unit holds what was written into it, and reading is safe on any file. Take a schema that
  decoded, and inputs whose texts are UTF-8 and dates valid. Writing a unit fails no assertion. On a host
  that refuses nothing, with an empty private file, inputs that meet the requirements and buffers of the
  required sizes, it succeeds; and whenever it succeeds, anyone who later opens that file with the
  returned reference and asks for one of the columns gets, unless the host refuses a call, exactly
  the cells that were given, NULL where the validity bit is clear. And whatever bytes a file holds, whatever
  reference and column are asked for and whatever the host refuses, opening a unit and reading a column
  fails no assertion, and every row of a column that was accepted can be read.\<close>

theorem unit_roundtrip:
  assumes "decode_schema schema db table crc = Inr s" and "valid_database_id db" and "object_id_new writer ordinal = Inr i"
    and "\<forall>c \<in> set cs. unit_input_ok c"
  shows "answers (unit_granted s cs metadata_room column_room h) (write_unit i s cs metadata_room column_room h)
      (\<lambda>(r, written). \<forall>c later room. c \<in> set cs \<longrightarrow> uh_file later = uh_file written \<longrightarrow>
         answers (unit_quiet later \<and> uh_regular later \<and> max_column_bytes \<le> room)
           (following (read_unit db r s later) (\<lambda>(u, opened). read_unit_column u (in_id c) room opened))
           (\<lambda>(v, _). col_rows v = values_len (in_values c)
              \<and> (\<forall>row < values_len (in_values c). column_cell v row = Some (Inr (stored_cell c row)))))
    \<and> answers False (following (read_unit db r s any) (\<lambda>(u, opened). read_unit_column u column room opened))
        (\<lambda>(v, _). \<forall>row < col_rows v. \<exists>cell. column_cell v row = Some (Inr cell))"
proof
  obtain specs where specs: "schema_of s db specs" using decode_schema_of(1) [OF assms(1,2)] by blast
  have i: "valid_object_id i" using assms(3) by simp
  have reads: "answers (unit_quiet later \<and> uh_regular later \<and> max_column_bytes \<le> room)
      (following (read_unit db r s later) (\<lambda>(u, opened). read_unit_column u (in_id c) room opened))
      (\<lambda>(v, _). col_rows v = values_len (in_values c)
         \<and> (\<forall>row < values_len (in_values c). column_cell v row = Some (Inr (stored_cell c row))))"
    if unit: "unit_written s db i cs r (uh_file later)" and c: "c \<in> set cs" for r later c room
  proof -
    let ?g = "unit_quiet later \<and> uh_regular later \<and> max_column_bytes \<le> room"
    obtain rows ps where parts: "unit_parts s rows ps" "cs = map part_column ps"
      and r: "r = unit_reference s db i rows ps" and f: "uh_file later = unit_image s db i rows ps"
      using unit by (auto simp: unit_written_def)
    obtain p where p: "p \<in> set ps" "c = part_column p" using parts(2) c by auto
    have part: "part_ok s rows p" using parts(1) p(1) by (simp add: unit_parts_def list_all_iff)
    have len: "values_len (in_values c) = rows"
      using payload_length_parts(1) [of c "fst p" rows "length (part_bytes p)"] part p(2) by (simp add: part_ok_def)
    have cells: "column_cell \<lparr>col_bytes = part_bytes p, col_rows = rows, col_kind = spec_type (fst p)\<rparr> row = Some (Inr (stored_cell c row))"
      if "row < rows" for row
      using part p(2) that by (simp add: part_ok_def payload_holds_def)
    have later: "holds_file ?g (unit_image s db i rows ps) (uh_regular later) (uh_links later) later"
      using f by (simp add: holds_file_def)
    have opened: "answers ?g (read_unit db r s later) (\<lambda>(u, h'). u = \<lparr>open_metadata = unit_metadata s db i rows ps, open_rows = rows\<rparr>
        \<and> holds_file ?g (unit_image s db i rows ps) (uh_regular later) (uh_links later) h')"
      unfolding r by (rule answers_read_unit [OF parts(1) specs assms(2) i later]) simp
    show ?thesis
    proof (rule answers_following [OF opened], goal_cases)
      case (1 x)
      then obtain h' where x: "x = (\<lparr>open_metadata = unit_metadata s db i rows ps, open_rows = rows\<rparr>, h')"
        and h': "holds_file ?g (unit_image s db i rows ps) (uh_regular later) (uh_links later) h'" by (cases x) auto
      have "answers ?g (read_unit_column \<lparr>open_metadata = unit_metadata s db i rows ps, open_rows = rows\<rparr> (in_id c) room h')
          (\<lambda>(v, _). v = \<lparr>col_bytes = part_bytes p, col_rows = rows, col_kind = spec_type (fst p)\<rparr>)"
        unfolding p(2) by (rule answers_read_column [OF parts(1) specs assms(2) p(1) h']) simp
      then show ?case
        unfolding x prod.case by (rule answers_weaken) (auto simp: len cells)
    qed
  qed
  show "answers (unit_granted s cs metadata_room column_room h) (write_unit i s cs metadata_room column_room h)
      (\<lambda>(r, written). \<forall>c later room. c \<in> set cs \<longrightarrow> uh_file later = uh_file written \<longrightarrow>
         answers (unit_quiet later \<and> uh_regular later \<and> max_column_bytes \<le> room)
           (following (read_unit db r s later) (\<lambda>(u, opened). read_unit_column u (in_id c) room opened))
           (\<lambda>(v, _). col_rows v = values_len (in_values c)
              \<and> (\<forall>row < values_len (in_values c). column_cell v row = Some (Inr (stored_cell c row)))))"
    by (rule answers_weaken [OF answers_write_unit [OF specs assms(2) i assms(4)]]) (auto intro!: reads)
  show "answers False (following (read_unit db r s any) (\<lambda>(u, opened). read_unit_column u column room opened))
      (\<lambda>(v, _). \<forall>row < col_rows v. \<exists>cell. column_cell v row = Some (Inr cell))"
    by (rule answers_following [OF read_unit_any [OF specs]]) (auto intro: read_column_any)
qed

section \<open>A concrete unit\<close>

text \<open>Two columns of two rows; the second text is NULL.\<close>

definition unit_specs :: "column_spec list" where
  "unit_specs = [\<lparr>spec_id = 1, spec_name = [97], spec_type = Int64Type, spec_nullable = False\<rparr>,
     \<lparr>spec_id = 2, spec_name = [98], spec_type = StringType, spec_nullable = True\<rparr>]"

definition unit_sample :: "unit_column list" where
  "unit_sample = [\<lparr>in_id = 2, in_values = StringSlice [[104, 105], []], in_validity = [1]\<rparr>,
     \<lparr>in_id = 1, in_values = Int64Slice [5, 6], in_validity = [3]\<rparr>]"

definition unit_host0 :: unit_host where
  "unit_host0 = \<lparr>uh_file = [], uh_regular = True, uh_links = 1, uh_calls = [], uh_polls = []\<rparr>"

lemma unit_sample_schema:
  obtains schema table crc s where "decode_schema schema sample_database table crc = Inr s" "schema_of s sample_database unit_specs"
proof -
  have "\<exists>n out. encode_schema (replicate 160 0) sample_database 1 unit_specs = Inr (n, out)"
    by (simp add: encode_schema_def schema_extent_def schema_max_columns_def schema_column_bytes_def schema_header_def attempt_def
        unit_specs_def repeats_def same_name_def ascii_lower_def Let_def)
  then obtain n out where e: "encode_schema (replicate 160 0) sample_database 1 unit_specs = Inr (n, out)" by blast
  have "\<forall>c \<in> set unit_specs. spec_ok c"
    by (simp add: unit_specs_def spec_ok_def valid_name_def ascii_alphabetic_def)
  from encoded_schema_decodes [OF e this] that show thesis by fastforce
qed

lemma unit_sample_granted:
  assumes "schema_of s sample_database unit_specs"
  shows "unit_granted s unit_sample 128 19 unit_host0"
proof -
  have n: "schema_columns s = 2" using assms by (simp add: schema_of_def unit_specs_def)
  have c: "schema_column s 0 = Some (Some (unit_specs ! 0))" "schema_column s 1 = Some (Some (unit_specs ! 1))"
    using assms by (simp_all add: schema_of_def unit_specs_def)
  have spec: "schema_spec s 1 = Some (Inr (unit_specs ! 0))" "schema_spec s 2 = Some (Inr (unit_specs ! 1))"
    using c by (simp_all add: schema_spec_def n upt_rec unit_specs_def)
  have text_len: "payload_length \<lparr>in_id = 2, in_values = StringSlice [[104, 105], []], in_validity = [1]\<rparr> (unit_specs ! 1) 2 = Inr 15"
    by (simp add: payload_length_def unit_specs_def check_bitmap_def bitmap_bytes_def row_valid_def attempt_def unit_size_def within_def
        max_column_bytes_def max_value_bytes_def)
  have valid: "row_valid [3] row" if "row < 2" for row
    using that less_2_cases [OF that] by (auto simp: row_valid_def bit_iff_odd)
  have bits: "drop_bit 2 (3 :: u8) = 0" by (simp add: drop_bit_eq_div word_unat_eq_iff unat_div)
  have number_len: "payload_length \<lparr>in_id = 1, in_values = Int64Slice [5, 6], in_validity = [3]\<rparr> (unit_specs ! 0) 2 = Inr 17"
    by (simp add: payload_length_def unit_specs_def check_bitmap_def bitmap_bytes_def bits attempt_def unit_size_def within_def
        max_column_bytes_def fixed_width_def valid)
  have "requirements s unit_sample unit_host0 = Some (Inr (\<lparr>need_rows = 2, need_metadata = 128, need_column = 17, need_unit = 160\<rparr>, unit_host0))"
    by (simp add: requirements_def unit_sample_def unit_host0_def unit_poll_def n within_def max_unit_rows_def checked_spec_def spec
        text_len [unfolded numeral_2_eq_2 One_nat_def] number_len [unfolded numeral_2_eq_2] unit_size_def unit_header_def descriptor_bytes_def Let_def)
  then show ?thesis by (simp add: unit_granted_def unit_quiet_def unit_host0_def)
qed

theorem unit_roundtrip_witness:
  "\<exists>s i r written v w. write_unit i s unit_sample 128 19 unit_host0 = Some (Inr (r, written))
    \<and> following (read_unit sample_database r s (unit_host0\<lparr>uh_file := uh_file written\<rparr>)) (\<lambda>(u, opened). read_unit_column u 2 524288 opened) = Some (Inr (v, w))
    \<and> column_cell v 0 = Some (Inr (StringCell [104, 105])) \<and> column_cell v 1 = Some (Inr NullCell)"
proof -
  obtain schema table crc s where schema: "decode_schema schema sample_database table crc = Inr s" "schema_of s sample_database unit_specs"
    by (rule unit_sample_schema)
  let ?i = "\<lparr>attempt_of = 1, ordinal_of = 1\<rparr> :: object_id"
  have i: "object_id_new 1 1 = Inr ?i" by (simp add: object_id_new_def)
  have ok: "\<forall>c \<in> set unit_sample. unit_input_ok c" by (simp add: unit_sample_def unit_input_ok_def)
  let ?c = "hd unit_sample"
  have c: "?c \<in> set unit_sample" "in_id ?c = 2" by (simp_all add: unit_sample_def)
  note unit = unit_roundtrip [OF schema(1) sample_database_valid i ok, THEN conjunct1, of 128 19 unit_host0]
  obtain r written where wrote: "write_unit ?i s unit_sample 128 19 unit_host0 = Some (Inr (r, written))"
    and reads: "\<forall>c later room. c \<in> set unit_sample \<longrightarrow> uh_file later = uh_file written \<longrightarrow>
         answers (unit_quiet later \<and> uh_regular later \<and> max_column_bytes \<le> room)
           (following (read_unit sample_database r s later) (\<lambda>(u, opened). read_unit_column u (in_id c) room opened))
           (\<lambda>(v, _). col_rows v = values_len (in_values c)
              \<and> (\<forall>row < values_len (in_values c). column_cell v row = Some (Inr (stored_cell c row))))"
    using unit unit_sample_granted [OF schema(2)] by (elim answersE) (blast, auto)
  let ?later = "unit_host0\<lparr>uh_file := uh_file written\<rparr>"
  have quiet: "unit_quiet ?later \<and> uh_regular ?later \<and> max_column_bytes \<le> 524288" and len: "values_len (in_values ?c) = 2"
    by (simp_all add: unit_host0_def unit_quiet_def max_column_bytes_def unit_sample_def)
  have same: "uh_file ?later = uh_file written" by simp
  note read = reads [rule_format, OF c(1) same, of 524288, unfolded c(2) len]
  obtain v w where "following (read_unit sample_database r s ?later) (\<lambda>(u, opened). read_unit_column u 2 524288 opened) = Some (Inr (v, w))"
    and "\<forall>row < 2. column_cell v row = Some (Inr (stored_cell ?c row))"
    using read quiet by (elim answersE) (blast, auto)
  moreover from this(2) have "column_cell v 0 = Some (Inr (stored_cell ?c 0))" "column_cell v 1 = Some (Inr (stored_cell ?c 1))" by simp_all
  moreover have "stored_cell ?c 0 = StringCell [104, 105]" "stored_cell ?c 1 = NullCell"
    by (simp_all add: unit_sample_def stored_cell_def row_valid_def)
  ultimately show ?thesis using wrote by metis
qed

end
