(* ===== verification/Spec2Isabelle.thy ===== *)
theory Spec2Isabelle
  imports Commit_Properties Resources Registry Date_Value Scalar_Properties Boolean_Properties Row_Properties Sort_Delivery Csv_Correct Unit_Correct
begin

text \<open>
  A verification library for pipesql, an embedded analytical database written in Rust.

  \<^bold>\<open>The program.\<close> A database is a directory with a control record, two root replicas, a WAL
  record and immutable unit and schema objects. A writer builds new objects, then publishes a
  snapshot that names them: WAL first, then one root after the other. Opening a directory
  recovers: it reads the three records, chooses a snapshot and repairs the others. Inside a
  process a registry of four slots decides who sees which snapshot, and a memory authority
  bounds what every component may reserve. Queries are postfix scalar programs and branching
  filters over rows and blocks; ordering and grouping go through an external merge sort in two
  scratch files. Bulk loads frame, decode and type CSV in bounded batches, and rows are stored
  column by column in native units described by a stored schema. Paths below are under src/
  of the repository unless they start with checksum/.

  \<^bold>\<open>Conventions.\<close> Machine integers whose wrap-around or bit pattern matters are words; lengths and
  positions the code bounds before use are \<open>nat\<close>, with the bound checked where the code checks
  it. A \<open>Result\<close> is a sum with the error on the left, a panic (failed assertion, index out
  of bounds, failed \<open>expect\<close>) is \<open>None\<close>. A call on the host (file system, reader, cancellation
  poll) takes its outcome from a script that is part of the state, so theorems over all scripts
  are theorems over all failures. \<open>Checked_Calls\<close> states the common shape of what is proved
  of such code: no assertion fails, an error means the host refused something, and a result
  satisfies the postcondition (\<open>answers granted run post\<close>; with \<open>granted\<close> false an error is
  always allowed).

  \<^bold>\<open>Theories and the code they model.\<close>

  \<^item> \<open>Prelude\<close>, \<open>Errors\<close>, \<open>Checked_Calls\<close>: integers, byte fields, results; error.rs and
    error/cause.rs; sequences of fallible calls. \<open>Merge_Sort\<close> and \<open>Sort_Order\<close> hold what sorting
    asks of a comparison, as the locale \<open>comparison_order\<close>, which \<open>Row_Properties\<close>,
    \<open>Record_Properties\<close> and \<open>Run_Sort\<close> interpret on the code's own comparisons.

  \<^item> \<open>Checksum\<close>: checksum/src/lib.rs and checksum/src/ieee.rs. The table-driven update is the
    bitwise division by the polynomial (locales \<open>reflected_division\<close> and \<open>reflected_crc\<close>, interpreted
    on both polynomials), is compositional, and detects damage inside four adjacent bytes.

  \<^item> \<open>Identity\<close>, \<open>Object_Refs\<close>, \<open>Format_Base\<close>, \<open>Root_Format\<close>, \<open>Root_Codec\<close>: transaction.rs,
    storage/catalog.rs, storage/format.rs. Encoders and decoders of every commit record, round
    trips, and that a decoder accepts only well-formed records. \<open>Selection\<close>: \<open>transition_from\<close> and
    \<open>select_snapshot\<close>; a publication step moves history forward, and selection succeeds exactly
    on records that justify it, a lone root only beside a WAL that agrees with it.

  \<^item> \<open>Disk\<close>, \<open>Publication\<close>, \<open>Crash_Safety\<close>, \<open>Atomic_Commit\<close>, \<open>Commit_Properties\<close>:
    storage/publication.rs and storage/recovery.rs over a model of files that may lose any write
    that was not synchronized and any rename whose directory was not. A synchronized file keeps
    its content; between two synchronizations a crash keeps each byte of any content the file
    has had, so the WAL, which is rewritten in place, may be found torn. Two disk
    invariants cover every interruption of publication and of recovery.

  \<^item> \<open>Resources\<close>: resources.rs; the compare-and-exchange loop as steps that interleave with any
    other reservation and release. \<open>Registry\<close>: storage/snapshot.rs, one definition per critical
    section or atomic operation, with the invariant over all interleavings.

  \<^item> \<open>Date_Value\<close>: value/date.rs. \<open>Query_Types\<close>: value.rs, query/plan.rs, query/text_literal.rs.

  \<^item> \<open>Scalar_Program\<close>, \<open>Scalar_Arithmetic\<close>, \<open>Scalar_Evaluation\<close>, \<open>Scalar_Batch\<close>,
    \<open>Scalar_Properties\<close>: query/scalar.rs and query/scalar/evaluation.rs. Postfix programs, their
    validation, the resumable row evaluator with its jump tables and the batch evaluator, both
    proved to compute the value of the expression tree. Rounding of doubles is the parameter
    \<open>float_unit\<close>, of which nothing is assumed.

  \<^item> \<open>Boolean_Filter\<close>, \<open>Boolean_Properties\<close>: query/parser/boolean.rs, the branch checks of
    query/validation.rs, execution/predicate.rs, execution/computed.rs, execution/scan.rs.
    Compiled branches decide Kleene's three-valued truth, pass the validator, and block scans keep
    the same rows as the row loop.

  \<^item> \<open>Sort_Row\<close>, \<open>Row_Properties\<close>: execution/blocking/record.rs, the encoded rows and their
    comparison. \<open>Sort_Io\<close>, \<open>Io_Properties\<close>, \<open>Calls\<close>: execution/blocking/io.rs and
    storage/scratch.rs. \<open>Sort_Record\<close>, \<open>Record_Properties\<close>: frames. \<open>Run_Buffer\<close>, \<open>Run_Sort\<close>,
    \<open>Run_Properties\<close>: initial runs. \<open>Run_Merge\<close>, \<open>Row_Sort\<close>, \<open>Merge_Cursors\<close>, \<open>Merge_Pairs\<close>,
    \<open>Merge_Files\<close>, \<open>Merge_Steps\<close>, \<open>Merge_Passes\<close>, \<open>External_Sort\<close>, \<open>Sort_Delivery\<close>: cursors, pair
    merges, passes and the controller of execution/blocking.rs, up to the client loop that
    receives the sorted rows.

  \<^item> \<open>Csv_Decoder\<close>: csv.rs, csv/record.rs, csv/typed.rs, with \<open>Column_Names\<close> (schema.rs) and
    batch/input.rs. \<open>Csv_Text\<close> states the documented grammar; \<open>Csv_Reading\<close>, \<open>Csv_Scanning\<close>,
    \<open>Csv_Fields\<close>, \<open>Csv_Rows\<close>, \<open>Csv_Table\<close>, \<open>Csv_Loading\<close>, \<open>Csv_Filling\<close>, \<open>Csv_Decoding\<close>,
    \<open>Csv_Delivery\<close> and \<open>Csv_Correct\<close> lead from the bytes a reader delivers, cut anywhere, to the
    rows of the document. \<open>Utf8_Texts\<close> holds the facts on UTF-8 they and the units share.

  \<^item> \<open>Storage_Schema\<close>, \<open>Schema_Properties\<close>: storage/schema.rs. \<open>Native_Unit\<close>, \<open>Unit_File\<close>: storage/unit.rs
    with \<open>open_object\<close> of storage/catalog.rs and \<open>ColumnValues\<close> of batch/input.rs. \<open>Unit_Payload\<close>,
    \<open>Unit_Cells\<close>, \<open>Unit_Writing\<close>, \<open>Unit_Metadata\<close>, \<open>Unit_Properties\<close>, \<open>Unit_Roundtrip\<close>, \<open>Unit_Reading\<close>,
    \<open>Unit_Safety\<close> and \<open>Unit_Correct\<close> show that written units read back and that reading any file
    is safe.
\<close>

text \<open>
  \<^bold>\<open>Torn WALs.\<close> A checksum cannot detect every mixture of an old and a new record. The theory
  therefore does not assume that it does: \<open>undetected_tear prior record d\<close> says that the disk's WAL
  is neither image and its CRC32C matches all the same. The properties of \<open>Commit_Properties\<close> state what holds in
  that case too: publication had not returned, both roots still hold the prior snapshot, and a
  database that cannot be read is left as it is.

  \<^bold>\<open>Bounds and fuel.\<close> Publication ends within fifty calls the host completes, recovery within
  twenty-five; both are upper bounds that are proved to suffice. A reservation makes sixty-four attempts (\<open>reservation_attempts\<close>), as the code
  does. The run buffer needs \<open>sort_cost\<close> moves plus one per row and one, the merge passes
  \<open>merge_budget\<close>; the theorems on the sorter say that a client loop with that many calls is done, so
  its fuel is never what ends it. \<open>retains_loop\<close> and \<open>reduce_all\<close> run on the number of filters
  and of stacked operators, of which each turn consumes one. The CSV client draws at most one
  batch more than the input has bytes, and every batch takes a row of at least one byte. Loops without such a bound are \<open>partial_function
  (option)\<close>, and termination is part of the theorems on them.

  \<^bold>\<open>Not modelled.\<close> The file system crate and the fault-injection hooks are
  outcomes of calls. Message texts, the lexer and the parser's token loop, name binding and
  planning are left out, so are the operators for aggregation, joins, set operations, limit,
  union and count, and column loading in scans; JSON Lines, Parquet, export and the import
  transactions around the decoders; table catalogs, history, reclamation and appends, whose commits
  enter only as snapshots to publish. The legacy table format is left out with
  the filter kernel of execution/scan/legacy.rs: \<open>filter_source\<close> compares row by row for every source. Within modelled parts: registry locks that are
  poisoned or fail are left out of \<open>Registry\<close>; \<open>io_bytes\<close> is the GNU/Linux size; the overflow check in
  \<open>refill\<close> cannot be reached within the file bounds; memory admission of a run buffer is decided
  before \<open>new_run\<close>; the reusable buffer around \<open>read_unit_column\<close> is its result; the AArch64 checksum
  instructions are another encoding of the portable update. The command line, the development driver
  and the examples are glue.
\<close>

end
